(* ===== verification/Prelude.thy ===== *)
theory Prelude
  imports Main "HOL-Library.Word" "HOL-Library.Char_ord" "HOL-Library.List_Lexorder"
begin

unbundle bit_operations_syntax

text \<open>
  Shared vocabulary of the development: the machine integers of the code (\<open>uint64_t\<close> is
  \<open>u64\<close>, \<open>__u32\<close> is \<open>u32\<close>, a byte is \<open>u8\<close>), the errno values the code returns, and the lemmas
  on words and lists that every component uses. A C \<open>int\<close> return code is an \<open>int\<close>; a run that
  ends in a failed \<open>assert\<close> or a division by zero is \<open>None\<close>.
\<close>

type_synonym u8 = "8 word"
type_synonym u32 = "32 word"
type_synonym u64 = "64 word"
type_synonym bytes = "u8 list"

named_theorems u64_arith \<open>unat of word operations that do not wrap\<close>
named_theorems run_inv \<open>rules that invert a run that returned\<close>

subsection \<open>errno values\<close>

abbreviation (input) ENOENT :: int where "ENOENT \<equiv> 2"
abbreviation (input) EIO :: int where "EIO \<equiv> 5"
abbreviation (input) ENXIO :: int where "ENXIO \<equiv> 6"
abbreviation (input) EBUSY :: int where "EBUSY \<equiv> 16"
abbreviation (input) EEXIST :: int where "EEXIST \<equiv> 17"
abbreviation (input) EINVAL :: int where "EINVAL \<equiv> 22"
abbreviation (input) EFBIG :: int where "EFBIG \<equiv> 27"
abbreviation (input) EROFS :: int where "EROFS \<equiv> 30"
abbreviation (input) EDOM :: int where "EDOM \<equiv> 33"
abbreviation (input) ERANGE :: int where "ERANGE \<equiv> 34"
abbreviation (input) ENOSYS :: int where "ENOSYS \<equiv> 38"
abbreviation (input) ENOTEMPTY :: int where "ENOTEMPTY \<equiv> 39"
abbreviation (input) ESTALE :: int where "ESTALE \<equiv> 116"
abbreviation (input) ENOEXEC :: int where "ENOEXEC \<equiv> 8"
abbreviation (input) EBADF :: int where "EBADF \<equiv> 9"
abbreviation (input) EBADMSG :: int where "EBADMSG \<equiv> 74"
abbreviation (input) EOPNOTSUPP :: int where "EOPNOTSUPP \<equiv> 95"

subsection \<open>Narrowing\<close>

text \<open>A value converted to C \<open>int\<close>: 32 bits, two's complement.\<close>

definition c_int :: "int \<Rightarrow> int" where
  "c_int x = sint (word_of_int x :: u32)"

lemma c_int_id: "- 2147483648 \<le> x \<Longrightarrow> x < 2147483648 \<Longrightarrow> c_int x = x"
  unfolding c_int_def sint_sbintrunc' by (rule signed_take_bit_int_eq_self) simp_all

subsection \<open>Options\<close>

fun the_default :: "'a \<Rightarrow> 'a option \<Rightarrow> 'a" where
  "the_default d (Some x) = x"
| "the_default d None = d"

subsection \<open>Words that do not wrap\<close>

lemma unat_lt: "unat (x :: 'a::len word) < 2 ^ LENGTH('a)"
  by (rule unsigned_less)

lemma unat_lt_u64 [simp]: "unat (x :: u64) < 18446744073709551616"
  using unat_lt [of x] by simp

lemma not_le_u64 [simp]: "\<not> 18446744073709551616 \<le> unat (x :: u64)"
  by (simp add: not_le)

lemma unat_u32_u64: "unat (ucast (x :: u32) :: u64) = unat x"
proof -
  have "unat x < 2 ^ LENGTH(64)"
    using unat_lt [of x] by simp
  then show ?thesis
    by (simp add: unsigned_ucast_eq take_bit_nat_eq_self)
qed

lemma unat_add_bound [u64_arith]:
  "unat (a :: u64) + unat b \<le> unat (c :: u64) \<Longrightarrow> unat (a + b) = unat a + unat b"
  using le_less_trans [OF _ unat_lt_u64 [of c]] by (simp add: unat_add_lem [symmetric])

lemma unat_add_lt: "unat (a :: u64) + unat b < 2 ^ 64 \<Longrightarrow> unat (a + b) = unat a + unat b"
  by (simp add: unat_add_lem [symmetric])

lemma unat_mult_bound [u64_arith]:
  "unat (a :: u64) * unat b \<le> unat (c :: u64) \<Longrightarrow> unat (a * b) = unat a * unat b"
  using le_less_trans [OF _ unat_lt_u64 [of c]] by (simp add: unat_mult_lem [symmetric])

lemma unat_sub_le [u64_arith]:
  "unat (b :: u64) \<le> unat a \<Longrightarrow> unat (a - b) = unat a - unat b"
  by (simp add: unat_sub word_le_nat_alt)

lemma unat_div_u64 [u64_arith]: "unat ((a :: u64) div b) = unat a div unat b"
  by (simp add: unat_div)

lemma unat_mod_u64 [u64_arith]: "unat ((a :: u64) mod b) = unat a mod unat b"
  by (simp add: unat_mod)

lemma unat_min_u64 [u64_arith]: "unat (min (a :: u64) b) = min (unat a) (unat b)"
  by (simp add: min_def word_le_nat_alt)

lemma u64_eqI: "unat (a :: u64) = unat b \<Longrightarrow> a = b"
  by (simp add: word_unat_eq_iff)

lemma unat_add_le: "unat ((a :: u64) + b) \<le> unat a + unat b"
  unfolding unat_word_ariths by (rule mod_less_eq_dividend)

lemma sub_lt_range:
  assumes "unat (off :: u64) + unat n < 2 ^ 64"
  shows "unat (y - off) < unat n \<longleftrightarrow> unat off \<le> unat y \<and> unat y < unat off + unat n"
proof (cases "unat off \<le> unat y")
  case True
  then show ?thesis by (simp add: unat_sub_le) linarith
next
  case False
  have "unat (y - off) = unat y + 2 ^ 64 - unat off"
    using False by (simp add: unat_sub_if_size word_le_nat_alt word_size)
  moreover have "unat off < 2 ^ 64" using unat_lt [of off] by simp
  ultimately show ?thesis using False assms by linarith
qed

lemma unat_shift_u64: "k < 64 \<Longrightarrow> unat (push_bit k (1 :: u64)) = 2 ^ k"
proof -
  assume "k < 64"
  then have "(2 :: nat) ^ k < 2 ^ 64" by (intro power_strict_increasing) simp_all
  then have "take_bit 64 ((2 :: nat) ^ k) = 2 ^ k" by (rule take_bit_nat_eq_self)
  then show ?thesis
    unfolding unsigned_push_bit_eq by (simp add: push_bit_eq_mult del: push_bit_of_1)
qed

lemma unat_pos_u64: "(x :: u64) \<noteq> 0 \<longleftrightarrow> 0 < unat x"
  by (simp add: unat_gt_0)

end
