(* ===== verification/Stdmap.thy ===== *)
theory Stdmap
  imports Prelude
begin

text \<open>
  The part of \<open>std::map\<close> the code uses, as an association list sorted by key: iteration order is
  the order of the list, \<open>m[k] = v\<close> is \<open>smap_put\<close>, \<open>insert\<close> (which never overwrites) is
  \<open>smap_insert\<close>, \<open>erase\<close> is \<open>smap_erase\<close>, and \<open>m[k]\<close> read as a value, which inserts a default
  for a missing key, is \<open>smap_at\<close>. The interface locale \<open>ordered_map\<close> carries the laws that the
  tables of the other theories rest on; \<open>sm\<close> is its interpretation on the sorted lists.
\<close>

type_synonym ('k, 'v) smap = "('k \<times> 'v) list"

definition smap_ok :: "('k::linorder, 'v) smap \<Rightarrow> bool" where
  "smap_ok m \<longleftrightarrow> sorted_wrt (<) (map fst m)"

fun smap_put :: "'k::linorder \<Rightarrow> 'v \<Rightarrow> ('k, 'v) smap \<Rightarrow> ('k, 'v) smap" where
  "smap_put k v [] = [(k, v)]"
| "smap_put k v ((a, b) # m) =
     (if k < a then (k, v) # (a, b) # m
      else if k = a then (k, v) # m
      else (a, b) # smap_put k v m)"

fun smap_insert :: "'k::linorder \<Rightarrow> 'v \<Rightarrow> ('k, 'v) smap \<Rightarrow> ('k, 'v) smap" where
  "smap_insert k v [] = [(k, v)]"
| "smap_insert k v ((a, b) # m) =
     (if k < a then (k, v) # (a, b) # m
      else if k = a then (a, b) # m
      else (a, b) # smap_insert k v m)"

fun smap_erase :: "'k::linorder \<Rightarrow> ('k, 'v) smap \<Rightarrow> ('k, 'v) smap" where
  "smap_erase k [] = []"
| "smap_erase k ((a, b) # m) = (if k = a then m else (a, b) # smap_erase k m)"

definition smap_at :: "'v \<Rightarrow> 'k::linorder \<Rightarrow> ('k, 'v) smap \<Rightarrow> 'v \<times> ('k, 'v) smap" where
  "smap_at d k m = (case map_of m k of Some v \<Rightarrow> (v, m) | None \<Rightarrow> (d, smap_put k d m))"

subsection \<open>Lookup after an update\<close>

lemma smap_ok_Nil [simp]: "smap_ok []"
  by (simp add: smap_ok_def)

lemma smap_ok_Cons [simp]:
  "smap_ok ((a, b) # m) \<longleftrightarrow> (\<forall>k \<in> fst ` set m. a < k) \<and> smap_ok m"
  by (auto simp: smap_ok_def)

lemma smap_ok_distinct: "smap_ok m \<Longrightarrow> distinct (map fst m)"
  by (auto simp: smap_ok_def strict_sorted_iff)

lemma smap_ok_append:
  "smap_ok (xs @ ys) \<longleftrightarrow>
     smap_ok xs \<and> smap_ok ys \<and> (\<forall>a \<in> fst ` set xs. \<forall>b \<in> fst ` set ys. a < b)"
  by (auto simp: smap_ok_def sorted_wrt_append)

lemma map_of_below: "smap_ok m \<Longrightarrow> \<forall>k \<in> fst ` set m. x < k \<Longrightarrow> map_of m x = None"
  by (induction m) auto

lemma map_of_smap_put [simp]: "map_of (smap_put k v m) = (map_of m)(k \<mapsto> v)"
  by (induction m) auto

lemma map_of_smap_insert [simp]:
  "smap_ok m \<Longrightarrow>
     map_of (smap_insert k v m) = (if map_of m k = None then (map_of m)(k \<mapsto> v) else map_of m)"
proof (induction m)
  case Nil
  then show ?case by simp
next
  case (Cons p m)
  obtain a b where p: "p = (a, b)" by (cases p)
  show ?case
  proof (cases "k < a")
    case True
    with Cons.prems p have "map_of m k = None"
      by (auto intro!: map_of_below)
    with True p show ?thesis by auto
  next
    case False
    with Cons p show ?thesis by (auto simp: fun_eq_iff)
  qed
qed

lemma map_of_smap_erase [simp]:
  "smap_ok m \<Longrightarrow> map_of (smap_erase k m) = (map_of m)(k := None)"
proof (induction m)
  case Nil
  then show ?case by simp
next
  case (Cons p m)
  obtain a b where p: "p = (a, b)" by (cases p)
  from Cons.prems p have "map_of m a = None"
    by (auto intro!: map_of_below)
  with Cons p show ?case by (auto simp: fun_eq_iff)
qed

lemma smap_put_put [simp]: "smap_put k v (smap_put k w m) = smap_put k v m"
  by (induction k w m rule: smap_put.induct) auto

lemma keys_smap_put: "fst ` set (smap_put k v m) = insert k (fst ` set m)"
  by (induction k v m rule: smap_put.induct) auto

lemma keys_smap_insert: "fst ` set (smap_insert k v m) = insert k (fst ` set m)"
  by (induction k v m rule: smap_insert.induct) auto

lemma keys_smap_erase_subset: "fst ` set (smap_erase k m) \<subseteq> fst ` set m"
  by (induction k m rule: smap_erase.induct) auto

lemma smap_ok_put [simp]: "smap_ok m \<Longrightarrow> smap_ok (smap_put k v m)"
proof (induction m)
  case Nil
  then show ?case by simp
next
  case (Cons p m)
  then show ?case
    by (cases p; cases "k < fst p"; cases "k = fst p")
      (simp_all add: keys_smap_put ball_simps less_trans [of k] split_paired_all, force)
qed

lemma smap_ok_insert [simp]: "smap_ok m \<Longrightarrow> smap_ok (smap_insert k v m)"
proof (induction m)
  case Nil
  then show ?case by simp
next
  case (Cons p m)
  then show ?case
    by (cases p; cases "k < fst p"; cases "k = fst p")
      (simp_all add: keys_smap_insert ball_simps less_trans [of k] split_paired_all, force)
qed

lemma smap_ok_erase [simp]: "smap_ok m \<Longrightarrow> smap_ok (smap_erase k m)"
proof (induction m)
  case Nil
  then show ?case by simp
next
  case (Cons p m)
  obtain a b where p: "p = (a, b)" by (cases p)
  with Cons have "\<forall>x \<in> fst ` set (smap_erase k m). a < x" and "smap_ok (smap_erase k m)"
    using keys_smap_erase_subset [of k m] by (simp_all add: subset_iff) fastforce
  with Cons.prems p show ?case by simp
qed

lemma smap_ok_at [simp]: "smap_ok m \<Longrightarrow> smap_ok (snd (smap_at d k m))"
  by (auto simp: smap_at_def split: option.splits)

lemma fst_smap_at: "fst (smap_at d k m) = (case map_of m k of Some v \<Rightarrow> v | None \<Rightarrow> d)"
  by (auto simp: smap_at_def split: option.splits)

lemma smap_put_same: "smap_ok m \<Longrightarrow> map_of m k = Some v \<Longrightarrow> smap_put k v m = m"
  by (induction m) (auto split: if_splits dest: map_of_SomeD, fastforce dest: map_of_SomeD)

lemma keys_smap_put_existing:
  "smap_ok m \<Longrightarrow> k \<in> fst ` set m \<Longrightarrow> map fst (smap_put k v m) = map fst m"
  by (induction m) (auto split: if_splits, force+)

text \<open>A sorted list is determined by its lookup function.\<close>

lemma smap_eqI:
  "smap_ok m \<Longrightarrow> smap_ok n \<Longrightarrow> map_of m = map_of n \<Longrightarrow> m = n"
proof (induction m arbitrary: n)
  case Nil
  then show ?case by (cases n) (auto dest: fun_cong split: if_splits)
next
  case (Cons p m)
  obtain a b where p: "p = (a, b)" by (cases p)
  show ?case
  proof (cases n)
    case Nil
    with Cons.prems p show ?thesis by (auto dest: fun_cong [where x = a])
  next
    case (Cons q n')
    obtain c d where q: "q = (c, d)" by (cases q)
    have okm: "smap_ok m" "map_of m a = None"
      using Cons.prems(1) p by (auto intro!: map_of_below)
    have okn: "smap_ok n'" "map_of n' c = None"
      using Cons.prems(2) Cons q by (auto intro!: map_of_below)
    have eq: "map_of ((a, b) # m) = map_of ((c, d) # n')"
      using Cons.prems(3) Cons p q by metis
    have ac: "a = c"
    proof (rule ccontr)
      assume ne: "a \<noteq> c"
      from eq have "map_of ((c, d) # n') a = Some b"
        by (metis map_of_Cons_code(2))
      with ne have "a \<in> fst ` set n'"
        by (auto dest!: map_of_SomeD simp: rev_image_eqI)
      with Cons.prems(2) Cons q have "c < a" by auto
      from eq have "map_of ((a, b) # m) c = Some d"
        by (metis map_of_Cons_code(2))
      with ne have "c \<in> fst ` set m"
        by (auto dest!: map_of_SomeD simp: rev_image_eqI)
      with Cons.prems(1) p have "a < c" by auto
      with \<open>c < a\<close> show False by simp
    qed
    moreover have "b = d"
      using fun_cong [OF eq, of a] ac by simp
    moreover have "map_of m = map_of n'"
    proof
      fix x
      show "map_of m x = map_of n' x"
        using fun_cong [OF eq, of x] okm(2) okn(2) ac by (cases "x = a") auto
    qed
    then have "m = n'"
      using Cons.IH okm(1) okn(1) by blast
    ultimately show ?thesis using Cons p q by simp
  qed
qed

subsection \<open>Entries after an update\<close>

lemma entries_smap_put:
  "smap_ok m \<Longrightarrow> set (smap_put i s m) = insert (i, s) {e \<in> set m. fst e \<noteq> i}"
proof (induction i s m rule: smap_put.induct)
  case (2 k v a b m)
  have "k < a \<Longrightarrow> e \<in> set m \<Longrightarrow> fst e \<noteq> k" for e
    using 2(2) by fastforce
  with 2 show ?case by auto
qed simp

lemma all_smap_put:
  assumes "smap_ok m" "\<forall>e \<in> set m. P e" "P (i, s)"
  shows "\<forall>e \<in> set (smap_put i s m). P e"
  using assms by (simp add: entries_smap_put)

lemma set_smap_erase: "set (smap_erase i m) \<subseteq> set m"
  by (induction i m rule: smap_erase.induct) auto

lemma entries_smap_erase: "smap_ok m \<Longrightarrow> set (smap_erase i m) = {e \<in> set m. fst e \<noteq> i}"
proof (induction i m rule: smap_erase.induct)
  case (2 k a b m)
  have "e \<in> set m \<Longrightarrow> fst e \<noteq> a" for e using 2(2) by fastforce
  with 2 show ?case by auto
qed simp

lemma smap_ok_distinct_entries: "smap_ok m \<Longrightarrow> distinct m"
  using smap_ok_distinct [of m] by (simp add: distinct_map)

lemma distinct_smap_erase:
  assumes "smap_ok m" "distinct (map (\<lambda>e. f (snd e)) m)"
  shows "distinct (map (\<lambda>e. f (snd e)) (smap_erase i m))"
  using inj_on_subset [OF _ set_smap_erase [of i m], of "\<lambda>e. f (snd e)"] assms(2)
    smap_ok_distinct_entries [OF smap_ok_erase [OF assms(1)], of i]
  by (simp add: distinct_map)

lemma distinct_smap_put:
  assumes "smap_ok m" "distinct (map (\<lambda>e. f (snd e)) m)" "\<forall>e \<in> set m. f (snd e) \<noteq> f s \<and> fst e \<noteq> i"
  shows "distinct (map (\<lambda>e. f (snd e)) (smap_put i s m))"
proof -
  have "set (smap_put i s m) = insert (i, s) (set m)"
    using assms(3) by (auto simp: entries_smap_put [OF assms(1)])
  moreover have "inj_on (\<lambda>e. f (snd e)) (set m)" using assms(2) by (simp add: distinct_map)
  ultimately have "inj_on (\<lambda>e. f (snd e)) (set (smap_put i s m))"
    using assms(3) by (auto simp: inj_on_insert)
  then show ?thesis
    using smap_ok_distinct_entries [OF smap_ok_put [OF assms(1)]] by (simp add: distinct_map)
qed

lemma map_smap_put_same:
  "smap_ok m \<Longrightarrow> map_of m i = Some s0 \<Longrightarrow> f s = f s0 \<Longrightarrow>
     map (\<lambda>e. f (snd e)) (smap_put i s m) = map (\<lambda>e. f (snd e)) m"
  by (induction i s m rule: smap_put.induct) (auto dest!: map_of_SomeD split: if_splits)

subsection \<open>The interface of an ordered map\<close>

locale ordered_map =
  fixes emp :: "'m"
    and find :: "'m \<Rightarrow> 'k \<Rightarrow> 'v option"
    and put :: "'k \<Rightarrow> 'v \<Rightarrow> 'm \<Rightarrow> 'm"
    and ins :: "'k \<Rightarrow> 'v \<Rightarrow> 'm \<Rightarrow> 'm"
    and del :: "'k \<Rightarrow> 'm \<Rightarrow> 'm"
    and valid :: "'m \<Rightarrow> bool"
  assumes valid_emp: "valid emp"
    and find_emp: "find emp k = None"
    and valid_put: "valid m \<Longrightarrow> valid (put k v m)"
    and find_put: "valid m \<Longrightarrow> find (put k v m) = (find m)(k \<mapsto> v)"
    and valid_ins: "valid m \<Longrightarrow> valid (ins k v m)"
    and find_ins: "valid m \<Longrightarrow>
      find (ins k v m) = (if find m k = None then (find m)(k \<mapsto> v) else find m)"
    and valid_del: "valid m \<Longrightarrow> valid (del k m)"
    and find_del: "valid m \<Longrightarrow> find (del k m) = (find m)(k := None)"
begin

lemma valid_fold_ins: "valid m \<Longrightarrow> valid (fold (\<lambda>(k, v). ins k v) kvs m)"
  by (induction kvs arbitrary: m) (auto simp: valid_ins)

lemma find_fold_ins:
  "valid m \<Longrightarrow> distinct (map fst kvs) \<Longrightarrow> \<forall>k \<in> fst ` set kvs. find m k = None \<Longrightarrow>
     find (fold (\<lambda>(k, v). ins k v) kvs m) = map_of kvs ++ find m"
proof (induction kvs arbitrary: m)
  case Nil
  then show ?case by simp
next
  case (Cons p kvs)
  obtain k v where p: "p = (k, v)" by (cases p)
  have new: "find (ins k v m) = (find m)(k \<mapsto> v)"
    using Cons.prems p find_ins [of m k v] by simp
  have "find (fold (\<lambda>(k, v). ins k v) kvs (ins k v m)) = map_of kvs ++ find (ins k v m)"
    using Cons.prems p by (intro Cons.IH valid_ins) (auto simp: new)
  moreover have "map_of kvs k = None"
    using Cons.prems(2) p by (simp add: map_of_eq_None_iff)
  then have "map_of kvs ++ (find m)(k \<mapsto> v) = map_of ((k, v) # kvs) ++ find m"
    using Cons.prems(3) p by (auto simp: fun_eq_iff map_add_def split: option.splits)
  ultimately show ?case using p new by (simp add: fun_upd_def)
qed

lemma find_fold_ins_emp:
  "distinct (map fst kvs) \<Longrightarrow> find (fold (\<lambda>(k, v). ins k v) kvs emp) = map_of kvs"
  using find_fold_ins [OF valid_emp, of kvs]
  by (simp add: find_emp map_add_def fun_eq_iff split: option.splits)

lemma put_del: "valid m \<Longrightarrow> find (put k v (del k m)) = find (put k v m)"
  by (simp add: find_put find_del valid_del)

end

interpretation sm: ordered_map "[]" map_of smap_put smap_insert smap_erase smap_ok
  by unfold_locales (auto simp: fun_eq_iff)

text \<open>Inserting the entries of a sorted list one by one into an empty map gives the list back.\<close>

lemma fold_insert_sorted:
  "smap_ok m \<Longrightarrow> fold (\<lambda>(k, v). smap_insert k v) m [] = m"
  by (rule smap_eqI [OF sm.valid_fold_ins])
    (auto simp: sm.find_fold_ins_emp smap_ok_distinct)

end
