(* ===== verification/Textio.thy ===== *)
theory Textio
  imports Prelude
begin

text \<open>
  The text formatting the code takes from the C and C++ libraries: decimal output and input of
  integers through a \<open>stringstream\<close>, hexadecimal output as \<open>%x\<close> and \<open>%0<w>llx\<close> give it, hexadecimal
  input, and \<open>getline\<close> with a delimiter. Reading is modelled on the characters that the writers
  produce (an optional minus sign and digits); \<open>None\<close> is a stream whose extraction failed.
\<close>

subsection \<open>Digits\<close>

definition digit_char :: "nat \<Rightarrow> char" where
  "digit_char d = (if d < 10 then char_of (48 + d) else char_of (87 + d))"

definition char_digit :: "nat \<Rightarrow> char \<Rightarrow> nat option" where
  "char_digit base c =
     (let n = of_char c :: nat;
          d = (if 48 \<le> n \<and> n \<le> 57 then n - 48
               else if 97 \<le> n \<and> n \<le> 102 then n - 87
               else if 65 \<le> n \<and> n \<le> 70 then n - 55 else base)
      in if d < base then Some d else None)"

lemma char_digit_char: "d < base \<Longrightarrow> base \<le> 16 \<Longrightarrow> char_digit base (digit_char d) = Some d"
  by (auto simp: char_digit_def digit_char_def Let_def)

lemma digit_char_neq:
  "d < 16 \<Longrightarrow> digit_char d \<noteq> CHR ''#'' \<and> digit_char d \<noteq> CHR ''-'' \<and> digit_char d \<noteq> CHR ''.''"
proof -
  assume "d < 16"
  then have "of_char (digit_char d) \<noteq> (35 :: nat)" "of_char (digit_char d) \<noteq> (45 :: nat)"
    "of_char (digit_char d) \<noteq> (46 :: nat)"
    by (auto simp: digit_char_def)
  then show ?thesis by auto
qed

fun show_nat :: "nat \<Rightarrow> nat \<Rightarrow> string" where
  "show_nat base n =
     (if base < 2 \<or> n < base then [digit_char n]
      else show_nat base (n div base) @ [digit_char (n mod base)])"

declare show_nat.simps [simp del]

fun read_digits :: "nat \<Rightarrow> nat \<Rightarrow> string \<Rightarrow> nat \<times> string" where
  "read_digits base acc [] = (acc, [])"
| "read_digits base acc (c # cs) =
     (case char_digit base c of None \<Rightarrow> (acc, c # cs) | Some d \<Rightarrow> read_digits base (acc * base + d) cs)"

text \<open>Characters that end a number: anything that is not a digit of the base.\<close>

definition stops :: "nat \<Rightarrow> string \<Rightarrow> bool" where
  "stops base cs = (case cs of [] \<Rightarrow> True | c # _ \<Rightarrow> char_digit base c = None)"

lemma read_digits_stop: "stops base cs \<Longrightarrow> read_digits base acc cs = (acc, cs)"
  by (cases cs) (auto simp: stops_def)

lemma read_digits_append:
  "read_digits base acc (xs @ cs) =
     (case read_digits base acc xs of (a, []) \<Rightarrow> read_digits base a cs | (a, r) \<Rightarrow> (a, r @ cs))"
  by (induction base acc xs rule: read_digits.induct) (auto split: option.splits)

lemma show_nat_nonempty [simp]: "show_nat base n \<noteq> []"
  by (subst show_nat.simps) simp

lemma show_nat_small: "n < base \<Longrightarrow> show_nat base n = [digit_char n]"
  by (subst show_nat.simps) simp

lemma show_nat_step:
  "2 \<le> base \<Longrightarrow> base \<le> n \<Longrightarrow>
     show_nat base n = show_nat base (n div base) @ [digit_char (n mod base)]"
  by (subst show_nat.simps) simp

lemma show_nat_chars: "2 \<le> base \<Longrightarrow> c \<in> set (show_nat base n) \<Longrightarrow> \<exists>d < base. c = digit_char d"
proof (induction base n rule: show_nat.induct)
  case (1 base n)
  show ?case
  proof (cases "n < base")
    case True
    with "1.prems" show ?thesis by (auto simp: show_nat_small)
  next
    case False
    with "1.prems" have "c \<in> set (show_nat base (n div base)) \<or> c = digit_char (n mod base)"
      by (auto simp: show_nat_step not_less)
    with "1" False show ?thesis by (auto intro: exI [of _ "n mod base"])
  qed
qed

lemma show_nat_avoids:
  "2 \<le> base \<Longrightarrow> base \<le> 16 \<Longrightarrow> c = CHR ''#'' \<or> c = CHR ''-'' \<or> c = CHR ''.'' \<Longrightarrow>
     c \<notin> set (show_nat base n)"
  by (metis digit_char_neq order_less_le_trans show_nat_chars)

text \<open>Reading back what was printed, whatever leading zeroes precede it.\<close>

lemma read_show_nat:
  assumes base: "2 \<le> base" "base \<le> 16"
  shows "read_digits base 0 (show_nat base n) = (n, [])"
proof (induction n rule: less_induct)
  case (less n)
  show ?case
  proof (cases "n < base")
    case True
    with base show ?thesis
      by (subst show_nat.simps) (simp add: char_digit_char)
  next
    case False
    with base have "n div base < n" by (simp add: div_less_dividend)
    then have "read_digits base 0 (show_nat base (n div base)) = (n div base, [])"
      by (rule less.IH)
    moreover have "char_digit base (digit_char (n mod base)) = Some (n mod base)"
      using base by (simp add: char_digit_char)
    ultimately show ?thesis
      using False base by (subst show_nat.simps) (simp add: read_digits_append)
  qed
qed

lemma read_zeroes:
  "2 \<le> base \<Longrightarrow> base \<le> 16 \<Longrightarrow>
     read_digits base 0 (replicate k (CHR ''0'') @ cs) = read_digits base 0 cs"
proof (induction k)
  case (Suc k)
  have "digit_char 0 = CHR ''0''" by code_simp
  then have "char_digit base (CHR ''0'') = Some 0"
    using char_digit_char [of 0 base] Suc.prems by simp
  with Suc show ?case by simp
qed simp

lemma show_nat_inj:
  "2 \<le> base \<Longrightarrow> base \<le> 16 \<Longrightarrow> show_nat base m = show_nat base n \<Longrightarrow> m = n"
  by (metis fst_conv read_show_nat)

subsection \<open>Signed decimal\<close>

definition show_int :: "int \<Rightarrow> string" where
  "show_int i = (if i < 0 then CHR ''-'' # show_nat 10 (nat (- i)) else show_nat 10 (nat i))"

definition parse_nat :: "nat \<Rightarrow> string \<Rightarrow> nat option" where
  "parse_nat base cs =
     (case read_digits base 0 cs of (n, rest) \<Rightarrow> if rest = cs then None else Some n)"

definition parse_int :: "string \<Rightarrow> int option" where
  "parse_int cs =
     (case cs of
        [] \<Rightarrow> None
      | c # ds \<Rightarrow> if c = CHR ''-'' then map_option (\<lambda>n. - int n) (parse_nat 10 ds)
                  else map_option int (parse_nat 10 cs))"

lemma parse_show_nat: "2 \<le> base \<Longrightarrow> base \<le> 16 \<Longrightarrow> parse_nat base (show_nat base n) = Some n"
  using show_nat_nonempty [of base n] by (simp add: parse_nat_def read_show_nat eq_commute)

lemma show_nat_no_minus: "show_nat 10 n = c # cs \<Longrightarrow> c \<noteq> CHR ''-''"
  using show_nat_avoids [of 10 "CHR ''-''" n] by auto

lemma parse_show_int: "parse_int (show_int i) = Some i"
proof (cases "i < 0")
  case True
  then show ?thesis by (simp add: parse_int_def show_int_def parse_show_nat)
next
  case False
  obtain c cs where c: "show_nat 10 (nat i) = c # cs"
    by (cases "show_nat 10 (nat i)") auto
  with False show ?thesis
    using show_nat_no_minus [OF c] parse_show_nat [of 10 "nat i"]
    by (simp add: parse_int_def show_int_def)
qed

lemma show_int_no_hash: "CHR ''#'' \<notin> set (show_int i)"
  by (simp add: show_int_def show_nat_avoids)

lemma show_nat_no_hash: "CHR ''#'' \<notin> set (show_nat 10 n)"
  by (simp add: show_nat_avoids)

subsection \<open>getline with a delimiter\<close>

text \<open>
  The tokens that successive calls \<open>getline(str, tok, d)\<close> return: each up to the next delimiter;
  what follows the last delimiter is a token only if it is not empty.
\<close>

fun getlines :: "char \<Rightarrow> string \<Rightarrow> string \<Rightarrow> string list" where
  "getlines d acc [] = (if acc = [] then [] else [acc])"
| "getlines d acc (c # cs) = (if c = d then acc # getlines d [] cs else getlines d (acc @ [c]) cs)"

lemma getlines_token:
  "d \<notin> set tok \<Longrightarrow> getlines d acc (tok @ d # cs) = (acc @ tok) # getlines d [] cs"
  by (induction tok arbitrary: acc) auto

lemma getlines_tokens:
  "\<forall>t \<in> set toks. d \<notin> set t \<Longrightarrow> getlines d [] (concat (map (\<lambda>t. t @ [d]) toks)) = toks"
  by (induction toks) (auto simp: getlines_token)

subsection \<open>Object names\<close>

definition pad0 :: "nat \<Rightarrow> string \<Rightarrow> string" where
  "pad0 w s = replicate (w - length s) (CHR ''0'') @ s"

lemma parse_pad0: "2 \<le> base \<Longrightarrow> base \<le> 16 \<Longrightarrow> read_digits base 0 (pad0 w (show_nat base n)) = (n, [])"
  by (simp add: pad0_def read_zeroes read_show_nat)

lemma pad0_show_inj: "pad0 w (show_nat 16 m) = pad0 w (show_nat 16 n) \<Longrightarrow> m = n"
  by (metis fst_conv parse_pad0 order_refl le_numeral_extra(4) numeral_le_iff semiring_norm(68)
      semiring_norm(70) semiring_norm(71))

subsection \<open>Characters as bytes\<close>

text \<open>The bytes of a \<open>std::string\<close>, and the string that bytes make.\<close>

definition bytes_of :: "string \<Rightarrow> bytes" where
  "bytes_of s = map (\<lambda>c. of_nat (of_char c)) s"

definition string_of :: "bytes \<Rightarrow> string" where
  "string_of bl = map (\<lambda>b. char_of (unat b)) bl"

lemma unat_u8_char: "unat (of_nat (of_char c) :: u8) = (of_char c :: nat)"
proof -
  have "(of_char c :: nat) < 256" using nat_of_char_less_256 by blast
  then show ?thesis by (simp add: unat_of_nat take_bit_nat_eq_self)
qed

lemma string_of_bytes_of [simp]: "string_of (bytes_of s) = s"
  by (simp add: string_of_def bytes_of_def comp_def unat_u8_char)

lemma bytes_of_string_of [simp]: "bytes_of (string_of bl) = bl"
proof -
  have "of_nat (of_char (char_of (unat b) :: char)) = b" for b :: u8
    using unat_lt [of b] by (simp add: of_char_of)
  then show ?thesis by (simp add: string_of_def bytes_of_def comp_def)
qed

lemma length_bytes_of [simp]: "length (bytes_of s) = length s"
  by (simp add: bytes_of_def)

lemma length_string_of [simp]: "length (string_of bl) = length bl"
  by (simp add: string_of_def)

lemma bytes_of_inj: "bytes_of s = bytes_of t \<longleftrightarrow> s = t"
  by (metis string_of_bytes_of)

lemma string_of_inj: "string_of s = string_of t \<longleftrightarrow> s = t"
  by (metis bytes_of_string_of)

end
