(* ===== verification/Striper.thy ===== *)
theory Striper
  imports Stdmap Textio
begin

text \<open>
  \<open>osdc/Striper.cc\<close>: the map from byte ranges of an image to extents of RADOS objects, its
  inverse, object truncation, and the assembly of a striped read. All arithmetic is that of
  \<open>uint64_t\<close>. A failed \<open>assert\<close> or a division by zero is \<open>None\<close>. The object name is the
  \<open>snprintf\<close> of the image's format string, kept as prefix and field width (\<open>object_format\<close>).
  Lemmas: the reverse map inverts the forward map on every block (\<open>extent_to_file_block\<close>), the
  truncation size separates the kept bytes from the cut ones, every request is split without loss.
\<close>

record file_layout =
  fl_stripe_unit :: u32
  fl_stripe_count :: u32
  fl_object_size :: u32
  fl_pg_pool :: u32

record object_format =
  fmt_prefix :: string
  fmt_width :: nat

definition format_oid :: "object_format \<Rightarrow> u64 \<Rightarrow> string" where
  "format_oid f n = fmt_prefix f @ ''.'' @ pad0 (fmt_width f) (show_nat 16 (unat n))"

record object_extent =
  oe_oid :: string
  oe_objectno :: u64
  oe_oloc :: u32
  oe_offset :: u64
  oe_length :: u64
  oe_truncate_size :: u64
  oe_buffer_extents :: "(u64 \<times> u64) list"

type_synonym extent_map_t = "(string, object_extent list) smap"

abbreviation lo_su :: "file_layout \<Rightarrow> u64" where "lo_su l \<equiv> ucast (fl_stripe_unit l)"
abbreviation lo_sc :: "file_layout \<Rightarrow> u64" where "lo_sc l \<equiv> ucast (fl_stripe_count l)"
abbreviation lo_os :: "file_layout \<Rightarrow> u64" where "lo_os l \<equiv> ucast (fl_object_size l)"

definition stripes_per_object :: "file_layout \<Rightarrow> u64" where
  "stripes_per_object l = lo_os l div lo_su l"

subsection \<open>From the image to the objects\<close>

definition blockno :: "file_layout \<Rightarrow> u64 \<Rightarrow> u64" where
  "blockno l cur = cur div lo_su l"

definition stripeno :: "file_layout \<Rightarrow> u64 \<Rightarrow> u64" where
  "stripeno l cur = blockno l cur div lo_sc l"

definition stripepos :: "file_layout \<Rightarrow> u64 \<Rightarrow> u64" where
  "stripepos l cur = blockno l cur mod lo_sc l"

definition objectsetno :: "file_layout \<Rightarrow> u64 \<Rightarrow> u64" where
  "objectsetno l cur = stripeno l cur div stripes_per_object l"

definition objectno :: "file_layout \<Rightarrow> u64 \<Rightarrow> u64" where
  "objectno l cur = objectsetno l cur * lo_sc l + stripepos l cur"

definition block_off :: "file_layout \<Rightarrow> u64 \<Rightarrow> u64" where
  "block_off l cur = cur mod lo_su l"

definition x_offset :: "file_layout \<Rightarrow> u64 \<Rightarrow> u64" where
  "x_offset l cur = (stripeno l cur mod stripes_per_object l) * lo_su l + block_off l cur"

definition x_len :: "file_layout \<Rightarrow> u64 \<Rightarrow> u64 \<Rightarrow> u64" where
  "x_len l cur left = (let mx = lo_su l - block_off l cur in if mx < left then mx else left)"

definition object_truncate_size :: "file_layout \<Rightarrow> u64 \<Rightarrow> u64 \<Rightarrow> u64 option" where
  "object_truncate_size l ono trunc_size =
     (if trunc_size = 0 \<or> trunc_size = - 1 then Some trunc_size
      else if lo_os l < lo_su l \<or> lo_su l = 0 \<or> lo_sc l = 0 then None
      else
        let object_size = lo_os l; su = lo_su l; stripe_count = lo_sc l;
            spo = object_size div su;
            objsetno = ono div stripe_count;
            trunc_objectsetno = trunc_size div object_size div stripe_count
        in if trunc_objectsetno < objsetno then Some 0
           else if objsetno < trunc_objectsetno then Some object_size
           else
             let trunc_blockno = trunc_size div su;
                 trunc_stripeno = trunc_blockno div stripe_count;
                 trunc_stripepos = trunc_blockno mod stripe_count;
                 trunc_objectno = trunc_objectsetno * stripe_count + trunc_stripepos
             in if ono < trunc_objectno then Some ((trunc_stripeno mod spo + 1) * su)
                else if trunc_objectno < ono then Some ((trunc_stripeno mod spo) * su)
                else Some ((trunc_stripeno mod spo) * su + trunc_size mod su))"

definition new_extent :: "object_format \<Rightarrow> file_layout \<Rightarrow> u64 \<Rightarrow> u64 \<Rightarrow> u64 \<Rightarrow> u64 \<Rightarrow> object_extent" where
  "new_extent f l ono xo xl ts =
     \<lparr>oe_oid = format_oid f ono, oe_objectno = ono, oe_oloc = fl_pg_pool l,
      oe_offset = xo, oe_length = xl, oe_truncate_size = ts, oe_buffer_extents = []\<rparr>"

text \<open>
  One round of the loop on the extents of the object: a new extent unless the piece continues the
  last one, then the buffer extent is appended to the extent the piece went to.
\<close>

definition add_piece ::
    "object_format \<Rightarrow> file_layout \<Rightarrow> u64 \<Rightarrow> u64 \<Rightarrow> u64 \<Rightarrow> u64 \<Rightarrow> u64 \<times> u64 \<Rightarrow>
     object_extent list \<Rightarrow> object_extent list" where
  "add_piece f l ono xo xl ts be exv =
     (if exv = [] \<or> oe_offset (last exv) + oe_length (last exv) \<noteq> xo
      then exv @ [(new_extent f l ono xo xl ts)\<lparr>oe_buffer_extents := [be]\<rparr>]
      else butlast exv @
        [(last exv)\<lparr>oe_length := oe_length (last exv) + xl,
                   oe_buffer_extents := oe_buffer_extents (last exv) @ [be]\<rparr>])"

lemma x_len_pos: "lo_su l \<noteq> 0 \<Longrightarrow> left \<noteq> 0 \<Longrightarrow> 0 < unat (x_len l cur left) \<and> x_len l cur left \<le> left"
proof -
  assume su: "lo_su l \<noteq> 0" and left: "left \<noteq> 0"
  have "unat (block_off l cur) < unat (lo_su l)"
    using su by (simp add: block_off_def u64_arith unat_pos_u64)
  then have "0 < unat (lo_su l - block_off l cur)"
    by (simp add: u64_arith)
  with left show ?thesis
    by (auto simp: x_len_def Let_def unat_pos_u64)
qed

function fte_loop ::
    "object_format \<Rightarrow> file_layout \<Rightarrow> u64 \<Rightarrow> u64 \<Rightarrow> u64 \<Rightarrow> u64 \<Rightarrow> u64 \<Rightarrow> extent_map_t \<Rightarrow> extent_map_t option" where
  "fte_loop f l trunc_size offset buffer_offset cur left m =
     (if left = 0 then Some m
      else if lo_su l = 0 \<or> lo_sc l = 0 then None
      else
        (case object_truncate_size l (objectno l cur) trunc_size of
           None \<Rightarrow> None
         | Some ts \<Rightarrow>
             fte_loop f l trunc_size offset buffer_offset
               (cur + x_len l cur left) (left - x_len l cur left)
               (smap_put (format_oid f (objectno l cur))
                  (add_piece f l (objectno l cur) (x_offset l cur) (x_len l cur left) ts
                     (cur - offset + buffer_offset, x_len l cur left)
                     (fst (smap_at [] (format_oid f (objectno l cur)) m))) m)))"
  by pat_completeness auto
termination
proof (relation "measure (\<lambda>(f, l, ts, off, bo, cur, left, m). unat left)", goal_cases)
  case 1
  show ?case by simp
next
  case (2 f l trunc_size offset buffer_offset cur left m ts)
  then show ?case
    using x_len_pos [of l left cur] by (simp add: u64_arith word_le_nat_alt unat_pos_u64)
qed

declare fte_loop.simps [simp del]

definition file_to_extents_map ::
    "object_format \<Rightarrow> file_layout \<Rightarrow> u64 \<Rightarrow> u64 \<Rightarrow> u64 \<Rightarrow> extent_map_t \<Rightarrow> u64 \<Rightarrow> extent_map_t option" where
  "file_to_extents_map f l offset len trunc_size m buffer_offset =
     (if len = 0 \<or> lo_os l < lo_su l \<or> lo_su l = 0 then None
      else fte_loop f l trunc_size offset buffer_offset offset len m)"

definition assimilate_extents :: "extent_map_t \<Rightarrow> object_extent list \<Rightarrow> object_extent list" where
  "assimilate_extents m extents = extents @ concat (map snd m)"

definition file_to_extents ::
    "object_format \<Rightarrow> file_layout \<Rightarrow> u64 \<Rightarrow> u64 \<Rightarrow> u64 \<Rightarrow> u64 \<Rightarrow> object_extent list option" where
  "file_to_extents f l offset len trunc_size buffer_offset =
     map_option (\<lambda>m. assimilate_extents m [])
       (file_to_extents_map f l offset len trunc_size [] buffer_offset)"

subsection \<open>From an object back to the image\<close>

definition etf_off :: "file_layout \<Rightarrow> u64 \<Rightarrow> u64 \<Rightarrow> u64 \<Rightarrow> u64" where
  "etf_off l ono off off_in_block =
     (let stripepos = ono mod lo_sc l;
          objectsetno = ono div lo_sc l;
          stripeno = off div lo_su l + objectsetno * stripes_per_object l;
          blockno = stripeno * lo_sc l + stripepos
      in blockno * lo_su l + off_in_block)"

text \<open>\<open>off_in_block < su\<close> holds throughout: it starts as \<open>off mod su\<close> and is then 0.\<close>

function etf_loop :: "file_layout \<Rightarrow> u64 \<Rightarrow> u64 \<Rightarrow> u64 \<Rightarrow> u64 \<Rightarrow> (u64 \<times> u64) list" where
  "etf_loop l ono off len off_in_block =
     (if len = 0 \<or> \<not> off_in_block < lo_su l then []
      else
        let extent_len = min len (lo_su l - off_in_block)
        in (etf_off l ono off off_in_block, extent_len)
             # etf_loop l ono (off + extent_len) (len - extent_len) 0)"
  by pat_completeness auto
termination
proof (relation "measure (\<lambda>(l, ono, off, len, oib). unat len)", goal_cases)
  case 1
  show ?case by simp
next
  case (2 l ono off len off_in_block extent_len)
  then have "unat off_in_block < unat (lo_su l)" and "0 < unat len"
    by (auto simp: word_less_nat_alt unat_pos_u64)
  with 2 show ?case
    by (simp add: u64_arith min_def word_le_nat_alt word_less_nat_alt)
qed

declare etf_loop.simps [simp del]

definition extent_to_file :: "file_layout \<Rightarrow> u64 \<Rightarrow> u64 \<Rightarrow> u64 \<Rightarrow> (u64 \<times> u64) list option" where
  "extent_to_file l ono off len =
     (if lo_os l < lo_su l \<or> lo_su l = 0 \<or> (len \<noteq> 0 \<and> lo_sc l = 0) then None
      else Some (etf_loop l ono off len (off mod lo_su l)))"

subsection \<open>The address arithmetic on natural numbers\<close>

text \<open>
  \<open>layout_ok\<close> is what the asserts and divisions of the code need; \<open>layout_exact\<close> adds that an
  object holds a whole number of stripe units, which every layout that ceph accepts satisfies.
\<close>

definition layout_ok :: "file_layout \<Rightarrow> bool" where
  "layout_ok l \<longleftrightarrow> lo_su l \<noteq> 0 \<and> lo_sc l \<noteq> 0 \<and> lo_su l \<le> lo_os l"

definition layout_exact :: "file_layout \<Rightarrow> bool" where
  "layout_exact l \<longleftrightarrow> layout_ok l \<and> unat (lo_su l) dvd unat (lo_os l)"

lemma layout_ok_nat:
  assumes "layout_ok l"
  shows "0 < unat (lo_su l)" and "0 < unat (lo_sc l)" and "0 < unat (stripes_per_object l)"
    and "unat (lo_su l) \<le> unat (lo_os l)"
  using assms div_greater_zero_iff [of "unat (lo_os l)" "unat (lo_su l)"]
  by (auto simp: layout_ok_def stripes_per_object_def u64_arith unat_pos_u64 word_le_nat_alt
      )

lemma div_mult_mod_nat: "(a :: nat) div b * b + a mod b = a"
  by simp

lemma unat_objectno:
  "unat (objectno l cur) =
     unat (blockno l cur) div unat (lo_sc l) div unat (stripes_per_object l) * unat (lo_sc l)
       + unat (blockno l cur) mod unat (lo_sc l)"
  (is "_ = ?a div ?c div ?p * ?c + ?a mod ?c")
proof -
  have le: "?a div ?c div ?p * ?c + ?a mod ?c \<le> ?a"
    using div_le_dividend [of "?a div ?c" ?p] div_mult_mod_nat [of ?a ?c]
    by (metis add_le_mono1 mult_le_mono1)
  have m: "unat (objectsetno l cur * lo_sc l) = ?a div ?c div ?p * ?c"
    using le by (subst unat_mult_bound [of _ _ "blockno l cur"])
      (auto simp: objectsetno_def stripeno_def u64_arith)
  show ?thesis
    using le unfolding objectno_def
    by (subst unat_add_bound [of _ _ "blockno l cur"]) (auto simp: m stripepos_def u64_arith)
qed

lemma unat_blockno: "unat (blockno l cur) = unat cur div unat (lo_su l)"
  by (simp add: blockno_def u64_arith)

lemma unat_x_offset:
  "unat (x_offset l cur) =
     unat (blockno l cur) div unat (lo_sc l) mod unat (stripes_per_object l) * unat (lo_su l)
       + unat cur mod unat (lo_su l)"
  (is "_ = ?b div ?c mod ?p * ?s + ?a mod ?s")
proof -
  have "?b div ?c mod ?p * ?s \<le> ?b * ?s"
    by (intro mult_le_mono1) (meson div_le_dividend le_trans mod_less_eq_dividend)
  moreover have "?b * ?s + ?a mod ?s = ?a"
    by (simp add: unat_blockno)
  ultimately have le: "?b div ?c mod ?p * ?s + ?a mod ?s \<le> ?a"
    by linarith
  have m: "unat (stripeno l cur mod stripes_per_object l * lo_su l) = ?b div ?c mod ?p * ?s"
    using le by (subst unat_mult_bound [of _ _ cur]) (auto simp: stripeno_def u64_arith)
  show ?thesis
    using le unfolding x_offset_def
    by (subst unat_add_bound [of _ _ cur]) (auto simp: m block_off_def u64_arith)
qed

text \<open>Splitting a number by three radices and putting it together again.\<close>

lemma stripe_split:
  fixes b :: nat
  assumes "0 < c" and "0 < p"
  shows "(b div c div p * c + b mod c) mod c = b mod c"
    and "(b div c div p * c + b mod c) div c = b div c div p"
    and "(b div c mod p + b div c div p * p) * c + b mod c = b"
  using assms by (simp_all add: mult.commute add.commute)

lemma etf_off_back:
  assumes ok: "layout_ok l"
  shows "etf_off l (objectno l cur) (x_offset l cur) (x_offset l cur mod lo_su l) = cur"
proof -
  let ?s = "unat (lo_su l)" and ?c = "unat (lo_sc l)" and ?p = "unat (stripes_per_object l)"
  let ?b = "unat (blockno l cur)" and ?o = "objectno l cur" and ?x = "x_offset l cur"
  note pos = layout_ok_nat [OF ok]
  have xm: "unat ?x mod ?s = unat cur mod ?s" and xd: "unat ?x div ?s = ?b div ?c mod ?p"
    using pos(1) by (simp_all add: unat_x_offset)
  have om: "unat ?o mod ?c = ?b mod ?c" and od: "unat ?o div ?c = ?b div ?c div ?p"
    using stripe_split(1,2) [OF pos(2,3), of ?b] by (simp_all add: unat_objectno)
  have join: "(?b div ?c mod ?p + ?b div ?c div ?p * ?p) * ?c + ?b mod ?c = ?b"
    by (rule stripe_split(3) [OF pos(2,3)])
  have bs: "?b * ?s + unat cur mod ?s = unat cur"
    by (simp add: unat_blockno)
  define st where "st = ?x div lo_su l + ?o div lo_sc l * stripes_per_object l"
  have le1: "?b div ?c div ?p * ?p \<le> ?b" and le2: "?b div ?c mod ?p + ?b div ?c div ?p * ?p \<le> ?b"
    using mod_mult_div_eq [of "?b div ?c" ?p] div_le_dividend [of ?b ?c]
      le_trans [OF times_div_less_eq_dividend [of ?p "?b div ?c"] div_le_dividend [of ?b ?c]]
    by (simp_all add: mult.commute)
  have "unat (?o div lo_sc l * stripes_per_object l) = ?b div ?c div ?p * ?p"
    using le1 by (subst unat_mult_bound [of _ _ "blockno l cur"]) (auto simp: u64_arith od)
  then have st: "unat st = ?b div ?c mod ?p + ?b div ?c div ?p * ?p"
    using le2 unfolding st_def
    by (subst unat_add_bound [of _ _ "blockno l cur"]) (auto simp: u64_arith xd)
  have bn: "unat (st * lo_sc l + ?o mod lo_sc l) = ?b"
    using join by (subst unat_add_bound [of _ _ "blockno l cur"])
      (auto simp: u64_arith om st unat_mult_bound [of _ _ "blockno l cur"] )
  show ?thesis
  proof (rule u64_eqI)
    have "unat ((st * lo_sc l + ?o mod lo_sc l) * lo_su l) = ?b * ?s"
      using bs by (subst unat_mult_bound [of _ _ cur]) (auto simp: bn )
    then have "unat ((st * lo_sc l + ?o mod lo_sc l) * lo_su l + ?x mod lo_su l) = unat cur"
      using bs by (subst unat_add_bound [of _ _ cur])
        (auto simp: u64_arith xm )
    then show "unat (etf_off l ?o ?x (?x mod lo_su l)) = unat cur"
      by (simp add: etf_off_def Let_def st_def add.commute)
  qed
qed

text \<open>Within one block, the reverse map of the piece is the piece.\<close>

lemma extent_to_file_back:
  assumes ok: "layout_ok l" and len: "len \<noteq> 0"
    and fit: "unat cur mod unat (lo_su l) + unat len \<le> unat (lo_su l)"
  shows "extent_to_file l (objectno l cur) (x_offset l cur) len = Some [(cur, len)]"
proof -
  let ?x = "x_offset l cur"
  have pos: "0 < unat (lo_su l)" by (rule layout_ok_nat [OF ok])
  have xm: "unat (?x mod lo_su l) = unat cur mod unat (lo_su l)"
    by (simp add: u64_arith unat_x_offset)
  then have lt: "?x mod lo_su l < lo_su l"
    using pos by (simp add: word_less_nat_alt)
  then have "unat (lo_su l - ?x mod lo_su l) = unat (lo_su l) - unat cur mod unat (lo_su l)"
    using xm by (simp add: u64_arith word_less_nat_alt)
  then have "len \<le> lo_su l - ?x mod lo_su l"
    using fit by (simp add: word_le_nat_alt)
  then have mn: "min len (lo_su l - ?x mod lo_su l) = len"
    by simp
  have "etf_loop l (objectno l cur) ?x len (?x mod lo_su l) = [(cur, len)]"
    using len lt etf_off_back [OF ok, of cur]
    by (subst etf_loop.simps) (simp add: mn Let_def etf_loop.simps [of _ _ _ 0])
  moreover have "lo_su l \<le> lo_os l" "lo_su l \<noteq> 0" "lo_sc l \<noteq> 0"
    using ok by (auto simp: layout_ok_def)
  ultimately show ?thesis
    by (simp add: extent_to_file_def not_less)
qed

subsection \<open>What the truncation size cuts\<close>

text \<open>
  Two image offsets compared block by block: the block with the smaller number in the same object
  has the smaller stripe.
\<close>

lemma div_less_cases:
  fixes a b :: nat
  assumes "0 < s"
  shows "a < b \<longleftrightarrow> a div s < b div s \<or> (a div s = b div s \<and> a mod s < b mod s)"
proof -
  have eq: "a = a div s * s + a mod s" "b = b div s * s + b mod s" by simp_all
  have "a div s < b div s \<Longrightarrow> a < b"
    by (meson div_le_mono linorder_not_less)
  moreover have "a < b \<Longrightarrow> a div s \<le> b div s"
    by (simp add: div_le_mono)
  moreover have "a div s = b div s \<Longrightarrow> a < b \<longleftrightarrow> a mod s < b mod s"
    by (metis eq nat_add_left_cancel_less)
  ultimately show ?thesis by linarith
qed

definition trunc_nat :: "nat \<Rightarrow> nat \<Rightarrow> nat \<Rightarrow> nat \<Rightarrow> nat \<Rightarrow> nat" where
  "trunc_nat s c p ono t =
     (let os = t div s div c div p in
      if os < ono div c then 0 else if ono div c < os then p * s
      else let b = t div s; tst = b div c; tono = os * c + b mod c in
        if ono < tono then (tst mod p + 1) * s
        else if tono < ono then (tst mod p) * s
        else (tst mod p) * s + t mod s)"

lemma trunc_nat_separates:
  fixes s c p cur t :: nat
  assumes "0 < s" "0 < c" "0 < p"
  shows "(cur div s div c) mod p * s + cur mod s
           < trunc_nat s c p (cur div s div c div p * c + cur div s mod c) t \<longleftrightarrow> cur < t"
proof -
  let ?b = "cur div s" and ?tb = "t div s"
  let ?y = "?b div c" and ?ty = "?tb div c"
  have cm: "cur mod s < s" "t mod s < s" using assms by simp_all
  have pm: "?y mod p < p" "?ty mod p < p" using assms by simp_all
  have o1: "(?y div p * c + ?b mod c) div c = ?y div p"
    by (rule stripe_split(2) [OF assms(2,3)])
  have lt: "cur < t \<longleftrightarrow> ?b < ?tb \<or> (?b = ?tb \<and> cur mod s < t mod s)"
    by (rule div_less_cases [OF assms(1)])
  have ltb: "?b < ?tb \<longleftrightarrow> ?y < ?ty \<or> (?y = ?ty \<and> ?b mod c < ?tb mod c)"
    by (rule div_less_cases [OF assms(2)])
  have lty: "?y < ?ty \<longleftrightarrow> ?y div p < ?ty div p \<or> (?y div p = ?ty div p \<and> ?y mod p < ?ty mod p)"
    by (rule div_less_cases [OF assms(3)])
  have eqb: "?b = ?tb \<longleftrightarrow> ?y = ?ty \<and> ?b mod c = ?tb mod c"
    by (metis div_mult_mod_eq)
  have eqy: "?y = ?ty \<longleftrightarrow> ?y div p = ?ty div p \<and> ?y mod p = ?ty mod p"
    by (metis div_mult_mod_eq)
  have mono: "i * s + cur mod s < (k + 1) * s \<longleftrightarrow> i \<le> k" for i k :: nat
  proof -
    have "i * s + cur mod s < (k + 1) * s \<longleftrightarrow> (i * s + cur mod s) div s < k + 1"
      using assms(1) div_less_iff_less_mult [of s "i * s + cur mod s" "k + 1"] by blast
    then show ?thesis using cm assms(1) by (simp add: less_Suc_eq_le)
  qed
  have mono0: "i * s + cur mod s < k * s \<longleftrightarrow> i < k" for i k :: nat
    using mono [of i "k - 1"] cm by (cases k) auto
  have mono1: "i * s + cur mod s < k * s + t mod s \<longleftrightarrow> i < k \<or> (i = k \<and> cur mod s < t mod s)"
    for i k :: nat
    using div_less_cases [OF assms(1), of "i * s + cur mod s" "k * s + t mod s"] cm assms(1)
    by simp
  define i k where "i = ?y mod p" and "k = ?ty mod p"
  define r q where "r = ?b mod c" and "q = ?tb mod c"
  define d e where "d = ?y div p" and "e = ?ty div p"
  note vars = i_def [symmetric] k_def [symmetric] r_def [symmetric] q_def [symmetric]
    d_def [symmetric] e_def [symmetric]
  have main: "cur < t \<longleftrightarrow> d < e \<or> (d = e \<and> (i < k \<or> (i = k \<and> (r < q \<or>
      (r = q \<and> cur mod s < t mod s)))))"
    using lt ltb lty eqb eqy unfolding vars by blast
  have o1': "(d * c + r) div c = d"
    using o1 unfolding vars .
  have "i * s + cur mod s < trunc_nat s c p (d * c + r) t \<longleftrightarrow>
      d < e \<or> (d = e \<and> (i < k \<or> (i = k \<and> (r < q \<or> (r = q \<and> cur mod s < t mod s)))))"
  proof (cases "d = e")
    case False
    have "i * s + cur mod s < p * s" using mono0 pm(1) unfolding vars by blast
    with False show ?thesis
      unfolding trunc_nat_def Let_def o1' vars by (cases "e < d") auto
  next
    case True
    have "i * s + cur mod s < trunc_nat s c p (d * c + r) t \<longleftrightarrow>
        i * s + cur mod s < (if r < q then (k + 1) * s else if q < r then k * s else k * s + t mod s)"
      using True unfolding trunc_nat_def Let_def o1' vars by simp
    also have "\<dots> \<longleftrightarrow> (if r < q then i \<le> k else if q < r then i < k
        else i < k \<or> (i = k \<and> cur mod s < t mod s))"
      by (simp only: mono0 mono1 split: if_split) auto
    finally show ?thesis
      using True by (simp only:) (auto simp: le_less)
  qed
  then show ?thesis using main unfolding vars by blast
qed

lemma trunc_nat_le:
  assumes pos: "0 < s" "0 < p"
  shows "trunc_nat s c p ono t \<le> p * s"
proof -
  define k where "k = t div s div c mod p"
  have "k + 1 \<le> p" using pos by (simp add: k_def Suc_le_eq)
  then have a: "(k + 1) * s \<le> p * s" by (rule mult_le_mono1)
  moreover have "t mod s < s" using pos by simp
  ultimately have "k * s \<le> p * s" "k * s + t mod s \<le> p * s"
    unfolding add_mult_distrib mult_1 by linarith+
  with a show ?thesis unfolding trunc_nat_def Let_def k_def [symmetric] by simp
qed

text \<open>The word computation of \<open>object_truncate_size\<close> never wraps.\<close>

lemma unat_object_truncate_size:
  assumes ok: "layout_exact l" and ts: "ts \<noteq> 0" "ts \<noteq> - 1"
  obtains r where "object_truncate_size l ono ts = Some r"
    and "unat r = trunc_nat (unat (lo_su l)) (unat (lo_sc l)) (unat (stripes_per_object l))
                    (unat ono) (unat ts)"
proof -
  let ?s = "unat (lo_su l)" and ?c = "unat (lo_sc l)" and ?p = "unat (stripes_per_object l)"
  let ?b = "ts div lo_su l"
  have lok: "layout_ok l" using ok by (simp add: layout_exact_def)
  note pos = layout_ok_nat [OF lok]
  have os: "unat (lo_os l) = ?p * ?s"
    using ok by (simp add: layout_exact_def stripes_per_object_def u64_arith)
  have spo: "lo_os l div lo_su l = stripes_per_object l"
    by (simp add: stripes_per_object_def)
  have tos: "unat (ts div lo_os l div lo_sc l) = unat ts div ?s div ?c div ?p"
    by (simp add: u64_arith os div_mult2_eq [symmetric] mult.assoc mult.commute mult.left_commute)
  have tono: "unat (ts div lo_os l div lo_sc l * lo_sc l + ?b mod lo_sc l)
      = unat ts div ?s div ?c div ?p * ?c + unat ts div ?s mod ?c"
  proof -
    have le: "unat ?b div ?c div ?p * ?c + unat ?b mod ?c \<le> unat ?b"
      using div_le_dividend [of "unat ?b div ?c" ?p] div_mult_mod_nat [of "unat ?b" ?c]
      by (metis add_le_mono1 mult_le_mono1)
    define q where "q = ts div lo_os l div lo_sc l"
    have q: "unat q = unat ts div ?s div ?c div ?p" using tos by (simp only: q_def)
    have "unat (q * lo_sc l) = unat ?b div ?c div ?p * ?c"
      using le by (subst unat_mult_bound [of _ _ ?b]) (auto simp: q u64_arith)
    then show ?thesis
      using le unfolding q_def [symmetric]
      by (subst unat_add_bound [of _ _ ?b]) (auto simp: u64_arith)
  qed
  define k where "k = unat ts div ?s div ?c mod ?p"
  have km: "unat (?b div lo_sc l mod stripes_per_object l) = k"
    by (simp add: k_def u64_arith)
  have kp: "(k + 1) * ?s \<le> unat (lo_os l)"
    using pos unfolding os k_def by (intro mult_le_mono1) (simp add: Suc_le_eq)
  have kc: "unat (?b div lo_sc l mod stripes_per_object l * lo_su l) = k * ?s"
    using kp by (subst unat_mult_bound [of _ _ "lo_os l"]) (auto simp: km)
  have kb: "k * ?s + unat ts mod ?s \<le> unat (lo_os l)"
    using kp mod_less_divisor [OF pos(1), of "unat ts"] by simp
  have kd: "unat (?b div lo_sc l mod stripes_per_object l * lo_su l + ts mod lo_su l)
      = k * ?s + unat ts mod ?s"
    using kb
    by (subst unat_add_bound [of _ _ "lo_os l"]) (auto simp: kc u64_arith)
  have k1: "unat (?b div lo_sc l mod stripes_per_object l + 1) = k + 1"
  proof (subst unat_add_bound [of _ _ "lo_os l"])
    have "k + 1 \<le> (k + 1) * ?s" using pos(1) by (metis Suc_leI mult_le_mono2 nat_mult_1_right One_nat_def)
    then show "unat (?b div lo_sc l mod stripes_per_object l) + unat (1 :: u64) \<le> unat (lo_os l)"
      using kp unfolding km unsigned_1 by (rule le_trans)
  qed (simp add: km)
  have ks: "unat ((?b div lo_sc l mod stripes_per_object l + 1) * lo_su l) = (k + 1) * ?s"
    using kp by (subst unat_mult_bound [of _ _ "lo_os l"]) (auto simp: k1)
  have nz: "\<not> lo_os l < lo_su l" "lo_su l \<noteq> 0" "lo_sc l \<noteq> 0"
    using lok by (auto simp: layout_ok_def)
  let ?q = "ts div lo_os l div lo_sc l" and ?k = "?b div lo_sc l mod stripes_per_object l"
  let ?r = "if ?q < ono div lo_sc l then 0 else if ono div lo_sc l < ?q then lo_os l
    else if ono < ?q * lo_sc l + ?b mod lo_sc l then (?k + 1) * lo_su l
    else if ?q * lo_sc l + ?b mod lo_sc l < ono then ?k * lo_su l else ?k * lo_su l + ts mod lo_su l"
  have "object_truncate_size l ono ts = Some ?r"
    using ts nz by (simp add: object_truncate_size_def Let_def spo)
  moreover have "unat ?r = trunc_nat ?s ?c ?p (unat ono) (unat ts)"
    unfolding trunc_nat_def Let_def word_less_nat_alt tono tos k_def [symmetric]
    by (simp add: tos kc kd ks os u64_arith)
  ultimately show ?thesis by (rule that)
qed

subsection \<open>The extents of a request\<close>

text \<open>
  \<open>ext_placed\<close>: the pieces of an extent lie one after the other in the object, in the order of
  the buffer extents, and each is where the address arithmetic puts the image offset it stands for.
\<close>

definition ext_placed :: "object_format \<Rightarrow> file_layout \<Rightarrow> u64 \<Rightarrow> u64 \<Rightarrow> object_extent \<Rightarrow> bool" where
  "ext_placed f l offset bo e \<longleftrightarrow>
     oe_oid e = format_oid f (oe_objectno e) \<and>
     oe_length e = sum_list (map snd (oe_buffer_extents e)) \<and>
     (\<forall>pre b n post. oe_buffer_extents e = pre @ (b, n) # post \<longrightarrow>
        objectno l (offset + (b - bo)) = oe_objectno e \<and>
        x_offset l (offset + (b - bo)) = oe_offset e + sum_list (map snd pre))"

definition buf_total :: "object_extent list \<Rightarrow> nat" where
  "buf_total es = (\<Sum>e\<leftarrow>es. \<Sum>p\<leftarrow>oe_buffer_extents e. unat (snd p))"

lemma buf_total_simps [simp]:
  "buf_total [] = 0"
  "buf_total (e # es) = (\<Sum>p\<leftarrow>oe_buffer_extents e. unat (snd p)) + buf_total es"
  "buf_total (es @ fs) = buf_total es + buf_total fs"
  by (simp_all add: buf_total_def)

lemma buf_total_concat: "buf_total (concat (map snd m)) = (\<Sum>p\<leftarrow>m. buf_total (snd p))"
  by (induction m) auto

lemma snoc_split:
  "xs @ [x] = pre @ y # post \<longleftrightarrow> (post = [] \<and> pre = xs \<and> y = x) \<or> (\<exists>p. post = p @ [x] \<and> xs = pre @ y # p)"
  by (cases post rule: rev_cases) auto

lemma add_piece_total:
  "buf_total (add_piece f l ono xo xl ts (b, xl) exv) = buf_total exv + unat xl"
  by (cases exv rule: rev_cases) (auto simp: add_piece_def new_extent_def)

lemma ext_placed_new:
  "ext_placed f l offset bo
     ((new_extent f l (objectno l cur) (x_offset l cur) xl ts)\<lparr>oe_buffer_extents := [(cur - offset + bo, xl)]\<rparr>)"
  by (auto simp: ext_placed_def new_extent_def Cons_eq_append_conv)

lemma ext_placed_extend:
  assumes e: "ext_placed f l offset bo e" "oe_objectno e = objectno l cur"
    and adj: "oe_offset e + oe_length e = x_offset l cur"
  shows "ext_placed f l offset bo
     (e\<lparr>oe_length := oe_length e + xl,
        oe_buffer_extents := oe_buffer_extents e @ [(cur - offset + bo, xl)]\<rparr>)"
  using e adj unfolding ext_placed_def by (fastforce simp: snoc_split)

lemma add_piece_placed:
  assumes "\<forall>e \<in> set exv. ext_placed f l offset bo e \<and> oe_objectno e = objectno l cur"
  shows "\<forall>e \<in> set (add_piece f l (objectno l cur) (x_offset l cur) xl ts (cur - offset + bo, xl) exv).
           ext_placed f l offset bo e \<and> oe_objectno e = objectno l cur"
proof (cases exv rule: rev_cases)
  case Nil
  then show ?thesis by (simp add: add_piece_def ext_placed_new) (simp add: new_extent_def)
next
  case (snoc es e)
  then show ?thesis
    using assms ext_placed_extend [of f l offset bo e cur xl]
    by (auto simp: add_piece_def ext_placed_new) (auto simp: new_extent_def)
qed

text \<open>Different objects have different names, so a name's extents belong to one object.\<close>

lemma format_oid_inj: "format_oid f a = format_oid f b \<longleftrightarrow> a = b"
  by (auto simp: format_oid_def dest!: pad0_show_inj intro: u64_eqI)

definition exts_placed :: "object_format \<Rightarrow> file_layout \<Rightarrow> u64 \<Rightarrow> u64 \<Rightarrow> extent_map_t \<Rightarrow> bool" where
  "exts_placed f l offset bo m \<longleftrightarrow>
     smap_ok m \<and> (\<forall>(k, exv) \<in> set m. \<forall>e \<in> set exv. ext_placed f l offset bo e \<and> oe_oid e = k)"

lemma set_smap_put: "set (smap_put k v m) \<subseteq> insert (k, v) (set m)"
  by (induction k v m rule: smap_put.induct) auto

lemma ext_placed_oid: "ext_placed f l offset bo e \<Longrightarrow> oe_oid e = format_oid f (oe_objectno e)"
  by (simp add: ext_placed_def)

lemma exts_placedD:
  "exts_placed f l offset bo m \<Longrightarrow> (k, exv) \<in> set m \<Longrightarrow> e \<in> set exv \<Longrightarrow>
     ext_placed f l offset bo e \<and> oe_oid e = k"
  unfolding exts_placed_def by blast

lemma exts_placed_put:
  assumes m: "exts_placed f l offset bo m"
    and v: "\<And>e. e \<in> set v \<Longrightarrow> ext_placed f l offset bo e \<and> oe_oid e = k"
  shows "exts_placed f l offset bo (smap_put k v m)"
  unfolding exts_placed_def
proof (intro conjI ballI)
  show "smap_ok (smap_put k v m)" using m by (simp add: exts_placed_def)
next
  fix p assume "p \<in> set (smap_put k v m)"
  then have "p = (k, v) \<or> p \<in> set m" using set_smap_put [of k v m] by blast
  then show "case p of (k', exv) \<Rightarrow> \<forall>e \<in> set exv. ext_placed f l offset bo e \<and> oe_oid e = k'"
    using v exts_placedD [OF m] by (cases p) blast
qed

lemma exts_placed_step:
  assumes m: "exts_placed f l offset bo m"
  shows "exts_placed f l offset bo
    (smap_put (format_oid f (objectno l cur))
       (add_piece f l (objectno l cur) (x_offset l cur) xl ts (cur - offset + bo, xl)
          (fst (smap_at [] (format_oid f (objectno l cur)) m))) m)"
proof (rule exts_placed_put [OF m])
  let ?k = "format_oid f (objectno l cur)"
  let ?old = "fst (smap_at [] ?k m)"
  have old: "\<forall>e \<in> set ?old. ext_placed f l offset bo e \<and> oe_objectno e = objectno l cur"
  proof (cases "map_of m ?k")
    case None
    then show ?thesis by (simp add: fst_smap_at)
  next
    case (Some exv)
    show ?thesis
    proof
      fix e assume "e \<in> set ?old"
      with Some have "(?k, exv) \<in> set m" and "e \<in> set exv"
        by (simp_all add: fst_smap_at map_of_SomeD)
      from exts_placedD [OF m this] have p: "ext_placed f l offset bo e" "oe_oid e = ?k"
        by simp_all
      with ext_placed_oid [OF p(1)] show "ext_placed f l offset bo e \<and> oe_objectno e = objectno l cur"
        by (simp add: format_oid_inj)
    qed
  qed
  fix e
  assume "e \<in> set (add_piece f l (objectno l cur) (x_offset l cur) xl ts (cur - offset + bo, xl) ?old)"
  with add_piece_placed [OF old, of xl ts]
  have "ext_placed f l offset bo e" "oe_objectno e = objectno l cur" by blast+
  with ext_placed_oid [of f l offset bo e] show "ext_placed f l offset bo e \<and> oe_oid e = ?k" by simp
qed

lemma total_smap_put:
  fixes g :: "'b \<Rightarrow> nat"
  assumes "smap_ok m"
  shows "(\<Sum>p\<leftarrow>smap_put k v m. g (snd p)) + (case map_of m k of None \<Rightarrow> 0 | Some w \<Rightarrow> g w)
           = (\<Sum>p\<leftarrow>m. g (snd p)) + g v"
  using assms
proof (induction m)
  case (Cons p m)
  obtain a b where p: "p = (a, b)" by (cases p)
  show ?case
  proof (cases "k < a")
    case True
    with Cons.prems p have "map_of m k = None" by (auto intro!: map_of_below)
    with True p show ?thesis by auto
  next
    case False
    with Cons p show ?thesis by (auto split: option.splits)
  qed
qed simp

lemma fte_loop_placed:
  assumes "exts_placed f l offset bo m" and "fte_loop f l ts offset bo cur left m = Some m'"
  shows "exts_placed f l offset bo m' \<and>
    (\<Sum>p\<leftarrow>m'. buf_total (snd p)) = (\<Sum>p\<leftarrow>m. buf_total (snd p)) + unat left"
  using assms
proof (induction f l ts offset bo cur left m rule: fte_loop.induct)
  case (1 f l ts offset bo cur left m)
  show ?case
  proof (cases "left = 0")
    case True
    with 1 show ?thesis by (simp add: fte_loop.simps)
  next
    case False
    with "1.prems"(2) obtain t where t: "object_truncate_size l (objectno l cur) ts = Some t"
      and nz: "lo_su l \<noteq> 0" "lo_sc l \<noteq> 0"
      by (subst (asm) fte_loop.simps) (auto split: if_splits option.splits)
    let ?x = "x_len l cur left" and ?k = "format_oid f (objectno l cur)"
    let ?old = "fst (smap_at [] ?k m)"
    let ?v = "add_piece f l (objectno l cur) (x_offset l cur) ?x t (cur - offset + bo, ?x) ?old"
    have step: "fte_loop f l ts offset bo (cur + ?x) (left - ?x) (smap_put ?k ?v m) = Some m'"
      using "1.prems"(2) False t nz by (subst (asm) fte_loop.simps) simp
    have placed: "exts_placed f l offset bo (smap_put ?k ?v m)"
      by (rule exts_placed_step [OF "1.prems"(1)])
    have IH: "exts_placed f l offset bo m' \<and>
        (\<Sum>p\<leftarrow>m'. buf_total (snd p)) = (\<Sum>p\<leftarrow>smap_put ?k ?v m. buf_total (snd p)) + unat (left - ?x)"
      using "1.IH" [OF False _ t placed step] nz by simp
    have "(\<Sum>p\<leftarrow>smap_put ?k ?v m. buf_total (snd p)) + buf_total ?old
        = (\<Sum>p\<leftarrow>m. buf_total (snd p)) + buf_total ?v"
      using total_smap_put [where m = m and k = ?k and v = ?v and g = buf_total] "1.prems"(1)
      by (auto simp: exts_placed_def fst_smap_at split: option.splits)
    then have "(\<Sum>p\<leftarrow>smap_put ?k ?v m. buf_total (snd p)) = (\<Sum>p\<leftarrow>m. buf_total (snd p)) + unat ?x"
      by (simp add: add_piece_total)
    moreover have "unat ?x + unat (left - ?x) = unat left"
      using x_len_pos [OF nz(1) False, of cur] by (simp add: u64_arith word_le_nat_alt)
    ultimately show ?thesis using IH by simp
  qed
qed

lemma fte_loop_total:
  "layout_ok l \<Longrightarrow> \<exists>m'. fte_loop f l ts offset bo cur left m = Some m'"
proof (induction f l ts offset bo cur left m rule: fte_loop.induct)
  case (1 f l ts offset bo cur left m)
  show ?case
  proof (cases "left = 0")
    case True
    then show ?thesis by (simp add: fte_loop.simps)
  next
    case False
    have nz: "\<not> lo_os l < lo_su l" "lo_su l \<noteq> 0" "lo_sc l \<noteq> 0"
      using "1.prems" by (auto simp: layout_ok_def)
    obtain t where t: "object_truncate_size l (objectno l cur) ts = Some t"
      using nz by (cases "object_truncate_size l (objectno l cur) ts")
        (auto simp: object_truncate_size_def Let_def split: if_splits)
    show ?thesis
      using "1.IH" [OF False _ t "1.prems"] False nz t
      by (subst fte_loop.simps) simp
  qed
qed

subsection \<open>Results\<close>

text \<open>Reverse mapping: the piece of an image that lies within one stripe unit is mapped by
  \<open>file_to_extents\<close> to an object and an offset from which \<open>extent_to_file\<close> computes exactly that
  piece back. So no two image bytes share an object byte.\<close>

theorem striper_roundtrip:
  assumes "layout_ok l" and "len \<noteq> 0"
    and "unat cur mod unat (lo_su l) + unat len \<le> unat (lo_su l)"
  shows "extent_to_file l (objectno l cur) (x_offset l cur) len = Some [(cur, len)]"
  by (rule extent_to_file_back [OF assms])

definition layout_4_2_8 :: file_layout where
  "layout_4_2_8 = \<lparr>fl_stripe_unit = 4, fl_stripe_count = 2, fl_object_size = 8, fl_pg_pool = 3\<rparr>"

lemma layout_4_2_8_exact: "layout_exact layout_4_2_8"
  by (simp add: layout_exact_def layout_ok_def layout_4_2_8_def)

lemma layout_exact_ok: "layout_exact l \<Longrightarrow> layout_ok l"
  by (simp add: layout_exact_def)

theorem striper_roundtrip_witness:
  "extent_to_file layout_4_2_8 (objectno layout_4_2_8 21) (x_offset layout_4_2_8 21) 3 = Some [(21, 3)]"
  by (rule striper_roundtrip [OF layout_exact_ok [OF layout_4_2_8_exact]])
    (simp_all add: layout_4_2_8_def)

text \<open>A request is split without loss: for a sound layout and a request of at least one byte
  \<open>file_to_extents\<close> returns, the buffer extents it hands out add up to the requested length, and in
  every extent the pieces lie one after the other at the object offsets that the address
  arithmetic gives to the image offsets they stand for.\<close>

theorem file_to_extents_split:
  assumes "layout_ok l" and "len \<noteq> 0"
  shows "\<exists>exts. file_to_extents f l offset len ts bo = Some exts \<and> buf_total exts = unat len \<and>
    (\<forall>e. e \<in> set exts \<longrightarrow> ext_placed f l offset bo e)"
proof -
  obtain m where m: "fte_loop f l ts offset bo offset len [] = Some m"
    using fte_loop_total [OF assms(1)] by blast
  have "exts_placed f l offset bo []" by (simp add: exts_placed_def)
  from fte_loop_placed [OF this m]
  have p: "exts_placed f l offset bo m" and t: "buf_total (concat (map snd m)) = unat len"
    by (simp_all add: buf_total_concat)
  have "file_to_extents f l offset len ts bo = Some (concat (map snd m))"
    using m assms by (simp add: file_to_extents_def file_to_extents_map_def layout_ok_def not_less
        assimilate_extents_def)
  moreover have "ext_placed f l offset bo e" if "e \<in> set (concat (map snd m))" for e
    using that exts_placedD [OF p] by fastforce
  ultimately show ?thesis using t by blast
qed

theorem file_to_extents_split_witness:
  "\<exists>exts. file_to_extents \<lparr>fmt_prefix = ''rb.0'', fmt_width = 16\<rparr> layout_4_2_8 3 10 0 0 = Some exts \<and>
    buf_total exts = 10 \<and>
    (\<forall>e. e \<in> set exts \<longrightarrow> ext_placed \<lparr>fmt_prefix = ''rb.0'', fmt_width = 16\<rparr> layout_4_2_8 3 0 e)"
  using file_to_extents_split [OF layout_exact_ok [OF layout_4_2_8_exact], of 10] by simp

text \<open>Truncation: for a truncation size other than the two special values, an object keeps
  exactly those of its bytes whose image offset is below the truncation size, and the value
  computed never exceeds the object size.\<close>

theorem truncate_size_separates:
  assumes "layout_exact l" and "ts \<noteq> 0" and "ts \<noteq> - 1"
  shows "\<exists>r. object_truncate_size l (objectno l cur) ts = Some r \<and> r \<le> lo_os l \<and>
    (x_offset l cur < r \<longleftrightarrow> cur < ts)"
proof -
  obtain r where r: "object_truncate_size l (objectno l cur) ts = Some r"
    and n: "unat r = trunc_nat (unat (lo_su l)) (unat (lo_sc l)) (unat (stripes_per_object l))
                       (unat (objectno l cur)) (unat ts)"
    using unat_object_truncate_size [OF assms] by blast
  note pos = layout_ok_nat [OF layout_exact_ok [OF assms(1)]]
  have "unat (stripes_per_object l) * unat (lo_su l) = unat (lo_os l)"
    using assms(1) by (simp add: layout_exact_def stripes_per_object_def u64_arith)
  then have "r \<le> lo_os l"
    using trunc_nat_le [OF pos(1,3)] n by (metis word_le_nat_alt)
  moreover have "x_offset l cur < r \<longleftrightarrow> cur < ts"
    using trunc_nat_separates [OF pos(1,2,3), of "unat cur" "unat ts"]
    by (simp add: word_less_nat_alt n unat_x_offset unat_objectno unat_blockno)
  ultimately show ?thesis using r by blast
qed

theorem truncate_size_separates_witness:
  "\<exists>r. object_truncate_size layout_4_2_8 (objectno layout_4_2_8 21) 22 = Some r \<and>
    r \<le> lo_os layout_4_2_8 \<and> (x_offset layout_4_2_8 21 < r \<longleftrightarrow> (21 :: u64) < 22)"
  by (rule truncate_size_separates [OF layout_4_2_8_exact]) simp_all

subsection \<open>The default layout\<close>

text \<open>
  Without striping (one stripe unit per object, stripe count 1) object \<open>k\<close> holds the \<open>k\<close>-th
  block of the image, which is what the tiering code assumes of its extents.
\<close>

definition layout_plain :: "file_layout \<Rightarrow> bool" where
  "layout_plain l \<longleftrightarrow> fl_stripe_unit l = fl_object_size l \<and> fl_stripe_count l = 1 \<and> lo_os l \<noteq> 0"

lemma layout_plain_exact: "layout_plain l \<Longrightarrow> layout_exact l"
  by (auto simp: layout_plain_def layout_exact_def layout_ok_def)

lemma objectno_plain: "layout_plain l \<Longrightarrow> objectno l cur = cur div lo_os l"
  by (rule u64_eqI) (auto simp: layout_plain_def unat_objectno unat_blockno stripes_per_object_def u64_arith
      unat_pos_u64)

lemma x_offset_plain: "layout_plain l \<Longrightarrow> x_offset l cur = cur mod lo_os l"
  by (rule u64_eqI) (auto simp: layout_plain_def unat_x_offset unat_blockno stripes_per_object_def u64_arith
      unat_pos_u64)

end
