(* ===== verification/Osd_Ops.thy ===== *)
theory Osd_Ops
  imports Stdmap
begin

text \<open>
  The object operations of the OSD that librbd sends (\<open>ReplicatedPG::do_osd_ops\<close> in
  \<open>osd/ReplicatedPG.cc\<close>, over the byte files of \<open>os/FileStore.cc\<close>). An object that does not exist
  is \<open>None\<close>. An operation returns its result code, its output and the new object; a compound
  operation stops at the first error and then leaves the object as it was, as
  \<open>prepare_transaction\<close> drops the transaction. Statistics and snapshots are not modelled.
  Operations are rewritten before they are executed (\<open>munge_truncate\<close>, \<open>munge_zero\<close>).
  Lemmas: the size invariant, atomicity of compound operations, and the interface \<open>byte_store\<close>
  (contents after a write or a truncation, seen as zero-filled bytes) interpreted on byte lists.
\<close>

subsection \<open>Byte files\<close>

definition file_read :: "nat \<Rightarrow> nat \<Rightarrow> bytes \<Rightarrow> bytes" where
  "file_read off len d = take (if len = 0 then length d else len) (drop off d)"

definition file_write :: "nat \<Rightarrow> bytes \<Rightarrow> bytes \<Rightarrow> bytes" where
  "file_write off new d =
     (if new = [] then d
      else take off d @ replicate (off - length d) 0 @ new @ drop (off + length new) d)"

definition file_truncate :: "nat \<Rightarrow> bytes \<Rightarrow> bytes" where
  "file_truncate n d = take n d @ replicate (n - length d) 0"

definition byte_at :: "bytes \<Rightarrow> nat \<Rightarrow> u8" where
  "byte_at d i = (if i < length d then d ! i else 0)"

lemma length_file_write:
  "length (file_write off new d) =
     (if new = [] then length d else max (length d) (off + length new))"
  by (auto simp: file_write_def)

lemma length_file_truncate [simp]: "length (file_truncate n d) = n"
  by (auto simp: file_truncate_def)

lemma byte_at_write:
  "byte_at (file_write off new d) i =
     (if off \<le> i \<and> i < off + length new then new ! (i - off) else byte_at d i)"
proof -
  have "min (length d) off + (off - length d) = off" by simp
  then show ?thesis by (auto simp: byte_at_def file_write_def nth_append)
qed

lemma byte_at_truncate: "byte_at (file_truncate n d) i = (if i < n then byte_at d i else 0)"
  by (auto simp: byte_at_def file_truncate_def nth_append)

lemma byte_at_nil [simp]: "byte_at [] i = 0"
  by (simp add: byte_at_def)

lemma file_read_nth:
  "i < length (file_read off len d) \<Longrightarrow> file_read off len d ! i = byte_at d (off + i)"
  by (auto simp: file_read_def byte_at_def)

locale byte_store =
  fixes view :: "'o \<Rightarrow> nat \<Rightarrow> u8"
    and wr :: "nat \<Rightarrow> bytes \<Rightarrow> 'o \<Rightarrow> 'o"
    and cut :: "nat \<Rightarrow> 'o \<Rightarrow> 'o"
    and blank :: "'o"
  assumes view_blank: "view blank i = 0"
    and view_wr: "view (wr off b x) i =
      (if off \<le> i \<and> i < off + length b then b ! (i - off) else view x i)"
    and view_cut: "view (cut n x) i = (if i < n then view x i else 0)"
begin

lemma wr_own: "i < length b \<Longrightarrow> view (wr off b x) (off + i) = b ! i"
  by (simp add: view_wr)

lemma wr_other: "i < off \<or> off + length b \<le> i \<Longrightarrow> view (wr off b x) i = view x i"
  by (auto simp: view_wr)

lemma wr_disjoint:
  "off + length b \<le> off' \<Longrightarrow> view (wr off b (wr off' b' x)) = view (wr off' b' (wr off b x))"
  by (auto simp: fun_eq_iff view_wr)

lemma wr_wr: "length b = length b' \<Longrightarrow> view (wr off b (wr off b' x)) = view (wr off b x)"
  by (auto simp: fun_eq_iff view_wr)

lemma cut_blank: "view (wr 0 b (cut 0 x)) = view (wr 0 b blank)"
  by (auto simp: fun_eq_iff view_wr view_cut view_blank)

lemma zero_range: "view (wr off (replicate n 0) x) i = (if off \<le> i \<and> i < off + n then 0 else view x i)"
  by (auto simp: view_wr)

end

interpretation files: byte_store byte_at file_write file_truncate "[]"
  by unfold_locales (simp_all add: byte_at_write byte_at_truncate)

subsection \<open>Objects and operations\<close>

record osd_object =
  od_data :: bytes
  od_size :: u64
  od_truncate_seq :: u32
  od_truncate_size :: u64
  od_watchers :: nat
  od_omap :: "(string, bytes) smap"

definition fresh_object :: osd_object where
  "fresh_object = \<lparr>od_data = [], od_size = 0, od_truncate_seq = 0, od_truncate_size = 0,
                    od_watchers = 0, od_omap = []\<rparr>"

datatype osd_op =
    OpStat
  | OpRead u64 u64 u32 u64
  | OpWrite u64 u64 bytes u32 u64
  | OpWriteFull u64 u64 bytes
  | OpZero u64 u64
  | OpCreate bool
  | OpTruncate u64 u32 u64
  | OpDelete
  | OpOmapGetVals string nat string
  | OpOmapSetVals "(string, bytes) smap"
  | OpOmapRmKeys "string list"
  | OpCopyup bytes

datatype osd_out = NoOut | StatOut u64 | DataOut bytes | OmapOut "(string, bytes) smap"

type_synonym op_result = "int \<times> osd_out \<times> osd_object option"

definition check_offset_and_length :: "u64 \<Rightarrow> u64 \<Rightarrow> u64 \<Rightarrow> int" where
  "check_offset_and_length offset len mx =
     (if mx \<le> offset \<or> mx < len \<or> mx < offset + len then - EFBIG else 0)"

definition op_stat :: "osd_object option \<Rightarrow> op_result" where
  "op_stat obs = (case obs of Some ob \<Rightarrow> (0, StatOut (od_size ob), obs) | None \<Rightarrow> (- ENOENT, NoOut, obs))"

definition op_read :: "u64 \<Rightarrow> u64 \<Rightarrow> u32 \<Rightarrow> u64 \<Rightarrow> osd_object option \<Rightarrow> op_result" where
  "op_read off len truncate_seq truncate_size obs =
     (case obs of
        None \<Rightarrow> (- ENOENT, DataOut [], obs)
      | Some ob \<Rightarrow>
          let bl = file_read (unat off) (unat len) (od_data ob);
              n = length bl
          in if od_truncate_seq ob < truncate_seq \<and> unat truncate_size < unat off + n
             then (let from = max (unat off) (unat truncate_size);
                       trim = unat off + n - from
                   in (0, DataOut (take (n - trim) bl), obs))
             else (0, DataOut bl, obs))"

definition write_update_size :: "u64 \<Rightarrow> u64 \<Rightarrow> osd_object \<Rightarrow> osd_object" where
  "write_update_size offset len ob =
     (if len \<noteq> 0 \<and> od_size ob < offset + len then ob\<lparr>od_size := offset + len\<rparr> else ob)"

definition op_write ::
    "u64 \<Rightarrow> u64 \<Rightarrow> u64 \<Rightarrow> bytes \<Rightarrow> u32 \<Rightarrow> u64 \<Rightarrow> osd_object option \<Rightarrow> op_result" where
  "op_write mx off len indata truncate_seq truncate_size obs =
     (if unat len \<noteq> length indata then (- EINVAL, NoOut, obs)
      else
        let ob0 = (case obs of Some ob \<Rightarrow> ob | None \<Rightarrow> fresh_object);
            sq = od_truncate_seq ob0;
            old = sq \<noteq> 0 \<and> truncate_seq < sq \<and> od_size ob0 < off + len;
            len' = (if old then (if od_size ob0 < off then 0 else od_size ob0 - off) else len);
            data = (if old then take (unat len') indata else indata);
            ob1 = (if sq < truncate_seq
                   then (if obs \<noteq> None
                         then ob0\<lparr>od_data := file_truncate (unat truncate_size) (od_data ob0),
                                  od_truncate_seq := truncate_seq,
                                  od_truncate_size := truncate_size, od_size := truncate_size\<rparr>
                         else ob0\<lparr>od_truncate_seq := truncate_seq, od_truncate_size := truncate_size\<rparr>)
                   else ob0);
            r = check_offset_and_length off len' mx
        in if r < 0 then (r, NoOut, obs)
           else (r, NoOut, Some (write_update_size off len'
                  (ob1\<lparr>od_data := file_write (unat off) data (od_data ob1)\<rparr>))))"

definition op_write_full :: "u64 \<Rightarrow> u64 \<Rightarrow> u64 \<Rightarrow> bytes \<Rightarrow> osd_object option \<Rightarrow> op_result" where
  "op_write_full mx off len indata obs =
     (if unat len \<noteq> length indata then (- EINVAL, NoOut, obs)
      else
        let r = check_offset_and_length off len mx in
        if r < 0 then (r, NoOut, obs)
        else
          let ob0 = (case obs of Some ob \<Rightarrow> ob\<lparr>od_data := file_truncate 0 (od_data ob)\<rparr>
                               | None \<Rightarrow> fresh_object)
          in (r, NoOut, Some (ob0\<lparr>od_data := file_write (unat off) indata (od_data ob0),
                                  od_size := len + off\<rparr>)))"

definition op_zero :: "u64 \<Rightarrow> u64 \<Rightarrow> u64 \<Rightarrow> osd_object option \<Rightarrow> op_result option" where
  "op_zero mx off len obs =
     (let r = check_offset_and_length off len mx in
      if r < 0 then Some (r, NoOut, obs)
      else if len = 0 then None
      else (case obs of
              None \<Rightarrow> Some (r, NoOut, obs)
            | Some ob \<Rightarrow> Some (r, NoOut,
                Some (ob\<lparr>od_data := file_write (unat off) (replicate (unat len) 0) (od_data ob)\<rparr>))))"

definition op_create :: "bool \<Rightarrow> osd_object option \<Rightarrow> op_result" where
  "op_create excl obs =
     (case obs of
        Some ob \<Rightarrow> (if excl then (- EEXIST, NoOut, obs) else (0, NoOut, obs))
      | None \<Rightarrow> (0, NoOut, Some fresh_object))"

definition op_truncate :: "u64 \<Rightarrow> u64 \<Rightarrow> u32 \<Rightarrow> u64 \<Rightarrow> osd_object option \<Rightarrow> op_result option" where
  "op_truncate mx off truncate_seq truncate_size obs =
     (case obs of
        None \<Rightarrow> Some (0, NoOut, obs)
      | Some ob \<Rightarrow>
          if mx < off then Some (- EFBIG, NoOut, obs)
          else if truncate_seq \<noteq> 0 \<and> off \<noteq> truncate_size then None
          else if truncate_seq \<noteq> 0 \<and> truncate_seq \<le> od_truncate_seq ob then Some (0, NoOut, obs)
          else
            let ob1 = (if truncate_seq \<noteq> 0
                       then ob\<lparr>od_truncate_seq := truncate_seq, od_truncate_size := truncate_size\<rparr>
                       else ob)
            in Some (0, NoOut, Some (ob1\<lparr>od_data := file_truncate (unat off) (od_data ob1),
                                         od_size := off\<rparr>)))"

definition op_delete :: "osd_object option \<Rightarrow> op_result" where
  "op_delete obs =
     (case obs of
        None \<Rightarrow> (- ENOENT, NoOut, obs)
      | Some ob \<Rightarrow> if od_watchers ob \<noteq> 0 then (- EBUSY, NoOut, obs) else (0, NoOut, None))"

definition op_omap_get_vals ::
    "string \<Rightarrow> nat \<Rightarrow> string \<Rightarrow> osd_object option \<Rightarrow> op_result" where
  "op_omap_get_vals start_after max_return filter_prefix obs =
     (case obs of
        None \<Rightarrow> (- ENOENT, NoOut, obs)
      | Some ob \<Rightarrow>
          let after = filter (\<lambda>(k, v). start_after < k) (od_omap ob);
              from = (if start_after \<le> filter_prefix
                      then filter (\<lambda>(k, v). filter_prefix \<le> k) (od_omap ob) else after)
          in (0, OmapOut (take max_return
                (takeWhile (\<lambda>(k, v). take (length filter_prefix) k = filter_prefix) from)), obs))"

definition op_omap_set_vals :: "(string, bytes) smap \<Rightarrow> osd_object option \<Rightarrow> op_result" where
  "op_omap_set_vals to_set obs =
     (let ob = (case obs of Some ob \<Rightarrow> ob | None \<Rightarrow> fresh_object)
      in (0, NoOut, Some (ob\<lparr>od_omap := fold (\<lambda>(k, v). smap_put k v) to_set (od_omap ob)\<rparr>)))"

definition op_omap_rm_keys :: "string list \<Rightarrow> osd_object option \<Rightarrow> op_result" where
  "op_omap_rm_keys to_rm obs =
     (case obs of
        None \<Rightarrow> (- ENOENT, NoOut, obs)
      | Some ob \<Rightarrow> (0, NoOut, Some (ob\<lparr>od_omap := fold smap_erase to_rm (od_omap ob)\<rparr>)))"

text \<open>The class method \<open>rbd.copyup\<close>: write the parent's data unless the object exists by now.\<close>

definition op_copyup :: "u64 \<Rightarrow> bytes \<Rightarrow> osd_object option \<Rightarrow> op_result" where
  "op_copyup mx inp obs =
     (if fst (op_stat obs) = 0 then (0, NoOut, obs)
      else op_write mx 0 (of_nat (length inp)) inp 0 0 obs)"

text \<open>
  A sparse read of an object: the extents that the file system's map \<open>fiemap\<close> reports for the range,
  each cut to what the file holds, and their bytes one after the other.
\<close>

definition fiemap_default :: "u64 \<Rightarrow> u64 \<Rightarrow> bytes \<Rightarrow> (u64 \<times> u64) list" where
  "fiemap_default off len d = [(off, len)]"

definition op_sparse_read ::
    "(u64 \<Rightarrow> u64 \<Rightarrow> bytes \<Rightarrow> (u64 \<times> u64) list) \<Rightarrow> u64 \<Rightarrow> u64 \<Rightarrow> osd_object option \<Rightarrow>
     int \<times> (u64 \<times> u64) list \<times> bytes" where
  "op_sparse_read fiemap off len obs =
     (case obs of
        None \<Rightarrow> (- ENOENT, [], [])
      | Some ob \<Rightarrow>
          let pieces = map (\<lambda>(a, n). (a, n, file_read (unat a) (unat n) (od_data ob)))
                           (fiemap off len (od_data ob))
          in (0, map (\<lambda>(a, n, d). (a, if length d < unat n then of_nat (length d) else n)) pieces,
              concat (map (\<lambda>(a, n, d). d) pieces)))"

text \<open>
  Before an operation is executed, \<open>do_osd_ops\<close> rewrites it: a truncation to -1 with sequence number 1
  becomes no truncation at all; and a \<open>zero\<close> that reaches the end of an existing object becomes a
  truncation at its offset - with the truncation fields of the operation, which librados leaves 0 for a
  \<open>zero\<close> - or, where it begins at or past the end, nothing (\<open>None\<close>: the jump to the label
  \<open>fail\<close> with the result so far, which is 0).
\<close>

definition munge_truncate :: "osd_op \<Rightarrow> osd_op" where
  "munge_truncate op =
     (case op of
        OpRead off len ts tz \<Rightarrow> if ts = 1 \<and> tz = - 1 then OpRead off len 0 0 else op
      | OpWrite off len d ts tz \<Rightarrow> if ts = 1 \<and> tz = - 1 then OpWrite off len d 0 0 else op
      | OpTruncate off ts tz \<Rightarrow> if ts = 1 \<and> tz = - 1 then OpTruncate off 0 0 else op
      | _ \<Rightarrow> op)"

definition munge_zero :: "u64 \<Rightarrow> osd_object option \<Rightarrow> osd_op \<Rightarrow> osd_op option" where
  "munge_zero mx obs op =
     (case (op, obs) of
        (OpZero off len, Some ob) \<Rightarrow>
          if off < mx \<and> 1 \<le> len \<and> len \<le> mx \<and> od_size ob \<le> off + len
          then (if od_size ob \<le> off then None else Some (OpTruncate off 0 0))
          else Some op
      | _ \<Rightarrow> Some op)"

fun osd_op_switch :: "u64 \<Rightarrow> osd_op \<Rightarrow> osd_object option \<Rightarrow> op_result option" where
  "osd_op_switch mx OpStat obs = Some (op_stat obs)"
| "osd_op_switch mx (OpRead off len ts tz) obs = Some (op_read off len ts tz obs)"
| "osd_op_switch mx (OpWrite off len d ts tz) obs = Some (op_write mx off len d ts tz obs)"
| "osd_op_switch mx (OpWriteFull off len d) obs = Some (op_write_full mx off len d obs)"
| "osd_op_switch mx (OpZero off len) obs = op_zero mx off len obs"
| "osd_op_switch mx (OpCreate excl) obs = Some (op_create excl obs)"
| "osd_op_switch mx (OpTruncate off ts tz) obs = op_truncate mx off ts tz obs"
| "osd_op_switch mx OpDelete obs = Some (op_delete obs)"
| "osd_op_switch mx (OpOmapGetVals s n p) obs = Some (op_omap_get_vals s n p obs)"
| "osd_op_switch mx (OpOmapSetVals m) obs = Some (op_omap_set_vals m obs)"
| "osd_op_switch mx (OpOmapRmKeys ks) obs = Some (op_omap_rm_keys ks obs)"
| "osd_op_switch mx (OpCopyup d) obs = Some (op_copyup mx d obs)"

definition osd_op_step :: "u64 \<Rightarrow> osd_op \<Rightarrow> osd_object option \<Rightarrow> op_result option" where
  "osd_op_step mx op obs =
     (case munge_zero mx obs (munge_truncate op) of
        None \<Rightarrow> Some (0, NoOut, obs)
      | Some op' \<Rightarrow> osd_op_switch mx op' obs)"

fun do_osd_ops :: "u64 \<Rightarrow> osd_op list \<Rightarrow> osd_object option \<Rightarrow> (int \<times> osd_out list \<times> osd_object option) option" where
  "do_osd_ops mx [] obs = Some (0, [], obs)"
| "do_osd_ops mx (op # ops) obs =
     (case osd_op_step mx op obs of
        None \<Rightarrow> None
      | Some (r, out, obs') \<Rightarrow>
          if r < 0 then Some (r, [out], obs')
          else map_option (\<lambda>(r', outs, o'). (if ops = [] then r else r', out # outs, o'))
                 (do_osd_ops mx ops obs'))"

text \<open>On an error the transaction is dropped: the stored object stays as it was.\<close>

definition prepare_transaction ::
    "u64 \<Rightarrow> osd_op list \<Rightarrow> osd_object option \<Rightarrow> (int \<times> osd_out list \<times> osd_object option) option" where
  "prepare_transaction mx ops obs =
     (if ops = [] then None
      else map_option (\<lambda>(r, outs, o'). if r < 0 then (r, outs, obs) else (r, outs, o'))
             (do_osd_ops mx ops obs))"


text \<open>The operations that are executed as they were sent: all but truncations and zeros.\<close>

lemma osd_op_step_simps [simp]:
  "osd_op_step mx OpStat obs = Some (op_stat obs)"
  "osd_op_step mx (OpRead off len 0 tz) obs = Some (op_read off len 0 tz obs)"
  "osd_op_step mx (OpWrite off len d 0 tz) obs = Some (op_write mx off len d 0 tz obs)"
  "osd_op_step mx (OpWriteFull off len d) obs = Some (op_write_full mx off len d obs)"
  "osd_op_step mx (OpCreate excl) obs = Some (op_create excl obs)"
  "osd_op_step mx (OpTruncate off 0 tz) obs = op_truncate mx off 0 tz obs"
  "osd_op_step mx OpDelete obs = Some (op_delete obs)"
  "osd_op_step mx (OpOmapGetVals st n p) obs = Some (op_omap_get_vals st n p obs)"
  "osd_op_step mx (OpOmapSetVals m) obs = Some (op_omap_set_vals m obs)"
  "osd_op_step mx (OpOmapRmKeys ks) obs = Some (op_omap_rm_keys ks obs)"
  "osd_op_step mx (OpCopyup d) obs = Some (op_copyup mx d obs)"
  by (simp_all add: osd_op_step_def munge_truncate_def munge_zero_def)

lemma osd_op_step_zero:
  "osd_op_step mx (OpZero off len) None = op_zero mx off len None"
  "osd_op_step mx (OpZero off len) (Some ob) =
     (if off < mx \<and> 1 \<le> len \<and> len \<le> mx \<and> od_size ob \<le> off + len
      then (if od_size ob \<le> off then Some (0, NoOut, Some ob) else op_truncate mx off 0 0 (Some ob))
      else op_zero mx off len (Some ob))"
  by (simp_all add: osd_op_step_def munge_truncate_def munge_zero_def)

lemma osd_op_stepE:
  assumes "osd_op_step mx op obs = Some (r, out, obs')"
  obtains (noop) "obs' = obs" "r = 0" "out = NoOut"
    | (switch) op' where "osd_op_switch mx op' obs = Some (r, out, obs')"
      "munge_zero mx obs (munge_truncate op) = Some op'"
proof (cases "munge_zero mx obs (munge_truncate op)")
  case None
  then show thesis using assms noop by (simp add: osd_op_step_def)
next
  case (Some op')
  then have "osd_op_switch mx op' obs = Some (r, out, obs')" using assms by (simp add: osd_op_step_def)
  then show thesis using Some by (rule switch)
qed

lemmas osd_op_defs = op_stat_def op_read_def op_write_def op_write_full_def op_zero_def op_create_def
  op_truncate_def op_delete_def op_copyup_def op_omap_get_vals_def op_omap_set_vals_def op_omap_rm_keys_def

subsection \<open>Errors\<close>

lemma osd_op_switch_error:
  "osd_op_switch mx op obs = Some (r, out, obs') \<Longrightarrow> r < 0 \<Longrightarrow> obs' = obs"
  by (cases op) (auto simp: osd_op_defs Let_def split: option.splits if_splits)

lemma osd_op_step_error:
  "osd_op_step mx op obs = Some (r, out, obs') \<Longrightarrow> r < 0 \<Longrightarrow> obs' = obs"
  by (erule osd_op_stepE) (auto dest: osd_op_switch_error)

lemma check_offset_ok:
  assumes "\<not> check_offset_and_length off len mx < 0" "mx \<le> 0x8000000000000000"
  shows "unat (off + len) = unat off + unat len" "off + len \<le> mx" "unat off + unat len \<le> unat mx"
proof -
  from assms(1) have *: "off < mx" "len \<le> mx" "off + len \<le> mx"
    by (auto simp: check_offset_and_length_def split: if_splits)
  have "unat off < 9223372036854775808" "unat len \<le> 9223372036854775808"
    using * assms(2) by (simp_all add: word_less_nat_alt word_le_nat_alt)
  then have "unat off + unat len < 2 ^ LENGTH(64)" by simp
  then show eq: "unat (off + len) = unat off + unat len"
    by (simp add: unat_add_lem [symmetric])
  show "off + len \<le> mx" by (rule *(3))
  then show "unat off + unat len \<le> unat mx"
    by (simp add: word_le_nat_alt eq)
qed

lemma check_offset_zero:
  "\<not> check_offset_and_length off len mx < 0 \<Longrightarrow> check_offset_and_length off len mx = 0"
  by (simp add: check_offset_and_length_def split: if_splits)

subsection \<open>The recorded size is the length of the file\<close>

definition obj_ok :: "osd_object option \<Rightarrow> bool" where
  "obj_ok obs = (case obs of None \<Rightarrow> True
     | Some ob \<Rightarrow> unat (od_size ob) = length (od_data ob) \<and> smap_ok (od_omap ob))"

definition op_plain :: "osd_op \<Rightarrow> bool" where
  "op_plain op = (case op of OpWriteFull off len d \<Rightarrow> off = 0 | _ \<Rightarrow> True)"

lemma obj_ok_simps [simp]:
  "obj_ok None" "obj_ok (Some fresh_object)"
  "obj_ok (Some ob) \<longleftrightarrow> unat (od_size ob) = length (od_data ob) \<and> smap_ok (od_omap ob)"
  by (simp_all add: obj_ok_def fresh_object_def)

lemma obj_ok_default: "obj_ok obs \<Longrightarrow> obj_ok (Some (case obs of Some ob \<Rightarrow> ob | None \<Rightarrow> fresh_object))"
  by (cases obs) (simp_all add: fresh_object_def)

lemma write_update_size_ok:
  assumes "obj_ok (Some ob)" "\<not> check_offset_and_length off len mx < 0"
    "mx \<le> 0x8000000000000000" "unat len = length d"
  shows "obj_ok (Some (write_update_size off len (ob\<lparr>od_data := file_write (unat off) d (od_data ob)\<rparr>)))"
proof (cases "len = 0")
  case True
  then show ?thesis using assms(1,4) by (simp add: write_update_size_def length_file_write)
next
  case False
  then have "d \<noteq> []" using assms(4) unat_pos_u64 [of len] by auto
  then show ?thesis
    using False assms(1,4) check_offset_ok(1) [OF assms(2,3)]
    by (simp add: write_update_size_def length_file_write max_def word_less_nat_alt)
qed

lemma op_write_ok:
  assumes "obj_ok obs" "mx \<le> 0x8000000000000000" "op_write mx off len d ts tz obs = (r, out, obs')"
  shows "obj_ok obs'"
proof -
  define ob0 where "ob0 = (case obs of Some ob \<Rightarrow> ob | None \<Rightarrow> fresh_object)"
  have ok0: "obj_ok (Some ob0)"
    using obj_ok_default [OF assms(1)] by (simp add: ob0_def)
  define ob1 where "ob1 = (if od_truncate_seq ob0 < ts
                   then (if obs \<noteq> None
                         then ob0\<lparr>od_data := file_truncate (unat tz) (od_data ob0),
                                  od_truncate_seq := ts,
                                  od_truncate_size := tz, od_size := tz\<rparr>
                         else ob0\<lparr>od_truncate_seq := ts, od_truncate_size := tz\<rparr>)
                   else ob0)"
  have ok1: "obj_ok (Some ob1)"
    using ok0 by (simp add: ob1_def)
  define old where
    "old = (od_truncate_seq ob0 \<noteq> 0 \<and> ts < od_truncate_seq ob0 \<and> od_size ob0 < off + len)"
  define len' where
    "len' = (if old then (if od_size ob0 < off then 0 else od_size ob0 - off) else len)"
  define d' where "d' = (if old then take (unat len') d else d)"
  show ?thesis
  proof (cases "unat len \<noteq> length d \<or> check_offset_and_length off len' mx < 0")
    case True
    then show ?thesis
      using assms(1,3) unfolding op_write_def Let_def ob0_def [symmetric] old_def [symmetric]
        len'_def [symmetric] by (auto split: if_splits)
  next
    case False
    have le: "unat len' = length d'"
    proof (cases "old \<and> \<not> od_size ob0 < off")
      case True
      then have l: "len' = od_size ob0 - off" and lt: "od_size ob0 < off + len"
        and ge: "off \<le> od_size ob0"
        by (auto simp: len'_def old_def)
      have "unat (off + len) \<le> unat off + unat len"
        by (simp add: unat_word_ariths)
      then have "unat len' \<le> unat len"
        using lt ge l by (simp add: word_less_nat_alt word_le_nat_alt unat_sub_le)
      then show ?thesis using False True by (simp add: d'_def)
    next
      case no: False
      then show ?thesis using False by (auto simp: d'_def len'_def)
    qed
    have "obs' = Some (write_update_size off len'
            (ob1\<lparr>od_data := file_write (unat off) d' (od_data ob1)\<rparr>))"
      using False assms(3) unfolding op_write_def Let_def ob0_def [symmetric] old_def [symmetric]
        len'_def [symmetric] d'_def [symmetric] ob1_def [symmetric] by (simp split: if_splits)
    then show ?thesis
      using write_update_size_ok [OF ok1 _ assms(2) le] False by simp
  qed
qed

lemma smap_ok_fold_put: "smap_ok m \<Longrightarrow> smap_ok (fold (\<lambda>(k, v). smap_put k v) kvs m)"
  by (induction kvs arbitrary: m) auto

lemma smap_ok_fold_erase: "smap_ok m \<Longrightarrow> smap_ok (fold smap_erase ks m)"
  by (induction ks arbitrary: m) auto

lemma osd_op_switch_ok:
  assumes "obj_ok obs" "mx \<le> 0x8000000000000000" "op_plain op" "munge_zero mx obs op = Some op"
    "osd_op_switch mx op obs = Some (r, out, obs')"
  shows "obj_ok obs'"
proof (cases op)
  case (OpWrite off len d ts tz)
  then show ?thesis using assms by (auto intro: op_write_ok)
next
  case (OpCopyup d)
  then show ?thesis
    using assms by (cases obs) (auto simp: op_copyup_def op_stat_def intro: op_write_ok [of None])
next
  case (OpWriteFull off len d)
  then show ?thesis
    using assms
    by (auto simp: op_write_full_def op_plain_def length_file_write fresh_object_def Let_def
        split: option.splits if_splits)
next
  case (OpZero off len)
  show ?thesis
  proof (cases "check_offset_and_length off len mx < 0")
    case True
    then show ?thesis using assms(1,5) OpZero by (auto simp: op_zero_def Let_def)
  next
    case False
    note sum = check_offset_ok [OF False assms(2)]
    have in_range: "off < mx" "len \<le> mx"
      using False by (auto simp: check_offset_and_length_def split: if_splits)
    show ?thesis
    proof (cases obs)
      case (Some ob)
      have "len \<noteq> 0" using assms(5) OpZero False by (auto simp: op_zero_def Let_def)
      then have "1 \<le> len" using unat_pos_u64 [of len] by (simp add: word_le_nat_alt)
      then have "off + len < od_size ob"
        using assms(4) OpZero Some in_range by (auto simp: munge_zero_def not_le split: if_splits)
      then have "unat off + unat len < unat (od_size ob)"
        using sum(1) by (simp add: word_less_nat_alt)
      then show ?thesis
        using assms(1,5) OpZero Some False by (auto simp: op_zero_def length_file_write Let_def split: if_splits)
    qed (use assms(5) OpZero in \<open>auto simp: op_zero_def Let_def split: if_splits\<close>)
  qed
next
  case (OpOmapSetVals m)
  then show ?thesis
    using assms
    by (auto simp: op_omap_set_vals_def fresh_object_def smap_ok_fold_put split: option.splits)
qed (use assms in \<open>auto simp: osd_op_defs fresh_object_def smap_ok_fold_erase Let_def split: option.splits if_splits\<close>)

lemma munged_plain:
  assumes "munge_zero mx obs (munge_truncate op) = Some op'" "op_plain op"
  shows "op_plain op'" "munge_zero mx obs op' = Some op'"
  using assms by (auto simp: munge_zero_def munge_truncate_def op_plain_def split: osd_op.splits option.splits if_splits)

lemma osd_op_step_ok:
  assumes "obj_ok obs" "mx \<le> 0x8000000000000000" "op_plain op"
    "osd_op_step mx op obs = Some (r, out, obs')"
  shows "obj_ok obs'"
  using assms(4)
proof (cases rule: osd_op_stepE)
  case noop
  then show ?thesis using assms(1) by simp
next
  case (switch op')
  show ?thesis
    using osd_op_switch_ok [OF assms(1,2) munged_plain [OF switch(2) assms(3)] switch(1)] .
qed

lemma do_osd_ops_ok:
  assumes "obj_ok obs" "mx \<le> 0x8000000000000000" "list_all op_plain ops"
    "do_osd_ops mx ops obs = Some (r, outs, obs')"
  shows "obj_ok obs'"
  using assms
proof (induction ops arbitrary: obs r outs)
  case Nil
  then show ?case by simp
next
  case (Cons op ops)
  then obtain r1 out1 obs1 where st: "osd_op_step mx op obs = Some (r1, out1, obs1)"
    by (auto split: option.splits)
  have ok1: "obj_ok obs1"
    using osd_op_step_ok [OF _ _ _ st] Cons.prems by simp
  show ?case
  proof (cases "r1 < 0")
    case True
    then show ?thesis using Cons.prems st ok1 by simp
  next
    case False
    then obtain r2 outs2 where "do_osd_ops mx ops obs1 = Some (r2, outs2, obs')"
      using Cons.prems st by (auto split: if_splits)
    then show ?thesis
      using Cons.IH [OF ok1] Cons.prems by simp
  qed
qed

text \<open>C38. A transaction of object operations keeps an object well formed: its recorded size is
  the length of its file and its key map is sorted; and when the transaction fails, the
  object is exactly what it was. A \<open>zero\<close> past the end needs the rewriting to a truncation for
  this: writing zeros would make the file longer than the recorded size. (\<open>write_full\<close> sets the size to offset + length even when the
  payload is empty, so it is taken at offset 0, as librbd sends it.)\<close>

theorem transaction_keeps_object_ok:
  assumes "obj_ok obs" "mx \<le> 0x8000000000000000" "list_all op_plain ops"
    "prepare_transaction mx ops obs = Some (r, outs, obs')"
  shows "obj_ok obs' \<and> (r < 0 \<longrightarrow> obs' = obs)"
proof -
  obtain obs1 where "do_osd_ops mx ops obs = Some (r, outs, obs1)"
    and "obs' = (if r < 0 then obs else obs1)"
    using assms(4) by (auto simp: prepare_transaction_def split: if_splits)
  then show ?thesis
    using do_osd_ops_ok [OF assms(1-3)] assms(1) by simp
qed

lemma transaction_keeps_object_ok_witness:
  "let obs' = Some (fresh_object\<lparr>od_data := [7], od_size := 1\<rparr>);
       ops = [OpCreate True, OpWrite 0 2 [7, 8] 1 (- 1), OpTruncate 3 0 0, OpZero 1 5, OpZero 2 9] in
   prepare_transaction 1000 ops None = Some (0, [NoOut, NoOut, NoOut, NoOut, NoOut], obs')
     \<and> obj_ok obs' \<and> ((0::int) < 0 \<longrightarrow> obs' = None)"
proof -
  have steps: "osd_op_step 1000 (OpWrite 0 2 [7, 8] 1 (- 1)) = osd_op_step 1000 (OpWrite 0 2 [7, 8] 0 0)"
    by (simp add: fun_eq_iff osd_op_step_def munge_truncate_def)
  have run: "prepare_transaction 1000
      [OpCreate True, OpWrite 0 2 [7, 8] 1 (- 1), OpTruncate 3 0 0, OpZero 1 5, OpZero 2 9] None
     = Some (0, [NoOut, NoOut, NoOut, NoOut, NoOut], Some (fresh_object\<lparr>od_data := [7], od_size := 1\<rparr>))"
    by (simp add: prepare_transaction_def osd_op_defs Let_def fresh_object_def steps osd_op_step_zero
        check_offset_and_length_def write_update_size_def file_write_def file_truncate_def
        word_le_nat_alt)
  show ?thesis
    using transaction_keeps_object_ok [OF _ _ _ run] run by (simp add: op_plain_def Let_def)
qed

subsection \<open>What a read sees\<close>

definition obj_bytes :: "osd_object option \<Rightarrow> nat \<Rightarrow> u8" where
  "obj_bytes obs i = (case obs of None \<Rightarrow> 0 | Some ob \<Rightarrow> byte_at (od_data ob) i)"

lemma obj_bytes_simps [simp]:
  "obj_bytes None i = 0" "obj_bytes (Some ob) i = byte_at (od_data ob) i"
  by (simp_all add: obj_bytes_def)

lemma op_read_plain:
  assumes "len \<noteq> 0"
  shows "op_read off len 0 tz (Some ob) = (0, DataOut (file_read (unat off) (unat len) (od_data ob)), Some ob)"
  by (simp add: op_read_def Let_def)

lemma byte_at_file_read:
  "0 < len \<Longrightarrow> i < len \<Longrightarrow> byte_at (file_read off len d) i = byte_at d (off + i)"
  by (auto simp: byte_at_def file_read_def)

lemma op_write_plain:
  assumes "unat len = length d" "\<not> check_offset_and_length off len mx < 0"
    "(case obs of Some ob \<Rightarrow> od_truncate_seq ob = 0 | None \<Rightarrow> True)"
  shows "\<exists>ob'. op_write mx off len d 0 tz obs = (0, NoOut, Some ob') \<and> od_truncate_seq ob' = 0 \<and>
     od_data ob' = file_write (unat off) d (case obs of Some ob \<Rightarrow> od_data ob | None \<Rightarrow> []) \<and>
     od_watchers ob' = (case obs of Some ob \<Rightarrow> od_watchers ob | None \<Rightarrow> 0)"
  using assms check_offset_zero [OF assms(2)]
  by (cases obs) (simp_all add: op_write_def Let_def fresh_object_def write_update_size_def)

text \<open>A write followed by a read, at any offsets: the read returns the written bytes where the
  two ranges meet, and elsewhere what the object held before, holes and missing objects being
  zeros.\<close>

theorem osd_read_after_write:
  assumes "unat len = length d" "\<not> check_offset_and_length off len mx < 0"
    "case obs of Some ob \<Rightarrow> od_truncate_seq ob = 0 | None \<Rightarrow> True" "rlen \<noteq> 0"
  shows "\<exists>obs' rd. op_write mx off len d 0 tz obs = (0, NoOut, obs') \<and>
      op_read roff rlen 0 tz' obs' = (0, DataOut rd, obs') \<and>
      (\<forall>i < unat rlen. byte_at rd i =
         (if unat off \<le> unat roff + i \<and> unat roff + i < unat off + length d
          then d ! (unat roff + i - unat off) else obj_bytes obs (unat roff + i)))"
proof -
  obtain ob' where w: "op_write mx off len d 0 tz obs = (0, NoOut, Some ob')"
    and dat: "od_data ob' = file_write (unat off) d (case obs of Some ob \<Rightarrow> od_data ob | None \<Rightarrow> [])"
    using op_write_plain [OF assms(1-3)] by blast
  have pos: "0 < unat rlen" using assms(4) unat_pos_u64 by blast
  have "\<forall>i < unat rlen. byte_at (file_read (unat roff) (unat rlen) (od_data ob')) i =
         (if unat off \<le> unat roff + i \<and> unat roff + i < unat off + length d
          then d ! (unat roff + i - unat off) else obj_bytes obs (unat roff + i))"
    by (cases obs) (simp_all add: byte_at_file_read [OF pos] dat byte_at_write)
  then show ?thesis
    using w op_read_plain [OF assms(4), of roff tz' ob'] by blast
qed

lemma osd_read_after_write_witness:
  "\<exists>obs' rd. op_write 1000 2 2 [7, 8] 0 0 None = (0, NoOut, obs') \<and>
      op_read 1 4 0 0 obs' = (0, DataOut rd, obs') \<and>
      (\<forall>i < unat (4 :: u64). byte_at rd i =
         (if unat (2 :: u64) \<le> unat (1 :: u64) + i \<and> unat (1 :: u64) + i < unat (2 :: u64) + length [7, 8 :: u8]
          then [7, 8] ! (unat (1 :: u64) + i - unat (2 :: u64)) else obj_bytes None (unat (1 :: u64) + i)))"
  by (rule osd_read_after_write) (simp_all add: check_offset_and_length_def)

end
