(* ===== verification/Striped_Read.thy ===== *)
theory Striped_Read
  imports Striper Osd_Ops
begin

text \<open>
  \<open>Striper::StripedReadResult\<close> of \<open>osdc/Striper.cc\<close>: the pieces of a read that arrive object by
  object are filed by their buffer offset and put together at the end. A piece is its data and
  its length; missing data reads as zeros. \<open>None\<close> is a failed assert or an exception of
  \<open>bufferlist::splice\<close> (empty or too short list). Lemmas: a sparse result fills its buffer
  extents with the bytes of the extent map and zeros in the gaps (\<open>add_partial_sparse_view\<close>), and
  pieces that tile a range are assembled into it (\<open>assemble_result_view\<close>).
\<close>

type_synonym partial_t = "(u64, bytes \<times> u64) smap"

definition splice_front :: "nat \<Rightarrow> bytes \<Rightarrow> (bytes \<times> bytes) option" where
  "splice_front n bl = (if bl = [] \<or> n = 0 \<or> length bl < n then None else Some (take n bl, drop n bl))"

fun add_partial_result :: "bytes \<Rightarrow> (u64 \<times> u64) list \<Rightarrow> partial_t \<Rightarrow> (bytes \<times> partial_t) option" where
  "add_partial_result bl [] partial = Some (bl, partial)"
| "add_partial_result bl ((tofs, tlen) # be) partial =
     (let (r, partial1) = smap_at ([], 0) tofs partial;
          actual = min (length bl) (unat tlen)
      in case splice_front actual bl of
           None \<Rightarrow> None
         | Some (taken, bl') \<Rightarrow>
             add_partial_result bl' be (smap_put tofs (fst r @ taken, tlen) partial1))"

text \<open>The inner loop over one buffer extent: \<open>s\<close> is what is left of the extent map.\<close>

definition set_second :: "u64 \<Rightarrow> u64 \<Rightarrow> partial_t \<Rightarrow> partial_t" where
  "set_second tofs n partial =
     (let (r, partial1) = smap_at ([], 0) tofs partial in smap_put tofs (fst r, n) partial1)"

definition append_piece :: "u64 \<Rightarrow> bytes \<Rightarrow> u64 \<Rightarrow> partial_t \<Rightarrow> partial_t" where
  "append_piece tofs d n partial =
     (let (r, partial1) = smap_at ([], 0) tofs partial in smap_put tofs (fst r @ d, n) partial1)"

lemma sub_less_u64: "(a :: u64) \<noteq> 0 \<Longrightarrow> a \<le> b \<Longrightarrow> unat (b - a) < unat b"
  by (simp add: unat_sub_le word_le_nat_alt unat_pos_u64)

lemma sub_le_u64: "(a :: u64) \<le> b \<Longrightarrow> unat (b - a) \<le> unat b"
  by (simp add: unat_sub_le word_le_nat_alt)

function sparse_loop ::
    "(u64 \<times> u64) list \<Rightarrow> bytes \<Rightarrow> u64 \<Rightarrow> u64 \<Rightarrow> u64 \<Rightarrow> partial_t \<Rightarrow>
     ((u64 \<times> u64) list \<times> bytes \<times> u64 \<times> partial_t) option" where
  "sparse_loop s bl bl_off tofs tlen partial =
     (if tlen = 0 then Some (s, bl, bl_off, partial)
      else case s of
        [] \<Rightarrow> Some ([], bl, bl_off, set_second tofs tlen partial)
      | (sf, sl) # s' \<Rightarrow>
          if sl = 0 then sparse_loop s' bl bl_off tofs tlen partial
          else
            let gap = (if bl_off < sf then min (sf - bl_off) tlen else 0);
                partial1 = (if bl_off < sf then set_second tofs gap partial else partial);
                off1 = bl_off + gap; tofs1 = tofs + gap; tlen1 = tlen - gap
            in if tlen1 = 0 then Some (s, bl, off1, partial1)
               else if off1 < sf then None
               else
                 let left = sf + sl - off1;
                     actual = min left tlen1
                 in if actual = 0 then sparse_loop s' bl off1 tofs1 tlen1 partial1
                    else case splice_front (unat actual) bl of
                      None \<Rightarrow> None
                    | Some (taken, bl') \<Rightarrow>
                        sparse_loop (if actual = left then s' else s) bl' (off1 + actual)
                          (tofs1 + actual) (tlen1 - actual) (append_piece tofs1 taken actual partial1))"
  by pat_completeness auto

termination
proof (relation "measure (\<lambda>(s, bl, bo, to, tl, p). unat tl + length s)", goal_cases)
  case 1
  show ?case by simp
next
  case 2
  then show ?case by simp
next
  case (3 s bl bl_off tofs tlen partial a s' sf sl gap partial1 off1 tofs1 tlen1 left actual)
  have "gap \<le> tlen" using 3(5) by simp
  then have "unat tlen1 \<le> unat tlen" unfolding 3(9) by (rule sub_le_u64)
  then show ?case using 3(2) by simp
next
  case (4 s bl bl_off tofs tlen partial a s' sf sl gap partial1 off1 tofs1 tlen1 left actual aa taken bl')
  have "gap \<le> tlen" using 4(5) by simp
  then have le: "unat tlen1 \<le> unat tlen" unfolding 4(9) by (rule sub_le_u64)
  have "actual \<le> tlen1" "actual \<noteq> 0" using 4(13,14) by simp_all
  then have "unat (tlen1 - actual) < unat tlen1" by (intro sub_less_u64)
  then show ?case using le 4(2) by auto
qed

declare sparse_loop.simps [simp del]

lemma sparse_loop_skip:
  "tlen \<noteq> 0 \<Longrightarrow> sparse_loop ((sf, 0) # s') bl lo tofs tlen m = sparse_loop s' bl lo tofs tlen m"
  by (subst sparse_loop.simps) (simp only: if_False list.case prod.case if_True refl simp_thms)

lemma sparse_loop_ext:
  "tlen \<noteq> 0 \<Longrightarrow> sl \<noteq> 0 \<Longrightarrow>
   sparse_loop ((sf, sl) # s') bl lo tofs tlen m =
     (let gap = (if lo < sf then min (sf - lo) tlen else 0);
          m1 = (if lo < sf then set_second tofs gap m else m);
          left = sf + sl - (lo + gap);
          actual = min left (tlen - gap)
      in if tlen - gap = 0 then Some ((sf, sl) # s', bl, lo + gap, m1)
         else if lo + gap < sf then None
         else if actual = 0 then sparse_loop s' bl (lo + gap) (tofs + gap) (tlen - gap) m1
         else case splice_front (unat actual) bl of
                None \<Rightarrow> None
              | Some (taken, bl') \<Rightarrow>
                  sparse_loop (if actual = left then s' else (sf, sl) # s') bl' (lo + gap + actual)
                    (tofs + gap + actual) (tlen - gap - actual)
                    (append_piece (tofs + gap) taken actual m1))"
  by (subst sparse_loop.simps) (simp only: if_False list.case prod.case Let_def simp_thms)

fun sparse_extents ::
    "(u64 \<times> u64) list \<Rightarrow> bytes \<Rightarrow> u64 \<Rightarrow> (u64 \<times> u64) list \<Rightarrow> partial_t \<Rightarrow> (bytes \<times> partial_t) option" where
  "sparse_extents s bl bl_off [] partial = Some (bl, partial)"
| "sparse_extents s bl bl_off ((tofs, tlen) # be) partial =
     (case sparse_loop s bl bl_off tofs tlen partial of
        None \<Rightarrow> None
      | Some (s', bl', bl_off', partial') \<Rightarrow> sparse_extents s' bl' bl_off' be partial')"

definition add_partial_sparse_result ::
    "bytes \<Rightarrow> (u64, u64) smap \<Rightarrow> u64 \<Rightarrow> (u64 \<times> u64) list \<Rightarrow> partial_t \<Rightarrow> (bytes \<times> partial_t) option" where
  "add_partial_sparse_result bl bl_map bl_off buffer_extents partial =
     sparse_extents bl_map bl bl_off buffer_extents partial"

text \<open>One step of the backward walk of \<open>assemble_result\<close>; \<open>bl\<close> is what was assembled so far.\<close>

definition assemble_step :: "bool \<Rightarrow> u64 \<times> bytes \<times> u64 \<Rightarrow> u64 \<times> bytes \<Rightarrow> (u64 \<times> bytes) option" where
  "assemble_step zero_tail p st =
     (case p of (pos, d, n) \<Rightarrow> case st of (end', bl) \<Rightarrow>
        if pos \<noteq> end' - n then None
        else Some (pos, if length d < unat n \<and> (zero_tail \<or> bl \<noteq> [])
                        then d @ replicate (unat n - length d) 0 @ bl
                        else d @ bl))"

fun assemble_loop :: "bool \<Rightarrow> (u64 \<times> bytes \<times> u64) list \<Rightarrow> u64 \<times> bytes \<Rightarrow> (u64 \<times> bytes) option" where
  "assemble_loop zt [] st = Some st"
| "assemble_loop zt (p # ps) st =
     (case assemble_step zt p st of None \<Rightarrow> None | Some st' \<Rightarrow> assemble_loop zt ps st')"

definition assemble_result :: "bool \<Rightarrow> partial_t \<Rightarrow> (bytes \<times> partial_t) option" where
  "assemble_result zero_tail partial =
     (case rev partial of
        [] \<Rightarrow> Some ([], partial)
      | (pos, d, n) # _ \<Rightarrow>
          map_option (\<lambda>(_, bl). (bl, [])) (assemble_loop zero_tail (rev partial) (pos + n, [])))"

subsection \<open>Pieces as a partial function of the buffer position\<close>

fun pview :: "partial_t \<Rightarrow> nat \<Rightarrow> u8 option" where
  "pview [] x = None"
| "pview ((t, d, n) # m) x =
     (if unat t \<le> x \<and> x < unat t + unat n then Some (byte_at d (x - unat t)) else pview m x)"

fun pok :: "partial_t \<Rightarrow> bool" where
  "pok [] \<longleftrightarrow> True"
| "pok ((t, d, n) # m) \<longleftrightarrow>
     n \<noteq> 0 \<and> length d \<le> unat n \<and> unat t + unat n < 2 ^ 64
     \<and> (\<forall>(t', d', n') \<in> set m. unat t + unat n \<le> unat t') \<and> pok m"

lemma pok_smap_ok: "pok m \<Longrightarrow> smap_ok m"
proof (induction m rule: pok.induct)
  case (2 t d n m)
  then have "0 < unat n" by (simp add: unat_pos_u64)
  then have "t < fst p" if "p \<in> set m" for p
    using "2.prems" that by (cases p) (fastforce simp: word_less_nat_alt)
  with 2 show ?case by auto
qed simp

lemma pview_above: "pok m \<Longrightarrow> \<forall>(t', d', n') \<in> set m. lo \<le> unat t' \<Longrightarrow> x < lo \<Longrightarrow> pview m x = None"
  by (induction m rule: pok.induct) auto

text \<open>A new piece in a free range.\<close>

lemma set_smap_put_old: "p \<in> set (smap_put k v m) \<Longrightarrow> p = (k, v) \<or> p \<in> set m"
  by (induction k v m rule: smap_put.induct) (auto split: if_splits)

lemma pview_start: "pok m \<Longrightarrow> (t, d, n) \<in> set m \<Longrightarrow> pview m (unat t) = Some (byte_at d 0)"
proof (induction m rule: pok.induct)
  case (2 t' d' n' m)
  show ?case
  proof (cases "(t, d, n) = (t', d', n')")
    case True
    then show ?thesis using 2 by (simp add: unat_pos_u64)
  next
    case False
    then have mem: "(t, d, n) \<in> set m" using 2 by auto
    then have "unat t' + unat n' \<le> unat t" using "2.prems"(1) by auto
    then show ?thesis using 2 mem by simp
  qed
qed simp

lemma pok_put:
  assumes "pok m" "n \<noteq> 0" "length d \<le> unat n" "unat t + unat n < 2 ^ 64"
    "\<forall>x. unat t \<le> x \<and> x < unat t + unat n \<longrightarrow> pview m x = None"
  shows "pok (smap_put t (d, n) m) \<and> map_of m t = None \<and>
    pview (smap_put t (d, n) m) =
      (\<lambda>x. if unat t \<le> x \<and> x < unat t + unat n then Some (byte_at d (x - unat t)) else pview m x)"
  using assms(1,5)
proof (induction m)
  case Nil
  then show ?case using assms(2-4) by (simp add: fun_eq_iff)
next
  case (Cons p m)
  obtain t' d' n' where p: "p = (t', d', n')" by (cases p)
  have np: "0 < unat n" "0 < unat n'" using assms(2) Cons.prems(1) by (simp_all add: p unat_pos_u64)
  have ok: "pok m" "\<And>a b c. (a, b, c) \<in> set m \<Longrightarrow> unat t' + unat n' \<le> unat a"
    using Cons.prems(1) by (auto simp: p)
  have free: "\<not> (unat t' \<le> x \<and> x < unat t' + unat n')" "pview m x = None"
    if "unat t \<le> x" "x < unat t + unat n" for x
    using Cons.prems(2) that by (auto simp: p split: if_splits)
  have disj: "unat t + unat n \<le> unat t' \<or> unat t' + unat n' \<le> unat t"
  proof (rule ccontr)
    assume "\<not> ?thesis"
    then have "unat t \<le> max (unat t) (unat t') \<and> max (unat t) (unat t') < unat t + unat n"
      "unat t' \<le> max (unat t) (unat t') \<and> max (unat t) (unat t') < unat t' + unat n'"
      using np by auto
    then show False using free(1) by blast
  qed
  show ?case
  proof (cases "t < t'")
    case True
    then have b: "unat t + unat n \<le> unat t'" using disj np by (auto simp: word_less_nat_alt)
    have "map_of m t = None"
    proof (rule ccontr)
      assume "map_of m t \<noteq> None"
      then obtain v where "(t, v) \<in> set m" by (auto dest: map_of_SomeD)
      then show False using ok(2) [of t "fst v" "snd v"] b np by simp
    qed
    then show ?thesis
      using True b np Cons.prems(1) assms(2-4) ok(2)
      by (fastforce simp: p fun_eq_iff)
  next
    case False
    then have b: "unat t' + unat n' \<le> unat t" using disj np by (auto simp: word_less_nat_alt)
    then have ne: "t \<noteq> t'" using np by auto
    have IH: "pok (smap_put t (d, n) m)" "map_of m t = None"
      "pview (smap_put t (d, n) m) =
        (\<lambda>x. if unat t \<le> x \<and> x < unat t + unat n then Some (byte_at d (x - unat t)) else pview m x)"
      using Cons.IH ok(1) free(2) by blast+
    have "\<forall>(a, b, c) \<in> set (smap_put t (d, n) m). unat t' + unat n' \<le> unat a"
      using ok(2) b by (auto dest!: set_smap_put_old)
    then have "pok (p # smap_put t (d, n) m)" using IH(1) Cons.prems(1) by (simp add: p)
    then show ?thesis
      using False ne IH b by (auto simp: p fun_eq_iff)
  qed
qed

lemma set_second_new: "map_of m t = None \<Longrightarrow> set_second t n m = smap_put t ([], n) m"
  by (simp add: set_second_def smap_at_def)


lemma append_piece_new: "map_of m t = None \<Longrightarrow> append_piece t d n m = smap_put t (d, n) m"
  by (simp add: append_piece_def smap_at_def)

text \<open>A piece put into a free range, as both updates of the loop do it.\<close>

lemma put_free:
  assumes "pok m" "n \<noteq> 0" "length d \<le> unat n" "unat t + unat n < 2 ^ 64"
    "\<forall>x. unat t \<le> x \<and> x < unat t + unat n \<longrightarrow> pview m x = None"
  shows "pok (append_piece t d n m)"
    "pview (append_piece t d n m) x =
      (if unat t \<le> x \<and> x < unat t + unat n then Some (byte_at d (x - unat t)) else pview m x)"
    "set_second t n m = append_piece t [] n m"
  using pok_put [OF assms] by (simp_all add: append_piece_new set_second_new)

subsection \<open>Sparse results\<close>

text \<open>The bytes an extent map and its data stand for, zero outside the extents.\<close>

fun ext_byte :: "(nat \<times> nat) list \<Rightarrow> bytes \<Rightarrow> nat \<Rightarrow> u8" where
  "ext_byte [] d x = 0"
| "ext_byte ((o', l) # s) d x =
     (if o' \<le> x \<and> x < o' + l then byte_at d (x - o') else ext_byte s (drop l d) x)"

definition nat_pairs :: "(u64 \<times> u64) list \<Rightarrow> (nat \<times> nat) list" where
  "nat_pairs s = map (\<lambda>(a, b). (unat a, unat b)) s"

text \<open>Extents in order from a position on, and the number of their bytes.\<close>

fun asc :: "nat \<Rightarrow> (u64 \<times> u64) list \<Rightarrow> bool" where
  "asc lo [] \<longleftrightarrow> True"
| "asc lo ((o', l) # s) \<longleftrightarrow> lo \<le> unat o' \<and> unat o' + unat l < 2 ^ 64 \<and> asc (unat o' + unat l) s"

definition ext_total :: "(u64 \<times> u64) list \<Rightarrow> nat" where
  "ext_total s = (\<Sum>p\<leftarrow>s. unat (snd p))"

text \<open>What is left of an extent map when the bytes below \<open>lo\<close> are consumed.\<close>

definition rest_from :: "u64 \<Rightarrow> (u64 \<times> u64) list \<Rightarrow> (nat \<times> nat) list" where
  "rest_from lo s = (case s of [] \<Rightarrow> []
     | (o', l) # s' \<Rightarrow> (max (unat lo) (unat o'), unat o' + unat l - max (unat lo) (unat o')) # nat_pairs s')"

definition sinv :: "u64 \<Rightarrow> (u64 \<times> u64) list \<Rightarrow> bytes \<Rightarrow> bool" where
  "sinv lo s bl = (case s of [] \<Rightarrow> True
     | (o', l) # s' \<Rightarrow> unat lo \<le> unat o' + unat l \<and> unat o' + unat l < 2 ^ 64 \<and> asc (unat o' + unat l) s'
         \<and> unat o' + unat l - max (unat lo) (unat o') + ext_total s' \<le> length bl)"

definition sview :: "u64 \<Rightarrow> (u64 \<times> u64) list \<Rightarrow> bytes \<Rightarrow> nat \<Rightarrow> u8" where
  "sview lo s bl x = ext_byte (rest_from lo s) bl x"

lemma asc_mono: "asc a s \<Longrightarrow> b \<le> a \<Longrightarrow> asc b s"
  by (cases s) auto

lemma ext_byte_below: "asc lo s \<Longrightarrow> x < lo \<Longrightarrow> ext_byte (nat_pairs s) d x = 0"
proof (induction lo s arbitrary: d rule: asc.induct)
  case (2 lo o' l s)
  then have "ext_byte (nat_pairs s) (drop (unat l) d) x = 0"
    using asc_mono [of "unat o' + unat l" s lo] by simp
  then show ?case using 2 by (simp add: nat_pairs_def)
qed (simp add: nat_pairs_def)

lemma asc_sinv: "asc (unat lo) s \<Longrightarrow> ext_total s \<le> length bl \<Longrightarrow> sinv lo s bl"
  by (cases s) (auto simp: sinv_def ext_total_def max_def)

lemma asc_rest: "asc (unat lo) s \<Longrightarrow> rest_from lo s = nat_pairs s"
  by (cases s) (auto simp: rest_from_def nat_pairs_def max_def)

lemma sview_skip:
  assumes "sinv lo ((o', 0) # s) bl"
  shows "sinv lo s bl" "sview lo s bl x = sview lo ((o', 0) # s) bl x"
proof -
  have a: "asc (unat o') s" "unat lo \<le> unat o'" "ext_total s \<le> length bl"
    using assms by (auto simp: sinv_def)
  then have a': "asc (unat lo) s" by (auto intro: asc_mono)
  then show "sinv lo s bl" using a by (auto intro: asc_sinv)
  show "sview lo s bl x = sview lo ((o', 0) # s) bl x"
    using a(2) by (simp add: sview_def asc_rest [OF a']) (auto simp: rest_from_def max_def)
qed

lemma sview_gap:
  assumes "sinv lo ((o', l) # s) bl" "unat lo + unat k \<le> unat o'"
  shows "sinv (lo + k) ((o', l) # s) bl" "sview (lo + k) ((o', l) # s) bl y = sview lo ((o', l) # s) bl y"
    "x < unat o' \<Longrightarrow> sview lo ((o', l) # s) bl x = 0"
proof -
  have u: "unat (lo + k) = unat lo + unat k"
    using assms(2) by (rule unat_add_bound)
  show "sinv (lo + k) ((o', l) # s) bl"
    using assms by (simp add: sinv_def u max_def)
  show "sview (lo + k) ((o', l) # s) bl y = sview lo ((o', l) # s) bl y"
    using assms(2) by (simp add: sview_def rest_from_def u max_def)
  assume x: "x < unat o'"
  have "asc (unat o' + unat l) s" using assms(1) by (simp add: sinv_def)
  then have "asc (unat o') s" by (rule asc_mono) simp
  then show "sview lo ((o', l) # s) bl x = 0"
    using x assms(2) by (simp add: sview_def rest_from_def max_def ext_byte_below)
qed

lemma byte_at_drop: "byte_at (drop k d) x = byte_at d (k + x)"
  by (auto simp: byte_at_def)

lemma byte_at_take: "x < k \<Longrightarrow> byte_at (take k d) x = byte_at d x"
  by (auto simp: byte_at_def)

lemma sview_copy:
  assumes "sinv lo ((o', l) # s) bl" "unat o' \<le> unat lo"
    and "unat k \<le> unat o' + unat l - unat lo"
    and s1: "s1 = (if unat k = unat o' + unat l - unat lo then s else (o', l) # s)"
  shows "sinv (lo + k) s1 (drop (unat k) bl)"
    "unat lo + unat k \<le> y \<Longrightarrow> sview (lo + k) s1 (drop (unat k) bl) y = sview lo ((o', l) # s) bl y"
    "unat lo \<le> x \<Longrightarrow> x < unat lo + unat k \<Longrightarrow> sview lo ((o', l) # s) bl x = byte_at (take (unat k) bl) (x - unat lo)"
    "unat k \<le> length bl"
proof -
  have a: "unat lo \<le> unat o' + unat l" "unat o' + unat l < 2 ^ 64" "asc (unat o' + unat l) s"
    "unat o' + unat l - unat lo + ext_total s \<le> length bl"
    using assms(1,2) by (auto simp: sinv_def max_def)
  have u: "unat (lo + k) = unat lo + unat k"
    using assms(3) a(1,2) by (subst unat_add_lem [THEN iffD1]) simp_all
  show "unat k \<le> length bl" using a(4) assms(3) by linarith
  have full: "unat lo + unat k = unat o' + unat l" if "unat k = unat o' + unat l - unat lo"
    using that a(1) by linarith
  show "sinv (lo + k) s1 (drop (unat k) bl)"
  proof (cases "unat k = unat o' + unat l - unat lo")
    case True
    then show ?thesis using a(3,4) full u s1 by (auto intro!: asc_sinv)
  next
    case False
    then have "s1 = (o', l) # s" using s1 by simp
    moreover have "max (unat (lo + k)) (unat o') = unat lo + unat k" using u assms(2) by simp
    moreover have "unat lo + unat k \<le> unat o' + unat l"
      "unat o' + unat l - (unat lo + unat k) + ext_total s \<le> length bl - unat k"
      using a(1,4) assms(3) by linarith+
    ultimately show ?thesis
      using a(2,3) u by (simp add: sinv_def)
  qed
  show "sview (lo + k) s1 (drop (unat k) bl) y = sview lo ((o', l) # s) bl y"
    if y: "unat lo + unat k \<le> y"
  proof (cases "unat k = unat o' + unat l - unat lo")
    case True
    then have r: "rest_from (lo + k) s = nat_pairs s"
      using a(3) full u by (intro asc_rest) simp
    have "\<not> y < unat o' + unat l" using y full [OF True] by simp
    then show ?thesis
      using True s1 a(1) assms(2) r by (simp add: sview_def rest_from_def max_def)
  next
    case False
    then have "s1 = (o', l) # s" using s1 by simp
    moreover have "max (unat (lo + k)) (unat o') = unat lo + unat k" "max (unat lo) (unat o') = unat lo"
      using u assms(2) by simp_all
    ultimately show ?thesis
      using y assms(3) a(1) by (simp add: sview_def rest_from_def byte_at_drop)
  qed
  show "sview lo ((o', l) # s) bl x = byte_at (take (unat k) bl) (x - unat lo)"
    if "unat lo \<le> x" "x < unat lo + unat k"
  proof -
    have "x < unat o' + unat l" using that(2) assms(3) a(1) by linarith
    then show ?thesis
      using that assms(2) by (simp add: sview_def rest_from_def max_def byte_at_take)
  qed
qed

text \<open>What a run over one buffer extent achieves, and how two runs compose.\<close>

definition sparse_post ::
    "(u64 \<times> u64) list \<Rightarrow> bytes \<Rightarrow> u64 \<Rightarrow> u64 \<Rightarrow> u64 \<Rightarrow> partial_t \<Rightarrow>
     ((u64 \<times> u64) list \<times> bytes \<times> u64 \<times> partial_t) option \<Rightarrow> bool" where
  "sparse_post s bl lo tofs tlen m res \<longleftrightarrow>
     (\<exists>s' bl' lo' m'. res = Some (s', bl', lo', m') \<and> pok m' \<and> sinv lo' s' bl'
        \<and> (\<forall>x. pview m' x = (if unat tofs \<le> x \<and> x < unat tofs + unat tlen
                             then Some (sview lo s bl (unat lo + (x - unat tofs))) else pview m x))
        \<and> unat lo' \<le> unat lo + unat tlen \<and> (s' = [] \<or> unat lo' = unat lo + unat tlen)
        \<and> (\<forall>y. unat lo + unat tlen \<le> y \<longrightarrow> sview lo' s' bl' y = sview lo s bl y))"

lemma sparse_post_step:
  assumes "sparse_post s1 bl1 (lo + k) (tofs + k) (tlen - k) m1 res"
    and k: "k \<le> tlen" "unat lo + unat tlen < 2 ^ 64" "unat tofs + unat tlen < 2 ^ 64"
    and sv: "\<And>y. unat lo + unat k \<le> y \<Longrightarrow> sview (lo + k) s1 bl1 y = sview lo s bl y"
    and m1: "\<And>x. pview m1 x = (if unat tofs \<le> x \<and> x < unat tofs + unat k
               then Some (sview lo s bl (unat lo + (x - unat tofs))) else pview m x)"
  shows "sparse_post s bl lo tofs tlen m res"
proof -
  have kt: "unat k \<le> unat tlen" using k(1) by (simp add: word_le_nat_alt)
  have u: "unat (lo + k) = unat lo + unat k" "unat (tofs + k) = unat tofs + unat k"
    "unat (tlen - k) = unat tlen - unat k"
    using k kt by (subst unat_add_lem [THEN iffD1]; simp)+ (rule unat_sub_le [OF kt])
  obtain s' bl' lo' m' where r: "res = Some (s', bl', lo', m')" "pok m'" "sinv lo' s' bl'"
    and v: "\<And>x. pview m' x = (if unat tofs + unat k \<le> x \<and> x < unat tofs + unat k + (unat tlen - unat k)
              then Some (sview (lo + k) s1 bl1 (unat lo + unat k + (x - (unat tofs + unat k)))) else pview m1 x)"
    and e: "unat lo' \<le> unat lo + unat k + (unat tlen - unat k)"
      "s' = [] \<or> unat lo' = unat lo + unat k + (unat tlen - unat k)"
    and y: "\<And>y. unat lo + unat k + (unat tlen - unat k) \<le> y \<Longrightarrow> sview lo' s' bl' y = sview (lo + k) s1 bl1 y"
    using assms(1) unfolding sparse_post_def u by blast
  have "pview m' x = (if unat tofs \<le> x \<and> x < unat tofs + unat tlen
          then Some (sview lo s bl (unat lo + (x - unat tofs))) else pview m x)" for x
  proof (cases "unat tofs + unat k \<le> x \<and> x < unat tofs + unat tlen")
    case True
    then have "unat lo + unat k + (x - (unat tofs + unat k)) = unat lo + (x - unat tofs)" by linarith
    then show ?thesis using True kt sv [of "unat lo + (x - unat tofs)"] by (simp only: v) simp
  next
    case False
    then have "pview m' x = pview m1 x" using kt by (auto simp: v)
    then show ?thesis using False kt by (auto simp: m1)
  qed
  then show ?thesis
    unfolding sparse_post_def using r e y sv kt by (intro exI conjI) auto
qed


lemma sparse_post_cong:
  assumes "sparse_post s1 bl1 lo tofs tlen m res"
    "unat lo + unat tlen < 2 ^ 64" "unat tofs + unat tlen < 2 ^ 64"
    "\<And>y. unat lo \<le> y \<Longrightarrow> sview lo s1 bl1 y = sview lo s bl y"
  shows "sparse_post s bl lo tofs tlen m res"
proof (rule sparse_post_step [where k = 0])
  show "sparse_post s1 bl1 (lo + 0) (tofs + 0) (tlen - 0) m res" using assms(1) by simp
  show "pview m x = (if unat tofs \<le> x \<and> x < unat tofs + unat 0
      then Some (sview lo s bl (unat lo + (x - unat tofs))) else pview m x)" for x
    by auto
qed (use assms in simp_all)

lemma sview_nil: "sview lo [] bl y = 0" "sinv lo [] bl"
  by (simp_all add: sview_def rest_from_def sinv_def)

lemma sparse_loop_post:
  assumes "sinv bl_off s bl" "pok m" "unat bl_off + unat tlen < 2 ^ 64" "unat tofs + unat tlen < 2 ^ 64"
    "\<forall>x. unat tofs \<le> x \<and> x < unat tofs + unat tlen \<longrightarrow> pview m x = None"
  shows "sparse_post s bl bl_off tofs tlen m (sparse_loop s bl bl_off tofs tlen m)"
  using assms
proof (induction s bl bl_off tofs tlen m rule: sparse_loop.induct)
  case (1 s bl lo tofs tlen m)
  show ?case
  proof (cases "tlen = 0")
    case True
    then show ?thesis
      using "1.prems" by (simp add: sparse_loop.simps sparse_post_def)
  next
    case tl: False
    show ?thesis
    proof (cases s)
      case Nil
      have "length ([] :: bytes) \<le> unat tlen" by simp
      note pf = put_free [OF "1.prems"(2) tl this "1.prems"(4,5)]
      show ?thesis
        using Nil tl pf by (subst sparse_loop.simps) (simp add: sparse_post_def sview_nil)
    next
      case (Cons a s')
      obtain sf sl where a: "a = (sf, sl)" by (cases a)
      have inv: "sinv lo ((sf, sl) # s') bl" using "1.prems"(1) Cons a by simp
      show ?thesis
      proof (cases "sl = 0")
        case True
        have "sparse_post s' bl lo tofs tlen m (sparse_loop s' bl lo tofs tlen m)"
          by (rule "1.IH"(1) [OF tl Cons a [symmetric] True _ "1.prems"(2-5)])
            (use sview_skip(1) [of lo sf s' bl] inv True in simp)
        then have "sparse_post s bl lo tofs tlen m (sparse_loop s' bl lo tofs tlen m)"
          by (rule sparse_post_cong [OF _ "1.prems"(3,4)])
            (use sview_skip(2) [of lo sf s' bl] inv Cons a True in simp)
        moreover have "sparse_loop s bl lo tofs tlen m = sparse_loop s' bl lo tofs tlen m"
          by (simp only: Cons a True sparse_loop_skip [OF tl])
        ultimately show ?thesis by (simp only:)
      next
        case sl: False
        define gap where "gap = (if lo < sf then min (sf - lo) tlen else 0)"
        define m1 where "m1 = (if lo < sf then set_second tofs gap m else m)"
        define left where "left = sf + sl - (lo + gap)"
        define actual where "actual = min left (tlen - gap)"
        define s1 where "s1 = (if actual = left then s' else s)"
        have gap_le: "gap \<le> tlen" by (simp add: gap_def)
        have gap_sf: "unat gap = (if lo < sf then min (unat sf - unat lo) (unat tlen) else 0)"
          by (simp add: gap_def unat_min_u64 unat_sub_le word_less_nat_alt)
        have gl: "unat gap \<le> unat tlen" using gap_le by (simp add: word_le_nat_alt)
        have u1: "unat (lo + gap) = unat lo + unat gap" "unat (tofs + gap) = unat tofs + unat gap"
          "unat (tlen - gap) = unat tlen - unat gap"
          using "1.prems"(3,4) gl
          by (subst unat_add_lem [THEN iffD1]; simp)+ (rule unat_sub_le [OF gl])
        \<comment> \<open>the gap\<close>
        have inv1: "sinv (lo + gap) ((sf, sl) # s') bl"
          and sv1: "\<And>y. sview (lo + gap) ((sf, sl) # s') bl y = sview lo ((sf, sl) # s') bl y"
        proof -
          have "sinv (lo + gap) ((sf, sl) # s') bl \<and>
              (\<forall>y. sview (lo + gap) ((sf, sl) # s') bl y = sview lo ((sf, sl) # s') bl y)"
          proof (cases "lo < sf")
            case True
            then have "unat lo + unat gap \<le> unat sf" by (simp add: gap_sf word_less_nat_alt)
            then show ?thesis using sview_gap [OF inv] by blast
          qed (use inv in \<open>simp add: gap_def\<close>)
          then show "sinv (lo + gap) ((sf, sl) # s') bl"
            "\<And>y. sview (lo + gap) ((sf, sl) # s') bl y = sview lo ((sf, sl) # s') bl y" by blast+
        qed
        have m1: "pok m1 \<and> (\<forall>x. pview m1 x = (if unat tofs \<le> x \<and> x < unat tofs + unat gap
               then Some (sview lo s bl (unat lo + (x - unat tofs))) else pview m x))"
        proof (cases "lo < sf")
          case True
          then have g0: "gap \<noteq> 0" using tl by (simp add: unat_pos_u64 gap_sf word_less_nat_alt)
          have "\<forall>x. unat tofs \<le> x \<and> x < unat tofs + unat gap \<longrightarrow> pview m x = None"
            using "1.prems"(5) gl by auto
          moreover have "unat tofs + unat gap < 2 ^ 64" using "1.prems"(4) gl by linarith
          moreover have "length ([] :: bytes) \<le> unat gap" by simp
          ultimately have pf: "pok (append_piece tofs [] gap m)"
            "\<And>x. pview (append_piece tofs [] gap m) x =
               (if unat tofs \<le> x \<and> x < unat tofs + unat gap then Some (byte_at [] (x - unat tofs)) else pview m x)"
            "set_second tofs gap m = append_piece tofs [] gap m"
            using put_free [OF "1.prems"(2) g0] by blast+
          have "sview lo s bl (unat lo + (x - unat tofs)) = 0"
            if "unat tofs \<le> x" "x < unat tofs + unat gap" for x
          proof -
            have "unat lo + unat 0 \<le> unat sf" "unat lo + (x - unat tofs) < unat sf"
              using True that by (auto simp: gap_sf word_less_nat_alt)
            then show ?thesis using sview_gap(3) [OF inv, of 0] Cons a by simp
          qed
          then show ?thesis using pf True by (simp add: m1_def)
        qed (use "1.prems"(2) in \<open>auto simp: m1_def gap_def\<close>)
        show ?thesis
        proof (cases "tlen - gap = 0")
          case True
          then have "unat gap = unat tlen" using u1(3) gl by simp
          then have eq: "gap = tlen" by (rule u64_eqI)
          have "sparse_loop s bl lo tofs tlen m = Some (s, bl, lo + gap, m1)"
            using True by (simp only: Cons a sparse_loop_ext [OF tl sl] Let_def gap_def [symmetric]
                m1_def [symmetric] if_True refl)
          moreover have "sparse_post s bl (lo + gap) (tofs + gap) (tlen - gap) m1 (Some (s, bl, lo + gap, m1))"
            using m1 inv1 Cons a True by (auto simp: sparse_post_def)
          ultimately show ?thesis
            using sparse_post_step [OF _ gap_le "1.prems"(3,4), of s bl m1 _ s bl m] m1 sv1 Cons a by simp
        next
          case more: False
          then have "0 < unat (tlen - gap)" unfolding unat_pos_u64 .
          then have gt: "unat gap < unat tlen" unfolding u1(3) by simp
          have sfle: "unat sf \<le> unat (lo + gap)"
            using gt by (auto simp: gap_sf u1(1) word_less_nat_alt split: if_splits)
          have end_le: "unat (lo + gap) \<le> unat sf + unat sl" "unat sf + unat sl < 2 ^ 64"
            using inv1 by (simp_all add: sinv_def)
          then have "unat (sf + sl) = unat sf + unat sl" by (subst unat_add_lem [THEN iffD1]) simp_all
          then have ul: "unat left = unat sf + unat sl - unat (lo + gap)"
            using end_le(1) unfolding left_def by (subst unat_sub_le) simp_all
          have ua: "unat actual = min (unat left) (unat tlen - unat gap)"
            by (simp add: actual_def unat_min_u64 u1(3))
          have ale: "unat actual \<le> unat sf + unat sl - unat (lo + gap)" using ua ul by simp
          have s1: "s1 = (if unat actual = unat sf + unat sl - unat (lo + gap) then s' else (sf, sl) # s')"
            using Cons a ul by (auto simp: s1_def word_unat_eq_iff)
          note cp = sview_copy [OF inv1 sfle ale s1]
          have nsf: "\<not> lo + gap < sf" using sfle by (simp add: word_less_nat_alt)
          have free1: "\<forall>x. unat (tofs + gap) \<le> x \<and> x < unat (tofs + gap) + unat (tlen - gap) \<longrightarrow> pview m1 x = None"
            using m1 "1.prems"(5) u1 gl by auto
          have b1: "unat (lo + gap) + unat (tlen - gap) < 2 ^ 64" "unat (tofs + gap) + unat (tlen - gap) < 2 ^ 64"
            using "1.prems"(3,4) u1 gl by simp_all
          have post1: "sparse_post s bl (lo + gap) (tofs + gap) (tlen - gap) m1 res \<Longrightarrow>
              sparse_post s bl lo tofs tlen m res" for res
            using sparse_post_step [OF _ gap_le "1.prems"(3,4), of s bl m1 res s bl m] m1 sv1 Cons a by simp
          show ?thesis
          proof (cases "actual = 0")
            case True
            have run: "sparse_loop s bl lo tofs tlen m = sparse_loop s' bl (lo + gap) (tofs + gap) (tlen - gap) m1"
              using more nsf True by (simp only: Cons a sparse_loop_ext [OF tl sl] Let_def gap_def [symmetric]
                m1_def [symmetric] left_def [symmetric] actual_def [symmetric] if_True if_False refl)
            have "unat actual = unat sf + unat sl - unat (lo + gap)"
              using True ua ul gt by (simp add: min_def split: if_splits)
            then have c: "sinv (lo + gap) s' bl"
              "\<And>y. unat (lo + gap) \<le> y \<Longrightarrow> sview (lo + gap) s' bl y = sview (lo + gap) ((sf, sl) # s') bl y"
              using cp(1,2) True s1 by simp_all
            have "sparse_post s' bl (lo + gap) (tofs + gap) (tlen - gap) m1
                (sparse_loop s' bl (lo + gap) (tofs + gap) (tlen - gap) m1)"
              by (rule "1.IH"(2) [OF tl Cons a [symmetric] sl gap_def m1_def refl refl refl more nsf left_def
                    actual_def True c(1) conjunct1 [OF m1] b1 free1])
            then have "sparse_post s bl (lo + gap) (tofs + gap) (tlen - gap) m1
                (sparse_loop s' bl (lo + gap) (tofs + gap) (tlen - gap) m1)"
              by (rule sparse_post_cong [OF _ b1]) (use c(2) Cons a in simp)
            then show ?thesis unfolding run by (rule post1)
          next
            case act: False
            have len: "unat actual \<le> length bl" by (rule cp(4))
            have pos: "0 < unat actual" using act unfolding unat_pos_u64 .
            then have sp: "splice_front (unat actual) bl = Some (take (unat actual) bl, drop (unat actual) bl)"
              using len by (auto simp: splice_front_def)
            define m2 where "m2 = append_piece (tofs + gap) (take (unat actual) bl) actual m1"
            have run: "sparse_loop s bl lo tofs tlen m =
                sparse_loop s1 (drop (unat actual) bl) (lo + gap + actual) (tofs + gap + actual)
                  (tlen - gap - actual) m2"
              using more nsf act sp
              by (simp only: Cons a sparse_loop_ext [OF tl sl] Let_def gap_def [symmetric]
                m1_def [symmetric] left_def [symmetric] actual_def [symmetric] if_False refl
                option.case prod.case m2_def s1_def)
            have al: "actual \<le> tlen - gap" "unat actual \<le> unat (tlen - gap)"
              by (simp add: actual_def) (simp add: ua u1(3))
            have u2: "unat (lo + gap + actual) = unat (lo + gap) + unat actual"
              "unat (tofs + gap + actual) = unat (tofs + gap) + unat actual"
              "unat (tlen - gap - actual) = unat (tlen - gap) - unat actual"
              using b1 al(2) by (auto intro!: unat_add_lt unat_sub_le)
            have "\<forall>x. unat (tofs + gap) \<le> x \<and> x < unat (tofs + gap) + unat actual \<longrightarrow> pview m1 x = None"
              using free1 al(2) by auto
            moreover have "unat (tofs + gap) + unat actual < 2 ^ 64" using b1(2) al(2) by linarith
            moreover have "length (take (unat actual) bl) \<le> unat actual" by simp
            ultimately have m2: "pok m2"
              "\<And>x. pview m2 x = (if unat (tofs + gap) \<le> x \<and> x < unat (tofs + gap) + unat actual
                 then Some (byte_at (take (unat actual) bl) (x - unat (tofs + gap))) else pview m1 x)"
              using put_free [of m1 actual] m1 act unfolding m2_def by blast+
            have rec: "sparse_post s1 (drop (unat actual) bl) (lo + gap + actual) (tofs + gap + actual)
                (tlen - gap - actual) m2
                (sparse_loop s1 (drop (unat actual) bl) (lo + gap + actual) (tofs + gap + actual)
                  (tlen - gap - actual) m2)"
            proof -
              have "\<forall>x. unat (tofs + gap + actual) \<le> x \<and>
                  x < unat (tofs + gap + actual) + unat (tlen - gap - actual) \<longrightarrow> pview m2 x = None"
                using m2(2) free1 u2 al(2) by auto
              moreover have "unat (lo + gap + actual) + unat (tlen - gap - actual) < 2 ^ 64"
                "unat (tofs + gap + actual) + unat (tlen - gap - actual) < 2 ^ 64"
                using u2 b1 al(2) by simp_all
              moreover have "sinv (lo + gap + actual) s1 (drop (unat actual) bl)" by (rule cp(1))
              ultimately show ?thesis
                using "1.IH"(3) [OF tl Cons a [symmetric] sl gap_def m1_def refl refl refl more nsf left_def
                    actual_def act sp refl] m2(1)
                unfolding s1_def m2_def by (simp only:)
            qed
            have "sparse_post s bl (lo + gap) (tofs + gap) (tlen - gap) m1
                (sparse_loop s1 (drop (unat actual) bl) (lo + gap + actual) (tofs + gap + actual)
                  (tlen - gap - actual) m2)"
            proof (rule sparse_post_step [OF rec al(1) b1])
              show "sview (lo + gap + actual) s1 (drop (unat actual) bl) y = sview (lo + gap) s bl y"
                if "unat (lo + gap) + unat actual \<le> y" for y
                using cp(2) [OF that] Cons a by simp
              show "pview m2 x = (if unat (tofs + gap) \<le> x \<and> x < unat (tofs + gap) + unat actual
                then Some (sview (lo + gap) s bl (unat (lo + gap) + (x - unat (tofs + gap)))) else pview m1 x)" for x
                using cp(3) [of "unat (lo + gap) + (x - unat (tofs + gap))"] Cons a by (auto simp: m2(2))
            qed
            then show ?thesis unfolding run by (rule post1)
          qed
        qed
      qed
    qed
  qed
qed


subsection \<open>All buffer extents of an object\<close>

text \<open>The position of a buffer byte in the concatenation of the buffer extents.\<close>

fun be_pos :: "(u64 \<times> u64) list \<Rightarrow> nat \<Rightarrow> nat option" where
  "be_pos [] x = None"
| "be_pos ((t, n) # be) x =
     (if unat t \<le> x \<and> x < unat t + unat n then Some (x - unat t)
      else map_option (\<lambda>k. unat n + k) (be_pos be x))"

fun be_ok :: "(u64 \<times> u64) list \<Rightarrow> bool" where
  "be_ok [] \<longleftrightarrow> True"
| "be_ok ((t, n) # be) \<longleftrightarrow>
     unat t + unat n < 2 ^ 64 \<and> (\<forall>x. unat t \<le> x \<and> x < unat t + unat n \<longrightarrow> be_pos be x = None) \<and> be_ok be"

lemma sparse_extents_view:
  assumes "sinv lo s bl" "pok m" "unat lo + ext_total be < 2 ^ 64" "be_ok be"
    "\<forall>x. be_pos be x \<noteq> None \<longrightarrow> pview m x = None"
  shows "\<exists>bl' m'. sparse_extents s bl lo be m = Some (bl', m') \<and> pok m' \<and>
    (\<forall>x. pview m' x = (case be_pos be x of Some k \<Rightarrow> Some (sview lo s bl (unat lo + k)) | None \<Rightarrow> pview m x))"
  using assms
proof (induction be arbitrary: s bl lo m)
  case Nil
  then show ?case by simp
next
  case (Cons p be)
  obtain t n where p: "p = (t, n)" by (cases p)
  have tot: "ext_total (p # be) = unat n + ext_total be" by (simp add: ext_total_def p)
  have b: "unat lo + unat n < 2 ^ 64" "unat t + unat n < 2 ^ 64"
    using Cons.prems(3) tot Cons.prems(4) by (linarith, simp add: p)
  have disj: "be_pos be x = None" if "unat t \<le> x" "x < unat t + unat n" for x
    using Cons.prems(4) that by (simp add: p)
  have "\<forall>x. unat t \<le> x \<and> x < unat t + unat n \<longrightarrow> pview m x = None"
    using Cons.prems(5) by (simp add: p)
  from sparse_loop_post [OF Cons.prems(1,2) b this] obtain s' bl' lo' m'
    where r: "sparse_loop s bl lo t n m = Some (s', bl', lo', m')" "pok m'" "sinv lo' s' bl'"
    and v: "\<And>x. pview m' x = (if unat t \<le> x \<and> x < unat t + unat n
              then Some (sview lo s bl (unat lo + (x - unat t))) else pview m x)"
    and e: "unat lo' \<le> unat lo + unat n" "s' = [] \<or> unat lo' = unat lo + unat n"
    and y: "\<And>y. unat lo + unat n \<le> y \<Longrightarrow> sview lo' s' bl' y = sview lo s bl y"
    unfolding sparse_post_def by blast
  have sv: "sview lo' s' bl' (unat lo' + k) = sview lo s bl (unat lo + (unat n + k))" for k
  proof -
    have "sview lo' s' bl' (unat lo' + k) = sview lo' s' bl' (unat lo + (unat n + k))"
      using e(2) by (elim disjE) (simp_all only: sview_nil add.assoc)
    then show ?thesis using y [of "unat lo + (unat n + k)"] by simp
  qed
  have free: "pview m x = None" if "be_pos (p # be) x \<noteq> None" for x
    using Cons.prems(5) that by (simp only: simp_thms)
  have "\<forall>x. be_pos be x \<noteq> None \<longrightarrow> pview m' x = None"
  proof (intro allI impI)
    fix x assume x: "be_pos be x \<noteq> None"
    show "pview m' x = None"
    proof (cases "unat t \<le> x \<and> x < unat t + unat n")
      case True
      then show ?thesis using disj [of x] x by simp
    next
      case False
      have "be_pos (p # be) x = map_option (\<lambda>k. unat n + k) (be_pos be x)"
        unfolding p be_pos.simps if_not_P [OF False] ..
      then have "pview m x = None" using x by (intro free) simp
      then show ?thesis unfolding v if_not_P [OF False] .
    qed
  qed
  moreover have "unat lo' + ext_total be < 2 ^ 64" using Cons.prems(3) e(1) by (simp add: tot)
  moreover have "be_ok be" using Cons.prems(4) by (simp add: p)
  ultimately obtain bl2 m2 where r2: "sparse_extents s' bl' lo' be m' = Some (bl2, m2)" "pok m2"
    and v2: "\<And>x. pview m2 x =
      (case be_pos be x of Some k \<Rightarrow> Some (sview lo' s' bl' (unat lo' + k)) | None \<Rightarrow> pview m' x)"
    using Cons.IH [OF r(3,2)] by blast
  have "pview m2 x = (case be_pos (p # be) x of
      Some k \<Rightarrow> Some (sview lo s bl (unat lo + k)) | None \<Rightarrow> pview m x)" for x
    using disj [of x] by (auto simp: v2 v sv p split: option.splits)
  moreover have "sparse_extents s bl lo (p # be) m = Some (bl2, m2)"
    by (simp add: p r(1) r2(1))
  ultimately show ?case using r2(2) by blast
qed

subsection \<open>Assembling\<close>

text \<open>Pieces that follow one another without a gap from one position to another.\<close>

fun contig :: "nat \<Rightarrow> partial_t \<Rightarrow> nat \<Rightarrow> bool" where
  "contig lo [] hi \<longleftrightarrow> lo = hi"
| "contig lo ((t, d, n) # m) hi \<longleftrightarrow> unat t = lo \<and> contig (lo + unat n) m hi"

lemma pview_dom_start: "pok m \<Longrightarrow> (t, d, n) \<in> set m \<Longrightarrow> pview m (unat t) \<noteq> None"
  using pview_start by blast

lemma pview_mem: "pview m x \<noteq> None \<Longrightarrow> \<exists>t d n. (t, d, n) \<in> set m \<and> unat t \<le> x \<and> x < unat t + unat n"
  by (induction m x rule: pview.induct) (auto split: if_splits)

lemma contig_of_dom:
  assumes "pok m" "\<forall>x. pview m x \<noteq> None \<longleftrightarrow> lo \<le> x \<and> x < hi" "lo \<le> hi"
  shows "contig lo m hi"
  using assms
proof (induction m arbitrary: lo)
  case Nil
  then have "\<not> (lo \<le> lo \<and> lo < hi)" by (metis pview.simps(1))
  with Nil(3) show ?case by simp
next
  case (Cons p m)
  obtain t d n where p: "p = (t, d, n)" by (cases p)
  have n: "0 < unat n" using Cons.prems(1) by (simp add: p unat_pos_u64)
  have above: "unat t + unat n \<le> unat t'" if "(t', d', n') \<in> set m" for t' d' n'
    using Cons.prems(1) that by (auto simp: p)
  have inside: "lo \<le> x \<and> x < hi" if "unat t \<le> x" "x < unat t + unat n" for x
    using Cons.prems(2) that by (metis (no_types, lifting) option.distinct(1) p pview.simps(2))
  then have t1: "lo \<le> unat t" "unat t < hi" using n by auto
  have "pview (p # m) lo \<noteq> None" using Cons.prems(2) t1 by simp
  then obtain t' d' n' where m': "(t', d', n') \<in> set (p # m)" "unat t' \<le> lo" using pview_mem by blast
  have t0: "unat t = lo"
  proof (cases "(t', d', n') = p")
    case True
    then show ?thesis using m'(2) t1(1) p by simp
  next
    case False
    then have "unat t + unat n \<le> unat t'" using above m'(1) by simp
    then show ?thesis using m'(2) t1(1) n by simp
  qed
  have "unat t + unat n - 1 < hi" by (rule inside [THEN conjunct2]) (use n in linarith)+
  then have hi: "lo + unat n \<le> hi" using t0 by linarith
  have "pview m x \<noteq> None \<longleftrightarrow> lo + unat n \<le> x \<and> x < hi" for x
  proof (cases "unat t \<le> x \<and> x < unat t + unat n")
    case True
    then have "pview m x = None"
      using pview_above [of m "unat t + unat n" x] Cons.prems(1) by (simp add: p)
    then show ?thesis using True t0 by simp
  next
    case False
    then have "pview (p # m) x = pview m x" by (auto simp: p)
    moreover have "pview (p # m) x \<noteq> None \<longleftrightarrow> lo \<le> x \<and> x < hi" using Cons.prems(2) by (rule spec)
    ultimately have "pview m x \<noteq> None \<longleftrightarrow> lo \<le> x \<and> x < hi" by (simp only:)
    then show ?thesis using False t0 by (cases "pview m x") auto
  qed
  then have "contig (lo + unat n) m hi"
    using Cons.IH [of "lo + unat n"] Cons.prems(1) hi by (simp add: p)
  then show ?case by (simp add: p t0)
qed

lemma contig_append: "contig lo (m @ [(t, d, n)]) hi \<longleftrightarrow> contig lo m (unat t) \<and> hi = unat t + unat n"
  by (induction lo m hi rule: contig.induct) auto

definition padded :: "bytes \<times> u64 \<Rightarrow> bytes" where
  "padded p = (case p of (d, n) \<Rightarrow> d @ replicate (unat n - length d) 0)"

lemma assemble_loop_contig:
  assumes "pok m" "contig lo m (unat e)"
  shows "assemble_loop True (rev m) (e, bl)
    = Some (if m = [] then e else fst (hd m), concat (map (padded \<circ> snd) m) @ bl)"
  using assms
proof (induction m arbitrary: e bl rule: rev_induct)
  case Nil
  then show ?case by simp
next
  case (snoc p m)
  obtain t d n where p: "p = (t, d, n)" by (cases p)
  have c: "contig lo m (unat t)" "unat e = unat t + unat n"
    using snoc.prems(2) by (simp_all add: p contig_append)
  have pm: "pok m" "length d \<le> unat n"
  proof -
    have "pok m \<and> length d \<le> unat n" if "pok (m @ [(t, d, n)])" for m
      using that by (induction m rule: pok.induct) auto
    then show "pok m" "length d \<le> unat n" using snoc.prems(1) by (auto simp: p)
  qed
  have pos: "t = e - n"
    using c(2) by (intro u64_eqI) (simp add: unat_sub_le)
  have "assemble_step True (t, d, n) (e, bl) = Some (t, padded (d, n) @ bl)"
    using pos pm(2) by (auto simp: assemble_step_def padded_def)
  then show ?case
    using snoc.IH [OF pm(1) c(1), of "padded (d, n) @ bl"] c(1)
    by (cases m) (auto simp: p)
qed

lemma pview_concat:
  assumes "pok m" "contig lo m hi"
  shows "length (concat (map (padded \<circ> snd) m)) = hi - lo \<and> lo \<le> hi \<and>
    (\<forall>i < hi - lo. pview m (lo + i) = Some (concat (map (padded \<circ> snd) m) ! i))"
  using assms
proof (induction m arbitrary: lo)
  case Nil
  then show ?case by simp
next
  case (Cons p m)
  obtain t d n where p: "p = (t, d, n)" by (cases p)
  have c: "unat t = lo" "contig (lo + unat n) m hi" and ok: "pok m" "length d \<le> unat n"
    using Cons.prems by (simp_all add: p)
  note IH = Cons.IH [OF ok(1) c(2)]
  have len: "length (padded (d, n)) = unat n" using ok(2) by (simp add: padded_def)
  have nth: "padded (d, n) ! i = byte_at d i" if "i < unat n" for i
    using that ok(2) by (auto simp: padded_def byte_at_def nth_append)
  have "pview (p # m) (lo + i) = Some (concat (map (padded \<circ> snd) (p # m)) ! i)" if "i < hi - lo" for i
  proof (cases "i < unat n")
    case True
    then show ?thesis using c(1) len nth by (simp add: p nth_append)
  next
    case False
    then have "i - unat n < hi - (lo + unat n)" "lo + i = lo + unat n + (i - unat n)"
      using that by simp_all
    then have "pview m (lo + i) = Some (concat (map (padded \<circ> snd) m) ! (i - unat n))"
      using IH by metis
    then show ?thesis using False c(1) len by (simp add: p nth_append)
  qed
  moreover have "length (concat (map (padded \<circ> snd) (p # m))) = hi - lo"
    using IH len by (simp add: p comp_def)
  moreover have "lo \<le> hi" using IH by linarith
  ultimately show ?case by blast
qed

lemma assemble_result_content:
  assumes "pok m" "\<forall>x. (pview m x \<noteq> None) = (x < sz)" "sz < 2 ^ 64"
  shows "\<exists>bl. assemble_result True m = Some (bl, []) \<and> length bl = sz \<and>
    (\<forall>i < sz. pview m i = Some (bl ! i))"
proof -
  have c: "contig 0 m sz" using contig_of_dom [OF assms(1), of 0 sz] assms(2) by simp
  note pc = pview_concat [OF assms(1) c]
  let ?bl = "concat (map (padded \<circ> snd) m)"
  have "assemble_result True m = Some (?bl, [])"
  proof (cases m rule: rev_cases)
    case Nil
    then show ?thesis by (simp add: assemble_result_def)
  next
    case (snoc m' p)
    obtain t d n where p: "p = (t, d, n)" by (cases p)
    have "sz = unat t + unat n" using c by (simp add: snoc p contig_append)
    then have "contig 0 m (unat (t + n))" using c assms(3) by (simp add: unat_add_lt)
    from assemble_loop_contig [OF assms(1) this, of "[]"] show ?thesis
      by (simp add: assemble_result_def snoc p)
  qed
  then show ?thesis using pc by auto
qed

text \<open>Putting a striped read together: if the pieces filed for a read cover exactly the buffer
  positions below \<open>sz\<close>, \<open>assemble_result\<close> fails no assert, returns exactly \<open>sz\<close> bytes, each of
  them the byte its piece stands for, and forgets the pieces.\<close>

theorem assemble_result_exact:
  assumes "pok m" "\<forall>x. (pview m x \<noteq> None) = (x < sz)" "sz < 2 ^ 64"
  shows "\<exists>bl. assemble_result True m = Some (bl, []) \<and> length bl = sz \<and>
    (\<forall>i < sz. pview m i = Some (bl ! i))"
  by (rule assemble_result_content [OF assms])

lemma assemble_result_exact_witness:
  "\<exists>bl. assemble_result True [(0, [1, 2], 3), (3, [], 2), (5, [9], 1)] = Some (bl, []) \<and> length bl = 6"
proof -
  let ?m = "[(0, [1, 2], 3), (3, [], 2), (5, [9], 1)] :: partial_t"
  have "pok ?m" by simp
  moreover have "\<forall>x. (pview ?m x \<noteq> None) = (x < 6)" by (auto simp: byte_at_def)
  ultimately show ?thesis using assemble_result_exact [of ?m 6] by auto
qed

text \<open>A sparse read of an object fills the buffer: for an extent map in order that starts at or
  after the read offset and whose data is complete, every buffer position gets the byte of the
  object offset it stands for - from the map's data, or zero in a gap - and no other position
  changes; no splice fails.\<close>

theorem sparse_result_fills:
  assumes "asc (unat off) bl_map" "ext_total bl_map \<le> length bl" "pok m"
    "unat off + ext_total be < 2 ^ 64" "be_ok be" "\<forall>x. (be_pos be x \<noteq> None) \<longrightarrow> pview m x = None"
  shows "\<exists>bl' m'. add_partial_sparse_result bl bl_map off be m = Some (bl', m') \<and> pok m' \<and>
    (\<forall>x. pview m' x = (case be_pos be x of
        Some k \<Rightarrow> Some (ext_byte (nat_pairs bl_map) bl (unat off + k)) | None \<Rightarrow> pview m x))"
  using sparse_extents_view [OF asc_sinv [OF assms(1,2)] assms(3,4,5,6)]
  unfolding add_partial_sparse_result_def sview_def asc_rest [OF assms(1)] .

lemma sparse_result_fills_witness:
  "\<exists>bl' m'. add_partial_sparse_result [7, 8, 9] [(11, 2), (14, 1)] 10 [(0, 3), (8, 4)] [] = Some (bl', m')
     \<and> pok m' \<and> pview m' 1 = Some 7 \<and> pview m' 8 = Some 0 \<and> pview m' 9 = Some 9"
proof -
  have "\<exists>bl' m'. add_partial_sparse_result [7, 8, 9] [(11, 2), (14, 1)] 10 [(0, 3), (8, 4)] [] = Some (bl', m')
     \<and> pok m' \<and> (\<forall>x. pview m' x = (case be_pos [(0, 3), (8, 4)] x of
        Some k \<Rightarrow> Some (ext_byte (nat_pairs [(11, 2), (14, 1)]) [7, 8, 9] (unat (10 :: u64) + k))
      | None \<Rightarrow> pview [] x))"
    by (rule sparse_result_fills) (auto simp: ext_total_def)
  then show ?thesis by (auto simp: nat_pairs_def byte_at_def)
qed

end
