(* ===== verification/Striper_Tiling.thy ===== *)
theory Striper_Tiling
  imports Striper Striped_Read "HOL-Library.Multiset"
begin

text \<open>
  The pieces into which \<open>file_to_extents\<close> cuts a request, as a plain list in image order, and the
  fact that the buffer extents of all object extents together are exactly these pieces, in some
  order (\<open>fte_loop_pieces\<close>). From it: the buffer extents tile the buffer, and each buffer byte lies
  in one object extent at the object offset of its image byte (\<open>exts_tile\<close>), for every layout. The
  data path rests on these lemmas.
\<close>

subsection \<open>The pieces of a request\<close>

function fte_pieces :: "file_layout \<Rightarrow> u64 \<Rightarrow> u64 \<Rightarrow> (u64 \<times> u64) list" where
  "fte_pieces l cur left =
     (if left = 0 \<or> lo_su l = 0 then []
      else (cur, x_len l cur left) # fte_pieces l (cur + x_len l cur left) (left - x_len l cur left))"
  by pat_completeness auto
termination
proof (relation "measure (\<lambda>(l, cur, left). unat left)", goal_cases)
  case 1
  show ?case by simp
next
  case (2 l cur left)
  then show ?case
    using x_len_pos [of l left cur] by (simp add: u64_arith word_le_nat_alt unat_pos_u64)
qed

declare fte_pieces.simps [simp del]

text \<open>Moved to the buffer.\<close>

definition buf_pieces :: "u64 \<Rightarrow> u64 \<Rightarrow> (u64 \<times> u64) list \<Rightarrow> (u64 \<times> u64) list" where
  "buf_pieces offset bo ps = map (\<lambda>(cur, n). (cur - offset + bo, n)) ps"

definition bufs :: "extent_map_t \<Rightarrow> (u64 \<times> u64) list" where
  "bufs m = concat (map oe_buffer_extents (concat (map snd m)))"

definition exts_bufs :: "object_extent list \<Rightarrow> (u64 \<times> u64) list" where
  "exts_bufs es = concat (map oe_buffer_extents es)"

lemma mset_exts_bufs_piece:
  "mset (exts_bufs (add_piece f l ono xo xl ts be exv)) = add_mset be (mset (exts_bufs exv))"
  by (cases exv rule: rev_cases) (auto simp: add_piece_def exts_bufs_def new_extent_def)

lemma mset_bufs_put:
  assumes "smap_ok m"
  shows "mset (bufs (smap_put k v m)) + mset (exts_bufs (case map_of m k of None \<Rightarrow> [] | Some w \<Rightarrow> w))
    = mset (bufs m) + mset (exts_bufs v)"
  using assms
proof (induction m)
  case Nil
  then show ?case by (simp add: bufs_def exts_bufs_def)
next
  case (Cons p m)
  obtain a b where p: "p = (a, b)" by (cases p)
  have step: "mset (bufs ((x, y) # n)) = mset (exts_bufs y) + mset (bufs n)" for x y n
    by (simp add: bufs_def exts_bufs_def)
  show ?case
  proof (cases "k < a")
    case True
    with Cons.prems p have "map_of m k = None" by (auto intro!: map_of_below)
    with True p show ?thesis by (auto simp: step exts_bufs_def)
  next
    case False
    with Cons p show ?thesis by (auto simp: step)
  qed
qed

lemma fte_loop_pieces:
  assumes "smap_ok m" "fte_loop f l ts offset bo cur left m = Some m'"
  shows "mset (bufs m') = mset (bufs m) + mset (buf_pieces offset bo (fte_pieces l cur left))"
  using assms
proof (induction f l ts offset bo cur left m rule: fte_loop.induct)
  case (1 f l ts offset bo cur left m)
  show ?case
  proof (cases "left = 0")
    case True
    with "1.prems"(2) show ?thesis by (simp add: fte_loop.simps fte_pieces.simps buf_pieces_def)
  next
    case False
    with "1.prems"(2) obtain t where t: "object_truncate_size l (objectno l cur) ts = Some t"
      and nz: "lo_su l \<noteq> 0" "lo_sc l \<noteq> 0"
      by (subst (asm) fte_loop.simps) (auto split: if_splits option.splits)
    let ?x = "x_len l cur left" and ?k = "format_oid f (objectno l cur)"
    let ?old = "fst (smap_at [] ?k m)"
    let ?v = "add_piece f l (objectno l cur) (x_offset l cur) ?x t (cur - offset + bo, ?x) ?old"
    have step: "fte_loop f l ts offset bo (cur + ?x) (left - ?x) (smap_put ?k ?v m) = Some m'"
      using "1.prems"(2) False t nz by (subst (asm) fte_loop.simps) simp
    have "mset (bufs m') = mset (bufs (smap_put ?k ?v m))
        + mset (buf_pieces offset bo (fte_pieces l (cur + ?x) (left - ?x)))"
      using "1.IH" [OF False _ t _ step] nz "1.prems"(1) by simp
    moreover have "mset (bufs (smap_put ?k ?v m)) = add_mset (cur - offset + bo, ?x) (mset (bufs m))"
    proof -
      have "?old = (case map_of m ?k of None \<Rightarrow> [] | Some w \<Rightarrow> w)"
        by (auto simp: fst_smap_at split: option.splits)
      then show ?thesis
        using mset_bufs_put [OF "1.prems"(1), of ?k ?v] by (simp add: mset_exts_bufs_piece)
    qed
    ultimately show ?thesis
      using False nz by (subst fte_pieces.simps) (simp add: buf_pieces_def)
  qed
qed

subsection \<open>The pieces tile the request\<close>

text \<open>How often a position is covered.\<close>

definition hit :: "nat \<Rightarrow> u64 \<times> u64 \<Rightarrow> bool" where
  "hit x p \<longleftrightarrow> unat (fst p) \<le> x \<and> x < unat (fst p) + unat (snd p)"

definition hits :: "(u64 \<times> u64) list \<Rightarrow> nat \<Rightarrow> nat" where
  "hits ps x = length (filter (hit x) ps)"

lemma hits_simps [simp]:
  "hits [] x = 0" "hits (p # ps) x = (if hit x p then 1 else 0) + hits ps x"
  "hits (ps @ qs) x = hits ps x + hits qs x"
  by (simp_all add: hits_def)

lemma hits_mset: "mset ps = mset qs \<Longrightarrow> hits ps x = hits qs x"
  by (metis hits_def mset_filter size_mset)

lemma hits_zero: "hits ps x = 0 \<longleftrightarrow> (\<forall>p \<in> set ps. \<not> hit x p)"
  by (simp add: hits_def filter_empty_conv)

lemma be_pos_hits: "be_pos be x \<noteq> None \<longleftrightarrow> hits be x \<noteq> 0"
  by (induction be x rule: be_pos.induct) (auto simp: hit_def)

lemma be_ok_hits:
  assumes "\<And>x. hits be x \<le> 1" "\<And>p. p \<in> set be \<Longrightarrow> unat (fst p) + unat (snd p) < 2 ^ 64"
  shows "be_ok be"
  using assms
proof (induction be)
  case Nil
  then show ?case by simp
next
  case (Cons p be)
  obtain t n where p: "p = (t, n)" by (cases p)
  have "be_pos be x = None" if "unat t \<le> x" "x < unat t + unat n" for x
  proof -
    have "hit x p" using that by (simp add: p hit_def)
    then have "hits be x = 0" using Cons.prems(1) [of x] by simp
    then show ?thesis using be_pos_hits [of be x] by simp
  qed
  moreover have "be_ok be"
  proof (rule Cons.IH)
    show "hits be x \<le> 1" for x using Cons.prems(1) [of x] by simp
  qed (use Cons.prems(2) in simp)
  moreover have "unat t + unat n < 2 ^ 64" using Cons.prems(2) [of p] by (simp add: p)
  ultimately show ?case by (simp add: p)
qed

text \<open>A piece lies within one stripe unit.\<close>

definition piece_ok :: "file_layout \<Rightarrow> u64 \<Rightarrow> u64 \<Rightarrow> u64 \<times> u64 \<Rightarrow> bool" where
  "piece_ok l lo hi p \<longleftrightarrow> snd p \<noteq> 0 \<and> unat lo \<le> unat (fst p) \<and> unat (fst p) + unat (snd p) \<le> unat hi
     \<and> unat (block_off l (fst p)) + unat (snd p) \<le> unat (lo_su l)"

lemma x_len_block: "lo_su l \<noteq> 0 \<Longrightarrow> unat (block_off l cur) + unat (x_len l cur left) \<le> unat (lo_su l)"
proof -
  assume su: "lo_su l \<noteq> 0"
  then have "unat (block_off l cur) < unat (lo_su l)"
    by (simp add: block_off_def unat_mod_u64 unat_pos_u64)
  then have "unat (lo_su l - block_off l cur) = unat (lo_su l) - unat (block_off l cur)"
    by (simp add: unat_sub_le)
  then show ?thesis
    using \<open>unat (block_off l cur) < unat (lo_su l)\<close>
    by (auto simp: x_len_def Let_def word_less_nat_alt)
qed

lemma fte_pieces_tile:
  assumes "lo_su l \<noteq> 0" "unat cur + unat left < 2 ^ 64"
  shows "(\<forall>p \<in> set (fte_pieces l cur left). piece_ok l cur (cur + left) p)
    \<and> (\<forall>x. hits (fte_pieces l cur left) x = (if unat cur \<le> x \<and> x < unat cur + unat left then 1 else 0))"
  using assms
proof (induction l cur left rule: fte_pieces.induct)
  case (1 l cur left)
  show ?case
  proof (cases "left = 0")
    case True
    then show ?thesis by (simp add: fte_pieces.simps)
  next
    case False
    let ?x = "x_len l cur left"
    have x: "0 < unat ?x" "unat ?x \<le> unat left"
      using x_len_pos [OF "1.prems"(1) False, of cur] by (simp_all add: word_le_nat_alt)
    have u: "unat (cur + ?x) = unat cur + unat ?x" "unat (left - ?x) = unat left - unat ?x"
      "unat (cur + left) = unat cur + unat left"
      using x "1.prems"(2) by (auto intro!: unat_add_lt unat_sub_le)
    have sum: "cur + ?x + (left - ?x) = cur + left" by simp
    have nf: "\<not> (left = 0 \<or> lo_su l = 0)" using False "1.prems"(1) by simp
    have "unat (cur + ?x) + unat (left - ?x) < 2 ^ 64" using u x "1.prems"(2) by simp
    note IH = "1.IH" [OF nf "1.prems"(1) this]
    have eq: "fte_pieces l cur left = (cur, ?x) # fte_pieces l (cur + ?x) (left - ?x)"
      using nf by (subst fte_pieces.simps) simp
    have ok: "piece_ok l cur (cur + left) (cur, ?x)"
      using x u x_len_block [OF "1.prems"(1)] by (simp add: piece_ok_def unat_pos_u64)
    have "piece_ok l cur (cur + left) p" if "p \<in> set (fte_pieces l (cur + ?x) (left - ?x))" for p
    proof -
      have "piece_ok l (cur + ?x) (cur + ?x + (left - ?x)) p" using IH that by blast
      then show ?thesis unfolding sum by (simp add: piece_ok_def u)
    qed
    moreover have "hits (fte_pieces l cur left) x = (if unat cur \<le> x \<and> x < unat cur + unat left then 1 else 0)"
      for x
    proof -
      have "hits (fte_pieces l (cur + ?x) (left - ?x)) x
          = (if unat (cur + ?x) \<le> x \<and> x < unat (cur + ?x) + unat (left - ?x) then 1 else 0)"
        using IH by blast
      then show ?thesis unfolding eq using x(2) by (auto simp: hit_def u)
    qed
    ultimately show ?thesis using ok unfolding eq by simp
  qed
qed

text \<open>In the buffer, for a request that starts at buffer offset 0.\<close>

lemma buf_pieces_tile:
  assumes "lo_su l \<noteq> 0" "unat off + unat len < 2 ^ 64"
  defines "bs \<equiv> buf_pieces off 0 (fte_pieces l off len)"
  shows "hits bs x = (if x < unat len then 1 else 0)"
    and "p \<in> set bs \<Longrightarrow> snd p \<noteq> 0 \<and> unat (fst p) + unat (snd p) \<le> unat len
      \<and> unat (block_off l (off + fst p)) + unat (snd p) \<le> unat (lo_su l)"
proof -
  note t = fte_pieces_tile [OF assms(1,2)]
  have hi: "unat (off + len) = unat off + unat len" by (rule unat_add_lt [OF assms(2)])
  have shift: "unat (fst p - off) = unat (fst p) - unat off" if "p \<in> set (fte_pieces l off len)" for p
    using t that by (auto simp: piece_ok_def intro!: unat_sub_le)
  have hs: "hits (map (\<lambda>(cur, n). (cur - off + 0, n)) ps) x = hits ps (unat off + x)"
    if "\<forall>p \<in> set ps. piece_ok l off (off + len) p \<and> unat (fst p - off) = unat (fst p) - unat off" for ps
    using that by (induction ps) (auto simp: hit_def piece_ok_def)
  have "hits bs x = hits (fte_pieces l off len) (unat off + x)"
    unfolding bs_def buf_pieces_def using t shift by (intro hs) blast
  then show "hits bs x = (if x < unat len then 1 else 0)" using t by simp
  assume "p \<in> set bs"
  then obtain q where q: "q \<in> set (fte_pieces l off len)" "p = (fst q - off, snd q)"
    by (auto simp: bs_def buf_pieces_def)
  then have "piece_ok l off (off + len) q" using t by blast
  then show "snd p \<noteq> 0 \<and> unat (fst p) + unat (snd p) \<le> unat len
      \<and> unat (block_off l (off + fst p)) + unat (snd p) \<le> unat (lo_su l)"
    using shift [OF q(1)] hi by (auto simp: q(2) piece_ok_def)
qed

subsection \<open>Bytes of an object extent\<close>

text \<open>Within a stripe unit, consecutive image bytes are consecutive bytes of one object.\<close>

lemma same_block:
  assumes "layout_ok l" "unat (block_off l cur) + k < unat (lo_su l)" "unat cur + k < 2 ^ 64"
  shows "objectno l (cur + of_nat k) = objectno l cur"
    "unat (x_offset l (cur + of_nat k)) = unat (x_offset l cur) + k"
proof -
  note pos = layout_ok_nat [OF assms(1)]
  have uk: "unat (of_nat k :: u64) = k" using assms(3) by (simp add: unat_of_nat take_bit_nat_eq_self)
  have u: "unat (cur + of_nat k) = unat cur + k"
  proof -
    have "unat cur + unat (of_nat k :: u64) < 2 ^ 64" unfolding uk by (rule assms(3))
    then have "unat (cur + of_nat k) = unat cur + unat (of_nat k :: u64)" by (rule unat_add_lt)
    then show ?thesis unfolding uk .
  qed
  have b: "unat cur mod unat (lo_su l) + k < unat (lo_su l)"
    using assms(2) by (simp add: block_off_def unat_mod_u64)
  have d: "(unat cur + k) div unat (lo_su l) = unat cur div unat (lo_su l)"
    "(unat cur + k) mod unat (lo_su l) = unat cur mod unat (lo_su l) + k"
  proof -
    have e: "unat cur + k = (unat cur mod unat (lo_su l) + k) + unat cur div unat (lo_su l) * unat (lo_su l)"
      by simp
    show "(unat cur + k) div unat (lo_su l) = unat cur div unat (lo_su l)"
      by (subst e, subst div_mult_self1) (use b pos in simp_all)
    show "(unat cur + k) mod unat (lo_su l) = unat cur mod unat (lo_su l) + k"
      by (subst e, subst mod_mult_self1) (use b in simp)
  qed
  have blk: "blockno l (cur + of_nat k) = blockno l cur"
    by (rule u64_eqI) (simp add: unat_blockno u d)
  show "objectno l (cur + of_nat k) = objectno l cur"
    by (rule u64_eqI) (simp add: unat_objectno blk)
  show "unat (x_offset l (cur + of_nat k)) = unat (x_offset l cur) + k"
    by (simp add: unat_x_offset blk u d)
qed

text \<open>Different image bytes are different object bytes.\<close>

lemma extent_to_file_one:
  assumes "layout_ok l"
  shows "extent_to_file l (objectno l x) (x_offset l x) 1 = Some [(x, 1)]"
proof (rule extent_to_file_back [OF assms])
  have "unat x mod unat (lo_su l) < unat (lo_su l)"
    by (rule mod_less_divisor [OF layout_ok_nat(1) [OF assms]])
  then show "unat x mod unat (lo_su l) + unat (1 :: u64) \<le> unat (lo_su l)"
    unfolding unsigned_1 by linarith
qed (rule one_neq_zero)

lemma image_byte_inj:
  assumes "layout_ok l" "objectno l a = objectno l b" "x_offset l a = x_offset l b"
  shows "a = b"
proof -
  have "Some [(a, 1 :: u64)] = Some [(b, 1)]"
    using extent_to_file_one [OF assms(1), of a] extent_to_file_one [OF assms(1), of b]
    unfolding assms(2,3) by (rule trans [OF sym])
  then show ?thesis by blast
qed

text \<open>Every extent has a buffer extent.\<close>

definition filled :: "extent_map_t \<Rightarrow> bool" where
  "filled m \<longleftrightarrow> (\<forall>p \<in> set m. \<forall>e \<in> set (snd p). oe_buffer_extents e \<noteq> [])"

lemma filled_add_piece:
  assumes "\<forall>e \<in> set exv. oe_buffer_extents e \<noteq> []" "e \<in> set (add_piece f l ono xo xl ts be exv)"
  shows "oe_buffer_extents e \<noteq> []"
  using assms by (cases exv rule: rev_cases) (auto simp: add_piece_def split: if_splits)

lemma fte_loop_filled:
  assumes "filled m" "smap_ok m" "fte_loop f l ts offset bo cur left m = Some m'"
  shows "filled m'"
  using assms
proof (induction f l ts offset bo cur left m rule: fte_loop.induct)
  case (1 f l ts offset bo cur left m)
  show ?case
  proof (cases "left = 0")
    case True
    with "1.prems" show ?thesis by (simp add: fte_loop.simps)
  next
    case False
    with "1.prems"(3) obtain t where t: "object_truncate_size l (objectno l cur) ts = Some t"
      and nz: "lo_su l \<noteq> 0" "lo_sc l \<noteq> 0"
      by (subst (asm) fte_loop.simps) (auto split: if_splits option.splits)
    let ?x = "x_len l cur left" and ?k = "format_oid f (objectno l cur)"
    let ?old = "fst (smap_at [] ?k m)"
    let ?v = "add_piece f l (objectno l cur) (x_offset l cur) ?x t (cur - offset + bo, ?x) ?old"
    have step: "fte_loop f l ts offset bo (cur + ?x) (left - ?x) (smap_put ?k ?v m) = Some m'"
      using "1.prems"(3) False t nz by (subst (asm) fte_loop.simps) simp
    have "oe_buffer_extents e \<noteq> []" if "e \<in> set ?old" for e
      using that "1.prems"(1) map_of_SomeD [of m ?k]
      by (cases "map_of m ?k") (auto simp: fst_smap_at filled_def)
    then have v: "\<forall>e \<in> set ?v. oe_buffer_extents e \<noteq> []" using filled_add_piece by blast
    have "filled (smap_put ?k ?v m)"
      unfolding filled_def
    proof
      fix p assume "p \<in> set (smap_put ?k ?v m)"
      from set_smap_put_old [OF this] show "\<forall>e \<in> set (snd p). oe_buffer_extents e \<noteq> []"
        using v "1.prems"(1) unfolding filled_def by auto
    qed
    then show ?thesis
      using "1.IH" [OF False _ t _ _ step] nz "1.prems"(2) by simp
  qed
qed

subsection \<open>The extents of a request\<close>

text \<open>
  What the data path needs of the object extents of a request from \<open>off\<close>: the object's name, the
  geometry, and for each buffer position the object byte that the image byte stands for.
\<close>

definition extent_ok :: "object_format \<Rightarrow> file_layout \<Rightarrow> u64 \<Rightarrow> nat \<Rightarrow> object_extent \<Rightarrow> bool" where
  "extent_ok f l off len e \<longleftrightarrow>
     oe_oid e = format_oid f (oe_objectno e) \<and> oe_buffer_extents e \<noteq> [] \<and> be_ok (oe_buffer_extents e)
     \<and> ext_total (oe_buffer_extents e) = unat (oe_length e) \<and> oe_length e \<noteq> 0
     \<and> unat (oe_offset e) + unat (oe_length e) \<le> unat (lo_os l)
     \<and> (\<forall>x k. be_pos (oe_buffer_extents e) x = Some k \<longrightarrow>
          x < len \<and> k < unat (oe_length e) \<and> objectno l (off + of_nat x) = oe_objectno e
          \<and> unat (x_offset l (off + of_nat x)) = unat (oe_offset e) + k)
     \<and> (\<exists>cur. objectno l cur = oe_objectno e \<and> x_offset l cur = oe_offset e)"

lemma x_offset_within:
  assumes "layout_ok l" "unat (block_off l cur) + n \<le> unat (lo_su l)"
  shows "unat (x_offset l cur) + n \<le> unat (lo_os l)"
proof -
  note pos = layout_ok_nat [OF assms(1)]
  let ?a = "unat (blockno l cur) div unat (lo_sc l) mod unat (stripes_per_object l)"
  have "?a + 1 \<le> unat (stripes_per_object l)" using pos(3) by (simp add: Suc_le_eq)
  then have "(?a + 1) * unat (lo_su l) \<le> unat (stripes_per_object l) * unat (lo_su l)" by (rule mult_le_mono1)
  also have "\<dots> \<le> unat (lo_os l)" by (simp add: stripes_per_object_def unat_div_u64)
  finally show ?thesis
    using assms(2) by (simp add: unat_x_offset block_off_def unat_mod_u64)
qed

lemma be_pos_split:
  "be_pos be x = Some k \<Longrightarrow> \<exists>pre t n post. be = pre @ (t, n) # post \<and> unat t \<le> x \<and> x < unat t + unat n
     \<and> k = ext_total pre + (x - unat t)"
proof (induction be x arbitrary: k rule: be_pos.induct)
  case (2 t n be x)
  show ?case
  proof (cases "unat t \<le> x \<and> x < unat t + unat n")
    case True
    then have "(t, n) # be = [] @ (t, n) # be \<and> unat t \<le> x \<and> x < unat t + unat n \<and> k = ext_total [] + (x - unat t)"
      using 2(2) by (simp add: ext_total_def)
    then show ?thesis by blast
  next
    case False
    then obtain j where j: "be_pos be x = Some j" "k = unat n + j" using 2(2) by auto
    from 2(1) [OF False j(1)] obtain pre t' n' post where
      "be = pre @ (t', n') # post \<and> unat t' \<le> x \<and> x < unat t' + unat n' \<and> j = ext_total pre + (x - unat t')" by blast
    then have "(t, n) # be = ((t, n) # pre) @ (t', n') # post \<and> unat t' \<le> x \<and> x < unat t' + unat n'
        \<and> k = ext_total ((t, n) # pre) + (x - unat t')"
      using j(2) by (simp add: ext_total_def)
    then show ?thesis by blast
  qed
qed simp

text \<open>The prefixes of the buffer extents of a placed extent do not wrap.\<close>

lemma ext_placedD:
  assumes "ext_placed f l off 0 e" "oe_buffer_extents e = pre @ (b, n) # post"
  shows "objectno l (off + b) = oe_objectno e" "x_offset l (off + b) = oe_offset e + sum_list (map snd pre)"
proof -
  have "\<forall>pre b n post. oe_buffer_extents e = pre @ (b, n) # post \<longrightarrow>
      objectno l (off + (b - 0)) = oe_objectno e \<and> x_offset l (off + (b - 0)) = oe_offset e + sum_list (map snd pre)"
    using assms(1) unfolding ext_placed_def by (elim conjE)
  then have "objectno l (off + (b - 0)) = oe_objectno e \<and> x_offset l (off + (b - 0)) = oe_offset e + sum_list (map snd pre)"
    using assms(2) by blast
  then show "objectno l (off + b) = oe_objectno e" "x_offset l (off + b) = oe_offset e + sum_list (map snd pre)"
    by simp_all
qed


lemma placed_prefix:
  assumes "layout_ok l" "ext_placed f l off 0 e"
    and be: "\<And>p. p \<in> set (oe_buffer_extents e) \<Longrightarrow> unat (block_off l (off + fst p)) + unat (snd p) \<le> unat (lo_su l)"
    and "oe_buffer_extents e = pre @ post" "oe_buffer_extents e \<noteq> []"
  shows "unat (sum_list (map snd pre)) = ext_total pre \<and> unat (oe_offset e) + ext_total pre \<le> unat (lo_os l)"
  using assms(4)
proof (induction pre arbitrary: post rule: rev_induct)
  case Nil
  obtain b n be' where be': "oe_buffer_extents e = [] @ (b, n) # be'" using assms(5) by (cases "oe_buffer_extents e") auto
  from ext_placedD(2) [OF assms(2) this] have "x_offset l (off + b) = oe_offset e" by simp
  moreover have "unat (x_offset l (off + b)) + unat n \<le> unat (lo_os l)"
    using be [of "(b, n)"] be' by (intro x_offset_within [OF assms(1)]) simp
  ultimately show ?case by (simp add: ext_total_def)
next
  case (snoc p pre)
  obtain b n where p: "p = (b, n)" by (cases p)
  have split: "oe_buffer_extents e = pre @ (b, n) # post" using snoc.prems by (simp add: p)
  from snoc.IH [OF split] have IH: "unat (sum_list (map snd pre)) = ext_total pre"
    "unat (oe_offset e) + ext_total pre \<le> unat (lo_os l)" by blast+
  have os: "unat (lo_os l) < 2 ^ 64" using unat_lt [of "lo_os l"] by simp
  have "x_offset l (off + b) = oe_offset e + sum_list (map snd pre)"
    by (rule ext_placedD(2) [OF assms(2) split])
  moreover have "unat (oe_offset e + sum_list (map snd pre)) = unat (oe_offset e) + ext_total pre"
    unfolding IH(1) [symmetric] using IH os by (intro unat_add_lt) linarith
  ultimately have "unat (x_offset l (off + b)) = unat (oe_offset e) + ext_total pre" by simp
  moreover have "unat (x_offset l (off + b)) + unat n \<le> unat (lo_os l)"
    using be [of "(b, n)"] split by (intro x_offset_within [OF assms(1)]) simp
  ultimately have le: "unat (oe_offset e) + ext_total pre + unat n \<le> unat (lo_os l)" by simp
  have "unat (sum_list (map snd pre) + n) = ext_total pre + unat n"
    unfolding IH(1) [symmetric] using IH(1) le os by (intro unat_add_lt) linarith
  then show ?case using le by (simp add: p ext_total_def)
qed

lemma placed_extent_ok:
  assumes "layout_ok l" "ext_placed f l off 0 e" "oe_buffer_extents e \<noteq> []" "unat off + len < 2 ^ 64"
    and be: "\<And>p. p \<in> set (oe_buffer_extents e) \<Longrightarrow> snd p \<noteq> 0 \<and> unat (fst p) + unat (snd p) \<le> len
        \<and> unat (block_off l (off + fst p)) + unat (snd p) \<le> unat (lo_su l)"
    and h: "\<And>x. hits (oe_buffer_extents e) x \<le> 1"
  shows "extent_ok f l off len e"
proof -
  let ?be = "oe_buffer_extents e"
  have pre: "unat (sum_list (map snd p)) = ext_total p \<and> unat (oe_offset e) + ext_total p \<le> unat (lo_os l)"
    if "?be = p @ q" for p q
    using placed_prefix [OF assms(1,2) _ that assms(3)] be by blast
  have len: "oe_length e = sum_list (map snd ?be)" and oid: "oe_oid e = format_oid f (oe_objectno e)"
    using assms(2) by (simp_all add: ext_placed_def)
  have total: "ext_total ?be = unat (oe_length e)" "unat (oe_offset e) + unat (oe_length e) \<le> unat (lo_os l)"
    using pre [of ?be "[]"] by (simp_all add: len)
  have os: "unat (lo_os l) < 2 ^ 64" using unat_lt [of "lo_os l"] by simp
  have place: "objectno l (off + b) = oe_objectno e \<and> unat (x_offset l (off + b)) = unat (oe_offset e) + ext_total p"
    if "?be = p @ (b, n) # q" for p b n q
  proof -
    have sum: "unat (sum_list (map snd p)) = ext_total p" "unat (oe_offset e) + ext_total p \<le> unat (lo_os l)"
      using pre [OF that] by blast+
    have "unat (oe_offset e + sum_list (map snd p)) = unat (oe_offset e) + ext_total p"
      unfolding sum(1) [symmetric] using sum os by (intro unat_add_lt) linarith
    then show ?thesis using ext_placedD [OF assms(2) that] by simp
  qed
  obtain b n q where hd: "?be = [] @ (b, n) # q" using assms(3) by (cases ?be) auto
  have "be_ok ?be"
  proof (rule be_ok_hits [OF h])
    fix p assume "p \<in> set ?be"
    from be [OF this] show "unat (fst p) + unat (snd p) < 2 ^ 64" using assms(4) by linarith
  qed
  moreover have "oe_length e \<noteq> 0"
  proof -
    have "0 < unat n" using be [of "(b, n)"] hd unfolding unat_pos_u64 [symmetric] by simp
    then have "0 < unat (oe_length e)" unfolding total(1) [symmetric] hd by (simp add: ext_total_def)
    then show ?thesis by auto
  qed
  moreover have "x < len \<and> k < unat (oe_length e) \<and> objectno l (off + of_nat x) = oe_objectno e
      \<and> unat (x_offset l (off + of_nat x)) = unat (oe_offset e) + k" if pos: "be_pos ?be x = Some k" for x k
  proof -
    obtain p t m r where s: "?be = p @ (t, m) # r" "unat t \<le> x" "x < unat t + unat m" "k = ext_total p + (x - unat t)"
      using be_pos_split [OF pos] by blast
    have m: "unat t + unat m \<le> len" "unat (block_off l (off + t)) + unat m \<le> unat (lo_su l)"
      using be [of "(t, m)"] s(1) by simp_all
    have ut: "unat (off + t) = unat off + unat t" using m(1) assms(4) by (intro unat_add_lt) linarith
    have sx: "off + of_nat x = off + t + of_nat (x - unat t)"
    proof -
      have "(of_nat x :: u64) = of_nat (unat t + (x - unat t))" using s(2) by simp
      also have "\<dots> = t + of_nat (x - unat t)" by (simp del: le_add_diff_inverse)
      finally show ?thesis by (simp add: add.assoc)
    qed
    have blk: "unat (block_off l (off + t)) + (x - unat t) < unat (lo_su l)"
      "unat (off + t) + (x - unat t) < 2 ^ 64"
      using m s(2,3) assms(4) unfolding ut by linarith+
    have "ext_total p + unat m \<le> ext_total ?be" by (simp add: s(1) ext_total_def)
    then have "k < unat (oe_length e)" using s(2-4) unfolding total(1) by linarith
    moreover have "x < len" using s(3) m(1) by linarith
    ultimately show ?thesis
      unfolding sx same_block [OF assms(1) blk] using place [OF s(1)] s(4) by simp
  qed
  moreover have "objectno l (off + b) = oe_objectno e \<and> x_offset l (off + b) = oe_offset e"
    using place [OF hd] by (simp add: ext_total_def word_unat_eq_iff)
  ultimately show ?thesis
    using oid total assms(3) unfolding extent_ok_def by blast
qed

lemma hits_subset:
  assumes "e \<in> set es" shows "hits (oe_buffer_extents e) x \<le> hits (exts_bufs es) x"
proof -
  obtain us vs where "es = us @ e # vs" using split_list [OF assms] by blast
  then show ?thesis by (simp add: exts_bufs_def)
qed

lemma bufs_concat: "bufs m = exts_bufs (concat (map snd m))"
  by (simp add: bufs_def exts_bufs_def)

text \<open>The extents of a request are sound, and their buffer extents cover each buffer position once.\<close>

lemma extents_of_request:
  assumes "layout_ok l" "len \<noteq> 0" "unat off + unat len < 2 ^ 64"
  shows "\<exists>m. file_to_extents_map f l off len ts [] 0 = Some m
    \<and> (\<forall>e \<in> set (concat (map snd m)). extent_ok f l off (unat len) e)
    \<and> (\<forall>x. hits (exts_bufs (concat (map snd m))) x = (if x < unat len then 1 else 0))
    \<and> (\<Sum>e\<leftarrow>concat (map snd m). unat (oe_length e)) = unat len"
proof -
  obtain m where m: "fte_loop f l ts off 0 off len [] = Some m"
    using fte_loop_total [OF assms(1)] by blast
  let ?es = "concat (map snd m)" and ?ps = "buf_pieces off 0 (fte_pieces l off len)"
  have su: "lo_su l \<noteq> 0" and ok: "\<not> lo_os l < lo_su l" using assms(1) by (auto simp: layout_ok_def)
  have ms: "mset (exts_bufs ?es) = mset ?ps"
    using fte_loop_pieces [OF _ m] by (simp add: bufs_concat) (simp add: exts_bufs_def)
  note tile = buf_pieces_tile [OF su assms(3)]
  have h: "hits (exts_bufs ?es) x = (if x < unat len then 1 else 0)" for x
    using hits_mset [OF ms] tile(1) by simp
  have "exts_placed f l off 0 []" by (simp add: exts_placed_def)
  from fte_loop_placed [OF this m]
  have placed: "exts_placed f l off 0 m" and total: "buf_total ?es = unat len"
    by (simp_all add: buf_total_concat)
  have "filled []" by (simp add: filled_def)
  then have filled: "filled m" using fte_loop_filled [OF _ _ m] by simp
  have "extent_ok f l off (unat len) e" if e: "e \<in> set ?es" for e
  proof (rule placed_extent_ok [OF assms(1) _ _ assms(3)])
    obtain k exv where k: "(k, exv) \<in> set m" "e \<in> set exv" using e by auto
    show "ext_placed f l off 0 e" using exts_placedD [OF placed k] by blast
    show "oe_buffer_extents e \<noteq> []" using filled k unfolding filled_def by fastforce
    show "hits (oe_buffer_extents e) x \<le> 1" for x using hits_subset [OF e, of x] h [of x] by (simp split: if_splits)
    fix p assume "p \<in> set (oe_buffer_extents e)"
    then have "p \<in> set (exts_bufs ?es)" using e unfolding exts_bufs_def by auto
    then have "p \<in> set ?ps" using mset_eq_setD [OF ms] by blast
    from tile(2) [OF this] show "snd p \<noteq> 0 \<and> unat (fst p) + unat (snd p) \<le> unat len
        \<and> unat (block_off l (off + fst p)) + unat (snd p) \<le> unat (lo_su l)" .
  qed
  moreover from this have "unat (oe_length e) = ext_total (oe_buffer_extents e)" if "e \<in> set ?es" for e
    using that by (simp add: extent_ok_def)
  then have "(\<Sum>e\<leftarrow>?es. unat (oe_length e)) = buf_total ?es"
    unfolding buf_total_def ext_total_def by (metis (mono_tags, lifting) map_eq_conv)
  ultimately show ?thesis
    using m h total assms(2) su ok by (auto simp: file_to_extents_map_def)
qed

end
