(* ===== verification/Rados_Io.thy ===== *)
theory Rados_Io
  imports Osd_Ops
begin

text \<open>
  The client side of the object store as librbd uses it: a pool is a function from object names to
  objects, \<open>rados_exec\<close> sends one compound operation to one object. A network or OSD failure that
  keeps the operation from being applied is the argument \<open>fault\<close> (a negative code; 0 is none), so
  the error paths of the callers can be run. \<open>pool_ok\<close> is the invariant of a pool.
\<close>

type_synonym pool = "string \<Rightarrow> osd_object option"

definition osd_max_object_size :: u64 where
  "osd_max_object_size = 107374182400"

definition rados_exec ::
    "int \<Rightarrow> string \<Rightarrow> osd_op list \<Rightarrow> pool \<Rightarrow> (int \<times> osd_out list \<times> pool) option" where
  "rados_exec fault oid ops p =
     (if fault < 0 then Some (fault, [], p)
      else map_option (\<lambda>(r, outs, obs'). (r, outs, p(oid := obs')))
             (prepare_transaction osd_max_object_size ops (p oid)))"

definition out_data :: "osd_out list \<Rightarrow> bytes" where
  "out_data outs = (case outs of DataOut d # _ \<Rightarrow> d | _ \<Rightarrow> [])"

text \<open>\<open>IoCtxImpl::read\<close>: the return value is the number of bytes read, or the error.\<close>

definition rados_read :: "int \<Rightarrow> string \<Rightarrow> u64 \<Rightarrow> u64 \<Rightarrow> pool \<Rightarrow> (int \<times> bytes) option" where
  "rados_read fault oid len off p =
     (if 2147483647 < len then Some (- EDOM, [])
      else map_option (\<lambda>(r, outs, _). if r < 0 then (r, out_data outs)
                                      else (int (length (out_data outs)), out_data outs))
             (rados_exec fault oid [OpRead off len 0 0] p))"

definition rados_write_full :: "int \<Rightarrow> string \<Rightarrow> bytes \<Rightarrow> pool \<Rightarrow> (int \<times> pool) option" where
  "rados_write_full fault oid bl p =
     map_option (\<lambda>(r, _, p'). (r, p'))
       (rados_exec fault oid [OpWriteFull 0 (of_nat (length bl)) bl] p)"

definition rados_remove :: "int \<Rightarrow> string \<Rightarrow> pool \<Rightarrow> (int \<times> pool) option" where
  "rados_remove fault oid p =
     map_option (\<lambda>(r, _, p'). (r, p')) (rados_exec fault oid [OpDelete] p)"

lemma prepare_transaction_single:
  "prepare_transaction mx [op] obs =
     (case osd_op_step mx op obs of None \<Rightarrow> None
      | Some (r, out, obs') \<Rightarrow> Some (r, [out], if r < 0 then obs else obs'))"
  by (auto simp: prepare_transaction_def split: option.splits)

definition pool_ok :: "pool \<Rightarrow> bool" where
  "pool_ok p \<longleftrightarrow> (\<forall>oid. obj_ok (p oid))"

lemma osd_max_le: "osd_max_object_size \<le> 0x8000000000000000"
  by (simp add: osd_max_object_size_def)

lemma rados_exec_ok:
  assumes "pool_ok p" "list_all op_plain ops" "rados_exec fault oid ops p = Some (r, outs, p')"
  shows "pool_ok p'"
proof (cases "fault < 0")
  case True
  then show ?thesis using assms by (simp add: rados_exec_def)
next
  case False
  then obtain obs' where t: "prepare_transaction osd_max_object_size ops (p oid) = Some (r, outs, obs')"
    and p': "p' = p(oid := obs')"
    using assms(3) by (auto simp: rados_exec_def)
  obtain obs1 where "do_osd_ops osd_max_object_size ops (p oid) = Some (r, outs, obs1)"
    "obs' = (if r < 0 then p oid else obs1)"
    using t by (auto simp: prepare_transaction_def split: if_splits)
  then have "obj_ok obs'"
    using do_osd_ops_ok [OF _ osd_max_le assms(2), of "p oid"] assms(1) by (auto simp: pool_ok_def)
  then show ?thesis using assms(1) p' by (simp add: pool_ok_def)
qed

lemma rados_exec_other:
  "rados_exec fault oid ops p = Some (r, outs, p') \<Longrightarrow> oid' \<noteq> oid \<Longrightarrow> p' oid' = p oid'"
  by (auto simp: rados_exec_def split: if_splits)

subsection \<open>Whole objects\<close>

text \<open>Bytes that fit into an object: what \<open>write_full\<close> accepts.\<close>

lemma length_word: "length d < 2 ^ 64 \<Longrightarrow> unat (of_nat (length d) :: u64) = length d"
  by (simp add: take_bit_nat_eq_self unat_of_nat)

definition full_object :: "osd_object option \<Rightarrow> bytes \<Rightarrow> osd_object" where
  "full_object obs bl = (case obs of Some ob \<Rightarrow> ob | None \<Rightarrow> fresh_object)
     \<lparr>od_data := bl, od_size := of_nat (length bl)\<rparr>"

lemma full_object_simps [simp]:
  "od_data (full_object obs bl) = bl" "od_size (full_object obs bl) = of_nat (length bl)"
  "od_watchers (full_object obs bl) = (case obs of Some ob \<Rightarrow> od_watchers ob | None \<Rightarrow> 0)"
  "od_truncate_seq (full_object obs bl) = (case obs of Some ob \<Rightarrow> od_truncate_seq ob | None \<Rightarrow> 0)"
  by (auto simp: full_object_def fresh_object_def split: option.splits)

lemma op_write_full_max:
  assumes "length bl \<le> 107374182400"
  shows "op_write_full osd_max_object_size 0 (of_nat (length bl)) bl obs
    = (0, NoOut, Some (full_object obs bl))"
proof -
  have len: "unat (of_nat (length bl) :: u64) = length bl"
    using assms by (intro length_word) simp
  have "\<not> osd_max_object_size \<le> (0 :: u64)" "\<not> osd_max_object_size < (of_nat (length bl) :: u64)"
    using assms len by (simp_all add: osd_max_object_size_def word_less_nat_alt word_le_nat_alt)
  then have "check_offset_and_length 0 (of_nat (length bl)) osd_max_object_size = 0"
    by (simp add: check_offset_and_length_def)
  then show ?thesis
    using len
    by (cases obs) (auto simp: op_write_full_def Let_def full_object_def fresh_object_def file_write_def
        file_truncate_def)
qed

lemma op_write_full_plain:
  assumes "length bl \<le> 4194304"
  shows "op_write_full osd_max_object_size 0 (of_nat (length bl)) bl obs
    = (0, NoOut, Some (full_object obs bl))"
  using assms by (intro op_write_full_max) simp

lemma write_full_plain:
  assumes "length bl \<le> 4194304"
  shows "rados_write_full fault oid bl p =
      (if fault < 0 then Some (fault, p) else Some (0, p(oid := Some (full_object (p oid) bl))))"
  by (simp add: rados_write_full_def rados_exec_def prepare_transaction_single
      op_write_full_plain [OF assms])

lemma rados_read_plain:
  assumes "len \<noteq> 0" "len \<le> 2147483647"
  shows "rados_read fault oid len off p =
     (if fault < 0 then Some (fault, [])
      else case p oid of None \<Rightarrow> Some (- ENOENT, [])
         | Some ob \<Rightarrow> (let d = file_read (unat off) (unat len) (od_data ob) in Some (int (length d), d)))"
proof -
  have "\<not> 2147483647 < len" using assms(2) by (simp add: not_less)
  then show ?thesis
    by (cases "p oid")
      (simp_all add: rados_read_def rados_exec_def prepare_transaction_single op_read_def out_data_def Let_def)
qed

lemma rados_remove_plain:
  "rados_remove fault oid p =
     (if fault < 0 then Some (fault, p)
      else case p oid of None \<Rightarrow> Some (- ENOENT, p)
         | Some ob \<Rightarrow> if od_watchers ob \<noteq> 0 then Some (- EBUSY, p) else Some (0, p(oid := None)))"
  by (cases "p oid")
    (auto simp: rados_remove_def rados_exec_def prepare_transaction_single op_delete_def fun_upd_idem)

end
