(* ===== verification/Extent_Map.thy ===== *)
theory Extent_Map
  imports Rados_Io Textio
begin

text \<open>
  \<open>librbd/WHOBBS.h\<close> and \<open>librbd/Mapper.cc\<close>: the extent table that says in which pool each extent of
  an image lives (negative: HDD, positive: SSD, +-999: on its way), its queries, and its text form
  \<open>id#value#...\<close> kept in an object of the HDD pool. \<open>operator[]\<close> inserts 0 for an unknown extent, so
  the queries return the table too. Reading the text is modelled for the characters the writer
  prints; a number that does not parse (the code would use an uninitialised variable) and a missing
  buffer (the code would build a string from a null pointer) are \<open>None\<close>.
  Lemmas: the classification by \<open>get_pool\<close>, the counts partition the table, and the text round trip.
\<close>

definition HDD_POOL :: int where "HDD_POOL = 0"
definition SSD_POOL :: int where "SSD_POOL = 1"
definition DEFAULT_POOL :: int where "DEFAULT_POOL = HDD_POOL"
definition HDD_STRIDE :: int where "HDD_STRIDE = - 3"
definition SSD_STRIDE :: int where "SSD_STRIDE = 5"
definition MAX_MIGRATION :: u64 where "MAX_MIGRATION = 50"
definition READ_OP :: int where "READ_OP = 0"
definition WRITE_OP :: int where "WRITE_OP = 1"
definition OBJECT_SIZE :: u64 where "OBJECT_SIZE = 4194304"
definition EXTENT_SIZE :: u64 where "EXTENT_SIZE = OBJECT_SIZE * 1"
definition MIGRATING_TO_SSD :: int where "MIGRATING_TO_SSD = 999"
definition MIGRATING_TO_HDD :: int where "MIGRATING_TO_HDD = - 999"

lemmas whobbs_consts = HDD_POOL_def SSD_POOL_def DEFAULT_POOL_def HDD_STRIDE_def SSD_STRIDE_def
  MAX_MIGRATION_def READ_OP_def WRITE_OP_def OBJECT_SIZE_def EXTENT_SIZE_def MIGRATING_TO_SSD_def
  MIGRATING_TO_HDD_def

record ExtentMap =
  extent_size :: u64
  map_size :: u64
  em_map :: "(u64, int) smap"

subsection \<open>Queries\<close>

definition hdd_extent_num :: "ExtentMap \<Rightarrow> u64" where
  "hdd_extent_num em = fold (\<lambda>(_, v) num. if v < 0 then num + 1 else num) (em_map em) 0"

definition ssd_extent_num :: "ExtentMap \<Rightarrow> u64" where
  "ssd_extent_num em = fold (\<lambda>(_, v) num. if v > 0 then num + 1 else num) (em_map em) 0"

text \<open>The two warnings that \<open>get_pool\<close> prints are left out; the pool is computed before them.\<close>

definition get_pool :: "ExtentMap \<Rightarrow> u64 \<Rightarrow> (int \<times> ExtentMap) option" where
  "get_pool em off =
     (if extent_size em = 0 then None
      else
        let extent_id = off div extent_size em;
            (value, m) = smap_at 0 extent_id (em_map em);
            pool = (if value = MIGRATING_TO_SSD \<or> value = MIGRATING_TO_HDD then value
                    else if value < 0 then HDD_POOL
                    else if value > 0 then SSD_POOL
                    else 0)
        in Some (pool, em\<lparr>em_map := m\<rparr>))"

definition is_in_hdd :: "ExtentMap \<Rightarrow> u64 \<Rightarrow> bool \<times> ExtentMap" where
  "is_in_hdd em i =
     (let (value, m) = smap_at 0 i (em_map em) in (value < 0, em\<lparr>em_map := m\<rparr>))"

subsection \<open>The table as text\<close>

text \<open>A C string ends at the first zero byte.\<close>

definition c_str :: "bytes \<Rightarrow> string option" where
  "c_str bl = (if bl = [] then None else Some (map (\<lambda>b. char_of (unat b)) (takeWhile (\<lambda>b. b \<noteq> 0) bl)))"

definition stream_u64 :: "string \<Rightarrow> u64 option" where
  "stream_u64 cs = (case parse_nat 10 cs of
     Some n \<Rightarrow> if n < 2 ^ 64 then Some (of_nat n) else None | None \<Rightarrow> None)"

definition stream_int :: "string \<Rightarrow> int option" where
  "stream_int cs = (case parse_int cs of
     Some i \<Rightarrow> if - (2 ^ 31) \<le> i \<and> i < 2 ^ 31 then Some i else None | None \<Rightarrow> None)"

definition table_text :: "(u64, int) smap \<Rightarrow> string" where
  "table_text m = concat (map (\<lambda>(i, v). show_nat 10 (unat i) @ ''#'' @ show_int v @ ''#'') m)"

fun insert_tokens :: "string list \<Rightarrow> (u64, int) smap \<Rightarrow> (u64, int) smap option" where
  "insert_tokens (i # v # toks) m =
     (case (stream_u64 i, stream_int v) of
        (Some int_id, Some int_value) \<Rightarrow> insert_tokens toks (smap_insert int_id int_value m)
      | _ \<Rightarrow> None)"
| "insert_tokens _ m = Some m"

definition fetch_extent_table ::
    "int \<Rightarrow> string \<Rightarrow> pool \<Rightarrow> ExtentMap \<Rightarrow> (bytes \<times> ExtentMap) option" where
  "fetch_extent_table fault object_name hdd em =
     (case rados_read fault object_name OBJECT_SIZE 0 hdd of
        None \<Rightarrow> None
      | Some (ret, read_buf) \<Rightarrow>
          (case c_str read_buf of
             None \<Rightarrow> None
           | Some str \<Rightarrow>
               map_option (\<lambda>m. (read_buf, em\<lparr>em_map := m\<rparr>))
                 (insert_tokens (getlines (CHR ''#'') [] str) (em_map em))))"

definition save_extent_table :: "int \<Rightarrow> string \<Rightarrow> ExtentMap \<Rightarrow> pool \<Rightarrow> pool option" where
  "save_extent_table fault object_name em hdd =
     map_option snd (rados_write_full fault object_name (bytes_of (table_text (em_map em))) hdd)"

subsection \<open>Lemmas\<close>

definition em_ok :: "ExtentMap \<Rightarrow> bool" where
  "em_ok em \<longleftrightarrow> smap_ok (em_map em) \<and> extent_size em \<noteq> 0"

lemma get_pool_known:
  assumes "extent_size em \<noteq> 0" "map_of (em_map em) (off div extent_size em) = Some v"
  shows "get_pool em off =
    Some (if v = MIGRATING_TO_SSD \<or> v = MIGRATING_TO_HDD then v
          else if v < 0 then HDD_POOL else if v > 0 then SSD_POOL else 0, em)"
  using assms by (auto simp: get_pool_def smap_at_def)

lemma get_pool_unknown:
  assumes "extent_size em \<noteq> 0" "map_of (em_map em) (off div extent_size em) = None"
  shows "get_pool em off =
    Some (HDD_POOL, em\<lparr>em_map := smap_put (off div extent_size em) 0 (em_map em)\<rparr>)"
  using assms by (auto simp: get_pool_def smap_at_def whobbs_consts)

lemma fold_count: "fold (\<lambda>x n. if P x then n + 1 else n) xs (k :: u64) = k + of_nat (length (filter P xs))"
  by (induction xs arbitrary: k) (auto simp: algebra_simps)

lemma hdd_extent_num_count: "hdd_extent_num em = of_nat (length (filter (\<lambda>p. snd p < 0) (em_map em)))"
  using fold_count [of "\<lambda>p. snd p < 0" "em_map em" 0]
  by (simp add: hdd_extent_num_def case_prod_beta')

lemma ssd_extent_num_count: "ssd_extent_num em = of_nat (length (filter (\<lambda>p. snd p > 0) (em_map em)))"
  using fold_count [of "\<lambda>p. snd p > 0" "em_map em" 0]
  by (simp add: ssd_extent_num_def case_prod_beta')

lemma filter_split3:
  "length (filter (\<lambda>p. f p < (0 :: int)) xs) + length (filter (\<lambda>p. f p > 0) xs)
     + length (filter (\<lambda>p. f p = 0) xs) = length xs"
  by (induction xs) auto

text \<open>Where a request goes. For a table of an image and any offset, \<open>get_pool\<close> answers with the
  pool of the sign of the extent's value, with the migration mark while the extent is on its way,
  and with the HDD pool for an extent it does not know; it changes no known entry, and an unknown
  extent is entered with the value 0.\<close>

theorem get_pool_answer:
  assumes "em_ok em"
  shows "\<exists>pool em'. get_pool em off = Some (pool, em') \<and> em_ok em' \<and>
    map_of (em_map em') = (map_of (em_map em))(off div extent_size em \<mapsto>
       (case map_of (em_map em) (off div extent_size em) of Some v \<Rightarrow> v | None \<Rightarrow> 0)) \<and>
    (case map_of (em_map em) (off div extent_size em) of
       None \<Rightarrow> pool = HDD_POOL
     | Some v \<Rightarrow> (\<bar>v\<bar> = 999 \<longrightarrow> pool = v) \<and> (\<bar>v\<bar> \<noteq> 999 \<longrightarrow> (pool = SSD_POOL \<longleftrightarrow> 0 < v) \<and> (pool = HDD_POOL \<longleftrightarrow> v \<le> 0)))"
proof (cases "map_of (em_map em) (off div extent_size em)")
  case None
  then show ?thesis
    using assms get_pool_unknown [of em off] by (simp add: em_ok_def)
next
  case (Some v)
  have "map_of (em_map em) = (map_of (em_map em))(off div extent_size em \<mapsto> v)"
    using Some by (simp add: fun_upd_idem)
  moreover have "(\<bar>v\<bar> = 999) = (v = 999 \<or> v = - 999)" by auto
  ultimately show ?thesis
    using assms get_pool_known [OF _ Some] Some by (auto simp: em_ok_def whobbs_consts)
qed

definition table_3 :: ExtentMap where
  "table_3 = \<lparr>extent_size = EXTENT_SIZE, map_size = 3, em_map = [(0, - 3), (1, 5), (2, 999)]\<rparr>"

lemma table_3_ok: "em_ok table_3"
  by (simp add: em_ok_def table_3_def whobbs_consts)

lemma get_pool_answer_witness:
  "\<exists>pool em'. get_pool table_3 5000000 = Some (pool, em') \<and> em_ok em' \<and>
    map_of (em_map em') = (map_of (em_map table_3))(5000000 div extent_size table_3 \<mapsto>
       (case map_of (em_map table_3) (5000000 div extent_size table_3) of Some v \<Rightarrow> v | None \<Rightarrow> 0)) \<and>
    (case map_of (em_map table_3) (5000000 div extent_size table_3) of
       None \<Rightarrow> pool = HDD_POOL
     | Some v \<Rightarrow> (\<bar>v\<bar> = 999 \<longrightarrow> pool = v) \<and> (\<bar>v\<bar> \<noteq> 999 \<longrightarrow> (pool = SSD_POOL \<longleftrightarrow> 0 < v) \<and> (pool = HDD_POOL \<longleftrightarrow> v \<le> 0)))"
  by (rule get_pool_answer [OF table_3_ok])

text \<open>The two extent counts that the report prints, with the entries still at 0, add up to the
  size of the table (as 64-bit numbers).\<close>

theorem extent_counts_partition:
  "hdd_extent_num em + ssd_extent_num em + of_nat (length (filter (\<lambda>p. snd p = 0) (em_map em)))
     = of_nat (length (em_map em))"
  unfolding hdd_extent_num_count ssd_extent_num_count
  by (simp only: of_nat_add [symmetric] filter_split3 [of snd])

subsection \<open>Reading the table back\<close>

lemma bytes_of_zero: "CHR 0x00 \<notin> set s \<Longrightarrow> \<forall>b \<in> set (bytes_of s). b \<noteq> 0"
proof (clarsimp simp: bytes_of_def)
  fix c assume "CHR 0x00 \<notin> set s" "c \<in> set s" and z: "word_of_nat (of_char c) = (0 :: u8)"
  then have "c \<noteq> CHR 0x00" by auto
  moreover have "(of_char c :: nat) = 0" using unat_u8_char [of c] z by simp
  then have "(of_char c :: nat) = of_char (CHR 0x00)" by simp
  then have "c = CHR 0x00" by (simp only: of_char_eq_iff)
  ultimately show False by simp
qed

lemma c_str_bytes_of:
  assumes "s \<noteq> []" "CHR 0x00 \<notin> set s"
  shows "c_str (bytes_of s) = Some s"
proof -
  have "takeWhile (\<lambda>b. b \<noteq> 0) (bytes_of s) = bytes_of s"
    using bytes_of_zero [OF assms(2)] by (simp add: takeWhile_eq_all_conv)
  then show ?thesis
    using assms(1) by (simp only: c_str_def) (simp add: bytes_of_def comp_def unat_u8_char)
qed

lemma stream_u64_show: "stream_u64 (show_nat 10 (unat i)) = Some i"
  using unat_lt [of i] by (simp add: stream_u64_def parse_show_nat)

lemma stream_int_show: "- (2 ^ 31) \<le> v \<Longrightarrow> v < 2 ^ 31 \<Longrightarrow> stream_int (show_int v) = Some v"
  by (simp add: stream_int_def parse_show_int)

lemma getlines_table:
  "getlines (CHR ''#'') [] (table_text m) = concat (map (\<lambda>(i, v). [show_nat 10 (unat i), show_int v]) m)"
proof (induction m)
  case Nil
  then show ?case by (simp add: table_text_def)
next
  case (Cons p m)
  obtain i v where p: "p = (i, v)" by (cases p)
  have "table_text (p # m) =
      show_nat 10 (unat i) @ CHR ''#'' # (show_int v @ CHR ''#'' # table_text m)"
    by (simp add: table_text_def p)
  then show ?case
    by (simp add: getlines_token show_nat_no_hash show_int_no_hash Cons.IH p)
qed

lemma insert_tokens_table:
  "\<forall>v \<in> snd ` set m. - (2 ^ 31) \<le> v \<and> v < 2 ^ 31 \<Longrightarrow>
     insert_tokens (concat (map (\<lambda>(i, v). [show_nat 10 (unat i), show_int v]) m)) m0
       = Some (fold (\<lambda>(i, v). smap_insert i v) m m0)"
  by (induction m arbitrary: m0) (auto simp: stream_u64_show stream_int_show)

lemma digit_char_not_nul: "d < 16 \<Longrightarrow> digit_char d \<noteq> CHR 0x00"
proof -
  assume "d < 16"
  then have "of_char (digit_char d) \<noteq> (0 :: nat)" by (auto simp: digit_char_def)
  then show ?thesis by auto
qed

lemma show_nat_no_nul: "CHR 0x00 \<notin> set (show_nat 10 n)"
proof
  assume "CHR 0x00 \<in> set (show_nat 10 n)"
  then obtain d where "d < 10" "CHR 0x00 = digit_char d"
    using show_nat_chars [of 10 "CHR 0x00" n] by auto
  then show False using digit_char_not_nul [of d] by simp
qed

lemma table_text_no_nul: "CHR 0x00 \<notin> set (table_text m)"
  by (auto simp: table_text_def show_int_def show_nat_no_nul)

lemma table_text_nonempty: "m \<noteq> [] \<Longrightarrow> table_text m \<noteq> []"
  by (cases m) (auto simp: table_text_def)

text \<open>The extent table survives a shutdown: a table that is not empty and whose text fits into
  one object is saved, and fetching it into the empty table of a new image context gives exactly the
  same table back, whatever the object held before.\<close>

theorem extent_table_roundtrip:
  assumes "smap_ok (em_map em)" "em_map em \<noteq> []"
    "\<forall>v \<in> snd ` set (em_map em). - (2 ^ 31) \<le> v \<and> v < 2 ^ 31"
    "length (table_text (em_map em)) \<le> unat OBJECT_SIZE" "em_map em0 = []"
  shows "\<exists>hdd' buf. save_extent_table 0 oid em hdd = Some hdd' \<and>
     fetch_extent_table 0 oid hdd' em0 = Some (buf, em0\<lparr>em_map := em_map em\<rparr>)"
proof -
  let ?t = "table_text (em_map em)"
  have len: "length (bytes_of ?t) \<le> 4194304"
    using assms(4) by (simp add: bytes_of_def whobbs_consts)
  let ?ob = "full_object (hdd oid) (bytes_of ?t)"
  have w: "rados_write_full 0 oid (bytes_of ?t) hdd = Some (0, hdd(oid := Some ?ob))"
    using write_full_plain [OF len, of 0 oid hdd] by simp
  have rd: "rados_read 0 oid OBJECT_SIZE 0 (hdd(oid := Some ?ob))
      = Some (int (length (bytes_of ?t)), bytes_of ?t)"
    using len by (subst rados_read_plain) (simp_all add: whobbs_consts file_read_def Let_def)
  have "fetch_extent_table 0 oid (hdd(oid := Some ?ob)) em0
      = Some (bytes_of ?t, em0\<lparr>em_map := em_map em\<rparr>)"
    using assms(3,5)
    by (simp add: fetch_extent_table_def rd c_str_bytes_of table_text_nonempty [OF assms(2)]
        table_text_no_nul getlines_table insert_tokens_table fold_insert_sorted [OF assms(1)])
  then show ?thesis using w by (simp add: save_extent_table_def)
qed

lemma extent_table_roundtrip_witness:
  "\<exists>hdd' buf. save_extent_table 0 ''extent-table'' table_3 (\<lambda>_. None) = Some hdd' \<and>
     fetch_extent_table 0 ''extent-table'' hdd' (table_3\<lparr>em_map := []\<rparr>)
       = Some (buf, table_3\<lparr>em_map := []\<rparr>\<lparr>em_map := em_map table_3\<rparr>)"
proof (rule extent_table_roundtrip)
  have "length (table_text (em_map table_3)) = 15" by code_simp
  then show "length (table_text (em_map table_3)) \<le> unat OBJECT_SIZE"
    by (simp add: whobbs_consts)
qed (simp_all add: table_3_def)

end
