(* ===== verification/Analyzer_Model.thy ===== *)
theory Analyzer_Model
  imports Complex_Main Extent_Map
begin

text \<open>
  \<open>librbd/Analyzer.cc\<close>: the analyzer turns the queue of observed requests into a report (scores per
  extent, sequential and random counts), decides from the report which extents tend to the SSD
  pool, moves the extent values one step of their hysteresis and proposes extents for migration.
  Numbers of type \<open>double\<close> are exact reals here (\<open>calculate_score\<close>, \<open>cover\<close>); the additions
  \<open>uint64_t += double\<close> truncate. Printing is left out. \<open>handle\<close> is in \<open>Tiering\<close>.
  Lemmas: the score increments, the counts of a report, the partition by \<open>tend_to\<close>, the value
  invariant and the hysteresis of \<open>analyze_placement\<close>, the limits of \<open>filter_placement\<close>.
\<close>

definition INTERVAL :: int where "INTERVAL = 100"
definition LAST_BYTE_LIST_SIZE :: nat where "LAST_BYTE_LIST_SIZE = 16"
definition ACTIVE_EXTENT_NUM_LIST_SIZE :: nat where "ACTIVE_EXTENT_NUM_LIST_SIZE = 10"
definition SEQ_DISTANCE :: u64 where "SEQ_DISTANCE = 131072"
definition SMALL_READ_SIZE :: u64 where "SMALL_READ_SIZE = 131072"
definition SMALL_WRITE_SIZE :: u64 where "SMALL_WRITE_SIZE = 65536"
definition SLACKNESS :: real where "SLACKNESS = 0.4"
definition REPLICA :: real where "REPLICA = 3"
definition HDD_READ_IOPS :: real where "HDD_READ_IOPS = 170 * SLACKNESS"
definition HDD_WRITE_IOPS :: real where "HDD_WRITE_IOPS = 140 * SLACKNESS"

record AnalyzerOp =
  op_type :: int
  op_off :: u64
  op_len :: u64

record Analyzer =
  op_queue :: "AnalyzerOp list"
  read_latency_queue :: "u64 list"
  write_latency_queue :: "u64 list"
  last_byte_list :: "u64 list"
  max_migration_num :: u64
  active_extent_num_list :: "u64 list"
  an_to_finilize :: bool

record AnalyzerReport =
  read_score_map :: "(u64, u64) smap"
  write_score_map :: "(u64, u64) smap"
  ran_reads :: u64
  ran_writes :: u64
  seq_reads :: u64
  seq_writes :: u64
  read_bytes :: u64
  write_bytes :: u64
  read_avg_lat :: u64
  write_avg_lat :: u64
  active_extent_num :: u64

definition add_op :: "AnalyzerOp \<Rightarrow> Analyzer \<Rightarrow> Analyzer" where
  "add_op op an = an\<lparr>op_queue := op_queue an @ [op]\<rparr>"

definition add_read_lat :: "u64 \<Rightarrow> Analyzer \<Rightarrow> Analyzer" where
  "add_read_lat nsec an = an\<lparr>read_latency_queue := read_latency_queue an @ [nsec]\<rparr>"

definition add_write_lat :: "u64 \<Rightarrow> Analyzer \<Rightarrow> Analyzer" where
  "add_write_lat nsec an = an\<lparr>write_latency_queue := write_latency_queue an @ [nsec]\<rparr>"

subsection \<open>Sequential accesses and their scores\<close>

definition is_sequential :: "u64 list \<Rightarrow> u64 \<Rightarrow> bool" where
  "is_sequential lbl off =
     list_ex (\<lambda>last_byte. (if last_byte \<le> off then off - last_byte else last_byte - off) \<le> SEQ_DISTANCE) lbl"

definition set_last_byte :: "u64 \<Rightarrow> u64 list \<Rightarrow> u64 list" where
  "set_last_byte byte lbl =
     (if length lbl < LAST_BYTE_LIST_SIZE then lbl @ [byte] else tl lbl @ [byte])"

definition set_active_extent_num :: "u64 \<Rightarrow> u64 list \<Rightarrow> u64 list" where
  "set_active_extent_num n l =
     (if length l < ACTIVE_EXTENT_NUM_LIST_SIZE then l @ [n] else tl l @ [n])"

definition max_active_extent_num :: "u64 list \<Rightarrow> u64" where
  "max_active_extent_num l = fold (\<lambda>x mx. if mx < x then x else mx) l 0"

definition small_size :: "int \<Rightarrow> u64" where
  "small_size t = (if t = READ_OP then SMALL_READ_SIZE else SMALL_WRITE_SIZE)"

definition calculate_score :: "u64 list \<Rightarrow> AnalyzerOp \<Rightarrow> real" where
  "calculate_score lbl op =
     (let x1 = 8; x2 = small_size (op_type op); len = op_len op;
          score = (if is_sequential lbl (op_off op) then 0
                   else if len \<le> x2 then 1
                   else
                     let fenmu = 2 powr x1;
                         tmp = 8 - ln (real (unat (len div x2))) / ln 2;
                         fenzi = (if tmp < 0 then 0 else 2 powr tmp)
                     in fenzi / fenmu)
      in score / SLACKNESS)"

definition add_score :: "real \<Rightarrow> u64 \<Rightarrow> u64" where
  "add_score score a = word_of_int \<lfloor>real (unat a) + score\<rfloor>"

subsection \<open>The report\<close>

record report_state =
  rs_read_score :: "(u64, u64) smap"
  rs_write_score :: "(u64, u64) smap"
  rs_active :: "(u64, bool) smap"
  rs_last_bytes :: "u64 list"
  rs_ran_reads :: u64
  rs_ran_writes :: u64
  rs_seq_reads :: u64
  rs_seq_writes :: u64
  rs_read_bytes :: u64
  rs_write_bytes :: u64

definition init_score_map :: "u64 \<Rightarrow> 'v \<Rightarrow> (u64, 'v) smap" where
  "init_score_map n v = fold (\<lambda>i. smap_insert (of_nat i) v) [0..<unat n] []"

text \<open>\<open>at\<close> throws for a missing key; every extent below \<open>map_size\<close> has its entry.\<close>

definition bump :: "real \<Rightarrow> u64 \<Rightarrow> (u64, u64) smap \<Rightarrow> (u64, u64) smap" where
  "bump score i m = smap_put i (add_score score (the_default 0 (map_of m i))) m"

definition score_op :: "ExtentMap \<Rightarrow> AnalyzerOp \<Rightarrow> report_state \<Rightarrow> report_state" where
  "score_op em op rs =
     (let score = calculate_score (rs_last_bytes rs) op;
          i = op_off op div extent_size em
      in if i < map_size em
         then (let rs1 = rs\<lparr>rs_active := smap_put i True (rs_active rs)\<rparr> in
               if op_type op = READ_OP
               then rs1\<lparr>rs_read_score := bump score i (rs_read_score rs)\<rparr>
               else rs1\<lparr>rs_write_score := bump score i (rs_write_score rs)\<rparr>)
         else rs)"

definition count_op :: "AnalyzerOp \<Rightarrow> report_state \<Rightarrow> report_state" where
  "count_op op rs =
     (if op_type op = READ_OP
      then (if is_sequential (rs_last_bytes rs) (op_off op)
            then rs\<lparr>rs_seq_reads := rs_seq_reads rs + 1, rs_read_bytes := rs_read_bytes rs + op_len op\<rparr>
            else rs\<lparr>rs_ran_reads := rs_ran_reads rs + 1, rs_read_bytes := rs_read_bytes rs + op_len op\<rparr>)
      else (if is_sequential (rs_last_bytes rs) (op_off op)
            then rs\<lparr>rs_seq_writes := rs_seq_writes rs + 1, rs_write_bytes := rs_write_bytes rs + op_len op\<rparr>
            else rs\<lparr>rs_ran_writes := rs_ran_writes rs + 1, rs_write_bytes := rs_write_bytes rs + op_len op\<rparr>))"

definition report_op :: "ExtentMap \<Rightarrow> AnalyzerOp \<Rightarrow> report_state \<Rightarrow> report_state" where
  "report_op em op rs =
     (let rs1 = count_op op (score_op em op rs)
      in rs1\<lparr>rs_last_bytes := set_last_byte (op_off op + op_len op) (rs_last_bytes rs1)\<rparr>)"

definition avg_lat :: "u64 list \<Rightarrow> u64" where
  "avg_lat q = (let n = of_nat (length q); s = sum_list q in if n \<noteq> 0 then s div n else s)"

definition init_report :: "ExtentMap \<Rightarrow> u64 list \<Rightarrow> report_state" where
  "init_report em lbl =
     \<lparr>rs_read_score = init_score_map (map_size em) 0, rs_write_score = init_score_map (map_size em) 0,
      rs_active = init_score_map (map_size em) False, rs_last_bytes = lbl,
      rs_ran_reads = 0, rs_ran_writes = 0, rs_seq_reads = 0, rs_seq_writes = 0,
      rs_read_bytes = 0, rs_write_bytes = 0\<rparr>"

definition create_report :: "ExtentMap \<Rightarrow> Analyzer \<Rightarrow> AnalyzerReport \<times> Analyzer" where
  "create_report em an =
     (let rs = fold (report_op em) (op_queue an) (init_report em (last_byte_list an));
          active = of_nat (length (filter (\<lambda>i. the_default False (map_of (rs_active rs) (of_nat i)))
                                          [0..<unat (map_size em)]))
      in (\<lparr>read_score_map = rs_read_score rs, write_score_map = rs_write_score rs,
           ran_reads = rs_ran_reads rs, ran_writes = rs_ran_writes rs,
           seq_reads = rs_seq_reads rs, seq_writes = rs_seq_writes rs,
           read_bytes = rs_read_bytes rs, write_bytes = rs_write_bytes rs,
           read_avg_lat = avg_lat (read_latency_queue an),
           write_avg_lat = avg_lat (write_latency_queue an), active_extent_num = active\<rparr>,
          an\<lparr>op_queue := [], read_latency_queue := [], write_latency_queue := [],
             last_byte_list := rs_last_bytes rs,
             active_extent_num_list := set_active_extent_num active (active_extent_num_list an)\<rparr>))"

subsection \<open>Placement\<close>

definition total_cover :: "AnalyzerReport \<Rightarrow> u64 \<Rightarrow> u64 \<Rightarrow> real" where
  "total_cover rp max_active i =
     (let read_score = the_default 0 (map_of (read_score_map rp) i);
          write_score = the_default 0 (map_of (write_score_map rp) i);
          read_cover = real (unat (read_score * max_active)) / (HDD_READ_IOPS * real_of_int INTERVAL * REPLICA);
          write_cover = real (unat (write_score * max_active)) / (HDD_WRITE_IOPS * real_of_int INTERVAL * REPLICA)
      in read_cover + write_cover)"

text \<open>\<open>map_size\<close> is read into an \<open>int\<close>, and the loop counter is an \<open>int\<close>.\<close>

definition tend_to :: "ExtentMap \<Rightarrow> AnalyzerReport \<Rightarrow> u64 list \<Rightarrow> int \<Rightarrow> u64 list" where
  "tend_to em rp active_list pool =
     (let n = sint (ucast (map_size em) :: u32);
          ids = map (\<lambda>i. of_nat i) [0..<nat n];
          mx = max_active_extent_num active_list
      in if pool = SSD_POOL then filter (\<lambda>i. 1 \<le> total_cover rp mx i) ids
         else filter (\<lambda>i. total_cover rp mx i < 1) ids)"

text \<open>One entry of the table: the new value and the pool it is proposed for.\<close>

definition place_entry :: "int \<Rightarrow> int \<Rightarrow> int \<times> int option" where
  "place_entry tend value =
     (if tend = SSD_POOL
      then (if value < 0
            then (if value < - 1 then (value + 1, None) else (value, Some SSD_POOL))
            else (if value < SSD_STRIDE then (SSD_STRIDE, None) else (value, None)))
      else (if value > 0
            then (if value > 1 then (value - 1, None) else (value, Some HDD_POOL))
            else (if value > HDD_STRIDE then (HDD_STRIDE, None) else (value, None))))"

type_synonym placement = "(int, u64 list) smap"

fun place_loop ::
    "u64 list \<Rightarrow> (u64, int) smap \<Rightarrow> (u64, int) smap \<times> u64 list \<times> u64 list" where
  "place_loop tend_to_ssd [] = ([], [], [])"
| "place_loop tend_to_ssd ((i, value) # m) =
     (let tend = (if list_ex (\<lambda>j. i = j) tend_to_ssd then SSD_POOL else HDD_POOL);
          (value', prop) = place_entry tend value;
          (m', hdd, ssd) = place_loop tend_to_ssd m
      in ((i, value') # m',
          (if prop = Some HDD_POOL then i # hdd else hdd),
          (if prop = Some SSD_POOL then i # ssd else ssd)))"

definition analyze_placement ::
    "ExtentMap \<Rightarrow> AnalyzerReport \<Rightarrow> u64 list \<Rightarrow> placement \<times> ExtentMap" where
  "analyze_placement em rp active_list =
     (let (m', hdd, ssd) = place_loop (tend_to em rp active_list SSD_POOL) (em_map em)
      in (smap_insert SSD_POOL ssd (smap_insert HDD_POOL hdd []), em\<lparr>em_map := m'\<rparr>))"

fun take_limited :: "u64 \<Rightarrow> u64 \<Rightarrow> u64 list \<Rightarrow> u64 list \<times> u64" where
  "take_limited mx counter [] = ([], counter)"
| "take_limited mx counter (x # xs) =
     (if counter < mx
      then (let (ys, c) = take_limited mx (counter + 1) xs in (x # ys, c))
      else ([], counter))"

definition filter_placement :: "u64 \<Rightarrow> placement \<Rightarrow> placement" where
  "filter_placement mx raw =
     (let (ssd, c) = take_limited mx 0 (fst (smap_at [] SSD_POOL raw));
          (hdd, _) = take_limited mx c (fst (smap_at [] HDD_POOL raw))
      in smap_insert SSD_POOL ssd (smap_insert HDD_POOL hdd []))"

text \<open>
  The start of a round of the analyzer thread: how long it sleeps, and the adjustment of the
  migration limit to the time that the last round took. A negative or zero time is not slept.
\<close>

definition round_start :: "int \<Rightarrow> Analyzer \<Rightarrow> int \<times> Analyzer" where
  "round_start analyze_time an =
     (let sleep_time = (if \<not> an_to_finilize an then INTERVAL - analyze_time else INTERVAL)
      in (sleep_time,
          if sleep_time > 0
          then (if sleep_time > 10 then an\<lparr>max_migration_num := max_migration_num an + 1\<rparr> else an)
          else an\<lparr>max_migration_num := max_migration_num an - 1\<rparr>))"


subsection \<open>Scores\<close>

lemma x_small_nonzero: "small_size t \<noteq> 0"
  by (simp add: small_size_def SMALL_READ_SIZE_def SMALL_WRITE_SIZE_def)

lemma long_score:
  assumes "0 < q"
  shows "(if 8 - ln (real q) / ln 2 < 0 then 0 else 2 powr (8 - ln (real q) / ln 2)) / 2 powr 8
    = (if 256 < q then 0 else 1 / real q)"
proof -
  have l: "ln (real q) / ln 2 = log 2 (real q)" by (simp add: log_def)
  have p: "2 powr log 2 (real q) = real q" using assms by simp
  have "8 < log 2 (real q) \<longleftrightarrow> 2 powr 8 < real q"
    using assms by (simp add: less_log_iff)
  also have "\<dots> \<longleftrightarrow> 256 < q" by simp
  finally have "8 - ln (real q) / ln 2 < 0 \<longleftrightarrow> 256 < q" by (simp add: l)
  then show ?thesis by (simp add: l powr_diff p)
qed

lemma of_nat_less_u64: "i < unat (n :: u64) \<Longrightarrow> unat (of_nat i :: u64) = i"
proof -
  assume "i < unat n"
  then have "i < 18446744073709551616" by (rule less_trans [OF _ unat_lt_u64])
  then show ?thesis by (simp add: unat_of_nat take_bit_nat_eq_self)
qed

text \<open>The score as an exact fraction.\<close>

lemma calculate_score_rat:
  "calculate_score lbl op =
     (if is_sequential lbl (op_off op) then 0
      else if op_len op \<le> small_size (op_type op) then 5 / 2
      else let q = unat (op_len op div small_size (op_type op))
           in if 256 < q then 0 else (5 / 2) / real q)"
proof (cases "is_sequential lbl (op_off op) \<or> op_len op \<le> small_size (op_type op)")
  case True
  then show ?thesis by (auto simp: calculate_score_def Let_def SLACKNESS_def)
next
  case False
  let ?x = "small_size (op_type op)"
  have "0 < unat ?x" "unat ?x \<le> unat (op_len op)"
    using False x_small_nonzero [of "op_type op"] by (auto simp: unat_pos_u64 word_le_nat_alt)
  then have pos: "0 < unat (op_len op div ?x)"
    by (simp add: unat_div div_greater_zero_iff)
  have "calculate_score lbl op =
      (if 8 - ln (real (unat (op_len op div ?x))) / ln 2 < 0 then 0
       else 2 powr (8 - ln (real (unat (op_len op div ?x))) / ln 2)) / 2 powr 8 / SLACKNESS"
    using False by (auto simp: calculate_score_def Let_def)
  then show ?thesis
    using False by (simp only: long_score [OF pos]) (simp add: SLACKNESS_def Let_def)
qed

lemma add_score_floor: "add_score s a = a + word_of_int \<lfloor>s\<rfloor>"
proof -
  have "\<lfloor>real (unat a) + s\<rfloor> = int (unat a) + \<lfloor>s\<rfloor>"
    by (metis floor_add_int add.commute of_int_of_nat_eq)
  then show ?thesis
    by (simp add: add_score_def)
qed

lemma floor_half5: "0 < q \<Longrightarrow> \<lfloor>(5 / 2) / real q\<rfloor> = (if q = 1 then 2 else if q = 2 then 1 else 0)"
proof -
  assume "0 < q"
  then consider "q = 1" | "q = 2" | "3 \<le> q" by linarith
  then show ?thesis
  proof cases
    case 3
    then have "(5 / 2) / real q < 1" "0 \<le> (5 / 2) / real q" by (simp_all add: field_simps)
    then have "\<lfloor>(5 / 2) / real q\<rfloor> = 0" by (simp add: floor_eq_iff)
    then show ?thesis using 3 by simp
  qed (simp_all add: floor_eq_iff)
qed

text \<open>What a request adds to the score of its extent, exactly: nothing when it is sequential;
  2 when it is shorter than two small requests (131072 bytes for a read, 65536 for a write);
  1 when it is shorter than three; nothing beyond that. The truncation to \<open>uint64_t\<close> swallows every
  fraction, so the logarithmic decay the score is computed with never shows from three times the
  small size on.\<close>

theorem score_increment:
  "add_score (calculate_score lbl op) a =
     (if is_sequential lbl (op_off op) then a
      else if unat (op_len op) < 2 * unat (small_size (op_type op)) then a + 2
      else if unat (op_len op) < 3 * unat (small_size (op_type op)) then a + 1
      else a)"
proof (cases "is_sequential lbl (op_off op) \<or> op_len op \<le> small_size (op_type op)")
  case True
  let ?x = "small_size (op_type op)"
  have "0 < unat ?x" using x_small_nonzero unat_pos_u64 by blast
  moreover have "op_len op \<le> ?x \<longrightarrow> unat (op_len op) \<le> unat ?x" by (simp add: word_le_nat_alt)
  moreover have "\<lfloor>5 / 2 :: real\<rfloor> = 2" by (simp add: floor_eq_iff)
  ultimately show ?thesis
    using True by (auto simp: add_score_floor calculate_score_rat)
next
  case False
  let ?x = "unat (small_size (op_type op))"
  let ?q = "unat (op_len op) div ?x"
  have x: "0 < ?x" "?x \<le> unat (op_len op)"
    using False x_small_nonzero [of "op_type op"] by (auto simp: unat_pos_u64 word_le_nat_alt)
  then have q: "0 < ?q" by (simp add: div_greater_zero_iff)
  have fl: "\<lfloor>if 256 < ?q then 0 else (5 / 2) / real ?q\<rfloor> = (if ?q = 1 then 2 else if ?q = 2 then 1 else 0)"
    using floor_half5 [OF q] by auto
  have "?q < 2 \<longleftrightarrow> unat (op_len op) < 2 * ?x" "?q < 3 \<longleftrightarrow> unat (op_len op) < 3 * ?x"
    using x by (simp_all add: div_less_iff_less_mult)
  then have "?q = 1 \<longleftrightarrow> unat (op_len op) < 2 * ?x"
    "?q \<noteq> 1 \<Longrightarrow> ?q = 2 \<longleftrightarrow> unat (op_len op) < 3 * ?x"
    using q by linarith+
  then show ?thesis
    using False fl by (simp add: add_score_floor calculate_score_rat Let_def unat_div)
qed

subsection \<open>Counts of a report\<close>

lemma init_score_map_lookup:
  "smap_ok (init_score_map n v) \<and> map_of (init_score_map n v) i = (if i < n then Some v else None)"
proof -
  let ?kvs = "map (\<lambda>i. (of_nat i :: u64, v)) [0..<unat n]"
  have inj: "inj_on (of_nat :: nat \<Rightarrow> u64) {0..<unat n}"
  proof (rule inj_onI)
    fix x y assume xy: "x \<in> {0..<unat n}" "y \<in> {0..<unat n}" "(of_nat x :: u64) = of_nat y"
    then have "x < unat n" "y < unat n" by simp_all
    then show "x = y" using arg_cong [OF xy(3), of unat] by (simp add: of_nat_less_u64)
  qed
  have eq: "init_score_map n v = fold (\<lambda>(k, v). smap_insert k v) ?kvs []"
    by (simp add: init_score_map_def fold_map comp_def)
  have dist: "distinct (map fst ?kvs)"
    using inj by (simp add: comp_def distinct_map)
  have "map_of (init_score_map n v) = map_of ?kvs"
    using sm.find_fold_ins_emp [OF dist] eq by simp
  moreover have "map_of ?kvs i = (if i < n then Some v else None)"
  proof (cases "i < n")
    case True
    then have "(i, v) \<in> set ?kvs"
      by (auto simp: word_less_nat_alt image_iff intro!: bexI [of _ "unat i"])
    with dist True show ?thesis by (simp add: map_of_eq_Some_iff)
  next
    case False
    have "i \<notin> fst ` set ?kvs"
    proof
      assume "i \<in> fst ` set ?kvs"
      then obtain k where k: "k < unat n" "i = of_nat k" by auto
      then have "unat i = k" by (simp add: of_nat_less_u64)
      with k False show False by (simp add: word_less_nat_alt)
    qed
    with False show ?thesis by (simp add: map_of_eq_None_iff)
  qed
  moreover have "smap_ok (init_score_map n v)"
    unfolding eq by (rule sm.valid_fold_ins) simp
  ultimately show ?thesis by simp
qed

lemma length_set_last_byte:
  "length l \<le> LAST_BYTE_LIST_SIZE \<Longrightarrow> length (set_last_byte b l) \<le> LAST_BYTE_LIST_SIZE"
  by (auto simp: set_last_byte_def LAST_BYTE_LIST_SIZE_def)

lemma length_set_active:
  "length l \<le> ACTIVE_EXTENT_NUM_LIST_SIZE \<Longrightarrow>
     length (set_active_extent_num b l) \<le> ACTIVE_EXTENT_NUM_LIST_SIZE"
  by (auto simp: set_active_extent_num_def ACTIVE_EXTENT_NUM_LIST_SIZE_def)

lemma max_active_fold: "fold (\<lambda>x mx. if mx < x then x else mx) l (k :: u64) = fold max l k"
  by (rule fold_cong) (auto simp: fun_eq_iff max_def)

lemma max_active_extent_num_Max:
  "(\<forall>x \<in> set l. x \<le> max_active_extent_num l) \<and> (l = [] \<or> max_active_extent_num l \<in> set l)"
proof -
  have "max_active_extent_num l = Max (set (0 # l))"
    unfolding max_active_extent_num_def max_active_fold by (rule Max.set_eq_fold [symmetric])
  moreover have "l \<noteq> [] \<Longrightarrow> Max (set (0 # l)) \<in> set l"
    using Max_in [of "set l"] by (simp add: max_def del: Max_in)
  moreover have "x \<le> Max (set (0 # l))" if "x \<in> set l" for x
    using that by (intro Max_ge) simp_all
  ultimately show ?thesis by metis
qed

definition is_read :: "AnalyzerOp \<Rightarrow> bool" where
  "is_read op \<longleftrightarrow> op_type op = READ_OP"

lemma report_op_counts:
  "rs_ran_reads (report_op em op rs) + rs_seq_reads (report_op em op rs)
     = rs_ran_reads rs + rs_seq_reads rs + (if is_read op then 1 else 0)"
  "rs_ran_writes (report_op em op rs) + rs_seq_writes (report_op em op rs)
     = rs_ran_writes rs + rs_seq_writes rs + (if is_read op then 0 else 1)"
  by (simp_all add: report_op_def count_op_def score_op_def Let_def is_read_def)

lemma report_op_active:
  "rs_active (report_op em op rs) =
     (if op_off op div extent_size em < map_size em
      then smap_put (op_off op div extent_size em) True (rs_active rs) else rs_active rs)"
  by (simp add: report_op_def count_op_def score_op_def Let_def)

lemma report_op_last_bytes:
  "rs_last_bytes (report_op em op rs) = set_last_byte (op_off op + op_len op) (rs_last_bytes rs)"
  by (simp add: report_op_def count_op_def score_op_def Let_def)

lemma fold_report_counts:
  "rs_ran_reads (fold (report_op em) ops rs) + rs_seq_reads (fold (report_op em) ops rs)
     = rs_ran_reads rs + rs_seq_reads rs + of_nat (length (filter is_read ops))"
  "rs_ran_writes (fold (report_op em) ops rs) + rs_seq_writes (fold (report_op em) ops rs)
     = rs_ran_writes rs + rs_seq_writes rs + of_nat (length (filter (\<lambda>op. \<not> is_read op) ops))"
  by (induction ops arbitrary: rs) (simp_all add: report_op_counts)

lemma fold_report_active:
  "map_of (rs_active (fold (report_op em) ops rs)) i =
     (if i < map_size em \<and> (\<exists>op \<in> set ops. op_off op div extent_size em = i) then Some True
      else map_of (rs_active rs) i)"
  by (induction ops arbitrary: rs) (auto simp: report_op_active)

lemma fold_report_last_bytes:
  "length (rs_last_bytes rs) \<le> LAST_BYTE_LIST_SIZE \<Longrightarrow>
     length (rs_last_bytes (fold (report_op em) ops rs)) \<le> LAST_BYTE_LIST_SIZE"
  by (induction ops arbitrary: rs) (simp_all add: report_op_last_bytes length_set_last_byte)

definition an_ok :: "Analyzer \<Rightarrow> bool" where
  "an_ok an \<longleftrightarrow> length (last_byte_list an) \<le> LAST_BYTE_LIST_SIZE \<and>
     length (active_extent_num_list an) \<le> ACTIVE_EXTENT_NUM_LIST_SIZE"

definition touched :: "ExtentMap \<Rightarrow> AnalyzerOp list \<Rightarrow> nat set" where
  "touched em ops = {i. i < unat (map_size em) \<and> (\<exists>op \<in> set ops. unat (op_off op div extent_size em) = i)}"

lemma active_filter:
  "filter (\<lambda>i. the_default False (map_of (rs_active (fold (report_op em) ops (init_report em lbl))) (of_nat i)))
      [0..<unat (map_size em)]
   = filter (\<lambda>i. \<exists>op \<in> set ops. unat (op_off op div extent_size em) = i) [0..<unat (map_size em)]"
proof (rule filter_cong [OF refl])
  fix i assume "i \<in> set [0..<unat (map_size em)]"
  then have i: "i < unat (map_size em)" by simp
  let ?i = "of_nat i :: u64"
  have u: "unat ?i = i" by (rule of_nat_less_u64 [OF i])
  then have lt: "?i < map_size em" using i by (simp add: word_less_nat_alt)
  have ex: "(\<exists>op \<in> set ops. op_off op div extent_size em = ?i)
      \<longleftrightarrow> (\<exists>op \<in> set ops. unat (op_off op div extent_size em) = i)"
    using u by (metis word_unat_eq_iff)
  have "map_of (rs_active (init_report em lbl)) ?i = Some False"
    using lt init_score_map_lookup [of "map_size em" False ?i] by (simp add: init_report_def)
  then show "the_default False (map_of (rs_active (fold (report_op em) ops (init_report em lbl))) ?i)
      = (\<exists>op \<in> set ops. unat (op_off op div extent_size em) = i)"
    using lt ex by (simp add: fold_report_active)
qed

lemma create_report_simps:
  "fst (create_report em an) =
    (let rs = fold (report_op em) (op_queue an) (init_report em (last_byte_list an)) in
     \<lparr>read_score_map = rs_read_score rs, write_score_map = rs_write_score rs,
           ran_reads = rs_ran_reads rs, ran_writes = rs_ran_writes rs,
           seq_reads = rs_seq_reads rs, seq_writes = rs_seq_writes rs,
           read_bytes = rs_read_bytes rs, write_bytes = rs_write_bytes rs,
           read_avg_lat = avg_lat (read_latency_queue an),
           write_avg_lat = avg_lat (write_latency_queue an),
           active_extent_num = of_nat (length (filter (\<lambda>i. \<exists>op \<in> set (op_queue an).
              unat (op_off op div extent_size em) = i) [0..<unat (map_size em)]))\<rparr>)"
  by (simp add: create_report_def Let_def active_filter)

text \<open>A report accounts for every request of the queue once: reads and writes are counted, each
  as sequential or random, the active extents are exactly the extents of the image that some
  request of the round starts in, the queues are drained, and the two history lists keep their
  bounds of 16 and 10.\<close>

theorem create_report_accounts:
  assumes "an_ok an" "create_report em an = (rp, an')"
  shows "ran_reads rp + seq_reads rp = of_nat (length (filter is_read (op_queue an)))
    \<and> ran_writes rp + seq_writes rp = of_nat (length (filter (\<lambda>op. \<not> is_read op) (op_queue an)))
    \<and> unat (active_extent_num rp) = card (touched em (op_queue an))
    \<and> an_ok an' \<and> op_queue an' = [] \<and> read_latency_queue an' = [] \<and> write_latency_queue an' = []
    \<and> max_migration_num an' = max_migration_num an"
proof -
  have rp: "rp = fst (create_report em an)" and an': "an' = snd (create_report em an)"
    using assms(2) by simp_all
  let ?f = "filter (\<lambda>i. \<exists>op \<in> set (op_queue an). unat (op_off op div extent_size em) = i)
              [0..<unat (map_size em)]"
  have "length ?f \<le> unat (map_size em)"
    using length_filter_le [of _ "[0..<unat (map_size em)]"] by simp
  then have small: "length ?f < 2 ^ 64"
    using le_less_trans [OF _ unat_lt_u64 [of "map_size em"]] by simp
  have "set ?f = touched em (op_queue an)" by (auto simp: touched_def)
  then have "length ?f = card (touched em (op_queue an))"
    using distinct_card [of ?f] by simp
  then have "unat (active_extent_num rp) = card (touched em (op_queue an))"
    using small by (simp add: rp create_report_simps Let_def unat_of_nat take_bit_nat_eq_self)
  moreover have "an_ok an'"
    using assms(1) by (simp add: an' create_report_def Let_def an_ok_def length_set_active
        fold_report_last_bytes init_report_def)
  moreover have "ran_reads rp + seq_reads rp = of_nat (length (filter is_read (op_queue an)))"
    "ran_writes rp + seq_writes rp = of_nat (length (filter (\<lambda>op. \<not> is_read op) (op_queue an)))"
    by (simp_all add: rp create_report_simps Let_def fold_report_counts) (simp_all add: init_report_def)
  moreover have "op_queue an' = [] \<and> read_latency_queue an' = [] \<and> write_latency_queue an' = []
    \<and> max_migration_num an' = max_migration_num an"
    by (simp add: an' create_report_def Let_def)
  ultimately show ?thesis by blast
qed

definition analyzer_0 :: Analyzer where
  "analyzer_0 = \<lparr>op_queue = [\<lparr>op_type = READ_OP, op_off = 0, op_len = 4096\<rparr>,
      \<lparr>op_type = WRITE_OP, op_off = 9000000, op_len = 4096\<rparr>],
     read_latency_queue = [5], write_latency_queue = [], last_byte_list = [],
     max_migration_num = MAX_MIGRATION, active_extent_num_list = [], an_to_finilize = False\<rparr>"

lemma create_report_accounts_witness:
  "\<exists>rp an'. create_report table_3 analyzer_0 = (rp, an') \<and>
     ran_reads rp + seq_reads rp = 1 \<and> ran_writes rp + seq_writes rp = 1 \<and> op_queue an' = []"
proof -
  obtain rp an' where e: "create_report table_3 analyzer_0 = (rp, an')" by fastforce
  have ok: "an_ok analyzer_0"
    by (simp add: an_ok_def analyzer_0_def LAST_BYTE_LIST_SIZE_def ACTIVE_EXTENT_NUM_LIST_SIZE_def)
  have q: "length (filter is_read (op_queue analyzer_0)) = 1"
    "length (filter (\<lambda>op. \<not> is_read op) (op_queue analyzer_0)) = 1"
    by (simp_all add: analyzer_0_def is_read_def READ_OP_def WRITE_OP_def)
  show ?thesis
    using create_report_accounts [OF ok e] e unfolding q by auto
qed


subsection \<open>Where an extent tends\<close>

text \<open>The rational form of the comparison with 1: the denominators are 20400 and 16800.\<close>

lemma total_cover_rat:
  "1 \<le> total_cover rp mx i \<longleftrightarrow>
     20400 * 16800 \<le> 16800 * unat (the_default 0 (map_of (read_score_map rp) i) * mx)
                   + 20400 * unat (the_default 0 (map_of (write_score_map rp) i) * mx)"
proof -
  have d: "HDD_READ_IOPS * real_of_int INTERVAL * REPLICA = 20400"
    "HDD_WRITE_IOPS * real_of_int INTERVAL * REPLICA = 16800"
    by (simp_all add: HDD_READ_IOPS_def HDD_WRITE_IOPS_def SLACKNESS_def INTERVAL_def REPLICA_def)
  have "1 \<le> real a / 20400 + real b / 16800 \<longleftrightarrow> 20400 * 16800 \<le> 16800 * a + 20400 * b" for a b :: nat
  proof -
    have "1 \<le> real a / 20400 + real b / 16800 \<longleftrightarrow>
        real (20400 * 16800) \<le> real (16800 * a + 20400 * b)"
      by (intro iffI; simp add: field_simps; linarith)
    then show ?thesis by (simp only: of_nat_le_iff)
  qed
  then show ?thesis by (simp only: total_cover_def Let_def d)
qed

lemma sint_small:
  assumes "map_size em < 0x80000000"
  shows "nat (sint (ucast (map_size em) :: u32)) = unat (map_size em)"
proof -
  have lt: "unat (map_size em) < 2147483648"
    using assms by (simp add: word_less_nat_alt)
  then have u: "unat (ucast (map_size em) :: u32) = unat (map_size em)"
    by (simp add: unsigned_ucast_eq take_bit_nat_eq_self)
  let ?w = "ucast (map_size em) :: u32"
  have ui: "uint ?w = int (unat (map_size em))"
    using arg_cong [OF u, of int] by simp
  have "sint ?w = signed_take_bit 31 (uint ?w)" by (simp add: sint_uint)
  also have "\<dots> = uint ?w"
  proof -
    have "signed_take_bit 31 (int n) = int n" if "n < 2147483648" for n :: nat
      by (rule signed_take_bit_int_eq_self) (use that in simp_all)
    from this [OF lt] show ?thesis by (simp only: ui)
  qed
  finally show ?thesis using ui by simp
qed

lemma tend_to_member:
  assumes "map_size em < 0x80000000"
  shows "i \<in> set (tend_to em rp al SSD_POOL) \<longleftrightarrow>
           i < map_size em \<and> 1 \<le> total_cover rp (max_active_extent_num al) i"
    and "i \<in> set (tend_to em rp al HDD_POOL) \<longleftrightarrow>
           i < map_size em \<and> \<not> 1 \<le> total_cover rp (max_active_extent_num al) i"
proof -
  have "i \<in> (\<lambda>i. of_nat i) ` {0..<unat (map_size em)} \<longleftrightarrow> i < map_size em"
    by (auto simp: word_less_nat_alt of_nat_less_u64 image_iff intro!: bexI [of _ "unat i"])
  then show "i \<in> set (tend_to em rp al SSD_POOL) \<longleftrightarrow>
           i < map_size em \<and> 1 \<le> total_cover rp (max_active_extent_num al) i"
    "i \<in> set (tend_to em rp al HDD_POOL) \<longleftrightarrow>
           i < map_size em \<and> \<not> 1 \<le> total_cover rp (max_active_extent_num al) i"
    by (auto simp: tend_to_def Let_def sint_small [OF assms] whobbs_consts not_le)
qed

text \<open>Each extent of the image tends to exactly one pool, and to the SSD pool exactly when its
  scores, weighted with the largest number of active extents seen in the last ten rounds, cover
  the capacity of the HDDs: 16800 read + 20400 write units against 20400 * 16800.\<close>

theorem tend_to_partition:
  assumes "map_size em < 0x80000000" "i < map_size em"
  shows "(i \<in> set (tend_to em rp al SSD_POOL)) \<noteq> (i \<in> set (tend_to em rp al HDD_POOL)) \<and>
    (i \<in> set (tend_to em rp al SSD_POOL) \<longleftrightarrow>
       20400 * 16800 \<le>
         16800 * unat (the_default 0 (map_of (read_score_map rp) i) * max_active_extent_num al)
         + 20400 * unat (the_default 0 (map_of (write_score_map rp) i) * max_active_extent_num al))"
  using tend_to_member [OF assms(1)] assms(2) total_cover_rat by blast

definition report_hot1 :: AnalyzerReport where
  "report_hot1 = \<lparr>read_score_map = [(0, 0), (1, 21000)], write_score_map = [(0, 0), (1, 0)],
     ran_reads = 10500, ran_writes = 0, seq_reads = 0, seq_writes = 0, read_bytes = 0, write_bytes = 0,
     read_avg_lat = 0, write_avg_lat = 0, active_extent_num = 1\<rparr>"

lemma tend_to_partition_witness:
  "1 \<in> set (tend_to table_3 report_hot1 [1] SSD_POOL) \<and> 1 \<notin> set (tend_to table_3 report_hot1 [1] HDD_POOL)"
proof -
  have "map_size table_3 < 0x80000000" "1 < map_size table_3"
    by (simp_all add: table_3_def)
  note part = tend_to_partition [OF this, of report_hot1 "[1]"]
  have "20400 * 16800 \<le>
         16800 * unat (the_default 0 (map_of (read_score_map report_hot1) 1) * max_active_extent_num [1])
         + 20400 * unat (the_default 0 (map_of (write_score_map report_hot1) 1) * max_active_extent_num [1])"
    by (simp add: report_hot1_def max_active_extent_num_def)
  with part show ?thesis by blast
qed

subsection \<open>The hysteresis of one extent\<close>

definition value_range :: "int \<Rightarrow> bool" where
  "value_range v \<longleftrightarrow> HDD_STRIDE \<le> v \<and> v \<le> SSD_STRIDE"

lemma place_entry_range:
  "value_range v \<Longrightarrow> value_range (fst (place_entry t v)) \<and> fst (place_entry t v) \<noteq> 0"
  by (auto simp: place_entry_def value_range_def whobbs_consts)

lemma place_entry_propose:
  "snd (place_entry t v) = Some SSD_POOL \<longleftrightarrow> t = SSD_POOL \<and> v = - 1"
  "snd (place_entry t v) = Some HDD_POOL \<longleftrightarrow> t \<noteq> SSD_POOL \<and> v = 1"
  by (auto simp: place_entry_def whobbs_consts)

lemma place_entry_side:
  "v \<noteq> 0 \<Longrightarrow> 0 < fst (place_entry t v) \<longleftrightarrow> 0 < v"
  "v < 0 \<Longrightarrow> fst (place_entry t v) < 0"
  by (auto simp: place_entry_def whobbs_consts)

text \<open>The value after the rounds \<open>tends\<close>, without a migration in between.\<close>

definition place_run :: "int \<Rightarrow> int list \<Rightarrow> int" where
  "place_run v tends = fold (\<lambda>t v. fst (place_entry t v)) tends v"

text \<open>How many of the last rounds in a row satisfied a condition.\<close>

definition streak :: "(int \<Rightarrow> bool) \<Rightarrow> int list \<Rightarrow> int" where
  "streak P tends = int (length (takeWhile P (rev tends)))"

lemma place_run_snoc: "place_run v (ts @ [t]) = fst (place_entry t (place_run v ts))"
  by (simp add: place_run_def)

lemma streak_simps [simp]:
  "streak P [] = 0" "streak P (ts @ [t]) = (if P t then 1 + streak P ts else 0)"
  by (simp_all add: streak_def)

lemma streak_nonneg: "0 \<le> streak P ts"
  by (simp add: streak_def)

lemma place_run_hdd: "place_run HDD_STRIDE ts = min (- 1) (HDD_STRIDE + streak (\<lambda>t. t = SSD_POOL) ts)"
proof (induction ts rule: rev_induct)
  case Nil
  then show ?case by (simp add: place_run_def whobbs_consts)
next
  case (snoc t ts)
  have "0 \<le> streak (\<lambda>t. t = SSD_POOL) ts" by (rule streak_nonneg)
  then show ?case
    using snoc by (auto simp: place_run_snoc place_entry_def whobbs_consts min_def)
qed

lemma place_run_ssd: "place_run SSD_STRIDE ts = max 1 (SSD_STRIDE - streak (\<lambda>t. t \<noteq> SSD_POOL) ts)"
proof (induction ts rule: rev_induct)
  case Nil
  then show ?case by (simp add: place_run_def whobbs_consts)
next
  case (snoc t ts)
  have "0 \<le> streak (\<lambda>t. t \<noteq> SSD_POOL) ts" by (rule streak_nonneg)
  then show ?case
    using snoc by (auto simp: place_run_snoc place_entry_def whobbs_consts max_def)
qed

text \<open>The hysteresis: an extent that was just put on the HDD pool is proposed for the SSD pool
  in a round exactly when it tended there in that round and the two rounds before it without a
  break; an extent just put on the SSD pool is proposed for the HDD pool exactly when it tended
  there five rounds in a row. So a single hot or cold round moves nothing.\<close>

theorem placement_hysteresis:
  "(snd (place_entry t (place_run HDD_STRIDE ts)) = Some SSD_POOL
      \<longleftrightarrow> 3 \<le> streak (\<lambda>t. t = SSD_POOL) (ts @ [t])) \<and>
   (snd (place_entry t (place_run SSD_STRIDE ts)) = Some HDD_POOL
      \<longleftrightarrow> 5 \<le> streak (\<lambda>t. t \<noteq> SSD_POOL) (ts @ [t])) \<and>
   snd (place_entry t (place_run HDD_STRIDE ts)) \<noteq> Some HDD_POOL \<and>
   snd (place_entry t (place_run SSD_STRIDE ts)) \<noteq> Some SSD_POOL"
proof -
  have "0 \<le> streak (\<lambda>t. t = SSD_POOL) ts" "0 \<le> streak (\<lambda>t. t \<noteq> SSD_POOL) ts"
    by (rule streak_nonneg)+
  then show ?thesis
    unfolding place_run_hdd place_run_ssd place_entry_propose
    by (simp add: HDD_STRIDE_def SSD_STRIDE_def) linarith
qed

subsection \<open>The whole table\<close>

definition tend_of :: "u64 list \<Rightarrow> u64 \<Rightarrow> int" where
  "tend_of T i = (if i \<in> set T then SSD_POOL else HDD_POOL)"

lemma place_loop_char:
  "place_loop T m =
     (map (\<lambda>(i, v). (i, fst (place_entry (tend_of T i) v))) m,
      map fst (filter (\<lambda>(i, v). i \<notin> set T \<and> v = 1) m),
      map fst (filter (\<lambda>(i, v). i \<in> set T \<and> v = - 1) m))"
proof (induction m)
  case Nil
  then show ?case by simp
next
  case (Cons p m)
  obtain i v where p: "p = (i, v)" by (cases p)
  have t: "(if list_ex (\<lambda>j. i = j) T then SSD_POOL else HDD_POOL) = tend_of T i"
    by (auto simp: tend_of_def list_ex_iff)
  obtain v' pr where e: "place_entry (tend_of T i) v = (v', pr)" by fastforce
  have "tend_of T i = SSD_POOL \<longleftrightarrow> i \<in> set T" by (simp add: tend_of_def whobbs_consts)
  then have "pr = Some SSD_POOL \<longleftrightarrow> i \<in> set T \<and> v = - 1" "pr = Some HDD_POOL \<longleftrightarrow> i \<notin> set T \<and> v = 1"
    using place_entry_propose [of "tend_of T i" v] by (simp_all add: e)
  then show ?case
    unfolding p place_loop.simps Let_def t Cons.IH e by (simp add: e)
qed

lemma smap_ok_map_values: "smap_ok (map (\<lambda>(i, v). (i, f i v)) m) \<longleftrightarrow> smap_ok m"
  by (simp add: smap_ok_def case_prod_beta' comp_def)

lemma map_of_map_values: "map_of (map (\<lambda>(i, v). (i, f i v)) m) i = map_option (f i) (map_of m i)"
  by (induction m) auto

lemma placement_lookup:
  "fst (smap_at [] SSD_POOL (smap_insert SSD_POOL ssd (smap_insert HDD_POOL hdd []))) = ssd"
  "fst (smap_at [] HDD_POOL (smap_insert SSD_POOL ssd (smap_insert HDD_POOL hdd []))) = hdd"
  by (simp_all add: smap_at_def whobbs_consts)

abbreviation proposed :: "int \<Rightarrow> placement \<Rightarrow> u64 list" where
  "proposed pool pl \<equiv> fst (smap_at [] pool pl)"

lemma analyze_placement_result:
  assumes "analyze_placement em rp al = (pl, em')"
  shows "em_map em' = map (\<lambda>(i, v). (i, fst (place_entry (tend_of (tend_to em rp al SSD_POOL) i) v))) (em_map em)"
    "extent_size em' = extent_size em" "map_size em' = map_size em"
    "proposed SSD_POOL pl = map fst (filter (\<lambda>(i, v). i \<in> set (tend_to em rp al SSD_POOL) \<and> v = - 1) (em_map em))"
    "proposed HDD_POOL pl = map fst (filter (\<lambda>(i, v). i \<notin> set (tend_to em rp al SSD_POOL) \<and> v = 1) (em_map em))"
proof -
  let ?T = "tend_to em rp al SSD_POOL"
  show "em_map em' = map (\<lambda>(i, v). (i, fst (place_entry (tend_of ?T i) v))) (em_map em)"
    "extent_size em' = extent_size em" "map_size em' = map_size em"
    using assms by (auto simp: analyze_placement_def place_loop_char)
  have "pl = smap_insert SSD_POOL (map fst (filter (\<lambda>(i, v). i \<in> set ?T \<and> v = - 1) (em_map em)))
      (smap_insert HDD_POOL (map fst (filter (\<lambda>(i, v). i \<notin> set ?T \<and> v = 1) (em_map em))) [])"
    using assms by (simp only: analyze_placement_def place_loop_char prod.case prod.inject Let_def)
  then show "proposed SSD_POOL pl = map fst (filter (\<lambda>(i, v). i \<in> set ?T \<and> v = - 1) (em_map em))"
    "proposed HDD_POOL pl = map fst (filter (\<lambda>(i, v). i \<notin> set ?T \<and> v = 1) (em_map em))"
    by (simp_all only: placement_lookup)
qed

text \<open>\<open>analyze_placement\<close> keeps the table: the same extents, every value between -3 and 5 and
  none of them 0, no extent changes sides, and it proposes exactly the extents at -1 that tend to
  the SSD pool and the extents at 1 that do not - so never an extent for the pool it is in.\<close>

theorem analyze_placement_table:
  assumes "em_ok em" "\<forall>v \<in> snd ` set (em_map em). value_range v"
    "analyze_placement em rp al = (pl, em')"
  shows "em_ok em' \<and> map fst (em_map em') = map fst (em_map em)
    \<and> (\<forall>v \<in> snd ` set (em_map em'). value_range v \<and> v \<noteq> 0)
    \<and> (\<forall>i v. map_of (em_map em) i = Some v \<and> v \<noteq> 0 \<longrightarrow>
          (\<exists>v'. map_of (em_map em') i = Some v' \<and> (0 < v' \<longleftrightarrow> 0 < v)))
    \<and> (\<forall>i. i \<in> set (proposed SSD_POOL pl) \<longleftrightarrow>
          map_of (em_map em) i = Some (- 1) \<and> i \<in> set (tend_to em rp al SSD_POOL))
    \<and> (\<forall>i. i \<in> set (proposed HDD_POOL pl) \<longleftrightarrow>
          map_of (em_map em) i = Some 1 \<and> i \<notin> set (tend_to em rp al SSD_POOL))"
proof -
  let ?T = "tend_to em rp al SSD_POOL"
  let ?f = "\<lambda>i v. fst (place_entry (tend_of ?T i) v)"
  note m' = analyze_placement_result(1) [OF assms(3)] and es = analyze_placement_result(2) [OF assms(3)]
    and pl = analyze_placement_result(4,5) [OF assms(3)]
  have d: "distinct (map fst (em_map em))"
    using assms(1) by (simp add: em_ok_def smap_ok_distinct)
  have mem: "map_of (em_map em) i = Some v \<longleftrightarrow> (i, v) \<in> set (em_map em)" for i v
    using d by (simp add: map_of_eq_Some_iff)
  have "em_ok em'" using assms(1) by (simp add: em_ok_def m' es smap_ok_map_values)
  moreover have "map fst (em_map em') = map fst (em_map em)"
    by (simp add: m' case_prod_beta' comp_def)
  moreover have "\<forall>v \<in> snd ` set (em_map em'). value_range v \<and> v \<noteq> 0"
  proof
    fix w assume "w \<in> snd ` set (em_map em')"
    then obtain i v where "(i, v) \<in> set (em_map em)" "w = ?f i v" by (auto simp: m')
    then show "value_range w \<and> w \<noteq> 0" using assms(2) place_entry_range by force
  qed
  moreover have "\<forall>i v. map_of (em_map em) i = Some v \<and> v \<noteq> 0 \<longrightarrow>
          (\<exists>v'. map_of (em_map em') i = Some v' \<and> (0 < v' \<longleftrightarrow> 0 < v))"
    by (simp add: m' map_of_map_values place_entry_side)
  moreover have "i \<in> fst ` {x \<in> set (em_map em). case x of (j, v) \<Rightarrow> P j \<and> v = w} \<longleftrightarrow>
      map_of (em_map em) i = Some w \<and> P i" for i P w
    by (force simp: mem image_iff)
  ultimately show ?thesis by (simp add: pl)
qed

lemma analyze_placement_table_witness:
  "\<exists>pl em'. analyze_placement (table_3\<lparr>em_map := [(0, - 3), (1, - 1), (2, 1)]\<rparr>) report_hot1 [1] = (pl, em')
    \<and> 1 \<in> set (proposed SSD_POOL pl) \<and> 2 \<in> set (proposed HDD_POOL pl)"
proof -
  let ?em = "table_3\<lparr>em_map := [(0, - 3), (1, - 1), (2, 1)]\<rparr>"
  obtain pl em' where e: "analyze_placement ?em report_hot1 [1] = (pl, em')" by fastforce
  have ok: "em_ok ?em" "\<forall>v \<in> snd ` set (em_map ?em). value_range v"
    by (simp_all add: em_ok_def table_3_def value_range_def whobbs_consts)
  have t: "map_size ?em < 0x80000000" by (simp add: table_3_def)
  have "1 \<in> set (tend_to ?em report_hot1 [1] SSD_POOL)" "2 \<notin> set (tend_to ?em report_hot1 [1] SSD_POOL)"
    unfolding tend_to_member [OF t] total_cover_rat
    by (simp_all add: table_3_def report_hot1_def max_active_extent_num_def)
  then show ?thesis
    using analyze_placement_table [OF ok e] e by auto
qed

subsection \<open>The migration limit\<close>

lemma take_limited_char:
  "c \<le> mx \<Longrightarrow> take_limited mx c xs
     = (take (unat mx - unat c) xs, c + of_nat (min (unat mx - unat c) (length xs)))"
proof (induction mx c xs rule: take_limited.induct)
  case (1 mx c)
  then show ?case by simp
next
  case (2 mx c x xs)
  show ?case
  proof (cases "c < mx")
    case True
    have "unat c + unat (1 :: u64) \<le> unat mx" using True by (simp add: word_less_nat_alt)
    then have u: "unat (c + 1) = unat c + 1" using unat_add_bound [of c 1 mx] by simp
    then have le: "c + 1 \<le> mx" using True by (simp add: word_le_nat_alt word_less_nat_alt)
    obtain k where k: "unat mx - unat c = Suc k" "unat mx - unat (c + 1) = k"
      using True u by (metis Suc_diff_Suc word_less_nat_alt add.commute plus_1_eq_Suc)
    show ?thesis
      using True "2.IH" [OF True le] k by (simp add: min_def)
  next
    case False
    then show ?thesis using "2.prems" by simp
  qed
qed

lemma filter_placement_takes:
  "proposed SSD_POOL (filter_placement mx raw) = take (unat mx) (proposed SSD_POOL raw)"
  "proposed HDD_POOL (filter_placement mx raw) = take (unat mx - length (proposed SSD_POOL raw)) (proposed HDD_POOL raw)"
proof -
  let ?s = "proposed SSD_POOL raw" and ?h = "proposed HDD_POOL raw"
  let ?c = "of_nat (min (unat mx) (length ?s)) :: u64"
  have s: "take_limited mx 0 ?s = (take (unat mx) ?s, ?c)"
    by (simp add: take_limited_char)
  have c: "unat ?c = min (unat mx) (length ?s)"
    using le_less_trans [OF min.cobounded1 unat_lt_u64 [of mx], of "length ?s"]
    by (simp add: unat_of_nat take_bit_nat_eq_self)
  then have "?c \<le> mx" by (simp add: word_le_nat_alt)
  moreover have "unat mx - unat ?c = unat mx - length ?s" unfolding c by simp
  ultimately have h: "fst (take_limited mx ?c ?h) = take (unat mx - length ?s) ?h"
    by (simp only: take_limited_char fst_conv)
  have "filter_placement mx raw = smap_insert SSD_POOL (take (unat mx) ?s)
      (smap_insert HDD_POOL (take (unat mx - length ?s) ?h) [])"
    unfolding filter_placement_def s Let_def prod.case by (simp only: case_prod_beta' h)
  then show "proposed SSD_POOL (filter_placement mx raw) = take (unat mx) ?s"
    "proposed HDD_POOL (filter_placement mx raw) = take (unat mx - length ?s) ?h"
    by (simp_all only: placement_lookup)
qed

text \<open>C40. \<open>filter_placement\<close> keeps prefixes of the two proposed lists, at most \<open>max_migration_num\<close>
  extents in all, with priority to the SSD pool: an extent is left for the HDD pool only if every
  extent proposed for the SSD pool is kept, and extents are dropped only if the limit is reached.\<close>

theorem filter_placement_limit:
  "\<exists>n k. proposed SSD_POOL (filter_placement mx raw) = take n (proposed SSD_POOL raw)
     \<and> proposed HDD_POOL (filter_placement mx raw) = take k (proposed HDD_POOL raw)
     \<and> n = unat mx \<and> k = unat mx - length (proposed SSD_POOL raw)
     \<and> length (proposed SSD_POOL (filter_placement mx raw))
         + length (proposed HDD_POOL (filter_placement mx raw))
       = min (unat mx) (length (proposed SSD_POOL raw) + length (proposed HDD_POOL raw))"
proof -
  let ?s = "proposed SSD_POOL raw" and ?h = "proposed HDD_POOL raw"
  have "length (take (unat mx) ?s) + length (take (unat mx - length ?s) ?h)
      = min (unat mx) (length ?s + length ?h)"
    by simp
  then show ?thesis unfolding filter_placement_takes by blast
qed

end
