(* ===== verification/Rbd_Types.thy ===== *)
theory Rbd_Types
  imports Prelude
begin

text \<open>
  Numbers shared by librbd and its object class: the special snapshot ids of \<open>include/rados.h\<close>, the
  features of an image (\<open>include/rbd/features.h\<close>) and the protection states of a snapshot
  (\<open>include/rbd_types.h\<close>).
\<close>

definition CEPH_NOSNAP :: u64 where "CEPH_NOSNAP = - 2"
definition CEPH_MAXSNAP :: u64 where "CEPH_MAXSNAP = - 3"
definition RBD_FEATURE_LAYERING :: u64 where "RBD_FEATURE_LAYERING = 1"
definition RBD_FEATURE_STRIPINGV2 :: u64 where "RBD_FEATURE_STRIPINGV2 = 2"
definition RBD_FEATURES_INCOMPATIBLE :: u64 where
  "RBD_FEATURES_INCOMPATIBLE = RBD_FEATURE_LAYERING OR RBD_FEATURE_STRIPINGV2"
definition RBD_FEATURES_ALL :: u64 where
  "RBD_FEATURES_ALL = RBD_FEATURE_LAYERING OR RBD_FEATURE_STRIPINGV2"
definition RBD_PROTECTION_STATUS_UNPROTECTED :: u8 where "RBD_PROTECTION_STATUS_UNPROTECTED = 0"
definition RBD_PROTECTION_STATUS_UNPROTECTING :: u8 where "RBD_PROTECTION_STATUS_UNPROTECTING = 1"
definition RBD_PROTECTION_STATUS_PROTECTED :: u8 where "RBD_PROTECTION_STATUS_PROTECTED = 2"
definition RBD_PROTECTION_STATUS_LAST :: u8 where "RBD_PROTECTION_STATUS_LAST = 3"

lemmas rbd_consts = CEPH_NOSNAP_def CEPH_MAXSNAP_def RBD_FEATURE_LAYERING_def
  RBD_FEATURE_STRIPINGV2_def RBD_FEATURES_INCOMPATIBLE_def RBD_FEATURES_ALL_def
  RBD_PROTECTION_STATUS_UNPROTECTED_def RBD_PROTECTION_STATUS_UNPROTECTING_def
  RBD_PROTECTION_STATUS_PROTECTED_def RBD_PROTECTION_STATUS_LAST_def

end
