(* ===== verification/Image_Ctx.thy ===== *)
theory Image_Ctx
  imports Analyzer_Model Striper Rbd_Types
begin

text \<open>
  \<open>librbd/ImageCtx.cc\<close>: the context of an open image - its geometry, its snapshots by name, its
  parent - with the lookups, the layout computation and the pruning of parent extents, and
  \<open>clip_io\<close> of \<open>librbd/internal.cc\<close>. Locks, logging, the object cacher beyond its dirty limit, and
  the perf counters are not modelled. Shifts by the image order are for orders below 64, where the
  code is defined. Lemmas: snapshot lookups invert \<open>add_snap\<close>, the default layout is plain, pruned
  extents cover exactly the overlap, requests are clipped to the image unless offset + length wraps.
\<close>

record parent_spec =
  ps_pool_id :: int
  ps_image_id :: string
  ps_snap_id :: u64

record parent_info =
  pi_spec :: parent_spec
  pi_overlap :: u64

record SnapInfo =
  si_id :: u64
  si_size :: u64
  si_features :: u64
  si_parent :: parent_info
  si_protection_status :: u8

record SnapContext =
  sc_seq :: u64
  sc_snaps :: "u64 list"

record rbd_conf =
  cf_cache_writethrough_until_flush :: bool
  cf_cache_max_dirty :: u64
  cf_balance_snap_reads :: bool
  cf_localize_snap_reads :: bool

record ImageCtx =
  ic_old_format :: bool
  ic_order :: u8
  ic_size :: u64
  ic_features :: u64
  ic_object_prefix :: string
  ic_header_oid :: string
  ic_id :: string
  ic_name :: string
  ic_parent_md :: parent_info
  ic_has_parent :: bool
  ic_stripe_unit :: u64
  ic_stripe_count :: u64
  ic_layout :: file_layout
  ic_format_string :: object_format
  ic_snapc :: SnapContext
  ic_snaps :: "u64 list"
  ic_snaps_by_name :: "(string, SnapInfo) smap"
  ic_snap_id :: u64
  ic_snap_name :: string
  ic_snap_exists :: bool
  ic_read_only :: bool
  ic_flush_encountered :: bool
  ic_cache_max_dirty :: "u64 option"
  ic_refresh_seq :: int
  ic_last_refresh :: int
  ic_watch :: bool
  ic_hdd_id :: int
  ic_ssd_id :: int
  ic_extent_map :: ExtentMap
  ic_analyzer :: Analyzer
  ic_migrating :: bool
  ic_to_finilize :: bool
  ic_migrater_set :: bool

definition no_parent :: parent_info where
  "no_parent = \<lparr>pi_spec = \<lparr>ps_pool_id = - 1, ps_image_id = '''', ps_snap_id = CEPH_NOSNAP\<rparr>, pi_overlap = 0\<rparr>"

text \<open>\<open>data_ctx[pool]\<close>: the id of the RADOS pool behind one of the two tiers.\<close>

definition data_ctx :: "ImageCtx \<Rightarrow> int \<Rightarrow> int" where
  "data_ctx ic pool = (if pool = SSD_POOL then ic_ssd_id ic else ic_hdd_id ic)"

subsection \<open>Geometry\<close>

definition get_object_size :: "ImageCtx \<Rightarrow> u64" where
  "get_object_size ic = push_bit (unat (ic_order ic)) 1"

definition init_layout :: "u32 \<Rightarrow> ImageCtx \<Rightarrow> ImageCtx" where
  "init_layout pool_id ic =
     (let ic1 = (if ic_stripe_unit ic = 0 \<or> ic_stripe_count ic = 0
                 then ic\<lparr>ic_stripe_unit := push_bit (unat (ic_order ic)) 1, ic_stripe_count := 1\<rparr>
                 else ic)
      in ic1\<lparr>ic_layout := \<lparr>fl_stripe_unit = ucast (ic_stripe_unit ic1),
                           fl_stripe_count = ucast (ic_stripe_count ic1),
                           fl_object_size = ucast (push_bit (unat (ic_order ic)) 1 :: u64),
                           fl_pg_pool = pool_id\<rparr>,
             ic_format_string := \<lparr>fmt_prefix = ic_object_prefix ic,
                                  fmt_width = (if ic_old_format ic then 12 else 16)\<rparr>\<rparr>)"

definition get_object_name :: "ImageCtx \<Rightarrow> u64 \<Rightarrow> string" where
  "get_object_name ic num = format_oid (ic_format_string ic) num"

definition get_stripe_period :: "ImageCtx \<Rightarrow> u64" where
  "get_stripe_period ic = ic_stripe_count ic * push_bit (unat (ic_order ic)) 1"

definition get_num_objects :: "ImageCtx \<Rightarrow> u64 option" where
  "get_num_objects ic =
     (let period = get_stripe_period ic in
      if period = 0 then None
      else Some ((ic_size ic + period - 1) div period * ic_stripe_count ic))"

subsection \<open>Snapshots\<close>

definition snap_set :: "string \<Rightarrow> ImageCtx \<Rightarrow> int \<times> ImageCtx" where
  "snap_set in_snap_name ic =
     (case map_of (ic_snaps_by_name ic) in_snap_name of
        Some si \<Rightarrow> (0, ic\<lparr>ic_snap_name := in_snap_name, ic_snap_id := si_id si, ic_snap_exists := True\<rparr>)
      | None \<Rightarrow> (- ENOENT, ic))"

definition snap_unset :: "ImageCtx \<Rightarrow> ImageCtx" where
  "snap_unset ic = ic\<lparr>ic_snap_id := CEPH_NOSNAP, ic_snap_name := '''', ic_snap_exists := True\<rparr>"

definition get_snap_id :: "ImageCtx \<Rightarrow> string \<Rightarrow> u64" where
  "get_snap_id ic in_snap_name =
     (case map_of (ic_snaps_by_name ic) in_snap_name of Some si \<Rightarrow> si_id si | None \<Rightarrow> CEPH_NOSNAP)"

definition get_snap_name :: "ImageCtx \<Rightarrow> u64 \<Rightarrow> string option" where
  "get_snap_name ic in_snap_id =
     map_option fst (find (\<lambda>(_, si). si_id si = in_snap_id) (ic_snaps_by_name ic))"

definition get_parent_spec :: "ImageCtx \<Rightarrow> u64 \<Rightarrow> parent_spec option" where
  "get_parent_spec ic in_snap_id =
     map_option (\<lambda>(_, si). pi_spec (si_parent si))
       (find (\<lambda>(_, si). si_id si = in_snap_id) (ic_snaps_by_name ic))"

text \<open>The pattern of all lookups by snapshot id: the head, or the entry of the snapshot's name.\<close>

definition snap_lookup :: "ImageCtx \<Rightarrow> u64 \<Rightarrow> SnapInfo option" where
  "snap_lookup ic in_snap_id =
     (case get_snap_name ic in_snap_id of
        None \<Rightarrow> None
      | Some in_snap_name \<Rightarrow> map_of (ic_snaps_by_name ic) in_snap_name)"

definition get_image_size :: "ImageCtx \<Rightarrow> u64 \<Rightarrow> u64" where
  "get_image_size ic in_snap_id =
     (if in_snap_id = CEPH_NOSNAP then ic_size ic
      else case snap_lookup ic in_snap_id of None \<Rightarrow> 0 | Some si \<Rightarrow> si_size si)"

definition get_features :: "ImageCtx \<Rightarrow> u64 \<Rightarrow> int \<times> u64" where
  "get_features ic in_snap_id =
     (if in_snap_id = CEPH_NOSNAP then (0, ic_features ic)
      else case snap_lookup ic in_snap_id of None \<Rightarrow> (- ENOENT, 0) | Some si \<Rightarrow> (0, si_features si))"

definition get_parent_pool_id :: "ImageCtx \<Rightarrow> u64 \<Rightarrow> int" where
  "get_parent_pool_id ic in_snap_id =
     (if in_snap_id = CEPH_NOSNAP then ps_pool_id (pi_spec (ic_parent_md ic))
      else case snap_lookup ic in_snap_id of None \<Rightarrow> - 1 | Some si \<Rightarrow> ps_pool_id (pi_spec (si_parent si)))"

definition get_parent_image_id :: "ImageCtx \<Rightarrow> u64 \<Rightarrow> string" where
  "get_parent_image_id ic in_snap_id =
     (if in_snap_id = CEPH_NOSNAP then ps_image_id (pi_spec (ic_parent_md ic))
      else case snap_lookup ic in_snap_id of None \<Rightarrow> '''' | Some si \<Rightarrow> ps_image_id (pi_spec (si_parent si)))"

definition get_parent_snap_id :: "ImageCtx \<Rightarrow> u64 \<Rightarrow> u64" where
  "get_parent_snap_id ic in_snap_id =
     (if in_snap_id = CEPH_NOSNAP then ps_snap_id (pi_spec (ic_parent_md ic))
      else case snap_lookup ic in_snap_id of None \<Rightarrow> CEPH_NOSNAP | Some si \<Rightarrow> ps_snap_id (pi_spec (si_parent si)))"

text \<open>The overlap is an output argument; \<open>None\<close> is the return of \<open>-ENOENT\<close>, which leaves it unset.\<close>

definition get_parent_overlap :: "ImageCtx \<Rightarrow> u64 \<Rightarrow> u64 option" where
  "get_parent_overlap ic in_snap_id =
     (if in_snap_id = CEPH_NOSNAP then Some (pi_overlap (ic_parent_md ic))
      else map_option (\<lambda>si. pi_overlap (si_parent si)) (snap_lookup ic in_snap_id))"

definition is_snap_protected :: "ImageCtx \<Rightarrow> string \<Rightarrow> bool option" where
  "is_snap_protected ic in_snap_name =
     map_option (\<lambda>si. si_protection_status si = RBD_PROTECTION_STATUS_PROTECTED)
       (map_of (ic_snaps_by_name ic) in_snap_name)"

definition is_snap_unprotected :: "ImageCtx \<Rightarrow> string \<Rightarrow> bool option" where
  "is_snap_unprotected ic in_snap_name =
     map_option (\<lambda>si. si_protection_status si = RBD_PROTECTION_STATUS_UNPROTECTED)
       (map_of (ic_snaps_by_name ic) in_snap_name)"

definition add_snap ::
    "string \<Rightarrow> u64 \<Rightarrow> u64 \<Rightarrow> u64 \<Rightarrow> parent_info \<Rightarrow> u8 \<Rightarrow> ImageCtx \<Rightarrow> ImageCtx" where
  "add_snap in_snap_name i in_size features parent protection_status ic =
     ic\<lparr>ic_snaps := ic_snaps ic @ [i],
        ic_snaps_by_name := smap_insert in_snap_name
          \<lparr>si_id = i, si_size = in_size, si_features = features, si_parent = parent,
           si_protection_status = protection_status\<rparr> (ic_snaps_by_name ic)\<rparr>"

subsection \<open>Cache, watch and reads\<close>

datatype read_flags = OPERATION_NOFLAG | OPERATION_BALANCE_READS | OPERATION_LOCALIZE_READS

definition get_read_flags :: "rbd_conf \<Rightarrow> u64 \<Rightarrow> read_flags" where
  "get_read_flags cf snap_id =
     (if snap_id = CEPH_NOSNAP then OPERATION_NOFLAG
      else if cf_balance_snap_reads cf then OPERATION_BALANCE_READS
      else if cf_localize_snap_reads cf then OPERATION_LOCALIZE_READS
      else OPERATION_NOFLAG)"

definition user_flushed :: "rbd_conf \<Rightarrow> ImageCtx \<Rightarrow> ImageCtx" where
  "user_flushed cf ic =
     (if ic_cache_max_dirty ic \<noteq> None \<and> cf_cache_writethrough_until_flush cf
      then (let flushed_before = ic_flush_encountered ic;
                max_dirty = cf_cache_max_dirty cf
            in if \<not> flushed_before \<and> max_dirty > 0
               then ic\<lparr>ic_flush_encountered := True, ic_cache_max_dirty := Some max_dirty\<rparr>
               else ic)
      else ic)"

definition register_watch :: "int \<Rightarrow> ImageCtx \<Rightarrow> (int \<times> ImageCtx) option" where
  "register_watch r ic = (if ic_watch ic then None else Some (r, ic\<lparr>ic_watch := True\<rparr>))"

definition unregister_watch :: "ImageCtx \<Rightarrow> ImageCtx option" where
  "unregister_watch ic = (if ic_watch ic then Some (ic\<lparr>ic_watch := False\<rparr>) else None)"

subsection \<open>Parent extents\<close>

definition parent_io_len :: "ImageCtx \<Rightarrow> u64 \<Rightarrow> u64 \<Rightarrow> u64 \<Rightarrow> u64" where
  "parent_io_len ic offset len in_snap_id =
     (let overlap = the_default 0 (get_parent_overlap ic in_snap_id)
      in if get_parent_pool_id ic in_snap_id \<noteq> - 1 \<and> offset \<le> overlap
         then min overlap (offset + len) - offset else 0)"

definition prune_parent_extents :: "(u64 \<times> u64) list \<Rightarrow> u64 \<Rightarrow> (u64 \<times> u64) list \<times> u64" where
  "prune_parent_extents objectx overlap =
     (let xs = rev (dropWhile (\<lambda>p. overlap \<le> fst p) (rev objectx));
          ys = (if xs \<noteq> [] \<and> overlap < fst (last xs) + snd (last xs)
                then butlast xs @ [(fst (last xs), overlap - fst (last xs))] else xs)
      in (ys, sum_list (map snd ys)))"

subsection \<open>Clipping\<close>

definition clip_io :: "ImageCtx \<Rightarrow> u64 \<Rightarrow> u64 \<Rightarrow> int \<times> u64" where
  "clip_io ic off len =
     (let image_size = get_image_size ic (ic_snap_id ic) in
      if \<not> ic_snap_exists ic then (- ENOENT, len)
      else if len = 0 then (0, len)
      else if image_size \<le> off then (- EINVAL, len)
      else if image_size < off + len then (0, image_size - off)
      else (0, len))"

subsection \<open>Clipping stays within the image\<close>

text \<open>\<open>clip_io\<close>: a request whose end does not wrap around 2^64 is accepted exactly when the
  snapshot exists and it is empty or starts inside the image; what is accepted ends inside the
  image, is not empty unless it was empty before, and loses only what lies beyond the end.\<close>

theorem clip_io_bounds:
  assumes "unat off + unat len < 2 ^ 64" "clip_io ic off len = (r, len')"
  shows "(r = 0 \<longleftrightarrow> ic_snap_exists ic \<and> (len = 0 \<or> off < get_image_size ic (ic_snap_id ic)))
    \<and> (\<not> ic_snap_exists ic \<longrightarrow> r = - ENOENT)
    \<and> (r = 0 \<and> len \<noteq> 0 \<longrightarrow>
        unat len' = min (unat len) (unat (get_image_size ic (ic_snap_id ic)) - unat off) \<and>
        unat off + unat len' \<le> unat (get_image_size ic (ic_snap_id ic)) \<and> len' \<noteq> 0)"
proof -
  let ?s = "get_image_size ic (ic_snap_id ic)"
  have u: "unat (off + len) = unat off + unat len"
    using assms(1) by (simp add: unat_add_lem [symmetric])
  show ?thesis
  proof (cases "ic_snap_exists ic \<and> len \<noteq> 0 \<and> off < ?s")
    case False
    then show ?thesis using assms(2) by (auto simp: clip_io_def Let_def not_less split: if_splits)
  next
    case True
    then have lt: "unat off < unat ?s" "0 < unat len" by (simp_all add: word_less_nat_alt unat_pos_u64)
    then have sub: "unat (?s - off) = unat ?s - unat off" by (simp add: unat_sub_le)
    have "r = 0" and len': "len' = (if ?s < off + len then ?s - off else len)"
      using True assms(2) by (auto simp: clip_io_def Let_def not_less split: if_splits)
    moreover have "unat len' = min (unat len) (unat ?s - unat off)"
      using lt sub u by (auto simp: len' word_less_nat_alt)
    moreover from this have "unat off + unat len' \<le> unat ?s" "len' \<noteq> 0"
      using lt by (simp_all add: unat_pos_u64)
    ultimately show ?thesis using True by blast
  qed
qed

definition image_9M :: ImageCtx where
  "image_9M = \<lparr>ic_old_format = False, ic_order = 22, ic_size = 9000000, ic_features = 0,
     ic_object_prefix = ''rbd_data.1'', ic_header_oid = ''rbd_header.1'', ic_id = ''1'',
     ic_name = ''img'', ic_parent_md = no_parent, ic_has_parent = False,
     ic_stripe_unit = 4194304, ic_stripe_count = 1,
     ic_layout = \<lparr>fl_stripe_unit = 4194304, fl_stripe_count = 1, fl_object_size = 4194304, fl_pg_pool = 3\<rparr>,
     ic_format_string = \<lparr>fmt_prefix = ''rbd_data.1'', fmt_width = 16\<rparr>,
     ic_snapc = \<lparr>sc_seq = 0, sc_snaps = []\<rparr>, ic_snaps = [], ic_snaps_by_name = [],
     ic_snap_id = CEPH_NOSNAP, ic_snap_name = '''', ic_snap_exists = True, ic_read_only = False,
     ic_flush_encountered = False, ic_cache_max_dirty = None, ic_refresh_seq = 0, ic_last_refresh = 0,
     ic_watch = False, ic_hdd_id = 3, ic_ssd_id = 4,
     ic_extent_map = \<lparr>extent_size = EXTENT_SIZE, map_size = 2, em_map = [(0, - 3), (1, - 3)]\<rparr>,
     ic_analyzer = \<lparr>op_queue = [], read_latency_queue = [], write_latency_queue = [], last_byte_list = [],
       max_migration_num = MAX_MIGRATION, active_extent_num_list = [], an_to_finilize = False\<rparr>,
     ic_migrating = False, ic_to_finilize = False, ic_migrater_set = True\<rparr>"

lemma image_9M_size: "get_image_size image_9M (ic_snap_id image_9M) = 9000000"
  by (simp add: get_image_size_def image_9M_def)

lemma clip_io_bounds_witness:
  "clip_io image_9M 8999000 4096 = (0, 1000) \<and> unat (8999000 :: u64) + unat (1000 :: u64) \<le> 9000000"
proof -
  have e: "clip_io image_9M 8999000 4096 = (0, 1000)"
    unfolding clip_io_def image_9M_size by (simp add: image_9M_def)
  show ?thesis
    using clip_io_bounds [OF _ e] e unfolding image_9M_size by simp
qed

text \<open>
  When offset + length wraps around, the comparison with the image size sees a small number and
  the length is not clipped: the request is accepted and reaches beyond the end of the image.
\<close>

text \<open>The hole in the clipping: every request that starts inside the image and whose end wraps
  around 2^64 is accepted with its length unchanged, so it runs past the end of the image.\<close>

theorem clip_io_wrap_unclipped:
  assumes "ic_snap_exists ic" "off < get_image_size ic (ic_snap_id ic)" "2 ^ 64 \<le> unat off + unat len"
  shows "clip_io ic off len = (0, len) \<and> unat (get_image_size ic (ic_snap_id ic)) < unat off + unat len"
proof -
  let ?s = "get_image_size ic (ic_snap_id ic)"
  have lo: "unat off < 2 ^ 64" "unat len < 2 ^ 64" "unat ?s < 2 ^ 64"
    using unat_lt [of off] unat_lt [of len] unat_lt [of ?s] by simp_all
  have u: "unat (off + len) = unat off + unat len - 2 ^ 64"
  proof -
    have "unat (off + len) = (unat off + unat len) mod 2 ^ 64" by (simp add: unat_word_ariths)
    also have "\<dots> = (unat off + unat len - 2 ^ 64) mod 2 ^ 64"
      using assms(3) by (simp add: le_mod_geq)
    also have "\<dots> = unat off + unat len - 2 ^ 64"
      using lo by (intro mod_less) linarith
    finally show ?thesis .
  qed
  have "len \<noteq> 0" using assms(3) lo by auto
  moreover have "\<not> ?s < off + len"
  proof -
    have "unat off + unat len - 2 ^ 64 \<le> unat off" using lo(2) by linarith
    then show ?thesis using assms(2) unfolding word_less_nat_alt u by linarith
  qed
  moreover have "\<not> ?s \<le> off" using assms(2) by (simp add: not_le)
  ultimately have "clip_io ic off len = (0, len)"
    using assms(1) by (simp add: clip_io_def Let_def)
  moreover have "unat ?s < unat off + unat len" using assms(3) lo(3) by linarith
  ultimately show ?thesis ..
qed

lemma clip_io_wrap_unclipped_witness:
  "clip_io image_9M 1000 18446744073709551615 = (0, 18446744073709551615)"
proof -
  have "ic_snap_exists image_9M" "1000 < get_image_size image_9M (ic_snap_id image_9M)"
    unfolding image_9M_size by (simp_all add: image_9M_def)
  then show ?thesis
    using clip_io_wrap_unclipped [of image_9M 1000 18446744073709551615] by simp
qed

subsection \<open>The overlap with the parent\<close>

text \<open>Extents of the image, in order and without overlap, as the reverse map of an object gives them.\<close>

fun extents_ok :: "nat \<Rightarrow> (u64 \<times> u64) list \<Rightarrow> bool" where
  "extents_ok lo [] \<longleftrightarrow> True"
| "extents_ok lo ((o', l) # xs) \<longleftrightarrow> lo \<le> unat o' \<and> unat o' + unat l < 2 ^ 64 \<and> extents_ok (unat o' + unat l) xs"

definition covered :: "(u64 \<times> u64) list \<Rightarrow> nat \<Rightarrow> bool" where
  "covered xs x \<longleftrightarrow> (\<exists>(o', l) \<in> set xs. unat o' \<le> x \<and> x < unat o' + unat l)"

lemma covered_simps [simp]:
  "covered [] x \<longleftrightarrow> False"
  "covered (p # xs) x \<longleftrightarrow> (unat (fst p) \<le> x \<and> x < unat (fst p) + unat (snd p)) \<or> covered xs x"
  "covered (xs @ ys) x \<longleftrightarrow> covered xs x \<or> covered ys x"
  by (auto simp: covered_def)

lemma extents_ok_append:
  "extents_ok lo (xs @ [(o', l)]) \<longleftrightarrow>
     extents_ok lo xs \<and> lo \<le> unat o' \<and> unat o' + unat l < 2 ^ 64 \<and> (\<forall>x. covered xs x \<longrightarrow> x < unat o')
     \<and> (\<forall>p \<in> set xs. unat (fst p) + unat (snd p) \<le> unat o')"
  by (induction lo xs rule: extents_ok.induct) (auto 4 4)

text \<open>The pruning from the end, one extent at a time.\<close>

lemma prune_nil: "prune_parent_extents [] ov = ([], 0)"
  by (simp add: prune_parent_extents_def)

lemma prune_snoc:
  "prune_parent_extents (xs @ [(o', l)]) ov =
     (if ov \<le> o' then prune_parent_extents xs ov
      else let ys = xs @ [(o', if ov < o' + l then ov - o' else l)] in (ys, sum_list (map snd ys)))"
  by (simp add: prune_parent_extents_def Let_def)

text \<open>Pruning to the parent overlap: of extents in order, exactly the bytes below the overlap
  remain, and the length returned is the number of bytes that remain.\<close>

theorem prune_parent_extents_exact:
  assumes "extents_ok 0 objectx" "prune_parent_extents objectx overlap = (ys, len)"
  shows "(\<forall>x. covered ys x \<longleftrightarrow> covered objectx x \<and> x < unat overlap) \<and> extents_ok 0 ys
    \<and> len = sum_list (map snd ys)"
  using assms
proof (induction objectx arbitrary: ys len rule: rev_induct)
  case Nil
  then show ?case by (simp add: prune_nil)
next
  case (snoc p xs)
  obtain o' l where p: "p = (o', l)" by (cases p)
  have ok: "extents_ok 0 xs" "unat o' + unat l < 2 ^ 64" "\<And>x. covered xs x \<Longrightarrow> x < unat o'"
    "\<And>p. p \<in> set xs \<Longrightarrow> unat (fst p) + unat (snd p) \<le> unat o'"
    using snoc.prems(1) unfolding p extents_ok_append by blast+
  have u: "unat (o' + l) = unat o' + unat l"
    using ok(2) by (simp add: unat_add_lem [symmetric])
  show ?case
  proof (cases "overlap \<le> o'")
    case True
    then have "prune_parent_extents xs overlap = (ys, len)"
      using snoc.prems(2) by (simp add: p prune_snoc)
    note IH = snoc.IH [OF ok(1) this]
    have le: "unat overlap \<le> unat o'" using True by (simp add: word_le_nat_alt)
    have "covered ys x \<longleftrightarrow> covered (xs @ [p]) x \<and> x < unat overlap" for x
    proof -
      have "covered (xs @ [p]) x \<longleftrightarrow> covered xs x \<or> (unat o' \<le> x \<and> x < unat o' + unat l)"
        by (simp add: p)
      moreover have "covered ys x \<longleftrightarrow> covered xs x \<and> x < unat overlap" using IH by blast
      ultimately show ?thesis using le by linarith
    qed
    with IH show ?thesis by blast
  next
    case False
    then have lt: "unat o' < unat overlap" by (simp add: word_le_nat_alt)
    let ?l = "if overlap < o' + l then overlap - o' else l"
    have ys: "ys = xs @ [(o', ?l)]" and len: "len = sum_list (map snd ys)"
      using snoc.prems(2) False by (auto simp: p prune_snoc Let_def)
    have ul: "unat ?l = min (unat l) (unat overlap - unat o')"
      using lt u by (auto simp: word_less_nat_alt unat_sub_le)
    have "covered ys x \<longleftrightarrow> covered (xs @ [p]) x \<and> x < unat overlap" for x
    proof -
      have "(unat o' \<le> x \<and> x < unat o' + unat ?l)
          \<longleftrightarrow> (unat o' \<le> x \<and> x < unat o' + unat l) \<and> x < unat overlap"
        unfolding ul min_def using lt by (simp split: if_splits) linarith
      moreover have "covered ys x \<longleftrightarrow> covered xs x \<or> (unat o' \<le> x \<and> x < unat o' + unat ?l)"
        unfolding ys by simp
      moreover have "covered (xs @ [p]) x \<longleftrightarrow> covered xs x \<or> (unat o' \<le> x \<and> x < unat o' + unat l)"
        by (simp add: p)
      ultimately show ?thesis using ok(3) [of x] lt by linarith
    qed
    moreover have "extents_ok 0 ys"
      unfolding ys extents_ok_append using ok ul by auto
    ultimately show ?thesis using len by blast
  qed
qed

lemma prune_parent_extents_exact_witness:
  "prune_parent_extents [(0, 10), (20, 10), (40, 10)] 25 = ([(0, 10), (20, 5)], 15)
   \<and> covered [(0, 10), (20, 5)] 24 \<and> \<not> covered [(0, 10), (20, 5)] 25"
proof -
  have e: "prune_parent_extents [(0, 10), (20, 10), (40, 10)] 25 = ([(0, 10), (20, 5)], 15)"
    by (simp add: prune_parent_extents_def)
  from prune_parent_extents_exact [OF _ e] have
    "covered [(0, 10), (20, 5 :: u64)] x \<longleftrightarrow> covered [(0, 10), (20, 10), (40, 10 :: u64)] x \<and> x < unat (25 :: u64)" for x
    by simp
  from this [of 24] this [of 25] e show ?thesis by simp
qed

subsection \<open>Snapshot lookups\<close>

definition snaps_ok :: "ImageCtx \<Rightarrow> bool" where
  "snaps_ok ic \<longleftrightarrow> smap_ok (ic_snaps_by_name ic) \<and> distinct (map (si_id \<circ> snd) (ic_snaps_by_name ic))
     \<and> CEPH_NOSNAP \<notin> si_id ` snd ` set (ic_snaps_by_name ic)"

lemma find_snap:
  assumes "snaps_ok ic" "map_of (ic_snaps_by_name ic) n = Some si"
  shows "find (\<lambda>(_, s). si_id s = si_id si) (ic_snaps_by_name ic) = Some (n, si)"
proof -
  have "find (\<lambda>(_, s). si_id s = si_id si) m = Some (n, si)"
    if "distinct (map (si_id \<circ> snd) m)" "(n, si) \<in> set m" for m :: "(string \<times> SnapInfo) list"
    using that
  proof (induction m)
    case (Cons p m)
    show ?case
    proof (cases "p = (n, si)")
      case False
      with Cons.prems(2) have mem: "(n, si) \<in> set m" by auto
      then have "si_id si \<in> set (map (si_id \<circ> snd) m)" by force
      moreover have "si_id (snd p) \<notin> set (map (si_id \<circ> snd) m)" using Cons.prems(1) by simp
      ultimately have "si_id (snd p) \<noteq> si_id si" by metis
      then show ?thesis using Cons.IH Cons.prems(1) mem by (simp add: case_prod_beta')
    qed simp
  qed simp
  then show ?thesis
    using assms by (simp add: snaps_ok_def map_of_SomeD)
qed

lemma snap_lookup_found:
  assumes "snaps_ok ic" "map_of (ic_snaps_by_name ic) n = Some si"
  shows "get_snap_name ic (si_id si) = Some n \<and> snap_lookup ic (si_id si) = Some si"
  using find_snap [OF assms] assms(2) by (simp add: get_snap_name_def snap_lookup_def)

lemma smap_insert_values:
  "set (smap_insert k v m) \<subseteq> insert (k, v) (set m)"
  by (induction k v m rule: smap_insert.induct) auto

lemma distinct_ids_insert:
  assumes "distinct (map (si_id \<circ> snd) m)" "si_id si \<notin> si_id ` snd ` set m"
  shows "distinct (map (si_id \<circ> snd) (smap_insert n si m))"
  using assms
proof (induction n si m rule: smap_insert.induct)
  case (2 k v a b m)
  have "si_id b \<notin> si_id ` snd ` set (smap_insert k v m)"
    using 2 smap_insert_values [of k v m] by (auto simp: image_iff)
  then show ?case using 2 by (auto simp: image_comp)
qed simp

lemma add_snap_ok:
  assumes "snaps_ok ic" "i \<noteq> CEPH_NOSNAP" "i \<notin> si_id ` snd ` set (ic_snaps_by_name ic)"
  shows "snaps_ok (add_snap n i sz ft pa pr ic)"
proof -
  let ?si = "\<lparr>si_id = i, si_size = sz, si_features = ft, si_parent = pa, si_protection_status = pr\<rparr>"
  let ?m = "ic_snaps_by_name ic"
  have "si_id ` snd ` set (smap_insert n ?si ?m) \<subseteq> insert i (si_id ` snd ` set ?m)"
    using image_mono [OF image_mono [OF smap_insert_values [of n ?si ?m]], of si_id snd] by simp
  then have "CEPH_NOSNAP \<notin> si_id ` snd ` set (smap_insert n ?si ?m)"
    using assms(1,2) by (auto simp: snaps_ok_def)
  moreover have "distinct (map (si_id \<circ> snd) (smap_insert n ?si ?m))"
    using assms(1,3) by (intro distinct_ids_insert) (simp_all add: snaps_ok_def)
  moreover have "smap_ok (smap_insert n ?si ?m)"
    using assms(1) by (simp add: snaps_ok_def)
  ultimately show ?thesis by (simp add: snaps_ok_def add_snap_def)
qed

text \<open>Snapshots are found again: after \<open>add_snap\<close> of a new name with a new id, the name gives the
  id, the id gives the name, and size, features, parent and protection are those that were added;
  every snapshot that was there before is still found under its name and its id.\<close>

theorem add_snap_lookup:
  assumes "snaps_ok ic" "i \<noteq> CEPH_NOSNAP" "i \<notin> si_id ` snd ` set (ic_snaps_by_name ic)"
    "map_of (ic_snaps_by_name ic) n = None"
  shows "let ic' = add_snap n i sz ft pa pr ic in
     snaps_ok ic' \<and> get_snap_id ic' n = i \<and> get_snap_name ic' i = Some n \<and> get_image_size ic' i = sz
     \<and> get_features ic' i = (0, ft) \<and> get_parent_overlap ic' i = Some (pi_overlap pa)
     \<and> get_parent_image_id ic' i = ps_image_id (pi_spec pa)
     \<and> is_snap_protected ic' n = Some (pr = RBD_PROTECTION_STATUS_PROTECTED)
     \<and> (\<forall>m si. map_of (ic_snaps_by_name ic) m = Some si \<longrightarrow>
          get_snap_id ic' m = si_id si \<and> get_snap_name ic' (si_id si) = Some m \<and>
          get_image_size ic' (si_id si) = si_size si)"
proof -
  let ?ic = "add_snap n i sz ft pa pr ic"
  let ?si = "\<lparr>si_id = i, si_size = sz, si_features = ft, si_parent = pa, si_protection_status = pr\<rparr>"
  have ok: "snaps_ok ?ic" by (rule add_snap_ok [OF assms(1-3)])
  have m: "map_of (ic_snaps_by_name ?ic) = (map_of (ic_snaps_by_name ic))(n \<mapsto> ?si)"
    using assms(1,4) by (simp add: add_snap_def snaps_ok_def)
  have new: "get_snap_name ?ic i = Some n" "snap_lookup ?ic i = Some ?si"
    using snap_lookup_found [OF ok, of n ?si] m by simp_all
  have old: "get_snap_id ?ic k = si_id si \<and> get_snap_name ?ic (si_id si) = Some k \<and>
      get_image_size ?ic (si_id si) = si_size si"
    if k: "map_of (ic_snaps_by_name ic) k = Some si" for k si
  proof -
    have "map_of (ic_snaps_by_name ?ic) k = Some si" using k m assms(4) by auto
    note f = snap_lookup_found [OF ok this]
    have "si_id si \<noteq> CEPH_NOSNAP"
      using assms(1) k by (auto simp: snaps_ok_def image_iff dest!: map_of_SomeD)
    then show ?thesis
      using f \<open>map_of (ic_snaps_by_name ?ic) k = Some si\<close> by (simp add: get_image_size_def get_snap_id_def)
  qed
  have "get_snap_id ?ic n = i" "is_snap_protected ?ic n = Some (pr = RBD_PROTECTION_STATUS_PROTECTED)"
    by (simp_all add: get_snap_id_def is_snap_protected_def m)
  then show ?thesis
    using ok new old assms(2)
    by (simp add: Let_def get_image_size_def get_features_def get_parent_overlap_def get_parent_image_id_def)
qed

lemma add_snap_lookup_witness:
  "let ic' = add_snap ''s1'' 7 500 1 no_parent 2 image_9M in
     snaps_ok ic' \<and> get_snap_id ic' ''s1'' = 7 \<and> get_snap_name ic' 7 = Some ''s1'' \<and> get_image_size ic' 7 = 500"
proof -
  have "snaps_ok image_9M" by (simp add: snaps_ok_def image_9M_def)
  from add_snap_lookup [OF this, of 7 "''s1''" 500 1 no_parent 2] show ?thesis
    by (simp add: Let_def CEPH_NOSNAP_def image_9M_def)
qed

subsection \<open>The default layout\<close>

lemma init_layout_plain_lo:
  assumes "ic_order ic < 32" "ic_stripe_unit ic = 0 \<or> ic_stripe_count ic = 0"
  shows "layout_plain (ic_layout (init_layout p ic))"
    "lo_os (ic_layout (init_layout p ic)) = push_bit (unat (ic_order ic)) 1"
proof -
  have k: "unat (ic_order ic) < 32" using assms(1) by (simp add: word_less_nat_alt)
  have u32: "unat (ucast (push_bit (unat (ic_order ic)) 1 :: u64) :: u32) = 2 ^ unat (ic_order ic)"
  proof -
    have "(2::nat) ^ unat (ic_order ic) < 2 ^ 32" using k by (intro power_strict_increasing) simp_all
    then show ?thesis
      using unat_shift_u64 [of "unat (ic_order ic)"] k
      by (simp add: unsigned_ucast_eq take_bit_nat_eq_self del: push_bit_of_1)
  qed
  let ?o = "ucast (push_bit (unat (ic_order ic)) 1 :: u64) :: u32"
  have os: "ucast ?o = (push_bit (unat (ic_order ic)) 1 :: u64)"
    using u32 k by (intro u64_eqI) (simp add: unat_u32_u64 unat_shift_u64 del: push_bit_of_1)
  have "(push_bit (unat (ic_order ic)) 1 :: u64) \<noteq> 0"
    using k by (simp add: unat_pos_u64 unat_shift_u64 del: push_bit_of_1)
  moreover have l: "ic_layout (init_layout p ic)
      = \<lparr>fl_stripe_unit = ?o, fl_stripe_count = 1, fl_object_size = ?o, fl_pg_pool = p\<rparr>"
    using assms(2) by (simp add: init_layout_def Let_def del: push_bit_of_1)
  ultimately show "layout_plain (ic_layout (init_layout p ic))"
    "lo_os (ic_layout (init_layout p ic)) = push_bit (unat (ic_order ic)) 1"
    unfolding l layout_plain_def by (simp_all add: os del: push_bit_of_1)
qed

lemma ceil_div_less: "0 < p \<Longrightarrow> x < (s :: nat) \<Longrightarrow> x div p < (s + p - 1) div p"
proof -
  assume p: "0 < p" and x: "x < s"
  have "(x + p) div p \<le> (s + p - 1) div p"
    using x by (intro div_le_mono) linarith
  then show ?thesis using p by simp
qed

text \<open>An image without striping parameters gets the plain layout: object \<open>k\<close> holds the bytes
  from \<open>k * 2^order\<close> on, and the object of every offset inside the image is below
  \<open>get_num_objects\<close>.\<close>

theorem init_layout_default:
  assumes "ic_order ic < 32" "ic_stripe_unit ic = 0 \<or> ic_stripe_count ic = 0"
    "unat (ic_size ic) + 2 ^ unat (ic_order ic) < 2 ^ 64" "off < ic_size ic"
  shows "let ic' = init_layout p ic in
     layout_plain (ic_layout ic')
     \<and> unat (objectno (ic_layout ic') off) = unat off div 2 ^ unat (ic_order ic)
     \<and> unat (x_offset (ic_layout ic') off) = unat off mod 2 ^ unat (ic_order ic)
     \<and> (\<exists>n. get_num_objects ic' = Some n \<and> objectno (ic_layout ic') off < n)"
proof -
  let ?ic = "init_layout p ic"
  let ?k = "unat (ic_order ic)" and ?p = "push_bit (unat (ic_order ic)) 1 :: u64"
  have k: "?k < 64" using assms(1) by (simp add: word_less_nat_alt)
  note pl = init_layout_plain_lo [OF assms(1,2), of p]
  have up: "unat ?p = 2 ^ ?k" by (rule unat_shift_u64 [OF k])
  have pos: "?p \<noteq> 0" unfolding unat_pos_u64 up by simp
  have ono: "unat (objectno (ic_layout ?ic) off) = unat off div 2 ^ ?k"
    unfolding objectno_plain [OF pl(1)] pl(2) unat_div_u64 up by simp
  have xo: "unat (x_offset (ic_layout ?ic) off) = unat off mod 2 ^ ?k"
    unfolding x_offset_plain [OF pl(1)] pl(2) unat_mod_u64 up by simp
  have per: "get_stripe_period ?ic = ?p" "ic_stripe_count ?ic = 1" "ic_size ?ic = ic_size ic"
    using assms(2) by (simp_all add: get_stripe_period_def init_layout_def Let_def del: push_bit_of_1)
  have "unat (ic_size ic + ?p) = unat (ic_size ic) + 2 ^ ?k"
    using assms(3) up by (subst unat_add_lem [THEN iffD1]) simp_all
  moreover from this have "unat (ic_size ic + ?p - 1) = unat (ic_size ic) + 2 ^ ?k - 1"
    by (subst unat_sub_le) (simp_all add: Suc_le_eq)
  ultimately have n: "unat ((ic_size ic + ?p - 1) div ?p) = (unat (ic_size ic) + 2 ^ ?k - 1) div 2 ^ ?k"
    by (simp only: unat_div_u64 up)
  have "unat off < unat (ic_size ic)" using assms(4) by (simp add: word_less_nat_alt)
  then have "objectno (ic_layout ?ic) off < (ic_size ic + ?p - 1) div ?p"
    unfolding word_less_nat_alt ono n by (intro ceil_div_less) simp_all
  moreover have "get_num_objects ?ic = Some ((ic_size ic + ?p - 1) div ?p)"
    unfolding get_num_objects_def per Let_def using pos by simp
  ultimately show ?thesis
    using pl(1) ono xo by (simp only: Let_def) blast
qed

lemma init_layout_default_witness:
  "let ic' = init_layout 3 (image_9M\<lparr>ic_stripe_unit := 0\<rparr>) in
     layout_plain (ic_layout ic') \<and> unat (objectno (ic_layout ic') 8388608) = 2"
proof -
  have "ic_order (image_9M\<lparr>ic_stripe_unit := 0\<rparr>) = 22" "ic_size (image_9M\<lparr>ic_stripe_unit := 0\<rparr>) = 9000000"
    "ic_stripe_unit (image_9M\<lparr>ic_stripe_unit := 0\<rparr>) = 0"
    by (simp_all add: image_9M_def)
  then show ?thesis
    using init_layout_default [of "image_9M\<lparr>ic_stripe_unit := 0\<rparr>" 8388608 3] by (simp add: Let_def)
qed

end
