(* ===== verification/Aio_Completion.thy ===== *)
theory Aio_Completion
  imports Image_Ctx Striped_Read
begin

text \<open>
  \<open>librbd/AioCompletion.h\<close> and \<open>AioCompletion.cc\<close>: the completion of one request of the user, made
  of many object requests. Counting starts with the completion under construction; the last of the
  object requests, or the end of the construction, completes it. \<open>None\<close> is a failed assert or a use
  after the last reference is gone. The operations run under the completion's lock, so any
  interleaving is a sequence of them: \<open>reach\<close> is the step relation of those sequences for writes, discards
  and flushes, and the lemmas show that each of them completes exactly once, after the last request, with
  the right value. \<open>Aio_Read_Steps\<close> has the step relation of reads, whose requests bring data.
\<close>

datatype aio_type = AIO_TYPE_READ | AIO_TYPE_WRITE | AIO_TYPE_DISCARD | AIO_TYPE_FLUSH | AIO_TYPE_NONE

record AioCompletion =
  c_done :: bool
  c_rval :: int
  c_pending :: nat
  c_building :: bool
  c_ref :: nat
  c_released :: bool
  c_type :: aio_type
  c_destriper :: partial_t
  c_has_buf :: bool
  c_buf_len :: u64
  c_result :: "bytes option"
  c_callbacks :: nat

definition aio_create_completion :: AioCompletion where
  "aio_create_completion =
     \<lparr>c_done = False, c_rval = 0, c_pending = 0, c_building = True, c_ref = 1, c_released = False,
      c_type = AIO_TYPE_NONE, c_destriper = [], c_has_buf = False, c_buf_len = 0, c_result = None,
      c_callbacks = 0\<rparr>"

definition c_get :: "AioCompletion \<Rightarrow> AioCompletion option" where
  "c_get c = (if c_ref c = 0 then None else Some (c\<lparr>c_ref := c_ref c + 1\<rparr>))"

definition put_unlock :: "AioCompletion \<Rightarrow> AioCompletion option" where
  "put_unlock c = (if c_ref c = 0 then None else Some (c\<lparr>c_ref := c_ref c - 1\<rparr>))"

definition release :: "AioCompletion \<Rightarrow> AioCompletion option" where
  "release c = (if c_ref c = 0 \<or> c_released c then None else put_unlock (c\<lparr>c_released := True\<rparr>))"

definition init_time :: "aio_type \<Rightarrow> AioCompletion \<Rightarrow> AioCompletion" where
  "init_time t c = c\<lparr>c_type := t\<rparr>"

definition add_request :: "AioCompletion \<Rightarrow> AioCompletion option" where
  "add_request c = c_get (c\<lparr>c_pending := c_pending c + 1\<rparr>)"

text \<open>
  \<open>complete\<close> uses the image context that \<open>init_time\<close> sets: a completion without a type has none. It
  calls the callback once and marks the completion done; the latency that it reports to the
  analyzer is added by \<open>record_latency\<close>.
\<close>

definition complete :: "AioCompletion \<Rightarrow> AioCompletion option" where
  "complete c =
     (if c_type c = AIO_TYPE_NONE then None
      else Some (c\<lparr>c_callbacks := c_callbacks c + 1, c_done := True\<rparr>))"

definition record_latency :: "u64 \<Rightarrow> aio_type \<Rightarrow> Analyzer \<Rightarrow> Analyzer" where
  "record_latency elapsed t an =
     (case t of AIO_TYPE_READ \<Rightarrow> add_read_lat elapsed an
              | AIO_TYPE_WRITE \<Rightarrow> add_write_lat elapsed an
              | _ \<Rightarrow> an)"

definition finalize :: "AioCompletion \<Rightarrow> AioCompletion option" where
  "finalize c =
     (if 0 \<le> c_rval c \<and> c_type c = AIO_TYPE_READ
      then (case assemble_result True (c_destriper c) of
              None \<Rightarrow> None
            | Some (bl, partial) \<Rightarrow>
                if c_has_buf c \<and> length bl \<noteq> unat (c_buf_len c) then None
                else Some (c\<lparr>c_destriper := partial, c_result := Some bl\<rparr>))
      else Some c)"

definition finish_adding_requests :: "AioCompletion \<Rightarrow> AioCompletion option" where
  "finish_adding_requests c =
     (if \<not> c_building c then None
      else
        let c1 = c\<lparr>c_building := False\<rparr> in
        if c_pending c1 = 0 then Option.bind (finalize c1) complete else Some c1)"

definition update_rval :: "int \<Rightarrow> int \<Rightarrow> int" where
  "update_rval rval r =
     (if 0 \<le> rval then (if r < 0 \<and> r \<noteq> - EEXIST then r else if 0 < r then rval + r else rval) else rval)"

definition complete_request :: "int \<Rightarrow> AioCompletion \<Rightarrow> AioCompletion option" where
  "complete_request r c =
     (let c1 = c\<lparr>c_rval := update_rval (c_rval c) r\<rparr> in
      if c_pending c1 = 0 then None
      else
        let c2 = c1\<lparr>c_pending := c_pending c1 - 1\<rparr> in
        if c_pending c2 = 0 \<and> \<not> c_building c2
        then Option.bind (Option.bind (finalize c2) complete) put_unlock
        else put_unlock c2)"

subsection \<open>All interleavings\<close>

datatype aio_event = EAdd | EComplete int | EFinish

definition aio_event :: "aio_event \<Rightarrow> AioCompletion \<Rightarrow> AioCompletion option" where
  "aio_event e c =
     (case e of EAdd \<Rightarrow> add_request c
              | EComplete r \<Rightarrow> complete_request r c
              | EFinish \<Rightarrow> Option.bind (finish_adding_requests c) put_unlock)"

text \<open>
  What the callers may do: add a request while the completion is under construction, complete a
  request that was added and not yet completed, and finish the construction once. The number of
  requests added and the results delivered so far are the history.
\<close>

definition allowed :: "aio_event \<Rightarrow> nat \<Rightarrow> int list \<Rightarrow> bool \<Rightarrow> bool" where
  "allowed e added results finished =
     (case e of EAdd \<Rightarrow> \<not> finished
              | EComplete r \<Rightarrow> length results < added
              | EFinish \<Rightarrow> \<not> finished)"

definition started :: "aio_type \<Rightarrow> AioCompletion" where
  "started t = init_time t (aio_create_completion\<lparr>c_ref := 2\<rparr>)"

inductive reach :: "aio_type \<Rightarrow> nat \<Rightarrow> int list \<Rightarrow> bool \<Rightarrow> AioCompletion \<Rightarrow> bool" for t where
  start: "reach t 0 [] False (started t)"
| add: "reach t n rs fin c \<Longrightarrow> allowed EAdd n rs fin \<Longrightarrow> aio_event EAdd c = Some c' \<Longrightarrow>
    reach t (n + 1) rs fin c'"
| compl: "reach t n rs fin c \<Longrightarrow> allowed (EComplete r) n rs fin \<Longrightarrow> aio_event (EComplete r) c = Some c' \<Longrightarrow>
    reach t n (rs @ [r]) fin c'"
| finish: "reach t n rs fin c \<Longrightarrow> allowed EFinish n rs fin \<Longrightarrow> aio_event EFinish c = Some c' \<Longrightarrow>
    reach t n rs True c'"

inductive_cases reach_finE: "reach t n rs True c"

definition fold_rval :: "int list \<Rightarrow> int" where
  "fold_rval rs = fold (\<lambda>r v. update_rval v r) rs 0"

lemma fold_rval_snoc [simp]: "fold_rval [] = 0" "fold_rval (rs @ [r]) = update_rval (fold_rval rs) r"
  by (simp_all add: fold_rval_def)

lemma fold_rval_nonneg: "0 \<le> fold_rval rs \<longleftrightarrow> (\<forall>r \<in> set rs. 0 \<le> r \<or> r = - EEXIST)"
  by (induction rs rule: rev_induct) (auto simp: update_rval_def)

lemma fold_rval_sum: "0 \<le> fold_rval rs \<Longrightarrow> fold_rval rs = (\<Sum>r\<leftarrow>rs. max 0 r)"
  by (induction rs rule: rev_induct) (auto simp: update_rval_def split: if_splits)

lemma fold_rval_error: "fold_rval rs < 0 \<Longrightarrow> fold_rval rs \<in> set rs"
  by (induction rs rule: rev_induct) (auto simp: update_rval_def split: if_splits)

definition aio_inv :: "aio_type \<Rightarrow> nat \<Rightarrow> int list \<Rightarrow> bool \<Rightarrow> AioCompletion \<Rightarrow> bool" where
  "aio_inv t n rs fin c \<longleftrightarrow>
     length rs \<le> n \<and> c_pending c = n - length rs \<and> c_building c = (\<not> fin) \<and> c_type c = t
     \<and> c_ref c = 1 + (if fin then 0 else 1) + (n - length rs) \<and> \<not> c_released c
     \<and> c_rval c = fold_rval rs
     \<and> c_done c = (fin \<and> length rs = n) \<and> c_callbacks c = (if fin \<and> length rs = n then 1 else 0)"

lemma finalize_simp: "t \<noteq> AIO_TYPE_READ \<Longrightarrow> c_type c = t \<Longrightarrow> finalize c = Some c"
  by (simp add: finalize_def)

lemma aio_event_inv:
  assumes "aio_inv t n rs fin c" "t \<noteq> AIO_TYPE_READ" "t \<noteq> AIO_TYPE_NONE"
  shows "allowed EAdd n rs fin \<Longrightarrow> \<exists>c'. aio_event EAdd c = Some c' \<and> aio_inv t (n + 1) rs fin c'"
    and "allowed (EComplete r) n rs fin \<Longrightarrow>
      \<exists>c'. aio_event (EComplete r) c = Some c' \<and> aio_inv t n (rs @ [r]) fin c'"
    and "allowed EFinish n rs fin \<Longrightarrow> \<exists>c'. aio_event EFinish c = Some c' \<and> aio_inv t n rs True c'"
proof -
  show "\<exists>c'. aio_event EAdd c = Some c' \<and> aio_inv t (n + 1) rs fin c'" if "allowed EAdd n rs fin"
    using assms(1) that by (auto simp: aio_event_def add_request_def c_get_def aio_inv_def allowed_def)
  show "\<exists>c'. aio_event (EComplete r) c = Some c' \<and> aio_inv t n (rs @ [r]) fin c'"
    if "allowed (EComplete r) n rs fin"
    using assms that
    by (auto simp: aio_event_def complete_request_def Let_def finalize_simp complete_def put_unlock_def
        aio_inv_def allowed_def)
  show "\<exists>c'. aio_event EFinish c = Some c' \<and> aio_inv t n rs True c'" if "allowed EFinish n rs fin"
    using assms that
    by (auto simp: aio_event_def finish_adding_requests_def Let_def finalize_simp complete_def put_unlock_def
        aio_inv_def allowed_def)
qed

lemma reach_inv:
  assumes "reach t n rs fin c" "t \<noteq> AIO_TYPE_READ" "t \<noteq> AIO_TYPE_NONE"
  shows "aio_inv t n rs fin c"
  using assms(1)
proof (induction rule: reach.induct)
  case start
  then show ?case
    by (simp add: aio_inv_def started_def init_time_def aio_create_completion_def)
next
  case (add n rs fin c c')
  then show ?case using aio_event_inv(1) [OF add.IH assms(2,3) add.hyps(2)] by simp
next
  case (compl n rs fin c r c')
  then show ?case using aio_event_inv(2) [OF compl.IH assms(2,3) compl.hyps(2)] by simp
next
  case (finish n rs fin c c')
  then show ?case using aio_event_inv(3) [OF finish.IH assms(2,3) finish.hyps(2)] by simp
qed

lemma reach_progress:
  assumes "reach t n rs fin c" "t \<noteq> AIO_TYPE_READ" "t \<noteq> AIO_TYPE_NONE"
  shows "allowed EAdd n rs fin \<Longrightarrow> \<exists>c'. reach t (Suc n) rs fin c'"
    and "allowed (EComplete r) n rs fin \<Longrightarrow> \<exists>c'. reach t n (rs @ [r]) fin c'"
    and "allowed EFinish n rs fin \<Longrightarrow> \<exists>c'. reach t n rs True c'"
  using aio_event_inv [OF reach_inv [OF assms] assms(2,3)] reach.add [OF assms(1)]
    reach.compl [OF assms(1)] reach.finish [OF assms(1)]
  by (metis Suc_eq_plus1)+

text \<open>What every completion promises, when all of its requests gave the results \<open>rs\<close>: it is done, and
  has called its callback once, when all is over; its value is an error exactly if one of the results is.\<close>

definition completes_once :: "bool \<Rightarrow> int list \<Rightarrow> AioCompletion \<Rightarrow> bool" where
  "completes_once over rs c \<longleftrightarrow>
     (c_done c \<longleftrightarrow> over) \<and> c_callbacks c = (if over then 1 else 0) \<and> c_ref c \<noteq> 0
     \<and> (c_rval c < 0 \<longleftrightarrow> (\<exists>r \<in> set rs. r < 0 \<and> r \<noteq> - EEXIST))
     \<and> (c_rval c < 0 \<longrightarrow> c_rval c \<in> set rs)
     \<and> (0 \<le> c_rval c \<longrightarrow> c_rval c = (\<Sum>r\<leftarrow>rs. max 0 r))"

lemma fold_rval_completes:
  assumes "c_rval c = fold_rval rs" "c_done c = over" "c_callbacks c = (if over then 1 else 0)" "c_ref c \<noteq> 0"
  shows "completes_once over rs c"
proof -
  have "fold_rval rs < 0 \<longleftrightarrow> (\<exists>r \<in> set rs. r < 0 \<and> r \<noteq> - EEXIST)"
    using fold_rval_nonneg [of rs] by (auto simp: not_le [symmetric])
  then show ?thesis
    using fold_rval_sum [of rs] fold_rval_error [of rs] assms(2-4) unfolding completes_once_def assms(1) by blast
qed

lemma reach_completes:
  assumes "reach t n rs fin c" "t \<noteq> AIO_TYPE_READ" "t \<noteq> AIO_TYPE_NONE"
  shows "(\<forall>e. allowed e n rs fin \<longrightarrow> (\<exists>c'. aio_event e c = Some c')) \<and> completes_once (fin \<and> length rs = n) rs c"
proof -
  have inv: "aio_inv t n rs fin c" by (rule reach_inv [OF assms])
  have "\<exists>c'. aio_event e c = Some c'" if "allowed e n rs fin" for e
    using that aio_event_inv [OF inv assms(2,3)] by (cases e) blast+
  moreover have "completes_once (fin \<and> length rs = n) rs c"
    using inv by (intro fold_rval_completes) (simp_all add: aio_inv_def)
  ultimately show ?thesis by blast
qed

lemma write_fails_once:
  "\<exists>c. reach AIO_TYPE_WRITE 2 [0, - 5] True c"
proof -
  note nxt = reach_progress [where t = AIO_TYPE_WRITE]
  obtain c1 where c1: "reach AIO_TYPE_WRITE 1 [] False c1"
    using nxt(1) [OF reach.start] by (auto simp: allowed_def)
  obtain c2 where c2: "reach AIO_TYPE_WRITE 1 [0] False c2"
    using nxt(2) [OF c1, of 0] by (auto simp: allowed_def)
  obtain c3 where c3: "reach AIO_TYPE_WRITE 2 [0] False c3"
    using nxt(1) [OF c2] by (auto simp: allowed_def numeral_2_eq_2)
  obtain c4 where c4: "reach AIO_TYPE_WRITE 2 [0] True c4"
    using nxt(3) [OF c3] by (auto simp: allowed_def)
  show ?thesis
    using nxt(2) [OF c4, of "- 5"] by (auto simp: allowed_def)
qed

end
