(* ===== verification/Aio_Request.thy ===== *)
theory Aio_Request
  imports Aio_Completion Rados_Io
begin

text \<open>
  \<open>librbd/AioRequest.h\<close> and \<open>AioRequest.cc\<close>: the request to one object. A read of a missing object
  is redirected to the parent image; a write to a missing object of a clone first copies the
  parent's data up (\<open>AbstractWrite\<close>, a state machine). A request is run here from its submission to
  its completion; the answer of the parent, a completion that may never come (\<open>None\<close>), is the
  argument \<open>parent_read\<close>. \<open>cluster\<close> maps pool ids to pools, and \<open>ev_fault\<close> gives the failures of
  the network. Snapshots of data objects are not modelled. Lemmas: the write machine stops after at
  most four results, the operations it sends, and what plain reads and writes of one object do.
\<close>

type_synonym cluster = "int \<Rightarrow> pool"

record io_env =
  ev_fiemap :: "u64 \<Rightarrow> u64 \<Rightarrow> bytes \<Rightarrow> (u64 \<times> u64) list"
  ev_fault :: "int \<Rightarrow> string \<Rightarrow> int"
  ev_refresh :: "ImageCtx \<Rightarrow> int \<times> ImageCtx"
  ev_elapsed :: u64

definition aio_operate ::
    "io_env \<Rightarrow> int \<Rightarrow> string \<Rightarrow> osd_op list \<Rightarrow> cluster \<Rightarrow> (int \<times> osd_out list \<times> cluster) option" where
  "aio_operate ev pid oid ops cl =
     map_option (\<lambda>(r, outs, p). (r, outs, cl(pid := p))) (rados_exec (ev_fault ev pid oid) oid ops (cl pid))"

subsection \<open>Reads\<close>

record AioRead =
  ar_pool :: int
  ar_oid :: string
  ar_object_no :: u64
  ar_object_off :: u64
  ar_object_len :: u64
  ar_buffer_extents :: "(u64 \<times> u64) list"
  ar_snap_id :: u64
  ar_sparse :: bool
  ar_tried_parent :: bool
  ar_read_data :: bytes
  ar_ext_map :: "(u64 \<times> u64) list"

datatype read_action = RDone int | RParent "(u64 \<times> u64) list"

text \<open>\<open>complete\<close> with \<open>should_complete\<close>; \<open>None\<close> is the \<open>assert(0 == "FIXME")\<close> or a failed layout assert.\<close>

definition read_complete :: "ImageCtx \<Rightarrow> int \<Rightarrow> AioRead \<Rightarrow> (read_action \<times> AioRead) option" where
  "read_complete ic r req =
     (if \<not> ar_tried_parent req \<and> r = - ENOENT
      then
        (case extent_to_file (ic_layout ic) (ar_object_no req) (ar_object_off req) (ar_object_len req) of
           None \<Rightarrow> None
         | Some image_extents \<Rightarrow>
             (case get_parent_overlap ic (ar_snap_id req) of
                None \<Rightarrow> None
              | Some image_overlap \<Rightarrow>
                  let (xs, object_overlap) = prune_parent_extents image_extents image_overlap in
                  if object_overlap \<noteq> 0 then Some (RParent xs, req\<lparr>ar_tried_parent := True\<rparr>)
                  else Some (RDone r, req)))
      else Some (RDone r, req))"

definition read_send :: "io_env \<Rightarrow> ImageCtx \<Rightarrow> cluster \<Rightarrow> AioRead \<Rightarrow> (int \<times> AioRead) option" where
  "read_send ev ic cl req =
     (let pid = data_ctx ic (ar_pool req); oid = ar_oid req; f = ev_fault ev pid oid in
      if f < 0 then Some (f, req)
      else if ar_sparse req
      then (let (r, m, d) = op_sparse_read (ev_fiemap ev) (ar_object_off req) (ar_object_len req) (cl pid oid)
            in Some (r, req\<lparr>ar_ext_map := m, ar_read_data := d\<rparr>))
      else map_option (\<lambda>(r, outs, _). (r, req\<lparr>ar_read_data := out_data outs\<rparr>))
             (rados_exec 0 oid [OpRead (ar_object_off req) (ar_object_len req) 0 0] (cl pid)))"

text \<open>
  A read from its submission to its last completion: the result code, the request with its data,
  and the parents as the parent's read leaves them.
\<close>

definition read_run ::
    "io_env \<Rightarrow> ((u64 \<times> u64) list \<Rightarrow> 'p \<Rightarrow> (int \<times> bytes \<times> 'p) option) \<Rightarrow> ImageCtx \<Rightarrow> cluster \<Rightarrow> AioRead \<Rightarrow>
     'p \<Rightarrow> (int \<times> AioRead \<times> 'p) option" where
  "read_run ev parent_read ic cl req ps =
     (case read_send ev ic cl req of
        None \<Rightarrow> None
      | Some (r, req1) \<Rightarrow>
          (case read_complete ic r req1 of
             None \<Rightarrow> None
           | Some (RDone r', req2) \<Rightarrow> Some (r', req2, ps)
           | Some (RParent xs, req2) \<Rightarrow>
               (case parent_read xs ps of
                  None \<Rightarrow> None
                | Some (r', d, ps') \<Rightarrow> Some (r', req2\<lparr>ar_read_data := d\<rparr>, ps'))))"

text \<open>\<open>C_AioRead::finish\<close>: file the data in the completion and complete one of its requests.\<close>

definition C_AioRead_finish :: "int \<Rightarrow> AioRead \<Rightarrow> AioCompletion \<Rightarrow> AioCompletion option" where
  "C_AioRead_finish r req c =
     (if 0 \<le> r \<or> r = - ENOENT
      then
        let m = (if ar_ext_map req = []
                 then [(ar_object_off req, of_nat (length (ar_read_data req)))] else ar_ext_map req)
        in (case add_partial_sparse_result (ar_read_data req) m (ar_object_off req)
                   (ar_buffer_extents req) (c_destriper c) of
              None \<Rightarrow> None
            | Some (_, partial) \<Rightarrow>
                complete_request (c_int (int (unat (ar_object_len req)))) (c\<lparr>c_destriper := partial\<rparr>))
      else complete_request r c)"

subsection \<open>Writes\<close>

datatype write_state = LIBRBD_AIO_WRITE_GUARD | LIBRBD_AIO_WRITE_COPYUP | LIBRBD_AIO_WRITE_FLAT

datatype write_kind = KWrite bytes | KRemove | KTruncate | KZero

record AbstractWrite =
  aw_kind :: write_kind
  aw_pool :: int
  aw_oid :: string
  aw_object_no :: u64
  aw_object_off :: u64
  aw_object_len :: u64
  aw_extents :: "(u64 \<times> u64) list"
  aw_overlap :: u64
  aw_state :: write_state
  aw_write :: "osd_op list"
  aw_hide_enoent :: bool
  aw_read_data :: bytes
  aw_parent_completion :: bool

definition has_parent :: "AbstractWrite \<Rightarrow> bool" where
  "has_parent aw \<longleftrightarrow> aw_extents aw \<noteq> []"

definition new_write ::
    "write_kind \<Rightarrow> int \<Rightarrow> string \<Rightarrow> u64 \<Rightarrow> u64 \<Rightarrow> u64 \<Rightarrow> (u64 \<times> u64) list \<Rightarrow> u64 \<Rightarrow> bool \<Rightarrow> AbstractWrite" where
  "new_write k pool oid ono off len objectx overlap hide =
     \<lparr>aw_kind = k, aw_pool = pool, aw_oid = oid, aw_object_no = ono, aw_object_off = off,
      aw_object_len = len, aw_extents = objectx, aw_overlap = overlap,
      aw_state = LIBRBD_AIO_WRITE_FLAT, aw_write = [], aw_hide_enoent = hide, aw_read_data = [],
      aw_parent_completion = False\<rparr>"

text \<open>\<open>assert_exists\<close> is a stat.\<close>

definition guard_write :: "AbstractWrite \<Rightarrow> AbstractWrite" where
  "guard_write aw =
     (if has_parent aw
      then aw\<lparr>aw_state := LIBRBD_AIO_WRITE_GUARD, aw_write := aw_write aw @ [OpStat]\<rparr> else aw)"

definition push_op :: "osd_op \<Rightarrow> AbstractWrite \<Rightarrow> AbstractWrite" where
  "push_op op aw = aw\<lparr>aw_write := aw_write aw @ [op]\<rparr>"

definition AioWrite ::
    "int \<Rightarrow> string \<Rightarrow> u64 \<Rightarrow> u64 \<Rightarrow> (u64 \<times> u64) list \<Rightarrow> u64 \<Rightarrow> bytes \<Rightarrow> AbstractWrite" where
  "AioWrite pool oid ono off objectx overlap d =
     push_op (OpWrite off (of_nat (length d)) d 0 0)
       (guard_write (new_write (KWrite d) pool oid ono off (of_nat (length d)) objectx overlap False))"

definition AioRemove :: "int \<Rightarrow> string \<Rightarrow> u64 \<Rightarrow> (u64 \<times> u64) list \<Rightarrow> u64 \<Rightarrow> AbstractWrite" where
  "AioRemove pool oid ono objectx overlap =
     (let aw = new_write KRemove pool oid ono 0 0 objectx overlap True in
      if has_parent aw then push_op (OpTruncate 0 0 0) aw else push_op OpDelete aw)"

definition AioTruncate :: "int \<Rightarrow> string \<Rightarrow> u64 \<Rightarrow> u64 \<Rightarrow> (u64 \<times> u64) list \<Rightarrow> u64 \<Rightarrow> AbstractWrite" where
  "AioTruncate pool oid ono off objectx overlap =
     push_op (OpTruncate off 0 0) (guard_write (new_write KTruncate pool oid ono off 0 objectx overlap True))"

definition AioZero :: "int \<Rightarrow> string \<Rightarrow> u64 \<Rightarrow> u64 \<Rightarrow> u64 \<Rightarrow> (u64 \<times> u64) list \<Rightarrow> u64 \<Rightarrow> AbstractWrite" where
  "AioZero pool oid ono off len objectx overlap =
     push_op (OpZero off len) (guard_write (new_write KZero pool oid ono off len objectx overlap True))"

definition add_copyup_ops :: "AbstractWrite \<Rightarrow> osd_op list option" where
  "add_copyup_ops aw =
     (case aw_kind aw of
        KWrite d \<Rightarrow> Some [OpWrite (aw_object_off aw) (of_nat (length d)) d 0 0]
      | KRemove \<Rightarrow> None
      | KTruncate \<Rightarrow> Some [OpTruncate (aw_object_off aw) 0 0]
      | KZero \<Rightarrow> Some [OpZero (aw_object_off aw) (aw_object_len aw)])"

definition copyup_ops :: "AbstractWrite \<Rightarrow> osd_op list option" where
  "copyup_ops aw =
     map_option (\<lambda>ops. (if list_all (\<lambda>b. b = 0) (aw_read_data aw) then [] else [OpCopyup (aw_read_data aw)]) @ ops)
       (add_copyup_ops aw)"

datatype write_action = WDone int | WCopyup | WParent "(u64 \<times> u64) list"

text \<open>The guard found that the object does not exist.\<close>

definition guard_enoent :: "ImageCtx \<Rightarrow> AbstractWrite \<Rightarrow> (write_action \<times> AbstractWrite) option" where
  "guard_enoent ic aw =
     (if \<not> ic_has_parent ic then Some (WCopyup, aw\<lparr>aw_state := LIBRBD_AIO_WRITE_FLAT\<rparr>)
      else
        let (xs, newlen) = prune_parent_extents (aw_extents aw) (pi_overlap (ic_parent_md ic)) in
        if newlen \<noteq> 0
        then (if aw_parent_completion aw then None
              else Some (WParent xs, aw\<lparr>aw_extents := xs, aw_state := LIBRBD_AIO_WRITE_COPYUP,
                                        aw_parent_completion := True\<rparr>))
        else Some (WCopyup, aw\<lparr>aw_extents := [], aw_state := LIBRBD_AIO_WRITE_FLAT\<rparr>))"

definition write_complete :: "ImageCtx \<Rightarrow> int \<Rightarrow> AbstractWrite \<Rightarrow> (write_action \<times> AbstractWrite) option" where
  "write_complete ic r aw =
     (case aw_state aw of
        LIBRBD_AIO_WRITE_GUARD \<Rightarrow>
          if r = - ENOENT then guard_enoent ic aw else Some (WDone r, aw)
      | LIBRBD_AIO_WRITE_COPYUP \<Rightarrow>
          (let aw1 = aw\<lparr>aw_state := LIBRBD_AIO_WRITE_GUARD\<rparr> in
           if r < 0 then (if r = - ENOENT then guard_enoent ic aw1 else Some (WDone r, aw1))
           else Some (WCopyup, aw1))
      | LIBRBD_AIO_WRITE_FLAT \<Rightarrow> Some (WDone r, aw))"

text \<open>What \<open>complete\<close> hands on.\<close>

definition final_code :: "AbstractWrite \<Rightarrow> int \<Rightarrow> int" where
  "final_code aw r = (if aw_hide_enoent aw \<and> r = - ENOENT then 0 else r)"

text \<open>
  From a result code to the completion. The copyup goes to \<open>md_ctx[DEFAULT_POOL]\<close>, whatever pool
  the request itself was sent to.
\<close>

fun write_drive ::
    "nat \<Rightarrow> io_env \<Rightarrow> ((u64 \<times> u64) list \<Rightarrow> 'p \<Rightarrow> (int \<times> bytes \<times> 'p) option) \<Rightarrow> ImageCtx \<Rightarrow> int \<Rightarrow>
     AbstractWrite \<Rightarrow> cluster \<Rightarrow> 'p \<Rightarrow> (int \<times> AbstractWrite \<times> cluster \<times> 'p) option" where
  "write_drive 0 ev parent_read ic r aw cl ps = None"
| "write_drive (Suc n) ev parent_read ic r aw cl ps =
     (case write_complete ic r aw of
        None \<Rightarrow> None
      | Some (WDone r', aw') \<Rightarrow> Some (final_code aw' r', aw', cl, ps)
      | Some (WCopyup, aw') \<Rightarrow>
          (case copyup_ops aw' of
             None \<Rightarrow> None
           | Some ops \<Rightarrow>
               (case aio_operate ev (data_ctx ic DEFAULT_POOL) (aw_oid aw') ops cl of
                  None \<Rightarrow> None
                | Some (r', _, cl') \<Rightarrow> write_drive n ev parent_read ic r' aw' cl' ps))
      | Some (WParent xs, aw') \<Rightarrow>
          (case parent_read xs ps of
             None \<Rightarrow> None
           | Some (r', d, ps') \<Rightarrow> write_drive n ev parent_read ic r' (aw'\<lparr>aw_read_data := d\<rparr>) cl ps'))"

definition write_run ::
    "io_env \<Rightarrow> ((u64 \<times> u64) list \<Rightarrow> 'p \<Rightarrow> (int \<times> bytes \<times> 'p) option) \<Rightarrow> ImageCtx \<Rightarrow> AbstractWrite \<Rightarrow>
     cluster \<Rightarrow> 'p \<Rightarrow> (int \<times> AbstractWrite \<times> cluster \<times> 'p) option" where
  "write_run ev parent_read ic aw cl ps =
     (if aw_write aw = [] then None
      else
        (case aio_operate ev (data_ctx ic (aw_pool aw)) (aw_oid aw) (aw_write aw) cl of
           None \<Rightarrow> None
         | Some (r, _, cl') \<Rightarrow> write_drive 4 ev parent_read ic r aw cl' ps))"


subsection \<open>The write machine stops\<close>

definition wrank :: "AbstractWrite \<Rightarrow> nat" where
  "wrank aw = (case aw_state aw of
     LIBRBD_AIO_WRITE_FLAT \<Rightarrow> 1
   | LIBRBD_AIO_WRITE_GUARD \<Rightarrow> (if aw_parent_completion aw then 2 else 4)
   | LIBRBD_AIO_WRITE_COPYUP \<Rightarrow> 3)"

definition wstate_ok :: "AbstractWrite \<Rightarrow> bool" where
  "wstate_ok aw \<longleftrightarrow> (aw_state aw = LIBRBD_AIO_WRITE_COPYUP \<longrightarrow> aw_parent_completion aw)"

lemma guard_enoent_rank:
  "guard_enoent ic aw = Some (act, aw') \<Longrightarrow> (\<forall>r. act \<noteq> WDone r) \<and> wstate_ok aw' \<and>
     wrank aw' < (if aw_parent_completion aw then 2 else 4)"
  by (auto simp: guard_enoent_def wrank_def wstate_ok_def split: if_splits prod.splits)

lemma write_complete_rank:
  assumes "write_complete ic r aw = Some (act, aw')" "wstate_ok aw"
  shows "(\<exists>r'. act = WDone r') \<or> (wrank aw' < wrank aw \<and> wstate_ok aw')"
  using assms guard_enoent_rank [of ic _ act aw']
  by (cases "aw_state aw")
    (fastforce simp: write_complete_def wrank_def wstate_ok_def Let_def split: if_splits)+

lemma wrank_bounds: "1 \<le> wrank aw" "wrank aw \<le> 4"
  by (auto simp: wrank_def split: write_state.splits)

lemma rank_read_data [simp]:
  "wrank (aw\<lparr>aw_read_data := d\<rparr>) = wrank aw" "wstate_ok (aw\<lparr>aw_read_data := d\<rparr>) = wstate_ok aw"
  by (simp_all add: wrank_def wstate_ok_def)

lemma write_drive_fuel:
  assumes "wstate_ok aw" "wrank aw \<le> n"
  shows "write_drive (n + k) ev pr ic r aw cl ps = write_drive n ev pr ic r aw cl ps"
  using assms
proof (induction n arbitrary: r aw cl ps)
  case 0
  then show ?case using wrank_bounds(1) [of aw] by simp
next
  case (Suc n)
  have next_ok: "wstate_ok aw' \<and> wrank aw' \<le> n"
    if "write_complete ic r aw = Some (act, aw')" "\<forall>r. act \<noteq> WDone r" for act aw'
    using write_complete_rank [OF that(1) Suc.prems(1)] that(2) Suc.prems(2) by auto
  show ?case
  proof (cases "write_complete ic r aw")
    case None
    then show ?thesis by simp
  next
    case (Some p)
    obtain act aw' where p: "write_complete ic r aw = Some (act, aw')" using Some by (cases p) simp
    show ?thesis
    proof (cases act)
      case (WDone r')
      then show ?thesis using p by simp
    next
      case WCopyup
      then have "wstate_ok aw' \<and> wrank aw' \<le> n" using next_ok [OF p] by simp
      then show ?thesis using p WCopyup Suc.IH by (simp split: option.splits)
    next
      case (WParent xs)
      then have "wstate_ok aw' \<and> wrank aw' \<le> n" using next_ok [OF p] by simp
      then show ?thesis using p WParent Suc.IH by (simp split: option.splits)
    qed
  qed
qed

definition write_start :: "AbstractWrite \<Rightarrow> bool" where
  "write_start aw \<longleftrightarrow> aw_state aw \<noteq> LIBRBD_AIO_WRITE_COPYUP \<and> \<not> aw_parent_completion aw"

lemma write_start_new [simp]:
  "write_start (AioWrite pool oid ono off ox ov d)" "write_start (AioRemove pool oid ono ox ov)"
  "write_start (AioTruncate pool oid ono off ox ov)" "write_start (AioZero pool oid ono off len ox ov)"
  by (auto simp: write_start_def AioWrite_def AioRemove_def AioTruncate_def AioZero_def push_op_def
      guard_write_def new_write_def Let_def)

text \<open>The write machine is finished after at most four result codes: for every request as it is
  constructed, running it with more than the four rounds of \<open>write_run\<close> gives the same outcome. So
  an outcome \<open>None\<close> is a failed assert or a parent that never answers, not a lack of rounds.\<close>

theorem write_machine_stops:
  assumes "write_start aw"
  shows "write_drive (4 + k) ev pr ic r aw cl ps = write_drive 4 ev pr ic r aw cl ps"
  using assms wrank_bounds(2) [of aw]
  by (intro write_drive_fuel) (auto simp: wstate_ok_def write_start_def)

lemma write_machine_stops_witness:
  "write_drive (4 + 3) \<lparr>ev_fiemap = fiemap_default, ev_fault = \<lambda>_ _. 0, ev_refresh = \<lambda>ic. (0, ic), ev_elapsed = 0\<rparr>
     (\<lambda>_ _. None) image_9M (- 2) (AioZero 0 ''o'' 0 4 4 [] 0) (\<lambda>_ _. None) ()
   = write_drive 4 \<lparr>ev_fiemap = fiemap_default, ev_fault = \<lambda>_ _. 0, ev_refresh = \<lambda>ic. (0, ic), ev_elapsed = 0\<rparr>
     (\<lambda>_ _. None) image_9M (- 2) (AioZero 0 ''o'' 0 4 4 [] 0) (\<lambda>_ _. None) ()"
  by (rule write_machine_stops) simp

subsection \<open>Requests to objects without a parent\<close>

text \<open>The write reaches the object store: the range lies in an object of ordinary size.\<close>

definition range_ok :: "u64 \<Rightarrow> nat \<Rightarrow> bool" where
  "range_ok off n \<longleftrightarrow> unat off + n \<le> 4294967296"

lemma range_ok_check:
  assumes "range_ok off n"
  shows "unat (of_nat n :: u64) = n"
    "\<not> check_offset_and_length off (of_nat n) osd_max_object_size < 0"
proof -
  have n: "n \<le> 4294967296" "unat off \<le> 4294967296" using assms by (simp_all add: range_ok_def)
  show u: "unat (of_nat n :: u64) = n" using n(1) by (simp add: unat_of_nat take_bit_nat_eq_self)
  have "unat (off + of_nat n) = unat off + n"
    using assms u by (subst unat_add_lt) (simp_all add: range_ok_def)
  then have "off < osd_max_object_size" "(of_nat n :: u64) \<le> osd_max_object_size"
    "off + of_nat n \<le> osd_max_object_size"
    using n u assms by (simp_all add: osd_max_object_size_def word_less_nat_alt word_le_nat_alt range_ok_def)
  then show "\<not> check_offset_and_length off (of_nat n) osd_max_object_size < 0"
    by (simp add: check_offset_and_length_def not_le not_less)
qed

definition seq_zero :: "osd_object option \<Rightarrow> bool" where
  "seq_zero obs \<longleftrightarrow> (case obs of Some ob \<Rightarrow> od_truncate_seq ob = 0 | None \<Rightarrow> True)"

text \<open>An object that grew to at most a given size, with the watchers it had.\<close>

definition grown :: "nat \<Rightarrow> osd_object option \<Rightarrow> osd_object \<Rightarrow> bool" where
  "grown n obs ob \<longleftrightarrow>
     length (od_data ob) \<le> max n (case obs of Some o1 \<Rightarrow> length (od_data o1) | None \<Rightarrow> 0) \<and>
     od_watchers ob = (case obs of Some o1 \<Rightarrow> od_watchers o1 | None \<Rightarrow> 0)"

lemma grown_trans: "grown n obs ob \<Longrightarrow> grown n (Some ob) ob2 \<Longrightarrow> grown n obs ob2"
  by (auto simp: grown_def)

lemma grown_mono: "grown n obs ob \<Longrightarrow> n \<le> m \<Longrightarrow> grown m obs ob"
  by (auto simp: grown_def)

lemma aio_operate_write:
  assumes "range_ok off (length d)" "seq_zero (cl pid oid)" "\<not> ev_fault ev pid oid < 0"
  shows "\<exists>ob'. aio_operate ev pid oid [OpWrite off (of_nat (length d)) d 0 0] cl
      = Some (0, [NoOut], cl(pid := (cl pid)(oid := Some ob')))
    \<and> od_truncate_seq ob' = 0 \<and> grown (unat off + length d) (cl pid oid) ob'
    \<and> (\<forall>i. byte_at (od_data ob') i =
         (if unat off \<le> i \<and> i < unat off + length d then d ! (i - unat off) else obj_bytes (cl pid oid) i))"
proof -
  note r = range_ok_check [OF assms(1)]
  obtain ob' where w: "op_write osd_max_object_size off (of_nat (length d)) d 0 0 (cl pid oid) = (0, NoOut, Some ob')"
    "od_truncate_seq ob' = 0"
    "od_data ob' = file_write (unat off) d (case cl pid oid of Some ob \<Rightarrow> od_data ob | None \<Rightarrow> [])"
    "od_watchers ob' = (case cl pid oid of Some ob \<Rightarrow> od_watchers ob | None \<Rightarrow> 0)"
    using op_write_plain [OF r(1,2), of "cl pid oid"] assms(2) by (auto simp: seq_zero_def)
  have "aio_operate ev pid oid [OpWrite off (of_nat (length d)) d 0 0] cl
      = Some (0, [NoOut], cl(pid := (cl pid)(oid := Some ob')))"
    using assms(3) by (simp add: aio_operate_def rados_exec_def prepare_transaction_single w(1))
  moreover have "byte_at (od_data ob') i =
         (if unat off \<le> i \<and> i < unat off + length d then d ! (i - unat off) else obj_bytes (cl pid oid) i)" for i
    by (cases "cl pid oid") (simp_all add: w(3) byte_at_write)
  moreover have "grown (unat off + length d) (cl pid oid) ob'"
    by (auto simp: grown_def w(3,4) length_file_write split: option.splits)
  ultimately show ?thesis using w(2) by blast
qed

lemma write_drive_flat:
  "aw_state aw = LIBRBD_AIO_WRITE_FLAT \<Longrightarrow>
     write_drive 4 ev pr ic r aw cl ps = Some (final_code aw r, aw, cl, ps)"
  by (simp add: numeral_eq_Suc write_complete_def)

lemma write_run_plain:
  assumes "range_ok off (length d)" "seq_zero (cl (data_ctx ic pool) oid)"
    "\<not> ev_fault ev (data_ctx ic pool) oid < 0"
  shows "\<exists>ob'. write_run ev pr ic (AioWrite pool oid ono off [] ov d) cl ps
      = Some (0, AioWrite pool oid ono off [] ov d,
              cl(data_ctx ic pool := (cl (data_ctx ic pool))(oid := Some ob')), ps)
    \<and> od_truncate_seq ob' = 0 \<and> grown (unat off + length d) (cl (data_ctx ic pool) oid) ob'
    \<and> (\<forall>i. byte_at (od_data ob') i =
         (if unat off \<le> i \<and> i < unat off + length d then d ! (i - unat off)
          else obj_bytes (cl (data_ctx ic pool) oid) i))"
proof -
  let ?aw = "AioWrite pool oid ono off [] ov d"
  have aw: "aw_write ?aw = [OpWrite off (of_nat (length d)) d 0 0]" "aw_pool ?aw = pool" "aw_oid ?aw = oid"
    "aw_state ?aw = LIBRBD_AIO_WRITE_FLAT" "aw_hide_enoent ?aw = False"
    by (simp_all add: AioWrite_def push_op_def guard_write_def new_write_def has_parent_def)
  show ?thesis
    using aio_operate_write [where ev = ev and cl = cl and pid = "data_ctx ic pool" and oid = oid, OF assms]
    by (auto simp: write_run_def aw write_drive_flat final_code_def)
qed

text \<open>A sparse read through the default extent map.\<close>

lemma read_run_plain:
  assumes "ev_fiemap ev = fiemap_default" "\<not> ev_fault ev (data_ctx ic pool) oid < 0"
    "get_parent_overlap ic sid = Some 0" "len \<noteq> 0" "lo_su (ic_layout ic) \<noteq> 0" "layout_ok (ic_layout ic)"
    and req: "req = \<lparr>ar_pool = pool, ar_oid = oid, ar_object_no = ono, ar_object_off = off, ar_object_len = len,
                ar_buffer_extents = be, ar_snap_id = sid, ar_sparse = True, ar_tried_parent = False,
                ar_read_data = [], ar_ext_map = []\<rparr>"
  shows "\<exists>r d m. read_run ev pr ic cl req ps = Some (r, req\<lparr>ar_read_data := d, ar_ext_map := m\<rparr>, ps)
    \<and> (r = 0 \<or> r = - ENOENT)
    \<and> d = (case cl (data_ctx ic pool) oid of Some ob \<Rightarrow> file_read (unat off) (unat len) (od_data ob) | None \<Rightarrow> [])
    \<and> (m = [] \<and> d = [] \<or> m = [(off, of_nat (length d))])"
proof -
  have plen: "0 < unat len" using assms(4) unfolding unat_pos_u64 .
  show ?thesis
  proof (cases "cl (data_ctx ic pool) oid")
    case None
    obtain xs where "extent_to_file (ic_layout ic) ono off len = Some xs"
      using assms(4,6) by (simp add: extent_to_file_def layout_ok_def not_less)
    moreover have "prune_parent_extents ys 0 = ([], 0)" for ys
      by (simp add: prune_parent_extents_def Let_def dropWhile_eq_Nil_conv [THEN iffD2])
    ultimately show ?thesis
      using None assms(1-3)
      by (simp add: read_run_def read_send_def read_complete_def req op_sparse_read_def)
  next
    case (Some ob)
    let ?d = "file_read (unat off) (unat len) (od_data ob)"
    have "length ?d \<le> unat len" using plen by (simp add: file_read_def)
    then have "(if length ?d < unat len then of_nat (length ?d) else len) = (of_nat (length ?d) :: u64)"
      by auto
    then show ?thesis
      using Some assms(1,2)
      by (simp add: read_run_def read_send_def read_complete_def req op_sparse_read_def fiemap_default_def)
  qed
qed


subsection \<open>Copy-up\<close>

lemma op_copyup_new:
  assumes "range_ok 0 (length pd)"
  shows "\<exists>ob. op_copyup osd_max_object_size pd None = (0, NoOut, Some ob) \<and> od_truncate_seq ob = 0
    \<and> (\<forall>i. byte_at (od_data ob) i = byte_at pd i)"
proof -
  note r = range_ok_check [OF assms]
  obtain ob where w: "op_write osd_max_object_size 0 (of_nat (length pd)) pd 0 0 None = (0, NoOut, Some ob)"
    "od_truncate_seq ob = 0" "od_data ob = file_write (unat 0) pd []"
    using op_write_plain [OF r(1,2), of None] by auto
  have "byte_at (od_data ob) i = byte_at pd i" for i
    by (simp add: w(3) byte_at_write) (simp add: byte_at_def)
  then show ?thesis using w(1,2) by (simp add: op_copyup_def op_stat_def)
qed

text \<open>The copyup operation itself: the data of the parent where there is no object yet, then the write.\<close>

lemma do_copyup_ops:
  assumes "range_ok off (length d)" "range_ok 0 (length pd)" "seq_zero obs"
    and ops: "ops = (if list_all (\<lambda>b. b = 0) pd then [] else [OpCopyup pd]) @ [OpWrite off (of_nat (length d)) d 0 0]"
  shows "\<exists>outs ob'. prepare_transaction osd_max_object_size ops obs = Some (0, outs, Some ob')
    \<and> (\<forall>i. byte_at (od_data ob') i =
         (if unat off \<le> i \<and> i < unat off + length d then d ! (i - unat off)
          else if obs = None then byte_at pd i else obj_bytes obs i))"
proof -
  note r = range_ok_check [OF assms(1)]
  have wr: "\<exists>ob'. op_write osd_max_object_size off (of_nat (length d)) d 0 0 obs1 = (0, NoOut, Some ob')
      \<and> (\<forall>i. byte_at (od_data ob') i =
         (if unat off \<le> i \<and> i < unat off + length d then d ! (i - unat off) else obj_bytes obs1 i))"
    if sq: "seq_zero obs1" for obs1
  proof -
    obtain ob' where "op_write osd_max_object_size off (of_nat (length d)) d 0 0 obs1 = (0, NoOut, Some ob')"
      "od_data ob' = file_write (unat off) d (case obs1 of Some ob \<Rightarrow> od_data ob | None \<Rightarrow> [])"
      using op_write_plain [OF r(1,2) sq [unfolded seq_zero_def], of 0] by blast
    then show ?thesis by (cases obs1) (simp_all add: byte_at_write)
  qed
  show ?thesis
  proof (cases "list_all (\<lambda>b. b = 0) pd")
    case True
    then have "byte_at pd i = 0" for i by (auto simp: byte_at_def list_all_length)
    then show ?thesis
      using wr [OF assms(3)] True by (auto simp: ops prepare_transaction_single)
  next
    case False
    show ?thesis
    proof (cases obs)
      case None
      obtain ob1 where ob1: "op_copyup osd_max_object_size pd None = (0, NoOut, Some ob1)"
        "seq_zero (Some ob1)" "\<forall>i. byte_at (od_data ob1) i = byte_at pd i"
        using op_copyup_new [OF assms(2)] by (auto simp: seq_zero_def)
      obtain ob' where o: "op_write osd_max_object_size off (of_nat (length d)) d 0 0 (Some ob1) = (0, NoOut, Some ob')"
        and b: "\<forall>i. byte_at (od_data ob') i =
          (if unat off \<le> i \<and> i < unat off + length d then d ! (i - unat off) else obj_bytes (Some ob1) i)"
        using wr [OF ob1(2)] by blast
      have "prepare_transaction osd_max_object_size ops obs = Some (0, [NoOut, NoOut], Some ob')"
        using False None ob1(1) o by (simp add: ops prepare_transaction_def)
      then show ?thesis using b ob1(3) None by (intro exI [of _ "[NoOut, NoOut]"] exI [of _ ob']) simp
    next
      case (Some ob)
      then have cu: "op_copyup osd_max_object_size pd obs = (0, NoOut, obs)"
        by (simp add: op_copyup_def op_stat_def)
      obtain ob' where o: "op_write osd_max_object_size off (of_nat (length d)) d 0 0 obs = (0, NoOut, Some ob')"
        and b: "\<forall>i. byte_at (od_data ob') i =
          (if unat off \<le> i \<and> i < unat off + length d then d ! (i - unat off) else obj_bytes obs i)"
        using wr [OF assms(3)] by blast
      have "prepare_transaction osd_max_object_size ops obs = Some (0, [NoOut, NoOut], Some ob')"
        using False cu o by (simp add: ops prepare_transaction_def)
      then show ?thesis using b Some by (intro exI [of _ "[NoOut, NoOut]"] exI [of _ ob']) simp
    qed
  qed
qed

lemma guarded_missing:
  "\<not> ev_fault ev pid oid < 0 \<Longrightarrow> cl pid oid = None \<Longrightarrow>
     aio_operate ev pid oid [OpStat, op] cl = Some (- ENOENT, [NoOut], cl)"
  by (simp add: aio_operate_def rados_exec_def prepare_transaction_def op_stat_def)
    (simp add: fun_upd_idem)

text \<open>A write to a missing object of a clone, whichever pool it was sent to.\<close>

lemma copyup_run:
  assumes "objectx \<noteq> []" "ic_has_parent ic"
    and prune: "prune_parent_extents objectx (pi_overlap (ic_parent_md ic)) = (xs, n)" "n \<noteq> 0"
    and missing: "cl (data_ctx ic pool) oid = None"
    and pr: "pr xs ps = Some (r, pd, ps')" "0 \<le> r"
    and ok: "range_ok off (length d)" "range_ok 0 (length pd)" "\<And>pid. \<not> ev_fault ev pid oid < 0"
      "seq_zero (cl (ic_hdd_id ic) oid)"
  shows "\<exists>ob' aw'. write_run ev pr ic (AioWrite pool oid ono off objectx ov d) cl ps
      = Some (0, aw', cl(ic_hdd_id ic := (cl (ic_hdd_id ic))(oid := Some ob')), ps')
    \<and> (\<forall>i. byte_at (od_data ob') i =
         (if unat off \<le> i \<and> i < unat off + length d then d ! (i - unat off)
          else if cl (ic_hdd_id ic) oid = None then byte_at pd i else obj_bytes (cl (ic_hdd_id ic) oid) i))"
proof -
  let ?aw = "AioWrite pool oid ono off objectx ov d" and ?w = "OpWrite off (of_nat (length d)) d 0 0"
  let ?hdd = "ic_hdd_id ic"
  have aw: "aw_write ?aw = [OpStat, ?w]" "aw_pool ?aw = pool" "aw_oid ?aw = oid" "aw_extents ?aw = objectx"
    "aw_state ?aw = LIBRBD_AIO_WRITE_GUARD" "\<not> aw_parent_completion ?aw" "aw_kind ?aw = KWrite d"
    "aw_object_off ?aw = off" "aw_hide_enoent ?aw = False"
    using assms(1) by (simp_all add: AioWrite_def push_op_def guard_write_def new_write_def has_parent_def)
  define a1 where
    "a1 = ?aw\<lparr>aw_extents := xs, aw_state := LIBRBD_AIO_WRITE_COPYUP, aw_parent_completion := True\<rparr>"
  define a2 where "a2 = a1\<lparr>aw_read_data := pd, aw_state := LIBRBD_AIO_WRITE_GUARD\<rparr>"
  define ops where "ops = (if list_all (\<lambda>b. b = 0) pd then [] else [OpCopyup pd]) @ [?w]"
  obtain outs ob' where t: "prepare_transaction osd_max_object_size ops (cl ?hdd oid) = Some (0, outs, Some ob')"
    and bytes: "\<forall>i. byte_at (od_data ob') i =
         (if unat off \<le> i \<and> i < unat off + length d then d ! (i - unat off)
          else if cl ?hdd oid = None then byte_at pd i else obj_bytes (cl ?hdd oid) i)"
    using do_copyup_ops [OF ok(1,2,4) ops_def] by blast
  have c1: "write_complete ic (- ENOENT) ?aw = Some (WParent xs, a1)"
    using assms(2) prune by (simp add: write_complete_def aw guard_enoent_def a1_def)
  have c2: "write_complete ic r (a1\<lparr>aw_read_data := pd\<rparr>) = Some (WCopyup, a2)"
    using pr(2) by (simp add: write_complete_def Let_def a2_def a1_def)
  have o2: "copyup_ops a2 = Some ops"
    by (simp add: copyup_ops_def add_copyup_ops_def aw ops_def a2_def a1_def)
  have x2: "aio_operate ev ?hdd oid ops cl = Some (0, outs, cl(?hdd := (cl ?hdd)(oid := Some ob')))"
    using ok(3) [of ?hdd] t by (simp add: aio_operate_def rados_exec_def)
  have c3: "write_complete ic 0 a2 = Some (WDone 0, a2)"
    by (simp add: write_complete_def a2_def)
  have "write_run ev pr ic ?aw cl ps = write_drive 4 ev pr ic (- ENOENT) ?aw cl ps"
    using guarded_missing [where cl = cl, OF ok(3) missing, of ?w] by (simp add: write_run_def aw)
  also have "\<dots> = write_drive 3 ev pr ic r (a1\<lparr>aw_read_data := pd\<rparr>) cl ps'"
    by (simp add: eval_nat_numeral c1 pr(1))
  also have "\<dots> = write_drive 2 ev pr ic 0 a2 (cl(?hdd := (cl ?hdd)(oid := Some ob'))) ps'"
  proof -
    have "aw_oid a2 = oid" by (simp add: aw a2_def a1_def)
    moreover have "data_ctx ic DEFAULT_POOL = ?hdd" by (simp add: data_ctx_def whobbs_consts)
    ultimately show ?thesis by (simp add: eval_nat_numeral c2 o2 x2)
  qed
  also have "\<dots> = Some (0, a2, cl(?hdd := (cl ?hdd)(oid := Some ob')), ps')"
  proof -
    have "final_code a2 0 = 0" by (simp add: final_code_def)
    then show ?thesis by (simp add: eval_nat_numeral c3)
  qed
  finally show ?thesis using bytes by blast
qed

text \<open>Copy-up on the HDD pool: a write to an object that the clone does not have yet, while the
  parent overlaps it, creates the object with the parent's data and the written range on top, and
  is acknowledged with 0; no other object changes.\<close>

theorem copyup_merges:
  assumes "objectx \<noteq> []" "ic_has_parent ic"
    "prune_parent_extents objectx (pi_overlap (ic_parent_md ic)) = (xs, n)" "n \<noteq> 0"
    "cl (ic_hdd_id ic) oid = None" "pr xs ps = Some (r, pd, ps')" "0 \<le> r"
    "range_ok off (length d)" "range_ok 0 (length pd)" "\<And>pid. \<not> ev_fault ev pid oid < 0"
  shows "\<exists>ob' aw'. write_run ev pr ic (AioWrite HDD_POOL oid ono off objectx ov d) cl ps
      = Some (0, aw', cl(ic_hdd_id ic := (cl (ic_hdd_id ic))(oid := Some ob')), ps')
    \<and> (\<forall>i. byte_at (od_data ob') i =
         (if unat off \<le> i \<and> i < unat off + length d then d ! (i - unat off) else byte_at pd i))"
proof -
  have "cl (data_ctx ic HDD_POOL) oid = None" using assms(5) by (simp add: data_ctx_def whobbs_consts)
  moreover have "seq_zero (cl (ic_hdd_id ic) oid)" using assms(5) by (simp add: seq_zero_def)
  ultimately show ?thesis
    using copyup_run [where ev = ev and pr = pr and ic = ic and cl = cl and pool = HDD_POOL and oid = oid,
        OF assms(1-4) _ assms(6-10)]
    unfolding assms(5) simp_thms if_True by blast
qed

definition clone_9M :: ImageCtx where
  "clone_9M = image_9M\<lparr>ic_has_parent := True,
     ic_parent_md := \<lparr>pi_spec = \<lparr>ps_pool_id = 9, ps_image_id = ''p'', ps_snap_id = 4\<rparr>, pi_overlap = 6\<rparr>\<rparr>"

definition quiet_env :: io_env where
  "quiet_env = \<lparr>ev_fiemap = fiemap_default, ev_fault = \<lambda>_ _. 0, ev_refresh = \<lambda>ic. (0, ic), ev_elapsed = 0\<rparr>"

lemma copyup_merges_witness:
  "\<exists>ob' aw'. write_run quiet_env (\<lambda>xs ps. Some (6, [1, 2, 3, 4, 5, 6], ps)) clone_9M
       (AioWrite HDD_POOL ''o'' 0 2 [(0, 4194304)] 6 [9]) (\<lambda>_ _. None) ()
      = Some (0, aw', (\<lambda>_ _. None)(ic_hdd_id clone_9M := [''o'' \<mapsto> ob']), ())
    \<and> byte_at (od_data ob') 1 = 2 \<and> byte_at (od_data ob') 2 = 9"
proof -
  have pr: "prune_parent_extents [(0, 4194304)] (pi_overlap (ic_parent_md clone_9M)) = ([(0, 6)], 6)"
    by (simp add: prune_parent_extents_def clone_9M_def)
  have "\<exists>ob' aw'. write_run quiet_env (\<lambda>xs ps. Some (6, [1, 2, 3, 4, 5, 6], ps)) clone_9M
       (AioWrite HDD_POOL ''o'' 0 2 [(0, 4194304)] 6 [9]) (\<lambda>_ _. None) ()
      = Some (0, aw', (\<lambda>_ _. None)(ic_hdd_id clone_9M := [''o'' \<mapsto> ob']), ())
    \<and> (\<forall>i. byte_at (od_data ob') i =
         (if unat (2 :: u64) \<le> i \<and> i < unat (2 :: u64) + length [9 :: u8] then [9] ! (i - unat (2 :: u64)) else byte_at [1, 2, 3, 4, 5, 6] i))"
    by (rule copyup_merges [where ps = "()" and cl = "\<lambda>_ _. None" and r = 6, OF _ _ pr]) (simp_all add: clone_9M_def range_ok_def quiet_env_def)
  then obtain ob' aw' where w: "write_run quiet_env (\<lambda>xs ps. Some (6, [1, 2, 3, 4, 5, 6], ps)) clone_9M
       (AioWrite HDD_POOL ''o'' 0 2 [(0, 4194304)] 6 [9]) (\<lambda>_ _. None) ()
      = Some (0, aw', (\<lambda>_ _. None)(ic_hdd_id clone_9M := [''o'' \<mapsto> ob']), ())"
    and b: "\<And>i. byte_at (od_data ob') i =
         (if unat (2 :: u64) \<le> i \<and> i < unat (2 :: u64) + length [9 :: u8] then [9] ! (i - unat (2 :: u64)) else byte_at [1, 2, 3, 4, 5, 6] i)"
    by blast
  have "byte_at (od_data ob') 1 = 2" "byte_at (od_data ob') 2 = 9"
    using b [of 1] b [of 2] by (simp_all add: byte_at_def [of "[1, 2, 3, 4, 5, 6]"])
  then show ?thesis using w by blast
qed

text \<open>C37. Copy-up misses the SSD pool: when the extent lives on the SSD pool, the guarded write to the
  missing object is acknowledged with 0 although the SSD pool is left without the object - the
  copyup created or changed the object of that name in the HDD pool. A later read of the extent
  goes to the SSD pool and does not see the write.\<close>

theorem copyup_misses_ssd:
  assumes "objectx \<noteq> []" "ic_has_parent ic" "ic_ssd_id ic \<noteq> ic_hdd_id ic"
    "prune_parent_extents objectx (pi_overlap (ic_parent_md ic)) = (xs, n)" "n \<noteq> 0"
    "cl (ic_ssd_id ic) oid = None" "pr xs ps = Some (r, pd, ps')" "0 \<le> r"
    "range_ok off (length d)" "range_ok 0 (length pd)" "\<And>pid. \<not> ev_fault ev pid oid < 0"
    "seq_zero (cl (ic_hdd_id ic) oid)"
  shows "\<exists>aw' cl'. write_run ev pr ic (AioWrite SSD_POOL oid ono off objectx ov d) cl ps = Some (0, aw', cl', ps')
    \<and> cl' (data_ctx ic SSD_POOL) oid = None \<and> cl' (data_ctx ic HDD_POOL) oid \<noteq> None"
proof -
  have ctx: "data_ctx ic SSD_POOL = ic_ssd_id ic" "data_ctx ic HDD_POOL = ic_hdd_id ic"
    by (simp_all add: data_ctx_def whobbs_consts)
  then have "cl (data_ctx ic SSD_POOL) oid = None" using assms(6) by simp
  from copyup_run [where ev = ev and pr = pr and ic = ic and cl = cl and pool = SSD_POOL and oid = oid,
      OF assms(1,2,4,5) this assms(7-12)]
  show ?thesis using assms(3,6) ctx by fastforce
qed

lemma copyup_misses_ssd_witness:
  "\<exists>aw' cl'. write_run quiet_env (\<lambda>xs ps. Some (6, [1, 2, 3, 4, 5, 6], ps)) clone_9M
       (AioWrite SSD_POOL ''o'' 0 2 [(0, 4194304)] 6 [9]) (\<lambda>_ _. None) () = Some (0, aw', cl', ())
    \<and> cl' (data_ctx clone_9M SSD_POOL) ''o'' = None \<and> cl' (data_ctx clone_9M HDD_POOL) ''o'' \<noteq> None"
proof -
  have pr: "prune_parent_extents [(0, 4194304)] (pi_overlap (ic_parent_md clone_9M)) = ([(0, 6)], 6)"
    by (simp add: prune_parent_extents_def clone_9M_def)
  show ?thesis
    by (rule copyup_misses_ssd [where ps = "()" and r = 6 and pd = "[1, 2, 3, 4, 5, 6]", OF _ _ _ pr])
      (simp_all add: clone_9M_def image_9M_def range_ok_def quiet_env_def seq_zero_def)
qed

end
