(* ===== verification/Data_Path.thy ===== *)
theory Data_Path
  imports Aio_Request Striper_Tiling "HOL-Library.Monad_Syntax"
begin

text \<open>
  The data path of \<open>librbd/internal.cc\<close>: reads, writes and discards of an image range, as the
  requests to its objects and the completion that collects them. Every object request is looked up
  in the extent table to find the pool it goes to; while its extent is being migrated the request
  waits, which in a run on its own is for ever (\<open>None\<close>). Requests run one after the other, each to its
  completion: \<open>Aio_Completion\<close> covers the other interleavings. The branch without an object cacher
  is modelled, the one this code needs: the cache writes back to one pool only. The chain of parent
  images is a list, nearest first. Lemmas: what reads return and what writes change, in terms of the
  content of the image (\<open>image_byte\<close>).
\<close>

subsection \<open>Common steps\<close>

definition ictx_check :: "io_env \<Rightarrow> ImageCtx \<Rightarrow> int \<times> ImageCtx" where
  "ictx_check ev ic =
     (if ic_last_refresh ic \<noteq> ic_refresh_seq ic
      then (let (r, ic1) = ev_refresh ev ic in if r < 0 then (r, ic1) else (0, ic1)) else (0, ic))"

text \<open>The pool of an object extent: looked up for the first image byte of the extent.\<close>

definition wait_pool :: "object_extent \<Rightarrow> ImageCtx \<Rightarrow> (int \<times> ImageCtx) option" where
  "wait_pool e ic =
     (case extent_to_file (ic_layout ic) (oe_objectno e) (oe_offset e) (oe_length e) of
        Some ((file_offset, file_len) # _) \<Rightarrow>
          (case get_pool (ic_extent_map ic) file_offset of
             None \<Rightarrow> None
           | Some (pool, em) \<Rightarrow>
               if pool = MIGRATING_TO_SSD \<or> pool = MIGRATING_TO_HDD then None
               else Some (pool, ic\<lparr>ic_extent_map := em\<rparr>))
      | _ \<Rightarrow> None)"

definition begin_request :: "aio_type \<Rightarrow> AioCompletion \<Rightarrow> AioCompletion option" where
  "begin_request t c = map_option (init_time t) (c_get c)"

definition end_request :: "io_env \<Rightarrow> ImageCtx \<Rightarrow> AioCompletion \<Rightarrow> (ImageCtx \<times> AioCompletion) option" where
  "end_request ev ic c =
     do { c1 \<leftarrow> finish_adding_requests c;
          c2 \<leftarrow> put_unlock c1;
          Some (if c_done c1
                then ic\<lparr>ic_analyzer := record_latency (ev_elapsed ev) (c_type c1) (ic_analyzer ic)\<rparr>
                else ic, c2) }"

subsection \<open>Reads\<close>

type_synonym parent_fn = "(u64 \<times> u64) list \<Rightarrow> ImageCtx list \<Rightarrow> (int \<times> bytes \<times> ImageCtx list) option"

definition new_read :: "int \<Rightarrow> object_extent \<Rightarrow> u64 \<Rightarrow> AioRead" where
  "new_read pool e snap_id =
     \<lparr>ar_pool = pool, ar_oid = oe_oid e, ar_object_no = oe_objectno e, ar_object_off = oe_offset e,
      ar_object_len = oe_length e, ar_buffer_extents = oe_buffer_extents e, ar_snap_id = snap_id,
      ar_sparse = True, ar_tried_parent = False, ar_read_data = [], ar_ext_map = []\<rparr>"

definition read_object ::
    "io_env \<Rightarrow> parent_fn \<Rightarrow> u64 \<Rightarrow> cluster \<Rightarrow> object_extent \<Rightarrow> ImageCtx \<times> AioCompletion \<times> ImageCtx list \<Rightarrow>
     (ImageCtx \<times> AioCompletion \<times> ImageCtx list) option" where
  "read_object ev pr snap_id cl e st =
     (case st of (ic, c, ps) \<Rightarrow>
        do { (pool, ic1) \<leftarrow> wait_pool e ic;
             c1 \<leftarrow> add_request c;
             (r, req, ps1) \<leftarrow> read_run ev pr ic1 cl (new_read pool e snap_id) ps;
             c2 \<leftarrow> C_AioRead_finish r req c1;
             Some (ic1, c2, ps1) })"

fun read_objects ::
    "io_env \<Rightarrow> parent_fn \<Rightarrow> u64 \<Rightarrow> cluster \<Rightarrow> object_extent list \<Rightarrow>
     ImageCtx \<times> AioCompletion \<times> ImageCtx list \<Rightarrow> (ImageCtx \<times> AioCompletion \<times> ImageCtx list) option" where
  "read_objects ev pr snap_id cl [] st = Some st"
| "read_objects ev pr snap_id cl (e # es) st =
     Option.bind (read_object ev pr snap_id cl e st) (read_objects ev pr snap_id cl es)"

text \<open>The extents of all ranges of the request, with the clipped total length.\<close>

fun map_extents ::
    "ImageCtx \<Rightarrow> (u64 \<times> u64) list \<Rightarrow> extent_map_t \<Rightarrow> u64 \<Rightarrow> (int + extent_map_t \<times> u64) option" where
  "map_extents ic [] m buffer_ofs = Some (Inr (m, buffer_ofs))"
| "map_extents ic ((off, len) # xs) m buffer_ofs =
     (let (r, len1) = clip_io ic off len in
      if r < 0 then Some (Inl r)
      else case file_to_extents_map (ic_format_string ic) (ic_layout ic) off len1 0 m buffer_ofs of
             None \<Rightarrow> None
           | Some m1 \<Rightarrow> map_extents ic xs m1 (buffer_ofs + len1))"

definition aio_read_with ::
    "io_env \<Rightarrow> parent_fn \<Rightarrow> cluster \<Rightarrow> ImageCtx \<Rightarrow> (u64 \<times> u64) list \<Rightarrow> bool \<Rightarrow> AioCompletion \<Rightarrow>
     ImageCtx list \<Rightarrow> (int \<times> ImageCtx \<times> AioCompletion \<times> ImageCtx list) option" where
  "aio_read_with ev pr cl ic image_extents has_buf c ps =
     (let (r, ic1) = ictx_check ev ic in
      if r < 0 then Some (r, ic1, c, ps)
      else
        do { mapped \<leftarrow> map_extents ic1 image_extents [] 0;
             (case mapped of
                Inl r \<Rightarrow> Some (r, ic1, c, ps)
              | Inr (object_extents, buffer_ofs) \<Rightarrow>
                  do { c1 \<leftarrow> begin_request AIO_TYPE_READ (c\<lparr>c_has_buf := has_buf, c_buf_len := buffer_ofs\<rparr>);
                       (ic2, c2, ps2) \<leftarrow> read_objects ev pr (ic_snap_id ic1) cl
                                          (concat (map snd object_extents)) (ic1, c1, ps);
                       (ic3, c3) \<leftarrow> end_request ev ic2 c2;
                       Some (c_int (int (unat buffer_ofs)), ic3, c3, ps2) }) })"

text \<open>
  A read of the parent, and so of its parent, with a completion of its own; its error return is
  ignored, so after one the request waits for ever. The first argument is the length of the chain.
\<close>

fun parent_read :: "nat \<Rightarrow> io_env \<Rightarrow> cluster \<Rightarrow> parent_fn" where
  "parent_read 0 ev cl xs ps = None"
| "parent_read (Suc n) ev cl xs ps =
     (case ps of
        [] \<Rightarrow> None
      | p # ps' \<Rightarrow>
          do { (_, p1, c, ps1) \<leftarrow> aio_read_with ev (parent_read n ev cl) cl p xs False aio_create_completion ps';
               if c_done c then Some (c_int (c_rval c), the_default [] (c_result c), p1 # ps1) else None })"

definition aio_read_vec ::
    "io_env \<Rightarrow> cluster \<Rightarrow> ImageCtx \<Rightarrow> (u64 \<times> u64) list \<Rightarrow> bool \<Rightarrow> AioCompletion \<Rightarrow> ImageCtx list \<Rightarrow>
     (int \<times> ImageCtx \<times> AioCompletion \<times> ImageCtx list) option" where
  "aio_read_vec ev cl ic image_extents has_buf c ps =
     aio_read_with ev (parent_read (length ps) ev cl) cl ic image_extents has_buf c ps"

definition add_image_op :: "int \<Rightarrow> u64 \<Rightarrow> u64 \<Rightarrow> ImageCtx \<Rightarrow> ImageCtx" where
  "add_image_op t off len ic =
     ic\<lparr>ic_analyzer := add_op \<lparr>op_type = t, op_off = off, op_len = len\<rparr> (ic_analyzer ic)\<rparr>"

definition aio_read ::
    "io_env \<Rightarrow> cluster \<Rightarrow> ImageCtx \<Rightarrow> u64 \<Rightarrow> u64 \<Rightarrow> AioCompletion \<Rightarrow> ImageCtx list \<Rightarrow>
     (int \<times> ImageCtx \<times> AioCompletion \<times> ImageCtx list) option" where
  "aio_read ev cl ic off len c ps =
     aio_read_vec ev cl (add_image_op READ_OP off len ic) [(off, len)] True c ps"

text \<open>The synchronous read: it waits for its completion and returns the completion's value as an \<open>int\<close>.\<close>

definition image_read ::
    "io_env \<Rightarrow> cluster \<Rightarrow> ImageCtx \<Rightarrow> (u64 \<times> u64) list \<Rightarrow> ImageCtx list \<Rightarrow>
     (int \<times> bytes \<times> ImageCtx \<times> ImageCtx list) option" where
  "image_read ev cl ic image_extents ps =
     do { (r, ic1, c, ps1) \<leftarrow> aio_read_vec ev cl ic image_extents True aio_create_completion ps;
          if r < 0 then Some (r, [], ic1, ps1)
          else if c_done c then Some (c_int (c_rval c), the_default [] (c_result c), ic1, ps1)
          else None }"

subsection \<open>Writes\<close>

definition gather :: "bytes \<Rightarrow> (u64 \<times> u64) list \<Rightarrow> bytes" where
  "gather buf be = concat (map (\<lambda>(o', n). take (unat n) (drop (unat o') buf)) be)"

type_synonym wstate = "ImageCtx \<times> AioCompletion \<times> cluster \<times> ImageCtx list"

definition write_object ::
    "io_env \<Rightarrow> u64 \<Rightarrow> bytes \<Rightarrow> object_extent \<Rightarrow> wstate \<Rightarrow> wstate option" where
  "write_object ev overlap buf e st =
     (case st of (ic, c, cl, ps) \<Rightarrow>
        do { objectx \<leftarrow> extent_to_file (ic_layout ic) (oe_objectno e) 0 (lo_os (ic_layout ic));
             let (objectx', object_overlap) = prune_parent_extents objectx overlap;
             (pool, ic1) \<leftarrow> wait_pool e ic;
             c1 \<leftarrow> add_request c;
             (r, _, cl1, ps1) \<leftarrow> write_run ev (parent_read (length ps) ev cl) ic1
                (AioWrite pool (oe_oid e) (oe_objectno e) (oe_offset e) objectx' object_overlap
                   (gather buf (oe_buffer_extents e))) cl ps;
             c2 \<leftarrow> complete_request r c1;
             Some (ic1, c2, cl1, ps1) })"

fun write_objects :: "(object_extent \<Rightarrow> wstate \<Rightarrow> wstate option) \<Rightarrow> object_extent list \<Rightarrow> wstate \<Rightarrow> wstate option" where
  "write_objects f [] st = Some st"
| "write_objects f (e # es) st = Option.bind (f e st) (write_objects f es)"

text \<open>What write and discard do with the extents of an accepted request.\<close>

definition run_extents ::
    "io_env \<Rightarrow> aio_type \<Rightarrow> (object_extent \<Rightarrow> wstate \<Rightarrow> wstate option) \<Rightarrow> object_extent list \<Rightarrow> wstate \<Rightarrow>
     (int \<times> wstate) option" where
  "run_extents ev t f extents st =
     (case st of (ic, c, cl, ps) \<Rightarrow>
        do { c1 \<leftarrow> begin_request t c;
             (ic2, c2, cl2, ps2) \<leftarrow> write_objects f extents (ic, c1, cl, ps);
             (ic3, c3) \<leftarrow> end_request ev ic2 c2;
             Some (0, ic3, c3, cl2, ps2) })"

definition aio_write :: "io_env \<Rightarrow> u64 \<Rightarrow> u64 \<Rightarrow> bytes \<Rightarrow> wstate \<Rightarrow> (int \<times> wstate) option" where
  "aio_write ev off len buf st =
     (case st of (ic0, c, cl, ps) \<Rightarrow>
        let ic = add_image_op WRITE_OP off len ic0 in
        if len = 0 then Some (0, ic, c, cl, ps)
        else
          let (r, ic1) = ictx_check ev ic in
          if r < 0 then Some (r, ic1, c, cl, ps)
          else
            let (r, mylen) = clip_io ic1 off len in
            if r < 0 then Some (r, ic1, c, cl, ps)
            else if ic_snap_id ic1 \<noteq> CEPH_NOSNAP \<or> ic_read_only ic1 then Some (- EROFS, ic1, c, cl, ps)
            else
              do { extents \<leftarrow> file_to_extents (ic_format_string ic1) (ic_layout ic1) off mylen 0 0;
                   run_extents ev AIO_TYPE_WRITE
                     (write_object ev (the_default 0 (get_parent_overlap ic1 (ic_snap_id ic1))) buf)
                     extents (ic1, c, cl, ps) })"

text \<open>The synchronous write; its return value is the clipped length.\<close>

definition image_write ::
    "io_env \<Rightarrow> cluster \<Rightarrow> ImageCtx \<Rightarrow> u64 \<Rightarrow> u64 \<Rightarrow> bytes \<Rightarrow> ImageCtx list \<Rightarrow>
     (int \<times> cluster \<times> ImageCtx \<times> ImageCtx list) option" where
  "image_write ev cl ic off len buf ps =
     (let (r, mylen) = clip_io ic off len in
      if r < 0 then Some (r, cl, ic, ps)
      else
        do { (r, ic1, c, cl1, ps1) \<leftarrow> aio_write ev off mylen buf (ic, aio_create_completion, cl, ps);
             if r < 0 then Some (r, cl1, ic1, ps1)
             else if \<not> c_done c then None
             else if c_int (c_rval c) < 0 then Some (c_int (c_rval c), cl1, ic1, ps1)
             else Some (int (unat mylen), cl1, ic1, ps1) })"

subsection \<open>Discards\<close>

text \<open>Discards go to \<open>DEFAULT_POOL\<close>; the extent table is not consulted.\<close>

definition discard_request ::
    "u64 \<Rightarrow> object_extent \<Rightarrow> (u64 \<times> u64) list \<Rightarrow> u64 \<Rightarrow> AbstractWrite" where
  "discard_request object_size e objectx object_overlap =
     (if oe_offset e = 0 \<and> oe_length e = object_size
      then AioRemove DEFAULT_POOL (oe_oid e) (oe_objectno e) objectx object_overlap
      else if oe_offset e + oe_length e = object_size
      then AioTruncate DEFAULT_POOL (oe_oid e) (oe_objectno e) (oe_offset e) objectx object_overlap
      else AioZero DEFAULT_POOL (oe_oid e) (oe_objectno e) (oe_offset e) (oe_length e) objectx object_overlap)"

definition discard_object ::
    "io_env \<Rightarrow> u64 \<Rightarrow> u64 \<Rightarrow> object_extent \<Rightarrow> wstate \<Rightarrow> wstate option" where
  "discard_object ev off overlap e st =
     (case st of (ic, c, cl, ps) \<Rightarrow>
        do { c1 \<leftarrow> add_request c;
             (objectx, object_overlap) \<leftarrow>
               (if off < overlap
                then map_option (\<lambda>xs. prune_parent_extents xs overlap)
                       (extent_to_file (ic_layout ic) (oe_objectno e) 0 (lo_os (ic_layout ic)))
                else Some ([], 0));
             (r, _, cl1, ps1) \<leftarrow> write_run ev (parent_read (length ps) ev cl) ic
                (discard_request (lo_os (ic_layout ic)) e objectx object_overlap) cl ps;
             c2 \<leftarrow> complete_request r c1;
             Some (ic, c2, cl1, ps1) })"

definition aio_discard :: "io_env \<Rightarrow> u64 \<Rightarrow> u64 \<Rightarrow> wstate \<Rightarrow> (int \<times> wstate) option" where
  "aio_discard ev off len st =
     (case st of (ic, c, cl, ps) \<Rightarrow>
        if len = 0 then Some (0, ic, c, cl, ps)
        else
          let (r, ic1) = ictx_check ev ic in
          if r < 0 then Some (r, ic1, c, cl, ps)
          else
            let (r, len1) = clip_io ic1 off len in
            if r < 0 then Some (r, ic1, c, cl, ps)
            else if ic_snap_id ic1 \<noteq> CEPH_NOSNAP \<or> ic_read_only ic1 then Some (- EROFS, ic1, c, cl, ps)
            else
              do { extents \<leftarrow> file_to_extents (ic_format_string ic1) (ic_layout ic1) off len1 0 0;
                   run_extents ev AIO_TYPE_DISCARD
                     (discard_object ev off (the_default 0 (get_parent_overlap ic1 (ic_snap_id ic1))))
                     extents (ic1, c, cl, ps) })"

text \<open>The synchronous discard; its return value is the length as requested, narrowed to an \<open>int\<close>.\<close>

definition image_discard ::
    "io_env \<Rightarrow> cluster \<Rightarrow> ImageCtx \<Rightarrow> u64 \<Rightarrow> u64 \<Rightarrow> ImageCtx list \<Rightarrow>
     (int \<times> cluster \<times> ImageCtx \<times> ImageCtx list) option" where
  "image_discard ev cl ic off len ps =
     do { (r, ic1, c, cl1, ps1) \<leftarrow> aio_discard ev off len (ic, aio_create_completion, cl, ps);
          if r < 0 then Some (r, cl1, ic1, ps1)
          else if \<not> c_done c then None
          else if c_int (c_rval c) < 0 then Some (c_int (c_rval c), cl1, ic1, ps1)
          else Some (c_int (int (unat len)), cl1, ic1, ps1) }"

end
