(* ===== verification/Data_Content.thy ===== *)
theory Data_Content
  imports Data_Path
begin

text \<open>
  What the data path does to the content of an image: \<open>image_byte\<close> reads a byte of the image where
  the extent table says it is. A read returns these bytes; a write changes exactly the bytes of its
  range. Both for every layout, as long as the objects are placed by object (an object's bytes all
  lie in extents of one pool, which is so for the default layout with 4 MB objects), no extent is
  being migrated, no operation fails and no parent shows through.
\<close>

definition em_tier :: "ExtentMap \<Rightarrow> u64 \<Rightarrow> int" where
  "em_tier em x =
     (case map_of (em_map em) (x div extent_size em) of
        Some v \<Rightarrow> if 0 < v then SSD_POOL else HDD_POOL
      | None \<Rightarrow> HDD_POOL)"

definition settled :: "ExtentMap \<Rightarrow> bool" where
  "settled em \<longleftrightarrow> em_ok em \<and> (\<forall>k v. map_of (em_map em) k = Some v \<longrightarrow> \<bar>v\<bar> \<noteq> 999)"

definition image_byte :: "ImageCtx \<Rightarrow> cluster \<Rightarrow> u64 \<Rightarrow> u8" where
  "image_byte ic cl x =
     obj_bytes (cl (data_ctx ic (em_tier (ic_extent_map ic) x))
                   (format_oid (ic_format_string ic) (objectno (ic_layout ic) x)))
       (unat (x_offset (ic_layout ic) x))"

definition tiers_by_object :: "ImageCtx \<Rightarrow> bool" where
  "tiers_by_object ic \<longleftrightarrow>
     (\<forall>x y. objectno (ic_layout ic) x = objectno (ic_layout ic) y \<longrightarrow>
        em_tier (ic_extent_map ic) x = em_tier (ic_extent_map ic) y)"

definition image_ok :: "ImageCtx \<Rightarrow> bool" where
  "image_ok ic \<longleftrightarrow> layout_ok (ic_layout ic) \<and> unat (lo_os (ic_layout ic)) < 2147483648
     \<and> settled (ic_extent_map ic) \<and> tiers_by_object ic \<and> ic_last_refresh ic = ic_refresh_seq ic"

definition quiet :: "io_env \<Rightarrow> bool" where
  "quiet ev \<longleftrightarrow> ev_fiemap ev = fiemap_default \<and> (\<forall>pid oid. \<not> ev_fault ev pid oid < 0)"

text \<open>The same table up to entries with the value 0, which lookups leave behind.\<close>

definition zero_padded :: "ExtentMap \<Rightarrow> ExtentMap \<Rightarrow> bool" where
  "zero_padded em em' \<longleftrightarrow> extent_size em' = extent_size em \<and> map_size em' = map_size em
     \<and> (\<forall>k. map_of (em_map em') k = map_of (em_map em) k
          \<or> map_of (em_map em) k = None \<and> map_of (em_map em') k = Some 0 \<and> (\<exists>x. k = x div extent_size em))"

definition same_tiers :: "ExtentMap \<Rightarrow> ExtentMap \<Rightarrow> bool" where
  "same_tiers em em' \<longleftrightarrow> settled em' \<and> (\<forall>x. em_tier em' x = em_tier em x) \<and> zero_padded em em'"

lemma zero_padded_trans: "zero_padded a b \<Longrightarrow> zero_padded b c \<Longrightarrow> zero_padded a c"
  unfolding zero_padded_def by metis

lemma same_tiers_refl: "settled em \<Longrightarrow> same_tiers em em"
  by (simp add: same_tiers_def zero_padded_def)

lemma same_tiers_trans: "same_tiers a b \<Longrightarrow> same_tiers b c \<Longrightarrow> same_tiers a c"
  unfolding same_tiers_def using zero_padded_trans by metis

lemma ctx_update [simp]:
  "data_ctx (ic\<lparr>ic_extent_map := em\<rparr>) p = data_ctx ic p"
  "get_parent_overlap (ic\<lparr>ic_extent_map := em\<rparr>) s = get_parent_overlap ic s"
  "data_ctx (ic\<lparr>ic_analyzer := an\<rparr>) p = data_ctx ic p"
  "get_parent_overlap (ic\<lparr>ic_analyzer := an\<rparr>) s = get_parent_overlap ic s"
  "clip_io (ic\<lparr>ic_analyzer := an\<rparr>) off len = clip_io ic off len"
  by (simp_all add: data_ctx_def get_parent_overlap_def snap_lookup_def get_snap_name_def
      clip_io_def get_image_size_def cong: option.case_cong)

lemma image_byte_update:
  "same_tiers (ic_extent_map ic) em \<Longrightarrow> image_byte (ic\<lparr>ic_extent_map := em\<rparr>) cl x = image_byte ic cl x"
  by (simp add: image_byte_def same_tiers_def)

lemma image_ok_update:
  assumes "image_ok ic" "same_tiers (ic_extent_map ic) em"
  shows "image_ok (ic\<lparr>ic_extent_map := em\<rparr>)"
proof -
  have t: "em_tier em x = em_tier (ic_extent_map ic) x" for x using assms(2) by (simp add: same_tiers_def)
  have "tiers_by_object (ic\<lparr>ic_extent_map := em\<rparr>) \<longleftrightarrow> tiers_by_object ic"
    by (simp add: tiers_by_object_def t)
  then show ?thesis using assms by (simp add: image_ok_def same_tiers_def)
qed

lemma get_pool_tier:
  assumes "settled em"
  shows "\<exists>em'. get_pool em x = Some (em_tier em x, em') \<and> same_tiers em em'"
proof (cases "map_of (em_map em) (x div extent_size em)")
  case (Some v)
  have "\<bar>v\<bar> \<noteq> 999" "extent_size em \<noteq> 0" using assms Some by (auto simp: settled_def em_ok_def)
  then have "get_pool em x = Some (em_tier em x, em)"
    using get_pool_known [of em x v] Some by (auto simp: em_tier_def whobbs_consts)
  then show ?thesis using same_tiers_refl [OF assms] by blast
next
  case None
  let ?em = "em\<lparr>em_map := smap_put (x div extent_size em) 0 (em_map em)\<rparr>"
  have ok: "em_ok em" "extent_size em \<noteq> 0" "smap_ok (em_map em)" using assms by (auto simp: settled_def em_ok_def)
  have m: "map_of (em_map ?em) = (map_of (em_map em))(x div extent_size em \<mapsto> 0)"
    using ok by (simp add: map_of_smap_put)
  have "settled ?em"
    using assms ok m by (auto simp: settled_def em_ok_def)
  moreover have "em_tier ?em y = em_tier em y" for y
    using None m by (simp add: em_tier_def)
  moreover have "zero_padded em ?em"
    using None by (auto simp: zero_padded_def m fun_upd_def)
  ultimately have "same_tiers em ?em" by (simp add: same_tiers_def)
  moreover have "get_pool em x = Some (em_tier em x, ?em)"
    using get_pool_unknown [OF ok(2) None] None by (simp add: em_tier_def)
  ultimately show ?thesis by blast
qed

lemma em_tier_pool: "em_tier em x \<noteq> MIGRATING_TO_SSD \<and> em_tier em x \<noteq> MIGRATING_TO_HDD"
  by (auto simp: em_tier_def whobbs_consts split: option.splits)

lemma extent_to_file_start:
  assumes "layout_ok l" "len \<noteq> 0"
  shows "\<exists>n xs. extent_to_file l (objectno l cur) (x_offset l cur) len = Some ((cur, n) # xs)"
proof -
  have "unat (x_offset l cur mod lo_su l) < unat (lo_su l)"
    unfolding unat_mod_u64 by (rule mod_less_divisor [OF layout_ok_nat(1) [OF assms(1)]])
  then have "x_offset l cur mod lo_su l < lo_su l" by (simp add: word_less_nat_alt)
  then show ?thesis
    using assms etf_off_back [OF assms(1), of cur]
    by (auto simp: extent_to_file_def layout_ok_def not_less etf_loop.simps [of l "objectno l cur"] Let_def)
qed

lemma wait_pool_tier:
  assumes "layout_ok (ic_layout ic)" "settled (ic_extent_map ic)" "oe_length e \<noteq> 0"
    "objectno (ic_layout ic) cur = oe_objectno e" "x_offset (ic_layout ic) cur = oe_offset e"
  shows "\<exists>em. wait_pool e ic = Some (em_tier (ic_extent_map ic) cur, ic\<lparr>ic_extent_map := em\<rparr>)
    \<and> same_tiers (ic_extent_map ic) em"
proof -
  obtain n xs where "extent_to_file (ic_layout ic) (oe_objectno e) (oe_offset e) (oe_length e) = Some ((cur, n) # xs)"
    using extent_to_file_start [OF assms(1,3), of cur] assms(4,5) by auto
  moreover obtain em where "get_pool (ic_extent_map ic) cur = Some (em_tier (ic_extent_map ic) cur, em)"
    "same_tiers (ic_extent_map ic) em"
    using get_pool_tier [OF assms(2)] by blast
  ultimately show ?thesis
    using em_tier_pool [of "ic_extent_map ic" cur] by (auto simp: wait_pool_def)
qed

subsection \<open>Reads return the content\<close>

text \<open>The byte of the image that a position of the buffer stands for.\<close>

lemma extent_ok_byte:
  assumes "extent_ok (ic_format_string ic) (ic_layout ic) off len e" "be_pos (oe_buffer_extents e) x = Some k"
    "tiers_by_object ic" "objectno (ic_layout ic) cur = oe_objectno e"
  shows "image_byte ic cl (off + of_nat x) =
    obj_bytes (cl (data_ctx ic (em_tier (ic_extent_map ic) cur)) (oe_oid e)) (unat (oe_offset e) + k)"
proof -
  have o: "objectno (ic_layout ic) (off + of_nat x) = oe_objectno e"
    "unat (x_offset (ic_layout ic) (off + of_nat x)) = unat (oe_offset e) + k"
    "oe_oid e = format_oid (ic_format_string ic) (oe_objectno e)"
    using assms(1,2) unfolding extent_ok_def by blast+
  have "em_tier (ic_extent_map ic) (off + of_nat x) = em_tier (ic_extent_map ic) cur"
    using assms(3) o(1) assms(4) unfolding tiers_by_object_def by metis
  then show ?thesis by (simp add: image_byte_def o)
qed

text \<open>Filing the data of one object: the map has one entry, or is filled in.\<close>

lemma read_finish:
  assumes "extent_ok f l off len e" "ar_buffer_extents req = oe_buffer_extents e" "ar_object_off req = oe_offset e"
    "ar_object_len req = oe_length e" "ar_read_data req = d" "length d \<le> unat (oe_length e)"
    "ar_ext_map req = [] \<or> ar_ext_map req = [(oe_offset e, of_nat (length d))]"
    "0 \<le> r \<or> r = - ENOENT" "unat (lo_os l) < 2147483648"
    "pok (c_destriper c)" "\<forall>x. be_pos (oe_buffer_extents e) x \<noteq> None \<longrightarrow> pview (c_destriper c) x = None"
    "0 \<le> c_rval c" "c_building c" "0 < c_ref c"
  shows "\<exists>m. Option.bind (add_request c) (C_AioRead_finish r req)
      = Some (c\<lparr>c_destriper := m, c_rval := c_rval c + int (unat (oe_length e))\<rparr>) \<and> pok m
    \<and> (\<forall>x. pview m x = (case be_pos (oe_buffer_extents e) x of
         Some k \<Rightarrow> Some (byte_at d k) | None \<Rightarrow> pview (c_destriper c) x))"
proof -
  let ?be = "oe_buffer_extents e" and ?m = "[(oe_offset e, of_nat (length d))] :: (u64 \<times> u64) list"
  have e: "be_ok ?be" "ext_total ?be = unat (oe_length e)" "oe_length e \<noteq> 0"
    "unat (oe_offset e) + unat (oe_length e) \<le> unat (lo_os l)"
    using assms(1) unfolding extent_ok_def by blast+
  have "length d < 18446744073709551616" using assms(6) e(4) assms(9) by linarith
  then have ul: "unat (of_nat (length d) :: u64) = length d" by (intro length_word) simp
  have 1: "asc (unat (oe_offset e)) ?m" using ul e(4) assms(6,9) by simp
  have 2: "ext_total ?m \<le> length d" using ul by (simp add: ext_total_def)
  have 3: "unat (oe_offset e) + ext_total ?be < 2 ^ 64" using e assms(9) by simp
  have "\<exists>bl' m'. add_partial_sparse_result d ?m (oe_offset e) ?be (c_destriper c) = Some (bl', m') \<and> pok m' \<and>
    (\<forall>x. pview m' x = (case be_pos ?be x of
        Some k \<Rightarrow> Some (ext_byte (nat_pairs ?m) d (unat (oe_offset e) + k)) | None \<Rightarrow> pview (c_destriper c) x))"
    using sparse_extents_view [OF asc_sinv [OF 1 2] assms(10) 3 e(1) assms(11)]
    unfolding add_partial_sparse_result_def sview_def asc_rest [OF 1] .
  then obtain bl' m' where s: "add_partial_sparse_result d ?m (oe_offset e) ?be (c_destriper c) = Some (bl', m')"
    "pok m'" and v: "\<forall>x. pview m' x = (case be_pos ?be x of
        Some k \<Rightarrow> Some (ext_byte (nat_pairs ?m) d (unat (oe_offset e) + k)) | None \<Rightarrow> pview (c_destriper c) x)"
    by blast
  have "ext_byte (nat_pairs ?m) d (unat (oe_offset e) + k) = byte_at d k" for k
    using ul by (simp add: nat_pairs_def byte_at_def)
  then have v': "\<forall>x. pview m' x = (case be_pos ?be x of
      Some k \<Rightarrow> Some (byte_at d k) | None \<Rightarrow> pview (c_destriper c) x)"
    using v by (simp cong: option.case_cong)
  have n: "c_int (int (unat (oe_length e))) = int (unat (oe_length e))"
    using e(4) assms(9) by (intro c_int_id) linarith+
  have "0 < unat (oe_length e)" using e(3) unfolding unat_pos_u64 .
  then have "0 < int (unat (oe_length e))" by linarith
  then have pos: "0 < uint (oe_length e)" by simp
  have xm: "(if ar_ext_map req = [] then [(ar_object_off req, of_nat (length (ar_read_data req)))]
      else ar_ext_map req) = ?m"
    using assms(3,5,7) by auto
  obtain c1 where c1: "add_request c = Some c1" "c1 = c\<lparr>c_pending := c_pending c + 1, c_ref := c_ref c + 1\<rparr>"
    using assms(14) by (simp add: add_request_def c_get_def)
  have "C_AioRead_finish r req c1 = complete_request (int (unat (oe_length e))) (c1\<lparr>c_destriper := m'\<rparr>)"
    using assms(8) s(1) by (auto simp: C_AioRead_finish_def xm Let_def assms(2-5) n [simplified] c1(2))
  also have "\<dots> = Some (c\<lparr>c_destriper := m', c_rval := c_rval c + int (unat (oe_length e))\<rparr>)"
    using assms(12,13) pos by (cases c) (simp add: complete_request_def Let_def update_rval_def put_unlock_def c1(2))
  finally show ?thesis using c1(1) s(2) v' by auto
qed

text \<open>Reading one object files its bytes and changes nothing else of the completion.\<close>

definition read_state :: "ImageCtx \<Rightarrow> AioCompletion \<Rightarrow> bool" where
  "read_state ic c \<longleftrightarrow> image_ok ic \<and> get_parent_overlap ic (ic_snap_id ic) = Some 0
     \<and> pok (c_destriper c) \<and> 0 \<le> c_rval c \<and> c_building c \<and> 0 < c_ref c"

lemma read_object_content:
  assumes "quiet ev" "read_state ic c" "ic_snap_id ic = sid"
    and e: "extent_ok (ic_format_string ic) (ic_layout ic) off len e"
    and free: "\<forall>x. be_pos (oe_buffer_extents e) x \<noteq> None \<longrightarrow> pview (c_destriper c) x = None"
  shows "\<exists>em m. read_object ev pr sid cl e (ic, c, ps)
      = Some (ic\<lparr>ic_extent_map := em\<rparr>,
              c\<lparr>c_destriper := m, c_rval := c_rval c + int (unat (oe_length e))\<rparr>, ps)
    \<and> same_tiers (ic_extent_map ic) em \<and> pok m
    \<and> (\<forall>x. pview m x = (if be_pos (oe_buffer_extents e) x \<noteq> None then Some (image_byte ic cl (off + of_nat x))
          else pview (c_destriper c) x))"
proof -
  have ok: "layout_ok (ic_layout ic)" "settled (ic_extent_map ic)" "tiers_by_object ic"
    "unat (lo_os (ic_layout ic)) < 2147483648" "get_parent_overlap ic sid = Some 0"
    "pok (c_destriper c)" "0 \<le> c_rval c" "c_building c" "0 < c_ref c"
    using assms(2,3) by (auto simp: read_state_def image_ok_def)
  have len: "oe_length e \<noteq> 0" "0 < unat (oe_length e)"
    using e unat_pos_u64 [of "oe_length e"] unfolding extent_ok_def by blast+
  obtain cur where cur: "objectno (ic_layout ic) cur = oe_objectno e" "x_offset (ic_layout ic) cur = oe_offset e"
    using e unfolding extent_ok_def by blast
  let ?pool = "em_tier (ic_extent_map ic) cur" and ?obs = "\<lambda>p. cl (data_ctx ic p) (oe_oid e)"
  obtain em where w: "wait_pool e ic = Some (?pool, ic\<lparr>ic_extent_map := em\<rparr>)"
    "same_tiers (ic_extent_map ic) em"
    using wait_pool_tier [OF ok(1,2) len(1) cur] by blast
  let ?ic = "ic\<lparr>ic_extent_map := em\<rparr>" and ?req = "new_read ?pool e sid"
  have su: "lo_su (ic_layout ?ic) \<noteq> 0" "layout_ok (ic_layout ?ic)" using ok(1) by (auto simp: layout_ok_def)
  have ovl: "get_parent_overlap ?ic sid = Some 0" using ok(5) by simp
  have qv: "ev_fiemap ev = fiemap_default" "\<not> ev_fault ev (data_ctx ?ic ?pool) (oe_oid e) < 0"
    using assms(1) by (simp_all add: quiet_def)
  obtain r d xm where run: "read_run ev pr ?ic cl ?req ps = Some (r, ?req\<lparr>ar_read_data := d, ar_ext_map := xm\<rparr>, ps)"
    "r = 0 \<or> r = - ENOENT" "xm = [] \<and> d = [] \<or> xm = [(oe_offset e, of_nat (length d))]"
    and d: "d = (case ?obs ?pool of Some ob \<Rightarrow> file_read (unat (oe_offset e)) (unat (oe_length e)) (od_data ob) | None \<Rightarrow> [])"
    using read_run_plain [where ps = ps and pr = pr and cl = cl, OF qv ovl len(1) su new_read_def] by auto
  have dl: "length d \<le> unat (oe_length e)"
    using len(2) by (auto simp: d file_read_def split: option.splits)
  have db: "byte_at d k = obj_bytes (?obs ?pool) (unat (oe_offset e) + k)" if "k < unat (oe_length e)" for k
    using byte_at_file_read [OF len(2) that] by (cases "?obs ?pool") (simp_all add: d byte_at_nil)
  obtain m where m: "Option.bind (add_request c) (C_AioRead_finish r (?req\<lparr>ar_read_data := d, ar_ext_map := xm\<rparr>))
      = Some (c\<lparr>c_destriper := m, c_rval := c_rval c + int (unat (oe_length e))\<rparr>)" "pok m"
    and v: "\<forall>x. pview m x = (case be_pos (oe_buffer_extents e) x of
         Some k \<Rightarrow> Some (byte_at d k) | None \<Rightarrow> pview (c_destriper c) x)"
    using read_finish [OF e, of "?req\<lparr>ar_read_data := d, ar_ext_map := xm\<rparr>" d r c] dl run(2,3) ok(4,6-9) free
    by (auto simp: new_read_def)
  have "pview m x = (if be_pos (oe_buffer_extents e) x \<noteq> None then Some (image_byte ic cl (off + of_nat x))
          else pview (c_destriper c) x)" for x
  proof (cases "be_pos (oe_buffer_extents e) x")
    case (Some k)
    then have "k < unat (oe_length e)" using e unfolding extent_ok_def by blast
    then show ?thesis using v Some db extent_ok_byte [OF e Some ok(3) cur(1)] by simp
  qed (simp add: v)
  moreover have "read_object ev pr sid cl e (ic, c, ps)
      = Some (?ic, c\<lparr>c_destriper := m, c_rval := c_rval c + int (unat (oe_length e))\<rparr>, ps)"
    using m(1) by (cases "add_request c") (auto simp: read_object_def w(1) run(1))
  ultimately show ?thesis using w(2) m(2) by blast
qed

text \<open>All objects of a request.\<close>

lemma extent_ok_hits: "extent_ok f l off len e \<Longrightarrow> be_pos (oe_buffer_extents e) x \<noteq> None \<longleftrightarrow> hits (oe_buffer_extents e) x \<noteq> 0"
  by (rule be_pos_hits)

lemma exts_bufs_simps [simp]: "exts_bufs [] = []" "exts_bufs (e # es) = oe_buffer_extents e @ exts_bufs es"
  by (simp_all add: exts_bufs_def)

text \<open>When every single object can be read, with \<open>g\<close> the bytes of the image, so can all of them; \<open>good\<close> and \<open>kept\<close>
  hold of the context and of the parents all the time.\<close>

definition collecting :: "AioCompletion \<Rightarrow> bool" where
  "collecting c \<longleftrightarrow> pok (c_destriper c) \<and> 0 \<le> c_rval c \<and> c_building c \<and> 0 < c_ref c"

lemma read_objects_all:
  assumes one: "\<And>ic c ps e. good ic \<Longrightarrow> kept ps \<Longrightarrow> collecting c \<Longrightarrow> extent_ok f l off len e \<Longrightarrow>
      \<forall>x. be_pos (oe_buffer_extents e) x \<noteq> None \<longrightarrow> pview (c_destriper c) x = None \<Longrightarrow>
      \<exists>ic' m ps'. read_object ev pr sid cl e (ic, c, ps)
          = Some (ic', c\<lparr>c_destriper := m, c_rval := c_rval c + int (unat (oe_length e))\<rparr>, ps')
        \<and> good ic' \<and> kept ps' \<and> pok m
        \<and> (\<forall>x. pview m x = (if be_pos (oe_buffer_extents e) x \<noteq> None then Some (g (off + of_nat x)) else pview (c_destriper c) x))"
    and "good ic" "kept ps" "collecting c" "\<forall>e \<in> set es. extent_ok f l off len e"
    "\<forall>x. hits (exts_bufs es) x \<le> 1" "\<forall>x. hits (exts_bufs es) x \<noteq> 0 \<longrightarrow> pview (c_destriper c) x = None"
  shows "\<exists>ic' m ps'. read_objects ev pr sid cl es (ic, c, ps)
      = Some (ic', c\<lparr>c_destriper := m, c_rval := c_rval c + int (\<Sum>e\<leftarrow>es. unat (oe_length e))\<rparr>, ps')
    \<and> good ic' \<and> kept ps' \<and> pok m
    \<and> (\<forall>x. pview m x = (if hits (exts_bufs es) x \<noteq> 0 then Some (g (off + of_nat x)) else pview (c_destriper c) x))"
  using assms(2-)
proof (induction es arbitrary: ic c ps)
  case Nil
  have "read_objects ev pr sid cl [] (ic, c, ps)
      = Some (ic, c\<lparr>c_destriper := c_destriper c, c_rval := c_rval c + int (\<Sum>e\<leftarrow>[]. unat (oe_length e))\<rparr>, ps)"
    by simp
  moreover have "pview (c_destriper c) x = (if hits (exts_bufs []) x \<noteq> 0 then Some (g (off + of_nat x))
      else pview (c_destriper c) x)" for x by simp
  ultimately show ?case using Nil.prems(1-3) unfolding collecting_def by blast
next
  case (Cons e es)
  let ?b = "oe_buffer_extents e"
  have e: "extent_ok f l off len e" using Cons.prems(4) by simp
  have h: "hits ?b x + hits (exts_bufs es) x \<le> 1" for x using spec [OF Cons.prems(5), of x] by simp
  have "\<forall>x. be_pos ?b x \<noteq> None \<longrightarrow> pview (c_destriper c) x = None"
    using Cons.prems(6) be_pos_hits [of ?b] by simp
  from one [OF Cons.prems(1-3) e this]
  obtain ic1 m ps1 where 1: "read_object ev pr sid cl e (ic, c, ps)
      = Some (ic1, c\<lparr>c_destriper := m, c_rval := c_rval c + int (unat (oe_length e))\<rparr>, ps1)"
    "good ic1" "kept ps1" "pok m"
    and v: "\<And>x. pview m x = (if be_pos ?b x \<noteq> None then Some (g (off + of_nat x)) else pview (c_destriper c) x)"
    by blast
  let ?c = "c\<lparr>c_destriper := m, c_rval := c_rval c + int (unat (oe_length e))\<rparr>"
  have sel: "c_destriper ?c = m" by simp
  have st: "collecting ?c" using Cons.prems(3) 1(4) by (simp add: collecting_def)
  have free: "\<forall>x. hits (exts_bufs es) x \<noteq> 0 \<longrightarrow> pview (c_destriper ?c) x = None"
  proof (intro allI impI)
    fix x assume x: "hits (exts_bufs es) x \<noteq> 0"
    then have "hits ?b x = 0" using h [of x] by linarith
    then show "pview (c_destriper ?c) x = None"
      using x Cons.prems(6) be_pos_hits [of ?b x] by (simp add: v)
  qed
  have "\<exists>ic' m' ps'. read_objects ev pr sid cl es (ic1, ?c, ps1)
      = Some (ic', ?c\<lparr>c_destriper := m', c_rval := c_rval ?c + int (\<Sum>e\<leftarrow>es. unat (oe_length e))\<rparr>, ps')
    \<and> good ic' \<and> kept ps' \<and> pok m'
    \<and> (\<forall>x. pview m' x = (if hits (exts_bufs es) x \<noteq> 0 then Some (g (off + of_nat x)) else pview (c_destriper ?c) x))"
  proof (rule Cons.IH [OF 1(2,3) st])
    show "\<forall>e \<in> set es. extent_ok f l off len e" using Cons.prems(4) by simp
    show "\<forall>x. hits (exts_bufs es) x \<le> 1" using h by (meson add_leE)
  qed (rule free)
  then obtain ic' m' ps' where 2: "read_objects ev pr sid cl es (ic1, ?c, ps1)
      = Some (ic', ?c\<lparr>c_destriper := m', c_rval := c_rval ?c + int (\<Sum>e\<leftarrow>es. unat (oe_length e))\<rparr>, ps')"
    "good ic'" "kept ps'" "pok m'"
    and v': "\<And>x. pview m' x = (if hits (exts_bufs es) x \<noteq> 0 then Some (g (off + of_nat x)) else pview m x)"
    unfolding sel by blast
  have "pview m' x = (if hits (exts_bufs (e # es)) x \<noteq> 0 then Some (g (off + of_nat x)) else pview (c_destriper c) x)" for x
    using be_pos_hits [of ?b x] by (simp add: v' v)
  moreover have "read_objects ev pr sid cl (e # es) (ic, c, ps)
      = Some (ic', c\<lparr>c_destriper := m', c_rval := c_rval c + int (\<Sum>e\<leftarrow>e # es. unat (oe_length e))\<rparr>, ps')"
    using 2(1) unfolding read_objects.simps 1(1) Option.bind.simps by (simp add: add.assoc)
  ultimately show ?case using 2(2-4) by blast
qed

lemma read_objects_content:
  assumes "quiet ev" "read_state ic c" "ic_snap_id ic = sid"
    and "\<forall>e \<in> set es. extent_ok (ic_format_string ic) (ic_layout ic) off len e"
    and "\<forall>x. hits (exts_bufs es) x \<le> 1" "\<forall>x. hits (exts_bufs es) x \<noteq> 0 \<longrightarrow> pview (c_destriper c) x = None"
  shows "\<exists>em m. read_objects ev pr sid cl es (ic, c, ps)
      = Some (ic\<lparr>ic_extent_map := em\<rparr>,
              c\<lparr>c_destriper := m, c_rval := c_rval c + int (\<Sum>e\<leftarrow>es. unat (oe_length e))\<rparr>, ps)
    \<and> same_tiers (ic_extent_map ic) em \<and> pok m
    \<and> (\<forall>x. pview m x = (if hits (exts_bufs es) x \<noteq> 0 then Some (image_byte ic cl (off + of_nat x))
          else pview (c_destriper c) x))"
proof -
  let ?good = "\<lambda>ic'. \<exists>em. ic' = ic\<lparr>ic_extent_map := em\<rparr> \<and> same_tiers (ic_extent_map ic) em"
  have r: "image_ok ic" "get_parent_overlap ic (ic_snap_id ic) = Some 0" "collecting c"
    using assms(2) by (simp_all add: read_state_def collecting_def)
  have one: "\<exists>ic' m ps'. read_object ev pr sid cl e (ic1, c1, ps1)
        = Some (ic', c1\<lparr>c_destriper := m, c_rval := c_rval c1 + int (unat (oe_length e))\<rparr>, ps')
      \<and> ?good ic' \<and> ps' = ps \<and> pok m
      \<and> (\<forall>x. pview m x = (if be_pos (oe_buffer_extents e) x \<noteq> None then Some (image_byte ic cl (off + of_nat x))
            else pview (c_destriper c1) x))"
    if g: "?good ic1" "ps1 = ps" "collecting c1" "extent_ok (ic_format_string ic) (ic_layout ic) off len e"
      "\<forall>x. be_pos (oe_buffer_extents e) x \<noteq> None \<longrightarrow> pview (c_destriper c1) x = None" for ic1 c1 ps1 e
  proof -
    obtain em where em: "ic1 = ic\<lparr>ic_extent_map := em\<rparr>" "same_tiers (ic_extent_map ic) em" using g(1) by blast
    have st: "read_state ic1 c1" using image_ok_update [OF r(1) em(2)] r(2) g(3) by (simp add: read_state_def collecting_def em(1))
    have e: "ic_snap_id ic1 = sid" "extent_ok (ic_format_string ic1) (ic_layout ic1) off len e"
      using assms(3) g(4) by (simp_all add: em(1))
    from read_object_content [where pr = pr and cl = cl and ps = ps, OF assms(1) st e g(5)] show ?thesis
      using em(2) same_tiers_trans [OF em(2)] by (fastforce simp: g(2) em(1) image_byte_update)
  qed
  have "?good ic" using same_tiers_refl [of "ic_extent_map ic"] r(1) by (intro exI [of _ "ic_extent_map ic"]) (simp add: image_ok_def)
  from read_objects_all [where good = ?good and kept = "\<lambda>ps'. ps' = ps" and g = "image_byte ic cl", OF one this refl r(3) assms(4-6)]
  show ?thesis by blast
qed

text \<open>The end of a read whose buffer is covered: the data is the content of the buffer positions.\<close>

lemma read_finalize:
  assumes "c_type c = AIO_TYPE_READ" "c_building c" "c_pending c = 0" "0 \<le> c_rval c" "0 < c_ref c"
    "pok (c_destriper c)" "\<forall>x. pview (c_destriper c) x = (if x < unat n then Some (g x) else None)"
    "c_buf_len c = n"
  shows "\<exists>bl ic' c'. end_request ev ic c = Some (ic', c') \<and> c_done c' \<and> c_rval c' = c_rval c
    \<and> c_result c' = Some bl \<and> length bl = unat n \<and> (\<forall>i < unat n. bl ! i = g i)
    \<and> ic' = ic\<lparr>ic_analyzer := add_read_lat (ev_elapsed ev) (ic_analyzer ic)\<rparr>"
proof -
  have n: "unat n < 18446744073709551616" by simp
  have dom: "\<forall>x. (pview (c_destriper c) x \<noteq> None) = (x < unat n)" using assms(7) by simp
  have c: "contig 0 (c_destriper c) (unat n)"
    by (rule contig_of_dom [OF assms(6)]) (use dom in simp_all)
  obtain bl where bl: "assemble_result True (c_destriper c) = Some (bl, [])" "length bl = unat n"
    "\<forall>i < unat n. pview (c_destriper c) i = Some (bl ! i)"
    using assemble_result_content [OF assms(6) dom] n by auto
  let ?c = "c\<lparr>c_building := False, c_destriper := [], c_result := Some bl, c_callbacks := c_callbacks c + 1, c_done := True\<rparr>"
  have "finish_adding_requests c = Some ?c"
    using assms(1-4,8) bl(1,2) by (simp add: finish_adding_requests_def Let_def finalize_def complete_def)
  then have "end_request ev ic c
      = Some (ic\<lparr>ic_analyzer := add_read_lat (ev_elapsed ev) (ic_analyzer ic)\<rparr>, ?c\<lparr>c_ref := c_ref c - 1\<rparr>)"
    using assms(1,5) by (simp add: end_request_def put_unlock_def record_latency_def)
  moreover have "bl ! i = g i" if "i < unat n" for i using bl(3) assms(7) that by simp
  ultimately show ?thesis using bl(2) by simp
qed

lemma aio_read_with_run:
  assumes "image_ok ic" "clip_io ic off len = (0, n)" "n \<noteq> 0" "unat off + unat n < 2 ^ 64" "unat n < 2147483648"
    and objs: "\<And>es c. collecting c \<Longrightarrow> c_destriper c = [] \<Longrightarrow>
      \<forall>e \<in> set es. extent_ok (ic_format_string ic) (ic_layout ic) off (unat n) e \<Longrightarrow>
      \<forall>x. hits (exts_bufs es) x = (if x < unat n then 1 else 0) \<Longrightarrow>
      \<exists>ic' m ps'. read_objects ev pr (ic_snap_id ic) cl es (ic, c, ps)
          = Some (ic', c\<lparr>c_destriper := m, c_rval := c_rval c + int (\<Sum>e\<leftarrow>es. unat (oe_length e))\<rparr>, ps')
        \<and> P ic' ps' \<and> pok m
        \<and> (\<forall>x. pview m x = (if hits (exts_bufs es) x \<noteq> 0 then Some (g (off + of_nat x)) else pview (c_destriper c) x))"
  shows "\<exists>bl ic1 an c' ps'. aio_read_with ev pr cl ic [(off, len)] hb aio_create_completion ps
        = Some (int (unat n), ic1\<lparr>ic_analyzer := an\<rparr>, c', ps')
    \<and> P ic1 ps' \<and> c_done c' \<and> c_rval c' = int (unat n) \<and> c_result c' = Some bl \<and> length bl = unat n
    \<and> (\<forall>i < unat n. bl ! i = g (off + of_nat i))"
proof -
  have lok: "layout_ok (ic_layout ic)" using assms(1) by (simp add: image_ok_def)
  obtain m where m: "file_to_extents_map (ic_format_string ic) (ic_layout ic) off n 0 [] 0 = Some m"
    and ok: "\<forall>e \<in> set (concat (map snd m)). extent_ok (ic_format_string ic) (ic_layout ic) off (unat n) e"
    and hit: "\<forall>x. hits (exts_bufs (concat (map snd m))) x = (if x < unat n then 1 else 0)"
    and sum: "(\<Sum>e\<leftarrow>concat (map snd m). unat (oe_length e)) = unat n"
    using extents_of_request [OF lok assms(3,4), of "ic_format_string ic" 0] by blast
  let ?es = "concat (map snd m)"
  define c where "c = aio_create_completion\<lparr>c_has_buf := hb, c_buf_len := n, c_ref := 2, c_type := AIO_TYPE_READ\<rparr>"
  have cf: "c_destriper c = []" "c_rval c = 0" "c_building c" "c_ref c = 2" "c_type c = AIO_TYPE_READ"
    "c_pending c = 0" "c_buf_len c = n"
    by (simp_all add: c_def aio_create_completion_def)
  have start: "begin_request AIO_TYPE_READ (aio_create_completion\<lparr>c_has_buf := hb, c_buf_len := n\<rparr>) = Some c"
    by (simp add: begin_request_def c_get_def init_time_def c_def aio_create_completion_def)
  have "collecting c" by (simp add: collecting_def cf)
  from objs [OF this cf(1) ok hit] obtain ic1 pm ps' where run: "read_objects ev pr (ic_snap_id ic) cl ?es (ic, c, ps)
      = Some (ic1, c\<lparr>c_destriper := pm, c_rval := c_rval c + int (\<Sum>e\<leftarrow>?es. unat (oe_length e))\<rparr>, ps')"
    and P: "P ic1 ps'" and pm: "pok pm"
    and v: "\<forall>x. pview pm x = (if hits (exts_bufs ?es) x \<noteq> 0 then Some (g (off + of_nat x)) else pview (c_destriper c) x)"
    by blast
  let ?c = "c\<lparr>c_destriper := pm, c_rval := int (unat n)\<rparr>"
  have run': "read_objects ev pr (ic_snap_id ic) cl ?es (ic, c, ps) = Some (ic1, ?c, ps')"
    using run unfolding sum cf(2) by (simp only: add_0)
  have "\<forall>x. pview (c_destriper ?c) x = (if x < unat n then Some (g (off + of_nat x)) else None)"
    using v hit cf(1) by simp
  then obtain bl ic' c' where fin: "end_request ev ic1 ?c = Some (ic', c')"
    "c_done c'" "c_rval c' = int (unat n)" "c_result c' = Some bl" "length bl = unat n" "\<forall>i < unat n. bl ! i = g (off + of_nat i)"
    and ic': "ic' = ic1\<lparr>ic_analyzer := add_read_lat (ev_elapsed ev) (ic_analyzer ic1)\<rparr>"
    using read_finalize [where c = ?c and n = n and ev = ev and ic = ic1 and g = "\<lambda>i. g (off + of_nat i)"] pm
    by (auto simp: cf)
  have ci: "c_int (int (unat n)) = int (unat n)" using assms(5) by (intro c_int_id) linarith+
  have chk: "ictx_check ev ic = (0, ic)" using assms(1) by (simp add: ictx_check_def image_ok_def)
  have me: "map_extents ic [(off, len)] [] 0 = Some (Inr (m, n))" using assms(2) m by simp
  have "aio_read_with ev pr cl ic [(off, len)] hb aio_create_completion ps = Some (int (unat n), ic', c', ps')"
    unfolding aio_read_with_def
    by (simp add: chk me start run' fin(1) [simplified] ci [simplified] del: map_extents.simps)
  then show ?thesis using fin(2-6) P unfolding ic' by blast
qed

lemma aio_read_vec_run:
  assumes "image_ok ic" "quiet ev" "get_parent_overlap ic (ic_snap_id ic) = Some 0"
    "clip_io ic off len = (0, n)" "n \<noteq> 0" "unat off + unat n < 2 ^ 64" "unat n < 2147483648"
  shows "\<exists>bl ic' c'. aio_read_vec ev cl ic [(off, len)] hb aio_create_completion ps = Some (int (unat n), ic', c', ps)
    \<and> c_done c' \<and> c_rval c' = int (unat n) \<and> c_result c' = Some bl \<and> length bl = unat n
    \<and> (\<forall>i < unat n. bl ! i = image_byte ic cl (off + of_nat i))
    \<and> same_tiers (ic_extent_map ic) (ic_extent_map ic')
    \<and> (\<exists>an. ic' = ic\<lparr>ic_extent_map := ic_extent_map ic', ic_analyzer := an\<rparr>)"
proof -
  let ?P = "\<lambda>ic' ps'. ps' = ps \<and> (\<exists>em. ic' = ic\<lparr>ic_extent_map := em\<rparr> \<and> same_tiers (ic_extent_map ic) em)"
  have "\<exists>ic' m ps'. read_objects ev (parent_read (length ps) ev cl) (ic_snap_id ic) cl es (ic, c, ps)
        = Some (ic', c\<lparr>c_destriper := m, c_rval := c_rval c + int (\<Sum>e\<leftarrow>es. unat (oe_length e))\<rparr>, ps') \<and> ?P ic' ps' \<and> pok m
      \<and> (\<forall>x. pview m x = (if hits (exts_bufs es) x \<noteq> 0 then Some (image_byte ic cl (off + of_nat x)) else pview (c_destriper c) x))"
    if "collecting c" "c_destriper c = []" "\<forall>e \<in> set es. extent_ok (ic_format_string ic) (ic_layout ic) off (unat n) e"
      "\<forall>x. hits (exts_bufs es) x = (if x < unat n then 1 else 0)" for es c
  proof -
    have st: "read_state ic c" using that(1) assms(1,3) by (simp add: read_state_def collecting_def)
    have h: "\<forall>x. hits (exts_bufs es) x \<le> 1" "\<forall>x. hits (exts_bufs es) x \<noteq> 0 \<longrightarrow> pview (c_destriper c) x = None"
      using that(2,4) by simp_all
    from read_objects_content [where pr = "parent_read (length ps) ev cl" and cl = cl and ps = ps, OF assms(2) st refl that(3) h]
    show ?thesis by blast
  qed
  from aio_read_with_run [where P = ?P and g = "image_byte ic cl" and hb = hb, OF assms(1,4-7) this]
  obtain bl ic1 an c' ps' em where r: "aio_read_with ev (parent_read (length ps) ev cl) cl ic [(off, len)] hb aio_create_completion ps
        = Some (int (unat n), ic1\<lparr>ic_analyzer := an\<rparr>, c', ps')"
    "c_done c'" "c_rval c' = int (unat n)" "c_result c' = Some bl" "length bl = unat n"
    "\<forall>i < unat n. bl ! i = image_byte ic cl (off + of_nat i)" "ps' = ps" "ic1 = ic\<lparr>ic_extent_map := em\<rparr>" "same_tiers (ic_extent_map ic) em"
    by blast
  then show ?thesis unfolding aio_read_vec_def
    by (intro exI [of _ bl] exI [of _ "ic1\<lparr>ic_analyzer := an\<rparr>"] exI [of _ c']) auto
qed

lemma image_read_run:
  assumes "image_ok ic" "quiet ev" "get_parent_overlap ic (ic_snap_id ic) = Some 0"
    "clip_io ic off len = (0, n)" "n \<noteq> 0" "unat off + unat n < 2 ^ 64" "unat n < 2147483648"
  shows "\<exists>bl ic'. image_read ev cl ic [(off, len)] ps = Some (int (unat n), bl, ic', ps)
    \<and> length bl = unat n \<and> (\<forall>i < unat n. bl ! i = image_byte ic cl (off + of_nat i))
    \<and> same_tiers (ic_extent_map ic) (ic_extent_map ic')
    \<and> (\<exists>an. ic' = ic\<lparr>ic_extent_map := ic_extent_map ic', ic_analyzer := an\<rparr>)"
proof -
  have "c_int (int (unat n)) = int (unat n)" using assms(7) by (intro c_int_id) linarith+
  with aio_read_vec_run [OF assms, of cl True ps] show ?thesis
    by (auto simp: image_read_def)
qed

text \<open>C4. A read returns the content of the image: with no extent being migrated, no failing
  operation and no parent data, \<open>read\<close> of a range that is accepted with \<open>n\<close> bytes returns \<open>n\<close> and
  exactly the bytes of the image at these offsets, each from the pool its extent lives on, holes and
  missing objects as zeros; the extent table keeps its meaning.\<close>

theorem image_read_content:
  assumes "image_ok ic" "quiet ev" "get_parent_overlap ic (ic_snap_id ic) = Some 0"
    "clip_io ic off len = (0, n)" "n \<noteq> 0" "unat off + unat n < 2 ^ 64" "unat n < 2147483648"
  shows "\<exists>bl ic'. image_read ev cl ic [(off, len)] ps = Some (int (unat n), bl, ic', ps)
    \<and> length bl = unat n \<and> (\<forall>i < unat n. bl ! i = image_byte ic cl (off + of_nat i))
    \<and> same_tiers (ic_extent_map ic) (ic_extent_map ic')"
  using image_read_run [OF assms, of cl ps] by blast

subsection \<open>Writes change their range\<close>

lemma be_pos_surj:
  "be_ok be \<Longrightarrow> k < ext_total be \<Longrightarrow> \<exists>x. be_pos be x = Some k"
proof (induction be arbitrary: k)
  case (Cons p be)
  obtain t n where p: "p = (t, n)" by (cases p)
  show ?case
  proof (cases "k < unat n")
    case True
    then have "be_pos (p # be) (unat t + k) = Some k" by (simp add: p)
    then show ?thesis ..
  next
    case False
    then have "k - unat n < ext_total be" using Cons.prems(2) by (simp add: p ext_total_def)
    then obtain x where x: "be_pos be x = Some (k - unat n)" using Cons by (auto simp: p)
    then have "\<not> (unat t \<le> x \<and> x < unat t + unat n)" using Cons.prems(1) by (auto simp: p)
    then have "be_pos (p # be) x = Some k" using x False unfolding p by (simp only: be_pos.simps if_False) simp
    then show ?thesis ..
  qed
qed (simp add: ext_total_def)

lemma gather_bytes:
  assumes "be_ok be" "\<forall>x. be_pos be x \<noteq> None \<longrightarrow> x < length buf"
  shows "length (gather buf be) = ext_total be \<and> (\<forall>x k. be_pos be x = Some k \<longrightarrow> gather buf be ! k = buf ! x)"
  using assms
proof (induction be)
  case Nil
  then show ?case by (simp add: gather_def ext_total_def)
next
  case (Cons p be)
  obtain t n where p: "p = (t, n)" by (cases p)
  have g: "gather buf (p # be) = take (unat n) (drop (unat t) buf) @ gather buf be"
    by (simp add: p gather_def)
  have "\<forall>x. be_pos be x \<noteq> None \<longrightarrow> x < length buf"
  proof (intro allI impI)
    fix x assume "be_pos be x \<noteq> None"
    then have "be_pos (p # be) x \<noteq> None" by (auto simp: p)
    then show "x < length buf" using Cons.prems(2) by blast
  qed
  then have IH: "length (gather buf be) = ext_total be"
    "\<And>x k. be_pos be x = Some k \<Longrightarrow> gather buf be ! k = buf ! x"
    using Cons.IH Cons.prems(1) by (auto simp: p)
  have in_buf: "unat t + unat n \<le> length buf" if "0 < unat n"
  proof -
    have "unat t \<le> unat t + unat n - 1 \<and> unat t + unat n - 1 < unat t + unat n" using that by linarith
    then have "be_pos (p # be) (unat t + unat n - 1) \<noteq> None" by (simp only: p be_pos.simps if_True) simp
    then have "unat t + unat n - 1 < length buf" using Cons.prems(2) by blast
    then show ?thesis using that by linarith
  qed
  then have len: "length (take (unat n) (drop (unat t) buf)) = unat n"
    by (cases "0 < unat n") auto
  have "gather buf (p # be) ! k = buf ! x" if b: "be_pos (p # be) x = Some k" for x k
  proof (cases "unat t \<le> x \<and> x < unat t + unat n")
    case True
    then have "k = x - unat t" "k < unat n" "0 < unat n" using b by (auto simp: p)
    then show ?thesis using True in_buf len by (simp add: g nth_append)
  next
    case False
    then obtain j where "be_pos be x = Some j" "k = unat n + j" using b by (auto simp: p)
    then show ?thesis using IH(2) len by (simp add: g nth_append)
  qed
  then show ?case using len IH(1) unfolding g by (simp add: p ext_total_def)
qed

definition no_seqs :: "cluster \<Rightarrow> bool" where
  "no_seqs cl \<longleftrightarrow> (\<forall>pid oid. seq_zero (cl pid oid))"

lemma no_overlap: "prune_parent_extents xs 0 = ([], 0)"
  by (simp add: prune_parent_extents_def Let_def dropWhile_eq_Nil_conv [THEN iffD2])

text \<open>What changes when an object of the image changes at the bytes of one extent.\<close>

lemma x_offset_lt: "layout_ok l \<Longrightarrow> unat (x_offset l y) < unat (lo_os l)"
proof -
  assume ok: "layout_ok l"
  have "unat (block_off l y) < unat (lo_su l)"
    unfolding block_off_def unat_mod_u64 by (rule mod_less_divisor [OF layout_ok_nat(1) [OF ok]])
  then have "unat (x_offset l y) + 1 \<le> unat (lo_os l)" by (intro x_offset_within [OF ok]) linarith
  then show ?thesis by linarith
qed

lemma image_byte_object:
  assumes "layout_ok (ic_layout ic)" "tiers_by_object ic"
    and e: "extent_ok (ic_format_string ic) (ic_layout ic) off len e" "len < 2 ^ 64"
    and cur: "objectno (ic_layout ic) cur = oe_objectno e"
    and pid: "pid = data_ctx ic (em_tier (ic_extent_map ic) cur)"
    and ob: "\<forall>i < unat (lo_os (ic_layout ic)). obj_bytes obs i =
         (if unat (oe_offset e) \<le> i \<and> i < unat (oe_offset e) + unat (oe_length e) then g (i - unat (oe_offset e))
          else obj_bytes (cl pid (oe_oid e)) i)"
  shows "image_byte ic (cl(pid := (cl pid)(oe_oid e := obs))) y =
    (case be_pos (oe_buffer_extents e) (unat (y - off)) of Some k \<Rightarrow> g k | None \<Rightarrow> image_byte ic cl y)"
proof -
  let ?l = "ic_layout ic" and ?f = "ic_format_string ic" and ?be = "oe_buffer_extents e"
  have b: "be_ok ?be" "ext_total ?be = unat (oe_length e)" "oe_oid e = format_oid ?f (oe_objectno e)"
    and at: "\<And>x k. be_pos ?be x = Some k \<Longrightarrow> x < len \<and> k < unat (oe_length e)
          \<and> objectno ?l (off + of_nat x) = oe_objectno e
          \<and> unat (x_offset ?l (off + of_nat x)) = unat (oe_offset e) + k"
    using e(1) unfolding extent_ok_def by blast+
  have diff: "unat (off + of_nat x - off) = x" if "x < len" for x
    using that e(2) by (simp add: unat_of_nat take_bit_nat_eq_self)
  have at_y: "objectno ?l y = oe_objectno e \<and> unat (x_offset ?l y) = unat (oe_offset e) + k \<and> k < unat (oe_length e)"
    if "be_pos ?be (unat (y - off)) = Some k" for k
  proof -
    have "off + of_nat (unat (y - off)) = y" by simp
    then show ?thesis using at [OF that] by metis
  qed
  let ?p = "data_ctx ic (em_tier (ic_extent_map ic) y)" and ?o = "format_oid ?f (objectno ?l y)"
    and ?i = "unat (x_offset ?l y)"
  show ?thesis
  proof (cases "objectno ?l y = oe_objectno e")
    case False
    then have "?o \<noteq> oe_oid e" by (simp add: b(3) format_oid_inj)
    moreover have "be_pos ?be (unat (y - off)) = None"
    proof (rule ccontr)
      assume "be_pos ?be (unat (y - off)) \<noteq> None"
      then obtain k where "be_pos ?be (unat (y - off)) = Some k" by blast
      from at_y [OF this] show False using False by blast
    qed
    ultimately show ?thesis by (simp add: image_byte_def)
  next
    case True
    have "em_tier (ic_extent_map ic) y = em_tier (ic_extent_map ic) cur"
      using assms(2) True cur unfolding tiers_by_object_def by metis
    then have same: "?p = pid" "?o = oe_oid e" using True by (simp_all add: pid b(3))
    have new: "image_byte ic (cl(pid := (cl pid)(oe_oid e := obs))) y = obj_bytes obs ?i"
      by (simp add: image_byte_def same)
    have old: "image_byte ic cl y = obj_bytes (cl pid (oe_oid e)) ?i" by (simp add: image_byte_def same)
    have lt: "?i < unat (lo_os ?l)" by (rule x_offset_lt [OF assms(1)])
    show ?thesis
    proof (cases "unat (oe_offset e) \<le> ?i \<and> ?i < unat (oe_offset e) + unat (oe_length e)")
      case inside: True
      then have "?i - unat (oe_offset e) < ext_total ?be" unfolding b(2) by linarith
      then obtain x where x: "be_pos ?be x = Some (?i - unat (oe_offset e))" using be_pos_surj [OF b(1)] by blast
      note a = at [OF x]
      have "unat (x_offset ?l (off + of_nat x)) = ?i" using a inside by linarith
      then have xo: "x_offset ?l (off + of_nat x) = x_offset ?l y" by (rule u64_eqI)
      have "objectno ?l (off + of_nat x) = objectno ?l y" using a True by metis
      from image_byte_inj [OF assms(1) this xo] have "unat (y - off) = x" using diff a by blast
      moreover have "obj_bytes obs ?i = g (?i - unat (oe_offset e))" using ob lt inside by presburger
      ultimately show ?thesis using x unfolding new by simp
    next
      case outside: False
      have "be_pos ?be (unat (y - off)) = None"
      proof (rule ccontr)
        assume "be_pos ?be (unat (y - off)) \<noteq> None"
        then obtain k where "be_pos ?be (unat (y - off)) = Some k" by blast
        from at_y [OF this] outside show False by linarith
      qed
      moreover have "obj_bytes obs ?i = obj_bytes (cl pid (oe_oid e)) ?i" using ob lt outside by presburger
      ultimately show ?thesis unfolding new old by simp
    qed
  qed
qed

lemma image_byte_write:
  assumes "layout_ok (ic_layout ic)" "tiers_by_object ic"
    and e: "extent_ok (ic_format_string ic) (ic_layout ic) off len e" "len < 2 ^ 64" "len \<le> length buf"
    and cur: "objectno (ic_layout ic) cur = oe_objectno e"
    and pid: "pid = data_ctx ic (em_tier (ic_extent_map ic) cur)"
    and ob: "\<forall>i. byte_at (od_data ob) i =
         (if unat (oe_offset e) \<le> i \<and> i < unat (oe_offset e) + length d then d ! (i - unat (oe_offset e))
          else obj_bytes (cl pid (oe_oid e)) i)"
    and d: "d = gather buf (oe_buffer_extents e)"
  shows "image_byte ic (cl(pid := (cl pid)(oe_oid e := Some ob))) y =
    (if be_pos (oe_buffer_extents e) (unat (y - off)) \<noteq> None then buf ! unat (y - off) else image_byte ic cl y)"
proof -
  let ?be = "oe_buffer_extents e"
  have b: "be_ok ?be" "ext_total ?be = unat (oe_length e)" and at: "\<And>x k. be_pos ?be x = Some k \<Longrightarrow> x < len"
    using e(1) unfolding extent_ok_def by blast+
  have "\<forall>x. be_pos ?be x \<noteq> None \<longrightarrow> x < length buf" using at e(3) by fastforce
  note g = gather_bytes [OF b(1) this, folded d, unfolded b(2)]
  have "\<forall>i < unat (lo_os (ic_layout ic)). obj_bytes (Some ob) i =
         (if unat (oe_offset e) \<le> i \<and> i < unat (oe_offset e) + unat (oe_length e) then d ! (i - unat (oe_offset e))
          else obj_bytes (cl pid (oe_oid e)) i)"
    using ob conjunct1 [OF g] by (simp only: obj_bytes_simps simp_thms)
  note eq = image_byte_object [where obs = "Some ob" and g = "\<lambda>k. d ! k" and cl = cl and y = y,
      OF assms(1,2) e(1,2) cur pid this]
  show ?thesis unfolding eq using g by (cases "be_pos ?be (unat (y - off))") auto
qed

text \<open>Writing one object of the request.\<close>

definition writing_state :: "ImageCtx \<Rightarrow> AioCompletion \<Rightarrow> cluster \<Rightarrow> bool" where
  "writing_state ic c cl \<longleftrightarrow> image_ok ic \<and> no_seqs cl \<and> c_building c \<and> 0 < c_ref c \<and> c_rval c = 0"

text \<open>Objects whose name is not one of the image's.\<close>

definition foreign :: "ImageCtx \<Rightarrow> string \<Rightarrow> bool" where
  "foreign ic oid \<longleftrightarrow> (\<forall>k. oid \<noteq> format_oid (ic_format_string ic) k)"

definition wrote :: "ImageCtx \<Rightarrow> u64 \<Rightarrow> bytes \<Rightarrow> (u64 \<times> u64) list \<Rightarrow> cluster \<Rightarrow> cluster \<Rightarrow> bool" where
  "wrote ic off buf be cl cl' \<longleftrightarrow> no_seqs cl'
     \<and> (\<forall>y. image_byte ic cl' y = (if hits be (unat (y - off)) \<noteq> 0 then buf ! unat (y - off) else image_byte ic cl y))
     \<and> (\<forall>pid oid. foreign ic oid \<longrightarrow> cl' pid oid = cl pid oid)
     \<and> (\<forall>pid oid ob. cl pid oid = Some ob \<longrightarrow> (\<exists>ob'. cl' pid oid = Some ob'))
     \<and> (\<forall>pid oid ob. cl' pid oid = Some ob \<longrightarrow>
          cl pid oid = Some ob \<or> grown (unat (lo_os (ic_layout ic))) (cl pid oid) ob)"

lemma completed_write:
  assumes "c_building c" "0 < c_ref c" "c_rval c = 0"
  shows "Option.bind (add_request c) (complete_request 0) = Some c"
  using assms by (cases c)
    (simp add: add_request_def c_get_def complete_request_def Let_def update_rval_def put_unlock_def)

lemma write_object_content:
  assumes "quiet ev" "writing_state ic c cl"
    and e: "extent_ok (ic_format_string ic) (ic_layout ic) off len e" "len < 2 ^ 64" "len \<le> length buf"
  shows "\<exists>em cl'. write_object ev 0 buf e (ic, c, cl, ps) = Some (ic\<lparr>ic_extent_map := em\<rparr>, c, cl', ps)
    \<and> same_tiers (ic_extent_map ic) em \<and> wrote ic off buf (oe_buffer_extents e) cl cl'"
proof -
  have ok: "layout_ok (ic_layout ic)" "settled (ic_extent_map ic)" "tiers_by_object ic"
    "unat (lo_os (ic_layout ic)) < 2147483648" "no_seqs cl" "c_building c" "0 < c_ref c" "c_rval c = 0"
    using assms(2) by (auto simp: writing_state_def image_ok_def)
  let ?l = "ic_layout ic" and ?be = "oe_buffer_extents e"
  have ef: "oe_length e \<noteq> 0" "be_ok ?be" "ext_total ?be = unat (oe_length e)"
    "unat (oe_offset e) + unat (oe_length e) \<le> unat (lo_os ?l)" "oe_oid e = format_oid (ic_format_string ic) (oe_objectno e)"
    and lt: "\<And>x k. be_pos ?be x = Some k \<Longrightarrow> x < len"
    using e(1) unfolding extent_ok_def by blast+
  obtain cur where cur: "objectno ?l cur = oe_objectno e" "x_offset ?l cur = oe_offset e"
    using e(1) unfolding extent_ok_def by blast
  let ?pool = "em_tier (ic_extent_map ic) cur" and ?d = "gather buf ?be"
  obtain em where w: "wait_pool e ic = Some (?pool, ic\<lparr>ic_extent_map := em\<rparr>)"
    "same_tiers (ic_extent_map ic) em"
    using wait_pool_tier [OF ok(1,2) ef(1) cur] by blast
  let ?ic = "ic\<lparr>ic_extent_map := em\<rparr>"
  have "\<forall>x. be_pos ?be x \<noteq> None \<longrightarrow> x < length buf" using lt e(3) by fastforce
  from gather_bytes [OF ef(2) this] have dl: "length ?d = unat (oe_length e)" unfolding ef(3) by blast
  obtain objectx where ox: "extent_to_file ?l (oe_objectno e) 0 (lo_os ?l) = Some objectx"
    using ok(1) by (auto simp: extent_to_file_def layout_ok_def not_less)
  have r: "range_ok (oe_offset e) (length ?d)" using ef(4) ok(4) unfolding range_ok_def dl by linarith
  have sq: "seq_zero (cl (data_ctx ?ic ?pool) (oe_oid e))" using ok(5) by (simp add: no_seqs_def)
  have nf: "\<not> ev_fault ev (data_ctx ?ic ?pool) (oe_oid e) < 0" using assms(1) by (simp add: quiet_def)
  let ?aw = "AioWrite ?pool (oe_oid e) (oe_objectno e) (oe_offset e) [] 0 ?d" and ?pid = "data_ctx ic ?pool"
  obtain ob where wr: "write_run ev (parent_read (length ps) ev cl) ?ic ?aw cl ps
      = Some (0, ?aw, cl(?pid := (cl ?pid)(oe_oid e := Some ob)), ps)"
    and ob: "od_truncate_seq ob = 0" "\<forall>i. byte_at (od_data ob) i =
         (if unat (oe_offset e) \<le> i \<and> i < unat (oe_offset e) + length ?d then ?d ! (i - unat (oe_offset e))
          else obj_bytes (cl ?pid (oe_oid e)) i)"
      "grown (unat (oe_offset e) + length ?d) (cl ?pid (oe_oid e)) ob"
    using write_run_plain [where ev = ev and ic = ?ic and pool = ?pool and cl = cl and ps = ps
        and pr = "parent_read (length ps) ev cl" and ono = "oe_objectno e" and ov = 0, OF r sq nf] by auto
  let ?cl = "cl(?pid := (cl ?pid)(oe_oid e := Some ob))"
  have "write_object ev 0 buf e (ic, c, cl, ps) = Some (?ic, c, ?cl, ps)"
    using completed_write [OF ok(6-8)]
    by (cases "add_request c") (simp_all add: write_object_def ox no_overlap w(1) wr)
  moreover have "wrote ic off buf ?be cl ?cl"
    unfolding wrote_def
  proof (intro conjI allI impI)
    show "no_seqs ?cl" using ok(5) ob(1) by (simp add: no_seqs_def seq_zero_def)
    fix y
    show "image_byte ic ?cl y = (if hits ?be (unat (y - off)) \<noteq> 0 then buf ! unat (y - off) else image_byte ic cl y)"
      using image_byte_write [where cl = cl and y = y, OF ok(1,3) e cur(1) refl ob(2) refl]
      unfolding be_pos_hits .
  next
    fix pid oid assume "foreign ic oid"
    then show "?cl pid oid = cl pid oid" by (simp add: foreign_def ef(5))
  next
    fix pid oid ob' assume "cl pid oid = Some ob'"
    then show "\<exists>ob'. ?cl pid oid = Some ob'" by auto
  next
    fix pid oid ob' assume "?cl pid oid = Some ob'"
    then show "cl pid oid = Some ob' \<or> grown (unat (lo_os (ic_layout ic))) (cl pid oid) ob'"
      using grown_mono [OF ob(3)] ef(4) dl by (auto split: if_splits)
  qed
  ultimately show ?thesis using w(2) by blast
qed

lemma wrote_update:
  "same_tiers (ic_extent_map ic) em \<Longrightarrow> wrote (ic\<lparr>ic_extent_map := em\<rparr>) off buf be cl cl' = wrote ic off buf be cl cl'"
  by (simp add: wrote_def image_byte_update foreign_def)

lemma grown_append:
  assumes "\<forall>pid oid ob. cl1 pid oid = Some ob \<longrightarrow> cl pid oid = Some ob \<or> grown n (cl pid oid) ob"
    "\<forall>pid oid ob. cl2 pid oid = Some ob \<longrightarrow> cl1 pid oid = Some ob \<or> grown n (cl1 pid oid) ob"
    "\<forall>pid oid. cl pid oid \<noteq> None \<longrightarrow> cl1 pid oid \<noteq> None" "cl2 pid oid = Some ob"
  shows "cl pid oid = Some ob \<or> grown n (cl pid oid) ob"
proof (cases "cl1 pid oid")
  case None
  then have "cl pid oid = None" using assms(3) by blast
  then show ?thesis using assms(2,4) None by metis
next
  case (Some ob1)
  then have 1: "cl pid oid = Some ob1 \<or> grown n (cl pid oid) ob1" using assms(1) by blast
  have "Some ob1 = Some ob \<or> grown n (Some ob1) ob" using assms(2,4) Some by metis
  then show ?thesis
  proof
    assume "Some ob1 = Some ob"
    then show ?thesis using 1 by simp
  next
    assume g: "grown n (Some ob1) ob"
    from 1 show ?thesis
    proof
      assume "cl pid oid = Some ob1"
      then show ?thesis using g by simp
    next
      assume "grown n (cl pid oid) ob1"
      then show ?thesis using grown_trans [OF _ g] by simp
    qed
  qed
qed

lemma wrote_append:
  assumes "wrote ic off buf be cl cl1" "wrote ic off buf be' cl1 cl2"
  shows "wrote ic off buf (be @ be') cl cl2"
  unfolding wrote_def
proof (intro conjI allI impI)
  show "no_seqs cl2" using assms(2) by (simp add: wrote_def)
  fix y
  show "image_byte ic cl2 y = (if hits (be @ be') (unat (y - off)) \<noteq> 0 then buf ! unat (y - off) else image_byte ic cl y)"
    using assms by (simp add: wrote_def)
next
  fix pid oid assume "foreign ic oid"
  then show "cl2 pid oid = cl pid oid" using assms by (simp add: wrote_def)
next
  fix pid oid ob assume "cl pid oid = Some ob"
  then show "\<exists>ob'. cl2 pid oid = Some ob'" using assms unfolding wrote_def by metis
next
  fix pid oid ob assume b: "cl2 pid oid = Some ob"
  have g: "\<forall>pid oid ob. cl1 pid oid = Some ob \<longrightarrow> cl pid oid = Some ob \<or> grown (unat (lo_os (ic_layout ic))) (cl pid oid) ob"
    "\<forall>pid oid ob. cl2 pid oid = Some ob \<longrightarrow> cl1 pid oid = Some ob \<or> grown (unat (lo_os (ic_layout ic))) (cl1 pid oid) ob"
    using assms unfolding wrote_def by blast+
  have "\<forall>pid oid. cl pid oid \<noteq> None \<longrightarrow> cl1 pid oid \<noteq> None"
    using assms(1) unfolding wrote_def by fastforce
  then show "cl pid oid = Some ob \<or> grown (unat (lo_os (ic_layout ic))) (cl pid oid) ob"
    using grown_append [OF g _ b] by blast
qed

lemma write_objects_content:
  assumes "quiet ev" "writing_state ic c cl" "len < 2 ^ 64" "len \<le> length buf"
    "\<forall>e \<in> set es. extent_ok (ic_format_string ic) (ic_layout ic) off len e"
  shows "\<exists>em cl'. write_objects (write_object ev 0 buf) es (ic, c, cl, ps) = Some (ic\<lparr>ic_extent_map := em\<rparr>, c, cl', ps)
    \<and> same_tiers (ic_extent_map ic) em \<and> wrote ic off buf (exts_bufs es) cl cl'"
  using assms(2,5)
proof (induction es arbitrary: ic cl)
  case Nil
  then have "same_tiers (ic_extent_map ic) (ic_extent_map ic)" "wrote ic off buf (exts_bufs []) cl cl"
    by (simp_all add: same_tiers_refl writing_state_def image_ok_def wrote_def)
  moreover have "write_objects (write_object ev 0 buf) [] (ic, c, cl, ps)
      = Some (ic\<lparr>ic_extent_map := ic_extent_map ic\<rparr>, c, cl, ps)" by simp
  ultimately show ?case by blast
next
  case (Cons e es)
  have e: "extent_ok (ic_format_string ic) (ic_layout ic) off len e" using Cons.prems(2) by simp
  obtain em cl1 where 1: "write_object ev 0 buf e (ic, c, cl, ps) = Some (ic\<lparr>ic_extent_map := em\<rparr>, c, cl1, ps)"
    "same_tiers (ic_extent_map ic) em" "wrote ic off buf (oe_buffer_extents e) cl cl1"
    using write_object_content [OF assms(1) Cons.prems(1) e assms(3,4), of ps] by blast
  let ?ic = "ic\<lparr>ic_extent_map := em\<rparr>"
  have io: "image_ok ?ic" using image_ok_update [OF _ 1(2)] Cons.prems(1) unfolding writing_state_def by blast
  have "writing_state ?ic c cl1"
    using Cons.prems(1) 1(3) io unfolding writing_state_def wrote_def by blast
  moreover have "\<forall>e \<in> set es. extent_ok (ic_format_string ?ic) (ic_layout ?ic) off len e" using Cons.prems(2) by simp
  ultimately obtain em2 cl2 where
    2: "write_objects (write_object ev 0 buf) es (?ic, c, cl1, ps) = Some (?ic\<lparr>ic_extent_map := em2\<rparr>, c, cl2, ps)"
    "same_tiers (ic_extent_map ?ic) em2" "wrote ?ic off buf (exts_bufs es) cl1 cl2"
    using Cons.IH by blast
  have "same_tiers em em2" using 2(2) by simp
  moreover have "wrote ic off buf (exts_bufs (e # es)) cl cl2"
    using wrote_append [OF 1(3)] 2(3) unfolding wrote_update [OF 1(2)] by simp
  moreover have "write_objects (write_object ev 0 buf) (e # es) (ic, c, cl, ps) = Some (ic\<lparr>ic_extent_map := em2\<rparr>, c, cl2, ps)"
    using 2(1) by (simp add: 1(1))
  ultimately show ?case using same_tiers_trans [OF 1(2)] by blast
qed

lemma clip_again: "clip_io ic off len = (0, n) \<Longrightarrow> n \<noteq> 0 \<Longrightarrow> clip_io ic off n = (0, n)"
  by (auto simp: clip_io_def Let_def split: if_splits)

lemma image_analyzer [simp]:
  "image_byte (ic\<lparr>ic_analyzer := an\<rparr>) cl y = image_byte ic cl y"
  "image_ok (ic\<lparr>ic_analyzer := an\<rparr>) = image_ok ic"
  "foreign (ic\<lparr>ic_analyzer := an\<rparr>) oid = foreign ic oid"
  "wrote (ic\<lparr>ic_analyzer := an\<rparr>) off buf be cl cl' = wrote ic off buf be cl cl'"
  by (simp_all add: image_byte_def image_ok_def tiers_by_object_def foreign_def wrote_def)

text \<open>An accepted write runs all its objects and completes with 0.\<close>

lemma aio_write_content:
  assumes "image_ok ic" "quiet ev" "no_seqs cl" "get_parent_overlap ic (ic_snap_id ic) = Some 0"
    "ic_snap_id ic = CEPH_NOSNAP" "\<not> ic_read_only ic" "len \<noteq> 0"
    "clip_io ic off len = (0, n)" "n \<noteq> 0" "unat off + unat n < 2 ^ 64" "unat n \<le> length buf"
  shows "\<exists>ic' c cl' es. aio_write ev off len buf (ic, aio_create_completion, cl, ps) = Some (0, ic', c, cl', ps)
    \<and> c_done c \<and> c_rval c = 0 \<and> same_tiers (ic_extent_map ic) (ic_extent_map ic')
    \<and> (\<exists>an. ic' = ic\<lparr>ic_extent_map := ic_extent_map ic', ic_analyzer := an\<rparr>)
    \<and> wrote ic off buf (exts_bufs es) cl cl' \<and> (\<forall>x. hits (exts_bufs es) x = (if x < unat n then 1 else 0))"
proof -
  let ?ic = "add_image_op WRITE_OP off len ic"
  have up: "?ic = ic\<lparr>ic_analyzer := add_op \<lparr>op_type = WRITE_OP, op_off = off, op_len = len\<rparr> (ic_analyzer ic)\<rparr>"
    by (simp add: add_image_op_def)
  have sel: "ic_layout ?ic = ic_layout ic" "ic_format_string ?ic = ic_format_string ic"
    "ic_extent_map ?ic = ic_extent_map ic" "ic_snap_id ?ic = ic_snap_id ic" "ic_read_only ?ic = ic_read_only ic"
    by (simp_all add: up)
  have lok: "layout_ok (ic_layout ?ic)" using assms(1) by (simp add: image_ok_def sel)
  obtain m where m: "file_to_extents_map (ic_format_string ?ic) (ic_layout ?ic) off n 0 [] 0 = Some m"
    and ok: "\<forall>e \<in> set (concat (map snd m)). extent_ok (ic_format_string ?ic) (ic_layout ?ic) off (unat n) e"
    and hit: "\<forall>x. hits (exts_bufs (concat (map snd m))) x = (if x < unat n then 1 else 0)"
    using extents_of_request [OF lok assms(9,10), of "ic_format_string ?ic" 0] by blast
  let ?es = "concat (map snd m)"
  define c where "c = aio_create_completion\<lparr>c_ref := 2, c_type := AIO_TYPE_WRITE\<rparr>"
  have start: "begin_request AIO_TYPE_WRITE aio_create_completion = Some c"
    by (simp add: begin_request_def c_get_def init_time_def c_def aio_create_completion_def)
  have st: "writing_state ?ic c cl"
    using assms(1,3) by (simp add: writing_state_def up c_def aio_create_completion_def)
  have lt: "unat n < 2 ^ 64" using unat_lt [of n] by simp
  obtain em cl' where
    w: "write_objects (write_object ev 0 buf) ?es (?ic, c, cl, ps) = Some (?ic\<lparr>ic_extent_map := em\<rparr>, c, cl', ps)"
    "same_tiers (ic_extent_map ?ic) em" "wrote ?ic off buf (exts_bufs ?es) cl cl'"
    using write_objects_content [OF assms(2) st lt assms(11) ok, of ps] by blast
  have an: "\<exists>an. ?ic\<lparr>ic_extent_map := em, ic_analyzer := b\<rparr> = ic\<lparr>ic_extent_map := em, ic_analyzer := an\<rparr>" for b
    by (rule exI [of _ b]) (simp add: up)
  obtain ic' c' where fin: "end_request ev (?ic\<lparr>ic_extent_map := em\<rparr>) c = Some (ic', c')"
    "c_done c'" "c_rval c' = 0" "ic_extent_map ic' = em" "\<exists>an. ic' = ic\<lparr>ic_extent_map := em, ic_analyzer := an\<rparr>"
    by (simp add: end_request_def finish_adding_requests_def Let_def finalize_def complete_def put_unlock_def
        c_def aio_create_completion_def an)
  have chk: "ictx_check ev ?ic = (0, ?ic)" using assms(1) by (simp add: ictx_check_def image_ok_def up)
  have clip: "clip_io ?ic off len = (0, n)" using assms(8) by (simp add: up)
  have ov: "get_parent_overlap ?ic CEPH_NOSNAP = Some 0" using assms(4,5) by (simp add: up)
  have ext: "file_to_extents (ic_format_string ?ic) (ic_layout ?ic) off n 0 0 = Some ?es"
    using m by (simp add: file_to_extents_def assimilate_extents_def)
  have "aio_write ev off len buf (ic, aio_create_completion, cl, ps) = Some (0, ic', c', cl', ps)"
    using assms(5-7) fin(1) w(1)
    by (simp add: aio_write_def Let_def chk clip ov ext [unfolded sel] run_extents_def start sel)
  moreover have "wrote ic off buf (exts_bufs ?es) cl cl'" using w(3) by (simp add: up)
  ultimately show ?thesis using fin(2-5) hit w(2) unfolding sel by blast
qed

lemma image_write_run:
  assumes "image_ok ic" "quiet ev" "no_seqs cl" "get_parent_overlap ic (ic_snap_id ic) = Some 0"
    "ic_snap_id ic = CEPH_NOSNAP" "\<not> ic_read_only ic"
    "clip_io ic off len = (0, n)" "n \<noteq> 0" "unat off + unat n < 2 ^ 64" "unat n \<le> length buf"
  shows "\<exists>cl' ic' be an. image_write ev cl ic off len buf ps = Some (int (unat n), cl', ic', ps)
    \<and> same_tiers (ic_extent_map ic) (ic_extent_map ic')
    \<and> ic' = ic\<lparr>ic_extent_map := ic_extent_map ic', ic_analyzer := an\<rparr>
    \<and> wrote ic off buf be cl cl'
    \<and> (\<forall>y. image_byte ic cl' y =
         (if unat off \<le> unat y \<and> unat y < unat off + unat n then buf ! (unat y - unat off) else image_byte ic cl y))"
proof -
  obtain ic' c cl' es an where
    w: "aio_write ev off n buf (ic, aio_create_completion, cl, ps) = Some (0, ic', c, cl', ps)"
    "c_done c" "c_rval c = 0" "same_tiers (ic_extent_map ic) (ic_extent_map ic')"
    "ic' = ic\<lparr>ic_extent_map := ic_extent_map ic', ic_analyzer := an\<rparr>"
    "wrote ic off buf (exts_bufs es) cl cl'" "\<forall>x. hits (exts_bufs es) x = (if x < unat n then 1 else 0)"
    using aio_write_content [OF assms(1-6,8) clip_again [OF assms(7,8)] assms(8-10), of ps] by blast
  have "image_write ev cl ic off len buf ps = Some (int (unat n), cl', ic', ps)"
    using assms(7) w(1-3) c_int_id [of 0] by (simp add: image_write_def)
  moreover have "image_byte ic cl' y =
      (if unat off \<le> unat y \<and> unat y < unat off + unat n then buf ! (unat y - unat off) else image_byte ic cl y)" for y
    using w(6,7) sub_lt_range [OF assms(9), of y] unat_sub_le [of off y] unfolding wrote_def by simp
  ultimately show ?thesis using w(4-6) by blast
qed

text \<open>C3. A write changes exactly its range: under the same conditions \<open>write\<close> returns the clipped
  length \<open>n\<close>, afterwards every byte of the image in the range is the written one and every other
  byte of the image is what it was, and objects of other names are untouched.\<close>

theorem image_write_content:
  assumes "image_ok ic" "quiet ev" "no_seqs cl" "get_parent_overlap ic (ic_snap_id ic) = Some 0"
    "ic_snap_id ic = CEPH_NOSNAP" "\<not> ic_read_only ic"
    "clip_io ic off len = (0, n)" "n \<noteq> 0" "unat off + unat n < 2 ^ 64" "unat n \<le> length buf"
  shows "\<exists>cl' ic'. image_write ev cl ic off len buf ps = Some (int (unat n), cl', ic', ps)
    \<and> same_tiers (ic_extent_map ic) (ic_extent_map ic')
    \<and> (\<forall>y. image_byte ic cl' y =
         (if unat off \<le> unat y \<and> unat y < unat off + unat n then buf ! (unat y - unat off) else image_byte ic cl y))
    \<and> (\<forall>pid oid. foreign ic oid \<longrightarrow> cl' pid oid = cl pid oid)"
  using image_write_run [OF assms, of ps] unfolding wrote_def by blast

subsection \<open>The default layout\<close>

text \<open>With plain layout and objects of the extent size, placement is by object.\<close>

lemma plain_tiers_by_object:
  assumes "layout_plain (ic_layout ic)" "lo_os (ic_layout ic) = extent_size (ic_extent_map ic)"
  shows "tiers_by_object ic"
  using assms unfolding tiers_by_object_def objectno_plain [OF assms(1)] em_tier_def by simp

definition image_tiered :: ImageCtx where
  "image_tiered = image_9M\<lparr>ic_extent_map := \<lparr>extent_size = EXTENT_SIZE, map_size = 2, em_map = [(0, - 3), (1, 5)]\<rparr>\<rparr>"

lemma image_tiered_ok: "image_ok image_tiered"
proof -
  have "tiers_by_object image_tiered"
    by (rule plain_tiers_by_object) (simp_all add: image_tiered_def image_9M_def layout_plain_def whobbs_consts)
  then show ?thesis
    by (simp add: image_ok_def image_tiered_def image_9M_def layout_ok_def settled_def em_ok_def whobbs_consts)
qed

lemma image_tiered_fields:
  "get_parent_overlap image_tiered (ic_snap_id image_tiered) = Some 0" "ic_snap_id image_tiered = CEPH_NOSNAP"
  "\<not> ic_read_only image_tiered" "clip_io image_tiered 4194302 4 = (0, 4)"
  by (simp_all add: image_tiered_def image_9M_def get_parent_overlap_def no_parent_def clip_io_def
      get_image_size_def)

lemma quiet_env_quiet: "quiet quiet_env"
  by (simp add: quiet_def quiet_env_def)

text \<open>Bytes around the border of the two extents: the HDD pool holds ones, the SSD pool twos.\<close>

definition cluster_12 :: cluster where
  "cluster_12 = (\<lambda>pid oid. if pid = 3 then Some (fresh_object\<lparr>od_data := replicate 4194304 1, od_size := 4194304\<rparr>)
     else if pid = 4 then Some (fresh_object\<lparr>od_data := [2], od_size := 1\<rparr>) else None)"

lemma image_tiered_byte:
  "image_byte image_tiered cluster_12 4194303 = 1" "image_byte image_tiered cluster_12 4194304 = 2"
  by (simp_all add: image_byte_def image_tiered_def image_9M_def em_tier_def data_ctx_def cluster_12_def
      whobbs_consts x_offset_def stripeno_def blockno_def block_off_def stripes_per_object_def byte_at_def)

lemma image_read_content_witness:
  "\<exists>bl ic'. image_read quiet_env cluster_12 image_tiered [(4194302, 4)] [] = Some (4, bl, ic', [])
    \<and> bl ! 1 = 1 \<and> bl ! 2 = 2"
proof -
  have "(4194302 :: u64) + of_nat 1 = 4194303" "(4194302 :: u64) + of_nat 2 = 4194304" by simp_all
  then show ?thesis
    using image_read_content [OF image_tiered_ok quiet_env_quiet image_tiered_fields(1,4), of cluster_12 "[]"]
    by (fastforce simp: image_tiered_byte)
qed

lemma no_seqs_12: "no_seqs cluster_12"
  by (simp add: no_seqs_def seq_zero_def cluster_12_def fresh_object_def)

lemma image_write_content_witness:
  "\<exists>cl' ic'. image_write quiet_env cluster_12 image_tiered 4194302 4 [6, 7, 8, 9] [] = Some (4, cl', ic', [])
    \<and> image_byte image_tiered cl' 4194303 = 7 \<and> image_byte image_tiered cl' 4194304 = 8"
proof -
  have "\<exists>cl' ic'. image_write quiet_env cluster_12 image_tiered 4194302 4 [6, 7, 8, 9] [] = Some (int (unat (4 :: u64)), cl', ic', [])
    \<and> same_tiers (ic_extent_map image_tiered) (ic_extent_map ic')
    \<and> (\<forall>y. image_byte image_tiered cl' y =
         (if unat (4194302 :: u64) \<le> unat y \<and> unat y < unat (4194302 :: u64) + unat (4 :: u64)
          then [6, 7, 8, 9] ! (unat y - unat (4194302 :: u64)) else image_byte image_tiered cluster_12 y))
    \<and> (\<forall>pid oid. foreign image_tiered oid \<longrightarrow> cl' pid oid = cluster_12 pid oid)"
    by (rule image_write_content [OF image_tiered_ok quiet_env_quiet no_seqs_12 image_tiered_fields]) simp_all
  then obtain cl' ic' where
    w: "image_write quiet_env cluster_12 image_tiered 4194302 4 [6, 7, 8, 9] [] = Some (int (unat (4 :: u64)), cl', ic', [])"
    and b: "\<And>y. image_byte image_tiered cl' y =
         (if unat (4194302 :: u64) \<le> unat y \<and> unat y < unat (4194302 :: u64) + unat (4 :: u64)
          then [6, 7, 8, 9] ! (unat y - unat (4194302 :: u64)) else image_byte image_tiered cluster_12 y)"
    by blast
  have "image_byte image_tiered cl' 4194303 = 7" "image_byte image_tiered cl' 4194304 = 8"
    using b [of 4194303] b [of 4194304] by simp_all
  then show ?thesis using w by auto
qed

end
