(* ===== verification/Aio_Read_Steps.thy ===== *)
theory Aio_Read_Steps
  imports Data_Content
begin

text \<open>
  The completion of a read in every interleaving. \<open>Data_Content\<close> runs the object reads of a request
  one after the other; here \<open>reading\<close> is the step relation in which \<open>aio_read\<close> adds and submits them in
  order, any of those submitted is answered at any time, with any data (\<open>C_AioRead::finish\<close>), and
  \<open>aio_read\<close> closes the request. The last of these steps assembles the buffer. The lemmas show that
  the assertions hold and what the buffer is; with \<open>Aio_Completion\<close>, for writes, discards and
  flushes, they give the property of all completions at the end.
\<close>

subsection \<open>The answers\<close>

text \<open>What an object read can bring back: with success or \<open>-ENOENT\<close> an ascending map of extents from the
  object offset on, with its data, or plain data; a failure leaves the request alone. Object reads do
  not return \<open>-EEXIST\<close>, which \<open>complete_request\<close> takes for a success.\<close>

definition filed :: "int \<Rightarrow> bool" where
  "filed r \<longleftrightarrow> 0 \<le> r \<or> r = - ENOENT"

definition answer_map :: "AioRead \<Rightarrow> (u64 \<times> u64) list" where
  "answer_map req = (if ar_ext_map req = [] then [(ar_object_off req, of_nat (length (ar_read_data req)))]
     else ar_ext_map req)"

definition answer_ok :: "AioRead \<Rightarrow> int \<Rightarrow> bool" where
  "answer_ok req r \<longleftrightarrow> r \<noteq> - EEXIST \<and>
     (filed r \<longrightarrow> (if ar_ext_map req = [] then length (ar_read_data req) \<le> unat (ar_object_len req)
        else asc (unat (ar_object_off req)) (ar_ext_map req) \<and> ext_total (ar_ext_map req) \<le> length (ar_read_data req)))"

definition answer_value :: "AioRead \<times> int \<Rightarrow> int" where
  "answer_value a = (if filed (snd a) then int (unat (ar_object_len (fst a))) else snd a)"

text \<open>Byte \<open>k\<close> of the answer, holes and what is past the data as zeros.\<close>

definition answer_byte :: "AioRead \<Rightarrow> nat \<Rightarrow> u8" where
  "answer_byte req k = ext_byte (nat_pairs (answer_map req)) (ar_read_data req) (unat (ar_object_off req) + k)"

subsection \<open>The steps\<close>

definition started_read :: "bool \<Rightarrow> u64 \<Rightarrow> AioCompletion" where
  "started_read has_buf n =
     init_time AIO_TYPE_READ (aio_create_completion\<lparr>c_has_buf := has_buf, c_buf_len := n, c_ref := 2\<rparr>)"

text \<open>\<open>reading hb n es todo pend hs fin c\<close>: of the extents \<open>es\<close>, \<open>todo\<close> are still to be added, \<open>pend\<close> are the
  requests under way, \<open>hs\<close> the answered ones with their results, and \<open>fin\<close> says that \<open>aio_read\<close> has
  called \<open>finish_adding_requests\<close> and dropped its reference.\<close>

inductive reading ::
    "bool \<Rightarrow> u64 \<Rightarrow> object_extent list \<Rightarrow> object_extent list \<Rightarrow> AioRead list \<Rightarrow> (AioRead \<times> int) list \<Rightarrow> bool \<Rightarrow>
     AioCompletion \<Rightarrow> bool" for hb n es where
  start: "reading hb n es es [] [] False (started_read hb n)"
| add: "reading hb n es (e # todo) pend hs False c \<Longrightarrow> add_request c = Some c' \<Longrightarrow>
    reading hb n es todo (pend @ [new_read pool e sid]) hs False c'"
| answer: "reading hb n es todo (xs @ req # ys) hs fin c \<Longrightarrow>
    req' = req\<lparr>ar_read_data := d, ar_ext_map := m\<rparr> \<Longrightarrow> answer_ok req' r \<Longrightarrow> C_AioRead_finish r req' c = Some c' \<Longrightarrow>
    reading hb n es todo (xs @ ys) (hs @ [(req', r)]) fin c'"
| close: "reading hb n es [] pend hs False c \<Longrightarrow> Option.bind (finish_adding_requests c) put_unlock = Some c' \<Longrightarrow>
    reading hb n es [] pend hs True c'"

subsection \<open>The invariant\<close>

definition read_bufs :: "AioRead list \<Rightarrow> (u64 \<times> u64) list" where
  "read_bufs reqs = concat (map ar_buffer_extents reqs)"

definition read_lens :: "AioRead list \<Rightarrow> nat" where
  "read_lens reqs = (\<Sum>req\<leftarrow>reqs. unat (ar_object_len req))"

lemma read_bufs_simps [simp]:
  "read_bufs [] = []" "read_bufs (r # rs) = ar_buffer_extents r @ read_bufs rs"
  "read_bufs (rs @ rs') = read_bufs rs @ read_bufs rs'"
  by (simp_all add: read_bufs_def)

lemma read_lens_simps [simp]:
  "read_lens [] = 0" "read_lens (r # rs) = unat (ar_object_len r) + read_lens rs"
  "read_lens (rs @ rs') = read_lens rs + read_lens rs'"
  by (simp_all add: read_lens_def)

lemma read_bufs_hit: "hits (read_bufs reqs) x \<noteq> 0 \<longleftrightarrow> (\<exists>req \<in> set reqs. be_pos (ar_buffer_extents req) x \<noteq> None)"
  using be_pos_hits by (induction reqs) auto

definition reads_extent :: "AioRead \<Rightarrow> object_extent \<Rightarrow> bool" where
  "reads_extent req e \<longleftrightarrow> ar_object_off req = oe_offset e \<and> ar_object_len req = oe_length e
     \<and> ar_buffer_extents req = oe_buffer_extents e"

definition sound_read :: "object_format \<Rightarrow> file_layout \<Rightarrow> u64 \<Rightarrow> u64 \<Rightarrow> AioRead \<Rightarrow> bool" where
  "sound_read f l off n req \<longleftrightarrow> (\<exists>e. extent_ok f l off (unat n) e \<and> reads_extent req e)"

text \<open>The extents still to come, those under way and those answered tile the buffer.\<close>

definition tiled :: "object_format \<Rightarrow> file_layout \<Rightarrow> u64 \<Rightarrow> u64 \<Rightarrow> object_extent list \<Rightarrow> AioRead list \<Rightarrow>
    (AioRead \<times> int) list \<Rightarrow> bool" where
  "tiled f l off n todo pend hs \<longleftrightarrow>
     (\<forall>e \<in> set todo. extent_ok f l off (unat n) e) \<and> (\<forall>req \<in> set pend \<union> fst ` set hs. sound_read f l off n req)
     \<and> (\<forall>x. hits (exts_bufs todo) x + hits (read_bufs pend) x + hits (read_bufs (map fst hs)) x
          = (if x < unat n then 1 else 0))
     \<and> (\<Sum>e\<leftarrow>todo. unat (oe_length e)) + read_lens pend + read_lens (map fst hs) = unat n"

text \<open>Before the end the destriper holds what was answered with success; at the end the buffer does.\<close>

definition gathered :: "(AioRead \<times> int) list \<Rightarrow> partial_t \<Rightarrow> bool" where
  "gathered hs m \<longleftrightarrow> pok m
     \<and> (\<forall>(req, r) \<in> set hs. filed r \<longrightarrow>
          (\<forall>x k. be_pos (ar_buffer_extents req) x = Some k \<longrightarrow> pview m x = Some (answer_byte req k)))
     \<and> (\<forall>x. pview m x \<noteq> None \<longrightarrow> hits (read_bufs (map fst hs)) x \<noteq> 0)"

definition buffer_ok :: "u64 \<Rightarrow> (AioRead \<times> int) list \<Rightarrow> int \<Rightarrow> bytes option \<Rightarrow> bool" where
  "buffer_ok n hs v res \<longleftrightarrow>
     (0 \<le> v \<longrightarrow> v = int (unat n) \<and> (\<exists>bl. res = Some bl \<and> length bl = unat n
        \<and> (\<forall>(req, r) \<in> set hs. \<forall>x k. be_pos (ar_buffer_extents req) x = Some k \<longrightarrow> bl ! x = answer_byte req k)))
     \<and> (v < 0 \<longrightarrow> res = None)"

definition counted :: "u64 \<Rightarrow> nat \<Rightarrow> (AioRead \<times> int) list \<Rightarrow> bool \<Rightarrow> AioCompletion \<Rightarrow> bool" where
  "counted n k hs fin c \<longleftrightarrow>
     c_pending c = k \<and> c_building c = (\<not> fin) \<and> c_type c = AIO_TYPE_READ \<and> c_buf_len c = n
     \<and> c_ref c = 1 + (if fin then 0 else 1) + k \<and> c_rval c = fold_rval (map answer_value hs)
     \<and> c_done c = (fin \<and> k = 0) \<and> c_callbacks c = (if fin \<and> k = 0 then 1 else 0)"

definition read_inv :: "object_format \<Rightarrow> file_layout \<Rightarrow> u64 \<Rightarrow> u64 \<Rightarrow> object_extent list \<Rightarrow> AioRead list \<Rightarrow>
    (AioRead \<times> int) list \<Rightarrow> bool \<Rightarrow> AioCompletion \<Rightarrow> bool" where
  "read_inv f l off n todo pend hs fin c \<longleftrightarrow>
     tiled f l off n todo pend hs \<and> (fin \<longrightarrow> todo = []) \<and> (\<forall>(req, r) \<in> set hs. r \<noteq> - EEXIST)
     \<and> counted n (length pend) hs fin c
     \<and> (if c_done c then buffer_ok n hs (c_rval c) (c_result c) else gathered hs (c_destriper c) \<and> c_result c = None)"

lemma answer_values:
  assumes "\<forall>(req, r) \<in> set hs. r \<noteq> - EEXIST" "0 \<le> fold_rval (map answer_value hs)"
  shows "\<forall>(req, r) \<in> set hs. filed r" "fold_rval (map answer_value hs) = int (read_lens (map fst hs))"
proof -
  have all: "filed r" if "(req, r) \<in> set hs" for req r
  proof -
    have "r \<noteq> - EEXIST" "0 \<le> answer_value (req, r) \<or> answer_value (req, r) = - EEXIST"
      using assms that unfolding fold_rval_nonneg by fastforce+
    then show ?thesis by (auto simp: answer_value_def filed_def split: if_splits)
  qed
  then show "\<forall>(req, r) \<in> set hs. filed r" by blast
  have "fold_rval (map answer_value hs) = (\<Sum>a\<leftarrow>hs. max 0 (answer_value a))"
    using fold_rval_sum [OF assms(2)] by (simp add: comp_def)
  also have "\<dots> = int (read_lens (map fst hs))"
    using all
  proof (induction hs)
    case (Cons a hs)
    have "filed (snd a)" using Cons.prems [of "fst a" "snd a"] by simp
    moreover have "(\<Sum>a\<leftarrow>hs. max 0 (answer_value a)) = int (read_lens (map fst hs))"
      by (rule Cons.IH) (use Cons.prems in auto)
    ultimately show ?case by (simp add: answer_value_def [of a])
  qed simp
  finally show "fold_rval (map answer_value hs) = int (read_lens (map fst hs))" .
qed

text \<open>The last step assembles the buffer, and its assertion on the length holds.\<close>

lemma finalize_read:
  assumes "tiled f l off n [] [] hs" "\<forall>(req, r) \<in> set hs. r \<noteq> - EEXIST" "gathered hs (c_destriper c)"
    "c_type c = AIO_TYPE_READ" "c_buf_len c = n" "c_rval c = fold_rval (map answer_value hs)" "c_result c = None"
  shows "\<exists>p res. finalize c = Some (c\<lparr>c_destriper := p, c_result := res\<rparr>) \<and> buffer_ok n hs (c_rval c) res"
proof (cases "0 \<le> c_rval c")
  case True
  note v = answer_values [OF assms(2)]
  have h: "hits (read_bufs (map fst hs)) x = (if x < unat n then 1 else 0)" for x
    using assms(1) by (simp add: tiled_def)
  have g: "pok (c_destriper c)" "\<forall>x. pview (c_destriper c) x \<noteq> None \<longrightarrow> hits (read_bufs (map fst hs)) x \<noteq> 0"
    and fv: "\<And>req r x k. (req, r) \<in> set hs \<Longrightarrow> be_pos (ar_buffer_extents req) x = Some k \<Longrightarrow>
      pview (c_destriper c) x = Some (answer_byte req k)"
    using assms(3) v(1) True unfolding gathered_def assms(6) by fast+
  have "pview (c_destriper c) x \<noteq> None" if "x < unat n" for x
  proof -
    have "hits (read_bufs (map fst hs)) x \<noteq> 0" using h [of x] that by simp
    then obtain a k where "a \<in> set hs" "be_pos (ar_buffer_extents (fst a)) x = Some k"
      unfolding read_bufs_hit by auto
    then show ?thesis using fv [of "fst a" "snd a" x k] by simp
  qed
  then have dom: "\<forall>x. (pview (c_destriper c) x \<noteq> None) = (x < unat n)"
    using g(2) h by (metis less_numeral_extra(3) zero_less_one)
  have "unat n < 2 ^ 64" by simp
  from assemble_result_content [OF g(1) dom this] obtain bl where
    bl: "assemble_result True (c_destriper c) = Some (bl, [])" "length bl = unat n"
      "\<forall>i < unat n. pview (c_destriper c) i = Some (bl ! i)" by blast
  have fin: "finalize c = Some (c\<lparr>c_destriper := [], c_result := Some bl\<rparr>)"
    using True assms(4,5) bl(1,2) by (simp add: finalize_def)
  have lt: "x < unat n" if "(req, r) \<in> set hs" "be_pos (ar_buffer_extents req) x = Some k" for req r x k
    using fv [OF that] dom by (metis option.discI)
  have "bl ! x = answer_byte req k" if "(req, r) \<in> set hs" "be_pos (ar_buffer_extents req) x = Some k" for req r x k
    using fv [OF that] bl(3) lt [OF that] by simp
  moreover have "c_rval c = int (unat n)"
    using v(2) True assms(1,6) by (simp add: tiled_def)
  ultimately have "buffer_ok n hs (c_rval c) (Some bl)"
    using bl(2) unfolding buffer_ok_def by auto
  then show ?thesis using fin by blast
next
  case False
  then show ?thesis using assms(7)
    by (intro exI [of _ "c_destriper c"] exI [of _ "c_result c"]) (simp add: finalize_def buffer_ok_def)
qed

text \<open>Filing one answer: a successful one goes to the destriper, a failure leaves it.\<close>

lemma file_answer:
  assumes "sound_read f l off n req" "answer_ok req r" "unat (lo_os l) < 2147483648" "gathered hs (c_destriper c)"
    "\<forall>x. hits (ar_buffer_extents req) x + hits (read_bufs (map fst hs)) x \<le> 1"
  shows "\<exists>p. C_AioRead_finish r req c = complete_request (answer_value (req, r)) (c\<lparr>c_destriper := p\<rparr>)
    \<and> gathered (hs @ [(req, r)]) p"
proof (cases "filed r")
  case False
  have "C_AioRead_finish r req c = complete_request (answer_value (req, r)) (c\<lparr>c_destriper := c_destriper c\<rparr>)"
    using False by (simp add: C_AioRead_finish_def filed_def answer_value_def)
  moreover have "gathered (hs @ [(req, r)]) (c_destriper c)"
    using assms(4) False unfolding gathered_def by auto
  ultimately show ?thesis by blast
next
  case True
  let ?be = "ar_buffer_extents req" and ?m = "answer_map req" and ?d = "ar_read_data req"
  obtain e where e: "be_ok ?be" "ext_total ?be = unat (ar_object_len req)" "ar_object_len req \<noteq> 0"
    "unat (ar_object_off req) + unat (ar_object_len req) \<le> unat (lo_os l)"
    using assms(1) unfolding sound_read_def extent_ok_def reads_extent_def by metis
  have a: "asc (unat (ar_object_off req)) ?m" "ext_total ?m \<le> length ?d"
  proof -
    have "length ?d < 18446744073709551616 \<and> unat (ar_object_off req) + length ?d < 18446744073709551616"
      if "ar_ext_map req = []"
      using that assms(2,3) e(4) True by (simp add: answer_ok_def)
    then have u: "unat (of_nat (length ?d) :: u64) = length ?d" "unat (ar_object_off req) + length ?d < 2 ^ 64"
      if "ar_ext_map req = []" using that by (simp_all add: length_word)
    show "asc (unat (ar_object_off req)) ?m" "ext_total ?m \<le> length ?d"
      using assms(2) True u by (auto simp: answer_ok_def answer_map_def ext_total_def split: if_splits)
  qed
  have lt: "unat (ar_object_off req) + ext_total ?be < 2 ^ 64" using e assms(3) by simp
  have free: "\<forall>x. be_pos ?be x \<noteq> None \<longrightarrow> pview (c_destriper c) x = None"
  proof (intro allI impI)
    fix x assume "be_pos ?be x \<noteq> None"
    then have "hits ?be x \<noteq> 0" unfolding be_pos_hits .
    then have "hits (read_bufs (map fst hs)) x = 0" using spec [OF assms(5), of x] by linarith
    then show "pview (c_destriper c) x = None" using assms(4) unfolding gathered_def by blast
  qed
  have "pok (c_destriper c)" using assms(4) by (simp add: gathered_def)
  from sparse_extents_view [OF asc_sinv [OF a] this lt e(1) free]
  obtain bl' p where s: "add_partial_sparse_result ?d ?m (ar_object_off req) ?be (c_destriper c) = Some (bl', p)" "pok p"
    and v: "\<And>x. pview p x = (case be_pos ?be x of Some k \<Rightarrow> Some (answer_byte req k) | None \<Rightarrow> pview (c_destriper c) x)"
    unfolding add_partial_sparse_result_def sview_def asc_rest [OF a(1)] answer_byte_def by blast
  have n: "c_int (int (unat (ar_object_len req))) = int (unat (ar_object_len req))"
    using e(4) assms(3) by (intro c_int_id) linarith+
  have "C_AioRead_finish r req c = complete_request (answer_value (req, r)) (c\<lparr>c_destriper := p\<rparr>)"
    using True s(1) n unfolding filed_def answer_map_def
    by (auto simp: C_AioRead_finish_def answer_value_def filed_def Let_def)
  moreover have "gathered (hs @ [(req, r)]) p"
  proof -
    have old: "be_pos ?be x = None" if "(req', r') \<in> set hs" "be_pos (ar_buffer_extents req') x = Some k" for req' r' x k
    proof -
      have "hits (read_bufs (map fst hs)) x \<noteq> 0" using that unfolding read_bufs_hit by force
      then have "hits ?be x = 0" using spec [OF assms(5), of x] by linarith
      then show ?thesis using be_pos_hits [of ?be x] by blast
    qed
    have 1: "pview p x = Some (answer_byte req' k)"
      if "(req', r') \<in> set (hs @ [(req, r)])" "filed r'" "be_pos (ar_buffer_extents req') x = Some k" for req' r' x k
    proof (cases "(req', r') \<in> set hs")
      case True
      then show ?thesis using old [OF True that(3)] that(2,3) assms(4) unfolding gathered_def v by fastforce
    next
      case False
      then show ?thesis using that by (simp add: v)
    qed
    have 2: "hits (read_bufs (map fst (hs @ [(req, r)]))) x \<noteq> 0" if "pview p x \<noteq> None" for x
    proof (cases "be_pos ?be x")
      case None
      then have "pview (c_destriper c) x \<noteq> None" using that by (simp add: v)
      then show ?thesis using assms(4) by (simp add: gathered_def)
    next
      case (Some k)
      then have "hits ?be x \<noteq> 0" using be_pos_hits [of ?be x] by simp
      then show ?thesis by simp
    qed
    show ?thesis using s(2) 1 2 unfolding gathered_def by blast
  qed
  ultimately show ?thesis by blast
qed

subsection \<open>Every step keeps it\<close>

lemma tiled_add:
  assumes "tiled f l off n (e # todo) pend hs"
  shows "tiled f l off n todo (pend @ [new_read pool e sid]) hs"
proof -
  have q: "ar_buffer_extents (new_read pool e sid) = oe_buffer_extents e" "ar_object_len (new_read pool e sid) = oe_length e"
    "ar_object_off (new_read pool e sid) = oe_offset e"
    by (simp_all add: new_read_def)
  have "sound_read f l off n (new_read pool e sid)"
    using assms by (auto simp: tiled_def sound_read_def reads_extent_def q)
  then show ?thesis using assms by (simp add: tiled_def q ac_simps)
qed

lemma tiled_answer:
  assumes "tiled f l off n todo (xs @ req # ys) hs" "req' = req\<lparr>ar_read_data := d, ar_ext_map := m\<rparr>"
  shows "tiled f l off n todo (xs @ ys) (hs @ [(req', r)])" "sound_read f l off n req'"
    "\<forall>x. hits (ar_buffer_extents req') x + hits (read_bufs (map fst hs)) x \<le> 1"
proof -
  have q: "ar_buffer_extents req' = ar_buffer_extents req" "ar_object_len req' = ar_object_len req"
    "ar_object_off req' = ar_object_off req"
    by (simp_all add: assms(2))
  show s: "sound_read f l off n req'" using assms(1) by (simp add: tiled_def sound_read_def reads_extent_def q)
  have h: "hits (exts_bufs todo) x + hits (read_bufs (xs @ req # ys)) x + hits (read_bufs (map fst hs)) x
      = (if x < unat n then 1 else 0)" for x
    using assms(1) unfolding tiled_def by blast
  have "hits (ar_buffer_extents req') x + hits (read_bufs (map fst hs)) x \<le> 1" for x
    using h [of x] by (auto simp: q split: if_splits)
  then show "\<forall>x. hits (ar_buffer_extents req') x + hits (read_bufs (map fst hs)) x \<le> 1" by blast
  have "hits (exts_bufs todo) x + hits (read_bufs (xs @ ys)) x + hits (read_bufs (map fst (hs @ [(req', r)]))) x
      = (if x < unat n then 1 else 0)" for x
    using h [of x] by (simp add: q ac_simps)
  then show "tiled f l off n todo (xs @ ys) (hs @ [(req', r)])"
    using assms(1) s by (simp add: tiled_def q ac_simps)
qed

lemma add_step:
  assumes "read_inv f l off n (e # todo) pend hs False c"
  shows "\<exists>c'. add_request c = Some c' \<and> read_inv f l off n todo (pend @ [new_read pool e sid]) hs False c'"
proof -
  let ?c = "c\<lparr>c_pending := c_pending c + 1, c_ref := c_ref c + 1\<rparr>"
  have i: "tiled f l off n (e # todo) pend hs" "counted n (length pend) hs False c" "\<forall>(req, r) \<in> set hs. r \<noteq> - EEXIST"
    "gathered hs (c_destriper c)" "c_result c = None"
    using assms by (auto simp: read_inv_def counted_def)
  have "add_request c = Some ?c" using i(2) by (simp add: add_request_def c_get_def counted_def)
  moreover have "read_inv f l off n todo (pend @ [new_read pool e sid]) hs False ?c"
    using tiled_add [OF i(1), of pool sid] i(2-5) by (simp add: read_inv_def counted_def)
  ultimately show ?thesis by blast
qed

text \<open>The two places where a request can complete end in the same way.\<close>

lemma last_step:
  assumes "tiled f l off n [] [] hs" "\<forall>(req, r) \<in> set hs. r \<noteq> - EEXIST" "gathered hs (c_destriper c)" "c_result c = None"
    "c_type c = AIO_TYPE_READ" "c_buf_len c = n" "c_rval c = fold_rval (map answer_value hs)" "c_pending c = 0"
    "\<not> c_building c" "c_ref c = 2" "c_callbacks c = 0"
  shows "\<exists>c'. Option.bind (Option.bind (finalize c) complete) put_unlock = Some c' \<and> read_inv f l off n [] [] hs True c'"
proof -
  obtain p res where f: "finalize c = Some (c\<lparr>c_destriper := p, c_result := res\<rparr>)" "buffer_ok n hs (c_rval c) res"
    using finalize_read [OF assms(1-3,5-7,4)] by blast
  show ?thesis using assms(1,2,5-11) f by (simp add: complete_def put_unlock_def read_inv_def counted_def)
qed

lemma answer_step:
  assumes "read_inv f l off n todo (xs @ req # ys) hs fin c" "unat (lo_os l) < 2147483648"
    "req' = req\<lparr>ar_read_data := d, ar_ext_map := m\<rparr>" "answer_ok req' r"
  shows "\<exists>c'. C_AioRead_finish r req' c = Some c' \<and> read_inv f l off n todo (xs @ ys) (hs @ [(req', r)]) fin c'"
proof -
  have t: "tiled f l off n todo (xs @ req # ys) hs" and fin: "fin \<longrightarrow> todo = []"
    and k: "counted n (Suc (length (xs @ ys))) hs fin c" and ex: "\<forall>(req, r) \<in> set hs. r \<noteq> - EEXIST"
    and g: "gathered hs (c_destriper c)" "c_result c = None"
    using assms(1) by (auto simp: read_inv_def counted_def)
  note t' = tiled_answer [OF t assms(3)]
  obtain p where p: "C_AioRead_finish r req' c = complete_request (answer_value (req', r)) (c\<lparr>c_destriper := p\<rparr>)"
    "gathered (hs @ [(req', r)]) p"
    using file_answer [OF t'(2) assms(4,2) g(1) t'(3)] by blast
  have ex': "\<forall>(req, r) \<in> set (hs @ [(req', r)]). r \<noteq> - EEXIST" using ex assms(4) by (auto simp: answer_ok_def)
  let ?c = "c\<lparr>c_destriper := p, c_rval := update_rval (c_rval c) (answer_value (req', r)), c_pending := length (xs @ ys)\<rparr>"
  have v: "c_rval ?c = fold_rval (map answer_value (hs @ [(req', r)]))" using k by (simp add: counted_def)
  show ?thesis
  proof (cases "fin \<and> xs @ ys = []")
    case True
    then have e: "C_AioRead_finish r req' c = Option.bind (Option.bind (finalize ?c) complete) put_unlock"
      using k by (simp add: p(1) complete_request_def Let_def counted_def)
    have "tiled f l off n [] [] (hs @ [(req', r)])" using t'(1) True fin by simp
    from last_step [OF this ex', of ?c] show ?thesis
      using True fin k v p(2) g(2) unfolding e by (auto simp: counted_def)
  next
    case False
    then have e: "C_AioRead_finish r req' c = put_unlock ?c"
      using k by (auto simp: p(1) complete_request_def Let_def counted_def)
    show ?thesis
      using False k v p(2) g(2) t'(1) ex' fin unfolding e
      by (intro exI [of _ "?c\<lparr>c_ref := c_ref c - 1\<rparr>"]) (auto simp: put_unlock_def read_inv_def counted_def)
  qed
qed

lemma close_step:
  assumes "read_inv f l off n [] pend hs False c"
  shows "\<exists>c'. Option.bind (finish_adding_requests c) put_unlock = Some c' \<and> read_inv f l off n [] pend hs True c'"
proof -
  have i: "tiled f l off n [] pend hs" "counted n (length pend) hs False c" "\<forall>(req, r) \<in> set hs. r \<noteq> - EEXIST"
    "gathered hs (c_destriper c)" "c_result c = None"
    using assms by (auto simp: read_inv_def counted_def)
  let ?c = "c\<lparr>c_building := False\<rparr>"
  show ?thesis
  proof (cases "pend = []")
    case True
    then have e: "finish_adding_requests c = Option.bind (finalize ?c) complete"
      using i(2) by (simp add: finish_adding_requests_def counted_def)
    have "tiled f l off n [] [] hs" using i(1) True by simp
    from last_step [OF this i(3), of ?c] show ?thesis
      using i(2,4,5) unfolding e True by (simp add: counted_def)
  next
    case False
    then have "finish_adding_requests c = Some ?c"
      using i(2) by (simp add: finish_adding_requests_def counted_def)
    then show ?thesis using False i by (simp add: put_unlock_def read_inv_def counted_def)
  qed
qed

lemma reading_inv:
  assumes "reading hb n (concat (map snd m)) todo pend hs fin c" "layout_ok l" "n \<noteq> 0" "unat off + unat n < 2 ^ 64"
    "unat (lo_os l) < 2147483648" "file_to_extents_map f l off n 0 [] 0 = Some m"
  shows "read_inv f l off n todo pend hs fin c"
  using assms(1)
proof (induction rule: reading.induct)
  case start
  obtain m' where "file_to_extents_map f l off n 0 [] 0 = Some m'"
    "\<forall>e \<in> set (concat (map snd m')). extent_ok f l off (unat n) e"
    "\<forall>x. hits (exts_bufs (concat (map snd m'))) x = (if x < unat n then 1 else 0)"
    "(\<Sum>e\<leftarrow>concat (map snd m'). unat (oe_length e)) = unat n"
    using extents_of_request [OF assms(2-4), of f 0] by blast
  then have "tiled f l off n (concat (map snd m)) [] []"
    using assms(6) by (simp add: tiled_def)
  then show ?case
    by (simp add: read_inv_def counted_def gathered_def started_read_def init_time_def aio_create_completion_def)
next
  case (add e todo pend hs c c' pool sid)
  then show ?case using add_step [OF add.IH, of pool sid] by auto
next
  case (answer todo xs req ys hs fin c req' d m r c')
  then show ?case using answer_step [OF answer.IH assms(5) answer.hyps(2,3)] by auto
next
  case (close pend hs c c')
  then show ?case using close_step [OF close.IH] by auto
qed

text \<open>Every step that the code can take next can be taken.\<close>

lemma reading_progress:
  assumes "reading hb n (concat (map snd m)) todo pend hs fin c" "layout_ok l" "n \<noteq> 0" "unat off + unat n < 2 ^ 64"
    "unat (lo_os l) < 2147483648" "file_to_extents_map f l off n 0 [] 0 = Some m"
  shows "todo = e # todo' \<Longrightarrow> \<not> fin \<Longrightarrow>
      \<exists>c'. reading hb n (concat (map snd m)) todo' (pend @ [new_read pool e sid]) hs False c'"
    and "pend = xs @ req # ys \<Longrightarrow> req' = req\<lparr>ar_read_data := d, ar_ext_map := em\<rparr> \<Longrightarrow> answer_ok req' r \<Longrightarrow>
      \<exists>c'. reading hb n (concat (map snd m)) todo (xs @ ys) (hs @ [(req', r)]) fin c'"
    and "todo = [] \<Longrightarrow> \<not> fin \<Longrightarrow> \<exists>c'. reading hb n (concat (map snd m)) [] pend hs True c'"
proof -
  note inv = reading_inv [OF assms]
  show "\<exists>c'. reading hb n (concat (map snd m)) todo' (pend @ [new_read pool e sid]) hs False c'"
    if "todo = e # todo'" "\<not> fin"
    using assms(1) inv that add_step [of f l off n e todo' pend hs c pool sid] reading.add by fastforce
  show "\<exists>c'. reading hb n (concat (map snd m)) todo (xs @ ys) (hs @ [(req', r)]) fin c'"
    if q: "pend = xs @ req # ys" "req' = req\<lparr>ar_read_data := d, ar_ext_map := em\<rparr>" "answer_ok req' r"
    using answer_step [OF inv [unfolded q(1)] assms(5) q(2,3)] reading.answer [OF assms(1) [unfolded q(1)] q(2,3)] by blast
  show "\<exists>c'. reading hb n (concat (map snd m)) [] pend hs True c'" if "todo = []" "\<not> fin"
    using assms(1) inv that close_step [of f l off n pend hs c] reading.close by fastforce
qed

text \<open>No step that the code can take next fails an assertion.\<close>

definition read_goes_on ::
    "object_extent list \<Rightarrow> AioRead list \<Rightarrow> bool \<Rightarrow> AioCompletion \<Rightarrow> bool" where
  "read_goes_on todo pend fin c \<longleftrightarrow>
     (\<not> fin \<and> todo \<noteq> [] \<longrightarrow> add_request c \<noteq> None)
     \<and> (\<forall>req \<in> set pend. \<forall>d m r. answer_ok (req\<lparr>ar_read_data := d, ar_ext_map := m\<rparr>) r \<longrightarrow>
          C_AioRead_finish r (req\<lparr>ar_read_data := d, ar_ext_map := m\<rparr>) c \<noteq> None)
     \<and> (\<not> fin \<and> todo = [] \<longrightarrow> Option.bind (finish_adding_requests c) put_unlock \<noteq> None)"

lemma read_inv_goes_on:
  assumes "read_inv f l off n todo pend hs fin c" "unat (lo_os l) < 2147483648"
  shows "read_goes_on todo pend fin c"
proof -
  have "add_request c \<noteq> None" if "\<not> fin" "todo \<noteq> []"
    using assms(1) that add_step by (cases todo) fastforce+
  moreover have "Option.bind (finish_adding_requests c) put_unlock \<noteq> None" if "\<not> fin" "todo = []"
    using assms(1) that close_step by fastforce
  moreover have "C_AioRead_finish r (req\<lparr>ar_read_data := d, ar_ext_map := m\<rparr>) c \<noteq> None"
    if r: "req \<in> set pend" "answer_ok (req\<lparr>ar_read_data := d, ar_ext_map := m\<rparr>) r" for req d m r
  proof -
    obtain xs ys where "pend = xs @ req # ys" using split_list [OF r(1)] by blast
    then show ?thesis using answer_step [OF _ assms(2) refl r(2)] assms(1) by fastforce
  qed
  ultimately show ?thesis unfolding read_goes_on_def by blast
qed

lemma read_inv_completes:
  assumes "read_inv f l off n todo pend hs fin c"
  shows "completes_once (fin \<and> pend = []) (map answer_value hs) c"
    and "c_done c \<Longrightarrow> buffer_ok n hs (c_rval c) (c_result c)"
    and "c_done c \<Longrightarrow> x < unat n \<Longrightarrow> \<exists>(req, r) \<in> set hs. be_pos (ar_buffer_extents req) x \<noteq> None"
proof -
  have k: "counted n (length pend) hs fin c" and fin: "fin \<longrightarrow> todo = []" and t: "tiled f l off n todo pend hs"
    using assms by (auto simp: read_inv_def)
  show "completes_once (fin \<and> pend = []) (map answer_value hs) c"
    using k fold_rval_completes [of c] by (simp add: counted_def)
  show "c_done c \<Longrightarrow> buffer_ok n hs (c_rval c) (c_result c)"
    using assms by (simp add: read_inv_def)
  show "\<exists>(req, r) \<in> set hs. be_pos (ar_buffer_extents req) x \<noteq> None" if "c_done c" "x < unat n"
  proof -
    have "todo = []" "pend = []" using that(1) k fin by (auto simp: counted_def)
    then have "hits (exts_bufs []) x + hits (read_bufs []) x + hits (read_bufs (map fst hs)) x = 1"
      using t that(2) unfolding tiled_def by (metis (no_types))
    then have "hits (read_bufs (map fst hs)) x \<noteq> 0" by simp
    then obtain a where "a \<in> set hs" "be_pos (ar_buffer_extents (fst a)) x \<noteq> None" unfolding read_bufs_hit by auto
    then show ?thesis by (intro bexI [of _ a]) (simp_all add: case_prod_beta)
  qed
qed

subsection \<open>The property\<close>

text \<open>C36. A completion completes exactly once, in every interleaving of adding its requests, their
  answers in any order and the end of the construction: no assertion fails and the completion is not
  freed under a request; it is done - its callback called, once - exactly when the construction is
  finished and every request is answered; and its value is negative exactly if some request failed
  (other than with \<open>-EEXIST\<close>), being the error of one of them, and otherwise the sum of the positive
  results. First for writes, discards and flushes, with any results; then for the read of a
  non-empty range, where each object read is answered with any data. When such a read is done
  with no failure, its value is the length of the range and its buffer has exactly this length,
  every byte of it the byte that one of the object reads brought for this position, holes and
  missing objects as zeros; after a failure no buffer is made. Sends succeed, as \<open>aio_operate\<close>
  of librados does: errors come with the answers.\<close>

theorem aio_completes_once:
  "(reach t k rs fin c \<and> t \<noteq> AIO_TYPE_READ \<and> t \<noteq> AIO_TYPE_NONE \<longrightarrow>
      (\<forall>e. allowed e k rs fin \<longrightarrow> (\<exists>c'. aio_event e c = Some c')) \<and> completes_once (fin \<and> length rs = k) rs c)
   \<and> (reading hb n (concat (map snd m)) todo pend hs sealed rc
      \<and> layout_ok l \<and> unat (lo_os l) < 2147483648 \<and> n \<noteq> 0 \<and> unat off + unat n < 2 ^ 64
      \<and> file_to_extents_map f l off n 0 [] 0 = Some m \<longrightarrow>
      read_goes_on todo pend sealed rc \<and> completes_once (sealed \<and> pend = []) (map answer_value hs) rc
      \<and> (c_done rc \<and> 0 \<le> c_rval rc \<longrightarrow> c_rval rc = int (unat n)
           \<and> (\<exists>bl. c_result rc = Some bl \<and> length bl = unat n
               \<and> (\<forall>(req, r) \<in> set hs. \<forall>x i. be_pos (ar_buffer_extents req) x = Some i \<longrightarrow> bl ! x = answer_byte req i)
               \<and> (\<forall>x < unat n. \<exists>(req, r) \<in> set hs. be_pos (ar_buffer_extents req) x \<noteq> None)))
      \<and> (c_done rc \<and> c_rval rc < 0 \<longrightarrow> c_result rc = None))"
proof (intro conjI impI)
  assume "reach t k rs fin c \<and> t \<noteq> AIO_TYPE_READ \<and> t \<noteq> AIO_TYPE_NONE"
  then show "\<forall>e. allowed e k rs fin \<longrightarrow> (\<exists>c'. aio_event e c = Some c')" "completes_once (fin \<and> length rs = k) rs c"
    using reach_completes [of t k rs fin c] by blast+
next
  assume a: "reading hb n (concat (map snd m)) todo pend hs sealed rc
      \<and> layout_ok l \<and> unat (lo_os l) < 2147483648 \<and> n \<noteq> 0 \<and> unat off + unat n < 2 ^ 64
      \<and> file_to_extents_map f l off n 0 [] 0 = Some m"
  then have inv: "read_inv f l off n todo pend hs sealed rc" by (intro reading_inv) auto
  show "read_goes_on todo pend sealed rc" using read_inv_goes_on [OF inv] a by blast
  show "completes_once (sealed \<and> pend = []) (map answer_value hs) rc" by (rule read_inv_completes(1) [OF inv])
  note d = read_inv_completes(2,3) [OF inv]
  show "c_rval rc = int (unat n)" if "c_done rc \<and> 0 \<le> c_rval rc" using that d(1) by (simp add: buffer_ok_def)
  show "c_result rc = None" if "c_done rc \<and> c_rval rc < 0" using that d(1) by (simp add: buffer_ok_def)
  show "\<exists>bl. c_result rc = Some bl \<and> length bl = unat n
      \<and> (\<forall>(req, r) \<in> set hs. \<forall>x i. be_pos (ar_buffer_extents req) x = Some i \<longrightarrow> bl ! x = answer_byte req i)
      \<and> (\<forall>x < unat n. \<exists>(req, r) \<in> set hs. be_pos (ar_buffer_extents req) x \<noteq> None)"
    if "c_done rc \<and> 0 \<le> c_rval rc"
    using that d unfolding buffer_ok_def by blast
qed

text \<open>A write whose second object fails, and a read of two objects: the second one is missing and answered
  first, then \<open>aio_read\<close> closes the request, and the data of the first object completes it.\<close>

lemma aio_completes_once_witness:
  "(\<exists>c. reach AIO_TYPE_WRITE 2 [0, - 5] True c \<and> c_done c \<and> c_callbacks c = 1 \<and> c_rval c = - 5)
   \<and> (\<exists>es hs c. reading True 4 es [] [] hs True c \<and> length hs = 2 \<and> c_done c \<and> c_callbacks c = 1
        \<and> c_rval c = 4 \<and> c_result c = Some [7, 8, 0, 0])"
proof
  obtain c where c: "reach AIO_TYPE_WRITE 2 [0, - 5] True c" using write_fails_once by blast
  have "completes_once True [0, - 5] c" using aio_completes_once [of AIO_TYPE_WRITE 2 "[0, - 5]" True c] c by simp
  then show "\<exists>c. reach AIO_TYPE_WRITE 2 [0, - 5] True c \<and> c_done c \<and> c_callbacks c = 1 \<and> c_rval c = - 5"
    using c by (auto simp: completes_once_def)
next
  let ?l = "\<lparr>fl_stripe_unit = 4, fl_stripe_count = 1, fl_object_size = 4, fl_pg_pool = 0\<rparr>"
    and ?f = "\<lparr>fmt_prefix = ''o'', fmt_width = 0\<rparr>"
  define e0 where "e0 = (new_extent ?f ?l 0 2 2 0)\<lparr>oe_buffer_extents := [(0, 2)]\<rparr>"
  define e1 where "e1 = (new_extent ?f ?l 1 0 2 0)\<lparr>oe_buffer_extents := [(2, 2)]\<rparr>"
  define q0 where "q0 = new_read HDD_POOL e0 CEPH_NOSNAP"
  define q1 where "q1 = new_read SSD_POOL e1 CEPH_NOSNAP"
  define a0 where "a0 = q0\<lparr>ar_read_data := [7, 8], ar_ext_map := []\<rparr>"
  define a1 where "a1 = q1\<lparr>ar_read_data := [], ar_ext_map := []\<rparr>"
  let ?m = "[(''o.0'', [e0]), (''o.1'', [e1])]"
  have m: "file_to_extents_map ?f ?l 2 4 0 [] 0 = Some ?m" unfolding e0_def e1_def by code_simp
  have l: "layout_ok ?l" "(4 :: u64) \<noteq> 0" "unat (2 :: u64) + unat (4 :: u64) < 2 ^ 64" "unat (lo_os ?l) < 2147483648"
    by (simp_all add: layout_ok_def)
  note nxt = reading_progress [OF _ l m, where hb = True]
  have es: "concat (map snd ?m) = [e0, e1]" by simp
  have ok: "answer_ok a1 (- ENOENT)" "answer_ok a0 2"
    by (simp_all add: answer_ok_def filed_def a0_def a1_def q0_def new_read_def e0_def new_extent_def)
  have "reading True 4 [e0, e1] [e0, e1] [] [] False (started_read True 4)" by (rule reading.start)
  from nxt(1) [unfolded es, OF this refl, of HDD_POOL CEPH_NOSNAP]
  obtain c1 where "reading True 4 [e0, e1] [e1] [q0] [] False c1" unfolding q0_def by auto
  from nxt(1) [unfolded es, OF this refl, of SSD_POOL CEPH_NOSNAP]
  obtain c2 where "reading True 4 [e0, e1] [] ([q0] @ q1 # []) [] False c2" unfolding q1_def by auto
  from nxt(2) [unfolded es, OF this refl a1_def ok(1)]
  obtain c3 where "reading True 4 [e0, e1] [] [q0] [(a1, - ENOENT)] False c3" by auto
  from nxt(3) [unfolded es, OF this refl]
  obtain c4 where "reading True 4 [e0, e1] [] ([] @ q0 # []) [(a1, - ENOENT)] True c4" by auto
  from nxt(2) [unfolded es, OF this refl a0_def ok(2)]
  obtain c5 where c5: "reading True 4 [e0, e1] [] [] [(a1, - ENOENT), (a0, 2)] True c5" by auto
  have r: "reading True 4 (concat (map snd ?m)) [] [] [(a1, - ENOENT), (a0, 2)] True c5" using c5 unfolding es .
  note p = aio_completes_once [THEN conjunct2, rule_format, OF conjI [OF r conjI [OF l(1) conjI [OF l(4) conjI [OF l(2) conjI [OF l(3) m]]]]]]
  have v: "answer_value (a1, - ENOENT) = 2" "answer_value (a0, 2) = 2"
    by (simp_all add: answer_value_def filed_def a0_def a1_def q0_def q1_def new_read_def e0_def e1_def new_extent_def)
  have once: "c_done c5" "c_callbacks c5 = 1" "c_rval c5 = 4"
    using p unfolding completes_once_def by (auto simp: v)
  then obtain bl where bl: "c_result c5 = Some bl" "length bl = 4"
    "\<forall>(req, r) \<in> set [(a1, - ENOENT), (a0, 2)]. \<forall>x i. be_pos (ar_buffer_extents req) x = Some i \<longrightarrow> bl ! x = answer_byte req i"
    using p by auto
  have be: "ar_buffer_extents a0 = [(0, 2)]" "ar_buffer_extents a1 = [(2, 2)]"
    by (simp_all add: a0_def a1_def q0_def q1_def new_read_def e0_def e1_def)
  have "bl ! 0 = answer_byte a0 0" "bl ! 1 = answer_byte a0 1" "bl ! 2 = answer_byte a1 0" "bl ! 3 = answer_byte a1 1"
    using bl(3) by (auto simp: be)
  moreover have "answer_byte a0 0 = 7" "answer_byte a0 1 = 8" "answer_byte a1 0 = 0" "answer_byte a1 1 = 0"
    by (simp_all add: answer_byte_def answer_map_def a0_def a1_def q0_def q1_def new_read_def e0_def e1_def new_extent_def
        nat_pairs_def byte_at_def)
  ultimately have "bl = [7, 8, 0, 0]"
    using bl(2) by (intro nth_equalityI) (auto simp: less_Suc_eq numeral_eq_Suc)
  then show "\<exists>es hs c. reading True 4 es [] [] hs True c \<and> length hs = 2 \<and> c_done c \<and> c_callbacks c = 1
      \<and> c_rval c = 4 \<and> c_result c = Some [7, 8, 0, 0]"
    using c5 once bl(1) by (intro exI [of _ "[e0, e1]"] exI [of _ "[(a1, - ENOENT), (a0, 2)]"] exI [of _ c5]) simp
qed

end
