(* ===== verification/Discard_Content.thy ===== *)
theory Discard_Content
  imports Data_Content
begin

text \<open>
  What a discard does to the content of an image, and the requests the data path never completes.
  A discard is sent to the HDD pool whatever the extent table says: it zeroes the range where the
  extents live on the HDD pool and changes nothing where they live on the SSD pool, but reports
  success for both. Requests of no bytes are not completed (writes, discards) or fail an assert
  (reads).
\<close>

definition unwatched :: "cluster \<Rightarrow> bool" where
  "unwatched cl \<longleftrightarrow> (\<forall>pid oid ob. cl pid oid = Some ob \<longrightarrow> od_watchers ob = 0)"

definition sized :: "cluster \<Rightarrow> bool" where
  "sized cl \<longleftrightarrow> (\<forall>pid. pool_ok (cl pid))"

text \<open>
  What \<open>do_osd_ops\<close> makes of a \<open>zero\<close>: zeros inside the object, a truncation where it
  reaches the end, nothing past the end. Because an object's size is the length of its file, a reader
  sees zeros in the range and the old bytes elsewhere in every case.
\<close>

lemma byte_at_past: "length d \<le> n \<Longrightarrow> n \<le> i \<Longrightarrow> byte_at d i = 0"
  by (simp add: byte_at_def)

lemma osd_zero_run:
  assumes "obj_ok obs" "mx \<le> 0x8000000000000000" "check_offset_and_length off len mx = 0" "len \<noteq> 0"
  shows "\<exists>obs'. osd_op_step mx (OpZero off len) obs = Some (0, NoOut, obs') \<and> obj_ok obs'
    \<and> (seq_zero obs \<longrightarrow> seq_zero obs') \<and> map_option od_watchers obs' = map_option od_watchers obs
    \<and> (\<forall>i. obj_bytes obs' i = (if unat off \<le> i \<and> i < unat off + unat len then 0 else obj_bytes obs i))"
proof (cases obs)
  case None
  then show ?thesis using assms(3,4) by (simp add: osd_op_step_zero op_zero_def Let_def)
next
  case (Some ob)
  have nneg: "\<not> check_offset_and_length off len mx < 0" using assms(3) by simp
  have size: "unat (od_size ob) = length (od_data ob)" using assms(1) Some by simp
  have sum: "unat (off + len) = unat off + unat len" by (rule check_offset_ok(1) [OF nneg assms(2)])
  have "off < mx" using nneg by (auto simp: check_offset_and_length_def split: if_splits)
  then have range: "\<not> mx < off" by simp
  consider (inside) "osd_op_step mx (OpZero off len) obs = op_zero mx off len obs"
    | (past) "length (od_data ob) \<le> unat off" "osd_op_step mx (OpZero off len) obs = Some (0, NoOut, Some ob)"
    | (reach) "length (od_data ob) \<le> unat off + unat len"
        "osd_op_step mx (OpZero off len) obs = op_truncate mx off 0 0 obs"
    using size sum unfolding Some osd_op_step_zero word_le_nat_alt [of "od_size ob"] by (metis (full_types))
  then obtain obs' where o: "osd_op_step mx (OpZero off len) obs = Some (0, NoOut, obs')"
    "seq_zero obs \<longrightarrow> seq_zero obs'" "map_option od_watchers obs' = map_option od_watchers obs"
    "\<forall>i. obj_bytes obs' i = (if unat off \<le> i \<and> i < unat off + unat len then 0 else obj_bytes obs i)"
  proof cases
    case inside
    then show thesis
      using assms(3,4) Some by (intro that) (auto simp: op_zero_def Let_def seq_zero_def byte_at_write)
  next
    case past
    then show thesis using Some by (intro that) (auto simp: byte_at_def)
  next
    case reach
    then show thesis
      using Some range byte_at_past [OF reach(1)]
      by (intro that) (auto simp: op_truncate_def Let_def seq_zero_def byte_at_truncate)
  qed
  moreover have "obj_ok obs'"
    by (rule osd_op_step_ok [OF assms(1,2) _ o(1)]) (simp add: op_plain_def)
  ultimately show ?thesis by blast
qed

text \<open>The operation of a discard request on its object: zeros in the range.\<close>

definition zeroed :: "u64 \<Rightarrow> u64 \<Rightarrow> u64 \<Rightarrow> osd_object option \<Rightarrow> osd_object option \<Rightarrow> bool" where
  "zeroed os off len obs obs' \<longleftrightarrow> seq_zero obs' \<and> obj_ok obs' \<and> (\<forall>ob. obs' = Some ob \<longrightarrow> od_watchers ob = 0)
     \<and> (\<forall>i < unat os. obj_bytes obs' i = (if unat off \<le> i \<and> i < unat off + unat len then 0 else obj_bytes obs i))"

lemma discard_request_run:
  assumes "oe_length e \<noteq> 0" "unat (oe_offset e) + unat (oe_length e) \<le> unat os" "unat os < 2147483648"
    "seq_zero (cl (ic_hdd_id ic) (oe_oid e))" "\<forall>ob. cl (ic_hdd_id ic) (oe_oid e) = Some ob \<longrightarrow> od_watchers ob = 0"
    "\<not> ev_fault ev (ic_hdd_id ic) (oe_oid e) < 0" "obj_ok (cl (ic_hdd_id ic) (oe_oid e))"
  shows "\<exists>aw obs'. write_run ev pr ic (discard_request os e [] ov) cl ps
      = Some (0, aw, cl(ic_hdd_id ic := (cl (ic_hdd_id ic))(oe_oid e := obs')), ps)
    \<and> zeroed os (oe_offset e) (oe_length e) (cl (ic_hdd_id ic) (oe_oid e)) obs'"
proof -
  let ?obs = "cl (ic_hdd_id ic) (oe_oid e)" and ?o = "oe_offset e" and ?n = "oe_length e"
  let ?upd = "\<lambda>obs'. cl(ic_hdd_id ic := (cl (ic_hdd_id ic))(oe_oid e := obs'))"
  have ctx: "data_ctx ic DEFAULT_POOL = ic_hdd_id ic" by (simp add: data_ctx_def whobbs_consts)
  have pos: "0 < unat ?n" using assms(1) unfolding unat_pos_u64 .
  have sum: "unat (?o + ?n) = unat ?o + unat ?n"
    using assms(2,3) by (intro unat_add_lt) simp
  have run: "write_run ev pr ic aw cl ps = Some (final_code aw r, aw, ?upd (if r < 0 then ?obs else obs'), ps)"
    if "aw_write aw = [op]" "aw_pool aw = DEFAULT_POOL" "aw_oid aw = oe_oid e" "aw_state aw = LIBRBD_AIO_WRITE_FLAT"
      "osd_op_step osd_max_object_size op ?obs = Some (r, out, obs')" for aw op r out obs'
    using that assms(6)
    by (simp add: write_run_def ctx aio_operate_def rados_exec_def prepare_transaction_single write_drive_flat)
  consider (remove) "?o = 0 \<and> ?n = os" | (truncate) "\<not> (?o = 0 \<and> ?n = os)" "?o + ?n = os"
    | (zero) "\<not> (?o = 0 \<and> ?n = os)" "?o + ?n \<noteq> os" by blast
  then show ?thesis
  proof cases
    case remove
    let ?aw = "AioRemove DEFAULT_POOL (oe_oid e) (oe_objectno e) [] ov"
    have aw: "discard_request os e [] ov = ?aw" "aw_write ?aw = [OpDelete]" "aw_pool ?aw = DEFAULT_POOL"
      "aw_oid ?aw = oe_oid e" "aw_state ?aw = LIBRBD_AIO_WRITE_FLAT" "aw_hide_enoent ?aw"
      using remove by (simp_all add: discard_request_def AioRemove_def new_write_def has_parent_def push_op_def)
    have step: "osd_op_step osd_max_object_size OpDelete ?obs
        = Some (if ?obs = None then - ENOENT else 0, NoOut, None)"
      using assms(5) by (cases ?obs) (simp_all add: op_delete_def)
    have "zeroed os ?o ?n ?obs None"
      using remove by (simp add: zeroed_def seq_zero_def)
    moreover have "write_run ev pr ic ?aw cl ps = Some (0, ?aw, ?upd None, ps)"
      using run [OF aw(2-5) step] aw(6) by (cases ?obs) (simp_all add: final_code_def)
    ultimately show ?thesis unfolding aw(1) by blast
  next
    case truncate
    let ?aw = "AioTruncate DEFAULT_POOL (oe_oid e) (oe_objectno e) ?o [] ov"
    have aw: "discard_request os e [] ov = ?aw" "aw_write ?aw = [OpTruncate ?o 0 0]" "aw_pool ?aw = DEFAULT_POOL"
      "aw_oid ?aw = oe_oid e" "aw_state ?aw = LIBRBD_AIO_WRITE_FLAT"
      using truncate by (auto simp: discard_request_def AioTruncate_def guard_write_def new_write_def has_parent_def push_op_def)
    have le: "\<not> osd_max_object_size < ?o"
      using assms(2,3) by (simp add: osd_max_object_size_def word_less_nat_alt)
    let ?obs' = "map_option (\<lambda>ob. ob\<lparr>od_data := file_truncate (unat ?o) (od_data ob), od_size := ?o\<rparr>) ?obs"
    have step: "osd_op_step osd_max_object_size (OpTruncate ?o 0 0) ?obs = Some (0, NoOut, ?obs')"
      using le by (cases ?obs) (simp_all add: op_truncate_def Let_def)
    have os: "unat os = unat ?o + unat ?n" using truncate(2) sum by simp
    have "zeroed os ?o ?n ?obs ?obs'"
      using assms(4,5,7) by (cases ?obs) (auto simp: zeroed_def seq_zero_def byte_at_truncate os)
    moreover have "write_run ev pr ic ?aw cl ps = Some (0, ?aw, ?upd ?obs', ps)"
      using run [OF aw(2-5) step] by (simp add: final_code_def)
    ultimately show ?thesis unfolding aw(1) by blast
  next
    case zero
    let ?aw = "AioZero DEFAULT_POOL (oe_oid e) (oe_objectno e) ?o ?n [] ov"
    have aw: "discard_request os e [] ov = ?aw" "aw_write ?aw = [OpZero ?o ?n]" "aw_pool ?aw = DEFAULT_POOL"
      "aw_oid ?aw = oe_oid e" "aw_state ?aw = LIBRBD_AIO_WRITE_FLAT"
      using zero by (auto simp: discard_request_def AioZero_def guard_write_def new_write_def has_parent_def push_op_def)
    have chk: "check_offset_and_length ?o ?n osd_max_object_size = 0"
      using assms(2,3) sum
      by (simp add: check_offset_and_length_def osd_max_object_size_def word_less_nat_alt word_le_nat_alt)
    obtain obs' where o: "osd_op_step osd_max_object_size (OpZero ?o ?n) ?obs = Some (0, NoOut, obs')"
      "obj_ok obs'" "seq_zero ?obs \<longrightarrow> seq_zero obs'" "map_option od_watchers obs' = map_option od_watchers ?obs"
      "\<forall>i. obj_bytes obs' i = (if unat ?o \<le> i \<and> i < unat ?o + unat ?n then 0 else obj_bytes ?obs i)"
      using osd_zero_run [OF assms(7) osd_max_le chk assms(1)] by blast
    have "zeroed os ?o ?n ?obs obs'"
      using assms(4,5) o(2-5) by (cases ?obs; cases obs') (auto simp: zeroed_def)
    moreover have "write_run ev pr ic ?aw cl ps = Some (0, ?aw, ?upd obs', ps)"
      using run [OF aw(2-5) o(1)] by (simp add: final_code_def)
    ultimately show ?thesis unfolding aw(1) by blast
  qed
qed

text \<open>The content after a discard of some buffer extents.\<close>

definition discarded :: "ImageCtx \<Rightarrow> u64 \<Rightarrow> (u64 \<times> u64) list \<Rightarrow> cluster \<Rightarrow> cluster \<Rightarrow> bool" where
  "discarded ic off be cl cl' \<longleftrightarrow> no_seqs cl' \<and> unwatched cl' \<and> sized cl'
     \<and> (\<forall>y. image_byte ic cl' y =
          (if hits be (unat (y - off)) \<noteq> 0 \<and> em_tier (ic_extent_map ic) y = HDD_POOL then 0 else image_byte ic cl y))"

definition discard_state :: "ImageCtx \<Rightarrow> AioCompletion \<Rightarrow> cluster \<Rightarrow> bool" where
  "discard_state ic c cl \<longleftrightarrow> writing_state ic c cl \<and> unwatched cl \<and> sized cl \<and> ic_hdd_id ic \<noteq> ic_ssd_id ic"

lemma em_tier_cases: "em_tier em x = HDD_POOL \<or> em_tier em x = SSD_POOL"
  by (simp add: em_tier_def split: option.splits)

lemma discard_object_content:
  assumes "quiet ev" "discard_state ic c cl"
    and e: "extent_ok (ic_format_string ic) (ic_layout ic) off len e" "len < 2 ^ 64"
  shows "\<exists>cl'. discard_object ev off 0 e (ic, c, cl, ps) = Some (ic, c, cl', ps)
    \<and> discarded ic off (oe_buffer_extents e) cl cl'"
proof -
  let ?l = "ic_layout ic" and ?be = "oe_buffer_extents e" and ?hdd = "ic_hdd_id ic"
  have ok: "layout_ok ?l" "tiers_by_object ic" "unat (lo_os ?l) < 2147483648" "no_seqs cl"
    "c_building c" "0 < c_ref c" "c_rval c = 0" "unwatched cl" "?hdd \<noteq> ic_ssd_id ic" "sized cl"
    using assms(2) by (auto simp: discard_state_def writing_state_def image_ok_def)
  have ef: "oe_length e \<noteq> 0" "unat (oe_offset e) + unat (oe_length e) \<le> unat (lo_os ?l)"
    "oe_oid e = format_oid (ic_format_string ic) (oe_objectno e)"
    and at: "\<And>x k. be_pos ?be x = Some k \<Longrightarrow> objectno ?l (off + of_nat x) = oe_objectno e"
    using e(1) unfolding extent_ok_def by blast+
  obtain cur where cur: "objectno ?l cur = oe_objectno e" using e(1) unfolding extent_ok_def by blast
  obtain aw obs' where run: "write_run ev (parent_read (length ps) ev cl) ic (discard_request (lo_os ?l) e [] 0) cl ps
      = Some (0, aw, cl(?hdd := (cl ?hdd)(oe_oid e := obs')), ps)"
    and z: "zeroed (lo_os ?l) (oe_offset e) (oe_length e) (cl ?hdd (oe_oid e)) obs'"
    using discard_request_run [where ev = ev and ic = ic and cl = cl and ps = ps and ov = 0
        and pr = "parent_read (length ps) ev cl", OF ef(1,2) ok(3)] ok(4,8,10) assms(1)
    unfolding no_seqs_def unwatched_def quiet_def sized_def pool_ok_def by blast
  let ?cl = "cl(?hdd := (cl ?hdd)(oe_oid e := obs'))"
  have tier: "em_tier (ic_extent_map ic) y = em_tier (ic_extent_map ic) cur" if "objectno ?l y = oe_objectno e" for y
    using ok(2) that cur unfolding tiers_by_object_def by metis
  have hit: "objectno ?l y = oe_objectno e" if some: "be_pos ?be (unat (y - off)) \<noteq> None" for y
  proof -
    obtain k where "be_pos ?be (unat (y - off)) = Some k" using some by blast
    from at [OF this] show ?thesis by simp
  qed
  have "image_byte ic ?cl y = (if be_pos ?be (unat (y - off)) \<noteq> None \<and> em_tier (ic_extent_map ic) y = HDD_POOL
      then 0 else image_byte ic cl y)" for y
  proof (cases "em_tier (ic_extent_map ic) cur = HDD_POOL")
    case True
    then have pid: "?hdd = data_ctx ic (em_tier (ic_extent_map ic) cur)" by (simp add: data_ctx_def whobbs_consts)
    have "\<forall>i < unat (lo_os ?l). obj_bytes obs' i =
        (if unat (oe_offset e) \<le> i \<and> i < unat (oe_offset e) + unat (oe_length e) then 0
         else obj_bytes (cl ?hdd (oe_oid e)) i)"
      using z unfolding zeroed_def by blast
    note eq = image_byte_object [where cl = cl and g = "\<lambda>_. 0" and y = y, OF ok(1,2) e cur pid this]
    show ?thesis
    proof (cases "be_pos ?be (unat (y - off))")
      case (Some k)
      then have "em_tier (ic_extent_map ic) y = HDD_POOL" using tier hit True by simp
      then show ?thesis unfolding eq using Some by simp
    qed (simp add: eq)
  next
    case False
    have "data_ctx ic (em_tier (ic_extent_map ic) y) \<noteq> ?hdd" if "objectno ?l y = oe_objectno e"
      using tier [OF that] False ok(9) em_tier_cases [of "ic_extent_map ic" cur] by (simp add: data_ctx_def)
    then have "image_byte ic ?cl y = image_byte ic cl y"
      by (cases "objectno ?l y = oe_objectno e") (auto simp: image_byte_def ef(3) format_oid_inj)
    moreover have "em_tier (ic_extent_map ic) y \<noteq> HDD_POOL" if "be_pos ?be (unat (y - off)) \<noteq> None"
      using tier [OF hit [OF that]] False by simp
    ultimately show ?thesis by auto
  qed
  moreover have "no_seqs ?cl" "unwatched ?cl" "sized ?cl"
    using z ok(4,8,10) by (auto simp: zeroed_def no_seqs_def unwatched_def sized_def pool_ok_def split: if_splits)
  moreover have "discard_object ev off 0 e (ic, c, cl, ps) = Some (ic, c, ?cl, ps)"
    using completed_write [OF ok(5-7)] by (cases "add_request c") (simp_all add: discard_object_def run)
  ultimately show ?thesis unfolding discarded_def be_pos_hits by blast
qed

lemma discard_objects_content:
  assumes "quiet ev" "discard_state ic c cl" "len < 2 ^ 64"
    "\<forall>e \<in> set es. extent_ok (ic_format_string ic) (ic_layout ic) off len e"
  shows "\<exists>cl'. write_objects (discard_object ev off 0) es (ic, c, cl, ps) = Some (ic, c, cl', ps)
    \<and> discarded ic off (exts_bufs es) cl cl'"
  using assms(2,4)
proof (induction es arbitrary: cl)
  case Nil
  then show ?case by (simp add: discarded_def discard_state_def writing_state_def)
next
  case (Cons e es)
  have e: "extent_ok (ic_format_string ic) (ic_layout ic) off len e" using Cons.prems(2) by simp
  obtain cl1 where 1: "discard_object ev off 0 e (ic, c, cl, ps) = Some (ic, c, cl1, ps)"
    "discarded ic off (oe_buffer_extents e) cl cl1"
    using discard_object_content [OF assms(1) Cons.prems(1) e assms(3), of ps] by blast
  have "discard_state ic c cl1"
    using Cons.prems(1) 1(2) unfolding discard_state_def writing_state_def discarded_def by blast
  moreover have "\<forall>e \<in> set es. extent_ok (ic_format_string ic) (ic_layout ic) off len e" using Cons.prems(2) by simp
  ultimately obtain cl2 where
    2: "write_objects (discard_object ev off 0) es (ic, c, cl1, ps) = Some (ic, c, cl2, ps)"
    "discarded ic off (exts_bufs es) cl1 cl2"
    using Cons.IH by blast
  have "discarded ic off (exts_bufs (e # es)) cl cl2"
    using 1(2) 2(2) unfolding discarded_def by (simp add: exts_bufs_simps) 
  then show ?case using 1(1) 2(1) by simp
qed

text \<open>C33. A discard reaches the HDD pool only: with no failing operation and no parent data, a
  discard returns its length, and afterwards the bytes of the range that live on the HDD pool are
  zero, while those that live on the SSD pool - and all bytes outside the range - are what they were.
  Every object's size is taken to be the length of its file, as the OSD's operations keep it.\<close>

theorem image_discard_content:
  assumes "image_ok ic" "quiet ev" "no_seqs cl" "unwatched cl" "sized cl" "ic_hdd_id ic \<noteq> ic_ssd_id ic"
    "get_parent_overlap ic (ic_snap_id ic) = Some 0" "ic_snap_id ic = CEPH_NOSNAP" "\<not> ic_read_only ic"
    "clip_io ic off len = (0, n)" "n \<noteq> 0" "unat off + unat n < 2 ^ 64" "unat len < 2147483648"
  shows "\<exists>cl' ic'. image_discard ev cl ic off len ps = Some (int (unat len), cl', ic', ps)
    \<and> (\<forall>y. image_byte ic cl' y =
         (if unat off \<le> unat y \<and> unat y < unat off + unat n \<and> em_tier (ic_extent_map ic) y = HDD_POOL then 0
          else image_byte ic cl y))"
proof -
  have lok: "layout_ok (ic_layout ic)" using assms(1) by (simp add: image_ok_def)
  obtain m where m: "file_to_extents_map (ic_format_string ic) (ic_layout ic) off n 0 [] 0 = Some m"
    and ok: "\<forall>e \<in> set (concat (map snd m)). extent_ok (ic_format_string ic) (ic_layout ic) off (unat n) e"
    and hit: "\<forall>x. hits (exts_bufs (concat (map snd m))) x = (if x < unat n then 1 else 0)"
    using extents_of_request [OF lok assms(11,12), of "ic_format_string ic" 0] by blast
  let ?es = "concat (map snd m)"
  define c where "c = aio_create_completion\<lparr>c_ref := 2, c_type := AIO_TYPE_DISCARD\<rparr>"
  have start: "begin_request AIO_TYPE_DISCARD aio_create_completion = Some c"
    by (simp add: begin_request_def c_get_def init_time_def c_def aio_create_completion_def)
  have st: "discard_state ic c cl"
    using assms(1,3-6) by (simp add: discard_state_def writing_state_def c_def aio_create_completion_def)
  have lt: "unat n < 2 ^ 64" using unat_lt [of n] by simp
  obtain cl' where w: "write_objects (discard_object ev off 0) ?es (ic, c, cl, ps) = Some (ic, c, cl', ps)"
    "discarded ic off (exts_bufs ?es) cl cl'"
    using discard_objects_content [OF assms(2) st lt ok, of ps] by blast
  obtain ic' c' where fin: "end_request ev ic c = Some (ic', c')" "c_done c'" "c_rval c' = 0"
    by (simp add: end_request_def finish_adding_requests_def Let_def finalize_def complete_def put_unlock_def
        c_def aio_create_completion_def)
  have chk: "ictx_check ev ic = (0, ic)" using assms(1) by (simp add: ictx_check_def image_ok_def)
  have ext: "file_to_extents (ic_format_string ic) (ic_layout ic) off n 0 0 = Some ?es"
    using m by (simp add: file_to_extents_def assimilate_extents_def)
  have nz: "len \<noteq> 0" using assms(10,11) by (auto simp: clip_io_def Let_def split: if_splits)
  have ov: "get_parent_overlap ic CEPH_NOSNAP = Some 0" using assms(7,8) by simp
  have "aio_discard ev off len (ic, aio_create_completion, cl, ps) = Some (0, ic', c', cl', ps)"
    using assms(8,9) fin(1) w(1)
    by (simp add: aio_discard_def Let_def nz chk assms(10) ov ext run_extents_def start)
  moreover have "c_int (int (unat len)) = int (unat len)" using assms(13) by (intro c_int_id) linarith+
  ultimately have "image_discard ev cl ic off len ps = Some (int (unat len), cl', ic', ps)"
    using fin(2,3) c_int_id [of 0] by (simp add: image_discard_def)
  moreover have "unat (y - off) < unat n \<longleftrightarrow> unat off \<le> unat y \<and> unat y < unat off + unat n" for y
    by (rule sub_lt_range [OF assms(12)])
  ultimately show ?thesis using w(2) hit unfolding discarded_def by simp
qed

lemma image_discard_content_witness:
  "\<exists>cl' ic'. image_discard quiet_env cluster_12 image_tiered 4194302 4 [] = Some (4, cl', ic', [])
    \<and> image_byte image_tiered cl' 4194303 = 0 \<and> image_byte image_tiered cl' 4194304 = 2"
proof -
  have "sized cluster_12" by (simp add: sized_def pool_ok_def cluster_12_def obj_ok_def fresh_object_def)
  moreover have "unwatched cluster_12" by (auto simp: unwatched_def cluster_12_def fresh_object_def split: if_splits)
  moreover have "ic_hdd_id image_tiered \<noteq> ic_ssd_id image_tiered" by (simp add: image_tiered_def image_9M_def)
  ultimately obtain cl' ic' where
    w: "image_discard quiet_env cluster_12 image_tiered 4194302 4 [] = Some (int (unat (4 :: u64)), cl', ic', [])"
    and b: "\<And>y. image_byte image_tiered cl' y =
         (if unat (4194302 :: u64) \<le> unat y \<and> unat y < unat (4194302 :: u64) + unat (4 :: u64)
            \<and> em_tier (ic_extent_map image_tiered) y = HDD_POOL then 0 else image_byte image_tiered cluster_12 y)"
    using image_discard_content [OF image_tiered_ok quiet_env_quiet no_seqs_12 _ _ _ image_tiered_fields, of "[]"]
    by auto
  have "em_tier (ic_extent_map image_tiered) 4194303 = HDD_POOL" "em_tier (ic_extent_map image_tiered) 4194304 \<noteq> HDD_POOL"
    by (simp_all add: image_tiered_def em_tier_def whobbs_consts)
  then have "image_byte image_tiered cl' 4194303 = 0" "image_byte image_tiered cl' 4194304 = 2"
    using b [of 4194303] b [of 4194304] by (simp_all add: image_tiered_byte)
  then show ?thesis using w by auto
qed

subsection \<open>Requests of no bytes\<close>

text \<open>C39. Empty requests: an asynchronous write or discard of no bytes returns 0 but leaves its
  completion as it was, so nothing ever completes it, and the synchronous \<open>write\<close> and \<open>discard\<close>
  never return; a read of no bytes fails an assert of the striper.\<close>

theorem empty_request_never_completes:
  assumes "ic_snap_exists ic" "ic_last_refresh ic = ic_refresh_seq ic"
  shows "(\<exists>ic'. aio_write ev off 0 buf (ic, c, cl, ps) = Some (0, ic', c, cl, ps))
    \<and> aio_discard ev off 0 (ic, c, cl, ps) = Some (0, ic, c, cl, ps)
    \<and> image_write ev cl ic off 0 buf ps = None \<and> image_discard ev cl ic off 0 ps = None
    \<and> image_read ev cl ic [(off, 0)] ps = None"
proof (intro conjI)
  have clip: "clip_io ic off 0 = (0, 0)" using assms by (simp add: clip_io_def Let_def)
  have nd: "\<not> c_done aio_create_completion" by (simp add: aio_create_completion_def)
  show "\<exists>ic'. aio_write ev off 0 buf (ic, c, cl, ps) = Some (0, ic', c, cl, ps)"
    by (simp add: aio_write_def Let_def)
  show "aio_discard ev off 0 (ic, c, cl, ps) = Some (0, ic, c, cl, ps)" by (simp add: aio_discard_def)
  show "image_write ev cl ic off 0 buf ps = None" by (simp add: image_write_def clip aio_write_def Let_def nd)
  show "image_discard ev cl ic off 0 ps = None" by (simp add: image_discard_def aio_discard_def nd)
  show "image_read ev cl ic [(off, 0)] ps = None"
    using assms(2) by (simp add: image_read_def aio_read_vec_def aio_read_with_def ictx_check_def clip file_to_extents_map_def)
qed

lemma empty_request_never_completes_witness:
  "image_write quiet_env cluster_12 image_tiered 5 0 [] [] = None
   \<and> image_read quiet_env cluster_12 image_tiered [(5, 0)] [] = None"
proof -
  have s: "ic_snap_exists image_tiered" "ic_last_refresh image_tiered = ic_refresh_seq image_tiered"
    by (simp_all add: image_tiered_def image_9M_def)
  then show ?thesis using empty_request_never_completes [OF s] by blast
qed

end
