(* ===== verification/Migrater_Model.thy ===== *)
theory Migrater_Model
  imports Data_Content
begin

text \<open>
  \<open>librbd/Migrater.cc\<close>: moving an extent from one pool to the other. The extent is marked in the
  table, its objects are read from the old pool, written to the new pool, the table is changed, and
  the objects are removed from the old pool. No step looks at the result of the one before. The
  commented-out \<open>do_osd_migrate\<close> and the timing output are left out; the flush of the old pool has
  nothing to wait for in a run on its own (\<open>Migration_Race\<close> has the concurrent requests). Lemmas: a
  migration moves the extent's object and keeps the content of the image, if nothing fails, the
  image has no parent and its objects are 4 MB; and what is lost otherwise.
\<close>

subsection \<open>The program\<close>

text \<open>The name of the first object at an image offset; the result of \<open>clip_io\<close> is only printed.\<close>

definition map_object :: "ImageCtx \<Rightarrow> u64 \<Rightarrow> string option" where
  "map_object ic off =
     (let (r, len) = clip_io ic off OBJECT_SIZE in
      case file_to_extents_map (ic_format_string ic) (ic_layout ic) off len 0 [] 0 of
        None \<Rightarrow> None
      | Some m \<Rightarrow> (case concat (map snd m) of [] \<Rightarrow> None | e # _ \<Rightarrow> Some (oe_oid e)))"

fun map_objects :: "ImageCtx \<Rightarrow> u64 list \<Rightarrow> (string, u64) smap \<Rightarrow> (string, u64) smap option" where
  "map_objects ic [] m = Some m"
| "map_objects ic (off # offs) m =
     (case map_object ic off of None \<Rightarrow> None | Some oid \<Rightarrow> map_objects ic offs (smap_insert oid off m))"

definition extent_offsets :: "u64 \<Rightarrow> u64 list" where
  "extent_offsets extent_id =
     map (\<lambda>i. extent_id * EXTENT_SIZE + OBJECT_SIZE * of_nat i) [0..<unat (EXTENT_SIZE div OBJECT_SIZE)]"

definition set_extent :: "u64 \<Rightarrow> int \<Rightarrow> ImageCtx \<Rightarrow> ImageCtx" where
  "set_extent i v ic =
     ic\<lparr>ic_extent_map := (ic_extent_map ic)\<lparr>em_map := smap_put i v (em_map (ic_extent_map ic))\<rparr>\<rparr>"

text \<open>The three passes over the objects. A failed read leaves its buffer empty.\<close>

fun mig_read :: "io_env \<Rightarrow> int \<Rightarrow> cluster \<Rightarrow> (string \<times> u64) list \<Rightarrow> (string, bytes) smap \<Rightarrow> (string, bytes) smap option" where
  "mig_read ev pid cl [] bm = Some bm"
| "mig_read ev pid cl ((oid, off) # objs) bm =
     (case rados_read (ev_fault ev pid oid) oid OBJECT_SIZE 0 (cl pid) of
        None \<Rightarrow> None
      | Some (r, bl) \<Rightarrow> mig_read ev pid cl objs (smap_put oid bl bm))"

fun mig_write :: "io_env \<Rightarrow> int \<Rightarrow> (string, bytes) smap \<Rightarrow> (string \<times> u64) list \<Rightarrow> cluster \<Rightarrow> cluster option" where
  "mig_write ev pid bm [] cl = Some cl"
| "mig_write ev pid bm ((oid, off) # objs) cl =
     (case rados_write_full (ev_fault ev pid oid) oid (the_default [] (map_of bm oid)) (cl pid) of
        None \<Rightarrow> None
      | Some (r, p) \<Rightarrow> mig_write ev pid bm objs (cl(pid := p)))"

fun mig_remove :: "io_env \<Rightarrow> int \<Rightarrow> (string \<times> u64) list \<Rightarrow> cluster \<Rightarrow> cluster option" where
  "mig_remove ev pid [] cl = Some cl"
| "mig_remove ev pid ((oid, off) # objs) cl =
     (case rados_remove (ev_fault ev pid oid) oid (cl pid) of
        None \<Rightarrow> None
      | Some (r, p) \<Rightarrow> mig_remove ev pid objs (cl(pid := p)))"

definition do_concurrent_migrate ::
    "io_env \<Rightarrow> u64 \<Rightarrow> int \<Rightarrow> int \<Rightarrow> ImageCtx \<times> cluster \<Rightarrow> (ImageCtx \<times> cluster) option" where
  "do_concurrent_migrate ev extent_id from_pool to_pool st =
     (case st of (ic, cl) \<Rightarrow>
        do { obj_map \<leftarrow> map_objects ic (extent_offsets extent_id) [];
             let ic1 = set_extent extent_id (if to_pool = SSD_POOL then MIGRATING_TO_SSD else MIGRATING_TO_HDD) ic;
             bm \<leftarrow> mig_read ev (data_ctx ic1 from_pool) cl obj_map [];
             cl1 \<leftarrow> mig_write ev (data_ctx ic1 to_pool) bm obj_map cl;
             let ic2 = set_extent extent_id (if to_pool = HDD_POOL then HDD_STRIDE else SSD_STRIDE) ic1;
             cl2 \<leftarrow> mig_remove ev (data_ctx ic1 from_pool) obj_map cl1;
             Some (ic2, cl2) })"

definition get_migrating :: "ImageCtx \<Rightarrow> bool" where
  "get_migrating ic = ic_migrating ic"

definition set_migrating :: "bool \<Rightarrow> ImageCtx \<Rightarrow> ImageCtx" where
  "set_migrating b ic = ic\<lparr>ic_migrating := b\<rparr>"

text \<open>
  \<open>restore_to_default_pool\<close>: wait until no extent is marked - in a run on its own, for ever if one
  is (\<open>None\<close>) - then bring every extent to the default pool, in the order of the table.
\<close>

fun migrate_all :: "io_env \<Rightarrow> int \<Rightarrow> int \<Rightarrow> u64 list \<Rightarrow> ImageCtx \<times> cluster \<Rightarrow> (ImageCtx \<times> cluster) option" where
  "migrate_all ev from_pool to_pool [] st = Some st"
| "migrate_all ev from_pool to_pool (i # ids) st =
     Option.bind (do_concurrent_migrate ev i from_pool to_pool st) (migrate_all ev from_pool to_pool ids)"

definition restore_to_default_pool :: "io_env \<Rightarrow> ImageCtx \<times> cluster \<Rightarrow> (ImageCtx \<times> cluster) option" where
  "restore_to_default_pool ev st =
     (let m = em_map (ic_extent_map (fst st)) in
      if list_ex (\<lambda>(_, v). v = MIGRATING_TO_SSD \<or> v = MIGRATING_TO_HDD) m then None
      else if DEFAULT_POOL = HDD_POOL
      then migrate_all ev SSD_POOL HDD_POOL (map fst (filter (\<lambda>(_, v). 0 < v) m)) st
      else migrate_all ev HDD_POOL SSD_POOL (map fst (filter (\<lambda>(_, v). v < 0) m)) st)"

subsection \<open>One extent\<close>

text \<open>Images as the migrater expects them: one 4 MB object per extent.\<close>

definition mig_image :: "ImageCtx \<Rightarrow> bool" where
  "mig_image ic \<longleftrightarrow> layout_plain (ic_layout ic) \<and> lo_os (ic_layout ic) = OBJECT_SIZE
     \<and> extent_size (ic_extent_map ic) = EXTENT_SIZE \<and> em_ok (ic_extent_map ic) \<and> ic_hdd_id ic \<noteq> ic_ssd_id ic"

definition mig_shape :: "ImageCtx \<Rightarrow> bool" where
  "mig_shape ic \<longleftrightarrow> layout_plain (ic_layout ic) \<and> lo_os (ic_layout ic) = OBJECT_SIZE
     \<and> extent_size (ic_extent_map ic) = EXTENT_SIZE \<and> em_ok (ic_extent_map ic)"

lemma mig_image_shape: "mig_image ic \<longleftrightarrow> mig_shape ic \<and> ic_hdd_id ic \<noteq> ic_ssd_id ic"
  by (auto simp: mig_image_def mig_shape_def)

definition extent_oid :: "ImageCtx \<Rightarrow> u64 \<Rightarrow> string" where
  "extent_oid ic i = format_oid (ic_format_string ic) i"

lemma fte_single:
  assumes "layout_ok l" "len \<noteq> 0" "unat (block_off l off) + unat len \<le> unat (lo_su l)"
  shows "\<exists>e. file_to_extents_map f l off len 0 [] 0 = Some [(format_oid f (objectno l off), [e])]
    \<and> oe_oid e = format_oid f (objectno l off)"
proof -
  have nz: "lo_su l \<noteq> 0" "lo_sc l \<noteq> 0" "\<not> lo_os l < lo_su l" using assms(1) by (auto simp: layout_ok_def)
  have sub: "unat (lo_su l - block_off l off) = unat (lo_su l) - unat (block_off l off)"
    using assms(3) by (intro unat_sub_le) linarith
  have "\<not> lo_su l - block_off l off < len"
    using assms(3) unfolding word_less_nat_alt sub by linarith
  then have x: "x_len l off len = len" by (simp add: x_len_def Let_def)
  have ts: "object_truncate_size l (objectno l off) 0 = Some 0" by (simp add: object_truncate_size_def)
  have "fte_loop f l 0 off 0 off len [] =
      Some [(format_oid f (objectno l off),
        [(new_extent f l (objectno l off) (x_offset l off) len 0)\<lparr>oe_buffer_extents := [(0, len)]\<rparr>])]"
    using nz assms(2) by (subst fte_loop.simps) (simp add: ts x fte_loop.simps smap_at_def add_piece_def new_extent_def)
  then show ?thesis using nz assms(2) by (simp add: file_to_extents_map_def new_extent_def)
qed

lemma plain_su: "layout_plain l \<Longrightarrow> lo_su l = lo_os l"
  by (simp add: layout_plain_def)

text \<open>Extents are 4 MB: below this number the offset of an extent does not wrap.\<close>

definition extent_in_range :: "u64 \<Rightarrow> bool" where
  "extent_in_range i \<longleftrightarrow> unat i < 4398046511104"

lemma extent_off:
  assumes "extent_in_range i"
  shows "unat (i * OBJECT_SIZE) = unat i * 4194304"
proof -
  have "unat i * 4194304 < 18446744073709551616" using assms by (simp add: extent_in_range_def)
  then show ?thesis by (simp add: whobbs_consts unat_word_ariths)
qed

lemma clip_len: "clip_io ic off OBJECT_SIZE = (r, len) \<Longrightarrow> len \<noteq> 0 \<and> unat len \<le> 4194304"
proof -
  assume a: "clip_io ic off OBJECT_SIZE = (r, len)"
  let ?s = "get_image_size ic (ic_snap_id ic)"
  have n: "unat OBJECT_SIZE = 4194304" "OBJECT_SIZE \<noteq> 0" by (simp_all add: whobbs_consts)
  show ?thesis
  proof (cases "len = OBJECT_SIZE")
    case True
    then show ?thesis using n by simp
  next
    case False
    then have len: "len = ?s - off" and lt: "\<not> ?s \<le> off" "?s < off + OBJECT_SIZE"
      using a by (auto simp: clip_io_def Let_def split: if_splits)
    have "unat off < unat ?s" using lt(1) by (simp add: word_le_nat_alt)
    moreover have "unat ?s < unat (off + OBJECT_SIZE)" using lt(2) by (simp add: word_less_nat_alt)
    moreover have "unat (off + OBJECT_SIZE) \<le> unat off + unat OBJECT_SIZE" by (rule unat_add_le)
    moreover have "unat (?s - off) = unat ?s - unat off"
      using \<open>unat off < unat ?s\<close> by (intro unat_sub_le) linarith
    ultimately show ?thesis using n unfolding len unat_pos_u64 by linarith
  qed
qed

lemma shape_map_object_extent:
  assumes "mig_shape ic" "extent_in_range i"
  shows "map_object ic (i * OBJECT_SIZE) = Some (extent_oid ic i)"
proof -
  let ?l = "ic_layout ic" and ?off = "i * OBJECT_SIZE"
  have l: "layout_plain ?l" "lo_os ?l = OBJECT_SIZE" using assms(1) by (simp_all add: mig_shape_def)
  have su: "unat (lo_su ?l) = 4194304" unfolding plain_su [OF l(1)] l(2) by (simp add: whobbs_consts)
  obtain r len where c: "clip_io ic ?off OBJECT_SIZE = (r, len)" by fastforce
  have "unat (block_off ?l ?off) = 0"
    unfolding block_off_def unat_mod_u64 su extent_off [OF assms(2)] by simp
  then have fit: "unat (block_off ?l ?off) + unat len \<le> unat (lo_su ?l)" using clip_len [OF c] su by simp
  have "objectno ?l ?off = i"
  proof (rule u64_eqI)
    show "unat (objectno ?l ?off) = unat i"
      unfolding objectno_plain [OF l(1)] unat_div_u64 l(2) extent_off [OF assms(2)] by (simp add: whobbs_consts)
  qed
  then obtain e where "file_to_extents_map (ic_format_string ic) ?l ?off len 0 [] 0 = Some [(extent_oid ic i, [e])]"
    "oe_oid e = extent_oid ic i"
    using fte_single [OF layout_exact_ok [OF layout_plain_exact [OF l(1)]] _ fit, of "ic_format_string ic"] clip_len [OF c]
    by (auto simp: extent_oid_def)
  then show ?thesis by (simp add: map_object_def c)
qed

lemma map_object_extent:
  assumes "mig_image ic" "extent_in_range i"
  shows "map_object ic (i * OBJECT_SIZE) = Some (extent_oid ic i)"
  using assms shape_map_object_extent mig_image_shape by blast

lemma extent_offsets_one: "extent_offsets i = [i * OBJECT_SIZE]"
  by (simp add: extent_offsets_def whobbs_consts)

text \<open>What a migration of one extent does, failures included.\<close>

definition moved_data :: "io_env \<Rightarrow> int \<Rightarrow> string \<Rightarrow> cluster \<Rightarrow> bytes" where
  "moved_data ev pid oid cl =
     (if ev_fault ev pid oid < 0 then []
      else case cl pid oid of Some ob \<Rightarrow> file_read 0 4194304 (od_data ob) | None \<Rightarrow> [])"

definition after_write :: "io_env \<Rightarrow> int \<Rightarrow> string \<Rightarrow> bytes \<Rightarrow> cluster \<Rightarrow> cluster" where
  "after_write ev pid oid d cl =
     (if ev_fault ev pid oid < 0 then cl else cl(pid := (cl pid)(oid := Some (full_object (cl pid oid) d))))"

definition after_remove :: "io_env \<Rightarrow> int \<Rightarrow> string \<Rightarrow> cluster \<Rightarrow> cluster" where
  "after_remove ev pid oid cl =
     (if ev_fault ev pid oid < 0 then cl
      else case cl pid oid of
        Some ob \<Rightarrow> if od_watchers ob = 0 then cl(pid := (cl pid)(oid := None)) else cl
      | None \<Rightarrow> cl)"

lemma set_extent_simps [simp]:
  "data_ctx (set_extent i v ic) p = data_ctx ic p" "set_extent i w (set_extent i v ic) = set_extent i w ic"
  "ic_layout (set_extent i v ic) = ic_layout ic" "ic_format_string (set_extent i v ic) = ic_format_string ic"
  "extent_size (ic_extent_map (set_extent i v ic)) = extent_size (ic_extent_map ic)"
  "ic_hdd_id (set_extent i v ic) = ic_hdd_id ic" "ic_ssd_id (set_extent i v ic) = ic_ssd_id ic"
  by (simp_all add: set_extent_def data_ctx_def)

lemma mig_read_one:
  "mig_read ev pid cl [(oid, off)] [] = Some [(oid, moved_data ev pid oid cl)]"
proof -
  have "rados_read (ev_fault ev pid oid) oid OBJECT_SIZE 0 (cl pid)
      = (if ev_fault ev pid oid < 0 then Some (ev_fault ev pid oid, [])
         else case cl pid oid of None \<Rightarrow> Some (- ENOENT, [])
            | Some ob \<Rightarrow> (let d = file_read (unat (0 :: u64)) (unat OBJECT_SIZE) (od_data ob) in Some (int (length d), d)))"
    by (rule rados_read_plain) (simp_all add: whobbs_consts)
  moreover have "unat OBJECT_SIZE = 4194304" by (simp add: whobbs_consts)
  ultimately show ?thesis by (cases "cl pid oid") (simp_all add: moved_data_def Let_def)
qed

lemma moved_data_length: "length (moved_data ev pid oid cl) \<le> 4194304"
  by (auto simp: moved_data_def file_read_def split: option.splits)

lemma mig_write_one:
  "mig_write ev pid [(oid, moved_data ev p oid cl0)] [(oid, off)] cl
     = Some (after_write ev pid oid (moved_data ev p oid cl0) cl)"
  by (simp add: write_full_plain [OF moved_data_length] after_write_def)

lemma mig_remove_one: "mig_remove ev pid [(oid, off)] cl = Some (after_remove ev pid oid cl)"
  by (auto simp: rados_remove_plain after_remove_def split: option.splits)

lemma shape_migrate_run:
  assumes "mig_shape ic" "extent_in_range i"
  shows "do_concurrent_migrate ev i from to (ic, cl) =
    (let oid = extent_oid ic i; pf = data_ctx ic from; pt = data_ctx ic to;
         cl1 = after_write ev pt oid (moved_data ev pf oid cl) cl
     in Some (set_extent i (if to = HDD_POOL then HDD_STRIDE else SSD_STRIDE) ic, after_remove ev pf oid cl1))"
  by (simp add: do_concurrent_migrate_def extent_offsets_one shape_map_object_extent [OF assms] mig_read_one
      mig_write_one mig_remove_one Let_def del: mig_read.simps mig_write.simps mig_remove.simps)

lemma migrate_run:
  assumes "mig_image ic" "extent_in_range i"
  shows "do_concurrent_migrate ev i from to (ic, cl) =
    (let oid = extent_oid ic i; pf = data_ctx ic from; pt = data_ctx ic to;
         cl1 = after_write ev pt oid (moved_data ev pf oid cl) cl
     in Some (set_extent i (if to = HDD_POOL then HDD_STRIDE else SSD_STRIDE) ic, after_remove ev pf oid cl1))"
  using assms shape_migrate_run mig_image_shape by blast

subsection \<open>Content is kept\<close>

definition small_objects :: "ImageCtx \<Rightarrow> cluster \<Rightarrow> bool" where
  "small_objects ic cl \<longleftrightarrow> (\<forall>pid i ob. cl pid (extent_oid ic i) = Some ob \<longrightarrow>
     length (od_data ob) \<le> 4194304 \<and> od_watchers ob = 0)"

lemma em_tier_set:
  assumes "em_ok (ic_extent_map ic)"
  shows "em_tier (ic_extent_map (set_extent i v ic)) y =
    (if y div extent_size (ic_extent_map ic) = i then (if 0 < v then SSD_POOL else HDD_POOL)
     else em_tier (ic_extent_map ic) y)"
  using assms by (simp add: em_tier_def set_extent_def em_ok_def map_of_smap_put)

lemma set_extent_ok:
  assumes "settled (ic_extent_map ic)" "\<bar>v\<bar> \<noteq> 999"
  shows "settled (ic_extent_map (set_extent i v ic))"
  using assms by (auto simp: settled_def set_extent_def em_ok_def map_of_smap_put split: if_splits)

lemma mig_image_set: "mig_image ic \<Longrightarrow> mig_image (set_extent i v ic)"
  by (auto simp: mig_image_def em_ok_def set_extent_def)

lemma shape_mig_objectno:
  assumes "mig_shape ic"
  shows "objectno (ic_layout ic) y = y div extent_size (ic_extent_map ic)"
  using assms objectno_plain [of "ic_layout ic" y] by (simp add: mig_shape_def whobbs_consts)

lemma mig_objectno:
  assumes "mig_image ic"
  shows "objectno (ic_layout ic) y = y div extent_size (ic_extent_map ic)"
  using assms shape_mig_objectno mig_image_shape by blast

lemma x_offset_small: "mig_image ic \<Longrightarrow> unat (x_offset (ic_layout ic) y) < 4194304"
  using x_offset_lt [of "ic_layout ic" y] layout_exact_ok [OF layout_plain_exact]
  by (auto simp: mig_image_def whobbs_consts)

lemma byte_at_whole: "length d \<le> 4194304 \<Longrightarrow> byte_at (file_read 0 4194304 d) k = byte_at d k"
  by (simp add: file_read_def)

text \<open>What the migrater keeps of an image and its objects, and the content it stands for.\<close>

definition mig_state :: "ImageCtx \<times> cluster \<Rightarrow> bool" where
  "mig_state st \<longleftrightarrow> mig_image (fst st) \<and> settled (ic_extent_map (fst st)) \<and> small_objects (fst st) (snd st)"

definition content :: "ImageCtx \<times> cluster \<Rightarrow> u64 \<Rightarrow> u8" where
  "content st = image_byte (fst st) (snd st)"

definition tier_of :: "ImageCtx \<times> cluster \<Rightarrow> u64 \<Rightarrow> int" where
  "tier_of st i = (case map_of (em_map (ic_extent_map (fst st))) i of
     Some v \<Rightarrow> if 0 < v then SSD_POOL else HDD_POOL | None \<Rightarrow> HDD_POOL)"

lemma shape_em_tier_extent: "mig_shape (fst st) \<Longrightarrow> em_tier (ic_extent_map (fst st)) y = tier_of st (y div EXTENT_SIZE)"
  by (simp add: em_tier_def tier_of_def mig_shape_def)

lemma em_tier_extent: "mig_image (fst st) \<Longrightarrow> em_tier (ic_extent_map (fst st)) y = tier_of st (y div EXTENT_SIZE)"
  by (simp add: mig_image_shape shape_em_tier_extent)

lemma shape_content_extent:
  assumes "mig_shape ic"
  shows "content (ic, cl) y =
    obj_bytes (cl (data_ctx ic (tier_of (ic, cl) (y div EXTENT_SIZE))) (extent_oid ic (y div EXTENT_SIZE)))
      (unat (x_offset (ic_layout ic) y))"
proof -
  have "objectno (ic_layout ic) y = y div EXTENT_SIZE"
    using shape_mig_objectno [OF assms] assms by (simp add: mig_shape_def)
  then show ?thesis
    using shape_em_tier_extent [of "(ic, cl)" y] assms
    by (simp add: content_def image_byte_def extent_oid_def)
qed

lemma content_extent:
  assumes "mig_image ic"
  shows "content (ic, cl) y =
    obj_bytes (cl (data_ctx ic (tier_of (ic, cl) (y div EXTENT_SIZE))) (extent_oid ic (y div EXTENT_SIZE)))
      (unat (x_offset (ic_layout ic) y))"
  using assms shape_content_extent mig_image_shape by blast

lemma shape_tier_of_set:
  assumes "mig_shape ic"
  shows "tier_of (set_extent i v ic, cl') = (tier_of (ic, cl))(i := (if 0 < v then SSD_POOL else HDD_POOL))"
  using assms by (simp add: fun_eq_iff tier_of_def set_extent_def mig_shape_def em_ok_def map_of_smap_put)

lemma tier_of_set:
  assumes "mig_image ic"
  shows "tier_of (set_extent i v ic, cl') = (tier_of (ic, cl))(i := (if 0 < v then SSD_POOL else HDD_POOL))"
  using assms shape_tier_of_set mig_image_shape by blast

text \<open>A migration that meets no fault: the object is in the new pool only, with the bytes it had.\<close>

definition tiers :: "int set" where
  "tiers = {HDD_POOL, SSD_POOL}"

lemma data_ctx_inj:
  "mig_image ic \<Longrightarrow> a \<in> tiers \<Longrightarrow> b \<in> tiers \<Longrightarrow> data_ctx ic a = data_ctx ic b \<longleftrightarrow> a = b"
  by (auto simp: tiers_def data_ctx_def mig_image_def whobbs_consts)

lemma extent_oid_inj: "extent_oid ic i = extent_oid ic j \<longleftrightarrow> i = j"
  by (simp add: extent_oid_def format_oid_inj)

lemma extent_oid_set [simp]: "extent_oid (set_extent i v ic) j = extent_oid ic j"
  by (simp add: extent_oid_def)

lemma moved_bytes:
  assumes "quiet ev" "small_objects ic cl"
  shows "byte_at (moved_data ev pid (extent_oid ic i) cl) k = obj_bytes (cl pid (extent_oid ic i)) k"
  using assms byte_at_whole
  by (auto simp: moved_data_def quiet_def small_objects_def byte_at_nil split: option.splits)

lemma migrate_keeps:
  assumes "mig_state (ic, cl)" "quiet ev" "extent_in_range i" "a \<in> tiers" "b \<in> tiers" "a \<noteq> b"
    "tier_of (ic, cl) i = a"
  shows "\<exists>ic' cl'. do_concurrent_migrate ev i a b (ic, cl) = Some (ic', cl')
    \<and> mig_state (ic', cl') \<and> content (ic', cl') = content (ic, cl)
    \<and> tier_of (ic', cl') = (tier_of (ic, cl))(i := b)
    \<and> cl' (data_ctx ic a) (extent_oid ic i) = None \<and> cl' (data_ctx ic b) (extent_oid ic i) \<noteq> None
    \<and> (\<forall>pid oid. oid \<noteq> extent_oid ic i \<longrightarrow> cl' pid oid = cl pid oid)"
proof -
  let ?o = "extent_oid ic i" and ?pa = "data_ctx ic a" and ?pb = "data_ctx ic b"
  let ?v = "if b = HDD_POOL then HDD_STRIDE else SSD_STRIDE"
  let ?d = "moved_data ev ?pa ?o cl"
  have mi: "mig_image ic" and se: "settled (ic_extent_map ic)" and so: "small_objects ic cl"
    using assms(1) by (simp_all add: mig_state_def)
  have ne: "?pa \<noteq> ?pb" using data_ctx_inj [OF mi] assms(4-6) by simp
  have nf: "\<not> ev_fault ev pid oid < 0" for pid oid using assms(2) by (simp add: quiet_def)
  let ?cl1 = "cl(?pb := (cl ?pb)(?o := Some (full_object (cl ?pb ?o) ?d)))"
  let ?cl' = "?cl1(?pa := (cl ?pa)(?o := None))"
  have w: "od_watchers ob = 0" if "cl ?pa ?o = Some ob" for ob
    using so that by (auto simp: small_objects_def)
  have rm: "after_remove ev ?pa ?o ?cl1 = ?cl'"
    using ne w by (auto simp: after_remove_def nf fun_eq_iff split: option.splits)
  have run: "do_concurrent_migrate ev i a b (ic, cl) = Some (set_extent i ?v ic, ?cl')"
    using migrate_run [OF mi assms(3), of ev a b cl] rm by (simp add: after_write_def nf Let_def)
  have v: "(if 0 < ?v then SSD_POOL else HDD_POOL) = b" "\<bar>?v\<bar> \<noteq> 999"
    using assms(5) by (auto simp: tiers_def whobbs_consts)
  have mi': "mig_image (set_extent i ?v ic)" by (rule mig_image_set [OF mi])
  have t: "tier_of (set_extent i ?v ic, ?cl') = (tier_of (ic, cl))(i := b)"
    using tier_of_set [OF mi, of i ?v ?cl' cl] unfolding v(1) .
  have so': "small_objects (set_extent i ?v ic) ?cl'"
    using so moved_data_length [of ev ?pa ?o cl]
    by (auto simp: small_objects_def split: option.splits)
  have "content (set_extent i ?v ic, ?cl') y = content (ic, cl) y" for y
    unfolding content_extent [OF mi'] content_extent [OF mi] t
    using assms(7) ne moved_bytes [OF assms(2) so, of ?pa i]
    by (simp add: extent_oid_inj)
  moreover have "mig_state (set_extent i ?v ic, ?cl')"
    using mi' so' set_extent_ok [OF se v(2)] by (simp add: mig_state_def)
  moreover have "mig_state (set_extent i ?v ic, ?cl')"
    using mi' so' set_extent_ok [OF se v(2)] by (simp add: mig_state_def)
  ultimately show ?thesis using run t ne
    by (intro exI [of _ "set_extent i ?v ic"] exI [of _ ?cl'] conjI) (simp_all add: fun_eq_iff)
qed

subsection \<open>Many extents\<close>

text \<open>
  What the callers rely on: moving one thing keeps the invariant and the view, and changes the place
  of that thing only. Then so does moving a list of them.
\<close>

locale mover =
  fixes inv :: "'s \<Rightarrow> bool" and view :: "'s \<Rightarrow> 'v" and place :: "'s \<Rightarrow> 'k \<Rightarrow> 'p"
    and valid :: "'k \<Rightarrow> bool" and places :: "'p set"
    and move :: "'k \<Rightarrow> 'p \<Rightarrow> 'p \<Rightarrow> 's \<Rightarrow> 's option"
  assumes move_ok: "inv s \<Longrightarrow> valid k \<Longrightarrow> a \<in> places \<Longrightarrow> b \<in> places \<Longrightarrow> a \<noteq> b \<Longrightarrow> place s k = a \<Longrightarrow>
    \<exists>s'. move k a b s = Some s' \<and> inv s' \<and> view s' = view s \<and> place s' = (place s)(k := b)"
begin

fun moves :: "'k list \<Rightarrow> 'p \<Rightarrow> 'p \<Rightarrow> 's \<Rightarrow> 's option" where
  "moves [] a b s = Some s"
| "moves (k # ks) a b s = Option.bind (move k a b s) (moves ks a b)"

lemma moves_ok:
  "inv s \<Longrightarrow> \<forall>k \<in> set ks. valid k \<and> place s k = a \<Longrightarrow> distinct ks \<Longrightarrow> a \<in> places \<Longrightarrow> b \<in> places \<Longrightarrow> a \<noteq> b \<Longrightarrow>
    \<exists>s'. moves ks a b s = Some s' \<and> inv s' \<and> view s' = view s
      \<and> place s' = (\<lambda>k. if k \<in> set ks then b else place s k)"
proof (induction ks arbitrary: s)
  case Nil
  then show ?case by simp
next
  case (Cons k ks)
  obtain s1 where 1: "move k a b s = Some s1" "inv s1" "view s1 = view s" "place s1 = (place s)(k := b)"
    using move_ok [of s k a b] Cons.prems by auto
  have "\<forall>j \<in> set ks. valid j \<and> place s1 j = a" using Cons.prems 1(4) by auto
  then obtain s2 where 2: "moves ks a b s1 = Some s2" "inv s2" "view s2 = view s1"
    "place s2 = (\<lambda>j. if j \<in> set ks then b else place s1 j)"
    using Cons.IH [OF 1(2)] Cons.prems by auto
  then show ?case using 1 Cons.prems(3) by (auto simp: fun_eq_iff)
qed

end

text \<open>The migrater, with the environment of its run.\<close>

type_synonym mig_run = "io_env \<times> ImageCtx \<times> cluster"

definition mig_move :: "u64 \<Rightarrow> int \<Rightarrow> int \<Rightarrow> mig_run \<Rightarrow> mig_run option" where
  "mig_move i a b s = map_option (Pair (fst s)) (do_concurrent_migrate (fst s) i a b (snd s))"

lemma mig_move_pair: "mig_move i a b (ev, st) = map_option (Pair ev) (do_concurrent_migrate ev i a b st)"
  by (simp add: mig_move_def)

interpretation migrater: mover "\<lambda>s. quiet (fst s) \<and> mig_state (snd s)" "\<lambda>s. (fst s, content (snd s))"
  "\<lambda>s. tier_of (snd s)" extent_in_range tiers mig_move
proof unfold_locales
  fix s :: mig_run and k a b
  assume h: "quiet (fst s) \<and> mig_state (snd s)" "extent_in_range k" "a \<in> tiers" "b \<in> tiers" "a \<noteq> b"
    "tier_of (snd s) k = a"
  obtain ev ic cl where s: "s = (ev, ic, cl)" by (cases s)
  show "\<exists>s'. mig_move k a b s = Some s' \<and> (quiet (fst s') \<and> mig_state (snd s'))
      \<and> (fst s', content (snd s')) = (fst s, content (snd s)) \<and> tier_of (snd s') = (tier_of (snd s))(k := b)"
    using migrate_keeps [of ic cl ev k a b] h by (auto simp: s mig_move_def)
qed

lemma migrate_all_moves:
  "migrater.moves ids a b (ev, st) = map_option (Pair ev) (migrate_all ev a b ids st)"
proof (induction ids arbitrary: st)
  case Nil
  show ?case by (simp add: migrater.moves.simps)
next
  case (Cons i ids)
  show ?case
    by (cases "do_concurrent_migrate ev i a b st") (simp_all add: migrater.moves.simps mig_move_pair Cons.IH)
qed

lemma migrate_all_keeps:
  assumes "quiet ev" "mig_state st" "\<forall>i \<in> set ids. extent_in_range i \<and> tier_of st i = a" "distinct ids"
    "a \<in> tiers" "b \<in> tiers" "a \<noteq> b"
  shows "\<exists>st'. migrate_all ev a b ids st = Some st' \<and> mig_state st' \<and> content st' = content st
    \<and> tier_of st' = (\<lambda>i. if i \<in> set ids then b else tier_of st i)"
  using migrater.moves_ok [of "(ev, st)" ids a b] assms unfolding fst_conv snd_conv
  by (auto simp: migrate_all_moves)

text \<open>C5. A migration without faults keeps the content of the image: every byte is the same before and
  after, the extent has moved to the other pool and no other extent has, its object is gone from the
  old pool and present in the new one, and objects of other names are untouched.\<close>

theorem migration_keeps_content:
  assumes "mig_state (ic, cl)" "quiet ev" "extent_in_range i" "a \<in> tiers" "b \<in> tiers" "a \<noteq> b"
    "tier_of (ic, cl) i = a"
  shows "\<exists>ic' cl'. do_concurrent_migrate ev i a b (ic, cl) = Some (ic', cl')
    \<and> mig_state (ic', cl') \<and> content (ic', cl') = content (ic, cl)
    \<and> tier_of (ic', cl') = (tier_of (ic, cl))(i := b)
    \<and> cl' (data_ctx ic a) (extent_oid ic i) = None \<and> cl' (data_ctx ic b) (extent_oid ic i) \<noteq> None
    \<and> (\<forall>pid oid. oid \<noteq> extent_oid ic i \<longrightarrow> cl' pid oid = cl pid oid)"
  by (rule migrate_keeps [OF assms])

lemma mig_image_tiered: "mig_state (image_tiered, cluster_12)"
  by (auto simp: mig_state_def mig_image_def small_objects_def settled_def em_ok_def image_tiered_def image_9M_def
      layout_plain_def whobbs_consts cluster_12_def fresh_object_def split: if_splits)

lemma migration_keeps_content_witness:
  "\<exists>ic' cl'. do_concurrent_migrate quiet_env 1 SSD_POOL HDD_POOL (image_tiered, cluster_12) = Some (ic', cl')
    \<and> content (ic', cl') 4194304 = 2 \<and> tier_of (ic', cl') 1 = HDD_POOL"
proof -
  have t: "tier_of (image_tiered, cluster_12) 1 = SSD_POOL"
    by (simp add: tier_of_def image_tiered_def)
  have c: "content (image_tiered, cluster_12) 4194304 = 2" by (simp add: content_def image_tiered_byte)
  have "extent_in_range 1" "SSD_POOL \<in> tiers" "HDD_POOL \<in> tiers" "SSD_POOL \<noteq> HDD_POOL"
    by (simp_all add: extent_in_range_def tiers_def whobbs_consts)
  then show ?thesis
    using migration_keeps_content [OF mig_image_tiered quiet_env_quiet _ _ _ _ t] c by fastforce
qed

text \<open>C34. A write error loses the extent: if the new pool refuses the object, the table says that the
  extent is there and its object is removed from the old pool, so that with no such object in the
  new pool all bytes of the extent are zero.\<close>

theorem migration_write_error_loses:
  assumes "mig_state (ic, cl)" "extent_in_range i" "a \<in> tiers" "b \<in> tiers" "a \<noteq> b"
    "ev_fault ev (data_ctx ic b) (extent_oid ic i) < 0" "\<not> ev_fault ev (data_ctx ic a) (extent_oid ic i) < 0"
    "cl (data_ctx ic b) (extent_oid ic i) = None"
  shows "\<exists>ic' cl'. do_concurrent_migrate ev i a b (ic, cl) = Some (ic', cl')
    \<and> tier_of (ic', cl') i = b \<and> (\<forall>pid. pid \<in> {data_ctx ic a, data_ctx ic b} \<longrightarrow> cl' pid (extent_oid ic i) = None)
    \<and> (\<forall>y. y div EXTENT_SIZE = i \<longrightarrow> content (ic', cl') y = 0)"
proof -
  let ?o = "extent_oid ic i" and ?pa = "data_ctx ic a" and ?pb = "data_ctx ic b"
  let ?v = "if b = HDD_POOL then HDD_STRIDE else SSD_STRIDE"
  let ?cl' = "cl(?pa := (cl ?pa)(?o := None))"
  have mi: "mig_image ic" and so: "small_objects ic cl" using assms(1) by (simp_all add: mig_state_def)
  have ne: "?pa \<noteq> ?pb" using data_ctx_inj [OF mi] assms(3-5) by simp
  have "od_watchers ob = 0" if "cl ?pa ?o = Some ob" for ob
    using so that by (auto simp: small_objects_def)
  then have "after_remove ev ?pa ?o cl = ?cl'"
    using assms(7) by (auto simp: after_remove_def fun_eq_iff split: option.splits)
  then have run: "do_concurrent_migrate ev i a b (ic, cl) = Some (set_extent i ?v ic, ?cl')"
    using migrate_run [OF mi assms(2), of ev a b cl] assms(6) by (simp add: after_write_def Let_def)
  have v: "(if 0 < ?v then SSD_POOL else HDD_POOL) = b"
    using assms(4) by (auto simp: tiers_def whobbs_consts)
  have t: "tier_of (set_extent i ?v ic, ?cl') i = b"
    using tier_of_set [OF mi, of i ?v ?cl' cl] unfolding v by simp
  have gone: "?cl' ?pa ?o = None" "?cl' ?pb ?o = None" using ne assms(8) by simp_all
  then have "content (set_extent i ?v ic, ?cl') y = 0" if "y div EXTENT_SIZE = i" for y
    unfolding content_extent [OF mig_image_set [OF mi]] that t using ne assms(8) by (simp add: byte_at_nil)
  then show ?thesis using run t gone
    by (intro exI [of _ "set_extent i ?v ic"] exI [of _ ?cl'] conjI) auto
qed

definition ssd_full :: io_env where
  "ssd_full = quiet_env\<lparr>ev_fault := \<lambda>pid oid. if pid = 4 then - 28 else 0\<rparr>"

definition cluster_hdd :: cluster where
  "cluster_hdd = cluster_12(4 := (\<lambda>oid. None))"

lemma migration_write_error_loses_witness:
  "content (image_tiered, cluster_hdd) 0 = 1 \<and>
    (\<exists>ic' cl'. do_concurrent_migrate ssd_full 0 HDD_POOL SSD_POOL (image_tiered, cluster_hdd) = Some (ic', cl')
      \<and> content (ic', cl') 0 = 0)"
proof -
  have s: "mig_state (image_tiered, cluster_hdd)"
    using mig_image_tiered by (auto simp: mig_state_def small_objects_def cluster_hdd_def)
  have "data_ctx image_tiered SSD_POOL = 4" "data_ctx image_tiered HDD_POOL = 3"
    by (simp_all add: data_ctx_def image_tiered_def image_9M_def whobbs_consts)
  then have "\<exists>ic' cl'. do_concurrent_migrate ssd_full 0 HDD_POOL SSD_POOL (image_tiered, cluster_hdd) = Some (ic', cl')
    \<and> tier_of (ic', cl') 0 = SSD_POOL \<and> (\<forall>pid. pid \<in> {data_ctx image_tiered HDD_POOL, data_ctx image_tiered SSD_POOL} \<longrightarrow>
        cl' pid (extent_oid image_tiered 0) = None)
    \<and> (\<forall>y. y div EXTENT_SIZE = 0 \<longrightarrow> content (ic', cl') y = 0)"
    by (intro migration_write_error_loses s)
      (simp_all add: extent_in_range_def tiers_def whobbs_consts ssd_full_def quiet_env_def cluster_hdd_def)
  moreover have "content (image_tiered, cluster_hdd) 0 = 1"
    by (simp add: content_def image_byte_def image_tiered_def image_9M_def em_tier_def data_ctx_def cluster_hdd_def
      cluster_12_def whobbs_consts x_offset_def stripeno_def blockno_def block_off_def stripes_per_object_def byte_at_def)
  moreover have "(0 :: u64) div EXTENT_SIZE = 0" by (simp add: whobbs_consts)
  ultimately show ?thesis by blast
qed

end
