(* ===== verification/Tiering.thy ===== *)
theory Tiering
  imports Migrater_Model
begin

text \<open>
  The life of the tiering of an image: \<open>ImageCtx::initialize_WHOBBS\<close> and \<open>finilize_WHOBBS\<close>, and a round
  of the analyzer thread, \<open>Analyzer::handle\<close>: report, placement, migrations. That the image is being
  closed is seen after each migration; the function \<open>stop\<close> says after which ones it is seen, so
  that every moment of the close is covered. Lemmas: a round keeps the content of the image and the
  table's invariant; how many migrations a close still waits for; what a reopened image contains.
\<close>

subsection \<open>The program\<close>

text \<open>A new migrater; from now on the pointer of the image to it is set.\<close>

definition new_migrater :: "ImageCtx \<Rightarrow> ImageCtx" where
  "new_migrater ic = ic\<lparr>ic_migrating := False, ic_to_finilize := False, ic_migrater_set := True\<rparr>"

text \<open>A new analyzer has empty queues; its static members are kept.\<close>

definition new_analyzer :: "Analyzer \<Rightarrow> Analyzer" where
  "new_analyzer an = an\<lparr>op_queue := [], read_latency_queue := [], write_latency_queue := [], last_byte_list := []\<rparr>"

definition initialize_WHOBBS :: "ImageCtx \<Rightarrow> ImageCtx" where
  "initialize_WHOBBS ic =
     (let n = ic_size ic div EXTENT_SIZE;
          value = (if DEFAULT_POOL = SSD_POOL then SSD_STRIDE else HDD_STRIDE);
          m = fold (\<lambda>i. smap_insert (of_nat i) value) [0..<unat n] (em_map (ic_extent_map ic));
          ic1 = ic\<lparr>ic_extent_map := \<lparr>extent_size = EXTENT_SIZE, map_size = n, em_map = m\<rparr>\<rparr>
      in (new_migrater ic1)\<lparr>ic_analyzer := new_analyzer (ic_analyzer ic1)\<rparr>)"

text \<open>
  Closing reads the migrater through its pointer, which only \<open>initialize_WHOBBS\<close> sets (undefined
  otherwise: \<open>None\<close>), tells a migrating migrater and the analyzer - a static member - to stop, and then
  waits for the round to end and the thread to be gone: the migrations of that time are those of
  \<open>handle_round\<close> up to \<open>stop\<close>. The table is not saved, because \<open>RESTORE\<close> is defined.
\<close>

definition finilize_WHOBBS :: "ImageCtx \<Rightarrow> ImageCtx option" where
  "finilize_WHOBBS ic =
     (if \<not> ic_migrater_set ic then None
      else Some (if get_migrating ic
                 then ic\<lparr>ic_to_finilize := True, ic_analyzer := (ic_analyzer ic)\<lparr>an_to_finilize := True\<rparr>\<rparr>
                 else ic))"

text \<open>One of the two migration loops; \<open>k\<close> counts the migrations of the round.\<close>

fun migrate_loop ::
    "io_env \<Rightarrow> int \<Rightarrow> int \<Rightarrow> (nat \<Rightarrow> bool) \<Rightarrow> nat \<Rightarrow> u64 list \<Rightarrow> ImageCtx \<times> cluster \<Rightarrow>
     (nat \<times> ImageCtx \<times> cluster) option" where
  "migrate_loop ev from_pool to_pool stop k [] st = Some (k, st)"
| "migrate_loop ev from_pool to_pool stop k (extent_id # ids) st =
     do { st1 \<leftarrow> do_concurrent_migrate ev extent_id from_pool to_pool st;
          if stop k then Some (Suc k, st1)
          else migrate_loop ev from_pool to_pool stop (Suc k) ids st1 }"

definition plan_round :: "ImageCtx \<Rightarrow> placement \<times> ImageCtx" where
  "plan_round ic =
     (let (report, an) = create_report (ic_extent_map ic) (ic_analyzer ic);
          (placement_map, em) = analyze_placement (ic_extent_map ic) report (active_extent_num_list an)
      in (filter_placement (max_migration_num an) placement_map, ic\<lparr>ic_analyzer := an, ic_extent_map := em\<rparr>))"

definition handle_round ::
    "io_env \<Rightarrow> (nat \<Rightarrow> bool) \<Rightarrow> ImageCtx \<times> cluster \<Rightarrow> (nat \<times> ImageCtx \<times> cluster) option" where
  "handle_round ev stop st =
     (let (plf, ic1) = plan_round (fst st) in
      do { (k1, st1) \<leftarrow> migrate_loop ev SSD_POOL HDD_POOL stop 0 (proposed HDD_POOL plf) (set_migrating True ic1, snd st);
           (k2, ic2, cl2) \<leftarrow> migrate_loop ev HDD_POOL SSD_POOL stop k1 (proposed SSD_POOL plf) st1;
           Some (k2, set_migrating False ic2, cl2) })"

subsection \<open>The loops\<close>

text \<open>A loop is a run over a prefix of its list: to the first migration after which it sees the close.\<close>

fun loop_len :: "(nat \<Rightarrow> bool) \<Rightarrow> nat \<Rightarrow> 'a list \<Rightarrow> nat" where
  "loop_len stop k [] = 0"
| "loop_len stop k (x # xs) = (if stop k then 1 else Suc (loop_len stop (Suc k) xs))"

lemma migrate_loop_prefix:
  "migrate_loop ev a b stop k ids st =
     map_option (Pair (k + loop_len stop k ids)) (migrate_all ev a b (take (loop_len stop k ids) ids) st)"
proof (induction ids arbitrary: k st)
  case Nil
  show ?case by simp
next
  case (Cons i ids)
  show ?case
    by (cases "do_concurrent_migrate ev i a b st") (simp_all add: Cons.IH)
qed

lemma loop_len_le: "loop_len stop k ids \<le> length ids"
  by (induction ids arbitrary: k) simp_all

lemma loop_len_stop: "stop j \<Longrightarrow> k \<le> j \<Longrightarrow> k + loop_len stop k ids \<le> Suc j"
proof (induction ids arbitrary: k)
  case Nil
  then show ?case by simp
next
  case (Cons i ids)
  show ?case
  proof (cases "stop k")
    case True
    then show ?thesis using Cons.prems by simp
  next
    case False
    then have "Suc k \<le> j" using Cons.prems by (metis Suc_leI le_neq_implies_less)
    then show ?thesis using Cons.IH [OF Cons.prems(1)] False by fastforce
  qed
qed

lemma loop_len_stopped: "(\<forall>j \<ge> k. stop j) \<Longrightarrow> loop_len stop k ids \<le> 1"
  by (cases ids) simp_all

subsection \<open>The table between rounds\<close>

text \<open>
  The entries of the table: values in the range of the hysteresis, 0 only for extents behind the end
  of the counted ones, and an entry for each of those.
\<close>

definition table_ok :: "ExtentMap \<Rightarrow> bool" where
  "table_ok em \<longleftrightarrow> em_ok em \<and> extent_size em = EXTENT_SIZE \<and> map_size em < 0x80000000
     \<and> (\<forall>i v. map_of (em_map em) i = Some v \<longrightarrow> value_range v \<and> extent_in_range i \<and> (v = 0 \<longrightarrow> map_size em \<le> i))
     \<and> (\<forall>i. map_of (em_map em) i = None \<longrightarrow> map_size em \<le> i)"

definition tiered :: "ImageCtx \<times> cluster \<Rightarrow> bool" where
  "tiered st \<longleftrightarrow> mig_image (fst st) \<and> table_ok (ic_extent_map (fst st)) \<and> small_objects (fst st) (snd st)
     \<and> no_seqs (snd st)"

text \<open>The part of the image context that the tiering does not change.\<close>

definition rest :: "ImageCtx \<Rightarrow> ImageCtx" where
  "rest ic = ic\<lparr>ic_extent_map := \<lparr>extent_size = 0, map_size = 0, em_map = []\<rparr>,
     ic_analyzer := \<lparr>op_queue = [], read_latency_queue = [], write_latency_queue = [], last_byte_list = [],
       max_migration_num = 0, active_extent_num_list = [], an_to_finilize = False\<rparr>, ic_migrating := False\<rparr>"

lemma rest_updates [simp]:
  "rest (ic\<lparr>ic_extent_map := em\<rparr>) = rest ic" "rest (ic\<lparr>ic_analyzer := an\<rparr>) = rest ic"
  "rest (ic\<lparr>ic_migrating := b\<rparr>) = rest ic" "rest (set_extent i v ic) = rest ic" "rest (set_migrating b ic) = rest ic"
  by (simp_all add: rest_def set_extent_def set_migrating_def)

lemma no_seqs_after:
  assumes "no_seqs cl"
  shows "no_seqs (after_write ev pid oid d cl)" "no_seqs (after_remove ev pid oid cl)"
  using assms by (auto simp: no_seqs_def seq_zero_def after_write_def after_remove_def split: option.splits)

lemma table_ok_settled: "table_ok em \<Longrightarrow> settled em"
  unfolding table_ok_def settled_def value_range_def HDD_STRIDE_def SSD_STRIDE_def by force

lemma tiered_mig_state: "tiered st \<Longrightarrow> mig_state st"
  by (simp add: tiered_def mig_state_def table_ok_settled)

lemma smap_ok_map_of_set: "smap_ok m \<Longrightarrow> map_of m i = Some v \<longleftrightarrow> (i, v) \<in> set m"
  by (simp add: map_of_eq_Some_iff smap_ok_distinct)

lemma tend_to_bound: "i \<in> set (tend_to em rp al SSD_POOL) \<Longrightarrow> map_size em < 0x80000000 \<Longrightarrow> i < map_size em"
  by (simp add: tend_to_member)

lemma place_entry_tier:
  "v \<noteq> 0 \<or> t \<noteq> SSD_POOL \<Longrightarrow> 0 < fst (place_entry t v) \<longleftrightarrow> 0 < v"
  by (auto simp: place_entry_def whobbs_consts)

lemma analyze_table_ok:
  assumes "table_ok em" "analyze_placement em rp al = (pl, em')"
  shows "table_ok em'" "\<forall>y. em_tier em' y = em_tier em y"
    "\<forall>i \<in> set (proposed SSD_POOL pl). map_of (em_map em) i = Some (- 1)"
    "\<forall>i \<in> set (proposed HDD_POOL pl). map_of (em_map em) i = Some 1"
    "distinct (proposed SSD_POOL pl)" "distinct (proposed HDD_POOL pl)"
proof -
  let ?T = "tend_to em rp al SSD_POOL"
  note r = analyze_placement_result [OF assms(2)]
  have so: "smap_ok (em_map em)" using assms(1) by (simp add: table_ok_def em_ok_def)
  have look: "map_of (em_map em') i = map_option (\<lambda>v. fst (place_entry (tend_of ?T i) v)) (map_of (em_map em) i)" for i
    by (simp add: r(1) map_of_map_values)
  have tend: "v \<noteq> 0 \<or> tend_of ?T i \<noteq> SSD_POOL" if "map_of (em_map em) i = Some v" for i v
    using assms(1) that tend_to_bound [of i em rp al]
    by (force simp: table_ok_def tend_of_def not_le [symmetric] whobbs_consts)
  have rng: "value_range v" if "map_of (em_map em) i = Some v" for i v
    using assms(1) that by (simp add: table_ok_def)
  have "em_ok em'" using assms(1) unfolding em_ok_def table_ok_def r(1,2) smap_ok_map_values by blast
  then show "table_ok em'"
    using assms(1) place_entry_range [OF rng] unfolding table_ok_def r(2,3) look by auto
  show "\<forall>y. em_tier em' y = em_tier em y"
    using place_entry_tier [OF tend] by (auto simp: em_tier_def r(2) look split: option.splits)
  show "\<forall>i \<in> set (proposed SSD_POOL pl). map_of (em_map em) i = Some (- 1)"
    "\<forall>i \<in> set (proposed HDD_POOL pl). map_of (em_map em) i = Some 1"
    using so by (auto simp: r(4,5) smap_ok_map_of_set)
  show "distinct (proposed SSD_POOL pl)" "distinct (proposed HDD_POOL pl)"
    using smap_ok_distinct [OF so] unfolding r(4,5) by (simp_all add: distinct_map_filter)
qed

lemma tiered_update:
  assumes "tiered (ic, cl)" "table_ok em" "\<forall>y. em_tier em y = em_tier (ic_extent_map ic) y"
  shows "tiered (ic\<lparr>ic_extent_map := em, ic_analyzer := an, ic_migrating := b\<rparr>, cl)"
    "content (ic\<lparr>ic_extent_map := em, ic_analyzer := an, ic_migrating := b\<rparr>, cl) = content (ic, cl)"
  using assms
  by (simp_all add: tiered_def mig_image_def table_ok_def small_objects_def extent_oid_def fun_eq_iff content_def
      image_byte_def data_ctx_def)

lemma plan_round_ok:
  assumes "tiered (ic, cl)" "plan_round ic = (plf, ic1)"
  shows "tiered (set_migrating True ic1, cl)" "content (set_migrating True ic1, cl) = content (ic, cl)"
    "\<forall>i \<in> set (proposed HDD_POOL plf). extent_in_range i \<and> tier_of (ic1, cl) i = SSD_POOL"
    "\<forall>i \<in> set (proposed SSD_POOL plf). extent_in_range i \<and> tier_of (ic1, cl) i = HDD_POOL"
    "distinct (proposed HDD_POOL plf)" "distinct (proposed SSD_POOL plf)" "rest ic1 = rest ic"
proof -
  obtain rp an where r: "create_report (ic_extent_map ic) (ic_analyzer ic) = (rp, an)" by fastforce
  obtain pl em where a: "analyze_placement (ic_extent_map ic) rp (active_extent_num_list an) = (pl, em)" by fastforce
  have p: "plf = filter_placement (max_migration_num an) pl" "ic1 = ic\<lparr>ic_analyzer := an, ic_extent_map := em\<rparr>"
    using assms(2) by (simp_all add: plan_round_def r a)
  have tok: "table_ok (ic_extent_map ic)" using assms(1) by (simp add: tiered_def)
  note f = analyze_table_ok [OF tok a] and tk = filter_placement_takes [of "max_migration_num an" pl]
  have ic1: "set_migrating True ic1 = ic\<lparr>ic_extent_map := em, ic_analyzer := an, ic_migrating := True\<rparr>"
    by (simp add: set_migrating_def p(2))
  show "tiered (set_migrating True ic1, cl)" "content (set_migrating True ic1, cl) = content (ic, cl)"
    unfolding ic1 by (rule tiered_update [OF assms(1) f(1,2)])+
  show "rest ic1 = rest ic" by (simp add: p(2))
  have rng: "extent_in_range i" if "map_of (em_map (ic_extent_map ic)) i = Some v" for i v
    using tok that by (simp add: table_ok_def)
  have same: "tier_of (ic1, cl) i = tier_of (ic, cl) i" if "map_of (em_map (ic_extent_map ic)) i = Some v" "v \<noteq> 0" for i v
  proof -
    have "em_tier em (i * EXTENT_SIZE) = em_tier (ic_extent_map ic) (i * EXTENT_SIZE)" using f(2) by blast
    moreover have "i * EXTENT_SIZE div EXTENT_SIZE = i"
    proof (rule u64_eqI)
      show "unat (i * EXTENT_SIZE div EXTENT_SIZE) = unat i"
        using extent_off [OF rng [OF that(1)]] unfolding unat_div_u64 EXTENT_SIZE_def by (simp add: OBJECT_SIZE_def)
    qed
    moreover have "extent_size em = EXTENT_SIZE" "extent_size (ic_extent_map ic) = EXTENT_SIZE"
      using f(1) tok by (simp_all add: table_ok_def)
    ultimately show ?thesis by (simp add: tier_of_def em_tier_def p(2))
  qed
  show "\<forall>i \<in> set (proposed HDD_POOL plf). extent_in_range i \<and> tier_of (ic1, cl) i = SSD_POOL"
  proof
    fix i assume "i \<in> set (proposed HDD_POOL plf)"
    then have m: "map_of (em_map (ic_extent_map ic)) i = Some 1"
      using f(4) unfolding p(1) tk by (meson in_set_takeD)
    then show "extent_in_range i \<and> tier_of (ic1, cl) i = SSD_POOL"
      using rng [OF m] same [OF m] by (simp add: tier_of_def)
  qed
  show "\<forall>i \<in> set (proposed SSD_POOL plf). extent_in_range i \<and> tier_of (ic1, cl) i = HDD_POOL"
  proof
    fix i assume "i \<in> set (proposed SSD_POOL plf)"
    then have m: "map_of (em_map (ic_extent_map ic)) i = Some (- 1)"
      using f(3) unfolding p(1) tk by (meson in_set_takeD)
    then show "extent_in_range i \<and> tier_of (ic1, cl) i = HDD_POOL"
      using rng [OF m] same [OF m] by (simp add: tier_of_def)
  qed
  show "distinct (proposed HDD_POOL plf)" "distinct (proposed SSD_POOL plf)"
    using f(5,6) unfolding p(1) tk by simp_all
qed

subsection \<open>Rounds keep the content\<close>

lemma table_ok_set:
  "table_ok em \<Longrightarrow> extent_in_range i \<Longrightarrow> value_range v \<Longrightarrow> v \<noteq> 0 \<Longrightarrow> table_ok (em\<lparr>em_map := smap_put i v (em_map em)\<rparr>)"
  by (auto simp: table_ok_def em_ok_def map_of_smap_put)

lemma migrate_tiered:
  assumes "tiered (ic, cl)" "quiet ev" "extent_in_range i" "a \<in> tiers" "b \<in> tiers" "a \<noteq> b" "tier_of (ic, cl) i = a"
  shows "\<exists>ic' cl'. do_concurrent_migrate ev i a b (ic, cl) = Some (ic', cl')
    \<and> tiered (ic', cl') \<and> content (ic', cl') = content (ic, cl) \<and> tier_of (ic', cl') = (tier_of (ic, cl))(i := b)
    \<and> rest ic' = rest ic"
proof -
  have mi: "mig_image ic" and tok: "table_ok (ic_extent_map ic)" using assms(1) by (simp_all add: tiered_def)
  obtain ic' cl' where m: "do_concurrent_migrate ev i a b (ic, cl) = Some (ic', cl')" "mig_state (ic', cl')"
    "content (ic', cl') = content (ic, cl)" "tier_of (ic', cl') = (tier_of (ic, cl))(i := b)"
    using migrate_keeps [OF tiered_mig_state [OF assms(1)] assms(2-7)] by blast
  let ?v = "if b = HDD_POOL then HDD_STRIDE else SSD_STRIDE"
  have ic': "ic' = set_extent i ?v ic"
    using m(1) migrate_run [OF mi assms(3), of ev a b cl] by (simp add: Let_def)
  have "no_seqs cl" using assms(1) by (simp add: tiered_def)
  then have "no_seqs cl'"
    using m(1) migrate_run [OF mi assms(3), of ev a b cl] by (auto simp: Let_def intro: no_seqs_after)
  moreover have "rest ic' = rest ic" by (simp add: ic')
  moreover have "table_ok (ic_extent_map ic')"
    using table_ok_set [OF tok assms(3), of ?v] by (simp add: ic' set_extent_def value_range_def HDD_STRIDE_def SSD_STRIDE_def)
  ultimately show ?thesis using m by (simp add: tiered_def mig_state_def)
qed

interpretation round: mover "\<lambda>s. quiet (fst s) \<and> tiered (snd s)" "\<lambda>s. (fst s, content (snd s), rest (fst (snd s)))"
  "\<lambda>s. tier_of (snd s)" extent_in_range tiers mig_move
proof unfold_locales
  fix s :: mig_run and k a b
  assume h: "quiet (fst s) \<and> tiered (snd s)" "extent_in_range k" "a \<in> tiers" "b \<in> tiers" "a \<noteq> b"
    "tier_of (snd s) k = a"
  obtain ev ic cl where s: "s = (ev, ic, cl)" by (cases s)
  show "\<exists>s'. mig_move k a b s = Some s' \<and> (quiet (fst s') \<and> tiered (snd s'))
      \<and> (fst s', content (snd s'), rest (fst (snd s'))) = (fst s, content (snd s), rest (fst (snd s)))
      \<and> tier_of (snd s') = (tier_of (snd s))(k := b)"
    using migrate_tiered [of ic cl ev k a b] h by (auto simp: s mig_move_pair)
qed

lemma migrate_loop_keeps:
  assumes "quiet ev" "tiered st" "\<forall>i \<in> set ids. extent_in_range i \<and> tier_of st i = a" "distinct ids"
    "a \<in> tiers" "b \<in> tiers" "a \<noteq> b"
  shows "\<exists>st'. migrate_loop ev a b stop k ids st = Some (k + loop_len stop k ids, st') \<and> tiered st'
    \<and> content st' = content st \<and> rest (fst st') = rest (fst st)
    \<and> tier_of st' = (\<lambda>i. if i \<in> set (take (loop_len stop k ids) ids) then b else tier_of st i)"
proof -
  let ?ids = "take (loop_len stop k ids) ids"
  have "\<forall>i \<in> set ?ids. extent_in_range i \<and> tier_of st i = a" using assms(3) by (meson in_set_takeD)
  then show ?thesis
    using round.moves_ok [of "(ev, st)" ?ids a b] assms unfolding fst_conv snd_conv
    by (auto simp: migrate_all_moves migrate_loop_prefix)
qed

lemma handle_run:
  assumes "tiered (ic, cl)" "quiet ev"
  shows "\<exists>k ic' cl'. handle_round ev stop (ic, cl) = Some (k, ic', cl') \<and> tiered (ic', cl')
    \<and> content (ic', cl') = content (ic, cl) \<and> \<not> get_migrating ic'
    \<and> k \<le> unat (max_migration_num (ic_analyzer ic)) \<and> rest ic' = rest ic"
proof -
  obtain plf ic1 where p: "plan_round ic = (plf, ic1)" by fastforce
  let ?H = "proposed HDD_POOL plf" and ?S = "proposed SSD_POOL plf"
  note o = plan_round_ok [OF assms(1) p]
  have tt: "HDD_POOL \<in> tiers" "SSD_POOL \<in> tiers" "SSD_POOL \<noteq> HDD_POOL" "HDD_POOL \<noteq> SSD_POOL"
    by (simp_all add: tiers_def whobbs_consts)
  have sel: "tier_of (set_migrating True ic1, cl) = tier_of (ic1, cl)"
    by (simp add: fun_eq_iff tier_of_def set_migrating_def)
  obtain st1 where 1: "migrate_loop ev SSD_POOL HDD_POOL stop 0 ?H (set_migrating True ic1, cl)
      = Some (loop_len stop 0 ?H, st1)" "tiered st1" "content st1 = content (set_migrating True ic1, cl)"
    "rest (fst st1) = rest ic1"
    "tier_of st1 = (\<lambda>i. if i \<in> set (take (loop_len stop 0 ?H) ?H) then HDD_POOL else tier_of (ic1, cl) i)"
    using migrate_loop_keeps [OF assms(2) o(1) _ o(5) tt(2,1,3), of stop 0, unfolded sel] o(3) by auto
  have "\<forall>i \<in> set ?S. extent_in_range i \<and> tier_of st1 i = HDD_POOL" using o(4) by (simp add: 1(5))
  then obtain ic2 cl2 where 2: "migrate_loop ev HDD_POOL SSD_POOL stop (loop_len stop 0 ?H) ?S st1
      = Some (loop_len stop 0 ?H + loop_len stop (loop_len stop 0 ?H) ?S, ic2, cl2)" "tiered (ic2, cl2)"
    "content (ic2, cl2) = content st1" "rest ic2 = rest (fst st1)"
    using migrate_loop_keeps [OF assms(2) 1(2) _ o(6) tt(1,2,4), of stop "loop_len stop 0 ?H"] by auto
  let ?k = "loop_len stop 0 ?H + loop_len stop (loop_len stop 0 ?H) ?S"
  have run: "handle_round ev stop (ic, cl) = Some (?k, set_migrating False ic2, cl2)"
    by (simp add: handle_round_def p 1(1) 2(1))
  obtain rp an where r: "create_report (ic_extent_map ic) (ic_analyzer ic) = (rp, an)" by fastforce
  then have mx: "max_migration_num an = max_migration_num (ic_analyzer ic)"
    by (auto simp: create_report_def Let_def)
  obtain pl em where pl: "analyze_placement (ic_extent_map ic) rp (active_extent_num_list an) = (pl, em)" by fastforce
  have "plf = filter_placement (max_migration_num an) pl" using p by (simp add: plan_round_def r pl)
  then have "length ?S + length ?H \<le> unat (max_migration_num (ic_analyzer ic))"
    by (simp add: filter_placement_takes mx)
  then have k: "?k \<le> unat (max_migration_num (ic_analyzer ic))"
    using loop_len_le [of stop 0 ?H] loop_len_le [of stop "loop_len stop 0 ?H" ?S] by linarith
  have up: "set_migrating False ic2 = ic2\<lparr>ic_extent_map := ic_extent_map ic2, ic_analyzer := ic_analyzer ic2, ic_migrating := False\<rparr>"
    by (simp add: set_migrating_def)
  have "table_ok (ic_extent_map ic2)" using 2(2) by (simp add: tiered_def)
  then have "tiered (set_migrating False ic2, cl2)" "content (set_migrating False ic2, cl2) = content (ic2, cl2)"
    unfolding up using tiered_update [OF 2(2)] by blast+
  moreover have "\<not> get_migrating (set_migrating False ic2)" by (simp add: get_migrating_def set_migrating_def)
  ultimately show ?thesis using run k 2(3,4) 1(3,4) o(2,7)
    by (intro exI [of _ ?k] exI [of _ "set_migrating False ic2"] exI [of _ cl2]) simp
qed

text \<open>C7. A round of the analyzer keeps the content of the image: whatever was recorded and whenever the
  close of the image is seen, the round ends, every byte of the image is what it was, the table's
  invariant holds again, no migration is running, and at most the limit of extents were migrated.\<close>

theorem handle_keeps_content:
  assumes "tiered (ic, cl)" "quiet ev"
  shows "\<exists>k ic' cl'. handle_round ev stop (ic, cl) = Some (k, ic', cl') \<and> tiered (ic', cl')
    \<and> content (ic', cl') = content (ic, cl) \<and> \<not> get_migrating ic'
    \<and> k \<le> unat (max_migration_num (ic_analyzer ic))"
  using handle_run [OF assms, of stop] by blast

text \<open>A close waits for at most two more migrations: once the flag is seen after the migration
  number \<open>n\<close> (counting from 0), the loop that sees it stops, and the other loop migrates at most one
  extent more.\<close>

theorem close_waits_for_two:
  assumes "\<forall>j \<ge> n. stop j" "handle_round ev stop st = Some (k, st')"
  shows "k \<le> n + 2"
proof -
  obtain plf ic1 where p: "plan_round (fst st) = (plf, ic1)" by fastforce
  let ?H = "proposed HDD_POOL plf" and ?S = "proposed SSD_POOL plf" and ?h = "loop_len stop 0 (proposed HDD_POOL plf)"
  have k: "k = ?h + loop_len stop ?h ?S"
    using assms(2) by (auto simp: handle_round_def p migrate_loop_prefix bind_eq_Some_conv)
  show ?thesis
  proof (cases "n \<le> ?h")
    case True
    then have "loop_len stop ?h ?S \<le> 1" using assms(1) by (intro loop_len_stopped) simp
    moreover have "?h \<le> Suc n" using loop_len_stop [of stop n 0 ?H] assms(1) by simp
    ultimately show ?thesis using k by linarith
  next
    case False
    then have "?h + loop_len stop ?h ?S \<le> Suc n" using loop_len_stop [of stop n ?h ?S] assms(1) by simp
    then show ?thesis using k by linarith
  qed
qed

lemma tiered_image: "tiered (image_tiered, cluster_12)"
proof -
  have "value_range v \<and> extent_in_range i \<and> (v = 0 \<longrightarrow> map_size (ic_extent_map image_tiered) \<le> i)"
    if "map_of (em_map (ic_extent_map image_tiered)) i = Some v" for i v
    using that by (auto simp: image_tiered_def value_range_def extent_in_range_def whobbs_consts split: if_splits)
  moreover have "small_objects image_tiered cluster_12" "mig_image image_tiered" "no_seqs cluster_12"
    using mig_image_tiered no_seqs_12 by (simp_all add: mig_state_def)
  moreover have "em_ok (ic_extent_map image_tiered)" "extent_size (ic_extent_map image_tiered) = EXTENT_SIZE"
    "map_size (ic_extent_map image_tiered) < 0x80000000"
    by (simp_all add: image_tiered_def em_ok_def whobbs_consts)
  moreover have "map_size (ic_extent_map image_tiered) \<le> i" if "map_of (em_map (ic_extent_map image_tiered)) i = None" for i
  proof -
    have "i \<noteq> 0" "i \<noteq> 1" using that by (auto simp: image_tiered_def)
    then have "unat i \<noteq> 0" "unat i \<noteq> 1" by (metis unat_0 u64_eqI) (metis unat_1 u64_eqI \<open>i \<noteq> 1\<close>)
    then show ?thesis by (simp add: image_tiered_def word_le_nat_alt)
  qed
  ultimately show ?thesis by (simp add: tiered_def table_ok_def)
qed

lemma handle_keeps_content_witness:
  "\<exists>k ic' cl'. handle_round quiet_env (\<lambda>_. False) (image_tiered, cluster_12) = Some (k, ic', cl')
    \<and> content (ic', cl') 4194304 = 2"
  using handle_keeps_content [OF tiered_image quiet_env_quiet, of "\<lambda>_. False"]
  by (auto simp: content_def image_tiered_byte)

lemma close_waits_for_two_witness:
  "\<exists>k st'. handle_round quiet_env (\<lambda>_. True) (image_tiered, cluster_12) = Some (k, st') \<and> k \<le> 0 + 2"
  using handle_run [OF tiered_image quiet_env_quiet, of "\<lambda>_. True"] close_waits_for_two [of 0 "\<lambda>_. True"]
  by blast

subsection \<open>Closing and opening again\<close>

text \<open>
  The table of a new image context is empty; \<open>reopened\<close> is what opening the image again gives, with
  the same metadata. \<open>finilize_WHOBBS\<close> saves nothing, because \<open>RESTORE\<close> is defined.
\<close>

definition reopened :: "ImageCtx \<Rightarrow> ImageCtx" where
  "reopened ic = initialize_WHOBBS (ic\<lparr>ic_extent_map := \<lparr>extent_size = 0, map_size = 0, em_map = []\<rparr>\<rparr>)"

lemma reopened_map:
  "ic_extent_map (reopened ic) = \<lparr>extent_size = EXTENT_SIZE, map_size = ic_size ic div EXTENT_SIZE,
     em_map = init_score_map (ic_size ic div EXTENT_SIZE) HDD_STRIDE\<rparr>"
  by (simp add: reopened_def initialize_WHOBBS_def Let_def new_migrater_def init_score_map_def DEFAULT_POOL_def
      HDD_POOL_def SSD_POOL_def)

lemma reopened_simps [simp]:
  "ic_layout (reopened ic) = ic_layout ic" "ic_format_string (reopened ic) = ic_format_string ic"
  "ic_hdd_id (reopened ic) = ic_hdd_id ic" "ic_ssd_id (reopened ic) = ic_ssd_id ic"
  "data_ctx (reopened ic) p = data_ctx ic p" "extent_oid (reopened ic) i = extent_oid ic i"
  "\<not> get_migrating (reopened ic)"
  by (simp_all add: reopened_def initialize_WHOBBS_def Let_def new_migrater_def data_ctx_def extent_oid_def
      get_migrating_def)

lemma reopened_mig_image: "mig_image ic \<Longrightarrow> mig_image (reopened ic)"
  using init_score_map_lookup [of "ic_size ic div EXTENT_SIZE" HDD_STRIDE]
  by (simp add: mig_image_def reopened_map em_ok_def) (simp add: whobbs_consts)

lemma reopened_tier: "tier_of (reopened ic, cl) i = HDD_POOL"
  using init_score_map_lookup [of "ic_size ic div EXTENT_SIZE" HDD_STRIDE i]
  by (simp add: tier_of_def reopened_map whobbs_consts)

lemma reopened_content:
  "mig_image ic \<Longrightarrow> content (reopened ic, cl) y =
     obj_bytes (cl (data_ctx ic HDD_POOL) (extent_oid ic (y div EXTENT_SIZE))) (unat (x_offset (ic_layout ic) y))"
  by (simp add: content_extent [OF reopened_mig_image] reopened_tier)

lemma extent_in_range_div: "extent_in_range (y div EXTENT_SIZE)"
proof -
  have "unat y < 18446744073709551616" using unat_lt [of y] by simp
  then show ?thesis by (simp add: extent_in_range_def unat_div_u64 whobbs_consts less_mult_imp_div_less)
qed

lemma reopened_table_ok:
  assumes "ic_size ic div EXTENT_SIZE < 0x80000000"
  shows "table_ok (ic_extent_map (reopened ic))"
proof -
  note l = init_score_map_lookup [of "ic_size ic div EXTENT_SIZE" HDD_STRIDE]
  have ok: "em_ok (ic_extent_map (reopened ic))" "extent_size (ic_extent_map (reopened ic)) = EXTENT_SIZE"
    using l by (simp_all add: em_ok_def reopened_map) (simp add: whobbs_consts)
  have "value_range v \<and> extent_in_range i \<and> (v = 0 \<longrightarrow> map_size (ic_extent_map (reopened ic)) \<le> i)"
    if "map_of (em_map (ic_extent_map (reopened ic))) i = Some v" for i v
  proof -
    have v: "v = HDD_STRIDE" and i: "i < ic_size ic div EXTENT_SIZE"
      using that l [of i] by (auto simp: reopened_map split: if_splits)
    have "unat i < 0x80000000" using less_trans [OF i assms] by (simp add: word_less_nat_alt)
    then show ?thesis by (simp add: v value_range_def HDD_STRIDE_def SSD_STRIDE_def extent_in_range_def)
  qed
  moreover have "map_size (ic_extent_map (reopened ic)) \<le> i" if "map_of (em_map (ic_extent_map (reopened ic))) i = None" for i
    using that l [of i] by (simp add: reopened_map not_less split: if_splits)
  ultimately show ?thesis using ok assms by (simp add: table_ok_def) (simp add: reopened_map)
qed

lemma reopened_tiered:
  assumes "layout_plain (ic_layout ic)" "lo_os (ic_layout ic) = OBJECT_SIZE" "ic_hdd_id ic \<noteq> ic_ssd_id ic"
    "ic_size ic div EXTENT_SIZE < 0x80000000" "small_objects ic cl" "no_seqs cl"
  shows "tiered (reopened ic, cl) \<and> (\<forall>i. tier_of (reopened ic, cl) i = HDD_POOL)
    \<and> \<not> get_migrating (reopened ic)"
proof -
  have t: "table_ok (ic_extent_map (reopened ic))" by (rule reopened_table_ok [OF assms(4)])
  moreover have "mig_image (reopened ic)"
    using assms(1-3) t by (simp add: mig_image_def table_ok_def)
  moreover have "small_objects (reopened ic) cl" using assms(5) by (simp add: small_objects_def)
  ultimately show ?thesis using assms(6) by (simp add: tiered_def reopened_tier)
qed

text \<open>Opening establishes the invariant of the rounds, with every extent on the HDD pool - for any
  image of 4 MB objects below 2^53 bytes whose objects are no larger than that.\<close>

theorem open_establishes_tiered:
  assumes "layout_plain (ic_layout ic)" "lo_os (ic_layout ic) = OBJECT_SIZE" "ic_hdd_id ic \<noteq> ic_ssd_id ic"
    "ic_size ic div EXTENT_SIZE < 0x80000000" "small_objects ic cl" "no_seqs cl"
  shows "tiered (reopened ic, cl) \<and> (\<forall>i. tier_of (reopened ic, cl) i = HDD_POOL)
    \<and> \<not> get_migrating (reopened ic)"
  by (rule reopened_tiered [OF assms])

lemma open_establishes_tiered_witness:
  "tiered (reopened image_tiered, cluster_12) \<and> (\<forall>i. tier_of (reopened image_tiered, cluster_12) i = HDD_POOL)
    \<and> \<not> get_migrating (reopened image_tiered)"
proof (rule open_establishes_tiered)
  show "small_objects image_tiered cluster_12" "no_seqs cluster_12" using tiered_image by (simp_all add: tiered_def)
qed (simp_all add: image_tiered_def image_9M_def layout_plain_def whobbs_consts)

text \<open>C9. What is on the SSD pool is lost when the image is closed and opened: after a migration without
  faults to the SSD pool every byte is still there, and in the image opened again the bytes of the
  extent are all zero, because the table starts with every extent on the HDD pool.\<close>

theorem reopen_loses_ssd:
  assumes "tiered (ic, cl)" "quiet ev" "tier_of (ic, cl) i = HDD_POOL" "extent_in_range i"
  shows "\<exists>ic' cl'. do_concurrent_migrate ev i HDD_POOL SSD_POOL (ic, cl) = Some (ic', cl')
    \<and> content (ic', cl') = content (ic, cl)
    \<and> (\<forall>y. y div EXTENT_SIZE = i \<longrightarrow> content (reopened ic', cl') y = 0)"
proof -
  have tt: "HDD_POOL \<in> tiers" "SSD_POOL \<in> tiers" "HDD_POOL \<noteq> SSD_POOL" by (simp_all add: tiers_def whobbs_consts)
  have mi: "mig_image ic" using assms(1) by (simp add: tiered_def)
  obtain ic' cl' where m: "do_concurrent_migrate ev i HDD_POOL SSD_POOL (ic, cl) = Some (ic', cl')"
    "mig_state (ic', cl')" "content (ic', cl') = content (ic, cl)" "cl' (data_ctx ic HDD_POOL) (extent_oid ic i) = None"
    using migrate_keeps [OF tiered_mig_state [OF assms(1)] assms(2,4) tt assms(3)] by blast
  have ic': "ic' = set_extent i SSD_STRIDE ic"
    using m(1) tt(3) migrate_run [OF mi assms(4), of ev HDD_POOL SSD_POOL cl] by (simp add: Let_def)
  have "content (reopened ic', cl') y = 0" if "y div EXTENT_SIZE = i" for y
  proof -
    have "mig_image (set_extent i SSD_STRIDE ic)" using m(2) by (simp add: mig_state_def ic')
    then show ?thesis using m(4) by (simp add: reopened_content that ic' byte_at_nil)
  qed
  then show ?thesis using m(1,3) by blast
qed

lemma reopen_loses_ssd_witness:
  "content (image_tiered, cluster_12) 0 = 1 \<and>
    (\<exists>ic' cl'. do_concurrent_migrate quiet_env 0 HDD_POOL SSD_POOL (image_tiered, cluster_12) = Some (ic', cl')
      \<and> content (ic', cl') 0 = 1 \<and> content (reopened ic', cl') 0 = 0)"
proof -
  have c: "content (image_tiered, cluster_12) 0 = 1"
    by (simp add: content_def image_byte_def image_tiered_def image_9M_def em_tier_def data_ctx_def
      cluster_12_def whobbs_consts x_offset_def stripeno_def blockno_def block_off_def stripes_per_object_def byte_at_def)
  have t: "tier_of (image_tiered, cluster_12) 0 = HDD_POOL" "extent_in_range 0"
    by (simp_all add: tier_of_def image_tiered_def extent_in_range_def whobbs_consts)
  have "(0 :: u64) div EXTENT_SIZE = 0" by (simp add: whobbs_consts)
  then show ?thesis using reopen_loses_ssd [OF tiered_image quiet_env_quiet t] c by fastforce
qed




end
