(* ===== verification/Simulation.thy ===== *)
theory Simulation
  imports Main
begin

text \<open>
  What a step of an implementation owes to a step of a specification: whenever the two states are
  related and the operation is allowed, the implementation returns, with the result of the
  specification, in a state related to the new one of the specification. The locale carries this
  from single operations to sequences. It is interpreted on the tiered image (\<open>Tiered_Disk\<close>), on
  the header object of an image (\<open>Cls_Header_Spec\<close>) and on the directory (\<open>Cls_Directory\<close>).
\<close>

locale simulation =
  fixes rel :: "'s \<Rightarrow> 'a \<Rightarrow> bool" and ok :: "'o \<Rightarrow> 's \<Rightarrow> bool"
    and conc :: "'o \<Rightarrow> 's \<Rightarrow> ('r \<times> 's) option" and spec :: "'o \<Rightarrow> 'a \<Rightarrow> 'r \<times> 'a"
  assumes step: "rel s a \<Longrightarrow> ok x s \<Longrightarrow>
      \<exists>r s' a'. conc x s = Some (r, s') \<and> spec x a = (r, a') \<and> rel s' a'"
    and ok_stable: "rel s a \<Longrightarrow> ok x s \<Longrightarrow> conc x s = Some (r, s') \<Longrightarrow> ok y s \<Longrightarrow> ok y s'"
begin

fun conc_run :: "'o list \<Rightarrow> 's \<Rightarrow> ('r list \<times> 's) option" where
  "conc_run [] s = Some ([], s)"
| "conc_run (x # xs) s = (case conc x s of None \<Rightarrow> None
     | Some (r, s1) \<Rightarrow> map_option (\<lambda>(rs, s2). (r # rs, s2)) (conc_run xs s1))"

fun spec_run :: "'o list \<Rightarrow> 'a \<Rightarrow> 'r list \<times> 'a" where
  "spec_run [] a = ([], a)"
| "spec_run (x # xs) a = (let (r, a1) = spec x a; (rs, a2) = spec_run xs a1 in (r # rs, a2))"

lemma runs:
  "rel s a \<Longrightarrow> \<forall>x \<in> set xs. ok x s \<Longrightarrow>
    \<exists>rs s' a'. conc_run xs s = Some (rs, s') \<and> spec_run xs a = (rs, a') \<and> rel s' a'"
proof (induction xs arbitrary: s a)
  case Nil
  then show ?case by simp
next
  case (Cons x xs)
  obtain r s1 a1 where 1: "conc x s = Some (r, s1)" "spec x a = (r, a1)" "rel s1 a1"
    using step [OF Cons.prems(1), of x] Cons.prems(2) by (meson list.set_intros(1))
  have "\<forall>y \<in> set xs. ok y s1" using ok_stable [OF Cons.prems(1) _ 1(1)] Cons.prems(2) by auto
  then obtain rs s' a' where "conc_run xs s1 = Some (rs, s')" "spec_run xs a1 = (rs, a')" "rel s' a'"
    using Cons.IH [OF 1(3)] by blast
  then show ?case using 1 by auto
qed

text \<open>What the specification keeps, every run of the implementation keeps.\<close>

lemma invariant:
  assumes "\<And>x a r a'. P a \<Longrightarrow> spec x a = (r, a') \<Longrightarrow> P a'" "P a" "spec_run xs a = (rs, a')"
  shows "P a'"
  using assms(2,3)
proof (induction xs arbitrary: a rs)
  case Nil
  then show ?case by simp
next
  case (Cons x xs)
  obtain r a1 where 1: "spec x a = (r, a1)" by (cases "spec x a")
  obtain rs1 where "spec_run xs a1 = (rs1, a')"
    using Cons.prems(2) 1 by (cases "spec_run xs a1") auto
  then show ?case using Cons.IH assms(1) [OF Cons.prems(1) 1] by blast
qed

end

end
