(* ===== verification/Tiered_Disk.thy ===== *)
theory Tiered_Disk
  imports Tiering Simulation
begin

text \<open>
  The contract of the tiered image: it is a disk. The image under synchronous writes, reads and
  rounds of the analyzer (\<open>exec_op\<close>) is a simulation (\<open>Simulation\<close>) of a flat array of bytes (\<open>flat_op\<close>), in which
  a round does nothing. So no sequence of operations can tell where an extent lives.
\<close>

subsection \<open>Operations of a disk\<close>

datatype disk_op = WriteOp u64 bytes | ReadOp u64 u64 | RoundOp "nat \<Rightarrow> bool"
datatype disk_out = Wrote int | Got int bytes | Idle

fun flat_op :: "disk_op \<Rightarrow> (u64 \<Rightarrow> u8) \<Rightarrow> disk_out \<times> (u64 \<Rightarrow> u8)" where
  "flat_op (WriteOp off d) f = (Wrote (int (length d)),
     \<lambda>y. if unat off \<le> unat y \<and> unat y < unat off + length d then d ! (unat y - unat off) else f y)"
| "flat_op (ReadOp off len) f = (Got (int (unat len)) (map (\<lambda>i. f (off + of_nat i)) [0..<unat len]), f)"
| "flat_op (RoundOp stop) f = (Idle, f)"

fun exec_op :: "disk_op \<Rightarrow> mig_run \<Rightarrow> (disk_out \<times> mig_run) option" where
  "exec_op (WriteOp off d) (ev, ic, cl) =
     map_option (\<lambda>(r, cl', ic', _). (Wrote r, ev, ic', cl')) (image_write ev cl ic off (of_nat (length d)) d [])"
| "exec_op (ReadOp off len) (ev, ic, cl) =
     map_option (\<lambda>(r, bl, ic', _). (Got r bl, ev, ic', cl)) (image_read ev cl ic [(off, len)] [])"
| "exec_op (RoundOp stop) (ev, ic, cl) =
     map_option (\<lambda>(_, ic', cl'). (Idle, ev, ic', cl')) (handle_round ev stop (ic, cl))"

text \<open>Operations inside the image; a single read stays below 2^31 bytes.\<close>

fun op_ok :: "disk_op \<Rightarrow> u64 \<Rightarrow> bool" where
  "op_ok (WriteOp off d) n = (d \<noteq> [] \<and> unat off + length d \<le> unat n)"
| "op_ok (ReadOp off len) n = (len \<noteq> 0 \<and> unat off + unat len \<le> unat n \<and> unat len < 2147483648)"
| "op_ok (RoundOp stop) n = True"

text \<open>An image that can be written: no snapshot, no parent, up to date.\<close>

definition serving :: "ImageCtx \<Rightarrow> bool" where
  "serving ic \<longleftrightarrow> ic_snap_id ic = CEPH_NOSNAP \<and> ic_snap_exists ic \<and> \<not> ic_read_only ic
     \<and> ic_last_refresh ic = ic_refresh_seq ic \<and> pi_overlap (ic_parent_md ic) = 0"

definition disk_inv :: "mig_run \<Rightarrow> bool" where
  "disk_inv s \<longleftrightarrow> quiet (fst s) \<and> tiered (snd s) \<and> serving (fst (snd s))"

lemma serving_rest: "rest ic' = rest ic \<Longrightarrow> serving ic' = serving ic"
proof -
  assume r: "rest ic' = rest ic"
  have "serving (rest ic) = serving ic" for ic by (simp add: serving_def rest_def)
  then show ?thesis using r by metis
qed

lemma size_rest: "rest ic' = rest ic \<Longrightarrow> ic_size ic' = ic_size ic"
proof -
  assume r: "rest ic' = rest ic"
  have "ic_size (rest ic) = ic_size ic" for ic by (simp add: rest_def)
  then show ?thesis using r by metis
qed

lemma clip_inside:
  assumes "serving ic" "len \<noteq> 0" "unat off + unat len \<le> unat (ic_size ic)"
  shows "clip_io ic off len = (0, len)"
proof -
  have "0 < unat len" using assms(2) unfolding unat_pos_u64 .
  then have "\<not> ic_size ic \<le> off" using assms(3) by (simp add: word_le_nat_alt)
  moreover have "unat (off + len) = unat off + unat len" using unat_add_bound [OF assms(3)] .
  then have "\<not> ic_size ic < off + len" using assms(3) by (simp add: word_less_nat_alt)
  ultimately show ?thesis using assms(1,2) by (simp add: clip_io_def serving_def get_image_size_def)
qed

lemma tiered_image_ok:
  assumes "tiered (ic, cl)" "serving ic"
  shows "image_ok ic"
proof -
  have mi: "mig_image ic" and tok: "table_ok (ic_extent_map ic)" using assms(1) by (simp_all add: tiered_def)
  have l: "layout_plain (ic_layout ic)" "lo_os (ic_layout ic) = OBJECT_SIZE" using mi by (simp_all add: mig_image_def)
  have "tiers_by_object ic"
    using plain_tiers_by_object [OF l(1)] mi by (simp add: mig_image_def EXTENT_SIZE_def)
  moreover have "unat (lo_os (ic_layout ic)) < 2147483648" by (simp add: l(2) OBJECT_SIZE_def)
  ultimately show ?thesis
    using layout_exact_ok [OF layout_plain_exact [OF l(1)]] table_ok_settled [OF tok] assms(2)
    by (simp add: image_ok_def serving_def)
qed

lemma table_ok_padded:
  assumes "table_ok em" "same_tiers em em'"
  shows "table_ok em'"
proof -
  have z: "zero_padded em em'" and ok: "em_ok em'" using assms(2) by (auto simp: same_tiers_def settled_def)
  have "value_range v \<and> extent_in_range i \<and> (v = 0 \<longrightarrow> map_size em \<le> i)" if "map_of (em_map em') i = Some v" for i v
  proof -
    have e: "map_of (em_map em') i = map_of (em_map em) i
        \<or> map_of (em_map em) i = None \<and> map_of (em_map em') i = Some 0 \<and> (\<exists>x. i = x div extent_size em)"
      using z unfolding zero_padded_def by blast
    show ?thesis
    proof (cases "map_of (em_map em) i")
      case None
      have "v = 0 \<and> (\<exists>x. i = x div extent_size em)" using e unfolding that None by simp
      moreover have "extent_size em = EXTENT_SIZE" using assms(1) by (simp add: table_ok_def)
      ultimately obtain x where "v = 0" "i = x div EXTENT_SIZE" by auto
      moreover have "map_size em \<le> i" using None assms(1) by (simp add: table_ok_def)
      ultimately show ?thesis
        using extent_in_range_div [of x] by (simp add: value_range_def HDD_STRIDE_def SSD_STRIDE_def)
    next
      case (Some w)
      then have "map_of (em_map em) i = Some v" using e that by auto
      then show ?thesis using assms(1) unfolding table_ok_def by blast
    qed
  qed
  moreover have "map_size em \<le> i" if "map_of (em_map em') i = None" for i
    using z assms(1) that unfolding zero_padded_def table_ok_def by (metis option.distinct(1))
  ultimately show ?thesis using assms(1) z ok by (simp add: table_ok_def zero_padded_def)
qed

text \<open>The three operations, one by one.\<close>

lemma after_update:
  assumes "tiered (ic, cl)" "same_tiers (ic_extent_map ic) em"
    "ic' = ic\<lparr>ic_extent_map := em, ic_analyzer := an\<rparr>" "small_objects ic cl'" "no_seqs cl'"
  shows "tiered (ic', cl')" "rest ic' = rest ic" "content (ic', cl') = image_byte ic cl'"
proof -
  have tok: "table_ok em"
    using table_ok_padded [OF _ assms(2)] assms(1) by (simp add: tiered_def)
  have up: "ic\<lparr>ic_extent_map := em, ic_analyzer := an, ic_migrating := ic_migrating ic\<rparr> = ic'"
    unfolding assms(3) by simp
  have et: "\<forall>y. em_tier em y = em_tier (ic_extent_map ic) y"
    using assms(2) by (simp add: same_tiers_def)
  have "tiered (ic, cl')" using assms(1,4,5) by (simp add: tiered_def)
  note u = tiered_update [OF this tok et, where an = an and b = "ic_migrating ic", unfolded up]
  show "tiered (ic', cl')" by (rule u(1))
  show "content (ic', cl') = image_byte ic cl'" unfolding u(2) by (simp add: content_def)
  show "rest ic' = rest ic" unfolding assms(3) by simp
qed

lemma wrote_small:
  assumes "mig_image ic" "small_objects ic cl" "wrote ic off buf be cl cl'"
  shows "small_objects ic cl'"
  unfolding small_objects_def
proof (intro allI impI)
  fix pid i ob
  assume o: "cl' pid (extent_oid ic i) = Some ob"
  have "unat (lo_os (ic_layout ic)) = 4194304" using assms(1) by (simp add: mig_image_def OBJECT_SIZE_def)
  then have "cl pid (extent_oid ic i) = Some ob \<or> grown 4194304 (cl pid (extent_oid ic i)) ob"
    using assms(3) o unfolding wrote_def by metis
  then show "length (od_data ob) \<le> 4194304 \<and> od_watchers ob = 0"
    using assms(2) by (cases "cl pid (extent_oid ic i)") (auto simp: small_objects_def grown_def)
qed

lemma exec_write:
  assumes "disk_inv (ev, ic, cl)" "op_ok (WriteOp off d) (ic_size ic)"
  shows "\<exists>r s'. exec_op (WriteOp off d) (ev, ic, cl) = Some (r, s') \<and> disk_inv s' \<and> rest (fst (snd s')) = rest ic
    \<and> flat_op (WriteOp off d) (content (ic, cl)) = (r, content (snd s'))"
proof -
  let ?n = "of_nat (length d) :: u64"
  have i: "quiet ev" "tiered (ic, cl)" "serving ic" using assms(1) by (simp_all add: disk_inv_def)
  have "length d < 18446744073709551616"
    using assms(2) unat_lt_u64 [of "ic_size ic"] unfolding op_ok.simps by linarith
  then have len: "unat ?n = length d" by (intro length_word) simp
  have fit: "unat off + unat ?n \<le> unat (ic_size ic)" and n0: "?n \<noteq> 0"
    using assms(2) len by (simp_all add: unat_pos_u64)
  have lt: "unat off + unat ?n < 2 ^ 64" using fit unat_lt [of "ic_size ic"] by (simp add: le_less_trans)
  have sv: "get_parent_overlap ic (ic_snap_id ic) = Some 0" "ic_snap_id ic = CEPH_NOSNAP" "\<not> ic_read_only ic"
    using i(3) by (simp_all add: serving_def get_parent_overlap_def)
  have ns: "no_seqs cl" using i(2) by (simp add: tiered_def)
  obtain cl' ic' be an where w: "image_write ev cl ic off ?n d [] = Some (int (unat ?n), cl', ic', [])"
    "same_tiers (ic_extent_map ic) (ic_extent_map ic')" "ic' = ic\<lparr>ic_extent_map := ic_extent_map ic', ic_analyzer := an\<rparr>"
    "wrote ic off d be cl cl'"
    "\<forall>y. image_byte ic cl' y = (if unat off \<le> unat y \<and> unat y < unat off + unat ?n then d ! (unat y - unat off)
       else image_byte ic cl y)"
    using image_write_run [OF tiered_image_ok [OF i(2,3)] i(1) ns sv clip_inside [OF i(3) n0 fit] n0 lt, of d "[]"] len
    by (metis order_refl)
  have "small_objects ic cl'" "no_seqs cl'"
    using wrote_small [OF _ _ w(4)] i(2) w(4) by (simp_all add: tiered_def) (simp add: wrote_def)
  note a = after_update [OF i(2) w(2,3) this]
  have "exec_op (WriteOp off d) (ev, ic, cl) = Some (Wrote (int (unat ?n)), ev, ic', cl')"
    using w(1) by simp
  moreover have "disk_inv (ev, ic', cl')" using i(1,3) a(1) serving_rest [OF a(2)] by (simp add: disk_inv_def)
  moreover have "flat_op (WriteOp off d) (content (ic, cl)) = (Wrote (int (unat ?n)), content (ic', cl'))"
    using w(5) len unfolding a(3) by (simp add: content_def fun_eq_iff)
  ultimately show ?thesis using a(2) by (intro exI conjI) (assumption | simp)+
qed

lemma exec_read:
  assumes "disk_inv (ev, ic, cl)" "op_ok (ReadOp off len) (ic_size ic)"
  shows "\<exists>r s'. exec_op (ReadOp off len) (ev, ic, cl) = Some (r, s') \<and> disk_inv s' \<and> rest (fst (snd s')) = rest ic
    \<and> flat_op (ReadOp off len) (content (ic, cl)) = (r, content (snd s'))"
proof -
  have i: "quiet ev" "tiered (ic, cl)" "serving ic" using assms(1) by (simp_all add: disk_inv_def)
  have fit: "unat off + unat len \<le> unat (ic_size ic)" and n: "len \<noteq> 0" "unat len < 2147483648"
    using assms(2) by simp_all
  have lt: "unat off + unat len < 2 ^ 64" using fit unat_lt [of "ic_size ic"] by (simp add: le_less_trans)
  have ov: "get_parent_overlap ic (ic_snap_id ic) = Some 0"
    using i(3) by (simp add: serving_def get_parent_overlap_def)
  obtain bl ic' an where r: "image_read ev cl ic [(off, len)] [] = Some (int (unat len), bl, ic', [])"
    "length bl = unat len" "\<forall>k < unat len. bl ! k = image_byte ic cl (off + of_nat k)"
    "same_tiers (ic_extent_map ic) (ic_extent_map ic')" "ic' = ic\<lparr>ic_extent_map := ic_extent_map ic', ic_analyzer := an\<rparr>"
    using image_read_run [OF tiered_image_ok [OF i(2,3)] i(1) ov clip_inside [OF i(3) n(1) fit] n(1) lt n(2), of cl "[]"]
    by blast
  have "small_objects ic cl" "no_seqs cl" using i(2) by (simp_all add: tiered_def)
  note a = after_update [OF i(2) r(4,5) this]
  have bl: "bl = map (\<lambda>k. content (ic, cl) (off + of_nat k)) [0..<unat len]"
    by (rule nth_equalityI) (simp_all add: r(2,3) content_def)
  have "exec_op (ReadOp off len) (ev, ic, cl) = Some (Got (int (unat len)) bl, ev, ic', cl)"
    using r(1) by simp
  moreover have "disk_inv (ev, ic', cl)" using i(1,3) a(1) serving_rest [OF a(2)] by (simp add: disk_inv_def)
  moreover have "content (ic', cl) = content (ic, cl)" unfolding a(3) by (simp add: content_def)
  then have "flat_op (ReadOp off len) (content (ic, cl)) = (Got (int (unat len)) bl, content (ic', cl))"
    unfolding bl by simp
  ultimately show ?thesis using a(2)
    by (intro exI [of _ "Got (int (unat len)) bl"] exI [of _ "(ev, ic', cl)"] conjI) (simp_all only: fst_conv snd_conv)
qed

lemma exec_round:
  assumes "disk_inv (ev, ic, cl)"
  shows "\<exists>r s'. exec_op (RoundOp stop) (ev, ic, cl) = Some (r, s') \<and> disk_inv s' \<and> rest (fst (snd s')) = rest ic
    \<and> flat_op (RoundOp stop) (content (ic, cl)) = (r, content (snd s'))"
proof -
  have i: "quiet ev" "tiered (ic, cl)" "serving ic" using assms by (simp_all add: disk_inv_def)
  obtain k ic' cl' where h: "handle_round ev stop (ic, cl) = Some (k, ic', cl')" "tiered (ic', cl')"
    "content (ic', cl') = content (ic, cl)" "rest ic' = rest ic"
    using handle_run [OF i(2,1), of stop] by blast
  then show ?thesis using i serving_rest [OF h(4)] by (simp add: disk_inv_def)
qed

lemma exec_step:
  assumes "disk_inv s" "op_ok x (ic_size (fst (snd s)))"
  shows "\<exists>r s'. exec_op x s = Some (r, s') \<and> disk_inv s' \<and> rest (fst (snd s')) = rest (fst (snd s))
    \<and> flat_op x (content (snd s)) = (r, content (snd s'))"
proof -
  obtain ev ic cl where s: "s = (ev, ic, cl)" by (cases s)
  note a = assms [unfolded s fst_conv snd_conv]
  show ?thesis
  proof (cases x)
    case (WriteOp off d)
    then show ?thesis using exec_write [OF a(1), of off d] a(2) unfolding s fst_conv snd_conv by blast
  next
    case (ReadOp off len)
    then show ?thesis using exec_read [OF a(1), of off len] a(2) unfolding s fst_conv snd_conv by blast
  next
    case (RoundOp stop)
    then show ?thesis using exec_round [OF a(1), of stop] unfolding s fst_conv snd_conv by blast
  qed
qed

interpretation disk: simulation "\<lambda>s f. disk_inv s \<and> content (snd s) = f"
  "\<lambda>x s. op_ok x (ic_size (fst (snd s)))" exec_op flat_op
proof (unfold_locales, goal_cases)
  case (1 s f x)
  then show ?case using exec_step [of s x] by blast
next
  case (2 s f x r s' y)
  then have "rest (fst (snd s')) = rest (fst (snd s))" using exec_step [of s x] by fastforce
  then show ?case using 2(4) size_rest by metis
qed

text \<open>Runs of a list of operations: on the image, and on the flat array.\<close>

fun exec_ops :: "disk_op list \<Rightarrow> mig_run \<Rightarrow> (disk_out list \<times> mig_run) option" where
  "exec_ops [] s = Some ([], s)"
| "exec_ops (x # xs) s = (case exec_op x s of None \<Rightarrow> None
     | Some (r, s1) \<Rightarrow> map_option (\<lambda>(rs, s2). (r # rs, s2)) (exec_ops xs s1))"

fun flat_ops :: "disk_op list \<Rightarrow> (u64 \<Rightarrow> u8) \<Rightarrow> disk_out list \<times> (u64 \<Rightarrow> u8)" where
  "flat_ops [] f = ([], f)"
| "flat_ops (x # xs) f = (let (r, f1) = flat_op x f; (rs, f2) = flat_ops xs f1 in (r # rs, f2))"

lemma exec_ops_run: "exec_ops xs s = disk.conc_run xs s"
  by (induction xs arbitrary: s) (simp_all add: disk.conc_run.simps split: option.split)

lemma flat_ops_run: "flat_ops xs f = disk.spec_run xs f"
  by (induction xs arbitrary: f) (simp_all add: disk.spec_run.simps)

text \<open>C1. The tiered image is a disk. From any image under the invariant, every sequence of synchronous
  writes and reads inside the image and of rounds of the analyzer, with no failing operation, runs to
  its end; every read returns what the same sequence returns on a flat array of bytes on which the
  rounds do nothing, and the content afterwards is that of the array.\<close>

theorem tiered_refines_flat:
  assumes "disk_inv s" "\<forall>x \<in> set xs. op_ok x (ic_size (fst (snd s)))"
  shows "\<exists>rs s'. exec_ops xs s = Some (rs, s') \<and> disk_inv s' \<and> flat_ops xs (content (snd s)) = (rs, content (snd s'))"
  unfolding exec_ops_run flat_ops_run
  using disk.runs [of s "content (snd s)" xs] assms by blast

lemma disk_inv_image: "disk_inv (quiet_env, image_tiered, cluster_12)"
  using tiered_image quiet_env_quiet
  by (simp add: disk_inv_def) (simp add: serving_def image_tiered_def image_9M_def no_parent_def)

lemma tiered_refines_flat_witness:
  "\<exists>r1 r2 s'. exec_ops [WriteOp 4194303 [7, 8], RoundOp (\<lambda>_. False), ReadOp 4194303 2] (quiet_env, image_tiered, cluster_12)
      = Some ([r1, r2, Got 2 [7, 8]], s')"
proof -
  let ?xs = "[WriteOp 4194303 [7, 8], RoundOp (\<lambda>_. False), ReadOp 4194303 2]"
  have "ic_size image_tiered = 9000000" by (simp add: image_tiered_def image_9M_def)
  then have "\<forall>x \<in> set ?xs. op_ok x (ic_size (fst (snd (quiet_env, image_tiered, cluster_12))))" by simp
  then obtain rs s' where r: "exec_ops ?xs (quiet_env, image_tiered, cluster_12) = Some (rs, s')"
    "flat_ops ?xs (content (image_tiered, cluster_12)) = (rs, content (snd s'))"
    using tiered_refines_flat [OF disk_inv_image, of ?xs] by (metis snd_conv)
  have two: "[0..<2] = [0, 1 :: nat]" by (simp add: upt_rec)
  have "rs = [Wrote 2, Idle, Got 2 [7, 8]]" using r(2) by (simp add: two)
  then show ?thesis using r(1) by blast
qed

end
