(* ===== verification/Migration_Race.thy ===== *)
theory Migration_Race
  imports Tiering
begin

text \<open>
  A migration and the writers that run beside it, as a step relation over one extent: a writer looks up
  the pool (\<open>aio_write\<close>, waiting while the extent is marked), sends its write to that pool, and
  is acknowledged when the object has it; the migrater (\<open>do_concurrent_migrate\<close>) marks the
  extent, waits for the writes that are in flight to the old pool at that moment, reads, writes, changes
  the table and removes. The ghost field \<open>mr_expect\<close> collects the acknowledged writes. Lemmas: in a run
  in which no writer stands between its lookup and its send while the migrater flushes, no acknowledged
  write is ever lost; in another run of the same steps, one is.
\<close>

subsection \<open>The program\<close>

datatype wphase = WStart | WPool int | WSent int | WAcked

datatype mphase =
    MIdle
  | MMarked int int
  | MFlushing int int "nat set"
  | MFlushed int int
  | MRead int int bytes
  | MWritten int int
  | MTabled int int

record race =
  mr_em :: ExtentMap
  mr_obj :: "int \<Rightarrow> bytes option"
  mr_writers :: "nat \<Rightarrow> (wphase \<times> nat \<times> bytes) option"
  mr_mig :: mphase
  mr_expect :: "nat \<Rightarrow> u8"

definition mark_of :: "int \<Rightarrow> int" where
  "mark_of to_pool = (if to_pool = SSD_POOL then MIGRATING_TO_SSD else MIGRATING_TO_HDD)"

definition stride_of :: "int \<Rightarrow> int" where
  "stride_of to_pool = (if to_pool = HDD_POOL then HDD_STRIDE else SSD_STRIDE)"

definition set_entry :: "u64 \<Rightarrow> int \<Rightarrow> ExtentMap \<Rightarrow> ExtentMap" where
  "set_entry i v em = em\<lparr>em_map := smap_put i v (em_map em)\<rparr>"

definition stored :: "race \<Rightarrow> int \<Rightarrow> bytes" where
  "stored s p = the_default [] (mr_obj s p)"

inductive race_step :: "u64 \<Rightarrow> race \<Rightarrow> race \<Rightarrow> bool" for i where
  w_new: "mr_writers s k = None \<Longrightarrow> off + length d \<le> 4194304 \<Longrightarrow>
    race_step i s (s\<lparr>mr_writers := (mr_writers s)(k \<mapsto> (WStart, off, d))\<rparr>)"
| w_look: "mr_writers s k = Some (WStart, off, d) \<Longrightarrow> get_pool (mr_em s) (i * EXTENT_SIZE) = Some (p, em) \<Longrightarrow>
    p \<noteq> MIGRATING_TO_SSD \<Longrightarrow> p \<noteq> MIGRATING_TO_HDD \<Longrightarrow>
    race_step i s (s\<lparr>mr_em := em, mr_writers := (mr_writers s)(k \<mapsto> (WPool p, off, d))\<rparr>)"
| w_send: "mr_writers s k = Some (WPool p, off, d) \<Longrightarrow>
    race_step i s (s\<lparr>mr_writers := (mr_writers s)(k \<mapsto> (WSent p, off, d))\<rparr>)"
| w_ack: "mr_writers s k = Some (WSent p, off, d) \<Longrightarrow>
    race_step i s (s\<lparr>mr_writers := (mr_writers s)(k \<mapsto> (WAcked, off, d)),
      mr_obj := (mr_obj s)(p \<mapsto> file_write off d (stored s p)),
      mr_expect := (\<lambda>y. if off \<le> y \<and> y < off + length d then d ! (y - off) else mr_expect s y)\<rparr>)"
| m_mark: "mr_mig s = MIdle \<Longrightarrow> get_pool (mr_em s) (i * EXTENT_SIZE) = Some (a, em) \<Longrightarrow> a \<in> tiers \<Longrightarrow> b \<in> tiers \<Longrightarrow>
    a \<noteq> b \<Longrightarrow>
    race_step i s (s\<lparr>mr_em := set_entry i (mark_of b) (mr_em s), mr_mig := MMarked a b\<rparr>)"
| m_flush: "mr_mig s = MMarked a b \<Longrightarrow>
    race_step i s (s\<lparr>mr_mig := MFlushing a b {k. \<exists>off d. mr_writers s k = Some (WSent a, off, d)}\<rparr>)"
| m_flushed: "mr_mig s = MFlushing a b F \<Longrightarrow> \<forall>k \<in> F. \<forall>off d. mr_writers s k \<noteq> Some (WSent a, off, d) \<Longrightarrow>
    race_step i s (s\<lparr>mr_mig := MFlushed a b\<rparr>)"
| m_read: "mr_mig s = MFlushed a b \<Longrightarrow>
    race_step i s (s\<lparr>mr_mig := MRead a b (file_read 0 4194304 (stored s a))\<rparr>)"
| m_write: "mr_mig s = MRead a b d \<Longrightarrow>
    race_step i s (s\<lparr>mr_obj := (mr_obj s)(b \<mapsto> d), mr_mig := MWritten a b\<rparr>)"
| m_table: "mr_mig s = MWritten a b \<Longrightarrow>
    race_step i s (s\<lparr>mr_em := set_entry i (stride_of b) (mr_em s), mr_mig := MTabled a b\<rparr>)"
| m_remove: "mr_mig s = MTabled a b \<Longrightarrow>
    race_step i s (s\<lparr>mr_obj := (mr_obj s)(a := None), mr_mig := MIdle\<rparr>)"

text \<open>A run, with the states it passes through, in their order.\<close>

inductive race_run :: "u64 \<Rightarrow> race \<Rightarrow> race list \<Rightarrow> race \<Rightarrow> bool" for i s0 where
  r_start: "race_run i s0 [] s0"
| r_step: "race_run i s0 ts s \<Longrightarrow> race_step i s s' \<Longrightarrow> race_run i s0 (ts @ [s']) s'"

subsection \<open>The invariant\<close>

definition entry :: "race \<Rightarrow> u64 \<Rightarrow> int option" where
  "entry s i = map_of (em_map (mr_em s)) i"

text \<open>The pools that writers have chosen and not yet written to.\<close>

definition chosen :: "race \<Rightarrow> int set" where
  "chosen s = {p. \<exists>k off d. mr_writers s k = Some (WPool p, off, d) \<or> mr_writers s k = Some (WSent p, off, d)}"

definition unsent :: "race \<Rightarrow> bool" where
  "unsent s \<longleftrightarrow> (\<exists>k p off d. mr_writers s k = Some (WPool p, off, d))"

definition holds :: "race \<Rightarrow> int \<Rightarrow> bool" where
  "holds s p \<longleftrightarrow> (\<forall>y. byte_at (stored s p) y = mr_expect s y)"

text \<open>The migrater waits for the writes it found in flight.\<close>

definition flushing :: "race \<Rightarrow> bool" where
  "flushing s \<longleftrightarrow> (\<exists>a b F. mr_mig s = MFlushing a b F)"

definition home :: "int \<Rightarrow> int" where
  "home v = (if 0 < v then SSD_POOL else HDD_POOL)"

definition phase_inv :: "u64 \<Rightarrow> race \<Rightarrow> bool" where
  "phase_inv i s = (case mr_mig s of
     MIdle \<Rightarrow> (\<exists>v. entry s i = Some v \<and> \<bar>v\<bar> \<noteq> 999 \<and> holds s (home v) \<and> chosen s \<subseteq> {home v})
   | MMarked a b \<Rightarrow> a \<noteq> b \<and> b \<in> tiers \<and> entry s i = Some (mark_of b) \<and> holds s a \<and> chosen s \<subseteq> {a}
   | MFlushing a b F \<Rightarrow> a \<noteq> b \<and> b \<in> tiers \<and> entry s i = Some (mark_of b) \<and> holds s a \<and> chosen s \<subseteq> {a} \<and> \<not> unsent s
       \<and> (\<forall>k off d. mr_writers s k = Some (WSent a, off, d) \<longrightarrow> k \<in> F)
   | MFlushed a b \<Rightarrow> a \<noteq> b \<and> b \<in> tiers \<and> entry s i = Some (mark_of b) \<and> holds s a \<and> chosen s = {}
   | MRead a b d \<Rightarrow> a \<noteq> b \<and> b \<in> tiers \<and> entry s i = Some (mark_of b) \<and> chosen s = {} \<and> (\<forall>y. byte_at d y = mr_expect s y)
       \<and> length d \<le> 4194304
   | MWritten a b \<Rightarrow> a \<noteq> b \<and> b \<in> tiers \<and> entry s i = Some (mark_of b) \<and> chosen s = {} \<and> holds s b
   | MTabled a b \<Rightarrow> a \<noteq> b \<and> b \<in> tiers \<and> entry s i = Some (stride_of b) \<and> holds s b \<and> chosen s \<subseteq> {b})"

definition race_inv :: "u64 \<Rightarrow> race \<Rightarrow> bool" where
  "race_inv i s \<longleftrightarrow> extent_size (mr_em s) = EXTENT_SIZE \<and> extent_in_range i
     \<and> (\<forall>p. length (stored s p) \<le> 4194304)
     \<and> (\<forall>k w off d. mr_writers s k = Some (w, off, d) \<longrightarrow> off + length d \<le> 4194304)
     \<and> phase_inv i s"

lemma extent_back: "extent_in_range i \<Longrightarrow> i * EXTENT_SIZE div EXTENT_SIZE = i"
proof (rule u64_eqI)
  assume "extent_in_range i"
  then show "unat (i * EXTENT_SIZE div EXTENT_SIZE) = unat i"
    using extent_off [of i] unfolding unat_div_u64 EXTENT_SIZE_def by (simp add: OBJECT_SIZE_def)
qed

lemma race_pool:
  assumes "race_inv i s" "entry s i = Some v" "get_pool (mr_em s) (i * EXTENT_SIZE) = Some (p, em)"
  shows "em = mr_em s" "p = (if \<bar>v\<bar> = 999 then v else home v)"
proof -
  have e: "extent_size (mr_em s) = EXTENT_SIZE" "i * EXTENT_SIZE div extent_size (mr_em s) = i"
    using assms(1) extent_back by (simp_all add: race_inv_def)
  have "extent_size (mr_em s) \<noteq> 0" by (simp add: e(1) whobbs_consts)
  from get_pool_known [OF this, of "i * EXTENT_SIZE" v, unfolded e(2)] assms(2,3)
  show "em = mr_em s" "p = (if \<bar>v\<bar> = 999 then v else home v)"
    by (auto simp: entry_def home_def whobbs_consts abs_if split: if_splits)
qed

lemma marks: "\<bar>mark_of b\<bar> = 999" "\<bar>stride_of b\<bar> \<noteq> 999" "b \<in> tiers \<Longrightarrow> home (stride_of b) = b"
  by (auto simp: mark_of_def stride_of_def home_def tiers_def whobbs_consts)

lemma marked_no_look:
  assumes "race_inv i s" "entry s i = Some (mark_of b)" "get_pool (mr_em s) (i * EXTENT_SIZE) = Some (p, em)"
  shows "p = MIGRATING_TO_SSD \<or> p = MIGRATING_TO_HDD"
  using race_pool(2) [OF assms] marks(1) [of b] by (auto simp: mark_of_def split: if_splits)

lemma entry_set: "entry (s\<lparr>mr_em := set_entry i v (mr_em s), mr_mig := m\<rparr>) i = Some v"
  by (simp add: entry_def set_entry_def)

text \<open>Steps of writers: how they change what the invariant speaks about.\<close>

lemma writer_upd:
  assumes "mr_writers s k = Some (w, off, d)"
  shows "chosen (s\<lparr>mr_writers := (mr_writers s)(k \<mapsto> (WPool p, off, d))\<rparr>) \<subseteq> insert p (chosen s)"
    "w = WPool p \<Longrightarrow> chosen (s\<lparr>mr_writers := (mr_writers s)(k \<mapsto> (WSent p, off, d))\<rparr>) \<subseteq> chosen s"
    "chosen (s\<lparr>mr_writers := (mr_writers s)(k \<mapsto> (WAcked, off, d)), mr_obj := ob, mr_expect := ex\<rparr>) \<subseteq> chosen s"
    "unsent (s\<lparr>mr_writers := (mr_writers s)(k \<mapsto> (WSent p, off, d))\<rparr>) \<Longrightarrow> unsent s"
    "unsent (s\<lparr>mr_writers := (mr_writers s)(k \<mapsto> (WAcked, off, d)), mr_obj := ob, mr_expect := ex\<rparr>) \<Longrightarrow> unsent s"
    "w = WPool p \<Longrightarrow> p \<in> chosen s \<and> unsent s" "w = WSent p \<Longrightarrow> p \<in> chosen s"
  using assms by (auto simp: chosen_def unsent_def split: if_splits)

lemma new_writer:
  assumes "mr_writers s k = None"
  shows "chosen (s\<lparr>mr_writers := (mr_writers s)(k \<mapsto> (WStart, off, d))\<rparr>) = chosen s"
    "unsent (s\<lparr>mr_writers := (mr_writers s)(k \<mapsto> (WStart, off, d))\<rparr>) = unsent s"
proof -
  have "((mr_writers s)(k \<mapsto> (WStart, off, d))) l = Some (WPool q, o', e) \<longleftrightarrow> mr_writers s l = Some (WPool q, o', e)"
    "((mr_writers s)(k \<mapsto> (WStart, off, d))) l = Some (WSent q, o', e) \<longleftrightarrow> mr_writers s l = Some (WSent q, o', e)" for l q o' e
    using assms by auto
  then show "chosen (s\<lparr>mr_writers := (mr_writers s)(k \<mapsto> (WStart, off, d))\<rparr>) = chosen s"
    "unsent (s\<lparr>mr_writers := (mr_writers s)(k \<mapsto> (WStart, off, d))\<rparr>) = unsent s"
    by (simp_all add: chosen_def unsent_def del: fun_upd_apply)
qed

lemma same_fields [simp]:
  "entry (s\<lparr>mr_writers := w\<rparr>) i = entry s i" "holds (s\<lparr>mr_writers := w\<rparr>) q = holds s q"
  "stored (s\<lparr>mr_writers := w\<rparr>) q = stored s q" "entry (s\<lparr>mr_mig := m\<rparr>) i = entry s i" "holds (s\<lparr>mr_mig := m\<rparr>) q = holds s q"
  "stored (s\<lparr>mr_mig := m\<rparr>) q = stored s q" "chosen (s\<lparr>mr_mig := m\<rparr>) = chosen s" "unsent (s\<lparr>mr_mig := m\<rparr>) = unsent s"
  "holds (s\<lparr>mr_em := em\<rparr>) q = holds s q" "stored (s\<lparr>mr_em := em\<rparr>) q = stored s q" "chosen (s\<lparr>mr_em := em\<rparr>) = chosen s"
  "unsent (s\<lparr>mr_em := em\<rparr>) = unsent s" "entry (s\<lparr>mr_obj := ob\<rparr>) i = entry s i" "chosen (s\<lparr>mr_obj := ob\<rparr>) = chosen s"
  "entry (s\<lparr>mr_expect := ex\<rparr>) i = entry s i" "stored (s\<lparr>mr_expect := ex\<rparr>) q = stored s q"
  by (simp_all add: entry_def holds_def stored_def chosen_def unsent_def)

lemma inv_new:
  assumes "race_inv i s" "mr_writers s k = None" "off + length d \<le> 4194304"
  shows "race_inv i (s\<lparr>mr_writers := (mr_writers s)(k \<mapsto> (WStart, off, d))\<rparr>)"
  using assms new_writer [OF assms(2), of off d]
  by (cases "mr_mig s") (auto simp: race_inv_def phase_inv_def split: if_splits)

lemma inv_look:
  assumes "race_inv i s" "mr_writers s k = Some (WStart, off, d)" "get_pool (mr_em s) (i * EXTENT_SIZE) = Some (p, em)"
    "p \<noteq> MIGRATING_TO_SSD" "p \<noteq> MIGRATING_TO_HDD"
  shows "race_inv i (s\<lparr>mr_em := em, mr_writers := (mr_writers s)(k \<mapsto> (WPool p, off, d))\<rparr>)"
proof -
  obtain v where v: "entry s i = Some v"
    using assms(1) by (cases "mr_mig s") (auto simp: race_inv_def phase_inv_def)
  have em: "em = mr_em s" "p = (if \<bar>v\<bar> = 999 then v else home v)" by (rule race_pool [OF assms(1) v assms(3)])+
  have nm: "\<not> \<bar>v\<bar> = 999" using em(2) assms(4,5) by (auto simp: whobbs_consts abs_if split: if_splits)
  then have p: "p = home v" using em(2) by simp
  let ?s = "s\<lparr>mr_writers := (mr_writers s)(k \<mapsto> (WPool p, off, d))\<rparr>"
  have eq: "s\<lparr>mr_em := em, mr_writers := (mr_writers s)(k \<mapsto> (WPool p, off, d))\<rparr> = ?s" by (simp add: em(1))
  have ch: "chosen ?s \<subseteq> insert p (chosen s)" by (rule writer_upd(1) [OF assms(2)])
  have "phase_inv i ?s"
  proof (cases "mr_mig s")
    case MIdle
    then show ?thesis using assms(1) ch p v by (auto simp: race_inv_def phase_inv_def)
  next
    case (MTabled a b)
    then have "v = stride_of b" "b \<in> tiers" using assms(1) v by (auto simp: race_inv_def phase_inv_def)
    then have "p = b" using p marks(3) by simp
    then show ?thesis using assms(1) ch MTabled by (auto simp: race_inv_def phase_inv_def)
  qed (use assms(1) v nm marks(1) in \<open>auto simp: race_inv_def phase_inv_def\<close>)
  moreover have "off + length d \<le> 4194304" using assms(1,2) unfolding race_inv_def by blast
  ultimately show ?thesis using assms(1) unfolding eq by (auto simp: race_inv_def split: if_splits)
qed

lemma inv_send:
  assumes "race_inv i s" "mr_writers s k = Some (WPool p, off, d)"
  shows "race_inv i (s\<lparr>mr_writers := (mr_writers s)(k \<mapsto> (WSent p, off, d))\<rparr>)"
proof -
  let ?s = "s\<lparr>mr_writers := (mr_writers s)(k \<mapsto> (WSent p, off, d))\<rparr>"
  note u = writer_upd [OF assms(2)]
  have ch: "chosen ?s \<subseteq> chosen s" "p \<in> chosen s" "unsent s" using u(2,6) by simp_all
  have "phase_inv i ?s"
    using assms(1) ch by (cases "mr_mig s") (auto simp: race_inv_def phase_inv_def)
  moreover have "off + length d \<le> 4194304" using assms(1,2) unfolding race_inv_def by blast
  ultimately show ?thesis using assms(1) by (auto simp: race_inv_def split: if_splits)
qed

lemma inv_ack:
  assumes "race_inv i s" "mr_writers s k = Some (WSent p, off, d)"
  shows "race_inv i (s\<lparr>mr_writers := (mr_writers s)(k \<mapsto> (WAcked, off, d)),
      mr_obj := (mr_obj s)(p \<mapsto> file_write off d (stored s p)),
      mr_expect := (\<lambda>y. if off \<le> y \<and> y < off + length d then d ! (y - off) else mr_expect s y)\<rparr>)"
proof -
  define s1 where "s1 = s\<lparr>mr_writers := (mr_writers s)(k \<mapsto> (WAcked, off, d)),
      mr_obj := (mr_obj s)(p \<mapsto> file_write off d (stored s p)),
      mr_expect := (\<lambda>y. if off \<le> y \<and> y < off + length d then d ! (y - off) else mr_expect s y)\<rparr>"
  note u = writer_upd [OF assms(2)]
  have ch: "chosen s1 \<subseteq> chosen s" "p \<in> chosen s" and un: "unsent s1 \<Longrightarrow> unsent s"
    using u(3,5,7) by (simp_all add: s1_def)
  have st: "stored s1 q = (if q = p then file_write off d (stored s p) else stored s q)" for q
    by (simp add: stored_def s1_def)
  have "mr_expect s1 = (\<lambda>y. if off \<le> y \<and> y < off + length d then d ! (y - off) else mr_expect s y)"
    by (simp add: s1_def)
  then have ho: "holds s p \<Longrightarrow> holds s1 p" by (simp add: holds_def st byte_at_write)
  have ex: "mr_mig s1 = mr_mig s" "entry s1 i = entry s i" "mr_em s1 = mr_em s" by (simp_all add: entry_def s1_def)
  have wr: "mr_writers s1 l = Some (WSent q, o', e) \<Longrightarrow> mr_writers s l = Some (WSent q, o', e)" for l q o' e
    by (simp add: s1_def split: if_splits)
  have ph: "phase_inv i s" using assms(1) by (simp add: race_inv_def)
  have "phase_inv i s1"
  proof (cases "mr_mig s")
    case MIdle
    then obtain v where v: "entry s i = Some v" "\<bar>v\<bar> \<noteq> 999" "holds s (home v)" "chosen s \<subseteq> {home v}"
      using ph by (auto simp: phase_inv_def)
    then have "p = home v" using ch(2) by blast
    then show ?thesis using v ho ch(1) unfolding phase_inv_def ex MIdle mphase.case by blast
  next
    case (MMarked a b)
    then have a: "a \<noteq> b" "b \<in> tiers" "entry s i = Some (mark_of b)" "holds s a" "chosen s \<subseteq> {a}"
      using ph by (simp_all add: phase_inv_def)
    then have "p = a" using ch(2) by blast
    then show ?thesis using a ho ch(1) unfolding phase_inv_def ex MMarked mphase.case by blast
  next
    case (MFlushing a b F)
    then have a: "a \<noteq> b" "b \<in> tiers" "entry s i = Some (mark_of b)" "holds s a" "chosen s \<subseteq> {a}" "\<not> unsent s"
      "\<forall>k off d. mr_writers s k = Some (WSent a, off, d) \<longrightarrow> k \<in> F"
      using ph by (simp_all add: phase_inv_def)
    then have "p = a" using ch(2) by blast
    then show ?thesis using a ho ch(1) un wr unfolding phase_inv_def ex MFlushing mphase.case by blast
  next
    case (MTabled a b)
    then have a: "a \<noteq> b" "b \<in> tiers" "entry s i = Some (stride_of b)" "holds s b" "chosen s \<subseteq> {b}"
      using ph by (simp_all add: phase_inv_def)
    then have "p = b" using ch(2) by blast
    then show ?thesis using a ho ch(1) unfolding phase_inv_def ex MTabled mphase.case by blast
  qed (use ph ch in \<open>auto simp: phase_inv_def\<close>)
  moreover have fit: "off + length d \<le> 4194304" using assms(1,2) unfolding race_inv_def by blast
  moreover have "length (stored s1 q) \<le> 4194304" for q
    using assms(1) fit by (auto simp: st race_inv_def length_file_write)
  moreover have "o' + length e \<le> 4194304" if "mr_writers s1 l = Some (w, o', e)" for l w o' e
    using that assms(1) fit by (auto simp: s1_def race_inv_def split: if_splits)
  ultimately show ?thesis using assms(1) unfolding s1_def [symmetric] race_inv_def ex by blast
qed

text \<open>Steps of the migrater.\<close>

lemma inv_mark:
  assumes "race_inv i s" "mr_mig s = MIdle" "get_pool (mr_em s) (i * EXTENT_SIZE) = Some (a, em)" "a \<in> tiers"
    "b \<in> tiers" "a \<noteq> b"
  shows "race_inv i (s\<lparr>mr_em := set_entry i (mark_of b) (mr_em s), mr_mig := MMarked a b\<rparr>)"
proof -
  obtain v where v: "entry s i = Some v" "\<bar>v\<bar> \<noteq> 999" "holds s (home v)" "chosen s \<subseteq> {home v}"
    using assms(1,2) by (auto simp: race_inv_def phase_inv_def)
  have "a = home v" using race_pool(2) [OF assms(1) v(1) assms(3)] v(2) by simp
  then show ?thesis
    using assms(1,5,6) v by (simp add: race_inv_def phase_inv_def entry_set [simplified]) (simp add: set_entry_def)
qed

lemma inv_flush:
  assumes "race_inv i s" "mr_mig s = MMarked a b" "\<not> unsent s"
  shows "race_inv i (s\<lparr>mr_mig := MFlushing a b {k. \<exists>off d. mr_writers s k = Some (WSent a, off, d)}\<rparr>)"
  using assms by (simp add: race_inv_def phase_inv_def)

lemma inv_flushed:
  assumes "race_inv i s" "mr_mig s = MFlushing a b F" "\<forall>k \<in> F. \<forall>off d. mr_writers s k \<noteq> Some (WSent a, off, d)"
  shows "race_inv i (s\<lparr>mr_mig := MFlushed a b\<rparr>)"
proof -
  have h: "chosen s \<subseteq> {a}" "\<not> unsent s" "\<forall>k off d. mr_writers s k = Some (WSent a, off, d) \<longrightarrow> k \<in> F"
    using assms(1,2) by (simp_all add: race_inv_def phase_inv_def)
  have "chosen s = {}"
  proof (rule ccontr)
    assume "chosen s \<noteq> {}"
    then have "a \<in> chosen s" using h(1) by blast
    then obtain k off d where "mr_writers s k = Some (WPool a, off, d) \<or> mr_writers s k = Some (WSent a, off, d)"
      unfolding chosen_def by blast
    then show False using h(2,3) assms(3) unfolding unsent_def by blast
  qed
  then show ?thesis using assms(1,2) by (simp add: race_inv_def phase_inv_def)
qed

lemma inv_read:
  assumes "race_inv i s" "mr_mig s = MFlushed a b"
  shows "race_inv i (s\<lparr>mr_mig := MRead a b (file_read 0 4194304 (stored s a))\<rparr>)"
proof -
  have "length (stored s a) \<le> 4194304" using assms(1) by (simp add: race_inv_def)
  then have "file_read 0 4194304 (stored s a) = stored s a" by (simp add: file_read_def)
  then show ?thesis using assms by (simp add: race_inv_def phase_inv_def holds_def)
qed

lemma inv_write:
  assumes "race_inv i s" "mr_mig s = MRead a b d"
  shows "race_inv i (s\<lparr>mr_obj := (mr_obj s)(b \<mapsto> d), mr_mig := MWritten a b\<rparr>)"
proof -
  let ?s = "s\<lparr>mr_obj := (mr_obj s)(b \<mapsto> d)\<rparr>"
  have st: "stored ?s q = (if q = b then d else stored s q)" for q by (simp add: stored_def)
  have "holds ?s b" using assms by (simp add: holds_def st race_inv_def phase_inv_def)
  then show ?thesis using assms by (auto simp: race_inv_def phase_inv_def st)
qed

lemma inv_table:
  assumes "race_inv i s" "mr_mig s = MWritten a b"
  shows "race_inv i (s\<lparr>mr_em := set_entry i (stride_of b) (mr_em s), mr_mig := MTabled a b\<rparr>)"
  using assms by (simp add: race_inv_def phase_inv_def entry_set [simplified]) (simp add: set_entry_def)

lemma inv_remove:
  assumes "race_inv i s" "mr_mig s = MTabled a b"
  shows "race_inv i (s\<lparr>mr_obj := (mr_obj s)(a := None), mr_mig := MIdle\<rparr>)"
proof -
  let ?s = "s\<lparr>mr_obj := (mr_obj s)(a := None)\<rparr>"
  have st: "stored ?s q = (if q = a then [] else stored s q)" for q by (simp add: stored_def)
  have m: "a \<noteq> b" "b \<in> tiers" "entry s i = Some (stride_of b)" "holds s b" "chosen s \<subseteq> {b}"
    using assms by (simp_all add: race_inv_def phase_inv_def)
  have "holds ?s b" using m(1,4) by (simp add: holds_def st)
  then show ?thesis using assms(1) m marks(2) [of b] marks(3) [OF m(2)] by (auto simp: race_inv_def phase_inv_def st)
qed

lemma race_inv_step:
  "race_step i s s' \<Longrightarrow> race_inv i s \<Longrightarrow> flushing s' \<longrightarrow> \<not> unsent s' \<Longrightarrow> race_inv i s'"
proof (induction rule: race_step.induct)
  case (m_flush s a b)
  then show ?case using inv_flush by (simp add: flushing_def)
qed (blast intro: inv_new inv_look inv_send inv_ack inv_mark inv_flushed inv_read inv_write inv_table inv_remove)+

lemma race_inv_run:
  "race_run i s0 ts s \<Longrightarrow> race_inv i s0 \<Longrightarrow> \<forall>t \<in> set ts. flushing t \<longrightarrow> \<not> unsent t \<Longrightarrow> race_inv i s"
  by (induction rule: race_run.induct) (auto intro: race_inv_step)

subsection \<open>What the relation allows\<close>

definition race_start :: "u64 \<Rightarrow> race \<Rightarrow> bool" where
  "race_start i s \<longleftrightarrow> extent_size (mr_em s) = EXTENT_SIZE \<and> extent_in_range i \<and> mr_mig s = MIdle
     \<and> mr_writers s = Map.empty \<and> (\<forall>p. length (stored s p) \<le> 4194304)
     \<and> (\<exists>v. entry s i = Some v \<and> \<bar>v\<bar> \<noteq> 999 \<and> holds s (home v))"

lemma race_start_inv: "race_start i s \<Longrightarrow> race_inv i s"
  by (auto simp: race_start_def race_inv_def phase_inv_def chosen_def)

text \<open>C6. When no writer stands between its lookup of the pool and the sending of its write while the
  migrater flushes, no acknowledged write is lost: in every such run of writers and of the migrater,
  over any number of migrations and in any order of their steps, whenever a lookup answers with a pool,
  the object in that pool holds every acknowledged write, in the order of the acknowledgements.\<close>

theorem race_safe_when_sent:
  assumes "race_start i s0" "race_run i s0 ts s" "\<forall>t \<in> set ts. flushing t \<longrightarrow> \<not> unsent t"
    "get_pool (mr_em s) (i * EXTENT_SIZE) = Some (p, em)" "p \<noteq> MIGRATING_TO_SSD" "p \<noteq> MIGRATING_TO_HDD"
  shows "byte_at (stored s p) y = mr_expect s y"
proof -
  have inv: "race_inv i s" by (rule race_inv_run [OF assms(2) race_start_inv [OF assms(1)] assms(3)])
  then have ph: "phase_inv i s" by (simp add: race_inv_def)
  obtain v where v: "entry s i = Some v" using ph by (cases "mr_mig s") (auto simp: phase_inv_def)
  have p: "p = (if \<bar>v\<bar> = 999 then v else home v)" by (rule race_pool(2) [OF inv v assms(4)])
  then have nm: "\<not> \<bar>v\<bar> = 999" using assms(5,6) by (auto simp: whobbs_consts abs_if split: if_splits)
  have "holds s (home v)"
  proof (cases "mr_mig s")
    case MIdle
    then show ?thesis using ph v by (simp add: phase_inv_def)
  next
    case (MTabled a b)
    then show ?thesis using ph v marks(3) [of b] by (auto simp: phase_inv_def)
  qed (use ph v nm marks(1) in \<open>auto simp: phase_inv_def\<close>)
  then show ?thesis using p nm by (simp add: holds_def)
qed

definition race_0 :: race where
  "race_0 = \<lparr>mr_em = \<lparr>extent_size = EXTENT_SIZE, map_size = 1, em_map = [(0, - 3)]\<rparr>,
     mr_obj = (\<lambda>p. if p = HDD_POOL then Some [1] else None), mr_writers = Map.empty, mr_mig = MIdle,
     mr_expect = (\<lambda>y. if y = 0 then 1 else 0)\<rparr>"

lemma race_0_start: "race_start 0 race_0"
proof -
  have "holds race_0 HDD_POOL" by (simp add: holds_def stored_def race_0_def byte_at_def)
  then show ?thesis
    by (auto simp: race_start_def entry_def home_def stored_def extent_in_range_def race_0_def intro!: exI [of _ "- 3"])
qed

lemma race_0_pool: "get_pool (mr_em race_0) (0 * EXTENT_SIZE) = Some (HDD_POOL, mr_em race_0)"
  by (simp add: get_pool_def race_0_def smap_at_def whobbs_consts)

lemma two_pools:
  "HDD_POOL \<in> tiers" "SSD_POOL \<in> tiers" "HDD_POOL \<noteq> SSD_POOL" "HDD_POOL \<noteq> MIGRATING_TO_SSD" "HDD_POOL \<noteq> MIGRATING_TO_HDD"
  "SSD_POOL \<noteq> MIGRATING_TO_SSD" "SSD_POOL \<noteq> MIGRATING_TO_HDD"
  by (simp_all add: tiers_def whobbs_consts)

lemma sent_none: "\<exists>ts. race_run i s0 ts s0 \<and> (\<forall>t \<in> set ts. flushing t \<longrightarrow> \<not> unsent t)"
  using r_start by fastforce

lemma sent_one:
  assumes "\<exists>ts. race_run i s0 ts s \<and> (\<forall>t \<in> set ts. flushing t \<longrightarrow> \<not> unsent t)" "race_step i s s'"
    "flushing s' \<longrightarrow> \<not> unsent s'"
  shows "\<exists>ts. race_run i s0 ts s' \<and> (\<forall>t \<in> set ts. flushing t \<longrightarrow> \<not> unsent t)"
proof -
  obtain ts where "race_run i s0 ts s" "\<forall>t \<in> set ts. flushing t \<longrightarrow> \<not> unsent t" using assms(1) by blast
  then have "race_run i s0 (ts @ [s']) s'" "\<forall>t \<in> set (ts @ [s']). flushing t \<longrightarrow> \<not> unsent t"
    using r_step assms(2,3) by auto
  then show ?thesis by blast
qed

text \<open>A writer that has sent its write when the extent is marked: the flush waits for it.\<close>

lemma race_safe_when_sent_witness:
  "\<exists>ts s. race_run 0 race_0 ts s \<and> mr_mig s = MIdle \<and> mr_obj s HDD_POOL = None
    \<and> get_pool (mr_em s) (0 * EXTENT_SIZE) = Some (SSD_POOL, mr_em s) \<and> mr_expect s 0 = 7
    \<and> byte_at (stored s SSD_POOL) 0 = 7"
proof -
  let ?R = "\<lambda>s. \<exists>ts. race_run 0 race_0 ts s \<and> (\<forall>t \<in> set ts. flushing t \<longrightarrow> \<not> unsent t)"
  define s1 where "s1 = race_0\<lparr>mr_writers := (mr_writers race_0)(0 \<mapsto> (WStart, 0, [7]))\<rparr>"
  define s2 where "s2 = s1\<lparr>mr_em := mr_em race_0, mr_writers := (mr_writers s1)(0 \<mapsto> (WPool HDD_POOL, 0, [7]))\<rparr>"
  define s3 where "s3 = s2\<lparr>mr_em := set_entry 0 (mark_of SSD_POOL) (mr_em s2), mr_mig := MMarked HDD_POOL SSD_POOL\<rparr>"
  define s4 where "s4 = s3\<lparr>mr_writers := (mr_writers s3)(0 \<mapsto> (WSent HDD_POOL, 0, [7]))\<rparr>"
  define s5 where "s5 = s4\<lparr>mr_mig := MFlushing HDD_POOL SSD_POOL
      {k. \<exists>off d. mr_writers s4 k = Some (WSent HDD_POOL, off, d)}\<rparr>"
  define s6 where "s6 = s5\<lparr>mr_writers := (mr_writers s5)(0 \<mapsto> (WAcked, 0, [7])),
      mr_obj := (mr_obj s5)(HDD_POOL \<mapsto> file_write 0 [7] (stored s5 HDD_POOL)),
      mr_expect := (\<lambda>y. if 0 \<le> y \<and> y < 0 + length [7 :: u8] then [7] ! (y - 0) else mr_expect s5 y)\<rparr>"
  define s7 where "s7 = s6\<lparr>mr_mig := MFlushed HDD_POOL SSD_POOL\<rparr>"
  define s8 where "s8 = s7\<lparr>mr_mig := MRead HDD_POOL SSD_POOL (file_read 0 4194304 (stored s7 HDD_POOL))\<rparr>"
  define s9 where "s9 = s8\<lparr>mr_obj := (mr_obj s8)(SSD_POOL \<mapsto> file_read 0 4194304 (stored s7 HDD_POOL)), mr_mig := MWritten HDD_POOL SSD_POOL\<rparr>"
  define s10 where "s10 = s9\<lparr>mr_em := set_entry 0 (stride_of SSD_POOL) (mr_em s9), mr_mig := MTabled HDD_POOL SSD_POOL\<rparr>"
  define s11 where "s11 = s10\<lparr>mr_obj := (mr_obj s10)(HDD_POOL := None), mr_mig := MIdle\<rparr>"
  note upto4 = s4_def s3_def s2_def s1_def and start = race_0_def
  have w: "mr_writers s4 = [0 \<mapsto> (WSent HDD_POOL, 0, [7])]" "mr_writers s5 = mr_writers s4"
    "mr_writers s6 = [0 \<mapsto> (WAcked, 0, [7])]"
    by (simp_all add: s6_def s5_def upto4 start fun_eq_iff)
  have e: "get_pool (mr_em s1) (0 * EXTENT_SIZE) = Some (HDD_POOL, mr_em race_0)"
    "get_pool (mr_em s2) (0 * EXTENT_SIZE) = Some (HDD_POOL, mr_em race_0)"
    using race_0_pool by (simp_all add: s2_def s1_def)
  have fl: "\<forall>k \<in> {k. \<exists>off d. mr_writers s4 k = Some (WSent HDD_POOL, off, d)}. \<forall>off d.
      mr_writers s6 k \<noteq> Some (WSent HDD_POOL, off, d)" by (simp add: w(3))
  have 1: "?R s1" unfolding s1_def
    by (rule sent_one [OF sent_none w_new]) (simp_all add: start flushing_def)
  have 2: "?R s2" unfolding s2_def
    by (rule sent_one [OF 1 w_look [OF _ e(1) two_pools(4,5)]]) (simp_all add: s1_def start flushing_def)
  have 3: "?R s3" unfolding s3_def
    by (rule sent_one [OF 2 m_mark [OF _ e(2) two_pools(1-3)]]) (simp_all add: s2_def s1_def start flushing_def)
  have 4: "?R s4" unfolding s4_def by (rule sent_one [OF 3 w_send]) (simp_all add: s3_def s2_def flushing_def)
  have 5: "?R s5" unfolding s5_def by (rule sent_one [OF 4 m_flush]) (simp_all add: unsent_def w, simp add: s4_def s3_def)
  have 6: "?R s6" unfolding s6_def by (rule sent_one [OF 5 w_ack]) (simp_all add: unsent_def w)
  have 7: "?R s7" unfolding s7_def
    by (rule sent_one [OF 6 m_flushed [OF _ fl]]) (simp_all add: s6_def s5_def flushing_def)
  have 8: "?R s8" unfolding s8_def by (rule sent_one [OF 7 m_read]) (simp_all add: s7_def flushing_def)
  have 9: "?R s9" unfolding s9_def by (rule sent_one [OF 8 m_write]) (simp_all add: s8_def flushing_def)
  have 10: "?R s10" unfolding s10_def by (rule sent_one [OF 9 m_table]) (simp_all add: s9_def flushing_def)
  have 11: "?R s11" unfolding s11_def by (rule sent_one [OF 10 m_remove]) (simp_all add: s10_def flushing_def)
  then obtain ts where run: "race_run 0 race_0 ts s11" "\<forall>t \<in> set ts. flushing t \<longrightarrow> \<not> unsent t" by blast
  note defs = s11_def s10_def s9_def s8_def s7_def s6_def s5_def upto4
  have em: "mr_em s11 = set_entry 0 (stride_of SSD_POOL) (set_entry 0 (mark_of SSD_POOL) (mr_em race_0))"
    by (simp add: defs)
  have pool: "get_pool (mr_em s11) (0 * EXTENT_SIZE) = Some (SSD_POOL, mr_em s11)"
    unfolding em by (simp add: get_pool_def set_entry_def start smap_at_def stride_of_def mark_of_def whobbs_consts)
  have f: "mr_mig s11 = MIdle" "mr_expect s11 0 = 7" "mr_obj s11 HDD_POOL = None"
    by (simp_all add: s11_def s10_def s9_def s8_def s7_def s6_def)
  have "byte_at (stored s11 SSD_POOL) 0 = 7"
    using race_safe_when_sent [OF race_0_start run pool two_pools(6,7), of 0] f(2) by simp
  then show ?thesis using run(1) f pool by blast
qed

lemma run_none: "\<exists>ts. race_run i s0 ts s0"
  using r_start by blast

lemma run_one: "\<exists>ts. race_run i s0 ts s \<Longrightarrow> race_step i s s' \<Longrightarrow> \<exists>ts. race_run i s0 ts s'"
  using r_step by blast

text \<open>C8. The code loses an acknowledged write: a writer looks up the HDD pool, the extent is marked, the
  flush finds nothing in flight, the object is copied and the table changed; only then the writer
  sends, is acknowledged by the HDD pool, and the object is removed. Requests now go to the SSD pool,
  where the old byte is.\<close>

theorem race_loses_write:
  "\<exists>ts s. race_run 0 race_0 ts s \<and> mr_mig s = MIdle \<and> mr_writers s 0 = Some (WAcked, 0, [7])
    \<and> get_pool (mr_em s) (0 * EXTENT_SIZE) = Some (SSD_POOL, mr_em s)
    \<and> mr_expect s 0 = 7 \<and> byte_at (stored s SSD_POOL) 0 = 1 \<and> mr_obj s HDD_POOL = None"
proof -
  let ?R = "\<lambda>s. \<exists>ts. race_run 0 race_0 ts s"
  note start = race_0_def
  define s1 where "s1 = race_0\<lparr>mr_writers := (mr_writers race_0)(0 \<mapsto> (WStart, 0, [7]))\<rparr>"
  define s2 where "s2 = s1\<lparr>mr_em := mr_em race_0, mr_writers := (mr_writers s1)(0 \<mapsto> (WPool HDD_POOL, 0, [7]))\<rparr>"
  define s3 where "s3 = s2\<lparr>mr_em := set_entry 0 (mark_of SSD_POOL) (mr_em s2), mr_mig := MMarked HDD_POOL SSD_POOL\<rparr>"
  define s4 where "s4 = s3\<lparr>mr_mig := MFlushing HDD_POOL SSD_POOL
      {k. \<exists>off d. mr_writers s3 k = Some (WSent HDD_POOL, off, d)}\<rparr>"
  define s5 where "s5 = s4\<lparr>mr_mig := MFlushed HDD_POOL SSD_POOL\<rparr>"
  define s6 where "s6 = s5\<lparr>mr_mig := MRead HDD_POOL SSD_POOL (file_read 0 4194304 (stored s5 HDD_POOL))\<rparr>"
  define s7 where "s7 = s6\<lparr>mr_obj := (mr_obj s6)(SSD_POOL \<mapsto> file_read 0 4194304 (stored s5 HDD_POOL)), mr_mig := MWritten HDD_POOL SSD_POOL\<rparr>"
  define s8 where "s8 = s7\<lparr>mr_em := set_entry 0 (stride_of SSD_POOL) (mr_em s7), mr_mig := MTabled HDD_POOL SSD_POOL\<rparr>"
  define s9 where "s9 = s8\<lparr>mr_writers := (mr_writers s8)(0 \<mapsto> (WSent HDD_POOL, 0, [7]))\<rparr>"
  define s10 where "s10 = s9\<lparr>mr_writers := (mr_writers s9)(0 \<mapsto> (WAcked, 0, [7])),
      mr_obj := (mr_obj s9)(HDD_POOL \<mapsto> file_write 0 [7] (stored s9 HDD_POOL)),
      mr_expect := (\<lambda>y. if 0 \<le> y \<and> y < 0 + length [7 :: u8] then [7] ! (y - 0) else mr_expect s9 y)\<rparr>"
  define s11 where "s11 = s10\<lparr>mr_obj := (mr_obj s10)(HDD_POOL := None), mr_mig := MIdle\<rparr>"
  note e0 = race_0_pool
  have w1: "mr_writers s1 0 = Some (WStart, 0, [7])" "get_pool (mr_em s1) (0 * EXTENT_SIZE) = Some (HDD_POOL, mr_em race_0)"
    using e0 by (simp_all add: s1_def)
  have w2: "mr_mig s2 = MIdle" "get_pool (mr_em s2) (0 * EXTENT_SIZE) = Some (HDD_POOL, mr_em race_0)"
    using e0 by (simp_all add: s2_def s1_def start)
  have fl: "\<forall>k \<in> {k. \<exists>off d. mr_writers s3 k = Some (WSent HDD_POOL, off, d)}. \<forall>off d.
      mr_writers s4 k \<noteq> Some (WSent HDD_POOL, off, d)"
    by (simp add: s4_def s3_def s2_def s1_def start)
  have 1: "?R s1" unfolding s1_def by (rule run_one [OF run_none w_new]) (simp_all add: start)
  have 2: "?R s2" unfolding s2_def by (rule run_one [OF 1 w_look [OF w1 two_pools(4,5)]])
  have 3: "?R s3" unfolding s3_def by (rule run_one [OF 2 m_mark [OF w2 two_pools(1-3)]])
  have 4: "?R s4" unfolding s4_def by (rule run_one [OF 3 m_flush]) (simp add: s3_def)
  have 5: "?R s5" unfolding s5_def by (rule run_one [OF 4 m_flushed [OF _ fl]]) (simp add: s4_def)
  have 6: "?R s6" unfolding s6_def by (rule run_one [OF 5 m_read]) (simp add: s5_def)
  have 7: "?R s7" unfolding s7_def by (rule run_one [OF 6 m_write]) (simp add: s6_def)
  have 8: "?R s8" unfolding s8_def by (rule run_one [OF 7 m_table]) (simp add: s7_def)
  have 9: "?R s9" unfolding s9_def
    by (rule run_one [OF 8 w_send]) (simp add: s8_def s7_def s6_def s5_def s4_def s3_def s2_def)
  have 10: "?R s10" unfolding s10_def by (rule run_one [OF 9 w_ack]) (simp add: s9_def)
  have 11: "?R s11" unfolding s11_def by (rule run_one [OF 10 m_remove]) (simp add: s10_def s9_def s8_def)
  note defs = s11_def s10_def s9_def s8_def s7_def s6_def s5_def s4_def s3_def s2_def s1_def
  have em: "mr_em s11 = set_entry 0 (stride_of SSD_POOL) (set_entry 0 (mark_of SSD_POOL) (mr_em race_0))"
    by (simp add: defs)
  have "get_pool (mr_em s11) (0 * EXTENT_SIZE) = Some (SSD_POOL, mr_em s11)"
    unfolding em by (simp add: get_pool_def set_entry_def start smap_at_def stride_of_def mark_of_def whobbs_consts)
  moreover have "mr_obj s11 SSD_POOL = Some [1]"
    by (simp add: defs stored_def start whobbs_consts file_read_def)
  then have "byte_at (stored s11 SSD_POOL) 0 = 1" by (simp add: stored_def byte_at_def)
  moreover have "mr_mig s11 = MIdle" "mr_writers s11 0 = Some (WAcked, 0, [7])" "mr_expect s11 0 = 7" "mr_obj s11 HDD_POOL = None"
    by (simp_all add: s11_def s10_def)
  ultimately show ?thesis using 11 by blast
qed

end
