(* ===== verification/Aio_Flush.thy ===== *)
theory Aio_Flush
  imports Data_Path "HOL-Library.Multiset"
begin

text \<open>
  Waiting for writes: the list of writes in flight of a \<open>librados::IoCtxImpl\<close>
  (\<open>librados/IoCtxImpl.cc\<close>, one for each pool), the waiters on it, and the flush of an image over the
  two pools (\<open>librbd/internal.cc\<close>). Completions are named by numbers in the waiter lists; the
  finisher thread runs its queue in order. Lemmas: a waiter is woken exactly when the writes in flight
  at its registration are done, and once; and the asynchronous flush of an image, which hands one
  completion to both pools, is done when the first of them is.
\<close>

subsection \<open>Writes in flight of one pool\<close>

record io_ctx =
  aio_write_seq :: u64
  aio_write_list :: "u64 list"
  aio_write_waiters :: "(u64, nat list) smap"

definition queue_aio_write :: "io_ctx \<Rightarrow> u64 \<times> io_ctx" where
  "queue_aio_write io =
     (let s = aio_write_seq io + 1
      in (s, io\<lparr>aio_write_seq := s, aio_write_list := aio_write_list io @ [s]\<rparr>))"

text \<open>The loop over the waiters: whom it hands to the finisher, and who stays.\<close>

fun wake :: "u64 list \<Rightarrow> (u64, nat list) smap \<Rightarrow> nat list \<times> (u64, nat list) smap" where
  "wake l [] = ([], [])"
| "wake l ((s, cs) # waiters) =
     (if l \<noteq> [] \<and> hd l \<le> s then ([], (s, cs) # waiters)
      else (let (q, rest) = wake l waiters in (cs @ q, rest)))"

definition complete_aio_write :: "u64 \<Rightarrow> io_ctx \<Rightarrow> nat list \<times> io_ctx" where
  "complete_aio_write s io =
     (let l = remove1 s (aio_write_list io);
          (q, waiters) = wake l (aio_write_waiters io)
      in (q, io\<lparr>aio_write_list := l, aio_write_waiters := waiters\<rparr>))"

definition flush_aio_writes_async :: "nat \<Rightarrow> io_ctx \<Rightarrow> nat list \<times> io_ctx" where
  "flush_aio_writes_async c io =
     (let s = aio_write_seq io in
      if aio_write_list io = [] then ([c], io)
      else ([], io\<lparr>aio_write_waiters :=
              smap_put s (fst (smap_at [] s (aio_write_waiters io)) @ [c]) (aio_write_waiters io)\<rparr>))"

text \<open>\<open>flush_aio_writes\<close> called when the sequence number was \<open>s\<close> waits while this holds.\<close>

definition flush_aio_writes_waits :: "u64 \<Rightarrow> io_ctx \<Rightarrow> bool" where
  "flush_aio_writes_waits s io \<longleftrightarrow> aio_write_list io \<noteq> [] \<and> hd (aio_write_list io) \<le> s"

subsection \<open>Flush of an image\<close>

text \<open>\<open>librados::AioCompletionImpl\<close>, without the fields of reads.\<close>

record rados_comp =
  rc_ref :: int
  rc_rval :: int
  rc_ack :: bool
  rc_safe :: bool
  rc_callback_complete :: bool
  rc_callback_safe :: bool
  rc_released :: bool

definition new_rados_comp :: "bool \<Rightarrow> bool \<Rightarrow> rados_comp" where
  "new_rados_comp cb_complete cb_safe =
     \<lparr>rc_ref = 1, rc_rval = 0, rc_ack = False, rc_safe = False,
      rc_callback_complete = cb_complete, rc_callback_safe = cb_safe, rc_released = False\<rparr>"

text \<open>\<open>C_AioCompleteAndSafe::finish\<close>: which callbacks are called, and the completion after it.\<close>

definition complete_and_safe :: "int \<Rightarrow> rados_comp \<Rightarrow> bool \<times> bool \<times> rados_comp" where
  "complete_and_safe r c =
     (rc_callback_complete c, rc_callback_safe c,
      c\<lparr>rc_rval := r, rc_ack := True, rc_safe := True, rc_callback_complete := False,
        rc_callback_safe := False, rc_ref := rc_ref c - 1\<rparr>)"

record flush_state =
  fl_hdd :: io_ctx
  fl_ssd :: io_ctx
  fl_finisher :: "nat list"
  fl_me :: nat
  fl_comp :: rados_comp
  fl_ictx :: ImageCtx
  fl_c :: AioCompletion

text \<open>Both pools get the same completion; each registration takes a reference.\<close>

definition aio_flush :: "io_env \<Rightarrow> rbd_conf \<Rightarrow> flush_state \<Rightarrow> (int \<times> flush_state) option" where
  "aio_flush ev cf st =
     (let (r, ic) = ictx_check ev (fl_ictx st) in
      if r < 0 then Some (r, st\<lparr>fl_ictx := ic\<rparr>)
      else
        do { c1 \<leftarrow> c_get (fl_c st);
             c2 \<leftarrow> add_request c1;
             let c3 = init_time AIO_TYPE_FLUSH c2;
             let comp = new_rados_comp False True;
             let (q1, hdd) = flush_aio_writes_async (fl_me st) (fl_hdd st);
             let (q2, ssd) = flush_aio_writes_async (fl_me st) (fl_ssd st);
             let comp2 = comp\<lparr>rc_ref := rc_ref comp + 2 - 1, rc_released := True\<rparr>;
             c4 \<leftarrow> finish_adding_requests c3;
             c5 \<leftarrow> put_unlock c4;
             Some (0, st\<lparr>fl_hdd := hdd, fl_ssd := ssd, fl_finisher := fl_finisher st @ q1 @ q2,
                         fl_comp := comp2, fl_ictx := user_flushed cf ic, fl_c := c5\<rparr>) })"

text \<open>One entry of the finisher's queue, and the end of a write on one of the pools.\<close>

definition finisher_step :: "flush_state \<Rightarrow> flush_state option" where
  "finisher_step st =
     (case fl_finisher st of
        [] \<Rightarrow> None
      | x # xs \<Rightarrow>
          if x = fl_me st
          then (let (_, safe, comp) = complete_and_safe 0 (fl_comp st) in
                do { c \<leftarrow> (if safe then complete_request (rc_rval comp) (fl_c st) else Some (fl_c st));
                     Some (st\<lparr>fl_finisher := xs, fl_comp := comp, fl_c := c\<rparr>) })
          else Some (st\<lparr>fl_finisher := xs\<rparr>))"

definition write_done :: "int \<Rightarrow> u64 \<Rightarrow> flush_state \<Rightarrow> flush_state" where
  "write_done pool s st =
     (if pool = HDD_POOL
      then (let (q, io) = complete_aio_write s (fl_hdd st) in st\<lparr>fl_hdd := io, fl_finisher := fl_finisher st @ q\<rparr>)
      else (let (q, io) = complete_aio_write s (fl_ssd st) in st\<lparr>fl_ssd := io, fl_finisher := fl_finisher st @ q\<rparr>))"

text \<open>The synchronous flush waits for one pool and then for the other; each wait returns 0.\<close>

definition flush_result :: "int \<Rightarrow> int \<Rightarrow> int" where
  "flush_result r_hdd r_ssd = (let r = r_hdd; r = r_ssd in r)"

definition flush_image :: "io_env \<Rightarrow> rbd_conf \<Rightarrow> ImageCtx \<Rightarrow> int \<times> ImageCtx" where
  "flush_image ev cf ic =
     (let (r, ic1) = ictx_check ev ic in
      if r < 0 then (r, ic1) else (flush_result 0 0, user_flushed cf ic1))"

subsection \<open>The list and its waiters\<close>

text \<open>Writes are in flight in the order of their numbers; every waiter has one to wait for.\<close>

definition io_ok :: "io_ctx \<Rightarrow> bool" where
  "io_ok io \<longleftrightarrow> sorted_wrt (<) (aio_write_list io) \<and> (\<forall>x \<in> set (aio_write_list io). x \<le> aio_write_seq io)
     \<and> smap_ok (aio_write_waiters io)
     \<and> (\<forall>s \<in> fst ` set (aio_write_waiters io). s \<le> aio_write_seq io \<and> (\<exists>x \<in> set (aio_write_list io). x \<le> s))"

lemma hd_least: "sorted_wrt (<) (x # xs) \<Longrightarrow> (\<exists>y \<in> set (x # xs). y \<le> s) \<longleftrightarrow> x \<le> (s :: u64)"
  by (auto intro: less_imp_le order_trans)

lemma wake_char:
  assumes "smap_ok w" "sorted_wrt (<) l"
  shows "wake l w = (concat (map snd (filter (\<lambda>p. \<forall>x \<in> set l. fst p < x) w)),
                     filter (\<lambda>p. \<exists>x \<in> set l. x \<le> fst p) w)"
  using assms(1)
proof (induction w)
  case Nil
  show ?case by simp
next
  case (Cons p w)
  obtain s cs where p: "p = (s, cs)" by (cases p)
  have c: "(\<exists>x \<in> set l. x \<le> t) \<longleftrightarrow> l \<noteq> [] \<and> hd l \<le> t" for t
    using assms(2) hd_least [of "hd l" "tl l" t] by (cases l) auto
  have n: "(\<forall>x \<in> set l. t < x) \<longleftrightarrow> \<not> (l \<noteq> [] \<and> hd l \<le> t)" for t
    using c [of t] by (auto simp: not_le [symmetric])
  show ?case
  proof (cases "l \<noteq> [] \<and> hd l \<le> s")
    case True
    then have "l \<noteq> [] \<and> hd l \<le> fst q" if "q \<in> set w" for q
      using Cons.prems that by (auto simp: p intro: order_trans less_imp_le)
    then show ?thesis using True by (simp add: p c n filter_empty_conv filter_id_conv)
  next
    case False
    then show ?thesis using Cons by (auto simp: p c n)
  qed
qed

lemma complete_aio_write_char:
  assumes "io_ok io"
  shows "complete_aio_write s io =
    (concat (map snd (filter (\<lambda>p. \<forall>x \<in> set (remove1 s (aio_write_list io)). fst p < x) (aio_write_waiters io))),
     io\<lparr>aio_write_list := remove1 s (aio_write_list io),
        aio_write_waiters := filter (\<lambda>p. \<exists>x \<in> set (remove1 s (aio_write_list io)). x \<le> fst p) (aio_write_waiters io)\<rparr>)"
proof -
  have w: "smap_ok (aio_write_waiters io)" and l: "sorted_wrt (<) (aio_write_list io)"
    using assms by (simp_all add: io_ok_def)
  have "sorted_wrt (<) (remove1 s (aio_write_list io))"
    using l by (simp add: strict_sorted_iff sorted_remove1)
  then show ?thesis by (simp add: complete_aio_write_def Let_def wake_char [OF w])
qed

lemma complete_ok:
  assumes "io_ok io" "complete_aio_write s io = (q, io')"
  shows "io_ok io'" "aio_write_list io' = remove1 s (aio_write_list io)" "aio_write_seq io' = aio_write_seq io"
    "q = concat (map snd (filter (\<lambda>p. \<forall>x \<in> set (remove1 s (aio_write_list io)). fst p < x) (aio_write_waiters io)))"
    "aio_write_waiters io' = filter (\<lambda>p. \<exists>x \<in> set (remove1 s (aio_write_list io)). x \<le> fst p) (aio_write_waiters io)"
proof -
  note c = assms(2) [unfolded complete_aio_write_char [OF assms(1)] prod.inject]
  show f: "aio_write_list io' = remove1 s (aio_write_list io)" "aio_write_seq io' = aio_write_seq io"
    "q = concat (map snd (filter (\<lambda>p. \<forall>x \<in> set (remove1 s (aio_write_list io)). fst p < x) (aio_write_waiters io)))"
    "aio_write_waiters io' = filter (\<lambda>p. \<exists>x \<in> set (remove1 s (aio_write_list io)). x \<le> fst p) (aio_write_waiters io)"
    using c by auto
  have "sorted_wrt (<) (aio_write_list io)" "smap_ok (aio_write_waiters io)"
    using assms(1) by (simp_all add: io_ok_def)
  then have "sorted_wrt (<) (aio_write_list io')" "smap_ok (aio_write_waiters io')"
    unfolding f by (simp_all add: strict_sorted_iff sorted_remove1 smap_ok_def distinct_map_filter sorted_filter)
  moreover have "x \<le> aio_write_seq io'" if "x \<in> set (aio_write_list io')" for x
    using that assms(1) notin_set_remove1 [of x] unfolding f io_ok_def by blast
  ultimately show "io_ok io'" using assms(1) unfolding io_ok_def f by auto
qed

lemma queue_ok:
  assumes "io_ok io" "aio_write_seq io \<noteq> - 1" "queue_aio_write io = (s, io')"
  shows "io_ok io'" "\<forall>x \<in> set (aio_write_list io). x < s" "\<forall>t \<in> fst ` set (aio_write_waiters io). t < s"
proof -
  have s: "s = aio_write_seq io + 1" "aio_write_list io' = aio_write_list io @ [s]" "aio_write_seq io' = s"
    "aio_write_waiters io' = aio_write_waiters io"
    using assms(3) by (auto simp: queue_aio_write_def Let_def)
  have lt: "aio_write_seq io < s"
  proof -
    have "1 + aio_write_seq io \<noteq> 0" using assms(2) by (metis add.commute eq_neg_iff_add_eq_0)
    from unatSuc [OF this] show ?thesis by (simp add: s(1) word_less_nat_alt add.commute)
  qed
  show "\<forall>x \<in> set (aio_write_list io). x < s" "\<forall>t \<in> fst ` set (aio_write_waiters io). t < s"
    using assms(1) lt unfolding io_ok_def by (meson le_less_trans)+
  then show "io_ok io'" using assms(1) lt unfolding io_ok_def s
    by (auto simp: sorted_wrt_append intro: less_imp_le)
qed

lemma flush_ok:
  assumes "io_ok io" "flush_aio_writes_async c io = (q, io')"
  shows "io_ok io'" "aio_write_list io' = aio_write_list io" "aio_write_seq io' = aio_write_seq io"
    "q = (if aio_write_list io = [] then [c] else [])"
    "aio_write_list io \<noteq> [] \<Longrightarrow> \<exists>cs. (aio_write_seq io, cs) \<in> set (aio_write_waiters io') \<and> c \<in> set cs"
proof -
  let ?s = "aio_write_seq io" and ?l = "aio_write_list io" and ?w = "aio_write_waiters io"
  let ?w' = "smap_put ?s (fst (smap_at [] ?s ?w) @ [c]) ?w"
  have e: "(q, io') = (if ?l = [] then ([c], io) else ([], io\<lparr>aio_write_waiters := ?w'\<rparr>))"
    using assms(2) by (auto simp: flush_aio_writes_async_def Let_def)
  have w: "smap_ok ?w" using assms(1) by (simp add: io_ok_def)
  have keys: "fst ` set ?w' = insert ?s (fst ` set ?w)"
    by (metis dom_map_of_conv_image_fst map_of_smap_put dom_fun_upd option.distinct(1))
  show "io_ok io'"
  proof (cases "?l = []")
    case False
    then obtain x where "x \<in> set ?l" by (cases ?l) auto
    then have "\<exists>x \<in> set ?l. x \<le> ?s" using assms(1) by (auto simp: io_ok_def)
    then show ?thesis using e False assms(1) w unfolding io_ok_def by (auto simp: keys)
  qed (use e assms(1) in auto)
  show "aio_write_list io' = ?l" "aio_write_seq io' = ?s" "q = (if ?l = [] then [c] else [])"
    using e by (auto split: if_splits)
  show "\<exists>cs. (?s, cs) \<in> set (aio_write_waiters io') \<and> c \<in> set cs" if "?l \<noteq> []"
  proof -
    have "map_of ?w' ?s = Some (fst (smap_at [] ?s ?w) @ [c])" by simp
    then have "(?s, fst (smap_at [] ?s ?w) @ [c]) \<in> set ?w'" by (rule map_of_SomeD)
    then show ?thesis using e that by auto
  qed
qed

subsection \<open>Histories\<close>

datatype io_event = IQueue | IDone u64 | IFlush nat

fun io_step :: "io_event \<Rightarrow> io_ctx \<Rightarrow> nat list \<times> io_ctx" where
  "io_step IQueue io = ([], snd (queue_aio_write io))"
| "io_step (IDone s) io = complete_aio_write s io"
| "io_step (IFlush c) io = flush_aio_writes_async c io"

text \<open>Everybody woken by a sequence of events, in order.\<close>

fun io_run :: "io_event list \<Rightarrow> io_ctx \<Rightarrow> nat list \<times> io_ctx" where
  "io_run [] io = ([], io)"
| "io_run (e # es) io = (let (q, io1) = io_step e io; (q2, io2) = io_run es io1 in (q @ q2, io2))"

text \<open>A completion that waits for the writes up to a number, and for nothing else.\<close>

definition waits :: "nat \<Rightarrow> u64 \<Rightarrow> io_ctx \<Rightarrow> bool" where
  "waits c t io \<longleftrightarrow> (\<exists>cs. (t, cs) \<in> set (aio_write_waiters io) \<and> c \<in> set cs)
     \<and> (\<forall>u cs. (u, cs) \<in> set (aio_write_waiters io) \<and> c \<in> set cs \<longrightarrow> u = t)"

definition before :: "u64 \<Rightarrow> io_ctx \<Rightarrow> u64 set" where
  "before t io = {x \<in> set (aio_write_list io). x \<le> t}"

lemma waits_before: "io_ok io \<Longrightarrow> waits c t io \<Longrightarrow> before t io \<noteq> {}"
  by (fastforce simp: io_ok_def waits_def before_def)

lemma waits_queue:
  assumes "io_ok io" "aio_write_seq io \<noteq> - 1" "waits c t io" "queue_aio_write io = (s, io')"
  shows "waits c t io'" "before t io' = before t io"
proof -
  have f: "aio_write_list io' = aio_write_list io @ [s]" "aio_write_waiters io' = aio_write_waiters io"
    using assms(4) by (auto simp: queue_aio_write_def Let_def)
  show "waits c t io'" using assms(3) by (simp add: waits_def f)
  have "t < s" using queue_ok(3) [OF assms(1,2,4)] assms(3) by (force simp: waits_def)
  then show "before t io' = before t io" by (auto simp: before_def f)
qed

lemma waits_done:
  assumes "io_ok io" "waits c t io" "complete_aio_write s io = (q, io')"
  shows "before t io' = before t io - {s}" "c \<in> set q \<longleftrightarrow> before t io' = {}" "before t io' \<noteq> {} \<Longrightarrow> waits c t io'"
proof -
  note o = complete_ok [OF assms(1,3)]
  have "distinct (aio_write_list io)" using assms(1) by (simp add: io_ok_def strict_sorted_iff)
  then have l: "set (remove1 s (aio_write_list io)) = set (aio_write_list io) - {s}" by simp
  then show b: "before t io' = before t io - {s}" by (auto simp: before_def o(2))
  have none: "(\<forall>x \<in> set (remove1 s (aio_write_list io)). t < x) \<longleftrightarrow> before t io' = {}"
    by (auto simp: before_def o(2) not_le [symmetric])
  show "c \<in> set q \<longleftrightarrow> before t io' = {}"
  proof -
    have "c \<in> set q \<longleftrightarrow> (\<exists>u cs. (u, cs) \<in> set (aio_write_waiters io) \<and> c \<in> set cs
        \<and> (\<forall>x \<in> set (remove1 s (aio_write_list io)). u < x))"
      unfolding o(4) by force
    then show ?thesis using assms(2) none unfolding waits_def by blast
  qed
  show "waits c t io'" if "before t io' \<noteq> {}"
  proof -
    have "\<exists>x \<in> set (remove1 s (aio_write_list io)). x \<le> t" using that none by (meson not_le)
    moreover have m: "(u, cs) \<in> set (aio_write_waiters io') \<longleftrightarrow> (u, cs) \<in> set (aio_write_waiters io)
        \<and> (\<exists>x \<in> set (remove1 s (aio_write_list io)). x \<le> u)" for u cs
      by (simp add: o(5))
    ultimately show ?thesis using assms(2) unfolding waits_def m by blast
  qed
qed

lemma waits_flush:
  assumes "io_ok io" "waits c t io" "c' \<noteq> c" "flush_aio_writes_async c' io = (q, io')"
  shows "waits c t io'" "before t io' = before t io" "q = []"
proof -
  let ?s = "aio_write_seq io" and ?w = "aio_write_waiters io"
  have ne: "aio_write_list io \<noteq> []" using waits_before [OF assms(1,2)] by (auto simp: before_def)
  let ?cs = "fst (smap_at [] ?s ?w) @ [c']"
  have w: "aio_write_waiters io' = smap_put ?s ?cs ?w" and q: "q = []"
    using assms(4) ne by (auto simp: flush_aio_writes_async_def Let_def)
  have ok: "smap_ok ?w" "smap_ok (smap_put ?s ?cs ?w)" using assms(1) by (simp_all add: io_ok_def)
  have m: "(u, cs) \<in> set (smap_put ?s ?cs ?w) \<longleftrightarrow> (if u = ?s then cs = ?cs else (u, cs) \<in> set ?w)" for u cs
    using map_of_eq_Some_iff [OF smap_ok_distinct [OF ok(2)], of u cs]
      map_of_eq_Some_iff [OF smap_ok_distinct [OF ok(1)], of u cs] by auto
  have old: "c \<in> set ?cs \<longleftrightarrow> (\<exists>cs. (?s, cs) \<in> set ?w \<and> c \<in> set cs)"
    unfolding map_of_eq_Some_iff [OF smap_ok_distinct [OF ok(1)], symmetric] using assms(3)
    by (cases "map_of ?w ?s") (simp_all add: smap_at_def)
  show "waits c t io'"
    unfolding waits_def w m
  proof (intro conjI allI impI)
    show "\<exists>cs. (if t = ?s then cs = ?cs else (t, cs) \<in> set ?w) \<and> c \<in> set cs"
    proof (cases "t = ?s")
      case True
      then have "c \<in> set ?cs" using assms(2) unfolding old waits_def by blast
      then show ?thesis using True by (intro exI [of _ ?cs]) (simp only: if_True simp_thms)
    next
      case False
      then show ?thesis using assms(2) unfolding waits_def by simp
    qed
    fix u cs assume u: "(if u = ?s then cs = ?cs else (u, cs) \<in> set ?w) \<and> c \<in> set cs"
    show "u = t"
    proof (cases "u = ?s")
      case True
      then have "c \<in> set ?cs" using u unfolding if_P [OF True] by blast
      then show ?thesis using old assms(2) True unfolding waits_def by blast
    next
      case False
      then show ?thesis using u assms(2) unfolding waits_def if_not_P [OF False] by blast
    qed
  qed
  show "before t io' = before t io" by (simp add: before_def flush_ok(2) [OF assms(1,4)])
  show "q = []" by (rule q)
qed

lemma io_run_wakes:
  assumes "io_ok io" "waits c t io" "\<forall>e \<in> set es. e \<noteq> IFlush c" "unat (aio_write_seq io) + length es < 2 ^ 64 - 1"
  shows "c \<in> set (fst (io_run es io)) \<longleftrightarrow> before t io \<subseteq> {s. IDone s \<in> set es}"
  using assms
proof (induction es arbitrary: io)
  case Nil
  then show ?case using waits_before by auto
next
  case (Cons e es)
  have nowrap: "aio_write_seq io \<noteq> - 1"
  proof
    assume "aio_write_seq io = - 1"
    then have "unat (aio_write_seq io) = 2 ^ 64 - 1" by (simp add: unsigned_minus_1_eq_mask mask_eq_exp_minus_1)
    then show False using Cons.prems(4) by linarith
  qed
  obtain q io1 where st: "io_step e io = (q, io1)" by fastforce
  have run: "set (fst (io_run (e # es) io)) = set q \<union> set (fst (io_run es io1))"
    by (simp add: st split: prod.split)
  have es: "\<forall>e \<in> set es. e \<noteq> IFlush c" using Cons.prems(3) by simp
  show ?case
  proof (cases e)
    case IQueue
    obtain s where s: "queue_aio_write io = (s, io1)" and q: "q = []" using st IQueue by (cases "queue_aio_write io") auto
    have "aio_write_seq io1 = aio_write_seq io + 1" using s by (auto simp: queue_aio_write_def Let_def)
    then have "unat (aio_write_seq io1) \<le> unat (aio_write_seq io) + 1"
      using unat_add_le [of "aio_write_seq io" 1] by simp
    then have b: "unat (aio_write_seq io1) + length es < 2 ^ 64 - 1" using Cons.prems(4) unfolding list.size by linarith
    note w = waits_queue [OF Cons.prems(1) nowrap Cons.prems(2) s]
    show ?thesis
      using Cons.IH [OF queue_ok(1) [OF Cons.prems(1) nowrap s] w(1) es b] IQueue unfolding run q w(2) by simp
  next
    case (IFlush c')
    have s: "flush_aio_writes_async c' io = (q, io1)" "c' \<noteq> c" using st IFlush Cons.prems(3) by auto
    note w = waits_flush [OF Cons.prems(1,2) s(2,1)] and f = flush_ok [OF Cons.prems(1) s(1)]
    have b: "unat (aio_write_seq io1) + length es < 2 ^ 64 - 1" using Cons.prems(4) unfolding f(3) list.size by linarith
    show ?thesis using Cons.IH [OF f(1) w(1) es b] IFlush unfolding run w(2,3) by simp
  next
    case (IDone s)
    have d: "complete_aio_write s io = (q, io1)" using st IDone by simp
    note w = waits_done [OF Cons.prems(1,2) d] and f = complete_ok [OF Cons.prems(1) d]
    have b: "unat (aio_write_seq io1) + length es < 2 ^ 64 - 1" using Cons.prems(4) unfolding f(3) list.size by linarith
    show ?thesis
    proof (cases "before t io1 = {}")
      case True
      then have "c \<in> set q" "before t io \<subseteq> {s}" using w(1,2) by auto
      then show ?thesis using IDone unfolding run by auto
    next
      case False
      have "c \<in> set (fst (io_run es io1)) \<longleftrightarrow> before t io1 \<subseteq> {s. IDone s \<in> set es}"
        by (rule Cons.IH [OF f(1) w(3) [OF False] es b])
      moreover have "c \<notin> set q" using w(2) False by simp
      ultimately show ?thesis using w(1) IDone unfolding run by auto
    qed
  qed
qed

text \<open>C11. A flush of a pool waits for exactly the writes that were in flight when it was called: if there
  are none it is done at once; otherwise, whatever writes and other flushes come later and in
  whatever order writes complete, its completion is woken if and only if all of those writes have
  completed.\<close>

theorem flush_waits_exactly:
  assumes "io_ok io" "\<forall>cs \<in> snd ` set (aio_write_waiters io). c \<notin> set cs" "flush_aio_writes_async c io = (q, io0)"
    "\<forall>e \<in> set es. e \<noteq> IFlush c" "unat (aio_write_seq io) + length es < 2 ^ 64 - 1"
  shows "(aio_write_list io = [] \<longrightarrow> q = [c]) \<and>
    (aio_write_list io \<noteq> [] \<longrightarrow> q = [] \<and>
       (c \<in> set (fst (io_run es io0)) \<longleftrightarrow> set (aio_write_list io) \<subseteq> {s. IDone s \<in> set es}))"
proof (intro conjI impI)
  note f = flush_ok [OF assms(1,3)]
  show "q = [c]" if "aio_write_list io = []" using f(4) that by simp
  assume ne: "aio_write_list io \<noteq> []"
  show "q = []" using f(4) ne by simp
  let ?s = "aio_write_seq io"
  obtain cs where cs: "(?s, cs) \<in> set (aio_write_waiters io0)" "c \<in> set cs" using f(5) [OF ne] by blast
  have "u = ?s" if "(u, ds) \<in> set (aio_write_waiters io0)" "c \<in> set ds" for u ds
  proof (rule ccontr)
    assume u: "u \<noteq> ?s"
    have ok: "smap_ok (aio_write_waiters io0)" "smap_ok (aio_write_waiters io)" using f(1) assms(1) by (simp_all add: io_ok_def)
    have "aio_write_waiters io0 = smap_put ?s (fst (smap_at [] ?s (aio_write_waiters io)) @ [c]) (aio_write_waiters io)"
      using assms(3) ne by (auto simp: flush_aio_writes_async_def Let_def)
    moreover have "map_of (aio_write_waiters io0) u = Some ds"
      using that(1) map_of_eq_Some_iff [OF smap_ok_distinct [OF ok(1)]] by simp
    ultimately have "map_of (aio_write_waiters io) u = Some ds" using u by simp
    then have "(u, ds) \<in> set (aio_write_waiters io)" by (rule map_of_SomeD)
    then show False using assms(2) that(2) by force
  qed
  then have w: "waits c ?s io0" using cs unfolding waits_def by blast
  have b: "before ?s io0 = set (aio_write_list io)"
    using assms(1) by (auto simp: before_def f(2) io_ok_def)
  show "c \<in> set (fst (io_run es io0)) \<longleftrightarrow> set (aio_write_list io) \<subseteq> {s. IDone s \<in> set es}"
    using io_run_wakes [OF f(1) w assms(4)] assms(5) unfolding b f(3) by blast
qed

definition io_2 :: io_ctx where
  "io_2 = \<lparr>aio_write_seq = 2, aio_write_list = [1, 2], aio_write_waiters = []\<rparr>"

lemma io_2_ok: "io_ok io_2"
  by (simp add: io_ok_def io_2_def)

lemma flush_waits_exactly_witness:
  "7 \<in> set (fst (io_run [IDone 2, IQueue, IDone 1] (snd (flush_aio_writes_async 7 io_2))))
    \<and> 7 \<notin> set (fst (io_run [IDone 2, IQueue] (snd (flush_aio_writes_async 7 io_2))))"
proof -
  obtain q io0 where f: "flush_aio_writes_async 7 io_2 = (q, io0)" by fastforce
  have s: "aio_write_list io_2 = [1, 2]" "aio_write_seq io_2 = 2" "aio_write_waiters io_2 = []"
    by (simp_all add: io_2_def)
  show ?thesis
    using flush_waits_exactly [OF io_2_ok _ f, of "[IDone 2, IQueue, IDone 1]"]
      flush_waits_exactly [OF io_2_ok _ f, of "[IDone 2, IQueue]"]
    by (simp add: f s)
qed

text \<open>
  The same completion at both pools: woken twice, it calls its callback the first time only.
\<close>

lemma finish_twice:
  "complete_and_safe r2 (snd (snd (complete_and_safe r1 c))) = 
     (False, False, snd (snd (complete_and_safe r2 (snd (snd (complete_and_safe r1 c))))))"
  by (simp add: complete_and_safe_def)

text \<open>C35. The asynchronous flush of an image is done when one pool is: with no writes in flight on the HDD
  pool, the first entry of the finisher's queue completes the flush, whatever is still in flight on
  the SSD pool - and the same with the pools exchanged.\<close>

theorem aio_flush_waits_for_one:
  assumes "ic_last_refresh (fl_ictx st) = ic_refresh_seq (fl_ictx st)" "fl_c st = aio_create_completion"
    "fl_finisher st = []" "aio_write_list (fl_hdd st) = [] \<or> aio_write_list (fl_ssd st) = []"
  shows "\<exists>st1 st2. aio_flush ev cf st = Some (0, st1) \<and> \<not> c_done (fl_c st1) \<and> finisher_step st1 = Some st2
    \<and> c_done (fl_c st2) \<and> c_rval (fl_c st2) = 0
    \<and> aio_write_list (fl_hdd st2) = aio_write_list (fl_hdd st) \<and> aio_write_list (fl_ssd st2) = aio_write_list (fl_ssd st)"
proof -
  obtain q1 hdd where h: "flush_aio_writes_async (fl_me st) (fl_hdd st) = (q1, hdd)" by fastforce
  obtain q2 ssd where s: "flush_aio_writes_async (fl_me st) (fl_ssd st) = (q2, ssd)" by fastforce
  have keep: "aio_write_list hdd = aio_write_list (fl_hdd st)" "aio_write_list ssd = aio_write_list (fl_ssd st)"
    using h s by (auto simp: flush_aio_writes_async_def Let_def split: if_splits)
  have q: "q1 = (if aio_write_list (fl_hdd st) = [] then [fl_me st] else [])"
    "q2 = (if aio_write_list (fl_ssd st) = [] then [fl_me st] else [])"
    using h s by (auto simp: flush_aio_writes_async_def Let_def split: if_splits)
  then obtain xs where xs: "q1 @ q2 = fl_me st # xs"
    using assms(4) by (cases "aio_write_list (fl_hdd st) = []") auto
  show ?thesis
    using assms(1,2,3) keep xs
    by (simp add: aio_flush_def ictx_check_def h s c_get_def add_request_def init_time_def finish_adding_requests_def
        put_unlock_def aio_create_completion_def finisher_step_def complete_and_safe_def new_rados_comp_def
        complete_request_def Let_def update_rval_def finalize_def complete_def)
qed

definition flush_start :: flush_state where
  "flush_start = \<lparr>fl_hdd = \<lparr>aio_write_seq = 0, aio_write_list = [], aio_write_waiters = []\<rparr>, fl_ssd = io_2,
     fl_finisher = [], fl_me = 7, fl_comp = new_rados_comp False True, fl_ictx = image_9M, fl_c = aio_create_completion\<rparr>"

definition conf_0 :: rbd_conf where
  "conf_0 = \<lparr>cf_cache_writethrough_until_flush = False, cf_cache_max_dirty = 0,
     cf_balance_snap_reads = False, cf_localize_snap_reads = False\<rparr>"

lemma aio_flush_waits_for_one_witness:
  "\<exists>st1 st2. aio_flush quiet_env conf_0 flush_start = Some (0, st1) \<and> finisher_step st1 = Some st2
    \<and> c_done (fl_c st2) \<and> aio_write_list (fl_ssd st2) = [1, 2]"
proof -
  have "\<exists>st1 st2. aio_flush quiet_env conf_0 flush_start = Some (0, st1) \<and> \<not> c_done (fl_c st1) \<and> finisher_step st1 = Some st2
    \<and> c_done (fl_c st2) \<and> c_rval (fl_c st2) = 0
    \<and> aio_write_list (fl_hdd st2) = aio_write_list (fl_hdd flush_start)
    \<and> aio_write_list (fl_ssd st2) = aio_write_list (fl_ssd flush_start)"
    by (rule aio_flush_waits_for_one) (simp_all add: flush_start_def image_9M_def)
  then show ?thesis by (auto simp: flush_start_def io_2_def)
qed

end
