(* ===== verification/Encoding.thy ===== *)
theory Encoding
  imports Stdmap Textio
begin

text \<open>
  \<open>include/encoding.h\<close>, the wire format of the values that the class methods of \<open>cls/rbd\<close> keep in
  the key map of an object: little-endian integers, strings and sets behind a 32-bit count, and
  structures behind a version, the oldest version that can read them, and their length. A decoder
  takes the bytes that are left and returns the value and the rest; \<open>None\<close> is a \<open>buffer::error\<close>
  (end of buffer or malformed input). Buffers are shorter than 4 GiB, so offsets do not wrap.
  The locale \<open>codec\<close> is the contract of an encoder and its decoder; it is interpreted on every
  pair, here and in \<open>Cls_Types\<close>.
\<close>

subsection \<open>The contract\<close>

locale codec =
  fixes enc :: "'a \<Rightarrow> bytes"
    and dec :: "bytes \<Rightarrow> ('a \<times> bytes) option"
    and fits :: "'a \<Rightarrow> bool"
  assumes dec_enc: "fits x \<Longrightarrow> dec (enc x @ p) = Some (x, p)"
begin

lemma dec_enc_end: "fits x \<Longrightarrow> dec (enc x) = Some (x, [])"
  using dec_enc [of x "[]"] by simp

lemma enc_append_inj: "fits x \<Longrightarrow> fits y \<Longrightarrow> enc x @ p = enc y @ q \<Longrightarrow> x = y \<and> p = q"
  by (metis dec_enc option.inject prod.inject)

lemma enc_inj: "fits x \<Longrightarrow> fits y \<Longrightarrow> enc x = enc y \<Longrightarrow> x = y"
  using enc_append_inj [of x y "[]" "[]"] by simp

end

subsection \<open>Pairs\<close>

text \<open>The arguments of a class method are such a sequence of encodings.\<close>

definition encode_pair :: "('a \<Rightarrow> bytes) \<Rightarrow> ('b \<Rightarrow> bytes) \<Rightarrow> 'a \<times> 'b \<Rightarrow> bytes" where
  "encode_pair ea eb x = ea (fst x) @ eb (snd x)"

definition decode_pair ::
    "(bytes \<Rightarrow> ('a \<times> bytes) option) \<Rightarrow> (bytes \<Rightarrow> ('b \<times> bytes) option) \<Rightarrow>
     bytes \<Rightarrow> (('a \<times> 'b) \<times> bytes) option" where
  "decode_pair da db p =
     (case da p of None \<Rightarrow> None | Some (a, p) \<Rightarrow>
      (case db p of None \<Rightarrow> None | Some (b, p) \<Rightarrow> Some ((a, b), p)))"

locale codec_pair = a: codec ea da fa + b: codec eb db fb
  for ea :: "'a \<Rightarrow> bytes" and da fa and eb :: "'b \<Rightarrow> bytes" and db fb

sublocale codec_pair \<subseteq> pair: codec "encode_pair ea eb" "decode_pair da db" "\<lambda>x. fa (fst x) \<and> fb (snd x)"
  by unfold_locales (auto simp: encode_pair_def decode_pair_def a.dec_enc b.dec_enc)

subsection \<open>Integers\<close>

fun le_bytes :: "nat \<Rightarrow> nat \<Rightarrow> bytes" where
  "le_bytes 0 x = []"
| "le_bytes (Suc n) x = of_nat (x mod 256) # le_bytes n (x div 256)"

fun le_nat :: "bytes \<Rightarrow> nat" where
  "le_nat [] = 0"
| "le_nat (b # bs) = unat b + 256 * le_nat bs"

lemma length_le_bytes [simp]: "length (le_bytes n x) = n"
  by (induction n arbitrary: x) auto

lemma le_nat_le_bytes: "le_nat (le_bytes n x) = x mod 256 ^ n"
proof (induction n arbitrary: x)
  case 0
  then show ?case by simp
next
  case (Suc n)
  have "unat (of_nat (x mod 256) :: u8) = x mod 256"
    by (simp add: unat_of_nat take_bit_nat_eq_self)
  then show ?case
    by (simp add: Suc mod_mult2_eq)
qed

definition decode_raw :: "nat \<Rightarrow> bytes \<Rightarrow> (bytes \<times> bytes) option" where
  "decode_raw n p = (if length p < n then None else Some (take n p, drop n p))"

lemma decode_raw_append: "n = length b \<Longrightarrow> decode_raw n (b @ p) = Some (b, p)"
  by (simp add: decode_raw_def)

definition encode_u8 :: "u8 \<Rightarrow> bytes" where
  "encode_u8 v = [v]"

definition decode_u8 :: "bytes \<Rightarrow> (u8 \<times> bytes) option" where
  "decode_u8 p = (case decode_raw 1 p of None \<Rightarrow> None | Some (b, p) \<Rightarrow> Some (hd b, p))"

definition encode_u32 :: "u32 \<Rightarrow> bytes" where
  "encode_u32 v = le_bytes 4 (unat v)"

definition decode_u32 :: "bytes \<Rightarrow> (u32 \<times> bytes) option" where
  "decode_u32 p = (case decode_raw 4 p of None \<Rightarrow> None | Some (b, p) \<Rightarrow> Some (of_nat (le_nat b), p))"

definition encode_u64 :: "u64 \<Rightarrow> bytes" where
  "encode_u64 v = le_bytes 8 (unat v)"

definition decode_u64 :: "bytes \<Rightarrow> (u64 \<times> bytes) option" where
  "decode_u64 p = (case decode_raw 8 p of None \<Rightarrow> None | Some (b, p) \<Rightarrow> Some (of_nat (le_nat b), p))"

interpretation c8: codec encode_u8 decode_u8 "\<lambda>_. True"
  by unfold_locales (simp add: encode_u8_def decode_u8_def decode_raw_def)

interpretation c32: codec encode_u32 decode_u32 "\<lambda>_. True"
proof
  fix x :: u32 and p
  have "unat x mod 256 ^ 4 = unat x" using unat_lt [of x] by simp
  then show "decode_u32 (encode_u32 x @ p) = Some (x, p)"
    by (simp add: encode_u32_def decode_u32_def decode_raw_append le_nat_le_bytes)
qed

interpretation c64: codec encode_u64 decode_u64 "\<lambda>_. True"
proof
  fix x :: u64 and p
  have "unat x mod 256 ^ 8 = unat x" using unat_lt [of x] by simp
  then show "decode_u64 (encode_u64 x @ p) = Some (x, p)"
    by (simp add: encode_u64_def decode_u64_def decode_raw_append le_nat_le_bytes)
qed

lemma length_encode_u32 [simp]: "length (encode_u32 v) = 4"
  by (simp add: encode_u32_def)

lemma length_encode_u64 [simp]: "length (encode_u64 v) = 8"
  by (simp add: encode_u64_def)

subsection \<open>Strings and sets\<close>

text \<open>The count is the length narrowed to 32 bits; what fits is what is shorter than that.\<close>

definition short :: "'a list \<Rightarrow> bool" where
  "short xs \<longleftrightarrow> length xs < 2 ^ 32"

lemma unat_short: "short xs \<Longrightarrow> unat (of_nat (length xs) :: u32) = length xs"
  by (simp add: short_def take_bit_nat_eq_self unat_of_nat)

definition encode_string :: "string \<Rightarrow> bytes" where
  "encode_string s =
     (let len = of_nat (length s) :: u32 in encode_u32 len @ take (unat len) (bytes_of s))"

definition decode_string :: "bytes \<Rightarrow> (string \<times> bytes) option" where
  "decode_string p =
     (case decode_u32 p of
        None \<Rightarrow> None
      | Some (len, p) \<Rightarrow> (case decode_raw (unat len) p of None \<Rightarrow> None | Some (b, p) \<Rightarrow> Some (string_of b, p)))"

interpretation cstr: codec encode_string decode_string short
  by unfold_locales
    (simp add: encode_string_def decode_string_def unat_short c32.dec_enc decode_raw_append)

text \<open>A \<open>std::set\<close> is a sorted list without duplicates.\<close>

definition set_insert :: "'a::linorder \<Rightarrow> 'a list \<Rightarrow> 'a list" where
  "set_insert x s = (if x \<in> set s then s else insort x s)"

definition encode_set :: "string list \<Rightarrow> bytes" where
  "encode_set s = encode_u32 (of_nat (length s)) @ concat (map encode_string s)"

fun decode_strings :: "nat \<Rightarrow> string list \<Rightarrow> bytes \<Rightarrow> (string list \<times> bytes) option" where
  "decode_strings 0 s p = Some (s, p)"
| "decode_strings (Suc n) s p =
     (case decode_string p of None \<Rightarrow> None | Some (v, p) \<Rightarrow> decode_strings n (set_insert v s) p)"

definition decode_set :: "bytes \<Rightarrow> (string list \<times> bytes) option" where
  "decode_set p =
     (case decode_u32 p of None \<Rightarrow> None | Some (n, p) \<Rightarrow> decode_strings (unat n) [] p)"

definition string_set :: "string list \<Rightarrow> bool" where
  "string_set s \<longleftrightarrow> short s \<and> (\<forall>v \<in> set s. short v) \<and> sorted s \<and> distinct s"

lemma insort_append_greatest: "\<forall>y \<in> set s. y < x \<Longrightarrow> insort x s = s @ [x]"
  by (induction s) (auto simp: not_le)

lemma decode_strings_enc:
  "\<forall>v \<in> set s. short v \<Longrightarrow> sorted_wrt (<) (t @ s) \<Longrightarrow>
     decode_strings (length s) t (concat (map encode_string s) @ p) = Some (t @ s, p)"
proof (induction s arbitrary: t)
  case Nil
  then show ?case by simp
next
  case (Cons v s)
  have below: "\<forall>y \<in> set t. y < v" using Cons.prems(2) by (auto simp: sorted_wrt_append)
  then have "set_insert v t = t @ [v]"
    by (auto simp: set_insert_def insort_append_greatest)
  moreover have "decode_string (encode_string v @ q) = Some (v, q)" for q
    using cstr.dec_enc Cons.prems(1) by simp
  ultimately show ?case
    using Cons.IH [of "t @ [v]"] Cons.prems by simp
qed

interpretation cset: codec encode_set decode_set string_set
proof
  fix s :: "string list" and p
  assume s: "string_set s"
  then have "sorted_wrt (<) ([] @ s)" by (simp add: string_set_def strict_sorted_iff)
  with s decode_strings_enc [of s "[]" p] show "decode_set (encode_set s @ p) = Some (s, p)"
    by (simp add: decode_set_def encode_set_def c32.dec_enc string_set_def unat_short)
qed

subsection \<open>Structures\<close>

definition encode_struct :: "u8 \<Rightarrow> u8 \<Rightarrow> bytes \<Rightarrow> bytes" where
  "encode_struct v cv body =
     encode_u8 v @ encode_u8 cv @ encode_u32 (of_nat (length body)) @ body"

text \<open>
  A decoder of the body gets the version found. \<open>struct_fields\<close> is the decoding without the final
  check that the body did not read beyond its length: it says what a decoding that fails only there
  leaves in its target. Bytes that the body leaves are skipped.
\<close>

definition struct_fields ::
    "u8 \<Rightarrow> (u8 \<Rightarrow> bytes \<Rightarrow> ('a \<times> bytes) option) \<Rightarrow> bytes \<Rightarrow> ('a \<times> nat \<times> u32 \<times> bytes) option" where
  "struct_fields v body p =
     (case decode_u8 p of None \<Rightarrow> None | Some (struct_v, p) \<Rightarrow>
      (case decode_u8 p of None \<Rightarrow> None | Some (struct_compat, p) \<Rightarrow>
       if v < struct_compat then None
       else
       (case decode_u32 p of None \<Rightarrow> None | Some (struct_len, p) \<Rightarrow>
        if length p < unat struct_len then None
        else
        (case body struct_v p of None \<Rightarrow> None | Some (x, q) \<Rightarrow>
         Some (x, length p - length q, struct_len, p)))))"

definition decode_struct :: "u8 \<Rightarrow> (u8 \<Rightarrow> bytes \<Rightarrow> ('a \<times> bytes) option) \<Rightarrow> bytes \<Rightarrow> ('a \<times> bytes) option" where
  "decode_struct v body p =
     (case struct_fields v body p of
        None \<Rightarrow> None
      | Some (x, used, struct_len, p) \<Rightarrow>
          if unat struct_len < used then None else Some (x, drop (unat struct_len) p))"

lemma decode_encode_struct:
  assumes "\<And>q. body v (b @ q) = Some (x, q)" "cv \<le> v" "short b"
  shows "decode_struct v body (encode_struct v cv b @ p) = Some (x, p)"
  using assms by (simp add: decode_struct_def struct_fields_def encode_struct_def c8.dec_enc c32.dec_enc unat_short not_less)

end
