(* ===== verification/Objclass.thy ===== *)
theory Objclass
  imports Osd_Ops Encoding
begin

text \<open>
  \<open>objclass/class_api.cc\<close>: what a class method can do to its object. The method runs inside an
  operation of the OSD: reads of the key map see the object as it is stored, while changes are
  gathered in the transaction and only existence and size show them before it is applied
  (\<open>ReplicatedPG::do_osd_ops\<close>). The context holds both objects. \<open>cls_call\<close> runs a method as the only
  operation of a transaction.
  Lemmas: reading keys back through a \<open>codec\<close>, and the interface \<open>paged\<close> of listings that return a
  limited number of entries after a key, interpreted on the two listings of the key map.
\<close>

subsection \<open>Key map reads of the OSD\<close>

text \<open>Listing the keys of a missing object fails an assertion (\<open>None\<close>).\<close>

definition op_omap_get_keys :: "string \<Rightarrow> nat \<Rightarrow> osd_object option \<Rightarrow> string list option" where
  "op_omap_get_keys start_after max_return obs =
     (case obs of
        None \<Rightarrow> None
      | Some ob \<Rightarrow> Some (take max_return (filter (\<lambda>k. start_after < k) (map fst (od_omap ob)))))"

text \<open>The error of the lookup in a missing object is not checked; nothing is found then.\<close>

definition op_omap_get_vals_by_keys ::
    "string list \<Rightarrow> osd_object option \<Rightarrow> (string, bytes) smap" where
  "op_omap_get_vals_by_keys keys_to_get obs =
     (case obs of
        None \<Rightarrow> []
      | Some ob \<Rightarrow> filter (\<lambda>(k, v). k \<in> set keys_to_get) (od_omap ob))"

subsection \<open>The context of a method\<close>

record cls_ctx =
  hc_stored :: "osd_object option"
  hc_new :: "osd_object option"

definition cls_stat :: "cls_ctx \<Rightarrow> int \<times> u64" where
  "cls_stat h = (case op_stat (hc_new h) of (r, StatOut s, _) \<Rightarrow> (r, s) | (r, _, _) \<Rightarrow> (r, 0))"

definition cls_create :: "bool \<Rightarrow> cls_ctx \<Rightarrow> int \<times> cls_ctx" where
  "cls_create exclusive h =
     (case op_create exclusive (hc_new h) of (r, _, ob) \<Rightarrow> (r, h\<lparr>hc_new := ob\<rparr>))"

definition cls_map_get_val :: "string \<Rightarrow> cls_ctx \<Rightarrow> int + bytes" where
  "cls_map_get_val key h =
     (case op_omap_get_vals_by_keys [key] (hc_stored h) of [] \<Rightarrow> Inl (- ENOENT) | (k, v) # _ \<Rightarrow> Inr v)"

definition cls_map_set_vals :: "(string, bytes) smap \<Rightarrow> cls_ctx \<Rightarrow> int \<times> cls_ctx" where
  "cls_map_set_vals m h =
     (case op_omap_set_vals m (hc_new h) of (r, _, ob) \<Rightarrow> (r, h\<lparr>hc_new := ob\<rparr>))"

definition cls_map_set_val :: "string \<Rightarrow> bytes \<Rightarrow> cls_ctx \<Rightarrow> int \<times> cls_ctx" where
  "cls_map_set_val key inbl h = cls_map_set_vals [(key, inbl)] h"

definition cls_map_remove_key :: "string \<Rightarrow> cls_ctx \<Rightarrow> int \<times> cls_ctx" where
  "cls_map_remove_key key h =
     (case op_omap_rm_keys [key] (hc_new h) of (r, _, ob) \<Rightarrow> (r, h\<lparr>hc_new := ob\<rparr>))"

definition cls_map_get_keys :: "string \<Rightarrow> nat \<Rightarrow> cls_ctx \<Rightarrow> string list option" where
  "cls_map_get_keys start_obj max_to_get h = op_omap_get_keys start_obj max_to_get (hc_stored h)"

definition cls_map_get_vals :: "string \<Rightarrow> string \<Rightarrow> nat \<Rightarrow> cls_ctx \<Rightarrow> int + (string, bytes) smap" where
  "cls_map_get_vals start_obj filter_prefix max_to_get h =
     (case op_omap_get_vals start_obj max_to_get filter_prefix (hc_stored h) of
        (r, OmapOut vals, _) \<Rightarrow> Inr vals
      | (r, _, _) \<Rightarrow> Inl r)"

text \<open>A method takes the bytes of its argument and returns its code, its output and the context;
  \<open>None\<close> is a failed assertion of the OSD. A negative code drops the transaction.\<close>

type_synonym cls_method = "bytes \<Rightarrow> cls_ctx \<Rightarrow> (int \<times> bytes \<times> cls_ctx) option"

definition cls_call ::
    "cls_method \<Rightarrow> bytes \<Rightarrow> osd_object option \<Rightarrow> (int \<times> bytes \<times> osd_object option) option" where
  "cls_call meth inp obs =
     (case meth inp \<lparr>hc_stored = obs, hc_new = obs\<rparr> of
        None \<Rightarrow> None
      | Some (r, out, h) \<Rightarrow> Some (r, out, if r < 0 then obs else hc_new h))"

definition read_key :: "(bytes \<Rightarrow> ('a \<times> bytes) option) \<Rightarrow> string \<Rightarrow> cls_ctx \<Rightarrow> int + 'a" where
  "read_key dec key h =
     (case cls_map_get_val key h of
        Inl r \<Rightarrow> Inl r
      | Inr bl \<Rightarrow> (case dec bl of None \<Rightarrow> Inl (- EIO) | Some (v, _) \<Rightarrow> Inr v))"

subsection \<open>The key map of an object\<close>

definition omap_of :: "osd_object option \<Rightarrow> (string, bytes) smap" where
  "omap_of obs = (case obs of None \<Rightarrow> [] | Some ob \<Rightarrow> od_omap ob)"

lemma omap_of_Some [simp]: "omap_of (Some ob) = od_omap ob"
  by (simp add: omap_of_def)

lemma omap_of_None [simp]: "omap_of None = []"
  by (simp add: omap_of_def)

lemma filter_key_empty: "filter (\<lambda>(k, v). k = key) m = [] \<longleftrightarrow> map_of m key = None"
  by (induction m) auto

lemma filter_key_hd: "map_of m key = Some w \<Longrightarrow> \<exists>rest. filter (\<lambda>(k, v). k = key) m = (key, w) # rest"
  by (induction m) (auto split: if_splits)

lemma cls_map_get_val:
  "cls_map_get_val key h =
     (case map_of (omap_of (hc_stored h)) key of None \<Rightarrow> Inl (- ENOENT) | Some v \<Rightarrow> Inr v)"
proof (cases "map_of (omap_of (hc_stored h)) key")
  case None
  then have "filter (\<lambda>(k, v). k = key) (omap_of (hc_stored h)) = []"
    by (simp only: filter_key_empty)
  then show ?thesis
    using None by (cases "hc_stored h") (simp_all add: cls_map_get_val_def op_omap_get_vals_by_keys_def)
next
  case (Some w)
  obtain rest where "filter (\<lambda>(k, v). k = key) (omap_of (hc_stored h)) = (key, w) # rest"
    using filter_key_hd [OF Some] by blast
  then show ?thesis
    using Some by (cases "hc_stored h") (simp_all add: cls_map_get_val_def op_omap_get_vals_by_keys_def)
qed

lemma read_key_missing: "map_of (omap_of (hc_stored h)) key = None \<Longrightarrow> read_key dec key h = Inl (- ENOENT)"
  by (simp add: read_key_def cls_map_get_val)

context codec
begin

lemma read_key_enc:
  "map_of (omap_of (hc_stored h)) key = Some (enc x) \<Longrightarrow> fits x \<Longrightarrow> read_key dec key h = Inr x"
  by (simp add: read_key_def cls_map_get_val dec_enc_end)

end

lemma cls_map_set_vals:
  "cls_map_set_vals m h =
     (0, h\<lparr>hc_new := Some ((the_default fresh_object (hc_new h))
        \<lparr>od_omap := fold (\<lambda>(k, v). smap_put k v) m (omap_of (hc_new h))\<rparr>)\<rparr>)"
  by (cases "hc_new h") (simp_all add: cls_map_set_vals_def op_omap_set_vals_def fresh_object_def)

lemma cls_map_remove_key:
  "hc_new h = Some ob \<Longrightarrow>
     cls_map_remove_key key h = (0, h\<lparr>hc_new := Some (ob\<lparr>od_omap := smap_erase key (od_omap ob)\<rparr>)\<rparr>)"
  by (simp add: cls_map_remove_key_def op_omap_rm_keys_def)

lemma cls_stat_exists: "hc_new h = Some ob \<Longrightarrow> cls_stat h = (0, od_size ob)"
  by (simp add: cls_stat_def op_stat_def)

lemma cls_stat_missing: "hc_new h = None \<Longrightarrow> cls_stat h = (- ENOENT, 0)"
  by (simp add: cls_stat_def op_stat_def)

subsection \<open>Listings in pages\<close>

locale paged =
  fixes ok :: "'m \<Rightarrow> bool"
    and entries :: "'m \<Rightarrow> 'e list"
    and key :: "'e \<Rightarrow> 'k::linorder"
    and fetch :: "'m \<Rightarrow> 'k \<Rightarrow> nat \<Rightarrow> 'e list"
  assumes entries_sorted: "ok m \<Longrightarrow> sorted_wrt (<) (map key (entries m))"
    and fetch: "ok m \<Longrightarrow> fetch m l n = take n (filter (\<lambda>e. l < key e) (entries m))"
begin

definition after :: "'m \<Rightarrow> 'k \<Rightarrow> 'e list" where
  "after m l = filter (\<lambda>e. l < key e) (entries m)"

lemma fetch_after: "ok m \<Longrightarrow> fetch m l n = take n (after m l)"
  by (simp add: fetch after_def)

lemma after_sorted: "ok m \<Longrightarrow> sorted_wrt (<) (map key (after m l))"
  using entries_sorted [of m] by (simp add: after_def sorted_wrt_map sorted_wrt_filter)

lemma last_page: "ok m \<Longrightarrow> length (fetch m l n) \<noteq> n \<Longrightarrow> fetch m l n = after m l"
  by (auto simp: fetch_after)

text \<open>What is left after a full page are the entries after its last one.\<close>

lemma full_page:
  assumes "ok m" "fetch m l n \<noteq> []"
  shows "after m (key (last (fetch m l n))) = drop n (after m l)"
proof -
  let ?x = "key (last (fetch m l n))"
  have parts: "fetch m l n @ drop n (after m l) = after m l"
    using assms(1) by (simp add: fetch_after)
  have s: "sorted_wrt (<) (map key (fetch m l n) @ map key (drop n (after m l)))"
    using after_sorted [OF assms(1), of l] parts by (metis map_append)
  obtain ys y where fy: "fetch m l n = ys @ [y]"
    using assms(2) by (metis append_butlast_last_id)
  have "\<not> ?x < key e" if "e \<in> set (fetch m l n)" for e
    using s that fy by (auto simp: sorted_wrt_append)
  moreover have "?x < key e" if "e \<in> set (drop n (after m l))" for e
    using s that fy by (auto simp: sorted_wrt_append)
  ultimately have "filter (\<lambda>e. ?x < key e) (after m l) = drop n (after m l)"
    by (subst parts [symmetric]) (simp add: filter_empty_conv)
  moreover have "y \<in> set (after m l)"
    using fy assms(1) in_set_takeD [of y n "after m l"] by (simp add: fetch_after)
  then have "l < ?x" using fy by (simp add: after_def)
  then have "filter (\<lambda>e. ?x < key e) (after m l) = after m ?x"
    by (auto simp: after_def intro: filter_cong)
  ultimately show ?thesis by simp
qed

lemma fewer_after: "ok m \<Longrightarrow> fetch m l n \<noteq> [] \<Longrightarrow>
    length (after m (key (last (fetch m l n)))) < length (after m l)"
  by (cases n) (auto simp add: full_page, simp_all add: fetch_after)

end

definition omap_ok :: "osd_object option \<Rightarrow> bool" where
  "omap_ok obs \<longleftrightarrow> (\<exists>ob. obs = Some ob \<and> smap_ok (od_omap ob))"

interpretation key_pages: paged "\<lambda>h. omap_ok (hc_stored h)"
  "\<lambda>h. map fst (omap_of (hc_stored h))" "\<lambda>k. k" "\<lambda>h l n. the (cls_map_get_keys l n h)"
  by unfold_locales
    (auto simp: omap_ok_def smap_ok_def cls_map_get_keys_def op_omap_get_keys_def)

lemma cls_map_get_keys: "omap_ok (hc_stored h) \<Longrightarrow>
    cls_map_get_keys l n h = Some (take n (key_pages.after h l))"
  by (auto simp: omap_ok_def cls_map_get_keys_def op_omap_get_keys_def key_pages.after_def)

definition has_prefix :: "string \<Rightarrow> string \<Rightarrow> bool" where
  "has_prefix p k \<longleftrightarrow> take (length p) k = p"

lemma has_prefix_iff: "has_prefix p k \<longleftrightarrow> (\<exists>s. k = p @ s)"
  unfolding has_prefix_def by (metis append_eq_conv_conj append_take_drop_id)

lemma prefix_le: "has_prefix p k \<Longrightarrow> p \<le> k"
proof -
  have "p \<le> p @ s" for s by (induction p) auto
  then show "has_prefix p k \<Longrightarrow> p \<le> k" by (auto simp: has_prefix_iff)
qed

text \<open>In key order the keys with a prefix are a stretch: what is greater than the prefix and does not
  have it is greater than all that do.\<close>

lemma beyond_prefix: "p < (k :: string) \<Longrightarrow> \<not> has_prefix p k \<Longrightarrow> p @ s < k"
proof (induction p arbitrary: k)
  case Nil
  then show ?case by (simp add: has_prefix_def)
next
  case (Cons c p)
  then show ?case by (cases k) (auto simp: has_prefix_def)
qed

lemma takeWhile_prefix:
  "sorted_wrt (<) ks \<Longrightarrow> \<forall>k \<in> set ks. p \<le> k \<Longrightarrow>
     takeWhile (has_prefix p) ks = filter (has_prefix p) ks"
proof (induction ks)
  case Nil
  then show ?case by simp
next
  case (Cons k ks)
  show ?case
  proof (cases "has_prefix p k")
    case True
    then show ?thesis using Cons by simp
  next
    case False
    then have "p < k" using Cons.prems(2) by (auto simp: le_less has_prefix_def)
    have "\<not> has_prefix p k'" if "k' \<in> set ks" for k'
    proof
      assume "has_prefix p k'"
      then have "k' < k" using beyond_prefix [OF \<open>p < k\<close> False] by (auto simp: has_prefix_iff)
      then show False using Cons.prems(1) that by auto
    qed
    then show ?thesis using False by (simp add: filter_empty_conv)
  qed
qed

lemma takeWhile_map: "takeWhile P (map f xs) = map f (takeWhile (P \<circ> f) xs)"
  by (induction xs) auto

lemma takeWhile_prefix_pairs:
  assumes "smap_ok m" "\<forall>k \<in> fst ` set m. p \<le> k"
  shows "takeWhile (\<lambda>(k, v). take (length p) k = p) m = filter (\<lambda>e. has_prefix p (fst e)) m"
  using assms
proof (induction m)
  case Nil
  then show ?case by simp
next
  case (Cons e m)
  obtain k v where e: "e = (k, v)" by (cases e)
  show ?case
  proof (cases "has_prefix p k")
    case True
    then show ?thesis using Cons e by (simp add: has_prefix_def)
  next
    case False
    have "filter (has_prefix p) (map fst (e # m)) = takeWhile (has_prefix p) (map fst (e # m))"
      using Cons.prems by (subst takeWhile_prefix) (auto simp: smap_ok_def)
    then have "filter (\<lambda>e. has_prefix p (fst e)) (e # m) = []"
      using False e by (simp add: filter_map comp_def)
    then show ?thesis using False e by (simp add: has_prefix_def)
  qed
qed

lemma smap_ok_filter: "smap_ok m \<Longrightarrow> smap_ok (filter P m)"
  by (simp add: smap_ok_def sorted_wrt_map sorted_wrt_filter)

lemma map_of_filter_keys: "map_of (filter (\<lambda>e. P (fst e)) m) k = (if P k then map_of m k else None)"
  by (induction m) auto

definition prefixed :: "string \<Rightarrow> cls_ctx \<Rightarrow> (string, bytes) smap" where
  "prefixed p h = filter (\<lambda>e. has_prefix p (fst e)) (omap_of (hc_stored h))"

definition pages_ok :: "string \<Rightarrow> cls_ctx \<Rightarrow> bool" where
  "pages_ok p h \<longleftrightarrow> omap_ok (hc_stored h) \<and> map_of (omap_of (hc_stored h)) p = None"

lemma cls_map_get_vals_entries:
  assumes "pages_ok p h"
  shows "cls_map_get_vals l p n h = Inr (take n (filter (\<lambda>e. l < fst e) (prefixed p h)))"
proof -
  obtain ob where ob: "hc_stored h = Some ob" and ok: "smap_ok (od_omap ob)"
    and no: "p \<notin> fst ` set (od_omap ob)"
    using assms by (auto simp: pages_ok_def omap_ok_def map_of_eq_None_iff)
  define src where "src = (if l \<le> p then filter (\<lambda>(k, v). p \<le> k) (od_omap ob)
                           else filter (\<lambda>(k, v). l < k) (od_omap ob))"
  have sorted: "smap_ok src" using ok by (simp add: src_def smap_ok_filter)
  have above: "\<forall>k \<in> fst ` set src. p \<le> k" by (auto simp: src_def)
  have "filter (\<lambda>e. has_prefix p (fst e)) src = filter (\<lambda>e. l < fst e) (prefixed p h)"
  proof -
    have pick: "filter P (filter Q m) = filter R (filter P m)"
      if "\<And>e. e \<in> set m \<Longrightarrow> P e \<Longrightarrow> Q e \<longleftrightarrow> R e" for P Q R and m :: "(string, bytes) smap"
      using that by (auto simp: filter_filter intro: filter_cong)
    show ?thesis
    proof (cases "l \<le> p")
      case True
      have "(case e of (k, v) \<Rightarrow> p \<le> k) \<longleftrightarrow> l < fst e"
        if "e \<in> set (od_omap ob)" "has_prefix p (fst e)" for e
      proof -
        have "p \<le> fst e" "p \<noteq> fst e" using prefix_le that no by auto
        then have "p < fst e" by simp
        moreover from this True have "l < fst e" by (rule le_less_trans [rotated])
        ultimately show ?thesis by (simp add: split_beta)
      qed
      then show ?thesis using True ob by (simp add: src_def prefixed_def del: filter_filter) (rule pick)
    next
      case False
      then show ?thesis using ob by (simp add: src_def prefixed_def del: filter_filter) (rule pick, auto)
    qed
  qed
  then have "takeWhile (\<lambda>(k, v). take (length p) k = p) src = filter (\<lambda>e. l < fst e) (prefixed p h)"
    using takeWhile_prefix_pairs [OF sorted above] by simp
  then show ?thesis
    using ob by (simp add: cls_map_get_vals_def op_omap_get_vals_def Let_def src_def)
qed

interpretation val_pages: paged "pages_ok p" "prefixed p" fst
  "\<lambda>h l n. case cls_map_get_vals l p n h of Inl r \<Rightarrow> [] | Inr v \<Rightarrow> v" for p
proof
  fix h l n
  assume "pages_ok p h"
  then show "sorted_wrt (<) (map fst (prefixed p h))"
    using smap_ok_filter [of "omap_of (hc_stored h)"]
    by (auto simp: pages_ok_def omap_ok_def prefixed_def smap_ok_def)
  then show "(case cls_map_get_vals l p n h of Inl r \<Rightarrow> [] | Inr v \<Rightarrow> v)
      = take n (filter (\<lambda>e. l < fst e) (prefixed p h))"
    using cls_map_get_vals_entries [OF \<open>pages_ok p h\<close>] by simp
qed

lemma cls_map_get_vals: "pages_ok p h \<Longrightarrow>
    cls_map_get_vals l p n h = Inr (take n (val_pages.after p h l))"
  by (simp add: cls_map_get_vals_entries val_pages.after_def)

end
