(* ===== verification/Cls_Types.thy ===== *)
theory Cls_Types
  imports Objclass Rbd_Types
begin

text \<open>
  \<open>cls/rbd/cls_rbd.h\<close> and the key names of \<open>cls/rbd/cls_rbd.cc\<close>: the records of a parent and of a
  snapshot as the header object of an image stores them, their wire format, and the keys under which
  they are found. A snapshot's key is its id as 16 hexadecimal digits behind a prefix, so the order
  of the keys is the order of the ids.
  Lemmas: the round trips (as interpretations of \<open>codec\<close>), old versions of the snapshot record, and
  that keys are injective and ordered.
\<close>

subsection \<open>Parents\<close>

text \<open>The pool id is an \<open>int64_t\<close>, kept as its 64 bits.\<close>

record cls_rbd_parent =
  cp_pool :: u64
  cp_id :: string
  cp_snapid :: u64
  cp_overlap :: u64

definition new_cls_rbd_parent :: cls_rbd_parent where
  "new_cls_rbd_parent = \<lparr>cp_pool = - 1, cp_id = [], cp_snapid = CEPH_NOSNAP, cp_overlap = 0\<rparr>"

definition parent_exists :: "cls_rbd_parent \<Rightarrow> bool" where
  "parent_exists p \<longleftrightarrow>
     cp_snapid p \<noteq> CEPH_NOSNAP \<and> 0 \<le> sint (cp_pool p) \<and> 0 < length (cp_id p) \<and> 0 < cp_overlap p"

definition parent_body :: "cls_rbd_parent \<Rightarrow> bytes" where
  "parent_body p = encode_u64 (cp_pool p) @ encode_string (cp_id p) @ encode_u64 (cp_snapid p) @
     encode_u64 (cp_overlap p)"

definition encode_parent :: "cls_rbd_parent \<Rightarrow> bytes" where
  "encode_parent p = encode_struct 1 1 (parent_body p)"

definition decode_parent_body :: "u8 \<Rightarrow> bytes \<Rightarrow> (cls_rbd_parent \<times> bytes) option" where
  "decode_parent_body struct_v p =
     (case decode_u64 p of None \<Rightarrow> None | Some (pool, p) \<Rightarrow>
      (case decode_string p of None \<Rightarrow> None | Some (img, p) \<Rightarrow>
       (case decode_u64 p of None \<Rightarrow> None | Some (snapid, p) \<Rightarrow>
        (case decode_u64 p of None \<Rightarrow> None | Some (overlap, p) \<Rightarrow>
         Some (\<lparr>cp_pool = pool, cp_id = img, cp_snapid = snapid, cp_overlap = overlap\<rparr>, p)))))"

definition decode_parent :: "bytes \<Rightarrow> (cls_rbd_parent \<times> bytes) option" where
  "decode_parent p = decode_struct 1 decode_parent_body p"

text \<open>Names short enough for every length field that encloses them.\<close>

definition small_string :: "string \<Rightarrow> bool" where
  "small_string s \<longleftrightarrow> length s < 2 ^ 30"

definition parent_fits :: "cls_rbd_parent \<Rightarrow> bool" where
  "parent_fits p \<longleftrightarrow> small_string (cp_id p)"

lemma small_short: "small_string s \<Longrightarrow> short s"
  by (simp add: small_string_def short_def)

lemma length_encode_string: "short s \<Longrightarrow> length (encode_string s) = 4 + length s"
  by (simp add: encode_string_def unat_short)

lemma small_encode_string: "small_string s \<Longrightarrow> length (encode_string s) < 4 + 2 ^ 30"
  using length_encode_string [OF small_short] by (simp add: small_string_def)

lemma parent_body_fits: "parent_fits p \<Longrightarrow> length (parent_body p) < 28 + 2 ^ 30"
  using small_encode_string [of "cp_id p"] by (simp add: parent_body_def parent_fits_def)

lemma length_encode_parent: "length (encode_parent p) = 6 + length (parent_body p)"
  by (simp add: encode_parent_def encode_struct_def encode_u8_def)

interpretation cparent: codec encode_parent decode_parent parent_fits
proof
  fix p :: cls_rbd_parent and q
  assume fit: "parent_fits p"
  then have s: "short (cp_id p)" by (simp add: parent_fits_def small_short)
  have "decode_parent_body v (parent_body p @ q') = Some (p, q')" for v q'
    by (simp add: decode_parent_body_def parent_body_def c64.dec_enc cstr.dec_enc [OF s])
  moreover have "short (parent_body p)"
    using parent_body_fits [OF fit] by (simp add: short_def)
  ultimately show "decode_parent (encode_parent p @ q) = Some (p, q)"
    unfolding decode_parent_def encode_parent_def by (intro decode_encode_struct) simp_all
qed

subsection \<open>Snapshots\<close>

record cls_rbd_snap =
  cs_id :: u64
  cs_name :: string
  cs_image_size :: u64
  cs_features :: u64
  cs_protection_status :: u8
  cs_parent :: cls_rbd_parent

definition new_cls_rbd_snap :: cls_rbd_snap where
  "new_cls_rbd_snap = \<lparr>cs_id = CEPH_NOSNAP, cs_name = [], cs_image_size = 0, cs_features = 0,
     cs_protection_status = RBD_PROTECTION_STATUS_UNPROTECTED, cs_parent = new_cls_rbd_parent\<rparr>"

definition snap_body :: "cls_rbd_snap \<Rightarrow> bytes" where
  "snap_body s = encode_u64 (cs_id s) @ encode_string (cs_name s) @ encode_u64 (cs_image_size s) @
     encode_u64 (cs_features s) @ encode_parent (cs_parent s) @ encode_u8 (cs_protection_status s)"

definition encode_snap :: "cls_rbd_snap \<Rightarrow> bytes" where
  "encode_snap s = encode_struct 3 1 (snap_body s)"

text \<open>Records of version 1 have no parent and no protection status, those of version 2 no status; the
  fields keep the values of the constructor.\<close>

definition decode_snap_body :: "u8 \<Rightarrow> bytes \<Rightarrow> (cls_rbd_snap \<times> bytes) option" where
  "decode_snap_body struct_v p =
     (case decode_u64 p of None \<Rightarrow> None | Some (sid, p) \<Rightarrow>
      (case decode_string p of None \<Rightarrow> None | Some (name, p) \<Rightarrow>
       (case decode_u64 p of None \<Rightarrow> None | Some (image_size, p) \<Rightarrow>
        (case decode_u64 p of None \<Rightarrow> None | Some (features, p) \<Rightarrow>
         (case (if 2 \<le> struct_v then decode_parent p else Some (new_cls_rbd_parent, p)) of
            None \<Rightarrow> None
          | Some (parent, p) \<Rightarrow>
         (case (if 3 \<le> struct_v then decode_u8 p else Some (RBD_PROTECTION_STATUS_UNPROTECTED, p)) of
            None \<Rightarrow> None
          | Some (status, p) \<Rightarrow>
              Some (\<lparr>cs_id = sid, cs_name = name, cs_image_size = image_size, cs_features = features,
                     cs_protection_status = status, cs_parent = parent\<rparr>, p)))))))"

definition decode_snap :: "bytes \<Rightarrow> (cls_rbd_snap \<times> bytes) option" where
  "decode_snap p = decode_struct 3 decode_snap_body p"

definition snap_fits :: "cls_rbd_snap \<Rightarrow> bool" where
  "snap_fits s \<longleftrightarrow> small_string (cs_name s) \<and> parent_fits (cs_parent s)"

lemma snap_body_fits: "snap_fits s \<Longrightarrow> short (snap_body s)"
  using parent_body_fits [of "cs_parent s"] small_encode_string [of "cs_name s"]
  by (simp add: snap_body_def snap_fits_def short_def length_encode_parent encode_u8_def)

interpretation csnap: codec encode_snap decode_snap snap_fits
proof
  fix s :: cls_rbd_snap and q
  assume fit: "snap_fits s"
  then have n: "short (cs_name s)" and p: "parent_fits (cs_parent s)"
    by (simp_all add: snap_fits_def small_short)
  have "decode_snap_body 3 (snap_body s @ q') = Some (s, q')" for q'
    by (simp add: decode_snap_body_def snap_body_def c64.dec_enc cstr.dec_enc [OF n]
        cparent.dec_enc [OF p] c8.dec_enc)
  then show "decode_snap (encode_snap s @ q) = Some (s, q)"
    unfolding decode_snap_def encode_snap_def using snap_body_fits [OF fit]
    by (intro decode_encode_struct) simp_all
qed

subsection \<open>Keys\<close>

definition RBD_MAX_KEYS_READ :: nat where "RBD_MAX_KEYS_READ = 64"
definition RBD_SNAP_KEY_PREFIX :: string where "RBD_SNAP_KEY_PREFIX = ''snapshot_''"

definition key_from_snap_id :: "u64 \<Rightarrow> string" where
  "key_from_snap_id snap_id = RBD_SNAP_KEY_PREFIX @ pad0 16 (show_nat 16 (unat snap_id))"

text \<open>Reading a key back is modelled on the digits that \<open>key_from_snap_id\<close> prints.\<close>

definition snap_id_from_key :: "string \<Rightarrow> u64" where
  "snap_id_from_key key =
     of_nat (fst (read_digits 16 0 (drop (length RBD_SNAP_KEY_PREFIX) key)))"

lemma snap_id_from_key_from_snap_id [simp]: "snap_id_from_key (key_from_snap_id i) = i"
  by (simp add: snap_id_from_key_def key_from_snap_id_def parse_pad0)

lemma key_from_snap_id_inj [simp]: "key_from_snap_id i = key_from_snap_id j \<longleftrightarrow> i = j"
  by (metis snap_id_from_key_from_snap_id)

text \<open>The digits of a number at a fixed width; their order as strings is the order of the numbers.\<close>

fun hex_digits :: "nat \<Rightarrow> nat \<Rightarrow> string" where
  "hex_digits 0 n = []"
| "hex_digits (Suc w) n = hex_digits w (n div 16) @ [digit_char (n mod 16)]"

lemma length_hex_digits [simp]: "length (hex_digits w n) = w"
  by (induction w arbitrary: n) auto

lemma hex_digits_zero: "hex_digits w 0 = replicate w (CHR ''0'')"
proof (induction w)
  case 0
  then show ?case by simp
next
  case (Suc w)
  have "digit_char 0 = CHR ''0''" by code_simp
  then show ?case using Suc by (simp add: replicate_append_same)
qed

lemma show_nat_length: "n < 16 ^ k \<Longrightarrow> 0 < k \<Longrightarrow> length (show_nat 16 n) \<le> k"
proof (induction k arbitrary: n)
  case 0
  then show ?case by simp
next
  case (Suc k)
  show ?case
  proof (cases "n < 16")
    case True
    then show ?thesis by (simp add: show_nat_small)
  next
    case False
    have "n div 16 < 16 ^ k"
      using Suc.prems(1) by (simp add: less_mult_imp_div_less mult.commute)
    moreover have "0 < k" using False Suc.prems(1) by (cases k) simp_all
    ultimately show ?thesis using Suc.IH [of "n div 16"] False by (simp add: show_nat_step)
  qed
qed

lemma pad0_hex_digits: "n < 16 ^ w \<Longrightarrow> 0 < w \<Longrightarrow> pad0 w (show_nat 16 n) = hex_digits w n"
proof (induction w arbitrary: n)
  case 0
  then show ?case by simp
next
  case (Suc w)
  show ?case
  proof (cases "n < 16")
    case True
    then show ?thesis
      by (simp add: show_nat_small pad0_def hex_digits_zero)
  next
    case False
    have lt: "n div 16 < 16 ^ w"
      using Suc.prems(1) by (simp add: less_mult_imp_div_less mult.commute)
    have pos: "0 < w" using False Suc.prems(1) by (cases w) simp_all
    have "pad0 (Suc w) (show_nat 16 n) = pad0 w (show_nat 16 (n div 16)) @ [digit_char (n mod 16)]"
      using show_nat_length [OF lt pos] False by (simp add: pad0_def show_nat_step)
    then show ?thesis using Suc.IH [OF lt pos] by simp
  qed
qed

lemma append_less_append [simp]: "(p @ x :: 'a::linorder list) < p @ y \<longleftrightarrow> x < y"
  by (induction p) auto

lemma snoc_less_snoc:
  "length x = length y \<Longrightarrow> x @ [a] < y @ [b] \<longleftrightarrow> x < y \<or> x = y \<and> (a :: 'a::linorder) < b"
proof (induction x arbitrary: y)
  case Nil
  then show ?case by simp
next
  case (Cons c x)
  then show ?case by (cases y) auto
qed

lemma digit_char_less: "c < 16 \<Longrightarrow> d < 16 \<Longrightarrow> digit_char c < digit_char d \<longleftrightarrow> c < d"
  by (auto simp: digit_char_def less_char_def)

lemma div_mod_16_less:
  "m < n \<longleftrightarrow> m div 16 < n div 16 \<or> m div 16 = n div 16 \<and> m mod 16 < n mod (16 :: nat)"
proof -
  have "m = 16 * a + b \<Longrightarrow> b < 16 \<Longrightarrow> n = 16 * c + d \<Longrightarrow> d < 16 \<Longrightarrow> m < n \<longleftrightarrow> a < c \<or> a = c \<and> b < d"
    for a b c d :: nat by arith
  then show ?thesis by (metis mod_less_divisor mult_div_mod_eq zero_less_numeral)
qed

lemma hex_digits_less:
  "m < 16 ^ w \<Longrightarrow> n < 16 ^ w \<Longrightarrow> hex_digits w m < hex_digits w n \<longleftrightarrow> m < n"
proof (induction w arbitrary: m n)
  case 0
  then show ?case by simp
next
  case (Suc w)
  have "m div 16 < 16 ^ w" "n div 16 < 16 ^ w"
    using Suc.prems by (simp_all add: less_mult_imp_div_less mult.commute)
  note ih = Suc.IH [OF this] Suc.IH [OF this(2) this(1)]
  have "hex_digits w (m div 16) = hex_digits w (n div 16) \<longleftrightarrow> m div 16 = n div 16"
    using ih by (metis less_irrefl linorder_neqE_nat)
  then show ?case
    using ih div_mod_16_less [of m n] by (simp add: snoc_less_snoc digit_char_less)
qed

lemma key_from_snap_id_hex:
  "key_from_snap_id i = RBD_SNAP_KEY_PREFIX @ hex_digits 16 (unat i)"
  using unat_lt [of i] by (simp add: key_from_snap_id_def pad0_hex_digits)

lemma key_from_snap_id_less [simp]: "key_from_snap_id i < key_from_snap_id j \<longleftrightarrow> i < j"
  using unat_lt [of i] unat_lt [of j]
  by (simp add: key_from_snap_id_hex hex_digits_less word_less_nat_alt)

lemma snap_prefix_below [simp]: "RBD_SNAP_KEY_PREFIX < key_from_snap_id i"
proof -
  have "hex_digits 16 (unat i) \<noteq> []" using length_hex_digits [of 16 "unat i"] by (auto simp del: length_hex_digits)
  then show ?thesis
    using append_less_append [of RBD_SNAP_KEY_PREFIX "[]" "hex_digits 16 (unat i)"]
    by (cases "hex_digits 16 (unat i)") (simp_all add: key_from_snap_id_hex del: hex_digits.simps)
qed

lemma take_snap_prefix [simp]:
  "take (length RBD_SNAP_KEY_PREFIX) (key_from_snap_id i) = RBD_SNAP_KEY_PREFIX"
  by (simp add: key_from_snap_id_def)

end
