(* ===== verification/Cls_Header.thy ===== *)
theory Cls_Header
  imports Cls_Types
begin

text \<open>
  \<open>cls/rbd/cls_rbd.cc\<close>, the methods on the header object of an image: its size, features, striping,
  parent and snapshots, all kept in the key map of the object. A method decodes its argument
  (\<open>-EINVAL\<close> if it cannot), reads keys, and returns a code and an output; the loops over the snapshot
  keys read 64 keys at a time and are partial functions, so that their end is a theorem
  (\<open>Cls_Header_Spec\<close>).
\<close>

text \<open>One key after the other, up to the first error.\<close>

fun set_keys :: "(string \<times> bytes) list \<Rightarrow> cls_ctx \<Rightarrow> int \<times> cls_ctx" where
  "set_keys [] h = (0, h)"
| "set_keys ((k, bl) # kvs) h =
     (case cls_map_set_val k bl h of (r, h) \<Rightarrow> if r < 0 then (r, h) else set_keys kvs h)"

definition rbd_create :: cls_method where
  "rbd_create inp h =
     (case decode_pair decode_u64 (decode_pair decode_u8 (decode_pair decode_u64 decode_string)) inp of
        None \<Rightarrow> Some (- EINVAL, [], h)
      | Some ((sz, order, features, object_prefix), _) \<Rightarrow>
          if features AND NOT RBD_FEATURES_ALL \<noteq> 0 then Some (- ENOSYS, [], h)
          else if object_prefix = [] then Some (- EINVAL, [], h)
          else if cls_map_get_val ''object_prefix'' h \<noteq> Inl (- ENOENT) then Some (- EEXIST, [], h)
          else
            (case set_keys [(''size'', encode_u64 sz), (''order'', encode_u8 order),
                            (''features'', encode_u64 features),
                            (''object_prefix'', encode_string object_prefix),
                            (''snap_seq'', encode_u64 0)] h of
               (r, h) \<Rightarrow> if r < 0 then Some (r, [], h) else Some (0, [], h)))"

definition rbd_get_features :: cls_method where
  "rbd_get_features inp h =
     (case decode_u64 inp of
        None \<Rightarrow> Some (- EINVAL, [], h)
      | Some (snap_id, _) \<Rightarrow>
          (case (if snap_id = CEPH_NOSNAP then read_key decode_u64 ''features'' h
                 else (case read_key decode_snap (key_from_snap_id snap_id) h of
                         Inl r \<Rightarrow> Inl r | Inr snap \<Rightarrow> Inr (cs_features snap))) of
             Inl r \<Rightarrow> Some (r, [], h)
           | Inr features \<Rightarrow>
               Some (0, encode_u64 features @ encode_u64 (features AND RBD_FEATURES_INCOMPATIBLE), h)))"

definition rbd_require_feature :: "u64 \<Rightarrow> cls_ctx \<Rightarrow> int" where
  "rbd_require_feature need h =
     (case read_key decode_u64 ''features'' h of
        Inl r \<Rightarrow> if r = - ENOENT then - ENOEXEC else r
      | Inr features \<Rightarrow> if features AND need \<noteq> need then - ENOEXEC else 0)"

definition rbd_get_size :: cls_method where
  "rbd_get_size inp h =
     (case decode_u64 inp of
        None \<Rightarrow> Some (- EINVAL, [], h)
      | Some (snap_id, _) \<Rightarrow>
          (case read_key decode_u8 ''order'' h of
             Inl r \<Rightarrow> Some (r, [], h)
           | Inr order \<Rightarrow>
               (case (if snap_id = CEPH_NOSNAP then read_key decode_u64 ''size'' h
                      else (case read_key decode_snap (key_from_snap_id snap_id) h of
                              Inl r \<Rightarrow> Inl r | Inr snap \<Rightarrow> Inr (cs_image_size snap))) of
                  Inl r \<Rightarrow> Some (r, [], h)
                | Inr sz \<Rightarrow> Some (0, encode_u8 order @ encode_u64 sz, h))))"

definition rbd_set_size :: cls_method where
  "rbd_set_size inp h =
     (case decode_u64 inp of
        None \<Rightarrow> Some (- EINVAL, [], h)
      | Some (sz, _) \<Rightarrow>
          (case read_key decode_u64 ''size'' h of
             Inl r \<Rightarrow> Some (r, [], h)
           | Inr orig_size \<Rightarrow>
               (case cls_map_set_val ''size'' (encode_u64 sz) h of
                  (r, h) \<Rightarrow>
                    if r < 0 then Some (r, [], h)
                    else if sz < orig_size then
                      (case (case read_key decode_parent ''parent'' h of
                               Inl r \<Rightarrow> if r = - ENOENT then Inr new_cls_rbd_parent else Inl r
                             | Inr parent \<Rightarrow> Inr parent) of
                         Inl r \<Rightarrow> Some (r, [], h)
                       | Inr parent \<Rightarrow>
                           if parent_exists parent \<and> sz < cp_overlap parent then
                             (case cls_map_set_val ''parent''
                                     (encode_parent (parent\<lparr>cp_overlap := sz\<rparr>)) h of
                                (r, h) \<Rightarrow> if r < 0 then Some (r, [], h) else Some (0, [], h))
                           else Some (0, [], h))
                    else Some (0, [], h))))"

definition rbd_check_exists :: "cls_ctx \<Rightarrow> int" where
  "rbd_check_exists h = fst (cls_stat h)"

definition rbd_get_protection_status :: cls_method where
  "rbd_get_protection_status inp h =
     (case decode_u64 inp of
        None \<Rightarrow> Some (- EINVAL, [], h)
      | Some (snap_id, _) \<Rightarrow>
          let r = rbd_check_exists h in
          if r < 0 then Some (r, [], h)
          else if snap_id = CEPH_NOSNAP then Some (- EINVAL, [], h)
          else
            (case read_key decode_snap (key_from_snap_id snap_id) h of
               Inl r \<Rightarrow> Some (r, [], h)
             | Inr snap \<Rightarrow>
                 if RBD_PROTECTION_STATUS_LAST \<le> cs_protection_status snap then Some (- EIO, [], h)
                 else Some (0, encode_u8 (cs_protection_status snap), h)))"

definition rbd_set_protection_status :: cls_method where
  "rbd_set_protection_status inp h =
     (case decode_pair decode_u64 decode_u8 inp of
        None \<Rightarrow> Some (- EINVAL, [], h)
      | Some ((snap_id, status), _) \<Rightarrow>
          let r = rbd_check_exists h; r' = rbd_require_feature RBD_FEATURE_LAYERING h in
          if r < 0 then Some (r, [], h)
          else if r' < 0 then Some (r', [], h)
          else if snap_id = CEPH_NOSNAP then Some (- EINVAL, [], h)
          else if RBD_PROTECTION_STATUS_LAST \<le> status then Some (- EINVAL, [], h)
          else
            (case read_key decode_snap (key_from_snap_id snap_id) h of
               Inl r \<Rightarrow> Some (r, [], h)
             | Inr snap \<Rightarrow>
                 (case cls_map_set_val (key_from_snap_id snap_id)
                         (encode_snap (snap\<lparr>cs_protection_status := status\<rparr>)) h of
                    (r, h) \<Rightarrow> if r < 0 then Some (r, [], h) else Some (0, [], h))))"

text \<open>The shift by the order is that of an x86 processor: by the low six bits.\<close>

definition object_bytes :: "u8 \<Rightarrow> u64" where
  "object_bytes order = push_bit (unat order mod 64) 1"

definition rbd_get_stripe_unit_count :: cls_method where
  "rbd_get_stripe_unit_count inp h =
     (let r = rbd_check_exists h; r' = rbd_require_feature RBD_FEATURE_STRIPINGV2 h in
      if r < 0 then Some (r, [], h)
      else if r' < 0 then Some (r', [], h)
      else
        (case (case read_key decode_u64 ''stripe_unit'' h of
                 Inl r \<Rightarrow>
                   if r = - ENOENT then
                     (case read_key decode_u8 ''order'' h of
                        Inl _ \<Rightarrow> Inl (- EIO) | Inr order \<Rightarrow> Inr (object_bytes order))
                   else Inl r
               | Inr u \<Rightarrow> Inr u) of
           Inl r \<Rightarrow> Some (r, [], h)
         | Inr stripe_unit \<Rightarrow>
             (case read_key decode_u64 ''stripe_count'' h of
                Inl r \<Rightarrow> if r = - ENOENT then Some (0, encode_u64 stripe_unit @ encode_u64 1, h)
                         else Some (r, [], h)
              | Inr stripe_count \<Rightarrow> Some (0, encode_u64 stripe_unit @ encode_u64 stripe_count, h))))"

definition rbd_set_stripe_unit_count :: cls_method where
  "rbd_set_stripe_unit_count inp h =
     (case decode_pair decode_u64 decode_u64 inp of
        None \<Rightarrow> Some (- EINVAL, [], h)
      | Some ((stripe_unit, stripe_count), _) \<Rightarrow>
          if stripe_count = 0 \<or> stripe_unit = 0 then Some (- EINVAL, [], h)
          else
            let r = rbd_check_exists h; r' = rbd_require_feature RBD_FEATURE_STRIPINGV2 h in
            if r < 0 then Some (r, [], h)
            else if r' < 0 then Some (r', [], h)
            else
              (case read_key decode_u8 ''order'' h of
                 Inl r \<Rightarrow> Some (r, [], h)
               | Inr order \<Rightarrow>
                   if object_bytes order mod stripe_unit \<noteq> 0 \<or> object_bytes order < stripe_unit
                   then Some (- EINVAL, [], h)
                   else
                     (case set_keys [(''stripe_unit'', encode_u64 stripe_unit),
                                     (''stripe_count'', encode_u64 stripe_count)] h of
                        (r, h) \<Rightarrow> if r < 0 then Some (r, [], h) else Some (0, [], h))))"

subsection \<open>The parent\<close>

text \<open>A snapshot that does not exist has the parent of a fresh record, that is none.\<close>

definition rbd_get_parent :: cls_method where
  "rbd_get_parent inp h =
     (case decode_u64 inp of
        None \<Rightarrow> Some (- EINVAL, [], h)
      | Some (snap_id, _) \<Rightarrow>
          let r = rbd_check_exists h in
          if r < 0 then Some (r, [], h)
          else
            (case (if rbd_require_feature RBD_FEATURE_LAYERING h = 0 then
                     (if snap_id = CEPH_NOSNAP then
                        (case read_key decode_parent ''parent'' h of
                           Inl r \<Rightarrow> if r \<noteq> - ENOENT then Inl r else Inr new_cls_rbd_parent
                         | Inr parent \<Rightarrow> Inr parent)
                      else
                        (case read_key decode_snap (key_from_snap_id snap_id) h of
                           Inl r \<Rightarrow> if r \<noteq> - ENOENT then Inl r else Inr (cs_parent new_cls_rbd_snap)
                         | Inr snap \<Rightarrow> Inr (cs_parent snap)))
                   else Inr new_cls_rbd_parent) of
               Inl r \<Rightarrow> Some (r, [], h)
             | Inr parent \<Rightarrow>
                 Some (0, encode_u64 (cp_pool parent) @ encode_string (cp_id parent) @
                          encode_u64 (cp_snapid parent) @ encode_u64 (cp_overlap parent), h)))"

definition rbd_set_parent :: cls_method where
  "rbd_set_parent inp h =
     (case decode_pair decode_u64 (decode_pair decode_string (decode_pair decode_u64 decode_u64)) inp of
        None \<Rightarrow> Some (- EINVAL, [], h)
      | Some ((pool, img, snapid, sz), _) \<Rightarrow>
          let r = rbd_check_exists h; r' = rbd_require_feature RBD_FEATURE_LAYERING h in
          if r < 0 then Some (r, [], h)
          else if r' < 0 then Some (r', [], h)
          else if sint pool < 0 \<or> length img = 0 \<or> snapid = CEPH_NOSNAP \<or> sz = 0
          then Some (- EINVAL, [], h)
          else
            (case read_key decode_parent ''parent'' h of
               Inr _ \<Rightarrow> Some (- EEXIST, [], h)
             | Inl _ \<Rightarrow>
                 (case read_key decode_u64 ''size'' h of
                    Inl r \<Rightarrow> Some (r, [], h)
                  | Inr our_size \<Rightarrow>
                      (case cls_map_set_val ''parent''
                              (encode_parent \<lparr>cp_pool = pool, cp_id = img, cp_snapid = snapid,
                                              cp_overlap = min our_size sz\<rparr>) h of
                         (r, h) \<Rightarrow> if r < 0 then Some (r, [], h) else Some (0, [], h)))))"

definition rbd_remove_parent :: cls_method where
  "rbd_remove_parent inp h =
     (let r = rbd_check_exists h; r' = rbd_require_feature RBD_FEATURE_LAYERING h in
      if r < 0 then Some (r, [], h)
      else if r' < 0 then Some (r', [], h)
      else
        (case read_key decode_parent ''parent'' h of
           Inl r \<Rightarrow> Some (r, [], h)
         | Inr _ \<Rightarrow>
             (case cls_map_remove_key ''parent'' h of
                (r, h) \<Rightarrow> if r < 0 then Some (r, [], h) else Some (0, [], h))))"

subsection \<open>Snapshots\<close>

partial_function (option) snapcontext_loop :: "cls_ctx \<Rightarrow> string \<Rightarrow> u64 list \<Rightarrow> u64 list option" where
  "snapcontext_loop h last_read snap_ids =
     (case cls_map_get_keys last_read RBD_MAX_KEYS_READ h of
        None \<Rightarrow> None
      | Some keys \<Rightarrow>
          let ids = snap_ids @ map snap_id_from_key (takeWhile (has_prefix RBD_SNAP_KEY_PREFIX) keys);
              last_read' = (if keys \<noteq> [] then last keys else last_read)
          in if length keys = RBD_MAX_KEYS_READ then snapcontext_loop h last_read' ids else Some ids)"

definition encode_ids :: "u64 list \<Rightarrow> bytes" where
  "encode_ids ids = encode_u32 (of_nat (length ids)) @ concat (map encode_u64 ids)"

definition rbd_get_snapcontext :: cls_method where
  "rbd_get_snapcontext inp h =
     (case snapcontext_loop h RBD_SNAP_KEY_PREFIX [] of
        None \<Rightarrow> None
      | Some snap_ids \<Rightarrow>
          (case read_key decode_u64 ''snap_seq'' h of
             Inl r \<Rightarrow> Some (r, [], h)
           | Inr snap_seq \<Rightarrow> Some (0, encode_u64 snap_seq @ encode_ids (rev snap_ids), h)))"

definition rbd_get_object_prefix :: cls_method where
  "rbd_get_object_prefix inp h =
     (case read_key decode_string ''object_prefix'' h of
        Inl r \<Rightarrow> Some (r, [], h)
      | Inr object_prefix \<Rightarrow> Some (0, encode_string object_prefix, h))"

definition rbd_get_snapshot_name :: cls_method where
  "rbd_get_snapshot_name inp h =
     (case decode_u64 inp of
        None \<Rightarrow> Some (- EINVAL, [], h)
      | Some (snap_id, _) \<Rightarrow>
          if snap_id = CEPH_NOSNAP then Some (- EINVAL, [], h)
          else
            (case read_key decode_snap (key_from_snap_id snap_id) h of
               Inl r \<Rightarrow> Some (r, [], h)
             | Inr snap \<Rightarrow> Some (0, encode_string (cs_name snap), h)))"

text \<open>The snapshots of a page against the new one: the first problem, if any.\<close>

fun clash :: "cls_rbd_snap \<Rightarrow> (string, bytes) smap \<Rightarrow> int option" where
  "clash snap_meta [] = None"
| "clash snap_meta ((k, bl) # vals) =
     (case decode_snap bl of
        None \<Rightarrow> Some (- EIO)
      | Some (old_meta, _) \<Rightarrow>
          if cs_name snap_meta = cs_name old_meta \<or> cs_id snap_meta = cs_id old_meta
          then Some (- EEXIST) else clash snap_meta vals)"

partial_function (option) snapshot_scan :: "cls_ctx \<Rightarrow> cls_rbd_snap \<Rightarrow> string \<Rightarrow> int option" where
  "snapshot_scan h snap_meta last_read =
     (case cls_map_get_vals last_read RBD_SNAP_KEY_PREFIX RBD_MAX_KEYS_READ h of
        Inl r \<Rightarrow> Some r
      | Inr vals \<Rightarrow>
          (case clash snap_meta vals of
             Some r \<Rightarrow> Some r
           | None \<Rightarrow>
               if length vals = RBD_MAX_KEYS_READ
               then snapshot_scan h snap_meta (if vals \<noteq> [] then fst (last vals) else last_read)
               else Some 0))"

definition rbd_snapshot_add :: cls_method where
  "rbd_snapshot_add inp h =
     (case decode_pair decode_string decode_u64 inp of
        None \<Rightarrow> Some (- EINVAL, [], h)
      | Some ((name, sid), _) \<Rightarrow>
          if CEPH_MAXSNAP < sid then Some (- EINVAL, [], h)
          else
          (case read_key decode_u64 ''snap_seq'' h of Inl r \<Rightarrow> Some (r, [], h) | Inr cur_snap_seq \<Rightarrow>
           if sid < cur_snap_seq then Some (- ESTALE, [], h)
           else
           (case read_key decode_u64 ''size'' h of Inl r \<Rightarrow> Some (r, [], h) | Inr image_size \<Rightarrow>
           (case read_key decode_u64 ''features'' h of Inl r \<Rightarrow> Some (r, [], h) | Inr features \<Rightarrow>
            let snap_meta = new_cls_rbd_snap\<lparr>cs_id := sid, cs_name := name, cs_image_size := image_size,
                                            cs_features := features\<rparr>
            in
            (case snapshot_scan h snap_meta RBD_SNAP_KEY_PREFIX of None \<Rightarrow> None | Some r \<Rightarrow>
             if r < 0 then Some (r, [], h)
             else
             (case (case read_key decode_parent ''parent'' h of
                      Inl r \<Rightarrow> if r \<noteq> - ENOENT then Inl r else Inr snap_meta
                    | Inr parent \<Rightarrow> Inr (snap_meta\<lparr>cs_parent := parent\<rparr>)) of
                Inl r \<Rightarrow> Some (r, [], h)
              | Inr snap_meta \<Rightarrow>
                  (case cls_map_set_vals
                          (smap_put (key_from_snap_id sid) (encode_snap snap_meta)
                            (smap_put ''snap_seq'' (encode_u64 sid) [])) h of
                     (r, h) \<Rightarrow> if r < 0 then Some (r, [], h) else Some (0, [], h))))))))"

text \<open>
  Only a missing key stops the removal here: a record that cannot be decoded leaves the fresh record,
  which counts as unprotected, unless the decoding got as far as the status.
\<close>

definition left_status :: "bytes \<Rightarrow> u8" where
  "left_status bl =
     (case struct_fields 3 decode_snap_body bl of
        None \<Rightarrow> cs_protection_status new_cls_rbd_snap
      | Some (snap, _) \<Rightarrow> cs_protection_status snap)"

definition rbd_snapshot_remove :: cls_method where
  "rbd_snapshot_remove inp h =
     (case decode_u64 inp of
        None \<Rightarrow> Some (- EINVAL, [], h)
      | Some (snap_id, _) \<Rightarrow>
          (case (case read_key decode_snap (key_from_snap_id snap_id) h of
                   Inr snap \<Rightarrow> Some (cs_protection_status snap)
                 | Inl r \<Rightarrow>
                     if r = - ENOENT then None
                     else (case cls_map_get_val (key_from_snap_id snap_id) h of
                             Inl _ \<Rightarrow> Some (cs_protection_status new_cls_rbd_snap)
                           | Inr bl \<Rightarrow> Some (left_status bl))) of
             None \<Rightarrow> Some (- ENOENT, [], h)
           | Some status \<Rightarrow>
               if status \<noteq> RBD_PROTECTION_STATUS_UNPROTECTED
               then Some (- EBUSY, [], h)
               else
                 (case cls_map_remove_key (key_from_snap_id snap_id) h of
                    (r, h) \<Rightarrow> if r < 0 then Some (r, [], h) else Some (0, [], h))))"

definition rbd_get_all_features :: cls_method where
  "rbd_get_all_features inp h = Some (0, encode_u64 RBD_FEATURES_ALL, h)"

end
