(* ===== verification/Cls_Header_Spec.thy ===== *)
theory Cls_Header_Spec
  imports Cls_Header Simulation
begin

text \<open>
  What the header object of an image promises. \<open>header\<close> is the image's metadata as a record, with its
  snapshots as a map by id; \<open>reprs\<close> says that the key map of an object holds exactly its encoding.
  \<open>header_spec\<close> is the specification of the methods that change the header, code and effect, and the
  methods refine it; \<open>header_ok\<close> is the invariant of every header that they produce: snapshot ids and
  names are unique, no id is above \<open>snap_seq\<close>, and no parent overlap is above the size.
\<close>

subsection \<open>Headers\<close>

record header =
  h_size :: u64
  h_order :: u8
  h_features :: u64
  h_prefix :: string
  h_seq :: u64
  h_snaps :: "(u64, cls_rbd_snap) smap"
  h_parent :: "cls_rbd_parent option"
  h_unit :: "u64 option"
  h_count :: "u64 option"

definition snap_keys :: "(u64, cls_rbd_snap) smap \<Rightarrow> (string, bytes) smap" where
  "snap_keys m = map (\<lambda>(i, s). (key_from_snap_id i, encode_snap s)) m"

definition header_keys :: "header \<Rightarrow> string \<Rightarrow> bytes option" where
  "header_keys hdr k =
     (if k = ''size'' then Some (encode_u64 (h_size hdr))
      else if k = ''order'' then Some (encode_u8 (h_order hdr))
      else if k = ''features'' then Some (encode_u64 (h_features hdr))
      else if k = ''object_prefix'' then Some (encode_string (h_prefix hdr))
      else if k = ''snap_seq'' then Some (encode_u64 (h_seq hdr))
      else if k = ''parent'' then map_option encode_parent (h_parent hdr)
      else if k = ''stripe_unit'' then map_option encode_u64 (h_unit hdr)
      else if k = ''stripe_count'' then map_option encode_u64 (h_count hdr)
      else map_of (snap_keys (h_snaps hdr)) k)"

definition reprs :: "header \<Rightarrow> osd_object option \<Rightarrow> bool" where
  "reprs hdr obs \<longleftrightarrow>
     (\<exists>ob. obs = Some ob \<and> smap_ok (od_omap ob) \<and> map_of (od_omap ob) = header_keys hdr)"

text \<open>A snapshot of a header: its key is its id, and what it says fits into its record.\<close>

definition snap_entry_ok :: "u64 \<Rightarrow> u64 \<times> cls_rbd_snap \<Rightarrow> bool" where
  "snap_entry_ok sq e \<longleftrightarrow> cs_id (snd e) = fst e \<and> fst e \<le> sq \<and> fst e \<le> CEPH_MAXSNAP \<and>
     snap_fits (snd e) \<and> cp_overlap (cs_parent (snd e)) \<le> cs_image_size (snd e) \<and>
     cs_protection_status (snd e) < RBD_PROTECTION_STATUS_LAST"

definition parent_ok :: "u64 \<Rightarrow> cls_rbd_parent \<Rightarrow> bool" where
  "parent_ok sz p \<longleftrightarrow> parent_fits p \<and> cp_overlap p \<le> sz \<and> cp_snapid p \<noteq> CEPH_NOSNAP \<and>
     0 \<le> sint (cp_pool p) \<and> cp_id p \<noteq> []"

definition header_ok :: "header \<Rightarrow> bool" where
  "header_ok hdr \<longleftrightarrow>
     small_string (h_prefix hdr) \<and> smap_ok (h_snaps hdr) \<and>
     (\<forall>e \<in> set (h_snaps hdr). snap_entry_ok (h_seq hdr) e) \<and>
     distinct (map (\<lambda>e. cs_name (snd e)) (h_snaps hdr)) \<and>
     (\<forall>p. h_parent hdr = Some p \<longrightarrow> parent_ok (h_size hdr) p) \<and>
     (\<forall>u. h_unit hdr = Some u \<longrightarrow> u \<noteq> 0 \<and> unat u dvd unat (object_bytes (h_order hdr)))"

subsection \<open>The methods that change a header\<close>

datatype header_call =
    SetSize u64
  | SetProtection u64 u8
  | SetStripe u64 u64
  | SetParent u64 string u64 u64
  | RemoveParent
  | SnapAdd string u64
  | SnapRemove u64

fun call_method :: "header_call \<Rightarrow> cls_method" where
  "call_method (SetSize sz) = rbd_set_size"
| "call_method (SetProtection i st) = rbd_set_protection_status"
| "call_method (SetStripe u c) = rbd_set_stripe_unit_count"
| "call_method (SetParent pool img i sz) = rbd_set_parent"
| "call_method RemoveParent = rbd_remove_parent"
| "call_method (SnapAdd name i) = rbd_snapshot_add"
| "call_method (SnapRemove i) = rbd_snapshot_remove"

fun call_args :: "header_call \<Rightarrow> bytes" where
  "call_args (SetSize sz) = encode_u64 sz"
| "call_args (SetProtection i st) = encode_pair encode_u64 encode_u8 (i, st)"
| "call_args (SetStripe u c) = encode_pair encode_u64 encode_u64 (u, c)"
| "call_args (SetParent pool img i sz) =
     encode_pair encode_u64 (encode_pair encode_string (encode_pair encode_u64 encode_u64)) (pool, img, i, sz)"
| "call_args RemoveParent = []"
| "call_args (SnapAdd name i) = encode_pair encode_string encode_u64 (name, i)"
| "call_args (SnapRemove i) = encode_u64 i"

fun call_fits :: "header_call \<Rightarrow> bool" where
  "call_fits (SetParent pool img i sz) = small_string img"
| "call_fits (SnapAdd name i) = small_string name"
| "call_fits _ = True"

definition lacks :: "header \<Rightarrow> u64 \<Rightarrow> bool" where
  "lacks hdr need \<longleftrightarrow> h_features hdr AND need \<noteq> need"

fun header_spec :: "header_call \<Rightarrow> header \<Rightarrow> int \<times> header" where
  "header_spec (SetSize sz) hdr =
     (0, hdr\<lparr>h_size := sz,
            h_parent := map_option (\<lambda>p. if parent_exists p \<and> sz < cp_overlap p
                                        then p\<lparr>cp_overlap := sz\<rparr> else p) (h_parent hdr)\<rparr>)"
| "header_spec (SetProtection i st) hdr =
     (if lacks hdr RBD_FEATURE_LAYERING then (- ENOEXEC, hdr)
      else if i = CEPH_NOSNAP \<or> RBD_PROTECTION_STATUS_LAST \<le> st then (- EINVAL, hdr)
      else (case map_of (h_snaps hdr) i of
              None \<Rightarrow> (- ENOENT, hdr)
            | Some s \<Rightarrow> (0, hdr\<lparr>h_snaps := smap_put i (s\<lparr>cs_protection_status := st\<rparr>) (h_snaps hdr)\<rparr>)))"
| "header_spec (SetStripe u c) hdr =
     (if c = 0 \<or> u = 0 then (- EINVAL, hdr)
      else if lacks hdr RBD_FEATURE_STRIPINGV2 then (- ENOEXEC, hdr)
      else if object_bytes (h_order hdr) mod u \<noteq> 0 \<or> object_bytes (h_order hdr) < u then (- EINVAL, hdr)
      else (0, hdr\<lparr>h_unit := Some u, h_count := Some c\<rparr>))"
| "header_spec (SetParent pool img i sz) hdr =
     (if lacks hdr RBD_FEATURE_LAYERING then (- ENOEXEC, hdr)
      else if sint pool < 0 \<or> img = [] \<or> i = CEPH_NOSNAP \<or> sz = 0 then (- EINVAL, hdr)
      else if h_parent hdr \<noteq> None then (- EEXIST, hdr)
      else (0, hdr\<lparr>h_parent := Some \<lparr>cp_pool = pool, cp_id = img, cp_snapid = i,
                                    cp_overlap = min (h_size hdr) sz\<rparr>\<rparr>))"
| "header_spec RemoveParent hdr =
     (if lacks hdr RBD_FEATURE_LAYERING then (- ENOEXEC, hdr)
      else if h_parent hdr = None then (- ENOENT, hdr)
      else (0, hdr\<lparr>h_parent := None\<rparr>))"
| "header_spec (SnapAdd name i) hdr =
     (if CEPH_MAXSNAP < i then (- EINVAL, hdr)
      else if i < h_seq hdr then (- ESTALE, hdr)
      else if \<exists>e \<in> set (h_snaps hdr). cs_name (snd e) = name \<or> fst e = i then (- EEXIST, hdr)
      else (0, hdr\<lparr>h_seq := i,
             h_snaps := smap_put i \<lparr>cs_id = i, cs_name = name, cs_image_size = h_size hdr,
                cs_features = h_features hdr,
                cs_protection_status = RBD_PROTECTION_STATUS_UNPROTECTED,
                cs_parent = (case h_parent hdr of None \<Rightarrow> new_cls_rbd_parent | Some p \<Rightarrow> p)\<rparr>
              (h_snaps hdr)\<rparr>))"
| "header_spec (SnapRemove i) hdr =
     (case map_of (h_snaps hdr) i of
        None \<Rightarrow> (- ENOENT, hdr)
      | Some s \<Rightarrow>
          if cs_protection_status s \<noteq> RBD_PROTECTION_STATUS_UNPROTECTED then (- EBUSY, hdr)
          else (0, hdr\<lparr>h_snaps := smap_erase i (h_snaps hdr)\<rparr>))"

subsection \<open>The specification keeps the invariant\<close>

lemma snap_entry_mono: "snap_entry_ok sq e \<Longrightarrow> sq \<le> sq' \<Longrightarrow> snap_entry_ok sq' e"
  by (auto simp: snap_entry_ok_def intro: order.trans)

lemma parent_ok_shrink:
  "parent_ok sz p \<Longrightarrow>
     parent_ok sz' (if parent_exists p \<and> sz' < cp_overlap p then p\<lparr>cp_overlap := sz'\<rparr> else p)"
  by (auto simp: parent_ok_def parent_exists_def parent_fits_def not_less word_gt_0)

lemma mod_dvd_unat: "(x :: u64) mod u = 0 \<Longrightarrow> unat u dvd unat x"
  by (metis mod_0_imp_dvd unat_0 unat_mod)

lemma header_spec_ok:
  assumes "header_ok hdr" "call_fits c" "header_spec c hdr = (r, hdr')"
  shows "header_ok hdr'"
proof (cases c)
  case (SetProtection i st)
  show ?thesis
  proof (cases "hdr' = hdr")
    case False
    with assms(3) SetProtection obtain s where s: "map_of (h_snaps hdr) i = Some s"
      and st: "\<not> RBD_PROTECTION_STATUS_LAST \<le> st"
      and hdr': "hdr' = hdr\<lparr>h_snaps := smap_put i (s\<lparr>cs_protection_status := st\<rparr>) (h_snaps hdr)\<rparr>"
      by (auto split: if_splits option.splits)
    have "(i, s) \<in> set (h_snaps hdr)" using s by (rule map_of_SomeD)
    then have "snap_entry_ok (h_seq hdr) (i, s)" using assms(1) by (simp add: header_ok_def)
    then have "snap_entry_ok (h_seq hdr) (i, s\<lparr>cs_protection_status := st\<rparr>)"
      using st by (simp add: snap_entry_ok_def snap_fits_def not_le)
    moreover have "map (\<lambda>e. cs_name (snd e)) (smap_put i (s\<lparr>cs_protection_status := st\<rparr>) (h_snaps hdr))
        = map (\<lambda>e. cs_name (snd e)) (h_snaps hdr)"
      using assms(1) s by (intro map_smap_put_same) (simp_all add: header_ok_def)
    ultimately show ?thesis
      using assms(1) all_smap_put [of "h_snaps hdr" "snap_entry_ok (h_seq hdr)"]
      by (simp add: header_ok_def hdr')
  qed (use assms in simp)
next
  case (SnapAdd name i)
  show ?thesis
  proof (cases "hdr' = hdr")
    case False
    define s where "s = \<lparr>cs_id = i, cs_name = name, cs_image_size = h_size hdr,
       cs_features = h_features hdr, cs_protection_status = RBD_PROTECTION_STATUS_UNPROTECTED,
       cs_parent = (case h_parent hdr of None \<Rightarrow> new_cls_rbd_parent | Some p \<Rightarrow> p)\<rparr>"
    have g: "\<not> CEPH_MAXSNAP < i" "\<not> i < h_seq hdr"
      "\<forall>e \<in> set (h_snaps hdr). cs_name (snd e) \<noteq> name \<and> fst e \<noteq> i"
      "hdr' = hdr\<lparr>h_seq := i, h_snaps := smap_put i s (h_snaps hdr)\<rparr>"
      using assms(3) SnapAdd False by (auto simp: s_def split: if_splits)
    have "snap_entry_ok i (i, s)"
      using assms(1,2) g(1) SnapAdd
      by (auto simp: snap_entry_ok_def s_def snap_fits_def header_ok_def not_less parent_fits_def
          parent_ok_def small_string_def new_cls_rbd_parent_def rbd_consts split: option.splits)
    moreover have "\<forall>e \<in> set (h_snaps hdr). snap_entry_ok i e"
      using assms(1) g(2) by (auto simp: header_ok_def not_less intro: snap_entry_mono)
    moreover have "distinct (map (\<lambda>e. cs_name (snd e)) (smap_put i s (h_snaps hdr)))"
      using assms(1) g(3) by (intro distinct_smap_put) (simp_all add: header_ok_def s_def)
    ultimately show ?thesis
      using assms(1) all_smap_put [of "h_snaps hdr" "snap_entry_ok i"]
      by (simp add: header_ok_def g(4))
  qed (use assms in simp)
next
  case (SnapRemove i)
  then show ?thesis
    using assms set_smap_erase [of i "h_snaps hdr"]
    by (auto simp: header_ok_def distinct_smap_erase split: option.splits if_splits)
next
  case (SetSize sz)
  then show ?thesis
    using assms parent_ok_shrink by (auto simp: header_ok_def)
next
  case (SetStripe u k)
  then show ?thesis
    using assms by (auto simp: header_ok_def mod_dvd_unat split: if_splits del: mod_0_imp_dvd)
qed (use assms in \<open>auto simp: header_ok_def parent_ok_def parent_fits_def not_less
       split: if_splits option.splits\<close>)

subsection \<open>Reading an encoded header\<close>

named_theorems header_read \<open>what the methods read from an encoded header\<close>

lemma snap_key_neq [simp]:
  "key_from_snap_id i \<noteq> ''size''" "key_from_snap_id i \<noteq> ''order''" "key_from_snap_id i \<noteq> ''features''"
  "key_from_snap_id i \<noteq> ''object_prefix''" "key_from_snap_id i \<noteq> ''snap_seq''"
  "key_from_snap_id i \<noteq> ''parent''" "key_from_snap_id i \<noteq> ''stripe_unit''"
  "key_from_snap_id i \<noteq> ''stripe_count''"
  by (simp_all add: key_from_snap_id_def RBD_SNAP_KEY_PREFIX_def)

lemma map_of_snap_keys [simp]:
  "map_of (snap_keys m) (key_from_snap_id i) = map_option encode_snap (map_of m i)"
  by (induction m) (auto simp: snap_keys_def)

lemma map_of_snap_keys_put:
  "map_of (snap_keys (smap_put i s m)) = (map_of (snap_keys m))(key_from_snap_id i \<mapsto> encode_snap s)"
  by (induction i s m rule: smap_put.induct) (auto simp: snap_keys_def)

lemma snap_keys_sorted: "smap_ok m \<Longrightarrow> smap_ok (snap_keys m)"
  by (induction m) (force simp: snap_keys_def)+

lemma snap_keys_erase: "snap_keys (smap_erase i m) = smap_erase (key_from_snap_id i) (snap_keys m)"
  by (induction i m rule: smap_erase.induct) (auto simp: snap_keys_def)

lemma header_keys_put_snap:
  "header_keys (hdr\<lparr>h_snaps := smap_put i s (h_snaps hdr)\<rparr>)
     = (header_keys hdr)(key_from_snap_id i \<mapsto> encode_snap s)"
  by (auto simp: header_keys_def map_of_snap_keys_put fun_eq_iff)

lemma header_keys_erase_snap:
  "smap_ok (h_snaps hdr) \<Longrightarrow>
     header_keys (hdr\<lparr>h_snaps := smap_erase i (h_snaps hdr)\<rparr>)
       = (header_keys hdr)(key_from_snap_id i := None)"
  by (auto simp: header_keys_def snap_keys_erase snap_keys_sorted fun_eq_iff)

lemma header_keys_upd:
  "header_keys (hdr\<lparr>h_size := sz\<rparr>) = (header_keys hdr)(''size'' \<mapsto> encode_u64 sz)"
  "header_keys (hdr\<lparr>h_seq := sz\<rparr>) = (header_keys hdr)(''snap_seq'' \<mapsto> encode_u64 sz)"
  "header_keys (hdr\<lparr>h_parent := po\<rparr>) = (header_keys hdr)(''parent'' := map_option encode_parent po)"
  "header_keys (hdr\<lparr>h_unit := uo\<rparr>) = (header_keys hdr)(''stripe_unit'' := map_option encode_u64 uo)"
  "header_keys (hdr\<lparr>h_count := uo\<rparr>) = (header_keys hdr)(''stripe_count'' := map_option encode_u64 uo)"
  by (auto simp: header_keys_def fun_eq_iff)

lemma reprs_lookup: "reprs hdr obs \<Longrightarrow> map_of (omap_of obs) k = header_keys hdr k"
  by (auto simp: reprs_def)

lemma read_fields [header_read]:
  assumes "reprs hdr (hc_stored h)"
  shows "read_key decode_u64 ''size'' h = Inr (h_size hdr)"
    "read_key decode_u8 ''order'' h = Inr (h_order hdr)"
    "read_key decode_u64 ''features'' h = Inr (h_features hdr)"
    "read_key decode_u64 ''snap_seq'' h = Inr (h_seq hdr)"
  using reprs_lookup [OF assms]
  by (auto intro!: c64.read_key_enc c8.read_key_enc simp: header_keys_def)

lemma read_parent [header_read]:
  assumes "reprs hdr (hc_stored h)" "header_ok hdr"
  shows "read_key decode_parent ''parent'' h =
     (case h_parent hdr of None \<Rightarrow> Inl (- ENOENT) | Some p \<Rightarrow> Inr p)"
proof (cases "h_parent hdr")
  case None
  then show ?thesis
    using reprs_lookup [OF assms(1), of "''parent''"] by (simp add: read_key_missing header_keys_def)
next
  case (Some p)
  then have "parent_fits p" using assms(2) by (simp add: header_ok_def parent_ok_def)
  then show ?thesis
    using reprs_lookup [OF assms(1), of "''parent''"] Some
    by (simp add: cparent.read_key_enc header_keys_def)
qed

lemma read_snap [header_read]:
  assumes "reprs hdr (hc_stored h)" "header_ok hdr"
  shows "read_key decode_snap (key_from_snap_id i) h =
     (case map_of (h_snaps hdr) i of None \<Rightarrow> Inl (- ENOENT) | Some s \<Rightarrow> Inr s)"
proof (cases "map_of (h_snaps hdr) i")
  case None
  then show ?thesis
    using reprs_lookup [OF assms(1), of "key_from_snap_id i"]
    by (simp add: read_key_missing header_keys_def)
next
  case (Some s)
  then have "(i, s) \<in> set (h_snaps hdr)" by (rule map_of_SomeD)
  then have "snap_fits s" using assms(2) by (auto simp: header_ok_def snap_entry_ok_def)
  then show ?thesis
    using reprs_lookup [OF assms(1), of "key_from_snap_id i"] Some
    by (simp add: csnap.read_key_enc header_keys_def)
qed

lemma require_feature [header_read]:
  "reprs hdr (hc_stored h) \<Longrightarrow>
     rbd_require_feature need h = (if lacks hdr need then - ENOEXEC else 0)"
  by (simp add: rbd_require_feature_def read_fields lacks_def)

lemma check_exists [header_read]: "reprs hdr (hc_new h) \<Longrightarrow> rbd_check_exists h = 0"
  by (auto simp: rbd_check_exists_def reprs_def cls_stat_exists)

subsection \<open>Writing an encoded header\<close>

text \<open>A key set or removed in the new object is the header with the field changed.\<close>

lemma set_key_reprs:
  assumes "reprs hdr (hc_new h)" "header_keys hdr' = (header_keys hdr)(k \<mapsto> v)"
  shows "\<exists>obs'. cls_map_set_val k v h = (0, h\<lparr>hc_new := obs'\<rparr>) \<and> reprs hdr' obs'"
  using assms by (auto simp: reprs_def cls_map_set_val_def cls_map_set_vals)

lemma remove_key_reprs:
  assumes "reprs hdr (hc_new h)" "header_keys hdr' = (header_keys hdr)(k := None)"
  shows "\<exists>obs'. cls_map_remove_key k h = (0, h\<lparr>hc_new := obs'\<rparr>) \<and> reprs hdr' obs'"
  using assms by (auto simp: reprs_def cls_map_remove_key)

subsection \<open>The loops over the snapshots\<close>

lemma not_snap_key:
  "\<not> has_prefix RBD_SNAP_KEY_PREFIX ''size''" "\<not> has_prefix RBD_SNAP_KEY_PREFIX ''order''"
  "\<not> has_prefix RBD_SNAP_KEY_PREFIX ''features''" "\<not> has_prefix RBD_SNAP_KEY_PREFIX ''object_prefix''"
  "\<not> has_prefix RBD_SNAP_KEY_PREFIX ''snap_seq''" "\<not> has_prefix RBD_SNAP_KEY_PREFIX ''parent''"
  "\<not> has_prefix RBD_SNAP_KEY_PREFIX ''stripe_unit''" "\<not> has_prefix RBD_SNAP_KEY_PREFIX ''stripe_count''"
  by (simp_all add: has_prefix_def RBD_SNAP_KEY_PREFIX_def)

lemma has_snap_prefix: "k \<in> fst ` set (snap_keys m) \<Longrightarrow> has_prefix RBD_SNAP_KEY_PREFIX k"
  by (auto simp: snap_keys_def has_prefix_def)

lemma prefix_not_snap_key: "map_of (snap_keys m) RBD_SNAP_KEY_PREFIX = None"
proof -
  have "RBD_SNAP_KEY_PREFIX \<notin> fst ` set (snap_keys m)"
    using less_irrefl [of RBD_SNAP_KEY_PREFIX] snap_prefix_below
    by (metis (no_types, lifting) case_prod_beta fst_conv imageE image_set snap_keys_def list.set_map)
  then show ?thesis by (simp add: map_of_eq_None_iff)
qed

lemma reprs_prefixed:
  assumes "reprs hdr (hc_stored h)" "header_ok hdr"
  shows "prefixed RBD_SNAP_KEY_PREFIX h = snap_keys (h_snaps hdr)"
proof (rule smap_eqI)
  obtain ob where ob: "hc_stored h = Some ob" "smap_ok (od_omap ob)" "map_of (od_omap ob) = header_keys hdr"
    using assms(1) by (auto simp: reprs_def)
  then show "smap_ok (prefixed RBD_SNAP_KEY_PREFIX h)"
    by (simp add: prefixed_def smap_ok_filter)
  show "smap_ok (snap_keys (h_snaps hdr))"
    using assms(2) by (simp add: header_ok_def snap_keys_sorted)
  show "map_of (prefixed RBD_SNAP_KEY_PREFIX h) = map_of (snap_keys (h_snaps hdr))"
  proof
    fix k
    show "map_of (prefixed RBD_SNAP_KEY_PREFIX h) k = map_of (snap_keys (h_snaps hdr)) k"
    proof (cases "has_prefix RBD_SNAP_KEY_PREFIX k")
      case True
      then have "header_keys hdr k = map_of (snap_keys (h_snaps hdr)) k"
        using not_snap_key by (auto simp: header_keys_def)
      with True ob show ?thesis by (simp add: prefixed_def map_of_filter_keys)
    next
      case False
      then have "map_of (snap_keys (h_snaps hdr)) k = None"
        using has_snap_prefix [of k] by (auto simp: map_of_eq_None_iff)
      with False show ?thesis by (simp add: prefixed_def map_of_filter_keys)
    qed
  qed
qed

lemma reprs_pages: "reprs hdr (hc_stored h) \<Longrightarrow> pages_ok RBD_SNAP_KEY_PREFIX h"
  using reprs_lookup [of hdr "hc_stored h" RBD_SNAP_KEY_PREFIX] prefix_not_snap_key [of "h_snaps hdr"]
  by (auto simp: pages_ok_def omap_ok_def reprs_def header_keys_def RBD_SNAP_KEY_PREFIX_def)

lemma clash_append:
  "clash s (xs @ ys) = (case clash s xs of Some r \<Rightarrow> Some r | None \<Rightarrow> clash s ys)"
  by (induction s xs rule: clash.induct) (auto split: option.splits)

lemma snapshot_scan:
  assumes ok: "pages_ok RBD_SNAP_KEY_PREFIX h"
  shows "snapshot_scan h s l = Some (case clash s (val_pages.after RBD_SNAP_KEY_PREFIX h l) of
     Some r \<Rightarrow> r | None \<Rightarrow> 0)"
proof (induction "length (val_pages.after RBD_SNAP_KEY_PREFIX h l)" arbitrary: l rule: less_induct)
  case less
  let ?rest = "val_pages.after RBD_SNAP_KEY_PREFIX h"
  let ?page = "take RBD_MAX_KEYS_READ (?rest l)"
  have split: "clash s (?rest l) = (case clash s ?page of Some r \<Rightarrow> Some r
      | None \<Rightarrow> clash s (drop RBD_MAX_KEYS_READ (?rest l)))"
    using clash_append [of s ?page "drop RBD_MAX_KEYS_READ (?rest l)"] by simp
  show ?case
  proof (cases "length ?page = RBD_MAX_KEYS_READ")
    case True
    then have ne: "?page \<noteq> []" by (auto simp: RBD_MAX_KEYS_READ_def)
    have next_page: "?rest (fst (last ?page)) = drop RBD_MAX_KEYS_READ (?rest l)"
      using val_pages.full_page [OF ok, of l RBD_MAX_KEYS_READ] ne
      by (simp add: cls_map_get_vals [OF ok])
    have "length (?rest (fst (last ?page))) < length (?rest l)"
      using True ne unfolding next_page by (simp add: RBD_MAX_KEYS_READ_def)
    then show ?thesis
      using True ne next_page less [of "fst (last ?page)"]
      by (subst snapshot_scan.simps) (simp add: cls_map_get_vals [OF ok] split split: option.split)
  next
    case False
    then have "drop RBD_MAX_KEYS_READ (?rest l) = []" by simp
    then show ?thesis
      using False split
      by (subst snapshot_scan.simps) (simp add: cls_map_get_vals [OF ok] split: option.split)
  qed
qed

lemma clash_snap_keys:
  assumes "\<forall>e \<in> set m. snap_fits (snd e) \<and> cs_id (snd e) = fst e"
  shows "clash s (snap_keys m) =
    (if \<exists>e \<in> set m. cs_name (snd e) = cs_name s \<or> fst e = cs_id s then Some (- EEXIST) else None)"
  using assms
proof (induction m)
  case (Cons e m)
  obtain i b where e: "e = (i, b)" by (cases e)
  have "clash s (snap_keys (e # m)) =
      (if cs_name b = cs_name s \<or> i = cs_id s then Some (- EEXIST) else clash s (snap_keys m))"
    using Cons.prems e by (auto simp: snap_keys_def csnap.dec_enc_end)
  then show ?case using Cons e by simp
qed (simp add: snap_keys_def)

lemma scan_header:
  assumes "reprs hdr (hc_stored h)" "header_ok hdr"
  shows "snapshot_scan h s RBD_SNAP_KEY_PREFIX = Some
    (if \<exists>e \<in> set (h_snaps hdr). cs_name (snd e) = cs_name s \<or> fst e = cs_id s then - EEXIST else 0)"
proof -
  have "val_pages.after RBD_SNAP_KEY_PREFIX h RBD_SNAP_KEY_PREFIX = snap_keys (h_snaps hdr)"
    unfolding val_pages.after_def reprs_prefixed [OF assms]
    by (auto simp: snap_keys_def intro!: filter_True)
  moreover have "\<forall>e \<in> set (h_snaps hdr). snap_fits (snd e) \<and> cs_id (snd e) = fst e"
    using assms(2) by (auto simp: header_ok_def snap_entry_ok_def)
  ultimately show ?thesis
    using snapshot_scan [OF reprs_pages [OF assms(1)], of s RBD_SNAP_KEY_PREFIX] clash_snap_keys [of "h_snaps hdr" s]
    by simp
qed

subsection \<open>The methods refine the specification\<close>

interpretation arg_u64_u64: codec_pair encode_u64 decode_u64 "\<lambda>_. True" encode_u64 decode_u64 "\<lambda>_. True" ..

interpretation arg_u64_u8: codec_pair encode_u64 decode_u64 "\<lambda>_. True" encode_u8 decode_u8 "\<lambda>_. True" ..

interpretation arg_str_u64: codec_pair encode_string decode_string short encode_u64 decode_u64 "\<lambda>_. True" ..

interpretation arg_parent_tail: codec_pair encode_string decode_string short
  "encode_pair encode_u64 encode_u64" "decode_pair decode_u64 decode_u64" "\<lambda>_. True"
  by unfold_locales (simp add: arg_u64_u64.pair.dec_enc)

interpretation arg_parent: codec_pair encode_u64 decode_u64 "\<lambda>_. True"
  "encode_pair encode_string (encode_pair encode_u64 encode_u64)"
  "decode_pair decode_string (decode_pair decode_u64 decode_u64)" "\<lambda>x. short (fst x)"
  by unfold_locales (simp add: arg_parent_tail.pair.dec_enc)

lemmas codec_pair_args = c64.dec_enc_end arg_u64_u64.pair.dec_enc_end arg_u64_u8.pair.dec_enc_end
  arg_str_u64.pair.dec_enc_end arg_parent.pair.dec_enc_end small_short

definition refines :: "header_call \<Rightarrow> header \<Rightarrow> osd_object option \<Rightarrow> bool" where
  "refines c hdr obs \<longleftrightarrow>
     (\<exists>obs'. cls_call (call_method c) (call_args c) obs = Some (fst (header_spec c hdr), [], obs') \<and>
            reprs (snd (header_spec c hdr)) obs')"

lemma refinesI:
  assumes "header_spec c hdr = (r, hdr')"
    "call_method c (call_args c) \<lparr>hc_stored = obs, hc_new = obs\<rparr>
       = Some (r, [], \<lparr>hc_stored = obs, hc_new = obs'\<rparr>)"
    "reprs hdr' (if r < 0 then obs else obs')"
  shows "refines c hdr obs"
  using assms by (auto simp: refines_def cls_call_def)

text \<open>The state in which every method starts.\<close>

definition starts :: "header \<Rightarrow> osd_object option \<Rightarrow> cls_ctx \<Rightarrow> bool" where
  "starts hdr obs h \<longleftrightarrow> reprs hdr obs \<and> header_ok hdr \<and> h = \<lparr>hc_stored = obs, hc_new = obs\<rparr>"

lemma starts_reads:
  assumes "starts hdr obs h"
  shows "read_key decode_u64 ''size'' h = Inr (h_size hdr)"
    "read_key decode_u8 ''order'' h = Inr (h_order hdr)"
    "read_key decode_u64 ''features'' h = Inr (h_features hdr)"
    "read_key decode_u64 ''snap_seq'' h = Inr (h_seq hdr)"
    "read_key decode_parent ''parent'' h = (case h_parent hdr of None \<Rightarrow> Inl (- ENOENT) | Some p \<Rightarrow> Inr p)"
    "read_key decode_snap (key_from_snap_id i) h =
       (case map_of (h_snaps hdr) i of None \<Rightarrow> Inl (- ENOENT) | Some s \<Rightarrow> Inr s)"
    "rbd_require_feature need h = (if lacks hdr need then - ENOEXEC else 0)"
    "rbd_check_exists h = 0"
    "snapshot_scan h s RBD_SNAP_KEY_PREFIX = Some
       (if \<exists>e \<in> set (h_snaps hdr). cs_name (snd e) = cs_name s \<or> fst e = cs_id s then - EEXIST else 0)"
  using assms read_fields [of hdr h] read_parent [of hdr h] read_snap [of hdr h i]
    require_feature [of hdr h need] check_exists [of hdr h] scan_header [of hdr h s]
  by (auto simp: starts_def)

lemma starts_set:
  assumes "starts hdr obs h" "header_keys hdr' = (header_keys hdr)(k \<mapsto> v)"
  obtains obs' where "cls_map_set_val k v h = (0, \<lparr>hc_stored = obs, hc_new = obs'\<rparr>)" "reprs hdr' obs'"
proof -
  have "reprs hdr (hc_new h)" using assms(1) by (simp add: starts_def)
  then obtain obs' where "cls_map_set_val k v h = (0, h\<lparr>hc_new := obs'\<rparr>)" "reprs hdr' obs'"
    using set_key_reprs [OF _ assms(2), of h] by blast
  then show thesis using that assms(1) by (simp add: starts_def)
qed

lemma starts_remove:
  assumes "starts hdr obs h" "header_keys hdr' = (header_keys hdr)(k := None)"
  obtains obs' where "cls_map_remove_key k h = (0, \<lparr>hc_stored = obs, hc_new = obs'\<rparr>)" "reprs hdr' obs'"
proof -
  have "reprs hdr (hc_new h)" using assms(1) by (simp add: starts_def)
  then obtain obs' where "cls_map_remove_key k h = (0, h\<lparr>hc_new := obs'\<rparr>)" "reprs hdr' obs'"
    using remove_key_reprs [OF _ assms(2), of h] by blast
  then show thesis using that assms(1) by (simp add: starts_def)
qed

lemma starts_ctx: "starts hdr obs h \<Longrightarrow> reprs hdr obs \<and> h = \<lparr>hc_stored = obs, hc_new = obs\<rparr>"
  by (simp add: starts_def)

lemma refines_error:
  assumes "starts hdr obs h" "header_spec c hdr = (e, hdr)" "e < 0"
    "call_method c (call_args c) h = Some (e, [], h)"
  shows "refines c hdr obs"
  using assms starts_ctx [OF assms(1)] by (intro refinesI [where obs' = obs]) auto

lemma refines_done:
  assumes "starts hdr obs h" "header_spec c hdr = (0, hdr')" "reprs hdr' obs'"
    "call_method c (call_args c) h = Some (0, [], \<lparr>hc_stored = obs, hc_new = obs'\<rparr>)"
  shows "refines c hdr obs"
  using assms starts_ctx [OF assms(1)] by (intro refinesI [where obs' = obs']) auto

lemma refines_set_protection:
  assumes st: "starts hdr obs h"
  shows "refines (SetProtection i stat) hdr obs"
proof (cases "fst (header_spec (SetProtection i stat) hdr) = 0")
  case True
  then obtain s where g: "\<not> lacks hdr RBD_FEATURE_LAYERING" "i \<noteq> CEPH_NOSNAP"
    "\<not> RBD_PROTECTION_STATUS_LAST \<le> stat" "map_of (h_snaps hdr) i = Some s"
    by (auto split: if_splits option.splits)
  let ?hdr' = "hdr\<lparr>h_snaps := smap_put i (s\<lparr>cs_protection_status := stat\<rparr>) (h_snaps hdr)\<rparr>"
  obtain obs' where w: "cls_map_set_val (key_from_snap_id i)
      (encode_snap (s\<lparr>cs_protection_status := stat\<rparr>)) h = (0, \<lparr>hc_stored = obs, hc_new = obs'\<rparr>)"
    and r: "reprs ?hdr' obs'"
    using starts_set [OF st header_keys_put_snap] .
  have "call_method (SetProtection i stat) (call_args (SetProtection i stat)) h
      = Some (0, [], \<lparr>hc_stored = obs, hc_new = obs'\<rparr>)"
    using starts_reads [OF st] g w by (simp add: rbd_set_protection_status_def codec_pair_args Let_def)
  then show ?thesis
    by (rule refines_done [OF st _ r, rotated]) (use g in simp)
next
  case False
  then obtain e where e: "header_spec (SetProtection i stat) hdr = (e, hdr)" "e < 0"
    "call_method (SetProtection i stat) (call_args (SetProtection i stat)) h = Some (e, [], h)"
    using starts_reads [OF st]
    by (auto simp: rbd_set_protection_status_def codec_pair_args Let_def split: if_splits option.splits)
  then show ?thesis by (rule refines_error [OF st])
qed

lemma refines_set_size:
  assumes st: "starts hdr obs h"
  shows "refines (SetSize sz) hdr obs"
proof -
  let ?hdr1 = "hdr\<lparr>h_size := sz\<rparr>"
  obtain obs1 where w1: "cls_map_set_val ''size'' (encode_u64 sz) h = (0, \<lparr>hc_stored = obs, hc_new = obs1\<rparr>)"
    and r1: "reprs ?hdr1 obs1"
    using starts_set [OF st header_keys_upd(1)] .
  let ?h1 = "\<lparr>hc_stored = obs, hc_new = obs1\<rparr>"
  have rd: "read_key decode_parent ''parent'' ?h1 =
      (case h_parent hdr of None \<Rightarrow> Inl (- ENOENT) | Some p \<Rightarrow> Inr p)"
    using st read_parent [of hdr ?h1] by (simp add: starts_def)
  let ?m = "call_method (SetSize sz) (call_args (SetSize sz)) h"
  show ?thesis
  proof (cases "\<exists>p. h_parent hdr = Some p \<and> parent_exists p \<and> sz < cp_overlap p")
    case True
    then obtain p where p: "h_parent hdr = Some p" "parent_exists p" "sz < cp_overlap p" by blast
    have "cp_overlap p \<le> h_size hdr" using st p(1) by (simp add: starts_def header_ok_def parent_ok_def)
    then have less: "sz < h_size hdr" using p(3) by simp
    let ?hdr2 = "?hdr1\<lparr>h_parent := Some (p\<lparr>cp_overlap := sz\<rparr>)\<rparr>"
    have keys: "header_keys ?hdr2 = (header_keys ?hdr1)(''parent'' \<mapsto> encode_parent (p\<lparr>cp_overlap := sz\<rparr>))"
      using header_keys_upd(3) [of "Some (p\<lparr>cp_overlap := sz\<rparr>)" ?hdr1] by simp
    obtain obs2 where w2: "cls_map_set_val ''parent'' (encode_parent (p\<lparr>cp_overlap := sz\<rparr>)) ?h1
        = (0, \<lparr>hc_stored = obs, hc_new = obs2\<rparr>)" and r2: "reprs ?hdr2 obs2"
      using set_key_reprs [OF _ keys, of ?h1] r1 by auto
    have "?m = Some (0, [], \<lparr>hc_stored = obs, hc_new = obs2\<rparr>)"
      using starts_reads [OF st] w1 w2 rd p less
      by (simp add: rbd_set_size_def codec_pair_args)
    then show ?thesis
      by (rule refines_done [OF st _ r2, rotated]) (use p in simp)
  next
    case False
    then have hdr: "header_spec (SetSize sz) hdr = (0, ?hdr1)"
      by (cases "h_parent hdr") auto
    have "?m = Some (0, [], ?h1)"
      using starts_reads [OF st] w1 rd False
      by (cases "h_parent hdr") (auto simp: rbd_set_size_def codec_pair_args new_cls_rbd_parent_def parent_exists_def)
    then show ?thesis
      by (rule refines_done [OF st hdr r1])
  qed
qed

lemma refines_set_stripe:
  assumes st: "starts hdr obs h"
  shows "refines (SetStripe u k) hdr obs"
proof (cases "fst (header_spec (SetStripe u k) hdr) = 0")
  case True
  then have g: "k \<noteq> 0" "u \<noteq> 0" "\<not> lacks hdr RBD_FEATURE_STRIPINGV2"
    "object_bytes (h_order hdr) mod u = 0" "\<not> object_bytes (h_order hdr) < u"
    by (auto split: if_splits)
  let ?hdr1 = "hdr\<lparr>h_unit := Some u\<rparr>"
  let ?hdr2 = "?hdr1\<lparr>h_count := Some k\<rparr>"
  have k1: "header_keys ?hdr1 = (header_keys hdr)(''stripe_unit'' \<mapsto> encode_u64 u)"
    using header_keys_upd(4) [of "Some u" hdr] by simp
  have k2: "header_keys ?hdr2 = (header_keys ?hdr1)(''stripe_count'' \<mapsto> encode_u64 k)"
    using header_keys_upd(5) [of "Some k" ?hdr1] by simp
  obtain obs1 where w1: "cls_map_set_val ''stripe_unit'' (encode_u64 u) h = (0, \<lparr>hc_stored = obs, hc_new = obs1\<rparr>)"
    and r1: "reprs ?hdr1 obs1"
    using starts_set [OF st k1] .
  obtain obs2 where w2: "cls_map_set_val ''stripe_count'' (encode_u64 k) \<lparr>hc_stored = obs, hc_new = obs1\<rparr>
      = (0, \<lparr>hc_stored = obs, hc_new = obs2\<rparr>)" and r2: "reprs ?hdr2 obs2"
    using set_key_reprs [OF _ k2, of "\<lparr>hc_stored = obs, hc_new = obs1\<rparr>"] r1 by auto
  have "call_method (SetStripe u k) (call_args (SetStripe u k)) h
      = Some (0, [], \<lparr>hc_stored = obs, hc_new = obs2\<rparr>)"
    using starts_reads [OF st] w1 w2 g
    by (simp add: rbd_set_stripe_unit_count_def codec_pair_args Let_def)
  then show ?thesis
    by (rule refines_done [OF st _ r2, rotated]) (use g in simp)
next
  case False
  then obtain e where e: "header_spec (SetStripe u k) hdr = (e, hdr)" "e < 0"
    "call_method (SetStripe u k) (call_args (SetStripe u k)) h = Some (e, [], h)"
    using starts_reads [OF st]
    by (auto simp: rbd_set_stripe_unit_count_def codec_pair_args Let_def split: if_splits)
  then show ?thesis by (rule refines_error [OF st])
qed

lemma refines_set_parent:
  assumes st: "starts hdr obs h" and fit: "small_string img"
  shows "refines (SetParent pool img i sz) hdr obs"
proof (cases "fst (header_spec (SetParent pool img i sz) hdr) = 0")
  case True
  then have g: "\<not> lacks hdr RBD_FEATURE_LAYERING" "\<not> sint pool < 0" "img \<noteq> []" "i \<noteq> CEPH_NOSNAP"
    "sz \<noteq> 0" "h_parent hdr = None"
    by (auto split: if_splits)
  let ?p = "\<lparr>cp_pool = pool, cp_id = img, cp_snapid = i, cp_overlap = min (h_size hdr) sz\<rparr>"
  let ?hdr1 = "hdr\<lparr>h_parent := Some ?p\<rparr>"
  have k1: "header_keys ?hdr1 = (header_keys hdr)(''parent'' \<mapsto> encode_parent ?p)"
    using header_keys_upd(3) [of "Some ?p" hdr] by simp
  obtain obs1 where w1: "cls_map_set_val ''parent'' (encode_parent ?p) h = (0, \<lparr>hc_stored = obs, hc_new = obs1\<rparr>)"
    and r1: "reprs ?hdr1 obs1"
    using starts_set [OF st k1] .
  have "call_method (SetParent pool img i sz) (call_args (SetParent pool img i sz)) h
      = Some (0, [], \<lparr>hc_stored = obs, hc_new = obs1\<rparr>)"
    using starts_reads [OF st] w1 g fit
    by (simp add: rbd_set_parent_def codec_pair_args Let_def)
  then show ?thesis
    by (rule refines_done [OF st _ r1, rotated]) (use g in simp)
next
  case False
  then obtain e where e: "header_spec (SetParent pool img i sz) hdr = (e, hdr)" "e < 0"
    "call_method (SetParent pool img i sz) (call_args (SetParent pool img i sz)) h = Some (e, [], h)"
    using starts_reads [OF st] fit
    by (auto simp: rbd_set_parent_def codec_pair_args Let_def split: if_splits)
  then show ?thesis by (rule refines_error [OF st])
qed

lemma refines_remove_parent:
  assumes st: "starts hdr obs h"
  shows "refines RemoveParent hdr obs"
proof (cases "fst (header_spec RemoveParent hdr) = 0")
  case True
  then obtain p where g: "\<not> lacks hdr RBD_FEATURE_LAYERING" "h_parent hdr = Some p"
    by (auto split: if_splits)
  have k1: "header_keys (hdr\<lparr>h_parent := None\<rparr>) = (header_keys hdr)(''parent'' := None)"
    using header_keys_upd(3) [of None hdr] by simp
  obtain obs1 where w1: "cls_map_remove_key ''parent'' h = (0, \<lparr>hc_stored = obs, hc_new = obs1\<rparr>)"
    and r1: "reprs (hdr\<lparr>h_parent := None\<rparr>) obs1"
    using starts_remove [OF st k1] .
  have "call_method RemoveParent (call_args RemoveParent) h
      = Some (0, [], \<lparr>hc_stored = obs, hc_new = obs1\<rparr>)"
    using starts_reads [OF st] w1 g
    by (simp add: rbd_remove_parent_def Let_def)
  then show ?thesis
    by (rule refines_done [OF st _ r1, rotated]) (use g in simp)
next
  case False
  then obtain e where e: "header_spec RemoveParent hdr = (e, hdr)" "e < 0"
    "call_method RemoveParent (call_args RemoveParent) h = Some (e, [], h)"
    using starts_reads [OF st] by (auto simp: rbd_remove_parent_def Let_def split: if_splits)
  then show ?thesis by (rule refines_error [OF st])
qed

lemma snap_seq_first: "\<not> key_from_snap_id i < ''snap_seq''"
  by (simp add: key_from_snap_id_def RBD_SNAP_KEY_PREFIX_def less_char_def)

lemma header_keys_add:
  "header_keys (hdr\<lparr>h_seq := i, h_snaps := smap_put i s (h_snaps hdr)\<rparr>)
     = (header_keys hdr)(''snap_seq'' \<mapsto> encode_u64 i, key_from_snap_id i \<mapsto> encode_snap s)"
  using header_keys_put_snap [of i s "hdr\<lparr>h_seq := i\<rparr>"] header_keys_upd(2) [of i hdr] by simp

lemma refines_snap_add:
  assumes st: "starts hdr obs h" and fit: "small_string name"
  shows "refines (SnapAdd name i) hdr obs"
proof (cases "fst (header_spec (SnapAdd name i) hdr) = 0")
  case True
  then have g: "\<not> CEPH_MAXSNAP < i" "\<not> i < h_seq hdr"
    "\<not> (\<exists>e \<in> set (h_snaps hdr). cs_name (snd e) = name \<or> fst e = i)"
    by (auto split: if_splits)
  define s where "s = \<lparr>cs_id = i, cs_name = name, cs_image_size = h_size hdr,
     cs_features = h_features hdr, cs_protection_status = RBD_PROTECTION_STATUS_UNPROTECTED,
     cs_parent = (case h_parent hdr of None \<Rightarrow> new_cls_rbd_parent | Some p \<Rightarrow> p)\<rparr>"
  have sf: "cs_name s = name" "cs_id s = i" by (simp_all add: s_def)
  let ?hdr' = "hdr\<lparr>h_seq := i, h_snaps := smap_put i s (h_snaps hdr)\<rparr>"
  obtain ob where ob: "obs = Some ob" "smap_ok (od_omap ob)" "map_of (od_omap ob) = header_keys hdr"
    using st by (auto simp: starts_def reprs_def)
  let ?ob' = "ob\<lparr>od_omap := smap_put (key_from_snap_id i) (encode_snap s)
                (smap_put ''snap_seq'' (encode_u64 i) (od_omap ob))\<rparr>"
  have w: "cls_map_set_vals (smap_put (key_from_snap_id i) (encode_snap s)
      (smap_put ''snap_seq'' (encode_u64 i) [])) h = (0, \<lparr>hc_stored = obs, hc_new = Some ?ob'\<rparr>)"
    using starts_ctx [OF st] ob(1) by (simp add: cls_map_set_vals snap_seq_first)
  have r: "reprs ?hdr' (Some ?ob')"
    using ob(2,3) by (simp add: reprs_def header_keys_add)
  have meta: "(case h_parent hdr of None \<Rightarrow> Inr m | Some p \<Rightarrow> Inr (m\<lparr>cs_parent := p\<rparr>)) = (Inr s :: int + cls_rbd_snap)"
    if "m = new_cls_rbd_snap\<lparr>cs_id := i, cs_name := name, cs_image_size := h_size hdr,
          cs_features := h_features hdr\<rparr>" for m
    using that by (simp add: s_def new_cls_rbd_snap_def split: option.split)
  have "call_method (SnapAdd name i) (call_args (SnapAdd name i)) h
      = Some (0, [], \<lparr>hc_stored = obs, hc_new = Some ?ob'\<rparr>)"
    using starts_reads [OF st] g w fit meta sf
    by (cases "h_parent hdr") (simp_all add: rbd_snapshot_add_def codec_pair_args Let_def)
  then show ?thesis
    by (rule refines_done [OF st _ r, rotated]) (use g in \<open>simp add: s_def\<close>)
next
  case False
  then obtain e where e: "header_spec (SnapAdd name i) hdr = (e, hdr)" "e < 0"
    "call_method (SnapAdd name i) (call_args (SnapAdd name i)) h = Some (e, [], h)"
    using starts_reads [OF st] fit
    by (auto simp: rbd_snapshot_add_def codec_pair_args Let_def split: if_splits)
  then show ?thesis by (rule refines_error [OF st])
qed

lemma refines_snap_remove:
  assumes st: "starts hdr obs h"
  shows "refines (SnapRemove i) hdr obs"
proof (cases "fst (header_spec (SnapRemove i) hdr) = 0")
  case True
  then obtain s where g: "map_of (h_snaps hdr) i = Some s"
    "cs_protection_status s = RBD_PROTECTION_STATUS_UNPROTECTED"
    by (auto split: if_splits option.splits)
  have ok: "smap_ok (h_snaps hdr)" using st by (simp add: starts_def header_ok_def)
  obtain obs' where w: "cls_map_remove_key (key_from_snap_id i) h = (0, \<lparr>hc_stored = obs, hc_new = obs'\<rparr>)"
    and r: "reprs (hdr\<lparr>h_snaps := smap_erase i (h_snaps hdr)\<rparr>) obs'"
    using starts_remove [OF st header_keys_erase_snap [OF ok]] .
  have "call_method (SnapRemove i) (call_args (SnapRemove i)) h
      = Some (0, [], \<lparr>hc_stored = obs, hc_new = obs'\<rparr>)"
    using starts_reads [OF st] g w by (simp add: rbd_snapshot_remove_def codec_pair_args)
  then show ?thesis
    by (rule refines_done [OF st _ r, rotated]) (use g in simp)
next
  case False
  then obtain e where e: "header_spec (SnapRemove i) hdr = (e, hdr)" "e < 0"
    "call_method (SnapRemove i) (call_args (SnapRemove i)) h = Some (e, [], h)"
    using starts_reads [OF st]
    by (auto simp: rbd_snapshot_remove_def codec_pair_args split: if_splits option.splits)
  then show ?thesis by (rule refines_error [OF st])
qed

lemma method_refines:
  assumes "reprs hdr obs" "header_ok hdr" "call_fits c"
  shows "refines c hdr obs"
proof -
  have st: "starts hdr obs \<lparr>hc_stored = obs, hc_new = obs\<rparr>" using assms by (simp add: starts_def)
  note each = refines_set_size [OF st] refines_set_protection [OF st] refines_set_stripe [OF st]
    refines_set_parent [OF st] refines_remove_parent [OF st] refines_snap_add [OF st]
    refines_snap_remove [OF st]
  show ?thesis using assms(3) by (cases c) (simp_all add: each)
qed

text \<open>A call on an object, and the runs of calls on the object and on the header.\<close>

definition header_exec :: "header_call \<Rightarrow> osd_object option \<Rightarrow> ((int \<times> bytes) \<times> osd_object option) option" where
  "header_exec c obs = map_option (\<lambda>(r, out, obs'). ((r, out), obs')) (cls_call (call_method c) (call_args c) obs)"

definition header_step :: "header_call \<Rightarrow> header \<Rightarrow> (int \<times> bytes) \<times> header" where
  "header_step c hdr = (case header_spec c hdr of (r, hdr') \<Rightarrow> ((r, []), hdr'))"

interpretation header: simulation "\<lambda>obs hdr. reprs hdr obs \<and> header_ok hdr" "\<lambda>c obs. call_fits c"
  header_exec header_step
proof (unfold_locales, goal_cases)
  case (1 obs hdr c)
  obtain r hdr' where hs: "header_spec c hdr = (r, hdr')" by (cases "header_spec c hdr")
  with method_refines [of hdr obs c] header_spec_ok [of hdr c r hdr'] 1 show ?case
    by (auto simp: refines_def header_exec_def header_step_def)
qed

fun header_execs :: "header_call list \<Rightarrow> osd_object option \<Rightarrow> ((int \<times> bytes) list \<times> osd_object option) option" where
  "header_execs [] obs = Some ([], obs)"
| "header_execs (c # cs) obs = (case header_exec c obs of None \<Rightarrow> None
     | Some (r, obs1) \<Rightarrow> map_option (\<lambda>(rs, obs2). (r # rs, obs2)) (header_execs cs obs1))"

fun header_steps :: "header_call list \<Rightarrow> header \<Rightarrow> (int \<times> bytes) list \<times> header" where
  "header_steps [] hdr = ([], hdr)"
| "header_steps (c # cs) hdr = (let (r, hdr1) = header_step c hdr; (rs, hdr2) = header_steps cs hdr1 in (r # rs, hdr2))"

lemma header_execs_run: "header_execs cs obs = header.conc_run cs obs"
  by (induction cs arbitrary: obs) (simp_all add: header.conc_run.simps split: option.split)

lemma header_steps_run: "header_steps cs hdr = header.spec_run cs hdr"
  by (induction cs arbitrary: hdr) (simp_all add: header.spec_run.simps)

end
