(* ===== verification/Cls_Header_Props.thy ===== *)
theory Cls_Header_Props
  imports Cls_Header_Spec
begin

text \<open>
  The header object over its life: its creation, any sequence of methods on it, what its queries
  answer, the snapshot context of all its snapshots, the round trip of its snapshot records with those
  of older versions, and a snapshot whose record is damaged.
\<close>

subsection \<open>Creation\<close>

definition created :: "u64 \<Rightarrow> u8 \<Rightarrow> u64 \<Rightarrow> string \<Rightarrow> header" where
  "created sz order features pre = \<lparr>h_size = sz, h_order = order, h_features = features, h_prefix = pre,
     h_seq = 0, h_snaps = [], h_parent = None, h_unit = None, h_count = None\<rparr>"

definition create_args :: "u64 \<Rightarrow> u8 \<Rightarrow> u64 \<Rightarrow> string \<Rightarrow> bytes" where
  "create_args sz order features pre =
     encode_pair encode_u64 (encode_pair encode_u8 (encode_pair encode_u64 encode_string))
       (sz, order, features, pre)"

interpretation arg_u64_str: codec_pair encode_u64 decode_u64 "\<lambda>_. True" encode_string decode_string short ..

interpretation arg_create_tail: codec_pair encode_u8 decode_u8 "\<lambda>_. True"
  "encode_pair encode_u64 encode_string" "decode_pair decode_u64 decode_string" "\<lambda>x. short (snd x)"
  by unfold_locales (simp add: arg_u64_str.pair.dec_enc)

interpretation arg_create: codec_pair encode_u64 decode_u64 "\<lambda>_. True"
  "encode_pair encode_u8 (encode_pair encode_u64 encode_string)"
  "decode_pair decode_u8 (decode_pair decode_u64 decode_string)" "\<lambda>x. short (snd (snd x))"
  by unfold_locales (simp add: arg_create_tail.pair.dec_enc)

lemma created_ok: "small_string pre \<Longrightarrow> header_ok (created sz order features pre)"
  by (simp add: header_ok_def created_def)

lemma create_reprs:
  assumes "features AND NOT RBD_FEATURES_ALL = 0" "pre \<noteq> []" "small_string pre"
    "omap_of obs = []"
  shows "\<exists>obs'. cls_call rbd_create (create_args sz order features pre) obs = Some (0, [], obs') \<and>
     reprs (created sz order features pre) obs'"
proof -
  let ?kvs = "[(''size'', encode_u64 sz), (''order'', encode_u8 order), (''features'', encode_u64 features),
     (''object_prefix'', encode_string pre), (''snap_seq'', encode_u64 0)]"
  let ?h = "\<lparr>hc_stored = obs, hc_new = obs\<rparr>"
  obtain ob where ob: "the_default fresh_object obs = ob" "od_omap ob = []"
    using assms(4) by (cases obs) (simp_all add: fresh_object_def)
  have "set_keys ?kvs ?h = (0, \<lparr>hc_stored = obs, hc_new = Some (ob\<lparr>od_omap :=
      fold (\<lambda>(k, v). smap_put k v) ?kvs []\<rparr>)\<rparr>)"
    using assms(4) ob by (simp add: cls_map_set_val_def cls_map_set_vals)
  moreover have "cls_map_get_val ''object_prefix'' ?h = Inl (- ENOENT)"
    using assms(4) by (simp add: cls_map_get_val)
  ultimately have "rbd_create (create_args sz order features pre) ?h = Some (0, [], \<lparr>hc_stored = obs,
      hc_new = Some (ob\<lparr>od_omap := fold (\<lambda>(k, v). smap_put k v) ?kvs []\<rparr>)\<rparr>)"
    using assms(1,2) small_short [OF assms(3)]
    by (simp add: rbd_create_def create_args_def arg_create.pair.dec_enc_end)
  moreover have "map_of (fold (\<lambda>(k, v). smap_put k v) ?kvs []) = header_keys (created sz order features pre)"
    by (auto simp: header_keys_def created_def snap_keys_def fun_eq_iff)
  moreover have "smap_ok (fold (\<lambda>(k, v). smap_put k v) ?kvs [])"
    by (rule smap_ok_fold_put) simp
  ultimately show ?thesis
    by (simp add: cls_call_def reprs_def)
qed

subsection \<open>Every history\<close>

lemma header_history:
  assumes "reprs hdr obs" "header_ok hdr" "\<forall>c \<in> set cs. call_fits c"
  shows "\<exists>rs obs' hdr'. header_execs cs obs = Some (rs, obs') \<and> header_steps cs hdr = (rs, hdr') \<and>
     reprs hdr' obs' \<and> header_ok hdr'"
  unfolding header_execs_run header_steps_run
  using header.runs [of hdr obs cs] assms by blast

text \<open>From its creation on, whatever methods run on a header object: no two snapshots share an
  id or a name, no id is above \<open>snap_seq\<close>, the overlap with the parent is at most the size (also the
  one a snapshot recorded), and a stripe unit divides the object size.\<close>

theorem header_invariant:
  assumes "features AND NOT RBD_FEATURES_ALL = 0" "pre \<noteq> []" "small_string pre" "omap_of obs = []"
    "\<forall>c \<in> set cs. call_fits c"
  shows "\<exists>obs0 rs obs' hdr. cls_call rbd_create (create_args sz order features pre) obs = Some (0, [], obs0) \<and>
     header_execs cs obs0 = Some (rs, obs') \<and> reprs hdr obs' \<and> header_ok hdr"
proof -
  obtain obs0 where c: "cls_call rbd_create (create_args sz order features pre) obs = Some (0, [], obs0)"
    and r: "reprs (created sz order features pre) obs0"
    using create_reprs [OF assms(1-4)] by blast
  show ?thesis
    using header_history [OF r created_ok [OF assms(3)] assms(5)] c by blast
qed

definition demo_calls :: "header_call list" where
  "demo_calls = [SnapAdd ''a'' 3, SetParent 1 ''p'' 7 4096, SnapAdd ''a'' 4, SnapAdd ''b'' 5, SnapAdd ''c'' 2,
     SetProtection 5 2, SetSize 1024, SnapRemove 5, SnapRemove 3]"

lemma demo_calls_fit: "\<forall>c \<in> set demo_calls. call_fits c"
  by (simp add: demo_calls_def small_string_def)

lemma header_invariant_witness:
  "\<exists>obs0 rs obs' hdr. cls_call rbd_create (create_args 65536 22 1 ''rb.1'') None = Some (0, [], obs0) \<and>
     header_execs demo_calls obs0 = Some (rs, obs') \<and> reprs hdr obs' \<and> header_ok hdr"
  by (rule header_invariant [OF _ _ _ _ demo_calls_fit])
    (simp_all add: rbd_consts small_string_def)

subsection \<open>The snapshot context\<close>

lemma prefixed_keys: "map fst (prefixed p h) = filter (has_prefix p) (map fst (omap_of (hc_stored h)))"
  by (simp add: prefixed_def filter_map comp_def)

lemma snapcontext_loop:
  assumes ok: "omap_ok (hc_stored h)" and "RBD_SNAP_KEY_PREFIX \<le> l"
  shows "snapcontext_loop h l acc =
     Some (acc @ map snap_id_from_key (filter (has_prefix RBD_SNAP_KEY_PREFIX) (key_pages.after h l)))"
  using assms(2)
proof (induction "length (key_pages.after h l)" arbitrary: l acc rule: less_induct)
  case less
  let ?rest = "key_pages.after h" and ?P = "has_prefix RBD_SNAP_KEY_PREFIX"
  let ?page = "take RBD_MAX_KEYS_READ (?rest l)"
  have sorted: "sorted_wrt (<) ?page"
    using key_pages.after_sorted [OF ok, of l] by (simp add: sorted_wrt_take)
  have above: "k \<in> set (?rest l) \<Longrightarrow> l < k" for k by (simp add: key_pages.after_def)
  then have "\<forall>k \<in> set ?page. RBD_SNAP_KEY_PREFIX \<le> k"
    using less.prems by (auto dest!: in_set_takeD intro: order.trans less_imp_le)
  then have tw: "takeWhile ?P ?page = filter ?P ?page"
    using sorted by (rule takeWhile_prefix [rotated])
  have split: "filter ?P (?rest l) = filter ?P ?page @ filter ?P (drop RBD_MAX_KEYS_READ (?rest l))"
    by (simp add: filter_append [symmetric])
  show ?case
  proof (cases "length ?page = RBD_MAX_KEYS_READ")
    case True
    then have ne: "?page \<noteq> []" by (auto simp: RBD_MAX_KEYS_READ_def)
    have next_page: "?rest (last ?page) = drop RBD_MAX_KEYS_READ (?rest l)"
      using key_pages.full_page [OF ok, of l RBD_MAX_KEYS_READ] ne
      by (simp add: cls_map_get_keys [OF ok])
    have shorter: "length (?rest (last ?page)) < length (?rest l)"
      using True ne unfolding next_page by (simp add: RBD_MAX_KEYS_READ_def)
    have "last ?page \<in> set (?rest l)" using ne by (meson in_set_takeD last_in_set)
    then have "RBD_SNAP_KEY_PREFIX \<le> last ?page" using above less.prems by fastforce
    then show ?thesis
      using True ne next_page tw less(1) [OF shorter]
      by (subst snapcontext_loop.simps) (simp add: cls_map_get_keys [OF ok] split Let_def)
  next
    case False
    then have "drop RBD_MAX_KEYS_READ (?rest l) = []" by simp
    then show ?thesis
      using False split tw
      by (subst snapcontext_loop.simps) (simp add: cls_map_get_keys [OF ok] Let_def)
  qed
qed

lemma snap_ids_of_keys: "map snap_id_from_key (map fst (snap_keys m)) = map fst m"
  by (induction m) (auto simp: snap_keys_def)

lemma snapcontext_ids:
  assumes "reprs hdr (hc_stored h)" "header_ok hdr"
  shows "snapcontext_loop h RBD_SNAP_KEY_PREFIX [] = Some (map fst (h_snaps hdr))"
proof -
  let ?P = "has_prefix RBD_SNAP_KEY_PREFIX"
  have ok: "omap_ok (hc_stored h)" using assms(1) by (auto simp: reprs_def omap_ok_def)
  have "filter ?P (key_pages.after h RBD_SNAP_KEY_PREFIX)
      = filter ((<) RBD_SNAP_KEY_PREFIX) (map fst (prefixed RBD_SNAP_KEY_PREFIX h))"
    unfolding prefixed_keys key_pages.after_def by (simp add: conj_commute)
  also have "\<dots> = map fst (snap_keys (h_snaps hdr))"
    unfolding reprs_prefixed [OF assms] by (auto simp: snap_keys_def intro!: filter_True)
  finally show ?thesis
    using snapcontext_loop [OF ok order_refl, of "[]"] by (simp only: snap_ids_of_keys append_Nil)
qed

text \<open>The snapshot context is complete: however many pages the keys take, the listing ends and
  returns \<open>snap_seq\<close> and the ids of all snapshots of the header and no others, in strictly descending
  order and none above \<open>snap_seq\<close>, as a RADOS snapshot context requires.\<close>

theorem snapcontext_complete:
  assumes "reprs hdr obs" "header_ok hdr"
  shows "\<exists>ids. cls_call rbd_get_snapcontext inp obs = Some (0, encode_u64 (h_seq hdr) @ encode_ids ids, obs) \<and>
     set ids = dom (map_of (h_snaps hdr)) \<and> sorted_wrt (>) ids \<and> (\<forall>i \<in> set ids. i \<le> h_seq hdr)"
proof (intro exI conjI)
  let ?ids = "rev (map fst (h_snaps hdr))"
  show "cls_call rbd_get_snapcontext inp obs = Some (0, encode_u64 (h_seq hdr) @ encode_ids ?ids, obs)"
    using snapcontext_ids [of hdr "\<lparr>hc_stored = obs, hc_new = obs\<rparr>"] assms
      read_fields(4) [of hdr "\<lparr>hc_stored = obs, hc_new = obs\<rparr>"]
    by (simp add: cls_call_def rbd_get_snapcontext_def)
  show "set ?ids = dom (map_of (h_snaps hdr))" by (simp add: dom_map_of_conv_image_fst)
  show "sorted_wrt (>) ?ids"
    using assms(2) by (simp add: header_ok_def smap_ok_def sorted_wrt_rev)
  show "\<forall>i \<in> set ?ids. i \<le> h_seq hdr"
    using assms(2) by (auto simp: header_ok_def snap_entry_ok_def)
qed

lemma snapcontext_complete_witness:
  "\<exists>obs. reprs (snd (header_steps [SnapAdd ''a'' 3, SnapAdd ''b'' 7] (created 65536 22 1 ''rb.1''))) obs \<and>
    (\<exists>ids. cls_call rbd_get_snapcontext [] obs = Some (0, encode_u64 7 @ encode_ids ids, obs) \<and>
     set ids = {3, 7} \<and> sorted_wrt (>) ids \<and> (\<forall>i \<in> set ids. i \<le> 7))"
proof -
  let ?c = "created 65536 22 1 ''rb.1''" and ?cs = "[SnapAdd ''a'' 3, SnapAdd ''b'' 7]"
  let ?hdr = "snd (header_steps ?cs ?c)"
  obtain obs0 where r: "reprs ?c obs0"
    using create_reprs [of 1 "''rb.1''" None 65536 22] by (auto simp: rbd_consts small_string_def)
  have "header_ok ?c" by (rule created_ok) (simp add: small_string_def)
  then obtain obs where obs: "reprs ?hdr obs" "header_ok ?hdr"
    using header_history [OF r, of ?cs] by (auto simp: small_string_def)
  have "h_seq ?hdr = 7" "dom (map_of (h_snaps ?hdr)) = {3, 7}"
    by (simp_all add: header_step_def created_def rbd_consts insert_commute)
  then show ?thesis using snapcontext_complete [OF obs, of "[]"] obs(1) by auto
qed

subsection \<open>Snapshot records\<close>

text \<open>The body of a record of an older version: version 1 ends before the parent, version 2 before the
  protection status.\<close>

definition old_snap_body :: "u8 \<Rightarrow> cls_rbd_snap \<Rightarrow> bytes" where
  "old_snap_body v s = encode_u64 (cs_id s) @ encode_string (cs_name s) @ encode_u64 (cs_image_size s) @
     encode_u64 (cs_features s) @ (if v < 2 then [] else encode_parent (cs_parent s))"

lemma old_body_fits: "snap_fits s \<Longrightarrow> short (old_snap_body v s)"
  using snap_body_fits [of s]
  by (auto simp: short_def old_snap_body_def snap_body_def encode_u8_def)

lemma decode_old_snap:
  assumes "snap_fits s" "v = 1 \<or> v = 2"
  shows "decode_snap (encode_struct v 1 (old_snap_body v s) @ p) =
    Some (s\<lparr>cs_protection_status := 0, cs_parent := (if v = 1 then new_cls_rbd_parent else cs_parent s)\<rparr>, p)"
proof -
  have n: "short (cs_name s)" and p: "parent_fits (cs_parent s)"
    using assms(1) by (simp_all add: snap_fits_def small_short)
  have u: "unat (of_nat (length (old_snap_body v s)) :: u32) = length (old_snap_body v s)"
    using old_body_fits [OF assms(1)] by (rule unat_short)
  have low: "\<not> (2 :: u8) \<le> 1" "\<not> (3 :: u8) \<le> 1" "\<not> (3 :: u8) \<le> 2"
    by (simp_all add: word_le_nat_alt)
  have "decode_snap_body v (old_snap_body v s @ p) =
    Some (s\<lparr>cs_protection_status := 0, cs_parent := (if v = 1 then new_cls_rbd_parent else cs_parent s)\<rparr>, p)"
    using assms(2) low
    by (auto simp: decode_snap_body_def old_snap_body_def c64.dec_enc cstr.dec_enc [OF n]
        cparent.dec_enc [OF p] rbd_consts)
  then show ?thesis
    using assms(2)
    by (auto simp: decode_snap_def decode_struct_def struct_fields_def encode_struct_def c8.dec_enc
        c32.dec_enc u)
qed

text \<open>A snapshot record survives its encoding, whatever bytes follow it, and the decoder still
  reads the records of the two older versions: what they lack (the parent in version 1, the protection
  status in both) is that of a snapshot without parent and unprotected.\<close>

theorem snap_record_roundtrip:
  assumes "snap_fits s"
  shows "decode_snap (encode_snap s @ p) = Some (s, p) \<and>
    decode_snap (encode_struct 2 1 (old_snap_body 2 s) @ p) =
      Some (s\<lparr>cs_protection_status := RBD_PROTECTION_STATUS_UNPROTECTED\<rparr>, p) \<and>
    decode_snap (encode_struct 1 1 (old_snap_body 1 s) @ p) =
      Some (s\<lparr>cs_protection_status := RBD_PROTECTION_STATUS_UNPROTECTED, cs_parent := new_cls_rbd_parent\<rparr>, p)"
  using csnap.dec_enc [OF assms] decode_old_snap [OF assms, of 2 p] decode_old_snap [OF assms, of 1 p]
  by (simp add: RBD_PROTECTION_STATUS_UNPROTECTED_def)

lemma snap_record_roundtrip_witness:
  "\<exists>s. cs_name s = ''a'' \<and> cp_overlap (cs_parent s) = 4096 \<and> cs_protection_status s = 2 \<and>
     decode_snap (encode_snap s @ [9]) = Some (s, [9])"
proof -
  let ?s = "\<lparr>cs_id = 3, cs_name = ''a'', cs_image_size = 8192, cs_features = 1, cs_protection_status = 2,
     cs_parent = \<lparr>cp_pool = 1, cp_id = ''p'', cp_snapid = 7, cp_overlap = 4096\<rparr>\<rparr>"
  have "snap_fits ?s" by (simp add: snap_fits_def parent_fits_def small_string_def)
  from snap_record_roundtrip [OF this, of "[9]"] show ?thesis by (intro exI [of _ ?s]) simp
qed

subsection \<open>Queries\<close>

text \<open>What a query is about: the image itself, or one of its snapshots.\<close>

definition seen_size :: "header \<Rightarrow> u64 \<Rightarrow> u64 option" where
  "seen_size hdr i = (if i = CEPH_NOSNAP then Some (h_size hdr)
     else map_option cs_image_size (map_of (h_snaps hdr) i))"

definition seen_features :: "header \<Rightarrow> u64 \<Rightarrow> u64 option" where
  "seen_features hdr i = (if i = CEPH_NOSNAP then Some (h_features hdr)
     else map_option cs_features (map_of (h_snaps hdr) i))"

definition seen_parent :: "header \<Rightarrow> u64 \<Rightarrow> cls_rbd_parent" where
  "seen_parent hdr i =
     (if lacks hdr RBD_FEATURE_LAYERING then new_cls_rbd_parent
      else if i = CEPH_NOSNAP then (case h_parent hdr of None \<Rightarrow> new_cls_rbd_parent | Some p \<Rightarrow> p)
      else (case map_of (h_snaps hdr) i of None \<Rightarrow> new_cls_rbd_parent | Some s \<Rightarrow> cs_parent s))"

definition parent_fields :: "cls_rbd_parent \<Rightarrow> bytes" where
  "parent_fields p = encode_u64 (cp_pool p) @ encode_string (cp_id p) @ encode_u64 (cp_snapid p) @
     encode_u64 (cp_overlap p)"

text \<open>The queries answer from the header: the size and features of the image or of a snapshot
  (\<open>-ENOENT\<close> for a snapshot that does not exist), the parent (that of no image, with success, when there
  is none or the snapshot does not exist), and a snapshot's name and protection status.\<close>

theorem header_queries:
  assumes "reprs hdr obs" "header_ok hdr"
  shows "cls_call rbd_get_size (encode_u64 i) obs = (case seen_size hdr i of
      None \<Rightarrow> Some (- ENOENT, [], obs) | Some sz \<Rightarrow> Some (0, encode_u8 (h_order hdr) @ encode_u64 sz, obs)) \<and>
    cls_call rbd_get_features (encode_u64 i) obs = (case seen_features hdr i of
      None \<Rightarrow> Some (- ENOENT, [], obs)
    | Some f \<Rightarrow> Some (0, encode_u64 f @ encode_u64 (f AND RBD_FEATURES_INCOMPATIBLE), obs)) \<and>
    cls_call rbd_get_parent (encode_u64 i) obs = Some (0, parent_fields (seen_parent hdr i), obs) \<and>
    cls_call rbd_get_snapshot_name (encode_u64 i) obs = (if i = CEPH_NOSNAP then Some (- EINVAL, [], obs)
      else case map_of (h_snaps hdr) i of
        None \<Rightarrow> Some (- ENOENT, [], obs) | Some s \<Rightarrow> Some (0, encode_string (cs_name s), obs)) \<and>
    cls_call rbd_get_protection_status (encode_u64 i) obs = (if i = CEPH_NOSNAP then Some (- EINVAL, [], obs)
      else case map_of (h_snaps hdr) i of
        None \<Rightarrow> Some (- ENOENT, [], obs) | Some s \<Rightarrow> Some (0, encode_u8 (cs_protection_status s), obs))"
proof -
  let ?h = "\<lparr>hc_stored = obs, hc_new = obs\<rparr>"
  have st: "starts hdr obs ?h" using assms by (simp add: starts_def)
  note rd = starts_reads [OF st]
  have prot: "\<not> RBD_PROTECTION_STATUS_LAST \<le> cs_protection_status s" if "map_of (h_snaps hdr) i = Some s" for s
    using map_of_SomeD [OF that] assms(2) by (auto simp: header_ok_def snap_entry_ok_def not_le)
  have "rbd_get_size (encode_u64 i) ?h = (case seen_size hdr i of
      None \<Rightarrow> Some (- ENOENT, [], ?h) | Some sz \<Rightarrow> Some (0, encode_u8 (h_order hdr) @ encode_u64 sz, ?h))"
    using rd by (simp add: rbd_get_size_def c64.dec_enc_end seen_size_def split: option.split)
  moreover have "rbd_get_features (encode_u64 i) ?h = (case seen_features hdr i of
      None \<Rightarrow> Some (- ENOENT, [], ?h)
    | Some f \<Rightarrow> Some (0, encode_u64 f @ encode_u64 (f AND RBD_FEATURES_INCOMPATIBLE), ?h))"
    using rd by (simp add: rbd_get_features_def c64.dec_enc_end seen_features_def split: option.split)
  moreover have "rbd_get_parent (encode_u64 i) ?h = Some (0, parent_fields (seen_parent hdr i), ?h)"
    using rd by (simp add: rbd_get_parent_def c64.dec_enc_end seen_parent_def parent_fields_def
        new_cls_rbd_snap_def Let_def split: option.split)
  moreover have "rbd_get_snapshot_name (encode_u64 i) ?h = (if i = CEPH_NOSNAP then Some (- EINVAL, [], ?h)
      else case map_of (h_snaps hdr) i of
        None \<Rightarrow> Some (- ENOENT, [], ?h) | Some s \<Rightarrow> Some (0, encode_string (cs_name s), ?h))"
    using rd by (simp add: rbd_get_snapshot_name_def c64.dec_enc_end split: option.split)
  moreover have "rbd_get_protection_status (encode_u64 i) ?h = (if i = CEPH_NOSNAP then Some (- EINVAL, [], ?h)
      else case map_of (h_snaps hdr) i of
        None \<Rightarrow> Some (- ENOENT, [], ?h) | Some s \<Rightarrow> Some (0, encode_u8 (cs_protection_status s), ?h))"
    using rd prot by (simp add: rbd_get_protection_status_def c64.dec_enc_end Let_def split: option.split)
  ultimately show ?thesis
    by (simp add: cls_call_def split: option.split)
qed

lemma header_queries_witness:
  "\<exists>obs. cls_call rbd_get_size (encode_u64 CEPH_NOSNAP) obs = Some (0, encode_u8 22 @ encode_u64 65536, obs)"
proof -
  let ?c = "created 65536 22 1 ''rb.1''"
  obtain obs where r: "reprs ?c obs"
    using create_reprs [of 1 "''rb.1''" None 65536 22] by (auto simp: rbd_consts small_string_def)
  have "header_ok ?c" by (rule created_ok) (simp add: small_string_def)
  from header_queries [OF r this, of CEPH_NOSNAP] show ?thesis
    by (auto simp: seen_size_def created_def)
qed

lemma read_prefix:
  assumes "reprs hdr (hc_stored h)" "header_ok hdr"
  shows "read_key decode_string ''object_prefix'' h = Inr (h_prefix hdr)"
  using reprs_lookup [OF assms(1)] assms(2)
  by (auto intro!: cstr.read_key_enc simp: header_keys_def header_ok_def small_short)

lemma prefix_query:
  assumes "reprs hdr obs" "header_ok hdr"
  shows "cls_call rbd_get_object_prefix inp obs = Some (0, encode_string (h_prefix hdr), obs)"
  using read_prefix [of hdr "\<lparr>hc_stored = obs, hc_new = obs\<rparr>"] assms
  by (simp add: cls_call_def rbd_get_object_prefix_def)

lemma snapcontext_query:
  assumes "reprs hdr obs" "header_ok hdr"
  shows "cls_call rbd_get_snapcontext inp obs =
    Some (0, encode_u64 (h_seq hdr) @ encode_ids (rev (map fst (h_snaps hdr))), obs)"
  using snapcontext_ids [of hdr "\<lparr>hc_stored = obs, hc_new = obs\<rparr>"] assms
    read_fields(4) [of hdr "\<lparr>hc_stored = obs, hc_new = obs\<rparr>"]
  by (simp add: cls_call_def rbd_get_snapcontext_def)

text \<open>The striping of a header, the default one where its keys are not there.\<close>

lemma stripe_query:
  assumes "reprs hdr obs"
  shows "cls_call rbd_get_stripe_unit_count inp obs =
      Some (if lacks hdr RBD_FEATURE_STRIPINGV2 then (- ENOEXEC, [], obs)
            else (0, encode_u64 (the_default (object_bytes (h_order hdr)) (h_unit hdr)) @
                     encode_u64 (the_default 1 (h_count hdr)), obs))"
proof -
  let ?h = "\<lparr>hc_stored = obs, hc_new = obs\<rparr>"
  have r: "reprs hdr (hc_stored ?h)" "reprs hdr (hc_new ?h)" using assms(1) by simp_all
  have "read_key decode_u64 ''stripe_unit'' ?h = (case h_unit hdr of None \<Rightarrow> Inl (- ENOENT) | Some u \<Rightarrow> Inr u)"
    "read_key decode_u64 ''stripe_count'' ?h = (case h_count hdr of None \<Rightarrow> Inl (- ENOENT) | Some u \<Rightarrow> Inr u)"
    using reprs_lookup [OF r(1)]
    by (auto intro!: c64.read_key_enc read_key_missing simp: header_keys_def split: option.split)
  then show ?thesis
    using read_fields(2) [OF r(1)] require_feature [OF r(1)] check_exists [OF r(2)]
    by (auto simp: cls_call_def rbd_get_stripe_unit_count_def split: option.splits)
qed

lemma create_again:
  assumes "reprs hdr obs" "short pre"
  shows "cls_call rbd_create (create_args sz order features pre) obs =
    Some (if features AND NOT RBD_FEATURES_ALL \<noteq> 0 then - ENOSYS else if pre = [] then - EINVAL else - EEXIST, [], obs)"
proof -
  have "map_of (omap_of obs) ''object_prefix'' \<noteq> None"
    using reprs_lookup [OF assms(1)] by (simp add: header_keys_def)
  then have "cls_map_get_val ''object_prefix'' \<lparr>hc_stored = obs, hc_new = obs\<rparr> \<noteq> Inl (- ENOENT)"
    by (auto simp: cls_map_get_val)
  then show ?thesis
    using assms(2) by (simp add: cls_call_def rbd_create_def create_args_def arg_create.pair.dec_enc_end)
qed

subsection \<open>Any requests, in any order\<close>

datatype header_request =
    Change header_call
  | Create u64 u8 u64 string
  | AskSize u64
  | AskFeatures u64
  | AskParent u64
  | AskProtection u64
  | AskSnapName u64
  | AskSnapContext
  | AskStripe
  | AskPrefix

fun request_method :: "header_request \<Rightarrow> cls_method" where
  "request_method (Change c) = call_method c"
| "request_method (Create sz order features pre) = rbd_create"
| "request_method (AskSize i) = rbd_get_size"
| "request_method (AskFeatures i) = rbd_get_features"
| "request_method (AskParent i) = rbd_get_parent"
| "request_method (AskProtection i) = rbd_get_protection_status"
| "request_method (AskSnapName i) = rbd_get_snapshot_name"
| "request_method AskSnapContext = rbd_get_snapcontext"
| "request_method AskStripe = rbd_get_stripe_unit_count"
| "request_method AskPrefix = rbd_get_object_prefix"

fun request_args :: "header_request \<Rightarrow> bytes" where
  "request_args (Change c) = call_args c"
| "request_args (Create sz order features pre) = create_args sz order features pre"
| "request_args (AskSize i) = encode_u64 i"
| "request_args (AskFeatures i) = encode_u64 i"
| "request_args (AskParent i) = encode_u64 i"
| "request_args (AskProtection i) = encode_u64 i"
| "request_args (AskSnapName i) = encode_u64 i"
| "request_args _ = []"

fun request_fits :: "header_request \<Rightarrow> bool" where
  "request_fits (Change c) = call_fits c"
| "request_fits (Create sz order features pre) = small_string pre"
| "request_fits _ = True"

text \<open>The answer of a query that can miss its snapshot.\<close>

definition or_enoent :: "('a \<Rightarrow> bytes) \<Rightarrow> 'a option \<Rightarrow> int \<times> bytes" where
  "or_enoent enc x = (case x of None \<Rightarrow> (- ENOENT, []) | Some v \<Rightarrow> (0, enc v))"

fun request_answer :: "header_request \<Rightarrow> header \<Rightarrow> int \<times> bytes" where
  "request_answer (Change c) hdr = (fst (header_spec c hdr), [])"
| "request_answer (Create sz order features pre) hdr =
     (if features AND NOT RBD_FEATURES_ALL \<noteq> 0 then - ENOSYS else if pre = [] then - EINVAL else - EEXIST, [])"
| "request_answer (AskSize i) hdr = or_enoent (\<lambda>sz. encode_u8 (h_order hdr) @ encode_u64 sz) (seen_size hdr i)"
| "request_answer (AskFeatures i) hdr =
     or_enoent (\<lambda>f. encode_u64 f @ encode_u64 (f AND RBD_FEATURES_INCOMPATIBLE)) (seen_features hdr i)"
| "request_answer (AskParent i) hdr = (0, parent_fields (seen_parent hdr i))"
| "request_answer (AskProtection i) hdr =
     (if i = CEPH_NOSNAP then (- EINVAL, [])
      else or_enoent (\<lambda>s. encode_u8 (cs_protection_status s)) (map_of (h_snaps hdr) i))"
| "request_answer (AskSnapName i) hdr =
     (if i = CEPH_NOSNAP then (- EINVAL, []) else or_enoent (\<lambda>s. encode_string (cs_name s)) (map_of (h_snaps hdr) i))"
| "request_answer AskSnapContext hdr = (0, encode_u64 (h_seq hdr) @ encode_ids (rev (map fst (h_snaps hdr))))"
| "request_answer AskStripe hdr =
     (if lacks hdr RBD_FEATURE_STRIPINGV2 then (- ENOEXEC, [])
      else (0, encode_u64 (the_default (object_bytes (h_order hdr)) (h_unit hdr)) @ encode_u64 (the_default 1 (h_count hdr))))"
| "request_answer AskPrefix hdr = (0, encode_string (h_prefix hdr))"

definition request_step :: "header_request \<Rightarrow> header \<Rightarrow> (int \<times> bytes) \<times> header" where
  "request_step q hdr = (request_answer q hdr, case q of Change c \<Rightarrow> snd (header_spec c hdr) | _ \<Rightarrow> hdr)"

definition request_exec :: "header_request \<Rightarrow> osd_object option \<Rightarrow> ((int \<times> bytes) \<times> osd_object option) option" where
  "request_exec q obs = map_option (\<lambda>(r, out, obs'). ((r, out), obs')) (cls_call (request_method q) (request_args q) obs)"

lemma request_exec_query:
  "cls_call (request_method q) (request_args q) obs = Some (fst (request_answer q hdr), snd (request_answer q hdr), obs) \<Longrightarrow>
     request_exec q obs = Some (request_answer q hdr, obs)"
  by (simp add: request_exec_def)

lemma request_refines:
  assumes "reprs hdr obs" "header_ok hdr" "request_fits q"
  shows "\<exists>obs'. request_exec q obs = Some (request_answer q hdr, obs') \<and> reprs (snd (request_step q hdr)) obs'
    \<and> header_ok (snd (request_step q hdr))"
proof (cases q)
  case (Change c)
  then have "refines c hdr obs" using method_refines [OF assms(1,2)] assms(3) by simp
  moreover have "header_ok (snd (header_spec c hdr))"
    using header_spec_ok [OF assms(2), of c] assms(3) Change by (metis prod.collapse request_fits.simps(1))
  ultimately show ?thesis by (auto simp: refines_def request_exec_def request_step_def Change)
next
  case (Create sz order features pre)
  then have "request_exec q obs = Some (request_answer q hdr, obs)"
    using create_again [OF assms(1), of pre sz order features] assms(3)
    by (intro request_exec_query) (simp add: small_short)
  then show ?thesis using assms(1,2) by (simp add: request_step_def Create)
next
  case AskSnapContext
  then show ?thesis
    using assms request_exec_query [of q obs hdr] snapcontext_query [OF assms(1,2)] by (simp add: request_step_def)
next
  case AskStripe
  then show ?thesis
    using assms request_exec_query [of q obs hdr] stripe_query [OF assms(1)] by (simp add: request_step_def)
next
  case AskPrefix
  then show ?thesis
    using assms request_exec_query [of q obs hdr] prefix_query [OF assms(1,2)] by (simp add: request_step_def)
qed (use assms request_exec_query [of q obs hdr] header_queries [OF assms(1,2)] in
    \<open>simp_all add: request_step_def or_enoent_def split: option.split\<close>)

interpretation header_request: simulation "\<lambda>obs hdr. reprs hdr obs \<and> header_ok hdr" "\<lambda>q obs. request_fits q"
  request_exec request_step
proof (unfold_locales, goal_cases)
  case (1 obs hdr q)
  then obtain obs' where "request_exec q obs = Some (request_answer q hdr, obs')"
    "reprs (snd (request_step q hdr)) obs'" "header_ok (snd (request_step q hdr))"
    using request_refines by blast
  then show ?case by (simp add: request_step_def)
qed

fun request_execs :: "header_request list \<Rightarrow> osd_object option \<Rightarrow> ((int \<times> bytes) list \<times> osd_object option) option" where
  "request_execs [] obs = Some ([], obs)"
| "request_execs (q # qs) obs = (case request_exec q obs of None \<Rightarrow> None
     | Some (r, obs1) \<Rightarrow> map_option (\<lambda>(rs, obs2). (r # rs, obs2)) (request_execs qs obs1))"

fun request_steps :: "header_request list \<Rightarrow> header \<Rightarrow> (int \<times> bytes) list \<times> header" where
  "request_steps [] hdr = ([], hdr)"
| "request_steps (q # qs) hdr = (let (r, hdr1) = request_step q hdr; (rs, hdr2) = request_steps qs hdr1 in (r # rs, hdr2))"

lemma request_execs_run: "request_execs qs obs = header_request.conc_run qs obs"
  by (induction qs arbitrary: obs) (simp_all add: header_request.conc_run.simps split: option.split)

lemma request_steps_run: "request_steps qs hdr = header_request.spec_run qs hdr"
  by (induction qs arbitrary: hdr) (simp_all add: header_request.spec_run.simps)

lemma request_history:
  assumes "reprs hdr obs" "header_ok hdr" "\<forall>q \<in> set qs. request_fits q"
  shows "\<exists>rs obs' hdr'. request_execs qs obs = Some (rs, obs') \<and> request_steps qs hdr = (rs, hdr') \<and>
     reprs hdr' obs' \<and> header_ok hdr'"
  unfolding request_execs_run request_steps_run using header_request.runs [of hdr obs qs] assms by blast

text \<open>C12. The header object implements its specification. On an object that encodes a well-formed header, any
  sequence of the methods that change it (sizes, protection, striping, parents, snapshots added and
  removed), of its queries (size, features, parent, protection status and name of a snapshot, snapshot
  context, striping, prefix) and of further creations, with arguments that exist or not, returns the codes
  and the bytes that the specification computes from the header, and the object encodes the header
  that the specification computes. The first creation on an object without keys makes such an object:
  it returns 0, and whatever follows starts from the header with the given size, order, features and
  prefix and no snapshot, parent or striping.\<close>

theorem header_refines:
  assumes "\<forall>q \<in> set qs. request_fits q"
  shows "(\<forall>hdr. reprs hdr obs \<and> header_ok hdr \<longrightarrow>
      (\<exists>rs obs' hdr'. request_execs qs obs = Some (rs, obs') \<and> request_steps qs hdr = (rs, hdr') \<and>
         reprs hdr' obs' \<and> header_ok hdr'))
    \<and> (omap_of obs = [] \<and> features AND NOT RBD_FEATURES_ALL = 0 \<and> pre \<noteq> [] \<and> small_string pre \<longrightarrow>
      (\<exists>rs obs' hdr'. request_execs (Create sz order features pre # qs) obs = Some ((0, []) # rs, obs') \<and>
         request_steps qs (created sz order features pre) = (rs, hdr') \<and> reprs hdr' obs' \<and> header_ok hdr'))"
proof (intro conjI impI allI)
  show "\<exists>rs obs' hdr'. request_execs qs obs = Some (rs, obs') \<and> request_steps qs hdr = (rs, hdr') \<and>
         reprs hdr' obs' \<and> header_ok hdr'" if "reprs hdr obs \<and> header_ok hdr" for hdr
    using request_history [of hdr obs qs] that assms by blast
next
  assume h: "omap_of obs = [] \<and> features AND NOT RBD_FEATURES_ALL = 0 \<and> pre \<noteq> [] \<and> small_string pre"
  obtain obs0 where c: "cls_call rbd_create (create_args sz order features pre) obs = Some (0, [], obs0)"
    and r: "reprs (created sz order features pre) obs0" using create_reprs h by blast
  have "header_ok (created sz order features pre)" using created_ok h by blast
  then obtain rs obs' hdr' where "request_execs qs obs0 = Some (rs, obs')"
    "request_steps qs (created sz order features pre) = (rs, hdr')" "reprs hdr' obs'" "header_ok hdr'"
    using request_history [OF r _ assms] by blast
  then show "\<exists>rs obs' hdr'. request_execs (Create sz order features pre # qs) obs = Some ((0, []) # rs, obs') \<and>
         request_steps qs (created sz order features pre) = (rs, hdr') \<and> reprs hdr' obs' \<and> header_ok hdr'"
    by (simp add: request_exec_def c)
qed

lemma header_refines_witness:
  "\<exists>obs'. request_execs [Create 65536 22 1 ''rb.1'', Change (SnapAdd ''a'' 3), Change (SnapAdd ''a'' 4), Change (SnapAdd ''b'' 2),
       Create 0 22 1 ''rb.2'', AskSize 3, AskSize 4, AskSnapName 3, AskSnapContext, AskProtection 3, Change (SnapRemove 3), AskSnapContext] None
     = Some ([(0, []), (0, []), (- EEXIST, []), (- ESTALE, []), (- EEXIST, []), (0, encode_u8 22 @ encode_u64 65536), (- ENOENT, []),
         (0, encode_string ''a''), (0, encode_u64 3 @ encode_ids [3]), (0, encode_u8 0), (0, []), (0, encode_u64 3 @ encode_ids [])], obs')"
proof -
  let ?qs = "[Change (SnapAdd ''a'' 3), Change (SnapAdd ''a'' 4), Change (SnapAdd ''b'' 2), Create 0 22 1 ''rb.2'', AskSize 3, AskSize 4,
      AskSnapName 3, AskSnapContext, AskProtection 3, Change (SnapRemove 3), AskSnapContext]"
  have fits: "\<forall>q \<in> set ?qs. request_fits q" by (simp add: small_string_def)
  have st: "fst (request_steps ?qs (created 65536 22 1 ''rb.1'')) =
    [(0, []), (- EEXIST, []), (- ESTALE, []), (- EEXIST, []), (0, encode_u8 22 @ encode_u64 65536), (- ENOENT, []),
     (0, encode_string ''a''), (0, encode_u64 3 @ encode_ids [3]), (0, encode_u8 0), (0, []), (0, encode_u64 3 @ encode_ids [])]"
    by (simp add: request_step_def created_def rbd_consts or_enoent_def seen_size_def)
  have "omap_of None = []" by (simp add: omap_of_def)
  then show ?thesis
    using header_refines [OF fits, of None 1 "''rb.1''" 65536 22] st by (auto simp: rbd_consts small_string_def)
qed

subsection \<open>A damaged record\<close>

text \<open>\<open>snapshot_remove\<close> stops only when the key is missing. A snapshot whose record cannot be decoded
  before its status is removed with success, although its protection is not known: a protected snapshot
  with a damaged record loses its key.\<close>

theorem damaged_snapshot_removed:
  assumes "smap_ok (od_omap ob)" "map_of (od_omap ob) (key_from_snap_id i) = Some bl"
    "struct_fields 3 decode_snap_body bl = None"
  shows "\<exists>ob'. cls_call rbd_snapshot_remove (encode_u64 i) (Some ob) = Some (0, [], Some ob') \<and>
     map_of (od_omap ob') = (map_of (od_omap ob))(key_from_snap_id i := None)"
proof -
  let ?h = "\<lparr>hc_stored = Some ob, hc_new = Some ob\<rparr>"
  have "decode_snap bl = None" by (simp add: decode_snap_def decode_struct_def assms(3))
  then have "read_key decode_snap (key_from_snap_id i) ?h = Inl (- EIO)"
    using assms(2) by (simp add: read_key_def cls_map_get_val)
  moreover have "left_status bl = RBD_PROTECTION_STATUS_UNPROTECTED"
    by (simp add: left_status_def assms(3) new_cls_rbd_snap_def)
  ultimately show ?thesis
    using assms(1,2)
    by (simp add: cls_call_def rbd_snapshot_remove_def c64.dec_enc_end cls_map_get_val cls_map_remove_key)
qed

lemma damaged_snapshot_removed_witness:
  "\<exists>ob'. cls_call rbd_snapshot_remove (encode_u64 4)
      (Some (fresh_object\<lparr>od_omap := [(key_from_snap_id 4, [3])]\<rparr>)) = Some (0, [], Some ob') \<and>
     map_of (od_omap ob') (key_from_snap_id 4) = None"
proof -
  have "struct_fields 3 decode_snap_body [3] = None"
    by (simp add: struct_fields_def decode_u8_def decode_raw_def)
  then show ?thesis
    using damaged_snapshot_removed [of "fresh_object\<lparr>od_omap := [(key_from_snap_id 4, [3])]\<rparr>" 4 "[3]"] by auto
qed

end
