(* ===== verification/Cls_Directory.thy ===== *)
theory Cls_Directory
  imports Cls_Types Rados_Io Simulation
begin

text \<open>
  \<open>cls/rbd/cls_rbd.cc\<close>, the methods on the directory of a pool, which maps the names of images to ids
  and back, and on the id object of an image. A directory is represented by two keys per image. The
  methods refine a plain map from names to distinct ids; a renaming is one step of it, since the
  removal it starts with is not visible to the checks that follow. Listings go page by page.
\<close>

definition RBD_DIR_ID_KEY_PREFIX :: string where "RBD_DIR_ID_KEY_PREFIX = ''id_''"
definition RBD_DIR_NAME_KEY_PREFIX :: string where "RBD_DIR_NAME_KEY_PREFIX = ''name_''"

text \<open>\<open>isalnum\<close> in the C locale.\<close>

definition c_isalnum :: "char \<Rightarrow> bool" where
  "c_isalnum c =
     (let n = of_char c :: nat
      in 48 \<le> n \<and> n \<le> 57 \<or> 65 \<le> n \<and> n \<le> 90 \<or> 97 \<le> n \<and> n \<le> 122)"

definition is_valid_id :: "string \<Rightarrow> bool" where
  "is_valid_id i \<longleftrightarrow> i \<noteq> [] \<and> list_all c_isalnum i"

subsection \<open>The id of an image\<close>

text \<open>Reads go to the stored object; the length is narrowed to an \<open>int\<close>.\<close>

definition cls_read :: "u64 \<Rightarrow> u64 \<Rightarrow> cls_ctx \<Rightarrow> int + bytes" where
  "cls_read ofs len h =
     (case op_read ofs (word_of_int (c_int (int (unat len)))) 0 0 (hc_stored h) of
        (r, DataOut d, _) \<Rightarrow> if r < 0 then Inl r else Inr d
      | (r, _, _) \<Rightarrow> Inl r)"

definition cls_write :: "u64 \<Rightarrow> bytes \<Rightarrow> cls_ctx \<Rightarrow> int \<times> cls_ctx" where
  "cls_write ofs bl h =
     (case op_write osd_max_object_size ofs (of_nat (length bl)) bl 0 0 (hc_new h) of
        (r, _, ob) \<Rightarrow> (r, h\<lparr>hc_new := ob\<rparr>))"

definition rbd_get_id :: cls_method where
  "rbd_get_id inp h =
     (case cls_stat h of
        (r, sz) \<Rightarrow>
          if r < 0 then Some (r, [], h)
          else if sz = 0 then Some (- ENOENT, [], h)
          else
            (case cls_read 0 sz h of
               Inl r \<Rightarrow> Some (r, [], h)
             | Inr read_bl \<Rightarrow>
                 (case decode_string read_bl of
                    None \<Rightarrow> Some (- EIO, [], h)
                  | Some (i, _) \<Rightarrow> Some (0, encode_string i, h))))"

definition rbd_set_id :: cls_method where
  "rbd_set_id inp h =
     (let r = fst (cls_stat h) in
      if r < 0 then Some (r, [], h)
      else
        (case decode_string inp of
           None \<Rightarrow> Some (- EINVAL, [], h)
         | Some (i, _) \<Rightarrow>
             if \<not> is_valid_id i then Some (- EINVAL, [], h)
             else if snd (cls_stat h) \<noteq> 0 then Some (- EEXIST, [], h)
             else (case cls_write 0 (encode_string i) h of (r, h) \<Rightarrow> Some (r, [], h))))"

subsection \<open>The directory\<close>

definition dir_key_for_id :: "string \<Rightarrow> string" where
  "dir_key_for_id i = RBD_DIR_ID_KEY_PREFIX @ i"

definition dir_key_for_name :: "string \<Rightarrow> string" where
  "dir_key_for_name name = RBD_DIR_NAME_KEY_PREFIX @ name"

definition dir_name_from_key :: "string \<Rightarrow> string" where
  "dir_name_from_key key = drop (length RBD_DIR_NAME_KEY_PREFIX) key"

text \<open>The two keys of an image.\<close>

definition dir_entry :: "string \<Rightarrow> string \<Rightarrow> (string, bytes) smap" where
  "dir_entry name i =
     smap_put (dir_key_for_id i) (encode_string name)
       (smap_put (dir_key_for_name name) (encode_string i) [])"

definition dir_add_image_helper :: "string \<Rightarrow> string \<Rightarrow> bool \<Rightarrow> cls_ctx \<Rightarrow> int \<times> cls_ctx" where
  "dir_add_image_helper name i check_for_unique_id h =
     (if name = [] \<or> \<not> is_valid_id i then (- EINVAL, h)
      else if read_key decode_string (dir_key_for_name name) h \<noteq> Inl (- ENOENT) then (- EEXIST, h)
      else if read_key decode_string (dir_key_for_id i) h \<noteq> Inl (- ENOENT) \<and> check_for_unique_id
      then (- EBADF, h)
      else cls_map_set_vals (dir_entry name i) h)"

definition dir_remove_image_helper :: "string \<Rightarrow> string \<Rightarrow> cls_ctx \<Rightarrow> int \<times> cls_ctx" where
  "dir_remove_image_helper name i h =
     (case read_key decode_string (dir_key_for_name name) h of
        Inl r \<Rightarrow> (r, h)
      | Inr stored_id \<Rightarrow>
          (case read_key decode_string (dir_key_for_id i) h of
             Inl r \<Rightarrow> (r, h)
           | Inr stored_name \<Rightarrow>
               if stored_name \<noteq> name \<or> stored_id \<noteq> i then (- ESTALE, h)
               else
                 (case cls_map_remove_key (dir_key_for_name name) h of
                    (r, h) \<Rightarrow>
                      if r < 0 then (r, h)
                      else (case cls_map_remove_key (dir_key_for_id i) h of
                              (r, h) \<Rightarrow> if r < 0 then (r, h) else (0, h)))))"

definition rbd_dir_rename_image :: cls_method where
  "rbd_dir_rename_image inp h =
     (case decode_pair decode_string (decode_pair decode_string decode_string) inp of
        None \<Rightarrow> Some (- EINVAL, [], h)
      | Some ((src, dest, i), _) \<Rightarrow>
          (case dir_remove_image_helper src i h of
             (r, h) \<Rightarrow>
               if r < 0 then Some (r, [], h)
               else (case dir_add_image_helper dest i False h of (r, h) \<Rightarrow> Some (r, [], h))))"

definition rbd_dir_get_id :: cls_method where
  "rbd_dir_get_id inp h =
     (case decode_string inp of
        None \<Rightarrow> Some (- EINVAL, [], h)
      | Some (name, _) \<Rightarrow>
          (case read_key decode_string (dir_key_for_name name) h of
             Inl r \<Rightarrow> Some (r, [], h)
           | Inr i \<Rightarrow> Some (0, encode_string i, h)))"

definition rbd_dir_get_name :: cls_method where
  "rbd_dir_get_name inp h =
     (case decode_string inp of
        None \<Rightarrow> Some (- EINVAL, [], h)
      | Some (i, _) \<Rightarrow>
          (case read_key decode_string (dir_key_for_id i) h of
             Inl r \<Rightarrow> Some (r, [], h)
           | Inr name \<Rightarrow> Some (0, encode_string name, h)))"

definition rbd_dir_add_image :: cls_method where
  "rbd_dir_add_image inp h =
     (case cls_create False h of
        (r, h) \<Rightarrow>
          if r < 0 then Some (r, [], h)
          else
            (case decode_pair decode_string decode_string inp of
               None \<Rightarrow> Some (- EINVAL, [], h)
             | Some ((name, i), _) \<Rightarrow>
                 (case dir_add_image_helper name i True h of (r, h) \<Rightarrow> Some (r, [], h))))"

definition rbd_dir_remove_image :: cls_method where
  "rbd_dir_remove_image inp h =
     (case decode_pair decode_string decode_string inp of
        None \<Rightarrow> Some (- EINVAL, [], h)
      | Some ((name, i), _) \<Rightarrow>
          (case dir_remove_image_helper name i h of (r, h) \<Rightarrow> Some (r, [], h)))"

text \<open>A listing: the names of a page are added until the maximum is reached.\<close>

fun dir_page :: "nat \<Rightarrow> (string, bytes) smap \<Rightarrow> (string, string) smap \<Rightarrow> int + (string, string) smap" where
  "dir_page max_return [] images = Inr images"
| "dir_page max_return ((k, bl) # vals) images =
     (case decode_string bl of
        None \<Rightarrow> Inl (- EIO)
      | Some (i, _) \<Rightarrow>
          let images = smap_put (dir_name_from_key k) i images
          in if max_return \<le> length images then Inr images else dir_page max_return vals images)"

partial_function (option) dir_list_loop ::
    "cls_ctx \<Rightarrow> nat \<Rightarrow> string \<Rightarrow> nat \<Rightarrow> (string, string) smap \<Rightarrow> (int + (string, string) smap) option" where
  "dir_list_loop h max_return last_read r images =
     (if r = RBD_MAX_KEYS_READ \<and> length images < max_return then
        (case cls_map_get_vals last_read RBD_DIR_NAME_KEY_PREFIX RBD_MAX_KEYS_READ h of
           Inl r \<Rightarrow> Some (Inl r)
         | Inr vals \<Rightarrow>
             (case dir_page max_return vals images of
                Inl r \<Rightarrow> Some (Inl r)
              | Inr images' \<Rightarrow>
                  dir_list_loop h max_return
                    (if vals \<noteq> [] then dir_key_for_name (fst (last images')) else last_read)
                    (length vals) images'))
      else Some (Inr images))"

definition encode_images :: "(string, string) smap \<Rightarrow> bytes" where
  "encode_images m = encode_u32 (of_nat (length m)) @
     concat (map (\<lambda>(k, v). encode_string k @ encode_string v) m)"

definition rbd_dir_list :: cls_method where
  "rbd_dir_list inp h =
     (case decode_pair decode_string decode_u64 inp of
        None \<Rightarrow> Some (- EINVAL, [], h)
      | Some ((start_after, max_return), _) \<Rightarrow>
          (case dir_list_loop h (unat max_return) (dir_key_for_name start_after) RBD_MAX_KEYS_READ [] of
             None \<Rightarrow> None
           | Some (Inl r) \<Rightarrow> Some (r, [], h)
           | Some (Inr images) \<Rightarrow> Some (0, encode_images images, h)))"

end
