(* ===== verification/Cls_Directory_Spec.thy ===== *)
theory Cls_Directory_Spec
  imports Cls_Directory
begin

text \<open>
  What the directory of a pool promises: a map from the names of images to their ids, in which no two
  names have the same id. The methods that change a directory refine \<open>dir_spec\<close>, lookups in both
  directions answer from the map, and a listing is the stretch of the map after a name.
\<close>

type_synonym dir = "(string, string) smap"

definition dir_ids :: "dir \<Rightarrow> (string \<times> string) list" where
  "dir_ids d = map (\<lambda>(n, i). (i, n)) d"

definition dir_keys :: "dir \<Rightarrow> string \<Rightarrow> bytes option" where
  "dir_keys d k =
     (if has_prefix RBD_DIR_NAME_KEY_PREFIX k
      then map_option encode_string (map_of d (dir_name_from_key k))
      else if has_prefix RBD_DIR_ID_KEY_PREFIX k
      then map_option encode_string (map_of (dir_ids d) (drop (length RBD_DIR_ID_KEY_PREFIX) k))
      else None)"

definition dir_ok :: "dir \<Rightarrow> bool" where
  "dir_ok d \<longleftrightarrow> smap_ok d \<and> distinct (map snd d) \<and>
     (\<forall>(n, i) \<in> set d. n \<noteq> [] \<and> is_valid_id i \<and> short n \<and> short i)"

text \<open>A pool without images may have no directory object.\<close>

definition dir_reprs :: "dir \<Rightarrow> osd_object option \<Rightarrow> bool" where
  "dir_reprs d obs \<longleftrightarrow> smap_ok (omap_of obs) \<and> map_of (omap_of obs) = dir_keys d"

datatype dir_call = DirAdd string string | DirRemove string string | DirRename string string string

fun dir_method :: "dir_call \<Rightarrow> cls_method" where
  "dir_method (DirAdd n i) = rbd_dir_add_image"
| "dir_method (DirRemove n i) = rbd_dir_remove_image"
| "dir_method (DirRename src dest i) = rbd_dir_rename_image"

fun dir_args :: "dir_call \<Rightarrow> bytes" where
  "dir_args (DirAdd n i) = encode_pair encode_string encode_string (n, i)"
| "dir_args (DirRemove n i) = encode_pair encode_string encode_string (n, i)"
| "dir_args (DirRename src dest i) =
     encode_pair encode_string (encode_pair encode_string encode_string) (src, dest, i)"

fun dir_fits :: "dir_call \<Rightarrow> bool" where
  "dir_fits (DirAdd n i) = (short n \<and> short i)"
| "dir_fits (DirRemove n i) = (short n \<and> short i)"
| "dir_fits (DirRename src dest i) = (short src \<and> short dest \<and> short i)"

definition dir_removable :: "string \<Rightarrow> string \<Rightarrow> dir \<Rightarrow> int" where
  "dir_removable n i d =
     (if map_of d n = None \<or> i \<notin> snd ` set d then - ENOENT
      else if map_of d n \<noteq> Some i then - ESTALE else 0)"

fun dir_spec :: "dir_call \<Rightarrow> dir \<Rightarrow> int \<times> dir" where
  "dir_spec (DirAdd n i) d =
     (if n = [] \<or> \<not> is_valid_id i then (- EINVAL, d)
      else if map_of d n \<noteq> None then (- EEXIST, d)
      else if i \<in> snd ` set d then (- EBADF, d)
      else (0, smap_put n i d))"
| "dir_spec (DirRemove n i) d =
     (if dir_removable n i d < 0 then (dir_removable n i d, d) else (0, smap_erase n d))"
| "dir_spec (DirRename src dest i) d =
     (if dir_removable src i d < 0 then (dir_removable src i d, d)
      else if dest = [] then (- EINVAL, d)
      else if map_of d dest \<noteq> None then (- EEXIST, d)
      else (0, smap_put dest i (smap_erase src d)))"

subsection \<open>The specification keeps names and ids apart\<close>

lemma dir_removable_iff:
  "\<not> dir_removable n i d < 0 \<longleftrightarrow> map_of d n = Some i"
  by (auto simp: dir_removable_def dest: map_of_SomeD intro: rev_image_eqI)

lemma dir_ok_put:
  assumes "dir_ok d" "n \<noteq> []" "is_valid_id i" "short n" "short i" "map_of d n = None" "i \<notin> snd ` set d"
  shows "dir_ok (smap_put n i d)"
proof -
  have "\<forall>e \<in> set d. snd e \<noteq> i \<and> fst e \<noteq> n"
    using assms(6,7) by (auto simp: map_of_eq_None_iff rev_image_eqI)
  then have "distinct (map snd (smap_put n i d))"
    using distinct_smap_put [of d "\<lambda>x. x" i n] assms(1) by (simp add: dir_ok_def)
  then show ?thesis
    using assms by (auto simp: dir_ok_def entries_smap_put)
qed

lemma dir_ok_erase: "dir_ok d \<Longrightarrow> dir_ok (smap_erase n d)"
  using distinct_smap_erase [of d "\<lambda>x. x" n] by (auto simp: dir_ok_def entries_smap_erase)

lemma ids_after_erase:
  assumes "dir_ok d" "map_of d n = Some i"
  shows "i \<notin> snd ` set (smap_erase n d)"
proof
  assume "i \<in> snd ` set (smap_erase n d)"
  then obtain e where e: "e \<in> set d" "fst e \<noteq> n" "snd e = i"
    using assms(1) by (auto simp: dir_ok_def entries_smap_erase)
  have "inj_on snd (set d)" using assms(1) by (simp add: dir_ok_def distinct_map)
  then have "e = (n, i)" using inj_onD [of snd "set d" e "(n, i)"] e(1,3) map_of_SomeD [OF assms(2)] by simp
  then show False using e(2) by simp
qed

lemma dir_spec_ok:
  assumes "dir_ok d" "dir_fits c" "dir_spec c d = (r, d')"
  shows "dir_ok d'"
proof (cases c)
  case (DirRename src dest i)
  show ?thesis
  proof (cases "d' = d")
    case False
    then have g: "map_of d src = Some i" "dest \<noteq> []" "map_of d dest = None"
      "d' = smap_put dest i (smap_erase src d)"
      using assms(3) DirRename dir_removable_iff [of src i d] by (auto split: if_splits)
    have "is_valid_id i" "short i" using assms(1) map_of_SomeD [OF g(1)] by (auto simp: dir_ok_def)
    moreover have "map_of (smap_erase src d) dest = None"
      using assms(1) g(3) by (simp add: dir_ok_def)
    ultimately show ?thesis
      using dir_ok_put [OF dir_ok_erase [OF assms(1), of src], of dest i] g assms(2) DirRename
        ids_after_erase [OF assms(1) g(1)] by simp
  qed (use assms in simp)
qed (use assms dir_ok_put dir_ok_erase in \<open>auto split: if_splits\<close>)

subsection \<open>Keys of a directory\<close>

lemma dir_prefixes [simp]:
  "has_prefix RBD_DIR_NAME_KEY_PREFIX (dir_key_for_name n)"
  "\<not> has_prefix RBD_DIR_NAME_KEY_PREFIX (dir_key_for_id i)"
  "has_prefix RBD_DIR_ID_KEY_PREFIX (dir_key_for_id i)"
  "\<not> has_prefix RBD_DIR_ID_KEY_PREFIX (dir_key_for_name n)"
  "dir_name_from_key (dir_key_for_name n) = n"
  "drop (length RBD_DIR_ID_KEY_PREFIX) (dir_key_for_id i) = i"
  "dir_key_for_name n = dir_key_for_name n' \<longleftrightarrow> n = n'"
  "dir_key_for_id i = dir_key_for_id i' \<longleftrightarrow> i = i'"
  "dir_key_for_name n \<noteq> dir_key_for_id i" "dir_key_for_id i \<noteq> dir_key_for_name n"
  by (simp_all add: has_prefix_def dir_key_for_name_def dir_key_for_id_def dir_name_from_key_def
      RBD_DIR_NAME_KEY_PREFIX_def RBD_DIR_ID_KEY_PREFIX_def)

lemma name_key_cases: "has_prefix RBD_DIR_NAME_KEY_PREFIX k \<Longrightarrow> \<exists>n. k = dir_key_for_name n"
  by (simp add: has_prefix_iff dir_key_for_name_def)

lemma id_key_cases: "has_prefix RBD_DIR_ID_KEY_PREFIX k \<Longrightarrow> \<exists>i. k = dir_key_for_id i"
  by (simp add: has_prefix_iff dir_key_for_id_def)

lemma dir_keys_name [simp]: "dir_keys d (dir_key_for_name n) = map_option encode_string (map_of d n)"
  by (simp add: dir_keys_def)

lemma dir_keys_id [simp]: "dir_keys d (dir_key_for_id i) = map_option encode_string (map_of (dir_ids d) i)"
  by (simp add: dir_keys_def)

lemma dir_keysI:
  assumes "\<And>n. f (dir_key_for_name n) = map_option encode_string (map_of d n)"
    "\<And>i. f (dir_key_for_id i) = map_option encode_string (map_of (dir_ids d) i)"
    "\<And>k. \<not> has_prefix RBD_DIR_NAME_KEY_PREFIX k \<Longrightarrow> \<not> has_prefix RBD_DIR_ID_KEY_PREFIX k \<Longrightarrow> f k = None"
  shows "f = dir_keys d"
proof
  fix k
  show "f k = dir_keys d k"
    using assms name_key_cases [of k] id_key_cases [of k]
    by (cases "has_prefix RBD_DIR_NAME_KEY_PREFIX k"; cases "has_prefix RBD_DIR_ID_KEY_PREFIX k")
      (auto simp: dir_keys_def)
qed

lemma dir_ids_put:
  "smap_ok d \<Longrightarrow> map_of d n = None \<Longrightarrow> i \<notin> snd ` set d \<Longrightarrow>
     map_of (dir_ids (smap_put n i d)) = (map_of (dir_ids d))(i \<mapsto> n)"
  by (induction n i d rule: smap_put.induct) (auto simp: dir_ids_def fun_eq_iff split: if_splits)

lemma dir_ids_missing: "i \<notin> snd ` set d \<longleftrightarrow> map_of (dir_ids d) i = None"
  by (auto simp: dir_ids_def map_of_eq_None_iff image_iff)

lemma dir_ids_erase:
  "smap_ok d \<Longrightarrow> distinct (map snd d) \<Longrightarrow> map_of d n = Some i \<Longrightarrow>
     map_of (dir_ids (smap_erase n d)) = (map_of (dir_ids d))(i := None)"
proof (induction d)
  case Nil
  then show ?case by simp
next
  case (Cons e d)
  obtain a b where e: "e = (a, b)" by (cases e)
  show ?case
  proof (cases "n = a")
    case True
    then have "b = i" "map_of (dir_ids d) i = None"
      using Cons.prems e dir_ids_missing [of i d] by auto
    then show ?thesis using True e by (auto simp: dir_ids_def fun_eq_iff)
  next
    case False
    then have "map_of d n = Some i" using Cons.prems(3) e by simp
    moreover from map_of_SomeD [OF this] have "b \<noteq> i" using Cons.prems(2) e by force
    ultimately show ?thesis using Cons False e by (auto simp: dir_ids_def fun_eq_iff)
  qed
qed

lemma dir_ids_lookup: "dir_ok d \<Longrightarrow> map_of (dir_ids d) i = Some n \<longleftrightarrow> map_of d n = Some i"
proof -
  assume d: "dir_ok d"
  have "distinct (map fst (dir_ids d))" "distinct (map fst d)"
    using d smap_ok_distinct [of d] by (auto simp: dir_ok_def dir_ids_def comp_def case_prod_beta)
  then have "map_of (dir_ids d) i = Some n \<longleftrightarrow> (i, n) \<in> set (dir_ids d)" "map_of d n = Some i \<longleftrightarrow> (n, i) \<in> set d"
    by (simp_all add: map_of_eq_Some_iff)
  then show ?thesis by (auto simp: dir_ids_def)
qed

subsection \<open>The methods refine the specification\<close>

definition dir_starts :: "dir \<Rightarrow> osd_object option \<Rightarrow> cls_ctx \<Rightarrow> bool" where
  "dir_starts d obs h \<longleftrightarrow> dir_reprs d obs \<and> dir_ok d \<and> hc_stored h = obs"

lemma dir_reads:
  assumes "dir_starts d obs h"
  shows "read_key decode_string (dir_key_for_name n) h = (case map_of d n of None \<Rightarrow> Inl (- ENOENT) | Some i \<Rightarrow> Inr i)"
    "read_key decode_string (dir_key_for_id i) h = (case map_of (dir_ids d) i of None \<Rightarrow> Inl (- ENOENT) | Some n \<Rightarrow> Inr n)"
proof -
  have k: "map_of (omap_of (hc_stored h)) = dir_keys d"
    using assms by (simp add: dir_starts_def dir_reprs_def)
  have s: "short i \<and> short n" if "map_of d n = Some i" for n i
    using map_of_SomeD [OF that] assms by (auto simp: dir_starts_def dir_ok_def)
  show "read_key decode_string (dir_key_for_name n) h = (case map_of d n of None \<Rightarrow> Inl (- ENOENT) | Some i \<Rightarrow> Inr i)"
    using k s by (auto intro: cstr.read_key_enc read_key_missing split: option.split)
  have "dir_ok d" using assms by (simp add: dir_starts_def)
  then show "read_key decode_string (dir_key_for_id i) h
      = (case map_of (dir_ids d) i of None \<Rightarrow> Inl (- ENOENT) | Some n \<Rightarrow> Inr n)"
    using k s dir_ids_lookup by (auto intro!: cstr.read_key_enc read_key_missing split: option.split)
qed

lemma dir_reprs_put:
  assumes "dir_reprs d obs" "smap_ok d" "map_of d n = None" "i \<notin> snd ` set d" "hc_new h = obs"
  shows "\<exists>obs'. cls_map_set_vals (dir_entry n i) h = (0, h\<lparr>hc_new := obs'\<rparr>) \<and>
    dir_reprs (smap_put n i d) obs'"
proof -
  let ?m = "dir_entry n i"
  have f: "fold (\<lambda>(k, v). smap_put k v) ?m (omap_of obs) =
      (if dir_key_for_id i < dir_key_for_name n
       then smap_put (dir_key_for_name n) (encode_string i) (smap_put (dir_key_for_id i) (encode_string n) (omap_of obs))
       else smap_put (dir_key_for_id i) (encode_string n) (smap_put (dir_key_for_name n) (encode_string i) (omap_of obs)))"
    by (simp add: dir_entry_def)
  have "map_of (fold (\<lambda>(k, v). smap_put k v) ?m (omap_of obs)) =
      (dir_keys d)(dir_key_for_name n \<mapsto> encode_string i, dir_key_for_id i \<mapsto> encode_string n)"
    unfolding f using assms(1) by (auto simp: dir_reprs_def fun_eq_iff)
  also have "\<dots> = dir_keys (smap_put n i d)"
    using dir_ids_put [OF assms(2-4)] by (intro dir_keysI) (auto simp: dir_keys_def)
  finally show ?thesis
    using assms(1,5) smap_ok_fold_put [of "omap_of obs" ?m]
    by (auto simp: cls_map_set_vals dir_reprs_def)
qed

lemma dir_reprs_erase:
  assumes "dir_reprs d (Some ob)" "dir_ok d" "map_of d n = Some i"
  shows "dir_reprs (smap_erase n d)
    (Some (ob\<lparr>od_omap := smap_erase (dir_key_for_id i) (smap_erase (dir_key_for_name n) (od_omap ob))\<rparr>))"
proof -
  have "(dir_keys d)(dir_key_for_name n := None, dir_key_for_id i := None) = dir_keys (smap_erase n d)"
    using dir_ids_erase [of d n i] assms(2,3) by (intro dir_keysI) (auto simp: dir_keys_def dir_ok_def)
  then show ?thesis using assms(1) by (simp add: dir_reprs_def)
qed

lemma dir_remove_helper:
  assumes "dir_starts d obs h" "hc_new h = obs"
  shows "\<exists>obs'. dir_remove_image_helper n i h = (dir_removable n i d, h\<lparr>hc_new := obs'\<rparr>) \<and>
     (\<not> dir_removable n i d < 0 \<longrightarrow> dir_removable n i d = 0 \<and> dir_reprs (smap_erase n d) obs')"
proof (cases "map_of d n = Some i")
  case True
  have d: "dir_ok d" "dir_reprs d obs" using assms(1) by (simp_all add: dir_starts_def)
  then have "map_of (dir_ids d) i = Some n" using True dir_ids_lookup by simp
  moreover have "map_of (omap_of obs) (dir_key_for_name n) \<noteq> None"
    using d(2) True by (simp add: dir_reprs_def)
  then obtain ob where "obs = Some ob" by (cases obs) auto
  moreover have "dir_removable n i d = 0" using True map_of_SomeD [OF True] by (force simp: dir_removable_def)
  ultimately show ?thesis
    using True dir_reads [OF assms(1)] assms(2) dir_reprs_erase [OF _ d(1) True] d(2)
    by (simp add: dir_remove_image_helper_def cls_map_remove_key) blast
next
  case False
  have d: "dir_ok d" using assms(1) by (simp add: dir_starts_def)
  have "dir_removable n i d < 0" using False dir_removable_iff by blast
  moreover have "fst (dir_remove_image_helper n i h) = dir_removable n i d \<and> snd (dir_remove_image_helper n i h) = h"
    using False dir_reads [OF assms(1)] dir_ids_lookup [OF d, of i n] dir_ids_missing [of i d]
    by (auto simp: dir_remove_image_helper_def dir_removable_def split: option.splits)
  ultimately show ?thesis
    by (intro exI [of _ "hc_new h"]) (auto simp: prod_eq_iff)
qed

interpretation arg_str_str: codec_pair encode_string decode_string short encode_string decode_string short ..

interpretation arg_str3: codec_pair encode_string decode_string short
  "encode_pair encode_string encode_string" "decode_pair decode_string decode_string"
  "\<lambda>x. short (fst x) \<and> short (snd x)"
  by unfold_locales (simp add: arg_str_str.pair.dec_enc)

lemmas dir_decode = arg_str_str.pair.dec_enc_end arg_str3.pair.dec_enc_end

definition dir_refines :: "dir_call \<Rightarrow> dir \<Rightarrow> osd_object option \<Rightarrow> bool" where
  "dir_refines c d obs \<longleftrightarrow>
     (\<exists>obs'. cls_call (dir_method c) (dir_args c) obs = Some (fst (dir_spec c d), [], obs') \<and>
            dir_reprs (snd (dir_spec c d)) obs')"

lemma dir_refinesI:
  assumes "dir_spec c d = (r, d')" "dir_reprs d obs"
    "\<exists>h'. dir_method c (dir_args c) \<lparr>hc_stored = obs, hc_new = obs\<rparr> = Some (r, [], h') \<and>
       (\<not> r < 0 \<longrightarrow> dir_reprs d' (hc_new h'))" "r < 0 \<Longrightarrow> d' = d"
  shows "dir_refines c d obs"
  using assms by (auto simp: dir_refines_def cls_call_def)

lemma dir_add_refines:
  assumes "dir_reprs d obs" "dir_ok d" "dir_fits (DirAdd n i)"
  shows "dir_refines (DirAdd n i) d obs"
proof (rule dir_refinesI)
  show "dir_spec (DirAdd n i) d = (fst (dir_spec (DirAdd n i) d), snd (dir_spec (DirAdd n i) d))" by simp
  let ?ob = "Some (the_default fresh_object obs)"
  let ?h = "\<lparr>hc_stored = obs, hc_new = ?ob\<rparr>"
  have cr: "cls_create False \<lparr>hc_stored = obs, hc_new = obs\<rparr> = (0, ?h)"
    by (cases obs) (simp_all add: cls_create_def op_create_def)
  have st: "dir_starts d obs ?h" using assms by (simp add: dir_starts_def)
  have new: "dir_reprs d ?ob" using assms(1) by (cases obs) (simp_all add: dir_reprs_def fresh_object_def)
  have ok: "smap_ok d" using assms(2) by (simp add: dir_ok_def)
  have ids: "map_of (dir_ids d) i = None \<longleftrightarrow> i \<notin> snd ` set d" using dir_ids_missing by blast
  have "\<exists>h'. dir_add_image_helper n i True ?h = (fst (dir_spec (DirAdd n i) d), h') \<and>
      (\<not> fst (dir_spec (DirAdd n i) d) < 0 \<longrightarrow> dir_reprs (snd (dir_spec (DirAdd n i) d)) (hc_new h'))"
  proof (cases "n \<noteq> [] \<and> is_valid_id i \<and> map_of d n = None \<and> i \<notin> snd ` set d")
    case True
    then obtain obs' where "cls_map_set_vals (dir_entry n i) ?h = (0, ?h\<lparr>hc_new := obs'\<rparr>)"
      "dir_reprs (smap_put n i d) obs'"
      using dir_reprs_put [OF new ok, of n i ?h] by auto
    then show ?thesis
      using True dir_reads [OF st] ids by (simp add: dir_add_image_helper_def)
  next
    case False
    then show ?thesis
      using dir_reads [OF st] ids
      by (auto simp: dir_add_image_helper_def split: option.splits)
  qed
  then show "\<exists>h'. dir_method (DirAdd n i) (dir_args (DirAdd n i)) \<lparr>hc_stored = obs, hc_new = obs\<rparr>
      = Some (fst (dir_spec (DirAdd n i) d), [], h') \<and>
      (\<not> fst (dir_spec (DirAdd n i) d) < 0 \<longrightarrow> dir_reprs (snd (dir_spec (DirAdd n i) d)) (hc_new h'))"
    using cr assms(3) by (auto simp: rbd_dir_add_image_def dir_decode simp del: dir_spec.simps)
qed (use assms in auto)

lemma dir_remove_refines:
  assumes "dir_reprs d obs" "dir_ok d" "dir_fits (DirRemove n i)"
  shows "dir_refines (DirRemove n i) d obs"
proof (rule dir_refinesI)
  show "dir_spec (DirRemove n i) d = (fst (dir_spec (DirRemove n i) d), snd (dir_spec (DirRemove n i) d))" by simp
  show "\<exists>h'. dir_method (DirRemove n i) (dir_args (DirRemove n i)) \<lparr>hc_stored = obs, hc_new = obs\<rparr>
      = Some (fst (dir_spec (DirRemove n i) d), [], h') \<and>
      (\<not> fst (dir_spec (DirRemove n i) d) < 0 \<longrightarrow> dir_reprs (snd (dir_spec (DirRemove n i) d)) (hc_new h'))"
    using dir_remove_helper [of d obs "\<lparr>hc_stored = obs, hc_new = obs\<rparr>" n i] assms
    by (auto simp: rbd_dir_remove_image_def dir_decode dir_starts_def)
qed (use assms in \<open>auto split: if_splits\<close>)

lemma dir_rename_refines:
  assumes "dir_reprs d obs" "dir_ok d" "dir_fits (DirRename src dest i)"
  shows "dir_refines (DirRename src dest i) d obs"
proof (rule dir_refinesI)
  let ?c = "DirRename src dest i" and ?h = "\<lparr>hc_stored = obs, hc_new = obs\<rparr>"
  show "dir_spec ?c d = (fst (dir_spec ?c d), snd (dir_spec ?c d))" by simp
  have st: "dir_starts d obs ?h" using assms by (simp add: dir_starts_def)
  obtain obs1 where rm: "dir_remove_image_helper src i ?h = (dir_removable src i d, ?h\<lparr>hc_new := obs1\<rparr>)"
    and r1: "\<not> dir_removable src i d < 0 \<longrightarrow> dir_removable src i d = 0 \<and> dir_reprs (smap_erase src d) obs1"
    using dir_remove_helper [OF st, of src i] by auto
  have meth: "dir_method ?c (dir_args ?c) ?h =
      (if dir_removable src i d < 0 then Some (dir_removable src i d, [], ?h\<lparr>hc_new := obs1\<rparr>)
       else case dir_add_image_helper dest i False (?h\<lparr>hc_new := obs1\<rparr>) of (r, h) \<Rightarrow> Some (r, [], h))"
    using rm assms(3) by (simp add: rbd_dir_rename_image_def dir_decode)
  show "\<exists>h'. dir_method ?c (dir_args ?c) ?h = Some (fst (dir_spec ?c d), [], h') \<and>
      (\<not> fst (dir_spec ?c d) < 0 \<longrightarrow> dir_reprs (snd (dir_spec ?c d)) (hc_new h'))"
  proof (cases "dir_removable src i d < 0")
    case True
    then show ?thesis using meth by simp
  next
    case False
    let ?h1 = "?h\<lparr>hc_new := obs1\<rparr>"
    have src: "map_of d src = Some i" using False dir_removable_iff by blast
    have valid: "is_valid_id i" using assms(2) map_of_SomeD [OF src] by (auto simp: dir_ok_def)
    have ok: "smap_ok d" using assms(2) by (simp add: dir_ok_def)
    have rd: "read_key decode_string (dir_key_for_name dest) ?h1
        = (case map_of d dest of None \<Rightarrow> Inl (- ENOENT) | Some i \<Rightarrow> Inr i)"
      using assms by (intro dir_reads(1)) (simp add: dir_starts_def)
    show ?thesis
    proof (cases "dest \<noteq> [] \<and> map_of d dest = None")
      case True
      have gone: "map_of (smap_erase src d) dest = None" using True ok by simp
      have "dir_reprs (smap_erase src d) obs1" using r1 False by simp
      from dir_reprs_put [OF this smap_ok_erase [OF ok] gone ids_after_erase [OF assms(2) src], of ?h1]
      obtain obs' where "cls_map_set_vals (dir_entry dest i) ?h1 = (0, ?h1\<lparr>hc_new := obs'\<rparr>)"
        "dir_reprs (smap_put dest i (smap_erase src d)) obs'"
        by auto
      then show ?thesis
        using True False meth rd valid by (simp add: dir_add_image_helper_def)
    next
      case dest: False
      then show ?thesis
        using False meth rd valid
        by (auto simp: dir_add_image_helper_def split: option.splits)
    qed
  qed
qed (use assms in \<open>auto split: if_splits\<close>)

lemma dir_method_refines:
  "dir_reprs d obs \<Longrightarrow> dir_ok d \<Longrightarrow> dir_fits c \<Longrightarrow> dir_refines c d obs"
  using dir_add_refines dir_remove_refines dir_rename_refines by (cases c) auto

definition dir_exec :: "dir_call \<Rightarrow> osd_object option \<Rightarrow> (int \<times> osd_object option) option" where
  "dir_exec c obs = map_option (\<lambda>(r, out, obs'). (r, obs')) (cls_call (dir_method c) (dir_args c) obs)"

interpretation directory: simulation "\<lambda>obs d. dir_reprs d obs \<and> dir_ok d" "\<lambda>c obs. dir_fits c"
  dir_exec dir_spec
proof (unfold_locales, goal_cases)
  case (1 obs d c)
  obtain r d' where ds: "dir_spec c d = (r, d')" by (cases "dir_spec c d")
  with dir_method_refines [of d obs c] dir_spec_ok [of d c r d'] 1 show ?case
    by (auto simp: dir_refines_def dir_exec_def)
qed

fun dir_execs :: "dir_call list \<Rightarrow> osd_object option \<Rightarrow> (int list \<times> osd_object option) option" where
  "dir_execs [] obs = Some ([], obs)"
| "dir_execs (c # cs) obs = (case dir_exec c obs of None \<Rightarrow> None
     | Some (r, obs1) \<Rightarrow> map_option (\<lambda>(rs, obs2). (r # rs, obs2)) (dir_execs cs obs1))"

fun dir_steps :: "dir_call list \<Rightarrow> dir \<Rightarrow> int list \<times> dir" where
  "dir_steps [] d = ([], d)"
| "dir_steps (c # cs) d = (let (r, d1) = dir_spec c d; (rs, d2) = dir_steps cs d1 in (r # rs, d2))"

lemma dir_execs_run: "dir_execs cs obs = directory.conc_run cs obs"
  by (induction cs arbitrary: obs) (simp_all add: directory.conc_run.simps split: option.split)

lemma dir_steps_run: "dir_steps cs d = directory.spec_run cs d"
  by (induction cs arbitrary: d) (simp_all add: directory.spec_run.simps)

end
