(* ===== verification/Cls_Directory_Props.thy ===== *)
theory Cls_Directory_Props
  imports Cls_Directory_Spec
begin

text \<open>
  The directory over its life, from an absent object: any sequence of additions, removals and
  renamings keeps names and ids in one-to-one correspondence; lookups; listings; and the id object of
  an image.
\<close>

subsection \<open>Every history\<close>

lemma dir_history:
  assumes "dir_reprs d obs" "dir_ok d" "\<forall>c \<in> set cs. dir_fits c"
  shows "\<exists>rs obs' d'. dir_execs cs obs = Some (rs, obs') \<and> dir_steps cs d = (rs, d') \<and>
     dir_reprs d' obs' \<and> dir_ok d'"
  unfolding dir_execs_run dir_steps_run
  using directory.runs [of d obs cs] assms by blast

lemma dir_reprs_absent: "dir_reprs [] None" "dir_ok []"
  by (auto simp: dir_reprs_def dir_keys_def dir_ids_def dir_ok_def fun_eq_iff)

subsection \<open>Lookups\<close>

lemma dir_lookups:
  assumes "dir_reprs d obs" "dir_ok d"
  shows "short n \<Longrightarrow> cls_call rbd_dir_get_id (encode_string n) obs =
      Some (case map_of d n of None \<Rightarrow> (- ENOENT, [], obs) | Some i \<Rightarrow> (0, encode_string i, obs))"
    "short i \<Longrightarrow> cls_call rbd_dir_get_name (encode_string i) obs =
      Some (case map_of (dir_ids d) i of None \<Rightarrow> (- ENOENT, [], obs) | Some n \<Rightarrow> (0, encode_string n, obs))"
proof -
  have st: "dir_starts d obs \<lparr>hc_stored = obs, hc_new = obs\<rparr>" using assms by (simp add: dir_starts_def)
  show "short n \<Longrightarrow> cls_call rbd_dir_get_id (encode_string n) obs =
      Some (case map_of d n of None \<Rightarrow> (- ENOENT, [], obs) | Some i \<Rightarrow> (0, encode_string i, obs))"
    by (simp add: cls_call_def rbd_dir_get_id_def cstr.dec_enc_end dir_reads [OF st] split: option.split)
  show "short i \<Longrightarrow> cls_call rbd_dir_get_name (encode_string i) obs =
      Some (case map_of (dir_ids d) i of None \<Rightarrow> (- ENOENT, [], obs) | Some n \<Rightarrow> (0, encode_string n, obs))"
    by (simp add: cls_call_def rbd_dir_get_name_def cstr.dec_enc_end dir_reads [OF st] split: option.split)
qed

text \<open>The two lookups of a directory are inverse to each other: the id of a name has that name, and
  the name of an id has that id.\<close>

theorem dir_lookup_inverse:
  assumes "dir_reprs d obs" "dir_ok d" "short n" "short i"
  shows "cls_call rbd_dir_get_id (encode_string n) obs = Some (0, encode_string i, obs) \<longleftrightarrow>
     cls_call rbd_dir_get_name (encode_string i) obs = Some (0, encode_string n, obs)"
proof -
  have fits: "short i' \<and> short n'" if "map_of d n' = Some i'" for n' i'
    using map_of_SomeD [OF that] assms(2) by (auto simp: dir_ok_def)
  have fits_id: "short n'" if "map_of (dir_ids d) i' = Some n'" for n' i'
    using that fits dir_ids_lookup [OF assms(2)] by blast
  have "cls_call rbd_dir_get_id (encode_string n) obs = Some (0, encode_string i, obs) \<longleftrightarrow> map_of d n = Some i"
    using dir_lookups(1) [OF assms(1-3)] fits cstr.enc_inj assms(4) by (auto split: option.split)
  moreover have "cls_call rbd_dir_get_name (encode_string i) obs = Some (0, encode_string n, obs)
      \<longleftrightarrow> map_of (dir_ids d) i = Some n"
    using dir_lookups(2) [OF assms(1,2,4)] fits_id cstr.enc_inj assms(3) by (auto split: option.split)
  ultimately show ?thesis using dir_ids_lookup [OF assms(2)] by simp
qed

lemma dir_lookup_inverse_witness:
  "\<exists>obs. cls_call rbd_dir_get_id (encode_string ''x'') obs = Some (0, encode_string ''1'', obs) \<longleftrightarrow>
     cls_call rbd_dir_get_name (encode_string ''1'') obs = Some (0, encode_string ''x'', obs)"
proof -
  have "\<forall>c \<in> set [DirAdd ''x'' ''1'']. dir_fits c" by (simp add: short_def)
  from dir_history [OF dir_reprs_absent this] obtain d obs where "dir_reprs d obs" "dir_ok d" by blast
  from dir_lookup_inverse [OF this, of "''x''" "''1''"] show ?thesis by (auto simp: short_def)
qed

subsection \<open>Listings\<close>

interpretation arg_list: codec_pair encode_string decode_string short encode_u64 decode_u64 "\<lambda>_. True" ..

definition dir_entries :: "dir \<Rightarrow> (string, bytes) smap" where
  "dir_entries d = map (\<lambda>(n, i). (dir_key_for_name n, encode_string i)) d"

lemma dir_key_less [simp]: "dir_key_for_name m < dir_key_for_name n \<longleftrightarrow> m < n"
  by (simp add: dir_key_for_name_def)

lemma dir_entries_sorted: "smap_ok d \<Longrightarrow> smap_ok (dir_entries d)"
  by (induction d) (force simp: dir_entries_def)+

lemma map_of_dir_entries [simp]:
  "map_of (dir_entries d) (dir_key_for_name n) = map_option encode_string (map_of d n)"
  by (induction d) (auto simp: dir_entries_def)

lemma dir_prefixed:
  assumes "dir_reprs d (hc_stored h)" "dir_ok d"
  shows "prefixed RBD_DIR_NAME_KEY_PREFIX h = dir_entries d"
proof (rule smap_eqI)
  have sm: "smap_ok (omap_of (hc_stored h))" "map_of (omap_of (hc_stored h)) = dir_keys d"
    using assms(1) by (simp_all add: dir_reprs_def)
  show "smap_ok (prefixed RBD_DIR_NAME_KEY_PREFIX h)" using sm by (simp add: prefixed_def smap_ok_filter)
  show "smap_ok (dir_entries d)" using assms(2) by (simp add: dir_ok_def dir_entries_sorted)
  have pick: "map_of (prefixed RBD_DIR_NAME_KEY_PREFIX h) k
      = (if has_prefix RBD_DIR_NAME_KEY_PREFIX k then dir_keys d k else None)" for k
    by (simp add: prefixed_def map_of_filter_keys sm(2))
  show "map_of (prefixed RBD_DIR_NAME_KEY_PREFIX h) = map_of (dir_entries d)"
  proof
    fix k
    show "map_of (prefixed RBD_DIR_NAME_KEY_PREFIX h) k = map_of (dir_entries d) k"
    proof (cases "has_prefix RBD_DIR_NAME_KEY_PREFIX k")
      case True
      then show ?thesis using name_key_cases [OF True] pick by auto
    next
      case False
      then have "k \<notin> fst ` set (dir_entries d)" by (auto simp: dir_entries_def)
      then have "map_of (dir_entries d) k = None" by (simp add: map_of_eq_None_iff)
      then show ?thesis using False pick by simp
    qed
  qed
qed

lemma dir_pages:
  assumes "dir_reprs d (Some ob)" "dir_ok d" "hc_stored h = Some ob"
  shows "pages_ok RBD_DIR_NAME_KEY_PREFIX h"
    "val_pages.after RBD_DIR_NAME_KEY_PREFIX h (dir_key_for_name l) = dir_entries (filter (\<lambda>e. l < fst e) d)"
proof -
  have "RBD_DIR_NAME_KEY_PREFIX = dir_key_for_name []" by (simp add: dir_key_for_name_def)
  moreover have "map_of d [] = None" using assms(2) by (auto simp: dir_ok_def map_of_eq_None_iff)
  ultimately have "dir_keys d RBD_DIR_NAME_KEY_PREFIX = None" by (metis dir_keys_name option.map(1))
  then show "pages_ok RBD_DIR_NAME_KEY_PREFIX h"
    using assms by (simp add: pages_ok_def omap_ok_def dir_reprs_def)
  have "prefixed RBD_DIR_NAME_KEY_PREFIX h = dir_entries d"
    using assms by (intro dir_prefixed) simp_all
  then show "val_pages.after RBD_DIR_NAME_KEY_PREFIX h (dir_key_for_name l) = dir_entries (filter (\<lambda>e. l < fst e) d)"
    by (simp add: val_pages.after_def dir_entries_def filter_map comp_def case_prod_beta)
qed

lemma smap_put_last: "\<forall>e \<in> set m. fst e < k \<Longrightarrow> smap_put k v m = m @ [(k, v)]"
  by (induction m) (auto simp: not_less_iff_gr_or_eq)

text \<open>A page adds its names, up to the maximum.\<close>

lemma dir_page_takes:
  assumes "smap_ok (acc @ xs)" "\<forall>e \<in> set xs. short (snd e)" "length acc < n"
  shows "dir_page n (dir_entries xs) acc = Inr (acc @ take (n - length acc) xs)"
  using assms
proof (induction xs arbitrary: acc)
  case Nil
  then show ?case by (simp add: dir_entries_def)
next
  case (Cons e xs)
  obtain a b where e: "e = (a, b)" by (cases e)
  have "\<forall>x \<in> set acc. fst x < a" using Cons.prems(1) e by (auto simp: smap_ok_append)
  then have put: "smap_put a b acc = acc @ [(a, b)]" by (rule smap_put_last)
  have short: "short b" using Cons.prems(2) e by simp
  have suc: "n - length acc = Suc (n - Suc (length acc))" using Cons.prems(3) by simp
  show ?case
  proof (cases "n \<le> Suc (length acc)")
    case True
    then show ?thesis
      using Cons.prems(3) put e short suc by (simp add: dir_entries_def cstr.dec_enc_end)
  next
    case False
    then show ?thesis
      using Cons.IH [of "acc @ [(a, b)]"] Cons.prems put e short suc
      by (simp add: dir_entries_def cstr.dec_enc_end)
  qed
qed

lemma last_dir_entries:
  "xs \<noteq> [] \<Longrightarrow> dir_entries xs \<noteq> [] \<and> fst (last (dir_entries xs)) = dir_key_for_name (fst (last xs))"
  by (auto simp: dir_entries_def last_map case_prod_beta)

lemma after_last:
  assumes "smap_ok (p @ m)" "p \<noteq> []"
  shows "filter (\<lambda>e. fst (last p) < fst e) (p @ m) = m"
proof -
  obtain ys y where y: "p = ys @ [y]" using assms(2) by (metis append_butlast_last_id)
  have "\<forall>e \<in> set m. fst y < fst e"
    using assms(1) smap_ok_append [of p m] y by auto
  moreover have "smap_ok (ys @ [y])" using assms(1) smap_ok_append [of p m] y by blast
  then have "filter (\<lambda>e. fst y < fst e) p = []"
    using smap_ok_append [of ys "[y]"] y by (auto simp: filter_empty_conv less_imp_not_less)
  ultimately have "filter (\<lambda>e. fst y < fst e) p = []" "\<forall>e \<in> set m. fst y < fst e" by blast+
  then show ?thesis using y by (simp only: filter_append last_snoc) simp
qed

lemma dir_list_loop:
  assumes d: "dir_reprs d (Some ob)" "dir_ok d" "hc_stored h = Some ob"
    and acc: "smap_ok (acc @ filter (\<lambda>e. l < fst e) d)" "length acc < n"
  shows "dir_list_loop h n (dir_key_for_name l) RBD_MAX_KEYS_READ acc =
     Some (Inr (acc @ take (n - length acc) (filter (\<lambda>e. l < fst e) d)))"
  using acc
proof (induction "length (filter (\<lambda>e. l < fst e) d)" arbitrary: l acc rule: less_induct)
  case less
  let ?rest = "\<lambda>l. filter (\<lambda>e. l < fst e) d"
  let ?page = "take RBD_MAX_KEYS_READ (?rest l)" and ?more = "drop RBD_MAX_KEYS_READ (?rest l)"
  have pages: "cls_map_get_vals (dir_key_for_name l) RBD_DIR_NAME_KEY_PREFIX RBD_MAX_KEYS_READ h
      = Inr (dir_entries ?page)"
    using cls_map_get_vals [OF dir_pages(1) [OF d]] dir_pages(2) [OF d, of l]
    by (simp add: dir_entries_def take_map)
  have "acc @ ?rest l = (acc @ ?page) @ ?more" by simp
  then have ok: "smap_ok ((acc @ ?page) @ ?more)" using less.prems(1) by (simp only:)
  then have ok1: "smap_ok (acc @ ?page)" using smap_ok_append [of "acc @ ?page" ?more] by blast
  have short: "\<forall>e \<in> set ?page. short (snd e)"
    using d(2) by (auto simp: dir_ok_def dest!: in_set_takeD)
  note page = dir_page_takes [OF ok1 short less.prems(2)]
  have len: "length (dir_entries ?page) = length ?page" by (simp add: dir_entries_def)
  have step: "dir_list_loop h n (dir_key_for_name l) RBD_MAX_KEYS_READ acc =
      dir_list_loop h n (if ?page \<noteq> [] then dir_key_for_name (fst (last (acc @ take (n - length acc) ?page)))
          else dir_key_for_name l) (length ?page) (acc @ take (n - length acc) ?page)"
    using less.prems(2) pages page len last_dir_entries [of ?page]
    by (subst dir_list_loop.simps) (simp, simp add: dir_entries_def)
  show ?case
  proof (cases "length ?page = RBD_MAX_KEYS_READ \<and> length acc + RBD_MAX_KEYS_READ < n")
    case True
    then have ne: "?page \<noteq> []" by (auto simp: RBD_MAX_KEYS_READ_def)
    let ?l = "fst (last ?page)"
    have more: "?rest ?l = ?more"
    proof -
      have "last ?page \<in> set (?rest l)" using last_in_set [OF ne] by (rule in_set_takeD)
      then have "?rest ?l = filter (\<lambda>e. ?l < fst e) (?page @ ?more)"
        by (auto intro!: filter_cong dest: less_trans)
      moreover have "smap_ok (?page @ ?more)"
        using ok smap_ok_append [of acc "?page @ ?more"] by (simp only: append_assoc)
      then have "filter (\<lambda>e. ?l < fst e) (?page @ ?more) = ?more" by (rule after_last [OF _ ne])
      ultimately show ?thesis by (simp only:)
    qed
    have "length (?rest ?l) < length (?rest l)"
      using True ne unfolding more by (simp add: RBD_MAX_KEYS_READ_def)
    then have "dir_list_loop h n (dir_key_for_name ?l) RBD_MAX_KEYS_READ (acc @ ?page)
        = Some (Inr ((acc @ ?page) @ take (n - length (acc @ ?page)) (?rest ?l)))"
      using True ok more by (intro less.hyps) simp_all
    moreover have "take (n - length acc) ?page = ?page" using True by (intro take_all) linarith
    moreover have "take (n - length acc) (?rest l) = ?page @ take (n - length (acc @ ?page)) ?more"
      using True by (simp add: take_drop [symmetric] take_add [symmetric] min_def)
    ultimately show ?thesis using step ne more True by simp
  next
    case False
    have "dir_list_loop h n k (length ?page) (acc @ take (n - length acc) ?page)
        = Some (Inr (acc @ take (n - length acc) ?page))" for k
      using False less.prems(2) by (subst dir_list_loop.simps) auto
    moreover have "take (n - length acc) ?page = take (n - length acc) (?rest l)"
    proof (cases "n - length acc \<le> RBD_MAX_KEYS_READ")
      case True
      then show ?thesis by (simp add: min_absorb1)
    next
      case big: False
      then have "length ?page \<noteq> RBD_MAX_KEYS_READ" using False by linarith
      then have "length (?rest l) < RBD_MAX_KEYS_READ" by simp
      with big show ?thesis by simp
    qed
    ultimately show ?thesis using step by simp
  qed
qed

lemma dir_list_call:
  assumes "dir_reprs d (Some ob)" "dir_ok d" "short start_after"
  shows "cls_call rbd_dir_list (encode_pair encode_string encode_u64 (start_after, max_return)) (Some ob) =
    Some (0, encode_images (take (unat max_return) (filter (\<lambda>e. start_after < fst e) d)), Some ob)"
proof -
  let ?h = "\<lparr>hc_stored = Some ob, hc_new = Some ob\<rparr>"
  have "smap_ok ([] @ filter (\<lambda>e. start_after < fst e) d)"
    using assms(2) by (simp add: dir_ok_def smap_ok_filter)
  then have "dir_list_loop ?h (unat max_return) (dir_key_for_name start_after) RBD_MAX_KEYS_READ []
      = Some (Inr (take (unat max_return) (filter (\<lambda>e. start_after < fst e) d)))"
    using dir_list_loop [OF assms(1,2), of ?h "[]" start_after "unat max_return"]
    by (cases "unat max_return = 0") (auto simp: dir_list_loop.simps [of ?h 0])
  then show ?thesis
    using assms(3) by (simp add: cls_call_def rbd_dir_list_def arg_list.pair.dec_enc_end)
qed

text \<open>A listing is exact: it ends, and returns the first \<open>max_return\<close> images, in the order of their
  names, whose names come after \<open>start_after\<close>, with their ids, however many pages of keys that takes.\<close>

theorem dir_list_exact:
  assumes "dir_reprs d (Some ob)" "dir_ok d" "short start_after"
  shows "cls_call rbd_dir_list (encode_pair encode_string encode_u64 (start_after, max_return)) (Some ob) =
    Some (0, encode_images (take (unat max_return) (filter (\<lambda>e. start_after < fst e) d)), Some ob)"
  by (rule dir_list_call [OF assms])

lemma dir_list_exact_witness:
  "\<exists>ob. cls_call rbd_dir_list (encode_pair encode_string encode_u64 (''a'', 1)) (Some ob) =
    Some (0, encode_images [(''x'', ''1'')], Some ob)"
proof -
  have "dir_ok [(''a'', ''2''), (''x'', ''1''), (''y'', ''3'')]"
    by (simp add: dir_ok_def is_valid_id_def c_isalnum_def Let_def short_def less_char_def)
  moreover have "\<forall>c \<in> set [DirAdd ''a'' ''2'', DirAdd ''x'' ''1'', DirAdd ''y'' ''3'']. dir_fits c"
    by (simp add: short_def)
  from dir_history [OF dir_reprs_absent this] obtain obs where
    "dir_reprs [(''a'', ''2''), (''x'', ''1''), (''y'', ''3'')] obs"
    by (auto simp: is_valid_id_def c_isalnum_def Let_def less_char_def)
  moreover from this obtain ob where "obs = Some ob"
    by (cases obs) (auto simp: dir_reprs_def dest!: fun_cong [of _ _ "dir_key_for_name ''a''"])
  ultimately show ?thesis
    using dir_list_exact [of "[(''a'', ''2''), (''x'', ''1''), (''y'', ''3'')]" ob "''a''" 1]
    by (auto simp: short_def less_char_def)
qed

subsection \<open>Any requests, in any order\<close>

datatype dir_request = DirChange dir_call | DirGetId string | DirGetName string

fun dir_request_method :: "dir_request \<Rightarrow> cls_method" where
  "dir_request_method (DirChange c) = dir_method c"
| "dir_request_method (DirGetId n) = rbd_dir_get_id"
| "dir_request_method (DirGetName i) = rbd_dir_get_name"

fun dir_request_args :: "dir_request \<Rightarrow> bytes" where
  "dir_request_args (DirChange c) = dir_args c"
| "dir_request_args (DirGetId n) = encode_string n"
| "dir_request_args (DirGetName i) = encode_string i"

fun dir_request_fits :: "dir_request \<Rightarrow> bool" where
  "dir_request_fits (DirChange c) = dir_fits c"
| "dir_request_fits (DirGetId n) = short n"
| "dir_request_fits (DirGetName i) = short i"

definition dir_found :: "string option \<Rightarrow> int \<times> bytes" where
  "dir_found x = (case x of None \<Rightarrow> (- ENOENT, []) | Some v \<Rightarrow> (0, encode_string v))"

fun dir_request_step :: "dir_request \<Rightarrow> dir \<Rightarrow> (int \<times> bytes) \<times> dir" where
  "dir_request_step (DirChange c) d = (case dir_spec c d of (r, d') \<Rightarrow> ((r, []), d'))"
| "dir_request_step (DirGetId n) d = (dir_found (map_of d n), d)"
| "dir_request_step (DirGetName i) d = (dir_found (map_of (dir_ids d) i), d)"

definition dir_request_exec :: "dir_request \<Rightarrow> osd_object option \<Rightarrow> ((int \<times> bytes) \<times> osd_object option) option" where
  "dir_request_exec q obs =
     map_option (\<lambda>(r, out, obs'). ((r, out), obs')) (cls_call (dir_request_method q) (dir_request_args q) obs)"

lemma dir_request_refines:
  assumes "dir_reprs d obs" "dir_ok d" "dir_request_fits q"
  shows "\<exists>r obs' d'. dir_request_exec q obs = Some (r, obs') \<and> dir_request_step q d = (r, d') \<and> dir_reprs d' obs' \<and> dir_ok d'"
proof (cases q)
  case (DirChange c)
  obtain r d' where ds: "dir_spec c d = (r, d')" by (cases "dir_spec c d")
  with dir_method_refines [OF assms(1,2), of c] dir_spec_ok [of d c r d'] assms show ?thesis
    by (auto simp: dir_refines_def dir_request_exec_def DirChange)
next
  case (DirGetId n)
  then show ?thesis
    using dir_lookups(1) [OF assms(1,2), of n] assms by (simp add: dir_request_exec_def dir_found_def split: option.split)
next
  case (DirGetName i)
  then show ?thesis
    using dir_lookups(2) [OF assms(1,2), of i] assms by (simp add: dir_request_exec_def dir_found_def split: option.split)
qed

interpretation dir_request: simulation "\<lambda>obs d. dir_reprs d obs \<and> dir_ok d" "\<lambda>q obs. dir_request_fits q"
  dir_request_exec dir_request_step
proof (unfold_locales, goal_cases)
  case (1 obs d q)
  then show ?case using dir_request_refines by blast
qed

fun dir_request_execs :: "dir_request list \<Rightarrow> osd_object option \<Rightarrow> ((int \<times> bytes) list \<times> osd_object option) option" where
  "dir_request_execs [] obs = Some ([], obs)"
| "dir_request_execs (q # qs) obs = (case dir_request_exec q obs of None \<Rightarrow> None
     | Some (r, obs1) \<Rightarrow> map_option (\<lambda>(rs, obs2). (r # rs, obs2)) (dir_request_execs qs obs1))"

fun dir_request_steps :: "dir_request list \<Rightarrow> dir \<Rightarrow> (int \<times> bytes) list \<times> dir" where
  "dir_request_steps [] d = ([], d)"
| "dir_request_steps (q # qs) d = (let (r, d1) = dir_request_step q d; (rs, d2) = dir_request_steps qs d1 in (r # rs, d2))"

lemma dir_request_execs_run: "dir_request_execs qs obs = dir_request.conc_run qs obs"
  by (induction qs arbitrary: obs) (simp_all add: dir_request.conc_run.simps split: option.split)

lemma dir_request_steps_run: "dir_request_steps qs d = dir_request.spec_run qs d"
  by (induction qs arbitrary: d) (simp_all add: dir_request.spec_run.simps)

text \<open>C13. The directory of a pool is a one-to-one map. From an absent directory object, every sequence
  of additions, removals, renamings and lookups in both directions returns the codes and the answers of
  the specification - a lookup those of the map from names to ids, or of its inverse, at that moment -
  and the object encodes a map in which every name is not empty, every id is alphanumeric and no id is
  used twice. Once the object exists, a listing of it returns the first entries of the map after a name.\<close>

theorem directory_refines:
  assumes "\<forall>q \<in> set qs. dir_request_fits q"
  shows "\<exists>rs obs d. dir_request_execs qs None = Some (rs, obs) \<and> dir_request_steps qs [] = (rs, d) \<and>
     dir_reprs d obs \<and> dir_ok d \<and>
     (\<forall>start_after max_return. obs \<noteq> None \<and> short start_after \<longrightarrow>
        cls_call rbd_dir_list (encode_pair encode_string encode_u64 (start_after, max_return)) obs =
          Some (0, encode_images (take (unat max_return) (filter (\<lambda>e. start_after < fst e) d)), obs))"
proof -
  obtain rs obs d where r: "dir_request_execs qs None = Some (rs, obs)" "dir_request_steps qs [] = (rs, d)"
    "dir_reprs d obs" "dir_ok d"
    using dir_request.runs [where s = None and a = "[]" and xs = qs] dir_reprs_absent assms
    unfolding dir_request_execs_run dir_request_steps_run by blast
  moreover have "cls_call rbd_dir_list (encode_pair encode_string encode_u64 (sa, mx)) obs =
          Some (0, encode_images (take (unat mx) (filter (\<lambda>e. sa < fst e) d)), obs)"
    if "obs \<noteq> None \<and> short sa" for sa mx
    using that r(3,4) dir_list_call [of d _ sa mx] by (cases obs) simp_all
  ultimately show ?thesis by blast
qed

lemma directory_refines_witness:
  "\<exists>obs. dir_request_execs [DirGetId ''x'', DirChange (DirAdd ''x'' ''1''), DirChange (DirAdd ''x'' ''2''),
       DirChange (DirAdd ''y'' ''1''), DirGetName ''1'', DirChange (DirRename ''x'' ''x'' ''1''),
       DirChange (DirRename ''x'' ''z'' ''1''), DirGetName ''1'', DirGetId ''x'', DirGetId ''z'', DirChange (DirRemove ''x'' ''1'')] None
     = Some ([(- ENOENT, []), (0, []), (- EEXIST, []), (- EBADF, []), (0, encode_string ''x''), (- EEXIST, []), (0, []),
         (0, encode_string ''z''), (- ENOENT, []), (0, encode_string ''1''), (- ENOENT, [])], obs)
     \<and> dir_reprs [(''z'', ''1'')] obs"
proof -
  let ?qs = "[DirGetId ''x'', DirChange (DirAdd ''x'' ''1''), DirChange (DirAdd ''x'' ''2''),
       DirChange (DirAdd ''y'' ''1''), DirGetName ''1'', DirChange (DirRename ''x'' ''x'' ''1''),
       DirChange (DirRename ''x'' ''z'' ''1''), DirGetName ''1'', DirGetId ''x'', DirGetId ''z'', DirChange (DirRemove ''x'' ''1'')]"
  have "\<forall>q \<in> set ?qs. dir_request_fits q" by (simp add: short_def)
  from directory_refines [OF this] obtain rs obs d where
    "dir_request_execs ?qs None = Some (rs, obs)" "dir_request_steps ?qs [] = (rs, d)" "dir_reprs d obs" by blast
  moreover have "dir_request_steps ?qs [] = ([(- ENOENT, []), (0, []), (- EEXIST, []), (- EBADF, []), (0, encode_string ''x''),
         (- EEXIST, []), (0, []), (0, encode_string ''z''), (- ENOENT, []), (0, encode_string ''1''), (- ENOENT, [])], [(''z'', ''1'')])"
    by (simp add: dir_removable_def is_valid_id_def c_isalnum_def Let_def dir_found_def dir_ids_def)
  ultimately show ?thesis by auto
qed

subsection \<open>The id of an image\<close>

text \<open>An id object: the encoded id.\<close>

definition id_object :: "string \<Rightarrow> osd_object" where
  "id_object i = fresh_object\<lparr>od_data := encode_string i, od_size := of_nat (length (encode_string i))\<rparr>"

lemma id_object_length:
  assumes "small_string i"
  shows "length (encode_string i) \<noteq> 0" "length (encode_string i) < 2147483648"
    "unat (of_nat (length (encode_string i)) :: u64) = length (encode_string i)"
    "(of_nat (length (encode_string i)) :: u64) \<noteq> 0"
proof -
  show pos: "length (encode_string i) \<noteq> 0" and bound: "length (encode_string i) < 2147483648"
    using assms length_encode_string [OF small_short [OF assms]] by (simp_all add: small_string_def)
  show len: "unat (of_nat (length (encode_string i)) :: u64) = length (encode_string i)"
    using bound by (intro length_word) simp
  show "(of_nat (length (encode_string i)) :: u64) \<noteq> 0" using len pos by (metis unat_0)
qed

lemma set_id_fresh:
  assumes "is_valid_id i" "small_string i"
  shows "cls_call rbd_set_id (encode_string i) (Some fresh_object) = Some (0, [], Some (id_object i))"
proof -
  let ?bl = "encode_string i"
  note len = id_object_length [OF assms(2)]
  have chk: "check_offset_and_length 0 (of_nat (length ?bl)) osd_max_object_size = 0"
    using len(2,3)
    by (simp add: check_offset_and_length_def osd_max_object_size_def word_le_nat_alt word_less_nat_alt)
  show ?thesis
    using assms(1) small_short [OF assms(2)] chk len
    by (simp add: cls_call_def rbd_set_id_def cstr.dec_enc_end cls_stat_exists cls_write_def op_write_def
        Let_def fresh_object_def write_update_size_def file_write_def word_gt_0 id_object_def del: One_nat_def)
qed

lemma get_id_object:
  assumes "small_string i"
  shows "cls_call rbd_get_id inp (Some (id_object i)) = Some (0, encode_string i, Some (id_object i))"
proof -
  let ?bl = "encode_string i" and ?ob = "id_object i"
  note len = id_object_length [OF assms]
  have c: "c_int (int (unat (of_nat (length ?bl) :: u64))) = int (length ?bl)"
    unfolding len(3) using len(2) by (intro c_int_id) simp_all
  have "cls_read 0 (of_nat (length ?bl)) \<lparr>hc_stored = Some ?ob, hc_new = Some ?ob\<rparr> = Inr ?bl"
    unfolding cls_read_def c using len
    by (simp add: op_read_def file_read_def Let_def fresh_object_def id_object_def)
  then show ?thesis
    using len(4) small_short [OF assms]
    by (simp add: cls_call_def rbd_get_id_def cls_stat_exists cstr.dec_enc_end id_object_def)
qed

text \<open>The id object of an image is written once: on an existing empty object \<open>set_id\<close> with a valid id
  succeeds, \<open>get_id\<close> then returns the id, and a second \<open>set_id\<close> fails with \<open>-EEXIST\<close> and changes
  nothing.\<close>

theorem id_written_once:
  assumes "is_valid_id i" "small_string i" "is_valid_id j" "small_string j"
  shows "\<exists>ob. cls_call rbd_set_id (encode_string i) (Some fresh_object) = Some (0, [], Some ob) \<and>
     cls_call rbd_get_id inp (Some ob) = Some (0, encode_string i, Some ob) \<and>
     cls_call rbd_set_id (encode_string j) (Some ob) = Some (- EEXIST, [], Some ob)"
proof -
  have "cls_call rbd_set_id (encode_string j) (Some (id_object i)) = Some (- EEXIST, [], Some (id_object i))"
    using assms(3) small_short [OF assms(4)] id_object_length(4) [OF assms(2)]
    by (simp add: cls_call_def rbd_set_id_def cls_stat_exists cstr.dec_enc_end Let_def id_object_def)
  then show ?thesis using set_id_fresh [OF assms(1,2)] get_id_object [OF assms(2)] by blast
qed

lemma id_written_once_witness:
  "\<exists>ob. cls_call rbd_set_id (encode_string ''1a'') (Some fresh_object) = Some (0, [], Some ob) \<and>
     cls_call rbd_get_id [] (Some ob) = Some (0, encode_string ''1a'', Some ob) \<and>
     cls_call rbd_set_id (encode_string ''2'') (Some ob) = Some (- EEXIST, [], Some ob)"
  by (rule id_written_once)
    (simp_all add: is_valid_id_def c_isalnum_def Let_def small_string_def)

end
