(* ===== verification/Cls_Children.thy ===== *)
theory Cls_Children
  imports Cls_Types
begin

text \<open>
  \<open>cls/rbd/cls_rbd.cc\<close>, the methods on the children object of a pool: for every snapshot that is a
  parent, the set of the ids of its clones, under a key made of the encoding of the parent. The key of
  a parent without children does not exist.
\<close>

definition parent_key :: "u64 \<Rightarrow> string \<Rightarrow> u64 \<Rightarrow> string" where
  "parent_key pool_id image_id snap_id =
     string_of (encode_u64 pool_id @ encode_string image_id @ encode_u64 snap_id)"

text \<open>\<open>decode_parent\<close> and \<open>decode_parent_and_child\<close> of the arguments.\<close>

definition decode_parent_args :: "bytes \<Rightarrow> ((u64 \<times> string \<times> u64) \<times> bytes) option" where
  "decode_parent_args = decode_pair decode_u64 (decode_pair decode_string decode_u64)"

definition decode_parent_and_child :: "bytes \<Rightarrow> (((u64 \<times> string \<times> u64) \<times> string) \<times> bytes) option" where
  "decode_parent_and_child = decode_pair decode_parent_args decode_string"

definition rbd_add_child :: cls_method where
  "rbd_add_child inp h =
     (case decode_parent_and_child inp of
        None \<Rightarrow> Some (- EINVAL, [], h)
      | Some (((pool, img, snap), c_image_id), _) \<Rightarrow>
          (case (case read_key decode_set (parent_key pool img snap) h of
                   Inl r \<Rightarrow> if r \<noteq> - ENOENT then Inl r else Inr []
                 | Inr children \<Rightarrow> Inr children) of
             Inl r \<Rightarrow> Some (r, [], h)
           | Inr children \<Rightarrow>
               if c_image_id \<in> set children then Some (- EEXIST, [], h)
               else (case cls_map_set_val (parent_key pool img snap)
                            (encode_set (set_insert c_image_id children)) h of
                       (r, h) \<Rightarrow> Some (r, [], h))))"

definition rbd_remove_child :: cls_method where
  "rbd_remove_child inp h =
     (case decode_parent_and_child inp of
        None \<Rightarrow> Some (- EINVAL, [], h)
      | Some (((pool, img, snap), c_image_id), _) \<Rightarrow>
          (case read_key decode_set (parent_key pool img snap) h of
             Inl r \<Rightarrow> Some (r, [], h)
           | Inr children \<Rightarrow>
               if c_image_id \<notin> set children then Some (- ENOENT, [], h)
               else
                 let children = remove1 c_image_id children in
                 if children = [] then
                   (case cls_map_remove_key (parent_key pool img snap) h of (r, h) \<Rightarrow> Some (r, [], h))
                 else
                   (case cls_map_set_val (parent_key pool img snap) (encode_set children) h of
                      (r, h) \<Rightarrow> Some (r, [], h))))"

definition rbd_get_children :: cls_method where
  "rbd_get_children inp h =
     (case decode_parent_args inp of
        None \<Rightarrow> Some (- EINVAL, [], h)
      | Some ((pool, img, snap), _) \<Rightarrow>
          (case read_key decode_set (parent_key pool img snap) h of
             Inl r \<Rightarrow> Some (r, [], h)
           | Inr children \<Rightarrow> Some (0, encode_set children, h)))"

subsection \<open>Families\<close>

text \<open>The children of each parent; \<open>family_reprs\<close> says that the object holds their encoding.\<close>

type_synonym parent_ref = "u64 \<times> string \<times> u64"

definition ref_key :: "parent_ref \<Rightarrow> string" where
  "ref_key p = (case p of (pool, img, snap) \<Rightarrow> parent_key pool img snap)"

definition ref_fits :: "parent_ref \<Rightarrow> bool" where
  "ref_fits p \<longleftrightarrow> short (fst (snd p))"

definition family_reprs :: "(parent_ref \<Rightarrow> string list) \<Rightarrow> osd_object option \<Rightarrow> bool" where
  "family_reprs f obs \<longleftrightarrow> smap_ok (omap_of obs) \<and>
     (\<forall>p. ref_fits p \<longrightarrow> string_set (f p) \<and>
        map_of (omap_of obs) (ref_key p) = (if f p = [] then None else Some (encode_set (f p))))"

definition encode_ref :: "parent_ref \<Rightarrow> bytes" where
  "encode_ref = encode_pair encode_u64 (encode_pair encode_string encode_u64)"

definition encode_ref_child :: "parent_ref \<times> string \<Rightarrow> bytes" where
  "encode_ref_child = encode_pair encode_ref encode_string"

interpretation ref_tail: codec_pair encode_string decode_string short encode_u64 decode_u64 "\<lambda>_. True" ..

interpretation ref: codec_pair encode_u64 decode_u64 "\<lambda>_. True"
  "encode_pair encode_string encode_u64" "decode_pair decode_string decode_u64" "\<lambda>x. short (fst x)"
  by unfold_locales (simp add: ref_tail.pair.dec_enc)

interpretation ref_child: codec_pair encode_ref decode_parent_args ref_fits encode_string decode_string short
  by unfold_locales
    (simp add: ref.pair.dec_enc [folded encode_ref_def decode_parent_args_def] ref_fits_def)

lemmas family_decode =
  ref.pair.dec_enc_end [folded encode_ref_def decode_parent_args_def]
  ref_child.pair.dec_enc_end [folded encode_ref_child_def decode_parent_and_child_def]

text \<open>Different parents have different keys, since the encoding of one is no beginning of that of
  another.\<close>

lemma ref_key_inj:
  assumes "ref_fits p" "ref_fits q"
  shows "ref_key p = ref_key q \<longleftrightarrow> p = q"
proof -
  have k: "ref_key p = string_of (encode_ref p)" for p
    by (cases p) (simp add: ref_key_def parent_key_def encode_ref_def encode_pair_def)
  show ?thesis
    using ref_child.a.enc_inj [OF assms] by (metis k string_of_inj)
qed

lemma string_set_insert:
  assumes "string_set s" "short c" "Suc (length s) < 2 ^ 32"
  shows "string_set (set_insert c s)"
  using assms by (auto simp: string_set_def set_insert_def short_def sorted_insort distinct_insort set_insort_key)

lemma string_set_remove: "string_set s \<Longrightarrow> string_set (remove1 c s)"
  using set_remove1_subset [of c s] by (auto simp: string_set_def short_def sorted_remove1 length_remove1)

lemma familyD:
  "family_reprs f obs \<Longrightarrow> ref_fits p \<Longrightarrow> string_set (f p) \<and>
     map_of (omap_of obs) (ref_key p) = (if f p = [] then None else Some (encode_set (f p)))"
  unfolding family_reprs_def by blast

lemma family_read:
  assumes "family_reprs f (hc_stored h)" "ref_fits p"
  shows "read_key decode_set (ref_key p) h = (if f p = [] then Inl (- ENOENT) else Inr (f p))"
  using familyD [OF assms] by (auto intro: cset.read_key_enc read_key_missing)

lemma family_upd:
  assumes "family_reprs f obs" "ref_fits p" "string_set s" "smap_ok (omap_of obs')"
    "map_of (omap_of obs') = (map_of (omap_of obs))(ref_key p := (if s = [] then None else Some (encode_set s)))"
  shows "family_reprs (f(p := s)) obs'"
  unfolding family_reprs_def
proof (intro conjI allI impI)
  fix q
  assume q: "ref_fits q"
  show "string_set ((f(p := s)) q)" using assms(3) familyD [OF assms(1) q] by simp
  show "map_of (omap_of obs') (ref_key q)
      = (if (f(p := s)) q = [] then None else Some (encode_set ((f(p := s)) q)))"
    using familyD [OF assms(1) q] ref_key_inj [OF q assms(2)] by (simp add: assms(5))
qed (rule assms(4))

subsection \<open>The methods on families\<close>

text \<open>The methods on a decoded argument.\<close>

lemma add_child_args:
  "decode_parent_and_child inp = Some ((p, c), rest) \<Longrightarrow> rbd_add_child inp h =
     (case (case read_key decode_set (ref_key p) h of
              Inl r \<Rightarrow> if r \<noteq> - ENOENT then Inl r else Inr [] | Inr s \<Rightarrow> Inr s) of
        Inl r \<Rightarrow> Some (r, [], h)
      | Inr s \<Rightarrow> if c \<in> set s then Some (- EEXIST, [], h)
                else (case cls_map_set_val (ref_key p) (encode_set (set_insert c s)) h of
                        (r, h) \<Rightarrow> Some (r, [], h)))"
  unfolding rbd_add_child_def ref_key_def by (cases p) (simp split: sum.split)

lemma remove_child_args:
  "decode_parent_and_child inp = Some ((p, c), rest) \<Longrightarrow> rbd_remove_child inp h =
     (case read_key decode_set (ref_key p) h of
        Inl r \<Rightarrow> Some (r, [], h)
      | Inr s \<Rightarrow> if c \<notin> set s then Some (- ENOENT, [], h)
                else if remove1 c s = []
                then (case cls_map_remove_key (ref_key p) h of (r, h) \<Rightarrow> Some (r, [], h))
                else (case cls_map_set_val (ref_key p) (encode_set (remove1 c s)) h of
                        (r, h) \<Rightarrow> Some (r, [], h)))"
  unfolding rbd_remove_child_def ref_key_def Let_def by (cases p) (simp split: sum.split)

lemma get_children_args:
  "decode_parent_args inp = Some (p, rest) \<Longrightarrow> rbd_get_children inp h =
     (case read_key decode_set (ref_key p) h of
        Inl r \<Rightarrow> Some (r, [], h) | Inr s \<Rightarrow> Some (0, encode_set s, h))"
  by (cases p) (simp add: rbd_get_children_def ref_key_def)

lemma add_child_call:
  assumes f: "family_reprs f obs" "ref_fits p" and c: "short c" "Suc (length (f p)) < 2 ^ 32"
  shows "\<exists>obs'. cls_call rbd_add_child (encode_ref_child (p, c)) obs =
      Some (if c \<in> set (f p) then - EEXIST else 0, [], obs') \<and>
    family_reprs (f(p := set_insert c (f p))) obs'"
proof -
  let ?h = "\<lparr>hc_stored = obs, hc_new = obs\<rparr>"
  have dec: "decode_parent_and_child (encode_ref_child (p, c)) = Some ((p, c), [])"
    using f(2) c(1) by (intro family_decode) simp
  have rd: "(case read_key decode_set (ref_key p) ?h of Inl r \<Rightarrow> if r \<noteq> - ENOENT then Inl r else Inr []
      | Inr children \<Rightarrow> Inr children) = (Inr (f p) :: int + string list)"
    using family_read [of f ?h p] f by simp
  show ?thesis
  proof (cases "c \<in> set (f p)")
    case True
    then have "rbd_add_child (encode_ref_child (p, c)) ?h = Some (- EEXIST, [], ?h)"
      using rd by (simp add: add_child_args [OF dec])
    then show ?thesis using True f(1) by (simp add: cls_call_def set_insert_def)
  next
    case False
    let ?s = "set_insert c (f p)"
    let ?obs' = "Some ((the_default fresh_object obs)
        \<lparr>od_omap := smap_put (ref_key p) (encode_set ?s) (omap_of obs)\<rparr>)"
    have "rbd_add_child (encode_ref_child (p, c)) ?h = Some (0, [], ?h\<lparr>hc_new := ?obs'\<rparr>)"
      using rd False
      by (simp add: add_child_args [OF dec] cls_map_set_val_def cls_map_set_vals)
    moreover have "?s \<noteq> []" by (auto simp: set_insert_def)
    then have "family_reprs (f(p := ?s)) ?obs'"
      using familyD [OF f] string_set_insert [OF _ c] f(1)
      by (intro family_upd [OF f]) (auto simp: family_reprs_def)
    ultimately show ?thesis using False by (simp add: cls_call_def)
  qed
qed

lemma remove_child_call:
  assumes f: "family_reprs f obs" "ref_fits p" and c: "short c"
  shows "\<exists>obs'. cls_call rbd_remove_child (encode_ref_child (p, c)) obs =
      Some (if c \<in> set (f p) then 0 else - ENOENT, [], obs') \<and>
    family_reprs (f(p := remove1 c (f p))) obs'"
proof -
  let ?h = "\<lparr>hc_stored = obs, hc_new = obs\<rparr>"
  have dec: "decode_parent_and_child (encode_ref_child (p, c)) = Some ((p, c), [])"
    using f(2) c by (intro family_decode) simp
  have rd: "read_key decode_set (ref_key p) ?h = (if f p = [] then Inl (- ENOENT) else Inr (f p))"
    using family_read [of f ?h p] f by simp
  show ?thesis
  proof (cases "c \<in> set (f p)")
    case False
    then have "rbd_remove_child (encode_ref_child (p, c)) ?h = Some (- ENOENT, [], ?h)"
      using rd by (simp add: remove_child_args [OF dec])
    then show ?thesis using False f(1) by (simp add: cls_call_def remove1_idem)
  next
    case True
    let ?s = "remove1 c (f p)"
    have "map_of (omap_of obs) (ref_key p) \<noteq> None" using familyD [OF f] True by auto
    then obtain ob where ob: "obs = Some ob" by (cases obs) auto
    let ?m = "if ?s = [] then smap_erase (ref_key p) (od_omap ob) else smap_put (ref_key p) (encode_set ?s) (od_omap ob)"
    have "rbd_remove_child (encode_ref_child (p, c)) ?h = Some (0, [], ?h\<lparr>hc_new := Some (ob\<lparr>od_omap := ?m\<rparr>)\<rparr>)"
      using rd True ob
      by (auto simp: remove_child_args [OF dec] cls_map_set_val_def cls_map_set_vals
          cls_map_remove_key Let_def)
    moreover have "smap_ok (od_omap ob)" using f(1) ob by (simp add: family_reprs_def)
    then have "family_reprs (f(p := ?s)) (Some (ob\<lparr>od_omap := ?m\<rparr>))"
      using familyD [OF f] string_set_remove ob by (intro family_upd [OF f]) auto
    ultimately show ?thesis using True by (simp add: cls_call_def)
  qed
qed

text \<open>The children object keeps, for every parent, exactly the set of its clones: adding a child
  that is there fails with \<open>-EEXIST\<close>, removing one that is not with \<open>-ENOENT\<close>, an addition or removal
  changes the set of no other parent, and the listing of a parent is its set (\<open>-ENOENT\<close> when it has no
  children).\<close>

theorem children_exact:
  assumes "family_reprs f obs" "ref_fits p" "short c" "Suc (length (f p)) < 2 ^ 32"
  shows "(\<exists>obs'. cls_call rbd_add_child (encode_ref_child (p, c)) obs =
        Some (if c \<in> set (f p) then - EEXIST else 0, [], obs') \<and>
      family_reprs (f(p := set_insert c (f p))) obs') \<and>
    (\<exists>obs'. cls_call rbd_remove_child (encode_ref_child (p, c)) obs =
        Some (if c \<in> set (f p) then 0 else - ENOENT, [], obs') \<and>
      family_reprs (f(p := remove1 c (f p))) obs') \<and>
    cls_call rbd_get_children (encode_ref p) obs =
      Some (if f p = [] then - ENOENT else 0, if f p = [] then [] else encode_set (f p), obs)"
proof (intro conjI)
  have "decode_parent_args (encode_ref p) = Some (p, [])"
    using assms(2) by (intro family_decode) (simp add: ref_fits_def)
  from get_children_args [OF this] show "cls_call rbd_get_children (encode_ref p) obs =
      Some (if f p = [] then - ENOENT else 0, if f p = [] then [] else encode_set (f p), obs)"
    using family_read [of f "\<lparr>hc_stored = obs, hc_new = obs\<rparr>" p] assms(1,2)
    by (simp add: cls_call_def)
qed (use add_child_call [OF assms] remove_child_call [OF assms(1-3)] in blast)+

lemma children_exact_witness:
  "\<exists>obs. cls_call rbd_add_child (encode_ref_child ((1, ''p'', 7), ''c'')) None = Some (0, [], obs)"
proof -
  have "family_reprs (\<lambda>_. []) None" by (simp add: family_reprs_def string_set_def short_def)
  from children_exact [OF this, of "(1, ''p'', 7)" "''c''"] show ?thesis
    by (auto simp: ref_fits_def short_def)
qed

end
