(* ===== verification/Old_Header.thy ===== *)
theory Old_Header
  imports Cls_Directory "HOL-Library.Monad_Syntax"
begin

text \<open>
  Format 1 images keep their header as one C structure at the start of the header object, followed by
  the fixed-size records of the snapshots and their names as C strings. This theory models
  \<open>struct rbd_obj_header_ondisk\<close> (\<open>include/rbd_types.h\<close>) and the class methods that work on such
  headers (\<open>snap_read_header\<close>, \<open>old_snapshots_list\<close>, \<open>old_snapshot_add\<close>, \<open>old_snapshot_remove\<close> in
  \<open>cls/rbd/cls_rbd.cc\<close>). The code walks through the buffer with pointers; a run that would leave the
  buffer, or write bytes that were never set, is \<open>None\<close>.
\<close>

subsection \<open>The structure\<close>

record rbd_obj_header_ondisk =
  oh_text :: bytes
  oh_block_name :: bytes
  oh_signature :: bytes
  oh_version :: bytes
  oh_order :: u8
  oh_crypt_type :: u8
  oh_comp_type :: u8
  oh_unused :: u8
  oh_image_size :: u64
  oh_snap_seq :: u64
  oh_snap_count :: u32
  oh_reserved :: u32
  oh_snap_names_len :: u64

definition ondisk_bytes :: "rbd_obj_header_ondisk \<Rightarrow> bytes" where
  "ondisk_bytes hdr = oh_text hdr @ oh_block_name hdr @ oh_signature hdr @ oh_version hdr @
     encode_u8 (oh_order hdr) @ encode_u8 (oh_crypt_type hdr) @ encode_u8 (oh_comp_type hdr) @
     encode_u8 (oh_unused hdr) @ encode_u64 (oh_image_size hdr) @ encode_u64 (oh_snap_seq hdr) @
     encode_u32 (oh_snap_count hdr) @ encode_u32 (oh_reserved hdr) @ encode_u64 (oh_snap_names_len hdr)"

definition ondisk_of :: "bytes \<Rightarrow> (rbd_obj_header_ondisk \<times> bytes) option" where
  "ondisk_of p =
     do { (text, p) \<leftarrow> decode_raw 40 p;
          (block_name, p) \<leftarrow> decode_raw 24 p;
          (signature, p) \<leftarrow> decode_raw 4 p;
          (version, p) \<leftarrow> decode_raw 8 p;
          (order, p) \<leftarrow> decode_u8 p;
          (crypt_type, p) \<leftarrow> decode_u8 p;
          (comp_type, p) \<leftarrow> decode_u8 p;
          (unused, p) \<leftarrow> decode_u8 p;
          (image_size, p) \<leftarrow> decode_u64 p;
          (snap_seq, p) \<leftarrow> decode_u64 p;
          (snap_count, p) \<leftarrow> decode_u32 p;
          (reserved, p) \<leftarrow> decode_u32 p;
          (snap_names_len, p) \<leftarrow> decode_u64 p;
          Some (\<lparr>oh_text = text, oh_block_name = block_name, oh_signature = signature,
                 oh_version = version, oh_order = order, oh_crypt_type = crypt_type,
                 oh_comp_type = comp_type, oh_unused = unused, oh_image_size = image_size,
                 oh_snap_seq = snap_seq, oh_snap_count = snap_count, oh_reserved = reserved,
                 oh_snap_names_len = snap_names_len\<rparr>, p) }"

definition ondisk_ok :: "rbd_obj_header_ondisk \<Rightarrow> bool" where
  "ondisk_ok hdr \<longleftrightarrow> length (oh_text hdr) = 40 \<and> length (oh_block_name hdr) = 24 \<and>
     length (oh_signature hdr) = 4 \<and> length (oh_version hdr) = 8"

interpretation ondisk: codec ondisk_bytes ondisk_of ondisk_ok
proof
  fix hdr :: rbd_obj_header_ondisk and p
  assume "ondisk_ok hdr"
  then show "ondisk_of (ondisk_bytes hdr @ p) = Some (hdr, p)"
    by (simp add: ondisk_ok_def ondisk_of_def ondisk_bytes_def decode_raw_append
        c8.dec_enc c32.dec_enc c64.dec_enc)
qed

lemma length_ondisk [simp]: "ondisk_ok hdr \<Longrightarrow> length (ondisk_bytes hdr) = 112"
  by (simp add: ondisk_ok_def ondisk_bytes_def encode_u8_def)

subsection \<open>C strings and regions\<close>

definition slice_of :: "nat \<Rightarrow> nat \<Rightarrow> bytes \<Rightarrow> bytes" where
  "slice_of ofs len bl = take len (drop ofs bl)"

text \<open>The string at a position, up to its terminator.\<close>

definition c_string :: "bytes \<Rightarrow> nat \<Rightarrow> bytes option" where
  "c_string bl pos =
     (if 0 \<in> set (drop pos bl) then Some (takeWhile (\<lambda>b. b \<noteq> 0) (drop pos bl)) else None)"

definition c_str :: "string \<Rightarrow> bytes" where
  "c_str s = takeWhile (\<lambda>b. b \<noteq> 0) (bytes_of s)"

definition strncmp_eq :: "nat \<Rightarrow> bytes \<Rightarrow> bytes \<Rightarrow> bool" where
  "strncmp_eq n a b \<longleftrightarrow>
     take n (takeWhile (\<lambda>b. b \<noteq> 0) a @ [0]) = take n (takeWhile (\<lambda>b. b \<noteq> 0) b @ [0])"

subsection \<open>Class methods\<close>

definition cls_write_full :: "bytes \<Rightarrow> cls_ctx \<Rightarrow> int \<times> cls_ctx" where
  "cls_write_full bl h =
     (case op_write_full osd_max_object_size 0 (of_nat (length bl)) bl (hc_new h) of
        (r, _, ob) \<Rightarrow> (r, h\<lparr>hc_new := ob\<rparr>))"

definition names_ofs :: "rbd_obj_header_ondisk \<Rightarrow> nat" where
  "names_ofs hdr = 112 + 16 * unat (oh_snap_count hdr)"

definition names_end :: "rbd_obj_header_ondisk \<Rightarrow> nat" where
  "names_end hdr = names_ofs hdr + unat (oh_snap_names_len hdr)"

text \<open>The length is an \<open>int\<close>: the sum is cut to 32 bits and extended with its sign.\<close>

definition int_len :: "u64 \<Rightarrow> u64" where
  "int_len len = of_int (c_int (int (unat len)))"

lemma int_len_small:
  assumes "unat len < 2 ^ 31"
  shows "int_len len = len"
proof -
  have "int (unat len) < 2147483648" using assms by (simp only: zless_nat_eq_int_zless [symmetric]) simp
  then have "c_int (int (unat len)) = int (unat len)" by (intro c_int_id) linarith+
  then show ?thesis by (simp add: int_len_def)
qed

text \<open>The header is read again until its counts are those the length was computed from.\<close>

partial_function (option) snap_read_loop ::
    "cls_ctx \<Rightarrow> u32 \<Rightarrow> u64 \<Rightarrow> (int + rbd_obj_header_ondisk \<times> bytes) option" where
  "snap_read_loop h snap_count snap_names_len =
     (case cls_read 0 (int_len (112 + ucast snap_count * 16 + snap_names_len)) h of
        Inl rc \<Rightarrow> Some (Inl rc)
      | Inr bl \<Rightarrow>
          (case ondisk_of bl of
             None \<Rightarrow> None
           | Some (hdr, _) \<Rightarrow>
               if snap_count \<noteq> oh_snap_count hdr \<or> snap_names_len \<noteq> oh_snap_names_len hdr
               then snap_read_loop h (oh_snap_count hdr) (oh_snap_names_len hdr)
               else Some (Inr (hdr, bl))))"

definition snap_read_header :: "cls_ctx \<Rightarrow> (int + rbd_obj_header_ondisk \<times> bytes) option" where
  "snap_read_header h = snap_read_loop h 0 0"

fun ondisk_snaps :: "nat \<Rightarrow> bytes \<Rightarrow> (u64 \<times> u64) list option" where
  "ondisk_snaps 0 p = Some []"
| "ondisk_snaps (Suc n) p =
     (case decode_pair decode_u64 decode_u64 p of
        None \<Rightarrow> None
      | Some (s, p) \<Rightarrow> map_option ((#) s) (ondisk_snaps n p))"

fun old_list_loop :: "bytes \<Rightarrow> nat \<Rightarrow> (u64 \<times> u64) list \<Rightarrow> nat \<Rightarrow> (int \<times> bytes) option" where
  "old_list_loop bl last_pos [] name = Some (0, [])"
| "old_list_loop bl last_pos ((sid, sz) # sns) name =
     (case c_string bl name of
        None \<Rightarrow> None
      | Some s \<Rightarrow>
          let item = encode_u64 sid @ encode_u64 sz @ encode_string (string_of s);
              name = name + length s + 1
          in if last_pos < name then Some (- EIO, item)
             else map_option (\<lambda>(r, out). (r, item @ out)) (old_list_loop bl last_pos sns name))"

definition rbd_old_snapshots_list :: cls_method where
  "rbd_old_snapshots_list inp h =
     (case snap_read_header h of
        None \<Rightarrow> None
      | Some (Inl rc) \<Rightarrow> Some (rc, [], h)
      | Some (Inr (hdr, bl)) \<Rightarrow>
          if length bl < names_end hdr then None
          else
            do { sns \<leftarrow> ondisk_snaps (unat (oh_snap_count hdr)) (drop 112 bl);
                 (r, out) \<leftarrow> old_list_loop bl (names_end hdr) sns (names_ofs hdr);
                 Some (r, encode_u64 (oh_snap_seq hdr) @ encode_u32 (oh_snap_count hdr) @ out, h) })"

text \<open>The names are compared one by one; the walk must end at the end of the region.\<close>

function name_scan :: "bytes \<Rightarrow> nat \<Rightarrow> bytes \<Rightarrow> nat \<Rightarrow> int option" where
  "name_scan bl last_pos nm cur =
     (if last_pos \<le> cur then Some (if last_pos < cur then - EIO else 0)
      else if strncmp_eq (last_pos - cur) (drop cur bl) nm then Some (- EEXIST)
      else (case c_string bl cur of
              None \<Rightarrow> None
            | Some s \<Rightarrow> name_scan bl last_pos nm (cur + length s + 1)))"
  by auto
termination by (relation "measure (\<lambda>(bl, last_pos, nm, cur). last_pos - cur)") auto

definition rbd_old_snapshot_add :: cls_method where
  "rbd_old_snapshot_add inp h =
     (case snap_read_header h of
        None \<Rightarrow> None
      | Some (Inl rc) \<Rightarrow> Some (rc, [], h)
      | Some (Inr (hdr, bl)) \<Rightarrow>
          (case decode_pair decode_string decode_u64 inp of
             None \<Rightarrow> Some (- EINVAL, [], h)
           | Some ((s, snap_id), _) \<Rightarrow>
               if snap_id < oh_snap_seq hdr then Some (- ESTALE, [], h)
               else if length bl < names_end hdr then None
               else
                 (case name_scan bl (names_end hdr) (c_str s) (names_ofs hdr) of
                    None \<Rightarrow> None
                  | Some r \<Rightarrow>
                      if r < 0 then Some (r, [], h)
                      else
                        let snap_name = c_str s;
                            hdr1 = hdr\<lparr>oh_snap_count := oh_snap_count hdr + 1,
                                     oh_snap_names_len := oh_snap_names_len hdr + of_nat (length snap_name) + 1,
                                     oh_snap_seq := snap_id\<rparr>;
                            new_snaps = encode_u64 snap_id @ encode_u64 (oh_image_size hdr) @
                              slice_of 112 (16 * unat (oh_snap_count hdr)) bl;
                            new_names = snap_name @ [0] @
                              slice_of (names_ofs hdr) (unat (oh_snap_names_len hdr)) bl
                        in (case cls_write_full (ondisk_bytes hdr1 @ new_snaps @ new_names) h of
                              (rc, h) \<Rightarrow> Some (rc, [], h)))))"

text \<open>The first name that is equal: its index and position.\<close>

function find_name :: "bytes \<Rightarrow> nat \<Rightarrow> bytes \<Rightarrow> nat \<Rightarrow> nat \<Rightarrow> (nat \<times> nat) option option" where
  "find_name bl last_pos nm cur i =
     (if last_pos \<le> cur then Some None
      else (case c_string bl cur of
              None \<Rightarrow> None
            | Some s \<Rightarrow>
                if s = nm then Some (Some (i, cur))
                else find_name bl last_pos nm (cur + length s + 1) (Suc i)))"
  by auto
termination by (relation "measure (\<lambda>(bl, last_pos, nm, cur, i). last_pos - cur)") auto

declare name_scan.simps [simp del] find_name.simps [simp del]

definition rbd_old_snapshot_remove :: cls_method where
  "rbd_old_snapshot_remove inp h =
     (case snap_read_header h of
        None \<Rightarrow> None
      | Some (Inl rc) \<Rightarrow> Some (rc, [], h)
      | Some (Inr (hdr, bl)) \<Rightarrow>
          (case decode_string inp of
             None \<Rightarrow> Some (- EINVAL, [], h)
           | Some (s, _) \<Rightarrow>
               if length bl < names_end hdr then None
               else
                 (case find_name bl (names_end hdr) (c_str s) (names_ofs hdr) 0 of
                    None \<Rightarrow> None
                  | Some None \<Rightarrow> Some (- ENOENT, [], h)
                  | Some (Some (i, cur)) \<Rightarrow>
                      let hdr1 = hdr\<lparr>oh_snap_names_len := oh_snap_names_len hdr - (of_nat (length s) + 1),
                                   oh_snap_count := oh_snap_count hdr - 1\<rparr>;
                          cnt = unat (oh_snap_count hdr1);
                          next_ofs = cur + length s + 1;
                          new_snaps = slice_of 112 (16 * i) bl @
                            (if i < cnt then slice_of (112 + 16 * (i + 1)) (16 * (cnt - i)) bl else []);
                          new_names = slice_of (names_ofs hdr) (cur - names_ofs hdr) bl @
                            (if i < cnt then slice_of next_ofs (names_end hdr - next_ofs) bl else [])
                      in if cnt = 0 then
                           (case cls_write_full (ondisk_bytes hdr1) h of (rc, h) \<Rightarrow> Some (rc, [], h))
                         else if length new_snaps \<noteq> 16 * cnt \<or> length new_names \<noteq> unat (oh_snap_names_len hdr1)
                         then None
                         else
                           (case cls_write_full (ondisk_bytes hdr1 @ new_snaps @ new_names) h of
                              (rc, h) \<Rightarrow> Some (rc, [], h)))))"

subsection \<open>Headers and their snapshots\<close>

text \<open>The snapshots of a header, newest first: id, size of the image, name.\<close>

type_synonym old_snap = "u64 \<times> u64 \<times> string"

definition snap_nm :: "old_snap \<Rightarrow> string" where
  "snap_nm s = snd (snd s)"

definition no_nul :: "string \<Rightarrow> bool" where
  "no_nul s \<longleftrightarrow> 0 \<notin> set (bytes_of s)"

definition ids_bytes :: "old_snap list \<Rightarrow> bytes" where
  "ids_bytes sns = concat (map (\<lambda>s. encode_u64 (fst s) @ encode_u64 (fst (snd s))) sns)"

definition names_bytes :: "old_snap list \<Rightarrow> bytes" where
  "names_bytes sns = concat (map (\<lambda>s. bytes_of (snap_nm s) @ [0]) sns)"

definition sealed :: "rbd_obj_header_ondisk \<Rightarrow> old_snap list \<Rightarrow> rbd_obj_header_ondisk" where
  "sealed hdr sns = hdr\<lparr>oh_snap_count := of_nat (length sns),
                       oh_snap_names_len := of_nat (length (names_bytes sns))\<rparr>"

definition old_bytes :: "rbd_obj_header_ondisk \<Rightarrow> old_snap list \<Rightarrow> bytes" where
  "old_bytes hdr sns = ondisk_bytes (sealed hdr sns) @ ids_bytes sns @ names_bytes sns"

definition old_fits :: "rbd_obj_header_ondisk \<Rightarrow> old_snap list \<Rightarrow> bool" where
  "old_fits hdr sns \<longleftrightarrow> ondisk_ok hdr \<and> (\<forall>s \<in> set sns. no_nul (snap_nm s)) \<and> distinct (map snap_nm sns) \<and>
     112 + 16 * length sns + length (names_bytes sns) < 2 ^ 31"

definition old_reprs :: "rbd_obj_header_ondisk \<Rightarrow> old_snap list \<Rightarrow> osd_object option \<Rightarrow> bool" where
  "old_reprs hdr sns obs \<longleftrightarrow> old_fits hdr sns \<and> (\<exists>ob. obs = Some ob \<and> od_data ob = old_bytes hdr sns)"

lemma bytes_simps [simp]:
  "ids_bytes [] = []" "ids_bytes (s # sns) = encode_u64 (fst s) @ encode_u64 (fst (snd s)) @ ids_bytes sns"
  "ids_bytes (us @ vs) = ids_bytes us @ ids_bytes vs"
  "names_bytes [] = []" "names_bytes (s # sns) = bytes_of (snap_nm s) @ [0] @ names_bytes sns"
  "names_bytes (us @ vs) = names_bytes us @ names_bytes vs"
  by (simp_all add: ids_bytes_def names_bytes_def)

lemma length_ids_bytes [simp]: "length (ids_bytes sns) = 16 * length sns"
  by (induction sns) simp_all

lemma sealed_simps [simp]:
  "oh_snap_count (sealed hdr sns) = of_nat (length sns)"
  "oh_snap_names_len (sealed hdr sns) = of_nat (length (names_bytes sns))"
  "oh_snap_seq (sealed hdr sns) = oh_snap_seq hdr" "oh_image_size (sealed hdr sns) = oh_image_size hdr"
  "ondisk_ok (sealed hdr sns) = ondisk_ok hdr"
  by (simp_all add: sealed_def ondisk_ok_def)

lemma length_old_bytes: "ondisk_ok hdr \<Longrightarrow> length (old_bytes hdr sns) = 112 + 16 * length sns + length (names_bytes sns)"
  by (simp add: old_bytes_def)

lemma unat_small_u32: "n < 2 ^ 31 \<Longrightarrow> unat (of_nat n :: u32) = n"
  by (simp add: unat_of_nat take_bit_nat_eq_self)

lemma unat_small_u64: "n < 2 ^ 31 \<Longrightarrow> unat (of_nat n :: u64) = n"
  by (simp add: unat_of_nat take_bit_nat_eq_self)

lemma sealed_counts:
  assumes "old_fits hdr sns"
  shows "unat (oh_snap_count (sealed hdr sns)) = length sns"
    "unat (oh_snap_names_len (sealed hdr sns)) = length (names_bytes sns)"
  using assms unat_small_u32 [of "length sns"] unat_small_u64 [of "length (names_bytes sns)"]
  by (simp_all add: old_fits_def)

lemma old_regions:
  assumes "old_fits hdr sns"
  shows "names_ofs (sealed hdr sns) = 112 + 16 * length sns"
    "names_end (sealed hdr sns) = length (old_bytes hdr sns)"
    "old_bytes hdr sns = (ondisk_bytes (sealed hdr sns) @ ids_bytes sns) @ names_bytes sns"
    "length (ondisk_bytes (sealed hdr sns) @ ids_bytes sns) = 112 + 16 * length sns"
  using sealed_counts [OF assms] assms
  by (simp_all add: names_ofs_def names_end_def length_old_bytes old_fits_def old_bytes_def)

subsection \<open>Reading a header\<close>

lemma cls_read_start:
  assumes "hc_stored h = Some ob" "unat len < 2 ^ 31" "0 < unat len"
  shows "cls_read 0 len h = Inr (take (unat len) (od_data ob))"
proof -
  have c: "c_int (int (unat len)) = int (unat len)"
    using assms(2) [simplified] by (intro c_int_id) linarith+
  show ?thesis
    unfolding cls_read_def c using assms(1,3) by (simp add: op_read_def file_read_def Let_def)
qed

lemma read_old_header:
  assumes f: "old_fits hdr sns" and ob: "hc_stored h = Some ob" "od_data ob = old_bytes hdr sns"
  shows "snap_read_header h = Some (Inr (sealed hdr sns, old_bytes hdr sns))"
proof -
  let ?hdr = "sealed hdr sns" and ?bl = "old_bytes hdr sns"
  have ok: "ondisk_ok ?hdr" and b: "length ?bl < 2 ^ 31" "length ?bl = 112 + 16 * length sns + length (names_bytes sns)"
    using f by (simp_all add: old_fits_def length_old_bytes)
  note cnt = sealed_counts [OF f]
  have dec: "ondisk_of (ondisk_bytes ?hdr @ p) = Some (?hdr, p)" for p by (rule ondisk.dec_enc [OF ok])
  have len: "unat (112 + ucast (oh_snap_count ?hdr) * 16 + oh_snap_names_len ?hdr :: u64) = length ?bl"
  proof -
    have c: "unat (ucast (oh_snap_count ?hdr) :: u64) = length sns" using cnt(1) unat_u32_u64 by simp
    have m: "unat (ucast (oh_snap_count ?hdr) * 16 :: u64) = length sns * 16"
      using c b by (subst unat_mult_lem [THEN iffD1]) simp_all
    have a: "unat (112 + ucast (oh_snap_count ?hdr) * 16 :: u64) = 112 + length sns * 16"
      using m b by (subst unat_add_lt) simp_all
    show ?thesis using a cnt(2) b by (subst unat_add_lt) simp_all
  qed
  have last: "snap_read_loop h (oh_snap_count ?hdr) (oh_snap_names_len ?hdr) = Some (Inr (?hdr, ?bl))"
  proof -
    have small: "int_len (112 + ucast (oh_snap_count ?hdr) * 16 + oh_snap_names_len ?hdr)
        = 112 + ucast (oh_snap_count ?hdr) * 16 + oh_snap_names_len ?hdr"
      using len b by (intro int_len_small) simp
    have rd: "cls_read 0 (int_len (112 + ucast (oh_snap_count ?hdr) * 16 + oh_snap_names_len ?hdr)) h = Inr ?bl"
      unfolding small
      using cls_read_start [OF ob(1), of "112 + ucast (oh_snap_count ?hdr) * 16 + oh_snap_names_len ?hdr"]
        len b ob(2) by simp
    have "ondisk_of ?bl = Some (?hdr, ids_bytes sns @ names_bytes sns)" unfolding old_bytes_def by (rule dec)
    then show ?thesis by (subst snap_read_loop.simps) (simp add: rd del: sealed_simps)
  qed
  show ?thesis
  proof (cases "sns = []")
    case True
    then show ?thesis using last by (simp add: snap_read_header_def)
  next
    case False
    have "take 112 ?bl = ondisk_bytes ?hdr" using ok by (simp add: old_bytes_def)
    then have rd: "cls_read 0 112 h = Inr (ondisk_bytes ?hdr)"
      using cls_read_start [OF ob(1), of 112] ob(2) by simp
    have "oh_snap_count ?hdr \<noteq> 0" using cnt(1) False by (metis length_0_conv unat_0)
    then show ?thesis
      unfolding snap_read_header_def
      using last dec [of "[]"] int_len_small [of 112] by (subst snap_read_loop.simps) (simp add: rd)
  qed
qed

subsection \<open>Walks over the names\<close>

lemma c_string_at: "no_nul s \<Longrightarrow> c_string (pre @ bytes_of s @ 0 # post) (length pre) = Some (bytes_of s)"
  by (auto simp: c_string_def no_nul_def takeWhile_append)

lemma c_str_no_nul: "no_nul s \<Longrightarrow> c_str s = bytes_of s"
  by (auto simp: c_str_def no_nul_def takeWhile_eq_all_conv)

lemma ondisk_snaps_ids: "ondisk_snaps (length sns) (ids_bytes sns @ p) = Some (map (\<lambda>s. (fst s, fst (snd s))) sns)"
  by (induction sns) (simp_all add: decode_pair_def c64.dec_enc)

definition list_item :: "old_snap \<Rightarrow> bytes" where
  "list_item s = encode_u64 (fst s) @ encode_u64 (fst (snd s)) @ encode_string (snap_nm s)"

lemma old_list_loop_all:
  "\<forall>s \<in> set sns. no_nul (snap_nm s) \<Longrightarrow>
     old_list_loop (pre @ names_bytes sns) (length pre + length (names_bytes sns))
       (map (\<lambda>s. (fst s, fst (snd s))) sns) (length pre) = Some (0, concat (map list_item sns))"
proof (induction sns arbitrary: pre)
  case Nil
  then show ?case by simp
next
  case (Cons s sns)
  have "c_string (pre @ bytes_of (snap_nm s) @ 0 # names_bytes sns) (length pre) = Some (bytes_of (snap_nm s))"
    using Cons.prems by (intro c_string_at) simp
  moreover have "old_list_loop ((pre @ bytes_of (snap_nm s) @ [0]) @ names_bytes sns)
      (length (pre @ bytes_of (snap_nm s) @ [0]) + length (names_bytes sns))
      (map (\<lambda>s. (fst s, fst (snd s))) sns) (length (pre @ bytes_of (snap_nm s) @ [0]))
      = Some (0, concat (map list_item sns))"
    using Cons.prems by (intro Cons.IH) simp
  ultimately show ?case by (simp add: Let_def list_item_def [of s] add.assoc)
qed

lemma strncmp_eq_names:
  assumes "no_nul s" "no_nul t" "length s < n"
  shows "strncmp_eq n (bytes_of s @ 0 # p) (bytes_of t) \<longleftrightarrow> t = s"
proof -
  have z: "0 \<notin> set (bytes_of s)" "0 \<notin> set (bytes_of t)" using assms by (simp_all add: no_nul_def)
  have a: "takeWhile (\<lambda>b. b \<noteq> 0) (bytes_of s @ 0 # p) = bytes_of s"
    "takeWhile (\<lambda>b. b \<noteq> 0) (bytes_of t) = bytes_of t"
    using z by (auto simp: takeWhile_append takeWhile_eq_all_conv)
  have b: "take n (bytes_of s @ [0]) = bytes_of s @ [0]" using assms(3) by simp
  show ?thesis
  proof (cases "length t < n")
    case True
    then have "take n (bytes_of t @ [0]) = bytes_of t @ [0]" by simp
    then show ?thesis using b bytes_of_inj by (auto simp: strncmp_eq_def a)
  next
    case False
    have "0 \<notin> set (take n (bytes_of t))" using z(2) in_set_takeD by metis
    then have "take n (bytes_of t @ [0]) \<noteq> bytes_of s @ [0]"
      using False by (metis in_set_conv_decomp length_bytes_of not_less take_all_iff take_append
          append_Nil2 diff_is_0_eq take0)
    moreover have "t \<noteq> s" using False assms(3) by auto
    ultimately show ?thesis using b by (simp add: strncmp_eq_def a)
  qed
qed

lemma name_scan_all:
  assumes "no_nul t" "\<forall>s \<in> set sns. no_nul (snap_nm s)"
  shows "name_scan (pre @ names_bytes sns) (length pre + length (names_bytes sns)) (bytes_of t) (length pre)
    = Some (if t \<in> snap_nm ` set sns then - EEXIST else 0)"
  using assms(2)
proof (induction sns arbitrary: pre)
  case Nil
  show ?case by (subst name_scan.simps) simp
next
  case (Cons s sns)
  let ?n = "bytes_of (snap_nm s)"
  have c: "c_string (pre @ ?n @ 0 # names_bytes sns) (length pre) = Some ?n"
    using Cons.prems by (intro c_string_at) simp
  have e: "strncmp_eq (Suc (length (snap_nm s) + length (names_bytes sns))) (?n @ 0 # names_bytes sns) (bytes_of t)
      \<longleftrightarrow> t = snap_nm s"
    using Cons.prems assms(1) by (intro strncmp_eq_names) simp_all
  have "name_scan ((pre @ ?n @ [0]) @ names_bytes sns) (length (pre @ ?n @ [0]) + length (names_bytes sns))
      (bytes_of t) (length (pre @ ?n @ [0])) = Some (if t \<in> snap_nm ` set sns then - EEXIST else 0)"
    using Cons.prems by (intro Cons.IH) simp
  then show ?case
    by (subst name_scan.simps) (simp add: c e add.assoc)
qed

lemma find_name_none:
  assumes "no_nul t" "\<forall>s \<in> set sns. no_nul (snap_nm s)" "t \<notin> snap_nm ` set sns"
  shows "find_name (pre @ names_bytes sns) (length pre + length (names_bytes sns)) (bytes_of t) (length pre) i
    = Some None"
  using assms(2,3)
proof (induction sns arbitrary: pre i)
  case Nil
  show ?case by (subst find_name.simps) simp
next
  case (Cons s sns)
  let ?n = "bytes_of (snap_nm s)"
  have c: "c_string (pre @ ?n @ 0 # names_bytes sns) (length pre) = Some ?n"
    using Cons.prems by (intro c_string_at) simp
  have "find_name ((pre @ ?n @ [0]) @ names_bytes sns) (length (pre @ ?n @ [0]) + length (names_bytes sns))
      (bytes_of t) (length (pre @ ?n @ [0])) (Suc i) = Some None"
    using Cons.prems by (intro Cons.IH) simp_all
  then show ?case
    using Cons.prems(2) by (subst find_name.simps) (auto simp: c add.assoc bytes_of_inj)
qed

lemma find_name_at:
  assumes "no_nul t" "\<forall>s \<in> set us. no_nul (snap_nm s)" "t \<notin> snap_nm ` set us" "snap_nm s = t"
  shows "find_name (pre @ names_bytes (us @ s # vs)) (length pre + length (names_bytes (us @ s # vs)))
      (bytes_of t) (length pre) i = Some (Some (i + length us, length pre + length (names_bytes us)))"
  using assms(2,3)
proof (induction us arbitrary: pre i)
  case Nil
  have "c_string (pre @ bytes_of t @ 0 # names_bytes vs) (length pre) = Some (bytes_of t)"
    using assms(1) by (intro c_string_at)
  then show ?case using assms(4) by (subst find_name.simps) simp
next
  case (Cons u us)
  let ?n = "bytes_of (snap_nm u)"
  have c: "c_string (pre @ ?n @ 0 # names_bytes us @ bytes_of (snap_nm s) @ 0 # names_bytes vs) (length pre) = Some ?n"
    using Cons.prems by (intro c_string_at) simp
  have "find_name ((pre @ ?n @ [0]) @ names_bytes (us @ s # vs))
      (length (pre @ ?n @ [0]) + length (names_bytes (us @ s # vs))) (bytes_of t) (length (pre @ ?n @ [0])) (Suc i)
      = Some (Some (Suc i + length us, length (pre @ ?n @ [0]) + length (names_bytes us)))"
    using Cons.prems by (intro Cons.IH) simp_all
  then show ?case
    using Cons.prems(2) by (subst find_name.simps) (auto simp: c add.assoc bytes_of_inj)
qed

subsection \<open>The methods on headers\<close>

lemma write_full_small:
  assumes "length bl < 2 ^ 31"
  shows "cls_write_full bl h = (0, h\<lparr>hc_new := Some (full_object (hc_new h) bl)\<rparr>)"
proof -
  have n: "unat (of_nat (length bl) :: u64) = length bl" using assms by (rule unat_small_u64)
  then have "check_offset_and_length 0 (of_nat (length bl)) osd_max_object_size = 0"
    using assms by (simp add: check_offset_and_length_def osd_max_object_size_def word_le_nat_alt word_less_nat_alt)
  then show ?thesis
    using n by (cases "hc_new h") (auto simp: cls_write_full_def op_write_full_def Let_def file_write_def
        file_truncate_def full_object_def fresh_object_def)
qed

text \<open>What adding and removing a snapshot means.\<close>

definition old_add_spec ::
    "string \<Rightarrow> u64 \<Rightarrow> rbd_obj_header_ondisk \<times> old_snap list \<Rightarrow> int \<times> rbd_obj_header_ondisk \<times> old_snap list" where
  "old_add_spec name i st = (case st of (hdr, sns) \<Rightarrow>
     if i < oh_snap_seq hdr then (- ESTALE, st)
     else if name \<in> snap_nm ` set sns then (- EEXIST, st)
     else (0, hdr\<lparr>oh_snap_seq := i\<rparr>, (i, oh_image_size hdr, name) # sns))"

definition old_remove_spec ::
    "string \<Rightarrow> rbd_obj_header_ondisk \<times> old_snap list \<Rightarrow> int \<times> rbd_obj_header_ondisk \<times> old_snap list" where
  "old_remove_spec name st = (case st of (hdr, sns) \<Rightarrow>
     if name \<notin> snap_nm ` set sns then (- ENOENT, st)
     else (0, hdr, filter (\<lambda>s. snap_nm s \<noteq> name) sns))"

lemma old_list:
  assumes "old_reprs hdr sns obs"
  shows "cls_call rbd_old_snapshots_list inp obs = Some (0, encode_u64 (oh_snap_seq hdr) @
     encode_u32 (of_nat (length sns)) @ concat (map list_item sns), obs)"
proof -
  let ?h = "\<lparr>hc_stored = obs, hc_new = obs\<rparr>" and ?pre = "ondisk_bytes (sealed hdr sns) @ ids_bytes sns"
  obtain ob where f: "old_fits hdr sns" and ob: "obs = Some ob" "od_data ob = old_bytes hdr sns"
    using assms by (auto simp: old_reprs_def)
  have rd: "snap_read_header ?h = Some (Inr (sealed hdr sns, old_bytes hdr sns))"
    using read_old_header [OF f, of ?h ob] ob by simp
  note reg = old_regions [OF f] and cnt = sealed_counts [OF f]
  have nm: "\<forall>s \<in> set sns. no_nul (snap_nm s)" and ok: "ondisk_ok hdr" using f by (simp_all add: old_fits_def)
  have sn: "ondisk_snaps (length sns) (drop 112 (old_bytes hdr sns)) = Some (map (\<lambda>s. (fst s, fst (snd s))) sns)"
    using ok by (simp add: old_bytes_def ondisk_snaps_ids)
  have "old_list_loop (old_bytes hdr sns) (length (old_bytes hdr sns)) (map (\<lambda>s. (fst s, fst (snd s))) sns)
      (112 + 16 * length sns) = Some (0, concat (map list_item sns))"
    using old_list_loop_all [OF nm, of ?pre] unfolding reg(3) [symmetric] reg(4)
    by (simp add: length_old_bytes ok)
  then show ?thesis
    unfolding cls_call_def rbd_old_snapshots_list_def rd option.case sum.case prod.case cnt
    by (simp add: reg(1,2) sn)
qed

lemma old_add:
  assumes r: "old_reprs hdr sns obs" and t: "no_nul name" "short name"
    and small: "112 + 16 * Suc (length sns) + (length name + 1 + length (names_bytes sns)) < 2 ^ 31"
    and spec: "old_add_spec name i (hdr, sns) = (rc, hdr', sns')"
  shows "\<exists>obs'. cls_call rbd_old_snapshot_add (encode_pair encode_string encode_u64 (name, i)) obs
     = Some (rc, [], obs') \<and> old_reprs hdr' sns' obs'"
proof -
  let ?h = "\<lparr>hc_stored = obs, hc_new = obs\<rparr>" and ?pre = "ondisk_bytes (sealed hdr sns) @ ids_bytes sns"
  let ?inp = "encode_pair encode_string encode_u64 (name, i)"
  obtain ob where f: "old_fits hdr sns" and ob: "obs = Some ob" "od_data ob = old_bytes hdr sns"
    using r by (auto simp: old_reprs_def)
  have rd: "snap_read_header ?h = Some (Inr (sealed hdr sns, old_bytes hdr sns))"
    using read_old_header [OF f, of ?h ob] ob by simp
  note reg = old_regions [OF f] and cnt = sealed_counts [OF f]
  have nm: "\<forall>s \<in> set sns. no_nul (snap_nm s)" and ok: "ondisk_ok hdr" using f by (simp_all add: old_fits_def)
  have dec: "decode_pair decode_string decode_u64 ?inp = Some ((name, i), [])"
    using t(2) by (simp add: decode_pair_def encode_pair_def cstr.dec_enc c64.dec_enc_end)
  have scan: "name_scan (old_bytes hdr sns) (length (old_bytes hdr sns)) (c_str name) (112 + 16 * length sns)
      = Some (if name \<in> snap_nm ` set sns then - EEXIST else 0)"
    using name_scan_all [OF t(1) nm, of ?pre] unfolding reg(3) [symmetric] reg(4)
    by (simp add: length_old_bytes ok c_str_no_nul t(1))
  note run = cls_call_def rbd_old_snapshot_add_def rd option.case sum.case prod.case dec
  consider "i < oh_snap_seq hdr" | "\<not> i < oh_snap_seq hdr" "name \<in> snap_nm ` set sns"
    | "\<not> i < oh_snap_seq hdr" "name \<notin> snap_nm ` set sns" by blast
  then show ?thesis
  proof cases
    case 1
    then have "rc = - ESTALE" "hdr' = hdr" "sns' = sns" using spec by (simp_all add: old_add_spec_def)
    then show ?thesis using 1 r unfolding run by simp
  next
    case 2
    then have "rc = - EEXIST" "hdr' = hdr" "sns' = sns" using spec by (simp_all add: old_add_spec_def)
    then show ?thesis using 2 r unfolding run reg(1,2) scan by simp
  next
    case 3
    then have sp: "rc = 0" "hdr' = hdr\<lparr>oh_snap_seq := i\<rparr>" "sns' = (i, oh_image_size hdr, name) # sns"
      using spec by (simp_all add: old_add_spec_def)
    have f': "old_fits hdr' sns'"
      using f t(1) 3(2) small by (auto simp: sp old_fits_def snap_nm_def ondisk_ok_def)
    have ids: "slice_of 112 (16 * length sns) (old_bytes hdr sns) = ids_bytes sns"
      using ok by (simp add: slice_of_def old_bytes_def)
    have nms: "slice_of (112 + 16 * length sns) (length (names_bytes sns)) (old_bytes hdr sns) = names_bytes sns"
      unfolding reg(3) slice_of_def using reg(4) by simp
    let ?hdr1 = "sealed hdr sns\<lparr>oh_snap_count := oh_snap_count (sealed hdr sns) + 1,
        oh_snap_names_len := oh_snap_names_len (sealed hdr sns) + of_nat (length (c_str name)) + 1,
        oh_snap_seq := i\<rparr>"
    have h1: "?hdr1 = sealed hdr' sns'"
      by (simp add: sealed_def sp snap_nm_def c_str_no_nul t(1) algebra_simps)
    have bl: "ondisk_bytes ?hdr1 @ (encode_u64 i @ encode_u64 (oh_image_size hdr) @ ids_bytes sns) @
        (c_str name @ [0] @ names_bytes sns) = old_bytes hdr' sns'"
      unfolding h1 by (simp add: old_bytes_def sp(3) snap_nm_def c_str_no_nul t(1))
    have "length (old_bytes hdr' sns') < 2 ^ 31"
      using f' by (simp add: old_fits_def length_old_bytes)
    then have w: "cls_write_full (old_bytes hdr' sns') ?h
        = (0, ?h\<lparr>hc_new := Some (full_object obs (old_bytes hdr' sns'))\<rparr>)"
      by (subst write_full_small) simp_all
    have "cls_call rbd_old_snapshot_add ?inp obs = Some (0, [], Some (full_object obs (old_bytes hdr' sns')))"
      unfolding run cnt reg(1) reg(2) Let_def scan using 3 bl w by (simp add: ids nms)
    then show ?thesis using f' sp(1) by (simp add: old_reprs_def)
  qed
qed

lemma take_append_exact: "length xs = n \<Longrightarrow> take n (xs @ ys) = xs"
  by simp

lemma slice_of_append: "length pre = ofs \<Longrightarrow> length x = len \<Longrightarrow> slice_of ofs len (pre @ x @ post) = x"
  by (simp add: slice_of_def)

lemma old_remove_found:
  assumes f: "old_fits hdr (us @ s # vs)" and ob: "obs = Some ob" "od_data ob = old_bytes hdr (us @ s # vs)"
    and t: "snap_nm s = name" "short name"
  shows "\<exists>obs'. cls_call rbd_old_snapshot_remove (encode_string name) obs = Some (0, [], obs') \<and>
     old_reprs hdr (us @ vs) obs'"
proof -
  let ?sns = "us @ s # vs" and ?h = "\<lparr>hc_stored = obs, hc_new = obs\<rparr>"
  let ?hdr = "sealed hdr ?sns" and ?bl = "old_bytes hdr ?sns"
  let ?pre = "ondisk_bytes ?hdr @ ids_bytes ?sns"
  have rd: "snap_read_header ?h = Some (Inr (?hdr, ?bl))"
    using read_old_header [OF f, of ?h ob] ob by simp
  note reg = old_regions [OF f] and cnt = sealed_counts [OF f]
  have nm: "\<forall>s \<in> set us. no_nul (snap_nm s)" "no_nul name" "name \<notin> snap_nm ` set us" and ok: "ondisk_ok hdr"
    using f t(1) by (auto simp: old_fits_def)
  have f': "old_fits hdr (us @ vs)" using f by (auto simp: old_fits_def)
  have bnd: "length us + length vs < 2 ^ 31" "length (names_bytes us) + length (names_bytes vs) < 2 ^ 31"
    using f' by (simp_all add: old_fits_def)
  have find: "find_name ?bl (length ?bl) (c_str name) (112 + 16 * length ?sns) 0
      = Some (Some (length us, 112 + 16 * length ?sns + length (names_bytes us)))"
    using find_name_at [OF nm(2,1,3) t(1), of ?pre vs 0] unfolding reg(3) [symmetric] reg(4)
    by (simp add: length_old_bytes ok c_str_no_nul nm(2) add.assoc)
  define hdr1 where "hdr1 = ?hdr\<lparr>oh_snap_names_len := oh_snap_names_len ?hdr - (of_nat (length name) + 1),
      oh_snap_count := oh_snap_count ?hdr - 1\<rparr>"
  have h1: "hdr1 = sealed hdr (us @ vs)"
    by (simp add: hdr1_def sealed_def t(1) algebra_simps)
  have c1: "unat (oh_snap_count hdr1) = length us + length vs"
    and n1: "unat (oh_snap_names_len hdr1) = length (names_bytes us) + length (names_bytes vs)"
    unfolding h1 using sealed_counts [OF f'] by simp_all
  have split: "?bl = ondisk_bytes ?hdr @ ids_bytes us @ (encode_u64 (fst s) @ encode_u64 (fst (snd s))) @ ids_bytes vs @
      names_bytes us @ (bytes_of name @ [0]) @ names_bytes vs"
    by (simp add: old_bytes_def t(1))
  let ?cur = "112 + 16 * length ?sns + length (names_bytes us)"
  have s1: "slice_of 112 (16 * length us) ?bl = ids_bytes us"
    unfolding split by (rule slice_of_append) (simp_all add: ok)
  have s2: "slice_of (112 + 16 * (length us + 1)) (16 * length vs) ?bl = ids_bytes vs"
    using slice_of_append [of "ondisk_bytes ?hdr @ ids_bytes us @ encode_u64 (fst s) @ encode_u64 (fst (snd s))"]
    unfolding split by (simp add: ok)
  have s3: "slice_of (112 + 16 * length ?sns) (length (names_bytes us)) ?bl = names_bytes us"
    using slice_of_append [of "ondisk_bytes ?hdr @ ids_bytes us @ (encode_u64 (fst s) @ encode_u64 (fst (snd s))) @ ids_bytes vs"]
    unfolding split by (simp add: ok)
  have s4: "slice_of (?cur + length name + 1) (length ?bl - (?cur + length name + 1)) ?bl = names_bytes vs"
    using slice_of_append [of "ondisk_bytes ?hdr @ ids_bytes us @ (encode_u64 (fst s) @ encode_u64 (fst (snd s))) @
        ids_bytes vs @ names_bytes us @ bytes_of name @ [0]" _ _ _ "[]"]
    unfolding split by (simp add: ok)
  define snaps1 where "snaps1 = slice_of 112 (16 * length us) ?bl @
      (if length us < length us + length vs
       then slice_of (112 + 16 * (length us + 1)) (16 * (length us + length vs - length us)) ?bl else [])"
  define names1 where "names1 = slice_of (112 + 16 * length ?sns) (?cur - (112 + 16 * length ?sns)) ?bl @
      (if length us < length us + length vs
       then slice_of (?cur + length name + 1) (length ?bl - (?cur + length name + 1)) ?bl else [])"
  have p: "snaps1 = ids_bytes us @ ids_bytes vs" "names1 = names_bytes us @ names_bytes vs"
    using s1 s2 s3 s4 by (auto simp: snaps1_def names1_def)
  have bl: "ondisk_bytes hdr1 @ snaps1 @ names1 = old_bytes hdr (us @ vs)"
    by (simp add: p h1 old_bytes_def)
  have empty: "ondisk_bytes hdr1 = old_bytes hdr (us @ vs)" if "length us + length vs = 0"
    using that by (simp add: h1 old_bytes_def)
  have small: "length (old_bytes hdr (us @ vs)) < 2 ^ 31" using f' by (simp add: old_fits_def length_old_bytes)
  note w = write_full_small [OF small, of ?h]
  have dec: "decode_string (encode_string name) = Some (name, [])" using t(2) by (rule cstr.dec_enc_end)
  have "cls_call rbd_old_snapshot_remove (encode_string name) obs
      = Some (0, [], Some (full_object obs (old_bytes hdr (us @ vs))))"
    unfolding cls_call_def rbd_old_snapshot_remove_def rd option.case sum.case prod.case dec reg(1,2) find
      Let_def hdr1_def [symmetric] c1 n1 snaps1_def [symmetric] names1_def [symmetric] bl
    using w empty by (cases "us = [] \<and> vs = []") (auto simp: p)
  then show ?thesis using f' by (simp add: old_reprs_def)
qed

lemma old_remove:
  assumes r: "old_reprs hdr sns obs" and t: "no_nul name" "short name"
    and spec: "old_remove_spec name (hdr, sns) = (rc, hdr', sns')"
  shows "\<exists>obs'. cls_call rbd_old_snapshot_remove (encode_string name) obs = Some (rc, [], obs') \<and>
     old_reprs hdr' sns' obs'"
proof -
  obtain ob where f: "old_fits hdr sns" and ob: "obs = Some ob" "od_data ob = old_bytes hdr sns"
    using r by (auto simp: old_reprs_def)
  show ?thesis
  proof (cases "name \<in> snap_nm ` set sns")
    case True
    then obtain us s vs where sns: "sns = us @ s # vs" "snap_nm s = name"
      by (metis imageE split_list)
    have "name \<notin> snap_nm ` set (us @ vs)" using f sns by (simp add: old_fits_def image_Un)
    then have "\<forall>u \<in> set (us @ vs). snap_nm u \<noteq> name" by (metis imageI)
    then have "filter (\<lambda>s. snap_nm s \<noteq> name) (us @ vs) = us @ vs" by (intro filter_True) blast
    then have "filter (\<lambda>s. snap_nm s \<noteq> name) sns = us @ vs" using sns by simp
    then have "rc = 0" "hdr' = hdr" "sns' = us @ vs" using spec True by (simp_all add: old_remove_spec_def)
    then show ?thesis using old_remove_found [OF f [unfolded sns(1)] ob [unfolded sns(1)] sns(2) t(2)] by simp
  next
    case False
    let ?h = "\<lparr>hc_stored = obs, hc_new = obs\<rparr>" and ?pre = "ondisk_bytes (sealed hdr sns) @ ids_bytes sns"
    have rd: "snap_read_header ?h = Some (Inr (sealed hdr sns, old_bytes hdr sns))"
      using read_old_header [OF f, of ?h ob] ob by simp
    note reg = old_regions [OF f]
    have nm: "\<forall>s \<in> set sns. no_nul (snap_nm s)" and ok: "ondisk_ok hdr" using f by (simp_all add: old_fits_def)
    have find: "find_name (old_bytes hdr sns) (length (old_bytes hdr sns)) (c_str name) (112 + 16 * length sns) 0
        = Some None"
      using find_name_none [OF t(1) nm False, of ?pre 0] unfolding reg(3) [symmetric] reg(4)
      by (simp add: length_old_bytes ok c_str_no_nul t(1))
    have dec: "decode_string (encode_string name) = Some (name, [])" using t(2) by (rule cstr.dec_enc_end)
    have "rc = - ENOENT" "hdr' = hdr" "sns' = sns" using spec False by (simp_all add: old_remove_spec_def)
    then show ?thesis
      using r unfolding cls_call_def rbd_old_snapshot_remove_def rd option.case sum.case prod.case dec reg(1,2) find
      by simp
  qed
qed

text \<open>C14. The class methods of format 1 headers keep the list of snapshots that the header's bytes stand
  for: the listing is the sequence number, the count and the snapshots, newest first; an addition
  fails with \<open>-ESTALE\<close> for an id below the sequence number and with \<open>-EEXIST\<close> for a name that is
  there, and otherwise puts the snapshot first, with the size of the image; a removal fails with
  \<open>-ENOENT\<close> for a name that is not there and otherwise takes exactly that snapshot out. No run leaves
  the buffer.\<close>

theorem old_snapshots_exact:
  assumes "old_reprs hdr sns obs" "no_nul name" "short name"
    "112 + 16 * Suc (length sns) + (length name + 1 + length (names_bytes sns)) < 2 ^ 31"
  shows "cls_call rbd_old_snapshots_list inp obs = Some (0, encode_u64 (oh_snap_seq hdr) @
       encode_u32 (of_nat (length sns)) @ concat (map list_item sns), obs) \<and>
     (case old_add_spec name i (hdr, sns) of (r, hdr', sns') \<Rightarrow>
       \<exists>obs'. cls_call rbd_old_snapshot_add (encode_pair encode_string encode_u64 (name, i)) obs = Some (r, [], obs')
         \<and> old_reprs hdr' sns' obs') \<and>
     (case old_remove_spec name (hdr, sns) of (r, hdr', sns') \<Rightarrow>
       \<exists>obs'. cls_call rbd_old_snapshot_remove (encode_string name) obs = Some (r, [], obs')
         \<and> old_reprs hdr' sns' obs')"
  using old_list [OF assms(1)] old_add [OF assms] old_remove [OF assms(1-3)] by (simp split: prod.split)

definition demo_ondisk :: rbd_obj_header_ondisk where
  "demo_ondisk = \<lparr>oh_text = replicate 40 0, oh_block_name = replicate 24 0, oh_signature = replicate 4 0,
     oh_version = replicate 8 0, oh_order = 22, oh_crypt_type = 0, oh_comp_type = 0, oh_unused = 0,
     oh_image_size = 4096, oh_snap_seq = 5, oh_snap_count = 0, oh_reserved = 0, oh_snap_names_len = 0\<rparr>"

lemma old_snapshots_exact_witness:
  "\<exists>obs obs'. old_reprs demo_ondisk [(5, 1024, ''b''), (2, 512, ''a'')] obs \<and>
     cls_call rbd_old_snapshot_remove (encode_string ''a'') obs = Some (0, [], obs') \<and>
     old_reprs demo_ondisk [(5, 1024, ''b'')] obs'"
proof -
  let ?sns = "[(5, 1024, ''b''), (2, 512, ''a'')] :: old_snap list"
  let ?obs = "Some (fresh_object\<lparr>od_data := old_bytes demo_ondisk ?sns\<rparr>)"
  have n: "no_nul ''a''" "no_nul ''b''" by (simp_all add: no_nul_def bytes_of_def)
  have r: "old_reprs demo_ondisk ?sns ?obs"
    using n by (simp add: old_reprs_def old_fits_def ondisk_ok_def demo_ondisk_def snap_nm_def)
  have "old_remove_spec ''a'' (demo_ondisk, ?sns) = (0, demo_ondisk, [(5, 1024, ''b'')])"
    by (simp add: old_remove_spec_def snap_nm_def)
  then show ?thesis
    using old_snapshots_exact [OF r n(1), of "[]" 0] r by (auto simp: short_def snap_nm_def)
qed

end
