(* ===== verification/Cls_Client.thy ===== *)
theory Cls_Client
  imports Cls_Header_Props Cls_Directory_Props Cls_Children Old_Header
begin

text \<open>
  The client's side of the class methods (\<open>cls/rbd/cls_rbd_client.cc\<close>): each function encodes its
  arguments, sends a class call to an object of a pool, and decodes the answer. The state is the pool
  and the fates of the next requests: a negative number is the error of a request that does not reach
  the object, and when the list is at its end every request reaches it. A compound read is a list of
  calls whose outputs follow each other. The lemmas say what the functions return on an object that
  encodes a header, a directory or the children of parents.
\<close>

subsection \<open>Requests\<close>

type_synonym io = "int list \<times> pool"

definition fault_of :: "io \<Rightarrow> int" where
  "fault_of st = (case fst st of [] \<Rightarrow> 0 | f # fs \<Rightarrow> f)"

definition request :: "(int \<Rightarrow> pool \<Rightarrow> ('a \<times> pool) option) \<Rightarrow> io \<Rightarrow> ('a \<times> io) option" where
  "request f st = map_option (\<lambda>(x, p). (x, (tl (fst st), p))) (f (fault_of st) (snd st))"

fun exec_calls ::
    "(cls_method \<times> bytes) list \<Rightarrow> osd_object option \<Rightarrow> (int \<times> bytes \<times> osd_object option) option" where
  "exec_calls [] obs = Some (0, [], obs)"
| "exec_calls ((meth, inp) # cs) obs =
     (case cls_call meth inp obs of
        None \<Rightarrow> None
      | Some (r, out, obs1) \<Rightarrow>
          if r < 0 then Some (r, out, obs1)
          else map_option (\<lambda>(r', out', obs2). (if cs = [] then r else r', out @ out', obs2)) (exec_calls cs obs1))"

definition rados_calls ::
    "int \<Rightarrow> string \<Rightarrow> (cls_method \<times> bytes) list \<Rightarrow> pool \<Rightarrow> ((int \<times> bytes) \<times> pool) option" where
  "rados_calls fault oid cs p =
     (if fault < 0 then Some ((fault, []), p)
      else map_option (\<lambda>(r, out, obs). ((r, out), if r < 0 then p else p(oid := obs))) (exec_calls cs (p oid)))"

definition io_exec :: "string \<Rightarrow> cls_method \<Rightarrow> bytes \<Rightarrow> io \<Rightarrow> ((int \<times> bytes) \<times> io) option" where
  "io_exec oid meth inp = request (\<lambda>f. rados_calls f oid [(meth, inp)])"

definition io_operate_read :: "string \<Rightarrow> (cls_method \<times> bytes) list \<Rightarrow> io \<Rightarrow> ((int \<times> bytes) \<times> io) option" where
  "io_operate_read oid cs st =
     (if cs = [] then Some ((0, []), st) else request (\<lambda>f. rados_calls f oid cs) st)"

text \<open>A call without an answer, and one whose answer is decoded.\<close>

definition io_call :: "string \<Rightarrow> cls_method \<Rightarrow> bytes \<Rightarrow> io \<Rightarrow> (int \<times> io) option" where
  "io_call oid meth inp st = map_option (\<lambda>((r, _), st). (r, st)) (io_exec oid meth inp st)"

definition answer :: "(bytes \<Rightarrow> ('a \<times> bytes) option) \<Rightarrow> int \<times> bytes \<Rightarrow> int + 'a" where
  "answer dec res =
     (case res of (r, out) \<Rightarrow>
        if r < 0 then Inl r else (case dec out of None \<Rightarrow> Inl (- EBADMSG) | Some (x, _) \<Rightarrow> Inr x))"

definition io_ask ::
    "string \<Rightarrow> cls_method \<Rightarrow> bytes \<Rightarrow> (bytes \<Rightarrow> ('a \<times> bytes) option) \<Rightarrow> io \<Rightarrow> ((int + 'a) \<times> io) option" where
  "io_ask oid meth inp dec st = map_option (\<lambda>(res, st). (answer dec res, st)) (io_exec oid meth inp st)"

subsection \<open>Headers\<close>

definition cl_get_immutable_metadata :: "string \<Rightarrow> io \<Rightarrow> ((int + u8 \<times> string) \<times> io) option" where
  "cl_get_immutable_metadata oid st =
     map_option (\<lambda>(res, st). (map_sum id (\<lambda>(order, sz, object_prefix). (order, object_prefix))
         (answer (decode_pair decode_u8 (decode_pair decode_u64 decode_string)) res), st))
       (io_operate_read oid [(rbd_get_size, encode_u64 CEPH_NOSNAP), (rbd_get_object_prefix, [])] st)"

definition cl_create_image :: "string \<Rightarrow> u64 \<Rightarrow> u8 \<Rightarrow> u64 \<Rightarrow> string \<Rightarrow> io \<Rightarrow> (int \<times> io) option" where
  "cl_create_image oid sz order features object_prefix =
     io_call oid rbd_create (create_args sz order features object_prefix)"

definition cl_get_features :: "string \<Rightarrow> u64 \<Rightarrow> io \<Rightarrow> ((int + u64) \<times> io) option" where
  "cl_get_features oid snap_id = io_ask oid rbd_get_features (encode_u64 snap_id) decode_u64"

definition cl_get_object_prefix :: "string \<Rightarrow> io \<Rightarrow> ((int + string) \<times> io) option" where
  "cl_get_object_prefix oid = io_ask oid rbd_get_object_prefix [] decode_string"

definition cl_get_size :: "string \<Rightarrow> u64 \<Rightarrow> io \<Rightarrow> ((int + u8 \<times> u64) \<times> io) option" where
  "cl_get_size oid snap_id = io_ask oid rbd_get_size (encode_u64 snap_id) (decode_pair decode_u8 decode_u64)"

definition cl_set_size :: "string \<Rightarrow> u64 \<Rightarrow> io \<Rightarrow> (int \<times> io) option" where
  "cl_set_size oid sz = io_call oid rbd_set_size (encode_u64 sz)"

text \<open>The fields of a parent in the order of the answer: pool, image, snapshot, overlap.\<close>

definition decode_parent_fields :: "bytes \<Rightarrow> ((u64 \<times> string \<times> u64 \<times> u64) \<times> bytes) option" where
  "decode_parent_fields = decode_pair decode_u64 (decode_pair decode_string (decode_pair decode_u64 decode_u64))"

definition cl_get_parent :: "string \<Rightarrow> u64 \<Rightarrow> io \<Rightarrow> ((int + u64 \<times> string \<times> u64 \<times> u64) \<times> io) option" where
  "cl_get_parent oid snap_id = io_ask oid rbd_get_parent (encode_u64 snap_id) decode_parent_fields"

definition cl_set_parent :: "string \<Rightarrow> u64 \<Rightarrow> string \<Rightarrow> u64 \<Rightarrow> u64 \<Rightarrow> io \<Rightarrow> (int \<times> io) option" where
  "cl_set_parent oid pool_id image_id snap_id overlap =
     io_call oid rbd_set_parent (call_args (SetParent pool_id image_id snap_id overlap))"

definition cl_remove_parent :: "string \<Rightarrow> io \<Rightarrow> (int \<times> io) option" where
  "cl_remove_parent oid = io_call oid rbd_remove_parent []"

definition cl_snapshot_add :: "string \<Rightarrow> u64 \<Rightarrow> string \<Rightarrow> io \<Rightarrow> (int \<times> io) option" where
  "cl_snapshot_add oid snap_id snap_name = io_call oid rbd_snapshot_add (call_args (SnapAdd snap_name snap_id))"

definition cl_snapshot_remove :: "string \<Rightarrow> u64 \<Rightarrow> io \<Rightarrow> (int \<times> io) option" where
  "cl_snapshot_remove oid snap_id = io_call oid rbd_snapshot_remove (encode_u64 snap_id)"

text \<open>\<open>SnapContext::is_valid\<close>: the sequence number bounds the ids, and these descend.\<close>

fun descends :: "u64 \<Rightarrow> u64 list \<Rightarrow> bool" where
  "descends t [] \<longleftrightarrow> True"
| "descends t (s # ss) \<longleftrightarrow> s < t \<and> t \<noteq> 0 \<and> descends s ss"

definition snapc_is_valid :: "u64 \<times> u64 list \<Rightarrow> bool" where
  "snapc_is_valid sc \<longleftrightarrow>
     (case sc of (sq, snaps) \<Rightarrow>
        sq \<le> CEPH_MAXSNAP \<and>
        (case snaps of [] \<Rightarrow> True | s # ss \<Rightarrow> s \<le> sq \<and> descends s ss))"

fun decode_ids :: "nat \<Rightarrow> bytes \<Rightarrow> (u64 list \<times> bytes) option" where
  "decode_ids 0 p = Some ([], p)"
| "decode_ids (Suc n) p =
     (case decode_u64 p of None \<Rightarrow> None
      | Some (x, p) \<Rightarrow> map_option (\<lambda>(xs, p). (x # xs, p)) (decode_ids n p))"

definition decode_snapc :: "bytes \<Rightarrow> ((u64 \<times> u64 list) \<times> bytes) option" where
  "decode_snapc =
     decode_pair decode_u64 (\<lambda>p. case decode_u32 p of None \<Rightarrow> None | Some (n, p) \<Rightarrow> decode_ids (unat n) p)"

definition cl_get_snapcontext :: "string \<Rightarrow> io \<Rightarrow> ((int + u64 \<times> u64 list) \<times> io) option" where
  "cl_get_snapcontext oid st =
     map_option (\<lambda>(a, st). (case a of Inl r \<Rightarrow> Inl r
                            | Inr sc \<Rightarrow> if snapc_is_valid sc then Inr sc else Inl (- EBADMSG), st))
       (io_ask oid rbd_get_snapcontext [] decode_snapc st)"


text \<open>What a listing of snapshots says of each: name, order and size, features and incompatible
  features, parent, protection status.\<close>

type_synonym snap_answer = "string \<times> (u8 \<times> u64) \<times> (u64 \<times> u64) \<times> (u64 \<times> string \<times> u64 \<times> u64) \<times> u8"

definition decode_snap_answer :: "bytes \<Rightarrow> (snap_answer \<times> bytes) option" where
  "decode_snap_answer =
     decode_pair decode_string (decode_pair (decode_pair decode_u8 decode_u64)
       (decode_pair (decode_pair decode_u64 decode_u64) (decode_pair decode_parent_fields decode_u8)))"

fun decode_snap_answers :: "nat \<Rightarrow> bytes \<Rightarrow> (snap_answer list \<times> bytes) option" where
  "decode_snap_answers 0 p = Some ([], p)"
| "decode_snap_answers (Suc n) p =
     (case decode_snap_answer p of None \<Rightarrow> None
      | Some (a, p) \<Rightarrow> map_option (\<lambda>(as, p). (a # as, p)) (decode_snap_answers n p))"

definition snap_calls :: "u64 \<Rightarrow> (cls_method \<times> bytes) list" where
  "snap_calls snap_id =
     [(rbd_get_snapshot_name, encode_u64 snap_id), (rbd_get_size, encode_u64 snap_id),
      (rbd_get_features, encode_u64 snap_id), (rbd_get_parent, encode_u64 snap_id),
      (rbd_get_protection_status, encode_u64 snap_id)]"

definition cl_snapshot_list :: "string \<Rightarrow> u64 list \<Rightarrow> io \<Rightarrow> ((int + snap_answer list) \<times> io) option" where
  "cl_snapshot_list oid ids st =
     map_option (\<lambda>(res, st). (answer (decode_snap_answers (length ids)) res, st))
       (io_operate_read oid (concat (map snap_calls ids)) st)"

definition cl_get_protection_status :: "string \<Rightarrow> u64 \<Rightarrow> io \<Rightarrow> ((int + u8) \<times> io) option" where
  "cl_get_protection_status oid snap_id = io_ask oid rbd_get_protection_status (encode_u64 snap_id) decode_u8"

definition cl_set_protection_status :: "string \<Rightarrow> u64 \<Rightarrow> u8 \<Rightarrow> io \<Rightarrow> (int \<times> io) option" where
  "cl_set_protection_status oid snap_id status =
     io_call oid rbd_set_protection_status (call_args (SetProtection snap_id status))"

definition cl_get_stripe_unit_count :: "string \<Rightarrow> io \<Rightarrow> ((int + u64 \<times> u64) \<times> io) option" where
  "cl_get_stripe_unit_count oid = io_ask oid rbd_get_stripe_unit_count [] (decode_pair decode_u64 decode_u64)"

definition cl_set_stripe_unit_count :: "string \<Rightarrow> u64 \<Rightarrow> u64 \<Rightarrow> io \<Rightarrow> (int \<times> io) option" where
  "cl_set_stripe_unit_count oid unit count = io_call oid rbd_set_stripe_unit_count (call_args (SetStripe unit count))"

subsection \<open>Format 1 headers\<close>

definition cl_old_snapshot_add :: "string \<Rightarrow> u64 \<Rightarrow> string \<Rightarrow> io \<Rightarrow> (int \<times> io) option" where
  "cl_old_snapshot_add oid snap_id snap_name =
     io_call oid rbd_old_snapshot_add (encode_pair encode_string encode_u64 (snap_name, snap_id))"

definition cl_old_snapshot_remove :: "string \<Rightarrow> string \<Rightarrow> io \<Rightarrow> (int \<times> io) option" where
  "cl_old_snapshot_remove oid snap_name = io_call oid rbd_old_snapshot_remove (encode_string snap_name)"

fun decode_old_items :: "nat \<Rightarrow> bytes \<Rightarrow> (old_snap list \<times> bytes) option" where
  "decode_old_items 0 p = Some ([], p)"
| "decode_old_items (Suc n) p =
     (case decode_pair decode_u64 (decode_pair decode_u64 decode_string) p of None \<Rightarrow> None
      | Some (s, p) \<Rightarrow> map_option (\<lambda>(ss, p). (s # ss, p)) (decode_old_items n p))"

definition decode_old_list :: "bytes \<Rightarrow> ((u64 \<times> old_snap list) \<times> bytes) option" where
  "decode_old_list =
     decode_pair decode_u64 (\<lambda>p. case decode_u32 p of None \<Rightarrow> None | Some (n, p) \<Rightarrow> decode_old_items (unat n) p)"

definition cl_old_snapshot_list :: "string \<Rightarrow> io \<Rightarrow> ((int + u64 \<times> old_snap list) \<times> io) option" where
  "cl_old_snapshot_list oid = io_ask oid rbd_old_snapshots_list [] decode_old_list"

subsection \<open>Children\<close>

definition cl_add_child :: "string \<Rightarrow> parent_ref \<Rightarrow> string \<Rightarrow> io \<Rightarrow> (int \<times> io) option" where
  "cl_add_child oid pspec c_imageid = io_call oid rbd_add_child (encode_ref_child (pspec, c_imageid))"

definition cl_remove_child :: "string \<Rightarrow> parent_ref \<Rightarrow> string \<Rightarrow> io \<Rightarrow> (int \<times> io) option" where
  "cl_remove_child oid pspec c_imageid = io_call oid rbd_remove_child (encode_ref_child (pspec, c_imageid))"

definition cl_get_children :: "string \<Rightarrow> parent_ref \<Rightarrow> io \<Rightarrow> ((int + string list) \<times> io) option" where
  "cl_get_children oid pspec = io_ask oid rbd_get_children (encode_ref pspec) decode_set"

subsection \<open>Ids and the directory\<close>

definition cl_get_id :: "string \<Rightarrow> io \<Rightarrow> ((int + string) \<times> io) option" where
  "cl_get_id oid = io_ask oid rbd_get_id [] decode_string"

definition cl_set_id :: "string \<Rightarrow> string \<Rightarrow> io \<Rightarrow> (int \<times> io) option" where
  "cl_set_id oid image_id = io_call oid rbd_set_id (encode_string image_id)"

definition cl_dir_get_id :: "string \<Rightarrow> string \<Rightarrow> io \<Rightarrow> ((int + string) \<times> io) option" where
  "cl_dir_get_id oid name = io_ask oid rbd_dir_get_id (encode_string name) decode_string"

definition cl_dir_get_name :: "string \<Rightarrow> string \<Rightarrow> io \<Rightarrow> ((int + string) \<times> io) option" where
  "cl_dir_get_name oid image_id = io_ask oid rbd_dir_get_name (encode_string image_id) decode_string"

fun decode_images_loop :: "nat \<Rightarrow> dir \<Rightarrow> bytes \<Rightarrow> (dir \<times> bytes) option" where
  "decode_images_loop 0 m p = Some (m, p)"
| "decode_images_loop (Suc n) m p =
     (case decode_pair decode_string decode_string p of None \<Rightarrow> None
      | Some ((k, v), p) \<Rightarrow> decode_images_loop n (smap_put k v m) p)"

definition decode_images :: "bytes \<Rightarrow> (dir \<times> bytes) option" where
  "decode_images p = (case decode_u32 p of None \<Rightarrow> None | Some (n, p) \<Rightarrow> decode_images_loop (unat n) [] p)"

definition cl_dir_list :: "string \<Rightarrow> string \<Rightarrow> u64 \<Rightarrow> io \<Rightarrow> ((int + dir) \<times> io) option" where
  "cl_dir_list oid start max_return =
     io_ask oid rbd_dir_list (encode_pair encode_string encode_u64 (start, max_return)) decode_images"

definition cl_dir_add_image :: "string \<Rightarrow> string \<Rightarrow> string \<Rightarrow> io \<Rightarrow> (int \<times> io) option" where
  "cl_dir_add_image oid name image_id = io_call oid rbd_dir_add_image (dir_args (DirAdd name image_id))"

definition cl_dir_remove_image :: "string \<Rightarrow> string \<Rightarrow> string \<Rightarrow> io \<Rightarrow> (int \<times> io) option" where
  "cl_dir_remove_image oid name image_id = io_call oid rbd_dir_remove_image (dir_args (DirRemove name image_id))"

definition cl_dir_rename_image :: "string \<Rightarrow> string \<Rightarrow> string \<Rightarrow> string \<Rightarrow> io \<Rightarrow> (int \<times> io) option" where
  "cl_dir_rename_image oid src dest image_id =
     io_call oid rbd_dir_rename_image (dir_args (DirRename src dest image_id))"


subsection \<open>Runs of requests\<close>

lemma io_call_run:
  assumes "cls_call meth inp (p oid) = Some (r, out, obs)"
  shows "io_call oid meth inp (fs, p) =
     (if fault_of (fs, p) < 0 then Some (fault_of (fs, p), (tl fs, p))
      else Some (r, (tl fs, if r < 0 then p else p(oid := obs))))"
  using assms by (simp add: io_call_def io_exec_def request_def rados_calls_def)

lemma io_ask_run:
  assumes "cls_call meth inp (p oid) = Some (r, out, p oid)"
  shows "io_ask oid meth inp dec (fs, p) =
     (if fault_of (fs, p) < 0 then Some (Inl (fault_of (fs, p)), (tl fs, p))
      else Some (answer dec (r, out), (tl fs, p)))"
  using assms by (simp add: io_ask_def io_exec_def request_def rados_calls_def answer_def fun_upd_idem)

lemma fault_none [simp]: "fault_of ([], p) = 0"
  by (simp add: fault_of_def)

lemma answer_simps [simp]:
  "answer dec (0, out) = (case dec out of None \<Rightarrow> Inl (- EBADMSG) | Some (x, _) \<Rightarrow> Inr x)"
  "r < 0 \<Longrightarrow> answer dec (r, out) = Inl r"
  by (simp_all add: answer_def)

text \<open>The calls that change a header, as the client sends them.\<close>

lemma header_call_forms:
  "cl_set_size oid sz = io_call oid (call_method (SetSize sz)) (call_args (SetSize sz))"
  "cl_set_parent oid pool img i ov = io_call oid (call_method (SetParent pool img i ov)) (call_args (SetParent pool img i ov))"
  "cl_remove_parent oid = io_call oid (call_method RemoveParent) (call_args RemoveParent)"
  "cl_snapshot_add oid i name = io_call oid (call_method (SnapAdd name i)) (call_args (SnapAdd name i))"
  "cl_snapshot_remove oid i = io_call oid (call_method (SnapRemove i)) (call_args (SnapRemove i))"
  "cl_set_protection_status oid i stat = io_call oid (call_method (SetProtection i stat)) (call_args (SetProtection i stat))"
  "cl_set_stripe_unit_count oid u k = io_call oid (call_method (SetStripe u k)) (call_args (SetStripe u k))"
  by (simp_all add: cl_set_size_def cl_set_parent_def cl_remove_parent_def cl_snapshot_add_def
      cl_snapshot_remove_def cl_set_protection_status_def cl_set_stripe_unit_count_def)

lemma io_call_effect:
  assumes c: "cls_call meth inp (p oid) = Some (r, out, obs)" and R: "R obs"
  shows "\<exists>p'. (\<forall>fs. io_call oid meth inp (fs, p) =
      (if fault_of (fs, p) < 0 then Some (fault_of (fs, p), (tl fs, p)) else Some (r, (tl fs, p'))))
    \<and> R (p' oid) \<and> (\<forall>o'. o' \<noteq> oid \<longrightarrow> p' o' = p o') \<and> (r < 0 \<longrightarrow> p' = p)"
proof (cases "r < 0")
  case True
  then have "obs = p oid" using c by (auto simp: cls_call_def split: option.splits)
  then show ?thesis using True R io_call_run [where p = p and oid = oid, OF c] by auto
next
  case False
  then show ?thesis
    using R io_call_run [where p = p and oid = oid, OF c] by (intro exI [of _ "p(oid := obs)"]) auto
qed

lemma header_call_run:
  assumes "reprs hdr (p oid)" "header_ok hdr" "call_fits c" "header_spec c hdr = (r, hdr')"
  shows "\<exists>p'. (\<forall>fs. io_call oid (call_method c) (call_args c) (fs, p) =
      (if fault_of (fs, p) < 0 then Some (fault_of (fs, p), (tl fs, p)) else Some (r, (tl fs, p'))))
    \<and> (reprs hdr' (p' oid) \<and> header_ok hdr') \<and> (\<forall>o'. o' \<noteq> oid \<longrightarrow> p' o' = p o') \<and> (r < 0 \<longrightarrow> p' = p)"
proof -
  obtain obs where "cls_call (call_method c) (call_args c) (p oid) = Some (r, [], obs)" "reprs hdr' obs"
    using method_refines [OF assms(1-3)] assms(4) by (auto simp: refines_def)
  then show ?thesis using header_spec_ok [OF assms(2,3,4)] by (intro io_call_effect) simp_all
qed

lemma dir_call_forms:
  "cl_dir_add_image oid n i = io_call oid (dir_method (DirAdd n i)) (dir_args (DirAdd n i))"
  "cl_dir_remove_image oid n i = io_call oid (dir_method (DirRemove n i)) (dir_args (DirRemove n i))"
  "cl_dir_rename_image oid n n' i = io_call oid (dir_method (DirRename n n' i)) (dir_args (DirRename n n' i))"
  by (simp_all add: cl_dir_add_image_def cl_dir_remove_image_def cl_dir_rename_image_def)

lemma dir_call_run:
  assumes "dir_reprs d (p oid)" "dir_ok d" "dir_fits c" "dir_spec c d = (r, d')"
  shows "\<exists>p'. (\<forall>fs. io_call oid (dir_method c) (dir_args c) (fs, p) =
      (if fault_of (fs, p) < 0 then Some (fault_of (fs, p), (tl fs, p)) else Some (r, (tl fs, p'))))
    \<and> (dir_reprs d' (p' oid) \<and> dir_ok d') \<and> (\<forall>o'. o' \<noteq> oid \<longrightarrow> p' o' = p o') \<and> (r < 0 \<longrightarrow> p' = p)"
proof -
  obtain obs where "cls_call (dir_method c) (dir_args c) (p oid) = Some (r, [], obs)" "dir_reprs d' obs"
    using dir_method_refines [OF assms(1-3)] assms(4) by (auto simp: dir_refines_def)
  then show ?thesis using dir_spec_ok [OF assms(2,3,4)] by (intro io_call_effect) simp_all
qed

subsection \<open>Reading a header back\<close>

lemma decode_ids_enc: "decode_ids (length xs) (concat (map encode_u64 xs) @ p) = Some (xs, p)"
  by (induction xs) (simp_all add: c64.dec_enc)

lemma decode_snapc_enc:
  assumes "short ids"
  shows "decode_snapc (encode_u64 sq @ encode_ids ids) = Some ((sq, ids), [])"
proof -
  have "unat (of_nat (length ids) :: u32) = length ids" using assms by (rule unat_short)
  then show ?thesis
    using decode_ids_enc [of ids "[]"]
    by (simp add: decode_snapc_def decode_pair_def encode_ids_def c64.dec_enc c32.dec_enc)
qed

definition snap_answer_of :: "u8 \<Rightarrow> header \<Rightarrow> u64 \<Rightarrow> cls_rbd_snap \<Rightarrow> snap_answer" where
  "snap_answer_of order hdr i s =
     (cs_name s, (order, cs_image_size s), (cs_features s, cs_features s AND RBD_FEATURES_INCOMPATIBLE),
      (let p = seen_parent hdr i in (cp_pool p, cp_id p, cp_snapid p, cp_overlap p)), cs_protection_status s)"

definition snap_reply :: "u8 \<Rightarrow> header \<Rightarrow> u64 \<Rightarrow> cls_rbd_snap \<Rightarrow> bytes" where
  "snap_reply order hdr i s = encode_string (cs_name s) @ (encode_u8 order @ encode_u64 (cs_image_size s)) @
     (encode_u64 (cs_features s) @ encode_u64 (cs_features s AND RBD_FEATURES_INCOMPATIBLE)) @
     parent_fields (seen_parent hdr i) @ encode_u8 (cs_protection_status s)"

lemma decode_parent_fields_enc:
  "parent_fits pa \<Longrightarrow> decode_parent_fields (parent_fields pa @ p)
     = Some ((cp_pool pa, cp_id pa, cp_snapid pa, cp_overlap pa), p)"
  by (simp add: decode_parent_fields_def parent_fields_def decode_pair_def c64.dec_enc cstr.dec_enc
      parent_fits_def small_short)

lemma stored_snap_fits: "header_ok hdr \<Longrightarrow> map_of (h_snaps hdr) i = Some s \<Longrightarrow> snap_fits s"
  by (frule map_of_SomeD) (auto simp: header_ok_def snap_entry_ok_def)

lemma seen_parent_fits: "header_ok hdr \<Longrightarrow> parent_fits (seen_parent hdr i)"
  using stored_snap_fits [of hdr i]
  by (auto simp: seen_parent_def header_ok_def parent_ok_def snap_fits_def new_cls_rbd_parent_def
      parent_fits_def small_string_def split: option.split)

lemma decode_snap_answer_enc:
  assumes "header_ok hdr" "map_of (h_snaps hdr) i = Some s"
  shows "decode_snap_answer (snap_reply order hdr i s @ p) = Some (snap_answer_of order hdr i s, p)"
proof -
  have "short (cs_name s)"
    using stored_snap_fits [OF assms] by (simp add: snap_fits_def small_short)
  then show ?thesis
    using seen_parent_fits [OF assms(1), of i]
    by (simp add: decode_snap_answer_def snap_reply_def snap_answer_of_def decode_pair_def Let_def
        c64.dec_enc c8.dec_enc cstr.dec_enc decode_parent_fields_enc)
qed

lemma snap_calls_reply:
  assumes "reprs hdr obs" "header_ok hdr" "map_of (h_snaps hdr) i = Some s"
  shows "exec_calls (snap_calls i @ cs) obs =
     map_option (\<lambda>(r, out, obs'). (r, snap_reply (h_order hdr) hdr i s @ out, obs')) (exec_calls cs obs)"
proof -
  have i: "i \<noteq> CEPH_NOSNAP"
    using assms(2) map_of_SomeD [OF assms(3)]
    by (auto simp: header_ok_def snap_entry_ok_def CEPH_NOSNAP_def CEPH_MAXSNAP_def)
  note q = header_queries [OF assms(1,2), of i]
  have "cls_call rbd_get_snapshot_name (encode_u64 i) obs = Some (0, encode_string (cs_name s), obs)"
    "cls_call rbd_get_size (encode_u64 i) obs = Some (0, encode_u8 (h_order hdr) @ encode_u64 (cs_image_size s), obs)"
    "cls_call rbd_get_features (encode_u64 i) obs = Some (0, encode_u64 (cs_features s) @
       encode_u64 (cs_features s AND RBD_FEATURES_INCOMPATIBLE), obs)"
    "cls_call rbd_get_parent (encode_u64 i) obs = Some (0, parent_fields (seen_parent hdr i), obs)"
    "cls_call rbd_get_protection_status (encode_u64 i) obs = Some (0, encode_u8 (cs_protection_status s), obs)"
    using q i assms(3) by (simp_all add: seen_size_def seen_features_def)
  then show ?thesis
    by (cases "exec_calls cs obs") (auto simp: snap_calls_def snap_reply_def split: prod.split)
qed


lemma snap_calls_replies:
  assumes "reprs hdr obs" "header_ok hdr" "\<forall>(i, s) \<in> set sns. map_of (h_snaps hdr) i = Some s"
  shows "exec_calls (concat (map (\<lambda>e. snap_calls (fst e)) sns)) obs =
     Some (0, concat (map (\<lambda>(i, s). snap_reply (h_order hdr) hdr i s) sns), obs)"
  using assms(3)
proof (induction sns)
  case Nil
  then show ?case by simp
next
  case (Cons e sns)
  then show ?case using snap_calls_reply [OF assms(1,2)] by (cases e) simp
qed

lemma decode_snap_answers_enc:
  assumes "header_ok hdr" "\<forall>(i, s) \<in> set sns. map_of (h_snaps hdr) i = Some s"
  shows "decode_snap_answers (length sns) (concat (map (\<lambda>(i, s). snap_reply order hdr i s) sns))
     = Some (map (\<lambda>(i, s). snap_answer_of order hdr i s) sns, [])"
  using assms(2)
proof (induction sns)
  case Nil
  then show ?case by simp
next
  case (Cons e sns)
  then show ?case using decode_snap_answer_enc [OF assms(1)] by (cases e) simp
qed

lemma sorted_descends: "sorted_wrt (>) ids \<Longrightarrow> ids = x # xs \<Longrightarrow> descends x xs"
  by (induction xs arbitrary: x ids) (auto simp: word_neq_0_conv intro: le_less_trans)

lemma client_snapcontext:
  assumes "reprs hdr (p oid)" "header_ok hdr" "h_seq hdr \<le> CEPH_MAXSNAP" "short (h_snaps hdr)"
  shows "cl_get_snapcontext oid ([], p) = Some (Inr (h_seq hdr, rev (map fst (h_snaps hdr))), ([], p))"
proof -
  let ?h = "\<lparr>hc_stored = p oid, hc_new = p oid\<rparr>" and ?ids = "rev (map fst (h_snaps hdr))"
  have "cls_call rbd_get_snapcontext [] (p oid) = Some (0, encode_u64 (h_seq hdr) @ encode_ids ?ids, p oid)"
    using snapcontext_ids [of hdr ?h] read_fields(4) [of hdr ?h] assms(1,2)
    by (simp add: cls_call_def rbd_get_snapcontext_def)
  note run = io_ask_run [where p = p and oid = oid and fs = "[]", OF this]
  have "sorted_wrt (>) ?ids"
    using assms(2) by (simp add: header_ok_def smap_ok_def sorted_wrt_rev)
  moreover have "\<forall>i \<in> set ?ids. i \<le> h_seq hdr" using assms(2) by (auto simp: header_ok_def snap_entry_ok_def)
  ultimately have "snapc_is_valid (h_seq hdr, ?ids)"
    using assms(3) sorted_descends [of ?ids]
    by (cases ?ids) (simp_all add: snapc_is_valid_def)
  moreover have "decode_snapc (encode_u64 (h_seq hdr) @ encode_ids ?ids) = Some ((h_seq hdr, ?ids), [])"
    using assms(4) by (intro decode_snapc_enc) (simp add: short_def)
  ultimately show ?thesis
    by (simp add: cl_get_snapcontext_def run)
qed

lemma client_snapshot_list:
  assumes "reprs hdr (p oid)" "header_ok hdr"
  shows "cl_snapshot_list oid (rev (map fst (h_snaps hdr))) ([], p) =
     Some (Inr (map (\<lambda>(i, s). snap_answer_of (h_order hdr) hdr i s) (rev (h_snaps hdr))), ([], p))"
proof -
  let ?sns = "rev (h_snaps hdr)"
  have "smap_ok (h_snaps hdr)" using assms(2) by (simp add: header_ok_def)
  then have m: "\<forall>(i, s) \<in> set ?sns. map_of (h_snaps hdr) i = Some s"
    using smap_ok_distinct by (auto intro: map_of_is_SomeI)
  have c: "concat (map snap_calls (rev (map fst (h_snaps hdr)))) = concat (map (\<lambda>e. snap_calls (fst e)) ?sns)"
    by (simp add: rev_map comp_def)
  have nil: "concat (map (\<lambda>e. snap_calls (fst e)) ?sns) = [] \<longleftrightarrow> h_snaps hdr = []"
    by (cases "h_snaps hdr") (simp_all add: snap_calls_def)
  have a: "answer (decode_snap_answers (length (h_snaps hdr))) (0, concat (map (\<lambda>(i, s). snap_reply (h_order hdr) hdr i s) ?sns))
      = Inr (map (\<lambda>(i, s). snap_answer_of (h_order hdr) hdr i s) ?sns)"
    using decode_snap_answers_enc [OF assms(2) m] by simp
  have "io_operate_read oid (concat (map (\<lambda>e. snap_calls (fst e)) ?sns)) ([], p)
      = Some ((0, concat (map (\<lambda>(i, s). snap_reply (h_order hdr) hdr i s) ?sns)), ([], p))"
    using snap_calls_replies [OF assms m] nil
    by (simp add: io_operate_read_def request_def rados_calls_def fun_upd_idem)
  then show ?thesis using a by (simp add: cl_snapshot_list_def c)
qed

lemma client_immutable_metadata:
  assumes "reprs hdr (p oid)" "header_ok hdr"
  shows "cl_get_immutable_metadata oid ([], p) = Some (Inr (h_order hdr, h_prefix hdr), ([], p))"
proof -
  have "cls_call rbd_get_size (encode_u64 CEPH_NOSNAP) (p oid) = Some (0, encode_u8 (h_order hdr) @ encode_u64 (h_size hdr), p oid)"
    using header_queries [OF assms(1,2), of CEPH_NOSNAP] by (simp add: seen_size_def)
  moreover have "cls_call rbd_get_object_prefix [] (p oid) = Some (0, encode_string (h_prefix hdr), p oid)"
    by (rule prefix_query [OF assms])
  moreover have "short (h_prefix hdr)" using assms(2) by (simp add: header_ok_def small_short)
  ultimately show ?thesis
    by (simp add: cl_get_immutable_metadata_def io_operate_read_def request_def rados_calls_def fun_upd_idem
        decode_pair_def c8.dec_enc c64.dec_enc cstr.dec_enc_end)
qed

lemma client_stripe:
  assumes "reprs hdr (p oid)" "header_ok hdr"
  shows "cl_get_stripe_unit_count oid ([], p) =
     Some (if lacks hdr RBD_FEATURE_STRIPINGV2 then Inl (- ENOEXEC)
           else Inr (the_default (object_bytes (h_order hdr)) (h_unit hdr), the_default 1 (h_count hdr)), ([], p))"
  using stripe_query [OF assms(1)]
  by (cases "lacks hdr RBD_FEATURE_STRIPINGV2")
    (simp_all add: cl_get_stripe_unit_count_def io_ask_run [where p = p and oid = oid and fs = "[]"]
      decode_pair_def c64.dec_enc c64.dec_enc_end)

text \<open>C15. What a client reads is what the header says: from an object that encodes a well-formed header,
  \<open>get_snapcontext\<close> gives the sequence number and the ids of all snapshots, newest first, as a valid
  context, and \<open>snapshot_list\<close> for these ids gives, for each, its name, its size, its features, its
  parent and its protection status, and the immutable metadata are the order and the prefix. Encoding,
  methods, answers of compound reads and decoding fit together.\<close>

theorem client_reads_header:
  assumes "reprs hdr (p oid)" "header_ok hdr" "h_seq hdr \<le> CEPH_MAXSNAP" "short (h_snaps hdr)"
  shows "cl_get_snapcontext oid ([], p) = Some (Inr (h_seq hdr, rev (map fst (h_snaps hdr))), ([], p)) \<and>
     cl_snapshot_list oid (rev (map fst (h_snaps hdr))) ([], p) =
       Some (Inr (map (\<lambda>(i, s). snap_answer_of (h_order hdr) hdr i s) (rev (h_snaps hdr))), ([], p)) \<and>
     cl_get_immutable_metadata oid ([], p) = Some (Inr (h_order hdr, h_prefix hdr), ([], p))"
proof (intro conjI)
  show "cl_get_snapcontext oid ([], p) = Some (Inr (h_seq hdr, rev (map fst (h_snaps hdr))), ([], p))"
    by (rule client_snapcontext [where p = p and oid = oid, OF assms])
  show "cl_snapshot_list oid (rev (map fst (h_snaps hdr))) ([], p) =
      Some (Inr (map (\<lambda>(i, s). snap_answer_of (h_order hdr) hdr i s) (rev (h_snaps hdr))), ([], p))"
    by (rule client_snapshot_list [where p = p and oid = oid, OF assms(1,2)])
  show "cl_get_immutable_metadata oid ([], p) = Some (Inr (h_order hdr, h_prefix hdr), ([], p))"
    by (rule client_immutable_metadata [where p = p and oid = oid, OF assms(1,2)])
qed


lemma client_reads_header_witness:
  "\<exists>p ids as. cl_get_snapcontext ''hdr'' ([], p) = Some (Inr (7, ids), ([], p)) \<and> ids = [7, 3] \<and>
     cl_snapshot_list ''hdr'' ids ([], p) = Some (Inr as, ([], p)) \<and> map fst as = [''b'', ''a'']"
proof -
  let ?c = "created 65536 22 1 ''rb.1''" and ?cs = "[SnapAdd ''a'' 3, SnapAdd ''b'' 7]"
  obtain obs0 where r: "reprs ?c obs0"
    using create_reprs [of 1 "''rb.1''" None 65536 22]
    by (auto simp: RBD_FEATURES_ALL_def RBD_FEATURE_LAYERING_def RBD_FEATURE_STRIPINGV2_def small_string_def omap_of_def)
  have ok: "header_ok ?c" by (rule created_ok) (simp add: small_string_def)
  have fit: "\<forall>c \<in> set ?cs. call_fits c" by (simp add: small_string_def)
  obtain rs obs hdr where h: "header_steps ?cs ?c = (rs, hdr)" "reprs hdr obs" "header_ok hdr"
    using header_history [OF r ok fit] by blast
  have hdr: "h_seq hdr = 7" "map (\<lambda>(i, s). (i, cs_name s)) (h_snaps hdr) = [(3, ''a''), (7, ''b'')]"
    using h(1) by (auto simp: created_def header_step_def CEPH_MAXSNAP_def)
  then obtain s t where sns: "h_snaps hdr = [(3, s), (7, t)]" "cs_name s = ''a''" "cs_name t = ''b''" by auto
  have le: "h_seq hdr \<le> CEPH_MAXSNAP" "short (h_snaps hdr)" using hdr sns by (simp_all add: CEPH_MAXSNAP_def short_def)
  let ?p = "(\<lambda>_. None)(''hdr'' := obs)"
  have "reprs hdr (?p ''hdr'')" using h(2) by simp
  from client_reads_header [where p = ?p and oid = "''hdr''", OF this h(3) le] show ?thesis
    using hdr sns by (intro exI [of _ ?p]) (simp add: snap_answer_of_def)
qed

end
