(* ===== verification/Image_Resize.thy ===== *)
theory Image_Resize
  imports Discard_Content Cls_Client
begin

text \<open>
  Resizing an image (\<open>trim_image\<close>, \<open>resize_helper\<close>, \<open>resize\<close> of \<open>librbd/internal.cc\<close>) and the
  throttle that counts its requests (\<open>SimpleThrottle\<close>, \<open>common/Throttle.cc\<close>). A shrink removes the
  objects of the stripe periods that fall away and truncates those of the last period; the requests
  go to the default pool whatever the extent table says. Requests run one after the other, each to its
  completion. Lemmas: on the default pool exactly the bytes at and above the new size disappear, what
  lies on the SSD pool stays and comes back when the image grows again, and the header follows.
\<close>

subsection \<open>The throttle\<close>

record SimpleThrottle =
  th_max :: u64
  th_current :: u64
  th_ret :: int
  th_ignore_enoent :: bool

definition new_throttle :: "u64 \<Rightarrow> bool \<Rightarrow> SimpleThrottle" where
  "new_throttle mx ignore_enoent =
     \<lparr>th_max = mx, th_current = 0, th_ret = 0, th_ignore_enoent = ignore_enoent\<rparr>"

text \<open>\<open>None\<close>: the caller waits.\<close>

definition start_op :: "SimpleThrottle \<Rightarrow> SimpleThrottle option" where
  "start_op th = (if th_max th = th_current th then None else Some (th\<lparr>th_current := th_current th + 1\<rparr>))"

definition end_op :: "int \<Rightarrow> SimpleThrottle \<Rightarrow> SimpleThrottle" where
  "end_op r th =
     (let th1 = th\<lparr>th_current := th_current th - 1\<rparr> in
      if r < 0 \<and> th_ret th1 = 0 \<and> \<not> (r = - ENOENT \<and> th_ignore_enoent th1) then th1\<lparr>th_ret := r\<rparr> else th1)"

definition wait_for_ret :: "SimpleThrottle \<Rightarrow> int option" where
  "wait_for_ret th = (if 0 < th_current th then None else Some (th_ret th))"

subsection \<open>Trimming\<close>

text \<open>A request of a trim: the object, and the offset at which it is cut; offset 0 removes it.\<close>

definition trim_op :: "u64 \<Rightarrow> osd_op" where
  "trim_op off = (if off = 0 then OpDelete else OpTruncate off 0 0)"

fun trim_run ::
    "io_env \<Rightarrow> int \<Rightarrow> (string \<times> u64) list \<Rightarrow> SimpleThrottle \<times> cluster \<Rightarrow> (SimpleThrottle \<times> cluster) option" where
  "trim_run ev pid [] st = Some st"
| "trim_run ev pid ((oid, off) # reqs) (th, cl) =
     do { th1 \<leftarrow> start_op th;
          (r, _, cl1) \<leftarrow> aio_operate ev pid oid [trim_op off] cl;
          trim_run ev pid reqs (end_op r th1, cl1) }"

text \<open>The requests: whole objects from the first period that falls away on, then the extents between
  the new size and the end of the last period.\<close>

definition trim_requests :: "ImageCtx \<Rightarrow> u64 \<Rightarrow> (string \<times> u64) list option" where
  "trim_requests ic newsize =
     (let sz = ic_size ic; period = get_stripe_period ic in
      if period = 0 then None
      else
        let num_period = (newsize + period - 1) div period;
            delete_off = min (num_period * period) sz;
            delete_start = num_period * ic_stripe_count ic
        in do { num_objects \<leftarrow> get_num_objects ic;
                extents \<leftarrow> (if newsize < delete_off
                            then file_to_extents (ic_format_string ic) (ic_layout ic) newsize
                                   (delete_off - newsize) 0 0
                            else Some []);
                Some (map (\<lambda>i. (get_object_name ic (of_nat i), 0)) [unat delete_start ..< unat num_objects] @
                      map (\<lambda>e. (oe_oid e, oe_offset e)) extents) })"

definition trim_image :: "io_env \<Rightarrow> u64 \<Rightarrow> ImageCtx \<Rightarrow> u64 \<Rightarrow> cluster \<Rightarrow> cluster option" where
  "trim_image ev management_ops ic newsize cl =
     do { reqs \<leftarrow> trim_requests ic newsize;
          (th, cl1) \<leftarrow> trim_run ev (data_ctx ic DEFAULT_POOL) reqs (new_throttle management_ops True, cl);
          _ \<leftarrow> wait_for_ret th;
          Some cl1 }"

subsection \<open>Resizing\<close>

text \<open>The constructor of \<open>ImageCtx\<close> duplicates the same handle into \<open>data_ctx\<close> and \<open>md_ctx\<close>.\<close>

definition md_ctx :: "ImageCtx \<Rightarrow> int \<Rightarrow> int" where
  "md_ctx ic pool = data_ctx ic pool"

definition notify_change :: "ImageCtx \<Rightarrow> ImageCtx" where
  "notify_change ic = ic\<lparr>ic_refresh_seq := ic_refresh_seq ic + 1\<rparr>"

type_synonym resize_state = "ImageCtx \<times> rbd_obj_header_ondisk \<times> cluster"

text \<open>A request of \<open>cls_client\<close> to the header object.\<close>

definition md_request :: "io_env \<Rightarrow> ImageCtx \<Rightarrow> (io \<Rightarrow> ('a \<times> io) option) \<Rightarrow> cluster \<Rightarrow> ('a \<times> cluster) option" where
  "md_request ev ic f cl =
     (let pid = md_ctx ic DEFAULT_POOL in
      map_option (\<lambda>(x, _, p). (x, cl(pid := p))) (f ([ev_fault ev pid (ic_header_oid ic)], cl pid)))"

definition write_size :: "io_env \<Rightarrow> u64 \<Rightarrow> resize_state \<Rightarrow> (int \<times> resize_state) option" where
  "write_size ev sz st =
     (case st of (ic, hdr, cl) \<Rightarrow>
        if ic_old_format ic then
          let hdr1 = hdr\<lparr>oh_image_size := sz\<rparr>; bl = ondisk_bytes hdr1
          in map_option (\<lambda>(r, _, cl1). (r, ic, hdr1, cl1))
               (aio_operate ev (md_ctx ic DEFAULT_POOL) (ic_header_oid ic) [OpWrite 0 (of_nat (length bl)) bl 0 0] cl)
        else
          map_option (\<lambda>(r, cl1). (r, ic, hdr, cl1)) (md_request ev ic (cl_set_size (ic_header_oid ic) sz) cl))"

definition resize_helper :: "io_env \<Rightarrow> u64 \<Rightarrow> u64 \<Rightarrow> resize_state \<Rightarrow> (int \<times> resize_state) option" where
  "resize_helper ev management_ops sz st =
     (case st of (ic, hdr, cl) \<Rightarrow>
        if sz = ic_size ic then Some (0, st)
        else
          do { cl1 \<leftarrow> (if ic_size ic < sz then Some cl else trim_image ev management_ops ic sz cl);
               (r, ic2, hdr2, cl2) \<leftarrow> write_size ev sz (ic\<lparr>ic_size := sz\<rparr>, hdr, cl1);
               if r < 0 then Some (r, ic2, hdr2, cl2) else Some (0, notify_change ic2, hdr2, cl2) })"

text \<open>The result of \<open>resize_helper\<close> is dropped.\<close>

definition resize :: "io_env \<Rightarrow> u64 \<Rightarrow> u64 \<Rightarrow> resize_state \<Rightarrow> (int \<times> resize_state) option" where
  "resize ev management_ops sz st =
     (case st of (ic, hdr, cl) \<Rightarrow>
        if ic_read_only ic then Some (- EROFS, st)
        else
          let (r, ic1) = ictx_check ev ic in
          if r < 0 then Some (r, ic1, hdr, cl)
          else do { (_, st2) \<leftarrow> resize_helper ev management_ops sz (ic1, hdr, cl);
                    Some (0, st2) })"

subsection \<open>Bytes of one object\<close>

text \<open>Within an object, bytes lie in the order of the image.\<close>

lemma object_order:
  assumes "layout_ok l" "objectno l a = objectno l b" "unat (x_offset l a) \<le> unat (x_offset l b)"
  shows "unat a \<le> unat b"
proof -
  note pos = layout_ok_nat [OF assms(1)]
  let ?s = "unat (lo_su l)" and ?c = "unat (lo_sc l)" and ?p = "unat (stripes_per_object l)"
  let ?A = "unat (blockno l a)" and ?B = "unat (blockno l b)"
  have eq: "?A div ?c div ?p * ?c + ?A mod ?c = ?B div ?c div ?p * ?c + ?B mod ?c"
    using assms(2) by (metis unat_objectno)
  have m: "?A mod ?c = ?B mod ?c" and d: "?A div ?c div ?p = ?B div ?c div ?p"
    using eq stripe_split(1,2) [OF pos(2,3)] by metis+
  have A: "(?A div ?c mod ?p + ?A div ?c div ?p * ?p) * ?c + ?A mod ?c = ?A"
    and B: "(?B div ?c mod ?p + ?B div ?c div ?p * ?p) * ?c + ?B mod ?c = ?B"
    using stripe_split(3) [OF pos(2,3)] by blast+
  have a: "?A * ?s + unat a mod ?s = unat a" and b: "?B * ?s + unat b mod ?s = unat b"
    by (simp_all add: unat_blockno)
  have x: "?A div ?c mod ?p * ?s + unat a mod ?s \<le> ?B div ?c mod ?p * ?s + unat b mod ?s"
    using assms(3) by (simp add: unat_x_offset)
  have lt: "unat a mod ?s < ?s" "unat b mod ?s < ?s" using pos(1) by simp_all
  have le: "?A div ?c mod ?p \<le> ?B div ?c mod ?p"
  proof (rule ccontr)
    assume "\<not> ?thesis"
    then have "(?B div ?c mod ?p + 1) * ?s \<le> ?A div ?c mod ?p * ?s" by (intro mult_le_mono1) simp
    then show False using x lt(2) by simp
  qed
  show ?thesis
  proof (cases "?A div ?c mod ?p = ?B div ?c mod ?p")
    case True
    then have "?A = ?B" using A B m d by metis
    then have "unat a = ?B * ?s + unat a mod ?s" using a by simp
    moreover have "unat a mod ?s \<le> unat b mod ?s" using x True by simp
    ultimately show ?thesis using b by linarith
  next
    case False
    then have "?A div ?c mod ?p < ?B div ?c mod ?p" using le by simp
    then have "?A div ?c mod ?p + ?A div ?c div ?p * ?p < ?B div ?c mod ?p + ?B div ?c div ?p * ?p"
      unfolding d by (rule add_strict_right_mono)
    then have "?A \<le> ?B" using A B m
      by (metis add_le_mono1 less_imp_le_nat mult_le_mono1)
    moreover have "?A \<noteq> ?B" using False by auto
    ultimately have "?A + 1 \<le> ?B" by simp
    then have "(?A + 1) * ?s \<le> ?B * ?s" by (rule mult_le_mono1)
    then show ?thesis using a b lt(1) by simp
  qed
qed

text \<open>The objects of a stripe period.\<close>

lemma objectno_period:
  assumes "layout_exact l"
  shows "unat (objectno l y) div unat (lo_sc l) = unat y div (unat (lo_sc l) * unat (lo_os l))"
proof -
  have ok: "layout_ok l" using assms by (simp add: layout_exact_def)
  note pos = layout_ok_nat [OF ok]
  have os: "unat (lo_os l) = unat (stripes_per_object l) * unat (lo_su l)"
    using assms by (simp add: layout_exact_def stripes_per_object_def u64_arith)
  have "unat (objectno l y) div unat (lo_sc l)
      = unat (blockno l y) div unat (lo_sc l) div unat (stripes_per_object l)"
    unfolding unat_objectno by (rule stripe_split(2) [OF pos(2,3)])
  also have "\<dots> = unat y div (unat (lo_sc l) * unat (lo_os l))"
    by (simp add: blockno_def unat_div_u64 os div_mult2_eq [symmetric] ac_simps)
  finally show ?thesis .
qed

subsection \<open>What the requests of a trim do\<close>

definition cut_from :: "u64 \<Rightarrow> osd_object option \<Rightarrow> osd_object option \<Rightarrow> bool" where
  "cut_from off obs obs' \<longleftrightarrow> seq_zero obs' \<and> (\<forall>ob. obs' = Some ob \<longrightarrow> od_watchers ob = 0)
     \<and> (\<forall>i. obj_bytes obs' i = (if unat off \<le> i then 0 else obj_bytes obs i))"

lemma trim_request_run:
  assumes "seq_zero (cl pid oid)" "\<forall>ob. cl pid oid = Some ob \<longrightarrow> od_watchers ob = 0"
    "\<not> ev_fault ev pid oid < 0" "\<not> osd_max_object_size < off"
  shows "\<exists>r outs obs'. aio_operate ev pid oid [trim_op off] cl = Some (r, outs, cl(pid := (cl pid)(oid := obs')))
    \<and> (r = 0 \<or> r = - ENOENT) \<and> cut_from off (cl pid oid) obs'"
proof (cases "off = 0")
  case True
  have "osd_op_step osd_max_object_size OpDelete (cl pid oid)
      = Some (if cl pid oid = None then - ENOENT else 0, NoOut, None)"
    using assms(2) by (cases "cl pid oid") (simp_all add: op_delete_def)
  moreover have "cut_from off (cl pid oid) None" by (simp add: cut_from_def True seq_zero_def)
  ultimately show ?thesis
    using assms(3) fun_upd_triv [of "cl pid" oid]
    by (cases "cl pid oid")
      (auto simp: aio_operate_def rados_exec_def prepare_transaction_single trim_op_def True intro!: exI [of _ None])
next
  case False
  let ?obs' = "map_option (\<lambda>ob. ob\<lparr>od_data := file_truncate (unat off) (od_data ob), od_size := off\<rparr>) (cl pid oid)"
  have "osd_op_step osd_max_object_size (OpTruncate off 0 0) (cl pid oid) = Some (0, NoOut, ?obs')"
    using assms(4) by (cases "cl pid oid") (simp_all add: op_truncate_def Let_def)
  moreover have "cut_from off (cl pid oid) ?obs'"
    using assms(1,2) by (cases "cl pid oid") (auto simp: cut_from_def seq_zero_def byte_at_truncate)
  ultimately show ?thesis
    using assms(3) False
    by (simp add: aio_operate_def rados_exec_def prepare_transaction_single trim_op_def) blast
qed

definition idle_throttle :: "SimpleThrottle \<Rightarrow> bool" where
  "idle_throttle th \<longleftrightarrow> th_max th \<noteq> 0 \<and> th_current th = 0 \<and> th_ret th = 0 \<and> th_ignore_enoent th"

lemma throttle_round:
  assumes "idle_throttle th" "r = 0 \<or> r = - ENOENT"
  shows "\<exists>th1. start_op th = Some th1 \<and> end_op r th1 = th"
  using assms by (auto simp: idle_throttle_def start_op_def end_op_def Let_def)

lemma trim_run_cuts:
  assumes "idle_throttle th" "\<forall>oid. \<not> ev_fault ev pid oid < 0"
    "\<forall>(oid, off) \<in> set reqs. \<not> osd_max_object_size < off" "no_seqs cl" "unwatched cl"
  shows "\<exists>cl'. trim_run ev pid reqs (th, cl) = Some (th, cl') \<and> no_seqs cl' \<and> unwatched cl'
    \<and> (\<forall>p. p \<noteq> pid \<longrightarrow> cl' p = cl p) \<and> (\<forall>oid. oid \<notin> fst ` set reqs \<longrightarrow> cl' pid oid = cl pid oid)
    \<and> (\<forall>oid i. obj_bytes (cl' pid oid) i =
          (if \<exists>off. (oid, off) \<in> set reqs \<and> unat off \<le> i then 0 else obj_bytes (cl pid oid) i))"
  using assms(3-)
proof (induction reqs arbitrary: cl)
  case Nil
  then show ?case by simp
next
  case (Cons q reqs)
  obtain oid off where q: "q = (oid, off)" by (cases q)
  have seq: "seq_zero (cl pid oid)" and w: "\<forall>ob. cl pid oid = Some ob \<longrightarrow> od_watchers ob = 0"
    using Cons.prems by (auto simp: no_seqs_def unwatched_def)
  have le: "\<not> osd_max_object_size < off" using Cons.prems(1) by (simp add: q)
  obtain r outs obs' where run: "aio_operate ev pid oid [trim_op off] cl = Some (r, outs, cl(pid := (cl pid)(oid := obs')))"
    and r: "r = 0 \<or> r = - ENOENT" and c: "cut_from off (cl pid oid) obs'"
    using trim_request_run [where cl = cl and pid = pid and oid = oid, OF seq w spec [OF assms(2)] le] by blast
  let ?cl = "cl(pid := (cl pid)(oid := obs'))"
  obtain th1 where th1: "start_op th = Some th1" "end_op r th1 = th" using throttle_round [OF assms(1) r] by blast
  have ok: "no_seqs ?cl" "unwatched ?cl"
    using c Cons.prems(2,3) by (auto simp: cut_from_def no_seqs_def unwatched_def split: if_splits)
  have "\<forall>(oid, off) \<in> set reqs. \<not> osd_max_object_size < off" using Cons.prems(1) by simp
  from Cons.IH [OF this ok] obtain cl' where IH: "trim_run ev pid reqs (th, ?cl) = Some (th, cl')" "no_seqs cl'" "unwatched cl'"
    "\<forall>p. p \<noteq> pid \<longrightarrow> cl' p = ?cl p" "\<forall>o'. o' \<notin> fst ` set reqs \<longrightarrow> cl' pid o' = ?cl pid o'"
    and b: "\<And>o' i. obj_bytes (cl' pid o') i =
          (if \<exists>off. (o', off) \<in> set reqs \<and> unat off \<le> i then 0 else obj_bytes (?cl pid o') i)"
    by blast
  have "trim_run ev pid (q # reqs) (th, cl) = Some (th, cl')" by (simp add: q th1 run IH(1))
  moreover have "\<forall>p. p \<noteq> pid \<longrightarrow> cl' p = cl p" using IH(4) by simp
  moreover have "\<forall>o'. o' \<notin> fst ` set (q # reqs) \<longrightarrow> cl' pid o' = cl pid o'" using IH(5) by (simp add: q)
  moreover have "obj_bytes (cl' pid o') i =
          (if \<exists>off. (o', off) \<in> set (q # reqs) \<and> unat off \<le> i then 0 else obj_bytes (cl pid o') i)" for o' i
    using c by (auto simp: b q cut_from_def)
  ultimately show ?case using IH(2,3) by blast
qed

subsection \<open>Which bytes the requests reach\<close>

text \<open>The sizes the code computes with fit: the layout of the image is the one its stripe period counts.\<close>

definition geometry_ok :: "ImageCtx \<Rightarrow> bool" where
  "geometry_ok ic \<longleftrightarrow> layout_exact (ic_layout ic) \<and> ic_stripe_count ic = lo_sc (ic_layout ic)
     \<and> unat (get_stripe_period ic) = unat (lo_sc (ic_layout ic)) * unat (lo_os (ic_layout ic))
     \<and> unat (ic_size ic) + unat (get_stripe_period ic) < 2 ^ 64"

lemma ceil_div:
  assumes "0 < (p :: nat)"
  shows "n \<le> (n + p - 1) div p * p" "(n + p - 1) div p * p < n + p" "y < n \<Longrightarrow> y div p < (n + p - 1) div p"
proof -
  have e: "(n + p - 1) div p * p + (n + p - 1) mod p = n + p - 1" by simp
  have l: "(n + p - 1) mod p < p" using assms by simp
  show 1: "n \<le> (n + p - 1) div p * p" "(n + p - 1) div p * p < n + p" using e l assms by linarith+
  show "y div p < (n + p - 1) div p" if "y < n"
    using that 1(1) assms by (simp add: div_less_iff_less_mult)
qed

lemma unat_periods:
  assumes "geometry_ok ic" "unat n \<le> unat (ic_size ic)" "period = get_stripe_period ic"
  defines "k \<equiv> (unat n + unat period - 1) div unat period"
  shows "period \<noteq> 0" "unat ((n + period - 1) div period) = k"
    "unat ((n + period - 1) div period * period) = k * unat period"
    "unat ((n + period - 1) div period * ic_stripe_count ic) = k * unat (lo_sc (ic_layout ic))"
proof -
  let ?l = "ic_layout ic"
  note pos = layout_ok_nat [of ?l]
  have ok: "layout_ok ?l" and sc: "ic_stripe_count ic = lo_sc ?l"
    and p: "unat period = unat (lo_sc ?l) * unat (lo_os ?l)" and lt: "unat (ic_size ic) + unat period < 2 ^ 64"
    using assms(1,3) by (auto simp: geometry_ok_def layout_exact_def)
  have os: "1 \<le> unat (lo_os ?l)" using pos(1,4) [OF ok] by linarith
  have pp: "0 < unat period" using pos(2) [OF ok] os unfolding p by simp
  then show nz: "period \<noteq> 0" unfolding unat_pos_u64 .
  have s1: "unat (n + period) = unat n + unat period" using assms(2) lt by (intro unat_add_lt) linarith
  have "unat (n + period - 1) = unat n + unat period - 1" using s1 pp by (simp add: unat_sub_le)
  then show u: "unat ((n + period - 1) div period) = k" by (simp add: unat_div_u64 k_def)
  have "k * unat period < 2 ^ 64" using ceil_div(2) [OF pp, of "unat n"] assms(2) lt unfolding k_def by linarith
  then show kp: "unat ((n + period - 1) div period * period) = k * unat period"
    unfolding u [symmetric] by (simp add: unat_mult_lem [symmetric])
  have "k * unat (lo_sc ?l) \<le> k * unat period" unfolding p using os by simp
  then show "unat ((n + period - 1) div period * ic_stripe_count ic) = k * unat (lo_sc ?l)"
    unfolding sc u [symmetric] using kp u by (metis unat_mult_bound)
qed

text \<open>The extents of a range are cut at or below exactly the bytes from the start of the range on.\<close>

lemma extents_reach:
  assumes "layout_ok l" "len \<noteq> 0" "unat off + unat len < 2 ^ 64"
  shows "\<exists>es. file_to_extents f l off len 0 0 = Some es
    \<and> (\<forall>e \<in> set es. oe_oid e = format_oid f (oe_objectno e) \<and> unat (oe_offset e) < unat (lo_os l))
    \<and> (\<forall>e \<in> set es. \<forall>y. objectno l y = oe_objectno e \<longrightarrow> unat (oe_offset e) \<le> unat (x_offset l y) \<longrightarrow> unat off \<le> unat y)
    \<and> (\<forall>y. unat off \<le> unat y \<longrightarrow> unat y < unat off + unat len \<longrightarrow>
         (\<exists>e \<in> set es. objectno l y = oe_objectno e \<and> unat (oe_offset e) \<le> unat (x_offset l y)))"
proof -
  obtain m where m: "file_to_extents_map f l off len 0 [] 0 = Some m"
    and ok: "\<And>e. e \<in> set (concat (map snd m)) \<Longrightarrow> extent_ok f l off (unat len) e"
    and hit: "\<And>x. hits (exts_bufs (concat (map snd m))) x = (if x < unat len then 1 else 0)"
    using extents_of_request [OF assms, of f 0] by blast
  let ?es = "concat (map snd m)"
  have low: "unat off \<le> unat y"
    if e: "e \<in> set ?es" and y: "objectno l y = oe_objectno e" "unat (oe_offset e) \<le> unat (x_offset l y)" for e y
  proof -
    have b: "be_ok (oe_buffer_extents e)" "ext_total (oe_buffer_extents e) = unat (oe_length e)" "oe_length e \<noteq> 0"
      and at: "\<And>x k. be_pos (oe_buffer_extents e) x = Some k \<Longrightarrow> x < unat len
          \<and> objectno l (off + of_nat x) = oe_objectno e
          \<and> unat (x_offset l (off + of_nat x)) = unat (oe_offset e) + k"
      using ok [OF e] unfolding extent_ok_def by blast+
    have "0 < ext_total (oe_buffer_extents e)" using b(2,3) unfolding unat_pos_u64 by simp
    then obtain x where x: "be_pos (oe_buffer_extents e) x = Some 0" using be_pos_surj [OF b(1)] by blast
    note a = at [OF x]
    have "unat (off + of_nat x) = unat off + x"
    proof -
      have "unat (of_nat x :: u64) = x"
        using less_trans [OF conjunct1 [OF a] unat_lt_u64 [of len]] by (simp add: unat_of_nat take_bit_nat_eq_self)
      then show ?thesis using a assms(3) by (subst unat_add_lt) auto
    qed
    moreover have "unat (off + of_nat x) \<le> unat y"
      by (rule object_order [OF assms(1)]) (use a y in \<open>linarith | metis\<close>)+
    ultimately show ?thesis by linarith
  qed
  have cover: "\<exists>e \<in> set ?es. objectno l y = oe_objectno e \<and> unat (oe_offset e) \<le> unat (x_offset l y)"
    if "unat off \<le> unat y" "unat y < unat off + unat len" for y
  proof -
    have "unat (y - off) < unat len" using sub_lt_range [OF assms(3)] that by blast
    then have "hits (exts_bufs ?es) (unat (y - off)) \<noteq> 0" by (simp only: hit if_True)
    then obtain e where e: "e \<in> set ?es" "hits (oe_buffer_extents e) (unat (y - off)) \<noteq> 0"
      unfolding hits_zero exts_bufs_def by auto
    then obtain k where k: "be_pos (oe_buffer_extents e) (unat (y - off)) = Some k" using be_pos_hits by blast
    have "objectno l (off + of_nat (unat (y - off))) = oe_objectno e
        \<and> unat (x_offset l (off + of_nat (unat (y - off)))) = unat (oe_offset e) + k"
      using ok [OF e(1)] k unfolding extent_ok_def by blast
    then have "objectno l y = oe_objectno e" "unat (oe_offset e) \<le> unat (x_offset l y)" by simp_all
    then show ?thesis using e(1) by blast
  qed
  have "\<forall>e \<in> set ?es. oe_oid e = format_oid f (oe_objectno e) \<and> unat (oe_offset e) < unat (lo_os l)"
    using ok unfolding extent_ok_def unat_pos_u64 by fastforce
  moreover have "file_to_extents f l off len 0 0 = Some ?es"
    using m by (simp add: file_to_extents_def assimilate_extents_def)
  ultimately show ?thesis using low cover by blast
qed

lemma removals_mem:
  assumes "b \<le> 2 ^ 64"
  shows "(get_object_name ic ono, off) \<in> set (map (\<lambda>i. (get_object_name ic (of_nat i :: u64), 0 :: u64)) [a ..< b])
     \<longleftrightarrow> off = 0 \<and> a \<le> unat ono \<and> unat ono < b"
proof
  assume "(get_object_name ic ono, off) \<in> set (map (\<lambda>i. (get_object_name ic (of_nat i :: u64), 0 :: u64)) [a ..< b])"
  then obtain i where i: "a \<le> i" "i < b" "off = 0" "ono = of_nat i"
    by (auto simp: get_object_name_def format_oid_inj)
  have "unat (of_nat i :: u64) = i" using less_le_trans [OF i(2) assms] by (simp add: unat_of_nat take_bit_nat_eq_self)
  then show "off = 0 \<and> a \<le> unat ono \<and> unat ono < b" using i by simp
next
  assume "off = 0 \<and> a \<le> unat ono \<and> unat ono < b"
  then show "(get_object_name ic ono, off) \<in> set (map (\<lambda>i. (get_object_name ic (of_nat i :: u64), 0 :: u64)) [a ..< b])"
    by (auto simp: image_iff intro!: bexI [of _ "unat ono"])
qed

text \<open>The extents of a trim, none when the new size ends a period.\<close>

lemma trim_extents_reach:
  assumes "layout_ok l" "unat a \<le> unat b"
  shows "\<exists>es. (if a < b then file_to_extents f l a (b - a) 0 0 else Some []) = Some es
    \<and> (\<forall>e \<in> set es. oe_oid e = format_oid f (oe_objectno e) \<and> unat (oe_offset e) < unat (lo_os l))
    \<and> (\<forall>e \<in> set es. \<forall>y. objectno l y = oe_objectno e \<longrightarrow> unat (oe_offset e) \<le> unat (x_offset l y) \<longrightarrow> unat a \<le> unat y)
    \<and> (\<forall>y. unat a \<le> unat y \<longrightarrow> unat y < unat b \<longrightarrow>
         (\<exists>e \<in> set es. objectno l y = oe_objectno e \<and> unat (oe_offset e) \<le> unat (x_offset l y)))"
proof (cases "a < b")
  case True
  have d: "unat (b - a) = unat b - unat a" by (rule unat_sub_le [OF assms(2)])
  have "b - a \<noteq> 0" using True d unfolding unat_pos_u64 word_less_nat_alt by simp
  moreover have "unat a + unat (b - a) < 2 ^ 64" using d assms(2) unat_lt_u64 [of b] by simp
  ultimately show ?thesis using extents_reach [OF assms(1), of "b - a" a f] True d assms(2) by simp
next
  case False
  then show ?thesis by (intro exI [of _ "[]"]) (auto simp: word_less_nat_alt)
qed

lemma trim_requests_exact:
  assumes "geometry_ok ic" "unat newsize < unat (ic_size ic)"
  shows "\<exists>reqs. trim_requests ic newsize = Some reqs
    \<and> (\<forall>(oid, off) \<in> set reqs. unat off < unat (lo_os (ic_layout ic)) \<and> (\<exists>n. oid = get_object_name ic n))
    \<and> (\<forall>y. unat y < unat (ic_size ic) \<longrightarrow>
         (\<exists>off. (get_object_name ic (objectno (ic_layout ic) y), off) \<in> set reqs
               \<and> unat off \<le> unat (x_offset (ic_layout ic) y)) = (unat newsize \<le> unat y))"
proof -
  let ?l = "ic_layout ic" and ?f = "ic_format_string ic" and ?sz = "ic_size ic"
  define period where "period = get_stripe_period ic"
  define num where "num = (newsize + period - 1) div period"
  define nobj where "nobj = (?sz + period - 1) div period * ic_stripe_count ic"
  define P where "P = unat period"
  let ?c = "unat (lo_sc ?l)" and ?del = "min (num * period) ?sz"
  have lex: "layout_exact ?l" and lok: "layout_ok ?l" using assms(1) by (auto simp: geometry_ok_def layout_exact_def)
  note pos = layout_ok_nat [OF lok]
  note per = unat_periods [OF assms(1) _ period_def]
  have pn: "period \<noteq> 0" "unat (num * period) = (unat newsize + P - 1) div P * P"
      "unat (num * ic_stripe_count ic) = (unat newsize + P - 1) div P * ?c"
    using per [of newsize] assms(2) by (simp_all add: num_def P_def)
  have no: "unat nobj = (unat ?sz + P - 1) div P * ?c"
    using per(4) [of ?sz] by (simp add: nobj_def P_def)
  have P: "0 < P" "P = ?c * unat (lo_os ?l)"
    using pn(1) assms(1) by (auto simp: P_def unat_pos_u64 geometry_ok_def period_def)
  let ?K = "(unat newsize + P - 1) div P" and ?N = "(unat ?sz + P - 1) div P"
  note ceil = ceil_div [OF P(1)]
  have objs: "unat (objectno ?l y) div ?c = unat y div P" for y
    unfolding P(2) by (rule objectno_period [OF lex])
  have del: "unat ?del = min (?K * P) (unat ?sz)" by (simp add: unat_min_u64 pn(2))
  have le: "unat newsize \<le> unat ?del" using ceil(1) [of "unat newsize"] assms(2) unfolding del by simp
  have os: "0 < unat (lo_os ?l)" using pos(1,4) by linarith
  obtain es where es: "(if newsize < ?del then file_to_extents ?f ?l newsize (?del - newsize) 0 0 else Some []) = Some es"
    and ok: "\<And>e. e \<in> set es \<Longrightarrow> oe_oid e = format_oid ?f (oe_objectno e) \<and> unat (oe_offset e) < unat (lo_os ?l)"
    and low: "\<And>e y. e \<in> set es \<Longrightarrow> objectno ?l y = oe_objectno e \<Longrightarrow> unat (oe_offset e) \<le> unat (x_offset ?l y) \<Longrightarrow>
       unat newsize \<le> unat y"
    and cover: "\<And>y. unat newsize \<le> unat y \<Longrightarrow> unat y < unat ?del \<Longrightarrow>
         \<exists>e \<in> set es. objectno ?l y = oe_objectno e \<and> unat (oe_offset e) \<le> unat (x_offset ?l y)"
    using trim_extents_reach [OF lok le, of ?f] by blast
  define dels where "dels = map (\<lambda>i. (get_object_name ic (of_nat i :: u64), 0 :: u64)) [?K * ?c ..< ?N * ?c]"
  have run: "trim_requests ic newsize = Some (dels @ map (\<lambda>e. (oe_oid e, oe_offset e)) es)"
    using es pn(1,3) no
    by (simp add: trim_requests_def Let_def get_num_objects_def period_def [symmetric] num_def [symmetric]
        nobj_def [symmetric] dels_def)
  have "?N * ?c \<le> 2 ^ 64" using no unat_lt_u64 [of nobj] by simp
  then have in_dels: "(get_object_name ic o', off) \<in> set dels \<longleftrightarrow> off = 0 \<and> ?K * ?c \<le> unat o' \<and> unat o' < ?N * ?c" for o' off
    unfolding dels_def by (rule removals_mem)
  have reach: "(\<exists>off. (get_object_name ic (objectno ?l y), off) \<in> set (dels @ map (\<lambda>e. (oe_oid e, oe_offset e)) es)
               \<and> unat off \<le> unat (x_offset ?l y)) \<longleftrightarrow> unat newsize \<le> unat y" (is "?hit \<longleftrightarrow> _")
    if y: "unat y < unat ?sz" for y
  proof
    assume ?hit
    then consider (del) "?K * ?c \<le> unat (objectno ?l y)"
      | (ext) e where "e \<in> set es" "get_object_name ic (objectno ?l y) = oe_oid e" "unat (oe_offset e) \<le> unat (x_offset ?l y)"
      by (auto simp: in_dels)
    then show "unat newsize \<le> unat y"
    proof cases
      case del
      then have "?K \<le> unat y div P" using pos(2) unfolding objs [symmetric] by (simp add: less_eq_div_iff_mult_less_eq)
      then have "?K * P \<le> unat y" using P(1) by (simp add: less_eq_div_iff_mult_less_eq)
      then show ?thesis using ceil(1) [of "unat newsize"] by linarith
    next
      case ext
      then show ?thesis using ok [OF ext(1)] low [OF ext(1)] by (simp add: get_object_name_def format_oid_inj)
    qed
  next
    assume n: "unat newsize \<le> unat y"
    show ?hit
    proof (cases "unat y < unat ?del")
      case True
      then obtain e where e: "e \<in> set es" "objectno ?l y = oe_objectno e" "unat (oe_offset e) \<le> unat (x_offset ?l y)"
        using cover [OF n] by blast
      then have "(get_object_name ic (objectno ?l y), oe_offset e) \<in> set (map (\<lambda>e. (oe_oid e, oe_offset e)) es)"
        using ok [OF e(1)] by (force simp: get_object_name_def)
      then show ?thesis using e(3) by auto
    next
      case False
      then have "?K * P \<le> unat y" using y unfolding del by simp
      then have "?K \<le> unat y div P" using P(1) by (simp add: less_eq_div_iff_mult_less_eq)
      then have "?K * ?c \<le> unat (objectno ?l y)"
        using pos(2) unfolding objs [symmetric] by (simp add: less_eq_div_iff_mult_less_eq)
      moreover have "unat (objectno ?l y) < ?N * ?c"
        using ceil(3) [OF y] pos(2) unfolding objs [symmetric] by (simp add: div_less_iff_less_mult)
      ultimately have "(get_object_name ic (objectno ?l y), 0) \<in> set dels" by (simp add: in_dels)
      then show ?thesis by auto
    qed
  qed
  moreover have "\<forall>(oid, off) \<in> set (dels @ map (\<lambda>e. (oe_oid e, oe_offset e)) es).
      unat off < unat (lo_os ?l) \<and> (\<exists>n. oid = get_object_name ic n)"
    using ok os by (auto simp: dels_def get_object_name_def)
  ultimately show ?thesis using run by blast
qed

subsection \<open>Shrinking\<close>

definition resize_ready :: "io_env \<Rightarrow> ImageCtx \<Rightarrow> header \<Rightarrow> cluster \<Rightarrow> bool" where
  "resize_ready ev ic h cl \<longleftrightarrow> quiet ev \<and> ic_hdd_id ic \<noteq> ic_ssd_id ic \<and> \<not> ic_read_only ic \<and> \<not> ic_old_format ic
     \<and> (\<forall>n. ic_header_oid ic \<noteq> get_object_name ic n) \<and> reprs h (cl (ic_hdd_id ic) (ic_header_oid ic)) \<and> header_ok h"

lemma trim_image_bytes:
  assumes "image_ok ic" "geometry_ok ic" "quiet ev" "no_seqs cl" "unwatched cl" "ic_hdd_id ic \<noteq> ic_ssd_id ic"
    "ops \<noteq> 0" "sz < ic_size ic"
  shows "\<exists>cl'. trim_image ev ops ic sz cl = Some cl'
    \<and> (\<forall>oid. (\<forall>n. oid \<noteq> get_object_name ic n) \<longrightarrow> cl' (ic_hdd_id ic) oid = cl (ic_hdd_id ic) oid)
    \<and> (\<forall>y. unat y < unat (ic_size ic) \<longrightarrow> image_byte ic cl' y =
         (if unat y < unat sz \<or> em_tier (ic_extent_map ic) y = SSD_POOL then image_byte ic cl y else 0))"
proof -
  let ?l = "ic_layout ic" and ?hdd = "ic_hdd_id ic" and ?th = "new_throttle ops True"
  have ctx: "data_ctx ic DEFAULT_POOL = ?hdd" by (simp add: data_ctx_def whobbs_consts)
  have lt: "unat sz < unat (ic_size ic)" using assms(8) by (simp add: word_less_nat_alt)
  obtain reqs where reqs: "trim_requests ic sz = Some reqs"
    "\<forall>(oid, off) \<in> set reqs. unat off < unat (lo_os ?l) \<and> (\<exists>n. oid = get_object_name ic n)"
    and reach: "\<And>y. unat y < unat (ic_size ic) \<Longrightarrow>
         (\<exists>off. (get_object_name ic (objectno ?l y), off) \<in> set reqs \<and> unat off \<le> unat (x_offset ?l y))
         = (unat sz \<le> unat y)"
    using trim_requests_exact [OF assms(2) lt] by blast
  have idle: "idle_throttle ?th" using assms(7) by (simp add: idle_throttle_def new_throttle_def)
  have fit: "\<forall>(oid, off) \<in> set reqs. \<not> osd_max_object_size < off"
    using reqs(2) assms(1) by (fastforce simp: image_ok_def osd_max_object_size_def word_less_nat_alt)
  have "\<forall>oid. \<not> ev_fault ev ?hdd oid < 0" using assms(3) by (simp add: quiet_def)
  from trim_run_cuts [OF idle this fit assms(4,5)] obtain cl' where run: "trim_run ev ?hdd reqs (?th, cl) = Some (?th, cl')"
    and other: "\<And>p. p \<noteq> ?hdd \<Longrightarrow> cl' p = cl p" "\<And>oid. oid \<notin> fst ` set reqs \<Longrightarrow> cl' ?hdd oid = cl ?hdd oid"
    and b: "\<And>oid i. obj_bytes (cl' ?hdd oid) i =
          (if \<exists>off. (oid, off) \<in> set reqs \<and> unat off \<le> i then 0 else obj_bytes (cl ?hdd oid) i)"
    by blast
  have "trim_image ev ops ic sz cl = Some cl'"
    by (simp add: trim_image_def reqs(1) ctx run) (simp add: wait_for_ret_def new_throttle_def)
  moreover have "cl' ?hdd oid = cl ?hdd oid" if "\<forall>n. oid \<noteq> get_object_name ic n" for oid
    using other(2) reqs(2) that by fastforce
  moreover have "image_byte ic cl' y =
      (if unat y < unat sz \<or> em_tier (ic_extent_map ic) y = SSD_POOL then image_byte ic cl y else 0)"
    if y: "unat y < unat (ic_size ic)" for y
  proof (cases "em_tier (ic_extent_map ic) y = SSD_POOL")
    case True
    then have "cl' (data_ctx ic (em_tier (ic_extent_map ic) y)) = cl (data_ctx ic (em_tier (ic_extent_map ic) y))"
      using assms(6) by (intro other(1)) (simp add: data_ctx_def)
    then show ?thesis using True by (simp add: image_byte_def)
  next
    case False
    then have "data_ctx ic (em_tier (ic_extent_map ic) y) = ?hdd" by (simp add: data_ctx_def)
    then show ?thesis
      using False reach [OF y] by (simp add: image_byte_def b get_object_name_def [symmetric] not_less)
  qed
  ultimately show ?thesis by blast
qed

lemma write_size_header:
  assumes "resize_ready ev ic h cl"
  shows "\<exists>cl'. write_size ev sz (ic, hdr, cl) = Some (0, ic, hdr, cl')
    \<and> reprs (snd (header_spec (SetSize sz) h)) (cl' (ic_hdd_id ic) (ic_header_oid ic))
    \<and> header_ok (snd (header_spec (SetSize sz) h))
    \<and> (\<forall>p oid. p \<noteq> ic_hdd_id ic \<or> oid \<noteq> ic_header_oid ic \<longrightarrow> cl' p oid = cl p oid)"
proof -
  let ?hdd = "ic_hdd_id ic" and ?oid = "ic_header_oid ic" and ?h = "snd (header_spec (SetSize sz) h)"
  have ctx: "md_ctx ic DEFAULT_POOL = ?hdd" by (simp add: md_ctx_def data_ctx_def whobbs_consts)
  have r: "reprs h (cl ?hdd ?oid)" "header_ok h" "\<not> ic_old_format ic" "\<not> ev_fault ev ?hdd ?oid < 0"
    using assms by (auto simp: resize_ready_def quiet_def)
  have fit: "call_fits (SetSize sz)" by simp
  have spec: "header_spec (SetSize sz) h = (0, ?h)" by simp
  obtain p' where "io_call ?oid (call_method (SetSize sz)) (call_args (SetSize sz)) ([ev_fault ev ?hdd ?oid], cl ?hdd)
      = Some (0, ([], p'))" "reprs ?h (p' ?oid)" "header_ok ?h" "\<forall>o'. o' \<noteq> ?oid \<longrightarrow> p' o' = cl ?hdd o'"
    using header_call_run [where p = "cl ?hdd" and oid = ?oid, OF r(1,2) fit spec] r(4)
    by (auto simp: fault_of_def)
  then show ?thesis
    using r(3) by (intro exI [of _ "cl(?hdd := p')"])
      (simp add: write_size_def md_request_def ctx Let_def header_call_forms)
qed

lemma image_byte_fields: "ic_extent_map ic' = ic_extent_map ic \<Longrightarrow> ic_layout ic' = ic_layout ic \<Longrightarrow>
    ic_format_string ic' = ic_format_string ic \<Longrightarrow> ic_hdd_id ic' = ic_hdd_id ic \<Longrightarrow> ic_ssd_id ic' = ic_ssd_id ic \<Longrightarrow>
    image_byte ic' cl y = image_byte ic cl y"
  by (simp add: image_byte_def data_ctx_def)

lemma image_byte_other:
  assumes "\<forall>n. oid \<noteq> get_object_name ic n" "\<forall>p o'. p \<noteq> hdd \<or> o' \<noteq> oid \<longrightarrow> cl' p o' = cl p o'"
  shows "image_byte ic cl' y = image_byte ic cl y"
proof -
  have "cl' p (format_oid (ic_format_string ic) n) = cl p (format_oid (ic_format_string ic) n)" for p n
    using assms unfolding get_object_name_def by metis
  then show ?thesis by (simp add: image_byte_def)
qed

lemma shrink_run:
  assumes "image_ok ic" "geometry_ok ic" "no_seqs cl" "unwatched cl" "resize_ready ev ic h cl" "ops \<noteq> 0" "sz < ic_size ic"
  shows "\<exists>cl'. resize ev ops sz (ic, hdr, cl) = Some (0, notify_change (ic\<lparr>ic_size := sz\<rparr>), hdr, cl')
    \<and> reprs (snd (header_spec (SetSize sz) h)) (cl' (ic_hdd_id ic) (ic_header_oid ic))
    \<and> (\<forall>y. unat y < unat (ic_size ic) \<longrightarrow> image_byte ic cl' y =
         (if unat y < unat sz \<or> em_tier (ic_extent_map ic) y = SSD_POOL then image_byte ic cl y else 0))"
proof -
  let ?ic = "ic\<lparr>ic_size := sz\<rparr>" and ?hdd = "ic_hdd_id ic"
  have q: "quiet ev" "ic_hdd_id ic \<noteq> ic_ssd_id ic" "\<not> ic_read_only ic" "\<forall>n. ic_header_oid ic \<noteq> get_object_name ic n"
    using assms(5) by (auto simp: resize_ready_def)
  obtain cl1 where t: "trim_image ev ops ic sz cl = Some cl1"
    "\<forall>oid. (\<forall>n. oid \<noteq> get_object_name ic n) \<longrightarrow> cl1 ?hdd oid = cl ?hdd oid"
    and b: "\<And>y. unat y < unat (ic_size ic) \<Longrightarrow> image_byte ic cl1 y =
         (if unat y < unat sz \<or> em_tier (ic_extent_map ic) y = SSD_POOL then image_byte ic cl y else 0)"
    using trim_image_bytes [OF assms(1,2) q(1) assms(3,4) q(2) assms(6,7)] by blast
  have "resize_ready ev ?ic h cl1"
    using assms(5) t(2) q(4) by (simp add: resize_ready_def get_object_name_def)
  then obtain cl2 where w: "write_size ev sz (?ic, hdr, cl1) = Some (0, ?ic, hdr, cl2)"
    "reprs (snd (header_spec (SetSize sz) h)) (cl2 ?hdd (ic_header_oid ic))"
    "\<forall>p oid. p \<noteq> ?hdd \<or> oid \<noteq> ic_header_oid ic \<longrightarrow> cl2 p oid = cl1 p oid"
    using write_size_header [of ev ?ic h cl1 sz hdr] by auto
  have chk: "ictx_check ev ic = (0, ic)" using assms(1) by (simp add: ictx_check_def image_ok_def)
  have "resize ev ops sz (ic, hdr, cl) = Some (0, notify_change ?ic, hdr, cl2)"
    using assms(7) by (auto simp: resize_def resize_helper_def q(3) chk t(1) w(1))
  then show ?thesis using w(2) b image_byte_other [OF q(4) w(3)] by simp
qed

text \<open>C26. A shrink is exact on the HDD pool and incomplete on the SSD pool. With no failing operation, a new-format
  image with a well-formed header, and a layout whose stripe period the context counts: \<open>resize\<close> to a
  smaller size returns 0; the context and the header have the new size, the header's parent overlap being
  clipped to it; every byte below the new size is what it was; the bytes from the new size up to the old
  one are gone where the extent table places them on the HDD pool, and are still there where it places them
  on the SSD pool, since all requests of \<open>trim_image\<close> go to the default pool.\<close>

theorem resize_shrink_exact:
  assumes "image_ok ic" "geometry_ok ic" "no_seqs cl" "unwatched cl" "resize_ready ev ic h cl" "ops \<noteq> 0" "sz < ic_size ic"
  shows "\<exists>cl'. resize ev ops sz (ic, hdr, cl) = Some (0, notify_change (ic\<lparr>ic_size := sz\<rparr>), hdr, cl')
    \<and> reprs (snd (header_spec (SetSize sz) h)) (cl' (ic_hdd_id ic) (ic_header_oid ic))
    \<and> (\<forall>y. unat y < unat (ic_size ic) \<longrightarrow> image_byte ic cl' y =
         (if unat y < unat sz \<or> em_tier (ic_extent_map ic) y = SSD_POOL then image_byte ic cl y else 0))"
  by (rule shrink_run [OF assms])

text \<open>The context after \<open>notify_change\<close> and the refresh that the next operation makes.\<close>

definition refreshed :: "ImageCtx \<Rightarrow> ImageCtx" where
  "refreshed ic = ic\<lparr>ic_last_refresh := ic_refresh_seq ic\<rparr>"

text \<open>C27. What was cut off comes back: shrinking an image and growing it to its old size again, where the
  second \<open>resize\<close> refreshes the context to the header it reads, returns 0 both times, and afterwards
  every byte whose extent is on the SSD pool is what it was before the shrink, also above the size in between.\<close>

theorem shrink_grow_restores_ssd:
  assumes "image_ok ic" "geometry_ok ic" "no_seqs cl" "unwatched cl" "resize_ready ev ic h cl" "ops \<noteq> 0" "sz < ic_size ic"
    "ev_refresh ev (notify_change (ic\<lparr>ic_size := sz\<rparr>)) = (0, refreshed (notify_change (ic\<lparr>ic_size := sz\<rparr>)))"
  shows "\<exists>ic1 cl1 ic2 cl2. resize ev ops sz (ic, hdr, cl) = Some (0, ic1, hdr, cl1) \<and> ic_size ic1 = sz
    \<and> resize ev ops (ic_size ic) (ic1, hdr, cl1) = Some (0, ic2, hdr, cl2) \<and> ic_size ic2 = ic_size ic
    \<and> (\<forall>y. unat y < unat (ic_size ic) \<longrightarrow> image_byte ic2 cl2 y =
         (if unat y < unat sz \<or> em_tier (ic_extent_map ic) y = SSD_POOL then image_byte ic cl y else 0))"
proof -
  let ?ic1 = "notify_change (ic\<lparr>ic_size := sz\<rparr>)" and ?hdd = "ic_hdd_id ic" and ?h = "snd (header_spec (SetSize sz) h)"
  let ?ic2 = "(refreshed ?ic1)\<lparr>ic_size := ic_size ic\<rparr>"
  have q: "\<not> ic_read_only ic" "\<forall>n. ic_header_oid ic \<noteq> get_object_name ic n" "header_ok ?h"
    using assms(5) write_size_header [OF assms(5), of sz hdr] by (auto simp: resize_ready_def)
  obtain cl1 where s: "resize ev ops sz (ic, hdr, cl) = Some (0, ?ic1, hdr, cl1)" "reprs ?h (cl1 ?hdd (ic_header_oid ic))"
    and b: "\<And>y. unat y < unat (ic_size ic) \<Longrightarrow> image_byte ic cl1 y =
         (if unat y < unat sz \<or> em_tier (ic_extent_map ic) y = SSD_POOL then image_byte ic cl y else 0)"
    using shrink_run [OF assms(1-7), of hdr] by blast
  have "resize_ready ev ?ic2 ?h cl1"
    using assms(5) s(2) q(3) by (simp add: resize_ready_def get_object_name_def notify_change_def refreshed_def)
  then obtain cl2 where w: "write_size ev (ic_size ic) (?ic2, hdr, cl1) = Some (0, ?ic2, hdr, cl2)"
    "\<forall>p oid. p \<noteq> ?hdd \<or> oid \<noteq> ic_header_oid ic \<longrightarrow> cl2 p oid = cl1 p oid"
    using write_size_header [of ev ?ic2 ?h cl1 "ic_size ic" hdr] by (auto simp: notify_change_def refreshed_def)
  have chk: "ictx_check ev ?ic1 = (0, refreshed ?ic1)"
    using assms(1,8) by (simp add: ictx_check_def image_ok_def notify_change_def)
  have ro: "\<not> ic_read_only ?ic1" "ic_size (refreshed ?ic1) = sz" using q(1) by (simp_all add: notify_change_def refreshed_def)
  have "resize ev ops (ic_size ic) (?ic1, hdr, cl1) = Some (0, notify_change ?ic2, hdr, cl2)"
    using assms(7) by (auto simp: resize_def resize_helper_def ro chk w(1))
  moreover have "image_byte (notify_change ?ic2) cl2 y = image_byte ic cl1 y" for y
    unfolding image_byte_other [OF q(2) w(2), symmetric]
    by (rule image_byte_fields) (simp_all add: notify_change_def refreshed_def)
  ultimately show ?thesis
    using s(1) b by (intro exI [of _ ?ic1] exI [of _ cl1] exI [of _ "notify_change ?ic2"] exI [of _ cl2])
      (simp add: notify_change_def refreshed_def)
qed

subsection \<open>A tiered image\<close>

lemma tiered_geometry: "geometry_ok image_tiered"
  by (simp add: geometry_ok_def image_tiered_def image_9M_def layout_exact_def layout_ok_def get_stripe_period_def)

definition refreshing_env :: io_env where
  "refreshing_env = quiet_env\<lparr>ev_refresh := \<lambda>ic. (0, refreshed ic)\<rparr>"

lemma tiered_ready:
  "\<exists>cl h. resize_ready refreshing_env image_tiered h cl \<and> no_seqs cl \<and> unwatched cl
    \<and> image_byte image_tiered cl 4194303 = 1 \<and> image_byte image_tiered cl 4194304 = 2"
proof -
  let ?h = "created 9000000 22 1 ''rbd_data.1''" and ?oid = "''rbd_header.1''"
  obtain obs where "reprs ?h obs"
    using create_reprs [of 1 "''rbd_data.1''" None 9000000 22]
    by (auto simp: RBD_FEATURES_ALL_def RBD_FEATURE_LAYERING_def RBD_FEATURE_STRIPINGV2_def small_string_def omap_of_def)
  then have r: "reprs ?h (Some (fresh_object\<lparr>od_omap := omap_of obs\<rparr>))"
    by (auto simp: reprs_def)
  let ?cl = "cluster_12(3 := (cluster_12 3)(?oid := Some (fresh_object\<lparr>od_omap := omap_of obs\<rparr>)))"
  have f: "ic_hdd_id image_tiered = 3" "ic_ssd_id image_tiered = 4" "\<not> ic_read_only image_tiered" "\<not> ic_old_format image_tiered"
    "ic_header_oid image_tiered = ?oid"
    by (simp_all add: image_tiered_def image_9M_def)
  have n: "\<forall>n. ?oid \<noteq> get_object_name image_tiered n"
    by (simp add: get_object_name_def format_oid_def image_tiered_def image_9M_def)
  have "quiet refreshing_env" using quiet_env_quiet by (simp add: quiet_def refreshing_env_def)
  moreover have "header_ok ?h" by (rule created_ok) (simp add: small_string_def)
  ultimately have "resize_ready refreshing_env image_tiered ?h ?cl"
    using r n by (simp add: resize_ready_def f)
  moreover have "no_seqs ?cl" using no_seqs_12 by (simp add: no_seqs_def seq_zero_def fresh_object_def)
  moreover have "unwatched ?cl" by (simp add: unwatched_def cluster_12_def fresh_object_def)
  moreover have "\<forall>p o'. p \<noteq> 3 \<or> o' \<noteq> ?oid \<longrightarrow> ?cl p o' = cluster_12 p o'" by simp
  note image_byte_other [OF n this]
  ultimately show ?thesis using image_tiered_byte by metis
qed

lemma tiered_tiers:
  "em_tier (ic_extent_map image_tiered) 4194303 = HDD_POOL" "em_tier (ic_extent_map image_tiered) 4194304 = SSD_POOL"
  by (simp_all add: em_tier_def image_tiered_def image_9M_def whobbs_consts)

lemma resize_shrink_exact_witness:
  "\<exists>ic' cl cl'. resize refreshing_env 10 4194303 (image_tiered, demo_ondisk, cl) = Some (0, ic', demo_ondisk, cl')
    \<and> image_byte image_tiered cl 4194303 = 1 \<and> image_byte image_tiered cl' 4194303 = 0
    \<and> image_byte image_tiered cl' 4194304 = 2"
proof -
  obtain cl h where r: "resize_ready refreshing_env image_tiered h cl" "no_seqs cl" "unwatched cl"
    and b: "image_byte image_tiered cl 4194303 = 1" "image_byte image_tiered cl 4194304 = 2"
    using tiered_ready by blast
  have sz: "ic_size image_tiered = 9000000" by (simp add: image_tiered_def image_9M_def)
  have pools: "HDD_POOL \<noteq> SSD_POOL" by (simp add: whobbs_consts)
  obtain cl' where "resize refreshing_env 10 4194303 (image_tiered, demo_ondisk, cl)
      = Some (0, notify_change (image_tiered\<lparr>ic_size := 4194303\<rparr>), demo_ondisk, cl')"
    and c: "\<forall>y. unat y < unat (ic_size image_tiered) \<longrightarrow> image_byte image_tiered cl' y =
      (if unat y < unat (4194303 :: u64) \<or> em_tier (ic_extent_map image_tiered) y = SSD_POOL then image_byte image_tiered cl y else 0)"
    using resize_shrink_exact [OF image_tiered_ok tiered_geometry r(2,3,1), of 10 4194303 demo_ondisk] sz by auto
  then show ?thesis
    using b spec [OF c, of 4194303] spec [OF c, of 4194304] tiered_tiers pools
    by (intro exI [of _ "notify_change (image_tiered\<lparr>ic_size := 4194303\<rparr>)"] exI [of _ cl] exI [of _ cl']) (simp add: sz)
qed

lemma shrink_grow_restores_ssd_witness:
  "\<exists>cl ic1 cl1 ic2 cl2. resize refreshing_env 10 0 (image_tiered, demo_ondisk, cl) = Some (0, ic1, demo_ondisk, cl1)
    \<and> ic_size ic1 = 0 \<and> resize refreshing_env 10 9000000 (ic1, demo_ondisk, cl1) = Some (0, ic2, demo_ondisk, cl2)
    \<and> image_byte ic2 cl2 4194303 = 0 \<and> image_byte ic2 cl2 4194304 = 2"
proof -
  obtain cl h where r: "resize_ready refreshing_env image_tiered h cl" "no_seqs cl" "unwatched cl"
    and b: "image_byte image_tiered cl 4194304 = 2"
    using tiered_ready by blast
  have sz: "ic_size image_tiered = 9000000" by (simp add: image_tiered_def image_9M_def)
  have pools: "HDD_POOL \<noteq> SSD_POOL" by (simp add: whobbs_consts)
  have ev: "ev_refresh refreshing_env (notify_change (image_tiered\<lparr>ic_size := 0\<rparr>))
      = (0, refreshed (notify_change (image_tiered\<lparr>ic_size := 0\<rparr>)))"
    by (simp add: refreshing_env_def)
  obtain ic1 cl1 ic2 cl2 where "resize refreshing_env 10 0 (image_tiered, demo_ondisk, cl) = Some (0, ic1, demo_ondisk, cl1)"
    "ic_size ic1 = 0" "resize refreshing_env 10 9000000 (ic1, demo_ondisk, cl1) = Some (0, ic2, demo_ondisk, cl2)"
    and c: "\<forall>y. unat y < unat (ic_size image_tiered) \<longrightarrow> image_byte ic2 cl2 y =
      (if unat y < unat (0 :: u64) \<or> em_tier (ic_extent_map image_tiered) y = SSD_POOL then image_byte image_tiered cl y else 0)"
    using shrink_grow_restores_ssd [OF image_tiered_ok tiered_geometry r(2,3,1) _ _ ev, of 10 demo_ondisk] sz by auto
  then show ?thesis
    using b spec [OF c, of 4194303] spec [OF c, of 4194304] tiered_tiers pools
    by (intro exI [of _ cl] exI [of _ ic1] exI [of _ cl1] exI [of _ ic2] exI [of _ cl2]) (simp add: sz)
qed

end
