(* ===== verification/Tmap.thy ===== *)
theory Tmap
  imports Encoding Rados_Io
begin

text \<open>
  Trivial maps: an object whose bytes are a header and a sorted map of strings, the form in which the
  directory of old images is kept, and the operation that updates it (\<open>do_tmapup\<close>, \<open>do_tmapup_slow\<close> of
  \<open>osd/ReplicatedPG.cc\<close>). The fast update merges the sorted commands into the stored map in one pass; it
  gives way to the slow one, which builds the map, when the commands are not sorted. The two are the
  same, and are what the commands say, unless two commands in a row have the same key. An exception of
  the decoder that nothing catches is \<open>None\<close>.
\<close>

subsection \<open>Byte strings and entries\<close>

definition encode_bl :: "bytes \<Rightarrow> bytes" where
  "encode_bl b = (let len = of_nat (length b) :: u32 in encode_u32 len @ b)"

definition decode_bl :: "bytes \<Rightarrow> (bytes \<times> bytes) option" where
  "decode_bl p = (case decode_u32 p of None \<Rightarrow> None | Some (len, p) \<Rightarrow> decode_raw (unat len) p)"

interpretation cbl: codec encode_bl decode_bl short
  by unfold_locales (simp add: encode_bl_def decode_bl_def unat_short c32.dec_enc decode_raw_append)

definition encode_entry :: "string \<times> bytes \<Rightarrow> bytes" where
  "encode_entry = encode_pair encode_string encode_bl"

definition decode_entry :: "bytes \<Rightarrow> ((string \<times> bytes) \<times> bytes) option" where
  "decode_entry = decode_pair decode_string decode_bl"

interpretation centry: codec_pair encode_string decode_string short encode_bl decode_bl short
  by unfold_locales

definition entry_fits :: "string \<times> bytes \<Rightarrow> bool" where
  "entry_fits e \<longleftrightarrow> short (fst e) \<and> short (snd e)"

lemma decode_entry_enc: "entry_fits e \<Longrightarrow> decode_entry (encode_entry e @ p) = Some (e, p)"
  unfolding encode_entry_def decode_entry_def entry_fits_def by (rule centry.pair.dec_enc) simp

text \<open>Decoding consumes what it decodes.\<close>

lemma decode_raw_length: "decode_raw n p = Some (b, q) \<Longrightarrow> length q + n = length p"
  by (auto simp: decode_raw_def split: if_splits)

lemma decode_u8_length: "decode_u8 p = Some (x, q) \<Longrightarrow> length q < length p"
  by (auto simp: decode_u8_def dest!: decode_raw_length split: option.splits)

lemma decode_u32_length: "decode_u32 p = Some (x, q) \<Longrightarrow> length q < length p"
  by (auto simp: decode_u32_def dest!: decode_raw_length split: option.splits)

lemma decode_string_length: "decode_string p = Some (s, q) \<Longrightarrow> length q < length p"
  by (auto simp: decode_string_def dest!: decode_raw_length decode_u32_length split: option.splits)

lemma decode_bl_length: "decode_bl p = Some (b, q) \<Longrightarrow> length q < length p"
  by (auto simp: decode_bl_def dest!: decode_raw_length decode_u32_length split: option.splits)

lemma decode_pair_length:
  assumes "decode_pair da db p = Some (x, q)"
    "\<And>p a q. da p = Some (a, q) \<Longrightarrow> length q < length p" "\<And>p b q. db p = Some (b, q) \<Longrightarrow> length q < length p"
  shows "length q < length p"
  using assms(1) by (auto simp: decode_pair_def split: option.splits dest!: assms(2,3))

lemma decode_entry_length:
  assumes "decode_entry p = Some (e, q)"
  shows "length q < length p"
proof -
  have "decode_pair decode_string decode_bl p = Some (e, q)" using assms by (simp add: decode_entry_def)
  then show ?thesis by (rule decode_pair_length) (rule decode_string_length decode_bl_length, assumption)+
qed

lemma decode_command_length:
  assumes "decode_pair decode_u8 decode_string p = Some (x, q)"
  shows "length q < length p"
  using assms by (rule decode_pair_length) (rule decode_u8_length decode_string_length, assumption)+

subsection \<open>The slow update\<close>

definition CEPH_OSD_TMAP_HDR :: u8 where "CEPH_OSD_TMAP_HDR = 0x68"
definition CEPH_OSD_TMAP_SET :: u8 where "CEPH_OSD_TMAP_SET = 0x73"
definition CEPH_OSD_TMAP_CREATE :: u8 where "CEPH_OSD_TMAP_CREATE = 0x63"
definition CEPH_OSD_TMAP_RM :: u8 where "CEPH_OSD_TMAP_RM = 0x72"
definition CEPH_OSD_TMAP_RMSLOPPY :: u8 where "CEPH_OSD_TMAP_RMSLOPPY = 0x52"

lemmas tmap_ops = CEPH_OSD_TMAP_HDR_def CEPH_OSD_TMAP_SET_def CEPH_OSD_TMAP_CREATE_def CEPH_OSD_TMAP_RM_def
  CEPH_OSD_TMAP_RMSLOPPY_def

type_synonym tmap = "(string, bytes) smap"

fun decode_entries :: "nat \<Rightarrow> tmap \<Rightarrow> bytes \<Rightarrow> (tmap \<times> bytes) option" where
  "decode_entries 0 m p = Some (m, p)"
| "decode_entries (Suc n) m p =
     (case decode_entry p of None \<Rightarrow> None | Some ((k, v), p) \<Rightarrow> decode_entries n (smap_put k v m) p)"

definition decode_tmap :: "bytes \<Rightarrow> ((bytes \<times> tmap) \<times> bytes) option" where
  "decode_tmap =
     decode_pair decode_bl (\<lambda>p. case decode_u32 p of None \<Rightarrow> None | Some (n, p) \<Rightarrow> decode_entries (unat n) [] p)"

definition encode_tmap :: "bytes \<Rightarrow> tmap \<Rightarrow> bytes" where
  "encode_tmap header m = encode_bl header @ encode_u32 (of_nat (length m)) @ concat (map encode_entry m)"

text \<open>One command; \<open>Inl\<close> is the error that ends the update.\<close>

definition slow_command :: "bytes \<times> tmap \<Rightarrow> bytes \<Rightarrow> (int + (bytes \<times> tmap) \<times> bytes) option" where
  "slow_command st bp =
     (case st of (header, m) \<Rightarrow>
       case decode_u8 bp of None \<Rightarrow> None
       | Some (opc, bp) \<Rightarrow>
           if opc = CEPH_OSD_TMAP_SET then
             map_option (\<lambda>((key, data), bp). Inr ((header, smap_put key data m), bp)) (decode_entry bp)
           else if opc = CEPH_OSD_TMAP_RM then
             map_option (\<lambda>(key, bp). if key \<notin> fst ` set m then Inl (- ENOENT)
                                      else Inr ((header, smap_erase key m), bp)) (decode_string bp)
           else if opc = CEPH_OSD_TMAP_RMSLOPPY then
             map_option (\<lambda>(key, bp). Inr ((header, smap_erase key m), bp)) (decode_string bp)
           else if opc = CEPH_OSD_TMAP_HDR then
             map_option (\<lambda>(header, bp). Inr ((header, m), bp)) (decode_bl bp)
           else Some (Inl (- EINVAL)))"

lemma slow_command_length: "slow_command st bp = Some (Inr (st', q)) \<Longrightarrow> length q < length bp"
  by (auto simp: slow_command_def split: prod.splits option.splits if_splits
      dest!: decode_u8_length decode_entry_length decode_string_length decode_bl_length)

function slow_loop :: "bytes \<times> tmap \<Rightarrow> bytes \<Rightarrow> (int + bytes \<times> tmap) option" where
  "slow_loop st bp =
     (if bp = [] then Some (Inr st)
      else (case slow_command st bp of
              None \<Rightarrow> None
            | Some (Inl r) \<Rightarrow> Some (Inl r)
            | Some (Inr (st', bp')) \<Rightarrow> slow_loop st' bp'))"
  by auto
termination by (relation "measure (\<lambda>(st, bp). length bp)") (auto dest: slow_command_length)

declare slow_loop.simps [simp del]

text \<open>The result of writing the object is not looked at.\<close>

definition tmap_write :: "u64 \<Rightarrow> bytes \<Rightarrow> osd_object option \<Rightarrow> osd_object option" where
  "tmap_write mx obl obs = (case op_write_full mx 0 (of_nat (length obl)) obl obs of (_, _, obs') \<Rightarrow> obs')"

definition do_tmapup_slow :: "u64 \<Rightarrow> bytes \<Rightarrow> bytes \<Rightarrow> osd_object option \<Rightarrow> op_result option" where
  "do_tmapup_slow mx bp bl obs =
     (case (if bl = [] then Some ([], [])
            else case decode_tmap bl of
                   None \<Rightarrow> None
                 | Some (st, rest) \<Rightarrow> if rest = [] then Some st else None) of
        None \<Rightarrow> None
      | Some st \<Rightarrow>
          (case slow_loop st bp of
             None \<Rightarrow> None
           | Some (Inl r) \<Rightarrow> Some (r, NoOut, obs)
           | Some (Inr (header, m)) \<Rightarrow> Some (0, DataOut [], tmap_write mx (encode_tmap header m) obs)))"

subsection \<open>The fast update\<close>

text \<open>What is read of the stored map: its bytes to come, the entry that was decoded ahead, the count,
  and the bytes of the new map.\<close>

record tmap_scan =
  ts_in :: bytes
  ts_next :: "(string \<times> bytes) option"
  ts_nkeys :: u32
  ts_out :: bytes

definition read_ahead :: "bytes \<Rightarrow> ((string \<times> bytes) option \<times> bytes) option" where
  "read_ahead ip = (if ip = [] then Some (None, []) else map_option (\<lambda>(e, ip). (Some e, ip)) (decode_entry ip))"

text \<open>The keys below the key of a command are kept; its own entry is dropped and ends the walk.\<close>

function skip_keys :: "string \<Rightarrow> tmap_scan \<Rightarrow> (bool \<times> tmap_scan) option" where
  "skip_keys key s =
     (case ts_next s of
        None \<Rightarrow> Some (False, s)
      | Some (nextkey, nextval) \<Rightarrow>
          if key < nextkey then Some (False, s)
          else (case read_ahead (ts_in s) of
                  None \<Rightarrow> None
                | Some (nx, ip) \<Rightarrow>
                    if nextkey < key
                    then skip_keys key (s\<lparr>ts_out := ts_out s @ encode_entry (nextkey, nextval),
                                          ts_next := nx, ts_in := ip\<rparr>)
                    else Some (True, s\<lparr>ts_nkeys := ts_nkeys s - 1, ts_next := nx, ts_in := ip\<rparr>)))"
  by auto
termination
  by (relation "measure (\<lambda>(key, s). length (ts_in s) + (if ts_next s = None then 0 else 1))")
    (auto simp: read_ahead_def split: if_splits dest: decode_entry_length)

declare skip_keys.simps [simp del]

datatype tmap_end = TDone tmap_scan | TError int | TUnsorted

function tmap_loop :: "string \<Rightarrow> tmap_scan \<Rightarrow> bytes \<Rightarrow> tmap_end option" where
  "tmap_loop last_in_key s bp =
     (if bp = [] then Some (TDone s)
      else case decode_pair decode_u8 decode_string bp of
        None \<Rightarrow> Some (TError (- EINVAL))
      | Some ((opc, key), bp1) \<Rightarrow>
          if key < last_in_key then Some TUnsorted
          else (case skip_keys key s of
            None \<Rightarrow> None
          | Some (key_exists, s1) \<Rightarrow>
              if opc = CEPH_OSD_TMAP_SET \<or> opc = CEPH_OSD_TMAP_CREATE then
                if opc = CEPH_OSD_TMAP_CREATE \<and> key_exists then Some (TError (- EEXIST))
                else (case decode_bl bp1 of
                        None \<Rightarrow> Some (TError (- EINVAL))
                      | Some (val, bp2) \<Rightarrow>
                          tmap_loop key (s1\<lparr>ts_out := ts_out s1 @ encode_entry (key, val),
                                           ts_nkeys := ts_nkeys s1 + 1\<rparr>) bp2)
              else if opc = CEPH_OSD_TMAP_RM then
                (if key_exists then tmap_loop key s1 bp1 else Some (TError (- ENOENT)))
              else if opc = CEPH_OSD_TMAP_RMSLOPPY then tmap_loop key s1 bp1
              else Some (TError (- EINVAL))))"
  by auto
termination
  by (relation "measure (\<lambda>(k, s, bp). length bp)")
    (auto dest!: decode_bl_length decode_command_length)

declare tmap_loop.simps [simp del]

definition tmap_load :: "bytes \<Rightarrow> (bytes \<times> u32 \<times> bytes) option" where
  "tmap_load data =
     (if data = [] then Some ([], 0, [])
      else case decode_pair decode_bl decode_u32 data of
             None \<Rightarrow> None | Some ((header, nkeys), ip) \<Rightarrow> Some (header, nkeys, ip))"

definition tmap_header :: "bytes \<Rightarrow> bytes \<Rightarrow> (bytes \<times> bytes) option" where
  "tmap_header header bp =
     (if bp \<noteq> [] \<and> hd bp = CEPH_OSD_TMAP_HDR then decode_bl (tl bp) else Some (header, bp))"

definition tmap_rest :: "tmap_scan \<Rightarrow> bytes" where
  "tmap_rest s = (case ts_next s of None \<Rightarrow> [] | Some e \<Rightarrow> encode_entry e) @ ts_in s"

definition do_tmapup :: "u64 \<Rightarrow> bytes \<Rightarrow> osd_object option \<Rightarrow> op_result option" where
  "do_tmapup mx inp obs =
     (if inp = [] then Some (0, NoOut, obs)
      else
        let data = (case op_read 0 0 0 0 obs of (_, DataOut d, _) \<Rightarrow> d | _ \<Rightarrow> [])
        in case tmap_load data of None \<Rightarrow> None
        | Some (header, nkeys, ip) \<Rightarrow>
          (case tmap_header header inp of None \<Rightarrow> None
           | Some (header1, bp) \<Rightarrow>
             (case read_ahead ip of None \<Rightarrow> None
              | Some (nx, ip1) \<Rightarrow>
                  if (case nx of None \<Rightarrow> False | Some (nextkey, _) \<Rightarrow> nextkey < []) then do_tmapup_slow mx inp data obs
                  else
                    (case tmap_loop [] \<lparr>ts_in = ip1, ts_next = nx, ts_nkeys = nkeys, ts_out = []\<rparr> bp of
                       None \<Rightarrow> None
                     | Some (TError r) \<Rightarrow> Some (r, NoOut, obs)
                     | Some TUnsorted \<Rightarrow> do_tmapup_slow mx inp data obs
                     | Some (TDone s) \<Rightarrow>
                         Some (0, DataOut data,
                           tmap_write mx (encode_bl header1 @ encode_u32 (ts_nkeys s) @ ts_out s @ tmap_rest s) obs)))))"

subsection \<open>What the commands say\<close>

datatype tmap_cmd = TSet string bytes | TCreate string bytes | TRm string | TRmSloppy string

fun cmd_key :: "tmap_cmd \<Rightarrow> string" where
  "cmd_key (TSet k v) = k"
| "cmd_key (TCreate k v) = k"
| "cmd_key (TRm k) = k"
| "cmd_key (TRmSloppy k) = k"

fun cmd_bytes :: "tmap_cmd \<Rightarrow> bytes" where
  "cmd_bytes (TSet k v) = encode_u8 CEPH_OSD_TMAP_SET @ encode_string k @ encode_bl v"
| "cmd_bytes (TCreate k v) = encode_u8 CEPH_OSD_TMAP_CREATE @ encode_string k @ encode_bl v"
| "cmd_bytes (TRm k) = encode_u8 CEPH_OSD_TMAP_RM @ encode_string k"
| "cmd_bytes (TRmSloppy k) = encode_u8 CEPH_OSD_TMAP_RMSLOPPY @ encode_string k"

fun cmd_fits :: "tmap_cmd \<Rightarrow> bool" where
  "cmd_fits (TSet k v) \<longleftrightarrow> entry_fits (k, v)"
| "cmd_fits (TCreate k v) \<longleftrightarrow> entry_fits (k, v)"
| "cmd_fits (TRm k) \<longleftrightarrow> short k"
| "cmd_fits (TRmSloppy k) \<longleftrightarrow> short k"

fun tmap_apply :: "tmap_cmd \<Rightarrow> tmap \<Rightarrow> int + tmap" where
  "tmap_apply (TSet k v) m = Inr (smap_put k v m)"
| "tmap_apply (TCreate k v) m = (if k \<in> fst ` set m then Inl (- EEXIST) else Inr (smap_put k v m))"
| "tmap_apply (TRm k) m = (if k \<in> fst ` set m then Inr (smap_erase k m) else Inl (- ENOENT))"
| "tmap_apply (TRmSloppy k) m = Inr (smap_erase k m)"

fun tmap_updates :: "tmap_cmd list \<Rightarrow> tmap \<Rightarrow> int + tmap" where
  "tmap_updates [] m = Inr m"
| "tmap_updates (c # cs) m = (case tmap_apply c m of Inl r \<Rightarrow> Inl r | Inr m \<Rightarrow> tmap_updates cs m)"

abbreviation cmds_bytes :: "tmap_cmd list \<Rightarrow> bytes" where
  "cmds_bytes cs \<equiv> concat (map cmd_bytes cs)"

abbreviation entries_bytes :: "tmap \<Rightarrow> bytes" where
  "entries_bytes m \<equiv> concat (map encode_entry m)"

definition tmap_fits :: "bytes \<Rightarrow> tmap \<Rightarrow> bool" where
  "tmap_fits header m \<longleftrightarrow> short header \<and> short m \<and> smap_ok m \<and> (\<forall>e \<in> set m. entry_fits e)"

subsection \<open>Sorted maps at a key\<close>

lemma smap_erase_other: "k \<notin> fst ` set m \<Longrightarrow> smap_erase k m = m"
  by (induction m) auto

lemma smap_put_at:
  assumes "\<forall>a \<in> fst ` set xs. a < k" "\<forall>a \<in> fst ` set ys. k < a"
  shows "smap_put k v (xs @ ys) = xs @ (k, v) # ys" "smap_put k v (xs @ (k, w) # ys) = xs @ (k, v) # ys"
    "smap_erase k (xs @ ys) = xs @ ys" "smap_erase k (xs @ (k, w) # ys) = xs @ ys"
    "k \<notin> fst ` set (xs @ ys)" "k \<in> fst ` set (xs @ (k, w) # ys)"
proof -
  show "smap_put k v (xs @ ys) = xs @ (k, v) # ys"
    using assms by (induction xs) (cases ys, auto)+
  show "smap_put k v (xs @ (k, w) # ys) = xs @ (k, v) # ys"
    using assms(1) by (induction xs) auto
  show "k \<notin> fst ` set (xs @ ys)" using assms by (auto simp: image_iff)
  then show "smap_erase k (xs @ ys) = xs @ ys" by (rule smap_erase_other)
  show "smap_erase k (xs @ (k, w) # ys) = xs @ ys"
    using assms(1) by (induction xs) auto
qed simp

lemma smap_ok_between:
  assumes "\<forall>a \<in> fst ` set xs. a < k" "\<forall>a \<in> fst ` set ys. k < a"
  shows "smap_ok (xs @ ys) \<Longrightarrow> smap_ok ((xs @ [(k, v)]) @ ys)" "smap_ok (xs @ (k, v) # ys) \<Longrightarrow> smap_ok (xs @ ys)"
  using assms unfolding append.assoc smap_ok_append by auto

subsection \<open>The walk over the stored keys\<close>

text \<open>What a scan has read stands for: the entries written, and the entries to come.\<close>

definition scans :: "tmap_scan \<Rightarrow> tmap \<Rightarrow> tmap \<Rightarrow> bool" where
  "scans s outl rem \<longleftrightarrow> ts_out s = entries_bytes outl \<and> ts_nkeys s = of_nat (length outl + length rem)
     \<and> (\<forall>e \<in> set rem. entry_fits e)
     \<and> (case rem of [] \<Rightarrow> ts_next s = None \<and> ts_in s = [] | e # es \<Rightarrow> ts_next s = Some e \<and> ts_in s = entries_bytes es)"

lemma entry_not_nil: "encode_entry e \<noteq> []"
proof -
  have "length (encode_entry e) \<noteq> 0" by (simp add: encode_entry_def encode_pair_def encode_string_def Let_def)
  then show ?thesis by auto
qed

lemma read_ahead_entries:
  "\<forall>e \<in> set es. entry_fits e \<Longrightarrow>
     read_ahead (entries_bytes es) = Some (case es of [] \<Rightarrow> (None, []) | e # es \<Rightarrow> (Some e, entries_bytes es))"
  by (cases es) (simp_all add: read_ahead_def decode_entry_enc entry_not_nil)

lemma skip_keys_scans:
  assumes "scans s outl rem" "smap_ok rem"
  shows "\<exists>s'. skip_keys key s = Some (key \<in> fst ` set rem, s')
    \<and> scans s' (outl @ filter (\<lambda>e. fst e < key) rem) (filter (\<lambda>e. key < fst e) rem)"
  using assms
proof (induction rem arbitrary: s outl)
  case Nil
  then show ?case by (subst skip_keys.simps) (simp add: scans_def)
next
  case (Cons e es)
  obtain nk nv where e: "e = (nk, nv)" by (cases e)
  have s: "ts_out s = entries_bytes outl" "ts_nkeys s = of_nat (length outl + length (e # es))"
    "ts_next s = Some (nk, nv)" "ts_in s = entries_bytes es" and fit: "\<forall>e \<in> set es. entry_fits e"
    using Cons.prems(1) by (auto simp: scans_def e)
  have so: "\<forall>a \<in> fst ` set es. nk < a" "smap_ok es" using Cons.prems(2) by (simp_all add: e)
  obtain nx ip where ra: "read_ahead (entries_bytes es) = Some (nx, ip)"
    and nx: "(nx, ip) = (case es of [] \<Rightarrow> (None, []) | e # es \<Rightarrow> (Some e, entries_bytes es))"
    using read_ahead_entries [OF fit] by fastforce
  consider "key < nk" | "nk < key" | "nk = key" by (metis linorder_less_linear)
  then show ?case
  proof cases
    case 1
    then have "\<forall>a \<in> fst ` set es. key < a" using so(1) by force
    then have "filter (\<lambda>x. fst x < key) es = []" "filter (\<lambda>x. key < fst x) es = es" "key \<notin> fst ` set es"
      by (force simp: filter_empty_conv filter_id_conv)+
    then show ?thesis
      using 1 Cons.prems(1) s(3) by (subst skip_keys.simps) (auto simp: e)
  next
    case 2
    let ?s = "s\<lparr>ts_out := ts_out s @ encode_entry (nk, nv), ts_next := nx, ts_in := ip\<rparr>"
    have "scans ?s (outl @ [e]) es"
      using s(1,2) fit nx by (cases es) (auto simp: scans_def e)
    from Cons.IH [OF this so(2)] obtain s' where "skip_keys key ?s = Some (key \<in> fst ` set es, s')"
      "scans s' (outl @ [e] @ filter (\<lambda>e. fst e < key) es) (filter (\<lambda>e. key < fst e) es)"
      by auto
    then show ?thesis
      using 2 s(3,4) ra by (subst skip_keys.simps) (auto simp: e)
  next
    case 3
    let ?s = "s\<lparr>ts_nkeys := ts_nkeys s - 1, ts_next := nx, ts_in := ip\<rparr>"
    have "filter (\<lambda>x. fst x < key) es = []" "filter (\<lambda>x. key < fst x) es = es"
      using so(1) 3 by (force simp: filter_empty_conv filter_id_conv)+
    moreover have "scans ?s outl es"
      using s(1,2) fit nx by (cases es) (auto simp: scans_def)
    ultimately show ?thesis
      using 3 s(3,4) ra by (subst skip_keys.simps) (auto simp: e)
  qed
qed

subsection \<open>The merge is the commands one by one\<close>

datatype scan_end = SDone tmap | SError int | SUnsorted

fun tmap_merge :: "string \<Rightarrow> tmap_cmd list \<Rightarrow> tmap \<Rightarrow> scan_end" where
  "tmap_merge last_key [] m = SDone m"
| "tmap_merge last_key (c # cs) m =
     (if cmd_key c < last_key then SUnsorted
      else case tmap_apply c m of Inl r \<Rightarrow> SError r | Inr m \<Rightarrow> tmap_merge (cmd_key c) cs m)"

text \<open>No two commands in a row have the same key.\<close>

fun no_repeat :: "tmap_cmd list \<Rightarrow> bool" where
  "no_repeat (c # d # cs) \<longleftrightarrow> cmd_key c \<noteq> cmd_key d \<and> no_repeat (d # cs)"
| "no_repeat cs \<longleftrightarrow> True"

definition ends_as :: "tmap_end \<Rightarrow> scan_end \<Rightarrow> bool" where
  "ends_as e f \<longleftrightarrow>
     (case f of
        SDone m \<Rightarrow> (\<exists>s outl rem. e = TDone s \<and> scans s outl rem \<and> m = outl @ rem)
      | SError r \<Rightarrow> e = TError r
      | SUnsorted \<Rightarrow> e = TUnsorted)"

lemma split_at_key:
  fixes rem :: tmap and k :: string
  assumes "smap_ok rem"
  defines "L \<equiv> filter (\<lambda>e. fst e < k) rem" and "G \<equiv> filter (\<lambda>e. k < fst e) rem"
  shows "k \<notin> fst ` set rem \<Longrightarrow> rem = L @ G" "k \<in> fst ` set rem \<Longrightarrow> \<exists>w. rem = L @ (k, w) # G"
    "\<forall>a \<in> fst ` set L. a < k" "\<forall>a \<in> fst ` set G. k < a"
proof -
  have "(k \<notin> fst ` set rem \<longrightarrow> rem = filter (\<lambda>e. fst e < k) rem @ filter (\<lambda>e. k < fst e) rem)
    \<and> (k \<in> fst ` set rem \<longrightarrow> (\<exists>w. rem = filter (\<lambda>e. fst e < k) rem @ (k, w) # filter (\<lambda>e. k < fst e) rem))"
    using assms(1)
  proof (induction rem)
    case (Cons e es)
    obtain a w where e: "e = (a, w)" by (cases e)
    have so: "\<forall>b \<in> fst ` set es. a < b" "smap_ok es" using Cons.prems by (simp_all add: e)
    have above: "filter (\<lambda>x. fst x < k) es = [] \<and> filter (\<lambda>x. k < fst x) es = es \<and> k \<notin> fst ` set es" if "k \<le> a"
      using so(1) that by (force simp: filter_empty_conv filter_id_conv)
    consider "a < k" | "a = k" | "k < a" by (metis linorder_less_linear)
    then show ?case
    proof cases
      case 1
      then show ?thesis using Cons.IH [OF so(2)] by (auto simp: e)
    next
      case 2
      then show ?thesis using above by (simp add: e)
    next
      case 3
      then show ?thesis using above by (auto simp: e)
    qed
  qed simp
  then show "k \<notin> fst ` set rem \<Longrightarrow> rem = L @ G" "k \<in> fst ` set rem \<Longrightarrow> \<exists>w. rem = L @ (k, w) # G"
    unfolding L_def G_def by blast+
qed (auto simp: L_def G_def)

lemma decode_command [simp]:
  "short k \<Longrightarrow> decode_pair decode_u8 decode_string (encode_u8 opc @ encode_string k @ p) = Some ((opc, k), p)"
  by (simp add: decode_pair_def c8.dec_enc cstr.dec_enc)

lemma decode_command_end [simp]:
  "short k \<Longrightarrow> decode_pair decode_u8 decode_string (encode_u8 opc @ encode_string k) = Some ((opc, k), [])"
  using decode_command [of k opc "[]"] by simp

lemma encode_u8_not_nil [simp]: "encode_u8 v \<noteq> []"
  by (simp add: encode_u8_def)

lemma cmd_bytes_not_nil [simp]: "cmd_bytes c \<noteq> []"
  by (cases c) (simp_all add: encode_u8_def)

text \<open>One command: what the scan and the map are after it.\<close>

lemma apply_at_key:
  assumes "\<forall>a \<in> fst ` set L. a < k" "\<forall>a \<in> fst ` set G. k < a" "m = (if ex then L @ (k, w) # G else L @ G)"
  shows "cmd_key c = k \<Longrightarrow> tmap_apply c m =
    (case c of
       TSet _ v \<Rightarrow> Inr (L @ (k, v) # G)
     | TCreate _ v \<Rightarrow> if ex then Inl (- EEXIST) else Inr (L @ (k, v) # G)
     | TRm _ \<Rightarrow> if ex then Inr (L @ G) else Inl (- ENOENT)
     | TRmSloppy _ \<Rightarrow> Inr (L @ G))"
  using smap_put_at [OF assms(1,2)] by (cases c) (simp_all add: assms(3))

lemma tmap_loop_step:
  assumes "cmd_fits c" "\<not> cmd_key c < last_key" "skip_keys (cmd_key c) s = Some (ex, s1)"
  shows "tmap_loop last_key s (cmd_bytes c @ bp) =
    (case c of
       TSet k v \<Rightarrow> tmap_loop k (s1\<lparr>ts_out := ts_out s1 @ encode_entry (k, v), ts_nkeys := ts_nkeys s1 + 1\<rparr>) bp
     | TCreate k v \<Rightarrow>
         if ex then Some (TError (- EEXIST))
         else tmap_loop k (s1\<lparr>ts_out := ts_out s1 @ encode_entry (k, v), ts_nkeys := ts_nkeys s1 + 1\<rparr>) bp
     | TRm k \<Rightarrow> if ex then tmap_loop k s1 bp else Some (TError (- ENOENT))
     | TRmSloppy k \<Rightarrow> tmap_loop k s1 bp)"
  using assms by (cases c) (simp_all add: tmap_loop.simps [of last_key] tmap_ops entry_fits_def cbl.dec_enc)

lemma tmap_loop_merge:
  assumes "scans s outl rem" "smap_ok (outl @ rem)" "\<forall>c \<in> set cs. cmd_fits c" "no_repeat cs"
    "\<forall>a \<in> fst ` set outl. a \<le> last_key" "cs \<noteq> [] \<longrightarrow> outl = [] \<or> cmd_key (hd cs) \<noteq> last_key"
  shows "\<exists>e. tmap_loop last_key s (cmds_bytes cs) = Some e \<and> ends_as e (tmap_merge last_key cs (outl @ rem))"
  using assms
proof (induction cs arbitrary: s outl rem last_key)
  case Nil
  then show ?case by (subst tmap_loop.simps) (auto simp: ends_as_def)
next
  case (Cons c cs)
  let ?k = "cmd_key c"
  define L where "L = outl @ filter (\<lambda>e. fst e < ?k) rem"
  define G where "G = filter (\<lambda>e. ?k < fst e) rem"
  define ex where "ex \<longleftrightarrow> ?k \<in> fst ` set rem"
  have fit: "cmd_fits c" using Cons.prems(3) by simp
  show ?case
  proof (cases "?k < last_key")
    case True
    have "tmap_loop last_key s (cmds_bytes (c # cs)) = Some TUnsorted"
      using True fit by (cases c) (simp_all add: tmap_loop.simps [of last_key] entry_fits_def)
    then show ?thesis using True by (simp add: ends_as_def)
  next
    case False
    have out: "\<forall>a \<in> fst ` set outl. a < ?k"
    proof
      fix a assume a: "a \<in> fst ` set outl"
      then have "a \<le> last_key" "?k \<noteq> last_key" using Cons.prems(5,6) by auto
      then show "a < ?k" using False by (metis le_less less_trans linorder_less_linear)
    qed
    have so: "smap_ok rem" using Cons.prems(2) by (simp add: smap_ok_append)
    note sp = split_at_key [OF so, of ?k]
    have L: "\<forall>a \<in> fst ` set L. a < ?k" unfolding L_def set_append image_Un using out sp(3) by blast
    have G: "\<forall>a \<in> fst ` set G. ?k < a" unfolding G_def by (rule sp(4))
    obtain w where m: "outl @ rem = (if ex then L @ (?k, w) # G else L @ G)"
      using sp(1,2) unfolding L_def G_def ex_def append.assoc by metis
    obtain s1 where s1: "skip_keys ?k s = Some (ex, s1)" "scans s1 L G"
      using skip_keys_scans [OF Cons.prems(1) so, of ?k] unfolding L_def G_def ex_def by blast
    have ok: "smap_ok (L @ G)"
      using Cons.prems(2) smap_ok_between(2) [OF L G] unfolding m by (cases ex) simp_all
    have put: "scans (s1\<lparr>ts_out := ts_out s1 @ encode_entry (?k, v), ts_nkeys := ts_nkeys s1 + 1\<rparr>) (L @ [(?k, v)]) G" for v
      using s1(2) by (auto simp: scans_def split: list.splits)
    have ok_put: "smap_ok ((L @ [(?k, v)]) @ G)" for v
      by (rule smap_ok_between(1) [OF L G ok])
    have next_key: "cs \<noteq> [] \<longrightarrow> cmd_key (hd cs) \<noteq> ?k" and nr: "no_repeat cs"
      using Cons.prems(4) by (cases cs; auto)+
    have fits: "\<forall>c \<in> set cs. cmd_fits c" using Cons.prems(3) by simp
    have le: "\<forall>a \<in> fst ` set L. a \<le> ?k" "\<forall>a \<in> fst ` set (L @ [(?k, v)]). a \<le> ?k" for v
      using L by (fastforce intro: less_imp_le)+
    have IH1: "\<exists>e. tmap_loop ?k s1 (cmds_bytes cs) = Some e \<and> ends_as e (tmap_merge ?k cs (L @ G))"
      using next_key by (intro Cons.IH [OF s1(2) ok fits nr le(1)]) blast
    have IH2: "\<exists>e. tmap_loop ?k (s1\<lparr>ts_out := ts_out s1 @ encode_entry (?k, v), ts_nkeys := ts_nkeys s1 + 1\<rparr>) (cmds_bytes cs) = Some e
        \<and> ends_as e (tmap_merge ?k cs (L @ (?k, v) # G))" for v
      using next_key Cons.IH [OF put ok_put fits nr le(2)] by simp
    note ap = apply_at_key [OF L G m refl]
    show ?thesis
      using IH1 IH2 False tmap_loop_step [OF fit False s1(1), of "cmds_bytes cs"] ap
      by (cases c) (auto simp: ends_as_def)
  qed
qed

subsection \<open>What is stored\<close>

definition tmap_reprs :: "bytes \<Rightarrow> tmap \<Rightarrow> osd_object option \<Rightarrow> bool" where
  "tmap_reprs header m obs \<longleftrightarrow> tmap_fits header m
     \<and> (case obs of
          None \<Rightarrow> header = [] \<and> m = []
        | Some ob \<Rightarrow> od_data ob = encode_tmap header m \<or> od_data ob = [] \<and> header = [] \<and> m = [])"

definition stored_bytes :: "osd_object option \<Rightarrow> bytes" where
  "stored_bytes obs = (case obs of None \<Rightarrow> [] | Some ob \<Rightarrow> od_data ob)"

lemma stored_read: "(case op_read 0 0 0 0 obs of (_, DataOut d, _) \<Rightarrow> d | _ \<Rightarrow> []) = stored_bytes obs"
  by (cases obs) (simp_all add: op_read_def stored_bytes_def Let_def file_read_def)

lemma encode_tmap_not_nil: "encode_tmap header m \<noteq> []"
proof -
  have "length (encode_tmap header m) \<noteq> 0" by (simp add: encode_tmap_def encode_bl_def Let_def)
  then show ?thesis by auto
qed

lemma decode_entries_enc:
  "smap_ok (acc @ es) \<Longrightarrow> \<forall>e \<in> set es. entry_fits e \<Longrightarrow>
     decode_entries (length es) acc (entries_bytes es @ p) = Some (acc @ es, p)"
proof (induction es arbitrary: acc)
  case Nil
  then show ?case by simp
next
  case (Cons e es)
  obtain k v where e: "e = (k, v)" by (cases e)
  have "\<forall>a \<in> fst ` set acc. a < k" using Cons.prems(1) by (auto simp: smap_ok_append e)
  then have "smap_put k v acc = acc @ [e]" using smap_put_at(1) [of acc k "[]" v] by (simp add: e)
  moreover have "decode_entries (length es) (acc @ [e]) (entries_bytes es @ p) = Some ((acc @ [e]) @ es, p)"
    using Cons.prems by (intro Cons.IH) simp_all
  ultimately show ?case using Cons.prems(2) by (simp add: decode_entry_enc e)
qed

lemma decode_tmap_enc:
  assumes "tmap_fits header m"
  shows "decode_tmap (encode_tmap header m) = Some ((header, m), [])"
  using assms decode_entries_enc [of "[]" m "[]"]
  by (simp add: tmap_fits_def decode_tmap_def encode_tmap_def decode_pair_def cbl.dec_enc c32.dec_enc unat_short)

lemma tmap_load_reprs:
  assumes "tmap_reprs header m obs"
  shows "tmap_load (stored_bytes obs) = Some (header, of_nat (length m), entries_bytes m)"
proof -
  have "tmap_load (encode_tmap header m) = Some (header, of_nat (length m), entries_bytes m)"
    using assms unfolding tmap_load_def if_not_P [OF encode_tmap_not_nil]
    by (simp add: tmap_reprs_def tmap_fits_def encode_tmap_def decode_pair_def cbl.dec_enc c32.dec_enc)
  then show ?thesis
    using assms
    by (cases "stored_bytes obs = []") (auto simp: tmap_reprs_def stored_bytes_def tmap_load_def split: option.splits)
qed

text \<open>The commands of an update, with a new header in front or not.\<close>

fun header_bytes :: "bytes option \<Rightarrow> bytes" where
  "header_bytes None = []"
| "header_bytes (Some h) = encode_u8 CEPH_OSD_TMAP_HDR @ encode_bl h"

lemma tmap_header_bytes:
  assumes "\<forall>h. new = Some h \<longrightarrow> short h"
  shows "tmap_header header (header_bytes new @ cmds_bytes cs) = Some (the_default header new, cmds_bytes cs)"
proof (cases new)
  case None
  have "hd (cmd_bytes c @ p) \<noteq> CEPH_OSD_TMAP_HDR" for c p
    by (cases c) (simp_all add: encode_u8_def tmap_ops)
  then show ?thesis using None by (cases cs) (simp_all add: tmap_header_def)
next
  case (Some h)
  then show ?thesis using assms by (simp add: tmap_header_def cbl.dec_enc encode_u8_def)
qed

text \<open>The slow update follows the commands.\<close>

fun is_create :: "tmap_cmd \<Rightarrow> bool" where
  "is_create (TCreate k v) = True"
| "is_create _ = False"

lemma slow_loop_updates:
  "\<forall>c \<in> set cs. cmd_fits c \<and> \<not> is_create c \<Longrightarrow>
     slow_loop (header, m) (cmds_bytes cs) = Some (map_sum (\<lambda>r. r) (Pair header) (tmap_updates cs m))"
proof (induction cs arbitrary: m)
  case Nil
  then show ?case by (subst slow_loop.simps) simp
next
  case (Cons c cs)
  have IH: "slow_loop (header, m) (cmds_bytes cs) = Some (map_sum (\<lambda>r. r) (Pair header) (tmap_updates cs m))" for m
    using Cons by simp
  show ?case
    using Cons.prems
    by (cases c) (simp_all add: slow_loop.simps [of _ "_ @ _"] slow_command_def tmap_ops c8.dec_enc cstr.dec_enc
        decode_entry_def decode_pair_def cbl.dec_enc entry_fits_def IH)
qed

lemma slow_loop_header:
  assumes "\<forall>h. new = Some h \<longrightarrow> short h" "\<forall>c \<in> set cs. cmd_fits c \<and> \<not> is_create c"
  shows "slow_loop (header, m) (header_bytes new @ cmds_bytes cs)
    = Some (map_sum (\<lambda>r. r) (Pair (the_default header new)) (tmap_updates cs m))"
proof (cases new)
  case None
  then show ?thesis using slow_loop_updates [OF assms(2)] by simp
next
  case (Some h)
  then show ?thesis
    using assms slow_loop_updates [OF assms(2)]
    by (subst slow_loop.simps) (simp add: slow_command_def tmap_ops c8.dec_enc cbl.dec_enc)
qed

subsection \<open>The fast update\<close>

lemma merge_updates:
  "tmap_merge last_key cs m = SDone m' \<Longrightarrow> tmap_updates cs m = Inr m'"
  "tmap_merge last_key cs m = SError r \<Longrightarrow> tmap_updates cs m = Inl r"
  by (induction last_key cs m rule: tmap_merge.induct) (auto split: if_splits sum.splits)

lemma merge_sorted:
  "sorted_wrt (<) (map cmd_key cs) \<Longrightarrow> \<forall>c \<in> set cs. last_key \<le> cmd_key c \<Longrightarrow>
     tmap_merge last_key cs m = (case tmap_updates cs m of Inl r \<Rightarrow> SError r | Inr m' \<Rightarrow> SDone m')"
  by (induction last_key cs m rule: tmap_merge.induct) (auto simp: not_less less_imp_le split: sum.splits)

lemma sorted_no_repeat: "sorted_wrt (<) (map cmd_key cs) \<Longrightarrow> no_repeat cs"
  by (induction cs rule: no_repeat.induct) auto

lemma scans_bytes:
  assumes "scans s outl rem"
  shows "encode_bl header @ encode_u32 (ts_nkeys s) @ ts_out s @ tmap_rest s = encode_tmap header (outl @ rem)"
  using assms by (cases rem) (simp_all add: scans_def tmap_rest_def encode_tmap_def)

lemma do_tmapup_start:
  assumes "tmap_reprs header m obs" "\<forall>h. new = Some h \<longrightarrow> short h" "inp = header_bytes new @ cmds_bytes cs" "inp \<noteq> []"
  shows "\<exists>s. scans s [] m \<and> do_tmapup mx inp obs =
     (case tmap_loop [] s (cmds_bytes cs) of
        None \<Rightarrow> None
      | Some (TError r) \<Rightarrow> Some (r, NoOut, obs)
      | Some TUnsorted \<Rightarrow> do_tmapup_slow mx inp (stored_bytes obs) obs
      | Some (TDone s) \<Rightarrow> Some (0, DataOut (stored_bytes obs), tmap_write mx
          (encode_bl (the_default header new) @ encode_u32 (ts_nkeys s) @ ts_out s @ tmap_rest s) obs))"
proof -
  have fit: "\<forall>e \<in> set m. entry_fits e" using assms(1) by (simp add: tmap_reprs_def tmap_fits_def)
  obtain nx ip where ra: "read_ahead (entries_bytes m) = Some (nx, ip)"
    and nx: "(nx, ip) = (case m of [] \<Rightarrow> (None, []) | e # es \<Rightarrow> (Some e, entries_bytes es))"
    using read_ahead_entries [OF fit] by fastforce
  let ?s = "\<lparr>ts_in = ip, ts_next = nx, ts_nkeys = of_nat (length m), ts_out = []\<rparr>"
  have "scans ?s [] m" using nx fit by (cases m) (auto simp: scans_def)
  moreover have below: "\<not> (case nx of None \<Rightarrow> False | Some (nextkey, _) \<Rightarrow> nextkey < [])" by (cases nx) auto
  have hdr: "tmap_header header inp = Some (the_default header new, cmds_bytes cs)"
    unfolding assms(3) by (rule tmap_header_bytes [OF assms(2)])
  ultimately show ?thesis
    unfolding do_tmapup_def stored_read Let_def if_not_P [OF assms(4)] tmap_load_reprs [OF assms(1)]
    using below by (intro exI [of _ ?s]) (simp add: hdr ra)
qed

lemma do_tmapup_merge:
  assumes "tmap_reprs header m obs" "\<forall>c \<in> set cs. cmd_fits c" "no_repeat cs" "\<forall>h. new = Some h \<longrightarrow> short h"
    "inp = header_bytes new @ cmds_bytes cs" "inp \<noteq> []"
  shows "do_tmapup mx inp obs =
    (case tmap_merge [] cs m of
       SDone m' \<Rightarrow> Some (0, DataOut (stored_bytes obs), tmap_write mx (encode_tmap (the_default header new) m') obs)
     | SError r \<Rightarrow> Some (r, NoOut, obs)
     | SUnsorted \<Rightarrow> do_tmapup_slow mx inp (stored_bytes obs) obs)"
proof -
  obtain s where s: "scans s [] m" "do_tmapup mx inp obs =
     (case tmap_loop [] s (cmds_bytes cs) of
        None \<Rightarrow> None
      | Some (TError r) \<Rightarrow> Some (r, NoOut, obs)
      | Some TUnsorted \<Rightarrow> do_tmapup_slow mx inp (stored_bytes obs) obs
      | Some (TDone s) \<Rightarrow> Some (0, DataOut (stored_bytes obs), tmap_write mx
          (encode_bl (the_default header new) @ encode_u32 (ts_nkeys s) @ ts_out s @ tmap_rest s) obs))"
    using do_tmapup_start [OF assms(1,4-6), of mx] by blast
  have "smap_ok m" using assms(1) by (simp add: tmap_reprs_def tmap_fits_def)
  from tmap_loop_merge [OF s(1) _ assms(2,3), of "[]"] this
  obtain e where e: "tmap_loop [] s (cmds_bytes cs) = Some e" "ends_as e (tmap_merge [] cs m)" by auto
  then show ?thesis using scans_bytes unfolding s(2) by (auto simp: ends_as_def split: scan_end.splits)
qed

lemma updates_fit:
  "tmap_updates cs m = Inr m' \<Longrightarrow> smap_ok m \<Longrightarrow> \<forall>e \<in> set m. entry_fits e \<Longrightarrow> \<forall>c \<in> set cs. cmd_fits c \<Longrightarrow>
     smap_ok m' \<and> (\<forall>e \<in> set m'. entry_fits e)"
proof (induction cs arbitrary: m)
  case Nil
  then show ?case by simp
next
  case (Cons c cs)
  obtain m1 where m1: "tmap_apply c m = Inr m1" "tmap_updates cs m1 = Inr m'"
    using Cons.prems(1) by (auto split: sum.splits)
  have "smap_ok m1 \<and> (\<forall>e \<in> set m1. entry_fits e)"
  proof -
    have P: "\<forall>e \<in> set (smap_put k v m). entry_fits e" if "entry_fits (k, v)" for k v
      using Cons.prems(2,3) that by (rule all_smap_put)
    have E: "\<forall>e \<in> set (smap_erase k m). entry_fits e" for k
      using Cons.prems(3) set_smap_erase [of k m] by blast
    show ?thesis
      using m1(1) Cons.prems(2,4) P E by (cases c) (auto split: if_splits)
  qed
  then show ?case using Cons.IH [OF m1(2)] Cons.prems(4) by simp
qed

lemma tmap_write_reprs:
  assumes "length (encode_tmap header m) \<le> 107374182400" "tmap_fits header m"
  shows "tmap_reprs header m (tmap_write osd_max_object_size (encode_tmap header m) obs)"
  using assms by (simp add: tmap_write_def op_write_full_max tmap_reprs_def)

text \<open>C31. The update of a stored map is what its commands say: for a map that is stored as its header and its
  sorted entries (or not at all), and commands in ascending order of their keys, with a new header in front
  or not, the update fails with the first command that fails - a creation of a key that is there, a removal
  of one that is not - and then changes nothing; otherwise it stores the header and the map that the commands
  give, one by one. The result fits an object and a count of 32 bits.\<close>

theorem tmapup_exact:
  assumes "tmap_reprs header m obs" "\<forall>c \<in> set cs. cmd_fits c" "sorted_wrt (<) (map cmd_key cs)"
    "\<forall>h. new = Some h \<longrightarrow> short h"
    "\<forall>m'. tmap_updates cs m = Inr m' \<longrightarrow> short m' \<and> length (encode_tmap (the_default header new) m') \<le> 107374182400"
  shows "\<exists>out obs'. do_tmapup osd_max_object_size (header_bytes new @ cmds_bytes cs) obs =
      Some (case tmap_updates cs m of Inl r \<Rightarrow> r | Inr _ \<Rightarrow> 0, out, obs')
    \<and> (case tmap_updates cs m of Inl _ \<Rightarrow> obs' = obs | Inr m' \<Rightarrow> tmap_reprs (the_default header new) m' obs')"
proof (cases "header_bytes new @ cmds_bytes cs = []")
  case True
  then have "new = None" "cs = []" by (cases new; cases cs; simp)+
  then show ?thesis using assms(1) by (simp add: do_tmapup_def)
next
  case False
  have "tmap_merge [] cs m = (case tmap_updates cs m of Inl r \<Rightarrow> SError r | Inr m' \<Rightarrow> SDone m')"
    using assms(3) by (intro merge_sorted) simp_all
  note run = do_tmapup_merge [OF assms(1,2) sorted_no_repeat [OF assms(3)] assms(4) refl False,
      of osd_max_object_size, unfolded this]
  show ?thesis
  proof (cases "tmap_updates cs m")
    case (Inl r)
    then show ?thesis using run by simp
  next
    case (Inr m')
    have "tmap_fits (the_default header new) m'"
      using assms(1,2,4,5) Inr updates_fit [OF Inr] by (cases new) (auto simp: tmap_reprs_def tmap_fits_def)
    moreover have "length (encode_tmap (the_default header new) m') \<le> 107374182400" using assms(5) Inr by blast
    ultimately show ?thesis using run Inr tmap_write_reprs by simp
  qed
qed

lemma tmapup_exact_witness:
  "\<exists>out obs'. do_tmapup osd_max_object_size (cmds_bytes [TSet ''a'' [1], TCreate ''b'' [2], TRmSloppy ''c'']) None =
      Some (0, out, obs') \<and> tmap_reprs [] [(''a'', [1]), (''b'', [2])] obs'"
proof -
  let ?cs = "[TSet ''a'' [1], TCreate ''b'' [2], TRmSloppy ''c'']"
  have "tmap_reprs [] [] None" by (simp add: tmap_reprs_def tmap_fits_def short_def)
  moreover have "tmap_updates ?cs [] = Inr [(''a'', [1]), (''b'', [2])]" by simp
  ultimately show ?thesis
    using tmapup_exact [of "[]" "[]" None ?cs None]
    by (simp add: entry_fits_def short_def encode_tmap_def encode_bl_def encode_entry_def encode_pair_def
        encode_string_def Let_def)
qed

lemma stored_slow:
  assumes "tmap_reprs header m obs" "\<forall>c \<in> set cs. cmd_fits c \<and> \<not> is_create c" "\<forall>h. new = Some h \<longrightarrow> short h"
  shows "do_tmapup_slow mx (header_bytes new @ cmds_bytes cs) (stored_bytes obs) obs =
      Some (case tmap_updates cs m of
              Inl r \<Rightarrow> (r, NoOut, obs)
            | Inr m' \<Rightarrow> (0, DataOut [], tmap_write mx (encode_tmap (the_default header new) m') obs))"
proof -
  have st: "(if stored_bytes obs = [] then Some ([], [])
      else case decode_tmap (stored_bytes obs) of None \<Rightarrow> None | Some (st, rest) \<Rightarrow> if rest = [] then Some st else None)
    = Some (header, m)"
    using assms(1) decode_tmap_enc [of header m] encode_tmap_not_nil [of header m]
    by (auto simp: tmap_reprs_def stored_bytes_def split: option.splits)
  show ?thesis
    unfolding do_tmapup_slow_def st by (simp add: slow_loop_header [OF assms(3,2)] split: sum.splits)
qed

lemma tmapup_agree:
  assumes "tmap_reprs header m obs" "\<forall>c \<in> set cs. cmd_fits c \<and> \<not> is_create c" "no_repeat cs"
    "\<forall>h. new = Some h \<longrightarrow> short h" "inp = header_bytes new @ cmds_bytes cs" "inp \<noteq> []"
  shows "\<exists>r obs' out out'. do_tmapup mx inp obs = Some (r, out, obs')
    \<and> do_tmapup_slow mx inp (stored_bytes obs) obs = Some (r, out', obs')"
proof -
  note slow = stored_slow [OF assms(1,2,4), of mx, folded assms(5)]
  have "\<forall>c \<in> set cs. cmd_fits c" using assms(2) by blast
  note run = do_tmapup_merge [OF assms(1) this assms(3-6), of mx]
  show ?thesis
  proof (cases "tmap_merge [] cs m")
    case (SDone m')
    then show ?thesis using run slow merge_updates(1) [OF SDone] by simp
  next
    case (SError r)
    then show ?thesis using run slow merge_updates(2) [OF SError] by simp
  next
    case SUnsorted
    then show ?thesis using run slow by (cases "tmap_updates cs m") simp_all
  qed
qed

lemma scans_put:
  "scans s outl rem \<Longrightarrow>
     scans (s\<lparr>ts_out := ts_out s @ encode_entry e, ts_nkeys := ts_nkeys s + 1\<rparr>) (outl @ [e]) rem"
  by (auto simp: scans_def split: list.splits)

text \<open>Two settings of one key in a row are stored twice by the fast update: the second does not find the
  entry that the first has just written, so the object holds both and a count that is one too high; the slow
  update stores the last one.\<close>

lemma tmapup_repeat_stored_twice:
  assumes "tmap_reprs header m obs" "short k" "short v" "short w" "k \<notin> fst ` set m"
  shows "\<exists>xs ys out out'. m = xs @ ys \<and>
      do_tmapup mx (cmds_bytes [TSet k v, TSet k w]) obs =
        Some (0, out, tmap_write mx (encode_tmap header (xs @ (k, v) # (k, w) # ys)) obs) \<and>
      do_tmapup_slow mx (cmds_bytes [TSet k v, TSet k w]) (stored_bytes obs) obs =
        Some (0, out', tmap_write mx (encode_tmap header (xs @ (k, w) # ys)) obs)"
proof -
  let ?L = "filter (\<lambda>e. fst e < k) m" and ?G = "filter (\<lambda>e. k < fst e) m" and ?cs = "[TSet k v, TSet k w]"
  let ?put = "\<lambda>x s. s\<lparr>ts_out := ts_out s @ encode_entry (k, x), ts_nkeys := ts_nkeys s + 1\<rparr>"
  have so: "smap_ok m" using assms(1) by (simp add: tmap_reprs_def tmap_fits_def)
  note sp = split_at_key [OF so, of k]
  have m: "m = ?L @ ?G" by (rule sp(1) [OF assms(5)])
  have fits: "cmd_fits (TSet k v)" "cmd_fits (TSet k w)" "\<forall>c \<in> set ?cs. cmd_fits c \<and> \<not> is_create c"
    using assms(2-4) by (simp_all add: entry_fits_def)
  have G: "filter (\<lambda>e. fst e < k) ?G = []" "filter (\<lambda>e. k < fst e) ?G = ?G" "k \<notin> fst ` set ?G" "smap_ok ?G"
    using so m smap_ok_append [of ?L ?G] by (auto simp: filter_empty_conv)
  have inp: "header_bytes None @ cmds_bytes ?cs = cmds_bytes ?cs" "cmds_bytes ?cs \<noteq> []" by simp_all
  have none: "\<forall>h. None = Some h \<longrightarrow> short h" by simp
  obtain s where s: "scans s [] m" "do_tmapup mx (cmds_bytes ?cs) obs =
     (case tmap_loop [] s (cmds_bytes ?cs) of
        None \<Rightarrow> None
      | Some (TError r) \<Rightarrow> Some (r, NoOut, obs)
      | Some TUnsorted \<Rightarrow> do_tmapup_slow mx (cmds_bytes ?cs) (stored_bytes obs) obs
      | Some (TDone s) \<Rightarrow> Some (0, DataOut (stored_bytes obs), tmap_write mx
          (encode_bl (the_default header None) @ encode_u32 (ts_nkeys s) @ ts_out s @ tmap_rest s) obs))"
    using do_tmapup_start [OF assms(1) none inp(1) [symmetric] inp(2), of mx] by blast
  obtain s1 where s1: "skip_keys k s = Some (False, s1)" "scans s1 ?L ?G"
    using skip_keys_scans [OF s(1) so, of k] assms(5) by auto
  have p1: "scans (?put v s1) (?L @ [(k, v)]) ?G" by (rule scans_put [OF s1(2)])
  obtain s2 where s2: "skip_keys k (?put v s1) = Some (False, s2)" "scans s2 (?L @ [(k, v)]) ?G"
    using skip_keys_scans [OF p1 G(4), of k] G(1-3) by auto
  have "tmap_loop [] s (cmds_bytes ?cs) = Some (TDone (?put w s2))"
    using tmap_loop_step [OF fits(1), of "[]" s False s1 "cmd_bytes (TSet k w)"]
      tmap_loop_step [OF fits(2), of k "?put v s1" False s2 "[]"] s1(1) s2(1)
    by (simp add: tmap_loop.simps [of _ _ "[]"])
  moreover note scans_bytes [OF scans_put [OF s2(2), of "(k, w)"], of header]
  moreover have "do_tmapup_slow mx (cmds_bytes ?cs) (stored_bytes obs) obs =
      Some (0, DataOut [], tmap_write mx (encode_tmap header (smap_put k w m)) obs)"
    using stored_slow [OF assms(1) fits(3), of None] by simp
  moreover have "smap_put k w m = ?L @ (k, w) # ?G"
    using smap_put_at(1) [OF sp(3,4), of w] m by simp
  ultimately show ?thesis
    using m unfolding s(2) by (intro exI [of _ ?L] exI [of _ ?G]) simp
qed

lemma tmapup_repeat_stored_twice_witness:
  "\<exists>xs ys out out'. [] = xs @ ys \<and>
      do_tmapup osd_max_object_size (cmds_bytes [TSet ''a'' [1], TSet ''a'' [2]]) None =
        Some (0, out, tmap_write osd_max_object_size (encode_tmap [] (xs @ (''a'', [1]) # (''a'', [2]) # ys)) None) \<and>
      do_tmapup_slow osd_max_object_size (cmds_bytes [TSet ''a'' [1], TSet ''a'' [2]]) (stored_bytes None) None =
        Some (0, out', tmap_write osd_max_object_size (encode_tmap [] (xs @ (''a'', [2]) # ys)) None)"
  by (rule tmapup_repeat_stored_twice) (simp_all add: tmap_reprs_def tmap_fits_def short_def)

text \<open>The slow update does not know \<open>CREATE\<close>.\<close>

lemma tmapup_create_slow:
  assumes "tmap_reprs header m obs" "short k" "short v" "k \<notin> fst ` set m"
  shows "\<exists>out. do_tmapup mx (cmds_bytes [TCreate k v]) obs =
        Some (0, out, tmap_write mx (encode_tmap header (smap_put k v m)) obs) \<and>
      do_tmapup_slow mx (cmds_bytes [TCreate k v]) (stored_bytes obs) obs = Some (- EINVAL, NoOut, obs)"
proof -
  have fits: "\<forall>c \<in> set [TCreate k v]. cmd_fits c" using assms(2,3) by (simp add: entry_fits_def)
  have inp: "cmds_bytes [TCreate k v] = header_bytes None @ cmds_bytes [TCreate k v]" "cmds_bytes [TCreate k v] \<noteq> []" by simp_all
  have "tmap_merge [] [TCreate k v] m = SDone (smap_put k v m)" using assms(4) by simp
  then have fast: "do_tmapup mx (cmds_bytes [TCreate k v]) obs =
      Some (0, DataOut (stored_bytes obs), tmap_write mx (encode_tmap header (smap_put k v m)) obs)"
    using do_tmapup_merge [OF assms(1) fits _ _ inp, of mx] by simp
  have st: "(if stored_bytes obs = [] then Some ([], [])
      else case decode_tmap (stored_bytes obs) of None \<Rightarrow> None | Some (st, rest) \<Rightarrow> if rest = [] then Some st else None)
    = Some (header, m)"
    using assms(1) decode_tmap_enc [of header m] encode_tmap_not_nil [of header m]
    by (auto simp: tmap_reprs_def stored_bytes_def split: option.splits)
  have "slow_loop (header, m) (cmds_bytes [TCreate k v]) = Some (Inl (- EINVAL))"
    by (subst slow_loop.simps) (simp add: slow_command_def c8.dec_enc tmap_ops)
  then have "do_tmapup_slow mx (cmds_bytes [TCreate k v]) (stored_bytes obs) obs = Some (- EINVAL, NoOut, obs)"
    unfolding do_tmapup_slow_def st by simp
  then show ?thesis using fast by blast
qed

text \<open>C32. The fast update is the slow one, with two exceptions. For a stored map and commands that set, remove
  or remove if present, in any order, where no two in a row have the same key, both have the same result, and
  leave the same object - whether the merge runs to its end, meets an error, or gives way half-way to the slow
  update. When a new key is set twice in a row, the fast update stores both entries and the slow one the
  last; and a \<open>CREATE\<close> of a new key is applied by the fast update and refused by the slow one.\<close>

theorem tmapup_fast_is_slow:
  assumes "tmap_reprs header m obs"
  shows "(\<forall>cs new. (\<forall>c \<in> set cs. cmd_fits c \<and> \<not> is_create c) \<and> no_repeat cs \<and> (\<forall>h. new = Some h \<longrightarrow> short h)
        \<and> header_bytes new @ cmds_bytes cs \<noteq> [] \<longrightarrow>
        (\<exists>r obs' out out'. do_tmapup mx (header_bytes new @ cmds_bytes cs) obs = Some (r, out, obs')
          \<and> do_tmapup_slow mx (header_bytes new @ cmds_bytes cs) (stored_bytes obs) obs = Some (r, out', obs')))
    \<and> (\<forall>k v w. short k \<and> short v \<and> short w \<and> k \<notin> fst ` set m \<longrightarrow>
        (\<exists>xs ys out out'. m = xs @ ys
          \<and> do_tmapup mx (cmds_bytes [TSet k v, TSet k w]) obs =
              Some (0, out, tmap_write mx (encode_tmap header (xs @ (k, v) # (k, w) # ys)) obs)
          \<and> do_tmapup_slow mx (cmds_bytes [TSet k v, TSet k w]) (stored_bytes obs) obs =
              Some (0, out', tmap_write mx (encode_tmap header (xs @ (k, w) # ys)) obs)))
    \<and> (\<forall>k v. short k \<and> short v \<and> k \<notin> fst ` set m \<longrightarrow>
        (\<exists>out. do_tmapup mx (cmds_bytes [TCreate k v]) obs =
              Some (0, out, tmap_write mx (encode_tmap header (smap_put k v m)) obs)
          \<and> do_tmapup_slow mx (cmds_bytes [TCreate k v]) (stored_bytes obs) obs = Some (- EINVAL, NoOut, obs)))"
proof (intro conjI allI impI)
  fix cs new
  assume "(\<forall>c \<in> set cs. cmd_fits c \<and> \<not> is_create c) \<and> no_repeat cs \<and> (\<forall>h. new = Some h \<longrightarrow> short h)
        \<and> header_bytes new @ cmds_bytes cs \<noteq> []"
  then show "\<exists>r obs' out out'. do_tmapup mx (header_bytes new @ cmds_bytes cs) obs = Some (r, out, obs')
          \<and> do_tmapup_slow mx (header_bytes new @ cmds_bytes cs) (stored_bytes obs) obs = Some (r, out', obs')"
    using tmapup_agree [OF assms, of cs new _ mx] by blast
next
  fix k :: string and v w :: bytes
  assume "short k \<and> short v \<and> short w \<and> k \<notin> fst ` set m"
  then show "\<exists>xs ys out out'. m = xs @ ys
          \<and> do_tmapup mx (cmds_bytes [TSet k v, TSet k w]) obs =
              Some (0, out, tmap_write mx (encode_tmap header (xs @ (k, v) # (k, w) # ys)) obs)
          \<and> do_tmapup_slow mx (cmds_bytes [TSet k v, TSet k w]) (stored_bytes obs) obs =
              Some (0, out', tmap_write mx (encode_tmap header (xs @ (k, w) # ys)) obs)"
    using tmapup_repeat_stored_twice [OF assms, of k v w mx] by blast
next
  fix k :: string and v :: bytes
  assume "short k \<and> short v \<and> k \<notin> fst ` set m"
  then show "\<exists>out. do_tmapup mx (cmds_bytes [TCreate k v]) obs =
              Some (0, out, tmap_write mx (encode_tmap header (smap_put k v m)) obs)
          \<and> do_tmapup_slow mx (cmds_bytes [TCreate k v]) (stored_bytes obs) obs = Some (- EINVAL, NoOut, obs)"
    using tmapup_create_slow [OF assms, of k v mx] by blast
qed

lemma tmapup_fast_is_slow_witness:
  "(\<exists>r obs' out out'. do_tmapup osd_max_object_size (cmds_bytes [TSet ''b'' [2], TSet ''a'' [1], TRm ''b'']) None = Some (r, out, obs')
      \<and> do_tmapup_slow osd_max_object_size (cmds_bytes [TSet ''b'' [2], TSet ''a'' [1], TRm ''b'']) [] None = Some (r, out', obs'))
    \<and> (\<exists>out. do_tmapup osd_max_object_size (cmds_bytes [TCreate ''a'' [1]]) None =
          Some (0, out, tmap_write osd_max_object_size (encode_tmap [] [(''a'', [1])]) None)
        \<and> do_tmapup_slow osd_max_object_size (cmds_bytes [TCreate ''a'' [1]]) [] None = Some (- EINVAL, NoOut, None))"
proof -
  have "tmap_reprs [] [] None" by (simp add: tmap_reprs_def tmap_fits_def short_def)
  note all = tmapup_fast_is_slow [OF this, of osd_max_object_size]
  have c: "(\<forall>c \<in> set [TSet ''b'' [2], TSet ''a'' [1], TRm ''b'']. cmd_fits c \<and> \<not> is_create c)
      \<and> no_repeat [TSet ''b'' [2], TSet ''a'' [1], TRm ''b''] \<and> (\<forall>h. None = Some h \<longrightarrow> short h)
      \<and> header_bytes None @ cmds_bytes [TSet ''b'' [2], TSet ''a'' [1], TRm ''b''] \<noteq> []"
    by (simp add: entry_fits_def short_def)
  have k: "short ''a'' \<and> short [1 :: u8] \<and> ''a'' \<notin> fst ` set ([] :: tmap)" by (simp add: short_def)
  have "stored_bytes None = []" "header_bytes None = []" "smap_put ''a'' [1] [] = [(''a'', [1 :: u8])]"
    by (simp_all add: stored_bytes_def)
  then show ?thesis
    using all [THEN conjunct1, rule_format, OF c] all [THEN conjunct2, THEN conjunct2, rule_format, OF k] by simp
qed

end
