(* ===== verification/Image_Create.thy ===== *)
theory Image_Create
  imports Cls_Client Tmap
begin

text \<open>
  Creating an image (\<open>create\<close>, \<open>create_v1\<close>, \<open>create_v2\<close>, \<open>detect_format\<close> and the names of objects in
  \<open>librbd/internal.cc\<close>). The state is that of \<open>Cls_Client\<close>: a pool and the fates of the next requests. A new
  image is three objects, its id, its entry in the directory and its header; the lemmas show that one
  failed request leaves none of them. Random numbers and the id of the client are arguments.
\<close>

subsection \<open>Requests to objects\<close>

definition io_ops :: "string \<Rightarrow> osd_op list \<Rightarrow> io \<Rightarrow> ((int \<times> osd_out list) \<times> io) option" where
  "io_ops oid ops = request (\<lambda>f p. map_option (\<lambda>(r, outs, p). ((r, outs), p)) (rados_exec f oid ops p))"

definition io_stat :: "string \<Rightarrow> io \<Rightarrow> ((int \<times> u64) \<times> io) option" where
  "io_stat oid st =
     map_option (\<lambda>((r, outs), st). ((r, case outs of StatOut n # _ \<Rightarrow> n | _ \<Rightarrow> 0), st)) (io_ops oid [OpStat] st)"

definition io_create :: "string \<Rightarrow> bool \<Rightarrow> io \<Rightarrow> (int \<times> io) option" where
  "io_create oid exclusive st = map_option (\<lambda>((r, _), st). (r, st)) (io_ops oid [OpCreate exclusive] st)"

definition io_remove :: "string \<Rightarrow> io \<Rightarrow> (int \<times> io) option" where
  "io_remove oid st = map_option (\<lambda>((r, _), st). (r, st)) (io_ops oid [OpDelete] st)"

definition io_write :: "string \<Rightarrow> bytes \<Rightarrow> u64 \<Rightarrow> u64 \<Rightarrow> io \<Rightarrow> (int \<times> io) option" where
  "io_write oid bl len off st =
     map_option (\<lambda>((r, _), st). (if r < 0 then r else c_int (int (unat len)), st))
       (io_ops oid [let d = take (unat len) bl in OpWrite off (of_nat (length d)) d 0 0] st)"

definition io_tmap_update :: "string \<Rightarrow> bytes \<Rightarrow> io \<Rightarrow> (int \<times> io) option" where
  "io_tmap_update oid cmdbl =
     request (\<lambda>f p. if f < 0 then Some (f, p)
                    else map_option (\<lambda>(r, _, obs). (r, if r < 0 then p else p(oid := obs)))
                           (do_tmapup osd_max_object_size cmdbl (p oid)))"

subsection \<open>Names of objects\<close>

definition RBD_DIRECTORY :: string where "RBD_DIRECTORY = ''rbd_directory''"

definition id_obj_name :: "string \<Rightarrow> string" where
  "id_obj_name name = ''rbd_id.'' @ name"

definition header_name :: "string \<Rightarrow> string" where
  "header_name image_id = ''rbd_header.'' @ image_id"

definition data_prefix :: "string \<Rightarrow> string" where
  "data_prefix image_id = ''rbd_data.'' @ image_id"

definition old_header_name :: "string \<Rightarrow> string" where
  "old_header_name image_name = image_name @ ''.rbd''"

text \<open>The code, whether the image is of the old format, and the size of its object.\<close>

definition detect_format :: "string \<Rightarrow> io \<Rightarrow> ((int \<times> bool \<times> u64) \<times> io) option" where
  "detect_format name st =
     do { ((r, sz), st) \<leftarrow> io_stat (old_header_name name) st;
          if r < 0 then
            do { ((r, sz), st) \<leftarrow> io_stat (id_obj_name name) st;
                 Some ((if r < 0 then r else 0, False, sz), st) }
          else Some ((0, True, sz), st) }"

subsection \<open>The directory of old images\<close>

definition tmap_set :: "string \<Rightarrow> io \<Rightarrow> (int \<times> io) option" where
  "tmap_set imgname =
     io_tmap_update RBD_DIRECTORY (encode_u8 CEPH_OSD_TMAP_SET @ encode_string imgname @ encode_bl [])"

definition tmap_rm :: "string \<Rightarrow> io \<Rightarrow> (int \<times> io) option" where
  "tmap_rm imgname = io_tmap_update RBD_DIRECTORY (encode_u8 CEPH_OSD_TMAP_RM @ encode_string imgname)"

subsection \<open>Old images\<close>

definition RBD_HEADER_TEXT :: string where
  "RBD_HEADER_TEXT = ''<<< Rados Block Device Image >>>'' @ [CHR 0x0A]"
definition RBD_HEADER_SIGNATURE :: string where "RBD_HEADER_SIGNATURE = ''RBD''"
definition RBD_HEADER_VERSION :: string where "RBD_HEADER_VERSION = ''001.005''"
definition RBD_CRYPT_NONE :: u8 where "RBD_CRYPT_NONE = 0"
definition RBD_COMP_NONE :: u8 where "RBD_COMP_NONE = 0"

text \<open>A field of characters that was set to zeros before.\<close>

definition char_field :: "nat \<Rightarrow> string \<Rightarrow> bytes" where
  "char_field n s = take n (bytes_of s @ replicate n 0)"

definition init_rbd_header :: "u64 \<Rightarrow> int \<Rightarrow> u64 \<Rightarrow> u32 \<Rightarrow> rbd_obj_header_ondisk" where
  "init_rbd_header sz order bid extra =
     (let hi = ucast (drop_bit 32 bid) :: u32; lo = ucast (bid AND 0xFFFFFFFF) :: u32;
          block_name = ''rb.'' @ show_nat 16 (unat hi) @ ''.'' @ show_nat 16 (unat lo) @ ''.'' @ show_nat 16 (unat extra)
      in \<lparr>oh_text = char_field 40 RBD_HEADER_TEXT, oh_block_name = char_field 24 (take 23 block_name),
          oh_signature = char_field 4 RBD_HEADER_SIGNATURE, oh_version = char_field 8 RBD_HEADER_VERSION,
          oh_order = of_int order, oh_crypt_type = RBD_CRYPT_NONE, oh_comp_type = RBD_COMP_NONE, oh_unused = 0,
          oh_image_size = sz, oh_snap_seq = 0, oh_snap_count = 0, oh_reserved = 0, oh_snap_names_len = 0\<rparr>)"

definition create_v1 :: "string \<Rightarrow> u64 \<Rightarrow> u32 \<Rightarrow> u64 \<Rightarrow> int \<Rightarrow> io \<Rightarrow> (int \<times> io) option" where
  "create_v1 imgname bid extra sz order st =
     do { (r, st) \<leftarrow> tmap_set imgname st;
          if r < 0 then Some (r, st)
          else
            let bl = ondisk_bytes (init_rbd_header sz order bid extra) in
            do { (r, st) \<leftarrow> io_write (old_header_name imgname) bl (of_nat (length bl)) 0 st;
                 if r < 0 then do { (_, st) \<leftarrow> tmap_rm imgname st; Some (r, st) }
                 else Some (0, st) } }"

subsection \<open>New images\<close>

definition image_id_of :: "u64 \<Rightarrow> u32 \<Rightarrow> string" where
  "image_id_of bid extra = show_nat 16 (unat bid) @ show_nat 16 (unat extra)"

text \<open>The undoing of the steps that were taken, from the last one back.\<close>

definition err_remove_id :: "string \<Rightarrow> int \<Rightarrow> io \<Rightarrow> (int \<times> io) option" where
  "err_remove_id imgname r st = do { (_, st) \<leftarrow> io_remove (id_obj_name imgname) st; Some (r, st) }"

definition err_remove_from_dir :: "string \<Rightarrow> string \<Rightarrow> int \<Rightarrow> io \<Rightarrow> (int \<times> io) option" where
  "err_remove_from_dir imgname image_id r st =
     do { (_, st) \<leftarrow> cl_dir_remove_image RBD_DIRECTORY imgname image_id st; err_remove_id imgname r st }"

definition err_remove_header :: "string \<Rightarrow> string \<Rightarrow> int \<Rightarrow> io \<Rightarrow> (int \<times> io) option" where
  "err_remove_header imgname image_id r st =
     do { (_, st) \<leftarrow> io_remove (header_name image_id) st; err_remove_from_dir imgname image_id r st }"

text \<open>\<open>1ull << order\<close>; a shift by the width or more is undefined (\<open>None\<close>).\<close>

definition one_shl :: "int \<Rightarrow> u64 option" where
  "one_shl order = (if 0 \<le> order \<and> order < 64 then Some (push_bit (nat order) 1) else None)"

text \<open>Whether a striping other than the default is asked for.\<close>

definition striping_asked :: "int \<Rightarrow> u64 \<Rightarrow> u64 \<Rightarrow> bool option" where
  "striping_asked order stripe_unit stripe_count =
     (if stripe_unit = 0 \<and> stripe_count = 0 then Some False
      else if stripe_count \<noteq> 1 then Some True
      else map_option (\<lambda>s. stripe_unit \<noteq> s) (one_shl order))"

definition create_v2 ::
    "string \<Rightarrow> u64 \<Rightarrow> u32 \<Rightarrow> u64 \<Rightarrow> int \<Rightarrow> u64 \<Rightarrow> u64 \<Rightarrow> u64 \<Rightarrow> io \<Rightarrow> (int \<times> io) option" where
  "create_v2 imgname bid extra sz order features stripe_unit stripe_count st =
     (let image_id = image_id_of bid extra in
      do { (r, st) \<leftarrow> io_create (id_obj_name imgname) True st;
           if r < 0 then Some (r, st)
           else
      do { (r, st) \<leftarrow> cl_set_id (id_obj_name imgname) image_id st;
           if r < 0 then err_remove_id imgname r st
           else
      do { (r, st) \<leftarrow> cl_dir_add_image RBD_DIRECTORY imgname image_id st;
           if r < 0 then err_remove_id imgname r st
           else
      do { (r, st) \<leftarrow> cl_create_image (header_name image_id) sz (of_int order) features (data_prefix image_id) st;
           if r < 0 then err_remove_from_dir imgname image_id r st
           else
      do { striped \<leftarrow> striping_asked order stripe_unit stripe_count;
           if striped then
             do { (r, st) \<leftarrow> cl_set_stripe_unit_count (header_name image_id) stripe_unit stripe_count st;
                  if r < 0 then err_remove_header imgname image_id r st else Some (0, st) }
           else Some (0, st) }}}}})"

subsection \<open>Creating an image\<close>

record create_conf =
  cc_default_format :: int
  cc_default_features :: u64
  cc_default_order :: int
  cc_default_stripe_unit :: u64
  cc_default_stripe_count :: u64

definition RBD_DEFAULT_OBJ_ORDER :: int where "RBD_DEFAULT_OBJ_ORDER = 22"

text \<open>The order is changed in place: the result carries what the caller finds in it.\<close>

definition create ::
    "create_conf \<Rightarrow> u64 \<Rightarrow> u32 \<Rightarrow> string \<Rightarrow> u64 \<Rightarrow> bool \<Rightarrow> u64 \<Rightarrow> int \<Rightarrow> u64 \<Rightarrow> u64 \<Rightarrow> io \<Rightarrow> ((int \<times> int) \<times> io) option" where
  "create cf bid extra imgname sz old_format features order stripe_unit stripe_count st =
     (if features AND NOT RBD_FEATURES_ALL \<noteq> 0 then Some ((- ENOSYS, order), st)
      else
        do { ((r, _), st) \<leftarrow> detect_format imgname st;
             if r \<noteq> - ENOENT then Some ((if r \<noteq> 0 then r else - EEXIST, order), st)
             else
               let order1 = (if order = 0 then cc_default_order cf else order);
                   order2 = (if order1 = 0 then RBD_DEFAULT_OBJ_ORDER else order1)
               in if order2 \<noteq> 0 \<and> (64 < order2 \<or> order2 < 12) then Some ((- EDOM, order2), st)
               else
                 let custom = \<not> old_format \<and> features AND RBD_FEATURE_STRIPINGV2 \<noteq> 0 \<and> stripe_unit = 0 \<and> stripe_count = 0;
                     su = (if custom then cc_default_stripe_unit cf else stripe_unit);
                     sc = (if custom then cc_default_stripe_count cf else stripe_count)
                 in do { object_size \<leftarrow> one_shl order2;
                         let su1 = (if su = object_size \<and> sc = 1 then 0 else su);
                             sc1 = (if su = object_size \<and> sc = 1 then 0 else sc)
                         in if (su1 \<noteq> 0 \<or> sc1 \<noteq> 0) \<and> features AND RBD_FEATURE_STRIPINGV2 = 0
                            then Some ((- EINVAL, order2), st)
                            else if (su1 = 0) \<noteq> (sc1 = 0) then Some ((- EINVAL, order2), st)
                            else if old_format then
                              if su1 \<noteq> 0 \<and> su1 \<noteq> object_size then Some ((- EINVAL, order2), st)
                              else if sc1 \<noteq> 0 \<and> sc1 \<noteq> 1 then Some ((- EINVAL, order2), st)
                              else map_option (\<lambda>(r, st). ((r, order2), st)) (create_v1 imgname bid extra sz order2 st)
                            else map_option (\<lambda>(r, st). ((r, order2), st))
                                   (create_v2 imgname bid extra sz order2 features su1 sc1 st) } })"

definition create_default ::
    "create_conf \<Rightarrow> u64 \<Rightarrow> u32 \<Rightarrow> string \<Rightarrow> u64 \<Rightarrow> int \<Rightarrow> io \<Rightarrow> ((int \<times> int) \<times> io) option" where
  "create_default cf bid extra imgname sz order st =
     (let old_format = cc_default_format cf = 1;
          features = (if old_format then 0 else cc_default_features cf)
      in create cf bid extra imgname sz old_format features order 0 0 st)"

subsection \<open>What single requests do\<close>

lemma io_stat_run:
  "io_stat oid (fs, p) = Some (if fault_of (fs, p) < 0 then ((fault_of (fs, p), 0), (tl fs, p))
     else (case p oid of None \<Rightarrow> (- ENOENT, 0) | Some ob \<Rightarrow> (0, od_size ob), (tl fs, p)))"
  by (cases "p oid")
    (simp_all add: io_stat_def io_ops_def request_def rados_exec_def prepare_transaction_single op_stat_def fun_upd_idem)

lemma io_create_run:
  "p oid = None \<Longrightarrow> io_create oid True (fs, p) = Some (if fault_of (fs, p) < 0 then (fault_of (fs, p), (tl fs, p))
     else (0, (tl fs, p(oid := Some fresh_object))))"
  by (simp add: io_create_def io_ops_def request_def rados_exec_def prepare_transaction_single op_create_def)

lemma io_remove_run:
  "p oid = Some ob \<Longrightarrow> od_watchers ob = 0 \<Longrightarrow> io_remove oid (fs, p) =
     Some (if fault_of (fs, p) < 0 then (fault_of (fs, p), (tl fs, p)) else (0, (tl fs, p(oid := None))))"
  by (simp add: io_remove_def io_ops_def request_def rados_exec_def prepare_transaction_single op_delete_def)

subsection \<open>Watchers\<close>

text \<open>The class methods of a creation leave the watchers of their object alone.\<close>

definition watchers :: "osd_object option \<Rightarrow> nat" where
  "watchers obs = (case obs of None \<Rightarrow> 0 | Some ob \<Rightarrow> od_watchers ob)"

lemma watchers_set_val: "cls_map_set_val key bl h = (r, h') \<Longrightarrow> watchers (hc_new h') = watchers (hc_new h)"
  by (cases "hc_new h") (auto simp: cls_map_set_val_def cls_map_set_vals watchers_def fresh_object_def)

lemma watchers_set_keys: "set_keys kvs h = (r, h') \<Longrightarrow> watchers (hc_new h') = watchers (hc_new h)"
proof (induction kvs arbitrary: h)
  case Nil
  then show ?case by simp
next
  case (Cons kv kvs)
  then show ?case
    by (cases kv) (auto split: prod.splits if_splits dest!: watchers_set_val)
qed

lemma watchers_create:
  assumes "cls_call rbd_create inp obs = Some (r, out, obs')"
  shows "watchers obs' = watchers obs"
proof -
  obtain h' where h: "rbd_create inp \<lparr>hc_stored = obs, hc_new = obs\<rparr> = Some (r, out, h')"
    "obs' = (if r < 0 then obs else hc_new h')"
    using assms by (auto simp: cls_call_def split: option.splits)
  then have "watchers (hc_new h') = watchers obs"
    unfolding rbd_create_def by (auto split: option.splits if_splits prod.splits dest!: watchers_set_keys simp del: set_keys.simps)
  then show ?thesis using h(2) by simp
qed

subsection \<open>Ids\<close>

lemma length_show_nat: "2 \<le> base \<Longrightarrow> n < base ^ k \<Longrightarrow> 0 < k \<Longrightarrow> length (show_nat base n) \<le> k"
proof (induction k arbitrary: n)
  case 0
  then show ?case by simp
next
  case (Suc k)
  show ?case
  proof (cases "n < base")
    case True
    then show ?thesis by (simp add: show_nat_small)
  next
    case False
    have "k \<noteq> 0" using False Suc.prems(2) by (cases k) auto
    moreover have "n div base < base ^ k"
      using Suc.prems(1,2) by (simp add: div_less_iff_less_mult ac_simps)
    ultimately have "length (show_nat base (n div base)) \<le> k" using Suc by simp
    then show ?thesis using False Suc.prems(1) by (simp add: show_nat_step)
  qed
qed

lemma digit_alnum: "d < 16 \<Longrightarrow> c_isalnum (digit_char d)"
  by (auto simp: c_isalnum_def digit_char_def Let_def)

lemma length_image_id: "length (image_id_of bid extra) \<le> 24"
proof -
  have "length (show_nat 16 (unat bid)) \<le> 16"
    using unat_lt [of bid] by (intro length_show_nat) simp_all
  moreover have "length (show_nat 16 (unat extra)) \<le> 8"
    using unat_lt [of extra] by (intro length_show_nat) simp_all
  ultimately show ?thesis by (simp add: image_id_of_def)
qed

lemma image_id_valid: "is_valid_id (image_id_of bid extra)" "small_string (image_id_of bid extra)"
proof -
  have "\<forall>c \<in> set (show_nat 16 n). c_isalnum c" for n
    using show_nat_chars [of 16 _ n] digit_alnum by fastforce
  then show "is_valid_id (image_id_of bid extra)" by (auto simp: is_valid_id_def image_id_of_def list_all_iff)
  show "small_string (image_id_of bid extra)" using length_image_id [of bid extra] by (simp add: small_string_def)
qed

lemma object_names_differ [simp]:
  "id_obj_name n \<noteq> RBD_DIRECTORY" "RBD_DIRECTORY \<noteq> id_obj_name n" "header_name i \<noteq> RBD_DIRECTORY"
  "RBD_DIRECTORY \<noteq> header_name i" "id_obj_name n \<noteq> header_name i" "header_name i \<noteq> id_obj_name n"
  "id_obj_name n = id_obj_name n' \<longleftrightarrow> n = n'" "header_name i = header_name i' \<longleftrightarrow> i = i'"
  by (simp_all add: id_obj_name_def RBD_DIRECTORY_def header_name_def)

subsection \<open>The steps of a creation\<close>

definition create_ready :: "pool \<Rightarrow> dir \<Rightarrow> string \<Rightarrow> string \<Rightarrow> bool" where
  "create_ready p d name i \<longleftrightarrow> dir_reprs d (p RBD_DIRECTORY) \<and> dir_ok d \<and> map_of d name = None \<and> i \<notin> snd ` set d
     \<and> name \<noteq> [] \<and> short name \<and> p (id_obj_name name) = None \<and> p (header_name i) = None"

lemma smap_erase_put: "smap_ok m \<Longrightarrow> map_of m k = None \<Longrightarrow> smap_erase k (smap_put k v m) = m"
  by (induction k v m rule: smap_put.induct) (auto split: if_splits)

lemma set_id_step:
  assumes "p (id_obj_name name) = Some fresh_object"
  shows "cl_set_id (id_obj_name name) (image_id_of bid extra) (fs, p) =
     Some (if fault_of (fs, p) < 0 then (fault_of (fs, p), (tl fs, p))
           else (0, (tl fs, p(id_obj_name name := Some (id_object (image_id_of bid extra))))))"
proof -
  have "cls_call rbd_set_id (encode_string (image_id_of bid extra)) (p (id_obj_name name))
      = Some (0, [], Some (id_object (image_id_of bid extra)))"
    unfolding assms by (rule set_id_fresh [OF image_id_valid])
  then show ?thesis unfolding cl_set_id_def by (simp add: io_call_run)
qed

lemma dir_add_step:
  assumes "dir_reprs d (p RBD_DIRECTORY)" "dir_ok d" "map_of d name = None" "i \<notin> snd ` set d" "name \<noteq> []" "short name"
    "is_valid_id i" "small_string i"
  shows "\<exists>p'. (\<forall>fs. cl_dir_add_image RBD_DIRECTORY name i (fs, p) =
       Some (if fault_of (fs, p) < 0 then (fault_of (fs, p), (tl fs, p)) else (0, (tl fs, p'))))
     \<and> dir_reprs (smap_put name i d) (p' RBD_DIRECTORY) \<and> dir_ok (smap_put name i d)
     \<and> (\<forall>o'. o' \<noteq> RBD_DIRECTORY \<longrightarrow> p' o' = p o')"
proof -
  have "dir_fits (DirAdd name i)" "dir_spec (DirAdd name i) d = (0, smap_put name i d)"
    using assms(3-8) small_short by simp_all
  from dir_call_run [where p = p and oid = RBD_DIRECTORY, OF assms(1,2) this] show ?thesis
    unfolding dir_call_forms by auto
qed

lemma dir_remove_step:
  assumes "dir_reprs (smap_put name i d) (p RBD_DIRECTORY)" "dir_ok (smap_put name i d)" "smap_ok d"
    "map_of d name = None" "short name" "short i"
  shows "\<exists>p'. (\<forall>fs. cl_dir_remove_image RBD_DIRECTORY name i (fs, p) =
       Some (if fault_of (fs, p) < 0 then (fault_of (fs, p), (tl fs, p)) else (0, (tl fs, p'))))
     \<and> dir_reprs d (p' RBD_DIRECTORY) \<and> (\<forall>o'. o' \<noteq> RBD_DIRECTORY \<longrightarrow> p' o' = p o')"
proof -
  have "\<not> dir_removable name i (smap_put name i d) < 0" unfolding dir_removable_iff by simp
  then have "dir_fits (DirRemove name i)" "dir_spec (DirRemove name i) (smap_put name i d) = (0, d)"
    using assms(3-6) smap_erase_put [OF assms(3,4)] by simp_all
  from dir_call_run [where p = p and oid = RBD_DIRECTORY, OF assms(1,2) this] show ?thesis
    unfolding dir_call_forms by auto
qed

lemma create_header_step:
  assumes "p oid = None" "features AND NOT RBD_FEATURES_ALL = 0" "small_string pre" "pre \<noteq> []"
  shows "\<exists>ob. (\<forall>fs. cl_create_image oid sz order features pre (fs, p) =
       Some (if fault_of (fs, p) < 0 then (fault_of (fs, p), (tl fs, p)) else (0, (tl fs, p(oid := Some ob)))))
     \<and> reprs (created sz order features pre) (Some ob) \<and> od_watchers ob = 0"
proof -
  obtain obs where c: "cls_call rbd_create (create_args sz order features pre) (p oid) = Some (0, [], obs)"
    "reprs (created sz order features pre) obs"
    using create_reprs [OF assms(2,4,3), of "p oid"] assms(1) by auto
  obtain ob where ob: "obs = Some ob" using c(2) by (auto simp: reprs_def)
  have "od_watchers ob = 0" using watchers_create [OF c(1)] assms(1) by (simp add: ob watchers_def)
  moreover have "cl_create_image oid sz order features pre (fs, p) =
      Some (if fault_of (fs, p) < 0 then (fault_of (fs, p), (tl fs, p)) else (0, (tl fs, p(oid := Some ob))))" for fs
    using io_call_run [where p = p and oid = oid, OF c(1), of fs] by (simp add: cl_create_image_def ob)
  ultimately show ?thesis using c(2) unfolding ob by blast
qed

text \<open>What is undone when no further request fails.\<close>

lemma undo_id:
  assumes "q (id_obj_name name) = Some ob" "od_watchers ob = 0"
  shows "err_remove_id name r ([], q) = Some (r, ([], q(id_obj_name name := None)))"
  by (simp add: err_remove_id_def io_remove_run [where p = q and oid = "id_obj_name name", OF assms])

definition undone :: "pool \<Rightarrow> pool \<Rightarrow> dir \<Rightarrow> bool" where
  "undone p q d \<longleftrightarrow> dir_reprs d (q RBD_DIRECTORY) \<and> (\<forall>o'. o' \<noteq> RBD_DIRECTORY \<longrightarrow> q o' = p o')"

lemma undo_dir:
  assumes "q (id_obj_name name) = Some ob" "od_watchers ob = 0" "dir_reprs (smap_put name i d) (q RBD_DIRECTORY)"
    "dir_ok (smap_put name i d)" "smap_ok d" "map_of d name = None" "short name" "short i"
  shows "\<exists>q'. err_remove_from_dir name i r ([], q) = Some (r, ([], q')) \<and> undone (q(id_obj_name name := None)) q' d"
proof -
  obtain q' where q': "\<And>fs. cl_dir_remove_image RBD_DIRECTORY name i (fs, q) =
       Some (if fault_of (fs, q) < 0 then (fault_of (fs, q), (tl fs, q)) else (0, (tl fs, q')))"
    "dir_reprs d (q' RBD_DIRECTORY)" "\<forall>o'. o' \<noteq> RBD_DIRECTORY \<longrightarrow> q' o' = q o'"
    using dir_remove_step [where p = q, OF assms(3-8)] by blast
  have "err_remove_id name r ([], q') = Some (r, ([], q'(id_obj_name name := None)))"
    by (rule undo_id) (use assms(1,2) q'(3) in simp_all)
  then show ?thesis
    using q' by (simp add: err_remove_from_dir_def undone_def)
qed

lemma undo_header:
  assumes "q (id_obj_name name) = Some ob" "od_watchers ob = 0" "dir_reprs (smap_put name i d) (q RBD_DIRECTORY)"
    "dir_ok (smap_put name i d)" "smap_ok d" "map_of d name = None" "short name" "short i"
    "q (header_name i) = Some hob" "od_watchers hob = 0"
  shows "\<exists>q'. err_remove_header name i r ([], q) = Some (r, ([], q'))
    \<and> undone (q(id_obj_name name := None, header_name i := None)) q' d"
proof -
  let ?q = "q(header_name i := None)"
  have "\<exists>q'. err_remove_from_dir name i r ([], ?q) = Some (r, ([], q')) \<and> undone (?q(id_obj_name name := None)) q' d"
    by (rule undo_dir) (use assms in simp_all)
  then show ?thesis
    by (auto simp: err_remove_header_def io_remove_run [where p = q and oid = "header_name i", OF assms(9,10)] undone_def)
qed

definition wants_striping :: "int \<Rightarrow> u64 \<Rightarrow> u64 \<Rightarrow> bool" where
  "wants_striping order su sc \<longleftrightarrow> (su \<noteq> 0 \<or> sc \<noteq> 0) \<and> (sc \<noteq> 1 \<or> one_shl order \<noteq> Some su)"

definition new_header :: "u64 \<Rightarrow> int \<Rightarrow> u64 \<Rightarrow> string \<Rightarrow> u64 \<Rightarrow> u64 \<Rightarrow> header" where
  "new_header sz order features i su sc =
     (let hdr = created sz (of_int order) features (data_prefix i)
      in if wants_striping order su sc then snd (header_spec (SetStripe su sc) hdr) else hdr)"

definition image_created :: "pool \<Rightarrow> dir \<Rightarrow> string \<Rightarrow> string \<Rightarrow> header \<Rightarrow> pool \<Rightarrow> bool" where
  "image_created p d name i hdr q \<longleftrightarrow> q (id_obj_name name) = Some (id_object i)
     \<and> dir_reprs (smap_put name i d) (q RBD_DIRECTORY) \<and> reprs hdr (q (header_name i))
     \<and> (\<forall>o'. o' \<notin> {id_obj_name name, RBD_DIRECTORY, header_name i} \<longrightarrow> q o' = p o')"

text \<open>The fates of the requests of one creation: all reach their objects, or all before one do.\<close>

definition one_fault :: "nat \<Rightarrow> int list \<Rightarrow> bool" where
  "one_fault n fs \<longleftrightarrow> fs = [] \<or> (\<exists>k < n. \<exists>f < 0. fs = replicate k 0 @ [f])"

lemma one_fault_cases:
  assumes "one_fault n fs" "n \<le> 5"
  obtains "fs = []" | f where "f < 0" "fs = [f]" "0 < n" | f where "f < 0" "fs = [0, f]" "1 < n"
    | f where "f < 0" "fs = [0, 0, f]" "2 < n" | f where "f < 0" "fs = [0, 0, 0, f]" "3 < n"
    | f where "f < 0" "fs = [0, 0, 0, 0, f]" "4 < n"
proof (cases "fs = []")
  case False
  then obtain k f where k: "k < n" "f < 0" "fs = replicate k 0 @ [f]" using assms(1) by (auto simp: one_fault_def)
  consider "k = 0" | "k = 1" | "k = 2" | "k = 3" | "k = 4" using k(1) assms(2) by linarith
  then show ?thesis
    by cases (use k that in \<open>simp_all add: numeral_eq_Suc\<close>)
qed (use that in blast)

text \<open>The states between the requests: the id object is written (\<open>p2\<close>), the directory has the entry (\<open>p3\<close>),
  the header object is there.\<close>

definition between :: "pool \<Rightarrow> dir \<Rightarrow> string \<Rightarrow> string \<Rightarrow> pool \<Rightarrow> osd_object \<Rightarrow> bool" where
  "between p d name i p3 hob \<longleftrightarrow> dir_reprs (smap_put name i d) (p3 RBD_DIRECTORY) \<and> dir_ok (smap_put name i d)
     \<and> (\<forall>o'. o' \<noteq> RBD_DIRECTORY \<longrightarrow> p3 o' = (p(id_obj_name name := Some (id_object i))) o') \<and> od_watchers hob = 0"

lemma create_steps:
  assumes "create_ready p d name i" "is_valid_id i" "small_string i"
    "features AND NOT RBD_FEATURES_ALL = 0" "small_string pre" "pre \<noteq> []"
  shows "\<exists>p3 hob. between p d name i p3 hob \<and> reprs (created sz order features pre) (Some hob)
    \<and> (\<forall>gs. let p2 = p(id_obj_name name := Some (id_object i)) in
         cl_dir_add_image RBD_DIRECTORY name i (gs, p2) =
           Some (if fault_of (gs, p2) < 0 then (fault_of (gs, p2), (tl gs, p2)) else (0, (tl gs, p3))))
    \<and> (\<forall>gs. cl_create_image (header_name i) sz order features pre (gs, p3) =
           Some (if fault_of (gs, p3) < 0 then (fault_of (gs, p3), (tl gs, p3))
                 else (0, (tl gs, p3(header_name i := Some hob)))))"
proof -
  let ?p2 = "p(id_obj_name name := Some (id_object i))"
  have r: "dir_reprs d (p RBD_DIRECTORY)" "dir_ok d" "map_of d name = None" "i \<notin> snd ` set d" "name \<noteq> []" "short name"
    "p (header_name i) = None"
    using assms(1) by (simp_all add: create_ready_def)
  obtain p3 where 3: "\<forall>gs. cl_dir_add_image RBD_DIRECTORY name i (gs, ?p2) = Some (if fault_of (gs, ?p2) < 0
      then (fault_of (gs, ?p2), (tl gs, ?p2)) else (0, (tl gs, p3)))"
    "dir_reprs (smap_put name i d) (p3 RBD_DIRECTORY)" "dir_ok (smap_put name i d)"
    "\<forall>o'. o' \<noteq> RBD_DIRECTORY \<longrightarrow> p3 o' = ?p2 o'"
    using dir_add_step [where p = ?p2, OF _ r(2-6) assms(2,3)] r(1) by auto
  have h: "p3 (header_name i) = None" using 3(4) r(7) by simp
  obtain hob where "\<forall>gs. cl_create_image (header_name i) sz order features pre (gs, p3) = Some (if fault_of (gs, p3) < 0
      then (fault_of (gs, p3), (tl gs, p3)) else (0, (tl gs, p3(header_name i := Some hob))))"
    "reprs (created sz order features pre) (Some hob)" "od_watchers hob = 0"
    using create_header_step [where p = p3 and oid = "header_name i", OF h assms(4-6)] by blast
  then show ?thesis using 3 by (intro exI [of _ p3] exI [of _ hob]) (simp add: between_def Let_def)
qed

lemma id_object_watchers [simp]: "od_watchers (id_object i) = 0"
  by (simp add: id_object_def fresh_object_def)

lemma undo_steps:
  assumes "create_ready p d name i" "short i" "between p d name i p3 hob"
  shows "undone p p d"
    "err_remove_id name f ([], p(id_obj_name name := Some fresh_object)) = Some (f, ([], p))"
    "err_remove_id name f ([], p(id_obj_name name := Some (id_object i))) = Some (f, ([], p))"
    "\<exists>q. err_remove_from_dir name i f ([], p3) = Some (f, ([], q)) \<and> undone p q d"
    "\<exists>q. err_remove_header name i f ([], p3(header_name i := Some hob)) = Some (f, ([], q)) \<and> undone p q d"
proof -
  let ?n = "id_obj_name name" and ?p1 = "p(id_obj_name name := Some fresh_object)"
    and ?p2 = "p(id_obj_name name := Some (id_object i))" and ?p4 = "p3(header_name i := Some hob)"
  have r: "dir_reprs d (p RBD_DIRECTORY)" "smap_ok d" "map_of d name = None" "short name" "p ?n = None"
    "p (header_name i) = None"
    using assms(1) by (simp_all add: create_ready_def dir_ok_def)
  have b: "dir_reprs (smap_put name i d) (p3 RBD_DIRECTORY)" "dir_ok (smap_put name i d)" "od_watchers hob = 0"
    "\<forall>o'. o' \<noteq> RBD_DIRECTORY \<longrightarrow> p3 o' = ?p2 o'"
    using assms(3) by (simp_all add: between_def)
  have q3: "p3 ?n = Some (id_object i)" "p3 (header_name i) = None" using b(4) r(6) by simp_all
  show "undone p p d" using r(1) by (simp add: undone_def)
  show "err_remove_id name f ([], ?p1) = Some (f, ([], p))" "err_remove_id name f ([], ?p2) = Some (f, ([], p))"
    using undo_id [of ?p1 name fresh_object f] undo_id [of ?p2 name "id_object i" f] r(5)
    by (simp_all add: fresh_object_def fun_upd_idem)
  show "\<exists>q. err_remove_from_dir name i f ([], p3) = Some (f, ([], q)) \<and> undone p q d"
    using undo_dir [where q = p3 and r = f, OF q3(1) id_object_watchers b(1,2) r(2,3,4) assms(2)] b(4) r(5)
    by (auto simp: undone_def)
  show "\<exists>q. err_remove_header name i f ([], ?p4) = Some (f, ([], q)) \<and> undone p q d"
    using undo_header [where q = ?p4 and r = f and hob = hob and ob = "id_object i",
        OF _ id_object_watchers _ b(2) r(2,3,4) assms(2) _ b(3)] q3(1) b(1,4) r(5,6)
    by (auto simp: undone_def)
qed

lemma create_v2_done:
  assumes ready: "create_ready p d name i" "i = image_id_of bid extra"
    and args: "features AND NOT RBD_FEATURES_ALL = 0" "0 \<le> order" "order < 64"
    and stripe: "wants_striping order su sc \<Longrightarrow>
        fst (header_spec (SetStripe su sc) (created sz (of_int order) features (data_prefix i))) = 0"
  shows "\<exists>q. create_v2 name bid extra sz order features su sc ([], p) = Some (0, ([], q))
    \<and> image_created p d name i (new_header sz order features i su sc) q"
proof -
  let ?n = "id_obj_name name" and ?h = "header_name i" and ?pre = "data_prefix i"
  let ?hdr = "created sz (of_int order) features ?pre"
  have i: "is_valid_id i" "small_string i" "short i" using image_id_valid small_short by (simp_all add: ready(2))
  have pre: "small_string ?pre" "?pre \<noteq> []" using length_image_id [of bid extra]
    by (simp_all add: small_string_def ready(2) data_prefix_def)
  obtain s where s: "one_shl order = Some s" using args(2,3) by (simp add: one_shl_def)
  let ?p1 = "p(?n := Some fresh_object)" and ?p2 = "p(?n := Some (id_object i))"
  have n: "p ?n = None" using ready(1) by (simp add: create_ready_def)
  note 1 = io_create_run [where p = p and oid = ?n, OF n]
  have 2: "cl_set_id ?n i (gs, ?p1) = Some (if fault_of (gs, ?p1) < 0
      then (fault_of (gs, ?p1), (tl gs, ?p1)) else (0, (tl gs, ?p2)))" for gs
    using set_id_step [of ?p1 name bid extra gs] by (simp add: ready(2))
  obtain p3 hob where bt: "between p d name i p3 hob" and hdr: "reprs ?hdr (Some hob)"
    and 3: "\<And>gs. cl_dir_add_image RBD_DIRECTORY name i (gs, ?p2) = Some (if fault_of (gs, ?p2) < 0
      then (fault_of (gs, ?p2), (tl gs, ?p2)) else (0, (tl gs, p3)))"
    and 4: "\<And>gs. cl_create_image ?h sz (of_int order) features ?pre (gs, p3) = Some (if fault_of (gs, p3) < 0
      then (fault_of (gs, p3), (tl gs, p3)) else (0, (tl gs, p3(?h := Some hob))))"
    using create_steps [OF ready(1) i(1,2) args(1) pre, of sz "of_int order"] unfolding Let_def by blast
  let ?p4 = "p3(?h := Some hob)"
  have made: "image_created p d name i hdr q" if "reprs hdr (q ?h)" "\<forall>o'. o' \<noteq> ?h \<longrightarrow> q o' = p3 o'" for hdr q
    using that bt by (simp add: image_created_def between_def)
  have striped: "striping_asked order su sc = Some (wants_striping order su sc)"
    using s by (auto simp: striping_asked_def wants_striping_def)
  note run = create_v2_def Let_def ready(2) [symmetric] 1 2 3 4 striped
  show ?thesis
  proof (cases "wants_striping order su sc")
    case True
    have ok: "header_ok ?hdr" by (rule created_ok [OF pre(1)])
    have spec: "header_spec (SetStripe su sc) ?hdr = (0, snd (header_spec (SetStripe su sc) ?hdr))"
      using stripe [OF True] by (metis prod.collapse)
    have rp: "reprs ?hdr (?p4 ?h)" using hdr by simp
    have "call_fits (SetStripe su sc)" by simp
    then obtain p5 where 5: "\<And>gs. cl_set_stripe_unit_count ?h su sc (gs, ?p4) = (if fault_of (gs, ?p4) < 0
        then Some (fault_of (gs, ?p4), (tl gs, ?p4)) else Some (0, (tl gs, p5)))"
      "reprs (snd (header_spec (SetStripe su sc) ?hdr)) (p5 ?h)" "\<forall>o'. o' \<noteq> ?h \<longrightarrow> p5 o' = ?p4 o'"
      using header_call_run [where p = ?p4 and oid = ?h, OF rp ok _ spec] unfolding header_call_forms by blast
    have "create_v2 name bid extra sz order features su sc ([], p) = Some (0, ([], p5))"
      using True by (simp add: run 5(1))
    moreover have "image_created p d name i (new_header sz order features i su sc) p5"
      using made [where q = p5, OF 5(2)] 5(3) True by (simp add: new_header_def Let_def)
    ultimately show ?thesis by blast
  next
    case False
    then have "create_v2 name bid extra sz order features su sc ([], p) = Some (0, ([], ?p4))" by (simp add: run)
    moreover have "image_created p d name i (new_header sz order features i su sc) ?p4"
      using made [of ?hdr ?p4] hdr False by (simp add: new_header_def Let_def)
    ultimately show ?thesis by blast
  qed
qed

text \<open>C30. A creation is all or nothing. In a pool whose directory is well formed and has neither the name nor the
  id, and where the id object and the header object are not there, \<open>create_v2\<close> with all requests reaching
  their objects returns 0 and leaves the id object with the id, the directory with the new entry, the header
  with the size, order, features, prefix and striping asked for, and everything else as it was; when exactly
  one of its requests fails, whichever it is, it returns that error, the id object and the header are not
  there, and the directory and everything else say what they said before.\<close>

theorem create_v2_all_or_nothing:
  assumes ready: "create_ready p d name i" "i = image_id_of bid extra"
    and args: "features AND NOT RBD_FEATURES_ALL = 0" "0 \<le> order" "order < 64"
    and stripe: "wants_striping order su sc \<Longrightarrow>
        fst (header_spec (SetStripe su sc) (created sz (of_int order) features (data_prefix i))) = 0"
    and fate: "one_fault (if wants_striping order su sc then 5 else 4) fs"
  shows "\<exists>r q. create_v2 name bid extra sz order features su sc (fs, p) = Some (r, ([], q))
    \<and> (if fs = [] then r = 0 \<and> image_created p d name i (new_header sz order features i su sc) q
       else r = last fs \<and> undone p q d)"
proof -
  let ?n = "id_obj_name name" and ?h = "header_name i" and ?pre = "data_prefix i"
  let ?hdr = "created sz (of_int order) features ?pre"
  have i: "is_valid_id i" "small_string i" "short i" using image_id_valid small_short by (simp_all add: ready(2))
  have pre: "small_string ?pre" "?pre \<noteq> []" using length_image_id [of bid extra]
    by (simp_all add: small_string_def ready(2) data_prefix_def)
  obtain s where s: "one_shl order = Some s" using args(2,3) by (simp add: one_shl_def)
  let ?p1 = "p(?n := Some fresh_object)" and ?p2 = "p(?n := Some (id_object i))"
  have n: "p ?n = None" using ready(1) by (simp add: create_ready_def)
  note 1 = io_create_run [where p = p and oid = ?n, OF n]
  have 2: "cl_set_id ?n i (gs, ?p1) = Some (if fault_of (gs, ?p1) < 0
      then (fault_of (gs, ?p1), (tl gs, ?p1)) else (0, (tl gs, ?p2)))" for gs
    using set_id_step [of ?p1 name bid extra gs] by (simp add: ready(2))
  obtain p3 hob where bt: "between p d name i p3 hob" and hdr: "reprs ?hdr (Some hob)"
    and 3: "\<And>gs. cl_dir_add_image RBD_DIRECTORY name i (gs, ?p2) = Some (if fault_of (gs, ?p2) < 0
      then (fault_of (gs, ?p2), (tl gs, ?p2)) else (0, (tl gs, p3)))"
    and 4: "\<And>gs. cl_create_image ?h sz (of_int order) features ?pre (gs, p3) = Some (if fault_of (gs, p3) < 0
      then (fault_of (gs, p3), (tl gs, p3)) else (0, (tl gs, p3(?h := Some hob))))"
    using create_steps [OF ready(1) i(1,2) args(1) pre, of sz "of_int order"] unfolding Let_def by blast
  let ?p4 = "p3(?h := Some hob)"
  note undo = undo_steps [OF ready(1) i(3) bt]
  have striped: "striping_asked order su sc = Some (wants_striping order su sc)"
    using s by (auto simp: striping_asked_def wants_striping_def)
  note run = create_v2_def Let_def ready(2) [symmetric] 1 2 3 4 striped
  let ?goal = "\<exists>r q. create_v2 name bid extra sz order features su sc (fs, p) = Some (r, ([], q))
    \<and> (if fs = [] then r = 0 \<and> image_created p d name i (new_header sz order features i su sc) q
       else r = last fs \<and> undone p q d)"
  have le: "(if wants_striping order su sc then 5 else 4 :: nat) \<le> 5" by simp
  from fate le show ?goal
  proof (cases rule: one_fault_cases)
    case 1
    then show ?thesis using create_v2_done [OF ready args stripe] by auto
  next
    case (2 f)
    then show ?thesis using undo by (simp add: run fault_of_def)
  next
    case (3 f)
    then show ?thesis using undo by (simp add: run fault_of_def)
  next
    case (4 f)
    then show ?thesis using undo by (simp add: run fault_of_def)
  next
    case (5 f)
    then show ?thesis using undo(4) [of f] by (auto simp: run fault_of_def)
  next
    case (6 f)
    then have w: "wants_striping order su sc" by (auto split: if_splits)
    have stripe: "\<And>gs. fault_of (gs, ?p4) < 0 \<Longrightarrow> cl_set_stripe_unit_count ?h su sc (gs, ?p4) = Some (fault_of (gs, ?p4), (tl gs, ?p4))"
      by (simp add: cl_set_stripe_unit_count_def io_call_def io_exec_def request_def rados_calls_def)
    show ?thesis using 6 w undo(5) [of f] by (auto simp: run stripe fault_of_def)
  qed
qed

lemma create_v2_all_or_nothing_witness:
  "\<exists>q q'. create_v2 ''a'' 16 32 1048576 22 1 0 0 ([0, 0, - 5], \<lambda>_. None) = Some (- 5, ([], q))
     \<and> q (id_obj_name ''a'') = None
     \<and> create_v2 ''a'' 16 32 1048576 22 1 0 0 ([], \<lambda>_. None) = Some (0, ([], q'))
     \<and> q' (id_obj_name ''a'') = Some (id_object (image_id_of 16 32))"
proof -
  let ?p = "\<lambda>_. None :: osd_object option" and ?i = "image_id_of 16 32"
  have ready: "create_ready ?p [] ''a'' ?i"
    using dir_reprs_absent by (simp add: create_ready_def short_def)
  have args: "(1 :: u64) AND NOT RBD_FEATURES_ALL = 0" "0 \<le> (22 :: int)" "(22 :: int) < 64"
    by (simp_all add: RBD_FEATURES_ALL_def RBD_FEATURE_LAYERING_def RBD_FEATURE_STRIPINGV2_def)
  have no: "\<not> wants_striping 22 0 0" by (simp add: wants_striping_def)
  have "\<exists>k < 4. \<exists>f < 0. [0, 0, - 5 :: int] = replicate k 0 @ [f]"
    by (intro exI [of _ 2] exI [of _ "- 5"]) (simp add: numeral_eq_Suc)
  then have f: "one_fault 4 [0, 0, - 5]" "one_fault 4 []" by (simp_all add: one_fault_def)
  note r = create_v2_all_or_nothing [where p = ?p and sz = 1048576, OF ready refl args, of 0 0, simplified no if_False]
  show ?thesis using r [OF _ f(1)] r [OF _ f(2)] by (auto simp: undone_def image_created_def)
qed

end
