(* ===== verification/Image_Open.thy ===== *)
theory Image_Open
  imports Image_Create Image_Ctx
begin

text \<open>
  Finding an image again: \<open>ImageCtx::init\<close> asks for the format, the id, the immutable metadata and the striping,
  and sets the layout. What \<open>create\<close> made is what \<open>init\<close> finds.
\<close>

subsection \<open>Opening: what is found\<close>

text \<open>The constructor. Members it does not set are those of \<open>mem\<close>: the extent map and the analyzer, which
  \<open>initialize_WHOBBS\<close> sets later. The pointers \<open>migrater\<close>, \<open>analyzer\<close> and the thread \<open>analyzer_pid\<close> are
  not initialised either: \<open>ic_migrater_set\<close> says whether they have been given values yet.\<close>

definition new_ImageCtx ::
    "bool \<Rightarrow> rbd_conf \<Rightarrow> ImageCtx \<Rightarrow> string \<Rightarrow> string \<Rightarrow> string option \<Rightarrow> int \<Rightarrow> int \<Rightarrow> bool \<Rightarrow> ImageCtx" where
  "new_ImageCtx rbd_cache cf mem image_name image_id snap p0 p1 ro =
     mem\<lparr>ic_old_format := True, ic_order := 0, ic_size := 0, ic_features := 0, ic_object_prefix := [], ic_header_oid := [],
         ic_id := image_id, ic_name := image_name, ic_parent_md := no_parent, ic_has_parent := False,
         ic_stripe_unit := 0, ic_stripe_count := 0,
         ic_layout := \<lparr>fl_stripe_unit = 0, fl_stripe_count = 0, fl_object_size = 0, fl_pg_pool = 0\<rparr>,
         ic_format_string := \<lparr>fmt_prefix = [], fmt_width = 0\<rparr>, ic_snapc := \<lparr>sc_seq = 0, sc_snaps = []\<rparr>, ic_snaps := [],
         ic_snaps_by_name := [], ic_snap_id := CEPH_NOSNAP, ic_snap_name := (case snap of None \<Rightarrow> [] | Some sn \<Rightarrow> sn),
         ic_snap_exists := True, ic_read_only := ro, ic_flush_encountered := False,
         ic_cache_max_dirty :=
           (if rbd_cache then Some (if cf_cache_writethrough_until_flush cf then 0 else cf_cache_max_dirty cf) else None),
         ic_refresh_seq := 0, ic_last_refresh := 0, ic_watch := False, ic_hdd_id := p0, ic_ssd_id := p1,
         ic_migrater_set := False\<rparr>"

definition image_init :: "ImageCtx \<Rightarrow> io \<Rightarrow> ((int \<times> ImageCtx) \<times> io) option" where
  "image_init ic st =
     do { (r, ic, st) \<leftarrow>
            (if ic_id ic \<noteq> [] then Some (0, ic\<lparr>ic_old_format := False\<rparr>, st)
             else map_option (\<lambda>((r, old_format, _), st). (r, ic\<lparr>ic_old_format := old_format\<rparr>, st))
                    (detect_format (ic_name ic) st));
          if r < 0 then Some ((r, ic), st)
          else if ic_old_format ic then Some ((0, ic\<lparr>ic_header_oid := old_header_name (ic_name ic)\<rparr>), st)
          else
     do { (found, st) \<leftarrow> (if ic_id ic \<noteq> [] then Some (Inr (ic_id ic), st)
                          else cl_get_id (id_obj_name (ic_name ic)) st);
          (case found of
             Inl r \<Rightarrow> Some ((r, ic), st)
           | Inr image_id \<Rightarrow>
               let ic = ic\<lparr>ic_id := image_id, ic_header_oid := header_name image_id\<rparr> in
     do { (md, st) \<leftarrow> cl_get_immutable_metadata (ic_header_oid ic) st;
          (case md of
             Inl r \<Rightarrow> Some ((r, ic), st)
           | Inr (order, object_prefix) \<Rightarrow>
               let ic = ic\<lparr>ic_order := order, ic_object_prefix := object_prefix\<rparr> in
     do { (stripe, st) \<leftarrow> cl_get_stripe_unit_count (ic_header_oid ic) st;
          (case stripe of
             Inl r \<Rightarrow> if r \<noteq> - ENOEXEC \<and> r \<noteq> - EINVAL then Some ((r, ic), st)
                      else Some ((0, init_layout (of_int (data_ctx ic DEFAULT_POOL)) ic), st)
           | Inr (su, sc) \<Rightarrow>
               let ic = ic\<lparr>ic_stripe_unit := su, ic_stripe_count := sc\<rparr>
               in Some ((0, init_layout (of_int (data_ctx ic DEFAULT_POOL)) ic), st)) }) }) } }"

subsection \<open>Names of old and new headers\<close>

lemma image_id_chars: "c \<in> set (image_id_of bid extra) \<Longrightarrow> c \<noteq> CHR ''r''"
proof -
  have "\<forall>d \<in> set [0..<16]. digit_char d \<noteq> CHR ''r''" by code_simp
  moreover assume "c \<in> set (image_id_of bid extra)"
  then obtain d where "d < 16" "c = digit_char d"
    using show_nat_chars [of 16 c] by (fastforce simp: image_id_of_def)
  ultimately show ?thesis by simp
qed

lemma old_header_name_differs:
  "old_header_name name \<noteq> id_obj_name name" "old_header_name name \<noteq> RBD_DIRECTORY"
  "old_header_name name \<noteq> header_name (image_id_of bid extra)"
proof -
  show "old_header_name name \<noteq> id_obj_name name"
    by (rule notI, drule arg_cong [of _ _ length]) (simp add: old_header_name_def id_obj_name_def)
  show "old_header_name name \<noteq> RBD_DIRECTORY"
    by (rule notI, drule arg_cong [of _ _ last]) (simp add: old_header_name_def RBD_DIRECTORY_def)
  show "old_header_name name \<noteq> header_name (image_id_of bid extra)"
  proof
    assume "old_header_name name = header_name (image_id_of bid extra)"
    then have "rev (old_header_name name) = rev (header_name (image_id_of bid extra))" by simp
    then have e: "''dbr.'' @ rev name = rev (image_id_of bid extra) @ ''.redaeh_dbr''"
      by (simp add: old_header_name_def header_name_def)
    define w where "w = rev (image_id_of bid extra)"
    have r: "CHR ''r'' \<notin> set w" using image_id_chars [of "CHR ''r''" bid extra] by (auto simp: w_def)
    have "w = [] \<or> (\<exists>x. w = [x]) \<or> (\<exists>x y. w = [x, y]) \<or> (\<exists>x y z ws. w = x # y # z # ws)"
      by (metis neq_Nil_conv)
    then show False using e r unfolding w_def [symmetric] by (elim disjE exE) simp_all
  qed
qed

text \<open>The striping asked for: none, or a unit that divides the size of the objects, with the feature for it.\<close>

definition striping_ok :: "int \<Rightarrow> u64 \<Rightarrow> u64 \<Rightarrow> u64 \<Rightarrow> bool" where
  "striping_ok order features su sc \<longleftrightarrow>
     (if su = 0 \<and> sc = 0 then features AND RBD_FEATURE_STRIPINGV2 = 0
      else su \<noteq> 0 \<and> sc \<noteq> 0 \<and> features AND RBD_FEATURE_STRIPINGV2 \<noteq> 0 \<and> unat su dvd 2 ^ nat order)"

subsection \<open>What is found of a new image\<close>

lemma detect_format_missing:
  "p (old_header_name name) = None \<Longrightarrow> p (id_obj_name name) = None \<Longrightarrow>
     detect_format name ([], p) = Some ((- ENOENT, False, 0), ([], p))"
  by (simp add: detect_format_def io_stat_run)

lemma detect_format_new:
  "p (old_header_name name) = None \<Longrightarrow> p (id_obj_name name) = Some ob \<Longrightarrow>
     detect_format name ([], p) = Some ((0, False, od_size ob), ([], p))"
  by (simp add: detect_format_def io_stat_run)

lemma client_id:
  assumes "p oid = Some (id_object i)" "small_string i"
  shows "cl_get_id oid ([], p) = Some (Inr i, ([], p))"
proof -
  have "cls_call rbd_get_id [] (p oid) = Some (0, encode_string i, p oid)"
    using get_id_object [OF assms(2)] by (simp add: assms(1))
  note run = io_ask_run [where p = p and oid = oid and fs = "[]", OF this]
  show ?thesis using small_short [OF assms(2)] by (simp add: cl_get_id_def run cstr.dec_enc_end)
qed

definition found_image :: "header \<Rightarrow> string \<Rightarrow> ImageCtx \<Rightarrow> ImageCtx" where
  "found_image hdr i ic =
     (let ic = ic\<lparr>ic_old_format := False, ic_id := i, ic_header_oid := header_name i, ic_order := h_order hdr,
                  ic_object_prefix := h_prefix hdr\<rparr>
      in if lacks hdr RBD_FEATURE_STRIPINGV2 then ic
         else ic\<lparr>ic_stripe_unit := the_default (object_bytes (h_order hdr)) (h_unit hdr),
                 ic_stripe_count := the_default 1 (h_count hdr)\<rparr>)"

lemma image_init_new:
  assumes "q (id_obj_name (ic_name ic)) = Some (id_object i)" "small_string i" "ic_id ic = []"
    "q (old_header_name (ic_name ic)) = None" "reprs hdr (q (header_name i))" "header_ok hdr"
  shows "image_init ic ([], q) =
     Some ((0, init_layout (of_int (data_ctx ic DEFAULT_POOL)) (found_image hdr i ic)), ([], q))"
  using client_id [where p = q and oid = "id_obj_name (ic_name ic)", OF assms(1,2)] assms(3)
    client_immutable_metadata [where p = q and oid = "header_name i", OF assms(5,6)]
    client_stripe [where p = q and oid = "header_name i", OF assms(5,6)]
    detect_format_new [where p = q, OF assms(4,1)]
  by (simp add: image_init_def found_image_def Let_def data_ctx_def)

lemma stored_order:
  assumes "12 \<le> order" "order < 64"
  shows "one_shl order = Some (object_bytes (of_int order))" "unat (object_bytes (of_int order)) = 2 ^ nat order"
proof -
  define k where "k = nat order"
  have k: "order = int k" "k < 64" using assms by (simp_all add: k_def)
  have o: "unat (of_int order :: u8) = k" using k(2) by (simp add: k(1) unat_of_nat take_bit_nat_eq_self)
  show "one_shl order = Some (object_bytes (of_int order))"
    using assms k(2) o by (simp add: one_shl_def object_bytes_def flip: k_def)
  show "unat (object_bytes (of_int order)) = 2 ^ nat order"
    using k(2) o unat_shift_u64 [of k] by (simp add: object_bytes_def flip: k_def)
qed

lemma shift_order:
  assumes "12 \<le> order" "order < 64"
  shows "push_bit (unat (of_int order :: u8)) 1 = object_bytes (of_int order)"
proof -
  define k where "k = nat order"
  have k: "order = int k" "k < 64" using assms by (simp_all add: k_def)
  have "unat (of_int order :: u8) = k" using k(2) by (simp add: k(1) unat_of_nat take_bit_nat_eq_self)
  then show ?thesis using k(2) by (simp add: object_bytes_def)
qed

lemma striping_bit: "features AND RBD_FEATURE_STRIPINGV2 \<noteq> 0 \<longleftrightarrow> features AND RBD_FEATURE_STRIPINGV2 = RBD_FEATURE_STRIPINGV2"
proof -
  have "(2 :: u64) = push_bit 1 1" by simp
  moreover have "features AND push_bit 1 1 \<in> {0, push_bit 1 (1 :: u64)}"
    by (cases "bit features 1") (auto intro!: bit_eqI simp: bit_simps simp del: push_bit_of_1)
  ultimately show ?thesis by (auto simp: RBD_FEATURE_STRIPINGV2_def)
qed

text \<open>The striping as \<open>create\<close> passes it on, and what the header then says.\<close>

definition passed_on :: "int \<Rightarrow> u64 \<Rightarrow> u64 \<Rightarrow> u64 \<times> u64" where
  "passed_on order su sc = (if one_shl order = Some su \<and> sc = 1 then (0, 0) else (su, sc))"

lemma passed_on_ok:
  assumes "12 \<le> order" "order < 64" "striping_ok order features su sc" "passed_on order su sc = (su1, sc1)"
  shows "wants_striping order su1 sc1 \<longleftrightarrow> su1 \<noteq> 0" "(su1 = 0) = (sc1 = 0)"
    "su1 \<noteq> 0 \<Longrightarrow> features AND RBD_FEATURE_STRIPINGV2 \<noteq> 0 \<and> su1 = su \<and> sc1 = sc \<and> unat su dvd 2 ^ nat order"
    "su1 = 0 \<Longrightarrow> (su = 0 \<and> sc = 0) \<or> (one_shl order = Some su \<and> sc = 1)"
  using assms(3,4)
  by (auto simp: passed_on_def striping_ok_def wants_striping_def split: if_splits)

lemma stripe_accepted:
  assumes "12 \<le> order" "order < 64" "striping_ok order features su sc" "passed_on order su sc = (su1, sc1)" "su1 \<noteq> 0"
  shows "header_spec (SetStripe su1 sc1) (created sz (of_int order) features pre) =
     (0, (created sz (of_int order) features pre)\<lparr>h_unit := Some su, h_count := Some sc\<rparr>)"
proof -
  note po = passed_on_ok [OF assms(1-4)]
  let ?o = "object_bytes (of_int order)"
  have dvd: "unat su dvd unat ?o" using po(3) assms(5) stored_order(2) [OF assms(1,2)] by simp
  moreover have "unat ?o \<noteq> 0" using stored_order(2) [OF assms(1,2)] by simp
  ultimately have le: "\<not> ?o < su" by (simp add: word_less_nat_alt dvd_imp_le not_less)
  have "unat (?o mod su) = 0" using dvd by (simp add: unat_mod)
  then have "?o mod su = 0" by (simp add: unat_eq_0)
  moreover have "features AND RBD_FEATURE_STRIPINGV2 = RBD_FEATURE_STRIPINGV2"
    using po(3) assms(5) striping_bit by blast
  ultimately show ?thesis using le po assms(5) by (simp add: lacks_def created_def)
qed

lemma create_asks_v2:
  assumes "features AND NOT RBD_FEATURES_ALL = 0" "12 \<le> order" "order < 64" "striping_ok order features su sc"
    "passed_on order su sc = (su1, sc1)" "p (old_header_name name) = None" "p (id_obj_name name) = None"
  shows "create cf bid extra name sz False features order su sc ([], p) =
     map_option (\<lambda>(r, st). ((r, order), st)) (create_v2 name bid extra sz order features su1 sc1 ([], p))"
proof -
  have c: "(\<not> False \<and> features AND RBD_FEATURE_STRIPINGV2 \<noteq> 0 \<and> su = 0 \<and> sc = 0) = False"
    using assms(4) by (auto simp: striping_ok_def)
  have o: "(if order = 0 then d else order) = order" "(order \<noteq> 0 \<and> (64 < order \<or> order < 12)) = False" for d :: int
    using assms(2,3) by auto
  note po = passed_on_ok [OF assms(2-5)]
  have su1: "su1 = (if su = object_bytes (of_int order) \<and> sc = 1 then 0 else su)"
    "sc1 = (if su = object_bytes (of_int order) \<and> sc = 1 then 0 else sc)"
    using assms(5) stored_order(1) [OF assms(2,3)] by (auto simp: passed_on_def split: if_splits)
  have v: "((su1 \<noteq> 0 \<or> sc1 \<noteq> 0) \<and> features AND RBD_FEATURE_STRIPINGV2 = 0) = False" "((su1 = 0) \<noteq> (sc1 = 0)) = False"
    using po by auto
  have r: "(features AND NOT RBD_FEATURES_ALL \<noteq> 0) = False" using assms(1) by simp
  show ?thesis
    by (simp only: create_def Let_def detect_format_missing [where p = p, OF assms(6,7)] stored_order(1) [OF assms(2,3)]
        c o r v bind.simps prod.case if_False flip: su1) simp
qed

lemma create_existing:
  assumes "features AND NOT RBD_FEATURES_ALL = 0" "p (old_header_name name) = None" "p (id_obj_name name) = Some ob"
  shows "create cf bid extra name sz old features order su sc ([], p) = Some ((- EEXIST, order), ([], p))"
  using assms by (simp add: create_def detect_format_new [where p = p, OF assms(2,3)])

lemma client_size:
  assumes "reprs hdr (p oid)" "header_ok hdr"
  shows "cl_get_size oid CEPH_NOSNAP ([], p) = Some (Inr (h_order hdr, h_size hdr), ([], p))"
proof -
  have "cls_call rbd_get_size (encode_u64 CEPH_NOSNAP) (p oid) = Some (0, encode_u8 (h_order hdr) @ encode_u64 (h_size hdr), p oid)"
    using header_queries [OF assms, of CEPH_NOSNAP] by (simp add: seen_size_def)
  note run = io_ask_run [where p = p and oid = oid and fs = "[]", OF this]
  show ?thesis by (simp add: cl_get_size_def run decode_pair_def c8.dec_enc c64.dec_enc_end)
qed

lemma new_header_found:
  assumes "12 \<le> order" "order < 64" "striping_ok order features su sc" "passed_on order su sc = (su1, sc1)"
    "ic_stripe_unit ic = 0" "ic_stripe_count ic = 0" "small_string (data_prefix i)"
  shows "header_ok (new_header sz order features i su1 sc1)" "h_size (new_header sz order features i su1 sc1) = sz"
    "h_order (new_header sz order features i su1 sc1) = of_int order"
    "let ic' = init_layout k (found_image (new_header sz order features i su1 sc1) i ic) in
       ic_id ic' = i \<and> ic_header_oid ic' = header_name i \<and> \<not> ic_old_format ic' \<and> ic_order ic' = of_int order
       \<and> ic_object_prefix ic' = data_prefix i
       \<and> unat (ic_stripe_unit ic') = (if su = 0 then 2 ^ nat order else unat su)
       \<and> ic_stripe_count ic' = (if sc = 0 then 1 else sc)"
proof -
  let ?c = "created sz (of_int order) features (data_prefix i)"
  note po = passed_on_ok [OF assms(1-4)]
  have h: "new_header sz order features i su1 sc1 =
      (if su1 = 0 then ?c else ?c\<lparr>h_unit := Some su, h_count := Some sc\<rparr>)"
    using po(1) stripe_accepted [OF assms(1-4)] by (simp add: new_header_def Let_def)
  have "header_ok (snd (header_spec (SetStripe su1 sc1) ?c))"
    using header_spec_ok [OF created_ok [OF assms(7)], of "SetStripe su1 sc1"] by (metis call_fits.simps(5) prod.collapse)
  then show "header_ok (new_header sz order features i su1 sc1)"
    using created_ok [OF assms(7)] by (simp add: new_header_def Let_def)
  show "h_size (new_header sz order features i su1 sc1) = sz"
    "h_order (new_header sz order features i su1 sc1) = of_int order"
    by (simp_all add: h created_def)
  have o: "push_bit (unat (of_int order :: u8)) 1 = object_bytes (of_int order)" "object_bytes (of_int order) \<noteq> 0"
    using stored_order(2) [OF assms(1,2)] shift_order [OF assms(1,2)] by auto
  define hdr where "hdr = new_header sz order features i su1 sc1"
  have f: "h_order hdr = of_int order" "h_features hdr = features" "h_prefix hdr = data_prefix i"
    "h_unit hdr = (if su1 = 0 then None else Some su)" "h_count hdr = (if su1 = 0 then None else Some sc)"
    by (simp_all add: hdr_def h created_def)
  show "let ic' = init_layout k (found_image (new_header sz order features i su1 sc1) i ic) in
       ic_id ic' = i \<and> ic_header_oid ic' = header_name i \<and> \<not> ic_old_format ic' \<and> ic_order ic' = of_int order
       \<and> ic_object_prefix ic' = data_prefix i
       \<and> unat (ic_stripe_unit ic') = (if su = 0 then 2 ^ nat order else unat su)
       \<and> ic_stripe_count ic' = (if sc = 0 then 1 else sc)"
  proof (cases "su1 = 0")
    case True
    have "striping_ok order features su sc" by (rule assms(3))
    then show ?thesis using True po(4) assms(5,6) o stored_order [OF assms(1,2)]
      unfolding hdr_def [symmetric]
      by (auto simp: f found_image_def init_layout_def Let_def lacks_def striping_ok_def simp del: push_bit_of_1)
  next
    case False
    then have "features AND RBD_FEATURE_STRIPINGV2 = RBD_FEATURE_STRIPINGV2" "su \<noteq> 0" "sc \<noteq> 0"
      using po(2,3) striping_bit [of features] by auto
    then show ?thesis using False unfolding hdr_def [symmetric]
      by (simp add: f found_image_def init_layout_def Let_def lacks_def)
  qed
qed

text \<open>What \<open>create\<close> leaves behind.\<close>

lemma create_done:
  assumes "create_ready p d name i" "i = image_id_of bid extra" "p (old_header_name name) = None"
    "features AND NOT RBD_FEATURES_ALL = 0" "12 \<le> order" "order < 64" "striping_ok order features su sc"
    "passed_on order su sc = (su1, sc1)"
  shows "\<exists>q. create cf bid extra name sz False features order su sc ([], p) = Some ((0, order), ([], q))
    \<and> create_v2 name bid extra sz order features su1 sc1 ([], p) = Some (0, ([], q))
    \<and> image_created p d name i (new_header sz order features i su1 sc1) q"
proof -
  have "wants_striping order su1 sc1 \<Longrightarrow>
      fst (header_spec (SetStripe su1 sc1) (created sz (of_int order) features (data_prefix i))) = 0"
    using passed_on_ok(1) [OF assms(5-8)] stripe_accepted [OF assms(5-8)] by simp
  with assms(5) obtain q where q: "create_v2 name bid extra sz order features su1 sc1 ([], p) = Some (0, ([], q))"
    "image_created p d name i (new_header sz order features i su1 sc1) q"
    using create_v2_done [OF assms(1,2,4) _ assms(6), of su1 sc1 sz] by auto
  moreover have "p (id_obj_name name) = None" using assms(1) by (simp add: create_ready_def)
  then have "create cf bid extra name sz False features order su sc ([], p) = Some ((0, order), ([], q))"
    by (simp add: create_asks_v2 [where p = p, OF assms(4-8) assms(3)] q(1))
  ultimately show ?thesis by blast
qed

text \<open>What was created is found: when \<open>create\<close> is asked for a new image with an order from 12 to 63 and with
  no striping or a legal one, in a pool that has neither the name nor the id, it returns 0 with the order;
  \<open>init\<close> of a new context with the name then finds the id, the header, the order, the prefix and the
  striping (one object per stripe unit when none was asked for), \<open>get_size\<close> says the size, and a second
  \<open>create\<close> of the name, with any size, order, striping and format, returns \<open>-EEXIST\<close> and changes nothing.\<close>

theorem create_then_open:
  assumes "create_ready p d name i" "i = image_id_of bid extra" "p (old_header_name name) = None"
    "features AND NOT RBD_FEATURES_ALL = 0" "12 \<le> order" "order < 64" "striping_ok order features su sc"
  shows "\<exists>q ic'. create cf bid extra name sz False features order su sc ([], p) = Some ((0, order), ([], q))
    \<and> image_init (new_ImageCtx rbd_cache rc mem name [] snap p0 p1 ro) ([], q) = Some ((0, ic'), ([], q))
    \<and> ic_id ic' = i \<and> ic_header_oid ic' = header_name i \<and> \<not> ic_old_format ic' \<and> ic_order ic' = of_int order
    \<and> ic_object_prefix ic' = data_prefix i
    \<and> unat (ic_stripe_unit ic') = (if su = 0 then 2 ^ nat order else unat su)
    \<and> ic_stripe_count ic' = (if sc = 0 then 1 else sc)
    \<and> cl_get_size (header_name i) CEPH_NOSNAP ([], q) = Some (Inr (of_int order, sz), ([], q))
    \<and> create cf bid' extra' name sz' old' features order' su' sc' ([], q) = Some ((- EEXIST, order'), ([], q))"
proof -
  define ic where "ic = new_ImageCtx rbd_cache rc mem name [] snap p0 p1 ro"
  have ic: "ic_name ic = name" "ic_id ic = []" "ic_stripe_unit ic = 0" "ic_stripe_count ic = 0"
    by (simp_all add: ic_def new_ImageCtx_def)
  obtain su1 sc1 where po: "passed_on order su sc = (su1, sc1)" by fastforce
  have s: "small_string i" using image_id_valid by (simp add: assms(2))
  have pre: "small_string (data_prefix i)" using length_image_id [of bid extra]
    by (simp add: small_string_def assms(2) data_prefix_def)
  obtain q where q: "create cf bid extra name sz False features order su sc ([], p) = Some ((0, order), ([], q))"
    "image_created p d name i (new_header sz order features i su1 sc1) q"
    using create_done [where p = p and cf = cf, OF assms po] by blast
  let ?hdr = "new_header sz order features i su1 sc1"
  note hdr = new_header_found [where i = i and sz = sz and ic = ic, OF assms(5-7) po ic(3,4) pre]
  have qn: "q (old_header_name name) = None" "q (id_obj_name name) = Some (id_object i)" "reprs ?hdr (q (header_name i))"
    using q(2) assms(2,3) old_header_name_differs [of name] by (simp_all add: image_created_def)
  have "image_init ic ([], q) = Some ((0, init_layout (of_int (data_ctx ic DEFAULT_POOL)) (found_image ?hdr i ic)), ([], q))"
    using image_init_new [where q = q and hdr = ?hdr, OF _ s ic(2) _ qn(3) hdr(1)] qn(1,2) ic(1) by simp
  moreover have "cl_get_size (header_name i) CEPH_NOSNAP ([], q) = Some (Inr (of_int order, sz), ([], q))"
    using client_size [where p = q and oid = "header_name i", OF qn(3) hdr(1)] hdr(2,3) by simp
  moreover have "create cf bid' extra' name sz' old' features order' su' sc' ([], q) = Some ((- EEXIST, order'), ([], q))"
    by (rule create_existing [where p = q, OF assms(4) qn(1,2)])
  ultimately show ?thesis using hdr(4) q(1) unfolding Let_def ic_def [symmetric] by blast
qed

lemma create_then_open_witness:
  "\<exists>q ic'. create \<lparr>cc_default_format = 2, cc_default_features = 3, cc_default_order = 22, cc_default_stripe_unit = 0,
       cc_default_stripe_count = 0\<rparr> 16 32 ''a'' 1048576 False 3 22 65536 4 ([], \<lambda>_. None) = Some ((0, 22), ([], q))
     \<and> image_init (new_ImageCtx False \<lparr>cf_cache_writethrough_until_flush = False, cf_cache_max_dirty = 0,
       cf_balance_snap_reads = False, cf_localize_snap_reads = False\<rparr> image_9M ''a'' [] None 3 4 False) ([], q) = Some ((0, ic'), ([], q))
     \<and> ic_id ic' = image_id_of 16 32 \<and> ic_order ic' = 22 \<and> unat (ic_stripe_unit ic') = 65536 \<and> ic_stripe_count ic' = 4"
proof -
  have ready: "create_ready (\<lambda>_. None) [] ''a'' (image_id_of 16 32)"
    using dir_reprs_absent by (simp add: create_ready_def short_def)
  have args: "(3 :: u64) AND NOT RBD_FEATURES_ALL = 0" "12 \<le> (22 :: int)" "(22 :: int) < 64"
    by (simp_all add: RBD_FEATURES_ALL_def RBD_FEATURE_LAYERING_def RBD_FEATURE_STRIPINGV2_def)
  have "(65536 :: nat) dvd 2 ^ 22" using le_imp_power_dvd [of 16 22 "2 :: nat"] by simp
  then have st: "striping_ok 22 3 65536 4" by (simp add: striping_ok_def RBD_FEATURE_STRIPINGV2_def)
  define cf where "cf = \<lparr>cc_default_format = 2, cc_default_features = 3, cc_default_order = 22, cc_default_stripe_unit = 0,
       cc_default_stripe_count = 0\<rparr>"
  define rc where "rc = \<lparr>cf_cache_writethrough_until_flush = False, cf_cache_max_dirty = 0,
       cf_balance_snap_reads = False, cf_localize_snap_reads = False\<rparr>"
  note run = create_then_open [where p = "\<lambda>_. None" and sz = 1048576 and cf = cf and rbd_cache = False and rc = rc
      and mem = image_9M and snap = None and ?p0.0 = 3 and ?p1.0 = 4 and ro = False
      and bid' = 0 and extra' = 0 and sz' = 0 and old' = True and order' = 0 and su' = 0 and sc' = 0, OF ready refl refl args st]
  show ?thesis using run unfolding cf_def rc_def by auto
qed

end
