(* ===== verification/Image_Names.thy ===== *)
theory Image_Names
  imports Image_Open
begin

text \<open>
  The names of the images of a pool: \<open>list\<close> and \<open>rename\<close> of \<open>librbd/internal.cc\<close>. The directory of old
  images is the trivial map in the bytes of the directory object, that of new images the keys beside them.
\<close>

subsection \<open>Reading\<close>

definition io_read :: "string \<Rightarrow> u64 \<Rightarrow> u64 \<Rightarrow> io \<Rightarrow> ((int \<times> bytes) \<times> io) option" where
  "io_read oid len off = request (\<lambda>f p. map_option (\<lambda>(r, bl). ((r, bl), p)) (rados_read f oid len off p))"

text \<open>The result is that of the operation, not the number of the values.\<close>

definition io_omap_get_vals :: "string \<Rightarrow> string \<Rightarrow> nat \<Rightarrow> io \<Rightarrow> ((int \<times> (string, bytes) smap) \<times> io) option" where
  "io_omap_get_vals oid start_after max_return st =
     map_option (\<lambda>((r, outs), st). ((r, case outs of OmapOut m # _ \<Rightarrow> m | _ \<Rightarrow> []), st))
       (io_ops oid [OpOmapGetVals start_after max_return []] st)"

subsection \<open>Listing\<close>

text \<open>The names of old images; the exception of a decoder is not caught.\<close>

definition old_names :: "bytes \<Rightarrow> string list option" where
  "old_names bl = (if bl = [] then Some [] else map_option (\<lambda>((header, m), rest). map fst m) (decode_tmap bl))"

text \<open>The result of a request of the listing is not looked at.\<close>

partial_function (option) list_loop :: "string \<Rightarrow> string list \<Rightarrow> io \<Rightarrow> (string list \<times> io) option" where
  "list_loop last_read names st =
     Option.bind (cl_dir_list RBD_DIRECTORY last_read 1024 st) (\<lambda>(res, st).
       let images = (case res of Inl r \<Rightarrow> [] | Inr m \<Rightarrow> m); names = names @ map fst images in
       if length images = 1024
       then list_loop (if images \<noteq> [] then fst (last images) else last_read) names st
       else Some (names, st))"

definition list_names :: "io \<Rightarrow> ((int + string list) \<times> io) option" where
  "list_names st =
     do { ((r, bl), st) \<leftarrow> io_read RBD_DIRECTORY 0 0 st;
          if r < 0 then Some (Inl r, st)
          else do { names \<leftarrow> old_names bl;
                    (names, st) \<leftarrow> list_loop [] names st;
                    Some (Inr names, st) } }"

subsection \<open>Renaming\<close>

partial_function (option) read_omap ::
    "string \<Rightarrow> string \<Rightarrow> (string, bytes) smap \<Rightarrow> io \<Rightarrow> ((int + (string, bytes) smap) \<times> io) option" where
  "read_omap oid last_read omap_values st =
     Option.bind (io_omap_get_vals oid last_read 1024 st) (\<lambda>((r, outbl), st).
       if r < 0 then Some (Inl r, st)
       else
         let omap_values = fold (\<lambda>(k, v) m. if k \<in> fst ` set m then m else smap_put k v m) outbl omap_values;
             last_read = (if outbl \<noteq> [] then fst (last outbl) else last_read)
         in if r = 1024 then read_omap oid last_read omap_values st else Some (Inr omap_values, st))"

text \<open>What is left to do once the object of the new name is written.\<close>

definition rename_entry :: "bool \<Rightarrow> string \<Rightarrow> string \<Rightarrow> string \<Rightarrow> string \<Rightarrow> io \<Rightarrow> (int \<times> io) option" where
  "rename_entry old_format srcname dstname image_id dst_oid st =
     (if old_format then
        do { (r, st) \<leftarrow> tmap_set dstname st;
             if r < 0 then do { (_, st) \<leftarrow> io_remove dst_oid st; Some (r, st) }
             else do { (_, st) \<leftarrow> tmap_rm srcname st; Some (0, st) } }
      else map_option (\<lambda>(r, st). (if r < 0 then r else 0, st)) (cl_dir_rename_image RBD_DIRECTORY srcname dstname image_id st))"

definition rename :: "string \<Rightarrow> string \<Rightarrow> io \<Rightarrow> (int \<times> io) option" where
  "rename srcname dstname st =
     do { ((r, old_format, src_size), st) \<leftarrow> detect_format srcname st;
          if r < 0 then Some (r, st)
          else
          let src_oid = (if old_format then old_header_name srcname else id_obj_name srcname);
              dst_oid = (if old_format then old_header_name dstname else id_obj_name dstname) in
     do { (found, st) \<leftarrow> (if old_format then Some (Inr [], st) else cl_get_id src_oid st);
          (case found of
             Inl r \<Rightarrow> Some (r, st)
           | Inr image_id \<Rightarrow>
     do { ((r, databl), st) \<leftarrow> io_read src_oid src_size 0 st;
          if r < 0 then Some (r, st)
          else
     do { (vals, st) \<leftarrow> read_omap src_oid [] [] st;
          (case vals of
             Inl r \<Rightarrow> Some (r, st)
           | Inr omap_values \<Rightarrow>
     do { ((r, _), st) \<leftarrow> detect_format dstname st;
          if r < 0 \<and> r \<noteq> - ENOENT then Some (r, st)
          else if r = 0 then Some (- EEXIST, st)
          else
     do { ((r, _), st) \<leftarrow> io_ops dst_oid ([OpCreate True, OpWriteFull 0 (of_nat (length databl)) databl] @
                             (if omap_values \<noteq> [] then [OpOmapSetVals omap_values] else [])) st;
          if r < 0 then Some (r, st)
          else
     do { (r, st) \<leftarrow> rename_entry old_format srcname dstname image_id dst_oid st;
          if r < 0 then Some (r, st)
          else do { (_, st) \<leftarrow> io_remove src_oid st; Some (0, st) } }}}) }}) }}"

subsection \<open>A listing is complete\<close>

lemma decode_images_loop_enc:
  assumes "smap_ok (acc @ m)" "\<forall>(n, i) \<in> set m. short n \<and> short i"
  shows "decode_images_loop (length m) acc (concat (map (\<lambda>(k, v). encode_string k @ encode_string v) m) @ p) = Some (acc @ m, p)"
  using assms
proof (induction m arbitrary: acc)
  case Nil
  then show ?case by simp
next
  case (Cons e m)
  obtain k v where e: "e = (k, v)" by fastforce
  have ok: "smap_ok ((acc @ [(k, v)]) @ m)" using Cons.prems(1) by (simp add: e)
  then have "smap_ok (acc @ [(k, v)])" using smap_ok_append [of "acc @ [(k, v)]" m] by blast
  then have "smap_put k v acc = acc @ [(k, v)]" using smap_ok_append [of acc "[(k, v)]"] by (intro smap_put_last) auto
  then show ?case using Cons.IH [OF ok] Cons.prems(2) by (simp add: e decode_pair_def cstr.dec_enc)
qed

lemma decode_images_enc:
  assumes "smap_ok m" "\<forall>(n, i) \<in> set m. short n \<and> short i" "length m < 2 ^ 32"
  shows "decode_images (encode_images m) = Some (m, [])"
proof -
  have "unat (of_nat (length m) :: u32) = length m" using assms(3) by (intro unat_short) (simp add: short_def)
  then show ?thesis
    using decode_images_loop_enc [of "[]" m "[]"] assms(1,2)
    by (simp add: decode_images_def encode_images_def c32.dec_enc)
qed

text \<open>One request of a listing: the first 1024 names after the last one.\<close>

lemma client_dir_list:
  assumes "dir_reprs d (Some ob)" "dir_ok d" "p oid = Some ob" "short l"
  shows "cl_dir_list oid l 1024 (fs, p) =
    Some (if fault_of (fs, p) < 0 then Inl (fault_of (fs, p)) else Inr (take 1024 (filter (\<lambda>e. l < fst e) d)), (tl fs, p))"
proof -
  let ?m = "take 1024 (filter (\<lambda>e. l < fst e) d)"
  have c: "cls_call rbd_dir_list (encode_pair encode_string encode_u64 (l, 1024)) (p oid) = Some (0, encode_images ?m, p oid)"
    using dir_list_call [OF assms(1,2,4), of 1024] by (simp add: assms(3))
  have "smap_ok (filter (\<lambda>e. l < fst e) d)" using assms(2) by (simp add: dir_ok_def smap_ok_filter)
  then have "smap_ok ?m" using smap_ok_append [of ?m "drop 1024 (filter (\<lambda>e. l < fst e) d)"] by simp
  moreover have "\<forall>(n, i) \<in> set ?m. short n \<and> short i"
    using assms(2) by (auto simp: dir_ok_def dest!: in_set_takeD)
  moreover have "length ?m < 2 ^ 32" by simp
  ultimately have d: "decode_images (encode_images ?m) = Some (?m, [])" by (rule decode_images_enc)
  note run = io_ask_run [where p = p and oid = oid and fs = fs, OF c]
  show ?thesis by (simp add: cl_dir_list_def run d)
qed

lemma list_loop_exact:
  assumes "dir_reprs d (Some ob)" "dir_ok d" "p RBD_DIRECTORY = Some ob" "short l"
  shows "list_loop l names ([], p) = Some (names @ map fst (filter (\<lambda>e. l < fst e) d), ([], p))"
  using assms(4)
proof (induction "length (filter (\<lambda>e. l < fst e) d)" arbitrary: l names rule: less_induct)
  case less
  let ?rest = "\<lambda>l. filter (\<lambda>e. l < fst e) d"
  let ?page = "take 1024 (?rest l)" and ?more = "drop 1024 (?rest l)"
  note ask = client_dir_list [where p = p and oid = RBD_DIRECTORY and fs = "[]", OF assms(1-3) less.prems]
  show ?case
  proof (cases "length ?page = 1024")
    case False
    then have "?page = ?rest l" by simp
    then show ?thesis using False by (subst list_loop.simps) (simp add: ask Let_def)
  next
    case True
    then have ne: "?page \<noteq> []" by auto
    let ?l = "fst (last ?page)"
    have lin: "last ?page \<in> set (?rest l)" using last_in_set [OF ne] by (rule in_set_takeD)
    have more: "?rest ?l = ?more"
    proof -
      have "?rest ?l = filter (\<lambda>e. ?l < fst e) (?page @ ?more)"
        using lin by (auto intro!: filter_cong dest: less_trans)
      moreover have "smap_ok (?page @ ?more)" using assms(2) by (simp add: dir_ok_def smap_ok_filter)
      then have "filter (\<lambda>e. ?l < fst e) (?page @ ?more) = ?more" by (rule after_last [OF _ ne])
      ultimately show ?thesis by (simp only:)
    qed
    have "short ?l" using lin assms(2) by (auto simp: dir_ok_def)
    moreover have "length (?rest ?l) < length (?rest l)" using True unfolding more by simp
    ultimately have "list_loop ?l (names @ map fst ?page) ([], p) = Some ((names @ map fst ?page) @ map fst ?more, ([], p))"
      using less.hyps more by simp
    moreover have "map fst ?page @ map fst ?more = map fst (?rest l)" by (simp flip: map_append)
    ultimately show ?thesis using True ne by (subst list_loop.simps) (simp add: ask Let_def)
  qed
qed

lemma nil_less: "n \<noteq> [] \<Longrightarrow> [] < (n :: string)"
  by (cases n) simp_all

lemma io_read_whole:
  "p oid = Some ob \<Longrightarrow> io_read oid 0 0 (fs, p) = Some (if fault_of (fs, p) < 0 then (fault_of (fs, p), [])
     else (int (length (od_data ob)), od_data ob), (tl fs, p))"
  by (simp add: io_read_def request_def rados_read_def rados_exec_def prepare_transaction_single op_read_def out_data_def
      Let_def file_read_def)

text \<open>C24. \<open>list\<close> is complete: in a pool whose directory object has the old images as a trivial map and the new ones
  as its keys, it returns the names of the old images and then those of the new ones, each exactly once and in
  order, however many requests that takes. When the first request for the new images fails, the names of
  the old ones are returned as if there were no others.\<close>

theorem list_complete:
  assumes "p RBD_DIRECTORY = Some ob" "tmap_reprs header m (Some ob)" "dir_reprs d (Some ob)" "dir_ok d"
  shows "list_names ([], p) = Some (Inr (map fst m @ map fst d), ([], p))
    \<and> (\<forall>f < 0. list_names ([0, f], p) = Some (Inr (map fst m), ([], p)))"
proof -
  have old: "old_names (od_data ob) = Some (map fst m)"
    using assms(2) decode_tmap_enc [of header m] by (auto simp: old_names_def tmap_reprs_def encode_tmap_not_nil encode_tmap_not_nil [symmetric])
  have s: "short ([] :: string)" by (simp add: short_def)
  have d: "filter (\<lambda>e. [] < fst e) d = d" using assms(4) nil_less by (fastforce simp: dir_ok_def filter_id_conv)
  have "list_names ([], p) = Some (Inr (map fst m @ map fst d), ([], p))"
    using list_loop_exact [where p = p, OF assms(3,4,1) s, of "map fst m"] d
    by (simp add: list_names_def io_read_whole [where p = p, OF assms(1)] old)
  moreover have "list_names ([0, f], p) = Some (Inr (map fst m), ([], p))" if "f < 0" for f
  proof -
    have "fault_of ([f], p) < 0" using that by (simp add: fault_of_def)
    then have "list_loop [] (map fst m) ([f], p) = Some (map fst m, ([], p))"
      by (subst list_loop.simps) (simp add: client_dir_list [where p = p and oid = RBD_DIRECTORY, OF assms(3,4,1) s] Let_def)
    then show ?thesis
      by (simp add: list_names_def io_read_whole [where p = p, OF assms(1)] old fault_of_def)
  qed
  ultimately show ?thesis by blast
qed

lemma directory_object:
  obtains ob where "dir_reprs [(''a'', ''2''), (''x'', ''1'')] (Some ob)"
proof -
  have "\<forall>c \<in> set [DirAdd ''a'' ''2'', DirAdd ''x'' ''1'']. dir_fits c" by (simp add: short_def)
  from dir_history [OF dir_reprs_absent this] obtain obs where "dir_reprs [(''a'', ''2''), (''x'', ''1'')] obs"
    by (auto simp: is_valid_id_def c_isalnum_def Let_def less_char_def)
  moreover from this obtain ob where "obs = Some ob"
    by (cases obs) (auto simp: dir_reprs_def dest!: fun_cong [of _ _ "dir_key_for_name ''a''"])
  ultimately show ?thesis using that by blast
qed

lemma list_complete_witness:
  "\<exists>p. list_names ([], p) = Some (Inr [''old'', ''a'', ''x''], ([], p)) \<and> list_names ([0, - 5], p) = Some (Inr [''old''], ([], p))"
proof -
  have ok: "dir_ok [(''a'', ''2''), (''x'', ''1'')]"
    by (simp add: dir_ok_def is_valid_id_def c_isalnum_def Let_def short_def less_char_def)
  obtain ob where r: "dir_reprs [(''a'', ''2''), (''x'', ''1'')] (Some ob)"
    by (rule directory_object)
  let ?ob = "ob\<lparr>od_data := encode_tmap [] [(''old'', [])]\<rparr>" and ?p = "(\<lambda>_. None)(RBD_DIRECTORY := Some (ob\<lparr>od_data := encode_tmap [] [(''old'', [])]\<rparr>))"
  have r': "dir_reprs [(''a'', ''2''), (''x'', ''1'')] (Some ?ob)" using r by (simp add: dir_reprs_def)
  have t: "tmap_reprs [] [(''old'', [])] (Some ?ob)" by (simp add: tmap_reprs_def tmap_fits_def entry_fits_def short_def)
  have f: "(- 5 :: int) < 0" by simp
  have "?p RBD_DIRECTORY = Some ?ob" by simp
  from list_complete [where p = ?p, OF this t r' ok] f show ?thesis by auto
qed

subsection \<open>A renaming\<close>

text \<open>A pool with the new-format image \<open>src\<close> of id \<open>i\<close>, and without an image \<open>dst\<close> in either format.\<close>

definition rename_ready :: "pool \<Rightarrow> dir \<Rightarrow> string \<Rightarrow> string \<Rightarrow> string \<Rightarrow> bool" where
  "rename_ready p d src dst i \<longleftrightarrow> dir_reprs d (p RBD_DIRECTORY) \<and> dir_ok d \<and> map_of d src = Some i \<and> map_of d dst = None
     \<and> dst \<noteq> [] \<and> short dst \<and> small_string i \<and> p (id_obj_name src) = Some (id_object i) \<and> p (id_obj_name dst) = None
     \<and> p (old_header_name src) = None \<and> p (old_header_name dst) = None"

lemma id_object_read:
  assumes "p oid = Some (id_object i)" "small_string i"
  shows "io_read oid (od_size (id_object i)) 0 (fs, p) =
    Some (if fault_of (fs, p) < 0 then (fault_of (fs, p), []) else (int (length (encode_string i)), encode_string i), (tl fs, p))"
proof -
  note len = id_object_length [OF assms(2)]
  have "\<not> 2147483647 < (of_nat (length (encode_string i)) :: u64)" using len(2,3) by (simp add: word_less_nat_alt)
  then show ?thesis
    using len(3) assms(1)
    by (simp add: io_read_def request_def rados_read_def rados_exec_def prepare_transaction_single op_read_def out_data_def
      Let_def file_read_def id_object_def fresh_object_def)
qed

lemma id_object_omap:
  assumes "p oid = Some (id_object i)"
  shows "read_omap oid [] [] (fs, p) =
    Some (if fault_of (fs, p) < 0 then Inl (fault_of (fs, p)) else Inr [], (tl fs, p))"
  using assms
  by (subst read_omap.simps)
    (simp add: io_omap_get_vals_def io_ops_def request_def rados_exec_def prepare_transaction_single op_omap_get_vals_def
      Let_def id_object_def fresh_object_def fun_upd_idem)

lemma write_id_copy:
  assumes "p oid = None" "small_string i"
  shows "io_ops oid [OpCreate True, OpWriteFull 0 (of_nat (length (encode_string i))) (encode_string i)] (fs, p) =
    Some (if fault_of (fs, p) < 0 then ((fault_of (fs, p), []), (tl fs, p))
          else ((0, [NoOut, NoOut]), (tl fs, p(oid := Some (id_object i)))))"
proof -
  let ?bl = "encode_string i"
  have "length ?bl \<le> 107374182400" using id_object_length(2) [OF assms(2)] by linarith
  from op_write_full_max [OF this, of "Some fresh_object"]
  have "op_write_full osd_max_object_size 0 (of_nat (length ?bl)) ?bl (Some fresh_object) = (0, NoOut, Some (id_object i))"
    by (simp add: full_object_def id_object_def)
  then show ?thesis
    using assms(1)
    by (simp add: io_ops_def request_def rados_exec_def prepare_transaction_def op_create_def fun_upd_idem)
qed

lemma detect_runs:
  assumes "p (old_header_name name) = None" "fault_of (fs, p) = 0" "fault_of (tl fs, p) = 0"
  shows "detect_format name (fs, p) = Some (case p (id_obj_name name) of None \<Rightarrow> (- ENOENT, False, 0)
     | Some ob \<Rightarrow> (0, False, od_size ob), (tl (tl fs), p))"
  using assms by (simp add: detect_format_def io_stat_run split: option.split)

lemma client_id_fates:
  assumes "p oid = Some (id_object i)" "small_string i" "fault_of (fs, p) = 0"
  shows "cl_get_id oid (fs, p) = Some (Inr i, (tl fs, p))"
proof -
  have "cls_call rbd_get_id [] (p oid) = Some (0, encode_string i, p oid)"
    using get_id_object [OF assms(2)] by (simp add: assms(1))
  note run = io_ask_run [where p = p and oid = oid and fs = fs, OF this]
  show ?thesis using small_short [OF assms(2)] assms(3) by (simp add: cl_get_id_def run cstr.dec_enc_end)
qed

text \<open>The eight requests up to the entry in the directory.\<close>

lemma rename_until_entry:
  assumes "rename_ready p d src dst i" "fs = [] \<and> gs = [] \<or> fs = [0, 0, 0, 0, 0, 0, 0, 0] @ gs"
  shows "rename src dst (fs, p) =
     do { (r, st) \<leftarrow> rename_entry False src dst i (id_obj_name dst) (gs, p(id_obj_name dst := Some (id_object i)));
          if r < 0 then Some (r, st) else do { (_, st) \<leftarrow> io_remove (id_obj_name src) st; Some (0, st) } }"
proof -
  have r: "small_string i" "p (id_obj_name src) = Some (id_object i)" "p (id_obj_name dst) = None"
    "p (old_header_name src) = None" "p (old_header_name dst) = None"
    using assms(1) by (simp_all add: rename_ready_def)
  note run = detect_runs [where p = p, OF r(4)] detect_runs [where p = p, OF r(5)] client_id_fates [where p = p, OF r(2,1)]
    id_object_read [where p = p, OF r(2,1)] id_object_omap [where p = p, OF r(2)] write_id_copy [where p = p, OF r(3,1)] r
  have z: "fault_of (0 # hs, q) = 0" "fault_of ([], q) = 0" for hs q by (simp_all add: fault_of_def)
  from assms(2) show ?thesis by (elim disjE conjE) (simp_all add: rename_def run z Let_def)
qed

text \<open>The call that renames the entry, in the pool where the object of the new name is written.\<close>

lemma rename_entry_run:
  assumes "rename_ready p d src dst i"
  shows "\<exists>q. (\<forall>gs. rename_entry False src dst i oid (gs, p(id_obj_name dst := Some (id_object i))) =
       Some (let f = fault_of (gs, p) in
         if f < 0 then (f, (tl gs, p(id_obj_name dst := Some (id_object i)))) else (0, (tl gs, q))))
     \<and> dir_reprs (smap_put dst i (smap_erase src d)) (q RBD_DIRECTORY)
     \<and> (\<forall>o'. o' \<noteq> RBD_DIRECTORY \<longrightarrow> q o' = (p(id_obj_name dst := Some (id_object i))) o')"
proof -
  let ?p = "p(id_obj_name dst := Some (id_object i))"
  have d: "dir_reprs d (?p RBD_DIRECTORY)" "dir_ok d" "map_of d src = Some i" "map_of d dst = None" "dst \<noteq> []" "short dst"
    using assms by (simp_all add: rename_ready_def)
  have "short src" "short i" using d(2) map_of_SomeD [OF d(3)] by (auto simp: dir_ok_def)
  then have fits: "dir_fits (DirRename src dst i)" using d(6) by simp
  have "\<not> dir_removable src i d < 0" using d(3) by (simp only: dir_removable_iff)
  then have "dir_spec (DirRename src dst i) d = (0, smap_put dst i (smap_erase src d))" using d by simp
  from dir_call_run [where p = ?p and oid = RBD_DIRECTORY, OF d(1,2) fits this] obtain q where
    "\<And>fs. io_call RBD_DIRECTORY (dir_method (DirRename src dst i)) (dir_args (DirRename src dst i)) (fs, ?p) =
      (if fault_of (fs, ?p) < 0 then Some (fault_of (fs, ?p), (tl fs, ?p)) else Some (0, (tl fs, q)))"
    "dir_reprs (smap_put dst i (smap_erase src d)) (q RBD_DIRECTORY)" "\<forall>o'. o' \<noteq> RBD_DIRECTORY \<longrightarrow> q o' = ?p o'"
    by blast
  moreover have "fault_of (fs, ?p) = fault_of (fs, p)" for fs by (simp add: fault_of_def)
  ultimately show ?thesis
    by (intro exI [of _ q]) (simp add: rename_entry_def dir_call_forms Let_def)
qed

text \<open>C25. \<open>rename\<close> moves a new-format image: it returns 0, the object of the new name holds the id that the object
  of the old name held, which is gone, the directory has the image under the new name in the place of the old one,
  and no other object of the pool has changed, its header among them.\<close>

theorem rename_moves:
  assumes "rename_ready p d src dst i"
  shows "\<exists>q. rename src dst ([], p) = Some (0, ([], q))
     \<and> q (id_obj_name dst) = Some (id_object i) \<and> q (id_obj_name src) = None
     \<and> dir_reprs (smap_put dst i (smap_erase src d)) (q RBD_DIRECTORY)
     \<and> (\<forall>o'. o' \<notin> {id_obj_name src, id_obj_name dst, RBD_DIRECTORY} \<longrightarrow> q o' = p o')"
proof -
  obtain q where q: "\<And>gs. rename_entry False src dst i (id_obj_name dst) (gs, p(id_obj_name dst := Some (id_object i))) =
       Some (let f = fault_of (gs, p) in
         if f < 0 then (f, (tl gs, p(id_obj_name dst := Some (id_object i)))) else (0, (tl gs, q)))"
    "dir_reprs (smap_put dst i (smap_erase src d)) (q RBD_DIRECTORY)"
    "\<forall>o'. o' \<noteq> RBD_DIRECTORY \<longrightarrow> q o' = (p(id_obj_name dst := Some (id_object i))) o'"
    using rename_entry_run [OF assms] by blast
  have differ: "src \<noteq> dst" using assms by (auto simp: rename_ready_def)
  have src: "q (id_obj_name src) = Some (id_object i)"
    using q(3) assms differ by (simp add: rename_ready_def)
  have run: "rename src dst ([], p) = Some (0, ([], q(id_obj_name src := None)))"
    using rename_until_entry [OF assms, of "[]" "[]"]
    by (simp add: q(1) Let_def io_remove_run [where p = q, OF src id_object_watchers])
  show ?thesis
    using q(2,3) differ by (intro exI [of _ "q(id_obj_name src := None)"]) (simp add: run object_names_differ)
qed

lemma rename_to_existing:
  assumes "small_string i" "p (id_obj_name src) = Some (id_object i)" "p (id_obj_name dst) = Some ob"
    "p (old_header_name src) = None" "p (old_header_name dst) = None"
  shows "rename src dst ([], p) = Some (- EEXIST, ([], p))"
proof -
  note run = detect_runs [where p = p, OF assms(4)] detect_runs [where p = p, OF assms(5)]
    client_id_fates [where p = p, OF assms(2,1)] id_object_read [where p = p, OF assms(2,1)] id_object_omap [where p = p, OF assms(2)]
  show ?thesis by (simp add: rename_def run assms Let_def)
qed

text \<open>When the directory is not updated, \<open>rename\<close> returns the error and leaves the object of the new name: both
  names then lead to the same image id, the directory does not know the new one, and the call cannot be
  repeated, because the new name exists. (The header object of an old image \<open>rbd_id.x\<close> is the object that holds
  the id of a new image \<open>x.rbd\<close>, so the two must not be the names here.)\<close>

theorem rename_error_leaves_two:
  assumes "rename_ready p d src dst i" "f < 0" "old_header_name src \<noteq> id_obj_name dst"
  shows "\<exists>q. rename src dst ([0, 0, 0, 0, 0, 0, 0, 0, f], p) = Some (f, ([], q))
     \<and> cl_get_id (id_obj_name src) ([], q) = Some (Inr i, ([], q)) \<and> cl_get_id (id_obj_name dst) ([], q) = Some (Inr i, ([], q))
     \<and> q RBD_DIRECTORY = p RBD_DIRECTORY
     \<and> rename src dst ([], q) = Some (- EEXIST, ([], q))"
proof -
  let ?q = "p(id_obj_name dst := Some (id_object i))"
  have r: "small_string i" "?q (id_obj_name src) = Some (id_object i)" "?q (id_obj_name dst) = Some (id_object i)"
    "?q (old_header_name src) = None" "?q (old_header_name dst) = None" "?q RBD_DIRECTORY = p RBD_DIRECTORY"
    using assms(1,3) old_header_name_differs(1) [of dst] by (simp_all add: rename_ready_def)
  have z: "fault_of ([f], p) = f" by (simp add: fault_of_def)
  obtain q where "\<And>gs. rename_entry False src dst i (id_obj_name dst) (gs, ?q) =
       Some (let f = fault_of (gs, p) in if f < 0 then (f, (tl gs, ?q)) else (0, (tl gs, q)))"
    using rename_entry_run [OF assms(1)] by blast
  then have "rename src dst ([0, 0, 0, 0, 0, 0, 0, 0, f], p) = Some (f, ([], ?q))"
    using rename_until_entry [OF assms(1), of "[0, 0, 0, 0, 0, 0, 0, 0, f]" "[f]"] assms(2) by (simp add: z)
  moreover have "rename src dst ([], ?q) = Some (- EEXIST, ([], ?q))"
    by (rule rename_to_existing [where p = ?q, OF r(1,2,3,4,5)])
  ultimately show ?thesis
    using client_id_fates [where p = ?q, OF r(2,1) fault_none] client_id_fates [where p = ?q, OF r(3,1) fault_none] r(6)
    by (intro exI [of _ ?q]) simp
qed

subsection \<open>A pool to rename in\<close>

lemma renaming_pool:
  obtains p where "rename_ready p [(''a'', ''2''), (''x'', ''1'')] ''x'' ''y'' ''1''"
proof -
  obtain ob where "dir_reprs [(''a'', ''2''), (''x'', ''1'')] (Some ob)" by (rule directory_object)
  moreover have "dir_ok [(''a'', ''2''), (''x'', ''1'')]"
    by (simp add: dir_ok_def is_valid_id_def c_isalnum_def Let_def short_def less_char_def)
  ultimately have "rename_ready ((\<lambda>_. None)(RBD_DIRECTORY := Some ob, id_obj_name ''x'' := Some (id_object ''1'')))
      [(''a'', ''2''), (''x'', ''1'')] ''x'' ''y'' ''1''"
    by (simp add: rename_ready_def short_def small_string_def old_header_name_def id_obj_name_def RBD_DIRECTORY_def)
  then show ?thesis by (rule that)
qed

lemma rename_moves_witness:
  "\<exists>p q. rename ''x'' ''y'' ([], p) = Some (0, ([], q)) \<and> p (id_obj_name ''x'') = Some (id_object ''1'')
     \<and> q (id_obj_name ''y'') = Some (id_object ''1'') \<and> q (id_obj_name ''x'') = None
     \<and> dir_reprs [(''a'', ''2''), (''y'', ''1'')] (q RBD_DIRECTORY)"
proof -
  obtain p where r: "rename_ready p [(''a'', ''2''), (''x'', ''1'')] ''x'' ''y'' ''1''" by (rule renaming_pool)
  have "p (id_obj_name ''x'') = Some (id_object ''1'')" using r by (simp add: rename_ready_def)
  with rename_moves [OF r] show ?thesis by (force simp: less_char_def)
qed

lemma rename_error_leaves_two_witness:
  "\<exists>p q. rename ''x'' ''y'' ([0, 0, 0, 0, 0, 0, 0, 0, - 5], p) = Some (- 5, ([], q))
     \<and> cl_get_id (id_obj_name ''x'') ([], q) = Some (Inr ''1'', ([], q))
     \<and> cl_get_id (id_obj_name ''y'') ([], q) = Some (Inr ''1'', ([], q))
     \<and> rename ''x'' ''y'' ([], q) = Some (- EEXIST, ([], q))"
proof -
  obtain p where r: "rename_ready p [(''a'', ''2''), (''x'', ''1'')] ''x'' ''y'' ''1''" by (rule renaming_pool)
  have "(- 5 :: int) < 0" "old_header_name ''x'' \<noteq> id_obj_name ''y''" by (simp_all add: old_header_name_def id_obj_name_def)
  from rename_error_leaves_two [OF r this] show ?thesis by blast
qed

end
