(* ===== verification/Snap_Ops.thy ===== *)
theory Snap_Ops
  imports Image_Resize Image_Open
begin

text \<open>
  Snapshots of an image (\<open>snap_create\<close>, \<open>snap_remove\<close>, \<open>snap_protect\<close>, \<open>snap_unprotect\<close> and what they call
  in \<open>librbd/internal.cc\<close>), and the listing of the clones of a snapshot. The state is the context, the fates
  of the next requests and the pools; the ids the monitor hands out and the pools it lists are arguments,
  as is the refresh of the context (\<open>ev_refresh\<close>).
\<close>

subsection \<open>Requests to pools\<close>

type_synonym cio = "int list \<times> cluster"

definition on_pool :: "int \<Rightarrow> (io \<Rightarrow> ('a \<times> io) option) \<Rightarrow> cio \<Rightarrow> ('a \<times> cio) option" where
  "on_pool pid f st =
     (case st of (fs, cl) \<Rightarrow> map_option (\<lambda>(x, fs', p). (x, (fs', cl(pid := p)))) (f (fs, cl pid)))"

definition next_fault :: "int list \<Rightarrow> int" where
  "next_fault fs = (case fs of [] \<Rightarrow> 0 | f # _ \<Rightarrow> f)"

lemma next_fault_simps [simp]: "next_fault [] = 0" "next_fault (f # fs) = f" "fault_of (fs, p) = next_fault fs"
  by (simp_all add: next_fault_def fault_of_def)

text \<open>A request to the monitor without an answer.\<close>

definition mon_request :: "cio \<Rightarrow> int \<times> cio" where
  "mon_request st = (case st of (fs, cl) \<Rightarrow> (next_fault fs, (tl fs, cl)))"

definition RBD_CHILDREN :: string where "RBD_CHILDREN = ''rbd_children''"

definition ref_of :: "parent_spec \<Rightarrow> parent_ref" where
  "ref_of ps = (of_int (ps_pool_id ps), ps_image_id ps, ps_snap_id ps)"

type_synonym snap_state = "ImageCtx \<times> cio"

definition on_md :: "(io \<Rightarrow> ('a \<times> io) option) \<Rightarrow> snap_state \<Rightarrow> ('a \<times> snap_state) option" where
  "on_md f st = (case st of (ic, c) \<Rightarrow> map_option (\<lambda>(x, c'). (x, (ic, c'))) (on_pool (md_ctx ic DEFAULT_POOL) f c))"

definition set_protection :: "u64 \<Rightarrow> u8 \<Rightarrow> snap_state \<Rightarrow> (int \<times> snap_state) option" where
  "set_protection snap_id status st = on_md (cl_set_protection_status (ic_header_oid (fst st)) snap_id status) st"

definition notified :: "snap_state \<Rightarrow> snap_state" where
  "notified st = (case st of (ic, c) \<Rightarrow> (notify_change ic, c))"

subsection \<open>Creating\<close>

text \<open>What the monitor answers to a request for a snapshot id: an error or the id.\<close>

definition make_snap :: "int + u64 \<Rightarrow> string \<Rightarrow> snap_state \<Rightarrow> (int \<times> snap_state) option" where
  "make_snap ans snap_name st =
     (case ans of
        Inl r \<Rightarrow> Some (r, st)
      | Inr snap_id \<Rightarrow>
          let oid = ic_header_oid (fst st) in
          map_option (\<lambda>(r, st). (if r < 0 then r else 0, st))
            (on_md (if ic_old_format (fst st) then cl_old_snapshot_add oid snap_id snap_name
                    else cl_snapshot_add oid snap_id snap_name) st))"

fun make_snap_loop :: "(int + u64) list \<Rightarrow> string \<Rightarrow> snap_state \<Rightarrow> (int \<times> snap_state) option" where
  "make_snap_loop [] snap_name st = None"
| "make_snap_loop (a # as) snap_name st =
     do { (r, st) \<leftarrow> make_snap a snap_name st;
          if r = - ESTALE then make_snap_loop as snap_name st else Some (r, st) }"

definition snap_create :: "io_env \<Rightarrow> (int + u64) list \<Rightarrow> string \<Rightarrow> snap_state \<Rightarrow> (int \<times> snap_state) option" where
  "snap_create ev answers snap_name st =
     (case st of (ic, c) \<Rightarrow>
        if ic_read_only ic then Some (- EROFS, st)
        else
          let (r, ic) = ictx_check ev ic in
          if r < 0 then Some (r, (ic, c))
          else do { (r, st) \<leftarrow> make_snap_loop answers snap_name (ic, c);
                    if r < 0 then Some (r, st) else Some (0, notified st) })"

subsection \<open>Removing\<close>

definition scan_for_parents :: "ImageCtx \<Rightarrow> parent_spec \<Rightarrow> u64 \<Rightarrow> int" where
  "scan_for_parents ic pspec oursnap_id =
     (if ps_pool_id pspec \<noteq> - 1
         \<and> \<not> list_ex (\<lambda>(_, si). si_id si \<noteq> oursnap_id \<and> pi_spec (si_parent si) = pspec) (ic_snaps_by_name ic)
      then - ENOENT else 0)"

definition rm_snap :: "string \<Rightarrow> snap_state \<Rightarrow> (int \<times> snap_state) option" where
  "rm_snap snap_name st =
     (let ic = fst st; oid = ic_header_oid ic in
      map_option (\<lambda>(r, st). (if r < 0 then r else 0, st))
        (on_md (if ic_old_format ic then cl_old_snapshot_remove oid snap_name
                else cl_snapshot_remove oid (get_snap_id ic snap_name)) st))"

definition snap_remove :: "io_env \<Rightarrow> string \<Rightarrow> snap_state \<Rightarrow> (int \<times> snap_state) option" where
  "snap_remove ev snap_name st =
     (case st of (ic, c) \<Rightarrow>
        if ic_read_only ic then Some (- EROFS, st)
        else
          let (r, ic) = ictx_check ev ic in
          if r < 0 then Some (r, (ic, c))
          else
            let snap_id = get_snap_id ic snap_name in
            if snap_id = CEPH_NOSNAP then Some (- ENOENT, (ic, c))
            else (case get_parent_spec ic snap_id of
              None \<Rightarrow> Some (- ENOENT, (ic, c))
            | Some our_pspec \<Rightarrow>
                do { (r, st) \<leftarrow>
                       (if pi_spec (ic_parent_md ic) \<noteq> our_pspec \<and> scan_for_parents ic our_pspec snap_id = - ENOENT
                        then on_md (cl_remove_child RBD_CHILDREN (ref_of our_pspec) (ic_id ic)) (ic, c)
                        else Some (0, (ic, c)));
                     if r < 0 then Some (r, st)
                     else
                do { (r, st) \<leftarrow> rm_snap snap_name st;
                     if r < 0 then Some (r, st)
                     else
                       let (r, c) = mon_request (snd st) in
                       if r < 0 then Some (r, (fst st, c)) else Some (0, notified (fst st, c)) }}))"

subsection \<open>Protecting\<close>

definition snap_protect :: "io_env \<Rightarrow> string \<Rightarrow> snap_state \<Rightarrow> (int \<times> snap_state) option" where
  "snap_protect ev snap_name st =
     (case st of (ic, c) \<Rightarrow>
        if ic_read_only ic then Some (- EROFS, st)
        else
          let (r, ic) = ictx_check ev ic in
          if r < 0 then Some (r, (ic, c))
          else
            let (r, features) = get_features ic (ic_snap_id ic) in
            if r < 0 then None
            else if features AND RBD_FEATURE_LAYERING = 0 then Some (- ENOSYS, (ic, c))
            else
              let snap_id = get_snap_id ic snap_name in
              if snap_id = CEPH_NOSNAP then Some (- ENOENT, (ic, c))
              else (case is_snap_protected ic snap_name of
                None \<Rightarrow> Some (- ENOENT, (ic, c))
              | Some is_protected \<Rightarrow>
                  if is_protected then Some (- EBUSY, (ic, c))
                  else do { (r, st) \<leftarrow> set_protection snap_id RBD_PROTECTION_STATUS_PROTECTED (ic, c);
                            if r < 0 then Some (r, st) else Some (0, notified st) }))"

text \<open>The search for children: the first pool that has some, or cannot be asked, ends it.\<close>

type_synonym pool_list = "(string \<times> (int + int)) list"

fun find_children :: "pool_list \<Rightarrow> parent_ref \<Rightarrow> cio \<Rightarrow> (int \<times> cio) option" where
  "find_children [] pspec c = Some (0, c)"
| "find_children ((name, ctx) # pools) pspec c =
     (case ctx of
        Inl r \<Rightarrow> if r < 0 then Some (r, c) else None
      | Inr pid \<Rightarrow>
          do { (res, c) \<leftarrow> on_pool pid (cl_get_children RBD_CHILDREN pspec) c;
               (case res of
                  Inl r \<Rightarrow> if r \<noteq> - ENOENT then Some (r, c) else find_children pools pspec c
                | Inr children \<Rightarrow> Some (- EBUSY, c)) })"

definition snap_unprotect :: "io_env \<Rightarrow> pool_list \<Rightarrow> string \<Rightarrow> snap_state \<Rightarrow> (int \<times> snap_state) option" where
  "snap_unprotect ev pools snap_name st =
     (case st of (ic, c) \<Rightarrow>
        if ic_read_only ic then Some (- EROFS, st)
        else
          let (r, ic) = ictx_check ev ic in
          if r < 0 then Some (r, (ic, c))
          else
            let (r, features) = get_features ic (ic_snap_id ic) in
            if r < 0 then None
            else if features AND RBD_FEATURE_LAYERING = 0 then Some (- ENOSYS, (ic, c))
            else
              let snap_id = get_snap_id ic snap_name in
              if snap_id = CEPH_NOSNAP then Some (- ENOENT, (ic, c))
              else (case is_snap_unprotected ic snap_name of
                None \<Rightarrow> Some (- ENOENT, (ic, c))
              | Some is_unprotected \<Rightarrow>
                  if is_unprotected then Some (- EINVAL, (ic, c))
                  else
                    do { (r, st) \<leftarrow> set_protection snap_id RBD_PROTECTION_STATUS_UNPROTECTING (ic, c);
                         if r < 0 then Some (r, st)
                         else
                           let st = notified st; ic = fst st;
                               pspec = (of_int (md_ctx ic DEFAULT_POOL), ic_id ic, snap_id)
                           in do { (r, c) \<leftarrow> find_children pools pspec (snd st);
                                   if r < 0 then
                                     do { (_, st) \<leftarrow> set_protection snap_id RBD_PROTECTION_STATUS_PROTECTED (ic, c);
                                          Some (r, notified st) }
                                   else
                                     do { (_, st) \<leftarrow> set_protection snap_id RBD_PROTECTION_STATUS_UNPROTECTED (ic, c);
                                          Some (0, notified st) } } }))"

definition snap_is_protected :: "io_env \<Rightarrow> string \<Rightarrow> ImageCtx \<Rightarrow> int \<times> bool \<times> ImageCtx" where
  "snap_is_protected ev snap_name ic =
     (let (r, ic) = ictx_check ev ic in
      if r < 0 then (r, False, ic)
      else (case is_snap_unprotected ic snap_name of
              None \<Rightarrow> (- ENOENT, True, ic)
            | Some is_unprotected \<Rightarrow> (0, \<not> is_unprotected, ic)))"

subsection \<open>Listing\<close>

fun child_names :: "string \<Rightarrow> int \<Rightarrow> string list \<Rightarrow> cio \<Rightarrow> ((int + (string \<times> string) list) \<times> cio) option" where
  "child_names pname pid [] c = Some (Inr [], c)"
| "child_names pname pid (i # ids) c =
     do { (res, c) \<leftarrow> on_pool pid (cl_dir_get_name RBD_DIRECTORY i) c;
          (case res of
             Inl r \<Rightarrow> Some (Inl r, c)
           | Inr name \<Rightarrow> map_option (\<lambda>(rest, c). (map_sum (\<lambda>r. r) (\<lambda>ns. (pname, name) # ns) rest, c)) (child_names pname pid ids c)) }"

fun children_of_pools ::
    "pool_list \<Rightarrow> parent_ref \<Rightarrow> cio \<Rightarrow> ((int + (string \<times> string) list) \<times> cio) option" where
  "children_of_pools [] pspec c = Some (Inr [], c)"
| "children_of_pools ((pname, ctx) # pools) pspec c =
     (case ctx of
        Inl r \<Rightarrow> None
      | Inr pid \<Rightarrow>
          do { (res, c) \<leftarrow> on_pool pid (cl_get_children RBD_CHILDREN pspec) c;
               (case (case res of Inl r \<Rightarrow> if r = - ENOENT then Inr [] else Inl r | Inr ids \<Rightarrow> Inr ids) of
                  Inl r \<Rightarrow> Some (Inl r, c)
                | Inr image_ids \<Rightarrow>
                    do { (names, c) \<leftarrow> child_names pname pid image_ids c;
                         (case names of
                            Inl r \<Rightarrow> Some (Inl r, c)
                          | Inr ns \<Rightarrow> map_option (\<lambda>(rest, c). (map_sum (\<lambda>r. r) (\<lambda>ms. ns @ ms) rest, c))
                                       (children_of_pools pools pspec c)) }) })"

definition list_children ::
    "io_env \<Rightarrow> pool_list \<Rightarrow> snap_state \<Rightarrow> ((int + (string \<times> string) set) \<times> snap_state) option" where
  "list_children ev pools st =
     (case st of (ic, c) \<Rightarrow>
        let (r, ic) = ictx_check ev ic in
        if r < 0 then Some (Inl r, (ic, c))
        else if ic_features ic AND RBD_FEATURE_LAYERING = 0 then Some (Inr {}, (ic, c))
        else map_option (\<lambda>(res, c). (map_sum (\<lambda>r. r) set res, (ic, c)))
               (children_of_pools pools (of_int (md_ctx ic DEFAULT_POOL), ic_id ic, ic_snap_id ic) c))"

definition snap_list :: "io_env \<Rightarrow> ImageCtx \<Rightarrow> (int + (string \<times> u64 \<times> u64) list) \<times> ImageCtx" where
  "snap_list ev ic =
     (let (r, ic) = ictx_check ev ic in
      if r < 0 then (Inl r, ic)
      else (Inr (map (\<lambda>(name, si). (name, si_id si, si_size si)) (ic_snaps_by_name ic)), ic))"

text \<open>An error of the refresh is returned as a truth value.\<close>

definition snap_exists :: "io_env \<Rightarrow> string \<Rightarrow> ImageCtx \<Rightarrow> bool \<times> ImageCtx" where
  "snap_exists ev snap_name ic =
     (let (r, ic) = ictx_check ev ic in
      if r < 0 then (r \<noteq> 0, ic) else (snap_name \<in> fst ` set (ic_snaps_by_name ic), ic))"

subsection \<open>Children of a snapshot\<close>

text \<open>Every listed pool can be opened, and its children object encodes a family.\<close>

definition families :: "pool_list \<Rightarrow> (int \<Rightarrow> parent_ref \<Rightarrow> string list) \<Rightarrow> cluster \<Rightarrow> bool" where
  "families pools fam cl \<longleftrightarrow>
     (\<forall>(name, ctx) \<in> set pools. \<exists>pid. ctx = Inr pid \<and> family_reprs (fam pid) (cl pid RBD_CHILDREN))"

definition has_children :: "pool_list \<Rightarrow> (int \<Rightarrow> parent_ref \<Rightarrow> string list) \<Rightarrow> parent_ref \<Rightarrow> bool" where
  "has_children pools fam pspec \<longleftrightarrow> (\<exists>(name, ctx) \<in> set pools. \<exists>pid. ctx = Inr pid \<and> fam pid pspec \<noteq> [])"

lemma client_children:
  assumes "family_reprs f (p oid)" "ref_fits pspec"
  shows "cl_get_children oid pspec (fs, p) =
     Some (if next_fault fs < 0 then Inl (next_fault fs) else if f pspec = [] then Inl (- ENOENT) else Inr (f pspec), (tl fs, p))"
proof -
  have "decode_parent_args (encode_ref pspec) = Some (pspec, [])"
    using assms(2) by (intro family_decode) (simp add: ref_fits_def)
  from get_children_args [OF this] have c: "cls_call rbd_get_children (encode_ref pspec) (p oid) =
      Some (if f pspec = [] then (- ENOENT, [], p oid) else (0, encode_set (f pspec), p oid))"
    using family_read [of f "\<lparr>hc_stored = p oid, hc_new = p oid\<rparr>" pspec] assms by (simp add: cls_call_def)
  have "string_set (f pspec)" using familyD [OF assms] by blast
  then have d: "decode_set (encode_set (f pspec)) = Some (f pspec, [])" by (rule cset.dec_enc_end)
  show ?thesis
  proof (cases "f pspec = []")
    case True
    then have "cls_call rbd_get_children (encode_ref pspec) (p oid) = Some (- ENOENT, [], p oid)" using c by simp
    note run = io_ask_run [where p = p and oid = oid, OF this]
    show ?thesis using True by (simp add: cl_get_children_def run)
  next
    case False
    then have "cls_call rbd_get_children (encode_ref pspec) (p oid) = Some (0, encode_set (f pspec), p oid)" using c by simp
    note run = io_ask_run [where p = p and oid = oid, OF this]
    show ?thesis using False d by (simp add: cl_get_children_def run)
  qed
qed

lemma on_pool_children:
  assumes "family_reprs f (cl pid RBD_CHILDREN)" "ref_fits pspec"
  shows "on_pool pid (cl_get_children RBD_CHILDREN pspec) (fs, cl) =
     Some (if next_fault fs < 0 then Inl (next_fault fs)
           else if f pspec = [] then Inl (- ENOENT) else Inr (f pspec), (tl fs, cl))"
  by (simp add: on_pool_def client_children [where p = "cl pid", OF assms])

lemma find_children_exact:
  assumes "families pools fam cl" "ref_fits pspec"
  shows "find_children pools pspec ([], cl) = Some (if has_children pools fam pspec then - EBUSY else 0, ([], cl))"
  using assms(1)
proof (induction pools)
  case Nil
  then show ?case by (simp add: has_children_def)
next
  case (Cons e pools)
  obtain name pid where e: "e = (name, Inr pid)" "family_reprs (fam pid) (cl pid RBD_CHILDREN)"
    using Cons.prems by (cases e) (auto simp: families_def)
  have "families pools fam cl" using Cons.prems by (simp add: families_def)
  from Cons.IH [OF this] show ?case
    by (auto simp: e(1) on_pool_children [where cl = cl, OF e(2) assms(2)] has_children_def)
qed

text \<open>Whatever requests fail, unless with \<open>-ENOENT\<close>, an answer of 0 says that there are no children.\<close>

lemma find_children_zero:
  assumes "families pools fam cl" "ref_fits pspec" "- ENOENT \<notin> set fs" "find_children pools pspec (fs, cl) = Some (r, c)" "\<not> r < 0"
  shows "\<not> has_children pools fam pspec"
  using assms(1,3,4)
proof (induction pools arbitrary: fs)
  case Nil
  then show ?case by (simp add: has_children_def)
next
  case (Cons e pools)
  obtain name pid where e: "e = (name, Inr pid)" "family_reprs (fam pid) (cl pid RBD_CHILDREN)"
    using Cons.prems by (cases e) (auto simp: families_def)
  have f: "families pools fam cl" "- ENOENT \<notin> set (tl fs)" "next_fault fs \<noteq> - ENOENT"
    using Cons.prems by (cases fs; auto simp: families_def)+
  have "\<not> next_fault fs < 0" "fam pid pspec = []" "find_children pools pspec (tl fs, cl) = Some (r, c)"
    using Cons.prems(3) f(3) assms(5) by (auto simp: e(1) on_pool_children [where cl = cl, OF e(2) assms(2)] split: if_splits)
  with Cons.IH [OF f(1,2)] show ?case by (auto simp: has_children_def e(1))
qed

subsection \<open>Protection\<close>

definition with_status :: "header \<Rightarrow> u64 \<Rightarrow> cls_rbd_snap \<Rightarrow> u8 \<Rightarrow> header" where
  "with_status hdr i s status = hdr\<lparr>h_snaps := smap_put i (s\<lparr>cs_protection_status := status\<rparr>) (h_snaps hdr)\<rparr>"

lemma with_status_simps [simp]:
  "map_of (h_snaps (with_status hdr i s status)) i = Some (s\<lparr>cs_protection_status := status\<rparr>)"
  "lacks (with_status hdr i s status) need \<longleftrightarrow> lacks hdr need"
  "with_status (with_status hdr i s status) i (s\<lparr>cs_protection_status := status\<rparr>) status' = with_status hdr i s status'"
  by (simp_all add: with_status_def lacks_def)

text \<open>The header of the image at hand, and the pools beside it.\<close>

definition header_of :: "ImageCtx \<Rightarrow> cluster \<Rightarrow> osd_object option" where
  "header_of ic cl = cl (md_ctx ic DEFAULT_POOL) (ic_header_oid ic)"

definition only_header :: "ImageCtx \<Rightarrow> cluster \<Rightarrow> cluster \<Rightarrow> bool" where
  "only_header ic cl cl' \<longleftrightarrow> (\<forall>pid oid. (pid, oid) \<noteq> (md_ctx ic DEFAULT_POOL, ic_header_oid ic) \<longrightarrow> cl' pid oid = cl pid oid)"

lemma only_header_trans: "only_header ic cl cl1 \<Longrightarrow> only_header ic cl1 cl2 \<Longrightarrow> only_header ic cl cl2"
  by (simp add: only_header_def)

lemma notify_change_simps [simp]:
  "md_ctx (notify_change ic) pool = md_ctx ic pool" "ic_header_oid (notify_change ic) = ic_header_oid ic"
  "ic_id (notify_change ic) = ic_id ic" "header_of (notify_change ic) cl = header_of ic cl"
  by (simp_all add: notify_change_def md_ctx_def data_ctx_def header_of_def)

lemma set_protection_run:
  assumes "reprs hdr (header_of ic cl)" "header_ok hdr" "\<not> lacks hdr RBD_FEATURE_LAYERING"
    "map_of (h_snaps hdr) i = Some s" "i \<noteq> CEPH_NOSNAP" "status < RBD_PROTECTION_STATUS_LAST"
  shows "\<exists>cl'. (\<forall>fs. set_protection i status (ic, (fs, cl)) =
        Some (if next_fault fs < 0 then (next_fault fs, (ic, (tl fs, cl))) else (0, (ic, (tl fs, cl')))))
    \<and> reprs (with_status hdr i s status) (header_of ic cl') \<and> header_ok (with_status hdr i s status) \<and> only_header ic cl cl'"
proof -
  let ?pid = "md_ctx ic DEFAULT_POOL" and ?oid = "ic_header_oid ic"
  have "header_spec (SetProtection i status) hdr = (0, with_status hdr i s status)"
    using assms(3-6) by (simp add: with_status_def not_le)
  then obtain p' where p': "\<And>fs. cl_set_protection_status ?oid i status (fs, cl ?pid) =
      (if fault_of (fs, cl ?pid) < 0 then Some (fault_of (fs, cl ?pid), (tl fs, cl ?pid)) else Some (0, (tl fs, p')))"
    "reprs (with_status hdr i s status) (p' ?oid)" "header_ok (with_status hdr i s status)" "\<forall>o'. o' \<noteq> ?oid \<longrightarrow> p' o' = cl ?pid o'"
    using header_call_run [where p = "cl ?pid" and oid = ?oid and c = "SetProtection i status", OF _ assms(2)] assms(1)
    unfolding header_call_forms header_of_def by fastforce
  show ?thesis
    using p'
    by (intro exI [of _ "cl(?pid := p')"])
      (auto simp: set_protection_def on_md_def on_pool_def header_of_def only_header_def)
qed

text \<open>A context that agrees with its header on the snapshot \<open>name\<close>, which is not unprotected.\<close>

definition unprotectable :: "io_env \<Rightarrow> ImageCtx \<Rightarrow> string \<Rightarrow> u64 \<Rightarrow> bool" where
  "unprotectable ev ic name i \<longleftrightarrow> \<not> ic_read_only ic \<and> ictx_check ev ic = (0, ic)
     \<and> (\<exists>fe. get_features ic (ic_snap_id ic) = (0, fe) \<and> fe AND RBD_FEATURE_LAYERING \<noteq> 0)
     \<and> get_snap_id ic name = i \<and> i \<noteq> CEPH_NOSNAP \<and> is_snap_unprotected ic name = Some False"

definition own_ref :: "ImageCtx \<Rightarrow> u64 \<Rightarrow> parent_ref" where
  "own_ref ic i = (of_int (md_ctx ic DEFAULT_POOL), ic_id ic, i)"

lemma snap_unprotect_steps:
  assumes "unprotectable ev ic name i"
  shows "snap_unprotect ev pools name (ic, c) =
     do { (r, st) \<leftarrow> set_protection i RBD_PROTECTION_STATUS_UNPROTECTING (ic, c);
          if r < 0 then Some (r, st)
          else do { (r, c) \<leftarrow> find_children pools (own_ref ic i) (snd st);
                    (_, st) \<leftarrow> set_protection i (if r < 0 then RBD_PROTECTION_STATUS_PROTECTED
                                 else RBD_PROTECTION_STATUS_UNPROTECTED) (notify_change (fst st), c);
                    Some (if r < 0 then r else 0, notified st) } }"
proof -
  obtain fe where fe: "get_features ic (ic_snap_id ic) = (0, fe)" "fe AND RBD_FEATURE_LAYERING \<noteq> 0"
    using assms by (auto simp: unprotectable_def)
  have k: "\<exists>c'. st = (ic, c')" if "set_protection i x (ic, c) = Some (r, st)" for r st x
    using that by (auto simp: set_protection_def on_md_def)
  show ?thesis
  proof (cases "set_protection i RBD_PROTECTION_STATUS_UNPROTECTING (ic, c)")
    case None
    then show ?thesis using assms fe by (auto simp: snap_unprotect_def unprotectable_def)
  next
    case (Some y)
    then obtain r1 c1 where "set_protection i RBD_PROTECTION_STATUS_UNPROTECTING (ic, c) = Some (r1, (ic, c1))"
      using k by (cases y) blast
    then show ?thesis
      using assms fe
      by (auto simp: snap_unprotect_def unprotectable_def notified_def own_ref_def Let_def split: prod.splits
          intro!: Option.bind_cong)
  qed
qed

subsection \<open>An image with a protected snapshot\<close>

definition image_snap :: ImageCtx where
  "image_snap = image_9M\<lparr>ic_features := 1, ic_snaps := [3], ic_snaps_by_name := [(''a'', \<lparr>si_id = 3, si_size = 65536, si_features = 1,
     si_parent = \<lparr>pi_spec = \<lparr>ps_pool_id = 9, ps_image_id = ''p'', ps_snap_id = 4\<rparr>, pi_overlap = 6\<rparr>,
     si_protection_status = RBD_PROTECTION_STATUS_PROTECTED\<rparr>)]\<rparr>"

lemma image_snap_simps [simp]:
  "ic_read_only image_snap = False" "ictx_check ev image_snap = (0, image_snap)" "ic_old_format image_snap = False"
  "get_snap_id image_snap ''a'' = 3" "ic_header_oid image_snap = ''rbd_header.1''" "ic_id image_snap = ''1''"
  "get_features image_snap (ic_snap_id image_snap) = (0, 1)" "is_snap_unprotected image_snap ''a'' = Some False"
  "md_ctx image_snap DEFAULT_POOL = 3" "(3 :: u64) \<noteq> CEPH_NOSNAP"
  "get_parent_spec image_snap 3 = Some \<lparr>ps_pool_id = 9, ps_image_id = ''p'', ps_snap_id = 4\<rparr>"
  by (simp_all add: image_snap_def image_9M_def ictx_check_def get_snap_id_def get_features_def is_snap_unprotected_def
      md_ctx_def data_ctx_def whobbs_consts CEPH_NOSNAP_def get_parent_spec_def RBD_PROTECTION_STATUS_PROTECTED_def
      RBD_PROTECTION_STATUS_UNPROTECTED_def)

lemma image_snap_header:
  obtains hdr s obs where "reprs hdr obs" "header_ok hdr" "\<not> lacks hdr RBD_FEATURE_LAYERING" "map_of (h_snaps hdr) 3 = Some s"
    "cs_protection_status s = RBD_PROTECTION_STATUS_PROTECTED" "h_seq hdr = 3" "h_snaps hdr = [(3, s)]" "cs_name s = ''a''"
proof -
  let ?c = "created 65536 22 1 ''rb.1''" and ?cs = "[SnapAdd ''a'' 3, SetProtection 3 RBD_PROTECTION_STATUS_PROTECTED]"
  obtain obs0 where r: "reprs ?c obs0"
    using create_reprs [of 1 "''rb.1''" None 65536 22] by (auto simp: rbd_consts small_string_def omap_of_def)
  have ok: "header_ok ?c" by (rule created_ok) (simp add: small_string_def)
  have fit: "\<forall>c \<in> set ?cs. call_fits c" by (simp add: small_string_def)
  obtain rs obs hdr where h: "header_steps ?cs ?c = (rs, hdr)" "reprs hdr obs" "header_ok hdr"
    using header_history [OF r ok fit] by blast
  have "\<not> lacks ?c RBD_FEATURE_LAYERING" by (simp add: lacks_def created_def RBD_FEATURE_LAYERING_def)
  then have "hdr = with_status (snd (header_spec (SnapAdd ''a'' 3) ?c)) 3 (the (map_of (h_snaps (snd (header_spec (SnapAdd ''a'' 3) ?c))) 3))
      RBD_PROTECTION_STATUS_PROTECTED"
    using h(1) by (auto simp: created_def header_step_def CEPH_MAXSNAP_def CEPH_NOSNAP_def lacks_def with_status_def
        RBD_PROTECTION_STATUS_LAST_def RBD_PROTECTION_STATUS_PROTECTED_def)
  then show ?thesis
    using h(2,3) by (intro that [of hdr obs]) (auto simp: with_status_def lacks_def created_def CEPH_MAXSNAP_def RBD_FEATURE_LAYERING_def)
qed

lemma image_snap_unprotectable: "unprotectable ev image_snap ''a'' 3"
  by (simp add: unprotectable_def RBD_FEATURE_LAYERING_def)

lemma no_families: "families [(''rbd'', Inr 3)] (\<lambda>_ _. []) ((\<lambda>_ _. None)(3 := (\<lambda>_. None)(''rbd_header.1'' := obs)))"
  "\<not> has_children [(''rbd'', Inr 3)] (\<lambda>_ _. []) pspec" "ref_fits (own_ref image_snap 3)"
  by (simp_all add: families_def has_children_def family_reprs_def string_set_def short_def RBD_CHILDREN_def own_ref_def ref_fits_def)

text \<open>C17. A snapshot with clones stays protected. On a context that agrees with its header, \<open>snap_unprotect\<close> of a
  protected snapshot (or of one whose unprotecting was interrupted) answers 0 only if no listed pool has a
  child of it, whichever of its requests fail (other than with \<open>-ENOENT\<close>, which it takes for "no children").
  When all requests reach their objects it returns \<open>-EBUSY\<close> if some pool has a child and 0 if none has; the
  header then says that the snapshot is protected or unprotected, and nothing else is changed.\<close>

theorem unprotect_exact:
  assumes "unprotectable ev ic name i" "reprs hdr (header_of ic cl)" "header_ok hdr" "\<not> lacks hdr RBD_FEATURE_LAYERING"
    "map_of (h_snaps hdr) i = Some s" "ic_header_oid ic \<noteq> RBD_CHILDREN" "families pools fam cl" "ref_fits (own_ref ic i)"
  shows "(\<forall>fs st'. - ENOENT \<notin> set fs \<longrightarrow> snap_unprotect ev pools name (ic, (fs, cl)) = Some (0, st') \<longrightarrow>
        \<not> has_children pools fam (own_ref ic i))
    \<and> (\<exists>cl'. snap_unprotect ev pools name (ic, ([], cl)) =
          Some (if has_children pools fam (own_ref ic i) then - EBUSY else 0, (notify_change (notify_change ic), ([], cl')))
        \<and> reprs (with_status hdr i s (if has_children pools fam (own_ref ic i) then RBD_PROTECTION_STATUS_PROTECTED
                  else RBD_PROTECTION_STATUS_UNPROTECTED)) (header_of ic cl')
        \<and> only_header ic cl cl')"
proof -
  let ?has = "has_children pools fam (own_ref ic i)"
  have i: "i \<noteq> CEPH_NOSNAP" using assms(1) by (simp add: unprotectable_def)
  obtain cl1 where 1: "\<forall>fs. set_protection i RBD_PROTECTION_STATUS_UNPROTECTING (ic, (fs, cl)) =
      Some (if next_fault fs < 0 then (next_fault fs, (ic, (tl fs, cl))) else (0, (ic, (tl fs, cl1))))"
    "reprs (with_status hdr i s RBD_PROTECTION_STATUS_UNPROTECTING) (header_of ic cl1)"
    "header_ok (with_status hdr i s RBD_PROTECTION_STATUS_UNPROTECTING)" "only_header ic cl cl1"
    using set_protection_run [OF assms(2-5) i, of RBD_PROTECTION_STATUS_UNPROTECTING]
    by (auto simp: RBD_PROTECTION_STATUS_LAST_def RBD_PROTECTION_STATUS_UNPROTECTING_def)
  have fam: "families pools fam cl1"
    using assms(6,7) 1(4) by (auto simp: families_def only_header_def)
  note run = snap_unprotect_steps [OF assms(1)] 1(1)
  have zero: "\<not> ?has" if fs: "- ENOENT \<notin> set fs" "snap_unprotect ev pools name (ic, (fs, cl)) = Some (0, st')" for fs st'
  proof -
    have nf: "\<not> next_fault fs < 0" using fs(2) by (auto simp: run split: if_splits)
    then obtain r c where r: "find_children pools (own_ref ic i) (tl fs, cl1) = Some (r, c)" "\<not> r < 0"
      using fs(2) by (auto simp: run split: if_splits bind_splits)
    have "- ENOENT \<notin> set (tl fs)" using fs(1) by (cases fs) auto
    from find_children_zero [OF fam assms(8) this r] show ?thesis .
  qed
  define status where "status = (if ?has then RBD_PROTECTION_STATUS_PROTECTED else RBD_PROTECTION_STATUS_UNPROTECTED)"
  have lt: "status < RBD_PROTECTION_STATUS_LAST"
    by (simp add: status_def RBD_PROTECTION_STATUS_LAST_def RBD_PROTECTION_STATUS_PROTECTED_def RBD_PROTECTION_STATUS_UNPROTECTED_def)
  have "reprs (with_status hdr i s RBD_PROTECTION_STATUS_UNPROTECTING) (header_of (notify_change ic) cl1)"
    "\<not> lacks (with_status hdr i s RBD_PROTECTION_STATUS_UNPROTECTING) RBD_FEATURE_LAYERING"
    using 1(2) assms(4) by simp_all
  from set_protection_run [OF this(1) 1(3) this(2) with_status_simps(1) i lt]
  obtain cl2 where 2: "set_protection i status (notify_change ic, ([], cl1)) = Some (0, (notify_change ic, ([], cl2)))"
    "reprs (with_status hdr i s status) (header_of ic cl2)" "only_header (notify_change ic) cl1 cl2"
    by auto
  have "only_header ic cl cl2" using 1(4) 2(3) by (simp add: only_header_def)
  moreover have "snap_unprotect ev pools name (ic, ([], cl)) =
      Some (if ?has then - EBUSY else 0, (notify_change (notify_change ic), ([], cl2)))"
    using 2(1) by (auto simp: run find_children_exact [OF fam assms(8)] notified_def status_def)
  ultimately show ?thesis using zero 2(2) unfolding status_def by blast
qed

lemma unprotect_exact_witness:
  "\<exists>cl cl'. snap_unprotect quiet_env [(''rbd'', Inr 3)] ''a'' (image_snap, ([], cl)) =
     Some (0, (notify_change (notify_change image_snap), ([], cl')))"
proof -
  obtain hdr s obs where h: "reprs hdr obs" "header_ok hdr" "\<not> lacks hdr RBD_FEATURE_LAYERING" "map_of (h_snaps hdr) 3 = Some s"
    by (rule image_snap_header)
  let ?cl = "(\<lambda>_ _. None)(3 := (\<lambda>_. None)(''rbd_header.1'' := obs))"
  have r: "reprs hdr (header_of image_snap ?cl)" using h(1) by (simp add: header_of_def)
  have "ic_header_oid image_snap \<noteq> RBD_CHILDREN" by (simp add: RBD_CHILDREN_def)
  from unprotect_exact [where cl = ?cl, OF image_snap_unprotectable r h(2-4) this no_families(1,3), of quiet_env]
  show ?thesis using no_families(2) by (auto simp del: fun_upd_apply)
qed

lemma find_children_none:
  assumes "families pools fam cl" "ref_fits pspec" "\<not> has_children pools fam pspec"
  shows "find_children pools pspec (replicate (length pools) 0 @ fs, cl) = Some (0, (fs, cl))"
  using assms(1,3)
proof (induction pools)
  case Nil
  then show ?case by simp
next
  case (Cons e pools)
  obtain name pid where e: "e = (name, Inr pid)" "family_reprs (fam pid) (cl pid RBD_CHILDREN)"
    using Cons.prems by (cases e) (auto simp: families_def)
  have "families pools fam cl" "\<not> has_children pools fam pspec" "fam pid pspec = []"
    using Cons.prems by (auto simp: families_def has_children_def e(1))
  then show ?case using Cons.IH by (simp add: e(1) on_pool_children [where cl = cl, OF e(2) assms(2)])
qed

text \<open>An unprotecting that fails at the end is reported as done: when the last request, which sets the status to
  unprotected, does not reach the header, \<open>snap_unprotect\<close> returns 0 all the same, and the header says that the
  snapshot is being unprotected, so that it can neither be removed nor cloned.\<close>

theorem unprotect_hides_error:
  assumes "unprotectable ev ic name i" "reprs hdr (header_of ic cl)" "header_ok hdr" "\<not> lacks hdr RBD_FEATURE_LAYERING"
    "map_of (h_snaps hdr) i = Some s" "ic_header_oid ic \<noteq> RBD_CHILDREN" "families pools fam cl" "ref_fits (own_ref ic i)"
    "\<not> has_children pools fam (own_ref ic i)" "f < 0"
  shows "\<exists>cl'. snap_unprotect ev pools name (ic, (replicate (Suc (length pools)) 0 @ [f], cl)) =
          Some (0, (notify_change (notify_change ic), ([], cl')))
        \<and> reprs (with_status hdr i s RBD_PROTECTION_STATUS_UNPROTECTING) (header_of ic cl') \<and> only_header ic cl cl'"
proof -
  have i: "i \<noteq> CEPH_NOSNAP" using assms(1) by (simp add: unprotectable_def)
  obtain cl1 where 1: "\<forall>fs. set_protection i RBD_PROTECTION_STATUS_UNPROTECTING (ic, (fs, cl)) =
      Some (if next_fault fs < 0 then (next_fault fs, (ic, (tl fs, cl))) else (0, (ic, (tl fs, cl1))))"
    "reprs (with_status hdr i s RBD_PROTECTION_STATUS_UNPROTECTING) (header_of ic cl1)"
    "header_ok (with_status hdr i s RBD_PROTECTION_STATUS_UNPROTECTING)" "only_header ic cl cl1"
    using set_protection_run [OF assms(2-5) i, of RBD_PROTECTION_STATUS_UNPROTECTING]
    by (auto simp: RBD_PROTECTION_STATUS_LAST_def RBD_PROTECTION_STATUS_UNPROTECTING_def)
  have fam: "families pools fam cl1"
    using assms(6,7) 1(4) by (auto simp: families_def only_header_def)
  have "reprs (with_status hdr i s RBD_PROTECTION_STATUS_UNPROTECTING) (header_of (notify_change ic) cl1)"
    "\<not> lacks (with_status hdr i s RBD_PROTECTION_STATUS_UNPROTECTING) RBD_FEATURE_LAYERING"
    using 1(2) assms(4) by simp_all
  from set_protection_run [OF this(1) 1(3) this(2) with_status_simps(1) i, of RBD_PROTECTION_STATUS_UNPROTECTED]
  have 2: "set_protection i RBD_PROTECTION_STATUS_UNPROTECTED (notify_change ic, ([f], cl1)) =
      Some (f, (notify_change ic, ([], cl1)))"
    using assms(10) by (auto simp: RBD_PROTECTION_STATUS_LAST_def RBD_PROTECTION_STATUS_UNPROTECTED_def)
  have "snap_unprotect ev pools name (ic, (replicate (Suc (length pools)) 0 @ [f], cl)) =
      Some (0, (notify_change (notify_change ic), ([], cl1)))"
    using 2 find_children_none [OF fam assms(8,9), of "[f]"]
    by (simp add: snap_unprotect_steps [OF assms(1)] 1(1) notified_def)
  then show ?thesis using 1(2,4) by blast
qed

lemma unprotect_hides_error_witness:
  "\<exists>cl cl'. snap_unprotect quiet_env [(''rbd'', Inr 3)] ''a'' (image_snap, ([0, 0, - 5], cl)) =
     Some (0, (notify_change (notify_change image_snap), ([], cl')))"
proof -
  obtain hdr s obs where h: "reprs hdr obs" "header_ok hdr" "\<not> lacks hdr RBD_FEATURE_LAYERING" "map_of (h_snaps hdr) 3 = Some s"
    by (rule image_snap_header)
  let ?cl = "(\<lambda>_ _. None)(3 := (\<lambda>_. None)(''rbd_header.1'' := obs))"
  have r: "reprs hdr (header_of image_snap ?cl)" using h(1) by (simp add: header_of_def)
  have o: "ic_header_oid image_snap \<noteq> RBD_CHILDREN" by (simp add: RBD_CHILDREN_def)
  have f: "(- 5 :: int) < 0" by simp
  have "replicate (Suc (length [(''rbd'', Inr 3 :: int + int)])) 0 @ [- 5 :: int] = [0, 0, - 5]" by simp
  with unprotect_hides_error [where cl = ?cl, OF image_snap_unprotectable r h(2-4) o no_families(1,3,2) f, of quiet_env]
  show ?thesis by metis
qed

subsection \<open>Removing a snapshot\<close>

lemma client_remove_child:
  assumes "family_reprs f (p oid)" "ref_fits pspec" "short c"
  shows "\<exists>p'. (\<forall>fs. cl_remove_child oid pspec c (fs, p) =
      (if next_fault fs < 0 then Some (next_fault fs, (tl fs, p))
       else Some (if c \<in> set (f pspec) then 0 else - ENOENT, (tl fs, p'))))
    \<and> family_reprs (f(pspec := remove1 c (f pspec))) (p' oid) \<and> (\<forall>o'. o' \<noteq> oid \<longrightarrow> p' o' = p o')"
proof -
  obtain obs where c: "cls_call rbd_remove_child (encode_ref_child (pspec, c)) (p oid) =
      Some (if c \<in> set (f pspec) then 0 else - ENOENT, [], obs)" and fam: "family_reprs (f(pspec := remove1 c (f pspec))) obs"
    using remove_child_call [OF assms] by blast
  from io_call_effect [where p = p and oid = oid and R = "family_reprs (f(pspec := remove1 c (f pspec)))", OF c fam]
  show ?thesis unfolding cl_remove_child_def next_fault_simps by blast
qed

text \<open>C18. A protected snapshot of a flattened clone, the only one with this parent, loses it: \<open>snap_remove\<close> takes
  the image off the list of children of the parent before it asks the header to remove the snapshot. When the header refuses because the
  snapshot is protected, \<open>snap_remove\<close> returns \<open>-EBUSY\<close>, the snapshot is still there with its parent, but the image
  is no longer a child of it (and the parent's snapshot can be unprotected and removed).\<close>

theorem snap_remove_orphans:
  assumes "\<not> ic_read_only ic" "ictx_check ev ic = (0, ic)" "\<not> ic_old_format ic" "get_snap_id ic name = i" "i \<noteq> CEPH_NOSNAP"
    "get_parent_spec ic i = Some ps" "pi_spec (ic_parent_md ic) \<noteq> ps" "scan_for_parents ic ps i = - ENOENT"
    "reprs hdr (header_of ic cl)" "header_ok hdr" "map_of (h_snaps hdr) i = Some s"
    "cs_protection_status s \<noteq> RBD_PROTECTION_STATUS_UNPROTECTED" "ic_header_oid ic \<noteq> RBD_CHILDREN"
    "family_reprs f (cl (md_ctx ic DEFAULT_POOL) RBD_CHILDREN)" "ref_fits (ref_of ps)" "short (ic_id ic)"
    "ic_id ic \<in> set (f (ref_of ps))"
  shows "\<exists>cl'. snap_remove ev name (ic, ([], cl)) = Some (- EBUSY, (ic, ([], cl')))
    \<and> family_reprs (f(ref_of ps := remove1 (ic_id ic) (f (ref_of ps)))) (cl' (md_ctx ic DEFAULT_POOL) RBD_CHILDREN)
    \<and> header_of ic cl' = header_of ic cl"
proof -
  let ?pid = "md_ctx ic DEFAULT_POOL" and ?oid = "ic_header_oid ic"
  obtain p1 where 1: "\<And>fs. cl_remove_child RBD_CHILDREN (ref_of ps) (ic_id ic) (fs, cl ?pid) =
      (if next_fault fs < 0 then Some (next_fault fs, (tl fs, cl ?pid)) else Some (0, (tl fs, p1)))"
    "family_reprs (f(ref_of ps := remove1 (ic_id ic) (f (ref_of ps)))) (p1 RBD_CHILDREN)"
    "\<forall>o'. o' \<noteq> RBD_CHILDREN \<longrightarrow> p1 o' = cl ?pid o'"
    using client_remove_child [where p = "cl ?pid" and oid = RBD_CHILDREN, OF assms(14-16)] unfolding if_P [OF assms(17)]
    by blast
  have h: "reprs hdr (p1 ?oid)" using assms(9,13) 1(3) by (simp add: header_of_def)
  have "header_spec (SnapRemove i) hdr = (- EBUSY, hdr)" using assms(11,12) by simp
  from header_call_run [where p = p1 and oid = ?oid, OF h assms(10) _ this]
  have 2: "cl_snapshot_remove ?oid i ([], p1) = Some (- EBUSY, ([], p1))"
    unfolding header_call_forms by auto
  have "snap_remove ev name (ic, ([], cl)) = Some (- EBUSY, (ic, ([], cl(?pid := p1))))"
    using assms(1-8) 1(1) 2 by (simp add: snap_remove_def on_md_def on_pool_def rm_snap_def Let_def)
  then show ?thesis using 1(2,3) assms(13) by (auto simp: header_of_def)
qed

lemma snap_remove_orphans_witness:
  "\<exists>cl cl' f. snap_remove quiet_env ''a'' (image_snap, ([], cl)) = Some (- EBUSY, (image_snap, ([], cl')))
     \<and> family_reprs f (cl' 3 RBD_CHILDREN) \<and> f (9, ''p'', 4) = []"
proof -
  obtain hdr s obs where h: "reprs hdr obs" "header_ok hdr" "map_of (h_snaps hdr) 3 = Some s"
    "cs_protection_status s = RBD_PROTECTION_STATUS_PROTECTED"
    by (rule image_snap_header)
  let ?ps = "\<lparr>ps_pool_id = 9, ps_image_id = ''p'', ps_snap_id = 4\<rparr>"
  have e: "family_reprs (\<lambda>_. []) None" by (simp add: family_reprs_def string_set_def short_def)
  have fit: "ref_fits (ref_of ?ps)" "short ''1''" by (simp_all add: ref_fits_def ref_of_def short_def)
  let ?f = "(\<lambda>_. [])(ref_of ?ps := [''1''])"
  obtain chs where c: "family_reprs ?f chs"
    using add_child_call [OF e fit] by (auto simp: set_insert_def)
  let ?cl = "(\<lambda>_ _. None)(3 := (\<lambda>_. None)(''rbd_header.1'' := obs, RBD_CHILDREN := chs))"
  have o: "''rbd_header.1'' \<noteq> RBD_CHILDREN" by (simp add: RBD_CHILDREN_def)
  have st: "cs_protection_status s \<noteq> RBD_PROTECTION_STATUS_UNPROTECTED"
    by (simp add: h(4) RBD_PROTECTION_STATUS_PROTECTED_def RBD_PROTECTION_STATUS_UNPROTECTED_def)
  have sc: "pi_spec (ic_parent_md image_snap) \<noteq> ?ps" "scan_for_parents image_snap ?ps 3 = - ENOENT"
    by (simp_all add: image_snap_def image_9M_def no_parent_def scan_for_parents_def)
  have r: "reprs hdr (header_of image_snap ?cl)" using h(1) o by (simp add: header_of_def)
  from snap_remove_orphans [where cl = ?cl and f = ?f and i = 3 and name = "''a''", OF _ _ _ _ _ _ sc r h(2,3) st _ _ fit(1)] c o fit(2)
  show ?thesis by (fastforce simp: ref_of_def)
qed

subsection \<open>Creating a snapshot\<close>

lemma make_snap_run:
  assumes "\<not> ic_old_format ic" "reprs hdr (header_of ic cl)" "header_ok hdr" "small_string name"
    "header_spec (SnapAdd name i) hdr = (r, hdr')" "r \<le> 0"
  shows "\<exists>cl'. make_snap (Inr i) name (ic, ([], cl)) = Some (r, (ic, ([], cl')))
    \<and> reprs hdr' (header_of ic cl') \<and> only_header ic cl cl' \<and> (r < 0 \<longrightarrow> cl' = cl)"
proof -
  let ?pid = "md_ctx ic DEFAULT_POOL" and ?oid = "ic_header_oid ic"
  obtain p' where p': "\<And>fs. cl_snapshot_add ?oid i name (fs, cl ?pid) =
      (if fault_of (fs, cl ?pid) < 0 then Some (fault_of (fs, cl ?pid), (tl fs, cl ?pid)) else Some (r, (tl fs, p')))"
    "reprs hdr' (p' ?oid)" "\<forall>o'. o' \<noteq> ?oid \<longrightarrow> p' o' = cl ?pid o'" "r < 0 \<longrightarrow> p' = cl ?pid"
    using header_call_run [where p = "cl ?pid" and oid = ?oid and c = "SnapAdd name i", OF _ assms(3) _ assms(5)] assms(2,4)
    unfolding header_call_forms header_of_def by fastforce
  show ?thesis
    using p' assms(1,6)
    by (intro exI [of _ "cl(?pid := p')"])
      (auto simp: make_snap_def on_md_def on_pool_def header_of_def only_header_def Let_def)
qed

text \<open>A snapshot is created with the first id that is not behind the header: \<open>snap_create\<close> asks the monitor for
  an id until the header accepts one. When the monitor answers with some ids below the sequence number of the
  header and then with one that is not (up to the largest snapshot id), and neither the name nor the id is
  taken, \<open>snap_create\<close> returns 0 and the header has the new snapshot with the size, features and parent of
  the image, unprotected, and nothing else is changed.\<close>

theorem snap_create_exact:
  assumes "\<not> ic_read_only ic" "ictx_check ev ic = (0, ic)" "\<not> ic_old_format ic" "reprs hdr (header_of ic cl)" "header_ok hdr"
    "small_string name" "\<forall>j \<in> set stale. j < h_seq hdr" "h_seq hdr \<le> i" "i \<le> CEPH_MAXSNAP"
    "\<forall>e \<in> set (h_snaps hdr). cs_name (snd e) \<noteq> name \<and> fst e \<noteq> i"
  shows "\<exists>cl'. snap_create ev (map Inr stale @ Inr i # rest) name (ic, ([], cl)) = Some (0, (notify_change ic, ([], cl')))
    \<and> reprs (hdr\<lparr>h_seq := i, h_snaps := smap_put i \<lparr>cs_id = i, cs_name = name, cs_image_size = h_size hdr,
                cs_features = h_features hdr, cs_protection_status = RBD_PROTECTION_STATUS_UNPROTECTED,
                cs_parent = (case h_parent hdr of None \<Rightarrow> new_cls_rbd_parent | Some pa \<Rightarrow> pa)\<rparr> (h_snaps hdr)\<rparr>) (header_of ic cl')
    \<and> only_header ic cl cl'"
proof -
  let ?hdr = "snd (header_spec (SnapAdd name i) hdr)"
  have ok: "header_spec (SnapAdd name i) hdr = (0, ?hdr)" using assms(8-10) by auto
  obtain cl' where new: "make_snap (Inr i) name (ic, ([], cl)) = Some (0, (ic, ([], cl')))"
    "reprs ?hdr (header_of ic cl')" "only_header ic cl cl'"
    using make_snap_run [OF assms(3-6) ok] by auto
  have "make_snap_loop (map Inr stale @ Inr i # rest) name (ic, ([], cl)) = Some (0, (ic, ([], cl')))"
    using assms(7)
  proof (induction stale)
    case Nil
    then show ?case using new(1) by simp
  next
    case (Cons j stale)
    have "header_spec (SnapAdd name j) hdr = (- ESTALE, hdr)"
      using Cons.prems assms(8,9) by auto
    then have "make_snap (Inr j) name (ic, ([], cl)) = Some (- ESTALE, (ic, ([], cl)))"
      using make_snap_run [OF assms(3-6), of j "- ESTALE" hdr] by auto
    then show ?case using Cons by simp
  qed
  then have "snap_create ev (map Inr stale @ Inr i # rest) name (ic, ([], cl)) = Some (0, (notify_change ic, ([], cl')))"
    using assms(1,2) by (simp add: snap_create_def notified_def)
  moreover have "?hdr = hdr\<lparr>h_seq := i, h_snaps := smap_put i \<lparr>cs_id = i, cs_name = name, cs_image_size = h_size hdr,
                cs_features = h_features hdr, cs_protection_status = RBD_PROTECTION_STATUS_UNPROTECTED,
                cs_parent = (case h_parent hdr of None \<Rightarrow> new_cls_rbd_parent | Some pa \<Rightarrow> pa)\<rparr> (h_snaps hdr)\<rparr>"
    using assms(8-10) by auto
  ultimately show ?thesis using new(2,3) by metis
qed

lemma snap_create_exact_witness:
  "\<exists>cl cl'. snap_create quiet_env [Inr 2, Inr 5] ''b'' (image_snap, ([], cl)) = Some (0, (notify_change image_snap, ([], cl')))"
proof -
  obtain hdr s obs where h: "reprs hdr obs" "header_ok hdr" "h_seq hdr = 3" "h_snaps hdr = [(3, s)]" "cs_name s = ''a''"
    by (rule image_snap_header)
  let ?cl = "(\<lambda>_ _. None)(3 := (\<lambda>_. None)(''rbd_header.1'' := obs))"
  have r: "reprs hdr (header_of image_snap ?cl)" using h(1) by (simp add: header_of_def)
  from snap_create_exact [where cl = ?cl and ev = quiet_env and name = "''b''" and stale = "[2]" and i = 5 and rest = "[]", OF _ _ _ r h(2)]
  show ?thesis using h(3-5) by (auto simp: small_string_def CEPH_MAXSNAP_def)
qed

end
