(* ===== verification/Single_Pool.thy ===== *)
theory Single_Pool
  imports Migrater_Model Image_Open
begin

text \<open>
  Images opened with one pool. The constructor of a context takes two pools; \<open>RBD::open\<close>, \<open>copy\<close>,
  \<open>clone\<close>, \<open>remove\<close> and \<open>open_parent\<close> give it the same pool twice, and the analyzer of such an image runs like
  any other. A migration then writes the object to where it has read it from, and removes it.
\<close>

text \<open>The contexts of \<open>RBD::open\<close> and of \<open>RBD::open_read_only\<close>.\<close>

definition rbd_open_context :: "bool \<Rightarrow> rbd_conf \<Rightarrow> ImageCtx \<Rightarrow> string \<Rightarrow> string option \<Rightarrow> int \<Rightarrow> bool \<Rightarrow> ImageCtx" where
  "rbd_open_context rbd_cache rc mem name snap_name io_ctx ro =
     new_ImageCtx rbd_cache rc mem name [] snap_name io_ctx io_ctx ro"

lemma single_pool: "data_ctx (rbd_open_context rbd_cache rc mem name snap p ro) pool = p"
  by (simp add: rbd_open_context_def new_ImageCtx_def data_ctx_def)

text \<open>C16. A migration of an image that \<open>RBD::open\<close> has opened destroys the extent. Whatever has been done with
  the context since, when it still has its pools, one object per extent and no failing operation,
  \<open>do_concurrent_migrate\<close> ends with the object of the extent gone from the pool and every byte of the extent
  zero, in either direction; all other objects are untouched.\<close>

theorem single_pool_migration_destroys:
  assumes "\<forall>pool. data_ctx ic pool = data_ctx (rbd_open_context rbd_cache rc mem name snap p ro) pool"
    "mig_shape ic" "small_objects ic cl" "quiet ev" "extent_in_range i" "a \<in> tiers" "b \<in> tiers"
  shows "\<exists>ic' cl'. do_concurrent_migrate ev i a b (ic, cl) = Some (ic', cl')
    \<and> cl' p (extent_oid ic i) = None \<and> (\<forall>y. y div EXTENT_SIZE = i \<longrightarrow> content (ic', cl') y = 0)
    \<and> (\<forall>pid oid. (pid, oid) \<noteq> (p, extent_oid ic i) \<longrightarrow> cl' pid oid = cl pid oid)"
proof -
  let ?o = "extent_oid ic i" and ?v = "if b = HDD_POOL then HDD_STRIDE else SSD_STRIDE"
  let ?cl' = "cl(p := (cl p)(?o := None))"
  have d: "data_ctx ic pool = p" for pool using assms(1) single_pool by simp
  have w: "od_watchers ob = 0" if "cl p ?o = Some ob" for ob using assms(3) that by (auto simp: small_objects_def)
  then have "after_remove ev p ?o (after_write ev p ?o (moved_data ev p ?o cl) cl) = ?cl'"
    using assms(4) by (auto simp: after_remove_def after_write_def quiet_def fun_eq_iff split: option.splits)
  then have run: "do_concurrent_migrate ev i a b (ic, cl) = Some (set_extent i ?v ic, ?cl')"
    using shape_migrate_run [OF assms(2,5), of ev a b cl] by (simp add: d Let_def)
  have "mig_shape (set_extent i ?v ic)"
    using assms(2) by (auto simp: mig_shape_def em_ok_def set_extent_def)
  then have "content (set_extent i ?v ic, ?cl') y = 0" if "y div EXTENT_SIZE = i" for y
    using shape_content_extent that by (simp add: d byte_at_nil)
  then show ?thesis using run by (intro exI [of _ "set_extent i ?v ic"] exI [of _ ?cl']) auto
qed

lemma single_pool_migration_destroys_witness:
  "\<exists>ic. (\<forall>pool. data_ctx ic pool = data_ctx (rbd_open_context False \<lparr>cf_cache_writethrough_until_flush = False,
        cf_cache_max_dirty = 0, cf_balance_snap_reads = False, cf_localize_snap_reads = False\<rparr> image_9M ''img'' None 3 False) pool)
     \<and> content (ic, cluster_12) 0 = 1
     \<and> (\<exists>ic' cl'. do_concurrent_migrate quiet_env 0 HDD_POOL SSD_POOL (ic, cluster_12) = Some (ic', cl') \<and> content (ic', cl') 0 = 0)"
proof -
  define ic where "ic = image_tiered\<lparr>ic_ssd_id := 3\<rparr>"
  define rc where "rc = \<lparr>cf_cache_writethrough_until_flush = False, cf_cache_max_dirty = 0,
     cf_balance_snap_reads = False, cf_localize_snap_reads = False\<rparr>"
  have d: "\<forall>pool. data_ctx ic pool = data_ctx (rbd_open_context False rc image_9M ''img'' None 3 False) pool"
    unfolding single_pool by (simp add: ic_def data_ctx_def image_tiered_def image_9M_def)
  have sh: "mig_shape ic" "small_objects ic cluster_12"
    using mig_image_tiered
    by (auto simp: mig_state_def mig_image_shape mig_shape_def small_objects_def ic_def extent_oid_def)
  have "content (ic, cluster_12) 0 = 1"
    by (simp add: content_def image_byte_def ic_def image_tiered_def image_9M_def em_tier_def data_ctx_def
      cluster_12_def whobbs_consts x_offset_def stripeno_def blockno_def block_off_def stripes_per_object_def byte_at_def)
  moreover have "(0 :: u64) div EXTENT_SIZE = 0" "extent_in_range 0" "HDD_POOL \<in> tiers" "SSD_POOL \<in> tiers"
    by (simp_all add: whobbs_consts extent_in_range_def tiers_def)
  ultimately show ?thesis
    using single_pool_migration_destroys [where cl = cluster_12, OF d sh quiet_env_quiet, of 0 HDD_POOL SSD_POOL] d
    unfolding rc_def by blast
qed

end
