(* ===== verification/Image_Refresh.thy ===== *)
theory Image_Refresh
  imports Snap_Ops Image_Names Tiered_Disk
begin

text \<open>
  Reading the metadata of an image into its context: \<open>ictx_refresh\<close>, \<open>open_image\<close> and what they call in
  \<open>librbd/internal.cc\<close>, with \<open>get_mutable_metadata\<close> of the class client. The lock class keeps its state in
  extended attributes, which the objects here do not have: it is an argument (its method, the encoded
  request and the decoding of the answer), as is the opening of a parent image. Beside the context the
  functions carry the open parent: its pool, id and snapshot.
\<close>

subsection \<open>The lock class and the parent\<close>

record lock_class =
  lk_get_info :: cls_method
  lk_request :: bytes
  lk_finish :: "bytes \<Rightarrow> int"

type_synonym open_parent = "(int \<times> string \<times> u64) option"

subsection \<open>Mutable metadata\<close>

record mutable_md =
  md_size :: u64
  md_features :: u64
  md_incompatible :: u64
  md_snapc :: "u64 \<times> u64 list"
  md_parent :: parent_info

text \<open>A field is decoded into its place; after a failure nothing more is decoded, and what was decoded stays.\<close>

definition decode_into ::
    "(bytes \<Rightarrow> ('a \<times> bytes) option) \<Rightarrow> ('a \<Rightarrow> 'm \<Rightarrow> 'm) \<Rightarrow> bytes option \<times> 'm \<Rightarrow> bytes option \<times> 'm" where
  "decode_into dec upd st =
     (case st of
        (None, m) \<Rightarrow> (None, m)
      | (Some p, m) \<Rightarrow> (case dec p of None \<Rightarrow> (None, m) | Some (x, p) \<Rightarrow> (Some p, upd x m)))"

definition set_parent_fields :: "(parent_info \<Rightarrow> parent_info) \<Rightarrow> mutable_md \<Rightarrow> mutable_md" where
  "set_parent_fields f m = m\<lparr>md_parent := f (md_parent m)\<rparr>"

definition decode_mutable :: "bytes option \<times> mutable_md \<Rightarrow> bytes option \<times> mutable_md" where
  "decode_mutable st =
     (let st = decode_into decode_u8 (\<lambda>order m. m) st;
          st = decode_into decode_u64 (\<lambda>x m. m\<lparr>md_size := x\<rparr>) st;
          st = decode_into decode_u64 (\<lambda>x m. m\<lparr>md_features := x\<rparr>) st;
          st = decode_into decode_u64 (\<lambda>x m. m\<lparr>md_incompatible := x\<rparr>) st;
          st = decode_into decode_snapc (\<lambda>x m. m\<lparr>md_snapc := x\<rparr>) st;
          st = decode_into decode_u64 (\<lambda>x. set_parent_fields (\<lambda>pi. pi\<lparr>pi_spec := (pi_spec pi)\<lparr>ps_pool_id := sint x\<rparr>\<rparr>)) st;
          st = decode_into decode_string (\<lambda>x. set_parent_fields (\<lambda>pi. pi\<lparr>pi_spec := (pi_spec pi)\<lparr>ps_image_id := x\<rparr>\<rparr>)) st;
          st = decode_into decode_u64 (\<lambda>x. set_parent_fields (\<lambda>pi. pi\<lparr>pi_spec := (pi_spec pi)\<lparr>ps_snap_id := x\<rparr>\<rparr>)) st
      in decode_into decode_u64 (\<lambda>x. set_parent_fields (\<lambda>pi. pi\<lparr>pi_overlap := x\<rparr>)) st)"

definition cl_get_mutable_metadata ::
    "lock_class \<Rightarrow> string \<Rightarrow> mutable_md \<Rightarrow> io \<Rightarrow> ((int \<times> mutable_md) \<times> io) option" where
  "cl_get_mutable_metadata lk oid m st =
     map_option (\<lambda>((r, outbl), st).
         (if r < 0 then (r, m)
          else (case decode_mutable (Some outbl, m) of
                  (None, m) \<Rightarrow> (- EBADMSG, m)
                | (Some p, m) \<Rightarrow>
                    let r = lk_finish lk p
                    in (if r < 0 \<and> r \<noteq> - EOPNOTSUPP \<and> r \<noteq> - EIO then r else 0, m)), st))
       (io_operate_read oid
         [(rbd_get_size, encode_u64 CEPH_NOSNAP), (rbd_get_features, encode_u64 CEPH_NOSNAP), (rbd_get_snapcontext, []),
          (rbd_get_parent, encode_u64 CEPH_NOSNAP), (lk_get_info lk, lk_request lk)] st)"

subsection \<open>The header of an old image\<close>

definition READ_SIZE :: nat where "READ_SIZE = 4096"

text \<open>A header shorter than the text is compared beyond its end.\<close>

partial_function (option) read_header_bl :: "string \<Rightarrow> u64 \<Rightarrow> bytes \<Rightarrow> io \<Rightarrow> ((int + bytes) \<times> io) option" where
  "read_header_bl oid off header st =
     Option.bind (io_read oid (of_nat READ_SIZE) off st) (\<lambda>((r, bl), st).
       if r < 0 then Some (Inl r, st)
       else
         let header = header @ bl; text = bytes_of RBD_HEADER_TEXT @ [0]
         in if r = int READ_SIZE then read_header_bl oid (off + of_int r) header st
            else if length header < length text then None
            else if take (length text) header \<noteq> text then Some (Inl (- ENXIO), st)
            else Some (Inr header, st))"

definition read_header :: "string \<Rightarrow> io \<Rightarrow> ((int + rbd_obj_header_ondisk) \<times> io) option" where
  "read_header oid st =
     do { (res, st) \<leftarrow> read_header_bl oid 0 [] st;
          (case res of
             Inl r \<Rightarrow> Some (Inl r, st)
           | Inr bl \<Rightarrow> (case ondisk_of bl of
                          None \<Rightarrow> Some (Inl (- EIO), st)
                        | Some (header, _) \<Rightarrow> Some (Inr header, st))) }"

subsection \<open>The snapshots of an image\<close>

text \<open>A snapshot as the refresh reads it: id, name, size, features, parent, protection.\<close>

type_synonym snap_fields = "u64 \<times> string \<times> u64 \<times> u64 \<times> parent_info \<times> u8"

definition old_fields :: "old_snap \<Rightarrow> snap_fields" where
  "old_fields s = (case s of (i, sz, name) \<Rightarrow> (i, name, sz, 0, no_parent, RBD_PROTECTION_STATUS_UNPROTECTED))"

definition new_fields :: "u64 \<Rightarrow> snap_answer \<Rightarrow> snap_fields" where
  "new_fields i a =
     (case a of (name, (order, sz), (features, incompatible), (pool, img, sn, overlap), status) \<Rightarrow>
        (i, name, sz, features,
         \<lparr>pi_spec = \<lparr>ps_pool_id = sint pool, ps_image_id = img, ps_snap_id = sn\<rparr>, pi_overlap = overlap\<rparr>, status))"

definition add_fields :: "snap_fields \<Rightarrow> ImageCtx \<Rightarrow> ImageCtx" where
  "add_fields s = (case s of (i, name, sz, features, parent, status) \<Rightarrow> add_snap name i sz features parent status)"

definition set_snaps :: "snap_fields list \<Rightarrow> ImageCtx \<Rightarrow> ImageCtx" where
  "set_snaps ss ic = fold add_fields ss (ic\<lparr>ic_snaps := [], ic_snaps_by_name := []\<rparr>)"

subsection \<open>The refresh\<close>

definition refresh_old :: "lock_class \<Rightarrow> snap_state \<Rightarrow> ((int + u64 \<times> snap_fields list) \<times> snap_state) option" where
  "refresh_old lk st =
     (let oid = ic_header_oid (fst st) in
      do { (res, st) \<leftarrow> on_md (read_header oid) st;
           (case res of
              Inl r \<Rightarrow> Some (Inl r, st)
            | Inr header \<Rightarrow>
      do { (res, st) \<leftarrow> on_md (cl_old_snapshot_list oid) st;
           (case res of
              Inl r \<Rightarrow> Some (Inl r, st)
            | Inr (sq, ss) \<Rightarrow>
      do { ((r, outbl), (ic, c)) \<leftarrow> on_md (io_exec oid (lk_get_info lk) (lk_request lk)) st;
           let r = (if r < 0 then r else lk_finish lk outbl)
           in if r < 0 \<and> r \<noteq> - EOPNOTSUPP \<and> r \<noteq> - EIO then Some (Inl r, (ic, c))
              else
                do { block_name \<leftarrow> c_string (ondisk_bytes header) 40;
                     let ic = ic\<lparr>ic_order := oh_order header, ic_size := oh_image_size header,
                                 ic_object_prefix := string_of block_name\<rparr>;
                         ic = init_layout (of_int (data_ctx ic DEFAULT_POOL)) ic
                     in Some (Inr (sq, map old_fields ss), (ic, c)) } }) }) })"

definition md_of :: "ImageCtx \<Rightarrow> mutable_md" where
  "md_of ic = \<lparr>md_size = ic_size ic, md_features = ic_features ic, md_incompatible = 0, md_snapc = (0, []),
               md_parent = ic_parent_md ic\<rparr>"

definition with_md :: "mutable_md \<Rightarrow> ImageCtx \<Rightarrow> ImageCtx" where
  "with_md m ic = ic\<lparr>ic_size := md_size m, ic_features := md_features m, ic_parent_md := md_parent m\<rparr>"

partial_function (option) refresh_new ::
    "lock_class \<Rightarrow> snap_state \<Rightarrow> ((int + u64 \<times> snap_fields list) \<times> snap_state) option" where
  "refresh_new lk st =
     Option.bind (on_md (cl_get_mutable_metadata lk (ic_header_oid (fst st)) (md_of (fst st))) st) (\<lambda>((r, m), (ic, c)).
       let ic = with_md m ic in
       if r < 0 then Some (Inl r, (ic, c))
       else if md_incompatible m AND NOT RBD_FEATURES_ALL \<noteq> 0 then Some (Inl (- ENOSYS), (ic, c))
       else
         Option.bind (on_md (cl_snapshot_list (ic_header_oid ic) (snd (md_snapc m))) (ic, c)) (\<lambda>(res, st).
           case res of
             Inl r \<Rightarrow> if r = - ENOENT then refresh_new lk st else Some (Inl r, st)
           | Inr answers \<Rightarrow> Some (Inr (fst (md_snapc m), map2 new_fields (snd (md_snapc m)) answers), st)))"

definition refresh_parent ::
    "(ImageCtx \<Rightarrow> int + int \<times> string \<times> u64) \<Rightarrow> open_parent \<Rightarrow> ImageCtx \<Rightarrow> int \<times> open_parent \<times> ImageCtx" where
  "refresh_parent op par ic =
     (let snap_id = ic_snap_id ic;
          kept = (case par of
            None \<Rightarrow> Some None
          | Some (pool, img, sn) \<Rightarrow>
              (case get_parent_overlap ic snap_id of
                 None \<Rightarrow> None
               | Some overlap \<Rightarrow>
                   if overlap = 0 \<or> pool \<noteq> get_parent_pool_id ic snap_id \<or> img \<noteq> get_parent_image_id ic snap_id
                      \<or> sn \<noteq> get_parent_snap_id ic snap_id
                   then Some None else Some par))
      in case kept of
           None \<Rightarrow> (- ENOENT, par, ic)
         | Some par \<Rightarrow>
             let ic = ic\<lparr>ic_has_parent := par \<noteq> None\<rparr> in
             if - 1 < get_parent_pool_id ic snap_id \<and> par = None
             then (case op ic of
                     Inl r \<Rightarrow> (r, None, ic)
                   | Inr p \<Rightarrow> (0, Some p, ic\<lparr>ic_has_parent := True\<rparr>))
             else (0, par, ic))"

definition ictx_refresh ::
    "lock_class \<Rightarrow> (ImageCtx \<Rightarrow> int + int \<times> string \<times> u64) \<Rightarrow> open_parent \<Rightarrow> snap_state \<Rightarrow>
     ((int \<times> open_parent) \<times> snap_state) option" where
  "ictx_refresh lk op par st =
     (let refresh_seq = ic_refresh_seq (fst st) in
      do { (res, (ic, c)) \<leftarrow> (if ic_old_format (fst st) then refresh_old lk st else refresh_new lk st);
           (case res of
              Inl r \<Rightarrow> Some ((r, par), (ic, c))
            | Inr (sq, ss) \<Rightarrow>
                let (r, par, ic) = refresh_parent op par (set_snaps ss ic) in
                if r < 0 then Some ((r, par), (ic, c))
                else if \<not> snapc_is_valid (sq, map fst ss) then Some ((- EIO, par), (ic, c))
                else
                  let ic = ic\<lparr>ic_snapc := \<lparr>sc_seq = sq, sc_snaps = map fst ss\<rparr>\<rparr>;
                      ic = (if ic_snap_id ic \<noteq> CEPH_NOSNAP \<and> get_snap_id ic (ic_snap_name ic) \<noteq> ic_snap_id ic
                            then ic\<lparr>ic_snap_exists := False\<rparr> else ic)
                  in Some ((0, par), (ic\<lparr>ic_last_refresh := refresh_seq\<rparr>, c))) })"

subsection \<open>Opening\<close>

text \<open>The result of the parent's refresh is not looked at.\<close>

definition snap_set_or_unset ::
    "(ImageCtx \<Rightarrow> int + int \<times> string \<times> u64) \<Rightarrow> string \<Rightarrow> open_parent \<Rightarrow> ImageCtx \<Rightarrow> int \<times> open_parent \<times> ImageCtx" where
  "snap_set_or_unset op snap_name par ic =
     (let (r, ic) = (if snap_name \<noteq> [] then snap_set snap_name ic else (0, snap_unset ic)) in
      if r < 0 then (r, par, ic)
      else let (_, par, ic) = refresh_parent op par ic in (0, par, ic))"

text \<open>
  Closing: the tiering first, then the flush - with no request in flight it has nothing to wait for -,
  the parent - it was opened with success, so its own close returns - and the watch, whose result is
  not looked at. The context is deleted afterwards.
\<close>

definition close_image :: "ImageCtx \<Rightarrow> ImageCtx option" where
  "close_image ic =
     do { ic \<leftarrow> finilize_WHOBBS ic;
          let ic = ic\<lparr>ic_has_parent := False\<rparr>;
          (if ic_watch ic then unregister_watch ic else Some ic) }"

text \<open>
  An error after \<open>init\<close> goes to the label \<open>err_close\<close>: close the image, return the error. The result of
  the watch is the argument \<open>wr\<close>.
\<close>

definition err_close :: "int \<Rightarrow> snap_state \<Rightarrow> ((int \<times> open_parent) \<times> snap_state) option" where
  "err_close r st = (case st of (ic, c) \<Rightarrow> do { ic \<leftarrow> close_image ic; Some ((r, None), (ic, c)) })"

definition open_rest ::
    "lock_class \<Rightarrow> (ImageCtx \<Rightarrow> int + int \<times> string \<times> u64) \<Rightarrow> snap_state \<Rightarrow> ((int \<times> open_parent) \<times> snap_state) option" where
  "open_rest lk op st =
     do { ((r, par), (ic, c)) \<leftarrow> ictx_refresh lk op None st;
          if r < 0 then err_close r (ic, c)
          else
            let (r, par, ic) = snap_set_or_unset op (ic_snap_name ic) par ic in
            if r < 0 then err_close r (ic, c)
            else Some ((0, par), (initialize_WHOBBS ic, c)) }"

definition open_image ::
    "lock_class \<Rightarrow> (ImageCtx \<Rightarrow> int + int \<times> string \<times> u64) \<Rightarrow> int \<Rightarrow> snap_state \<Rightarrow>
     ((int \<times> open_parent) \<times> snap_state) option" where
  "open_image lk op wr st =
     (case st of (ic, c) \<Rightarrow>
      do { ((r, ic), c) \<leftarrow> on_pool (md_ctx ic DEFAULT_POOL) (image_init ic) c;
           if r < 0 then Some ((r, None), (ic, c))
           else
      do { (r, ic) \<leftarrow> (if ic_read_only ic then Some (0, ic) else register_watch wr ic);
           if r < 0 then err_close r (ic, c) else open_rest lk op (ic, c) }})"

subsection \<open>What is read of a header\<close>

definition info_of :: "cls_rbd_parent \<Rightarrow> parent_info" where
  "info_of p = \<lparr>pi_spec = \<lparr>ps_pool_id = sint (cp_pool p), ps_image_id = cp_id p, ps_snap_id = cp_snapid p\<rparr>, pi_overlap = cp_overlap p\<rparr>"

definition md_read :: "header \<Rightarrow> mutable_md" where
  "md_read hdr = \<lparr>md_size = h_size hdr, md_features = h_features hdr,
     md_incompatible = h_features hdr AND RBD_FEATURES_INCOMPATIBLE,
     md_snapc = (h_seq hdr, rev (map fst (h_snaps hdr))), md_parent = info_of (seen_parent hdr CEPH_NOSNAP)\<rparr>"

definition fields_of :: "header \<Rightarrow> u64 \<times> cls_rbd_snap \<Rightarrow> snap_fields" where
  "fields_of hdr e = (case e of (i, s) \<Rightarrow>
     (i, cs_name s, cs_image_size s, cs_features s, info_of (seen_parent hdr i), cs_protection_status s))"

text \<open>An object without locks: the lock class answers and its answer is decoded.\<close>

definition lock_free :: "lock_class \<Rightarrow> bool" where
  "lock_free lk \<longleftrightarrow> (\<forall>obs. \<exists>out. cls_call (lk_get_info lk) (lk_request lk) obs = Some (0, out, obs) \<and> \<not> lk_finish lk out < 0)"

lemma decode_into_simps [simp]:
  "decode_into decode_u8 f (Some (encode_u8 a @ p), m) = (Some p, f a m)"
  "decode_into decode_u64 g (Some (encode_u64 x @ p), m) = (Some p, g x m)"
  "short s \<Longrightarrow> decode_into decode_string h (Some (encode_string s @ p), m) = (Some p, h s m)"
  by (simp_all add: decode_into_def c8.dec_enc c64.dec_enc cstr.dec_enc)

lemma decode_into_snapc:
  assumes "short ids"
  shows "decode_into decode_snapc f (Some (encode_u64 sq @ encode_ids ids @ p), m) = (Some p, f (sq, ids) m)"
proof -
  have "unat (of_nat (length ids) :: u32) = length ids" using assms by (rule unat_short)
  then show ?thesis
    by (simp add: decode_into_def decode_snapc_def decode_pair_def encode_ids_def c64.dec_enc c32.dec_enc decode_ids_enc)
qed

lemma client_mutable_metadata:
  assumes "reprs hdr (p oid)" "header_ok hdr" "short (h_snaps hdr)" "lock_free lk"
  shows "cl_get_mutable_metadata lk oid m ([], p) = Some ((0, md_read hdr), ([], p))"
proof -
  let ?ids = "rev (map fst (h_snaps hdr))" and ?p = "seen_parent hdr CEPH_NOSNAP"
  obtain out where lk: "cls_call (lk_get_info lk) (lk_request lk) (p oid) = Some (0, out, p oid)" "\<not> lk_finish lk out < 0"
    using assms(4) by (auto simp: lock_free_def)
  have snapc: "cls_call rbd_get_snapcontext [] (p oid) = Some (0, encode_u64 (h_seq hdr) @ encode_ids ?ids, p oid)"
    using snapcontext_ids [of hdr "\<lparr>hc_stored = p oid, hc_new = p oid\<rparr>"] read_fields(4) [of hdr "\<lparr>hc_stored = p oid, hc_new = p oid\<rparr>"]
      assms(1,2) by (simp add: cls_call_def rbd_get_snapcontext_def)
  note q = header_queries [OF assms(1,2), of CEPH_NOSNAP]
  have calls: "cls_call rbd_get_size (encode_u64 CEPH_NOSNAP) (p oid) = Some (0, encode_u8 (h_order hdr) @ encode_u64 (h_size hdr), p oid)"
    "cls_call rbd_get_features (encode_u64 CEPH_NOSNAP) (p oid) =
       Some (0, encode_u64 (h_features hdr) @ encode_u64 (h_features hdr AND RBD_FEATURES_INCOMPATIBLE), p oid)"
    "cls_call rbd_get_parent (encode_u64 CEPH_NOSNAP) (p oid) = Some (0, parent_fields ?p, p oid)"
    using q by (simp_all add: seen_size_def seen_features_def)
  have "short (cp_id ?p)" using seen_parent_fits [OF assms(2), of CEPH_NOSNAP] by (simp add: parent_fits_def small_short)
  moreover have "short ?ids" using assms(3) by (simp add: short_def)
  ultimately have "decode_mutable (Some (encode_u8 (h_order hdr) @ encode_u64 (h_size hdr) @ encode_u64 (h_features hdr) @
      encode_u64 (h_features hdr AND RBD_FEATURES_INCOMPATIBLE) @ encode_u64 (h_seq hdr) @ encode_ids ?ids @ parent_fields ?p @ out), m)
      = (Some out, md_read hdr)"
    by (simp add: decode_mutable_def Let_def decode_into_snapc parent_fields_def set_parent_fields_def md_read_def info_of_def)
  then show ?thesis
    using lk by (simp add: cl_get_mutable_metadata_def io_operate_read_def request_def rados_calls_def calls snapc fun_upd_idem Let_def)
qed

lemma new_fields_read: "new_fields i (snap_answer_of order hdr i s) = fields_of hdr (i, s)"
  by (simp add: new_fields_def snap_answer_of_def fields_of_def info_of_def Let_def)

lemma new_fields_all: "map2 new_fields (map fst xs) (map (\<lambda>(i, s). snap_answer_of order hdr i s) xs) = map (fields_of hdr) xs"
  by (induction xs) (auto simp: new_fields_read)

lemma all_supported: "md_incompatible (md_read hdr) AND NOT RBD_FEATURES_ALL = 0"
  by (simp add: md_read_def rbd_consts and.assoc)

lemma refresh_new_reads:
  assumes "reprs hdr (cl (md_ctx ic DEFAULT_POOL) (ic_header_oid ic))" "header_ok hdr" "short (h_snaps hdr)" "lock_free lk"
  shows "refresh_new lk (ic, ([], cl)) =
     Some (Inr (h_seq hdr, map (fields_of hdr) (rev (h_snaps hdr))), (with_md (md_read hdr) ic, ([], cl)))"
proof -
  let ?p = "cl (md_ctx ic DEFAULT_POOL)" and ?o = "ic_header_oid ic"
  note md = client_mutable_metadata [where p = ?p and oid = ?o, OF assms]
    client_snapshot_list [where p = ?p and oid = ?o, OF assms(1,2)]
  have w: "md_ctx (with_md m ic) pool = md_ctx ic pool" "ic_header_oid (with_md m ic) = ?o" for m pool
    by (simp_all add: with_md_def md_ctx_def data_ctx_def)
  have "map2 new_fields (rev (map fst (h_snaps hdr))) (map (\<lambda>(i, s). snap_answer_of (h_order hdr) hdr i s) (rev (h_snaps hdr)))
      = map (fields_of hdr) (rev (h_snaps hdr))"
    using new_fields_all [of "rev (h_snaps hdr)" "h_order hdr" hdr] by (simp add: rev_map)
  moreover have "snd (md_snapc (md_read hdr)) = rev (map fst (h_snaps hdr))" "fst (md_snapc (md_read hdr)) = h_seq hdr"
    by (simp_all add: md_read_def)
  ultimately show ?thesis
    by (subst refresh_new.simps) (simp add: on_md_def on_pool_def md w Let_def all_supported fun_upd_idem)
qed

text \<open>The snapshots of the context.\<close>

definition snap_info :: "header \<Rightarrow> u64 \<Rightarrow> cls_rbd_snap \<Rightarrow> SnapInfo" where
  "snap_info hdr i s = \<lparr>si_id = i, si_size = cs_image_size s, si_features = cs_features s,
     si_parent = info_of (seen_parent hdr i), si_protection_status = cs_protection_status s\<rparr>"

lemma add_fields_read: "add_fields (fields_of hdr (i, s)) ic =
    ic\<lparr>ic_snaps := ic_snaps ic @ [i], ic_snaps_by_name := smap_insert (cs_name s) (snap_info hdr i s) (ic_snaps_by_name ic)\<rparr>"
  by (simp add: add_fields_def fields_of_def add_snap_def snap_info_def)

definition names_read :: "header \<Rightarrow> (u64 \<times> cls_rbd_snap) list \<Rightarrow> (string, SnapInfo) smap \<Rightarrow> (string, SnapInfo) smap" where
  "names_read hdr xs m = fold (\<lambda>(i, s). smap_insert (cs_name s) (snap_info hdr i s)) xs m"

lemma fold_add_fields:
  "fold add_fields (map (fields_of hdr) xs) ic =
     ic\<lparr>ic_snaps := ic_snaps ic @ map fst xs, ic_snaps_by_name := names_read hdr xs (ic_snaps_by_name ic)\<rparr>"
  by (induction xs arbitrary: ic) (auto simp: names_read_def add_fields_read)

lemma names_read_ok:
  assumes "smap_ok m"
  shows "smap_ok (names_read hdr xs m)"
  using assms by (induction xs arbitrary: m) (auto simp: names_read_def)

lemma names_read_other:
  assumes "smap_ok m" "n \<notin> (\<lambda>e. cs_name (snd e)) ` set xs"
  shows "map_of (names_read hdr xs m) n = map_of m n"
  using assms by (induction xs arbitrary: m) (auto simp: names_read_def map_of_smap_insert)

lemma names_read_lookup:
  assumes "smap_ok m" "distinct (map (\<lambda>e. cs_name (snd e)) xs)" "(i, s) \<in> set xs" "map_of m (cs_name s) = None"
  shows "map_of (names_read hdr xs m) (cs_name s) = Some (snap_info hdr i s)"
  using assms
proof (induction xs arbitrary: m)
  case Nil
  then show ?case by simp
next
  case (Cons e xs)
  obtain j t where e: "e = (j, t)" by fastforce
  let ?m = "smap_insert (cs_name t) (snap_info hdr j t) m"
  have m: "smap_ok ?m" using Cons.prems(1) by simp
  have step: "names_read hdr (e # xs) m = names_read hdr xs ?m" by (simp add: names_read_def e)
  show ?case
  proof (cases "(i, s) = e")
    case True
    then have "cs_name s \<notin> (\<lambda>e. cs_name (snd e)) ` set xs" using Cons.prems(2) by (simp add: e)
    from names_read_other [OF m this, of hdr] show ?thesis
      unfolding step using True Cons.prems(1,4) by (simp add: e map_of_smap_insert)
  next
    case False
    then have "(i, s) \<in> set xs" using Cons.prems(3) by simp
    moreover from this have "cs_name t \<noteq> cs_name s" using Cons.prems(2) by (force simp: e)
    then have "map_of ?m (cs_name s) = None" using Cons.prems(1,4) by (simp add: map_of_smap_insert)
    ultimately show ?thesis unfolding step using Cons.IH [OF m] Cons.prems(2) by simp
  qed
qed

subsection \<open>The context after a refresh\<close>

definition read_context :: "header \<Rightarrow> ImageCtx \<Rightarrow> ImageCtx" where
  "read_context hdr ic = set_snaps (map (fields_of hdr) (rev (h_snaps hdr))) (with_md (md_read hdr) ic)"

lemma read_context_eq: "read_context hdr ic =
    ic\<lparr>ic_size := h_size hdr, ic_features := h_features hdr, ic_parent_md := info_of (seen_parent hdr CEPH_NOSNAP),
       ic_snaps := rev (map fst (h_snaps hdr)), ic_snaps_by_name := names_read hdr (rev (h_snaps hdr)) []\<rparr>"
  by (simp only: read_context_def set_snaps_def fold_add_fields) (simp add: with_md_def md_read_def rev_map)

lemma refresh_parent_frame: "refresh_parent op par ic = (r, par', ic') \<Longrightarrow> \<exists>b. ic' = ic\<lparr>ic_has_parent := b\<rparr>"
  by (auto simp: refresh_parent_def Let_def intro: exI [of _ "ic_has_parent ic"] split: option.splits sum.splits if_splits)

lemma context_snapc_valid:
  assumes "header_ok hdr" "h_seq hdr \<le> CEPH_MAXSNAP"
  shows "snapc_is_valid (h_seq hdr, rev (map fst (h_snaps hdr)))"
proof -
  let ?ids = "rev (map fst (h_snaps hdr))"
  have "sorted_wrt (>) ?ids" using assms(1) by (simp add: header_ok_def smap_ok_def sorted_wrt_rev)
  moreover have "\<forall>i \<in> set ?ids. i \<le> h_seq hdr" using assms(1) by (auto simp: header_ok_def snap_entry_ok_def)
  ultimately show ?thesis
    using assms(2) sorted_descends [of ?ids] by (cases ?ids) (simp_all add: snapc_is_valid_def)
qed

definition finish_refresh :: "header \<Rightarrow> int \<Rightarrow> ImageCtx \<Rightarrow> ImageCtx" where
  "finish_refresh hdr sq ic =
     (let ic = ic\<lparr>ic_snapc := \<lparr>sc_seq = h_seq hdr, sc_snaps = rev (map fst (h_snaps hdr))\<rparr>\<rparr>;
          ic = (if ic_snap_id ic \<noteq> CEPH_NOSNAP \<and> get_snap_id ic (ic_snap_name ic) \<noteq> ic_snap_id ic
                then ic\<lparr>ic_snap_exists := False\<rparr> else ic)
      in ic\<lparr>ic_last_refresh := sq\<rparr>)"

lemma refresh_run:
  assumes "reprs hdr (cl (md_ctx ic DEFAULT_POOL) (ic_header_oid ic))" "header_ok hdr" "short (h_snaps hdr)"
    "h_seq hdr \<le> CEPH_MAXSNAP" "lock_free lk" "\<not> ic_old_format ic"
  shows "ictx_refresh lk op par (ic, ([], cl)) =
     Some (case refresh_parent op par (read_context hdr ic) of (r, par', ic') \<Rightarrow>
        if r < 0 then ((r, par'), (ic', ([], cl)))
        else ((0, par'), (finish_refresh hdr (ic_refresh_seq ic) ic', ([], cl))))"
proof -
  have "map fst (map (fields_of hdr) (rev (h_snaps hdr))) = rev (map fst (h_snaps hdr))"
    by (auto simp: fields_of_def rev_map)
  then show ?thesis
    using refresh_new_reads [where cl = cl and ic = ic, OF assms(1-3,5)] context_snapc_valid [OF assms(2,4)] assms(6)
    by (simp add: ictx_refresh_def Let_def read_context_def [symmetric] finish_refresh_def split: prod.split)
qed

lemma seen_no_parent: "h_parent hdr = None \<Longrightarrow> seen_parent hdr CEPH_NOSNAP = new_cls_rbd_parent"
  by (simp add: seen_parent_def)

lemma refresh_no_parent:
  assumes "h_parent hdr = None" "ic_snap_id ic = CEPH_NOSNAP"
  shows "refresh_parent op None (read_context hdr ic) = (0, None, (read_context hdr ic)\<lparr>ic_has_parent := False\<rparr>)"
  using assms
  by (simp add: refresh_parent_def get_parent_pool_id_def read_context_eq seen_no_parent info_of_def new_cls_rbd_parent_def)

text \<open>C28. A refresh makes the context agree with the header object: size, features, parent and snapshots are
  those of the header, each snapshot is found under its name with its id, size, features, parent and
  protection, and no other name is found. This holds even when the parent cannot be opened, which is the
  only error left; otherwise the snapshot context is the header's and the context counts as fresh.\<close>

theorem refresh_reads_header:
  assumes "reprs hdr (cl (md_ctx ic DEFAULT_POOL) (ic_header_oid ic))" "header_ok hdr" "short (h_snaps hdr)"
    "h_seq hdr \<le> CEPH_MAXSNAP" "lock_free lk" "\<not> ic_old_format ic"
  shows "\<exists>r par' ic'. ictx_refresh lk op par (ic, ([], cl)) = Some ((r, par'), (ic', ([], cl)))
    \<and> ic_size ic' = h_size hdr \<and> ic_features ic' = h_features hdr
    \<and> ic_parent_md ic' = info_of (seen_parent hdr CEPH_NOSNAP) \<and> ic_snaps ic' = rev (map fst (h_snaps hdr))
    \<and> (\<forall>(i, s) \<in> set (h_snaps hdr). map_of (ic_snaps_by_name ic') (cs_name s) = Some (snap_info hdr i s))
    \<and> (\<forall>n. n \<notin> (\<lambda>e. cs_name (snd e)) ` set (h_snaps hdr) \<longrightarrow> map_of (ic_snaps_by_name ic') n = None)
    \<and> (\<not> r < 0 \<longrightarrow> r = 0 \<and> ic_snapc ic' = \<lparr>sc_seq = h_seq hdr, sc_snaps = rev (map fst (h_snaps hdr))\<rparr>
         \<and> ic_last_refresh ic' = ic_refresh_seq ic)
    \<and> (par = None \<and> h_parent hdr = None \<and> ic_snap_id ic = CEPH_NOSNAP \<longrightarrow> r = 0 \<and> \<not> ic_has_parent ic')"
proof -
  let ?ic = "read_context hdr ic"
  obtain r par1 ic1 where p: "refresh_parent op par ?ic = (r, par1, ic1)" by (metis prod_cases3)
  obtain b where b: "ic1 = ?ic\<lparr>ic_has_parent := b\<rparr>" using refresh_parent_frame [OF p] by blast
  define m where "m = names_read hdr (rev (h_snaps hdr)) []"
  define ic2 where "ic2 = (if r < 0 then ic1 else finish_refresh hdr (ic_refresh_seq ic) ic1)"
  have d: "distinct (map (\<lambda>e. cs_name (snd e)) (rev (h_snaps hdr)))"
    using assms(2) by (simp add: header_ok_def rev_map [symmetric])
  have run: "ictx_refresh lk op par (ic, ([], cl)) = Some ((if r < 0 then r else 0, par1), (ic2, ([], cl)))"
    by (simp add: refresh_run [where cl = cl and ic = ic, OF assms] p ic2_def)
  have fields: "ic_size ic2 = h_size hdr" "ic_features ic2 = h_features hdr" "ic_has_parent ic2 = b"
    "ic_parent_md ic2 = info_of (seen_parent hdr CEPH_NOSNAP)" "ic_snaps ic2 = rev (map fst (h_snaps hdr))"
    "ic_snaps_by_name ic2 = m"
    by (simp_all add: ic2_def b read_context_eq finish_refresh_def Let_def m_def)
  have found: "\<forall>(i, s) \<in> set (h_snaps hdr). map_of (ic_snaps_by_name ic2) (cs_name s) = Some (snap_info hdr i s)"
    using names_read_lookup [OF smap_ok_Nil d] by (auto simp: fields m_def)
  have other: "\<forall>n. n \<notin> (\<lambda>e. cs_name (snd e)) ` set (h_snaps hdr) \<longrightarrow> map_of (ic_snaps_by_name ic2) n = None"
    using names_read_other [OF smap_ok_Nil, of _ "rev (h_snaps hdr)" hdr] by (simp add: fields m_def)
  have fresh: "\<not> r < 0 \<Longrightarrow> ic_snapc ic2 = \<lparr>sc_seq = h_seq hdr, sc_snaps = rev (map fst (h_snaps hdr))\<rparr> \<and> ic_last_refresh ic2 = ic_refresh_seq ic"
    by (simp add: ic2_def finish_refresh_def Let_def)
  have none: "r = 0 \<and> \<not> b" if "par = None \<and> h_parent hdr = None \<and> ic_snap_id ic = CEPH_NOSNAP"
  proof -
    have "r = 0" "ic1 = ?ic\<lparr>ic_has_parent := False\<rparr>" using refresh_no_parent [of hdr ic op] p that by simp_all
    moreover have "ic_has_parent ic1 = b" by (simp add: b)
    ultimately show ?thesis by simp
  qed
  show ?thesis
    by (intro exI [of _ "if r < 0 then r else 0"] exI [of _ par1] exI [of _ ic2] conjI run fields found other)
      (use fresh none in \<open>auto simp: fields\<close>)
qed

text \<open>An object without extended attributes has no locks: what the lock class answers is decoded to that.\<close>

definition no_locks :: lock_class where
  "no_locks = \<lparr>lk_get_info = \<lambda>inp h. Some (0, [1], h), lk_request = [], lk_finish = \<lambda>p. if p = [1] then 0 else - EBADMSG\<rparr>"

lemma no_locks_free: "lock_free no_locks"
  by (simp add: lock_free_def no_locks_def cls_call_def)

lemma two_snapshots:
  obtains hdr obs where "reprs hdr obs" "header_ok hdr" "h_size hdr = 65536" "h_seq hdr = 7" "h_parent hdr = None"
    "map (\<lambda>(i, s). (i, cs_name s)) (h_snaps hdr) = [(3, ''a''), (7, ''b'')]"
proof -
  let ?c = "created 65536 22 1 ''rb.1''" and ?cs = "[SnapAdd ''a'' 3, SnapAdd ''b'' 7]"
  obtain obs0 where r: "reprs ?c obs0"
    using create_reprs [of 1 "''rb.1''" None 65536 22]
    by (auto simp: RBD_FEATURES_ALL_def RBD_FEATURE_LAYERING_def RBD_FEATURE_STRIPINGV2_def small_string_def omap_of_def)
  have ok: "header_ok ?c" by (rule created_ok) (simp add: small_string_def)
  have fit: "\<forall>c \<in> set ?cs. call_fits c" by (simp add: small_string_def)
  obtain rs obs hdr where h: "header_steps ?cs ?c = (rs, hdr)" "reprs hdr obs" "header_ok hdr"
    using header_history [OF r ok fit] by blast
  have "h_size hdr = 65536" "h_seq hdr = 7" "h_parent hdr = None"
    "map (\<lambda>(i, s). (i, cs_name s)) (h_snaps hdr) = [(3, ''a''), (7, ''b'')]"
    using h(1) by (auto simp: created_def header_step_def CEPH_MAXSNAP_def)
  with h(2,3) show ?thesis by (rule that)
qed

lemma refresh_reads_header_witness:
  "\<exists>cl ic'. ictx_refresh no_locks (\<lambda>_. Inl (- ENOENT)) None (image_9M, ([], cl)) = Some ((0, None), (ic', ([], cl)))
    \<and> ic_size ic' = 65536 \<and> ic_snaps ic' = [7, 3] \<and> get_snap_id ic' ''b'' = 7 \<and> get_snap_id ic' ''c'' = CEPH_NOSNAP"
proof -
  obtain hdr obs where h: "reprs hdr obs" "header_ok hdr" "h_size hdr = 65536" "h_seq hdr = 7" "h_parent hdr = None"
    "map (\<lambda>(i, s). (i, cs_name s)) (h_snaps hdr) = [(3, ''a''), (7, ''b'')]" by (rule two_snapshots)
  then obtain s t where sn: "h_snaps hdr = [(3, s), (7, t)]" "cs_name s = ''a''" "cs_name t = ''b''" by auto
  define cl :: cluster where "cl = (\<lambda>pid oid. obs)"
  have a: "reprs hdr (cl (md_ctx image_9M DEFAULT_POOL) (ic_header_oid image_9M))" "short (h_snaps hdr)"
    "h_seq hdr \<le> CEPH_MAXSNAP" "\<not> ic_old_format image_9M"
    using h(1,4) by (simp_all add: cl_def sn(1) short_def CEPH_MAXSNAP_def image_9M_def)
  have n: "ic_snap_id image_9M = CEPH_NOSNAP" by (simp add: image_9M_def)
  obtain r par' ic' where c: "ictx_refresh no_locks (\<lambda>_. Inl (- ENOENT)) None (image_9M, ([], cl)) = Some ((r, par'), (ic', ([], cl)))"
    "ic_size ic' = h_size hdr" "ic_snaps ic' = rev (map fst (h_snaps hdr))"
    "\<forall>(i, s) \<in> set (h_snaps hdr). map_of (ic_snaps_by_name ic') (cs_name s) = Some (snap_info hdr i s)"
    "\<forall>n. n \<notin> (\<lambda>e. cs_name (snd e)) ` set (h_snaps hdr) \<longrightarrow> map_of (ic_snaps_by_name ic') n = None" "r = 0"
    using refresh_reads_header [where cl = cl and op = "\<lambda>_. Inl (- ENOENT)" and par = None,
      OF a(1) h(2) a(2,3) no_locks_free a(4)] h(5) n by blast
  have "map_of (ic_snaps_by_name ic') ''b'' = Some (snap_info hdr 7 t)" using c(4) by (simp add: sn)
  then have "get_snap_id ic' ''b'' = 7" by (simp add: get_snap_id_def snap_info_def)
  moreover have "map_of (ic_snaps_by_name ic') ''c'' = None" using c(5) by (simp add: sn)
  then have "get_snap_id ic' ''c'' = CEPH_NOSNAP" by (simp add: get_snap_id_def)
  moreover have "par' = None" using c(1,6) refresh_run [where cl = cl and op = "\<lambda>_. Inl (- ENOENT)" and par = None,
      OF a(1) h(2) a(2,3) no_locks_free a(4)] refresh_no_parent [OF h(5) n] by simp
  ultimately show ?thesis using c h(3) by (intro exI [of _ cl] exI [of _ ic']) (simp add: sn)
qed

subsection \<open>Opening an image\<close>

text \<open>The image \<open>name\<close> of a pool, with the id \<open>i\<close> and a header object that encodes \<open>hdr\<close>.\<close>

definition image_at :: "pool \<Rightarrow> string \<Rightarrow> string \<Rightarrow> header \<Rightarrow> bool" where
  "image_at q name i hdr \<longleftrightarrow> q (id_obj_name name) = Some (id_object i) \<and> small_string i \<and> q (old_header_name name) = None
     \<and> reprs hdr (q (header_name i)) \<and> header_ok hdr \<and> short (h_snaps hdr) \<and> h_seq hdr \<le> CEPH_MAXSNAP"

definition init_image :: "header \<Rightarrow> string \<Rightarrow> ImageCtx \<Rightarrow> ImageCtx" where
  "init_image hdr i ic = init_layout (of_int (data_ctx ic DEFAULT_POOL)) (found_image hdr i ic)"

lemma init_image_simps [simp]:
  "md_ctx (init_image hdr i ic) pool = md_ctx ic pool" "ic_header_oid (init_image hdr i ic) = header_name i"
  "ic_snap_name (init_image hdr i ic) = ic_snap_name ic" "ic_snap_id (init_image hdr i ic) = ic_snap_id ic"
  "ic_old_format (init_image hdr i ic) = False" "ic_read_only (init_image hdr i ic) = ic_read_only ic"
  "ic_watch (init_image hdr i ic) = ic_watch ic" "ic_refresh_seq (init_image hdr i ic) = ic_refresh_seq ic"
  "ic_extent_map (init_image hdr i ic) = ic_extent_map ic" "ic_snap_exists (init_image hdr i ic) = ic_snap_exists ic"
  "ic_hdd_id (init_image hdr i ic) = ic_hdd_id ic" "ic_ssd_id (init_image hdr i ic) = ic_ssd_id ic"
  "ic_migrater_set (init_image hdr i ic) = ic_migrater_set ic"
  by (simp_all add: init_image_def init_layout_def found_image_def md_ctx_def data_ctx_def Let_def)

lemma md_ctx_updates [simp]:
  "md_ctx (ic\<lparr>ic_watch := b\<rparr>) pool = md_ctx ic pool"
  by (simp add: md_ctx_def data_ctx_def)

lemma init_found:
  assumes "image_at (cl (md_ctx ic DEFAULT_POOL)) (ic_name ic) i hdr" "ic_id ic = []"
  shows "on_pool (md_ctx ic DEFAULT_POOL) (image_init ic) ([], cl) = Some ((0, init_image hdr i ic), ([], cl))"
proof -
  have q: "cl (md_ctx ic DEFAULT_POOL) (id_obj_name (ic_name ic)) = Some (id_object i)" "small_string i"
    "cl (md_ctx ic DEFAULT_POOL) (old_header_name (ic_name ic)) = None"
    "reprs hdr (cl (md_ctx ic DEFAULT_POOL) (header_name i))" "header_ok hdr"
    using assms(1) by (simp_all add: image_at_def)
  show ?thesis
    by (simp add: on_pool_def init_image_def image_init_new [where q = "cl (md_ctx ic DEFAULT_POOL)", OF q(1,2) assms(2) q(3,4,5)])
qed

lemma refresh_found:
  assumes "image_at (cl (md_ctx ic DEFAULT_POOL)) name i hdr" "lock_free lk" "ic_header_oid ic = header_name i" "\<not> ic_old_format ic"
  shows "ictx_refresh lk op par (ic, ([], cl)) =
     Some (case refresh_parent op par (read_context hdr ic) of (r, par', ic') \<Rightarrow>
        if r < 0 then ((r, par'), (ic', ([], cl)))
        else ((0, par'), (finish_refresh hdr (ic_refresh_seq ic) ic', ([], cl))))"
  using assms by (intro refresh_run) (simp_all add: image_at_def)

lemma read_context_keeps:
  "ic_snap_name (finish_refresh hdr sq ((read_context hdr ic)\<lparr>ic_has_parent := b\<rparr>)) = ic_snap_name ic"
  "ic_snaps_by_name (finish_refresh hdr sq ((read_context hdr ic)\<lparr>ic_has_parent := b\<rparr>)) = names_read hdr (rev (h_snaps hdr)) []"
  "ic_size (finish_refresh hdr sq ((read_context hdr ic)\<lparr>ic_has_parent := b\<rparr>)) = h_size hdr"
  "ic_migrater_set (finish_refresh hdr sq ((read_context hdr ic)\<lparr>ic_has_parent := b\<rparr>)) = ic_migrater_set ic"
  "ic_migrater_set (read_context hdr ic) = ic_migrater_set ic"
  by (simp_all add: finish_refresh_def Let_def read_context_eq)










text \<open>The context of an image without parent that was opened at its head.\<close>

definition opened :: "header \<Rightarrow> string \<Rightarrow> ImageCtx \<Rightarrow> ImageCtx" where
  "opened hdr i ic =
     (let ic1 = (init_image hdr i ic)\<lparr>ic_watch := ic_watch ic \<or> \<not> ic_read_only ic\<rparr>;
          ic2 = finish_refresh hdr (ic_refresh_seq ic) ((read_context hdr ic1)\<lparr>ic_has_parent := False\<rparr>)
      in (snap_unset ic2)\<lparr>ic_has_parent := False\<rparr>)"

lemma open_found:
  assumes "image_at (cl (md_ctx ic DEFAULT_POOL)) (ic_name ic) i hdr" "lock_free lk" "ic_id ic = []" "ic_snap_name ic = []"
    "ic_snap_id ic = CEPH_NOSNAP" "h_parent hdr = None" "\<not> ic_watch ic" "\<not> wr < 0"
  shows "open_image lk op wr (ic, ([], cl)) = Some ((0, None), (initialize_WHOBBS (opened hdr i ic), ([], cl)))"
proof -
  let ?ic = "(init_image hdr i ic)\<lparr>ic_watch := ic_watch ic \<or> \<not> ic_read_only ic\<rparr>"
  let ?ic2 = "finish_refresh hdr (ic_refresh_seq ic) ((read_context hdr ?ic)\<lparr>ic_has_parent := False\<rparr>)"
  have "ic_snap_id ?ic = CEPH_NOSNAP" using assms(5) by simp
  note p = refresh_no_parent [where op = op, OF assms(6) this]
  have "ictx_refresh lk op None (?ic, ([], cl)) = Some ((0, None), (?ic2, ([], cl)))"
    using refresh_found [where cl = cl and ic = ?ic and op = op and par = None, OF _ assms(2)] assms(1) p by simp
  moreover have "get_parent_pool_id ((snap_unset ?ic2)\<lparr>ic_has_parent := False\<rparr>) CEPH_NOSNAP = - 1" "ic_snap_id (snap_unset ?ic2) = CEPH_NOSNAP"
    by (simp_all add: get_parent_pool_id_def snap_unset_def finish_refresh_def Let_def read_context_eq seen_no_parent
        info_of_def new_cls_rbd_parent_def assms(6))
  then have "refresh_parent op None (snap_unset ?ic2) = (0, None, opened hdr i ic)"
    by (simp add: refresh_parent_def opened_def Let_def)
  ultimately have r: "open_rest lk op (?ic, ([], cl)) = Some ((0, None), (initialize_WHOBBS (opened hdr i ic), ([], cl)))"
    using assms(4) by (simp add: open_rest_def read_context_keeps snap_set_or_unset_def)
  have same: "\<not> ic_watch ic \<Longrightarrow> (init_image hdr i ic)\<lparr>ic_watch := False\<rparr> = init_image hdr i ic" by simp
  show ?thesis
    using r assms(7,8) same
    by (cases "ic_read_only ic") (simp_all add: open_image_def init_found [where cl = cl, OF assms(1,3)] register_watch_def)
qed

end
