(* ===== verification/Image_Life.thy ===== *)
theory Image_Life
  imports Image_Refresh
begin

text \<open>
  From \<open>create\<close> through \<open>open_image\<close> to reads and writes: a new image that has been opened is a disk of zeros.
  The requests of a creation leave no truncation behind, which the tiering relies on.
\<close>

subsection \<open>A creation leaves no truncation and no watcher behind\<close>

lemma seq_set_vals: "cls_map_set_vals kvs h = (r, h') \<Longrightarrow> seq_zero (hc_new h) \<Longrightarrow> seq_zero (hc_new h')"
  by (cases "hc_new h") (auto simp: cls_map_set_vals seq_zero_def fresh_object_def)

lemma seq_set_keys: "set_keys kvs h = (r, h') \<Longrightarrow> seq_zero (hc_new h) \<Longrightarrow> seq_zero (hc_new h')"
proof (induction kvs arbitrary: h)
  case Nil
  then show ?case by simp
next
  case (Cons kv kvs)
  then show ?case
    by (cases kv) (auto simp: cls_map_set_val_def split: prod.splits if_splits dest!: seq_set_vals)
qed

lemma seq_cls_create: "cls_create b h = (r, h') \<Longrightarrow> seq_zero (hc_new h) \<Longrightarrow> seq_zero (hc_new h')"
  by (cases "hc_new h") (auto simp: cls_create_def op_create_def seq_zero_def fresh_object_def split: if_splits prod.splits)

text \<open>A method that keeps a property \<open>P\<close> of objects, and a pool all whose objects have it.\<close>

definition keeping :: "(osd_object option \<Rightarrow> bool) \<Rightarrow> cls_method \<Rightarrow> bool" where
  "keeping P meth \<longleftrightarrow> (\<forall>inp h r out h'. meth inp h = Some (r, out, h') \<longrightarrow> P (hc_new h) \<longrightarrow> P (hc_new h'))"

definition everywhere :: "(osd_object option \<Rightarrow> bool) \<Rightarrow> pool \<Rightarrow> bool" where
  "everywhere P p \<longleftrightarrow> (\<forall>oid. P (p oid))"

lemma seq_keeping_methods:
  "keeping seq_zero rbd_create" "keeping seq_zero rbd_set_stripe_unit_count" "keeping seq_zero rbd_dir_add_image"
  unfolding keeping_def rbd_create_def rbd_set_stripe_unit_count_def rbd_dir_add_image_def dir_add_image_helper_def Let_def
  by (auto split: option.splits prod.splits sum.splits if_splits simp del: set_keys.simps
      dest!: seq_set_keys seq_set_vals seq_cls_create)

definition no_watchers :: "osd_object option \<Rightarrow> bool" where
  "no_watchers obs \<longleftrightarrow> watchers obs = 0"

lemma watchers_set_vals: "cls_map_set_vals kvs h = (r, h') \<Longrightarrow> watchers (hc_new h') = watchers (hc_new h)"
  by (cases "hc_new h") (auto simp: cls_map_set_vals watchers_def fresh_object_def)

lemma watchers_cls_create: "cls_create b h = (r, h') \<Longrightarrow> watchers (hc_new h') = watchers (hc_new h)"
  by (cases "hc_new h") (auto simp: cls_create_def op_create_def watchers_def fresh_object_def split: if_splits prod.splits)

lemma no_watchers_keeping_methods:
  "keeping no_watchers rbd_create" "keeping no_watchers rbd_set_stripe_unit_count" "keeping no_watchers rbd_dir_add_image"
  unfolding keeping_def no_watchers_def rbd_create_def rbd_set_stripe_unit_count_def rbd_dir_add_image_def
    dir_add_image_helper_def Let_def
  by (auto split: option.splits prod.splits sum.splits if_splits simp del: set_keys.simps
      dest!: watchers_set_keys watchers_set_vals watchers_cls_create)

lemma call_keeps:
  assumes "io_call oid meth inp (fs, p) = Some (r, (gs, q))" "keeping P meth" "everywhere P p"
  shows "everywhere P q"
proof (cases "fault_of (fs, p) < 0")
  case True
  then show ?thesis using assms(1,3) by (simp add: io_call_def io_exec_def request_def rados_calls_def)
next
  case False
  obtain r' out obs where call: "cls_call meth inp (p oid) = Some (r', out, obs)"
    using assms(1) False by (cases "cls_call meth inp (p oid)") (auto simp: io_call_def io_exec_def request_def rados_calls_def)
  have c: "cls_call meth inp (p oid) = Some (r', out, obs)" "q = (if r' < 0 then p else p(oid := obs))"
    using call assms(1) False io_call_run [where p = p and oid = oid and fs = fs, OF call] by auto
  have "P obs" using c(1) assms(2,3) by (fastforce simp: cls_call_def keeping_def everywhere_def split: option.splits if_splits)
  then show ?thesis using c(2) assms(3) by (simp add: everywhere_def)
qed

lemma err_result:
  "err_remove_id n r st = Some (r', st') \<Longrightarrow> r' = r"
  "err_remove_from_dir n i r st = Some (r', st') \<Longrightarrow> r' = r"
  "err_remove_header n i r st = Some (r', st') \<Longrightarrow> r' = r"
  by (auto simp: err_remove_id_def err_remove_from_dir_def err_remove_header_def bind_eq_Some_conv)

lemma seq_zero_id: "seq_zero (Some (id_object i))"
  by (simp add: seq_zero_def id_object_def fresh_object_def)

lemma create_keeps:
  assumes "create_v2 name bid extra sz order features su sc ([], p) = Some (0, ([], q))" "p (id_obj_name name) = None" "everywhere P p"
    "P (Some (id_object (image_id_of bid extra)))" "keeping P rbd_create" "keeping P rbd_set_stripe_unit_count" "keeping P rbd_dir_add_image"
  shows "everywhere P q"
proof -
  let ?n = "id_obj_name name" and ?i = "image_id_of bid extra"
  let ?p1 = "p(?n := Some fresh_object)" and ?p2 = "p(?n := Some (id_object ?i))"
  note 1 = io_create_run [where p = p and oid = ?n, OF assms(2)]
  have 2: "cl_set_id ?n ?i ([], ?p1) = Some (0, ([], ?p2))" using set_id_step [of ?p1 name bid extra "[]"] by simp
  have p2: "everywhere P ?p2" using assms(3,4) by (simp add: everywhere_def)
  note keep = call_keeps [OF _ assms(7) p2] call_keeps [OF _ assms(5)] call_keeps [OF _ assms(6)]
  obtain p3 p4 gs3 gs4 r3 r4 where
    3: "io_call RBD_DIRECTORY rbd_dir_add_image (dir_args (DirAdd name ?i)) ([], ?p2) = Some (r3, (gs3, p3))" and
    4: "io_call (header_name ?i) rbd_create (create_args sz (of_int order) features (data_prefix ?i)) (gs3, p3) = Some (r4, (gs4, p4))" and
    5: "q = p4 \<or> (\<exists>gs r. io_call (header_name ?i) rbd_set_stripe_unit_count (call_args (SetStripe su sc)) (gs4, p4) = Some (r, (gs, q)))"
    using assms(1)
    by (auto simp: create_v2_def Let_def 1 2 bind_eq_Some_conv cl_dir_add_image_def cl_create_image_def cl_set_stripe_unit_count_def
        split: if_splits dest!: err_result)
  show ?thesis using keep(1) [OF 3] keep(2) [OF 4] keep(3) 5 by blast
qed

subsection \<open>A new image, opened\<close>

definition data_objects :: "string \<Rightarrow> object_format" where
  "data_objects i = \<lparr>fmt_prefix = data_prefix i, fmt_width = 16\<rparr>"

lemma data_object_names:
  "format_oid (data_objects i) num \<noteq> RBD_DIRECTORY" "format_oid (data_objects i) num \<noteq> id_obj_name name"
  "format_oid (data_objects i) num \<noteq> header_name j"
  by (simp_all add: format_oid_def data_objects_def data_prefix_def RBD_DIRECTORY_def id_obj_name_def header_name_def)

lemma no_data_objects:
  assumes "image_created p d name i hdr q" "p (format_oid (data_objects i) num) = None"
  shows "q (format_oid (data_objects i) num) = None"
  using assms data_object_names [of i num] by (simp add: image_created_def)

lemma initialize_new:
  "em_map (ic_extent_map ic) = [] \<Longrightarrow> initialize_WHOBBS ic = reopened ic"
  by (simp add: initialize_WHOBBS_def reopened_def)

text \<open>The context of a new image of 4 MB objects.\<close>

lemma opened_plain:
  assumes "lacks hdr RBD_FEATURE_STRIPINGV2" "h_order hdr = 22" "h_prefix hdr = data_prefix i" "h_parent hdr = None"
    and ic: "ic = opened hdr i (new_ImageCtx rbd_cache rc mem name [] None hdd ssd False)"
  shows "layout_plain (ic_layout ic)" "lo_os (ic_layout ic) = OBJECT_SIZE" "ic_hdd_id ic = hdd" "ic_ssd_id ic = ssd"
    "ic_size ic = h_size hdr" "ic_format_string ic = data_objects i" "serving ic" "ic_extent_map ic = ic_extent_map mem"
    "ic_id ic = i" "ic_header_oid ic = header_name i" "\<not> ic_old_format ic" "ic_snaps ic = rev (map fst (h_snaps hdr))"
    "ic_parent_md ic = no_parent" "get_stripe_period ic = OBJECT_SIZE" "ic_stripe_count ic = 1"
proof -
  note ctx = ic opened_def Let_def snap_unset_def finish_refresh_def read_context_eq init_image_def init_layout_def
    found_image_def new_ImageCtx_def
  show "layout_plain (ic_layout ic)" "lo_os (ic_layout ic) = OBJECT_SIZE"
    by (simp_all add: ctx assms(1-4) layout_plain_def OBJECT_SIZE_def)
  show "ic_hdd_id ic = hdd" "ic_ssd_id ic = ssd" "ic_size ic = h_size hdr" "ic_format_string ic = data_objects i"
    "ic_extent_map ic = ic_extent_map mem" "ic_id ic = i" "ic_header_oid ic = header_name i" "\<not> ic_old_format ic"
    "ic_snaps ic = rev (map fst (h_snaps hdr))" "get_stripe_period ic = OBJECT_SIZE" "ic_stripe_count ic = 1"
    by (simp_all add: ctx assms(1-4) data_objects_def get_stripe_period_def OBJECT_SIZE_def)
  show "ic_parent_md ic = no_parent"
    by (simp add: ctx assms(1-4) seen_no_parent info_of_def new_cls_rbd_parent_def no_parent_def)
  show "serving ic"
    by (simp add: serving_def) (simp add: ctx assms(1-4) seen_no_parent info_of_def new_cls_rbd_parent_def)
qed

lemma new_header_plain:
  assumes "features AND RBD_FEATURE_STRIPINGV2 = 0" "hdr = new_header sz 22 features i 0 0"
  shows "lacks hdr RBD_FEATURE_STRIPINGV2" "h_order hdr = 22" "h_prefix hdr = data_prefix i" "h_parent hdr = None"
    "h_size hdr = sz" "h_snaps hdr = []" "h_seq hdr = 0" "h_features hdr = features" "hdr = created sz 22 features (data_prefix i)"
proof -
  show hdr: "hdr = created sz 22 features (data_prefix i)"
    by (simp add: assms(2) new_header_def wants_striping_def)
  show "lacks hdr RBD_FEATURE_STRIPINGV2" using assms(1) by (simp add: lacks_def hdr created_def RBD_FEATURE_STRIPINGV2_def)
  show "h_order hdr = 22" "h_prefix hdr = data_prefix i" "h_parent hdr = None" "h_size hdr = sz" "h_snaps hdr = []" "h_seq hdr = 0"
    "h_features hdr = features"
    by (simp_all add: hdr created_def)
qed

text \<open>C2. From \<open>create\<close> to the disk. In a pool that has neither the name nor the id, and with no data objects of that
  id in any pool, \<open>create\<close> of an image of 4 MB objects and \<open>open_image\<close> on it return 0; every byte of the opened image
  is zero, and every sequence of reads and writes inside the image and of rounds of the analyzer, with no failing
  operation, gives the results of the same sequence on an array of zeros, whose content the image then has.\<close>

theorem created_image_is_a_disk:
  assumes "create_ready (cl hdd) d name i" "i = image_id_of bid extra" "cl hdd (old_header_name name) = None"
    "features AND NOT RBD_FEATURES_ALL = 0" "features AND RBD_FEATURE_STRIPINGV2 = 0" "no_seqs cl" "hdd \<noteq> ssd"
    "sz div EXTENT_SIZE < 0x80000000" "\<forall>pid num. cl pid (format_oid (data_objects i) num) = None"
    "em_map (ic_extent_map mem) = []" "lock_free lk" "\<not> wr < 0" "quiet ev" "\<forall>x \<in> set xs. op_ok x sz"
  shows "\<exists>q ic. on_pool hdd (create cf bid extra name sz False features 22 0 0) ([], cl) = Some ((0, 22), ([], cl(hdd := q)))
    \<and> open_image lk op wr (new_ImageCtx False rc mem name [] None hdd ssd False, ([], cl(hdd := q))) =
        Some ((0, None), (ic, ([], cl(hdd := q))))
    \<and> (\<forall>y. content (ic, cl(hdd := q)) y = 0)
    \<and> (\<exists>rs s'. exec_ops xs (ev, ic, cl(hdd := q)) = Some (rs, s') \<and> flat_ops xs (\<lambda>_. 0) = (rs, content (snd s')))"
proof -
  let ?new = "new_ImageCtx False rc mem name [] None hdd ssd False"
  define hdr where "hdr = new_header sz 22 features i 0 0"
  define ic where "ic = opened hdr i ?new"
  have o: "12 \<le> (22 :: int)" "(22 :: int) < 64" "striping_ok 22 features 0 0" "passed_on 22 0 0 = (0, 0)"
    using assms(5) by (simp_all add: striping_ok_def passed_on_def)
  obtain q where q: "create cf bid extra name sz False features 22 0 0 ([], cl hdd) = Some ((0, 22), ([], q))"
    "create_v2 name bid extra sz 22 features 0 0 ([], cl hdd) = Some (0, ([], q))" "image_created (cl hdd) d name i hdr q"
    unfolding hdr_def using create_done [where p = "cl hdd" and cf = cf, OF assms(1-4) o] by blast
  let ?cl = "cl(hdd := q)"
  have small: "small_string i" "small_string (data_prefix i)"
    using image_id_valid length_image_id [of bid extra] by (simp_all add: assms(2) small_string_def data_prefix_def)
  note plain = new_header_plain [OF assms(5) hdr_def] and hdr = new_header_plain(9) [OF assms(5) hdr_def]
  note ctx = opened_plain [OF plain(1-4) ic_def]
  have at: "image_at q name i hdr"
    using q(3) assms(2,3) small old_header_name_differs [of name] created_ok [OF small(2)]
    by (simp add: image_at_def image_created_def hdr) (simp add: created_def short_def CEPH_MAXSNAP_def)
  have new: "ic_id ?new = []" "ic_snap_name ?new = []" "ic_snap_id ?new = CEPH_NOSNAP" "\<not> ic_watch ?new" "ic_name ?new = name"
    "md_ctx ?new DEFAULT_POOL = hdd"
    by (simp_all add: new_ImageCtx_def md_ctx_def data_ctx_def DEFAULT_POOL_def HDD_POOL_def SSD_POOL_def)
  have op: "open_image lk op wr (?new, ([], ?cl)) = Some ((0, None), (initialize_WHOBBS ic, ([], ?cl)))"
    unfolding ic_def using at assms(11,12) new
    by (intro open_found) (simp_all add: plain(4))
  have absent: "?cl pid (format_oid (data_objects i) num) = None" for pid num
    using assms(9) no_data_objects [OF q(3)] by simp
  have "everywhere seq_zero q"
    using create_keeps [OF q(2) _ _ _ seq_keeping_methods] assms(1,6)
    by (simp add: create_ready_def everywhere_def no_seqs_def seq_zero_id)
  then have "no_seqs ?cl" using assms(6) by (simp add: no_seqs_def everywhere_def)
  moreover have "small_objects ic ?cl" using absent by (simp add: small_objects_def extent_oid_def ctx(6))
  ultimately have t: "tiered (reopened ic, ?cl)"
    using reopened_tiered [OF ctx(1,2)] assms(7,8) by (simp add: ctx(3,4,5) plain(5))
  have r: "initialize_WHOBBS ic = reopened ic" using assms(10) by (intro initialize_new) (simp add: ctx(8))
  have same: "serving (reopened ic)" "ic_size (reopened ic) = sz" "ic_format_string (reopened ic) = data_objects i"
    using ctx(5-7) plain(5) by (simp_all add: serving_def reopened_def initialize_WHOBBS_def Let_def new_migrater_def)
  have zero: "content (reopened ic, ?cl) = (\<lambda>_. 0)"
    using absent by (simp add: fun_eq_iff content_def image_byte_def ctx(6) del: fun_upd_apply)
  have inv: "disk_inv (ev, reopened ic, ?cl)" using t same(1) assms(13) by (simp add: disk_inv_def)
  have "\<exists>rs s'. exec_ops xs (ev, reopened ic, ?cl) = Some (rs, s') \<and> flat_ops xs (\<lambda>_. 0) = (rs, content (snd s'))"
    using disk.runs [of "(ev, reopened ic, ?cl)" "\<lambda>_. 0" xs] inv assms(14) zero same(2)
    unfolding exec_ops_run flat_ops_run by auto
  then show ?thesis
    using q(1) op zero by (intro exI [of _ q] exI [of _ "reopened ic"]) (simp add: r on_pool_def)
qed

lemma created_image_is_a_disk_witness:
  "\<exists>q ic r1 r2 s'. on_pool 3 (create \<lparr>cc_default_format = 2, cc_default_features = 3, cc_default_order = 22, cc_default_stripe_unit = 0,
       cc_default_stripe_count = 0\<rparr> 16 32 ''a'' 9000000 False 1 22 0 0) ([], \<lambda>_ _. None) = Some ((0, 22), ([], (\<lambda>_ _. None)(3 := q)))
     \<and> open_image no_locks (\<lambda>_. Inl (- ENOENT)) 0 (new_ImageCtx False \<lparr>cf_cache_writethrough_until_flush = False,
         cf_cache_max_dirty = 0, cf_balance_snap_reads = False, cf_localize_snap_reads = False\<rparr>
         (image_9M\<lparr>ic_extent_map := \<lparr>extent_size = 0, map_size = 0, em_map = []\<rparr>\<rparr>) ''a'' [] None 3 4 False,
         ([], (\<lambda>_ _. None)(3 := q))) = Some ((0, None), (ic, ([], (\<lambda>_ _. None)(3 := q))))
     \<and> exec_ops [WriteOp 4194303 [7, 8], RoundOp (\<lambda>_. False), ReadOp 4194302 4] (quiet_env, ic, (\<lambda>_ _. None)(3 := q))
         = Some ([r1, r2, Got 4 [0, 7, 8, 0]], s')"
proof -
  let ?xs = "[WriteOp 4194303 [7, 8], RoundOp (\<lambda>_. False), ReadOp 4194302 4]" and ?none = "(\<lambda>_ _. None) :: cluster"
  have ready: "create_ready (?none 3) [] ''a'' (image_id_of 16 32)"
    using dir_reprs_absent by (simp add: create_ready_def short_def)
  have f: "(1 :: u64) AND NOT RBD_FEATURES_ALL = 0" "(1 :: u64) AND RBD_FEATURE_STRIPINGV2 = 0"
    by (simp_all add: RBD_FEATURES_ALL_def RBD_FEATURE_LAYERING_def RBD_FEATURE_STRIPINGV2_def)
  have e: "?none 3 (old_header_name ''a'') = None" "no_seqs ?none" "(3 :: int) \<noteq> 4"
    "(9000000 :: u64) div EXTENT_SIZE < 0x80000000" "\<forall>pid num. ?none pid (format_oid (data_objects (image_id_of 16 32)) num) = None"
    "em_map (ic_extent_map (image_9M\<lparr>ic_extent_map := \<lparr>extent_size = 0, map_size = 0, em_map = []\<rparr>\<rparr>)) = []"
    "\<not> (0 :: int) < 0" "\<forall>x \<in> set ?xs. op_ok x 9000000"
    by (simp_all add: no_seqs_def seq_zero_def EXTENT_SIZE_def OBJECT_SIZE_def)
  have l: "[0..<4] = [0, 1, 2, 3 :: nat]" by (simp add: upt_rec)
  have out: "fst (flat_ops ?xs (\<lambda>_. 0)) = [Wrote 2, Idle, Got 4 [0, 7, 8, 0]]" by (simp add: l)
  note run = created_image_is_a_disk [where cl = ?none and cf = "\<lparr>cc_default_format = 2, cc_default_features = 3,
      cc_default_order = 22, cc_default_stripe_unit = 0, cc_default_stripe_count = 0\<rparr>" and op = "\<lambda>_. Inl (- ENOENT)" and rc =
      "\<lparr>cf_cache_writethrough_until_flush = False, cf_cache_max_dirty = 0, cf_balance_snap_reads = False, cf_localize_snap_reads = False\<rparr>",
      OF ready refl e(1) f e(2-6) no_locks_free e(7) quiet_env_quiet e(8)]
  then show ?thesis using out by (metis fst_conv)
qed

end
