(* ===== verification/Clone_Race.thy ===== *)
theory Clone_Race
  imports Snap_Ops
begin

text \<open>
  Clones of a snapshot beside \<open>snap_unprotect\<close> of it, as a step relation: every request is a step. A clone
  checks that the snapshot is protected, adds itself to the children in its pool, and checks again after a
  refresh, taking itself out when it has lost. \<open>snap_unprotect\<close> looks at the protection, marks the snapshot,
  asks the pools for children one after the other, and then removes the protection or puts it back. The state is
  the header of the parent, the children in each pool, and the phases of the clones (named by the ids of
  the children) and of the unprotecting clients; the effects are those that the class methods were proved to have.
  Lemmas: with one unprotecting client no clone is left on an unprotected snapshot; with two, one can be.
\<close>

subsection \<open>The program\<close>

datatype cphase = CStart | CChecked | CAdded | CLost | CDone bool

datatype uphase = UIdle | UBegun | ULooking nat | UFound

record crace =
  cr_hdr :: header
  cr_fam :: "nat \<Rightarrow> parent_ref \<Rightarrow> string list"
  cr_clone :: "string \<Rightarrow> cphase"
  cr_unp :: "nat \<Rightarrow> uphase"

definition snap_status :: "u64 \<Rightarrow> crace \<Rightarrow> u8 option" where
  "snap_status i s = map_option cs_protection_status (map_of (h_snaps (cr_hdr s)) i)"

definition protect :: "u64 \<Rightarrow> u8 \<Rightarrow> crace \<Rightarrow> int \<times> crace" where
  "protect i st s = (case header_spec (SetProtection i st) (cr_hdr s) of (r, hdr) \<Rightarrow> (r, s\<lparr>cr_hdr := hdr\<rparr>))"

definition set_clone :: "string \<Rightarrow> cphase \<Rightarrow> crace \<Rightarrow> crace" where
  "set_clone c ph s = s\<lparr>cr_clone := (cr_clone s)(c := ph)\<rparr>"

definition set_unp :: "nat \<Rightarrow> uphase \<Rightarrow> crace \<Rightarrow> crace" where
  "set_unp k ph s = s\<lparr>cr_unp := (cr_unp s)(k := ph)\<rparr>"

definition set_children :: "nat \<Rightarrow> parent_ref \<Rightarrow> string list \<Rightarrow> crace \<Rightarrow> crace" where
  "set_children n ref cs s = s\<lparr>cr_fam := (cr_fam s)(n := (cr_fam s n)(ref := cs))\<rparr>"

text \<open>\<open>U\<close> are the unprotecting clients, \<open>N\<close> the number of pools, \<open>place c\<close> the pool of the child \<open>c\<close>, \<open>ref\<close> names the
  snapshot \<open>i\<close> in the objects of the children.\<close>

inductive clone_step :: "nat set \<Rightarrow> nat \<Rightarrow> (string \<Rightarrow> nat) \<Rightarrow> parent_ref \<Rightarrow> u64 \<Rightarrow> crace \<Rightarrow> crace \<Rightarrow> bool"
  for U N place ref i where
  c_check: "cr_clone s c = CStart \<Longrightarrow> snap_status i s = Some RBD_PROTECTION_STATUS_PROTECTED \<Longrightarrow>
    clone_step U N place ref i s (set_clone c CChecked s)"
| c_add: "cr_clone s c = CChecked \<Longrightarrow>
    clone_step U N place ref i s (set_clone c CAdded (set_children (place c) ref (set_insert c (cr_fam s (place c) ref)) s))"
| c_recheck: "cr_clone s c = CAdded \<Longrightarrow>
    clone_step U N place ref i s
      (set_clone c (if snap_status i s = Some RBD_PROTECTION_STATUS_PROTECTED then CDone True else CLost) s)"
| c_undo: "cr_clone s c = CLost \<Longrightarrow>
    clone_step U N place ref i s (set_clone c (CDone False) (set_children (place c) ref (remove1 c (cr_fam s (place c) ref)) s))"
| u_begin: "k \<in> U \<Longrightarrow> cr_unp s k = UIdle \<Longrightarrow> snap_status i s = Some st \<Longrightarrow> st \<noteq> RBD_PROTECTION_STATUS_UNPROTECTED \<Longrightarrow>
    clone_step U N place ref i s (set_unp k UBegun s)"
| u_mark: "cr_unp s k = UBegun \<Longrightarrow> protect i RBD_PROTECTION_STATUS_UNPROTECTING s = (r, s') \<Longrightarrow>
    clone_step U N place ref i s (set_unp k (if r < 0 then UIdle else ULooking 0) s')"
| u_look: "cr_unp s k = ULooking n \<Longrightarrow> n < N \<Longrightarrow>
    clone_step U N place ref i s (set_unp k (if cr_fam s n ref = [] then ULooking (Suc n) else UFound) s)"
| u_finish: "cr_unp s k = ULooking N \<Longrightarrow> protect i RBD_PROTECTION_STATUS_UNPROTECTED s = (r, s') \<Longrightarrow>
    clone_step U N place ref i s (set_unp k UIdle s')"
| u_back: "cr_unp s k = UFound \<Longrightarrow> protect i RBD_PROTECTION_STATUS_PROTECTED s = (r, s') \<Longrightarrow>
    clone_step U N place ref i s (set_unp k UIdle s')"

inductive clone_reach :: "nat set \<Rightarrow> nat \<Rightarrow> (string \<Rightarrow> nat) \<Rightarrow> parent_ref \<Rightarrow> u64 \<Rightarrow> crace \<Rightarrow> crace \<Rightarrow> bool"
  for U N place ref i s0 where
  cr_start: "clone_reach U N place ref i s0 s0"
| cr_step: "clone_reach U N place ref i s0 s \<Longrightarrow> clone_step U N place ref i s s' \<Longrightarrow> clone_reach U N place ref i s0 s'"

definition clones_start :: "crace \<Rightarrow> bool" where
  "clones_start s \<longleftrightarrow> (\<forall>c. cr_clone s c = CStart) \<and> (\<forall>k. cr_unp s k = UIdle)"

subsection \<open>Parts of the state\<close>

lemma set_parts [simp]:
  "cr_hdr (set_clone c ph s) = cr_hdr s" "cr_fam (set_clone c ph s) = cr_fam s" "cr_unp (set_clone c ph s) = cr_unp s"
  "cr_clone (set_clone c ph s) = (cr_clone s)(c := ph)"
  "cr_hdr (set_unp k uh s) = cr_hdr s" "cr_fam (set_unp k uh s) = cr_fam s" "cr_clone (set_unp k uh s) = cr_clone s"
  "cr_unp (set_unp k uh s) = (cr_unp s)(k := uh)"
  "cr_hdr (set_children n ref cs s) = cr_hdr s" "cr_unp (set_children n ref cs s) = cr_unp s"
  "cr_clone (set_children n ref cs s) = cr_clone s" "cr_fam (set_children n ref cs s) = (cr_fam s)(n := (cr_fam s n)(ref := cs))"
  by (simp_all add: set_clone_def set_unp_def set_children_def)

lemma set_status [simp]:
  "snap_status i (set_clone c ph s) = snap_status i s" "snap_status i (set_unp k uh s) = snap_status i s"
  "snap_status i (set_children n ref cs s) = snap_status i s"
  by (simp_all add: snap_status_def)

lemma protect_parts:
  assumes "protect i st s = (r, s')"
  shows "cr_fam s' = cr_fam s" "cr_clone s' = cr_clone s" "cr_unp s' = cr_unp s"
    "snap_status i s' = (if r < 0 then snap_status i s else Some st)"
  using assms by (auto simp: protect_def snap_status_def map_of_smap_put split: prod.splits if_splits option.splits)

subsection \<open>One unprotecting client\<close>

definition registered :: "(string \<Rightarrow> nat) \<Rightarrow> parent_ref \<Rightarrow> crace \<Rightarrow> bool" where
  "registered place ref s \<longleftrightarrow> (\<forall>c. cr_clone s c \<in> {CAdded, CDone True} \<longrightarrow> c \<in> set (cr_fam s (place c) ref))"

definition unprotect_phase :: "(string \<Rightarrow> nat) \<Rightarrow> u64 \<Rightarrow> uphase \<Rightarrow> crace \<Rightarrow> bool" where
  "unprotect_phase place i ph s \<longleftrightarrow>
     (case ph of
        ULooking n \<Rightarrow> snap_status i s = Some RBD_PROTECTION_STATUS_UNPROTECTING \<and> (\<forall>c. cr_clone s c = CDone True \<longrightarrow> n \<le> place c)
      | UFound \<Rightarrow> snap_status i s = Some RBD_PROTECTION_STATUS_UNPROTECTING
      | _ \<Rightarrow> \<forall>c. cr_clone s c = CDone True \<longrightarrow> snap_status i s \<noteq> Some RBD_PROTECTION_STATUS_UNPROTECTED)"

definition clone_inv :: "nat \<Rightarrow> (string \<Rightarrow> nat) \<Rightarrow> parent_ref \<Rightarrow> u64 \<Rightarrow> crace \<Rightarrow> bool" where
  "clone_inv u place ref i s \<longleftrightarrow>
     registered place ref s \<and> (\<forall>k. k \<noteq> u \<longrightarrow> cr_unp s k = UIdle) \<and> unprotect_phase place i (cr_unp s u) s"

lemma statuses_differ [simp]:
  "RBD_PROTECTION_STATUS_PROTECTED \<noteq> RBD_PROTECTION_STATUS_UNPROTECTED" "RBD_PROTECTION_STATUS_UNPROTECTING \<noteq> RBD_PROTECTION_STATUS_UNPROTECTED"
  "RBD_PROTECTION_STATUS_UNPROTECTING \<noteq> RBD_PROTECTION_STATUS_PROTECTED"
  by (simp_all add: RBD_PROTECTION_STATUS_PROTECTED_def RBD_PROTECTION_STATUS_UNPROTECTED_def RBD_PROTECTION_STATUS_UNPROTECTING_def)

lemma clone_inv_clones:
  assumes "clone_inv u place ref i s" "cr_unp s' = cr_unp s" "snap_status i s' = snap_status i s" "registered place ref s'"
    "\<forall>c. cr_clone s' c = CDone True \<longrightarrow> cr_clone s c = CDone True"
  shows "clone_inv u place ref i s'"
  using assms by (auto simp: clone_inv_def unprotect_phase_def split: uphase.splits)

lemma set_insert_member [simp]: "set (set_insert x xs) = insert x (set xs)"
  by (auto simp: set_insert_def set_insort_key)

lemma clone_step_keeps:
  assumes "clone_step {u} N place ref i s s'" "clone_inv u place ref i s" "\<forall>c. place c < N"
  shows "clone_inv u place ref i s'"
  using assms(1)
proof cases
  case (c_check c)
  then show ?thesis using assms(2)
    by (intro clone_inv_clones [OF assms(2)]) (auto simp: registered_def clone_inv_def split: if_splits)
next
  case (c_add c)
  then show ?thesis using assms(2)
    by (intro clone_inv_clones [OF assms(2)]) (auto simp: registered_def clone_inv_def split: if_splits)
next
  case (c_recheck c)
  show ?thesis
  proof (cases "snap_status i s = Some RBD_PROTECTION_STATUS_PROTECTED")
    case True
    then show ?thesis using assms(2) c_recheck
      by (auto simp: clone_inv_def registered_def unprotect_phase_def split: uphase.splits)
  next
    case False
    then show ?thesis using assms(2) c_recheck
      by (intro clone_inv_clones [OF assms(2)]) (auto simp: registered_def clone_inv_def split: if_splits)
  qed
next
  case (c_undo c)
  have "registered place ref s'"
    using assms(2) c_undo by (auto simp: clone_inv_def registered_def in_set_remove1 split: if_splits)
  then show ?thesis using c_undo by (intro clone_inv_clones [OF assms(2)]) (auto split: if_splits)
next
  case (u_begin k st)
  then show ?thesis using assms(2) by (auto simp: clone_inv_def registered_def unprotect_phase_def)
next
  case (u_mark k r s1)
  note p = protect_parts [OF u_mark(3)]
  have k: "k = u" using assms(2) u_mark(2) by (auto simp: clone_inv_def)
  show ?thesis using assms(2) u_mark p by (auto simp: k clone_inv_def registered_def unprotect_phase_def)
next
  case (u_look k n)
  have k: "k = u" using assms(2) u_look(2) by (auto simp: clone_inv_def)
  have "Suc n \<le> place c" if "cr_clone s c = CDone True" "cr_fam s n ref = []" for c
    using assms(2) that u_look(2) by (force simp: k clone_inv_def registered_def unprotect_phase_def Suc_le_eq le_less)
  then show ?thesis using assms(2) u_look by (auto simp: k clone_inv_def registered_def unprotect_phase_def)
next
  case (u_finish k r s1)
  note p = protect_parts [OF u_finish(3)]
  have k: "k = u" using assms(2) u_finish(2) by (auto simp: clone_inv_def)
  have "cr_clone s c \<noteq> CDone True" for c
    using assms(2,3) u_finish(2) by (auto simp: k clone_inv_def unprotect_phase_def not_le [symmetric])
  then show ?thesis using assms(2) u_finish p by (auto simp: k clone_inv_def registered_def unprotect_phase_def)
next
  case (u_back k r s1)
  note p = protect_parts [OF u_back(3)]
  have k: "k = u" using assms(2) u_back(2) by (auto simp: clone_inv_def)
  show ?thesis using assms(2) u_back p by (auto simp: k clone_inv_def registered_def unprotect_phase_def)
qed

lemma clone_reach_keeps:
  assumes "clone_reach {u} N place ref i s0 s" "clones_start s0" "\<forall>c. place c < N"
  shows "clone_inv u place ref i s"
  using assms(1)
proof induction
  case cr_start
  then show ?case using assms(2) by (simp add: clones_start_def clone_inv_def registered_def unprotect_phase_def)
next
  case (cr_step s s')
  then show ?case using clone_step_keeps [OF _ _ assms(3)] by blast
qed

text \<open>C19. With one unprotecting client, however often it runs and whatever clones run beside it, a clone that has
  returned 0 keeps its parent: it is registered in the children of its pool, the snapshot is not unprotected,
  and the header refuses to remove the snapshot.\<close>

theorem clone_keeps_parent:
  assumes "clone_reach {u} N place ref i s0 s" "clones_start s0" "\<forall>c. place c < N" "cr_clone s c = CDone True"
    "snap_status i s = Some st"
  shows "c \<in> set (cr_fam s (place c) ref) \<and> st \<noteq> RBD_PROTECTION_STATUS_UNPROTECTED
    \<and> fst (header_spec (SnapRemove i) (cr_hdr s)) = - EBUSY"
proof -
  have inv: "clone_inv u place ref i s" by (rule clone_reach_keeps [OF assms(1-3)])
  then have "c \<in> set (cr_fam s (place c) ref)" using assms(4) by (simp add: clone_inv_def registered_def)
  moreover have st: "st \<noteq> RBD_PROTECTION_STATUS_UNPROTECTED"
    using inv assms(4,5) by (auto simp: clone_inv_def unprotect_phase_def split: uphase.splits)
  moreover have "fst (header_spec (SnapRemove i) (cr_hdr s)) = - EBUSY"
    using assms(5) st by (auto simp: snap_status_def split: option.splits)
  ultimately show ?thesis by blast
qed

subsection \<open>Two unprotecting clients\<close>

definition layered :: "u64 \<Rightarrow> crace \<Rightarrow> bool" where
  "layered i s \<longleftrightarrow> \<not> lacks (cr_hdr s) RBD_FEATURE_LAYERING \<and> i \<noteq> CEPH_NOSNAP \<and> snap_status i s \<noteq> None"

lemma layered_simps [simp]:
  "layered i (set_clone c ph s) = layered i s" "layered i (set_unp k uh s) = layered i s" "layered i (set_children n ref cs s) = layered i s"
  by (simp_all add: layered_def)

lemma protect_succeeds:
  assumes "layered i s" "st < RBD_PROTECTION_STATUS_LAST"
  obtains s' where "protect i st s = (0, s')" "cr_fam s' = cr_fam s" "cr_clone s' = cr_clone s" "cr_unp s' = cr_unp s"
    "snap_status i s' = Some st" "layered i s'"
proof -
  obtain sn where sn: "map_of (h_snaps (cr_hdr s)) i = Some sn" using assms(1) by (auto simp: layered_def snap_status_def)
  define s' where "s' = s\<lparr>cr_hdr := (cr_hdr s)\<lparr>h_snaps := smap_put i (sn\<lparr>cs_protection_status := st\<rparr>) (h_snaps (cr_hdr s))\<rparr>\<rparr>"
  have p: "protect i st s = (0, s')" using assms sn by (simp add: protect_def layered_def not_le s'_def)
  have "layered i s'" using assms(1) by (simp add: layered_def lacks_def s'_def snap_status_def map_of_smap_put)
  with protect_parts [OF p] p show ?thesis by (intro that) auto
qed

lemma statuses_valid [simp]:
  "RBD_PROTECTION_STATUS_PROTECTED < RBD_PROTECTION_STATUS_LAST" "RBD_PROTECTION_STATUS_UNPROTECTED < RBD_PROTECTION_STATUS_LAST"
  "RBD_PROTECTION_STATUS_UNPROTECTING < RBD_PROTECTION_STATUS_LAST"
  by (simp_all add: RBD_PROTECTION_STATUS_PROTECTED_def RBD_PROTECTION_STATUS_UNPROTECTED_def
      RBD_PROTECTION_STATUS_UNPROTECTING_def RBD_PROTECTION_STATUS_LAST_def)

lemma set_unp_twice [simp]: "set_unp k ph (set_unp k ph' s) = set_unp k ph s"
  by (simp add: set_unp_def)

lemma look_through:
  assumes "clone_reach U N place ref i s0 (set_unp k (ULooking 0) s)" "m \<le> N" "\<forall>n < m. cr_fam s n ref = []"
  shows "clone_reach U N place ref i s0 (set_unp k (ULooking m) s)"
  using assms(2,3)
proof (induction m)
  case 0
  then show ?case using assms(1) by simp
next
  case (Suc m)
  then have "clone_reach U N place ref i s0 (set_unp k (ULooking m) s)" by simp
  then show ?case using cr_step [OF _ u_look [of "set_unp k (ULooking m) s" k m N U place ref i]] Suc.prems by simp
qed

lemma unprotect_until:
  assumes "clone_reach U N place ref i s0 s" "k \<in> U" "cr_unp s k = UIdle" "layered i s"
    "snap_status i s \<noteq> Some RBD_PROTECTION_STATUS_UNPROTECTED" "m \<le> N" "\<forall>n < m. cr_fam s n ref = []"
  obtains s' where "clone_reach U N place ref i s0 s'" "cr_unp s' = (cr_unp s)(k := ULooking m)" "cr_clone s' = cr_clone s"
    "cr_fam s' = cr_fam s" "snap_status i s' = Some RBD_PROTECTION_STATUS_UNPROTECTING" "layered i s'"
proof -
  obtain st where st: "snap_status i s = Some st" "st \<noteq> RBD_PROTECTION_STATUS_UNPROTECTED"
    using assms(4,5) by (auto simp: layered_def)
  let ?s1 = "set_unp k UBegun s"
  have r1: "clone_reach U N place ref i s0 ?s1" by (rule cr_step [OF assms(1) u_begin [OF assms(2,3) st]])
  have "layered i ?s1" using assms(4) by simp
  from this statuses_valid(3) obtain s2 where s2: "protect i RBD_PROTECTION_STATUS_UNPROTECTING ?s1 = (0, s2)"
    "cr_fam s2 = cr_fam ?s1" "cr_clone s2 = cr_clone ?s1" "cr_unp s2 = cr_unp ?s1"
    "snap_status i s2 = Some RBD_PROTECTION_STATUS_UNPROTECTING" "layered i s2"
    by (rule protect_succeeds)
  have "cr_unp ?s1 k = UBegun" by simp
  from cr_step [OF r1 u_mark [OF this s2(1)]] have "clone_reach U N place ref i s0 (set_unp k (ULooking 0) s2)" by simp
  from look_through [OF this assms(6)] have "clone_reach U N place ref i s0 (set_unp k (ULooking m) s2)"
    using assms(7) s2(2) by simp
  then show ?thesis using s2 by (intro that [of "set_unp k (ULooking m) s2"]) simp_all
qed

text \<open>C20. With two unprotecting clients the protocol fails: from a protected snapshot without children there is an
  interleaving in which a clone returns 0 and is registered, and the snapshot ends unprotected, so that the header lets
  it be removed. The client that found the child protects the snapshot again, the clone's second look sees that, and
  the client that had looked before the child came removes the protection.\<close>

theorem two_unprotect_orphan:
  assumes "clones_start s0" "snap_status i s0 = Some RBD_PROTECTION_STATUS_PROTECTED" "layered i s0"
    "\<forall>n < N. cr_fam s0 n ref = []" "a \<in> U" "b \<in> U" "a \<noteq> b" "place c < N"
  shows "\<exists>s. clone_reach U N place ref i s0 s \<and> cr_clone s c = CDone True \<and> c \<in> set (cr_fam s (place c) ref)
    \<and> snap_status i s = Some RBD_PROTECTION_STATUS_UNPROTECTED \<and> fst (header_spec (SnapRemove i) (cr_hdr s)) = 0"
proof -
  let ?R = "clone_reach U N place ref i s0" and ?s1 = "set_clone c CChecked s0"
  have "cr_clone s0 c = CStart" using assms(1) by (simp add: clones_start_def)
  from cr_step [OF cr_start c_check [OF this assms(2)]] have r1: "?R ?s1" .
  have "cr_unp ?s1 a = UIdle" "layered i ?s1" "snap_status i ?s1 \<noteq> Some RBD_PROTECTION_STATUS_UNPROTECTED" "N \<le> N"
    "\<forall>n < N. cr_fam ?s1 n ref = []"
    using assms(1-4) by (simp_all add: clones_start_def)
  from unprotect_until [OF r1 assms(5) this] obtain s2 where s2: "?R s2" "cr_unp s2 = (cr_unp ?s1)(a := ULooking N)"
    "cr_clone s2 = cr_clone ?s1" "cr_fam s2 = cr_fam ?s1" "snap_status i s2 = Some RBD_PROTECTION_STATUS_UNPROTECTING" "layered i s2"
    by metis
  let ?s3 = "set_clone c CAdded (set_children (place c) ref (set_insert c (cr_fam s2 (place c) ref)) s2)"
  have "cr_clone s2 c = CChecked" using s2(3) by simp
  from cr_step [OF s2(1) c_add [OF this]] have r3: "?R ?s3" .
  have "cr_unp ?s3 b = UIdle" "layered i ?s3" "snap_status i ?s3 \<noteq> Some RBD_PROTECTION_STATUS_UNPROTECTED" "place c \<le> N"
    "\<forall>n < place c. cr_fam ?s3 n ref = []"
    using assms(1,4,7,8) s2 by (simp_all add: clones_start_def)
  from unprotect_until [OF r3 assms(6) this] obtain s4 where s4: "?R s4" "cr_unp s4 = (cr_unp ?s3)(b := ULooking (place c))"
    "cr_clone s4 = cr_clone ?s3" "cr_fam s4 = cr_fam ?s3" "layered i s4"
    by metis
  have f: "c \<in> set (cr_fam s4 (place c) ref)" by (simp add: s4(4))
  let ?s5 = "set_unp b UFound s4"
  have "cr_unp s4 b = ULooking (place c)" using s4(2) by simp
  from cr_step [OF s4(1) u_look [OF this assms(8)]] have r5: "?R ?s5" using f by (auto split: if_splits)
  have "layered i ?s5" using s4(5) by simp
  from this statuses_valid(1) obtain s6 where s6: "protect i RBD_PROTECTION_STATUS_PROTECTED ?s5 = (0, s6)" "cr_fam s6 = cr_fam ?s5"
    "cr_clone s6 = cr_clone ?s5" "cr_unp s6 = cr_unp ?s5" "snap_status i s6 = Some RBD_PROTECTION_STATUS_PROTECTED" "layered i s6"
    by (rule protect_succeeds)
  let ?s7 = "set_clone c (CDone True) (set_unp b UIdle s6)"
  have "cr_unp ?s5 b = UFound" by simp
  from cr_step [OF r5 u_back [OF this s6(1)]] have r6: "?R (set_unp b UIdle s6)" .
  have "cr_clone (set_unp b UIdle s6) c = CAdded" using s6(3) s4(3) by simp
  from cr_step [OF r6 c_recheck [OF this]] have r7: "?R ?s7" using s6(5) by simp
  have "layered i ?s7" using s6(6) by simp
  from this statuses_valid(2) obtain s8 where s8: "protect i RBD_PROTECTION_STATUS_UNPROTECTED ?s7 = (0, s8)" "cr_fam s8 = cr_fam ?s7"
    "cr_clone s8 = cr_clone ?s7" "snap_status i s8 = Some RBD_PROTECTION_STATUS_UNPROTECTED"
    by (rule protect_succeeds)
  have "cr_unp ?s7 a = ULooking N" using assms(7) s6(4) s4(2) s2(2) by simp
  from cr_step [OF r7 u_finish [OF this s8(1)]] have "?R (set_unp a UIdle s8)" .
  moreover have "fst (header_spec (SnapRemove i) (cr_hdr (set_unp a UIdle s8))) = 0"
    using s8(4) by (auto simp: snap_status_def split: option.splits)
  ultimately show ?thesis using s8 s6(2) f by (intro exI [of _ "set_unp a UIdle s8"]) simp
qed

subsection \<open>A snapshot to clone\<close>

definition clone_race0 :: crace where
  "clone_race0 = \<lparr>cr_hdr = (created 65536 22 RBD_FEATURE_LAYERING ''rb.1'')\<lparr>h_seq := 3, h_snaps :=
       [(3, new_cls_rbd_snap\<lparr>cs_id := 3, cs_name := ''a'', cs_protection_status := RBD_PROTECTION_STATUS_PROTECTED\<rparr>)]\<rparr>,
     cr_fam = \<lambda>_ _. [], cr_clone = \<lambda>_. CStart, cr_unp = \<lambda>_. UIdle\<rparr>"

lemma clone_race0_facts:
  "clones_start clone_race0" "snap_status 3 clone_race0 = Some RBD_PROTECTION_STATUS_PROTECTED" "layered 3 clone_race0"
  "cr_fam clone_race0 n ref = []"
  by (simp_all add: clone_race0_def clones_start_def snap_status_def layered_def created_def lacks_def CEPH_NOSNAP_def)

lemma clone_keeps_parent_witness:
  "\<exists>s. clone_reach {0} 1 (\<lambda>_. 0) (3, ''p'', 3) 3 clone_race0 s \<and> cr_clone s ''c'' = CDone True
    \<and> ''c'' \<in> set (cr_fam s 0 (3, ''p'', 3)) \<and> fst (header_spec (SnapRemove 3) (cr_hdr s)) = - EBUSY"
proof -
  let ?R = "clone_reach {0} 1 (\<lambda>_. 0) (3, ''p'', 3) 3 clone_race0" and ?s1 = "set_clone ''c'' CChecked clone_race0"
  let ?s2 = "set_clone ''c'' CAdded (set_children 0 (3, ''p'', 3) (set_insert ''c'' (cr_fam ?s1 0 (3, ''p'', 3))) ?s1)"
  let ?s3 = "set_clone ''c'' (CDone True) ?s2"
  have "cr_clone clone_race0 ''c'' = CStart" using clone_race0_facts(1) by (simp add: clones_start_def)
  from cr_step [OF cr_start c_check [OF this clone_race0_facts(2)]] have r1: "?R ?s1" .
  have "cr_clone ?s1 ''c'' = CChecked" by simp
  from cr_step [OF r1 c_add [OF this]] have r2: "?R ?s2" .
  have "cr_clone ?s2 ''c'' = CAdded" by simp
  from cr_step [OF r2 c_recheck [OF this]] have r3: "?R ?s3" using clone_race0_facts(2) by simp
  have "\<forall>c :: string. (0 :: nat) < 1" "cr_clone ?s3 ''c'' = CDone True"
    "snap_status 3 ?s3 = Some RBD_PROTECTION_STATUS_PROTECTED"
    using clone_race0_facts(2) by simp_all
  from clone_keeps_parent [OF r3 clone_race0_facts(1) this] r3 show ?thesis by (intro exI [of _ ?s3]) simp
qed

lemma two_unprotect_orphan_witness:
  "\<exists>s. clone_reach {0, 1} 1 (\<lambda>_. 0) (3, ''p'', 3) 3 clone_race0 s \<and> cr_clone s ''c'' = CDone True
    \<and> snap_status 3 s = Some RBD_PROTECTION_STATUS_UNPROTECTED \<and> fst (header_spec (SnapRemove 3) (cr_hdr s)) = 0"
proof -
  have p: "\<forall>n < 1. cr_fam clone_race0 n (3, ''p'', 3) = []" "(0 :: nat) \<in> {0, 1}" "(1 :: nat) \<in> {0, 1}" "(0 :: nat) \<noteq> 1" "(0 :: nat) < 1"
    using clone_race0_facts(4) by simp_all
  from two_unprotect_orphan [where place = "\<lambda>_. 0", OF clone_race0_facts(1-3) p, of "''c''"] show ?thesis by blast
qed

end
