(* ===== verification/Image_Clone.thy ===== *)
theory Image_Clone
  imports Image_Life
begin

text \<open>
  \<open>clone\<close> and \<open>remove\<close> of \<open>librbd/internal.cc\<close>: the composition of creating, opening, registering and
  taking back. The contexts are made here and closed at the end; closing one has no effect on the
  pools, because \<open>RESTORE\<close> is defined and \<open>finilize_WHOBBS\<close> saves nothing.
\<close>

subsection \<open>What an operation gets from its surroundings\<close>

text \<open>The configuration, the uninitialised members of a context, the lock class, the opening of parents, the result
  of a watch, the failures of asynchronous requests and the bound on their number.\<close>

record surroundings =
  su_conf :: rbd_conf
  su_create :: create_conf
  su_mem :: ImageCtx
  su_lock :: lock_class
  su_parent :: "ImageCtx \<Rightarrow> int + int \<times> string \<times> u64"
  su_watch :: int
  su_env :: io_env
  su_ops :: u64

definition open_named ::
    "surroundings \<Rightarrow> int \<Rightarrow> string \<Rightarrow> string option \<Rightarrow> bool \<Rightarrow> cio \<Rightarrow> ((int \<times> open_parent) \<times> snap_state) option" where
  "open_named su pid name snap ro c =
     open_image (su_lock su) (su_parent su) (su_watch su) (new_ImageCtx False (su_conf su) (su_mem su) name [] snap pid pid ro, c)"

subsection \<open>Removing an image\<close>

text \<open>The part for an image that could be opened; \<open>Inl\<close> is an early return.\<close>

definition remove_opened :: "surroundings \<Rightarrow> int \<Rightarrow> snap_state \<Rightarrow> ((int + unit) \<times> cio) option" where
  "remove_opened su pid st =
     (case st of (ic, fs, cl) \<Rightarrow>
        if ic_snaps ic \<noteq> [] then Some (Inl (- ENOTEMPTY), (fs, cl))
        else
          do { cl \<leftarrow> trim_image (su_env su) (su_ops su) ic 0 cl;
               (r, c) \<leftarrow> on_pool (md_ctx ic DEFAULT_POOL)
                          (cl_remove_child RBD_CHILDREN (ref_of (pi_spec (ic_parent_md ic))) (ic_id ic)) (fs, cl);
               if r < 0 \<and> r \<noteq> - ENOENT then Some (Inl r, c)
               else
                 do { (r, c) \<leftarrow> on_pool pid (io_remove (ic_header_oid ic)) c;
                      if r < 0 \<and> r \<noteq> - ENOENT then Some (Inl r, c) else Some (Inr (), c) } })"

definition remove_new_entry :: "int \<Rightarrow> string \<Rightarrow> string \<Rightarrow> cio \<Rightarrow> (int \<times> cio) option" where
  "remove_new_entry pid imgname image_id c =
     do { (r, c) \<leftarrow> on_pool pid (io_remove (id_obj_name imgname)) c;
          if r < 0 \<and> r \<noteq> - ENOENT then Some (r, c)
          else
     do { (found, c) \<leftarrow> on_pool pid (cl_dir_get_id RBD_DIRECTORY imgname) c;
          (case found of
             Inl r \<Rightarrow> if r \<noteq> - ENOENT then Some (r, c)
                      else map_option (\<lambda>(r, c). (if r < 0 then r else 0, c))
                             (on_pool pid (cl_dir_remove_image RBD_DIRECTORY imgname image_id) c)
           | Inr image_id \<Rightarrow> map_option (\<lambda>(r, c). (if r < 0 then r else 0, c))
                             (on_pool pid (cl_dir_remove_image RBD_DIRECTORY imgname image_id) c)) } }"

definition remove_entry :: "int \<Rightarrow> string \<Rightarrow> bool \<Rightarrow> bool \<Rightarrow> string \<Rightarrow> cio \<Rightarrow> (int \<times> cio) option" where
  "remove_entry pid imgname old_format unknown_format image_id c =
     (if old_format \<or> unknown_format then
        do { (r, c) \<leftarrow> on_pool pid (tmap_rm imgname) c;
             if r < 0 \<and> \<not> unknown_format then Some (r, c)
             else if r = 0 then Some (0, c)
             else remove_new_entry pid imgname image_id c }
      else remove_new_entry pid imgname image_id c)"

definition remove_image :: "surroundings \<Rightarrow> int \<Rightarrow> string \<Rightarrow> cio \<Rightarrow> (int \<times> cio) option" where
  "remove_image su pid imgname c =
     do { ((r, _), (ic, c)) \<leftarrow> open_named su pid imgname None False c;
          if r < 0 then remove_entry pid imgname False True [] c
          else
            do { (res, c) \<leftarrow> remove_opened su pid (ic, c);
                 (case res of
                    Inl r \<Rightarrow> Some (r, c)
                  | Inr _ \<Rightarrow> remove_entry pid imgname (ic_old_format ic) False (ic_id ic) c) } }"

subsection \<open>Cloning a snapshot\<close>

text \<open>The child is made; a failure from here on removes it again. \<open>Inl\<close> is the result to return.\<close>

definition clone_child ::
    "surroundings \<Rightarrow> int \<Rightarrow> string \<Rightarrow> parent_ref \<Rightarrow> u64 \<Rightarrow> cio \<Rightarrow> ((int + string) \<times> cio) option" where
  "clone_child su c_pid c_name pspec sz c =
     do { ((r, _), (ic, c)) \<leftarrow> open_named su c_pid c_name None False c;
          if r < 0 then Some (Inl r, c)
          else
     do { (r, c) \<leftarrow> (case pspec of (pool, img, sn) \<Rightarrow> on_pool c_pid (cl_set_parent (ic_header_oid ic) pool img sn sz) c);
          if r < 0 then Some (Inl r, c)
          else
     do { (r, c) \<leftarrow> on_pool c_pid (cl_add_child RBD_CHILDREN pspec (ic_id ic)) c;
          if r < 0 then Some (Inl r, c) else Some (Inr (ic_id ic), c) }}}"

text \<open>The second look at the protection.\<close>

definition still_protected :: "surroundings \<Rightarrow> open_parent \<Rightarrow> snap_state \<Rightarrow> (bool \<times> cio) option" where
  "still_protected su par st =
     do { ((r, _), (ic, c)) \<leftarrow> ictx_refresh (su_lock su) (su_parent su) par st;
          Some (r = 0 \<and> is_snap_protected ic (ic_snap_name ic) = Some True, c) }"

definition clone_from ::
    "surroundings \<Rightarrow> int \<Rightarrow> open_parent \<Rightarrow> int \<Rightarrow> string \<Rightarrow> u64 \<Rightarrow> int \<Rightarrow> u64 \<Rightarrow> int \<Rightarrow> u64 \<Rightarrow> u32 \<Rightarrow>
     snap_state \<Rightarrow> (int \<times> cio) option" where
  "clone_from su p_pid par c_pid c_name features c_order stripe_unit stripe_count bid extra st =
     (case st of (p_ic, c) \<Rightarrow>
        let pspec = (of_int p_pid, ic_id p_ic, ic_snap_id p_ic) in
        if ic_old_format p_ic then Some (- EINVAL, c)
        else
          let (r, p_features) = get_features p_ic (ic_snap_id p_ic);
              sz = get_image_size p_ic (ic_snap_id p_ic)
          in if r < 0 then None
             else (case is_snap_protected p_ic (ic_snap_name p_ic) of
               None \<Rightarrow> None
             | Some snap_protected \<Rightarrow>
                 if p_features AND RBD_FEATURE_LAYERING \<noteq> RBD_FEATURE_LAYERING then Some (- ENOSYS, c)
                 else if \<not> snap_protected then Some (- EINVAL, c)
                 else
                   let order = (if c_order = 0 then int (unat (ic_order p_ic)) else c_order) in
                   do { ((r, _), c) \<leftarrow> on_pool c_pid
                          (create (su_create su) bid extra c_name sz False features order stripe_unit (of_int stripe_count)) c;
                        if r < 0 then Some (r, c)
                        else
                   do { (res, c) \<leftarrow> clone_child su c_pid c_name pspec sz c;
                        (case res of
                           Inl r \<Rightarrow> do { (_, c) \<leftarrow> remove_image su c_pid c_name c; Some (r, c) }
                         | Inr child_id \<Rightarrow>
                   do { (protected, c) \<leftarrow> still_protected su par (p_ic, c);
                        if protected then Some (0, c)
                        else do { (_, c) \<leftarrow> on_pool c_pid (cl_remove_child RBD_CHILDREN pspec child_id) c;
                                  (_, c) \<leftarrow> remove_image su c_pid c_name c;
                                  Some (- EINVAL, c) } }) }}))"

definition clone ::
    "surroundings \<Rightarrow> int \<Rightarrow> string \<Rightarrow> string option \<Rightarrow> int \<Rightarrow> string \<Rightarrow> u64 \<Rightarrow> int \<Rightarrow> u64 \<Rightarrow> int \<Rightarrow> u64 \<Rightarrow> u32 \<Rightarrow>
     cio \<Rightarrow> (int \<times> cio) option" where
  "clone su p_pid p_name p_snap_name c_pid c_name features c_order stripe_unit stripe_count bid extra c =
     (if features AND NOT RBD_FEATURES_ALL \<noteq> 0 then Some (- ENOSYS, c)
      else
        do { ((r, _), c) \<leftarrow> on_pool c_pid (detect_format c_name) c;
             if r \<noteq> - ENOENT then Some (- EEXIST, c)
             else (case p_snap_name of
               None \<Rightarrow> Some (- EINVAL, c)
             | Some sn \<Rightarrow>
                 do { ((r, par), st) \<leftarrow> open_named su p_pid p_name (Some sn) True c;
                      if r < 0 then Some (r, snd st)
                      else clone_from su p_pid par c_pid c_name features c_order stripe_unit stripe_count bid extra st }) })"

subsection \<open>The objects of an image\<close>

lemma trim_run_removes:
  assumes "idle_throttle th" "\<forall>oid. \<not> ev_fault ev pid oid < 0" "\<forall>(oid, off) \<in> set reqs. off = 0"
    "\<forall>oid \<in> fst ` set reqs. \<forall>ob. cl pid oid = Some ob \<longrightarrow> od_watchers ob = 0"
  shows "trim_run ev pid reqs (th, cl) =
     Some (th, cl(pid := (\<lambda>oid. if oid \<in> fst ` set reqs then None else cl pid oid)))"
  using assms(3,4)
proof (induction reqs arbitrary: cl)
  case Nil
  then show ?case by simp
next
  case (Cons q reqs)
  obtain oid where q: "q = (oid, 0)" using Cons.prems(1) by (cases q) auto
  let ?cl = "cl(pid := (cl pid)(oid := None))"
  have "osd_op_step osd_max_object_size OpDelete (cl pid oid) = Some (if cl pid oid = None then - ENOENT else 0, NoOut, None)"
    using Cons.prems(2) by (cases "cl pid oid") (simp_all add: q op_delete_def)
  then obtain r outs where r: "r = 0 \<or> r = - ENOENT" "aio_operate ev pid oid [trim_op 0] cl = Some (r, outs, ?cl)"
    using assms(2) fun_upd_triv [of "cl pid" oid]
    by (cases "cl pid oid") (auto simp: aio_operate_def rados_exec_def prepare_transaction_single trim_op_def)
  obtain th1 where th1: "start_op th = Some th1" "end_op r th1 = th" using throttle_round [OF assms(1) r(1)] by blast
  have "trim_run ev pid reqs (th, ?cl) = Some (th, ?cl(pid := (\<lambda>o'. if o' \<in> fst ` set reqs then None else ?cl pid o')))"
    using Cons.prems by (intro Cons.IH) auto
  then show ?case by (simp add: q th1 r(2)) (auto simp: fun_eq_iff)
qed

definition all_objects :: "string \<Rightarrow> u64 \<Rightarrow> string set" where
  "all_objects i n = (\<lambda>k. format_oid (data_objects i) (of_nat k)) ` {..< unat n}"

text \<open>The number of objects of an image of plain layout; the sum must not wrap.\<close>

lemma trim_all:
  assumes "get_stripe_period ic = OBJECT_SIZE" "ic_stripe_count ic = 1" "ic_format_string ic = data_objects i"
    "\<forall>oid. \<not> ev_fault ev (data_ctx ic DEFAULT_POOL) oid < 0" "management_ops \<noteq> 0"
    "\<forall>k ob. cl (data_ctx ic DEFAULT_POOL) (format_oid (data_objects i) k) = Some ob \<longrightarrow> od_watchers ob = 0"
    "n = (ic_size ic + OBJECT_SIZE - 1) div OBJECT_SIZE"
  shows "trim_image ev management_ops ic 0 cl = Some (cl(data_ctx ic DEFAULT_POOL :=
     (\<lambda>oid. if oid \<in> all_objects i n then None else cl (data_ctx ic DEFAULT_POOL) oid)))"
proof -
  let ?reqs = "map (\<lambda>k. (format_oid (data_objects i) (of_nat k), 0 :: u64)) [0 ..< unat n]"
  have z: "(OBJECT_SIZE - 1) div OBJECT_SIZE = 0" "OBJECT_SIZE \<noteq> 0" by (simp_all add: OBJECT_SIZE_def)
  have reqs: "trim_requests ic 0 = Some ?reqs"
    using z by (simp add: trim_requests_def assms(1,2,7) get_num_objects_def get_object_name_def assms(3) Let_def)
  have "idle_throttle (new_throttle management_ops True)" using assms(5) by (simp add: idle_throttle_def new_throttle_def)
  then have "trim_run ev (data_ctx ic DEFAULT_POOL) ?reqs (new_throttle management_ops True, cl) =
      Some (new_throttle management_ops True, cl(data_ctx ic DEFAULT_POOL :=
        (\<lambda>oid. if oid \<in> fst ` set ?reqs then None else cl (data_ctx ic DEFAULT_POOL) oid)))"
    using assms(4,6) by (intro trim_run_removes) auto
  moreover have "fst ` set ?reqs = all_objects i n" by (auto simp: all_objects_def atLeast0LessThan image_image)
  moreover have "wait_for_ret (new_throttle management_ops True) = Some 0" by (simp add: wait_for_ret_def new_throttle_def)
  ultimately show ?thesis by (simp only: trim_image_def reqs bind.simps) simp
qed

subsection \<open>A removal\<close>

definition no_ref :: parent_ref where
  "no_ref = (- 1, [], CEPH_NOSNAP)"

text \<open>An image of 4 MB objects without snapshots and without a parent, in the directory \<open>d\<close> of its pool.\<close>

definition removable :: "pool \<Rightarrow> dir \<Rightarrow> string \<Rightarrow> string \<Rightarrow> header \<Rightarrow> bool" where
  "removable q d name i hdr \<longleftrightarrow> image_at q name i hdr \<and> h_snaps hdr = [] \<and> h_parent hdr = None
     \<and> lacks hdr RBD_FEATURE_STRIPINGV2 \<and> h_order hdr = 22 \<and> h_prefix hdr = data_prefix i
     \<and> dir_reprs d (q RBD_DIRECTORY) \<and> dir_ok d \<and> map_of d name = Some i
     \<and> (\<exists>fam. family_reprs fam (q RBD_CHILDREN) \<and> fam no_ref = [])
     \<and> (\<forall>ob. q (header_name i) = Some ob \<longrightarrow> od_watchers ob = 0)
     \<and> (\<forall>k ob. q (format_oid (data_objects i) k) = Some ob \<longrightarrow> od_watchers ob = 0)"

definition calm :: "surroundings \<Rightarrow> bool" where
  "calm su \<longleftrightarrow> lock_free (su_lock su) \<and> \<not> su_watch su < 0 \<and> su_ops su \<noteq> 0 \<and> em_map (ic_extent_map (su_mem su)) = []
     \<and> (\<forall>pid oid. \<not> ev_fault (su_env su) pid oid < 0)"

lemma no_child_removed:
  assumes "family_reprs f (p oid)" "f ref = []" "ref_fits ref" "short c"
  shows "cl_remove_child oid ref c ([], p) = Some (- ENOENT, ([], p))"
proof -
  obtain obs where "cls_call rbd_remove_child (encode_ref_child (ref, c)) (p oid) = Some (- ENOENT, [], obs)"
    using remove_child_call [OF assms(1,3,4)] assms(2) by auto
  from io_call_run [where p = p and oid = oid and fs = "[]", OF this] show ?thesis by (simp add: cl_remove_child_def)
qed

lemma client_dir_get_id:
  assumes "dir_reprs d (p oid)" "dir_ok d" "map_of d n = Some i"
  shows "cl_dir_get_id oid n ([], p) = Some (Inr i, ([], p))"
proof -
  have s: "short n" "short i" using assms(2) map_of_SomeD [OF assms(3)] by (auto simp: dir_ok_def)
  have "cls_call rbd_dir_get_id (encode_string n) (p oid) = Some (0, encode_string i, p oid)"
    using dir_lookups(1) [OF assms(1,2) s(1)] assms(3) by simp
  note run = io_ask_run [where p = p and oid = oid and fs = "[]", OF this]
  show ?thesis using s(2) by (simp add: cl_dir_get_id_def run cstr.dec_enc_end)
qed

lemma client_dir_remove:
  assumes "dir_reprs d (p RBD_DIRECTORY)" "dir_ok d" "map_of d n = Some i"
  shows "\<exists>p'. cl_dir_remove_image RBD_DIRECTORY n i ([], p) = Some (0, ([], p'))
     \<and> dir_reprs (smap_erase n d) (p' RBD_DIRECTORY) \<and> (\<forall>o'. o' \<noteq> RBD_DIRECTORY \<longrightarrow> p' o' = p o')"
proof -
  have "dir_fits (DirRemove n i)" using assms(2) map_of_SomeD [OF assms(3)] by (auto simp: dir_ok_def)
  moreover have "\<not> dir_removable n i d < 0" using assms(3) by (simp only: dir_removable_iff)
  then have "dir_spec (DirRemove n i) d = (0, smap_erase n d)" by simp
  ultimately show ?thesis
    using dir_call_run [where p = p and oid = RBD_DIRECTORY, OF assms(1,2)] unfolding dir_call_forms by fastforce
qed

lemma remove_new_entry_run:
  assumes "dir_reprs d (cl pid RBD_DIRECTORY)" "dir_ok d" "map_of d name = Some i" "cl pid (id_obj_name name) = Some (id_object i)"
  shows "\<exists>q. remove_new_entry pid name j ([], cl) = Some (0, ([], cl(pid := q)))
     \<and> q (id_obj_name name) = None \<and> dir_reprs (smap_erase name d) (q RBD_DIRECTORY)
     \<and> (\<forall>oid. oid \<notin> {id_obj_name name, RBD_DIRECTORY} \<longrightarrow> q oid = cl pid oid)"
proof -
  let ?p = "(cl pid)(id_obj_name name := None)"
  have d: "dir_reprs d (?p RBD_DIRECTORY)" using assms(1) by simp
  obtain q where q: "cl_dir_remove_image RBD_DIRECTORY name i ([], ?p) = Some (0, ([], q))"
    "dir_reprs (smap_erase name d) (q RBD_DIRECTORY)" "\<forall>o'. o' \<noteq> RBD_DIRECTORY \<longrightarrow> q o' = ?p o'"
    using client_dir_remove [where p = ?p, OF d assms(2,3)] by blast
  have "remove_new_entry pid name j ([], cl) = Some (0, ([], cl(pid := q)))"
    by (simp add: remove_new_entry_def on_pool_def io_remove_run [where p = "cl pid", OF assms(4) id_object_watchers]
        client_dir_get_id [where p = ?p, OF d assms(2,3)] q(1))
  then show ?thesis using q(2,3) by (intro exI [of _ q]) simp
qed

lemma removed_names:
  "RBD_CHILDREN \<noteq> RBD_DIRECTORY" "RBD_CHILDREN \<noteq> id_obj_name name" "RBD_CHILDREN \<noteq> header_name i"
  "format_oid (data_objects i) k \<noteq> RBD_CHILDREN"
  by (simp_all add: RBD_CHILDREN_def RBD_DIRECTORY_def id_obj_name_def header_name_def format_oid_def data_objects_def data_prefix_def)

lemma not_data_object:
  "RBD_DIRECTORY \<notin> all_objects i n" "id_obj_name name \<notin> all_objects i n" "header_name j \<notin> all_objects i n"
  "RBD_CHILDREN \<notin> all_objects i n"
  by (simp_all add: all_objects_def image_iff data_object_names [THEN not_sym] removed_names(4) [THEN not_sym])

lemma header_present: "reprs hdr obs \<Longrightarrow> obs \<noteq> None"
  by (auto simp: reprs_def)

lemma open_named_plain:
  assumes "removable (cl pid) d name i hdr" "calm su"
  obtains ic where "open_named su pid name None False ([], cl) = Some ((0, None), (ic, ([], cl)))"
    "ic_id ic = i" "ic_header_oid ic = header_name i" "\<not> ic_old_format ic" "ic_snaps ic = []" "ic_parent_md ic = no_parent"
    "get_stripe_period ic = OBJECT_SIZE" "ic_stripe_count ic = 1" "ic_format_string ic = data_objects i"
    "ic_size ic = h_size hdr" "md_ctx ic DEFAULT_POOL = pid"
proof -
  let ?new = "new_ImageCtx False (su_conf su) (su_mem su) name [] None pid pid False"
  define ic where "ic = opened hdr i ?new"
  have r: "image_at (cl pid) name i hdr" "h_snaps hdr = []" "h_parent hdr = None" "lacks hdr RBD_FEATURE_STRIPINGV2"
    "h_order hdr = 22" "h_prefix hdr = data_prefix i"
    using assms(1) by (simp_all add: removable_def)
  have new: "ic_id ?new = []" "ic_snap_name ?new = []" "ic_snap_id ?new = CEPH_NOSNAP" "\<not> ic_watch ?new" "ic_name ?new = name"
    "md_ctx ?new DEFAULT_POOL = pid"
    by (simp_all add: new_ImageCtx_def md_ctx_def data_ctx_def)
  note plain = opened_plain [OF r(4-6) r(3) ic_def]
  have "open_named su pid name None False ([], cl) = Some ((0, None), (initialize_WHOBBS ic, ([], cl)))"
    unfolding open_named_def ic_def using r assms(2) new by (intro open_found) (simp_all add: calm_def)
  moreover have "initialize_WHOBBS ic = reopened ic" using assms(2) by (intro initialize_new) (simp add: plain(8) calm_def)
  moreover have "ic_id (reopened ic) = i" "ic_header_oid (reopened ic) = header_name i" "\<not> ic_old_format (reopened ic)"
    "ic_snaps (reopened ic) = []" "ic_parent_md (reopened ic) = no_parent" "get_stripe_period (reopened ic) = OBJECT_SIZE"
    "ic_stripe_count (reopened ic) = 1" "ic_format_string (reopened ic) = data_objects i" "ic_size (reopened ic) = h_size hdr"
    "md_ctx (reopened ic) DEFAULT_POOL = pid"
    using plain r(2) by (simp_all add: reopened_def initialize_WHOBBS_def Let_def new_migrater_def get_stripe_period_def md_ctx_def data_ctx_def)
  ultimately show ?thesis by (intro that [of "reopened ic"]) simp_all
qed

text \<open>C21. \<open>remove\<close> removes an image without snapshots and parent: it returns 0, the id object, the header and every
  data object of the image are gone from its pool, the directory has lost exactly its entry, and no other
  object has changed. That holds for the one pool it is given: whatever the tiering has put on another
  pool stays there.\<close>

theorem remove_exact:
  assumes "removable (cl pid) d name i hdr" "calm su" "n = (h_size hdr + OBJECT_SIZE - 1) div OBJECT_SIZE"
  shows "\<exists>q. remove_image su pid name ([], cl) = Some (0, ([], cl(pid := q)))
    \<and> q (id_obj_name name) = None \<and> q (header_name i) = None \<and> (\<forall>oid \<in> all_objects i n. q oid = None)
    \<and> dir_reprs (smap_erase name d) (q RBD_DIRECTORY)
    \<and> (\<forall>oid. oid \<notin> {id_obj_name name, header_name i, RBD_DIRECTORY} \<union> all_objects i n \<longrightarrow> q oid = cl pid oid)"
proof -
  obtain ic where ic: "open_named su pid name None False ([], cl) = Some ((0, None), (ic, ([], cl)))"
    "ic_id ic = i" "ic_header_oid ic = header_name i" "\<not> ic_old_format ic" "ic_snaps ic = []" "ic_parent_md ic = no_parent"
    "get_stripe_period ic = OBJECT_SIZE" "ic_stripe_count ic = 1" "ic_format_string ic = data_objects i"
    "ic_size ic = h_size hdr" "md_ctx ic DEFAULT_POOL = pid"
    by (rule open_named_plain [where cl = cl and pid = pid, OF assms(1,2)])
  have r: "dir_reprs d (cl pid RBD_DIRECTORY)" "dir_ok d" "map_of d name = Some i" "short i"
    "\<forall>k ob. cl pid (format_oid (data_objects i) k) = Some ob \<longrightarrow> od_watchers ob = 0"
    "cl pid (id_obj_name name) = Some (id_object i)"
    using assms(1) by (simp_all add: removable_def image_at_def small_short)
  obtain fam where fam: "family_reprs fam (cl pid RBD_CHILDREN)" "fam no_ref = []" using assms(1) by (auto simp: removable_def)
  obtain hob where h: "cl pid (header_name i) = Some hob" "od_watchers hob = 0"
    using assms(1) header_present [of hdr "cl pid (header_name i)"] by (auto simp: removable_def image_at_def)
  let ?p1 = "\<lambda>oid. if oid \<in> all_objects i n then None else cl pid oid"
  let ?p2 = "?p1(header_name i := None)"
  have c: "data_ctx ic DEFAULT_POOL = pid" using ic(11) by (simp add: md_ctx_def)
  have trim: "trim_image (su_env su) (su_ops su) ic 0 cl = Some (cl(pid := ?p1))"
    using trim_all [OF ic(7-9), of "su_env su" "su_ops su" cl n, unfolded c ic(10)] assms(2,3) r(5)
    by (simp add: calm_def)
  have "ref_of (pi_spec (ic_parent_md ic)) = no_ref" by (simp add: ic(6) no_parent_def ref_of_def no_ref_def)
  moreover have f1: "family_reprs fam (?p1 RBD_CHILDREN)" using fam(1) by (simp add: not_data_object)
  have "ref_fits no_ref" by (simp add: ref_fits_def no_ref_def short_def)
  from no_child_removed [where p = ?p1 and oid = RBD_CHILDREN, OF f1 fam(2) this r(4)]
  have "cl_remove_child RBD_CHILDREN no_ref i ([], ?p1) = Some (- ENOENT, ([], ?p1))" .
  moreover have h1: "?p1 (header_name i) = Some hob" using h(1) by (simp add: not_data_object)
  ultimately have opened: "remove_opened su pid (ic, ([], cl)) = Some (Inr (), ([], cl(pid := ?p2)))"
    by (simp add: remove_opened_def trim ic(2,3,5,11) on_pool_def io_remove_run [where p = ?p1, OF h1 h(2)])
  have d: "dir_reprs d ((cl(pid := ?p2)) pid RBD_DIRECTORY)" "(cl(pid := ?p2)) pid (id_obj_name name) = Some (id_object i)"
    using r by (simp_all add: not_data_object)
  from remove_new_entry_run [where cl = "cl(pid := ?p2)" and pid = pid and j = i, OF d(1) r(2,3) d(2)] obtain q where q:
    "remove_new_entry pid name i ([], cl(pid := ?p2)) = Some (0, ([], cl(pid := q)))" "q (id_obj_name name) = None"
    "dir_reprs (smap_erase name d) (q RBD_DIRECTORY)" "\<forall>oid. oid \<notin> {id_obj_name name, RBD_DIRECTORY} \<longrightarrow> q oid = ?p2 oid"
    by auto
  have "remove_image su pid name ([], cl) = Some (0, ([], cl(pid := q)))"
    by (simp add: remove_image_def ic(1,2,4) opened remove_entry_def q(1))
  moreover have "q oid = None" if "oid \<in> all_objects i n" for oid
  proof -
    have "oid \<notin> {id_obj_name name, RBD_DIRECTORY}" "oid \<noteq> header_name i" using that not_data_object by blast+
    then have "q oid = ?p2 oid" "?p2 oid = None" using q(4) that by (blast, simp)
    then show ?thesis by simp
  qed
  moreover have "header_name i \<noteq> id_obj_name name" "header_name i \<noteq> RBD_DIRECTORY"
    using r(6) d(2) h(1) by (auto simp: removed_names)
  then have "q (header_name i) = None" using q(4) by simp
  moreover have "q oid = cl pid oid" if "oid \<notin> {id_obj_name name, header_name i, RBD_DIRECTORY} \<union> all_objects i n" for oid
    using that q(4) by simp
  ultimately show ?thesis using q(2,3) by blast
qed


lemma created_removable:
  assumes "create_ready p d name i" "i = image_id_of bid extra" "p (old_header_name name) = None"
    "features AND NOT RBD_FEATURES_ALL = 0" "features AND RBD_FEATURE_STRIPINGV2 = 0" "everywhere no_watchers p"
    "family_reprs fam (p RBD_CHILDREN)" "fam no_ref = []" "hdr = created sz 22 features (data_prefix i)"
  obtains q where "create cf bid extra name sz False features 22 0 0 ([], p) = Some ((0, 22), ([], q))"
    "removable q (smap_put name i d) name i hdr"
    "\<forall>o'. o' \<notin> {id_obj_name name, RBD_DIRECTORY, header_name i} \<longrightarrow> q o' = p o'"
proof -
  have o: "12 \<le> (22 :: int)" "(22 :: int) < 64" "striping_ok 22 features 0 0" "passed_on 22 0 0 = (0, 0)"
    using assms(5) by (simp_all add: striping_ok_def passed_on_def)
  have hdr: "new_header sz 22 features i 0 0 = hdr" using new_header_plain(9) [OF assms(5) refl] assms(9) by simp
  note plain = new_header_plain [OF assms(5) hdr [symmetric]]
  obtain q where q: "create cf bid extra name sz False features 22 0 0 ([], p) = Some ((0, 22), ([], q))"
    "create_v2 name bid extra sz 22 features 0 0 ([], p) = Some (0, ([], q))" "image_created p d name i hdr q"
    using create_done [where p = p and cf = cf and sz = sz, OF assms(1-4) o] hdr by auto
  have small: "small_string i" "small_string (data_prefix i)"
    using image_id_valid length_image_id [of bid extra] by (simp_all add: assms(2) small_string_def data_prefix_def)
  have "everywhere no_watchers q"
    using create_keeps [OF q(2) _ assms(6) _ no_watchers_keeping_methods] assms(1)
    by (simp add: create_ready_def no_watchers_def watchers_def)
  then have w: "\<forall>oid ob. q oid = Some ob \<longrightarrow> od_watchers ob = 0"
    unfolding everywhere_def no_watchers_def watchers_def by (metis option.simps(5))
  have "dir_ok (smap_put name i d)" "map_of (smap_put name i d) name = Some i"
    using assms(1) image_id_valid [of bid extra] small by (auto simp: create_ready_def assms(2) dir_ok_put map_of_smap_put small_short)
  moreover have "q RBD_CHILDREN = p RBD_CHILDREN" using q(3) by (simp add: image_created_def removed_names)
  moreover have "image_at q name i hdr"
    using q(3) assms(2,3) small old_header_name_differs [of name] created_ok [OF small(2)]
    by (simp add: image_at_def image_created_def plain(6,7)) (simp add: assms(9) created_def short_def CEPH_MAXSNAP_def)
  ultimately have "removable q (smap_put name i d) name i hdr"
    using q(3) plain assms(7,8) w by (auto simp: removable_def image_created_def)
  moreover have "\<forall>o'. o' \<notin> {id_obj_name name, RBD_DIRECTORY, header_name i} \<longrightarrow> q o' = p o'"
    using q(3) unfolding image_created_def by blast
  ultimately show ?thesis using q(1) by (intro that)
qed

definition calm_surroundings :: surroundings where
  "calm_surroundings =
     \<lparr>su_conf = \<lparr>cf_cache_writethrough_until_flush = False, cf_cache_max_dirty = 0, cf_balance_snap_reads = False,
        cf_localize_snap_reads = False\<rparr>,
      su_create = \<lparr>cc_default_format = 2, cc_default_features = 3, cc_default_order = 22, cc_default_stripe_unit = 0,
        cc_default_stripe_count = 0\<rparr>,
      su_mem = image_9M\<lparr>ic_extent_map := \<lparr>extent_size = 0, map_size = 0, em_map = []\<rparr>\<rparr>, su_lock = no_locks,
      su_parent = \<lambda>_. Inl (- ENOENT), su_watch = 0, su_env = quiet_env, su_ops = 10\<rparr>"

lemma calm_surroundings_calm: "calm calm_surroundings"
  by (simp add: calm_def calm_surroundings_def no_locks_free quiet_env_def)

lemma no_children: "family_reprs (\<lambda>_. []) None"
  by (simp add: family_reprs_def string_set_def short_def)

lemma remove_exact_witness:
  "\<exists>q q'. create (su_create calm_surroundings) 16 32 ''a'' 9000000 False 1 22 0 0 ([], \<lambda>_. None) = Some ((0, 22), ([], q))
     \<and> q (id_obj_name ''a'') \<noteq> None
     \<and> remove_image calm_surroundings 3 ''a'' ([], (\<lambda>_ _. None)(3 := q)) = Some (0, ([], (\<lambda>_ _. None)(3 := q')))
     \<and> q' (id_obj_name ''a'') = None \<and> q' (header_name (image_id_of 16 32)) = None \<and> dir_reprs [] (q' RBD_DIRECTORY)"
proof -
  let ?p = "(\<lambda>_. None) :: pool" and ?i = "image_id_of 16 32"
  have ready: "create_ready ?p [] ''a'' ?i" using dir_reprs_absent by (simp add: create_ready_def short_def)
  have f: "(1 :: u64) AND NOT RBD_FEATURES_ALL = 0" "(1 :: u64) AND RBD_FEATURE_STRIPINGV2 = 0"
    by (simp_all add: RBD_FEATURES_ALL_def RBD_FEATURE_LAYERING_def RBD_FEATURE_STRIPINGV2_def)
  have e: "?p (old_header_name ''a'') = None" "everywhere no_watchers ?p" "family_reprs (\<lambda>_. []) (?p RBD_CHILDREN)"
    using no_children by (simp_all add: everywhere_def no_watchers_def watchers_def)
  obtain q where q: "create (su_create calm_surroundings) 16 32 ''a'' 9000000 False 1 22 0 0 ([], ?p) = Some ((0, 22), ([], q))"
    "removable q (smap_put ''a'' ?i []) ''a'' ?i (created 9000000 22 1 (data_prefix ?i))"
    by (rule created_removable [where p = ?p, OF ready refl e(1) f e(2,3) refl refl])
  let ?cl = "((\<lambda>_ _. None) :: cluster)(3 := q)"
  have r: "removable (?cl 3) (smap_put ''a'' ?i []) ''a'' ?i (created 9000000 22 1 (data_prefix ?i))" using q(2) by simp
  obtain q' where "remove_image calm_surroundings 3 ''a'' ([], ?cl) = Some (0, ([], ?cl(3 := q')))"
    "q' (id_obj_name ''a'') = None" "q' (header_name ?i) = None" "dir_reprs (smap_erase ''a'' (smap_put ''a'' ?i [])) (q' RBD_DIRECTORY)"
    using remove_exact [where cl = ?cl and pid = 3, OF r calm_surroundings_calm refl] by blast
  moreover have "q (id_obj_name ''a'') \<noteq> None" using q(2) by (simp add: removable_def image_at_def)
  ultimately show ?thesis using q(1) by (intro exI [of _ q] exI [of _ q']) simp
qed

end
