(* ===== verification/Clone_Exact.thy ===== *)
theory Clone_Exact
  imports Image_Clone
begin

text \<open>
  What a clone leaves behind. Lemmas: opening an image without a parent at one of its snapshots, what the
  context then says of the snapshot, and the steps of \<open>clone\<close> in their order.
\<close>

subsection \<open>An image opened at a snapshot\<close>

lemma set_smap_insert: "set (smap_insert k v m) \<subseteq> insert (k, v) (set m)"
  by (induction k v m rule: smap_insert.induct) auto

lemma names_read_entries:
  "set (names_read hdr xs m) \<subseteq> set m \<union> (\<lambda>(i, s). (cs_name s, snap_info hdr i s)) ` set xs"
proof (induction xs arbitrary: m)
  case Nil
  then show ?case by (simp add: names_read_def)
next
  case (Cons e xs)
  obtain i s where e: "e = (i, s)" by fastforce
  have "names_read hdr (e # xs) m = names_read hdr xs (smap_insert (cs_name s) (snap_info hdr i s) m)"
    by (simp add: names_read_def e)
  then show ?case using Cons.IH [of "smap_insert (cs_name s) (snap_info hdr i s) m"]
      set_smap_insert [of "cs_name s" "snap_info hdr i s" m] by (auto simp: e)
qed

definition snap_of :: "header \<Rightarrow> u64 \<Rightarrow> cls_rbd_snap \<Rightarrow> bool" where
  "snap_of hdr i s \<longleftrightarrow> header_ok hdr \<and> (i, s) \<in> set (h_snaps hdr)"

lemma snap_found:
  assumes "snap_of hdr i s" "ic_snaps_by_name ic = names_read hdr (rev (h_snaps hdr)) []"
  shows "map_of (ic_snaps_by_name ic) (cs_name s) = Some (snap_info hdr i s)" "get_snap_name ic i = Some (cs_name s)"
    "i \<noteq> CEPH_NOSNAP" "get_snap_id ic (cs_name s) = i" "snap_lookup ic i = Some (snap_info hdr i s)"
proof -
  let ?m = "names_read hdr (rev (h_snaps hdr)) []"
  have h: "distinct (map (\<lambda>e. cs_name (snd e)) (rev (h_snaps hdr)))" "smap_ok (h_snaps hdr)" "(i, s) \<in> set (h_snaps hdr)"
    "snap_entry_ok (h_seq hdr) (i, s)"
    using assms(1) by (auto simp: snap_of_def header_ok_def rev_map [symmetric])
  show n: "map_of (ic_snaps_by_name ic) (cs_name s) = Some (snap_info hdr i s)"
    using names_read_lookup [OF smap_ok_Nil h(1)] h(3) by (simp add: assms(2))
  then show "get_snap_id ic (cs_name s) = i" by (simp add: get_snap_id_def snap_info_def)
  have "i \<le> CEPH_MAXSNAP" using h(4) by (simp add: snap_entry_ok_def)
  then show "i \<noteq> CEPH_NOSNAP" by (auto simp: CEPH_MAXSNAP_def CEPH_NOSNAP_def)
  have only: "e = (cs_name s, snap_info hdr i s)" if e: "e \<in> set ?m" "si_id (snd e) = i" for e
  proof -
    obtain j t where t: "(j, t) \<in> set (h_snaps hdr)" "e = (cs_name t, snap_info hdr j t)"
      using names_read_entries [of hdr "rev (h_snaps hdr)" "[]"] e(1) by auto
    then have "j = i" using e(2) by (simp add: snap_info_def)
    then have "t = s" using t(1) h(2,3) by (metis map_of_eq_Some_iff smap_ok_distinct option.inject)
    then show ?thesis using t(2) \<open>j = i\<close> by simp
  qed
  have "(cs_name s, snap_info hdr i s) \<in> set ?m" using n assms(2) by (auto dest: map_of_SomeD)
  then have "find (\<lambda>(_, si). si_id si = i) ?m \<noteq> None"
    unfolding find_None_iff by (force simp: snap_info_def)
  then obtain e where e: "find (\<lambda>(_, si). si_id si = i) ?m = Some e" by blast
  then have "e \<in> set ?m" "si_id (snd e) = i" by (auto simp: find_Some_iff split_beta)
  then have "e = (cs_name s, snap_info hdr i s)" by (rule only)
  then show name: "get_snap_name ic i = Some (cs_name s)" using e by (simp add: get_snap_name_def assms(2))
  show "snap_lookup ic i = Some (snap_info hdr i s)" using n by (simp add: snap_lookup_def name)
qed

text \<open>What \<open>clone\<close> asks of the context of the parent, and a snapshot without a parent of its own.\<close>

definition at_snap :: "header \<Rightarrow> string \<Rightarrow> u64 \<Rightarrow> cls_rbd_snap \<Rightarrow> int \<Rightarrow> ImageCtx \<Rightarrow> bool" where
  "at_snap hdr img i s pid ic \<longleftrightarrow> ic_id ic = img \<and> ic_header_oid ic = header_name img \<and> \<not> ic_old_format ic \<and> ic_snap_id ic = i
     \<and> ic_snap_name ic = cs_name s \<and> ic_snaps_by_name ic = names_read hdr (rev (h_snaps hdr)) []
     \<and> unat (ic_order ic) = unat (h_order hdr) \<and> md_ctx ic DEFAULT_POOL = pid"

definition orphan_snap :: "header \<Rightarrow> u64 \<Rightarrow> cls_rbd_snap \<Rightarrow> bool" where
  "orphan_snap hdr i s \<longleftrightarrow> snap_of hdr i s \<and> sint (cp_pool (seen_parent hdr i)) = - 1"

lemma no_parent_at_snap:
  assumes "orphan_snap hdr i s" "ic_snaps_by_name ic = names_read hdr (rev (h_snaps hdr)) []" "ic_snap_id ic = i"
  shows "refresh_parent op None ic = (0, None, ic\<lparr>ic_has_parent := False\<rparr>)"
proof -
  have s: "snap_of hdr i s" using assms(1) by (simp add: orphan_snap_def)
  have "ic_snaps_by_name (ic\<lparr>ic_has_parent := False\<rparr>) = names_read hdr (rev (h_snaps hdr)) []" using assms(2) by simp
  note found = snap_found [OF s this]
  have "get_parent_pool_id (ic\<lparr>ic_has_parent := False\<rparr>) i = - 1"
    using found assms(1) by (simp add: get_parent_pool_id_def snap_info_def info_of_def orphan_snap_def)
  then show ?thesis by (simp add: refresh_parent_def assms(3) Let_def)
qed

lemma open_at_snap:
  assumes "image_at (cl pid) name img hdr" "h_parent hdr = None" "orphan_snap hdr i s" "cs_name s \<noteq> []" "calm su"
  obtains ic where "open_named su pid name (Some (cs_name s)) True ([], cl) = Some ((0, None), (ic, ([], cl)))"
    "at_snap hdr img i s pid ic"
proof -
  let ?new = "new_ImageCtx False (su_conf su) (su_mem su) name [] (Some (cs_name s)) pid pid True"
  define ic1 where "ic1 = init_image hdr img ?new"
  define ic2 where "ic2 = finish_refresh hdr (ic_refresh_seq ic1) ((read_context hdr ic1)\<lparr>ic_has_parent := False\<rparr>)"
  define ic3 where "ic3 = ic2\<lparr>ic_snap_name := cs_name s, ic_snap_id := i, ic_snap_exists := True, ic_has_parent := False\<rparr>"
  have new: "ic_id ?new = []" "ic_snap_name ?new = cs_name s" "ic_snap_id ?new = CEPH_NOSNAP" "ic_read_only ?new" "ic_name ?new = name"
    "md_ctx ?new DEFAULT_POOL = pid"
    by (simp_all add: new_ImageCtx_def md_ctx_def data_ctx_def)
  have s: "snap_of hdr i s" and lk: "lock_free (su_lock su)" using assms(3,5) by (simp_all add: orphan_snap_def calm_def)
  have 1: "ic_snap_id ic1 = CEPH_NOSNAP" "ic_header_oid ic1 = header_name img" "\<not> ic_old_format ic1" "md_ctx ic1 DEFAULT_POOL = pid"
    "ic_read_only ic1" "ic_snap_name ic1 = cs_name s"
    using new by (simp_all add: ic1_def)
  note p = refresh_no_parent [where op = "su_parent su", OF assms(2) 1(1)]
  have refresh: "ictx_refresh (su_lock su) (su_parent su) None (ic1, ([], cl)) = Some ((0, None), (ic2, ([], cl)))"
    using refresh_found [where cl = cl and ic = ic1 and op = "su_parent su" and par = None, OF _ lk 1(2,3)] assms(1) 1(4) p
    by (simp add: ic2_def)
  have 2: "ic_snap_name ic2 = cs_name s" "ic_snaps_by_name ic2 = names_read hdr (rev (h_snaps hdr)) []"
    using 1(6) by (simp_all add: ic2_def read_context_keeps)
  note found = snap_found [OF s 2(2)]
  have set_to: "snap_set (cs_name s) ic2 = (0, ic2\<lparr>ic_snap_name := cs_name s, ic_snap_id := i, ic_snap_exists := True\<rparr>)"
    using found(1) by (simp add: snap_set_def snap_info_def)
  have "refresh_parent (su_parent su) None (ic2\<lparr>ic_snap_name := cs_name s, ic_snap_id := i, ic_snap_exists := True\<rparr>) = (0, None, ic3)"
    using no_parent_at_snap [OF assms(3), where op = "su_parent su" and
        ic = "ic2\<lparr>ic_snap_name := cs_name s, ic_snap_id := i, ic_snap_exists := True\<rparr>"] 2(2) by (simp add: ic3_def)
  then have "open_rest (su_lock su) (su_parent su) (ic1, ([], cl)) = Some ((0, None), (initialize_WHOBBS ic3, ([], cl)))"
    by (simp add: open_rest_def refresh 2(1) snap_set_or_unset_def assms(4) set_to)
  moreover have "on_pool (md_ctx ?new DEFAULT_POOL) (image_init ?new) ([], cl) = Some ((0, ic1), ([], cl))"
    unfolding ic1_def using assms(1) new by (intro init_found) simp_all
  then have "on_pool pid (image_init ?new) ([], cl) = Some ((0, ic1), ([], cl))" by (simp only: new(6))
  ultimately have "open_named su pid name (Some (cs_name s)) True ([], cl) = Some ((0, None), (initialize_WHOBBS ic3, ([], cl)))"
    using 1(5) by (simp add: open_named_def open_image_def new(6))
  moreover have "at_snap hdr img i s pid ic3"
    using 2(2)
    by (simp add: at_snap_def ic3_def) (simp add: ic2_def finish_refresh_def Let_def read_context_eq ic1_def init_image_def init_layout_def
        found_image_def new_ImageCtx_def md_ctx_def data_ctx_def)
  then have "at_snap hdr img i s pid (initialize_WHOBBS ic3)"
    by (simp add: at_snap_def initialize_WHOBBS_def Let_def new_migrater_def md_ctx_def data_ctx_def split: if_splits)
  ultimately show ?thesis by (rule that)
qed

subsection \<open>The steps of a clone\<close>

lemma still_protected_run:
  assumes "at_snap hdr img i s pid ic" "reprs hdr (cl pid (header_name img))" "short (h_snaps hdr)" "h_seq hdr \<le> CEPH_MAXSNAP"
    "orphan_snap hdr i s" "calm su"
  shows "still_protected su None (ic, ([], cl)) = Some (cs_protection_status s = RBD_PROTECTION_STATUS_PROTECTED, ([], cl))"
proof -
  have s: "snap_of hdr i s" "header_ok hdr" and lk: "lock_free (su_lock su)"
    using assms(5,6) by (simp_all add: orphan_snap_def snap_of_def calm_def)
  have c: "md_ctx ic DEFAULT_POOL = pid" "ic_header_oid ic = header_name img" "\<not> ic_old_format ic" "ic_snap_name ic = cs_name s"
    "ic_snap_id ic = i"
    using assms(1) by (simp_all add: at_snap_def)
  let ?ic = "(read_context hdr ic)\<lparr>ic_has_parent := False\<rparr>"
  have "refresh_parent (su_parent su) None (read_context hdr ic) = (0, None, ?ic)"
    using c(5) by (intro no_parent_at_snap [OF assms(5)]) (simp_all add: read_context_eq)
  then have "ictx_refresh (su_lock su) (su_parent su) None (ic, ([], cl)) =
      Some ((0, None), (finish_refresh hdr (ic_refresh_seq ic) ?ic, ([], cl)))"
    using refresh_run [where cl = cl and ic = ic and op = "su_parent su" and par = None, OF _ s(2) assms(3,4) lk c(3)] assms(2)
    by (simp add: c(1,2))
  moreover have "is_snap_protected (finish_refresh hdr (ic_refresh_seq ic) ?ic) (cs_name s) =
      Some (cs_protection_status s = RBD_PROTECTION_STATUS_PROTECTED)"
    using snap_found(1) [OF s(1) read_context_keeps(2) [where sq = "ic_refresh_seq ic" and ic = ic and b = False]]
    by (simp add: is_snap_protected_def snap_info_def)
  ultimately show ?thesis by (simp add: still_protected_def read_context_keeps(1) c(4))
qed

lemma client_add_child:
  assumes "family_reprs f (p oid)" "ref_fits ref" "short c" "Suc (length (f ref)) < 2 ^ 32" "c \<notin> set (f ref)"
  obtains p' where "cl_add_child oid ref c ([], p) = Some (0, ([], p'))" "family_reprs (f(ref := set_insert c (f ref))) (p' oid)"
    "\<forall>o'. o' \<noteq> oid \<longrightarrow> p' o' = p o'"
proof -
  obtain obs where o: "cls_call rbd_add_child (encode_ref_child (ref, c)) (p oid) = Some (0, [], obs)"
    "family_reprs (f(ref := set_insert c (f ref))) obs"
    using add_child_call [OF assms(1-4)] assms(5) by auto
  from io_call_run [where p = p and oid = oid and fs = "[]", OF o(1)]
  show ?thesis using o(2) by (intro that [of "p(oid := obs)"]) (simp_all add: cl_add_child_def)
qed

text \<open>A child without a parent as yet, in a pool whose object of children is \<open>fam\<close>.\<close>

lemma clone_child_run:
  assumes "image_at (cl pid) name ci hdr" "h_parent hdr = None" "h_snaps hdr = []" "\<not> lacks hdr RBD_FEATURE_LAYERING"
    "ref = (pool, img, i)" "0 \<le> sint pool" "img \<noteq> []" "small_string img" "i \<noteq> CEPH_NOSNAP" "h_size hdr \<noteq> 0"
    "family_reprs fam (cl pid RBD_CHILDREN)" "Suc (length (fam ref)) < 2 ^ 32" "ci \<notin> set (fam ref)" "calm su"
  obtains q where "clone_child su pid name ref (h_size hdr) ([], cl) = Some (Inr ci, ([], cl(pid := q)))"
    "reprs (hdr\<lparr>h_parent := Some \<lparr>cp_pool = pool, cp_id = img, cp_snapid = i, cp_overlap = h_size hdr\<rparr>\<rparr>) (q (header_name ci))"
    "family_reprs (fam(ref := set_insert ci (fam ref))) (q RBD_CHILDREN)"
    "\<forall>oid. oid \<notin> {header_name ci, RBD_CHILDREN} \<longrightarrow> q oid = cl pid oid"
proof -
  let ?new = "new_ImageCtx False (su_conf su) (su_mem su) name [] None pid pid False"
  let ?hdr = "hdr\<lparr>h_parent := Some \<lparr>cp_pool = pool, cp_id = img, cp_snapid = i, cp_overlap = h_size hdr\<rparr>\<rparr>"
  define ic where "ic = initialize_WHOBBS (opened hdr ci ?new)"
  have new: "ic_id ?new = []" "ic_snap_name ?new = []" "ic_snap_id ?new = CEPH_NOSNAP" "\<not> ic_watch ?new" "ic_name ?new = name"
    "md_ctx ?new DEFAULT_POOL = pid"
    by (simp_all add: new_ImageCtx_def md_ctx_def data_ctx_def)
  have op: "open_named su pid name None False ([], cl) = Some ((0, None), (ic, ([], cl)))"
    unfolding open_named_def ic_def using assms(1,2,14) new by (intro open_found) (simp_all add: calm_def)
  have "ic_header_oid (opened hdr ci ?new) = header_name ci" "ic_id (opened hdr ci ?new) = ci"
    by (simp_all add: opened_def Let_def snap_unset_def finish_refresh_def read_context_eq init_image_def init_layout_def found_image_def)
  then have ic: "ic_header_oid ic = header_name ci" "ic_id ic = ci"
    by (simp_all add: ic_def initialize_WHOBBS_def Let_def new_migrater_def)
  have r: "reprs hdr (cl pid (header_name ci))" "header_ok hdr" "small_string ci" using assms(1) by (simp_all add: image_at_def)
  have "header_spec (SetParent pool img i (h_size hdr)) hdr = (0, ?hdr)" "call_fits (SetParent pool img i (h_size hdr))"
    using assms(2,4,6-10) by simp_all
  with header_call_run [where p = "cl pid" and oid = "header_name ci" and c = "SetParent pool img i (h_size hdr)", OF r(1,2)]
  obtain p1 where 1: "cl_set_parent (header_name ci) pool img i (h_size hdr) ([], cl pid) = Some (0, ([], p1))"
    "reprs ?hdr (p1 (header_name ci))" "\<forall>o'. o' \<noteq> header_name ci \<longrightarrow> p1 o' = cl pid o'"
    unfolding header_call_forms by (auto simp: fault_of_def)
  have f: "family_reprs fam (p1 RBD_CHILDREN)" using assms(11) 1(3) by (simp add: removed_names)
  have fits: "ref_fits ref" "short ci" using assms(5,8) r(3) by (simp_all add: ref_fits_def small_short)
  obtain q where q: "cl_add_child RBD_CHILDREN ref ci ([], p1) = Some (0, ([], q))"
    "family_reprs (fam(ref := set_insert ci (fam ref))) (q RBD_CHILDREN)" "\<forall>o'. o' \<noteq> RBD_CHILDREN \<longrightarrow> q o' = p1 o'"
    by (rule client_add_child [where p = p1, OF f fits assms(12,13)])
  have "clone_child su pid name ref (h_size hdr) ([], cl) = Some (Inr ci, ([], cl(pid := q)))"
    using 1(1) q(1) by (simp add: clone_child_def op ic on_pool_def assms(5))
  then show ?thesis
    using 1(2,3) q(2,3) removed_names(3) [of ci] by (intro that [of q]) (simp_all add: not_sym)
qed

text \<open>The snapshot \<open>i\<close> of the image \<open>name\<close> can be cloned into a pool.\<close>

definition clonable :: "pool \<Rightarrow> string \<Rightarrow> string \<Rightarrow> header \<Rightarrow> u64 \<Rightarrow> cls_rbd_snap \<Rightarrow> bool" where
  "clonable p name img hdr i s \<longleftrightarrow> image_at p name img hdr \<and> h_parent hdr = None \<and> orphan_snap hdr i s \<and> cs_name s \<noteq> []
     \<and> img \<noteq> [] \<and> cs_protection_status s = RBD_PROTECTION_STATUS_PROTECTED
     \<and> cs_features s AND RBD_FEATURE_LAYERING = RBD_FEATURE_LAYERING \<and> cs_image_size s \<noteq> 0"

definition clone_room :: "pool \<Rightarrow> dir \<Rightarrow> string \<Rightarrow> string \<Rightarrow> parent_ref \<Rightarrow> (parent_ref \<Rightarrow> string list) \<Rightarrow> bool" where
  "clone_room p d name ci ref fam \<longleftrightarrow> create_ready p d name ci \<and> p (old_header_name name) = None
     \<and> family_reprs fam (p RBD_CHILDREN) \<and> ci \<notin> set (fam ref) \<and> Suc (length (fam ref)) < 2 ^ 32"

lemma plain_created:
  assumes "create_ready p d name ci" "p (old_header_name name) = None" "ci = image_id_of bid extra"
    "features AND NOT RBD_FEATURES_ALL = 0" "features AND RBD_FEATURE_STRIPINGV2 = 0" "12 \<le> order" "order < 64"
    "hdr = created sz (of_int order) features (data_prefix ci)"
  obtains q where "create cf bid extra name sz False features order 0 0 ([], p) = Some ((0, order), ([], q))"
    "create_v2 name bid extra sz order features 0 0 ([], p) = Some (0, ([], q))"
    "image_at q name ci hdr" "h_parent hdr = None" "h_snaps hdr = []" "h_size hdr = sz" "h_features hdr = features"
    "dir_reprs (smap_put name ci d) (q RBD_DIRECTORY)"
    "\<forall>o'. o' \<notin> {id_obj_name name, RBD_DIRECTORY, header_name ci} \<longrightarrow> q o' = p o'"
proof -
  have o: "striping_ok order features 0 0" "passed_on order 0 0 = (0, 0)"
    using assms(5) by (simp_all add: striping_ok_def passed_on_def)
  have hdr: "new_header sz order features ci 0 0 = hdr" by (simp add: assms(8) new_header_def wants_striping_def)
  obtain q where q: "create cf bid extra name sz False features order 0 0 ([], p) = Some ((0, order), ([], q))"
    "create_v2 name bid extra sz order features 0 0 ([], p) = Some (0, ([], q))" "image_created p d name ci hdr q"
    using create_done [where p = p and cf = cf and sz = sz, OF assms(1,3,2,4,6,7) o] hdr by auto
  have small: "small_string ci" "small_string (data_prefix ci)"
    using image_id_valid length_image_id [of bid extra] by (simp_all add: assms(3) small_string_def data_prefix_def)
  have rest: "\<forall>o'. o' \<notin> {id_obj_name name, RBD_DIRECTORY, header_name ci} \<longrightarrow> q o' = p o'"
    using q(3) unfolding image_created_def by blast
  have fields: "h_parent hdr = None" "h_snaps hdr = []" "h_size hdr = sz" "h_features hdr = features" "h_seq hdr = 0"
    by (simp_all add: assms(8) created_def)
  have "image_at q name ci hdr"
    using q(3) assms(2,3) small old_header_name_differs [of name] created_ok [OF small(2)]
    by (simp add: image_at_def image_created_def fields) (simp add: assms(8) short_def CEPH_MAXSNAP_def)
  moreover have "dir_reprs (smap_put name ci d) (q RBD_DIRECTORY)" using q(3) by (simp add: image_created_def)
  ultimately show ?thesis using q(1,2) fields(1-4) rest by (intro that)
qed

lemma child_created:
  assumes "clone_room p d name ci ref fam" "ci = image_id_of bid extra" "features AND NOT RBD_FEATURES_ALL = 0"
    "features AND RBD_FEATURE_LAYERING = RBD_FEATURE_LAYERING" "features AND RBD_FEATURE_STRIPINGV2 = 0" "12 \<le> order" "order < 64"
    "hdr = created sz (of_int order) features (data_prefix ci)"
  obtains q where "create cf bid extra name sz False features order 0 0 ([], p) = Some ((0, order), ([], q))"
    "image_at q name ci hdr" "h_parent hdr = None" "h_snaps hdr = []" "h_size hdr = sz" "\<not> lacks hdr RBD_FEATURE_LAYERING"
    "dir_reprs (smap_put name ci d) (q RBD_DIRECTORY)" "family_reprs fam (q RBD_CHILDREN)"
    "\<forall>o'. o' \<notin> {id_obj_name name, RBD_DIRECTORY, header_name ci} \<longrightarrow> q o' = p o'"
proof -
  have ready: "create_ready p d name ci" "p (old_header_name name) = None" using assms(1) by (simp_all add: clone_room_def)
  obtain q where q: "create cf bid extra name sz False features order 0 0 ([], p) = Some ((0, order), ([], q))"
    "image_at q name ci hdr" "h_parent hdr = None" "h_snaps hdr = []" "h_size hdr = sz" "h_features hdr = features"
    "dir_reprs (smap_put name ci d) (q RBD_DIRECTORY)"
    "\<forall>o'. o' \<notin> {id_obj_name name, RBD_DIRECTORY, header_name ci} \<longrightarrow> q o' = p o'"
    by (rule plain_created [where p = p and cf = cf, OF ready assms(2,3,5-8)])
  have "family_reprs fam (q RBD_CHILDREN)" using assms(1) q(8) by (simp add: clone_room_def removed_names)
  moreover have "\<not> lacks hdr RBD_FEATURE_LAYERING" using assms(4) by (simp add: lacks_def q(6))
  ultimately show ?thesis using q by (intro that)
qed

text \<open>C22. A clone. When the snapshot of the parent is protected, not empty and has the layering feature, and the pool of
  the child has neither its name nor its id, \<open>clone\<close> with no failing request and nobody beside it returns 0: the
  child has an id object, an entry in the directory, a header with the size of the snapshot, the order asked
  for or that of the parent, and the snapshot as its parent over the whole size; it is among the children
  of the snapshot, and every other object of every pool is as it was. This holds also when both are in one pool.\<close>

theorem clone_exact:
  assumes "clonable (cl p_pid) p_name img phdr i s" "0 \<le> p_pid" "p_pid < 2 ^ 63" "ref = (of_int p_pid, img, i)"
    "clone_room (cl c_pid) d c_name ci ref fam" "ci = image_id_of bid extra" "features AND NOT RBD_FEATURES_ALL = 0"
    "features AND RBD_FEATURE_LAYERING = RBD_FEATURE_LAYERING" "features AND RBD_FEATURE_STRIPINGV2 = 0"
    "order = (if c_order = 0 then int (unat (h_order phdr)) else c_order)" "12 \<le> order" "order < 64" "calm su"
    "hdr = created (cs_image_size s) (of_int order) features (data_prefix ci)"
  shows "\<exists>q. clone su p_pid p_name (Some (cs_name s)) c_pid c_name features c_order 0 0 bid extra ([], cl)
        = Some (0, ([], cl(c_pid := q)))
    \<and> q (id_obj_name c_name) = Some (id_object ci) \<and> dir_reprs (smap_put c_name ci d) (q RBD_DIRECTORY)
    \<and> reprs (hdr\<lparr>h_parent := Some \<lparr>cp_pool = of_int p_pid, cp_id = img, cp_snapid = i, cp_overlap = cs_image_size s\<rparr>\<rparr>)
        (q (header_name ci))
    \<and> family_reprs (fam(ref := set_insert ci (fam ref))) (q RBD_CHILDREN)
    \<and> (\<forall>oid. oid \<notin> {id_obj_name c_name, RBD_DIRECTORY, header_name ci, RBD_CHILDREN} \<longrightarrow> q oid = cl c_pid oid)"
proof -
  have p: "image_at (cl p_pid) p_name img phdr" "h_parent phdr = None" "orphan_snap phdr i s" "cs_name s \<noteq> []" "img \<noteq> []"
    "cs_protection_status s = RBD_PROTECTION_STATUS_PROTECTED" "cs_features s AND RBD_FEATURE_LAYERING = RBD_FEATURE_LAYERING"
    "cs_image_size s \<noteq> 0" "snap_of phdr i s" "small_string img" "reprs phdr (cl p_pid (header_name img))" "short (h_snaps phdr)"
    "h_seq phdr \<le> CEPH_MAXSNAP"
    using assms(1) by (simp_all add: clonable_def orphan_snap_def image_at_def)
  have free: "cl c_pid (id_obj_name c_name) = None" "cl c_pid (old_header_name c_name) = None" "cl c_pid (header_name ci) = None"
    using assms(5) by (simp_all add: clone_room_def create_ready_def)
  have room: "family_reprs fam (cl c_pid RBD_CHILDREN)" "ci \<notin> set (fam ref)" "Suc (length (fam ref)) < 2 ^ 32"
    using assms(5) by (simp_all add: clone_room_def)
  obtain ic where ic: "open_named su p_pid p_name (Some (cs_name s)) True ([], cl) = Some ((0, None), (ic, ([], cl)))"
    "at_snap phdr img i s p_pid ic"
    by (rule open_at_snap [where cl = cl and pid = p_pid, OF p(1-4) assms(13)])
  have c: "ic_id ic = img" "\<not> ic_old_format ic" "ic_snap_id ic = i" "ic_snap_name ic = cs_name s"
    "ic_snaps_by_name ic = names_read phdr (rev (h_snaps phdr)) []" "unat (ic_order ic) = unat (h_order phdr)"
    using ic(2) by (simp_all add: at_snap_def)
  note found = snap_found [OF p(9) c(5)]
  have asked: "get_features ic i = (0, cs_features s)" "get_image_size ic i = cs_image_size s" "is_snap_protected ic (cs_name s) = Some True"
    using found p(6) by (simp_all add: get_features_def get_image_size_def is_snap_protected_def snap_info_def)
  obtain q1 where 1: "create (su_create su) bid extra c_name (cs_image_size s) False features order 0 0 ([], cl c_pid)
      = Some ((0, order), ([], q1))"
    "image_at q1 c_name ci hdr" "h_parent hdr = None" "h_snaps hdr = []" "h_size hdr = cs_image_size s" "\<not> lacks hdr RBD_FEATURE_LAYERING"
    "dir_reprs (smap_put c_name ci d) (q1 RBD_DIRECTORY)" "family_reprs fam (q1 RBD_CHILDREN)"
    "\<forall>o'. o' \<notin> {id_obj_name c_name, RBD_DIRECTORY, header_name ci} \<longrightarrow> q1 o' = cl c_pid o'"
    by (rule child_created [where p = "cl c_pid" and cf = "su_create su", OF assms(5-9,11,12,14)])
  let ?cl1 = "cl(c_pid := q1)"
  have pool: "0 \<le> sint (of_int p_pid :: u64)"
    using assms(2,3) by transfer (simp add: signed_take_bit_int_eq_self)
  have at: "image_at (?cl1 c_pid) c_name ci hdr" "family_reprs fam (?cl1 c_pid RBD_CHILDREN)" "h_size hdr \<noteq> 0"
    using 1(2,5,8) p(8) by simp_all
  obtain q where q: "clone_child su c_pid c_name ref (h_size hdr) ([], ?cl1) = Some (Inr ci, ([], ?cl1(c_pid := q)))"
    "reprs (hdr\<lparr>h_parent := Some \<lparr>cp_pool = of_int p_pid, cp_id = img, cp_snapid = i, cp_overlap = h_size hdr\<rparr>\<rparr>) (q (header_name ci))"
    "family_reprs (fam(ref := set_insert ci (fam ref))) (q RBD_CHILDREN)"
    "\<forall>oid. oid \<notin> {header_name ci, RBD_CHILDREN} \<longrightarrow> q oid = ?cl1 c_pid oid"
    by (rule clone_child_run [where cl = ?cl1 and pid = c_pid, OF at(1) 1(3,4,6) assms(4) pool p(5,10) found(3) at(3,2) room(3,2) assms(13)])
  let ?cl2 = "cl(c_pid := q)"
  have rest: "q oid = cl c_pid oid" if "oid \<notin> {id_obj_name c_name, RBD_DIRECTORY, header_name ci, RBD_CHILDREN}" for oid
    using that q(4) 1(9) by simp
  have "header_name img \<noteq> header_name ci" if "c_pid = p_pid"
    using that free(3) header_present [OF p(11)] by auto
  then have "reprs phdr (?cl2 p_pid (header_name img))"
    using p(11) rest [of "header_name img"] removed_names(3) [of img] by (cases "c_pid = p_pid") (auto simp: not_sym)
  from still_protected_run [where cl = ?cl2 and pid = p_pid, OF ic(2) this p(12,13,3) assms(13)]
  have still: "still_protected su None (ic, ([], ?cl2)) = Some (True, ([], ?cl2))" using p(6) by simp
  have ord: "(if c_order = 0 then int (unat (ic_order ic)) else c_order) = order" by (simp add: assms(10) c(6))
  have "clone_from su p_pid None c_pid c_name features c_order 0 0 bid extra (ic, ([], cl)) = Some (0, ([], ?cl2))"
    using 1(5) q(1) by (simp add: clone_from_def Let_def c(1-4) asked p(7) ord on_pool_def 1(1) assms(4) [symmetric] still)
  then have "clone su p_pid p_name (Some (cs_name s)) c_pid c_name features c_order 0 0 bid extra ([], cl) = Some (0, ([], ?cl2))"
    using detect_format_missing [where p = "cl c_pid", OF free(2,1)] by (simp add: clone_def assms(7) on_pool_def ic(1))
  moreover have "q (id_obj_name c_name) = Some (id_object ci)" "dir_reprs (smap_put c_name ci d) (q RBD_DIRECTORY)"
    using q(4) 1(2,7) removed_names(1,2) by (simp_all add: image_at_def not_sym)
  ultimately show ?thesis using q(2,3) rest 1(5) by (intro exI [of _ q]) simp
qed

lemma protected_snapshot:
  obtains hdr obs s where "reprs hdr obs" "header_ok hdr" "h_size hdr = 65536" "h_order hdr = 22" "h_seq hdr = 7" "h_parent hdr = None"
    "h_snaps hdr = [(7, s)]" "cs_name s = ''b''" "cs_image_size s = 65536" "cs_features s = 1" "cs_parent s = new_cls_rbd_parent"
    "cs_protection_status s = RBD_PROTECTION_STATUS_PROTECTED" "h_features hdr = 1"
proof -
  let ?c = "created 65536 22 1 ''rb.1''" and ?cs = "[SnapAdd ''b'' 7, SetProtection 7 RBD_PROTECTION_STATUS_PROTECTED]"
  have l: "\<not> lacks ?c RBD_FEATURE_LAYERING" by (simp add: lacks_def created_def RBD_FEATURE_LAYERING_def)
  obtain obs0 where r: "reprs ?c obs0"
    using create_reprs [of 1 "''rb.1''" None 65536 22]
    by (auto simp: RBD_FEATURES_ALL_def RBD_FEATURE_LAYERING_def RBD_FEATURE_STRIPINGV2_def small_string_def omap_of_def)
  have ok: "header_ok ?c" by (rule created_ok) (simp add: small_string_def)
  have fit: "\<forall>c \<in> set ?cs. call_fits c" by (simp add: small_string_def)
  obtain rs obs hdr where h: "header_steps ?cs ?c = (rs, hdr)" "reprs hdr obs" "header_ok hdr"
    using header_history [OF r ok fit] by blast
  define s where "s = \<lparr>cs_id = 7, cs_name = ''b'', cs_image_size = 65536, cs_features = 1,
    cs_protection_status = RBD_PROTECTION_STATUS_PROTECTED, cs_parent = new_cls_rbd_parent\<rparr>"
  have hdr: "hdr = ?c\<lparr>h_seq := 7, h_snaps := [(7, s)]\<rparr>"
    using h(1) l by (auto simp: header_step_def s_def CEPH_MAXSNAP_def CEPH_NOSNAP_def lacks_def created_def RBD_PROTECTION_STATUS_PROTECTED_def
        RBD_PROTECTION_STATUS_LAST_def RBD_FEATURE_LAYERING_def)
  show ?thesis
    using h(2,3) by (rule that [of hdr obs s]) (simp_all add: hdr s_def created_def)
qed

lemma clone_exact_witness:
  "\<exists>p q. clone calm_surroundings 3 ''img'' (Some ''b'') 3 ''c'' 1 0 0 0 16 32 ([], (\<lambda>_ _. None)(3 := p))
      = Some (0, ([], (\<lambda>_ _. None)(3 := q)))
    \<and> p (id_obj_name ''c'') = None \<and> q (id_obj_name ''c'') = Some (id_object (image_id_of 16 32))
    \<and> family_reprs ((\<lambda>_. [])((3, ''1'', 7) := [image_id_of 16 32])) (q RBD_CHILDREN)"
proof -
  let ?i = "image_id_of 16 32"
  obtain hdr obs s where h: "reprs hdr obs" "header_ok hdr" "h_size hdr = 65536" "h_order hdr = 22" "h_seq hdr = 7" "h_parent hdr = None"
    "h_snaps hdr = [(7, s)]" "cs_name s = ''b''" "cs_image_size s = 65536" "cs_features s = 1" "cs_parent s = new_cls_rbd_parent"
    "cs_protection_status s = RBD_PROTECTION_STATUS_PROTECTED" "h_features hdr = 1"
    by (rule protected_snapshot)
  define p where "p = (\<lambda>_. None)(id_obj_name ''img'' := Some (id_object ''1''), header_name ''1'' := obs)"
  let ?cl = "((\<lambda>_ _. None) :: cluster)(3 := p)"
  have "?i \<noteq> ''1''" by code_simp
  then have i: "header_name ?i \<noteq> header_name ''1''" by simp
  have "image_at (?cl 3) ''img'' ''1'' hdr"
    using h(1,2,5,7) old_header_name_differs(1) [of "''img''"]
    by (simp add: image_at_def p_def small_string_def short_def CEPH_MAXSNAP_def old_header_name_def header_name_def id_obj_name_def)
  then have c: "clonable (?cl 3) ''img'' ''1'' hdr 7 s"
    using h by (simp add: clonable_def orphan_snap_def snap_of_def seen_parent_def new_cls_rbd_parent_def RBD_FEATURE_LAYERING_def
        lacks_def CEPH_NOSNAP_def)
  have "p (header_name ?i) = None" "p RBD_DIRECTORY = None" "p RBD_CHILDREN = None" "p (id_obj_name ''c'') = None"
    "p (old_header_name ''c'') = None"
    using i by (simp_all add: p_def removed_names) (simp_all add: old_header_name_def header_name_def id_obj_name_def)
  then have room: "clone_room (?cl 3) [] ''c'' ?i (3, ''1'', 7) (\<lambda>_. [])"
    using dir_reprs_absent no_children by (simp add: clone_room_def create_ready_def short_def)
  have f: "(1 :: u64) AND NOT RBD_FEATURES_ALL = 0" "(1 :: u64) AND RBD_FEATURE_STRIPINGV2 = 0"
    "(1 :: u64) AND RBD_FEATURE_LAYERING = RBD_FEATURE_LAYERING"
    by (simp_all add: RBD_FEATURES_ALL_def RBD_FEATURE_LAYERING_def RBD_FEATURE_STRIPINGV2_def)
  have e: "(0 :: int) \<le> 3" "(3 :: int) < 2 ^ 63" "(3, ''1'', 7) = (of_int 3, ''1'', 7 :: u64)"
    "22 = (if (0 :: int) = 0 then int (unat (h_order hdr)) else 0)" "(12 :: int) \<le> 22" "(22 :: int) < 64"
    using h(4) by simp_all
  have "\<exists>q. clone calm_surroundings 3 ''img'' (Some (cs_name s)) 3 ''c'' 1 0 0 0 16 32 ([], ?cl) = Some (0, ([], ?cl(3 := q)))
    \<and> q (id_obj_name ''c'') = Some (id_object ?i) \<and> family_reprs ((\<lambda>_. [])((3, ''1'', 7) := set_insert ?i [])) (q RBD_CHILDREN)"
    using clone_exact [where cl = ?cl, OF c e(1-3) room refl f(1,3,2) e(4-6) calm_surroundings_calm refl] by blast
  then show ?thesis using h(8) \<open>p (id_obj_name ''c'') = None\<close> by (auto simp: set_insert_def)
qed

end
