(* ===== verification/Image_Copy.thy ===== *)
theory Image_Copy
  imports Clone_Exact
begin

text \<open>
  \<open>copy\<close> of \<open>librbd/internal.cc\<close>: an image is read one stripe period after the other, and every piece is
  written to the other image when its read completes. As on the rest of the data path every request
  runs to its completion before the next one starts; a request that would wait for ever is \<open>None\<close>.
  Lemmas: what one piece does, the loop, and the content of both images at its end.
\<close>

subsection \<open>The program\<close>

text \<open>Source and destination with the chains of their parents, the throttle, the pools.\<close>

type_synonym copy_state =
  "ImageCtx \<times> ImageCtx list \<times> ImageCtx \<times> ImageCtx list \<times> SimpleThrottle \<times> cluster"

text \<open>The completion of a read, with its value and its data.\<close>

definition copy_write :: "io_env \<Rightarrow> u64 \<Rightarrow> int \<Rightarrow> bytes \<Rightarrow> copy_state \<Rightarrow> copy_state option" where
  "copy_write ev off r bl st =
     (case st of (src, sps, dest, dps, th, cl) \<Rightarrow>
        if r < 0 then Some (src, sps, dest, dps, end_op r th, cl)
        else if int (length bl) \<noteq> r then None
        else
          do { (r, dest, c, cl, dps) \<leftarrow> aio_write ev off (of_nat (length bl)) bl (dest, aio_create_completion, cl, dps);
               if r < 0 then Some (src, sps, dest, dps, end_op r th, cl)
               else if \<not> c_done c then None
               else Some (src, sps, dest, dps, end_op (c_int (c_rval c)) th, cl) })"

text \<open>One piece; \<open>Inl\<close> is an early return.\<close>

definition copy_read :: "io_env \<Rightarrow> u64 \<Rightarrow> u64 \<Rightarrow> copy_state \<Rightarrow> ((int + unit) \<times> copy_state) option" where
  "copy_read ev off len st =
     (case st of (src, sps, dest, dps, th, cl) \<Rightarrow>
        do { th \<leftarrow> start_op th;
             (r, src, c, sps) \<leftarrow> aio_read_vec ev cl (add_image_op READ_OP off len src) [(off, len)] False aio_create_completion sps;
             if r < 0 then
               do { (src, sps, dest, dps, th, cl) \<leftarrow> copy_write ev off r [] (src, sps, dest, dps, th, cl);
                    _ \<leftarrow> wait_for_ret th;
                    Some (Inl r, (src, sps, dest, dps, th, cl)) }
             else if \<not> c_done c then None
             else
               do { st \<leftarrow> copy_write ev off (c_int (c_rval c)) (the_default [] (c_result c)) (src, sps, dest, dps, th, cl);
                    Some (Inr (), st) } })"

partial_function (option) copy_loop :: "io_env \<Rightarrow> u64 \<Rightarrow> u64 \<Rightarrow> u64 \<Rightarrow> copy_state \<Rightarrow> (int \<times> copy_state) option" where
  "copy_loop ev src_size period off st =
     (if off < src_size then
        Option.bind (copy_read ev off (min period (src_size - off)) st) (\<lambda>(res, st).
          case res of
            Inl r \<Rightarrow> Some (r, st)
          | Inr _ \<Rightarrow> copy_loop ev src_size period (off + period) st)
      else (case st of (src, sps, dest, dps, th, cl) \<Rightarrow>
              map_option (\<lambda>r. (r, (src, sps, dest, dps, th, cl))) (wait_for_ret th)))"

definition copy_image ::
    "io_env \<Rightarrow> u64 \<Rightarrow> ImageCtx \<Rightarrow> ImageCtx list \<Rightarrow> ImageCtx \<Rightarrow> ImageCtx list \<Rightarrow> cluster \<Rightarrow> (int \<times> copy_state) option" where
  "copy_image ev management_ops src sps dest dps cl =
     (let src_size = get_image_size src (ic_snap_id src);
          dest_size = get_image_size dest (ic_snap_id dest);
          st = (src, sps, dest, dps, new_throttle management_ops False, cl)
      in if dest_size < src_size then Some (- EINVAL, st)
         else copy_loop ev src_size (get_stripe_period src) 0 st)"

subsection \<open>Contexts after a lookup\<close>

text \<open>A context after requests to it: the table may have grown entries of the same meaning.\<close>

definition looked_up :: "ImageCtx \<Rightarrow> ImageCtx \<Rightarrow> bool" where
  "looked_up ic ic' \<longleftrightarrow> (\<exists>em an. ic' = ic\<lparr>ic_extent_map := em, ic_analyzer := an\<rparr> \<and> same_tiers (ic_extent_map ic) em)"

lemma looked_upI:
  assumes "same_tiers (ic_extent_map ic) (ic_extent_map ic')" "ic' = ic\<lparr>ic_extent_map := ic_extent_map ic', ic_analyzer := an\<rparr>"
  shows "looked_up ic ic'"
  unfolding looked_up_def using assms by blast

lemma looked_up_refl: "image_ok ic \<Longrightarrow> looked_up ic (ic\<lparr>ic_analyzer := an\<rparr>)"
  unfolding looked_up_def
  by (rule exI [of _ "ic_extent_map ic"], rule exI [of _ an]) (simp add: image_ok_def same_tiers_refl)

lemma looked_up_trans:
  assumes "looked_up a b" "looked_up b c"
  shows "looked_up a c"
proof -
  obtain em an em' an' where e: "b = a\<lparr>ic_extent_map := em, ic_analyzer := an\<rparr>" "same_tiers (ic_extent_map a) em"
    "c = b\<lparr>ic_extent_map := em', ic_analyzer := an'\<rparr>" "same_tiers (ic_extent_map b) em'"
    using assms unfolding looked_up_def by blast
  have "same_tiers (ic_extent_map a) em'" using same_tiers_trans [OF e(2)] e(4) by (simp add: e(1))
  moreover have "c = a\<lparr>ic_extent_map := em', ic_analyzer := an'\<rparr>" by (simp add: e(3)) (simp add: e(1))
  ultimately show ?thesis unfolding looked_up_def by blast
qed

lemma looked_up_same:
  assumes "looked_up ic ic'"
  shows "image_byte ic' cl y = image_byte ic cl y" "image_ok ic \<Longrightarrow> image_ok ic'" "serving ic' = serving ic"
    "ic_size ic' = ic_size ic" "foreign ic' oid = foreign ic oid"
proof -
  obtain em an where e: "ic' = ic\<lparr>ic_extent_map := em, ic_analyzer := an\<rparr>" "same_tiers (ic_extent_map ic) em"
    using assms unfolding looked_up_def by blast
  show "image_byte ic' cl y = image_byte ic cl y" using image_byte_update [OF e(2)] by (simp add: e(1))
  show "image_ok ic \<Longrightarrow> image_ok ic'" using image_ok_update [OF _ e(2)] by (simp add: e(1))
  show "serving ic' = serving ic" "ic_size ic' = ic_size ic" "foreign ic' oid = foreign ic oid"
    by (simp_all add: e(1) serving_def foreign_def)
qed

subsection \<open>One piece\<close>

lemma serving_parentless:
  "serving ic \<Longrightarrow> get_parent_overlap ic (ic_snap_id ic) = Some 0 \<and> ic_snap_id ic = CEPH_NOSNAP \<and> \<not> ic_read_only ic"
  by (simp add: serving_def get_parent_overlap_def)

lemma piece_read:
  assumes "image_ok ic" "serving ic" "quiet ev" "len \<noteq> 0" "unat off + unat len \<le> unat (ic_size ic)" "unat len < 2147483648"
  obtains bl ic' c where "aio_read_vec ev cl (add_image_op READ_OP off len ic) [(off, len)] False aio_create_completion ps
      = Some (int (unat len), ic', c, ps)"
    "c_done c" "c_rval c = int (unat len)" "c_result c = Some bl" "looked_up ic ic'"
    "bl = map (\<lambda>k. image_byte ic cl (off + of_nat k)) [0..<unat len]"
proof -
  let ?ic = "add_image_op READ_OP off len ic"
  have up: "looked_up ic ?ic" unfolding add_image_op_def by (rule looked_up_refl [OF assms(1)])
  note same = looked_up_same [OF up]
  have s: "serving ?ic" using assms(2) by (simp only: same)
  have lt: "unat off + unat len < 2 ^ 64" using assms(5) unat_lt [of "ic_size ic"] by (simp add: le_less_trans)
  have "clip_io ?ic off len = (0, len)" using assms(5) by (intro clip_inside [OF s assms(4)]) (simp only: same)
  from aio_read_vec_run [OF same(2) [OF assms(1)] assms(3) _ this assms(4) lt assms(6), of cl False ps] serving_parentless [OF s]
  obtain bl ic' c an where r: "aio_read_vec ev cl ?ic [(off, len)] False aio_create_completion ps = Some (int (unat len), ic', c, ps)"
    "c_done c" "c_rval c = int (unat len)" "c_result c = Some bl" "length bl = unat len"
    "\<forall>k < unat len. bl ! k = image_byte ?ic cl (off + of_nat k)" "same_tiers (ic_extent_map ?ic) (ic_extent_map ic')"
    "ic' = ?ic\<lparr>ic_extent_map := ic_extent_map ic', ic_analyzer := an\<rparr>"
    by auto
  have "bl = map (\<lambda>k. image_byte ic cl (off + of_nat k)) [0..<unat len]"
    by (rule nth_equalityI) (simp_all add: r(5,6) same(1))
  then show ?thesis using r(1-4) looked_up_trans [OF up looked_upI [OF r(7,8)]] by (intro that)
qed

lemma piece_write:
  assumes "image_ok ic" "serving ic" "quiet ev" "no_seqs cl" "d \<noteq> []" "unat off + length d \<le> unat (ic_size ic)"
  obtains ic' c cl' where "aio_write ev off (of_nat (length d)) d (ic, aio_create_completion, cl, ps) = Some (0, ic', c, cl', ps)"
    "c_done c" "c_rval c = 0" "looked_up ic ic'" "no_seqs cl'"
    "\<forall>y. image_byte ic cl' y = (if unat off \<le> unat y \<and> unat y < unat off + length d then d ! (unat y - unat off) else image_byte ic cl y)"
    "\<forall>pid oid. foreign ic oid \<longrightarrow> cl' pid oid = cl pid oid"
proof -
  let ?n = "of_nat (length d) :: u64"
  have "length d < 18446744073709551616" using assms(6) unat_lt_u64 [of "ic_size ic"] by linarith
  then have len: "unat ?n = length d" by (intro length_word) simp
  have n0: "?n \<noteq> 0" and fit: "unat off + unat ?n \<le> unat (ic_size ic)" using assms(5,6) len by (simp_all add: unat_pos_u64)
  have lt: "unat off + unat ?n < 2 ^ 64" using fit unat_lt [of "ic_size ic"] by (simp add: le_less_trans)
  obtain ic' c cl' es an where w: "aio_write ev off ?n d (ic, aio_create_completion, cl, ps) = Some (0, ic', c, cl', ps)"
    "c_done c" "c_rval c = 0" "same_tiers (ic_extent_map ic) (ic_extent_map ic')"
    "ic' = ic\<lparr>ic_extent_map := ic_extent_map ic', ic_analyzer := an\<rparr>" "wrote ic off d (exts_bufs es) cl cl'"
    "\<forall>x. hits (exts_bufs es) x = (if x < unat ?n then 1 else 0)"
    using aio_write_content [OF assms(1,3,4) _ _ _ n0 clip_inside [OF assms(2) n0 fit] n0 lt, of d ps] serving_parentless [OF assms(2)] len
    by (metis order_refl)
  have "\<forall>y. image_byte ic cl' y = (if unat off \<le> unat y \<and> unat y < unat off + length d then d ! (unat y - unat off) else image_byte ic cl y)"
    using w(6,7) sub_lt_range [OF lt] unat_sub_le [of off] unfolding wrote_def len by simp
  then show ?thesis using w(1-3,6) looked_upI [OF w(4,5)] unfolding wrote_def by (intro that) blast+
qed

subsection \<open>The whole copy\<close>

definition working_throttle :: "SimpleThrottle \<Rightarrow> bool" where
  "working_throttle th \<longleftrightarrow> th_max th \<noteq> 0 \<and> th_current th = 0 \<and> th_ret th = 0"

text \<open>The state of a copy when the bytes below \<open>n\<close> are copied.\<close>

definition copied :: "ImageCtx \<Rightarrow> ImageCtx \<Rightarrow> cluster \<Rightarrow> nat \<Rightarrow> ImageCtx list \<Rightarrow> ImageCtx list \<Rightarrow> copy_state \<Rightarrow> bool" where
  "copied src dest cl n sps dps st \<longleftrightarrow>
     (case st of (src1, sps1, dest1, dps1, th, cl1) \<Rightarrow>
        looked_up src src1 \<and> looked_up dest dest1 \<and> sps1 = sps \<and> dps1 = dps \<and> working_throttle th \<and> no_seqs cl1
        \<and> (\<forall>y. image_byte dest cl1 y = (if unat y < n then image_byte src cl y else image_byte dest cl y))
        \<and> (\<forall>pid oid. foreign dest oid \<longrightarrow> cl1 pid oid = cl pid oid))"

definition copy_ready :: "ImageCtx \<Rightarrow> ImageCtx \<Rightarrow> bool" where
  "copy_ready src dest \<longleftrightarrow> image_ok src \<and> image_ok dest \<and> serving src \<and> serving dest \<and> unat (ic_size src) \<le> unat (ic_size dest)
     \<and> (\<forall>k. foreign dest (format_oid (ic_format_string src) k))"

lemma source_unchanged:
  assumes "\<forall>k. foreign dest (format_oid (ic_format_string src) k)" "\<forall>pid oid. foreign dest oid \<longrightarrow> cl1 pid oid = cl pid oid"
  shows "image_byte src cl1 y = image_byte src cl y"
  using assms by (simp add: image_byte_def)

lemma copy_read_run:
  assumes ready: "copy_ready src dest" "quiet ev" and st: "copied src dest cl (unat off) sps dps st"
    and len: "len \<noteq> 0" "unat off + unat len \<le> unat (ic_size src)" "unat len < 2147483648"
  shows "\<exists>st'. copy_read ev off len st = Some (Inr (), st') \<and> copied src dest cl (unat off + unat len) sps dps st'"
proof -
  obtain src1 dest1 th cl1 where s: "st = (src1, sps, dest1, dps, th, cl1)" "looked_up src src1" "looked_up dest dest1"
    "working_throttle th" "no_seqs cl1"
    "\<forall>y. image_byte dest cl1 y = (if unat y < unat off then image_byte src cl y else image_byte dest cl y)"
    "\<forall>pid oid. foreign dest oid \<longrightarrow> cl1 pid oid = cl pid oid"
    using st by (cases st) (auto simp: copied_def)
  have r: "image_ok src" "image_ok dest" "serving src" "serving dest" "unat (ic_size src) \<le> unat (ic_size dest)"
    "\<forall>k. foreign dest (format_oid (ic_format_string src) k)"
    using ready(1) by (simp_all add: copy_ready_def)
  note s1 = looked_up_same [OF s(2)] and d1 = looked_up_same [OF s(3)]
  have ok: "image_ok src1" "image_ok dest1" "serving src1" "serving dest1" using r s1 d1 by simp_all
  have fit: "unat off + unat len \<le> unat (ic_size src1)" using len(2) by (simp add: s1(4))
  obtain bl src2 c where rd: "aio_read_vec ev cl1 (add_image_op READ_OP off len src1) [(off, len)] False aio_create_completion sps
      = Some (int (unat len), src2, c, sps)"
    "c_done c" "c_rval c = int (unat len)" "c_result c = Some bl" "looked_up src1 src2"
    "bl = map (\<lambda>k. image_byte src1 cl1 (off + of_nat k)) [0..<unat len]"
    by (rule piece_read [where cl = cl1 and ps = sps, OF ok(1,3) ready(2) len(1) fit len(3)])
  have bl: "length bl = unat len" "bl \<noteq> []" using len(1) by (simp_all add: rd(6) unat_pos_u64)
  have into: "unat off + length bl \<le> unat (ic_size dest1)" using len(2) r(5) by (simp add: bl(1) d1(4))
  obtain dest2 c' cl2 where w: "aio_write ev off (of_nat (length bl)) bl (dest1, aio_create_completion, cl1, dps) = Some (0, dest2, c', cl2, dps)"
    "c_done c'" "c_rval c' = 0" "looked_up dest1 dest2" "no_seqs cl2"
    "\<forall>y. image_byte dest1 cl2 y = (if unat off \<le> unat y \<and> unat y < unat off + length bl then bl ! (unat y - unat off) else image_byte dest1 cl1 y)"
    "\<forall>pid oid. foreign dest1 oid \<longrightarrow> cl2 pid oid = cl1 pid oid"
    by (rule piece_write [OF ok(2,4) ready(2) s(5) bl(2) into, of dps])
  obtain th1 where th: "start_op th = Some th1" "end_op 0 th1 = th"
    using s(4) by (auto simp: working_throttle_def start_op_def end_op_def Let_def)
  have ci: "c_int (int (unat len)) = int (unat len)" using len(3) by (intro c_int_id) linarith+
  have w1: "aio_write ev off len bl (dest1, aio_create_completion, cl1, dps) = Some (0, dest2, c', cl2, dps)"
    using w(1) by (simp add: bl(1))
  have "copy_read ev off len st = Some (Inr (), (src2, sps, dest2, dps, th, cl2))"
    using rd(2-4) w(2,3) ci c_int_id [of 0] by (simp add: copy_read_def s(1) th rd(1) copy_write_def bl(1) w1)
  moreover have "image_byte dest cl2 y = (if unat y < unat off + unat len then image_byte src cl y else image_byte dest cl y)" for y
  proof (cases "unat off \<le> unat y \<and> unat y < unat off + unat len")
    case True
    then have "unat y - unat off < unat len" by linarith
    then have "bl ! (unat y - unat off) = image_byte src1 cl1 (off + of_nat (unat y - unat off))"
      unfolding rd(6) by (subst nth_map) simp_all
    moreover have "off + of_nat (unat y - unat off) = y" using True by (simp add: of_nat_diff)
    moreover have "image_byte src1 cl1 y = image_byte src cl y" using s1(1) source_unchanged [OF r(6) s(7)] by simp
    ultimately show ?thesis using w(6) True by (simp add: bl(1) d1(1) [symmetric])
  next
    case False
    then have "image_byte dest1 cl2 y = image_byte dest1 cl1 y" using w(6) [rule_format, of y] bl(1) by auto
    then have "image_byte dest cl2 y = image_byte dest cl1 y" by (simp only: d1(1))
    then show ?thesis using s(6) False by auto
  qed
  moreover have "cl2 pid oid = cl pid oid" if "foreign dest oid" for pid oid using that w(7) s(7) by (simp add: d1(5))
  ultimately show ?thesis
    using looked_up_trans [OF s(2) rd(5)] looked_up_trans [OF s(3) w(4)] s(4) w(5) by (simp add: copied_def)
qed

lemma copy_loop_run:
  assumes ready: "copy_ready src dest" "quiet ev"
    and period: "period \<noteq> 0" "unat period < 2147483648" "unat (ic_size src) + unat period < 2 ^ 64"
    and st: "copied src dest cl (min (unat off) (unat (ic_size src))) sps dps st" "unat off \<le> unat (ic_size src) + unat period"
  shows "\<exists>st'. copy_loop ev (ic_size src) period off st = Some (0, st') \<and> copied src dest cl (unat (ic_size src)) sps dps st'"
  using st
proof (induction "unat (ic_size src) + unat period - unat off" arbitrary: off st rule: less_induct)
  case less
  show ?case
  proof (cases "off < ic_size src")
    case True
    let ?len = "min period (ic_size src - off)"
    have lt: "unat off < unat (ic_size src)" using True by (simp add: word_less_nat_alt)
    have sub: "unat (ic_size src - off) = unat (ic_size src) - unat off" using lt by (simp add: unat_sub_le)
    have len: "unat ?len = min (unat period) (unat (ic_size src) - unat off)"
      by (simp add: min_def word_le_nat_alt sub)
    have l: "?len \<noteq> 0" "unat off + unat ?len \<le> unat (ic_size src)" "unat ?len < 2147483648"
      unfolding unat_pos_u64 len using lt period(1,2) by (auto simp: unat_pos_u64)
    have "copied src dest cl (unat off) sps dps st" using less.prems(1) lt by simp
    then obtain st' where st': "copy_read ev off ?len st = Some (Inr (), st')" "copied src dest cl (unat off + unat ?len) sps dps st'"
      using copy_read_run [OF ready _ l] by blast
    have next_off: "unat (off + period) = unat off + unat period"
      using lt period(3) by (intro unat_add_lem [THEN iffD1]) simp
    have n: "unat off + unat ?len = min (unat (off + period)) (unat (ic_size src))"
      unfolding len next_off using lt by simp
    have "\<exists>st''. copy_loop ev (ic_size src) period (off + period) st' = Some (0, st'') \<and> copied src dest cl (unat (ic_size src)) sps dps st''"
      using lt period(1) st'(2) unfolding n by (intro less.hyps) (auto simp: next_off unat_pos_u64)
    then show ?thesis using True st'(1) by (subst copy_loop.simps) simp
  next
    case False
    then have n: "min (unat off) (unat (ic_size src)) = unat (ic_size src)" by (simp add: word_less_nat_alt min_def)
    obtain src1 sps1 dest1 dps1 th cl1 where s: "st = (src1, sps1, dest1, dps1, th, cl1)" by (metis prod_cases6)
    then have "wait_for_ret th = Some 0" using less.prems(1) by (simp add: copied_def working_throttle_def wait_for_ret_def)
    then have "copy_loop ev (ic_size src) period off st = Some (0, st)" using False s by (subst copy_loop.simps) simp
    then show ?thesis using less.prems(1) unfolding n by blast
  qed
qed

lemma copy_done:
  assumes "copy_ready src dest" "quiet ev" "no_seqs cl" "management_ops \<noteq> 0" "get_stripe_period src \<noteq> 0"
    "unat (get_stripe_period src) < 2147483648" "unat (ic_size src) + unat (get_stripe_period src) < 2 ^ 64"
  shows "\<exists>src' dest' th cl'. copy_image ev management_ops src sps dest dps cl = Some (0, (src', sps, dest', dps, th, cl'))
    \<and> looked_up dest dest'
    \<and> (\<forall>y. image_byte dest cl' y = (if unat y < unat (ic_size src) then image_byte src cl y else image_byte dest cl y))
    \<and> (\<forall>y. image_byte src' cl' y = image_byte src cl y)
    \<and> (\<forall>pid oid. foreign dest oid \<longrightarrow> cl' pid oid = cl pid oid)"
proof -
  let ?st = "(src, sps, dest, dps, new_throttle management_ops False, cl)"
  have r: "image_ok src" "image_ok dest" "serving src" "serving dest" "unat (ic_size src) \<le> unat (ic_size dest)"
    "\<forall>k. foreign dest (format_oid (ic_format_string src) k)"
    using assms(1) by (simp_all add: copy_ready_def)
  have "working_throttle (new_throttle management_ops False)" using assms(4) by (simp add: working_throttle_def new_throttle_def)
  then have "copied src dest cl (min (unat (0 :: u64)) (unat (ic_size src))) sps dps ?st"
    using looked_up_refl [OF r(1), of "ic_analyzer src"] looked_up_refl [OF r(2), of "ic_analyzer dest"] assms(3)
    by (simp add: copied_def)
  from copy_loop_run [OF assms(1,2,5,6,7) this] obtain st' where
    st': "copy_loop ev (ic_size src) (get_stripe_period src) 0 ?st = Some (0, st')" "copied src dest cl (unat (ic_size src)) sps dps st'"
    by auto
  obtain src' sps' dest' dps' th cl' where s: "st' = (src', sps', dest', dps', th, cl')" by (metis prod_cases6)
  have sz: "get_image_size src (ic_snap_id src) = ic_size src" "get_image_size dest (ic_snap_id dest) = ic_size dest"
    using r(3,4) by (simp_all add: serving_def get_image_size_def)
  have "copy_image ev management_ops src sps dest dps cl = Some (0, st')"
    using st'(1) r(5) by (simp add: copy_image_def sz word_less_nat_alt)
  moreover have c: "looked_up src src'" "looked_up dest dest'" "sps' = sps" "dps' = dps"
    "\<forall>y. image_byte dest cl' y = (if unat y < unat (ic_size src) then image_byte src cl y else image_byte dest cl y)"
    "\<forall>pid oid. foreign dest oid \<longrightarrow> cl' pid oid = cl pid oid"
    using st'(2) by (simp_all add: s copied_def)
  moreover have "image_byte src cl' y = image_byte src cl y" for y by (rule source_unchanged [OF r(6) c(6)])
  ultimately show ?thesis
    unfolding s using looked_up_same(1) [OF c(1)] looked_up_same(1) [OF c(2)]
    by (intro exI [of _ src'] exI [of _ dest'] exI [of _ th] exI [of _ cl']) simp
qed

end
