(* ===== verification/Image_Copy_To.thy ===== *)
theory Image_Copy_To
  imports Image_Copy
begin

text \<open>
  \<open>copy\<close> of \<open>librbd/internal.cc\<close> to a new name: creation, opening and the copy of the bytes. Lemmas: the names of
  data objects are those of one image only; the new image, opened again, reads as the source.
\<close>

subsection \<open>The program\<close>

text \<open>An image just created has no parent, so the destination has no chain.\<close>

definition copy_to ::
    "surroundings \<Rightarrow> ImageCtx \<Rightarrow> ImageCtx list \<Rightarrow> int \<Rightarrow> string \<Rightarrow> u64 \<Rightarrow> u32 \<Rightarrow> cio \<Rightarrow>
     (int \<times> (ImageCtx \<times> ImageCtx list) \<times> cio) option" where
  "copy_to su src sps pid destname bid extra c =
     (let src_size = get_image_size src (ic_snap_id src) in
      do { ((r, _), c) \<leftarrow> on_pool pid (create (su_create su) bid extra destname src_size (ic_old_format src) (ic_features src)
                              (int (unat (ic_order src))) (ic_stripe_unit src) (ic_stripe_count src)) c;
           if r < 0 then Some (r, (src, sps), c)
           else
      do { ((r, _), (dest, (fs, cl))) \<leftarrow> open_named su pid destname None False c;
           if r < 0 then Some (r, (src, sps), (fs, cl))
           else
      do { (r, (src, sps, dest, dps, th, cl)) \<leftarrow> copy_image (su_env su) (su_ops su) src sps dest [] cl;
           Some (r, (src, sps), (fs, cl)) }}})"

subsection \<open>Names of data objects\<close>

lemma length_hex: "length (pad0 16 (show_nat 16 (unat (n :: u64)))) = 16"
proof -
  have "length (show_nat 16 (unat n)) \<le> 16" using unat_lt [of n] by (intro length_show_nat) simp_all
  then show ?thesis by (simp add: pad0_def)
qed

lemma hex_chars: "c \<in> set (pad0 16 (show_nat 16 n)) \<Longrightarrow> c \<noteq> CHR ''r''"
proof -
  have "\<forall>d \<in> set [0..<16]. digit_char d \<noteq> CHR ''r''" by code_simp
  then have "c \<in> set (show_nat 16 n) \<Longrightarrow> c \<noteq> CHR ''r''" using show_nat_chars [of 16 c n] by auto
  then show "c \<in> set (pad0 16 (show_nat 16 n)) \<Longrightarrow> c \<noteq> CHR ''r''" by (auto simp: pad0_def)
qed

lemma data_objects_apart:
  assumes "i \<noteq> j"
  shows "format_oid (data_objects i) k \<noteq> format_oid (data_objects j) l"
proof
  assume "format_oid (data_objects i) k = format_oid (data_objects j) l"
  then have "(data_prefix i @ ''.'') @ pad0 16 (show_nat 16 (unat k)) = (data_prefix j @ ''.'') @ pad0 16 (show_nat 16 (unat l))"
    by (simp add: format_oid_def data_objects_def)
  then have "data_prefix i @ ''.'' = data_prefix j @ ''.''" using length_hex by (subst (asm) append_eq_append_conv) simp_all
  then show False using assms by (simp add: data_prefix_def)
qed

lemma data_object_not_old_header: "format_oid (data_objects i) k \<noteq> old_header_name name"
proof
  let ?hex = "pad0 16 (show_nat 16 (unat k))"
  assume "format_oid (data_objects i) k = old_header_name name"
  then have "rev (format_oid (data_objects i) k) = rev (old_header_name name)" by simp
  then have e: "rev ?hex @ rev (data_prefix i @ ''.'') = ''dbr.'' @ rev name"
    by (simp add: format_oid_def data_objects_def old_header_name_def)
  have l: "length (rev ?hex) = 16" using length_hex by simp
  have "rev ?hex ! 2 = (rev ?hex @ rev (data_prefix i @ ''.'')) ! 2" by (subst nth_append) (simp add: l del: length_rev)
  also have "\<dots> = CHR ''r''" unfolding e by simp
  finally have "CHR ''r'' \<in> set (rev ?hex)" using nth_mem [of 2 "rev ?hex"] l by simp
  then show False using hex_chars by auto
qed

lemma foreign_data: "i \<noteq> j \<Longrightarrow> ic_format_string ic = data_objects i \<Longrightarrow> foreign ic (format_oid (data_objects j) k)"
  using data_objects_apart [of i j] by (auto simp: foreign_def dest: sym)

lemma foreign_metadata:
  assumes "ic_format_string ic = data_objects i"
  shows "foreign ic RBD_DIRECTORY" "foreign ic (id_obj_name name)" "foreign ic (header_name j)" "foreign ic (old_header_name name)"
  using data_object_names data_object_not_old_header by (auto simp: foreign_def assms dest: sym)

subsection \<open>The new image\<close>

lemma reopened_ok:
  assumes "layout_plain (ic_layout ic)" "lo_os (ic_layout ic) = OBJECT_SIZE" "serving ic" "ic_size ic div EXTENT_SIZE < 0x80000000"
  shows "image_ok (reopened ic)" "serving (reopened ic)" "ic_size (reopened ic) = ic_size ic"
    "ic_format_string (reopened ic) = ic_format_string ic" "image_byte (reopened ic) cl y =
      obj_bytes (cl (ic_hdd_id ic) (format_oid (ic_format_string ic) (objectno (ic_layout ic) y))) (unat (x_offset (ic_layout ic) y))"
proof -
  have same: "ic_layout (reopened ic) = ic_layout ic" "ic_last_refresh (reopened ic) = ic_last_refresh ic"
    "ic_refresh_seq (reopened ic) = ic_refresh_seq ic" "ic_hdd_id (reopened ic) = ic_hdd_id ic" "ic_ssd_id (reopened ic) = ic_ssd_id ic"
    by (simp_all add: reopened_def initialize_WHOBBS_def Let_def new_migrater_def)
  show "serving (reopened ic)" "ic_size (reopened ic) = ic_size ic" "ic_format_string (reopened ic) = ic_format_string ic"
    using assms(3) by (simp_all add: serving_def reopened_def initialize_WHOBBS_def Let_def new_migrater_def)
  have t: "table_ok (ic_extent_map (reopened ic))" by (rule reopened_table_ok [OF assms(4)])
  then have "tiers_by_object (reopened ic)"
    using assms(1,2) by (intro plain_tiers_by_object) (simp_all add: same table_ok_def EXTENT_SIZE_def)
  moreover have "unat (lo_os (ic_layout ic)) < 2147483648" by (simp add: assms(2) OBJECT_SIZE_def)
  ultimately show "image_ok (reopened ic)"
    using layout_exact_ok [OF layout_plain_exact [OF assms(1)]] table_ok_settled [OF t] assms(3)
    by (simp add: image_ok_def same) (simp add: serving_def)
  have "em_tier (ic_extent_map (reopened ic)) y = HDD_POOL"
    using init_score_map_lookup [of "ic_size ic div EXTENT_SIZE" HDD_STRIDE]
    by (simp add: em_tier_def reopened_map HDD_STRIDE_def split: option.split)
  then show "image_byte (reopened ic) cl y =
      obj_bytes (cl (ic_hdd_id ic) (format_oid (ic_format_string ic) (objectno (ic_layout ic) y))) (unat (x_offset (ic_layout ic) y))"
    by (simp add: image_byte_def same data_ctx_def whobbs_consts reopened_def initialize_WHOBBS_def Let_def new_migrater_def)
qed

text \<open>Opening an image of 4 MB objects without a parent, on any pair of pools whose first holds the image.\<close>

lemma open_plain_image:
  assumes "image_at (cl hdd) name i hdr" "lacks hdr RBD_FEATURE_STRIPINGV2" "h_order hdr = 22" "h_prefix hdr = data_prefix i"
    "h_parent hdr = None" "h_size hdr div EXTENT_SIZE < 0x80000000" "lock_free lk" "\<not> wr < 0" "em_map (ic_extent_map mem) = []"
  obtains ic where
    "open_image lk op wr (new_ImageCtx False rc mem name [] None hdd ssd False, ([], cl)) = Some ((0, None), (ic, ([], cl)))"
    "image_ok ic" "serving ic" "ic_size ic = h_size hdr" "ic_format_string ic = data_objects i"
    "\<forall>cl y. image_byte ic cl y =
       obj_bytes (cl hdd (format_oid (data_objects i) (y div OBJECT_SIZE))) (unat (y mod OBJECT_SIZE))"
proof -
  let ?new = "new_ImageCtx False rc mem name [] None hdd ssd False"
  define ic where "ic = opened hdr i ?new"
  have new: "ic_id ?new = []" "ic_snap_name ?new = []" "ic_snap_id ?new = CEPH_NOSNAP" "\<not> ic_watch ?new" "ic_name ?new = name"
    "md_ctx ?new DEFAULT_POOL = hdd"
    by (simp_all add: new_ImageCtx_def md_ctx_def data_ctx_def DEFAULT_POOL_def HDD_POOL_def SSD_POOL_def)
  note plain = opened_plain [OF assms(2-5) ic_def]
  have "open_image lk op wr (?new, ([], cl)) = Some ((0, None), (initialize_WHOBBS ic, ([], cl)))"
    unfolding ic_def using assms(1,5,7,8) new by (intro open_found) simp_all
  moreover have "initialize_WHOBBS ic = reopened ic" using assms(9) by (intro initialize_new) (simp add: plain(8))
  moreover have sz: "ic_size ic div EXTENT_SIZE < 0x80000000" using assms(6) by (simp add: plain(5))
  note ok = reopened_ok [OF plain(1,2,7) sz]
  have l: "objectno (ic_layout ic) y = y div OBJECT_SIZE" "x_offset (ic_layout ic) y = y mod OBJECT_SIZE" for y
    using objectno_plain [OF plain(1)] x_offset_plain [OF plain(1)] plain(2) by simp_all
  ultimately show ?thesis
    using ok(1-4) plain(5,6) by (intro that [of "reopened ic"]) (simp_all add: ok(5) plain(3,6) l)
qed

text \<open>A copy is exact. The image is not smaller than the source, no object name of the source is one of its
  own, and the stripe period of the source is below 2^31: without failing requests \<open>copy\<close> ends with 0, the
  image then has the bytes of the source up to the size of the source, wherever the extents of either
  live, and the bytes it had beyond; the source reads as before, and no object of another name has changed.\<close>

theorem copy_exact:
  assumes "copy_ready src dest" "quiet ev" "no_seqs cl" "management_ops \<noteq> 0" "get_stripe_period src \<noteq> 0"
    "unat (get_stripe_period src) < 2147483648" "unat (ic_size src) + unat (get_stripe_period src) < 2 ^ 64"
  shows "\<exists>src' dest' th cl'. copy_image ev management_ops src sps dest dps cl = Some (0, (src', sps, dest', dps, th, cl'))
    \<and> (\<forall>y. image_byte dest' cl' y = (if unat y < unat (ic_size src) then image_byte src cl y else image_byte dest cl y))
    \<and> (\<forall>y. image_byte src' cl' y = image_byte src cl y)
    \<and> (\<forall>pid oid. foreign dest oid \<longrightarrow> cl' pid oid = cl pid oid)"
proof -
  from copy_done [OF assms, of sps dps] obtain src' dest' th cl' where
    "copy_image ev management_ops src sps dest dps cl = Some (0, (src', sps, dest', dps, th, cl'))" "looked_up dest dest'"
    "\<forall>y. image_byte dest cl' y = (if unat y < unat (ic_size src) then image_byte src cl y else image_byte dest cl y)"
    "\<forall>y. image_byte src' cl' y = image_byte src cl y" "\<forall>pid oid. foreign dest oid \<longrightarrow> cl' pid oid = cl pid oid"
    by blast
  then show ?thesis by (intro exI [of _ src'] exI [of _ dest'] exI [of _ th] exI [of _ cl']) (simp add: looked_up_same(1))
qed

lemma served_tiered: "image_ok image_tiered" "serving image_tiered" "ic_format_string image_tiered = data_objects ''1''"
proof -
  show "image_ok image_tiered" by (rule image_tiered_ok)
  show "serving image_tiered" by (simp add: serving_def image_tiered_def image_9M_def no_parent_def)
  show "ic_format_string image_tiered = data_objects ''1''"
    by (simp add: image_tiered_def image_9M_def data_objects_def data_prefix_def)
qed

definition elsewhere :: ImageCtx where
  "elsewhere = image_tiered\<lparr>ic_hdd_id := 5, ic_ssd_id := 6, ic_format_string := data_objects ''2''\<rparr>"

lemma elsewhere_served: "image_ok elsewhere" "serving elsewhere" "ic_format_string elsewhere = data_objects ''2''"
proof -
  have "tiers_by_object elsewhere = tiers_by_object image_tiered" by (simp add: tiers_by_object_def elsewhere_def)
  then show "image_ok elsewhere" using image_tiered_ok by (simp add: image_ok_def elsewhere_def)
  show "serving elsewhere" using served_tiered(2) by (simp add: elsewhere_def serving_def)
  show "ic_format_string elsewhere = data_objects ''2''" by (simp add: elsewhere_def)
qed

lemma copy_exact_witness:
  "\<exists>src' dest' th cl'. copy_image quiet_env 10 image_tiered [] elsewhere [] cluster_12 = Some (0, (src', [], dest', [], th, cl'))
     \<and> image_byte elsewhere cluster_12 4194303 = 0 \<and> image_byte dest' cl' 4194303 = 1 \<and> image_byte dest' cl' 4194304 = 2"
proof -
  have sz: "ic_size image_tiered = 9000000" "ic_size elsewhere = 9000000"
    by (simp_all add: elsewhere_def image_tiered_def image_9M_def)
  have "\<forall>k. foreign elsewhere (format_oid (ic_format_string image_tiered) k)"
    unfolding served_tiered(3) by (intro allI foreign_data [OF _ elsewhere_served(3)]) simp
  then have ready: "copy_ready image_tiered elsewhere"
    using served_tiered elsewhere_served sz by (simp add: copy_ready_def)
  have p: "get_stripe_period image_tiered = 4194304" by (simp add: get_stripe_period_def image_tiered_def image_9M_def)
  have e: "(10 :: u64) \<noteq> 0" "get_stripe_period image_tiered \<noteq> 0" "unat (get_stripe_period image_tiered) < 2147483648"
    "unat (ic_size image_tiered) + unat (get_stripe_period image_tiered) < 2 ^ 64"
    by (simp_all add: p sz)
  have "image_byte elsewhere cluster_12 4194303 = 0"
    by (simp add: image_byte_def elsewhere_def image_tiered_def image_9M_def em_tier_def data_ctx_def cluster_12_def whobbs_consts)
  then show ?thesis
    using copy_exact [OF ready quiet_env_quiet no_seqs_12 e, of "[]" "[]"] sz by (fastforce simp: image_tiered_byte)
qed

subsection \<open>A copy to a new name\<close>

text \<open>The source: served, of 4 MB objects, in the new format, with the id \<open>j\<close>.\<close>

definition copy_source :: "ImageCtx \<Rightarrow> string \<Rightarrow> bool" where
  "copy_source src j \<longleftrightarrow> image_ok src \<and> serving src \<and> ic_format_string src = data_objects j \<and> \<not> ic_old_format src
     \<and> ic_order src = 22 \<and> ic_stripe_unit src = 4194304 \<and> ic_stripe_count src = 1
     \<and> ic_features src AND NOT RBD_FEATURES_ALL = 0 \<and> ic_features src AND RBD_FEATURE_STRIPINGV2 = 0
     \<and> ic_size src div EXTENT_SIZE < 0x80000000"

lemma create_same_striping:
  assumes "features AND NOT RBD_FEATURES_ALL = 0" "features AND RBD_FEATURE_STRIPINGV2 = 0" "p (old_header_name name) = None"
    "p (id_obj_name name) = None"
  shows "create cf bid extra name sz False features 22 4194304 1 ([], p) = create cf bid extra name sz False features 22 0 0 ([], p)"
  using assms(1,2) detect_format_missing [where p = p, OF assms(3,4)] by (simp add: create_def one_shl_def)

text \<open>C23. A copy under a new name. When the pool has neither the name nor the id and no data objects of that id exist,
  \<open>copy\<close> of an image of 4 MB objects without a parent ends with 0; the new image, opened again on any pair of
  pools whose first is this pool, has the size of the source and reads as the source, wherever the extents
  of the source live, and the source reads as before.\<close>

theorem copy_reads_back:
  assumes src: "copy_source src j" "i \<noteq> j"
    and room: "create_ready (cl pid) d name i" "cl pid (old_header_name name) = None" "i = image_id_of bid extra" "no_seqs cl"
      "\<forall>p num. cl p (format_oid (data_objects i) num) = None"
    and su: "calm su" "quiet (su_env su)"
    and opener: "lock_free lk" "\<not> wr < 0" "em_map (ic_extent_map mem) = []"
  shows "\<exists>src' ic cl'. copy_to su src sps pid name bid extra ([], cl) = Some (0, (src', sps), ([], cl'))
    \<and> open_image lk op wr (new_ImageCtx False rc mem name [] None pid ssd False, ([], cl')) = Some ((0, None), (ic, ([], cl')))
    \<and> ic_size ic = ic_size src \<and> (\<forall>y. image_byte ic cl' y = (if unat y < unat (ic_size src) then image_byte src cl y else 0))
    \<and> (\<forall>y. image_byte src' cl' y = image_byte src cl y)"
proof -
  have s: "image_ok src" "serving src" "ic_format_string src = data_objects j" "\<not> ic_old_format src" "ic_order src = 22"
    "ic_stripe_unit src = 4194304" "ic_stripe_count src = 1" "ic_features src AND NOT RBD_FEATURES_ALL = 0"
    "ic_features src AND RBD_FEATURE_STRIPINGV2 = 0" "ic_size src div EXTENT_SIZE < 0x80000000"
    using src(1) by (simp_all add: copy_source_def)
  define hdr where "hdr = created (ic_size src) (of_int 22) (ic_features src) (data_prefix i)"
  have o: "(12 :: int) \<le> 22" "(22 :: int) < 64" by simp_all
  obtain q where q: "create (su_create su) bid extra name (ic_size src) False (ic_features src) 22 0 0 ([], cl pid) = Some ((0, 22), ([], q))"
    "create_v2 name bid extra (ic_size src) 22 (ic_features src) 0 0 ([], cl pid) = Some (0, ([], q))" "image_at q name i hdr"
    "h_parent hdr = None" "h_size hdr = ic_size src" "h_features hdr = ic_features src"
    "\<forall>o'. o' \<notin> {id_obj_name name, RBD_DIRECTORY, header_name i} \<longrightarrow> q o' = cl pid o'"
    by (rule plain_created [where p = "cl pid" and cf = "su_create su", OF room(1-3) s(8,9) o hdr_def])
  let ?cl1 = "cl(pid := q)"
  have "everywhere seq_zero q"
    using create_keeps [OF q(2) _ _ _ seq_keeping_methods] room(1,4)
    by (simp add: create_ready_def everywhere_def no_seqs_def seq_zero_id)
  then have ns: "no_seqs ?cl1" using room(4) by (simp add: no_seqs_def everywhere_def)
  have hdr: "lacks hdr RBD_FEATURE_STRIPINGV2" "h_order hdr = 22" "h_prefix hdr = data_prefix i" "h_size hdr div EXTENT_SIZE < 0x80000000"
    using s(9,10) q(5,6) by (simp_all add: lacks_def RBD_FEATURE_STRIPINGV2_def) (simp_all add: hdr_def created_def)
  have at: "image_at (?cl1 pid) name i hdr" using q(3) by simp
  have c: "lock_free (su_lock su)" "\<not> su_watch su < 0" "em_map (ic_extent_map (su_mem su)) = []" "su_ops su \<noteq> 0"
    using su(1) by (simp_all add: calm_def)
  obtain dest where dest: "open_image (su_lock su) (su_parent su) (su_watch su)
      (new_ImageCtx False (su_conf su) (su_mem su) name [] None pid pid False, ([], ?cl1)) = Some ((0, None), (dest, ([], ?cl1)))"
    "image_ok dest" "serving dest" "ic_size dest = h_size hdr" "ic_format_string dest = data_objects i"
    "\<forall>cl y. image_byte dest cl y = obj_bytes (cl pid (format_oid (data_objects i) (y div OBJECT_SIZE))) (unat (y mod OBJECT_SIZE))"
    by (rule open_plain_image [where cl = ?cl1 and hdd = pid and ssd = pid and op = "su_parent su" and rc = "su_conf su", OF at hdr(1-3) q(4) hdr(4) c(1-3)])
  have ready: "copy_ready src dest"
    using s(1-3) dest(2-5) q(5) foreign_data [OF src(2) dest(5)] by (simp add: copy_ready_def)
  have p: "get_stripe_period src = 4194304" by (simp add: get_stripe_period_def s(5,7))
  have "unat (ic_size src) div unat EXTENT_SIZE < 0x80000000" using s(10) by (simp add: word_less_nat_alt unat_div)
  then have wrap: "unat (ic_size src) + unat (get_stripe_period src) < 2 ^ 64"
    unfolding p by (simp add: whobbs_consts div_less_iff_less_mult)
  obtain src' dest' th cl' where run: "copy_image (su_env su) (su_ops su) src sps dest [] ?cl1 = Some (0, (src', sps, dest', [], th, cl'))"
    "looked_up dest dest'" "\<forall>y. image_byte dest cl' y = (if unat y < unat (ic_size src) then image_byte src ?cl1 y else image_byte dest ?cl1 y)"
    "\<forall>y. image_byte src' cl' y = image_byte src ?cl1 y" "\<forall>p oid. foreign dest oid \<longrightarrow> cl' p oid = ?cl1 p oid"
    using copy_done [OF ready su(2) ns c(4) _ _ wrap, of sps "[]"] p by auto
  have kept: "q (format_oid (data_objects k) num) = cl pid (format_oid (data_objects k) num)" for k num
    using q(7) data_object_names [of k num] by simp
  have "image_byte src ?cl1 y = image_byte src cl y" for y by (simp add: image_byte_def s(3) kept)
  moreover have "image_byte dest ?cl1 y = 0" for y using room(5) by (simp add: dest(6) kept)
  ultimately have bytes: "image_byte dest cl' y = (if unat y < unat (ic_size src) then image_byte src cl y else 0)"
    "image_byte src' cl' y = image_byte src cl y" for y
    using run(3,4) by simp_all
  have "image_at (cl' pid) name i hdr"
    using q(3) run(5) foreign_metadata [OF dest(5)] by (simp add: image_at_def)
  then obtain ic where ic: "open_image lk op wr (new_ImageCtx False rc mem name [] None pid ssd False, ([], cl')) = Some ((0, None), (ic, ([], cl')))"
    "ic_size ic = h_size hdr"
    "\<forall>cl y. image_byte ic cl y = obj_bytes (cl pid (format_oid (data_objects i) (y div OBJECT_SIZE))) (unat (y mod OBJECT_SIZE))"
    using open_plain_image [where cl = cl' and hdd = pid and ssd = ssd and op = op and rc = rc, OF _ hdr(1-3) q(4) hdr(4) opener] by metis
  have free: "cl pid (id_obj_name name) = None" using room(1) by (simp add: create_ready_def)
  have sz: "get_image_size src (ic_snap_id src) = ic_size src" using s(2) by (simp add: serving_def get_image_size_def)
  have "copy_to su src sps pid name bid extra ([], cl) = Some (0, (src', sps), ([], cl'))"
    using q(1) dest(1) run(1) create_same_striping [where p = "cl pid", OF s(8,9) room(2) free]
    by (simp add: copy_to_def sz on_pool_def s(4-7) open_named_def)
  then show ?thesis
    using ic bytes q(5) by (intro exI [of _ src'] exI [of _ ic] exI [of _ cl']) (simp add: dest(6))
qed

lemma copy_reads_back_witness:
  "\<exists>cl src' ic cl'. copy_to calm_surroundings image_tiered [] 5 ''c'' 16 32 ([], cl) = Some (0, (src', []), ([], cl'))
     \<and> open_image no_locks (\<lambda>_. Inl (- ENOENT)) 0 (new_ImageCtx False (su_conf calm_surroundings) (su_mem calm_surroundings)
          ''c'' [] None 5 6 False, ([], cl')) = Some ((0, None), (ic, ([], cl')))
     \<and> image_byte ic cl' 4194303 = 1 \<and> image_byte ic cl' 4194304 = 2"
proof -
  let ?i = "image_id_of 16 32"
  define cl :: cluster where "cl = (\<lambda>pid oid. if \<exists>k. oid = format_oid (data_objects ''1'') k then cluster_12 pid oid else None)"
  have sz: "ic_size image_tiered = 9000000" by (simp add: image_tiered_def image_9M_def)
  have src: "copy_source image_tiered ''1''"
    using served_tiered sz
    by (simp add: copy_source_def whobbs_consts) (simp add: image_tiered_def image_9M_def)
  have apart: "?i \<noteq> ''1''" by code_simp
  have none: "cl pid (id_obj_name ''c'') = None" "cl pid (header_name ?i) = None" "cl pid RBD_DIRECTORY = None"
    "cl pid (old_header_name ''c'') = None" "cl p (format_oid (data_objects ?i) num) = None" for pid p num
    using data_object_names data_object_not_old_header data_objects_apart [OF apart] by (auto simp: cl_def dest: sym)
  have room: "create_ready (cl 5) [] ''c'' ?i" using none dir_reprs_absent by (simp add: create_ready_def short_def)
  have ns: "no_seqs cl" using no_seqs_12 by (simp add: no_seqs_def cl_def seq_zero_def)
  have absent: "\<forall>p num. cl p (format_oid (data_objects ?i) num) = None" using none(5) by blast
  have m: "em_map (ic_extent_map (su_mem calm_surroundings)) = []" by (simp add: calm_surroundings_def)
  have same: "image_byte image_tiered cl y = image_byte image_tiered cluster_12 y" for y
    by (auto simp: image_byte_def cl_def served_tiered(3))
  have q: "quiet (su_env calm_surroundings)" using quiet_env_quiet by (simp add: calm_surroundings_def)
  have w: "\<not> (0 :: int) < 0" by simp
  from copy_reads_back [where cl = cl and pid = 5 and sps = "[]" and ssd = 6 and op = "\<lambda>_. Inl (- ENOENT)" and
      rc = "su_conf calm_surroundings", OF src apart room none(4) refl ns absent calm_surroundings_calm q no_locks_free w m]
  obtain src' ic cl' where "copy_to calm_surroundings image_tiered [] 5 ''c'' 16 32 ([], cl) = Some (0, (src', []), ([], cl'))"
    "open_image no_locks (\<lambda>_. Inl (- ENOENT)) 0 (new_ImageCtx False (su_conf calm_surroundings) (su_mem calm_surroundings)
          ''c'' [] None 5 6 False, ([], cl')) = Some ((0, None), (ic, ([], cl')))"
    "\<forall>y. image_byte ic cl' y = (if unat y < unat (ic_size image_tiered) then image_byte image_tiered cl y else 0)"
    by blast
  then show ?thesis by (intro exI [of _ cl] exI [of _ src'] exI [of _ ic] exI [of _ cl']) (simp add: sz same image_tiered_byte)
qed

end
