(* ===== verification/Spec2Isabelle.thy ===== *)
theory Spec2Isabelle
  imports Prelude Stdmap Textio Striper Striper_Tiling Striped_Read Osd_Ops Rados_Io Extent_Map
    Analyzer_Model Image_Ctx Aio_Completion Aio_Request Data_Path Data_Content Aio_Read_Steps Discard_Content
    Migrater_Model Tiering Tiered_Disk Migration_Race Aio_Flush
    Simulation Rbd_Types Encoding Objclass Cls_Types Cls_Header Cls_Header_Spec Cls_Header_Props
    Cls_Directory Cls_Directory_Spec Cls_Directory_Props Cls_Children
    Old_Header Cls_Client Image_Resize Tmap Image_Create Image_Open Image_Names Snap_Ops Single_Pool Image_Refresh Image_Life Clone_Race Image_Clone Clone_Exact Image_Copy Image_Copy_To
begin

text \<open>
  MOBBS is a Ceph 0.72.2 whose RBD client keeps the extents (4 MiB pieces) of a block image on two
  pools, one of hard disks and one of solid-state disks, and moves them as the load changes. The code
  verified here is the client, \<open>src/src/ceph-0.72.2-src/librbd\<close>, with what it rests on: the striping of
  an image over objects (\<open>osdc/Striper.cc\<close>), the operations of the object store
  (\<open>osd/ReplicatedPG.cc\<close>, \<open>os/FileStore.cc\<close>), the client's list of writes in flight
  (\<open>librados/IoCtxImpl.cc\<close>), and the class methods that run inside the object store
  (\<open>cls/rbd/cls_rbd.cc\<close>, over \<open>objclass/class_api.cc\<close> and \<open>include/encoding.h\<close>).

  How the parts interact. A read or write of the image is clipped, mapped by the striper to object
  extents, and each object request goes to the pool that the extent table names, waiting while the
  extent is on its way. The object store runs the request as a transaction; a missing object of a
  clone sends a read to the parent, and a write to a copy-up. Every request is also noted by the
  analyzer. A thread of the analyzer turns the notes into a score per extent, decides where each
  extent should be, and hands the migrater the extents to move; the migrater marks the extent in the
  table, waits for the writes in flight, copies the objects, changes the table and removes the source.

  Theories, in the order of the calls:
  \<^item> \<open>Prelude\<close>, \<open>Stdmap\<close>, \<open>Textio\<close>, \<open>Simulation\<close>, \<open>Rbd_Types\<close>: machine integers, error numbers, \<open>std::map\<close>
    as a sorted list (locale \<open>ordered_map\<close>), number formatting, the notion of refinement (locale
    \<open>simulation\<close>), shared constants.
  \<^item> \<open>Striper\<close>, \<open>Striper_Tiling\<close>, \<open>Striped_Read\<close>: \<open>osdc/Striper.cc\<close>. The extents tile the request, the
    inverse mapping inverts, truncation separates, and a striped read is put together exactly.
  \<^item> \<open>Osd_Ops\<close>, \<open>Rados_Io\<close>: objects and their operations (locale \<open>byte_store\<close>), with the rewriting of a
    \<open>ZERO\<close> that reaches the end of its object into a \<open>TRUNCATE\<close> or nothing; well-formed objects, failed
    transactions change nothing.
  \<^item> \<open>Extent_Map\<close> (\<open>WHOBBS.h\<close>, \<open>Mapper.cc\<close>), \<open>Analyzer_Model\<close> (\<open>Analyzer.cc\<close>), \<open>Migrater_Model\<close>
    (\<open>Migrater.cc\<close>, locale \<open>mover\<close>), \<open>Tiering\<close> (\<open>ImageCtx::initialize_WHOBBS\<close>, \<open>finilize_WHOBBS\<close>,
    \<open>Analyzer::handle\<close>): the tiering. The table survives its text form, scores and tendencies are
    exact, the migration limit holds, a migration and a round keep the content of the image.
  \<^item> \<open>Image_Ctx\<close>, \<open>Aio_Completion\<close>, \<open>Aio_Request\<close>, \<open>Data_Path\<close>: \<open>ImageCtx.cc\<close>, \<open>AioCompletion.cc\<close>,
    \<open>AioRequest.cc\<close> and the reads, writes and discards of \<open>internal.cc\<close>.
  \<^item> \<open>Aio_Read_Steps\<close>: the completion of a read as a step relation, with its object reads answered in any
    order; with \<open>Aio_Completion\<close>, which does the same for writes, discards and flushes, every completion
    completes once, with the right value, and a read with the right buffer.
  \<^item> \<open>Data_Content\<close>, \<open>Discard_Content\<close>, \<open>Tiered_Disk\<close>: what the data path does to the bytes of an image;
    the tiered image refines a flat array of bytes under any sequence of writes, reads and rounds.
  \<^item> \<open>Migration_Race\<close>, \<open>Aio_Flush\<close>: a migration beside concurrent writers as a step relation - nothing is lost
    in a run where no writer stands between its lookup and its send while the migrater waits, and otherwise an
    acknowledged write can be - and the waiting for writes in flight.
  \<^item> \<open>Encoding\<close> (locale \<open>codec\<close>), \<open>Objclass\<close> (locale \<open>paged\<close>), \<open>Cls_Types\<close>: bytes of values, what a class
    method sees of its object, the records that are stored.
  \<^item> \<open>Cls_Header\<close>, \<open>Cls_Header_Spec\<close>, \<open>Cls_Header_Props\<close>: the class methods on the header object of an
    image, from the bytes of their arguments to the bytes of the key map; the abstract header that any
    sequence of creations, changes and queries refines, and its invariant.
  \<^item> \<open>Cls_Directory\<close>, \<open>Cls_Directory_Spec\<close>, \<open>Cls_Directory_Props\<close>, \<open>Cls_Children\<close>: the directory of images
    as a one-to-one map between names and ids, and the children of each parent as a set.
  \<^item> \<open>Old_Header\<close>: the methods on format 1 headers, a flat string with the snapshots behind it.
  \<^item> \<open>Cls_Client\<close> (\<open>cls/rbd/cls_rbd_client.cc\<close>): the client's side of all these methods; what it reads is what
    the header says.
  \<^item> \<open>Image_Resize\<close>: \<open>resize\<close> and \<open>trim_image\<close> with the throttle of \<open>common/Throttle.cc\<close>; a shrink is exact on
    the HDD pool and leaves the SSD pool behind.

  \<^item> \<open>Tmap\<close>: the update of a trivial map (\<open>do_tmapup\<close> of \<open>osd/ReplicatedPG.cc\<close>), the directory of old images;
    the one-pass update is the slow one, but for repeated keys and \<open>CREATE\<close>.
  \<^item> \<open>Image_Create\<close>, \<open>Image_Open\<close>: \<open>create\<close> with the undoing of a creation that fails, and \<open>ImageCtx::init\<close>, which
    finds what was created.
  \<^item> \<open>Image_Names\<close>: \<open>list\<close> and \<open>rename\<close>; every name is listed once, and a renaming moves the image or says why not.
  \<^item> \<open>Snap_Ops\<close>: creation, removal and protection of the snapshots of an image, the search of all pools for the
    clones of a snapshot; a snapshot loses its protection exactly when it has no clone.
  \<^item> \<open>Image_Refresh\<close>, \<open>Image_Life\<close>: the refresh of a context from its header object, \<open>open_image\<close> and
    \<open>close_image\<close>, which the error path of an open also runs, before the migrater is made; after a refresh the context is what the header says, and an image that was created and opened is a disk of zeros.
  \<^item> \<open>Clone_Race\<close>: clones of a snapshot beside clients that take away its protection, as a step relation; with one
    such client no clone loses its parent, with two it can.
  \<^item> \<open>Image_Clone\<close>, \<open>Clone_Exact\<close>: \<open>clone\<close> and \<open>remove\<close>; a removal takes away all of an image that is on its pool, and
    a clone leaves a child with its parent set and registered.
  \<^item> \<open>Image_Copy\<close>, \<open>Image_Copy_To\<close>: \<open>copy\<close> to an image and to a new name; the copy reads as the source.
  \<^item> \<open>Single_Pool\<close>: the context that \<open>RBD::open\<close> makes, and what a migration does to it.

  Conventions. A function that can fail an assertion or divide by zero returns an \<open>option\<close>; error codes
  are negative \<open>int\<close>s, as in the code. Integers of a width are words. What the code cannot decide for
  itself is an argument: the failures of the network (\<open>env\<close>, \<open>fault\<close>), the loads of a report, the
  moment at which a close is seen (\<open>stop\<close>). Loops whose end is not obvious are partial functions or
  carry a list of events; the theorems about them state that they return. A request that would wait for
  an extent on its way does not return in the sequential model (\<open>None\<close>); \<open>Migration_Race\<close> runs it
  beside the migrater. The write machine needs at most four results. Listings of keys are read in
  pages of 64, and the loops over them are proved to end with every key seen.

  Not modelled. Locks and condition variables (interleavings are explicit where they matter), the
  object cacher, perf counters and logging; watch and notify; the C and C++ entry points
  (\<open>librbd.cc\<close>) but \<open>open\<close>; flatten and rollback; snapshots of the objects themselves, so snapshots of an
  image are modelled as metadata. Object maps of the monitor, placement, replication and recovery lie
  below the object operations. \<open>src/src/ceph-0.67-src\<close> is an earlier state of the work with a first form of
  the extent table (\<open>librbd/Extent.h\<close>), superseded by the tree modelled here.
\<close>

end
